(* ===== verification/Summ_Prelude.thy ===== *)
theory Summ_Prelude
  imports "HOL-Library.Word" "HOL-Library.Sublist" "HOL-Library.List_Lexorder"
begin

text \<open>
  What every theory of the development shares: the machine types of the Rust
  sources (\<open>u8\<close>, \<open>u16\<close>, \<open>u32\<close>, \<open>u64\<close>, byte vectors, UTF-8 strings), big-endian
  byte encodings, saturating arithmetic, the \<open>Result\<close> type with the \<open>?\<close> operator, and
  operations that also carry the mutable state behind a shared reference.

  Rust values are modelled as follows.
  \<^item> \<open>Vec<u8>\<close> and \<open>&[u8]\<close> are lists of 8-bit words, ordered lexicographically
    (the instance of \<open>List_Lexorder\<close>), which is the order of Rust slices and the
    key order of both metadata engines.
  \<^item> \<open>String\<close> and \<open>&str\<close> are HOL strings, one character per UTF-8 byte.
  \<^item> \<open>Result<T, E>\<close> is a sum with the error on the left.
  \<^item> A panic is a value of its own (\<open>Panics\<close>) wherever the source can panic.
\<close>

section \<open>Collections of facts\<close>

named_theorems key_defs \<open>key builders, as an explicit first byte and its components\<close>
named_theorems key_codes \<open>prefix-free components: cancelling an equal encoding on both sides\<close>
named_theorems run_simps \<open>running an operation on a state\<close>
named_theorems wp_simps \<open>what must hold before an operation for a postcondition after it\<close>

section \<open>Machine types\<close>

type_synonym byte = "8 word"
type_synonym bytes = "8 word list"
type_synonym u16 = "16 word"
type_synonym u32 = "32 word"
type_synonym u64 = "64 word"

definition sat_add :: "'a::len word \<Rightarrow> 'a word \<Rightarrow> 'a word" where
  "sat_add a b = (if unat a + unat b < 2 ^ LENGTH('a) then a + b else - 1)"

definition sat_sub :: "'a::len word \<Rightarrow> 'a word \<Rightarrow> 'a word" where
  "sat_sub a b = (if b \<le> a then a - b else 0)"

definition sat_mul :: "'a::len word \<Rightarrow> 'a word \<Rightarrow> 'a word" where
  "sat_mul a b = (if unat a * unat b < 2 ^ LENGTH('a) then a * b else - 1)"

lemma unat_minus_one_word_eq: "unat (- 1 :: 'a::len word) = 2 ^ LENGTH('a) - 1"
  by (simp add: unsigned_minus_1_eq_mask mask_eq_exp_minus_1)

lemma unat_sat_add:
  fixes a b :: "'a::len word"
  shows "unat (sat_add a b) = min (unat a + unat b) (2 ^ LENGTH('a) - 1)"
  by (auto simp: sat_add_def unat_word_ariths unat_minus_one_word_eq)

lemma unat_sat_sub: "unat (sat_sub a b) = unat a - unat b"
  by (auto simp: sat_sub_def unat_sub word_le_nat_alt)

lemma unat_sat_mul:
  fixes a b :: "'a::len word"
  shows "unat (sat_mul a b) = min (unat a * unat b) (2 ^ LENGTH('a) - 1)"
  by (auto simp: sat_mul_def unat_word_ariths unat_minus_one_word_eq)

text \<open>The bitwise complement reverses the order; keys use it to sort the newest first.\<close>

lemma unat_not: "unat (not (a :: 'a::len word)) = unat (- 1 :: 'a word) - unat a"
proof -
  have "not a = - 1 - a" by (simp add: not_eq_complement)
  moreover have "unat (- 1 - a) = unat (- 1 :: 'a word) - unat a"
    by (rule unat_sub) (rule word_order.extremum)
  ultimately show ?thesis by simp
qed

lemma not_less_not: "not (a :: 'a::len word) < not b \<longleftrightarrow> b < a"
  using word_order.extremum [of a] word_order.extremum [of b]
  unfolding word_less_nat_alt unat_not word_le_nat_alt by linarith

section \<open>Big-endian bytes\<close>

text \<open>\<open>to_be_bytes\<close> and \<open>from_be_bytes\<close> of the Rust integer types.\<close>

fun be_bytes :: "nat \<Rightarrow> nat \<Rightarrow> bytes" where
  "be_bytes 0 x = []"
| "be_bytes (Suc n) x = word_of_nat (x div 256 ^ n) # be_bytes n (x mod 256 ^ n)"

fun be_nat :: "bytes \<Rightarrow> nat" where
  "be_nat [] = 0"
| "be_nat (b # bs) = unat b * 256 ^ length bs + be_nat bs"

definition to_be_bytes :: "'a::len word \<Rightarrow> bytes" where
  "to_be_bytes w = be_bytes (LENGTH('a) div 8) (unat w)"

definition from_be_bytes :: "bytes \<Rightarrow> 'a::len word" where
  "from_be_bytes bs = word_of_nat (be_nat bs)"

lemma length_be_bytes [simp]: "length (be_bytes n x) = n"
  by (induction n arbitrary: x) auto

lemma be_nat_less: "be_nat bs < 256 ^ length bs"
proof (induction bs)
  case Nil
  then show ?case by simp
next
  case (Cons b bs)
  have "unat b < 2 ^ LENGTH(8)"
    by (rule unsigned_less)
  then have "unat b \<le> 255" by simp
  then have "unat b * 256 ^ length bs \<le> 255 * 256 ^ length bs"
    by (rule mult_right_mono) simp
  then show ?case
    using Cons unfolding be_nat.simps length_Cons power_Suc by linarith
qed

lemma be_nat_be_bytes: "x < 256 ^ n \<Longrightarrow> be_nat (be_bytes n x) = x"
proof (induction n arbitrary: x)
  case 0
  then show ?case by simp
next
  case (Suc n)
  then have "x div 256 ^ n < 256"
    by (simp add: less_mult_imp_div_less)
  with Suc show ?case
    by (simp add: unat_of_nat div_mult_mod_eq)
qed

lemma be_bytes_be_nat: "be_bytes (length bs) (be_nat bs) = bs"
proof (induction bs)
  case Nil
  then show ?case by simp
next
  case (Cons b bs)
  then show ?case
    using be_nat_less [of bs] by simp
qed

lemma less_iff_div_mod:
  fixes x y q :: nat
  assumes "0 < q"
  shows "x < y \<longleftrightarrow> x div q < y div q \<or> (x div q = y div q \<and> x mod q < y mod q)"
proof -
  have "x div q < y div q \<Longrightarrow> x < y"
    by (meson div_le_mono leD leI)
  moreover have "x div q > y div q \<Longrightarrow> \<not> x < y"
    by (meson div_le_mono leD less_imp_le)
  moreover have "x div q = y div q \<Longrightarrow> x < y \<longleftrightarrow> x mod q < y mod q"
    by (metis div_mult_mod_eq nat_add_left_cancel_less)
  ultimately show ?thesis
    by (metis linorder_neqE_nat)
qed

text \<open>Big-endian is what makes the byte order of keys the numeric order.\<close>

lemma be_bytes_less:
  "x < 256 ^ n \<Longrightarrow> y < 256 ^ n \<Longrightarrow> be_bytes n x < be_bytes n y \<longleftrightarrow> x < y"
proof (induction n arbitrary: x y)
  case 0
  then show ?case by simp
next
  case (Suc n)
  let ?q = "256 ^ n :: nat"
  have xd: "x div ?q < 256" and yd: "y div ?q < 256"
    using Suc.prems by (simp_all add: less_mult_imp_div_less)
  have hd: "(word_of_nat (x div ?q) :: byte) < word_of_nat (y div ?q) \<longleftrightarrow> x div ?q < y div ?q"
    "(word_of_nat (x div ?q) :: byte) = word_of_nat (y div ?q) \<longleftrightarrow> x div ?q = y div ?q"
    using xd yd by (simp_all add: word_less_nat_alt unat_of_nat word_unat_eq_iff)
  have tl: "be_bytes n (x mod ?q) < be_bytes n (y mod ?q) \<longleftrightarrow> x mod ?q < y mod ?q"
    by (rule Suc.IH) simp_all
  have "x < y \<longleftrightarrow> x div ?q < y div ?q \<or> (x div ?q = y div ?q \<and> x mod ?q < y mod ?q)"
    by (rule less_iff_div_mod) simp
  then show ?case
    by (simp add: hd tl)
qed

text \<open>
  The four widths in use (8 to 64 bits) are all whole numbers of bytes; the lemmas carry
  that as a premise about the type's length, which \<open>simp\<close> discharges at each width.
\<close>

lemma length_to_be_bytes [simp]: "length (to_be_bytes (w :: 'a::len word)) = LENGTH('a) div 8"
  by (simp add: to_be_bytes_def)

lemma to_be_bytes_not_Nil [simp]:
  "to_be_bytes (a :: u16) \<noteq> []" "to_be_bytes (b :: u32) \<noteq> []" "to_be_bytes (c :: u64) \<noteq> []"
  by (simp_all flip: length_greater_0_conv)

lemma unat_less_256:
  fixes w :: "'a::len word"
  assumes "8 dvd LENGTH('a)"
  shows "unat w < 256 ^ (LENGTH('a) div 8)"
proof -
  have "(256 :: nat) ^ (LENGTH('a) div 8) = 2 ^ LENGTH('a)"
    using assms power_mult [of "2 :: nat" 8 "LENGTH('a) div 8"] by simp
  then show ?thesis
    using unsigned_less [of w] by simp
qed

lemma from_to_be_bytes:
  fixes w :: "'a::len word"
  assumes "8 dvd LENGTH('a)"
  shows "from_be_bytes (to_be_bytes w) = w"
  by (simp add: from_be_bytes_def to_be_bytes_def be_nat_be_bytes unat_less_256 assms)

lemma to_be_bytes_less:
  fixes v w :: "'a::len word"
  assumes "8 dvd LENGTH('a)"
  shows "to_be_bytes v < to_be_bytes w \<longleftrightarrow> v < w"
  by (simp add: to_be_bytes_def be_bytes_less unat_less_256 assms word_less_nat_alt)

lemma to_be_bytes_inject:
  fixes v w :: "'a::len word"
  assumes "8 dvd LENGTH('a)"
  shows "to_be_bytes v = to_be_bytes w \<longleftrightarrow> v = w"
  by (metis assms from_to_be_bytes)

lemma to_from_be_bytes:
  assumes "8 dvd LENGTH('a::len)" and "length bs = LENGTH('a) div 8"
  shows "to_be_bytes (from_be_bytes bs :: 'a word) = bs"
proof -
  have "(256 :: nat) ^ length bs = 2 ^ LENGTH('a)"
    using assms power_mult [of "2 :: nat" 8 "LENGTH('a) div 8"] by simp
  then have "be_nat bs < 2 ^ LENGTH('a)"
    using be_nat_less [of bs] by simp
  then have "unat (word_of_nat (be_nat bs) :: 'a word) = be_nat bs"
    by (simp add: unat_of_nat)
  then show ?thesis
    using assms(2) be_bytes_be_nat [of bs] by (simp add: to_be_bytes_def from_be_bytes_def)
qed

lemmas be16 = from_to_be_bytes [where 'a = 16, simplified] to_be_bytes_less [where 'a = 16, simplified]
  to_be_bytes_inject [where 'a = 16, simplified]
lemmas be32 = from_to_be_bytes [where 'a = 32, simplified] to_be_bytes_less [where 'a = 32, simplified]
  to_be_bytes_inject [where 'a = 32, simplified]
lemmas be64 = from_to_be_bytes [where 'a = 64, simplified] to_be_bytes_less [where 'a = 64, simplified]
  to_be_bytes_inject [where 'a = 64, simplified]
declare be16 [simp] be32 [simp] be64 [simp]

section \<open>Prefixes and the lexicographic order\<close>

text \<open>\<open>slice.starts_with(p)\<close> is \<open>prefix p k\<close>; \<open>strip_prefix\<close> returns what follows.\<close>

definition strip_prefix :: "'a list \<Rightarrow> 'a list \<Rightarrow> 'a list option" where
  "strip_prefix k p = (if prefix p k then Some (drop (length p) k) else None)"

lemma strip_prefix_append [simp]: "strip_prefix (p @ r) p = Some r"
  by (simp add: strip_prefix_def)

lemma strip_prefix_cancel [simp]:
  "strip_prefix (a # x) (a # y) = strip_prefix x y" "strip_prefix (p @ x) (p @ y) = strip_prefix x y"
  "strip_prefix x [] = Some x"
  by (simp_all add: strip_prefix_def)

lemma strip_prefix_Some: "strip_prefix k p = Some r \<longleftrightarrow> k = p @ r"
  by (auto simp: strip_prefix_def prefix_def)

lemma prefix_append_eq_length:
  "length a = length b \<Longrightarrow> prefix (a @ xs) (b @ ys) \<longleftrightarrow> a = b \<and> prefix xs ys"
  by (auto simp: prefix_def append_eq_append_conv)

lemma append_less_eq_length:
  fixes a b xs ys :: "'a::linorder list"
  shows "length a = length b \<Longrightarrow> a @ xs < b @ ys \<longleftrightarrow> a < b \<or> (a = b \<and> xs < ys)"
  by (induction a b rule: list_induct2) auto

lemma append_less_same [simp]:
  fixes xs ys :: "'a::linorder list"
  shows "p @ xs < p @ ys \<longleftrightarrow> xs < ys"
  by (induction p) auto

lemma append_le_same [simp]:
  fixes xs ys :: "'a::linorder list"
  shows "p @ xs \<le> p @ ys \<longleftrightarrow> xs \<le> ys"
  by (induction p) auto

lemma prefix_imp_le:
  fixes p k :: "'a::linorder list"
  assumes "prefix p k"
  shows "p \<le> k"
  using assms append_le_same [of p "[]"] by (auto simp: prefix_def)

text \<open>The keys under one prefix are contiguous: nothing else sorts between two of them.\<close>

lemma prefix_convex:
  fixes p x y z :: "'a::linorder list"
  assumes "prefix p x" and "prefix p z" and "x \<le> y" and "y \<le> z"
  shows "prefix p y"
  using assms
proof (induction p arbitrary: x y z)
  case Nil
  then show ?case by simp
next
  case (Cons a p)
  from Cons.prems(1,2) obtain x' z' where xz: "x = a # x'" "z = a # z'" "prefix p x'" "prefix p z'"
    by (auto simp: prefix_def)
  have "y \<noteq> []"
    using Cons.prems(3) xz(1) by auto
  then obtain b y' where y: "y = b # y'"
    by (cases y) auto
  have "a # x' \<le> b # y'" "b # y' \<le> a # z'"
    using Cons.prems(3,4) xz(1,2) y by simp_all
  then have b: "b = a" and le: "x' \<le> y'" "y' \<le> z'"
    by (auto simp del: append_le_same)
  from Cons.IH [OF xz(3,4) le] show ?case
    by (simp add: y b)
qed

section \<open>Strings\<close>

definition char_byte :: "char \<Rightarrow> byte" where
  "char_byte c = word_of_nat (of_char c)"

definition byte_char :: "byte \<Rightarrow> char" where
  "byte_char b = char_of (unat b)"

definition as_bytes :: "string \<Rightarrow> bytes" where
  "as_bytes s = map char_byte s"

lemma unat_char_byte: "unat (char_byte c) = of_char c"
  using of_char_of [of "of_char c :: nat"] by (simp add: char_byte_def unat_of_nat)

lemma byte_char_char_byte [simp]: "byte_char (char_byte c) = c"
  by (simp add: byte_char_def unat_char_byte)

lemma char_byte_byte_char [simp]: "char_byte (byte_char b) = b"
proof -
  have "unat b < 256"
    using unsigned_less [of b] by simp
  then have "(of_char (char_of (unat b) :: char) :: nat) = unat b"
    by simp
  then show ?thesis
    by (simp add: char_byte_def byte_char_def)
qed

lemma char_byte_inject [simp]: "char_byte c = char_byte d \<longleftrightarrow> c = d"
  by (metis byte_char_char_byte)

lemma as_bytes_inject [simp]: "as_bytes s = as_bytes t \<longleftrightarrow> s = t"
  by (auto simp: as_bytes_def inj_map_eq_map inj_def)

lemma map_byte_char_as_bytes [simp]: "map byte_char (as_bytes s) = s"
  by (simp add: as_bytes_def comp_def)

lemma length_as_bytes [simp]: "length (as_bytes s) = length s"
  by (simp add: as_bytes_def)

lemma as_bytes_append [simp]: "as_bytes (s @ t) = as_bytes s @ as_bytes t"
  by (simp add: as_bytes_def)

lemma as_bytes_Nil [simp]: "as_bytes [] = []"
  by (simp add: as_bytes_def)

lemma as_bytes_eq_Nil [simp]: "as_bytes s = [] \<longleftrightarrow> s = []"
  by (simp add: as_bytes_def)

lemma as_bytes_Cons [simp]: "as_bytes (c # s) = char_byte c # as_bytes s"
  by (simp add: as_bytes_def)

lemma in_as_bytes: "b \<in> set (as_bytes s) \<longleftrightarrow> byte_char b \<in> set s"
  by (force simp: as_bytes_def)

text \<open>
  \<open>std::str::from_utf8\<close>: the well-formed sequences of the Unicode standard, with no
  overlong form, no surrogate and nothing above U+10FFFF.
\<close>

definition is_cont :: "byte \<Rightarrow> bool" where
  "is_cont b \<longleftrightarrow> 0x80 \<le> b \<and> b \<le> 0xBF"

fun utf8_valid :: "bytes \<Rightarrow> bool" where
  "utf8_valid [] = True"
| "utf8_valid (a # r) =
     (if a < 0x80 then utf8_valid r
      else if 0xC2 \<le> a \<and> a \<le> 0xDF then
        (case r of b # r' \<Rightarrow> is_cont b \<and> utf8_valid r' | _ \<Rightarrow> False)
      else if 0xE0 \<le> a \<and> a \<le> 0xEF then
        (case r of b # c # r' \<Rightarrow>
            is_cont b \<and> (a = 0xE0 \<longrightarrow> 0xA0 \<le> b) \<and> (a = 0xED \<longrightarrow> b \<le> 0x9F)
            \<and> is_cont c \<and> utf8_valid r'
         | _ \<Rightarrow> False)
      else if 0xF0 \<le> a \<and> a \<le> 0xF4 then
        (case r of b # c # d # r' \<Rightarrow>
            is_cont b \<and> (a = 0xF0 \<longrightarrow> 0x90 \<le> b) \<and> (a = 0xF4 \<longrightarrow> b \<le> 0x8F)
            \<and> is_cont c \<and> is_cont d \<and> utf8_valid r'
         | _ \<Rightarrow> False)
      else False)"

definition from_utf8 :: "bytes \<Rightarrow> string option" where
  "from_utf8 bs = (if utf8_valid bs then Some (map byte_char bs) else None)"

text \<open>Every Rust \<open>str\<close> is well-formed; \<open>is_str\<close> says it of a HOL string.\<close>

definition is_str :: "string \<Rightarrow> bool" where
  "is_str s \<longleftrightarrow> utf8_valid (as_bytes s)"

definition is_ascii :: "string \<Rightarrow> bool" where
  "is_ascii s \<longleftrightarrow> (\<forall>c \<in> set s. char_byte c < 0x80)"

lemma from_utf8_as_bytes [simp]: "is_str s \<Longrightarrow> from_utf8 (as_bytes s) = Some s"
  by (simp add: from_utf8_def is_str_def)

lemma from_utf8_Some: "from_utf8 bs = Some s \<Longrightarrow> bs = as_bytes s \<and> is_str s"
  by (auto simp: from_utf8_def is_str_def as_bytes_def comp_def split: if_splits)

lemma is_ascii_str: "is_ascii s \<Longrightarrow> is_str s"
proof (induction s)
  case Nil
  then show ?case by (simp add: is_str_def)
next
  case (Cons c s)
  then show ?case by (simp add: is_str_def is_ascii_def)
qed

section \<open>Calls, results and operations\<close>

datatype 'a call = Panics | Returns 'a

text \<open>The Rust operator \<open>?\<close> on a \<open>Result\<close>, and \<open>Result::map_err\<close>.\<close>

definition and_then :: "'e + 'a \<Rightarrow> ('a \<Rightarrow> 'e + 'b) \<Rightarrow> 'e + 'b" where
  "and_then r k = (case r of Inl e \<Rightarrow> Inl e | Inr a \<Rightarrow> k a)"

definition map_err :: "('e \<Rightarrow> 'f) \<Rightarrow> 'e + 'a \<Rightarrow> 'f + 'a" where
  "map_err f r = (case r of Inl e \<Rightarrow> Inl (f e) | Inr a \<Rightarrow> Inr a)"

definition ok_or :: "'e \<Rightarrow> 'a option \<Rightarrow> 'e + 'a" where
  "ok_or e x = (case x of None \<Rightarrow> Inl e | Some a \<Rightarrow> Inr a)"

lemma result_simps [simp]:
  "and_then (Inl e) k = Inl e" "and_then (Inr a) k = k a"
  "map_err f (Inl e) = Inl (f e)" "map_err f (Inr a) = Inr a"
  "ok_or e None = Inl e" "ok_or e (Some a) = Inr a"
  by (simp_all add: and_then_def map_err_def ok_or_def)

lemma and_then_Inr: "and_then r k = Inr b \<longleftrightarrow> (\<exists>a. r = Inr a \<and> k a = Inr b)"
  by (cases r) auto

text \<open>
  An operation behind \<open>&self\<close> that reads and writes shared state: it returns a result and
  the state it leaves, also when it fails, because a failing call keeps what it wrote before.
\<close>

type_synonym ('s, 'e, 'a) action = "'s \<Rightarrow> ('e + 'a) \<times> 's"

definition return_a :: "'a \<Rightarrow> ('s, 'e, 'a) action" where
  "return_a a = (\<lambda>s. (Inr a, s))"

definition fail_a :: "'e \<Rightarrow> ('s, 'e, 'a) action" where
  "fail_a e = (\<lambda>s. (Inl e, s))"

definition bind_a ::
    "('s, 'e, 'a) action \<Rightarrow> ('a \<Rightarrow> ('s, 'e, 'b) action) \<Rightarrow> ('s, 'e, 'b) action" where
  "bind_a m k = (\<lambda>s. case m s of (Inl e, s') \<Rightarrow> (Inl e, s') | (Inr a, s') \<Rightarrow> k a s')"

definition lift_a :: "'e + 'a \<Rightarrow> ('s, 'e, 'a) action" where
  "lift_a r = (\<lambda>s. (r, s))"

definition map_err_a :: "('e \<Rightarrow> 'f) \<Rightarrow> ('s, 'e, 'a) action \<Rightarrow> ('s, 'f, 'a) action" where
  "map_err_a f m = (\<lambda>s. case m s of (r, s') \<Rightarrow> (map_err f r, s'))"

text \<open>\<open>for x in xs { .. }\<close> with mutable locals \<open>acc\<close> and early return on an error.\<close>

fun for_a :: "'x list \<Rightarrow> 'b \<Rightarrow> ('x \<Rightarrow> 'b \<Rightarrow> ('s, 'e, 'b) action) \<Rightarrow> ('s, 'e, 'b) action" where
  "for_a [] acc body = return_a acc"
| "for_a (x # xs) acc body = bind_a (body x acc) (\<lambda>acc'. for_a xs acc' body)"

lemma action_simps [run_simps]:
  "return_a a s = (Inr a, s)" "fail_a e s = (Inl e, s)" "lift_a r s = (r, s)"
  by (simp_all add: return_a_def fail_a_def lift_a_def)

lemma bind_a_run [run_simps]:
  "bind_a m k s = (case m s of (Inl e, s') \<Rightarrow> (Inl e, s') | (Inr a, s') \<Rightarrow> k a s')"
  by (simp add: bind_a_def)

lemma map_err_a_run [run_simps]: "map_err_a f m s = (case m s of (r, s') \<Rightarrow> (map_err f r, s'))"
  by (simp add: map_err_a_def)

lemma bind_a_Inr:
  assumes "m s = (Inr a, s')"
  shows "bind_a m k s = k a s'"
  using assms by (simp add: bind_a_def)

lemma bind_a_Inl:
  assumes "m s = (Inl e, s')"
  shows "bind_a m k s = (Inl e, s')"
  using assms by (simp add: bind_a_def)

lemma bind_a_eq_Inr:
  "bind_a m k s = (Inr b, t) \<longleftrightarrow> (\<exists>a s'. m s = (Inr a, s') \<and> k a s' = (Inr b, t))"
  by (auto simp: bind_a_def split: prod.splits sum.splits)

text \<open>
  Reasoning about an operation backwards from what should hold after it: \<open>Q\<close> when it returns,
  \<open>X\<close> when it fails.
\<close>

definition wp :: "('s, 'e, 'a) action \<Rightarrow> ('a \<Rightarrow> 's \<Rightarrow> bool) \<Rightarrow> ('e \<Rightarrow> 's \<Rightarrow> bool) \<Rightarrow> 's \<Rightarrow> bool" where
  "wp m Q X s = (case m s of (Inr a, s') \<Rightarrow> Q a s' | (Inl e, s') \<Rightarrow> X e s')"

lemma wp_return [wp_simps]: "wp (return_a a) Q X = Q a"
  by (simp add: fun_eq_iff wp_def run_simps)

lemma wp_fail [wp_simps]: "wp (fail_a e) Q X = X e"
  by (simp add: fun_eq_iff wp_def run_simps)

lemma wp_lift [wp_simps]: "wp (lift_a r) Q X = (case r of Inr a \<Rightarrow> Q a | Inl e \<Rightarrow> X e)"
  by (auto simp: fun_eq_iff wp_def run_simps split: sum.splits)

lemma wp_bind [wp_simps]: "wp (bind_a m k) Q X = wp m (\<lambda>a. wp (k a) Q X) X"
  by (auto simp: fun_eq_iff wp_def run_simps split: prod.splits sum.splits)

lemma wp_map_err [wp_simps]: "wp (map_err_a f m) Q X = wp m Q (\<lambda>e. X (f e))"
  by (auto simp: fun_eq_iff wp_def run_simps map_err_def split: prod.splits sum.splits)

lemma wp_weaken:
  "wp m Q X s \<Longrightarrow> (\<And>a t. Q a t \<Longrightarrow> Q' a t) \<Longrightarrow> (\<And>e t. X e t \<Longrightarrow> X' e t) \<Longrightarrow> wp m Q' X' s"
  by (auto simp: wp_def split: prod.splits sum.splits)

lemma wp_run: "wp m Q X s \<longleftrightarrow> (\<forall>r s'. m s = (r, s') \<longrightarrow> (case r of Inr a \<Rightarrow> Q a s' | Inl e \<Rightarrow> X e s'))"
  by (auto simp: wp_def split: prod.splits sum.splits)

lemma wp_Inr: "wp m Q X s \<Longrightarrow> m s = (Inr a, s') \<Longrightarrow> Q a s'"
  by (simp add: wp_def)

lemma wp_Inl: "wp m Q X s \<Longrightarrow> m s = (Inl e, s') \<Longrightarrow> X e s'"
  by (simp add: wp_def)

lemma wp_for_a:
  assumes "J [] acc s"
    and "\<And>before x rest b t. xs = before @ x # rest \<Longrightarrow> J before b t \<Longrightarrow> wp (body x b) (J (before @ [x])) X t"
    and "\<And>b t. J xs b t \<Longrightarrow> Q b t"
  shows "wp (for_a xs acc body) Q X s"
proof -
  have "wp (for_a rest b body) (J xs) X t" if "xs = before @ rest" "J before b t" for before rest b t
    using that
  proof (induction rest arbitrary: before b t)
    case Nil
    then show ?case by (simp add: wp_simps)
  next
    case (Cons x rest)
    have "wp (body x b) (J (before @ [x])) X t" using assms(2) Cons.prems by blast
    then show ?case
      using Cons by (auto simp: wp_simps elim!: wp_weaken)
  qed
  from this [of "[]" xs acc s] assms(1,3) show ?thesis by (auto elim: wp_weaken)
qed

section \<open>Splitting strings\<close>

text \<open>\<open>str::split_once\<close>, \<open>str::rsplit_once\<close> at an ASCII character, and slicing with its panic.\<close>

definition split_once :: "char \<Rightarrow> string \<Rightarrow> (string \<times> string) option" where
  "split_once c s =
     (if c \<in> set s then Some (takeWhile (\<lambda>x. x \<noteq> c) s, tl (dropWhile (\<lambda>x. x \<noteq> c) s)) else None)"

definition rsplit_once :: "char \<Rightarrow> string \<Rightarrow> (string \<times> string) option" where
  "rsplit_once c s =
     (case split_once c (rev s) of None \<Rightarrow> None | Some (a, b) \<Rightarrow> Some (rev b, rev a))"

definition char_boundary :: "string \<Rightarrow> nat \<Rightarrow> bool" where
  "char_boundary s i \<longleftrightarrow>
     i = 0 \<or> i = length s \<or> (i < length s \<and> \<not> is_cont (char_byte (s ! i)))"

definition str_slice :: "string \<Rightarrow> nat \<Rightarrow> nat \<Rightarrow> string call" where
  "str_slice s i j =
     (if i \<le> j \<and> j \<le> length s \<and> char_boundary s i \<and> char_boundary s j
      then Returns (take (j - i) (drop i s)) else Panics)"

lemma split_once_append: "c \<notin> set a \<Longrightarrow> split_once c (a @ c # b) = Some (a, b)"
proof -
  assume "c \<notin> set a"
  then have "takeWhile (\<lambda>x. x \<noteq> c) (a @ c # b) = a" and "dropWhile (\<lambda>x. x \<noteq> c) (a @ c # b) = c # b"
    by (induction a) auto
  then show ?thesis by (simp add: split_once_def)
qed

lemma split_once_Some: "split_once c s = Some (a, b) \<longleftrightarrow> s = a @ c # b \<and> c \<notin> set a"
proof
  assume *: "split_once c s = Some (a, b)"
  then have c: "c \<in> set s" and a: "a = takeWhile (\<lambda>x. x \<noteq> c) s"
    and b: "b = tl (dropWhile (\<lambda>x. x \<noteq> c) s)"
    by (auto simp: split_once_def split: if_splits)
  from c have "dropWhile (\<lambda>x. x \<noteq> c) s = c # b"
    unfolding b by (induction s) auto
  with a show "s = a @ c # b \<and> c \<notin> set a"
    by (metis set_takeWhileD takeWhile_dropWhile_id)
qed (simp add: split_once_append)

lemma rsplit_once_append: "c \<notin> set b \<Longrightarrow> rsplit_once c (a @ c # b) = Some (a, b)"
  by (simp add: rsplit_once_def split_once_append)

lemma is_ascii_char_boundary:
  assumes "is_ascii s" and "i \<le> length s"
  shows "char_boundary s i"
proof (cases "i < length s")
  case True
  then have "char_byte (s ! i) < 0x80"
    using assms by (simp add: is_ascii_def)
  then have "\<not> is_cont (char_byte (s ! i))"
    by (simp add: is_cont_def linorder_not_le)
  with True show ?thesis by (simp add: char_boundary_def)
next
  case False
  with assms show ?thesis by (simp add: char_boundary_def)
qed

lemma str_slice_ascii [simp]:
  "is_ascii s \<Longrightarrow> i \<le> j \<Longrightarrow> j \<le> length s \<Longrightarrow> str_slice s i j = Returns (take (j - i) (drop i s))"
  by (simp add: str_slice_def is_ascii_char_boundary)

end
