(* ===== verification/Summ_Digest.thy ===== *)
theory Summ_Digest
  imports Summ_Prelude
begin

text \<open>
  Content digests and the error type of \<open>summ-core\<close> (\<open>summ-core/src/digest.rs\<close>,
  \<open>summ-core/src/error.rs\<close>): the two algorithms with their fixed-length arrays, the key
  encoding, the textual form and its parser, and the derived order.

  The messages carried by \<open>SummError\<close> keep the literal text of the source; the values the
  source interpolates into them are left out.
\<close>

section \<open>Errors\<close>

datatype summ_error = Storage string | NotFound | InvalidData string | InvalidDigest string

section \<open>Fixed-length arrays\<close>

text \<open>\<open>[u8; 32]\<close> and \<open>[u8; 64]\<close>; \<open>arr32 bs\<close> is a zeroed array with \<open>bs\<close> copied into it.\<close>

typedef bytes32 = "{bs :: bytes. length bs = 32}"
  by (rule exI [of _ "replicate 32 0"]) simp

typedef bytes64 = "{bs :: bytes. length bs = 64}"
  by (rule exI [of _ "replicate 64 0"]) simp

declare Rep_bytes32_inverse [code abstype]
declare Rep_bytes64_inverse [code abstype]

definition raw32 :: "bytes32 \<Rightarrow> bytes" where "raw32 a = Rep_bytes32 a"
definition raw64 :: "bytes64 \<Rightarrow> bytes" where "raw64 a = Rep_bytes64 a"
definition arr32 :: "bytes \<Rightarrow> bytes32" where "arr32 bs = Abs_bytes32 (take 32 (bs @ replicate 32 0))"
definition arr64 :: "bytes \<Rightarrow> bytes64" where "arr64 bs = Abs_bytes64 (take 64 (bs @ replicate 64 0))"

lemma length_raw [simp]: "length (raw32 a) = 32" "length (raw64 b) = 64"
  using Rep_bytes32 [of a] Rep_bytes64 [of b] by (simp_all add: raw32_def raw64_def)

lemma raw_arr_code [code abstract]:
  "Rep_bytes32 (arr32 bs) = take 32 (bs @ replicate 32 0)"
  by (simp add: arr32_def Abs_bytes32_inverse)

lemma raw_arr64_code [code abstract]:
  "Rep_bytes64 (arr64 bs) = take 64 (bs @ replicate 64 0)"
  by (simp add: arr64_def Abs_bytes64_inverse)

lemma raw_arr [simp]:
  "length bs = 32 \<Longrightarrow> raw32 (arr32 bs) = bs" "length cs = 64 \<Longrightarrow> raw64 (arr64 cs) = cs"
  by (simp_all add: raw32_def raw64_def raw_arr_code raw_arr64_code)

lemma arr_raw [simp]: "arr32 (raw32 a) = a" "arr64 (raw64 b) = b"
  using length_raw(1) [of a] length_raw(2) [of b]
  by (simp_all add: arr32_def arr64_def raw32_def raw64_def Rep_bytes32_inverse Rep_bytes64_inverse)

lemma raw_inject [simp]: "raw32 a = raw32 b \<longleftrightarrow> a = b" "raw64 c = raw64 d \<longleftrightarrow> c = d"
  by (metis arr_raw(1)) (metis arr_raw(2))

instantiation bytes32 :: equal
begin

definition equal_bytes32 :: "bytes32 \<Rightarrow> bytes32 \<Rightarrow> bool" where
  "equal_bytes32 a b \<longleftrightarrow> raw32 a = raw32 b"

instance
  by standard (simp add: equal_bytes32_def)

end

instantiation bytes64 :: equal
begin

definition equal_bytes64 :: "bytes64 \<Rightarrow> bytes64 \<Rightarrow> bool" where
  "equal_bytes64 a b \<longleftrightarrow> raw64 a = raw64 b"

instance
  by standard (simp add: equal_bytes64_def)

end

instantiation bytes32 :: linorder
begin

definition less_eq_bytes32 :: "bytes32 \<Rightarrow> bytes32 \<Rightarrow> bool" where
  "less_eq_bytes32 a b \<longleftrightarrow> raw32 a \<le> raw32 b"

definition less_bytes32 :: "bytes32 \<Rightarrow> bytes32 \<Rightarrow> bool" where
  "less_bytes32 a b \<longleftrightarrow> raw32 a < raw32 b"

instance
  by standard (auto simp: less_eq_bytes32_def less_bytes32_def less_le_not_le)

end

instantiation bytes64 :: linorder
begin

definition less_eq_bytes64 :: "bytes64 \<Rightarrow> bytes64 \<Rightarrow> bool" where
  "less_eq_bytes64 a b \<longleftrightarrow> raw64 a \<le> raw64 b"

definition less_bytes64 :: "bytes64 \<Rightarrow> bytes64 \<Rightarrow> bool" where
  "less_bytes64 a b \<longleftrightarrow> raw64 a < raw64 b"

instance
  by standard (auto simp: less_eq_bytes64_def less_bytes64_def less_le_not_le)

end

section \<open>Digests and their key encoding\<close>

datatype digest = Sha256 bytes32 | Sha512 bytes64

definition ALGO_SHA256 :: byte where "ALGO_SHA256 = 1"
definition ALGO_SHA512 :: byte where "ALGO_SHA512 = 2"

text \<open>\<open>#[derive(PartialOrd, Ord)]\<close>: the variant first, then the array.\<close>

instantiation digest :: linorder
begin

fun less_eq_digest :: "digest \<Rightarrow> digest \<Rightarrow> bool" where
  "less_eq_digest (Sha256 a) (Sha256 b) = (a \<le> b)"
| "less_eq_digest (Sha256 a) (Sha512 b) = True"
| "less_eq_digest (Sha512 a) (Sha256 b) = False"
| "less_eq_digest (Sha512 a) (Sha512 b) = (a \<le> b)"

definition less_digest :: "digest \<Rightarrow> digest \<Rightarrow> bool" where
  "less_digest d e \<longleftrightarrow> d \<le> e \<and> \<not> e \<le> d"

instance
proof
  fix x y z :: digest
  show "x < y \<longleftrightarrow> x \<le> y \<and> \<not> y \<le> x" by (simp add: less_digest_def)
  show "x \<le> x" by (cases x) auto
  show "x \<le> y \<Longrightarrow> y \<le> z \<Longrightarrow> x \<le> z" by (cases x; cases y; cases z) auto
  show "x \<le> y \<Longrightarrow> y \<le> x \<Longrightarrow> x = y" by (cases x; cases y) auto
  show "x \<le> y \<or> y \<le> x" by (cases x; cases y) auto
qed

end

definition encoded_len_of :: "byte \<Rightarrow> nat option" where
  "encoded_len_of algo =
     (if algo = ALGO_SHA256 then Some 33 else if algo = ALGO_SHA512 then Some 65 else None)"

fun algorithm :: "digest \<Rightarrow> string" where
  "algorithm (Sha256 _) = ''sha256''"
| "algorithm (Sha512 _) = ''sha512''"

fun raw_of :: "digest \<Rightarrow> bytes" where
  "raw_of (Sha256 b) = raw32 b"
| "raw_of (Sha512 b) = raw64 b"

fun algo_byte :: "digest \<Rightarrow> byte" where
  "algo_byte (Sha256 _) = ALGO_SHA256"
| "algo_byte (Sha512 _) = ALGO_SHA512"

definition encoded_len :: "digest \<Rightarrow> nat" where
  "encoded_len d = 1 + length (raw_of d)"

definition encode_into :: "digest \<Rightarrow> bytes \<Rightarrow> bytes" where
  "encode_into d out = (out @ [algo_byte d]) @ raw_of d"

text \<open>The bytes a digest contributes to a key.\<close>

abbreviation enc :: "digest \<Rightarrow> bytes" where
  "enc d \<equiv> encode_into d []"

definition decode_digest :: "bytes \<Rightarrow> (digest \<times> nat) option" where
  "decode_digest buf =
     (case buf of
        [] \<Rightarrow> None
      | a # _ \<Rightarrow>
          if a = ALGO_SHA256 \<and> 33 \<le> length buf
          then Some (Sha256 (arr32 (take 32 (drop 1 buf))), 33)
          else if a = ALGO_SHA512 \<and> 65 \<le> length buf
          then Some (Sha512 (arr64 (take 64 (drop 1 buf))), 65)
          else None)"

section \<open>The textual form\<close>

definition hex_digit :: "nat \<Rightarrow> char" where
  "hex_digit n = ''0123456789abcdef'' ! n"

text \<open>\<open>{b:02x}\<close>\<close>

definition hex_byte :: "byte \<Rightarrow> string" where
  "hex_byte b = [hex_digit (unat b div 16), hex_digit (unat b mod 16)]"

definition to_string :: "digest \<Rightarrow> string" where
  "to_string d = algorithm d @ '':'' @ concat (map hex_byte (raw_of d))"

text \<open>\<open>char::to_digit(16)\<close> and \<open>u8::from_str_radix(s, 16)\<close>, which accepts a leading plus sign.\<close>

definition to_digit16 :: "char \<Rightarrow> nat option" where
  "to_digit16 c =
     (let n = of_char c in
      if 48 \<le> n \<and> n \<le> 57 then Some (n - 48)
      else if 97 \<le> n \<and> n \<le> 102 then Some (n - 87)
      else if 65 \<le> n \<and> n \<le> 70 then Some (n - 55)
      else None)"

fun hex_acc :: "nat \<Rightarrow> string \<Rightarrow> nat option" where
  "hex_acc acc [] = Some acc"
| "hex_acc acc (c # cs) =
     (case to_digit16 c of
        None \<Rightarrow> None
      | Some d \<Rightarrow> if acc * 16 + d < 256 then hex_acc (acc * 16 + d) cs else None)"

definition u8_from_str_radix16 :: "string \<Rightarrow> byte option" where
  "u8_from_str_radix16 s =
     (let digits = (case s of c # cs \<Rightarrow> if c = CHR ''+'' then cs else s | [] \<Rightarrow> []) in
      if digits = [] then None else map_option word_of_nat (hex_acc 0 digits))"

text \<open>The loop of \<open>unhex\<close> from slot \<open>i\<close> on, with \<open>k\<close> slots left.\<close>

fun unhex_loop :: "string \<Rightarrow> nat \<Rightarrow> nat \<Rightarrow> (summ_error + bytes) call" where
  "unhex_loop hex i 0 = Returns (Inr [])"
| "unhex_loop hex i (Suc k) =
     (case str_slice hex (i * 2) (i * 2 + 2) of
        Panics \<Rightarrow> Panics
      | Returns pair \<Rightarrow>
          (case u8_from_str_radix16 pair of
             None \<Rightarrow> Returns (Inl (InvalidDigest ''invalid hex''))
           | Some b \<Rightarrow>
               (case unhex_loop hex (Suc i) k of
                  Panics \<Rightarrow> Panics
                | Returns r \<Rightarrow> Returns (and_then r (\<lambda>bs. Inr (b # bs))))))"

definition unhex :: "nat \<Rightarrow> string \<Rightarrow> (summ_error + bytes) call" where
  "unhex n hex =
     (if length hex \<noteq> n * 2 then Returns (Inl (InvalidDigest ''expected hex chars''))
      else unhex_loop hex 0 n)"

definition map_call :: "('a \<Rightarrow> 'b) \<Rightarrow> ('e + 'a) call \<Rightarrow> ('e + 'b) call" where
  "map_call f c =
     (case c of Panics \<Rightarrow> Panics | Returns r \<Rightarrow> Returns (and_then r (\<lambda>a. Inr (f a))))"

definition from_str :: "string \<Rightarrow> (summ_error + digest) call" where
  "from_str s =
     (case split_once CHR '':'' s of
        None \<Rightarrow> Returns (Inl (InvalidDigest ''missing algorithm separator''))
      | Some (algo, hex) \<Rightarrow>
          if algo = ''sha256'' then map_call (\<lambda>bs. Sha256 (arr32 bs)) (unhex 32 hex)
          else if algo = ''sha512'' then map_call (\<lambda>bs. Sha512 (arr64 bs)) (unhex 64 hex)
          else Returns (Inl (InvalidDigest ''unsupported algorithm'')))"

section \<open>Facts about the encoding\<close>

lemma length_raw_digest: "length (raw_of d) = (case d of Sha256 _ \<Rightarrow> 32 | Sha512 _ \<Rightarrow> 64)"
  by (cases d) auto

lemma encode_into_eq: "encode_into d out = out @ enc d"
  by (simp add: encode_into_def)

lemma enc_eq: "enc d = algo_byte d # raw_of d"
  by (simp add: encode_into_def)

lemma enc_not_Nil [simp]: "enc d \<noteq> []"
  by (simp add: enc_eq)

lemma length_enc [simp]: "length (enc d) = encoded_len d"
  by (simp add: enc_eq encoded_len_def)

text \<open>The encoding is self-delimiting: equality and prefix cancel it from the front.\<close>

lemma enc_append_eq [simp, key_codes]: "enc d @ x = enc e @ y \<longleftrightarrow> d = e \<and> x = y"
  by (cases d; cases e) (auto simp: enc_eq ALGO_SHA256_def ALGO_SHA512_def)

lemma enc_eq_append [simp, key_codes]:
  "enc d = enc e @ y \<longleftrightarrow> d = e \<and> y = []" "enc d @ x = enc e \<longleftrightarrow> d = e \<and> x = []"
  "enc d = enc e \<longleftrightarrow> d = e"
  using enc_append_eq [of d "[]" e y] enc_append_eq [of d x e "[]"] enc_append_eq [of d "[]" e "[]"]
  by auto

lemma prefix_enc_append [simp, key_codes]:
  "prefix (enc d @ x) (enc e @ y) \<longleftrightarrow> d = e \<and> prefix x y"
  by (auto simp: prefix_def)

lemma prefix_enc [simp, key_codes]:
  "prefix (enc d) (enc e @ y) \<longleftrightarrow> d = e"
  "prefix (enc d @ x) (enc e) \<longleftrightarrow> d = e \<and> x = []"
  "prefix (enc d) (enc e) \<longleftrightarrow> d = e"
  using prefix_enc_append [of d "[]" e y] prefix_enc_append [of d x e "[]"]
    prefix_enc_append [of d "[]" e "[]"] by auto

lemma less_digest_simps [simp]:
  "Sha256 a < Sha256 b \<longleftrightarrow> raw32 a < raw32 b" "Sha512 c < Sha512 d \<longleftrightarrow> raw64 c < raw64 d"
  "Sha256 a < Sha512 d" "\<not> Sha512 c < Sha256 b"
  by (auto simp: less_digest_def less_eq_bytes32_def less_eq_bytes64_def less_le_not_le)

lemma enc_append_less [key_codes]: "enc d @ x < enc e @ y \<longleftrightarrow> d < e \<or> (d = e \<and> x < y)"
  by (cases d; cases e)
    (auto simp: enc_eq ALGO_SHA256_def ALGO_SHA512_def append_less_eq_length)

lemma encoded_len_of_algo_byte: "encoded_len_of (algo_byte d) = Some (encoded_len d)"
  by (cases d) (auto simp: encoded_len_of_def encoded_len_def ALGO_SHA256_def ALGO_SHA512_def)

lemma decode_digest_enc [simp]: "decode_digest (enc d @ r) = Some (d, encoded_len d)"
  by (cases d)
    (auto simp: decode_digest_def enc_eq encoded_len_def ALGO_SHA256_def ALGO_SHA512_def)

lemma decode_digest_enc_Nil [simp]: "decode_digest (enc d) = Some (d, encoded_len d)"
  using decode_digest_enc [of d "[]"] by simp

lemma decode_digest_Some:
  assumes "decode_digest buf = Some (d, n)"
  shows "n = encoded_len d \<and> (\<exists>r. buf = enc d @ r)"
proof (cases buf)
  case (Cons a r)
  consider "a = ALGO_SHA256" "33 \<le> length buf" "d = Sha256 (arr32 (take 32 r))" "n = 33"
    | "a = ALGO_SHA512" "65 \<le> length buf" "d = Sha512 (arr64 (take 64 r))" "n = 65"
    using assms Cons by (auto simp: decode_digest_def split: if_splits)
  then show ?thesis
  proof cases
    case 1
    then have "buf = enc d @ drop 32 r" using Cons by (simp add: enc_eq)
    with 1 show ?thesis by (auto simp: encoded_len_def)
  next
    case 2
    then have "buf = enc d @ drop 64 r" using Cons by (simp add: enc_eq)
    with 2 show ?thesis by (auto simp: encoded_len_def)
  qed
qed (use assms in \<open>simp add: decode_digest_def\<close>)

section \<open>Facts about the textual form\<close>

lemma lt16_cases:
  fixes n :: nat
  assumes "n < 16"
  shows "n \<in> {0, 1, 2, 3, 4, 5, 6, 7, 8, 9, 10, 11, 12, 13, 14, 15}"
  using assms by simp presburger

lemma join_nibbles:
  assumes "h < 16" and "l < 16"
  shows "or (push_bit 4 (word_of_nat h)) (word_of_nat l) = (word_of_nat (16 * h + l) :: byte)"
  using lt16_cases [OF assms(1)] lt16_cases [OF assms(2)] by (elim insertE emptyE) simp_all

lemma of_char_hex_digit:
  "n < 16 \<Longrightarrow> (of_char (hex_digit n) :: nat) = (if n < 10 then n + 48 else n + 87)"
  using lt16_cases [of n] by (auto simp: hex_digit_def nth_Cons')

lemma hex_digit_facts:
  assumes "n < 16"
  shows "to_digit16 (hex_digit n) = Some n" "hex_digit n \<noteq> CHR ''+''"
    "char_byte (hex_digit n) < 0x80"
proof -
  show "to_digit16 (hex_digit n) = Some n"
    using assms by (auto simp: to_digit16_def Let_def of_char_hex_digit)
  show "hex_digit n \<noteq> CHR ''+''"
    using of_char_hex_digit [OF assms] by (auto split: if_splits)
  show "char_byte (hex_digit n) < 0x80"
    using assms by (simp add: word_less_nat_alt unat_char_byte of_char_hex_digit)
qed

lemma hex_digit_mono:
  assumes "m < 16" "n < 16"
  shows "char_byte (hex_digit m) < char_byte (hex_digit n) \<longleftrightarrow> m < n"
    "hex_digit m = hex_digit n \<longleftrightarrow> m = n"
proof -
  show "char_byte (hex_digit m) < char_byte (hex_digit n) \<longleftrightarrow> m < n"
    using assms by (simp add: word_less_nat_alt unat_char_byte of_char_hex_digit)
  show "hex_digit m = hex_digit n \<longleftrightarrow> m = n"
    using hex_digit_facts(1) assms by (metis option.inject)
qed

lemma unat_byte_less: "unat (b :: byte) < 256"
  using unsigned_less [of b, where ?'a = nat] by simp

lemma unat_byte_digits: "unat (b :: byte) div 16 < 16" "unat b mod 16 < 16"
  using unat_byte_less [of b] by auto

lemma length_hex_byte [simp]: "length (hex_byte b) = 2"
  by (simp add: hex_byte_def)

lemma u8_from_str_radix16_hex_byte: "u8_from_str_radix16 (hex_byte b) = Some b"
proof -
  have "unat b < 256" by (rule unat_byte_less)
  moreover have "unat b div 16 * 16 + unat b mod 16 = unat b" by simp
  ultimately show ?thesis
    by (simp add: u8_from_str_radix16_def hex_byte_def hex_digit_facts unat_byte_digits)
qed

lemma hex_byte_less:
  "as_bytes (hex_byte a) < as_bytes (hex_byte b) \<longleftrightarrow> a < b"
  using less_iff_div_mod [of 16 "unat a" "unat b"] unfolding hex_byte_def
  by (simp add: hex_digit_mono unat_byte_digits word_less_nat_alt [of a b])

lemma hex_byte_inject: "hex_byte a = hex_byte b \<longleftrightarrow> a = b"
  by (metis option.inject u8_from_str_radix16_hex_byte)

lemma hex_bytes_less:
  "length xs = length ys \<Longrightarrow>
   as_bytes (concat (map hex_byte xs)) < as_bytes (concat (map hex_byte ys)) \<longleftrightarrow> xs < ys"
  by (induction xs ys rule: list_induct2)
    (auto simp: append_less_eq_length hex_byte_less hex_byte_inject)

lemma is_ascii_hex_bytes: "is_ascii (concat (map hex_byte bs))"
  by (auto simp: is_ascii_def hex_byte_def hex_digit_facts unat_byte_digits)

lemma length_hex_bytes [simp]: "length (concat (map hex_byte bs)) = length bs * 2"
  by (induction bs) auto

lemma hex_bytes_slice:
  "i < length bs \<Longrightarrow> take 2 (drop (i * 2) (concat (map hex_byte bs))) = hex_byte (bs ! i)"
proof (induction bs arbitrary: i)
  case (Cons b bs)
  then show ?case by (cases i) auto
qed simp

lemma unhex_loop_hex_bytes:
  "i + k = length bs \<Longrightarrow> unhex_loop (concat (map hex_byte bs)) i k = Returns (Inr (drop i bs))"
proof (induction k arbitrary: i)
  case (Suc k)
  then have i: "i < length bs" by simp
  then have "str_slice (concat (map hex_byte bs)) (i * 2) (i * 2 + 2) = Returns (hex_byte (bs ! i))"
    by (subst str_slice_ascii) (auto simp: is_ascii_hex_bytes hex_bytes_slice)
  then show ?case
    using Suc i by (simp add: u8_from_str_radix16_hex_byte Cons_nth_drop_Suc)
qed simp

lemma unhex_hex_bytes: "length bs = n \<Longrightarrow> unhex n (concat (map hex_byte bs)) = Returns (Inr bs)"
  by (simp add: unhex_def unhex_loop_hex_bytes)

lemma split_once_to_string:
  "split_once CHR '':'' (to_string d) = Some (algorithm d, concat (map hex_byte (raw_of d)))"
  by (cases d) (simp_all add: to_string_def split_once_Some)

lemma unhex_loop_no_panic:
  "is_ascii hex \<Longrightarrow> (i + k) * 2 \<le> length hex \<Longrightarrow> unhex_loop hex i k \<noteq> Panics"
proof (induction k arbitrary: i)
  case (Suc k)
  then have "unhex_loop hex (Suc i) k \<noteq> Panics" by simp
  with Suc.prems show ?case
    by (auto split: option.splits call.splits)
qed simp

lemma length_unhex_loop: "unhex_loop hex i k = Returns (Inr bs) \<Longrightarrow> length bs = k"
proof (induction k arbitrary: i bs)
  case (Suc k)
  then show ?case
    by (auto simp: and_then_Inr split: call.splits option.splits)
qed simp

lemma from_str_to_string: "from_str (to_string d) = Returns (Inr d)"
  by (cases d) (simp_all add: from_str_def split_once_to_string unhex_hex_bytes map_call_def)

section \<open>Properties\<close>

text \<open>
  Printing a digest and parsing the text gives the digest back, and writing it into a key
  followed by anything and decoding the key from there gives the digest and the number of
  bytes it took, which is the length the prefix extractor reads off the algorithm byte alone.
\<close>

theorem digest_roundtrips:
  "from_str (to_string d) = Returns (Inr d)
   \<and> decode_digest (enc d @ rest) = Some (d, encoded_len d)
   \<and> encoded_len_of (algo_byte d) = Some (length (enc d))"
  by (simp add: from_str_to_string encoded_len_of_algo_byte)

text \<open>
  The order of digests is the byte order of their key encoding, whatever follows it in the
  key, and it is the byte order of their lowercase textual form: a prefix scan returns digests in the order
  pagination by the printed digest expects.
\<close>

theorem digest_order:
  "(enc d @ x < enc e @ y \<longleftrightarrow> d < e \<or> (d = e \<and> x < y))
   \<and> (as_bytes (to_string d) < as_bytes (to_string e) \<longleftrightarrow> d < e)"
proof
  show "as_bytes (to_string d) < as_bytes (to_string e) \<longleftrightarrow> d < e"
    by (cases d; cases e) (simp_all add: to_string_def hex_bytes_less char_byte_def)
qed (rule enc_append_less)

text \<open>
  On ASCII text the parser always returns a digest or an error; it never panics.
\<close>

theorem from_str_ascii:
  assumes "is_ascii s"
  shows "from_str s \<noteq> Panics"
proof -
  have "unhex n hex \<noteq> Panics" if "split_once CHR '':'' s = Some (a, hex)" for a n hex
    using that assms unhex_loop_no_panic [of hex 0 n]
    by (auto simp: unhex_def split_once_Some is_ascii_def)
  then show ?thesis
    by (auto simp: from_str_def map_call_def split: option.splits call.splits prod.splits)
qed

theorem from_str_ascii_witness:
  "is_ascii ''sha256:ab'' \<and> from_str ''sha256:ab'' \<noteq> Panics"
proof -
  have "is_ascii ''sha256:ab''" by (simp add: is_ascii_def char_byte_def)
  then show ?thesis using from_str_ascii [of "''sha256:ab''"] by simp
qed

text \<open>
  The parser is not a strict reader of hex: a pair of characters may be a plus sign and one
  digit, so the text \<open>sha256:+f+f..\<close>, which no digest prints as, is accepted; and on text of
  the right length whose pairs cut through a multi-byte character it panics instead of
  returning an error.
\<close>

theorem from_str_lenient:
  "from_str (''sha256:'' @ concat (replicate 32 ''+f'')) = Returns (Inr (Sha256 (arr32 (replicate 32 15))))
   \<and> to_string (Sha256 (arr32 (replicate 32 15))) \<noteq> ''sha256:'' @ concat (replicate 32 ''+f'')
   \<and> is_str (''a'' @ [CHR 0xC3, CHR 0xA9] @ replicate 61 CHR ''a'')
   \<and> from_str (''sha256:'' @ ''a'' @ [CHR 0xC3, CHR 0xA9] @ replicate 61 CHR ''a'') = Panics"
  by code_simp

end
