(* ===== verification/Summ_Types.thy ===== *)
theory Summ_Types
  imports Summ_Digest
begin

text \<open>
  The values of the metadata store (\<open>summ-core/src/types.rs\<close>) and the instants they carry
  (\<open>summ-core/src/time.rs\<close>). A \<open>BTreeMap<String, String>\<close> is the list of its entries in key
  order; a fixed-width array \<open>[u32; 24]\<close> is a list whose length is part of the invariant
  \<open>wf_bucket\<close>. Sums of counters wrap as a release build of Rust wraps them.
\<close>

section \<open>Instants\<close>

datatype timestamp = Timestamp u64

definition from_millis :: "u64 \<Rightarrow> timestamp" where
  "from_millis ms = Timestamp ms"

definition from_secs :: "u64 \<Rightarrow> timestamp" where
  "from_secs s = Timestamp (sat_mul s 1000)"

fun millis :: "timestamp \<Rightarrow> u64" where
  "millis (Timestamp t) = t"

fun secs :: "timestamp \<Rightarrow> u64" where
  "secs (Timestamp t) = t div 1000"

lemma millis_from_millis [simp]: "millis (from_millis t) = t" "from_millis (millis at) = at"
  by (simp add: from_millis_def, cases at) (simp add: from_millis_def)

lemma millis_inject [simp]: "millis a = millis b \<longleftrightarrow> a = b"
  by (cases a; cases b) simp

section \<open>Stored records\<close>

type_synonym repo_id = u32
type_synonym annotations = "(string \<times> string) list"

definition SCHEMA_VERSION :: u32 where
  "SCHEMA_VERSION = 2"

record platform =
  pl_os :: string
  pl_arch :: string
  pl_variant :: "string option"

record child_ref =
  cr_digest :: digest
  cr_platform :: "platform option"

record manifest_record =
  mr_repo :: repo_id
  mr_digest :: digest
  mr_media_type :: string
  mr_size :: u64
  mr_total_layer_size :: u64
  mr_platform :: "platform option"
  mr_layers :: "digest list"
  mr_children :: "child_ref list"
  mr_subject :: "digest option"
  mr_artifact_type :: "string option"
  mr_annotations :: annotations
  mr_pushed_at :: u64

record blob_record =
  br_size :: u64

record repo_blob_record =
  rb_size :: u64
  rb_added_at :: u64

record blob_mark_record =
  bm_seen_at :: u64

record tag_record =
  tr_digest :: digest
  tr_tagged_at :: u64

record referrer_record =
  rr_media_type :: string
  rr_artifact_type :: "string option"
  rr_size :: u64
  rr_annotations :: annotations

record upload_session =
  us_repo :: repo_id
  us_offset :: u64
  us_started_at :: u64
  us_updated_at :: u64
  us_algorithm :: string
  us_hasher_state :: "bytes option"

record dead_repo_record =
  dr_name :: string
  dr_dropped_at :: u64

datatype tag_event_kind = Created | Deleted

record tag_event =
  te_event :: tag_event_kind
  te_media_type :: string
  te_size :: u64

section \<open>Counter buckets\<close>

definition HOURS_PER_DAY :: nat where
  "HOURS_PER_DAY = 24"

record counter_bucket =
  cb_manifest_pulls :: "u32 list"
  cb_blob_pulls :: "u32 list"
  cb_bytes_out :: "u64 list"

definition default_bucket :: counter_bucket where
  "default_bucket =
     \<lparr> cb_manifest_pulls = replicate HOURS_PER_DAY 0, cb_blob_pulls = replicate HOURS_PER_DAY 0,
       cb_bytes_out = replicate HOURS_PER_DAY 0 \<rparr>"

text \<open>\<open>n.min(u32::MAX as u64) as u32\<close>\<close>

definition clamp_u32 :: "u64 \<Rightarrow> u32" where
  "clamp_u32 n = ucast (min n 0xFFFFFFFF)"

definition bucket_add ::
    "counter_bucket \<Rightarrow> nat \<Rightarrow> u64 \<Rightarrow> u64 \<Rightarrow> u64 \<Rightarrow> counter_bucket" where
  "bucket_add b hour mp bp bo =
     (if hour \<ge> HOURS_PER_DAY then b
      else b \<lparr> cb_manifest_pulls := (cb_manifest_pulls b)
                [hour := sat_add (cb_manifest_pulls b ! hour) (clamp_u32 mp)],
              cb_blob_pulls := (cb_blob_pulls b)
                [hour := sat_add (cb_blob_pulls b ! hour) (clamp_u32 bp)],
              cb_bytes_out := (cb_bytes_out b)
                [hour := sat_add (cb_bytes_out b ! hour) bo] \<rparr>)"

definition manifest_pulls_total :: "counter_bucket \<Rightarrow> u64" where
  "manifest_pulls_total b = sum_list (map ucast (cb_manifest_pulls b))"

definition blob_pulls_total :: "counter_bucket \<Rightarrow> u64" where
  "blob_pulls_total b = sum_list (map ucast (cb_blob_pulls b))"

definition bytes_out_total :: "counter_bucket \<Rightarrow> u64" where
  "bytes_out_total b = sum_list (cb_bytes_out b)"

definition bucket_is_empty :: "counter_bucket \<Rightarrow> bool" where
  "bucket_is_empty b \<longleftrightarrow>
     manifest_pulls_total b = 0 \<and> blob_pulls_total b = 0 \<and> bytes_out_total b = 0"

definition wf_bucket :: "counter_bucket \<Rightarrow> bool" where
  "wf_bucket b \<longleftrightarrow> length (cb_manifest_pulls b) = HOURS_PER_DAY
     \<and> length (cb_blob_pulls b) = HOURS_PER_DAY \<and> length (cb_bytes_out b) = HOURS_PER_DAY"

section \<open>Facts about instants and buckets\<close>

lemma wf_default_bucket [simp]: "wf_bucket default_bucket"
  by (simp add: wf_bucket_def default_bucket_def)

lemma wf_bucket_add [simp]: "wf_bucket b \<Longrightarrow> wf_bucket (bucket_add b h mp bp bo)"
  by (simp add: wf_bucket_def bucket_add_def)

lemma unat_clamp_u32: "unat (clamp_u32 n) = min (unat n) (2 ^ 32 - 1)"
proof -
  have "unat (min n 0xFFFFFFFF) = min (unat n) (2 ^ 32 - 1)"
    by (simp add: min_def word_le_nat_alt)
  then show ?thesis
    by (simp add: clamp_u32_def unsigned_ucast_eq take_bit_nat_eq_self)
qed

text \<open>A sum of at most 24 widened 32-bit counters cannot wrap at 64 bits.\<close>

lemma unat_sum_ucast:
  fixes xs :: "u32 list"
  assumes "length xs < 2 ^ 32"
  shows "unat (sum_list (map ucast xs) :: u64) = sum_list (map unat xs)
    \<and> sum_list (map unat xs) \<le> length xs * (2 ^ 32 - 1)"
  using assms
proof (induction xs)
  case Nil
  then show ?case by simp
next
  case (Cons x xs)
  have x: "unat x \<le> 2 ^ 32 - 1"
    using unsigned_less [of x, where ?'a = nat] by simp
  have IH: "unat (sum_list (map ucast xs) :: u64) = sum_list (map unat xs)"
    and le: "sum_list (map unat xs) \<le> length xs * (2 ^ 32 - 1)"
    using Cons by auto
  have "unat x + sum_list (map unat xs) \<le> length (x # xs) * (2 ^ 32 - 1)"
    using x le by simp
  moreover have "length (x # xs) * (2 ^ 32 - 1) < (2 :: nat) ^ 64"
    using Cons.prems by simp
  moreover have "unat (ucast x :: u64) = unat x"
    using x by (simp add: unsigned_ucast_eq take_bit_nat_eq_self_iff)
  ultimately show ?case
    using IH by (simp add: unat_word_ariths)
qed

lemma secs_from_secs:
  assumes "unat s * 1000 < 2 ^ 64"
  shows "secs (from_secs s) = s"
proof -
  have "unat (sat_mul s 1000) = unat s * 1000"
    using assms by (simp add: unat_sat_mul)
  then have "unat (sat_mul s 1000 div 1000) = unat s"
    by (simp add: unat_div)
  then show ?thesis
    by (simp add: from_secs_def word_unat_eq_iff)
qed

lemma secs_mono: "millis a \<le> millis b \<Longrightarrow> secs a \<le> secs b"
  by (cases a; cases b) (simp add: word_le_nat_alt unat_div div_le_mono)

lemma unat_add_clamped: "unat (sat_add x (clamp_u32 n)) = min (unat x + unat n) (2 ^ 32 - 1)"
  by (simp add: unat_sat_add unat_clamp_u32 min_def)

lemma unat_at_most: "min (unat (x :: 'a::len word)) (2 ^ LENGTH('a) - 1) = unat x"
  using unsigned_less [of x, where ?'a = nat] by (intro min_absorb1) linarith

text \<open>One slot of a counter array after an update of slot \<open>h\<close>.\<close>

lemma slot_add:
  fixes xs :: "'a::len word list"
  assumes "h < length xs"
    and "unat (f (xs ! h)) = min (unat (xs ! h) + n) (2 ^ LENGTH('a) - 1)"
  shows "unat (xs[h := f (xs ! h)] ! k)
    = min (unat (xs ! k) + (if k = h then n else 0)) (2 ^ LENGTH('a) - 1)"
  using assms unat_at_most [of "xs ! k"] by (auto simp: nth_list_update)

lemmas slot_add32 = slot_add [where 'a = 32, of _ _ "\<lambda>x. sat_add x (clamp_u32 n)" "unat n" for n,
    simplified unat_add_clamped, simplified]
lemmas slot_add64 = slot_add [where 'a = 64, of _ _ "\<lambda>x. sat_add x n" "unat n" for n,
    simplified unat_sat_add, simplified]

section \<open>Properties\<close>

text \<open>
  Adding increments to an hour of a counter bucket adds exactly, saturating at the width of
  the counter (also when the increment itself does not fit it); the other hours keep their
  values and the arrays their length. An hour outside the day changes nothing.
\<close>

theorem bucket_add_exact:
  assumes "wf_bucket b"
  shows "wf_bucket (bucket_add b h mp bp bo)
    \<and> (h \<ge> 24 \<longrightarrow> bucket_add b h mp bp bo = b)
    \<and> (\<forall>k < 24.
         unat (cb_manifest_pulls (bucket_add b h mp bp bo) ! k)
           = min (unat (cb_manifest_pulls b ! k) + (if k = h then unat mp else 0)) (2 ^ 32 - 1)
       \<and> unat (cb_blob_pulls (bucket_add b h mp bp bo) ! k)
           = min (unat (cb_blob_pulls b ! k) + (if k = h then unat bp else 0)) (2 ^ 32 - 1)
       \<and> unat (cb_bytes_out (bucket_add b h mp bp bo) ! k)
           = min (unat (cb_bytes_out b ! k) + (if k = h then unat bo else 0)) (2 ^ 64 - 1))"
proof (cases "h < 24")
  case True
  then show ?thesis
    using assms by (simp add: wf_bucket_def bucket_add_def HOURS_PER_DAY_def slot_add32 slot_add64)
next
  case False
  then show ?thesis
    using assms unat_at_most [where 'a = 32] unat_at_most [where 'a = 64]
    by (auto simp: bucket_add_def HOURS_PER_DAY_def)
qed

theorem bucket_add_exact_witness:
  "wf_bucket default_bucket
   \<and> unat (cb_manifest_pulls (bucket_add default_bucket 3 7 0 0) ! 3) = 7"
proof -
  have "(3 :: nat) < 24" and "cb_manifest_pulls default_bucket ! 3 = 0"
    by (simp_all add: default_bucket_def HOURS_PER_DAY_def)
  then show ?thesis
    using bucket_add_exact [OF wf_default_bucket, of 3 7 0 0] by simp
qed

text \<open>
  The day's totals of the two pull counters are the exact sums of their hours: 24 counters
  of 32 bits cannot wrap a 64-bit total.
\<close>

theorem pull_totals_exact:
  assumes "wf_bucket b"
  shows "unat (manifest_pulls_total b) = sum_list (map unat (cb_manifest_pulls b))
    \<and> unat (blob_pulls_total b) = sum_list (map unat (cb_blob_pulls b))"
  using assms unat_sum_ucast [of "cb_manifest_pulls b"] unat_sum_ucast [of "cb_blob_pulls b"]
  by (simp add: wf_bucket_def manifest_pulls_total_def blob_pulls_total_def HOURS_PER_DAY_def)

theorem pull_totals_exact_witness:
  "wf_bucket default_bucket \<and> unat (manifest_pulls_total default_bucket) = 0"
proof -
  have "sum_list (map unat (cb_manifest_pulls default_bucket)) = 0"
    by (simp add: default_bucket_def sum_list_replicate)
  then show ?thesis
    using pull_totals_exact [OF wf_default_bucket] by simp
qed

end
