(* ===== verification/Summ_Keys.thy ===== *)
theory Summ_Keys
  imports Summ_Types
begin

text \<open>
  The binary key encoding (\<open>summ-core/src/keys.rs\<close>): one builder per key, the scan prefixes,
  the cursors of the windowed scans and the readers that take a key apart again.

  Key builders carry the suffix \<open>_key\<close> where the source uses a plain noun. The capacity
  arguments of \<open>start\<close> and \<open>start_repo\<close> only size an allocation and are left out. The
  simplification set \<open>key_defs\<close> writes every key as its first byte followed by its
  components, and \<open>key_codes\<close> cancels the components, so that facts about which keys
  coincide or lie under which prefix follow by simplification.
\<close>

section \<open>Prefix bytes\<close>

definition PREFIX_MANIFEST :: byte where "PREFIX_MANIFEST = char_byte CHR ''M''"
definition PREFIX_MANIFEST_BODY :: byte where "PREFIX_MANIFEST_BODY = char_byte CHR ''Z''"
definition PREFIX_TAG :: byte where "PREFIX_TAG = char_byte CHR ''T''"
definition PREFIX_MANIFEST_TAG :: byte where "PREFIX_MANIFEST_TAG = char_byte CHR ''G''"
definition PREFIX_BLOB :: byte where "PREFIX_BLOB = char_byte CHR ''B''"
definition PREFIX_BLOB_MARK :: byte where "PREFIX_BLOB_MARK = char_byte CHR ''C''"
definition PREFIX_BLOB_REF :: byte where "PREFIX_BLOB_REF = char_byte CHR ''R''"
definition PREFIX_REPO_BLOB :: byte where "PREFIX_REPO_BLOB = char_byte CHR ''P''"
definition PREFIX_CHILD_PARENT :: byte where "PREFIX_CHILD_PARENT = char_byte CHR ''S''"
definition PREFIX_REFERRER :: byte where "PREFIX_REFERRER = char_byte CHR ''F''"
definition PREFIX_UPLOAD :: byte where "PREFIX_UPLOAD = char_byte CHR ''U''"
definition PREFIX_TAG_HISTORY :: byte where "PREFIX_TAG_HISTORY = char_byte CHR ''H''"
definition PREFIX_MANIFEST_TAG_HISTORY :: byte where
  "PREFIX_MANIFEST_TAG_HISTORY = char_byte CHR ''J''"
definition PREFIX_COUNTER :: byte where "PREFIX_COUNTER = char_byte CHR ''A''"
definition PREFIX_DEAD_REPO :: byte where "PREFIX_DEAD_REPO = char_byte CHR ''D''"
definition PREFIX_REPO_BY_NAME :: byte where "PREFIX_REPO_BY_NAME = char_byte CHR ''n''"
definition PREFIX_REPO_BY_ID :: byte where "PREFIX_REPO_BY_ID = char_byte CHR ''i''"
definition PREFIX_DB_VERSION :: byte where "PREFIX_DB_VERSION = char_byte CHR ''v''"

definition SCOPE_MANIFEST :: byte where "SCOPE_MANIFEST = char_byte CHR ''m''"
definition SCOPE_TAG :: byte where "SCOPE_TAG = char_byte CHR ''t''"
definition SCOPE_REPO :: byte where "SCOPE_REPO = char_byte CHR ''r''"

definition REPO_LEN :: nat where "REPO_LEN = 4"
definition TAG_END :: byte where "TAG_END = 0"

text \<open>Their numeric values, for simplification.\<close>

lemma prefix_bytes [simp]:
  "PREFIX_MANIFEST = 0x4D" "PREFIX_MANIFEST_BODY = 0x5A" "PREFIX_TAG = 0x54"
  "PREFIX_MANIFEST_TAG = 0x47" "PREFIX_BLOB = 0x42" "PREFIX_BLOB_MARK = 0x43"
  "PREFIX_BLOB_REF = 0x52" "PREFIX_REPO_BLOB = 0x50" "PREFIX_CHILD_PARENT = 0x53"
  "PREFIX_REFERRER = 0x46" "PREFIX_UPLOAD = 0x55" "PREFIX_TAG_HISTORY = 0x48"
  "PREFIX_MANIFEST_TAG_HISTORY = 0x4A" "PREFIX_COUNTER = 0x41" "PREFIX_DEAD_REPO = 0x44"
  "PREFIX_REPO_BY_NAME = 0x6E" "PREFIX_REPO_BY_ID = 0x69" "PREFIX_DB_VERSION = 0x76"
  "SCOPE_MANIFEST = 0x6D" "SCOPE_TAG = 0x74" "SCOPE_REPO = 0x72"
  by (simp_all add: PREFIX_MANIFEST_def PREFIX_MANIFEST_BODY_def PREFIX_TAG_def
      PREFIX_MANIFEST_TAG_def PREFIX_BLOB_def PREFIX_BLOB_MARK_def PREFIX_BLOB_REF_def
      PREFIX_REPO_BLOB_def PREFIX_CHILD_PARENT_def PREFIX_REFERRER_def PREFIX_UPLOAD_def
      PREFIX_TAG_HISTORY_def PREFIX_MANIFEST_TAG_HISTORY_def PREFIX_COUNTER_def
      PREFIX_DEAD_REPO_def PREFIX_REPO_BY_NAME_def PREFIX_REPO_BY_ID_def PREFIX_DB_VERSION_def
      SCOPE_MANIFEST_def SCOPE_TAG_def SCOPE_REPO_def char_byte_def)

section \<open>Upload identifiers\<close>

text \<open>\<open>[u8; 16]\<close>\<close>

typedef bytes16 = "{bs :: bytes. length bs = 16}"
  by (rule exI [of _ "replicate 16 0"]) simp

declare Rep_bytes16_inverse [code abstype]

definition raw16 :: "bytes16 \<Rightarrow> bytes" where "raw16 a = Rep_bytes16 a"
definition arr16 :: "bytes \<Rightarrow> bytes16" where "arr16 bs = Abs_bytes16 (take 16 (bs @ replicate 16 0))"

lemma arr16_code [code abstract]: "Rep_bytes16 (arr16 bs) = take 16 (bs @ replicate 16 0)"
  by (simp add: arr16_def Abs_bytes16_inverse)

lemma length_raw16 [simp]: "length (raw16 a) = 16"
  using Rep_bytes16 [of a] by (simp add: raw16_def)

lemma raw16_arr16 [simp]: "length bs = 16 \<Longrightarrow> raw16 (arr16 bs) = bs"
  by (simp add: raw16_def arr16_code)

lemma arr16_raw16 [simp]: "arr16 (raw16 a) = a"
  using length_raw16 [of a] by (simp add: arr16_def raw16_def Rep_bytes16_inverse)

lemma raw16_inject [simp]: "raw16 a = raw16 b \<longleftrightarrow> a = b"
  by (metis arr16_raw16)

instantiation bytes16 :: equal
begin

definition equal_bytes16 :: "bytes16 \<Rightarrow> bytes16 \<Rightarrow> bool" where
  "equal_bytes16 a b \<longleftrightarrow> raw16 a = raw16 b"

instance
  by standard (simp add: equal_bytes16_def)

end

section \<open>Builders\<close>

definition start :: "byte \<Rightarrow> bytes" where
  "start p = [] @ [p]"

definition start_repo :: "byte \<Rightarrow> repo_id \<Rightarrow> bytes" where
  "start_repo p repo = start p @ to_be_bytes repo"

subsection \<open>Manifests\<close>

definition manifest_key :: "repo_id \<Rightarrow> digest \<Rightarrow> bytes" where
  "manifest_key repo d = encode_into d (start_repo PREFIX_MANIFEST repo)"

definition manifest_body_key :: "repo_id \<Rightarrow> digest \<Rightarrow> bytes" where
  "manifest_body_key repo d = encode_into d (start_repo PREFIX_MANIFEST_BODY repo)"

definition manifests_in_repo :: "repo_id \<Rightarrow> bytes" where
  "manifests_in_repo repo = start_repo PREFIX_MANIFEST repo"

definition manifest_bodies_in_repo :: "repo_id \<Rightarrow> bytes" where
  "manifest_bodies_in_repo repo = start_repo PREFIX_MANIFEST_BODY repo"

subsection \<open>Tags\<close>

definition tag_key :: "repo_id \<Rightarrow> string \<Rightarrow> bytes" where
  "tag_key repo t = start_repo PREFIX_TAG repo @ as_bytes t"

definition tags_in_repo :: "repo_id \<Rightarrow> bytes" where
  "tags_in_repo repo = start_repo PREFIX_TAG repo"

definition manifest_tag_key :: "repo_id \<Rightarrow> digest \<Rightarrow> string \<Rightarrow> bytes" where
  "manifest_tag_key repo d t = encode_into d (start_repo PREFIX_MANIFEST_TAG repo) @ as_bytes t"

definition tags_of_manifest :: "repo_id \<Rightarrow> digest \<Rightarrow> bytes" where
  "tags_of_manifest repo d = encode_into d (start_repo PREFIX_MANIFEST_TAG repo)"

definition manifest_tags_in_repo :: "repo_id \<Rightarrow> bytes" where
  "manifest_tags_in_repo repo = start_repo PREFIX_MANIFEST_TAG repo"

text \<open>\<open>key.get(i..)\<close>\<close>

definition get_from :: "nat \<Rightarrow> bytes \<Rightarrow> bytes option" where
  "get_from i k = (if i \<le> length k then Some (drop i k) else None)"

text \<open>\<open>value.try_into()\<close> for an array of \<open>n\<close> bytes\<close>

definition try_array :: "nat \<Rightarrow> bytes \<Rightarrow> bytes option" where
  "try_array n bs = (if length bs = n then Some bs else None)"

definition parse_manifest_tag_suffix :: "bytes \<Rightarrow> digest \<Rightarrow> string option" where
  "parse_manifest_tag_suffix key d =
     Option.bind (get_from (1 + REPO_LEN + encoded_len d) key) from_utf8"

definition parse_tag_suffix :: "bytes \<Rightarrow> string option" where
  "parse_tag_suffix key =
     (case key of
        [] \<Rightarrow> None
      | p # _ \<Rightarrow> if p \<noteq> PREFIX_TAG then None
                 else Option.bind (get_from (1 + REPO_LEN) key) from_utf8)"

subsection \<open>Blobs\<close>

definition blob_key :: "digest \<Rightarrow> bytes" where
  "blob_key d = encode_into d (start PREFIX_BLOB)"

definition blobs :: bytes where
  "blobs = [PREFIX_BLOB]"

definition blob_mark_key :: "digest \<Rightarrow> bytes" where
  "blob_mark_key d = encode_into d (start PREFIX_BLOB_MARK)"

definition blob_marks :: bytes where
  "blob_marks = [PREFIX_BLOB_MARK]"

definition blob_ref_key :: "digest \<Rightarrow> repo_id \<Rightarrow> digest \<Rightarrow> bytes" where
  "blob_ref_key d repo m = encode_into m (encode_into d (start PREFIX_BLOB_REF) @ to_be_bytes repo)"

definition blob_refs :: "digest \<Rightarrow> bytes" where
  "blob_refs d = encode_into d (start PREFIX_BLOB_REF)"

definition blob_refs_in_repo :: "digest \<Rightarrow> repo_id \<Rightarrow> bytes" where
  "blob_refs_in_repo d repo = blob_refs d @ to_be_bytes repo"

definition repo_blob_key :: "repo_id \<Rightarrow> digest \<Rightarrow> bytes" where
  "repo_blob_key repo d = encode_into d (start_repo PREFIX_REPO_BLOB repo)"

definition blobs_in_repo :: "repo_id \<Rightarrow> bytes" where
  "blobs_in_repo repo = start_repo PREFIX_REPO_BLOB repo"

definition repo_blobs :: bytes where
  "repo_blobs = [PREFIX_REPO_BLOB]"

subsection \<open>The manifest graph\<close>

definition child_parent_key :: "repo_id \<Rightarrow> digest \<Rightarrow> digest \<Rightarrow> bytes" where
  "child_parent_key repo child parent =
     encode_into parent (encode_into child (start_repo PREFIX_CHILD_PARENT repo))"

definition parents_of :: "repo_id \<Rightarrow> digest \<Rightarrow> bytes" where
  "parents_of repo child = encode_into child (start_repo PREFIX_CHILD_PARENT repo)"

definition children_in_repo :: "repo_id \<Rightarrow> bytes" where
  "children_in_repo repo = start_repo PREFIX_CHILD_PARENT repo"

definition referrer_key :: "repo_id \<Rightarrow> digest \<Rightarrow> digest \<Rightarrow> bytes" where
  "referrer_key repo subject ref =
     encode_into ref (encode_into subject (start_repo PREFIX_REFERRER repo))"

definition referrers_of :: "repo_id \<Rightarrow> digest \<Rightarrow> bytes" where
  "referrers_of repo subject = encode_into subject (start_repo PREFIX_REFERRER repo)"

definition referrers_in_repo :: "repo_id \<Rightarrow> bytes" where
  "referrers_in_repo repo = start_repo PREFIX_REFERRER repo"

subsection \<open>Uploads\<close>

definition upload_key :: "bytes16 \<Rightarrow> bytes" where
  "upload_key id16 = start PREFIX_UPLOAD @ raw16 id16"

definition uploads :: bytes where
  "uploads = [PREFIX_UPLOAD]"

subsection \<open>Tag history\<close>

definition push_desc_time :: "bytes \<Rightarrow> timestamp \<Rightarrow> bytes" where
  "push_desc_time k at = k @ to_be_bytes (not (millis at))"

definition read_desc_time :: "bytes \<Rightarrow> timestamp option" where
  "read_desc_time bs =
     (if length bs < 8 then None
      else Some (from_millis (not (from_be_bytes (take 8 bs)))))"

definition tag_history_key :: "repo_id \<Rightarrow> string \<Rightarrow> timestamp \<Rightarrow> digest \<Rightarrow> bytes" where
  "tag_history_key repo t at d =
     encode_into d (push_desc_time ((start_repo PREFIX_TAG_HISTORY repo @ as_bytes t) @ [TAG_END]) at)"

definition tag_history_of :: "repo_id \<Rightarrow> string \<Rightarrow> bytes" where
  "tag_history_of repo t = (start_repo PREFIX_TAG_HISTORY repo @ as_bytes t) @ [TAG_END]"

definition tag_history_in_repo :: "repo_id \<Rightarrow> bytes" where
  "tag_history_in_repo repo = start_repo PREFIX_TAG_HISTORY repo"

definition tag_history_before :: "repo_id \<Rightarrow> string \<Rightarrow> timestamp \<Rightarrow> bytes" where
  "tag_history_before repo t at =
     push_desc_time (tag_history_of repo t) (from_millis (sat_sub (millis at) 1))"

definition tag_history_suffix :: "bytes \<Rightarrow> bytes \<Rightarrow> (timestamp \<times> digest) option" where
  "tag_history_suffix key scan_prefix =
     Option.bind (strip_prefix key scan_prefix) (\<lambda>rest.
     Option.bind (read_desc_time rest) (\<lambda>at.
     Option.bind (get_from 8 rest) (\<lambda>tail.
     Option.bind (decode_digest tail) (\<lambda>(d, _). Some (at, d)))))"

definition manifest_tag_history_suffix :: "bytes \<Rightarrow> bytes \<Rightarrow> (timestamp \<times> string) option" where
  "manifest_tag_history_suffix key scan_prefix =
     Option.bind (strip_prefix key scan_prefix) (\<lambda>rest.
     Option.bind (read_desc_time rest) (\<lambda>at.
     Option.bind (get_from 8 rest) (\<lambda>tail.
     Option.bind (from_utf8 tail) (\<lambda>t. Some (at, t)))))"

definition manifest_tag_history_key :: "repo_id \<Rightarrow> digest \<Rightarrow> timestamp \<Rightarrow> string \<Rightarrow> bytes" where
  "manifest_tag_history_key repo d at t =
     push_desc_time (encode_into d (start_repo PREFIX_MANIFEST_TAG_HISTORY repo)) at @ as_bytes t"

definition manifest_tag_history_of :: "repo_id \<Rightarrow> digest \<Rightarrow> bytes" where
  "manifest_tag_history_of repo d = encode_into d (start_repo PREFIX_MANIFEST_TAG_HISTORY repo)"

definition manifest_tag_history_in_repo :: "repo_id \<Rightarrow> bytes" where
  "manifest_tag_history_in_repo repo = start_repo PREFIX_MANIFEST_TAG_HISTORY repo"

definition manifest_tag_history_before :: "repo_id \<Rightarrow> digest \<Rightarrow> timestamp \<Rightarrow> bytes" where
  "manifest_tag_history_before repo d at =
     push_desc_time (manifest_tag_history_of repo d) (from_millis (sat_sub (millis at) 1))"

subsection \<open>Pull counters\<close>

definition day_bucket :: "u64 \<Rightarrow> u16" where
  "day_bucket s = ucast (s div 86400)"

definition hour_of_day :: "u64 \<Rightarrow> nat" where
  "hour_of_day s = unat ((s mod 86400) div 3600)"

definition weekday :: "u16 \<Rightarrow> byte" where
  "weekday day = ucast (((ucast day :: u32) + 4) mod 7)"

definition push_bucket :: "bytes \<Rightarrow> u16 \<Rightarrow> u16 \<Rightarrow> bytes" where
  "push_bucket k day shard = (k @ to_be_bytes day) @ to_be_bytes shard"

definition start_counter :: "byte \<Rightarrow> repo_id \<Rightarrow> bytes" where
  "start_counter scope repo = (start PREFIX_COUNTER @ [scope]) @ to_be_bytes repo"

definition counter_manifest_key :: "repo_id \<Rightarrow> digest \<Rightarrow> u16 \<Rightarrow> u16 \<Rightarrow> bytes" where
  "counter_manifest_key repo d day shard =
     push_bucket (encode_into d (start_counter SCOPE_MANIFEST repo)) day shard"

definition counters_of_manifest :: "repo_id \<Rightarrow> digest \<Rightarrow> bytes" where
  "counters_of_manifest repo d = encode_into d (start_counter SCOPE_MANIFEST repo)"

definition counter_tag_key :: "repo_id \<Rightarrow> string \<Rightarrow> u16 \<Rightarrow> u16 \<Rightarrow> bytes" where
  "counter_tag_key repo t day shard =
     push_bucket ((start_counter SCOPE_TAG repo @ as_bytes t) @ [TAG_END]) day shard"

definition counters_of_tag :: "repo_id \<Rightarrow> string \<Rightarrow> bytes" where
  "counters_of_tag repo t = (start_counter SCOPE_TAG repo @ as_bytes t) @ [TAG_END]"

definition counter_repo_key :: "repo_id \<Rightarrow> u16 \<Rightarrow> u16 \<Rightarrow> bytes" where
  "counter_repo_key repo day shard = push_bucket (start_counter SCOPE_REPO repo) day shard"

definition counters_of_repo :: "repo_id \<Rightarrow> bytes" where
  "counters_of_repo repo = start_counter SCOPE_REPO repo"

definition counters_in_repo_scope :: "byte \<Rightarrow> repo_id \<Rightarrow> bytes" where
  "counters_in_repo_scope scope repo = start_counter scope repo"

definition counters_from_day :: "bytes \<Rightarrow> u16 \<Rightarrow> bytes" where
  "counters_from_day scan_prefix day = scan_prefix @ to_be_bytes day"

definition counter_suffix :: "bytes \<Rightarrow> bytes \<Rightarrow> (u16 \<times> u16) option" where
  "counter_suffix key scan_prefix =
     Option.bind (strip_prefix key scan_prefix) (\<lambda>rest.
       if length rest \<noteq> 4 then None
       else Some (from_be_bytes [rest ! 0, rest ! 1], from_be_bytes [rest ! 2, rest ! 3]))"

subsection \<open>Dead repositories, the interner and the store version\<close>

definition dead_repo_key :: "repo_id \<Rightarrow> bytes" where
  "dead_repo_key rid = start PREFIX_DEAD_REPO @ to_be_bytes rid"

definition dead_repos :: bytes where
  "dead_repos = [PREFIX_DEAD_REPO]"

definition parse_dead_repo_id :: "bytes \<Rightarrow> repo_id option" where
  "parse_dead_repo_id key =
     (case key of
        [] \<Rightarrow> None
      | p # _ \<Rightarrow> if p \<noteq> PREFIX_DEAD_REPO then None
                 else Option.bind (get_from 1 key) (\<lambda>r. map_option from_be_bytes (try_array 4 r)))"

definition repo_by_name :: "string \<Rightarrow> bytes" where
  "repo_by_name name = start PREFIX_REPO_BY_NAME @ as_bytes name"

definition repos_by_name :: bytes where
  "repos_by_name = [PREFIX_REPO_BY_NAME]"

definition repo_by_id :: "repo_id \<Rightarrow> bytes" where
  "repo_by_id rid = start PREFIX_REPO_BY_ID @ to_be_bytes rid"

definition parse_repo_name :: "bytes \<Rightarrow> string option" where
  "parse_repo_name key =
     (case key of
        [] \<Rightarrow> None
      | p # _ \<Rightarrow> if p \<noteq> PREFIX_REPO_BY_NAME then None else Option.bind (get_from 1 key) from_utf8)"

definition parse_repo_id :: "bytes \<Rightarrow> repo_id option" where
  "parse_repo_id v = map_option from_be_bytes (try_array 4 v)"

definition db_version :: bytes where
  "db_version = [PREFIX_DB_VERSION]"

section \<open>Keys as a first byte and components\<close>

text \<open>
  The builders, flattened. Every proof about keys works on these forms; \<open>key_codes\<close> then
  cancels equal components from the front, using that digests, repository ids, instants and
  day numbers have self-delimiting encodings.
\<close>

lemma start_flat [key_defs]:
  "start p = [p]" "start_repo p r = p # to_be_bytes r" "start_counter c r = 0x41 # c # to_be_bytes r"
  "push_bucket k day shard = k @ to_be_bytes day @ to_be_bytes shard"
  "push_desc_time k at = k @ to_be_bytes (not (millis at))"
  by (simp_all add: start_def start_repo_def start_counter_def push_bucket_def push_desc_time_def)

lemmas flat = start_flat encode_into_eq [of _ "a # b" for a b]

lemma data_keys [key_defs]:
  "manifest_key r d = 0x4D # to_be_bytes r @ enc d"
  "manifest_body_key r d = 0x5A # to_be_bytes r @ enc d"
  "tag_key r t = 0x54 # to_be_bytes r @ as_bytes t"
  "manifest_tag_key r d t = 0x47 # to_be_bytes r @ enc d @ as_bytes t"
  "blob_key d = 0x42 # enc d"
  "blob_mark_key d = 0x43 # enc d"
  "blob_ref_key d r m = 0x52 # enc d @ to_be_bytes r @ enc m"
  "repo_blob_key r d = 0x50 # to_be_bytes r @ enc d"
  "child_parent_key r d m = 0x53 # to_be_bytes r @ enc d @ enc m"
  "referrer_key r d m = 0x46 # to_be_bytes r @ enc d @ enc m"
  "upload_key u = 0x55 # raw16 u"
  "tag_history_key r t at d = 0x48 # to_be_bytes r @ as_bytes t @ 0 # to_be_bytes (not (millis at)) @ enc d"
  "manifest_tag_history_key r d at t = 0x4A # to_be_bytes r @ enc d @ to_be_bytes (not (millis at)) @ as_bytes t"
  "counter_manifest_key r d day shard = 0x41 # 0x6D # to_be_bytes r @ enc d @ to_be_bytes day @ to_be_bytes shard"
  "counter_tag_key r t day shard = 0x41 # 0x74 # to_be_bytes r @ as_bytes t @ 0 # to_be_bytes day @ to_be_bytes shard"
  "counter_repo_key r day shard = 0x41 # 0x72 # to_be_bytes r @ to_be_bytes day @ to_be_bytes shard"
  "dead_repo_key r = 0x44 # to_be_bytes r"
  "repo_by_name n = 0x6E # as_bytes n"
  "repo_by_id r = 0x69 # to_be_bytes r"
  "db_version = [0x76]"
  unfolding manifest_key_def manifest_body_key_def tag_key_def manifest_tag_key_def blob_key_def
    blob_mark_key_def blob_ref_key_def repo_blob_key_def child_parent_key_def referrer_key_def
    upload_key_def tag_history_key_def manifest_tag_history_key_def counter_manifest_key_def
    counter_tag_key_def counter_repo_key_def dead_repo_key_def repo_by_name_def repo_by_id_def
    db_version_def TAG_END_def
  by (simp_all add: flat)

lemma scan_prefixes [key_defs]:
  "manifests_in_repo r = 0x4D # to_be_bytes r"
  "manifest_bodies_in_repo r = 0x5A # to_be_bytes r"
  "tags_in_repo r = 0x54 # to_be_bytes r"
  "tags_of_manifest r d = 0x47 # to_be_bytes r @ enc d"
  "manifest_tags_in_repo r = 0x47 # to_be_bytes r"
  "blobs = [0x42]" "blob_marks = [0x43]"
  "blob_refs d = 0x52 # enc d"
  "blob_refs_in_repo d r = 0x52 # enc d @ to_be_bytes r"
  "blobs_in_repo r = 0x50 # to_be_bytes r" "repo_blobs = [0x50]"
  "parents_of r d = 0x53 # to_be_bytes r @ enc d" "children_in_repo r = 0x53 # to_be_bytes r"
  "referrers_of r d = 0x46 # to_be_bytes r @ enc d" "referrers_in_repo r = 0x46 # to_be_bytes r"
  "uploads = [0x55]"
  "tag_history_of r t = 0x48 # to_be_bytes r @ as_bytes t @ [0]"
  "tag_history_in_repo r = 0x48 # to_be_bytes r"
  "manifest_tag_history_of r d = 0x4A # to_be_bytes r @ enc d"
  "manifest_tag_history_in_repo r = 0x4A # to_be_bytes r"
  "counters_of_manifest r d = 0x41 # 0x6D # to_be_bytes r @ enc d"
  "counters_of_tag r t = 0x41 # 0x74 # to_be_bytes r @ as_bytes t @ [0]"
  "counters_of_repo r = 0x41 # 0x72 # to_be_bytes r"
  "counters_in_repo_scope c r = 0x41 # c # to_be_bytes r"
  "dead_repos = [0x44]" "repos_by_name = [0x6E]"
  unfolding manifests_in_repo_def manifest_bodies_in_repo_def tags_in_repo_def tags_of_manifest_def
    manifest_tags_in_repo_def blobs_def blob_marks_def blob_refs_def blob_refs_in_repo_def
    blobs_in_repo_def repo_blobs_def parents_of_def children_in_repo_def referrers_of_def
    referrers_in_repo_def uploads_def tag_history_of_def tag_history_in_repo_def
    manifest_tag_history_of_def manifest_tag_history_in_repo_def counters_of_manifest_def
    counters_of_tag_def counters_of_repo_def counters_in_repo_scope_def dead_repos_def
    repos_by_name_def TAG_END_def
  by (simp_all add: flat)

lemma cursors [key_defs]:
  "tag_history_before r t at =
     0x48 # to_be_bytes r @ as_bytes t @ 0 # to_be_bytes (not (sat_sub (millis at) 1))"
  "manifest_tag_history_before r d at =
     0x4A # to_be_bytes r @ enc d @ to_be_bytes (not (sat_sub (millis at) 1))"
  "counters_from_day p day = p @ to_be_bytes day"
  by (simp_all add: tag_history_before_def manifest_tag_history_before_def counters_from_day_def
      key_defs)

text \<open>Cancelling integers of one width.\<close>

lemma be_append_eq:
  fixes a b :: "'a::len word"
  assumes "8 dvd LENGTH('a)"
  shows "to_be_bytes a @ x = to_be_bytes b @ y \<longleftrightarrow> a = b \<and> x = y"
    and "to_be_bytes a @ x = to_be_bytes b \<longleftrightarrow> a = b \<and> x = []"
    and "to_be_bytes a = to_be_bytes b @ y \<longleftrightarrow> a = b \<and> y = []"
    and "prefix (to_be_bytes a @ x) (to_be_bytes b @ y) \<longleftrightarrow> a = b \<and> prefix x y"
    and "prefix (to_be_bytes a) (to_be_bytes b @ y) \<longleftrightarrow> a = b"
    and "prefix (to_be_bytes a @ x) (to_be_bytes b) \<longleftrightarrow> a = b \<and> x = []"
    and "prefix (to_be_bytes a) (to_be_bytes b) \<longleftrightarrow> a = b"
    and "to_be_bytes a @ x < to_be_bytes b @ y \<longleftrightarrow> a < b \<or> (a = b \<and> x < y)"
    and "to_be_bytes a < to_be_bytes b @ y \<longleftrightarrow> a < b \<or> (a = b \<and> y \<noteq> [])"
proof -
  let ?e = "to_be_bytes :: 'a word \<Rightarrow> bytes"
  have inj: "?e a = ?e b \<longleftrightarrow> a = b" and less: "?e a < ?e b \<longleftrightarrow> a < b"
    using assms by (rule to_be_bytes_inject, rule to_be_bytes_less) 
  have pre: "prefix (?e a @ x) (?e b @ y) \<longleftrightarrow> a = b \<and> prefix x y" for x y
    by (simp add: prefix_append_eq_length inj)
  have lt: "?e a @ x < ?e b @ y \<longleftrightarrow> a < b \<or> (a = b \<and> x < y)" for x y
    by (simp add: append_less_eq_length inj less)
  show "?e a @ x = ?e b @ y \<longleftrightarrow> a = b \<and> x = y"
    and "?e a @ x = ?e b \<longleftrightarrow> a = b \<and> x = []" and "?e a = ?e b @ y \<longleftrightarrow> a = b \<and> y = []"
    using append_eq_append_conv [of "?e a" "?e b" x y] append_eq_append_conv [of "?e a" "?e b" x "[]"]
      append_eq_append_conv [of "?e a" "?e b" "[]" y] by (auto simp: inj)
  show "prefix (?e a @ x) (?e b @ y) \<longleftrightarrow> a = b \<and> prefix x y"
    and "prefix (?e a) (?e b @ y) \<longleftrightarrow> a = b" and "prefix (?e a @ x) (?e b) \<longleftrightarrow> a = b \<and> x = []"
    and "prefix (?e a) (?e b) \<longleftrightarrow> a = b"
    using pre [of x y] pre [of "[]" y] pre [of x "[]"] pre [of "[]" "[]"] by auto
  show "?e a @ x < ?e b @ y \<longleftrightarrow> a < b \<or> (a = b \<and> x < y)" by (rule lt)
  show "?e a < ?e b @ y \<longleftrightarrow> a < b \<or> (a = b \<and> y \<noteq> [])"
    using lt [of "[]" y] by (cases y) auto
qed

lemmas be_codes [key_codes] =
  be_append_eq [where 'a = 16, simplified] be_append_eq [where 'a = 32, simplified]
  be_append_eq [where 'a = 64, simplified]

text \<open>Cancelling a tag that a NUL byte ends, and the complemented instants.\<close>

definition nul_free :: "string \<Rightarrow> bool" where
  "nul_free s \<longleftrightarrow> CHR 0x00 \<notin> set s"

lemma nul_free_bytes: "nul_free s \<longleftrightarrow> 0 \<notin> set (as_bytes s)"
  by (simp add: nul_free_def in_as_bytes byte_char_def char_of_def)

lemma sep_eq:
  assumes "c \<notin> set s" "c \<notin> set t"
  shows "s @ c # x = t @ c # y \<longleftrightarrow> s = t \<and> x = y"
  using assms by (auto simp: append_eq_append_conv2 append_eq_Cons_conv Cons_eq_append_conv)

lemma tag_codes [key_codes]:
  assumes "nul_free s" "nul_free t"
  shows "as_bytes s @ 0 # x = as_bytes t @ 0 # y \<longleftrightarrow> s = t \<and> x = y"
    and "prefix (as_bytes s @ 0 # x) (as_bytes t @ 0 # y) \<longleftrightarrow> s = t \<and> prefix x y"
proof -
  have *: "as_bytes s @ 0 # x = as_bytes t @ 0 # y \<longleftrightarrow> s = t \<and> x = y" for x y
    using sep_eq [of 0 "as_bytes s" "as_bytes t" x y] assms by (simp add: nul_free_bytes)
  show "as_bytes s @ 0 # x = as_bytes t @ 0 # y \<longleftrightarrow> s = t \<and> x = y" by (rule *)
  show "prefix (as_bytes s @ 0 # x) (as_bytes t @ 0 # y) \<longleftrightarrow> s = t \<and> prefix x y"
    using * unfolding prefix_def by (metis append_Cons append_assoc)
qed

lemma desc_time_codes [key_codes]:
  "not (a :: u64) = not b \<longleftrightarrow> a = b" "not a < not b \<longleftrightarrow> b < a"
  by (simp_all add: not_less_not)

section \<open>The key space\<close>

text \<open>
  The logical keys the module documents, one constructor per kind, and the bytes of each. Tags
  followed by further components must be free of NUL (\<open>wf_key\<close>); a valid tag is.
\<close>

datatype store_key =
    KManifest repo_id digest
  | KManifestBody repo_id digest
  | KTag repo_id string
  | KManifestTag repo_id digest string
  | KBlob digest
  | KBlobMark digest
  | KBlobRef digest repo_id digest
  | KRepoBlob repo_id digest
  | KChildParent repo_id digest digest
  | KReferrer repo_id digest digest
  | KUpload bytes16
  | KTagHistory repo_id string timestamp digest
  | KManifestTagHistory repo_id digest timestamp string
  | KCounterManifest repo_id digest u16 u16
  | KCounterTag repo_id string u16 u16
  | KCounterRepo repo_id u16 u16
  | KDeadRepo repo_id
  | KRepoByName string
  | KRepoById repo_id
  | KDbVersion

fun encode_key :: "store_key \<Rightarrow> bytes" where
  "encode_key (KManifest r d) = manifest_key r d"
| "encode_key (KManifestBody r d) = manifest_body_key r d"
| "encode_key (KTag r t) = tag_key r t"
| "encode_key (KManifestTag r d t) = manifest_tag_key r d t"
| "encode_key (KBlob d) = blob_key d"
| "encode_key (KBlobMark d) = blob_mark_key d"
| "encode_key (KBlobRef d r m) = blob_ref_key d r m"
| "encode_key (KRepoBlob r d) = repo_blob_key r d"
| "encode_key (KChildParent r c p) = child_parent_key r c p"
| "encode_key (KReferrer r s d) = referrer_key r s d"
| "encode_key (KUpload u) = upload_key u"
| "encode_key (KTagHistory r t at d) = tag_history_key r t at d"
| "encode_key (KManifestTagHistory r d at t) = manifest_tag_history_key r d at t"
| "encode_key (KCounterManifest r d day shard) = counter_manifest_key r d day shard"
| "encode_key (KCounterTag r t day shard) = counter_tag_key r t day shard"
| "encode_key (KCounterRepo r day shard) = counter_repo_key r day shard"
| "encode_key (KDeadRepo r) = dead_repo_key r"
| "encode_key (KRepoByName n) = repo_by_name n"
| "encode_key (KRepoById r) = repo_by_id r"
| "encode_key KDbVersion = db_version"

fun wf_key :: "store_key \<Rightarrow> bool" where
  "wf_key (KTagHistory r t at d) = nul_free t"
| "wf_key (KCounterTag r t day shard) = nul_free t"
| "wf_key _ = True"

lemma encode_key_inject:
  "wf_key k \<Longrightarrow> wf_key l \<Longrightarrow> encode_key k = encode_key l \<longleftrightarrow> k = l"
  by (cases k; cases l; simp add: key_defs key_codes)

lemma get_from_append [simp]: "n = length p \<Longrightarrow> get_from n (p @ r) = Some r"
  by (simp add: get_from_def)

lemma get_from_Cons [simp]: "get_from (Suc n) (p # r) = get_from n r"
  by (simp add: get_from_def)

lemma get_from_0 [simp]: "get_from 0 k = Some k"
  by (simp add: get_from_def)

lemma parse_manifest_tag_suffix_key:
  "is_str t \<Longrightarrow> parse_manifest_tag_suffix (manifest_tag_key r d t) d = Some t"
  using get_from_append [of "5 + encoded_len d" "0x47 # to_be_bytes r @ enc d" "as_bytes t"]
  by (simp add: parse_manifest_tag_suffix_def REPO_LEN_def key_defs)

lemma parse_tag_suffix_key: "is_str t \<Longrightarrow> parse_tag_suffix (tag_key r t) = Some t"
  using get_from_append [of 5 "0x54 # to_be_bytes r" "as_bytes t"]
  by (simp add: parse_tag_suffix_def REPO_LEN_def key_defs)

lemma read_desc_time_append [simp]:
  "read_desc_time (to_be_bytes (not (millis at)) @ r) = Some at"
  by (simp add: read_desc_time_def)

lemma nth_pairs:
  assumes "length xs = 2" "length ys = 2"
  shows "[(xs @ ys) ! 0, (xs @ ys) ! 1] = xs" "[(xs @ ys) ! 2, (xs @ ys) ! 3] = ys"
  using assms by (auto simp: numeral_2_eq_2 numeral_3_eq_3 length_Suc_conv)

lemma counter_suffix_bucket:
  "counter_suffix (p @ to_be_bytes (day :: u16) @ to_be_bytes (shard :: u16)) p = Some (day, shard)"
  using nth_pairs [of "to_be_bytes day" "to_be_bytes shard"] by (simp add: counter_suffix_def)

lemma le_sat_sub_1: "0 < (b :: u64) \<Longrightarrow> a \<le> sat_sub b 1 \<longleftrightarrow> a < b"
  by (simp add: word_le_nat_alt word_less_nat_alt unat_sat_sub) linarith

lemma hour_of_day_eq: "hour_of_day s = (unat s mod 86400) div 3600"
  by (simp add: hour_of_day_def unat_div unat_mod)

lemma unat_day_bucket: "unat s < 2 ^ 16 * 86400 \<Longrightarrow> unat (day_bucket s) = unat s div 86400"
proof -
  assume "unat s < 2 ^ 16 * 86400"
  then have "unat s div 86400 < 2 ^ 16" by (rule less_mult_imp_div_less)
  then show ?thesis
    by (simp add: day_bucket_def unsigned_ucast_eq unat_div take_bit_nat_eq_self_iff)
qed

lemma unat_weekday: "unat (weekday day) = (unat day + 4) mod 7"
proof -
  have d: "unat day < 2 ^ 16" using unsigned_less [of day, where ?'a = nat] by simp
  then have "unat (ucast day :: u32) = unat day"
    by (simp add: unsigned_ucast_eq take_bit_nat_eq_self_iff)
  then have "unat ((ucast day :: u32) + 4) = unat day + 4"
    using d by (simp add: unat_word_ariths)
  moreover have "(unat day + 4) mod 7 < 256"
    using mod_less_divisor [of 7 "unat day + 4"] by linarith
  ultimately show ?thesis
    by (simp add: weekday_def unsigned_ucast_eq unat_mod take_bit_nat_eq_self_iff)
qed

section \<open>Properties\<close>

text \<open>
  C18. No two logical keys share their bytes: each of the twenty kinds of key is encoded
  injectively and no key of one kind is a key of another, as long as the tags inside history
  and counter keys contain no NUL.
\<close>

theorem keys_injective:
  assumes "wf_key k" and "wf_key l"
  shows "encode_key k = encode_key l \<longleftrightarrow> k = l"
  using assms by (rule encode_key_inject)

theorem keys_injective_witness:
  "wf_key (KTagHistory 1 ''v1'' (Timestamp 5) (Sha256 (arr32 []))) \<and> wf_key (KCounterTag 1 ''v1'' 2 3)
   \<and> encode_key (KTagHistory 1 ''v1'' (Timestamp 5) (Sha256 (arr32 [])))
     \<noteq> encode_key (KCounterTag 1 ''v1'' 2 3)"
  using keys_injective [of "KTagHistory 1 ''v1'' (Timestamp 5) (Sha256 (arr32 []))"
      "KCounterTag 1 ''v1'' 2 3"] by (simp add: nul_free_def)

text \<open>
  Every scan prefix selects exactly the keys it is documented to select: the keys of one
  kind in one repository, or of one manifest, blob, subject, child or tag. In particular the
  history and the counters of a tag never include those of a longer tag.
\<close>

theorem scans_exact:
  assumes "wf_key k" and "nul_free t"
  shows "(prefix (manifests_in_repo r) (encode_key k) \<longleftrightarrow> (\<exists>e. k = KManifest r e))
    \<and> (prefix (manifest_bodies_in_repo r) (encode_key k) \<longleftrightarrow> (\<exists>e. k = KManifestBody r e))
    \<and> (prefix (tags_in_repo r) (encode_key k) \<longleftrightarrow> (\<exists>u. k = KTag r u))
    \<and> (prefix (tags_of_manifest r d) (encode_key k) \<longleftrightarrow> (\<exists>u. k = KManifestTag r d u))
    \<and> (prefix (blob_refs d) (encode_key k) \<longleftrightarrow> (\<exists>q m. k = KBlobRef d q m))
    \<and> (prefix (blob_refs_in_repo d r) (encode_key k) \<longleftrightarrow> (\<exists>m. k = KBlobRef d r m))
    \<and> (prefix (blobs_in_repo r) (encode_key k) \<longleftrightarrow> (\<exists>e. k = KRepoBlob r e))
    \<and> (prefix repo_blobs (encode_key k) \<longleftrightarrow> (\<exists>q e. k = KRepoBlob q e))
    \<and> (prefix blobs (encode_key k) \<longleftrightarrow> (\<exists>e. k = KBlob e))
    \<and> (prefix blob_marks (encode_key k) \<longleftrightarrow> (\<exists>e. k = KBlobMark e))
    \<and> (prefix (parents_of r d) (encode_key k) \<longleftrightarrow> (\<exists>m. k = KChildParent r d m))
    \<and> (prefix (referrers_of r d) (encode_key k) \<longleftrightarrow> (\<exists>m. k = KReferrer r d m))
    \<and> (prefix uploads (encode_key k) \<longleftrightarrow> (\<exists>u. k = KUpload u))
    \<and> (prefix (tag_history_of r t) (encode_key k) \<longleftrightarrow> (\<exists>at e. k = KTagHistory r t at e))
    \<and> (prefix (manifest_tag_history_of r d) (encode_key k) \<longleftrightarrow>
        (\<exists>at u. k = KManifestTagHistory r d at u))
    \<and> (prefix (counters_of_manifest r d) (encode_key k) \<longleftrightarrow> (\<exists>a b. k = KCounterManifest r d a b))
    \<and> (prefix (counters_of_tag r t) (encode_key k) \<longleftrightarrow> (\<exists>a b. k = KCounterTag r t a b))
    \<and> (prefix (counters_of_repo r) (encode_key k) \<longleftrightarrow> (\<exists>a b. k = KCounterRepo r a b))
    \<and> (prefix dead_repos (encode_key k) \<longleftrightarrow> (\<exists>q. k = KDeadRepo q))
    \<and> (prefix repos_by_name (encode_key k) \<longleftrightarrow> (\<exists>n. k = KRepoByName n))"
  using assms by (cases k; simp add: key_defs key_codes eq_commute)

theorem scans_exact_witness:
  "wf_key (KTagHistory 1 ''foobar'' (Timestamp 5) (Sha256 (arr32 []))) \<and> nul_free ''foo''
   \<and> \<not> prefix (tag_history_of 1 ''foo'') (tag_history_key 1 ''foobar'' (Timestamp 5) (Sha256 (arr32 [])))"
  using scans_exact [of "KTagHistory 1 ''foobar'' (Timestamp 5) (Sha256 (arr32 []))" "''foo''" 1]
  by (simp add: nul_free_def)

text \<open>
  History keys of one tag, and of one manifest, sort newest first. Resuming after the cursor
  of \<open>tag_history_before\<close> and of \<open>manifest_tag_history_before\<close> yields exactly the events strictly
  before the instant, for every instant after the epoch.
\<close>

theorem history_newest_first:
  assumes "0 < millis at"
  shows "(tag_history_key r t a d < tag_history_key r t b e \<longleftrightarrow>
          millis b < millis a \<or> (a = b \<and> d < e))
    \<and> (manifest_tag_history_key r d a t < manifest_tag_history_key r d b u \<longleftrightarrow>
          millis b < millis a \<or> (a = b \<and> as_bytes t < as_bytes u))
    \<and> (tag_history_before r t at < tag_history_key r t a d \<longleftrightarrow> millis a < millis at)
    \<and> (t \<noteq> [] \<longrightarrow>
        (manifest_tag_history_before r d at < manifest_tag_history_key r d a t
          \<longleftrightarrow> millis a < millis at))"
proof -
  have "millis a < sat_sub (millis at) 1 \<or> sat_sub (millis at) 1 = millis a
      \<longleftrightarrow> millis a < millis at"
    using le_sat_sub_1 [OF assms, of "millis a"] by (auto simp: le_less)
  then show ?thesis
    using enc_append_less [of d "[]" e "[]"] by (auto simp: key_defs key_codes)
qed

theorem history_newest_first_witness:
  "0 < millis (Timestamp 7)
   \<and> tag_history_before 1 ''v1'' (Timestamp 7) < tag_history_key 1 ''v1'' (Timestamp 6) (Sha256 (arr32 []))
   \<and> \<not> tag_history_before 1 ''v1'' (Timestamp 7) < tag_history_key 1 ''v1'' (Timestamp 7) (Sha256 (arr32 []))"
  using history_newest_first [of "Timestamp 7" 1 "''v1''" "Timestamp 6" "Sha256 (arr32 [])"]
    history_newest_first [of "Timestamp 7" 1 "''v1''" "Timestamp 7" "Sha256 (arr32 [])"]
  by simp

text \<open>
  At the epoch itself the cursor is inclusive: the subtraction saturates, so an event at
  instant 0 comes after the cursor for "strictly before instant 0".
\<close>

theorem history_before_epoch_inclusive:
  "tag_history_before r t (Timestamp 0) < tag_history_key r t (Timestamp 0) d"
  by (simp add: key_defs key_codes sat_sub_def)

text \<open>
  Counter keys under one scan prefix sort by day and then by shard; the cursor for a day
  comes before every key of that day and after every key of an earlier day, and the day and
  shard are read back from the key.
\<close>

theorem counter_window:
  "(p @ to_be_bytes day @ to_be_bytes shard < p @ to_be_bytes day' @ to_be_bytes shard'
      \<longleftrightarrow> day < day' \<or> (day = day' \<and> shard < shard'))
   \<and> (counters_from_day p day < p @ to_be_bytes day' @ to_be_bytes shard' \<longleftrightarrow> day \<le> day')
   \<and> counter_suffix (counter_manifest_key r d day shard) (counters_of_manifest r d) = Some (day, shard)
   \<and> counter_suffix (counter_tag_key r t day shard) (counters_of_tag r t) = Some (day, shard)
   \<and> counter_suffix (counter_repo_key r day shard) (counters_of_repo r) = Some (day, shard)"
  using counter_suffix_bucket [of "counters_of_manifest r d" day shard]
    counter_suffix_bucket [of "counters_of_tag r t" day shard]
    counter_suffix_bucket [of "counters_of_repo r" day shard]
  by (auto simp: key_defs key_codes le_less)

text \<open>
  The readers give back what the builders wrote: tags of \<open>T\<close> and \<open>G\<close> keys, instants, digests
  and tags of the two histories, the ids of tombstones and of interned names, and names.
\<close>

theorem key_readers:
  assumes "is_str t"
  shows "parse_tag_suffix (tag_key r t) = Some t
    \<and> parse_manifest_tag_suffix (manifest_tag_key r d t) d = Some t
    \<and> tag_history_suffix (tag_history_key r t at d) (tag_history_of r t) = Some (at, d)
    \<and> manifest_tag_history_suffix (manifest_tag_history_key r d at t) (manifest_tag_history_of r d)
        = Some (at, t)
    \<and> parse_dead_repo_id (dead_repo_key r) = Some r
    \<and> parse_repo_name (repo_by_name t) = Some t
    \<and> parse_repo_id (to_be_bytes r) = Some r"
  using assms
  by (simp add: parse_tag_suffix_key parse_manifest_tag_suffix_key)
    (simp add: key_defs tag_history_suffix_def manifest_tag_history_suffix_def
      parse_dead_repo_id_def parse_repo_name_def parse_repo_id_def try_array_def)

theorem key_readers_witness:
  "is_str ''v1'' \<and> parse_tag_suffix (tag_key 7 ''v1'') = Some ''v1''"
proof -
  have "is_str ''v1''" by (simp add: is_str_def char_byte_def)
  then show ?thesis using key_readers [of "''v1''" 7] by simp
qed

text \<open>
  The time coordinate of a counter: the hour is always an index into the arrays, and until the
  day number outgrows 16 bits the second lies in the hour that day and hour name.
\<close>

theorem counter_coordinates:
  "hour_of_day s < HOURS_PER_DAY
   \<and> (unat s < 2 ^ 16 * 86400 \<longrightarrow>
        unat (day_bucket s) * 86400 + hour_of_day s * 3600 \<le> unat s
      \<and> unat s < unat (day_bucket s) * 86400 + hour_of_day s * 3600 + 3600)
   \<and> unat (weekday day) = (unat day + 4) mod 7"
proof -
  have "hour_of_day s < HOURS_PER_DAY"
    by (simp add: hour_of_day_eq HOURS_PER_DAY_def less_mult_imp_div_less)
  moreover have "n div 86400 * 86400 + (n mod 86400) div 3600 * 3600 \<le> n
      \<and> n < n div 86400 * 86400 + (n mod 86400) div 3600 * 3600 + 3600" for n :: nat
    using div_mult_mod_eq [of n 86400] div_mult_mod_eq [of "n mod 86400" 3600]
      mod_less_divisor [of 3600 "n mod 86400"] by linarith
  ultimately show ?thesis
    by (simp add: hour_of_day_eq unat_day_bucket unat_weekday)
qed

theorem counter_coordinates_witness:
  "unat (1700000000 :: u64) < 2 ^ 16 * 86400 \<and> unat (day_bucket 1700000000) * 86400 \<le> 1700000000"
  using counter_coordinates [of 1700000000 0] by simp

end
