(* ===== verification/Summ_Extractor.thy ===== *)
theory Summ_Extractor
  imports Summ_Keys
begin

text \<open>
  The RocksDB prefix extractor and the prefix successor
  (\<open>summ-meta/src/rocks_engine.rs\<close>, \<open>summ_prefix_len\<close> to \<open>prefix_successor\<close>). RocksDB stops an
  iterator in prefix mode when the extracted group changes, so what matters is that the keys
  of one group are contiguous and that a group can be recognised from its own bytes.
\<close>

section \<open>Definitions\<close>

text \<open>\<open>key.get(i)\<close>\<close>

definition get_at :: "nat \<Rightarrow> bytes \<Rightarrow> byte option" where
  "get_at i k = (if i < length k then Some (k ! i) else None)"

definition summ_prefix_len :: "bytes \<Rightarrow> nat option" where
  "summ_prefix_len key =
     Option.bind (get_at 0 key) (\<lambda>p.
       if p = PREFIX_BLOB_REF then
         Option.bind (get_at 1 key) (\<lambda>a. map_option (\<lambda>n. 1 + n) (encoded_len_of a))
       else if p = PREFIX_MANIFEST_TAG \<or> p = PREFIX_CHILD_PARENT \<or> p = PREFIX_REFERRER then
         Option.bind (get_at 5 key) (\<lambda>a. map_option (\<lambda>n. 1 + 4 + n) (encoded_len_of a))
       else if p = PREFIX_COUNTER then
         Option.bind (get_at 1 key) (\<lambda>scope.
           if scope = SCOPE_MANIFEST then
             Option.bind (get_at 6 key) (\<lambda>a. map_option (\<lambda>n. 2 + 4 + n) (encoded_len_of a))
           else if scope = SCOPE_TAG \<or> scope = SCOPE_REPO then Some 6
           else None)
       else if p = PREFIX_MANIFEST \<or> p = PREFIX_MANIFEST_BODY \<or> p = PREFIX_TAG
            \<or> p = PREFIX_REPO_BLOB \<or> p = PREFIX_TAG_HISTORY \<or> p = PREFIX_MANIFEST_TAG_HISTORY then
         Some 5
       else None)"

definition summ_transform :: "bytes \<Rightarrow> bytes" where
  "summ_transform key =
     (case summ_prefix_len key of
        Some n \<Rightarrow> if n \<le> length key then take n key else key
      | None \<Rightarrow> key)"

definition summ_in_domain :: "bytes \<Rightarrow> bool" where
  "summ_in_domain key =
     (case summ_prefix_len key of Some n \<Rightarrow> n \<le> length key | None \<Rightarrow> False)"

text \<open>The loop pops trailing \<open>0xff\<close> bytes; it runs on the reversed list here.\<close>

fun successor_loop :: "bytes \<Rightarrow> bytes option" where
  "successor_loop [] = None"
| "successor_loop (b # front) =
     (if b < 0xFF then Some (rev ((b + 1) # front)) else successor_loop front)"

definition prefix_successor :: "bytes \<Rightarrow> bytes option" where
  "prefix_successor p = successor_loop (rev p)"

section \<open>Groups\<close>

lemma get_at_prefix: "prefix g k \<Longrightarrow> i < length g \<Longrightarrow> get_at i k = get_at i g"
  by (auto simp: get_at_def prefix_def nth_append)

lemma encoded_len_of_cases: "encoded_len_of a = Some n \<Longrightarrow> n = 33 \<or> n = 65"
  by (auto simp: encoded_len_of_def split: if_splits)

text \<open>The bytes that decide the length of a group lie inside the group.\<close>

lemma summ_prefix_len_take:
  assumes "summ_prefix_len k = Some n" and "n \<le> length k" and "prefix (take n k) l"
  shows "summ_prefix_len l = Some n"
proof -
  have same: "get_at i l = get_at i k" if "i < n" for i
    using that assms(2) get_at_prefix [OF assms(3), of i] get_at_prefix [of "take n k" k i]
    by (simp add: take_is_prefix)
  have ge: "5 \<le> n"
    using assms(1) by (auto simp: summ_prefix_len_def bind_eq_Some_conv dest!: encoded_len_of_cases split: if_splits)
  then have s01: "get_at 0 l = get_at 0 k" "get_at 1 l = get_at 1 k"
    using same by simp_all
  show ?thesis
  proof (cases "n \<le> 6")
    case False
    then have s56: "get_at 5 l = get_at 5 k" "get_at 6 l = get_at 6 k"
      using same by simp_all
    have "summ_prefix_len l = summ_prefix_len k"
      unfolding summ_prefix_len_def s01 s56 by (rule refl)
    with assms(1) show ?thesis by simp
  next
    case True
    have big: "encoded_len_of a = Some m \<Longrightarrow> 6 < m" for a m
      using encoded_len_of_cases by fastforce
    from assms(1) obtain p where p: "get_at 0 k = Some p"
      by (auto simp: summ_prefix_len_def bind_eq_Some_conv)
    show ?thesis
    proof (cases "p = 0x41")
      case c: True
      from assms(1) p c True big obtain c where "get_at 1 k = Some c" "c = 0x74 \<or> c = 0x72" "n = 6"
        by (force simp: summ_prefix_len_def bind_eq_Some_conv split: if_splits)
      with p c s01 show ?thesis by (auto simp: summ_prefix_len_def)
    next
      case c: False
      from assms(1) p c True big have "p \<in> {0x4D, 0x5A, 0x54, 0x50, 0x48, 0x4A}" "n = 5"
        by (force simp: summ_prefix_len_def bind_eq_Some_conv split: if_splits)+
      with p s01 show ?thesis by (auto simp: summ_prefix_len_def)
    qed
  qed
qed

text \<open>A key is in its own group; a group is its own group; whatever starts with a group is in it.\<close>

lemma prefix_summ_transform: "prefix (summ_transform k) k"
  by (auto simp: summ_transform_def take_is_prefix split: option.split)

lemma summ_group_closed:
  assumes "summ_in_domain k" and "prefix (summ_transform k) l"
  shows "summ_in_domain l \<and> summ_transform l = summ_transform k"
proof -
  from assms(1) obtain n where n: "summ_prefix_len k = Some n" "n \<le> length k"
    by (auto simp: summ_in_domain_def split: option.splits)
  then have t: "summ_transform k = take n k" by (simp add: summ_transform_def)
  with assms(2) have p: "prefix (take n k) l" by simp
  then have "take n l = take n k" and "n \<le> length l"
    using n(2) by (auto simp: prefix_def)
  with t summ_prefix_len_take [OF n p] show ?thesis
    by (simp add: summ_in_domain_def summ_transform_def)
qed

lemma summ_transform_idem:
  "summ_in_domain k \<Longrightarrow> summ_in_domain (summ_transform k) \<and> summ_transform (summ_transform k) = summ_transform k"
  by (rule summ_group_closed) simp_all

lemma summ_groups_contiguous:
  assumes "summ_in_domain x" and "summ_in_domain z" and "summ_transform x = summ_transform z"
    and "x \<le> y" and "y \<le> z"
  shows "summ_in_domain y \<and> summ_transform y = summ_transform x"
proof (rule summ_group_closed [OF assms(1)])
  show "prefix (summ_transform x) y"
    using prefix_convex [of "summ_transform x" x z y] prefix_summ_transform assms by metis
qed

text \<open>
  A scan of prefix \<open>p\<close> resumed at \<open>t\<close> loses nothing to group filtering when the group of \<open>t\<close>
  reaches no further than \<open>p\<close>.
\<close>

definition group_within :: "bytes \<Rightarrow> bytes \<Rightarrow> bool" where
  "group_within p t \<longleftrightarrow> (summ_in_domain t \<longrightarrow> prefix (summ_transform t) p)"

lemma group_within_self [simp]: "group_within p p"
  by (simp add: group_within_def prefix_summ_transform)

lemma group_within_same:
  assumes "group_within p t" "prefix p k" "summ_in_domain t"
  shows "summ_in_domain k \<and> summ_transform k = summ_transform t"
  using assms summ_group_closed [of t k] by (auto simp: group_within_def intro: prefix_order.trans)

section \<open>The successor of a prefix\<close>

lemma byte_le_ff: "(b :: byte) \<le> 0xFF"
  using unat_byte_less [of b] by (simp add: word_le_nat_alt)

lemma byte_not_less_ff: "\<not> (b :: byte) < 0xFF \<longleftrightarrow> b = 0xFF"
  using byte_le_ff [of b] by auto

lemma successor_loop_None: "successor_loop r = None \<longleftrightarrow> (\<forall>b \<in> set r. b = 0xFF)"
proof (induction r)
  case (Cons b r)
  with byte_not_less_ff [of b] show ?case by auto
qed simp

lemma successor_loop_Some:
  "successor_loop (rev p) = Some e \<Longrightarrow> (\<exists>q b f. p = q @ b # f \<and> b < 0xFF \<and> (\<forall>x \<in> set f. x = 0xFF) \<and> e = q @ [b + 1])"
proof (induction p rule: rev_induct)
  case (snoc b p)
  show ?case
  proof (cases "b < 0xFF")
    case True
    with snoc show ?thesis by force
  next
    case False
    then have b: "b = 0xFF" by (simp only: byte_not_less_ff)
    from False snoc obtain q c f
      where *: "p = q @ c # f" "c < 0xFF" "\<forall>x \<in> set f. x = 0xFF" "e = q @ [c + 1]"
      by auto
    show ?thesis
      by (rule exI [of _ q], rule exI [of _ c], rule exI [of _ "f @ [b]"]) (use * b in auto)
  qed
qed simp

lemma all_ff_prefix:
  fixes f k :: bytes
  shows "\<forall>x \<in> set f. x = 0xFF \<Longrightarrow> f \<le> k \<Longrightarrow> prefix f k"
proof (induction f arbitrary: k)
  case (Cons a f)
  then obtain c k' where k: "k = c # k'" by (cases k) auto
  with byte_le_ff [of c] Cons show ?case by (auto simp: less_le)
qed simp

lemma word_less_add1: "(b :: byte) < 0xFF \<Longrightarrow> c < b + 1 \<longleftrightarrow> c \<le> b"
  by (simp add: word_less_nat_alt word_le_nat_alt unat_word_ariths) linarith

lemma prefix_successor_range:
  assumes "prefix_successor p = Some e"
  shows "prefix p k \<longleftrightarrow> p \<le> k \<and> k < e"
proof -
  from assms obtain q b f where p: "p = q @ b # f" and b: "b < 0xFF"
    and f: "\<forall>x \<in> set f. x = 0xFF" and e: "e = q @ [b + 1]"
    using successor_loop_Some unfolding prefix_successor_def by blast
  have "k < e" if "prefix p k"
    using that p e b by (auto simp: prefix_def word_less_add1)
  moreover have "prefix p k" if "p \<le> k" "k < e"
  proof -
    have "prefix q k"
      by (rule prefix_convex [of q p e]) (use p e that in auto)
    then obtain r where k: "k = q @ r" by (auto simp: prefix_def)
    with that p e have "b # f \<le> r" "r < [b + 1]" by simp_all
    then obtain r' where r: "r = b # r'" "f \<le> r'"
      using b by (cases r) (auto simp: word_less_add1)
    with all_ff_prefix f k p show ?thesis by simp
  qed
  ultimately show ?thesis using prefix_imp_le by blast
qed

lemma prefix_successor_None: "prefix_successor p = None \<longleftrightarrow> (\<forall>b \<in> set p. b = 0xFF)"
  by (simp add: prefix_successor_def successor_loop_None)

section \<open>The groups of the keys\<close>

lemma get_at_0 [simp]: "get_at 0 (p # k) = Some p"
  by (simp add: get_at_def)

lemma get_at_Suc [simp]: "get_at (Suc i) (p # k) = get_at i k"
  by (simp add: get_at_def)

lemma get_at_enc [simp]: "get_at 0 (enc d @ x) = Some (algo_byte d)" "get_at 0 (enc d) = Some (algo_byte d)"
  by (simp_all add: get_at_def enc_eq)

lemma get_at_be32 [simp]: "get_at 4 (to_be_bytes (r :: u32) @ x) = get_at 0 x"
  by (simp add: get_at_def nth_append)

lemma get_at_shift [simp]:
  "get_at 5 (p # k) = get_at 4 k" "get_at 6 (p # q # k) = get_at 4 k"
  by (simp_all add: get_at_def eval_nat_numeral)

lemma group_of:
  assumes "summ_prefix_len k = Some (length g)" and "k = g @ x"
  shows "summ_transform k = g \<and> summ_in_domain k"
  using assms by (simp add: summ_transform_def summ_in_domain_def)

lemma digest_groups:
  "summ_transform (0x52 # enc d @ x) = 0x52 # enc d \<and> summ_in_domain (0x52 # enc d @ x)"
  "p \<in> {0x47, 0x53, 0x46} \<Longrightarrow>
     summ_transform (p # to_be_bytes (r :: u32) @ enc d @ x) = p # to_be_bytes r @ enc d
     \<and> summ_in_domain (p # to_be_bytes r @ enc d @ x)"
  "summ_transform (0x41 # 0x6D # to_be_bytes r @ enc d @ x) = 0x41 # 0x6D # to_be_bytes r @ enc d
     \<and> summ_in_domain (0x41 # 0x6D # to_be_bytes r @ enc d @ x)"
proof -
  show "summ_transform (0x52 # enc d @ x) = 0x52 # enc d \<and> summ_in_domain (0x52 # enc d @ x)"
    by (rule group_of) (auto simp: summ_prefix_len_def encoded_len_of_algo_byte)
  show "summ_transform (p # to_be_bytes r @ enc d @ x) = p # to_be_bytes r @ enc d
     \<and> summ_in_domain (p # to_be_bytes r @ enc d @ x)" if "p \<in> {0x47, 0x53, 0x46}"
    by (rule group_of) (use that in \<open>auto simp: summ_prefix_len_def encoded_len_of_algo_byte\<close>)
  show "summ_transform (0x41 # 0x6D # to_be_bytes r @ enc d @ x) = 0x41 # 0x6D # to_be_bytes r @ enc d
     \<and> summ_in_domain (0x41 # 0x6D # to_be_bytes r @ enc d @ x)"
    by (rule group_of) (auto simp: summ_prefix_len_def encoded_len_of_algo_byte)
qed

lemma repo_groups:
  "p \<in> {0x4D, 0x5A, 0x54, 0x50, 0x48, 0x4A} \<Longrightarrow>
     summ_transform (p # to_be_bytes (r :: u32) @ x) = p # to_be_bytes r \<and> summ_in_domain (p # to_be_bytes r @ x)"
  "c \<in> {0x74, 0x72} \<Longrightarrow>
     summ_transform (0x41 # c # to_be_bytes r @ x) = 0x41 # c # to_be_bytes r
     \<and> summ_in_domain (0x41 # c # to_be_bytes r @ x)"
proof -
  show "summ_transform (p # to_be_bytes r @ x) = p # to_be_bytes r \<and> summ_in_domain (p # to_be_bytes r @ x)"
    if "p \<in> {0x4D, 0x5A, 0x54, 0x50, 0x48, 0x4A}"
    by (rule group_of) (use that in \<open>auto simp: summ_prefix_len_def\<close>)
  show "summ_transform (0x41 # c # to_be_bytes r @ x) = 0x41 # c # to_be_bytes r
     \<and> summ_in_domain (0x41 # c # to_be_bytes r @ x)" if "c \<in> {0x74, 0x72}"
    by (rule group_of) (use that in \<open>auto simp: summ_prefix_len_def\<close>)
qed

lemma no_group: "p \<in> {0x42, 0x43, 0x55, 0x44, 0x6E, 0x69, 0x76} \<Longrightarrow> \<not> summ_in_domain (p # x)"
  by (auto simp: summ_in_domain_def summ_prefix_len_def)

section \<open>Properties\<close>

text \<open>
  The prefix extractor meets what RocksDB asks of it, on every byte string: the extracted group is a
  prefix of the key and its own group, everything that starts with a group is in that group,
  and the keys of one group are contiguous in key order, so an iterator that stops when
  the group changes has seen all of it.
\<close>

theorem extractor_consistent:
  assumes "summ_in_domain x"
  shows "prefix (summ_transform x) x
    \<and> summ_in_domain (summ_transform x) \<and> summ_transform (summ_transform x) = summ_transform x
    \<and> (\<forall>l. prefix (summ_transform x) l \<longrightarrow> summ_in_domain l \<and> summ_transform l = summ_transform x)
    \<and> (\<forall>y z. summ_in_domain z \<and> summ_transform z = summ_transform x \<and> x \<le> y \<and> y \<le> z
          \<longrightarrow> summ_in_domain y \<and> summ_transform y = summ_transform x)"
proof (intro conjI allI impI; (elim conjE)?)
  fix y z
  assume "summ_in_domain z" "summ_transform z = summ_transform x" "x \<le> y" "y \<le> z"
  then have "summ_in_domain y \<and> summ_transform y = summ_transform x"
    by (intro summ_groups_contiguous [OF assms, of z]) simp_all
  then show "summ_in_domain y" and "summ_transform y = summ_transform x" by simp_all
qed (use prefix_summ_transform summ_transform_idem [OF assms] summ_group_closed [OF assms] in blast)+

theorem extractor_consistent_witness:
  "summ_in_domain (tag_key 7 ''v1'') \<and> summ_transform (summ_transform (tag_key 7 ''v1'')) = summ_transform (tag_key 7 ''v1'')"
proof -
  have "summ_in_domain (tag_key 7 ''v1'')"
    unfolding data_keys using repo_groups(1) by blast
  then show ?thesis using extractor_consistent [of "tag_key 7 ''v1''"] by blast
qed

text \<open>
  The group of every key is the scan prefix its range is read by, whatever the digest algorithm:
  references by blob, edges through their first digest, repository data by repository, counters
  by manifest or by scope and repository. The one-byte ranges are outside the domain.
\<close>

theorem extractor_groups:
  "summ_transform (blob_ref_key d r m) = blob_refs d
   \<and> summ_transform (blob_refs_in_repo d r) = blob_refs d
   \<and> summ_transform (manifest_tag_key r d t) = tags_of_manifest r d
   \<and> summ_transform (child_parent_key r d m) = parents_of r d
   \<and> summ_transform (referrer_key r d m) = referrers_of r d
   \<and> summ_transform (counter_manifest_key r d day shard) = counters_of_manifest r d
   \<and> summ_transform (counter_tag_key r t day shard) = counters_in_repo_scope SCOPE_TAG r
   \<and> summ_transform (counter_repo_key r day shard) = counters_of_repo r
   \<and> summ_transform (manifest_key r d) = manifests_in_repo r
   \<and> summ_transform (manifest_body_key r d) = manifest_bodies_in_repo r
   \<and> summ_transform (tag_key r t) = tags_in_repo r
   \<and> summ_transform (repo_blob_key r d) = blobs_in_repo r
   \<and> summ_transform (tag_history_key r t at d) = tag_history_in_repo r
   \<and> summ_transform (manifest_tag_history_key r d at t) = manifest_tag_history_in_repo r
   \<and> \<not> summ_in_domain (blob_key d) \<and> \<not> summ_in_domain (blob_mark_key d)
   \<and> \<not> summ_in_domain (upload_key u) \<and> \<not> summ_in_domain (dead_repo_key r)
   \<and> \<not> summ_in_domain (repo_by_name t) \<and> \<not> summ_in_domain (repo_by_id r)
   \<and> \<not> summ_in_domain db_version"
  by (simp add: key_defs digest_groups repo_groups no_group)

text \<open>
  A prefix and its successor bound exactly the keys under the prefix, so deleting that
  half-open range deletes the prefix and bounding an iterator by it loses nothing; only a
  prefix of \<open>0xff\<close> bytes alone has no successor.
\<close>

theorem prefix_successor_exact:
  "case prefix_successor p of
     Some e \<Rightarrow> (\<forall>k. prefix p k \<longleftrightarrow> p \<le> k \<and> k < e)
   | None \<Rightarrow> (\<forall>k. prefix p k \<longleftrightarrow> p \<le> k) \<and> set p \<subseteq> {0xFF}"
proof (cases "prefix_successor p")
  case None
  then have "\<forall>b \<in> set p. b = 0xFF" by (simp add: prefix_successor_None)
  with None show ?thesis using all_ff_prefix prefix_imp_le by auto
next
  case (Some e)
  then show ?thesis by (simp add: prefix_successor_range)
qed

end
