(* ===== verification/Summ_Engine.thy ===== *)
theory Summ_Engine
  imports Summ_Extractor
begin

text \<open>
  The metadata engine boundary (\<open>summ-meta/src/engine.rs\<close>): batches of mutations, pages of scans
  and the trait \<open>MetaEngine\<close>. The trait object that the registry calls is a record of functions
  over the state of the engine; what it promises is stated as locales over an abstraction of
  that state to a finite map from keys to values.

  \<^item> \<open>fallible_engine\<close>: a call may fail, and then changes nothing; a call that succeeds gives the
    answer of the map, for every scan whose cursor lies under the scanned prefix and whose
    prefix group reaches no further than the prefix.
  \<^item> \<open>ordered_engine\<close> adds that every cursor under the prefix is answered.
  \<^item> \<open>engine_contract\<close> adds whether calls can fail at all; it is what the clients are proved over.
\<close>

section \<open>Batches and pages\<close>

datatype meta_op = Put bytes bytes | Delete bytes | DeletePrefix bytes

type_synonym write_batch = "meta_op list"

definition batch_new :: write_batch where
  "batch_new = []"

definition batch_put :: "bytes \<Rightarrow> bytes \<Rightarrow> write_batch \<Rightarrow> write_batch" where
  "batch_put k v b = b @ [Put k v]"

definition batch_set :: "bytes \<Rightarrow> write_batch \<Rightarrow> write_batch" where
  "batch_set k b = batch_put k [] b"

definition batch_delete :: "bytes \<Rightarrow> write_batch \<Rightarrow> write_batch" where
  "batch_delete k b = b @ [Delete k]"

definition batch_delete_prefix :: "bytes \<Rightarrow> write_batch \<Rightarrow> write_batch" where
  "batch_delete_prefix p b = b @ [DeletePrefix p]"

definition batch_is_empty :: "write_batch \<Rightarrow> bool" where
  "batch_is_empty b \<longleftrightarrow> b = []"

definition batch_len :: "write_batch \<Rightarrow> nat" where
  "batch_len b = length b"

type_synonym entry = "bytes \<times> bytes"

record page =
  pg_entries :: "entry list"
  pg_next :: "bytes option"

record key_page =
  kp_keys :: "bytes list"
  kp_next :: "bytes option"

section \<open>The trait\<close>

record 's meta_engine =
  e_get :: "bytes \<Rightarrow> 's \<Rightarrow> summ_error + bytes option"
  e_scan :: "bytes \<Rightarrow> bytes option \<Rightarrow> nat \<Rightarrow> 's \<Rightarrow> summ_error + page"
  e_scan_keys :: "bytes \<Rightarrow> bytes option \<Rightarrow> nat \<Rightarrow> 's \<Rightarrow> summ_error + key_page"
  e_exists_prefix :: "bytes \<Rightarrow> 's \<Rightarrow> summ_error + bool"
  e_apply :: "write_batch \<Rightarrow> 's \<Rightarrow> (summ_error + unit) \<times> 's"

text \<open>The default body of \<open>scan_keys\<close>, given the engine's \<open>scan\<close>.\<close>

definition default_scan_keys ::
    "(bytes \<Rightarrow> bytes option \<Rightarrow> nat \<Rightarrow> 's \<Rightarrow> summ_error + page)
     \<Rightarrow> bytes \<Rightarrow> bytes option \<Rightarrow> nat \<Rightarrow> 's \<Rightarrow> summ_error + key_page" where
  "default_scan_keys scan p a n s =
     and_then (scan p a n s) (\<lambda>pg. Inr \<lparr> kp_keys = map fst (pg_entries pg), kp_next = pg_next pg \<rparr>)"

section \<open>What the operations mean\<close>

type_synonym store = "bytes \<rightharpoonup> bytes"

fun apply_op :: "meta_op \<Rightarrow> store \<Rightarrow> store" where
  "apply_op (Put k v) m = m(k \<mapsto> v)"
| "apply_op (Delete k) m = m(k := None)"
| "apply_op (DeletePrefix p) m = (\<lambda>k. if prefix p k then None else m k)"

definition apply_ops :: "write_batch \<Rightarrow> store \<Rightarrow> store" where
  "apply_ops b m = fold apply_op b m"

definition entries_of :: "store \<Rightarrow> entry list" where
  "entries_of m = map (\<lambda>k. (k, the (m k))) (sorted_list_of_set (dom m))"

definition after :: "bytes option \<Rightarrow> bytes \<Rightarrow> bool" where
  "after a k = (case a of None \<Rightarrow> True | Some c \<Rightarrow> c < k)"

definition scan_list :: "store \<Rightarrow> bytes \<Rightarrow> bytes option \<Rightarrow> entry list" where
  "scan_list m p a = filter (\<lambda>(k, _). prefix p k \<and> after a k) (entries_of m)"

definition page_of :: "nat \<Rightarrow> entry list \<Rightarrow> page" where
  "page_of n es =
     \<lparr> pg_entries = take n es,
       pg_next = (if 0 < n \<and> n < length es then Some (fst (last (take n es))) else None) \<rparr>"

definition scan_page :: "store \<Rightarrow> bytes \<Rightarrow> bytes option \<Rightarrow> nat \<Rightarrow> page" where
  "scan_page m p a n = page_of n (scan_list m p a)"

definition key_page_of :: "page \<Rightarrow> key_page" where
  "key_page_of pg = \<lparr> kp_keys = map fst (pg_entries pg), kp_next = pg_next pg \<rparr>"

definition has_prefix :: "store \<Rightarrow> bytes \<Rightarrow> bool" where
  "has_prefix m p \<longleftrightarrow> (\<exists>k \<in> dom m. prefix p k)"

text \<open>
  Which scans may be resumed where: the cursor lies under the prefix, and (\<open>grouped\<close>) its
  prefix group reaches no further than the prefix.
\<close>

definition under :: "bytes \<Rightarrow> bytes option \<Rightarrow> bool" where
  "under p a = (case a of None \<Rightarrow> True | Some c \<Rightarrow> prefix p c)"

definition grouped :: "bytes \<Rightarrow> bytes option \<Rightarrow> bool" where
  "grouped p a = (case a of None \<Rightarrow> True | Some c \<Rightarrow> group_within p c)"

text \<open>Prefix deletes that a half-open range can express: not the empty prefix, not \<open>0xff\<close> alone.\<close>

definition bounded_op :: "meta_op \<Rightarrow> bool" where
  "bounded_op oper = (case oper of DeletePrefix p \<Rightarrow> \<exists>b \<in> set p. b \<noteq> 0xFF | _ \<Rightarrow> True)"

definition bounded_batch :: "write_batch \<Rightarrow> bool" where
  "bounded_batch b \<longleftrightarrow> (\<forall>oper \<in> set b. bounded_op oper)"

section \<open>Batches as maps\<close>

lemma apply_ops_simps [simp]:
  "apply_ops [] m = m" "apply_ops (x # b) m = apply_ops b (apply_op x m)"
  by (simp_all add: apply_ops_def)

lemma apply_ops_append [simp]: "apply_ops (b @ c) m = apply_ops c (apply_ops b m)"
  by (simp add: apply_ops_def)

lemma finite_dom_apply_ops: "finite (dom m) \<Longrightarrow> finite (dom (apply_ops b m))"
proof (induction b arbitrary: m)
  case (Cons x b)
  have "dom (apply_op x m) \<subseteq> dom m \<union> (case x of Put k v \<Rightarrow> {k} | _ \<Rightarrow> {})"
    by (cases x) (auto split: if_splits)
  then have "finite (dom (apply_op x m))"
    by (rule finite_subset) (use Cons.prems in \<open>auto split: meta_op.split\<close>)
  with Cons show ?case by simp
qed simp

text \<open>What a batch leaves at a key: its last operation that touches the key decides.\<close>

fun touches :: "meta_op \<Rightarrow> bytes \<Rightarrow> bool" where
  "touches (Put k v) l = (l = k)"
| "touches (Delete k) l = (l = k)"
| "touches (DeletePrefix p) l = prefix p l"

lemma apply_ops_untouched: "\<forall>x \<in> set b. \<not> touches x k \<Longrightarrow> apply_ops b m k = m k"
proof (induction b arbitrary: m)
  case (Cons x b)
  then have "apply_op x m k = m k" by (cases x) auto
  with Cons show ?case by simp
qed simp

lemma apply_ops_last: "touches x k \<Longrightarrow> \<forall>y \<in> set b. \<not> touches y k \<Longrightarrow>
    apply_ops (a @ x # b) m k = (case x of Put _ v \<Rightarrow> Some v | _ \<Rightarrow> None)"
  by (cases x) (simp_all add: apply_ops_untouched)

text \<open>Replaying a batch changes nothing: the value at each key is decided by the batch alone.\<close>

lemma apply_ops_at:
  "apply_ops b m k = (if \<exists>x \<in> set b. touches x k then apply_ops b Map.empty k else m k)"
proof (induction b arbitrary: m rule: rev_induct)
  case (snoc x b)
  from snoc [of m] show ?case by (cases x) simp_all
qed simp

lemma apply_ops_idem: "apply_ops b (apply_ops b m) = apply_ops b m"
  by (rule ext) (metis apply_ops_at)

section \<open>Scans as sorted lists\<close>

lemma set_entries_of: "finite (dom m) \<Longrightarrow> set (entries_of m) = {(k, v). m k = Some v}"
  by (auto simp: entries_of_def image_iff)

lemma sorted_entries_of: "sorted_wrt (<) (map fst (entries_of m))"
proof -
  have "map fst (entries_of m) = sorted_list_of_set (dom m)"
    by (simp add: entries_of_def comp_def)
  then show ?thesis by (simp add: strict_sorted_iff)
qed

lemma map_fst_filter_fst: "map fst (filter (\<lambda>(k, v). P k) es) = filter P (map fst es)"
  by (induction es) auto

lemma sorted_scan_list: "sorted_wrt (<) (map fst (scan_list m p a))"
  unfolding scan_list_def map_fst_filter_fst by (rule sorted_wrt_filter) (rule sorted_entries_of)

lemma set_scan_list:
  "finite (dom m) \<Longrightarrow> set (scan_list m p a) = {(k, v). m k = Some v \<and> prefix p k \<and> after a k}"
  by (auto simp: scan_list_def set_entries_of)

text \<open>Two lists sorted by key with the same entries are the same list.\<close>

lemma sorted_entries_unique:
  assumes "sorted_wrt (<) (map fst xs)" "sorted_wrt (<) (map fst ys)" "set xs = set ys"
  shows "(xs :: entry list) = ys"
proof -
  have keys: "map fst xs = map fst ys"
    using assms by (intro sorted_distinct_set_unique) (auto simp: strict_sorted_iff)
  have d: "distinct (map fst xs)" "distinct (map fst ys)"
    using assms(1,2) by (simp_all add: strict_sorted_iff)
  have as_map: "map (\<lambda>k. (k, the (map_of zs k))) (map fst zs) = zs" if "distinct (map fst zs)"
    for zs :: "entry list"
    using that by (auto simp: comp_def intro!: map_idI)
  have "map_of xs = map_of ys"
    using d assms(3) by (simp add: map_of_inject_set)
  then have "map (\<lambda>k. (k, the (map_of xs k))) (map fst xs) = map (\<lambda>k. (k, the (map_of ys k))) (map fst ys)"
    by (simp only: keys)
  then show ?thesis by (simp only: as_map [OF d(1)] as_map [OF d(2)])
qed

lemma scan_list_empty: "finite (dom m) \<Longrightarrow> scan_list m p None = [] \<longleftrightarrow> \<not> has_prefix m p"
  by (subst set_empty [symmetric], subst set_scan_list) (auto simp: has_prefix_def after_def)

text \<open>Resuming at the cursor of a page continues where the page ended.\<close>

lemma filter_above_nth:
  fixes ks :: "'a::linorder list"
  assumes "sorted_wrt (<) ks" and "i < length ks"
  shows "filter (\<lambda>k. ks ! i < k) ks = drop (Suc i) ks"
proof -
  have "filter (\<lambda>k. ks ! i < k) (take (Suc i) ks) = []"
    using assms by (auto simp: filter_empty_conv in_set_conv_nth sorted_wrt_iff_nth_less less_Suc_eq
        not_less_iff_gr_or_eq)
  moreover have "filter (\<lambda>k. ks ! i < k) (drop (Suc i) ks) = drop (Suc i) ks"
    using assms by (auto simp: filter_id_conv in_set_conv_nth sorted_wrt_iff_nth_less)
  ultimately show ?thesis
    by (metis append_Nil append_take_drop_id filter_append)
qed

lemma scan_list_next:
  assumes "pg_next (scan_page m p a n) = Some c"
  shows "scan_list m p (Some c) = drop n (scan_list m p a)"
    and "0 < n" and "n < length (scan_list m p a)" and "prefix p c"
proof -
  let ?es = "scan_list m p a"
  have n: "0 < n" "n < length ?es" and "c = fst (last (take n ?es))"
    using assms by (auto simp: scan_page_def page_of_def split: if_splits)
  moreover have "take n ?es \<noteq> []" using n by auto
  ultimately have c: "c = fst (?es ! (n - 1))"
    using last_conv_nth [of "take n ?es"] by simp
  have mem: "?es ! (n - 1) \<in> set ?es" using n by simp
  then have pc: "prefix p c" "after a c"
    unfolding c by (auto simp: scan_list_def split_def)
  have eq: "scan_list m p (Some c) = filter (\<lambda>(k, _). c < k) ?es"
    using pc(2) unfolding scan_list_def filter_filter
    by (intro filter_cong) (auto simp: after_def split: option.splits)
  have keys: "map fst (filter (\<lambda>(k, _). c < k) ?es) = map fst (drop n ?es)"
    using filter_above_nth [OF sorted_scan_list, of "n - 1" m p a] n
    by (simp add: map_fst_filter_fst c drop_map)
  have inj: "xs = ys" if "map fst xs = map fst ys" "set xs \<subseteq> set ?es" "set ys \<subseteq> set ?es" for xs ys
  proof -
    have "distinct (map fst ?es)" using sorted_scan_list [of m p a] by (simp add: strict_sorted_iff)
    then have "inj_on fst (set ?es)" by (simp add: distinct_map)
    then have "inj_on fst (set xs \<union> set ys)" using that(2,3) by (auto intro: inj_on_subset)
    then show ?thesis using that(1) by (rule map_inj_on [rotated])
  qed
  show "scan_list m p (Some c) = drop n ?es"
    unfolding eq using keys by (rule inj) (auto dest: in_set_dropD)
  show "0 < n" "n < length ?es" "prefix p c" using n pc by simp_all
qed

lemma pages_exhaust:
  "scan_list m p a = pg_entries (scan_page m p a n) @
     (case pg_next (scan_page m p a n) of Some c \<Rightarrow> scan_list m p (Some c) | None \<Rightarrow> [])"
  if "0 < n"
proof (cases "pg_next (scan_page m p a n)")
  case None
  with that show ?thesis by (auto simp: scan_page_def page_of_def split: if_splits)
next
  case (Some c)
  from scan_list_next(1) [OF Some] Some show ?thesis
    by (simp add: scan_page_def page_of_def)
qed

text \<open>A scan as the sorted list of what follows the prefix.\<close>

definition suffixes_after :: "store \<Rightarrow> bytes \<Rightarrow> bytes option \<Rightarrow> bytes set" where
  "suffixes_after m p a = {b. m (p @ b) \<noteq> None \<and> after a b}"

lemma finite_suffixes_after: "finite (dom m) \<Longrightarrow> finite (suffixes_after m p a)"
proof -
  assume "finite (dom m)"
  then have "finite ((\<lambda>b. p @ b) -` dom m)" by (rule finite_vimageI) (simp add: inj_def)
  then show ?thesis by (rule finite_subset [rotated]) (auto simp: suffixes_after_def)
qed

lemma scan_suffixes:
  assumes "finite (dom m)"
  shows "map fst (scan_list m p (map_option (append p) a)) = map (append p) (sorted_list_of_set (suffixes_after m p a))"
proof (rule sorted_distinct_set_unique)
  let ?es = "scan_list m p (map_option (append p) a)"
  have "sorted_wrt (<) (map fst ?es)" by (rule sorted_scan_list)
  then show "sorted (map fst ?es)" "distinct (map fst ?es)" by (simp_all add: strict_sorted_iff)
  have "sorted_wrt (<) (map (append p) (sorted_list_of_set (suffixes_after m p a)))"
    by (simp add: sorted_wrt_map)
  then show "sorted (map (append p) (sorted_list_of_set (suffixes_after m p a)))"
    "distinct (map (append p) (sorted_list_of_set (suffixes_after m p a)))"
    by (simp_all only: strict_sorted_iff)
  have "after (map_option (append p) a) (p @ b) \<longleftrightarrow> after a b" for b
    by (simp add: after_def split: option.split)
  then show "set (map fst ?es) = set (map (append p) (sorted_list_of_set (suffixes_after m p a)))"
    unfolding set_map set_sorted_list_of_set [OF finite_suffixes_after [OF assms]]
    using assms by (auto simp: set_scan_list suffixes_after_def prefix_def image_iff)
qed

lemma scan_suffix_entries:
  assumes "finite (dom m)"
  shows "scan_list m p (map_option (append p) a) =
    map (\<lambda>b. (p @ b, the (m (p @ b)))) (sorted_list_of_set (suffixes_after m p a))"
proof -
  let ?es = "scan_list m p (map_option (append p) a)"
  have "?es = map (\<lambda>k. (k, the (m k))) (map fst ?es)"
    using assms by (auto simp: set_scan_list intro!: map_idI [symmetric])
  then show ?thesis
    unfolding scan_suffixes [OF assms] by (simp add: comp_def)
qed

definition suffix_page :: "store \<Rightarrow> bytes \<Rightarrow> bytes option \<Rightarrow> nat \<Rightarrow> bytes list \<times> bytes option" where
  "suffix_page m p a n =
     (let bs = sorted_list_of_set (suffixes_after m p a)
      in (take n bs, if 0 < n \<and> n < length bs then Some (last (take n bs)) else None))"

lemma scan_page_suffixes:
  assumes "finite (dom m)"
  shows "scan_page m p (map_option (append p) a) n =
    \<lparr> pg_entries = map (\<lambda>b. (p @ b, the (m (p @ b)))) (fst (suffix_page m p a n)),
      pg_next = map_option (append p) (snd (suffix_page m p a n)) \<rparr>"
proof -
  obtain bs where bs: "sorted_list_of_set (suffixes_after m p a) = bs" by blast
  have "fst (last (map (\<lambda>b. (p @ b, the (m (p @ b)))) (take n bs))) = p @ last (take n bs)" if "0 < n" "n < length bs"
    using that by (subst last_map) auto
  then show ?thesis
    unfolding scan_page_def page_of_def scan_suffix_entries [OF assms] suffix_page_def Let_def bs
    by (simp add: take_map)
qed

lemma suffix_page_facts:
  assumes "finite (dom m)"
  shows "set (fst (suffix_page m p a n)) \<subseteq> suffixes_after m p a"
    and "snd (suffix_page m p a n) = Some b \<Longrightarrow> b \<in> suffixes_after m p a"
proof -
  show sub: "set (fst (suffix_page m p a n)) \<subseteq> suffixes_after m p a"
    using finite_suffixes_after [OF assms, of p a] by (auto simp: suffix_page_def Let_def dest: in_set_takeD)
  have "b = last (fst (suffix_page m p a n)) \<and> fst (suffix_page m p a n) \<noteq> []" if "snd (suffix_page m p a n) = Some b"
    using that length_sorted_list_of_set [of "suffixes_after m p a"]
    by (cases "sorted_list_of_set (suffixes_after m p a)") (auto simp: suffix_page_def Let_def split: if_splits)
  with sub show "b \<in> suffixes_after m p a" if "snd (suffix_page m p a n) = Some b"
    using that last_in_set by blast
qed

section \<open>Engines\<close>

locale fallible_engine =
  fixes E :: "'s meta_engine" and tbl :: "'s \<Rightarrow> store" and inv :: "'s \<Rightarrow> bool"
  assumes finite_tbl: "inv s \<Longrightarrow> finite (dom (tbl s))"
    and get_ok: "inv s \<Longrightarrow> e_get E k s = Inr v \<Longrightarrow> v = tbl s k"
    and scan_ok: "inv s \<Longrightarrow> under p a \<Longrightarrow> grouped p a \<Longrightarrow> e_scan E p a n s = Inr pg \<Longrightarrow>
      pg = scan_page (tbl s) p a n"
    and scan_keys_ok: "inv s \<Longrightarrow> under p a \<Longrightarrow> grouped p a \<Longrightarrow> e_scan_keys E p a n s = Inr kp \<Longrightarrow>
      kp = key_page_of (scan_page (tbl s) p a n)"
    and exists_ok: "inv s \<Longrightarrow> e_exists_prefix E p s = Inr hit \<Longrightarrow> hit = has_prefix (tbl s) p"
    and apply_ok: "inv s \<Longrightarrow> bounded_batch b \<Longrightarrow> e_apply E b s = (Inr u, s') \<Longrightarrow>
      inv s' \<and> tbl s' = apply_ops b (tbl s)"
    and apply_failed: "inv s \<Longrightarrow> e_apply E b s = (Inl e, s') \<Longrightarrow> inv s' \<and> tbl s' = tbl s"

locale ordered_engine = fallible_engine +
  assumes scan_any: "inv s \<Longrightarrow> under p a \<Longrightarrow> e_scan E p a n s = Inr pg \<Longrightarrow>
      pg = scan_page (tbl s) p a n"
    and scan_keys_any: "inv s \<Longrightarrow> under p a \<Longrightarrow> e_scan_keys E p a n s = Inr kp \<Longrightarrow>
      kp = key_page_of (scan_page (tbl s) p a n)"

text \<open>
  The client's view. \<open>may_fail\<close> says whether calls can fail: with \<open>True\<close> it is any
  \<open>fallible_engine\<close>, with \<open>False\<close> one whose calls all succeed. What is proved over it holds
  for both, and says of a failure that it needs \<open>may_fail\<close>.
\<close>

locale engine_contract = fallible_engine +
  fixes may_fail :: bool
  assumes get_succeeds: "inv s \<Longrightarrow> \<not> may_fail \<Longrightarrow> \<exists>v. e_get E k s = Inr v"
    and scan_succeeds: "inv s \<Longrightarrow> \<not> may_fail \<Longrightarrow> \<exists>pg. e_scan E p a n s = Inr pg"
    and scan_keys_succeeds: "inv s \<Longrightarrow> \<not> may_fail \<Longrightarrow> \<exists>kp. e_scan_keys E p a n s = Inr kp"
    and exists_succeeds: "inv s \<Longrightarrow> \<not> may_fail \<Longrightarrow> \<exists>hit. e_exists_prefix E p s = Inr hit"
    and apply_succeeds: "inv s \<Longrightarrow> \<not> may_fail \<Longrightarrow> \<exists>s'. e_apply E b s = (Inr (), s')"
begin

lemma get_cases:
  assumes "inv s"
  obtains "e_get E k s = Inr (tbl s k)" | e where "may_fail" "e_get E k s = Inl e"
  using get_ok [OF assms, of k] get_succeeds [OF assms, of k] by (cases "e_get E k s") auto

lemma scan_cases:
  assumes "inv s" "under p a" "grouped p a"
  obtains "e_scan E p a n s = Inr (scan_page (tbl s) p a n)" | e where "may_fail" "e_scan E p a n s = Inl e"
  using scan_ok [OF assms, of n] scan_succeeds [OF assms(1), of p a n] by (cases "e_scan E p a n s") auto

lemma scan_keys_cases:
  assumes "inv s" "under p a" "grouped p a"
  obtains "e_scan_keys E p a n s = Inr (key_page_of (scan_page (tbl s) p a n))"
    | e where "may_fail" "e_scan_keys E p a n s = Inl e"
  using scan_keys_ok [OF assms, of n] scan_keys_succeeds [OF assms(1), of p a n]
  by (cases "e_scan_keys E p a n s") auto

lemma exists_cases:
  assumes "inv s"
  obtains "e_exists_prefix E p s = Inr (has_prefix (tbl s) p)" | e where "may_fail" "e_exists_prefix E p s = Inl e"
  using exists_ok [OF assms, of p] exists_succeeds [OF assms, of p] by (cases "e_exists_prefix E p s") auto

lemma apply_cases:
  assumes "inv s" "bounded_batch b"
  obtains s' where "e_apply E b s = (Inr (), s')" "inv s'" "tbl s' = apply_ops b (tbl s)"
    | e s' where "may_fail" "e_apply E b s = (Inl e, s')" "inv s'" "tbl s' = tbl s"
proof (cases "e_apply E b s")
  case (Pair r s')
  then show ?thesis
    using apply_ok [OF assms, of _ s'] apply_failed [OF assms(1), of b _ s'] apply_succeeds [OF assms(1), of b] that
    by (cases r) auto
qed

end

sublocale fallible_engine \<subseteq> contract: engine_contract E tbl inv True
  by unfold_locales auto

end
