(* ===== verification/Summ_Redb.thy ===== *)
theory Summ_Redb
  imports Summ_Engine
begin

text \<open>
  The redb engine (\<open>summ-meta/src/redb_engine.rs\<close>). The \<open>redb\<close> crate is a parameter: a record of
  the calls the engine makes, with read snapshots and write transactions as types of their own,
  each call failing with the text of its error. The locale \<open>redb_database\<close> states what the
  crate documents of them, and the engine built on it is shown to be an \<open>ordered_engine\<close>.
  A table kept as a sorted list of entries is a model of the crate's contract on which
  the engine runs.
\<close>

section \<open>The database\<close>

datatype bound = Included bytes | Excluded bytes

fun in_bound :: "bound \<Rightarrow> bytes \<Rightarrow> bool" where
  "in_bound (Included lo) k = (lo \<le> k)"
| "in_bound (Excluded lo) k = (lo < k)"

record ('s, 'r, 'w) redb =
  rd_begin_read :: "'s \<Rightarrow> string + 'r"
  rd_open_table :: "'r \<Rightarrow> string + 'r"
  rd_get :: "bytes \<Rightarrow> 'r \<Rightarrow> string + bytes option"
  rd_range :: "bound \<Rightarrow> 'r \<Rightarrow> string + (string + entry) list"
  rd_begin_write :: "'s \<Rightarrow> string + 'w"
  rd_open_table_mut :: "'w \<Rightarrow> string + 'w"
  rd_insert :: "bytes \<Rightarrow> bytes \<Rightarrow> 'w \<Rightarrow> string + 'w"
  rd_remove :: "bytes \<Rightarrow> 'w \<Rightarrow> string + 'w"
  rd_retain_in :: "bytes \<Rightarrow> (bytes \<Rightarrow> bool) \<Rightarrow> 'w \<Rightarrow> string + 'w"
  rd_commit :: "'w \<Rightarrow> 's \<Rightarrow> (string + unit) \<times> 's"

section \<open>The engine\<close>

definition storage :: "string + 'a \<Rightarrow> summ_error + 'a" where
  "storage r = map_err Storage r"

text \<open>
  \<open>RedbEngine::open\<close>, given the result of \<open>Database::create\<close>: the table is created in a write
  transaction before the engine is handed out.
\<close>

definition redb_open :: "('s, 'r, 'w) redb \<Rightarrow> string + 's \<Rightarrow> summ_error + 's" where
  "redb_open db created =
     and_then (storage created) (\<lambda>s.
     and_then (storage (rd_begin_write db s)) (\<lambda>txn.
     and_then (storage (rd_open_table_mut db txn)) (\<lambda>txn'.
     (case rd_commit db txn' s of (r, s') \<Rightarrow> and_then (storage r) (\<lambda>_. Inr s')))))"

fun redb_walk_loop ::
    "bytes \<Rightarrow> nat \<Rightarrow> bool \<Rightarrow> nat \<Rightarrow> entry list \<Rightarrow> (string + entry) list \<Rightarrow> summ_error + entry list \<times> bool" where
  "redb_walk_loop p limit with_values taken emitted [] = Inr (emitted, False)"
| "redb_walk_loop p limit with_values taken emitted (item # rest) =
     and_then (storage item) (\<lambda>(key, v).
       if \<not> prefix p key then Inr (emitted, False)
       else if taken = limit then Inr (emitted, True)
       else redb_walk_loop p limit with_values (taken + 1)
              (emitted @ [(key, if with_values then v else [])]) rest)"

definition redb_walk ::
    "('s, 'r, 'w) redb \<Rightarrow> bytes \<Rightarrow> bytes option \<Rightarrow> nat \<Rightarrow> bool \<Rightarrow> 's \<Rightarrow> summ_error + entry list \<times> bool" where
  "redb_walk db p start_after limit with_values s =
     and_then (storage (rd_begin_read db s)) (\<lambda>txn.
     and_then (storage (rd_open_table db txn)) (\<lambda>table.
     let lower = (case start_after of Some k \<Rightarrow> Excluded k | None \<Rightarrow> Included p) in
     and_then (storage (rd_range db lower table)) (\<lambda>range.
     redb_walk_loop p limit with_values 0 [] range)))"

definition redb_get :: "('s, 'r, 'w) redb \<Rightarrow> bytes \<Rightarrow> 's \<Rightarrow> summ_error + bytes option" where
  "redb_get db key s =
     and_then (storage (rd_begin_read db s)) (\<lambda>txn.
     and_then (storage (rd_open_table db txn)) (\<lambda>table.
     storage (rd_get db key table)))"

text \<open>\<open>Vec::last\<close>\<close>

definition last_opt :: "'a list \<Rightarrow> 'a option" where
  "last_opt xs = (if xs = [] then None else Some (last xs))"

definition redb_scan :: "('s, 'r, 'w) redb \<Rightarrow> bytes \<Rightarrow> bytes option \<Rightarrow> nat \<Rightarrow> 's \<Rightarrow> summ_error + page" where
  "redb_scan db p start_after limit s =
     (if limit = 0 then Inr \<lparr> pg_entries = [], pg_next = None \<rparr>
      else and_then (redb_walk db p start_after limit True s) (\<lambda>(entries, more).
        Inr \<lparr> pg_entries = entries,
              pg_next = (if more then map_option fst (last_opt entries) else None) \<rparr>))"

definition redb_scan_keys ::
    "('s, 'r, 'w) redb \<Rightarrow> bytes \<Rightarrow> bytes option \<Rightarrow> nat \<Rightarrow> 's \<Rightarrow> summ_error + key_page" where
  "redb_scan_keys db p start_after limit s =
     (if limit = 0 then Inr \<lparr> kp_keys = [], kp_next = None \<rparr>
      else and_then (redb_walk db p start_after limit False s) (\<lambda>(emitted, more).
        let keys = map fst emitted in
        Inr \<lparr> kp_keys = keys, kp_next = (if more then last_opt keys else None) \<rparr>))"

definition redb_exists_prefix :: "('s, 'r, 'w) redb \<Rightarrow> bytes \<Rightarrow> 's \<Rightarrow> summ_error + bool" where
  "redb_exists_prefix db p s =
     and_then (storage (rd_begin_read db s)) (\<lambda>txn.
     and_then (storage (rd_open_table db txn)) (\<lambda>table.
     and_then (storage (rd_range db (Included p) table)) (\<lambda>range.
     case range of
       item # _ \<Rightarrow> and_then (storage item) (\<lambda>(k, _). Inr (prefix p k))
     | [] \<Rightarrow> Inr False)))"

fun redb_apply_loop :: "('s, 'r, 'w) redb \<Rightarrow> meta_op list \<Rightarrow> 'w \<Rightarrow> summ_error + 'w" where
  "redb_apply_loop db [] table = Inr table"
| "redb_apply_loop db (oper # rest) table =
     and_then (case oper of
         Put key v \<Rightarrow> storage (rd_insert db key v table)
       | Delete key \<Rightarrow> storage (rd_remove db key table)
       | DeletePrefix p \<Rightarrow> storage (rd_retain_in db p (\<lambda>k. \<not> prefix p k) table))
       (redb_apply_loop db rest)"

text \<open>A transaction that is dropped before its commit leaves the database as it was.\<close>

definition redb_apply :: "('s, 'r, 'w) redb \<Rightarrow> write_batch \<Rightarrow> 's \<Rightarrow> (summ_error + unit) \<times> 's" where
  "redb_apply db batch s =
     (if batch_is_empty batch then (Inr (), s)
      else case and_then (storage (rd_begin_write db s)) (\<lambda>txn.
                and_then (storage (rd_open_table_mut db txn)) (\<lambda>table.
                redb_apply_loop db batch table)) of
        Inl e \<Rightarrow> (Inl e, s)
      | Inr txn \<Rightarrow> (case rd_commit db txn s of (r, s') \<Rightarrow> (storage r, s')))"

definition redb_engine :: "('s, 'r, 'w) redb \<Rightarrow> 's meta_engine" where
  "redb_engine db =
     \<lparr> e_get = redb_get db, e_scan = redb_scan db, e_scan_keys = redb_scan_keys db,
       e_exists_prefix = redb_exists_prefix db, e_apply = redb_apply db \<rparr>"

section \<open>The walk\<close>

lemma storage_Inr [simp]: "storage r = Inr a \<longleftrightarrow> r = Inr a"
  by (cases r) (auto simp: storage_def)

lemma storage_simps [simp]: "storage (Inr a) = Inr a" "storage (Inl e) = Inl (Storage e)"
  by (simp_all add: storage_def)

text \<open>Each item of a range is the entry of its place, or an error in its place.\<close>

definition item_ok :: "string + entry \<Rightarrow> entry \<Rightarrow> bool" where
  "item_ok item e = (case item of Inr e' \<Rightarrow> e' = e | Inl _ \<Rightarrow> True)"

lemma redb_walk_loop_ok:
  assumes "redb_walk_loop p limit w taken acc items = Inr (out, further)"
    and "list_all2 item_ok items es" and "taken \<le> limit"
  shows "let run = takeWhile (\<lambda>(k, _). prefix p k) es in
    out = acc @ map (\<lambda>(k, v). (k, if w then v else [])) (take (limit - taken) run)
    \<and> (further \<longleftrightarrow> limit - taken < length run)"
  using assms
proof (induction items arbitrary: es taken acc)
  case Nil
  then show ?case by simp
next
  case (Cons item items)
  from Cons.prems(2) obtain e es' where es: "es = e # es'" "item_ok item e" "list_all2 item_ok items es'"
    by (auto simp: list_all2_Cons1)
  from Cons.prems(1) obtain k v where item: "item = Inr (k, v)"
    by (auto simp: and_then_Inr)
  with es have e: "e = (k, v)" by (simp add: item_ok_def)
  show ?case
  proof (cases "prefix p k \<and> taken \<noteq> limit")
    case False
    with Cons.prems item es e show ?thesis by (auto simp: Let_def split: if_splits)
  next
    case True
    then obtain m where m: "limit - taken = Suc m" "limit - Suc taken = m"
      using Cons.prems(3) by (cases "limit - taken") auto
    from Cons.IH [of "taken + 1" "acc @ [(k, if w then v else [])]" es'] Cons.prems item es True
    show ?thesis by (simp add: e m Let_def)
  qed
qed

text \<open>Under a prefix the run from the lower bound is the scan of the map.\<close>

lemma run_from_bound:
  assumes "finite (dom m)" and "under p a"
  shows "takeWhile (\<lambda>(k, _). prefix p k)
      (filter (\<lambda>(k, _). in_bound (case a of Some c \<Rightarrow> Excluded c | None \<Rightarrow> Included p) k) (entries_of m))
    = scan_list m p a"
  (is "takeWhile ?P (filter ?B ?es) = _")
proof -
  have low: "prefix p k \<and> after a k \<longleftrightarrow> ?B (k, v) \<and> prefix p k" for k v
    by (cases a) (auto simp: after_def prefix_imp_le)
  have sorted: "sorted_wrt (\<lambda>x y. fst x < fst y) ?es"
    using sorted_entries_of [of m] by (simp add: sorted_wrt_map)
  have keep: "takeWhile ?P (filter ?B xs) = filter ?P (filter ?B xs)"
    if "sorted_wrt (\<lambda>x y. fst x < fst y) xs" for xs :: "entry list"
    using that
  proof (induction xs)
    case (Cons x xs)
    have "filter ?P (filter ?B xs) = []" if "?B x" "\<not> ?P x"
    proof -
      have "\<not> prefix p k" if "(k, v) \<in> set xs" "prefix p k" for k v
      proof -
        have "fst x < k" using Cons.prems that(1) by auto
        moreover have "p \<le> fst x"
          using \<open>?B x\<close> assms(2) by (cases a) (auto simp: under_def split_def dest!: prefix_imp_le)
        ultimately have "prefix p (fst x)"
          using prefix_convex [of p p k "fst x"] that(2) by simp
        with \<open>\<not> ?P x\<close> show ?thesis by (simp add: split_def)
      qed
      then show ?thesis by (auto simp: filter_empty_conv)
    qed
    with Cons show ?case by auto
  qed simp
  show ?thesis
    unfolding keep [OF sorted] scan_list_def filter_filter
    using low by (intro filter_cong) auto
qed

text \<open>From what a walk emitted to the page of the caller, with values and keys only.\<close>

lemma page_from_walk:
  assumes "0 < n" and "out = take n es" and "further \<longleftrightarrow> n < length es"
  shows "\<lparr> pg_entries = out, pg_next = (if further then map_option fst (last_opt out) else None) \<rparr> = page_of n es"
  using assms by (auto simp: page_of_def last_opt_def prod_eq_iff)

lemma key_page_from_walk:
  assumes "0 < n" and "map fst out = map fst (take n es)" and "further \<longleftrightarrow> n < length es"
  shows "\<lparr> kp_keys = map fst out, kp_next = (if further then last_opt (map fst out) else None) \<rparr>
    = key_page_of (page_of n es)"
proof -
  have "last (map fst (take n es)) = fst (last (take n es))" if "n < length es"
    using that assms(1) by (intro last_map) auto
  with assms show ?thesis
    unfolding assms(2) by (auto simp: page_of_def key_page_of_def last_opt_def)
qed

lemma prefix_above: "(p :: bytes) \<le> k \<and> prefix p k \<longleftrightarrow> prefix p k"
  using prefix_imp_le by blast

section \<open>What the crate promises\<close>

locale redb_database =
  fixes db :: "('s, 'r, 'w) redb" and tbl :: "'s \<Rightarrow> store" and rtbl :: "'r \<Rightarrow> store"
    and wtbl :: "'w \<Rightarrow> store" and inv :: "'s \<Rightarrow> bool"
  assumes db_finite: "inv s \<Longrightarrow> finite (dom (tbl s))"
    and begin_read: "inv s \<Longrightarrow> rd_begin_read db s = Inr r \<Longrightarrow> rtbl r = tbl s"
    and open_table: "rd_open_table db r = Inr r' \<Longrightarrow> rtbl r' = rtbl r"
    and db_get: "rd_get db k r = Inr found \<Longrightarrow> found = rtbl r k"
    and db_range: "rd_range db lower r = Inr items \<Longrightarrow>
      list_all2 item_ok items (filter (\<lambda>(k, _). in_bound lower k) (entries_of (rtbl r)))"
    and begin_write: "inv s \<Longrightarrow> rd_begin_write db s = Inr w \<Longrightarrow> wtbl w = tbl s"
    and open_table_mut: "rd_open_table_mut db w = Inr w' \<Longrightarrow> wtbl w' = wtbl w"
    and db_insert: "rd_insert db k v w = Inr w' \<Longrightarrow> wtbl w' = (wtbl w)(k \<mapsto> v)"
    and db_remove: "rd_remove db k w = Inr w' \<Longrightarrow> wtbl w' = (wtbl w)(k := None)"
    and db_retain_in: "rd_retain_in db lo P w = Inr w' \<Longrightarrow>
      wtbl w' = (\<lambda>k. if lo \<le> k \<and> \<not> P k then None else wtbl w k)"
    and commit: "inv s \<Longrightarrow> finite (dom (wtbl w)) \<Longrightarrow> rd_commit db w s = (Inr u, s') \<Longrightarrow>
      inv s' \<and> tbl s' = wtbl w"
    and commit_failed: "inv s \<Longrightarrow> rd_commit db w s = (Inl e, s') \<Longrightarrow> inv s' \<and> tbl s' = tbl s"
begin

lemma walk_ok:
  assumes "inv s" and "under p a" and "redb_walk db p a n w s = Inr (out, further)"
  shows "out = map (\<lambda>(k, v). (k, if w then v else [])) (take n (scan_list (tbl s) p a))
    \<and> (further \<longleftrightarrow> n < length (scan_list (tbl s) p a))"
proof -
  let ?lower = "case a of Some c \<Rightarrow> Excluded c | None \<Rightarrow> Included p"
  from assms(3) obtain r r' items where "rd_begin_read db s = Inr r" "rd_open_table db r = Inr r'"
    and range: "rd_range db ?lower r' = Inr items"
    and loop: "redb_walk_loop p n w 0 [] items = Inr (out, further)"
    by (auto simp: redb_walk_def and_then_Inr Let_def)
  with begin_read assms(1) open_table have "rtbl r' = tbl s" by metis
  with db_range [OF range] have "list_all2 item_ok items
      (filter (\<lambda>(k, _). in_bound ?lower k) (entries_of (tbl s)))" by simp
  from redb_walk_loop_ok [OF loop this] run_from_bound [OF db_finite [OF assms(1)] assms(2)]
  show ?thesis by (simp add: Let_def)
qed

lemma redb_get_ok:
  assumes "inv s" and "redb_get db k s = Inr v"
  shows "v = tbl s k"
  using assms begin_read open_table db_get by (auto simp: redb_get_def and_then_Inr) metis

lemma redb_scan_ok:
  assumes "inv s" and "under p a" and "redb_scan db p a n s = Inr pg"
  shows "pg = scan_page (tbl s) p a n"
proof (cases "n = 0")
  case True
  with assms(3) show ?thesis by (simp add: redb_scan_def scan_page_def page_of_def)
next
  case False
  with assms(3) obtain out further where w: "redb_walk db p a n True s = Inr (out, further)"
    and pg: "pg = \<lparr> pg_entries = out, pg_next = (if further then map_option fst (last_opt out) else None) \<rparr>"
    by (auto simp: redb_scan_def and_then_Inr)
  from walk_ok [OF assms(1,2) w] have "out = take n (scan_list (tbl s) p a)"
    and "further \<longleftrightarrow> n < length (scan_list (tbl s) p a)" by simp_all
  with False show ?thesis unfolding pg scan_page_def by (intro page_from_walk) auto
qed

lemma redb_scan_keys_ok:
  assumes "inv s" and "under p a" and "redb_scan_keys db p a n s = Inr kp"
  shows "kp = key_page_of (scan_page (tbl s) p a n)"
proof (cases "n = 0")
  case True
  with assms(3) show ?thesis
    by (simp add: redb_scan_keys_def scan_page_def page_of_def key_page_of_def)
next
  case False
  with assms(3) obtain out further where w: "redb_walk db p a n False s = Inr (out, further)"
    and kp: "kp = \<lparr> kp_keys = map fst out, kp_next = (if further then last_opt (map fst out) else None) \<rparr>"
    by (auto simp: redb_scan_keys_def and_then_Inr Let_def)
  from walk_ok [OF assms(1,2) w] have "map fst out = map fst (take n (scan_list (tbl s) p a))"
    and "further \<longleftrightarrow> n < length (scan_list (tbl s) p a)" by (auto simp: comp_def split_def)
  with False show ?thesis unfolding kp scan_page_def by (intro key_page_from_walk) auto
qed

lemma redb_exists_ok:
  assumes "inv s" and "redb_exists_prefix db p s = Inr hit"
  shows "hit = has_prefix (tbl s) p"
proof -
  from assms(2) obtain r r' items where "rd_begin_read db s = Inr r" "rd_open_table db r = Inr r'"
    and range: "rd_range db (Included p) r' = Inr items"
    and hit: "(case items of item # _ \<Rightarrow> and_then (storage item) (\<lambda>(k, _). Inr (prefix p k))
       | [] \<Rightarrow> Inr False) = Inr hit"
    by (auto simp: redb_exists_prefix_def and_then_Inr)
  with begin_read assms(1) open_table have "rtbl r' = tbl s" by metis
  with db_range [OF range] have items: "list_all2 item_ok items
      (filter (\<lambda>(k, _). p \<le> k) (entries_of (tbl s)))" by simp
  have "scan_list (tbl s) p None = takeWhile (\<lambda>(k, _). prefix p k) (filter (\<lambda>(k, _). p \<le> k) (entries_of (tbl s)))"
    using run_from_bound [OF db_finite [OF assms(1)], of p None] by (simp add: under_def)
  then have "hit \<longleftrightarrow> scan_list (tbl s) p None \<noteq> []"
    using items hit by (auto simp: and_then_Inr item_ok_def split: list.splits
        elim!: list_all2_Cons1 [THEN iffD1, elim_format])
  then show ?thesis
    by (simp add: scan_list_empty [OF db_finite [OF assms(1)]])
qed

lemma apply_loop_ok:
  "redb_apply_loop db b w = Inr w' \<Longrightarrow> wtbl w' = apply_ops b (wtbl w)"
proof (induction b arbitrary: w)
  case (Cons x b)
  then obtain w1 where "redb_apply_loop db b w1 = Inr w'" and "wtbl w1 = apply_op x (wtbl w)"
    by (cases x) (auto simp: and_then_Inr prefix_above dest!: db_insert db_remove db_retain_in)
  with Cons.IH show ?case by simp
qed simp

lemma redb_apply_ok:
  assumes "inv s" and "redb_apply db b s = (r, s')"
  shows "inv s' \<and> tbl s' = (case r of Inr _ \<Rightarrow> apply_ops b (tbl s) | Inl _ \<Rightarrow> tbl s)"
proof (cases "b = []")
  case True
  with assms show ?thesis by (auto simp: redb_apply_def batch_is_empty_def)
next
  case False
  let ?txn = "and_then (storage (rd_begin_write db s)) (\<lambda>txn.
      and_then (storage (rd_open_table_mut db txn)) (redb_apply_loop db b))"
  show ?thesis
  proof (cases ?txn)
    case (Inl e)
    with assms False show ?thesis by (auto simp: redb_apply_def batch_is_empty_def)
  next
    case (Inr w)
    then obtain w0 w1 where "rd_begin_write db s = Inr w0" "rd_open_table_mut db w0 = Inr w1"
      and loop: "redb_apply_loop db b w1 = Inr w" by (auto simp: and_then_Inr)
    with begin_write assms(1) open_table_mut have "wtbl w1 = tbl s" by metis
    with apply_loop_ok [OF loop] have w: "wtbl w = apply_ops b (tbl s)" by simp
    then have "finite (dom (wtbl w))" by (simp add: finite_dom_apply_ops db_finite assms(1))
    note committed = commit [OF assms(1) this] commit_failed [OF assms(1)]
    obtain r0 s0 where c: "rd_commit db w s = (r0, s0)" by fastforce
    with Inr assms(2) False have rs: "r = storage r0" "s' = s0"
      by (simp_all add: redb_apply_def batch_is_empty_def)
    show ?thesis
      using committed(1) [of _ s0] committed(2) [of w _ s0] c w
      by (cases r0) (simp_all add: rs)
  qed
qed

end

sublocale redb_database \<subseteq> eng: ordered_engine "redb_engine db" tbl inv
  by unfold_locales
    (auto simp: redb_engine_def db_finite redb_get_ok redb_scan_ok redb_scan_keys_ok redb_exists_ok
      dest: redb_apply_ok)

section \<open>A table of sorted entries\<close>

text \<open>The contract is met by a table kept as the list of its entries in key order.\<close>

typedef table = "{es :: entry list. sorted_wrt (<) (map fst es)}"
  by (rule exI [of _ "[]"]) simp

declare Rep_table_inverse [code abstype]

fun put_entry :: "bytes \<Rightarrow> bytes \<Rightarrow> entry list \<Rightarrow> entry list" where
  "put_entry k v [] = [(k, v)]"
| "put_entry k v ((x, y) # es) =
     (if k < x then (k, v) # (x, y) # es else if k = x then (k, v) # es else (x, y) # put_entry k v es)"

definition table_entries :: "table \<Rightarrow> entry list" where "table_entries t = Rep_table t"
definition table_empty :: table where "table_empty = Abs_table []"
definition table_put :: "bytes \<Rightarrow> bytes \<Rightarrow> table \<Rightarrow> table" where
  "table_put k v t = Abs_table (put_entry k v (table_entries t))"
definition table_keep :: "(bytes \<Rightarrow> bool) \<Rightarrow> table \<Rightarrow> table" where
  "table_keep P t = Abs_table (filter (\<lambda>(k, _). P k) (table_entries t))"

definition table_map :: "table \<Rightarrow> store" where "table_map t = map_of (table_entries t)"

lemma set_put_entry: "set (map fst (put_entry k v es)) = insert k (set (map fst es))"
  by (induction k v es rule: put_entry.induct) auto

lemma sorted_put_entry: "sorted_wrt (<) (map fst es) \<Longrightarrow> sorted_wrt (<) (map fst (put_entry k v es))"
proof (induction k v es rule: put_entry.induct)
  case (2 k v x y es)
  have "\<forall>z \<in> set (map fst (put_entry k v es)). x < z" if "x < k"
    using that 2(2) unfolding set_put_entry by auto
  with 2 show ?case by auto
qed simp

lemma map_of_put_entry: "sorted_wrt (<) (map fst es) \<Longrightarrow> map_of (put_entry k v es) = (map_of es)(k \<mapsto> v)"
proof (induction k v es rule: put_entry.induct)
  case (2 k v x y es)
  then show ?case by (auto simp: fun_eq_iff)
qed simp

lemma sorted_table_entries [simp]: "sorted_wrt (<) (map fst (table_entries t))"
  using Rep_table [of t] by (simp add: table_entries_def)

lemma table_code [code abstract, simp]:
  "Rep_table table_empty = []"
  by (simp add: table_empty_def Abs_table_inverse)

lemma table_put_code [code abstract, simp]:
  "Rep_table (table_put k v t) = put_entry k v (table_entries t)"
  by (simp add: table_put_def Abs_table_inverse sorted_put_entry)

lemma table_keep_code [code abstract, simp]:
  "Rep_table (table_keep P t) = filter (\<lambda>(k, _). P k) (table_entries t)"
  by (simp add: table_keep_def Abs_table_inverse map_fst_filter_fst sorted_wrt_filter)

lemma table_map_simps [simp]:
  "table_map table_empty = Map.empty"
  "table_map (table_put k v t) = (table_map t)(k \<mapsto> v)"
  "table_map (table_keep P t) = (\<lambda>k. if P k then table_map t k else None)"
proof -
  have "map_of (filter (\<lambda>(k, _). P k) es) k = (if P k then map_of es k else None)" for es :: "entry list" and k
    by (induction es) auto
  then show "table_map (table_keep P t) = (\<lambda>k. if P k then table_map t k else None)"
    by (auto simp: table_map_def table_entries_def [of "table_keep P t"])
qed (simp_all add: table_map_def table_entries_def [of table_empty]
    table_entries_def [of "table_put k v t"] map_of_put_entry)

lemma finite_table_map [simp]: "finite (dom (table_map t))"
  by (simp add: table_map_def finite_dom_map_of)

lemma entries_of_table: "entries_of (table_map t) = table_entries t"
proof (rule sorted_entries_unique)
  have "distinct (map fst (table_entries t))"
    using sorted_table_entries [of t] by (simp add: strict_sorted_iff)
  then show "set (entries_of (table_map t)) = set (table_entries t)"
    by (auto simp: set_entries_of) (auto simp: table_map_def dest: map_of_SomeD)
qed (simp_all add: sorted_entries_of)

definition table_redb :: "(table, table, table) redb" where
  "table_redb =
     \<lparr> rd_begin_read = Inr, rd_open_table = Inr, rd_get = (\<lambda>k t. Inr (table_map t k)),
       rd_range = (\<lambda>lower t. Inr (map Inr (filter (\<lambda>(k, _). in_bound lower k) (table_entries t)))),
       rd_begin_write = Inr, rd_open_table_mut = Inr, rd_insert = (\<lambda>k v t. Inr (table_put k v t)),
       rd_remove = (\<lambda>k t. Inr (table_keep (\<lambda>l. l \<noteq> k) t)),
       rd_retain_in = (\<lambda>lo P t. Inr (table_keep (\<lambda>k. \<not> (lo \<le> k \<and> \<not> P k)) t)),
       rd_commit = (\<lambda>w s. (Inr (), w)) \<rparr>"

lemma item_ok_Inr: "list_all2 item_ok (map Inr es) es"
  by (simp add: list_all2_conv_all_nth item_ok_def)

interpretation trd: redb_database table_redb table_map table_map table_map "\<lambda>_. True"
  by unfold_locales (auto simp: table_redb_def entries_of_table item_ok_Inr)

text \<open>On this table no call fails, so the engine over it is reliable.\<close>

abbreviation table_engine :: "table meta_engine" where
  "table_engine \<equiv> redb_engine table_redb"

lemma table_walk_succeeds: "\<exists>r. redb_walk_loop p n w taken acc (map Inr es) = Inr r"
  by (induction es arbitrary: taken acc) auto

lemma table_apply_succeeds: "\<exists>w'. redb_apply_loop table_redb b w = Inr w'"
proof (induction b arbitrary: w)
  case (Cons x b)
  then show ?case by (cases x) (auto simp: table_redb_def)
qed simp

interpretation tre: engine_contract table_engine table_map "\<lambda>_. True" False
proof unfold_locales
  fix s :: table and k p :: bytes and a :: "bytes option" and n and b :: write_batch
  show "\<exists>v. e_get table_engine k s = Inr v"
    by (simp add: redb_engine_def redb_get_def table_redb_def)
  have walk: "\<exists>r. redb_walk table_redb p a n w s = Inr r" for w
    using table_walk_succeeds by (simp add: redb_walk_def table_redb_def Let_def)
  show "\<exists>pg. e_scan table_engine p a n s = Inr pg"
    using walk [of True] by (auto simp: redb_engine_def redb_scan_def)
  show "\<exists>kp. e_scan_keys table_engine p a n s = Inr kp"
    using walk [of False] by (auto simp: redb_engine_def redb_scan_keys_def Let_def)
  show "\<exists>hit. e_exists_prefix table_engine p s = Inr hit"
    by (auto simp: redb_engine_def redb_exists_prefix_def table_redb_def split: list.split)
  obtain w where "redb_apply_loop table_redb b s = Inr w"
    using table_apply_succeeds by blast
  then show "\<exists>s'. e_apply table_engine b s = (Inr (), s')"
    by (auto simp: redb_engine_def redb_apply_def table_redb_def)
qed

section \<open>Properties\<close>

text \<open>
  C16. The redb engine is an engine of the boundary: over a database that keeps its documented
  contract, whatever calls fail, a read that succeeds gives the map's answer, a scan gives
  exactly the page of entries under the prefix after the cursor in key order with the cursor of the next
  page, and a batch is applied in order and whole, or, when any call fails, not at all.
\<close>

theorem redb_refines_store:
  assumes "redb_database db tbl rtbl wtbl ok" and "ok s"
  shows "(redb_get db k s = Inr v \<longrightarrow> v = tbl s k)
    \<and> (under p a \<and> redb_scan db p a n s = Inr pg \<longrightarrow> pg = scan_page (tbl s) p a n)
    \<and> (under p a \<and> redb_scan_keys db p a n s = Inr kp \<longrightarrow> kp = key_page_of (scan_page (tbl s) p a n))
    \<and> (redb_exists_prefix db p s = Inr hit \<longrightarrow> hit = has_prefix (tbl s) p)
    \<and> (redb_apply db b s = (r, s') \<longrightarrow>
        ok s' \<and> tbl s' = (case r of Inr _ \<Rightarrow> apply_ops b (tbl s) | Inl _ \<Rightarrow> tbl s))"
  using redb_database.redb_get_ok [OF assms] redb_database.redb_scan_ok [OF assms]
    redb_database.redb_scan_keys_ok [OF assms] redb_database.redb_exists_ok [OF assms]
    redb_database.redb_apply_ok [OF assms] by blast

theorem redb_refines_store_witness:
  "redb_database table_redb table_map table_map table_map (\<lambda>_. True)
   \<and> redb_get table_redb [1] (table_put [1] [2] table_empty) = Inr (Some [2])
   \<and> Some [2] = table_map (table_put [1] [2] table_empty) [1]"
proof -
  have "redb_get table_redb [1] (table_put [1] [2] table_empty) = Inr (Some [2])"
    by (simp add: redb_get_def table_redb_def)
  with redb_refines_store [OF trd.redb_database_axioms, where k = "[1]" and v = "Some [2]"
      and s = "table_put [1] [2] table_empty"]
  show ?thesis using trd.redb_database_axioms by blast
qed

end
