(* ===== verification/Summ_Rocks.thy ===== *)
theory Summ_Rocks
  imports Summ_Redb
begin

text \<open>
  The RocksDB engine (\<open>summ-meta/src/rocks_engine.rs\<close>). The \<open>rocksdb\<close> crate is a parameter: point
  reads, a raw iterator as the run of entries it delivers from a seek with the status it
  reports when it runs out, the plain iterator, and the atomic write of a batch. The locale
  \<open>rocks_database\<close> states its contract; in particular an iterator with
  \<open>prefix_same_as_start\<close> ends where the group of the seek target ends, for a target in the extractor's
  domain, and with \<open>iterate_upper_bound\<close> it ends at the bound. The engine over it is a
  \<open>fallible_engine\<close>. The tuning options of \<open>open_with_cache\<close> (cache, filters, compaction) do not
  change what a call returns and are not modelled.
\<close>

section \<open>The database\<close>

record read_opts =
  ro_upper :: "bytes option"
  ro_prefix_same :: bool

datatype rocks_op = RPut bytes bytes | RDelete bytes | RDeleteRange bytes bytes

text \<open>What a raw iterator delivers from its position on, and its status once it is exhausted.\<close>

type_synonym raw_iter = "entry list \<times> (string + unit)"

record 's rocks =
  rk_get :: "bytes \<Rightarrow> 's \<Rightarrow> string + bytes option"
  rk_seek :: "read_opts \<Rightarrow> bytes \<Rightarrow> 's \<Rightarrow> raw_iter"
  rk_iterator :: "bytes \<Rightarrow> 's \<Rightarrow> (string + entry) list"
  rk_write :: "rocks_op list \<Rightarrow> 's \<Rightarrow> (string + unit) \<times> 's"

text \<open>A valid iterator reports no error; an error ends it.\<close>

definition raw_status :: "entry list \<Rightarrow> string + unit \<Rightarrow> string + unit" where
  "raw_status es st = (if es = [] then st else Inr ())"

section \<open>The engine\<close>

definition prefix_read_opts :: "bytes \<Rightarrow> read_opts" where
  "prefix_read_opts p = \<lparr> ro_upper = prefix_successor p, ro_prefix_same = (p \<noteq> []) \<rparr>"

definition rocks_seek :: "'s rocks \<Rightarrow> bytes \<Rightarrow> bytes option \<Rightarrow> read_opts \<Rightarrow> 's \<Rightarrow> raw_iter" where
  "rocks_seek db p start_after opts s =
     rk_seek db opts (case start_after of Some c \<Rightarrow> c | None \<Rightarrow> p) s"

fun rocks_walk_loop ::
    "bytes \<Rightarrow> bytes option \<Rightarrow> nat \<Rightarrow> bool \<Rightarrow> nat \<Rightarrow> entry list \<Rightarrow> entry list \<Rightarrow> string + unit
     \<Rightarrow> summ_error + entry list \<times> bool" where
  "rocks_walk_loop p start_after limit with_values taken emitted [] st =
     and_then (storage (raw_status [] st)) (\<lambda>_. Inr (emitted, False))"
| "rocks_walk_loop p start_after limit with_values taken emitted ((key, v) # rest) st =
     (if start_after = Some key then
        rocks_walk_loop p start_after limit with_values taken emitted rest st
      else if \<not> prefix p key then
        and_then (storage (raw_status ((key, v) # rest) st)) (\<lambda>_. Inr (emitted, False))
      else if taken = limit then
        and_then (storage (raw_status ((key, v) # rest) st)) (\<lambda>_. Inr (emitted, True))
      else rocks_walk_loop p start_after limit with_values (taken + 1)
             (emitted @ [(key, if with_values then v else [])]) rest st)"

definition rocks_walk ::
    "'s rocks \<Rightarrow> bytes \<Rightarrow> bytes option \<Rightarrow> nat \<Rightarrow> bool \<Rightarrow> 's \<Rightarrow> summ_error + entry list \<times> bool" where
  "rocks_walk db p start_after limit with_values s =
     (case rocks_seek db p start_after (prefix_read_opts p) s of (es, st) \<Rightarrow>
        rocks_walk_loop p start_after limit with_values 0 [] es st)"

definition rocks_get :: "'s rocks \<Rightarrow> bytes \<Rightarrow> 's \<Rightarrow> summ_error + bytes option" where
  "rocks_get db key s = storage (rk_get db key s)"

definition rocks_scan :: "'s rocks \<Rightarrow> bytes \<Rightarrow> bytes option \<Rightarrow> nat \<Rightarrow> 's \<Rightarrow> summ_error + page" where
  "rocks_scan db p start_after limit s =
     (if limit = 0 then Inr \<lparr> pg_entries = [], pg_next = None \<rparr>
      else and_then (rocks_walk db p start_after limit True s) (\<lambda>(entries, more).
        Inr \<lparr> pg_entries = entries,
              pg_next = (if more then map_option fst (last_opt entries) else None) \<rparr>))"

definition rocks_scan_keys ::
    "'s rocks \<Rightarrow> bytes \<Rightarrow> bytes option \<Rightarrow> nat \<Rightarrow> 's \<Rightarrow> summ_error + key_page" where
  "rocks_scan_keys db p start_after limit s =
     (if limit = 0 then Inr \<lparr> kp_keys = [], kp_next = None \<rparr>
      else and_then (rocks_walk db p start_after limit False s) (\<lambda>(emitted, more).
        let keys = map fst emitted in
        Inr \<lparr> kp_keys = keys, kp_next = (if more then last_opt keys else None) \<rparr>))"

definition rocks_exists_prefix :: "'s rocks \<Rightarrow> bytes \<Rightarrow> 's \<Rightarrow> summ_error + bool" where
  "rocks_exists_prefix db p s =
     (case rocks_seek db p None (prefix_read_opts p) s of (es, st) \<Rightarrow>
        (case es of
           (k, _) # _ \<Rightarrow> and_then (storage (raw_status es st)) (\<lambda>_. Inr (prefix p k))
         | [] \<Rightarrow> and_then (storage (raw_status es st)) (\<lambda>_. Inr False)))"

fun rocks_delete_each :: "bytes \<Rightarrow> (string + entry) list \<Rightarrow> rocks_op list \<Rightarrow> summ_error + rocks_op list" where
  "rocks_delete_each p [] rocks = Inr rocks"
| "rocks_delete_each p (item # rest) rocks =
     and_then (storage item) (\<lambda>(k, _).
       if \<not> prefix p k then Inr rocks else rocks_delete_each p rest (rocks @ [RDelete k]))"

fun rocks_batch :: "'s rocks \<Rightarrow> 's \<Rightarrow> meta_op list \<Rightarrow> rocks_op list \<Rightarrow> summ_error + rocks_op list" where
  "rocks_batch db s [] rocks = Inr rocks"
| "rocks_batch db s (oper # rest) rocks =
     and_then (case oper of
         Put key v \<Rightarrow> Inr (rocks @ [RPut key v])
       | Delete key \<Rightarrow> Inr (rocks @ [RDelete key])
       | DeletePrefix p \<Rightarrow>
           (case prefix_successor p of
              Some end_key \<Rightarrow> Inr (rocks @ [RDeleteRange p end_key])
            | None \<Rightarrow> rocks_delete_each p (rk_iterator db p s) rocks))
       (rocks_batch db s rest)"

definition rocks_apply :: "'s rocks \<Rightarrow> write_batch \<Rightarrow> 's \<Rightarrow> (summ_error + unit) \<times> 's" where
  "rocks_apply db batch s =
     (if batch_is_empty batch then (Inr (), s)
      else case rocks_batch db s batch [] of
        Inl e \<Rightarrow> (Inl e, s)
      | Inr rocks \<Rightarrow> (case rk_write db rocks s of (r, s') \<Rightarrow> (storage r, s')))"

definition rocks_engine :: "'s rocks \<Rightarrow> 's meta_engine" where
  "rocks_engine db =
     \<lparr> e_get = rocks_get db, e_scan = rocks_scan db, e_scan_keys = rocks_scan_keys db,
       e_exists_prefix = rocks_exists_prefix db, e_apply = rocks_apply db \<rparr>"

section \<open>What RocksDB promises\<close>

fun apply_rocks_op :: "rocks_op \<Rightarrow> store \<Rightarrow> store" where
  "apply_rocks_op (RPut k v) m = m(k \<mapsto> v)"
| "apply_rocks_op (RDelete k) m = m(k := None)"
| "apply_rocks_op (RDeleteRange lo hi) m = (\<lambda>k. if lo \<le> k \<and> k < hi then None else m k)"

definition below :: "bytes option \<Rightarrow> bytes \<Rightarrow> bool" where
  "below u k = (case u of Some hi \<Rightarrow> k < hi | None \<Rightarrow> True)"

definition same_group :: "read_opts \<Rightarrow> bytes \<Rightarrow> bytes \<Rightarrow> bool" where
  "same_group opts t k \<longleftrightarrow> (ro_prefix_same opts \<and> summ_in_domain t
     \<longrightarrow> summ_in_domain k \<and> summ_transform k = summ_transform t)"

definition seek_run :: "store \<Rightarrow> read_opts \<Rightarrow> bytes \<Rightarrow> entry list" where
  "seek_run m opts t =
     takeWhile (\<lambda>(k, _). same_group opts t k)
       (filter (\<lambda>(k, _). t \<le> k \<and> below (ro_upper opts) k) (entries_of m))"

locale rocks_database =
  fixes db :: "'s rocks" and tbl :: "'s \<Rightarrow> store" and inv :: "'s \<Rightarrow> bool"
  assumes db_finite: "inv s \<Longrightarrow> finite (dom (tbl s))"
    and db_get: "inv s \<Longrightarrow> rk_get db k s = Inr found \<Longrightarrow> found = tbl s k"
    and db_seek: "inv s \<Longrightarrow> rk_seek db opts t s = (es, st) \<Longrightarrow>
      prefix es (seek_run (tbl s) opts t) \<and> (st = Inr () \<longrightarrow> es = seek_run (tbl s) opts t)"
    and db_iterator: "inv s \<Longrightarrow>
      list_all2 item_ok (rk_iterator db t s) (filter (\<lambda>(k, _). t \<le> k) (entries_of (tbl s)))"
    and db_write: "inv s \<Longrightarrow> rk_write db rocks s = (Inr u, s') \<Longrightarrow>
      inv s' \<and> tbl s' = fold apply_rocks_op rocks (tbl s)"
    and db_write_failed: "inv s \<Longrightarrow> rk_write db rocks s = (Inl e, s') \<Longrightarrow> inv s' \<and> tbl s' = tbl s"

section \<open>The walk\<close>

text \<open>For a cursor whose group reaches no further than the prefix, the run loses nothing.\<close>

lemma filter_takeWhile_all: "(\<And>x. x \<in> set xs \<Longrightarrow> P x) \<Longrightarrow> takeWhile P xs = xs"
  by (induction xs) auto

lemma seek_run_grouped:
  assumes "under p a" and "grouped p a"
  shows "seek_run m (prefix_read_opts p) (case a of Some c \<Rightarrow> c | None \<Rightarrow> p)
    = filter (\<lambda>(k, _). prefix p k \<and> (case a of Some c \<Rightarrow> c \<le> k | None \<Rightarrow> True)) (entries_of m)"
    (is "seek_run m ?o ?t = ?R")
proof -
  have t: "prefix p ?t" and g: "group_within p ?t"
    using assms by (auto simp: under_def grouped_def split: option.splits)
  have up: "?t \<le> k \<and> below (ro_upper ?o) k \<longleftrightarrow> prefix p k \<and> (case a of Some c \<Rightarrow> c \<le> k | None \<Rightarrow> True)" for k
  proof (cases "prefix_successor p")
    case None
    then have "prefix p k \<longleftrightarrow> p \<le> k"
      using all_ff_prefix [of p k] prefix_imp_le by (auto simp: prefix_successor_None)
    with t show ?thesis
      using None prefix_imp_le [OF t] by (auto simp: prefix_read_opts_def below_def split: option.splits)
  next
    case (Some e)
    with prefix_successor_range [OF Some, of k] prefix_imp_le [OF t] show ?thesis
      by (auto simp: prefix_read_opts_def below_def split: option.splits)
  qed
  have "same_group ?o ?t k" if "prefix p k" for k
    using group_within_same [OF g that] by (simp add: same_group_def)
  then show ?thesis
    unfolding seek_run_def up by (subst filter_takeWhile_all) auto
qed

lemma rocks_walk_loop_ok:
  assumes "rocks_walk_loop p a limit w taken acc es st = Inr (out, further)"
    and "prefix es full" and "st = Inr () \<longrightarrow> es = full" and "taken \<le> limit"
    and "\<forall>(k, v) \<in> set full. prefix p k"
  shows "let run = filter (\<lambda>(k, _). a \<noteq> Some k) full in
    out = acc @ map (\<lambda>(k, v). (k, if w then v else [])) (take (limit - taken) run)
    \<and> (further \<longleftrightarrow> limit - taken < length run)"
  using assms
proof (induction es arbitrary: full taken acc)
  case Nil
  then show ?case by (auto simp: raw_status_def and_then_Inr)
next
  case (Cons e es)
  obtain k v where e: "e = (k, v)" by (cases e)
  from Cons.prems(2) obtain full' where full: "full = e # full'" "prefix es full'"
    by (auto simp: prefix_def)
  have k: "prefix p k" using Cons.prems(5) full e by auto
  consider "a = Some k" | "a \<noteq> Some k" "taken = limit" | "a \<noteq> Some k" "taken < limit"
    using Cons.prems(4) by linarith
  then show ?case
  proof cases
    case 1
    with Cons.IH [of taken acc full'] Cons.prems full e show ?thesis by simp
  next
    case 2
    with Cons.prems full e k show ?thesis by (simp add: raw_status_def Let_def)
  next
    case 3
    then obtain n where n: "limit - taken = Suc n" "limit - Suc taken = n"
      by (cases "limit - taken") auto
    from 3 Cons.IH [of "taken + 1" "acc @ [(k, if w then v else [])]" full'] Cons.prems full e k n
    show ?thesis by (simp add: Let_def)
  qed
qed

context rocks_database
begin

lemma walk_ok:
  assumes "inv s" and "under p a" and "grouped p a" and "rocks_walk db p a n w s = Inr (out, further)"
  shows "out = map (\<lambda>(k, v). (k, if w then v else [])) (take n (scan_list (tbl s) p a))
    \<and> (further \<longleftrightarrow> n < length (scan_list (tbl s) p a))"
proof -
  let ?t = "case a of Some c \<Rightarrow> c | None \<Rightarrow> p"
  let ?full = "seek_run (tbl s) (prefix_read_opts p) ?t"
  obtain es st where seek: "rk_seek db (prefix_read_opts p) ?t s = (es, st)" by fastforce
  with assms(4) have loop: "rocks_walk_loop p a n w 0 [] es st = Inr (out, further)"
    by (simp add: rocks_walk_def rocks_seek_def)
  note full = seek_run_grouped [OF assms(2,3), of "tbl s"]
  have "filter (\<lambda>(k, _). a \<noteq> Some k) ?full = scan_list (tbl s) p a"
    unfolding full scan_list_def filter_filter
    by (intro filter_cong) (auto simp: after_def split: option.splits)
  with rocks_walk_loop_ok [OF loop, of ?full] db_seek [OF assms(1) seek] full
  show ?thesis by (simp add: Let_def)
qed

lemma rocks_scan_ok:
  assumes "inv s" and "under p a" and "grouped p a" and "rocks_scan db p a n s = Inr pg"
  shows "pg = scan_page (tbl s) p a n"
proof (cases "n = 0")
  case True
  with assms(4) show ?thesis by (simp add: rocks_scan_def scan_page_def page_of_def)
next
  case False
  with assms(4) obtain out further where w: "rocks_walk db p a n True s = Inr (out, further)"
    and pg: "pg = \<lparr> pg_entries = out, pg_next = (if further then map_option fst (last_opt out) else None) \<rparr>"
    by (auto simp: rocks_scan_def and_then_Inr)
  from walk_ok [OF assms(1-3) w] False show ?thesis
    unfolding pg scan_page_def by (intro page_from_walk) auto
qed

lemma rocks_scan_keys_ok:
  assumes "inv s" and "under p a" and "grouped p a" and "rocks_scan_keys db p a n s = Inr kp"
  shows "kp = key_page_of (scan_page (tbl s) p a n)"
proof (cases "n = 0")
  case True
  with assms(4) show ?thesis
    by (simp add: rocks_scan_keys_def scan_page_def page_of_def key_page_of_def)
next
  case False
  with assms(4) obtain out further where w: "rocks_walk db p a n False s = Inr (out, further)"
    and kp: "kp = \<lparr> kp_keys = map fst out, kp_next = (if further then last_opt (map fst out) else None) \<rparr>"
    by (auto simp: rocks_scan_keys_def and_then_Inr Let_def)
  from walk_ok [OF assms(1-3) w] False show ?thesis
    unfolding kp scan_page_def by (intro key_page_from_walk) (auto simp: comp_def split_def)
qed

lemma rocks_exists_ok:
  assumes "inv s" and "rocks_exists_prefix db p s = Inr hit"
  shows "hit = has_prefix (tbl s) p"
proof -
  obtain es st where seek: "rk_seek db (prefix_read_opts p) p s = (es, st)" by fastforce
  have full: "seek_run (tbl s) (prefix_read_opts p) p = scan_list (tbl s) p None"
    using seek_run_grouped [of p None "tbl s"] by (simp add: under_def grouped_def scan_list_def after_def)
  have run: "prefix es (scan_list (tbl s) p None)" "st = Inr () \<Longrightarrow> es = scan_list (tbl s) p None"
    using db_seek [OF assms(1) seek] by (simp_all add: full)
  have "hit \<longleftrightarrow> scan_list (tbl s) p None \<noteq> []"
  proof (cases es)
    case Nil
    with assms(2) seek run show ?thesis
      by (auto simp: rocks_exists_prefix_def rocks_seek_def raw_status_def and_then_Inr)
  next
    case (Cons e rest)
    obtain k v where e: "e = (k, v)" by (cases e)
    from run(1) Cons e have "(k, v) \<in> set (scan_list (tbl s) p None)" by (auto simp: prefix_def)
    then have "prefix p k" by (auto simp: scan_list_def)
    with assms(2) seek Cons e run show ?thesis
      by (auto simp: rocks_exists_prefix_def rocks_seek_def raw_status_def)
  qed
  then show ?thesis by (simp add: scan_list_empty [OF db_finite [OF assms(1)]])
qed

lemma rocks_batch_ok:
  "bounded_batch b \<Longrightarrow> rocks_batch db s b acc = Inr out \<Longrightarrow>
   fold apply_rocks_op out m = apply_ops b (fold apply_rocks_op acc m)"
proof (induction b arbitrary: acc)
  case (Cons x b)
  show ?case
  proof (cases x)
    case (DeletePrefix p)
    with Cons.prems(1) have "prefix_successor p \<noteq> None"
      by (simp add: bounded_batch_def bounded_op_def prefix_successor_None)
    then obtain e where e: "prefix_successor p = Some e" by blast
    have "(\<lambda>k. if p \<le> k \<and> k < e then None else q k) = (\<lambda>k. if prefix p k then None else q k)" for q :: store
      by (simp add: prefix_successor_range [OF e])
    with DeletePrefix e Cons.prems Cons.IH [of "acc @ [RDeleteRange p e]"] show ?thesis
      by (simp add: bounded_batch_def)
  next
    case (Put k v)
    with Cons.prems Cons.IH [of "acc @ [RPut k v]"] show ?thesis
      by (simp add: bounded_batch_def fun_upd_def)
  next
    case (Delete k)
    with Cons.prems Cons.IH [of "acc @ [RDelete k]"] show ?thesis
      by (simp add: bounded_batch_def fun_upd_def)
  qed
qed simp

lemma rocks_apply_ok:
  assumes "inv s" and "rocks_apply db b s = (r, s')" and "isl r \<or> bounded_batch b"
  shows "inv s' \<and> tbl s' = (case r of Inr _ \<Rightarrow> apply_ops b (tbl s) | Inl _ \<Rightarrow> tbl s)"
proof (cases "b = []")
  case True
  with assms show ?thesis by (auto simp: rocks_apply_def batch_is_empty_def)
next
  case False
  show ?thesis
  proof (cases "rocks_batch db s b []")
    case (Inl e)
    with assms False show ?thesis by (auto simp: rocks_apply_def batch_is_empty_def)
  next
    case (Inr rocks)
    obtain r0 s0 where w: "rk_write db rocks s = (r0, s0)" by fastforce
    with Inr assms(2) False have rs: "r = storage r0" "s' = s0"
      by (simp_all add: rocks_apply_def batch_is_empty_def)
    show ?thesis
    proof (cases r0)
      case (Inl e)
      with db_write_failed [OF assms(1), of rocks e s0] w show ?thesis by (simp add: rs)
    next
      case r0: (Inr u)
      with assms(3) rs have "bounded_batch b" by simp
      with rocks_batch_ok [OF _ Inr, of "tbl s"] db_write [OF assms(1), of rocks u s0] w r0
      show ?thesis by (simp add: rs)
    qed
  qed
qed

end

sublocale rocks_database \<subseteq> eng: fallible_engine "rocks_engine db" tbl inv
  by unfold_locales
    (auto simp: rocks_engine_def db_finite rocks_get_def rocks_scan_ok rocks_scan_keys_ok
      rocks_exists_ok dest: db_get rocks_apply_ok)

section \<open>A table of sorted entries\<close>

fun table_rocks_op :: "rocks_op \<Rightarrow> table \<Rightarrow> table" where
  "table_rocks_op (RPut k v) t = table_put k v t"
| "table_rocks_op (RDelete k) t = table_keep (\<lambda>l. l \<noteq> k) t"
| "table_rocks_op (RDeleteRange lo hi) t = table_keep (\<lambda>k. \<not> (lo \<le> k \<and> k < hi)) t"

definition table_rocks :: "table rocks" where
  "table_rocks =
     \<lparr> rk_get = (\<lambda>k t. Inr (table_map t k)),
       rk_seek = (\<lambda>opts target t.
         (takeWhile (\<lambda>(k, _). same_group opts target k)
            (filter (\<lambda>(k, _). target \<le> k \<and> below (ro_upper opts) k) (table_entries t)), Inr ())),
       rk_iterator = (\<lambda>target t. map Inr (filter (\<lambda>(k, _). target \<le> k) (table_entries t))),
       rk_write = (\<lambda>rocks t. (Inr (), fold table_rocks_op rocks t)) \<rparr>"

lemma table_map_rocks: "table_map (fold table_rocks_op rocks t) = fold apply_rocks_op rocks (table_map t)"
proof (induction rocks arbitrary: t)
  case (Cons x rocks)
  have "table_map (table_rocks_op x t) = apply_rocks_op x (table_map t)"
    by (cases x) auto
  with Cons show ?case by simp
qed simp

interpretation trk: rocks_database table_rocks table_map "\<lambda>_. True"
  by unfold_locales
    (auto simp: table_rocks_def seek_run_def entries_of_table item_ok_Inr table_map_rocks)

section \<open>A walk emits only what the iterator delivers\<close>

lemma rocks_walk_loop_subset:
  "rocks_walk_loop p a limit True taken acc es st = Inr (out, further) \<Longrightarrow>
   set out \<subseteq> set acc \<union> set es"
proof (induction es arbitrary: taken acc)
  case (Cons e es)
  obtain k v where e: "e = (k, v)" by (cases e)
  from Cons.prems e
  consider "rocks_walk_loop p a limit True taken acc es st = Inr (out, further)"
    | "out = acc"
    | "rocks_walk_loop p a limit True (Suc taken) (acc @ [(k, v)]) es st = Inr (out, further)"
    by (auto simp: raw_status_def split: if_splits)
  then show ?case
    using Cons.IH e by cases fastforce+
qed (auto simp: raw_status_def and_then_Inr)

lemma repo_blob_group:
  "summ_transform (repo_blob_key r d) = blobs_in_repo r" "summ_in_domain (repo_blob_key r d)"
  by (simp_all add: key_defs repo_groups)

section \<open>Properties\<close>

text \<open>
  C17. The RocksDB engine is an engine of the boundary over a database that keeps its documented
  contract: reads are exact; a scan gives exactly the page under the prefix whenever the
  group of its cursor reaches no further than the prefix; existence checks are
  exact for every prefix; a batch whose prefix deletes have a successor is applied in order
  and whole, or not at all.
\<close>

theorem rocks_refines_store:
  assumes "rocks_database db tbl ok" and "ok s"
  shows "(rocks_get db k s = Inr v \<longrightarrow> v = tbl s k)
    \<and> (under p a \<and> grouped p a \<and> rocks_scan db p a n s = Inr pg \<longrightarrow> pg = scan_page (tbl s) p a n)
    \<and> (under p a \<and> grouped p a \<and> rocks_scan_keys db p a n s = Inr kp \<longrightarrow>
        kp = key_page_of (scan_page (tbl s) p a n))
    \<and> (rocks_exists_prefix db p s = Inr hit \<longrightarrow> hit = has_prefix (tbl s) p)
    \<and> (bounded_batch b \<and> rocks_apply db b s = (r, s') \<longrightarrow>
        ok s' \<and> tbl s' = (case r of Inr _ \<Rightarrow> apply_ops b (tbl s) | Inl _ \<Rightarrow> tbl s))"
  using rocks_database.db_get [OF assms] rocks_database.rocks_scan_ok [OF assms]
    rocks_database.rocks_scan_keys_ok [OF assms] rocks_database.rocks_exists_ok [OF assms]
    rocks_database.rocks_apply_ok [OF assms] by (auto simp: rocks_get_def)

theorem rocks_refines_store_witness:
  "rocks_database table_rocks table_map (\<lambda>_. True)
   \<and> rocks_get table_rocks [1] (table_put [1] [2] table_empty) = Inr (Some [2])
   \<and> Some [2] = table_map (table_put [1] [2] table_empty) [1]"
proof -
  have "rocks_get table_rocks [1] (table_put [1] [2] table_empty) = Inr (Some [2])"
    by (simp add: rocks_get_def table_rocks_def)
  with rocks_refines_store [OF trk.rocks_database_axioms, where k = "[1]" and v = "Some [2]"
      and s = "table_put [1] [2] table_empty"]
  show ?thesis using trk.rocks_database_axioms by blast
qed

text \<open>
  A scan of all memberships (\<open>repo_blobs\<close>) that resumes at a membership of one repository
  returns only memberships of that repository on RocksDB, and reports the scan as exhausted when they run out:
  the cursor lies in the group of its repository, and the iterator stops with the group.
\<close>

theorem rocks_resumed_membership_scan:
  assumes "rocks_database db tbl ok" and "ok s"
    and "rocks_scan db repo_blobs (Some (repo_blob_key r d)) n s = Inr pg"
  shows "(\<forall>(k, v) \<in> set (pg_entries pg). prefix (blobs_in_repo r) k)
    \<and> (\<forall>c. pg_next pg = Some c \<longrightarrow> prefix (blobs_in_repo r) c)"
proof -
  let ?t = "repo_blob_key r d" and ?o = "prefix_read_opts repo_blobs"
  obtain es st where seek: "rk_seek db ?o ?t s = (es, st)" by fastforce
  have opts: "ro_prefix_same ?o" by (simp add: prefix_read_opts_def key_defs)
  have "prefix es (seek_run (tbl s) ?o ?t)"
    using rocks_database.db_seek [OF assms(1,2) seek] by blast
  then have "set es \<subseteq> set (seek_run (tbl s) ?o ?t)" by (auto simp: prefix_def)
  then have es: "prefix (blobs_in_repo r) (fst e)" if "e \<in> set es" for e
    using that opts prefix_summ_transform [of "fst e"] repo_blob_group [of r d]
    by (fastforce simp: seek_run_def same_group_def dest: set_takeWhileD)
  have "set (pg_entries pg) \<subseteq> set es \<and> (\<forall>c. pg_next pg = Some c \<longrightarrow> c \<in> fst ` set (pg_entries pg))"
    using assms(3) seek
    by (auto simp: rocks_scan_def rocks_walk_def rocks_seek_def and_then_Inr last_opt_def
        dest!: rocks_walk_loop_subset split: if_splits)
  with es show ?thesis by fastforce
qed

text \<open>
  Three memberships, two of repository 1 and one of repository 2, read from the first on: the
  page holds the second one and is the last, so the third is never returned.
\<close>

theorem rocks_resumed_membership_scan_witness:
  "rocks_database table_rocks table_map (\<lambda>_. True)
   \<and> rocks_scan table_rocks repo_blobs (Some (repo_blob_key 1 (Sha256 (arr32 [])))) 5
       (table_put (repo_blob_key 2 (Sha256 (arr32 []))) []
         (table_put (repo_blob_key 1 (Sha512 (arr64 []))) []
           (table_put (repo_blob_key 1 (Sha256 (arr32 []))) [] table_empty)))
     = Inr \<lparr> pg_entries = [(repo_blob_key 1 (Sha512 (arr64 [])), [])], pg_next = None \<rparr>
   \<and> prefix (blobs_in_repo 1) (repo_blob_key 1 (Sha512 (arr64 [])))"
proof -
  define a b c where abc: "a = repo_blob_key 1 (Sha256 (arr32 []))"
    "b = repo_blob_key 1 (Sha512 (arr64 []))" "c = repo_blob_key 2 (Sha256 (arr32 []))"
  let ?s = "table_put c [] (table_put b [] (table_put a [] table_empty))"
  have ord: "a < b" "b < c" "a < c"
    using enc_append_less [of "Sha256 (arr32 [])" "[]" "Sha512 (arr64 [])" "[]"]
    by (simp_all add: abc key_defs key_codes)
  have pre: "prefix repo_blobs k" if "k \<in> {a, b, c}" for k
    using that by (auto simp: abc key_defs)
  have grp: "summ_transform a = blobs_in_repo 1" "summ_transform b = blobs_in_repo 1"
    "summ_transform c = blobs_in_repo 2" "summ_in_domain a" "summ_in_domain b"
    unfolding abc by (rule repo_blob_group)+
  have ne: "blobs_in_repo 2 \<noteq> blobs_in_repo 1" "repo_blobs \<noteq> []" by (simp_all add: key_defs)
  obtain e where e: "prefix_successor repo_blobs = Some e"
    by (simp add: prefix_successor_def key_defs)
  have below: "k < e" if "k \<in> {a, b, c}" for k
    using prefix_successor_range [OF e, of k] pre [OF that] by simp
  have entries: "table_entries ?s = [(a, []), (b, []), (c, [])]"
    using ord by (auto simp: table_entries_def table_empty_def Abs_table_inverse)
  have page: "rocks_scan table_rocks repo_blobs (Some a) 5 ?s = Inr \<lparr> pg_entries = [(b, [])], pg_next = None \<rparr>"
    using ord pre below grp ne e order_less_imp_le [OF ord(1)] order_less_imp_le [OF ord(3)]
    by (auto simp: rocks_scan_def rocks_walk_def rocks_seek_def table_rocks_def entries prefix_read_opts_def
        below_def same_group_def raw_status_def)
  have "prefix (blobs_in_repo 1) b"
    using rocks_resumed_membership_scan [OF trk.rocks_database_axioms TrueI page [unfolded abc(1)]] by simp
  with page show ?thesis unfolding abc by (intro conjI trk.rocks_database_axioms)
qed

end
