(* ===== verification/Summ_Interner.thy ===== *)
theory Summ_Interner
  imports Summ_Rocks
begin

text \<open>
  Repository names and their ids (\<open>summ-meta/src/interner.rs\<close>): the stored mapping in both
  directions, the allocation counter, and the two bounded caches in front of them. The \<open>lru\<close> crate
  is a parameter: the operations of the two caches as a record, with the contract that a cache
  only ever holds what was put into it last and not removed since (\<open>lru_caches\<close>).

  The state of the registry is the state of its engine and that of the caches. The mutexes
  guard single calls and are not modelled; the operations run one after the other.
\<close>

section \<open>State and environment\<close>

record ('s, 'c) rstate =
  rs_engine :: 's
  rs_cache :: 'c

record 'c caches =
  cc_get_name :: "string \<Rightarrow> 'c \<Rightarrow> repo_id option \<times> 'c"
  cc_put_name :: "string \<Rightarrow> repo_id \<Rightarrow> 'c \<Rightarrow> 'c"
  cc_pop_name :: "string \<Rightarrow> 'c \<Rightarrow> 'c"
  cc_get_id :: "repo_id \<Rightarrow> 'c \<Rightarrow> string option \<times> 'c"
  cc_put_id :: "repo_id \<Rightarrow> string \<Rightarrow> 'c \<Rightarrow> 'c"
  cc_pop_id :: "repo_id \<Rightarrow> 'c \<Rightarrow> 'c"

text \<open>The calls on the engine, as operations on the state of the registry.\<close>

definition eng_get :: "'s meta_engine \<Rightarrow> bytes \<Rightarrow> (('s, 'c) rstate, summ_error, bytes option) action" where
  "eng_get E k = (\<lambda>s. (e_get E k (rs_engine s), s))"

definition eng_scan ::
    "'s meta_engine \<Rightarrow> bytes \<Rightarrow> bytes option \<Rightarrow> nat \<Rightarrow> (('s, 'c) rstate, summ_error, page) action" where
  "eng_scan E p a n = (\<lambda>s. (e_scan E p a n (rs_engine s), s))"

definition eng_scan_keys ::
    "'s meta_engine \<Rightarrow> bytes \<Rightarrow> bytes option \<Rightarrow> nat \<Rightarrow> (('s, 'c) rstate, summ_error, key_page) action" where
  "eng_scan_keys E p a n = (\<lambda>s. (e_scan_keys E p a n (rs_engine s), s))"

definition eng_exists :: "'s meta_engine \<Rightarrow> bytes \<Rightarrow> (('s, 'c) rstate, summ_error, bool) action" where
  "eng_exists E p = (\<lambda>s. (e_exists_prefix E p (rs_engine s), s))"

definition eng_apply :: "'s meta_engine \<Rightarrow> write_batch \<Rightarrow> (('s, 'c) rstate, summ_error, unit) action" where
  "eng_apply E b = (\<lambda>s. case e_apply E b (rs_engine s) of (r, e) \<Rightarrow> (r, s\<lparr>rs_engine := e\<rparr>))"

definition cache_name :: "'c caches \<Rightarrow> string \<Rightarrow> (('s, 'c) rstate, 'e, repo_id option) action" where
  "cache_name L name = (\<lambda>s. case cc_get_name L name (rs_cache s) of (r, c) \<Rightarrow> (Inr r, s\<lparr>rs_cache := c\<rparr>))"

definition cache_id :: "'c caches \<Rightarrow> repo_id \<Rightarrow> (('s, 'c) rstate, 'e, string option) action" where
  "cache_id L rid = (\<lambda>s. case cc_get_id L rid (rs_cache s) of (r, c) \<Rightarrow> (Inr r, s\<lparr>rs_cache := c\<rparr>))"

section \<open>Calls on the engine\<close>

context engine_contract
begin

lemma wp_get:
  assumes "inv (rs_engine s)" and "Q (tbl (rs_engine s) k) s" and "\<And>e. may_fail \<Longrightarrow> X e s"
  shows "wp (eng_get E k) Q X s"
  by (rule get_cases [OF assms(1), of k]) (use assms in \<open>auto simp: wp_def eng_get_def\<close>)

lemma wp_exists:
  assumes "inv (rs_engine s)" and "Q (has_prefix (tbl (rs_engine s)) p) s" and "\<And>e. may_fail \<Longrightarrow> X e s"
  shows "wp (eng_exists E p) Q X s"
  by (rule exists_cases [OF assms(1), of p]) (use assms in \<open>auto simp: wp_def eng_exists_def\<close>)

lemma wp_scan:
  assumes "inv (rs_engine s)" and "under p a" and "grouped p a"
    and "Q (scan_page (tbl (rs_engine s)) p a n) s" and "\<And>e. may_fail \<Longrightarrow> X e s"
  shows "wp (eng_scan E p a n) Q X s"
  by (rule scan_cases [OF assms(1-3), of n]) (use assms in \<open>auto simp: wp_def eng_scan_def\<close>)

lemma wp_scan_keys:
  assumes "inv (rs_engine s)" and "under p a" and "grouped p a"
    and "Q (key_page_of (scan_page (tbl (rs_engine s)) p a n)) s" and "\<And>e. may_fail \<Longrightarrow> X e s"
  shows "wp (eng_scan_keys E p a n) Q X s"
  by (rule scan_keys_cases [OF assms(1-3), of n]) (use assms in \<open>auto simp: wp_def eng_scan_keys_def\<close>)

lemma wp_apply:
  assumes "inv (rs_engine s)" and "bounded_batch b"
    and "\<And>e'. inv e' \<Longrightarrow> tbl e' = apply_ops b (tbl (rs_engine s)) \<Longrightarrow> Q () (s\<lparr>rs_engine := e'\<rparr>)"
    and "\<And>e e'. may_fail \<Longrightarrow> inv e' \<Longrightarrow> tbl e' = tbl (rs_engine s) \<Longrightarrow> X e (s\<lparr>rs_engine := e'\<rparr>)"
  shows "wp (eng_apply E b) Q X s"
  by (rule apply_cases [OF assms(1,2)]) (use assms in \<open>auto simp: wp_def eng_apply_def\<close>)

text \<open>With an engine that does not fail, a read is a function of the store.\<close>

lemma run_get: "inv (rs_engine s) \<Longrightarrow> \<not> may_fail \<Longrightarrow> eng_get E k s = (Inr (tbl (rs_engine s) k), s)"
  using get_cases [of "rs_engine s" k] by (auto simp: eng_get_def)

lemma run_exists:
  "inv (rs_engine s) \<Longrightarrow> \<not> may_fail \<Longrightarrow> eng_exists E p s = (Inr (has_prefix (tbl (rs_engine s)) p), s)"
  using exists_cases [of "rs_engine s" p] by (auto simp: eng_exists_def)

lemma run_scan_keys:
  "inv (rs_engine s) \<Longrightarrow> \<not> may_fail \<Longrightarrow> under p a \<Longrightarrow> grouped p a \<Longrightarrow>
   eng_scan_keys E p a n s = (Inr (key_page_of (scan_page (tbl (rs_engine s)) p a n)), s)"
  using scan_keys_cases [of "rs_engine s" p a n] by (auto simp: eng_scan_keys_def)

lemma run_scan:
  "inv (rs_engine s) \<Longrightarrow> \<not> may_fail \<Longrightarrow> under p a \<Longrightarrow> grouped p a \<Longrightarrow>
   eng_scan E p a n s = (Inr (scan_page (tbl (rs_engine s)) p a n), s)"
  using scan_cases [of "rs_engine s" p a n] by (auto simp: eng_scan_def)

lemma run_apply:
  assumes "inv (rs_engine s)" and "\<not> may_fail" and "bounded_batch b"
  obtains e' where "eng_apply E b s = (Inr (), s\<lparr>rs_engine := e'\<rparr>)" "inv e'"
    "tbl e' = apply_ops b (tbl (rs_engine s))"
  by (rule apply_cases [OF assms(1,3)]) (use assms(2) that in \<open>auto simp: eng_apply_def\<close>)

end

section \<open>The interner\<close>

definition DEFAULT_CACHE_ENTRIES :: nat where "DEFAULT_CACHE_ENTRIES = 100000"
definition NEXT_ID_KEY_ID :: repo_id where "NEXT_ID_KEY_ID = - 1"
definition MAX_REPO_ID :: repo_id where "MAX_REPO_ID = - 1 - 1"

definition remember :: "'c caches \<Rightarrow> string \<Rightarrow> repo_id \<Rightarrow> (('s, 'c) rstate, 'e, unit) action" where
  "remember L name rid =
     (\<lambda>s. (Inr (), s\<lparr>rs_cache := cc_put_id L rid name (cc_put_name L name rid (rs_cache s))\<rparr>))"

definition forget :: "'c caches \<Rightarrow> string \<Rightarrow> repo_id \<Rightarrow> (('s, 'c) rstate, 'e, unit) action" where
  "forget L name rid =
     (\<lambda>s. (Inr (), s\<lparr>rs_cache := cc_pop_id L rid (cc_pop_name L name (rs_cache s))\<rparr>))"

definition interner_lookup ::
    "'s meta_engine \<Rightarrow> 'c caches \<Rightarrow> string \<Rightarrow> (('s, 'c) rstate, summ_error, repo_id option) action" where
  "interner_lookup E L name =
     bind_a (cache_name L name) (\<lambda>hit.
       case hit of
         Some rid \<Rightarrow> return_a (Some rid)
       | None \<Rightarrow>
           bind_a (eng_get E (repo_by_name name)) (\<lambda>found.
             case found of
               None \<Rightarrow> return_a None
             | Some raw \<Rightarrow>
                 bind_a (lift_a (ok_or (InvalidData ''bad repo id'') (parse_repo_id raw))) (\<lambda>rid.
                 bind_a (remember L name rid) (\<lambda>_. return_a (Some rid)))))"

definition interner_resolve ::
    "'s meta_engine \<Rightarrow> 'c caches \<Rightarrow> repo_id \<Rightarrow> (('s, 'c) rstate, summ_error, string option) action" where
  "interner_resolve E L rid =
     bind_a (cache_id L rid) (\<lambda>hit.
       case hit of
         Some name \<Rightarrow> return_a (Some name)
       | None \<Rightarrow>
           bind_a (eng_get E (repo_by_id rid)) (\<lambda>found.
             case found of
               None \<Rightarrow> return_a None
             | Some raw \<Rightarrow>
                 bind_a (lift_a (ok_or (InvalidData ''repo name'') (from_utf8 raw))) (\<lambda>name.
                 bind_a (remember L name rid) (\<lambda>_. return_a (Some name)))))"

definition next_id :: "'s meta_engine \<Rightarrow> (('s, 'c) rstate, summ_error, repo_id) action" where
  "next_id E =
     bind_a (eng_get E (repo_by_id NEXT_ID_KEY_ID)) (\<lambda>found.
       case found of
         Some raw \<Rightarrow> lift_a (ok_or (InvalidData ''bad repo id counter'') (parse_repo_id raw))
       | None \<Rightarrow> return_a 0)"

text \<open>The part of \<open>intern\<close> behind the allocation lock, after the second look-up.\<close>

definition interner_alloc ::
    "'s meta_engine \<Rightarrow> 'c caches \<Rightarrow> string \<Rightarrow> (('s, 'c) rstate, summ_error, repo_id) action" where
  "interner_alloc E L name =
     (let counter_key = repo_by_id NEXT_ID_KEY_ID in
      bind_a (eng_get E counter_key) (\<lambda>found.
      bind_a (case found of
          Some raw \<Rightarrow> lift_a (ok_or (InvalidData ''bad repo id counter'') (parse_repo_id raw))
        | None \<Rightarrow> return_a 0) (\<lambda>rid.
      if MAX_REPO_ID < rid then fail_a (InvalidData ''repo id space exhausted'')
      else
        bind_a (eng_apply E
          (batch_put counter_key (to_be_bytes (rid + 1))
            (batch_put (repo_by_id rid) (as_bytes name)
              (batch_put (repo_by_name name) (to_be_bytes rid) batch_new)))) (\<lambda>_.
        bind_a (remember L name rid) (\<lambda>_. return_a rid)))))"

definition interner_intern ::
    "'s meta_engine \<Rightarrow> 'c caches \<Rightarrow> string \<Rightarrow> (('s, 'c) rstate, summ_error, repo_id) action" where
  "interner_intern E L name =
     bind_a (interner_lookup E L name) (\<lambda>first.
       case first of
         Some rid \<Rightarrow> return_a rid
       | None \<Rightarrow>
           bind_a (interner_lookup E L name) (\<lambda>again.
             case again of
               Some rid \<Rightarrow> return_a rid
             | None \<Rightarrow> interner_alloc E L name))"

section \<open>The mapping as it is stored\<close>

definition next_of :: "store \<Rightarrow> repo_id option" where
  "next_of m = (case m (repo_by_id NEXT_ID_KEY_ID) of None \<Rightarrow> Some 0 | Some raw \<Rightarrow> parse_repo_id raw)"

definition id_of :: "store \<Rightarrow> string \<Rightarrow> repo_id option" where
  "id_of m name = Option.bind (m (repo_by_name name)) parse_repo_id"

definition name_of :: "store \<Rightarrow> repo_id \<Rightarrow> string option" where
  "name_of m rid = (if rid = NEXT_ID_KEY_ID then None else Option.bind (m (repo_by_id rid)) from_utf8)"

text \<open>
  The two directions are inverse to each other, every id in use is below the counter, and every
  record decodes.
\<close>

definition names_ok :: "store \<Rightarrow> bool" where
  "names_ok m \<longleftrightarrow> (\<exists>nx. next_of m = Some nx
     \<and> (\<forall>name raw. m (repo_by_name name) = Some raw \<longrightarrow>
          (\<exists>rid. raw = to_be_bytes rid \<and> rid < nx \<and> m (repo_by_id rid) = Some (as_bytes name)))
     \<and> (\<forall>rid raw. rid \<noteq> NEXT_ID_KEY_ID \<and> m (repo_by_id rid) = Some raw \<longrightarrow>
          (\<exists>name. is_str name \<and> raw = as_bytes name \<and> m (repo_by_name name) = Some (to_be_bytes rid))))"

definition cache_ok :: "store \<Rightarrow> (string \<rightharpoonup> repo_id) \<Rightarrow> (repo_id \<rightharpoonup> string) \<Rightarrow> bool" where
  "cache_ok m cn ci \<longleftrightarrow>
     (\<forall>name rid. cn name = Some rid \<longrightarrow> m (repo_by_name name) = Some (to_be_bytes rid))
     \<and> (\<forall>rid name. ci rid = Some name \<longrightarrow> rid \<noteq> NEXT_ID_KEY_ID \<and> m (repo_by_id rid) = Some (as_bytes name))"

text \<open>The registry's state with its store \<open>tbl\<close>, and the contents of its caches.\<close>

definition interner_ok ::
    "('s \<Rightarrow> store) \<Rightarrow> ('s \<Rightarrow> bool) \<Rightarrow> ('c \<Rightarrow> string \<rightharpoonup> repo_id) \<Rightarrow> ('c \<Rightarrow> repo_id \<rightharpoonup> string) \<Rightarrow> ('s, 'c) rstate \<Rightarrow> bool" where
  "interner_ok tbl ok names ids s \<longleftrightarrow> ok (rs_engine s) \<and> names_ok (tbl (rs_engine s))
     \<and> cache_ok (tbl (rs_engine s)) (names (rs_cache s)) (ids (rs_cache s))"

lemma parse_repo_id_be [simp]: "parse_repo_id (to_be_bytes r) = Some r"
  by (simp add: parse_repo_id_def try_array_def)

lemma parse_repo_id_Some: "parse_repo_id raw = Some r \<longleftrightarrow> raw = to_be_bytes r"
  using to_from_be_bytes [where 'a = 32, of raw]
  by (auto simp: parse_repo_id_def try_array_def split: if_splits)

lemma name_keys [simp]:
  "repo_by_name a = repo_by_name b \<longleftrightarrow> a = b" "repo_by_id r = repo_by_id q \<longleftrightarrow> r = q"
  "repo_by_name a \<noteq> repo_by_id r" "repo_by_id r \<noteq> repo_by_name a"
  by (simp_all add: key_defs)

lemma names_ok_id_of:
  assumes "names_ok m" and "m (repo_by_name name) = Some raw"
  obtains rid where "raw = to_be_bytes rid" "rid \<noteq> NEXT_ID_KEY_ID" "m (repo_by_id rid) = Some (as_bytes name)"
    "id_of m name = Some rid"
proof -
  from assms obtain nx rid where *: "raw = to_be_bytes rid" "rid < nx" "m (repo_by_id rid) = Some (as_bytes name)"
    unfolding names_ok_def by blast
  then have "rid \<noteq> NEXT_ID_KEY_ID"
    using word_order.extremum_strict [of nx] by (auto simp: NEXT_ID_KEY_ID_def)
  with * assms(2) that show ?thesis by (simp add: id_of_def)
qed

lemma names_ok_name_of:
  assumes "names_ok m" and "rid \<noteq> NEXT_ID_KEY_ID" and "m (repo_by_id rid) = Some raw"
  obtains name where "raw = as_bytes name" "is_str name" "m (repo_by_name name) = Some (to_be_bytes rid)"
    "name_of m rid = Some name"
proof -
  from assms obtain name where *: "is_str name" "raw = as_bytes name"
    "m (repo_by_name name) = Some (to_be_bytes rid)"
    unfolding names_ok_def by blast
  with assms that show ?thesis by (simp add: name_of_def)
qed

lemma id_of_name_of:
  assumes "names_ok m"
  shows "id_of m name = Some rid \<longleftrightarrow> name_of m rid = Some name"
proof
  assume *: "id_of m name = Some rid"
  then obtain raw where "m (repo_by_name name) = Some raw" by (auto simp: id_of_def bind_eq_Some_conv)
  with * have "rid \<noteq> NEXT_ID_KEY_ID" "m (repo_by_id rid) = Some (as_bytes name)"
    using names_ok_id_of [OF assms] by (metis option.inject)+
  then show "name_of m rid = Some name"
    using names_ok_name_of [OF assms] by (metis as_bytes_inject)
next
  assume *: "name_of m rid = Some name"
  then obtain raw where r: "m (repo_by_id rid) = Some raw" "rid \<noteq> NEXT_ID_KEY_ID"
    by (auto simp: name_of_def bind_eq_Some_conv split: if_splits)
  with * have "m (repo_by_name name) = Some (to_be_bytes rid)"
    using names_ok_name_of [OF assms r(2,1)] by (metis option.inject)
  then show "id_of m name = Some rid" by (simp add: id_of_def)
qed

text \<open>The store after a new name got an id.\<close>

definition alloc_store :: "store \<Rightarrow> string \<Rightarrow> repo_id \<Rightarrow> store" where
  "alloc_store m name rid =
     m(repo_by_name name \<mapsto> to_be_bytes rid, repo_by_id rid \<mapsto> as_bytes name,
       repo_by_id NEXT_ID_KEY_ID \<mapsto> to_be_bytes (rid + 1))"

lemma less_Suc_word:
  fixes r q :: u32
  assumes "r \<noteq> - 1"
  shows "q < r + 1 \<longleftrightarrow> q < r \<or> q = r"
proof -
  have "unat r \<noteq> unat (- 1 :: u32)" using assms by (simp only: word_unat_eq_iff not_False_eq_True)
  then have "unat r \<noteq> 2 ^ 32 - 1" by (simp add: unat_minus_one_word_eq)
  moreover have "unat r < 2 ^ 32" using unsigned_less [of r, where ?'a = nat] by simp
  ultimately have "unat (r + 1) = unat r + 1" by (simp add: unat_word_ariths)
  then show ?thesis by (auto simp: word_less_nat_alt word_unat_eq_iff)
qed

lemma fresh_id:
  assumes "names_ok m" and "next_of m = Some nx" and "nx \<le> rid" and "rid \<noteq> NEXT_ID_KEY_ID"
  shows "m (repo_by_id rid) = None"
proof (rule ccontr)
  assume "m (repo_by_id rid) \<noteq> None"
  then obtain name where n: "m (repo_by_name name) = Some (to_be_bytes rid)"
    using names_ok_name_of [OF assms(1,4)] by blast
  with assms(1,2) obtain q where "to_be_bytes rid = to_be_bytes q" "q < nx"
    unfolding names_ok_def by (metis option.inject)
  with assms(3) show False by simp
qed

lemma names_ok_alloc:
  assumes "names_ok m" and "next_of m = Some rid" and "rid \<noteq> NEXT_ID_KEY_ID"
    and "m (repo_by_name name) = None" and "is_str name"
  shows "names_ok (alloc_store m name rid)"
proof -
  let ?m = "alloc_store m name rid"
  have nx: "next_of ?m = Some (rid + 1)" by (simp add: next_of_def alloc_store_def)
  have fwd: "\<exists>q. raw = to_be_bytes q \<and> q < rid + 1 \<and> ?m (repo_by_id q) = Some (as_bytes n)"
    if "?m (repo_by_name n) = Some raw" for n raw
  proof (cases "n = name")
    case True
    with that assms(3) show ?thesis
      using less_Suc_word [of rid rid] by (auto simp: alloc_store_def NEXT_ID_KEY_ID_def)
  next
    case False
    with that have "m (repo_by_name n) = Some raw" by (simp add: alloc_store_def)
    with assms(1,2) obtain q where q: "raw = to_be_bytes q" "q < rid" "m (repo_by_id q) = Some (as_bytes n)"
      unfolding names_ok_def by (metis option.inject)
    moreover have "q \<noteq> NEXT_ID_KEY_ID"
      using q(2) word_order.extremum_strict [of rid] by (auto simp: NEXT_ID_KEY_ID_def)
    ultimately show ?thesis
      using assms(3) less_Suc_word [of rid q] by (auto simp: alloc_store_def NEXT_ID_KEY_ID_def)
  qed
  have bwd: "\<exists>n. is_str n \<and> raw = as_bytes n \<and> ?m (repo_by_name n) = Some (to_be_bytes q)"
    if "q \<noteq> NEXT_ID_KEY_ID" "?m (repo_by_id q) = Some raw" for q raw
  proof (cases "q = rid")
    case True
    with that assms(5) show ?thesis by (auto simp: alloc_store_def)
  next
    case False
    with that have "m (repo_by_id q) = Some raw" by (simp add: alloc_store_def)
    with assms(1) that(1) obtain n where "is_str n" "raw = as_bytes n" "m (repo_by_name n) = Some (to_be_bytes q)"
      using names_ok_name_of by blast
    moreover from this assms(4) have "n \<noteq> name" by auto
    ultimately show ?thesis by (auto simp: alloc_store_def)
  qed
  from nx fwd bwd show ?thesis unfolding names_ok_def by blast
qed

lemma cache_ok_alloc:
  assumes "cache_ok m cn ci" and "m (repo_by_name name) = None" and "m (repo_by_id rid) = None"
  shows "cache_ok (alloc_store m name rid) cn ci"
  using assms by (auto simp: cache_ok_def alloc_store_def)

lemma id_of_alloc: "id_of (alloc_store m name rid) n = (if n = name then Some rid else id_of m n)"
  by (simp add: id_of_def alloc_store_def)

lemma next_of_alloc [simp]: "next_of (alloc_store m name rid) = Some (rid + 1)"
  by (simp add: next_of_def alloc_store_def)

text \<open>The store after a name lost its id, and the caches once they forgot the pair.\<close>

definition drop_name :: "store \<Rightarrow> string \<Rightarrow> repo_id \<Rightarrow> store" where
  "drop_name m name rid = m(repo_by_name name := None, repo_by_id rid := None)"

lemma names_ok_drop:
  assumes "names_ok m" and "id_of m name = Some rid"
  shows "names_ok (drop_name m name rid)"
proof -
  let ?m = "drop_name m name rid"
  obtain raw where raw: "m (repo_by_name name) = Some raw"
    using assms(2) by (auto simp: id_of_def bind_eq_Some_conv)
  obtain q where "id_of m name = Some q" "q \<noteq> NEXT_ID_KEY_ID" "m (repo_by_id q) = Some (as_bytes name)"
    "raw = to_be_bytes q" using names_ok_id_of [OF assms(1) raw] by blast
  then have r: "rid \<noteq> NEXT_ID_KEY_ID" "m (repo_by_id rid) = Some (as_bytes name)"
    "m (repo_by_name name) = Some (to_be_bytes rid)" using assms(2) raw by auto
  obtain nx where nx: "next_of m = Some nx" using assms(1) by (auto simp: names_ok_def)
  with r(1) have "next_of ?m = Some nx" by (simp add: next_of_def drop_name_def)
  moreover have "\<exists>q. w = to_be_bytes q \<and> q < nx \<and> ?m (repo_by_id q) = Some (as_bytes n)"
    if "?m (repo_by_name n) = Some w" for n w
  proof -
    from that have n: "n \<noteq> name" "m (repo_by_name n) = Some w" by (auto simp: drop_name_def split: if_splits)
    with assms(1) nx obtain q where q: "w = to_be_bytes q" "q < nx" "m (repo_by_id q) = Some (as_bytes n)"
      unfolding names_ok_def by (metis option.inject)
    with n r(2) have "q \<noteq> rid" by auto
    with q show ?thesis by (auto simp: drop_name_def)
  qed
  moreover have "\<exists>n. is_str n \<and> w = as_bytes n \<and> ?m (repo_by_name n) = Some (to_be_bytes q)"
    if q0: "q \<noteq> NEXT_ID_KEY_ID" "?m (repo_by_id q) = Some w" for q w
  proof -
    from q0 have q: "q \<noteq> rid" "m (repo_by_id q) = Some w" by (auto simp: drop_name_def split: if_splits)
    then obtain n where n: "is_str n" "w = as_bytes n" "m (repo_by_name n) = Some (to_be_bytes q)"
      using names_ok_name_of [OF assms(1) q0(1)] by blast
    with q r(3) have "n \<noteq> name" by auto
    with n show ?thesis by (auto simp: drop_name_def)
  qed
  ultimately show ?thesis unfolding names_ok_def by blast
qed

lemma cache_ok_drop:
  "cache_ok m cn ci \<Longrightarrow> cache_ok (drop_name m name rid) (cn(name := None)) (ci(rid := None))"
  by (auto simp: cache_ok_def drop_name_def)

lemma names_ok_cong:
  assumes "names_ok m" and "\<And>n. m' (repo_by_name n) = m (repo_by_name n)" and "\<And>i. m' (repo_by_id i) = m (repo_by_id i)"
  shows "names_ok m'"
  using assms(1) unfolding names_ok_def next_of_def assms(2,3) .

lemma cache_ok_cong:
  assumes "cache_ok m cn ci" and "\<And>n. m' (repo_by_name n) = m (repo_by_name n)" and "\<And>i. m' (repo_by_id i) = m (repo_by_id i)"
  shows "cache_ok m' cn ci"
  using assms(1) unfolding cache_ok_def assms(2,3) .

section \<open>What the caches promise\<close>

locale lru_caches =
  fixes L :: "'c caches" and names :: "'c \<Rightarrow> string \<rightharpoonup> repo_id" and ids :: "'c \<Rightarrow> repo_id \<rightharpoonup> string"
  assumes get_name: "cc_get_name L n c = (hit, c') \<Longrightarrow> hit = names c n \<and> names c' = names c \<and> ids c' = ids c"
    and put_name: "names (cc_put_name L n i c) \<subseteq>\<^sub>m (names c)(n \<mapsto> i)" "ids (cc_put_name L n i c) = ids c"
    and pop_name: "names (cc_pop_name L n c) \<subseteq>\<^sub>m (names c)(n := None)" "ids (cc_pop_name L n c) = ids c"
    and get_id: "cc_get_id L i c = (found, c') \<Longrightarrow> found = ids c i \<and> names c' = names c \<and> ids c' = ids c"
    and put_id: "ids (cc_put_id L i n c) \<subseteq>\<^sub>m (ids c)(i \<mapsto> n)" "names (cc_put_id L i n c) = names c"
    and pop_id: "ids (cc_pop_id L i c) \<subseteq>\<^sub>m (ids c)(i := None)" "names (cc_pop_id L i c) = names c"

lemma cache_ok_mono: "cache_ok m cn ci \<Longrightarrow> cn' \<subseteq>\<^sub>m cn \<Longrightarrow> ci' \<subseteq>\<^sub>m ci \<Longrightarrow> cache_ok m cn' ci'"
  unfolding cache_ok_def map_le_def by (metis domI)

lemma cache_ok_put:
  "cache_ok m cn ci \<Longrightarrow> m (repo_by_name n) = Some (to_be_bytes i) \<Longrightarrow> i \<noteq> NEXT_ID_KEY_ID \<Longrightarrow>
   m (repo_by_id i) = Some (as_bytes n) \<Longrightarrow> cache_ok m (cn(n \<mapsto> i)) (ci(i \<mapsto> n))"
  by (auto simp: cache_ok_def)

locale interner_env = engine_contract + lru_caches
begin

lemma wp_cache_name:
  assumes "interner_ok tbl inv names ids s"
    and "\<And>s'. interner_ok tbl inv names ids s' \<Longrightarrow> rs_engine s' = rs_engine s \<Longrightarrow> Q (names (rs_cache s) n) s'"
  shows "wp (cache_name L n) Q X s"
proof -
  obtain hit c where g: "cc_get_name L n (rs_cache s) = (hit, c)" by fastforce
  from get_name [OF g] assms show ?thesis
    by (simp add: wp_def cache_name_def g interner_ok_def)
qed

lemma wp_cache_id:
  assumes "interner_ok tbl inv names ids s"
    and "\<And>s'. interner_ok tbl inv names ids s' \<Longrightarrow> rs_engine s' = rs_engine s \<Longrightarrow> Q (ids (rs_cache s) i) s'"
  shows "wp (cache_id L i) Q X s"
proof -
  obtain hit c where g: "cc_get_id L i (rs_cache s) = (hit, c)" by fastforce
  from get_id [OF g] assms show ?thesis
    by (simp add: wp_def cache_id_def g interner_ok_def)
qed

lemma wp_remember:
  assumes "interner_ok tbl inv names ids s" and "tbl (rs_engine s) (repo_by_name n) = Some (to_be_bytes i)"
    and "i \<noteq> NEXT_ID_KEY_ID" and "tbl (rs_engine s) (repo_by_id i) = Some (as_bytes n)"
    and "\<And>s'. interner_ok tbl inv names ids s' \<Longrightarrow> rs_engine s' = rs_engine s \<Longrightarrow> Q () s'"
  shows "wp (remember L n i) Q X s"
proof -
  let ?c = "rs_cache s"
  have "cache_ok (tbl (rs_engine s)) ((names ?c)(n \<mapsto> i)) ((ids ?c)(i \<mapsto> n))"
    using assms by (intro cache_ok_put) (auto simp: interner_ok_def)
  then have "cache_ok (tbl (rs_engine s)) (names (cc_put_id L i n (cc_put_name L n i ?c)))
      (ids (cc_put_id L i n (cc_put_name L n i ?c)))"
    by (rule cache_ok_mono) (use put_name [of n i ?c] put_id [of i n "cc_put_name L n i ?c"] in auto)
  with assms show ?thesis by (simp add: wp_def remember_def interner_ok_def)
qed

lemma wp_lookup:
  assumes ok: "interner_ok tbl inv names ids s"
    and ret: "\<And>s'. interner_ok tbl inv names ids s' \<Longrightarrow> rs_engine s' = rs_engine s \<Longrightarrow>
        Q (id_of (tbl (rs_engine s)) n) s'"
    and err: "\<And>e s'. may_fail \<Longrightarrow> interner_ok tbl inv names ids s' \<Longrightarrow> rs_engine s' = rs_engine s \<Longrightarrow> X e s'"
  shows "wp (interner_lookup E L n) Q X s"
  unfolding interner_lookup_def wp_simps
proof (rule wp_cache_name [OF ok])
  fix s1
  assume s1: "interner_ok tbl inv names ids s1" "rs_engine s1 = rs_engine s"
  let ?m = "tbl (rs_engine s)"
  have nm: "names_ok ?m" and inv: "inv (rs_engine s1)" using s1 ok by (auto simp: interner_ok_def)
  show "wp (case names (rs_cache s) n of None \<Rightarrow> bind_a (eng_get E (repo_by_name n)) (\<lambda>found.
             case found of None \<Rightarrow> return_a None
             | Some raw \<Rightarrow> bind_a (lift_a (ok_or (InvalidData ''bad repo id'') (parse_repo_id raw)))
                 (\<lambda>rid. bind_a (remember L n rid) (\<lambda>_. return_a (Some rid))))
           | Some rid \<Rightarrow> return_a (Some rid)) Q X s1"
  proof (cases "names (rs_cache s) n")
    case (Some rid)
    then have "id_of ?m n = Some rid" using ok by (auto simp: interner_ok_def cache_ok_def id_of_def)
    with ret [OF s1] Some show ?thesis by (simp add: wp_simps)
  next
    case None
    show ?thesis
    proof (cases "?m (repo_by_name n)")
      case absent: None
      then have "id_of ?m n = None" by (simp add: id_of_def)
      with None absent show ?thesis
        using ret [OF s1] s1 inv err [OF _ s1] by (auto simp: wp_simps intro!: wp_get)
    next
      case (Some raw)
      then obtain rid where r: "raw = to_be_bytes rid" "rid \<noteq> NEXT_ID_KEY_ID"
        "?m (repo_by_id rid) = Some (as_bytes n)" "id_of ?m n = Some rid"
        using names_ok_id_of [OF nm] by blast
      with None Some show ?thesis
        using ret s1 inv err [OF _ s1] by (auto simp: wp_simps intro!: wp_get wp_remember)
    qed
  qed
qed


lemma wp_next_id:
  assumes "interner_ok tbl inv names ids s"
    and "\<And>nx. next_of (tbl (rs_engine s)) = Some nx \<Longrightarrow> Q nx s" and "\<And>e. may_fail \<Longrightarrow> X e s"
  shows "wp (next_id E) Q X s"
proof -
  obtain nx where nx: "next_of (tbl (rs_engine s)) = Some nx"
    using assms(1) by (auto simp: interner_ok_def names_ok_def)
  show ?thesis unfolding next_id_def wp_simps
    by (rule wp_get) (use assms nx in \<open>auto simp: wp_simps interner_ok_def next_of_def split: option.splits\<close>)
qed

lemma wp_alloc:
  assumes ok: "interner_ok tbl inv names ids s" and str: "is_str n"
    and absent: "id_of (tbl (rs_engine s)) n = None"
    and fresh: "\<And>s' rid. interner_ok tbl inv names ids s' \<Longrightarrow> next_of (tbl (rs_engine s)) = Some rid \<Longrightarrow>
        rid \<noteq> NEXT_ID_KEY_ID \<Longrightarrow> tbl (rs_engine s') = alloc_store (tbl (rs_engine s)) n rid \<Longrightarrow> Q rid s'"
    and failed: "\<And>e s'. may_fail \<or> next_of (tbl (rs_engine s)) = Some NEXT_ID_KEY_ID \<Longrightarrow>
        interner_ok tbl inv names ids s' \<Longrightarrow> tbl (rs_engine s') = tbl (rs_engine s) \<Longrightarrow> X e s'"
  shows "wp (interner_alloc E L n) Q X s"
proof -
  let ?m = "tbl (rs_engine s)"
  have nm: "names_ok ?m" and c: "cache_ok ?m (names (rs_cache s)) (ids (rs_cache s))" and i: "inv (rs_engine s)"
    using ok by (auto simp: interner_ok_def)
  obtain nx where nx: "next_of ?m = Some nx" using nm by (auto simp: names_ok_def)
  have none: "?m (repo_by_name n) = None"
    using absent names_ok_id_of [OF nm] by (metis not_None_eq)
  have max: "MAX_REPO_ID < nx \<longleftrightarrow> nx = NEXT_ID_KEY_ID"
    using less_Suc_word [of MAX_REPO_ID nx] word_order.not_eq_extremum [of nx]
    by (auto simp: MAX_REPO_ID_def NEXT_ID_KEY_ID_def)
  let ?batch = "batch_put (repo_by_id NEXT_ID_KEY_ID) (to_be_bytes (nx + 1))
      (batch_put (repo_by_id nx) (as_bytes n) (batch_put (repo_by_name n) (to_be_bytes nx) batch_new))"
  have "wp (eng_apply E ?batch) (\<lambda>_. wp (remember L n nx) (\<lambda>_. Q nx) X) X s" if "nx \<noteq> NEXT_ID_KEY_ID"
  proof (rule wp_apply [OF i])
    show "bounded_batch ?batch" by (simp add: bounded_batch_def bounded_op_def batch_put_def batch_new_def)
  next
    fix e' assume e': "inv e'" "tbl e' = apply_ops ?batch ?m"
    then have t: "tbl e' = alloc_store ?m n nx"
      by (simp add: batch_put_def batch_new_def alloc_store_def)
    show "wp (remember L n nx) (\<lambda>_. Q nx) X (s\<lparr>rs_engine := e'\<rparr>)"
      by (rule wp_remember)
        (use e'(1) t that names_ok_alloc [OF nm nx that none str] fresh [OF _ nx that]
          cache_ok_alloc [OF c none fresh_id [OF nm nx _ that]]
          in \<open>auto simp: interner_ok_def alloc_store_def\<close>)
  next
    fix e e' assume "may_fail" "inv e'" "tbl e' = ?m"
    then show "X e (s\<lparr>rs_engine := e'\<rparr>)"
      using nm c by (intro failed) (auto simp: interner_ok_def)
  qed
  then show ?thesis
    unfolding interner_alloc_def Let_def wp_bind
    by (intro wp_get)
      (use i ok failed nx max in \<open>auto simp: next_of_def wp_simps split: option.splits\<close>)
qed

lemma wp_intern:
  assumes ok: "interner_ok tbl inv names ids s" and str: "is_str n"
    and known: "\<And>s' rid. interner_ok tbl inv names ids s' \<Longrightarrow> rs_engine s' = rs_engine s \<Longrightarrow>
        id_of (tbl (rs_engine s)) n = Some rid \<Longrightarrow> Q rid s'"
    and fresh: "\<And>s' rid. interner_ok tbl inv names ids s' \<Longrightarrow> id_of (tbl (rs_engine s)) n = None \<Longrightarrow>
        next_of (tbl (rs_engine s)) = Some rid \<Longrightarrow> rid \<noteq> NEXT_ID_KEY_ID \<Longrightarrow>
        tbl (rs_engine s') = alloc_store (tbl (rs_engine s)) n rid \<Longrightarrow> Q rid s'"
    and failed: "\<And>e s'. may_fail \<or> (id_of (tbl (rs_engine s)) n = None
          \<and> next_of (tbl (rs_engine s)) = Some NEXT_ID_KEY_ID) \<Longrightarrow>
        interner_ok tbl inv names ids s' \<Longrightarrow> tbl (rs_engine s') = tbl (rs_engine s) \<Longrightarrow> X e s'"
  shows "wp (interner_intern E L n) Q X s"
proof -
  have same: "interner_ok tbl inv names ids s' \<Longrightarrow> rs_engine s' = rs_engine s \<Longrightarrow> may_fail \<Longrightarrow> X e s'" for e s'
    using failed by simp
  have alloc: "wp (interner_alloc E L n) Q X s'"
    if "interner_ok tbl inv names ids s'" "rs_engine s' = rs_engine s" "id_of (tbl (rs_engine s)) n = None" for s'
    by (rule wp_alloc) (use that str fresh failed in auto)
  have again: "wp (interner_lookup E L n)
      (\<lambda>again. wp (case again of Some rid \<Rightarrow> return_a rid | None \<Rightarrow> interner_alloc E L n) Q X) X s'"
    if "interner_ok tbl inv names ids s'" "rs_engine s' = rs_engine s" for s'
    by (rule wp_lookup [OF that(1)])
      (use that known same alloc in \<open>auto simp: wp_simps split: option.split\<close>)
  show ?thesis
    unfolding interner_intern_def wp_bind
    by (rule wp_lookup [OF ok]) (use known same again in \<open>auto simp: wp_simps split: option.split\<close>)
qed

lemma wp_resolve:
  assumes ok: "interner_ok tbl inv names ids s" and "i \<noteq> NEXT_ID_KEY_ID"
    and ret: "\<And>s'. interner_ok tbl inv names ids s' \<Longrightarrow> rs_engine s' = rs_engine s \<Longrightarrow>
        Q (name_of (tbl (rs_engine s)) i) s'"
    and err: "\<And>e s'. may_fail \<Longrightarrow> interner_ok tbl inv names ids s' \<Longrightarrow> rs_engine s' = rs_engine s \<Longrightarrow> X e s'"
  shows "wp (interner_resolve E L i) Q X s"
proof -
  let ?m = "tbl (rs_engine s)"
  have nm: "names_ok ?m" using ok by (simp add: interner_ok_def)
  have hit: "name_of ?m i = Some n" if "ids (rs_cache s) i = Some n" for n
    using that ok names_ok_name_of [OF nm assms(2)] by (fastforce simp: interner_ok_def cache_ok_def)
  have miss: "wp (bind_a (eng_get E (repo_by_id i)) (\<lambda>found.
      case found of None \<Rightarrow> return_a None
      | Some raw \<Rightarrow> bind_a (lift_a (ok_or (InvalidData ''repo name'') (from_utf8 raw)))
          (\<lambda>n. bind_a (remember L n i) (\<lambda>_. return_a (Some n))))) Q X s'"
    if s': "interner_ok tbl inv names ids s'" "rs_engine s' = rs_engine s" for s'
  proof (cases "?m (repo_by_id i)")
    case None
    then have "name_of ?m i = None" by (simp add: name_of_def)
    with None show ?thesis
      using ret [OF s'] s' err [OF _ s'] by (auto simp: wp_simps interner_ok_def intro!: wp_get)
  next
    case (Some raw)
    then obtain n where n: "raw = as_bytes n" "is_str n" "?m (repo_by_name n) = Some (to_be_bytes i)"
      "name_of ?m i = Some n"
      using names_ok_name_of [OF nm assms(2)] by blast
    have "wp (remember L n i) (\<lambda>_. Q (Some n)) X s'"
      by (rule wp_remember [OF s'(1)]) (use n Some s' ret assms(2) in auto)
    moreover have "inv (rs_engine s')" using s' by (simp add: interner_ok_def)
    ultimately show ?thesis
      using Some n s' err [OF _ s'] by (auto simp: wp_simps intro!: wp_get)
  qed
  show ?thesis
    unfolding interner_resolve_def wp_bind
    by (rule wp_cache_id [OF ok]) (use hit miss ret in \<open>auto simp: wp_return split: option.split\<close>)
qed


lemma wp_forget:
  assumes "inv (rs_engine s)" and "names_ok (tbl (rs_engine s))"
    and "cache_ok (tbl (rs_engine s)) ((names (rs_cache s))(n := None)) ((ids (rs_cache s))(i := None))"
    and "\<And>s'. interner_ok tbl inv names ids s' \<Longrightarrow> rs_engine s' = rs_engine s \<Longrightarrow> Q () s'"
  shows "wp (forget L n i) Q X s"
proof -
  let ?c = "rs_cache s"
  have "cache_ok (tbl (rs_engine s)) (names (cc_pop_id L i (cc_pop_name L n ?c)))
      (ids (cc_pop_id L i (cc_pop_name L n ?c)))"
    by (rule cache_ok_mono [OF assms(3)])
      (use pop_name [of n ?c] pop_id [of i "cc_pop_name L n ?c"] in auto)
  with assms show ?thesis by (simp add: wp_def forget_def interner_ok_def)
qed

end

section \<open>Caches as bounded lists\<close>

text \<open>The contract is met by two lists with the most recently used entry first.\<close>

type_synonym list_caches = "(string \<times> repo_id) list \<times> (repo_id \<times> string) list"

definition lru_get :: "'k \<Rightarrow> ('k \<times> 'v) list \<Rightarrow> 'v option \<times> ('k \<times> 'v) list" where
  "lru_get k xs =
     (case map_of xs k of None \<Rightarrow> (None, xs) | Some v \<Rightarrow> (Some v, (k, v) # filter (\<lambda>(l, _). l \<noteq> k) xs))"

definition lru_pop :: "'k \<Rightarrow> ('k \<times> 'v) list \<Rightarrow> ('k \<times> 'v) list" where
  "lru_pop k xs = filter (\<lambda>(l, _). l \<noteq> k) xs"

definition lru_put :: "nat \<Rightarrow> 'k \<Rightarrow> 'v \<Rightarrow> ('k \<times> 'v) list \<Rightarrow> ('k \<times> 'v) list" where
  "lru_put cap k v xs = take cap ((k, v) # lru_pop k xs)"

definition list_caches :: "list_caches caches" where
  "list_caches =
     \<lparr> cc_get_name = (\<lambda>n (a, b). case lru_get n a of (r, a') \<Rightarrow> (r, a', b)),
       cc_put_name = (\<lambda>n i (a, b). (lru_put DEFAULT_CACHE_ENTRIES n i a, b)),
       cc_pop_name = (\<lambda>n (a, b). (lru_pop n a, b)),
       cc_get_id = (\<lambda>i (a, b). case lru_get i b of (r, b') \<Rightarrow> (r, a, b')),
       cc_put_id = (\<lambda>i n (a, b). (a, lru_put DEFAULT_CACHE_ENTRIES i n b)),
       cc_pop_id = (\<lambda>i (a, b). (a, lru_pop i b)) \<rparr>"

lemma map_of_lru_pop: "map_of (lru_pop k xs) = (map_of xs)(k := None)"
  by (induction xs) (auto simp: lru_pop_def)

lemma map_of_take_le: "map_of (take n xs) \<subseteq>\<^sub>m map_of xs"
proof (induction xs arbitrary: n)
  case (Cons x xs)
  show ?case
  proof (cases n)
    case (Suc k)
    then show ?thesis using Cons [of k] by (cases x) (auto simp: map_le_def)
  qed simp
qed simp

lemma map_of_lru_put: "map_of (lru_put cap k v xs) \<subseteq>\<^sub>m (map_of xs)(k \<mapsto> v)"
  using map_of_take_le [of cap "(k, v) # lru_pop k xs"] by (simp add: lru_put_def map_of_lru_pop)

lemma map_of_lru_get: "fst (lru_get k xs) = map_of xs k" "map_of (snd (lru_get k xs)) = map_of xs"
  by (auto simp: lru_get_def fun_eq_iff map_of_lru_pop simp flip: lru_pop_def split: option.splits)

interpretation lc: lru_caches list_caches "\<lambda>c. map_of (fst c)" "\<lambda>c. map_of (snd c)"
  by unfold_locales
    (auto simp: list_caches_def map_of_lru_put map_of_lru_pop split_def map_of_lru_get)

interpretation tin: interner_env table_engine table_map "\<lambda>_. True" False list_caches
  "\<lambda>c. map_of (fst c)" "\<lambda>c. map_of (snd c)"
  by unfold_locales

definition empty_state :: "(table, list_caches) rstate" where
  "empty_state = \<lparr> rs_engine = table_empty, rs_cache = ([], []) \<rparr>"

lemma names_ok_empty: "names_ok Map.empty"
  by (simp add: names_ok_def next_of_def)

lemma interner_ok_empty:
  "interner_ok table_map (\<lambda>_. True) (\<lambda>c. map_of (fst c)) (\<lambda>c. map_of (snd c)) empty_state"
  by (simp add: interner_ok_def empty_state_def names_ok_empty cache_ok_def)

section \<open>Properties\<close>

text \<open>
  C19. Interning a name keeps the two stored directions inverse to each other, all ids below the
  counter and the caches coherent. It returns the id the name has afterwards; a known name
  keeps its id and nothing is written; a new name gets the counter's value, which no name had, and
  the counter moves on; no other name changes. A failure writes nothing, and can only come from
  the store or from the exhausted id space.
\<close>

theorem intern_correct:
  assumes "interner_env E tbl ok fails L names ids"
    and "interner_ok tbl ok names ids s" and "is_str name"
    and "interner_intern E L name s = (r, s')"
    and "m = tbl (rs_engine s)" and "m' = tbl (rs_engine s')"
  shows "interner_ok tbl ok names ids s'
    \<and> (case r of
         Inr rid \<Rightarrow> id_of m' name = Some rid \<and> name_of m' rid = Some name
           \<and> (\<forall>n. n \<noteq> name \<longrightarrow> id_of m' n = id_of m n)
           \<and> (if id_of m name = None
              then next_of m = Some rid \<and> next_of m' = Some (rid + 1) \<and> name_of m rid = None
              else m' = m)
       | Inl _ \<Rightarrow> m' = m \<and> (fails \<or> next_of m = Some NEXT_ID_KEY_ID))"
proof -
  have ok': "names_ok m" using assms(2,5) by (simp add: interner_ok_def)
  have "wp (interner_intern E L name) (\<lambda>rid t. interner_ok tbl ok names ids t
      \<and> id_of (tbl (rs_engine t)) name = Some rid \<and> (\<forall>n. n \<noteq> name \<longrightarrow> id_of (tbl (rs_engine t)) n = id_of m n)
      \<and> (if id_of m name = None then next_of m = Some rid \<and> next_of (tbl (rs_engine t)) = Some (rid + 1)
            \<and> rid \<noteq> NEXT_ID_KEY_ID else tbl (rs_engine t) = m))
    (\<lambda>e t. interner_ok tbl ok names ids t \<and> tbl (rs_engine t) = m \<and> (fails \<or> next_of m = Some NEXT_ID_KEY_ID)) s"
    unfolding assms(5)
    by (rule interner_env.wp_intern [OF assms(1-3)]) (auto simp: id_of_alloc)
  moreover have "name_of (tbl (rs_engine s')) rid = Some name"
    if "interner_ok tbl ok names ids s'" "id_of (tbl (rs_engine s')) name = Some rid" for rid
    using that id_of_name_of by (simp add: interner_ok_def)
  moreover have "name_of m rid = None" if "next_of m = Some rid" "rid \<noteq> NEXT_ID_KEY_ID" for rid
    using fresh_id [OF ok' that(1) order_refl that(2)] by (simp add: name_of_def)
  ultimately show ?thesis
    using assms(4) unfolding assms(6) wp_def by (cases r) (auto split: if_splits)
qed

theorem intern_correct_witness:
  "interner_env table_engine table_map (\<lambda>_. True) False list_caches (\<lambda>c. map_of (fst c)) (\<lambda>c. map_of (snd c))
   \<and> interner_ok table_map (\<lambda>_. True) (\<lambda>c. map_of (fst c)) (\<lambda>c. map_of (snd c)) empty_state
   \<and> is_str ''a'' \<and> fst (interner_intern table_engine list_caches ''a'' empty_state) = Inr 0"
proof -
  obtain r s' where run: "interner_intern table_engine list_caches ''a'' empty_state = (r, s')" by fastforce
  have a: "is_str ''a''" by (simp add: is_str_def char_byte_def)
  have e: "table_map (rs_engine empty_state) = Map.empty" by (simp add: empty_state_def)
  from intern_correct [OF tin.interner_env_axioms interner_ok_empty a run refl refl]
  have "r = Inr 0"
    by (cases r) (auto simp: e next_of_def id_of_def NEXT_ID_KEY_ID_def split: if_splits)
  with run a show ?thesis using tin.interner_env_axioms interner_ok_empty by simp
qed

end
