(* ===== verification/Summ_Version.thy ===== *)
theory Summ_Version
  imports Summ_Interner
begin

text \<open>
  The schema version marker and the migrations (\<open>summ-meta/src/version.rs\<close>). A migration step is
  an operation of its own on the store; the version is stamped after each step.
\<close>

section \<open>Definitions\<close>

record ('s, 'c) migration =
  mg_to :: u32
  mg_run :: "(('s, 'c) rstate, summ_error, unit) action"

type_synonym ('s, 'c) migrations = "('s, 'c) migration list"

definition migrations_register ::
    "u32 \<Rightarrow> (('s, 'c) rstate, summ_error, unit) action \<Rightarrow> ('s, 'c) migrations \<Rightarrow> ('s, 'c) migrations" where
  "migrations_register to run ms = ms @ [\<lparr> mg_to = to, mg_run = run \<rparr>]"

definition version_decode :: "bytes \<Rightarrow> summ_error + u32" where
  "version_decode raw =
     and_then (ok_or (InvalidData ''schema version marker length'') (try_array 4 raw)) (\<lambda>bs.
       Inr (from_be_bytes bs))"

definition version_read :: "'s meta_engine \<Rightarrow> (('s, 'c) rstate, summ_error, u32 option) action" where
  "version_read E =
     bind_a (eng_get E db_version) (\<lambda>found.
       case found of
         Some raw \<Rightarrow> bind_a (lift_a (version_decode raw)) (\<lambda>v. return_a (Some v))
       | None \<Rightarrow> return_a None)"

definition version_stamp :: "'s meta_engine \<Rightarrow> u32 \<Rightarrow> (('s, 'c) rstate, summ_error, unit) action" where
  "version_stamp E v = eng_apply E (batch_put db_version (to_be_bytes v) batch_new)"

definition version_is_empty :: "'s meta_engine \<Rightarrow> (('s, 'c) rstate, summ_error, bool) action" where
  "version_is_empty E = bind_a (eng_scan_keys E [] None 1) (\<lambda>kp. return_a (kp_keys kp = []))"

definition ensure_step ::
    "'s meta_engine \<Rightarrow> ('s, 'c) migration \<Rightarrow> u32 \<Rightarrow> (('s, 'c) rstate, summ_error, u32) action" where
  "ensure_step E step at =
     (if mg_to step \<le> at then return_a at
      else if SCHEMA_VERSION < mg_to step then fail_a (InvalidData ''migration is beyond this build'')
      else bind_a (mg_run step) (\<lambda>_. bind_a (version_stamp E (mg_to step)) (\<lambda>_. return_a (mg_to step))))"

definition version_ensure ::
    "'s meta_engine \<Rightarrow> ('s, 'c) migrations \<Rightarrow> (('s, 'c) rstate, summ_error, u32) action" where
  "version_ensure E migrations =
     bind_a (version_read E) (\<lambda>declared.
       case declared of
         None \<Rightarrow>
           bind_a (version_is_empty E) (\<lambda>blank.
             if \<not> blank then fail_a (InvalidData ''store holds data but carries no schema version marker'')
             else bind_a (version_stamp E SCHEMA_VERSION) (\<lambda>_. return_a SCHEMA_VERSION))
       | Some found \<Rightarrow>
           if SCHEMA_VERSION < found then fail_a (InvalidData ''store schema version is newer than this build'')
           else
             bind_a (for_a (sort_key mg_to migrations) found (ensure_step E)) (\<lambda>at.
               if at \<noteq> SCHEMA_VERSION then fail_a (InvalidData ''no registered migration reaches this build'')
               else return_a at))"

definition version_open ::
    "'s meta_engine \<Rightarrow> ('s, 'c) migrations \<Rightarrow> (('s, 'c) rstate, summ_error, unit) action" where
  "version_open E migrations = bind_a (version_ensure E migrations) (\<lambda>_. return_a ())"

section \<open>Facts\<close>

definition declared :: "store \<Rightarrow> u32 \<Rightarrow> bool" where
  "declared m v \<longleftrightarrow> m db_version = Some (to_be_bytes v)"

lemma version_decode_be [simp]: "version_decode (to_be_bytes v) = Inr v"
  by (simp add: version_decode_def try_array_def)

lemma version_decode_Inr: "version_decode raw = Inr v \<longleftrightarrow> raw = to_be_bytes v"
  using to_from_be_bytes [where 'a = 32, of raw]
  by (auto simp: version_decode_def try_array_def and_then_def ok_or_def split: if_splits)

lemma blank_store: "finite (dom m) \<Longrightarrow> kp_keys (key_page_of (scan_page m [] None 1)) = [] \<longleftrightarrow> m = Map.empty"
  using scan_list_empty [of m "[]"]
  by (auto simp: key_page_of_def scan_page_def page_of_def has_prefix_def)

context engine_contract
begin

lemma wp_stamp:
  assumes "inv (rs_engine s)"
    and "\<And>e'. inv e' \<Longrightarrow> tbl e' = (tbl (rs_engine s))(db_version \<mapsto> to_be_bytes v) \<Longrightarrow> Q () (s\<lparr>rs_engine := e'\<rparr>)"
    and "\<And>e e'. may_fail \<Longrightarrow> inv e' \<Longrightarrow> tbl e' = tbl (rs_engine s) \<Longrightarrow> X e (s\<lparr>rs_engine := e'\<rparr>)"
  shows "wp (version_stamp E v) Q X s"
  unfolding version_stamp_def
  by (rule wp_apply [OF assms(1)])
    (use assms in \<open>auto simp: bounded_batch_def bounded_op_def batch_put_def batch_new_def\<close>)

text \<open>The chain of steps: the version reached is at most this build's, and is the one declared.\<close>

lemma wp_ensure_steps:
  fixes s :: "('a, 'c) rstate" and steps :: "('a, 'c) migrations"
  assumes "inv (rs_engine s)" and "declared (tbl (rs_engine s)) found" and "found \<le> SCHEMA_VERSION"
    and run: "\<And>step t. step \<in> set steps \<Longrightarrow> inv (rs_engine t) \<Longrightarrow>
      wp (mg_run step) (\<lambda>_ u. inv (rs_engine u)) (\<lambda>_ u. inv (rs_engine u)) t"
  shows "wp (for_a steps found (ensure_step E))
    (\<lambda>at t. inv (rs_engine t) \<and> declared (tbl (rs_engine t)) at \<and> at \<le> SCHEMA_VERSION)
    (\<lambda>_ t. inv (rs_engine t)) s"
proof (rule wp_for_a [where J = "\<lambda>_ at t. inv (rs_engine t) \<and> declared (tbl (rs_engine t)) at \<and> at \<le> SCHEMA_VERSION"])
  fix before rest at and step :: "('a, 'c) migration" and t :: "('a, 'c) rstate"
  assume steps: "steps = before @ step # rest"
    and J: "inv (rs_engine t) \<and> declared (tbl (rs_engine t)) at \<and> at \<le> SCHEMA_VERSION"
  have "wp (version_stamp E (mg_to step)) (\<lambda>_ u. inv (rs_engine u) \<and> declared (tbl (rs_engine u)) (mg_to step)
      \<and> mg_to step \<le> SCHEMA_VERSION) (\<lambda>_ u. inv (rs_engine u)) u"
    if "inv (rs_engine u)" "\<not> SCHEMA_VERSION < mg_to step" for u
    by (rule wp_stamp [OF that(1)]) (use that in \<open>auto simp: declared_def not_less\<close>)
  moreover have "wp (mg_run step) (\<lambda>_ u. inv (rs_engine u)) (\<lambda>_ u. inv (rs_engine u)) t"
    using run [of step t] J steps by simp
  ultimately show "wp (ensure_step E step at)
      (\<lambda>at t. inv (rs_engine t) \<and> declared (tbl (rs_engine t)) at \<and> at \<le> SCHEMA_VERSION) (\<lambda>_ t. inv (rs_engine t)) t"
    using J by (auto simp: ensure_step_def wp_simps elim!: wp_weaken)
qed (use assms in auto)

lemma wp_read:
  assumes "inv (rs_engine s)" and "tbl (rs_engine s) db_version = None \<Longrightarrow> Q None s"
    and "\<And>v. declared (tbl (rs_engine s)) v \<Longrightarrow> Q (Some v) s"
    and "\<And>e. may_fail \<or> (\<forall>v. \<not> declared (tbl (rs_engine s)) v) \<Longrightarrow> X e s"
  shows "wp (version_read E) Q X s"
proof -
  have "case version_decode raw of Inr v \<Rightarrow> Q (Some v) s | Inl e \<Rightarrow> X e s"
    if "tbl (rs_engine s) db_version = Some raw" for raw
  proof (cases "version_decode raw")
    case (Inl e)
    then have "\<forall>v. \<not> declared (tbl (rs_engine s)) v"
      using that by (auto simp: declared_def)
    with Inl assms(4) show ?thesis by simp
  next
    case (Inr v)
    with that assms(3) [of v] show ?thesis by (simp add: version_decode_Inr declared_def)
  qed
  then show ?thesis
    unfolding version_read_def wp_bind
    by (intro wp_get) (use assms in \<open>auto simp: wp_simps split: option.split sum.splits\<close>)
qed

lemma run_is_empty:
  assumes "inv (rs_engine s)" and "\<not> may_fail"
  shows "version_is_empty E s = (Inr (tbl (rs_engine s) = Map.empty), s)"
  using run_scan_keys [OF assms, of "[]" None 1] blank_store [OF finite_tbl [OF assms(1)]]
  by (simp add: version_is_empty_def run_simps under_def grouped_def)

lemma run_ensure_empty:
  assumes "inv (rs_engine s)" and "\<not> may_fail" and "tbl (rs_engine s) = Map.empty"
  obtains e' where "version_ensure E ms s = (Inr SCHEMA_VERSION, s\<lparr>rs_engine := e'\<rparr>)"
    and "inv e'" and "tbl e' = [db_version \<mapsto> to_be_bytes SCHEMA_VERSION]"
proof -
  have b: "bounded_batch (batch_put db_version (to_be_bytes SCHEMA_VERSION) batch_new)"
    by (simp add: bounded_batch_def bounded_op_def batch_put_def batch_new_def)
  obtain e' where "eng_apply E (batch_put db_version (to_be_bytes SCHEMA_VERSION) batch_new) s
      = (Inr (), s\<lparr>rs_engine := e'\<rparr>)" "inv e'" "tbl e' = [db_version \<mapsto> to_be_bytes SCHEMA_VERSION]"
    by (rule run_apply [OF assms(1,2) b]) (simp add: assms(3) batch_put_def batch_new_def)
  then show ?thesis
    using that [of e'] run_is_empty [OF assms(1,2)] run_get [OF assms(1,2), of db_version] assms(3)
    by (simp add: version_ensure_def version_read_def version_stamp_def run_simps)
qed

lemma wp_ensure:
  fixes s :: "('a, 'c) rstate" and ms :: "('a, 'c) migrations"
  assumes "inv (rs_engine s)"
    and run: "\<And>step t. step \<in> set ms \<Longrightarrow> inv (rs_engine t) \<Longrightarrow>
      wp (mg_run step) (\<lambda>_ u. inv (rs_engine u)) (\<lambda>_ u. inv (rs_engine u)) t"
  shows "wp (version_ensure E ms)
    (\<lambda>v t. inv (rs_engine t) \<and> v = SCHEMA_VERSION \<and> declared (tbl (rs_engine t)) SCHEMA_VERSION)
    (\<lambda>_ t. inv (rs_engine t)) s"
proof -
  let ?Q = "\<lambda>v t. inv (rs_engine t) \<and> v = SCHEMA_VERSION \<and> declared (tbl (rs_engine t)) SCHEMA_VERSION"
  let ?X = "\<lambda>_ t. inv (rs_engine t)"
  have stamp: "wp (version_stamp E SCHEMA_VERSION) (\<lambda>_. ?Q SCHEMA_VERSION) ?X s"
    by (rule wp_stamp [OF assms(1)]) (simp_all add: declared_def)
  have "wp (version_is_empty E) (\<lambda>blank. wp (if \<not> blank then fail_a (InvalidData ''store holds data but carries no schema version marker'')
             else bind_a (version_stamp E SCHEMA_VERSION) (\<lambda>_. return_a SCHEMA_VERSION)) ?Q ?X) ?X s"
    unfolding version_is_empty_def wp_bind
    by (rule wp_scan_keys [OF assms(1)])
      (use assms(1) stamp in \<open>simp_all add: under_def grouped_def wp_simps\<close>)
  moreover have "wp (for_a (sort_key mg_to ms) found (ensure_step E))
      (\<lambda>at. wp (if at \<noteq> SCHEMA_VERSION then fail_a (InvalidData ''no registered migration reaches this build'')
               else return_a at) ?Q ?X) ?X s"
    if "declared (tbl (rs_engine s)) found" "\<not> SCHEMA_VERSION < found" for found
    by (rule wp_weaken [OF wp_ensure_steps [OF assms(1) that(1)]])
      (use that(2) run in \<open>auto simp: wp_simps not_less split: if_splits\<close>)
  ultimately show ?thesis
    unfolding version_ensure_def wp_bind
    by (intro wp_read) (use assms(1) in \<open>auto simp: wp_simps\<close>)
qed

end

section \<open>Properties\<close>

text \<open>
  Opening a store succeeds only at this build's schema version, and then the store carries
  the marker of exactly that version, whatever registered migrations ran on the way, as
  long as each step leaves the engine usable.
\<close>

theorem ensure_declares_version:
  fixes s :: "('s, 'c) rstate" and ms :: "('s, 'c) migrations"
  assumes "engine_contract E tbl ok fails" and "ok (rs_engine s)"
    and "\<And>step t. step \<in> set ms \<Longrightarrow> ok (rs_engine t) \<Longrightarrow>
      wp (mg_run step) (\<lambda>_ u. ok (rs_engine u)) (\<lambda>_ u. ok (rs_engine u)) t"
    and "version_ensure E ms s = (Inr v, s')"
  shows "v = SCHEMA_VERSION \<and> tbl (rs_engine s') db_version = Some (to_be_bytes SCHEMA_VERSION)"
  using wp_Inr [OF engine_contract.wp_ensure [OF assms(1-3)] assms(4)] by (simp add: declared_def)

theorem ensure_declares_version_witness:
  "\<exists>v s'. version_ensure table_engine [] empty_state = (Inr v, s')
     \<and> v = SCHEMA_VERSION \<and> table_map (rs_engine s') db_version = Some (to_be_bytes SCHEMA_VERSION)"
proof -
  obtain v s' where run: "version_ensure table_engine [] empty_state = (Inr v, s')"
    by (rule tre.run_ensure_empty [of empty_state "[]"]) (auto simp: empty_state_def)
  from ensure_declares_version [OF tre.engine_contract_axioms TrueI _ run] run show ?thesis by auto
qed

text \<open>
  The refusals. A store that is newer than this build, and a store with data but no marker, are
  refused and left as they are; an empty store is stamped; with no migrations to run,
  a store of this version is accepted unchanged and an older one refused unchanged.
\<close>

theorem ensure_cases:
  fixes s :: "('s, 'c) rstate"
  assumes "engine_contract E tbl ok False" and "ok (rs_engine s)" and "m = tbl (rs_engine s)"
  shows "(\<forall>v. m db_version = Some (to_be_bytes v) \<longrightarrow>
      (SCHEMA_VERSION < v \<longrightarrow> (\<exists>e. version_ensure E ms s = (Inl e, s)))
      \<and> (v = SCHEMA_VERSION \<longrightarrow> version_ensure E [] s = (Inr v, s))
      \<and> (v < SCHEMA_VERSION \<longrightarrow> (\<exists>e. version_ensure E [] s = (Inl e, s))))
    \<and> (m db_version = None \<and> m \<noteq> Map.empty \<longrightarrow> (\<exists>e. version_ensure E ms s = (Inl e, s)))
    \<and> (m = Map.empty \<longrightarrow> (\<exists>e'. version_ensure E ms s = (Inr SCHEMA_VERSION, s\<lparr>rs_engine := e'\<rparr>)
        \<and> ok e' \<and> tbl e' = [db_version \<mapsto> to_be_bytes SCHEMA_VERSION]))"
proof (intro conjI allI impI)
  note get = engine_contract.run_get [OF assms(1,2), of db_version, folded assms(3), simplified]
  note blank = engine_contract.run_is_empty [OF assms(1,2), folded assms(3), simplified]
  {
    fix v :: u32 assume "m db_version = Some (to_be_bytes v)"
    then have read: "version_read E s = (Inr (Some v), s)"
      using get by (simp add: version_read_def run_simps)
    show "\<exists>e. version_ensure E ms s = (Inl e, s)" if "SCHEMA_VERSION < v"
      using that by (simp add: version_ensure_def run_simps read)
    show "version_ensure E [] s = (Inr v, s)" if "v = SCHEMA_VERSION"
      using that by (simp add: version_ensure_def run_simps read)
    show "\<exists>e. version_ensure E [] s = (Inl e, s)" if "v < SCHEMA_VERSION"
      using that by (simp add: version_ensure_def run_simps read)
  next
    assume "m db_version = None \<and> m \<noteq> Map.empty"
    then show "\<exists>e. version_ensure E ms s = (Inl e, s)"
      using get blank by (simp add: version_ensure_def version_read_def run_simps)
  next
    assume e: "m = Map.empty"
    show "\<exists>e'. version_ensure E ms s = (Inr SCHEMA_VERSION, s\<lparr>rs_engine := e'\<rparr>)
        \<and> ok e' \<and> tbl e' = [db_version \<mapsto> to_be_bytes SCHEMA_VERSION]"
      by (rule engine_contract.run_ensure_empty [OF assms(1,2)]) (use e assms(3) in auto)
  }
qed

theorem ensure_cases_witness:
  "engine_contract table_engine table_map (\<lambda>_. True) False
   \<and> table_map (rs_engine empty_state) = Map.empty
   \<and> fst (version_ensure table_engine [] empty_state) = Inr SCHEMA_VERSION"
proof -
  have e: "table_map (rs_engine empty_state) = Map.empty" by (simp add: empty_state_def)
  then show ?thesis
    using ensure_cases [OF tre.engine_contract_axioms TrueI refl, of empty_state "[]"]
      tre.engine_contract_axioms by auto
qed

end
