(* ===== verification/Summ_Reference.thy ===== *)
theory Summ_Reference
  imports Summ_Version
begin

text \<open>
  The errors of the registry (\<open>summ-registry/src/error.rs\<close>), references and the tag grammar
  (\<open>reference.rs\<close>), the artifact tags of cosign (\<open>cosign.rs\<close>) and the readers of key
  suffixes (\<open>suffix.rs\<close>).

  \<open>RegistryError\<close> has two more constructors here: \<open>Panicked\<close>, for an operation that a panic ends, and
  \<open>Diverged\<close>, for one whose loop does not end.
  Error texts keep their literal part; fields that name a repository, a tag or a digest are kept.
\<close>

section \<open>Errors\<close>

datatype registry_error =
    NameUnknown string
  | TagInvalid string string
  | ManifestInvalid string
  | ManifestUnknown string string
  | ManifestBlobUnknown string digest
  | DigestInvalid string
  | BlobUnknown string digest
  | Meta summ_error
  | Panicked
  | Diverged

fun code :: "registry_error \<Rightarrow> string" where
  "code (NameUnknown _) = ''NAME_UNKNOWN''"
| "code (TagInvalid _ _) = ''NAME_INVALID''"
| "code (ManifestInvalid _) = ''MANIFEST_INVALID''"
| "code (ManifestUnknown _ _) = ''MANIFEST_UNKNOWN''"
| "code (ManifestBlobUnknown _ _) = ''MANIFEST_BLOB_UNKNOWN''"
| "code (DigestInvalid _) = ''DIGEST_INVALID''"
| "code (BlobUnknown _ _) = ''BLOB_UNKNOWN''"
| "code (Meta _) = ''UNKNOWN''"
| "code Panicked = ''UNKNOWN''"
| "code Diverged = ''UNKNOWN''"

definition is_client_error :: "registry_error \<Rightarrow> bool" where
  "is_client_error e = (case e of Meta _ \<Rightarrow> False | Panicked \<Rightarrow> False | Diverged \<Rightarrow> False | _ \<Rightarrow> True)"

definition invalid :: "string \<Rightarrow> registry_error" where
  "invalid reason = ManifestInvalid reason"

definition corrupt :: "string \<Rightarrow> registry_error" where
  "corrupt what = Meta (InvalidData (''malformed stored record: '' @ what))"

text \<open>A call that may panic, inside an operation of the registry.\<close>

definition call_a :: "('e \<Rightarrow> registry_error) \<Rightarrow> ('e + 'a) call \<Rightarrow> ('s, registry_error, 'a) action" where
  "call_a f c =
     (case c of Panics \<Rightarrow> fail_a Panicked | Returns (Inl e) \<Rightarrow> fail_a (f e) | Returns (Inr a) \<Rightarrow> return_a a)"

section \<open>References\<close>

definition MAX_TAG_LEN :: nat where "MAX_TAG_LEN = 128"

datatype reference = Tag string | DigestRef digest

fun as_tag :: "reference \<Rightarrow> string option" where
  "as_tag (Tag t) = Some t"
| "as_tag (DigestRef _) = None"

fun as_digest :: "reference \<Rightarrow> digest option" where
  "as_digest (DigestRef d) = Some d"
| "as_digest (Tag _) = None"

fun show_reference :: "reference \<Rightarrow> string" where
  "show_reference (Tag t) = t"
| "show_reference (DigestRef d) = to_string d"

definition is_ascii_alphanumeric :: "char \<Rightarrow> bool" where
  "is_ascii_alphanumeric c =
     (let n = (of_char c :: nat) in (48 \<le> n \<and> n \<le> 57) \<or> (65 \<le> n \<and> n \<le> 90) \<or> (97 \<le> n \<and> n \<le> 122))"

text \<open>\<open>chars().count()\<close>: every byte but the continuation bytes starts a character.\<close>

definition char_count :: "string \<Rightarrow> nat" where
  "char_count s = length (filter (\<lambda>c. \<not> is_cont (char_byte c)) s)"

definition validate_tag :: "string \<Rightarrow> registry_error + unit" where
  "validate_tag tag =
     (case tag of
        [] \<Rightarrow> Inl (TagInvalid tag ''empty'')
      | first # rest \<Rightarrow>
          if \<not> (is_ascii_alphanumeric first \<or> first = CHR ''_'') then
            Inl (TagInvalid tag (''first character must be alphanumeric or '' @ [CHR 0x27, CHR ''_'', CHR 0x27]))
          else if MAX_TAG_LEN < char_count tag then
            Inl (TagInvalid tag ''longer than 128 characters'')
          else if \<exists>c \<in> set rest. \<not> (is_ascii_alphanumeric c \<or> c \<in> {CHR ''.'', CHR ''_'', CHR ''-''}) then
            Inl (TagInvalid tag ''characters must be [a-zA-Z0-9._-]'')
          else Inr ())"

definition parse_reference :: "string \<Rightarrow> (registry_error + reference) call" where
  "parse_reference s =
     (if CHR '':'' \<in> set s then
        (case from_str s of
           Panics \<Rightarrow> Panics
         | Returns r \<Rightarrow> Returns (case r of
             Inl _ \<Rightarrow> Inl (DigestInvalid ''invalid digest'') | Inr d \<Rightarrow> Inr (DigestRef d)))
      else Returns (and_then (validate_tag s) (\<lambda>_. Inr (Tag s))))"

section \<open>Artifact tags\<close>

definition ARTIFACT_SUFFIXES :: "string list" where
  "ARTIFACT_SUFFIXES = [''sig'', ''sbom'', ''att'']"

definition subject_of_artifact_tag :: "string \<Rightarrow> digest option call" where
  "subject_of_artifact_tag tag =
     (case rsplit_once CHR ''.'' tag of
        None \<Rightarrow> Returns None
      | Some (head, ext) \<Rightarrow>
          if ext \<notin> set ARTIFACT_SUFFIXES then Returns None
          else (case split_once CHR ''-'' head of
                  None \<Rightarrow> Returns None
                | Some (algo, encoded) \<Rightarrow>
                    (case from_str (algo @ '':'' @ encoded) of
                       Panics \<Rightarrow> Panics
                     | Returns (Inr d) \<Rightarrow> Returns (Some d)
                     | Returns (Inl _) \<Rightarrow> Returns None)))"

definition subject_a :: "string \<Rightarrow> ('s, registry_error, digest option) action" where
  "subject_a tag =
     (case subject_of_artifact_tag tag of Panics \<Rightarrow> fail_a Panicked | Returns d \<Rightarrow> return_a d)"

section \<open>Suffixes of keys\<close>

definition REPO_SCOPED_HEAD :: nat where "REPO_SCOPED_HEAD = 1 + 4"

definition digest_after_repo :: "bytes \<Rightarrow> digest option" where
  "digest_after_repo key = Option.bind (get_from REPO_SCOPED_HEAD key) (\<lambda>r. map_option fst (decode_digest r))"

definition second_digest_after_repo :: "bytes \<Rightarrow> digest option" where
  "second_digest_after_repo key =
     Option.bind (get_from REPO_SCOPED_HEAD key) (\<lambda>r.
     Option.bind (decode_digest r) (\<lambda>(_, used).
     Option.bind (get_from (REPO_SCOPED_HEAD + used) key) (\<lambda>r2. map_option fst (decode_digest r2))))"

text \<open>\<open>key.get(i..j)\<close>\<close>

definition get_range :: "nat \<Rightarrow> nat \<Rightarrow> bytes \<Rightarrow> bytes option" where
  "get_range i j k = (if i \<le> j \<and> j \<le> length k then Some (take (j - i) (drop i k)) else None)"

definition blob_ref_target :: "bytes \<Rightarrow> (repo_id \<times> digest) option" where
  "blob_ref_target key =
     Option.bind (get_from 1 key) (\<lambda>r.
     Option.bind (decode_digest r) (\<lambda>(_, used).
     let repo_at = 1 + used in
     Option.bind (Option.bind (get_range repo_at (repo_at + 4) key) (try_array 4)) (\<lambda>repo_bytes.
     Option.bind (get_from (repo_at + 4) key) (\<lambda>r2.
     Option.bind (decode_digest r2) (\<lambda>(m, _). Some (from_be_bytes repo_bytes, m))))))"

section \<open>Facts\<close>

definition tag_char :: "char \<Rightarrow> bool" where
  "tag_char c \<longleftrightarrow> is_ascii_alphanumeric c \<or> c \<in> {CHR ''.'', CHR ''_'', CHR ''-''}"

lemma tag_char_ascii: "tag_char c \<Longrightarrow> char_byte c < 0x80 \<and> c \<noteq> CHR 0x00 \<and> c \<noteq> CHR '':'' \<and> c \<noteq> CHR ''/''"
  by (auto simp: tag_char_def is_ascii_alphanumeric_def Let_def word_less_nat_alt unat_char_byte)

lemma char_count_ascii: "is_ascii s \<Longrightarrow> char_count s = length s"
proof -
  assume "is_ascii s"
  then have "filter (\<lambda>c. \<not> is_cont (char_byte c)) s = s"
    by (auto simp: filter_id_conv is_ascii_def is_cont_def linorder_not_le)
  then show ?thesis by (simp add: char_count_def)
qed

text \<open>The grammar, read off as a predicate: what the parser accepts and nothing else.\<close>

definition valid_tag :: "string \<Rightarrow> bool" where
  "valid_tag t \<longleftrightarrow> t \<noteq> [] \<and> length t \<le> 128 \<and> (\<forall>c \<in> set t. tag_char c)
     \<and> (is_ascii_alphanumeric (hd t) \<or> hd t = CHR ''_'')"

lemma valid_tag_ascii: "valid_tag t \<Longrightarrow> is_ascii t"
  by (auto simp: valid_tag_def is_ascii_def dest: tag_char_ascii)

lemma validate_tag_iff: "validate_tag t = Inr () \<longleftrightarrow> valid_tag t"
proof (cases t)
  case (Cons a r)
  have hd: "is_ascii_alphanumeric a \<or> a = CHR ''_'' \<Longrightarrow> tag_char a" by (auto simp: tag_char_def)
  have "is_ascii t" if "\<forall>c \<in> set t. tag_char c"
    using that tag_char_ascii by (auto simp: is_ascii_def)
  with Cons hd show ?thesis
    using char_count_ascii [of t]
    by (auto simp: validate_tag_def valid_tag_def MAX_TAG_LEN_def tag_char_def not_less split: if_splits)
qed (simp add: validate_tag_def valid_tag_def)

lemma valid_tag_facts:
  assumes "valid_tag t"
  shows "is_str t" "nul_free t" "CHR '':'' \<notin> set t" "t \<noteq> []"
proof -
  show "is_str t" by (rule is_ascii_str) (rule valid_tag_ascii [OF assms])
  show "nul_free t" "CHR '':'' \<notin> set t" "t \<noteq> []"
    using assms tag_char_ascii by (auto simp: valid_tag_def nul_free_def)
qed

lemma from_str_no_panic: "is_ascii s \<Longrightarrow> from_str s \<noteq> Panics"
proof -
  assume a: "is_ascii s"
  have "unhex n hex \<noteq> Panics" if "split_once CHR '':'' s = Some (b, hex)" for b n hex
    using that a unhex_loop_no_panic [of hex 0 n]
    by (auto simp: unhex_def split_once_Some is_ascii_def)
  then show ?thesis
    by (auto simp: from_str_def map_call_def split: option.splits call.splits prod.splits)
qed

lemma rsplit_once_Some: "rsplit_once c s = Some (a, b) \<Longrightarrow> s = a @ c # b \<and> c \<notin> set b"
  by (auto simp: rsplit_once_def split_once_Some split: option.splits)
    (metis append.assoc append_Cons append_Nil rev_append rev_rev_ident rev.simps(2))

lemma subject_no_panic:
  assumes "is_ascii t"
  obtains d where "subject_of_artifact_tag t = Returns d"
proof -
  have "from_str (a @ '':'' @ e) \<noteq> Panics"
    if "rsplit_once CHR ''.'' t = Some (h, x)" "split_once CHR ''-'' h = Some (a, e)" for h x a e
  proof (rule from_str_no_panic)
    have "t = a @ CHR ''-'' # e @ CHR ''.'' # x"
      using that rsplit_once_Some by (fastforce simp: split_once_Some)
    with assms show "is_ascii (a @ '':'' @ e)"
      by (auto simp: is_ascii_def char_byte_def)
  qed
  then have "\<exists>d. subject_of_artifact_tag t = Returns d"
    by (auto simp: subject_of_artifact_tag_def split: option.split prod.split call.split sum.split)
  with that show ?thesis by blast
qed

lemma digest_after_repo_key [simp]:
  "digest_after_repo (p # to_be_bytes (r :: u32) @ enc d @ x) = Some d"
  "digest_after_repo (p # to_be_bytes r @ enc d) = Some d"
  using get_from_append [of 5 "p # to_be_bytes r" "enc d @ x"] get_from_append [of 5 "p # to_be_bytes r" "enc d"]
  by (simp_all add: digest_after_repo_def REPO_SCOPED_HEAD_def)

lemma second_digest_after_repo_key [simp]:
  "second_digest_after_repo (p # to_be_bytes (r :: u32) @ enc d @ enc e) = Some e"
  using get_from_append [of 5 "p # to_be_bytes r" "enc d @ enc e"]
    get_from_append [of "5 + encoded_len d" "p # to_be_bytes r @ enc d" "enc e"]
  by (simp add: second_digest_after_repo_def REPO_SCOPED_HEAD_def)

lemma get_range_append:
  "i = length p \<Longrightarrow> j = length p + length q \<Longrightarrow> get_range i j (p @ q @ r) = Some q"
  by (simp add: get_range_def)

lemma blob_ref_target_key [simp]: "blob_ref_target (0x52 # enc d @ to_be_bytes r @ enc m) = Some (r, m)"
proof -
  let ?k = "0x52 # enc d @ to_be_bytes r @ enc m"
  have "get_range (Suc (encoded_len d)) (Suc (encoded_len d) + 4) ?k = Some (to_be_bytes r)"
    using get_range_append [of "Suc (encoded_len d)" "0x52 # enc d" "Suc (encoded_len d) + 4" "to_be_bytes r" "enc m"]
    by simp
  moreover have "get_from (Suc (encoded_len d) + 4) ?k = Some (enc m)"
    using get_from_append [of "Suc (encoded_len d) + 4" "0x52 # enc d @ to_be_bytes r" "enc m"] by simp
  ultimately show ?thesis
    by (simp add: blob_ref_target_def try_array_def)
qed

lemma colon_in_to_string: "CHR '':'' \<in> set (to_string d)"
  by (simp add: to_string_def)

lemma dash_free_algorithm: "CHR ''-'' \<notin> set (algorithm d)"
  by (cases d) auto

section \<open>Properties\<close>

text \<open>
  \<open>validate_tag\<close> accepts exactly the grammar: one to 128 characters, letters, digits and the
  characters \<open>. _ -\<close>, the first one a letter, a digit or an underscore. What it accepts
  has no NUL, which is what keeps history and counter keys of different tags apart, and is no
  text of a digest.
\<close>

theorem tag_grammar:
  "(validate_tag t = Inr () \<longleftrightarrow> t \<noteq> [] \<and> length t \<le> 128 \<and> set t \<subseteq> Collect tag_char \<and> hd t \<notin> {CHR ''.'', CHR ''-''})
   \<and> (validate_tag t = Inr () \<longrightarrow> nul_free t \<and> is_str t \<and> CHR '':'' \<notin> set t)"
proof -
  have "is_ascii_alphanumeric c \<or> c = CHR ''_'' \<longleftrightarrow> tag_char c \<and> c \<notin> {CHR ''.'', CHR ''-''}" for c
    by (auto simp: tag_char_def is_ascii_alphanumeric_def Let_def)
  then have "valid_tag t \<longleftrightarrow> t \<noteq> [] \<and> length t \<le> 128 \<and> set t \<subseteq> Collect tag_char \<and> hd t \<notin> {CHR ''.'', CHR ''-''}"
    by (cases t) (auto simp: valid_tag_def)
  then show ?thesis
    unfolding validate_tag_iff using valid_tag_facts by blast
qed

theorem tag_grammar_witness: "validate_tag ''v1.0'' = Inr () \<and> nul_free ''v1.0''"
proof -
  have "validate_tag ''v1.0'' = Inr ()"
    by (simp add: validate_tag_def is_ascii_alphanumeric_def MAX_TAG_LEN_def char_count_def)
  then show ?thesis using tag_grammar [of "''v1.0''"] by simp
qed

text \<open>
  A reference prints and parses back: a digest always, a tag when it is in the grammar. Text with a
  colon is only ever a digest or an error, never a tag.
\<close>

theorem reference_roundtrip:
  "parse_reference (show_reference (DigestRef d)) = Returns (Inr (DigestRef d))
   \<and> (validate_tag t = Inr () \<longrightarrow> parse_reference (show_reference (Tag t)) = Returns (Inr (Tag t)))
   \<and> (CHR '':'' \<in> set u \<longrightarrow> parse_reference u \<noteq> Returns (Inr (Tag v)))"
proof -
  have "validate_tag t = Inr () \<Longrightarrow> CHR '':'' \<notin> set t"
    using valid_tag_facts by (simp add: validate_tag_iff)
  then show ?thesis
    by (auto simp: parse_reference_def colon_in_to_string from_str_to_string split: call.splits sum.splits)
qed

theorem reference_roundtrip_witness:
  "validate_tag ''v1'' = Inr () \<and> parse_reference ''v1'' = Returns (Inr (Tag ''v1''))"
proof -
  have "validate_tag ''v1'' = Inr ()"
    by (simp add: validate_tag_def is_ascii_alphanumeric_def MAX_TAG_LEN_def char_count_def)
  then show ?thesis using reference_roundtrip [where t = "''v1''"] by simp
qed

text \<open>
  The tag cosign derives from a digest, \<open>algorithm-hex.suffix\<close>, is recognised for every digest and
  each of the three suffixes, and gives the digest back.
\<close>

theorem artifact_tag_subject:
  assumes "ext \<in> {''sig'', ''sbom'', ''att''}"
  shows "subject_of_artifact_tag
      (algorithm d @ ''-'' @ drop (length (algorithm d) + 1) (to_string d) @ ''.'' @ ext) = Returns (Some d)"
proof -
  let ?hex = "concat (map hex_byte (raw_of d))"
  have hex: "drop (length (algorithm d) + 1) (to_string d) = ?hex"
    by (simp add: to_string_def)
  have "CHR ''.'' \<notin> set ext" using assms by auto
  then have "rsplit_once CHR ''.'' ((algorithm d @ ''-'' @ ?hex) @ CHR ''.'' # ext)
      = Some (algorithm d @ ''-'' @ ?hex, ext)" by (rule rsplit_once_append)
  moreover have "split_once CHR ''-'' (algorithm d @ CHR ''-'' # ?hex) = Some (algorithm d, ?hex)"
    by (rule split_once_append) (rule dash_free_algorithm)
  moreover have "from_str (algorithm d @ CHR '':'' # ?hex) = Returns (Inr d)"
    using from_str_to_string [of d] by (simp add: to_string_def)
  moreover have "algorithm d @ ''-'' @ ?hex @ ''.'' @ ext = (algorithm d @ ''-'' @ ?hex) @ CHR ''.'' # ext"
    by simp
  moreover have "ext \<in> set ARTIFACT_SUFFIXES" using assms by (auto simp: ARTIFACT_SUFFIXES_def)
  ultimately show ?thesis
    unfolding hex by (simp only: subject_of_artifact_tag_def) simp
qed

theorem artifact_tag_subject_witness:
  "''sig'' \<in> {''sig'', ''sbom'', ''att''} \<and> subject_of_artifact_tag
      (algorithm (Sha256 (arr32 [])) @ ''-'' @ drop 7 (to_string (Sha256 (arr32 []))) @ ''.sig'')
    = Returns (Some (Sha256 (arr32 [])))"
  using artifact_tag_subject [of "''sig''" "Sha256 (arr32 [])"] by (simp add: eval_nat_numeral)

end
