(* ===== verification/Summ_Text.thy ===== *)
theory Summ_Text
  imports Summ_Reference
begin

text \<open>
  What the HTTP layer uses of Rust's standard library on text: ASCII classes, trimming, splitting, decimal numbers and lossy UTF-8.
\<close>

section \<open>ASCII classes\<close>

definition is_ascii_digit :: "char \<Rightarrow> bool" where
  "is_ascii_digit c \<longleftrightarrow> (let n = (of_char c :: nat) in 48 \<le> n \<and> n \<le> 57)"

definition is_ascii_lowercase :: "char \<Rightarrow> bool" where
  "is_ascii_lowercase c \<longleftrightarrow> (let n = (of_char c :: nat) in 97 \<le> n \<and> n \<le> 122)"

definition is_ascii_uppercase :: "char \<Rightarrow> bool" where
  "is_ascii_uppercase c \<longleftrightarrow> (let n = (of_char c :: nat) in 65 \<le> n \<and> n \<le> 90)"

definition is_ascii_alphabetic :: "char \<Rightarrow> bool" where
  "is_ascii_alphabetic c \<longleftrightarrow> is_ascii_lowercase c \<or> is_ascii_uppercase c"

section \<open>Trimming and splitting\<close>

text \<open>The characters with the property \<open>White_Space\<close>, in UTF-8.\<close>

definition WHITE_SPACE :: "string list" where
  "WHITE_SPACE =
     [[CHR 0x09], [CHR 0x0A], [CHR 0x0B], [CHR 0x0C], [CHR 0x0D], [CHR 0x20],
      [CHR 0xC2, CHR 0x85], [CHR 0xC2, CHR 0xA0], [CHR 0xE1, CHR 0x9A, CHR 0x80],
      [CHR 0xE2, CHR 0x80, CHR 0x80], [CHR 0xE2, CHR 0x80, CHR 0x81], [CHR 0xE2, CHR 0x80, CHR 0x82],
      [CHR 0xE2, CHR 0x80, CHR 0x83], [CHR 0xE2, CHR 0x80, CHR 0x84], [CHR 0xE2, CHR 0x80, CHR 0x85],
      [CHR 0xE2, CHR 0x80, CHR 0x86], [CHR 0xE2, CHR 0x80, CHR 0x87], [CHR 0xE2, CHR 0x80, CHR 0x88],
      [CHR 0xE2, CHR 0x80, CHR 0x89], [CHR 0xE2, CHR 0x80, CHR 0x8A], [CHR 0xE2, CHR 0x80, CHR 0xA8],
      [CHR 0xE2, CHR 0x80, CHR 0xA9], [CHR 0xE2, CHR 0x80, CHR 0xAF], [CHR 0xE2, CHR 0x81, CHR 0x9F],
      [CHR 0xE3, CHR 0x80, CHR 0x80]]"

text \<open>Drop any of the words from the front, as long as one is there.\<close>

function drop_words :: "string list \<Rightarrow> string \<Rightarrow> string" where
  "drop_words ws s =
     (case find (\<lambda>w. w \<noteq> [] \<and> prefix w s) ws of
        None \<Rightarrow> s
      | Some w \<Rightarrow> drop_words ws (drop (length w) s))"
  by pat_completeness auto

termination
proof (relation "measure (\<lambda>(ws, s). length s)")
  fix ws w and s :: string
  assume "find (\<lambda>w. w \<noteq> [] \<and> prefix w s) ws = Some w"
  then have "w \<noteq> [] \<and> prefix w s" by (auto simp: find_Some_iff)
  then show "((ws, drop (length w) s), ws, s) \<in> measure (\<lambda>(ws, s). length s)"
    by (cases s) (auto simp: prefix_def)
qed simp

declare drop_words.simps [simp del]

definition trim_start :: "string \<Rightarrow> string" where
  "trim_start s = drop_words WHITE_SPACE s"

definition trim_end :: "string \<Rightarrow> string" where
  "trim_end s = rev (drop_words (map rev WHITE_SPACE) (rev s))"

definition trim :: "string \<Rightarrow> string" where
  "trim s = trim_end (trim_start s)"

text \<open>\<open>str::split\<close> at a character.\<close>

fun split_on :: "char \<Rightarrow> string \<Rightarrow> string list" where
  "split_on c [] = [[]]"
| "split_on c (x # xs) =
     (if x = c then [] # split_on c xs
      else (case split_on c xs of [] \<Rightarrow> [[x]] | part # parts \<Rightarrow> (x # part) # parts))"

lemma split_on_not_Nil [simp]: "split_on c s \<noteq> []"
  by (cases s) (auto split: list.split)

lemma split_on_plain [simp]: "c \<notin> set s \<Longrightarrow> split_on c s = [s]"
  by (induction s) auto

lemma split_on_append: "c \<notin> set a \<Longrightarrow> split_on c (a @ c # b) = a # split_on c b"
  by (induction a) auto

text \<open>Text that starts and ends with a character that is not white space is left alone.\<close>

lemma drop_words_plain:
  assumes "\<And>w. w \<in> set ws \<Longrightarrow> w \<noteq> [] \<Longrightarrow> \<not> prefix w s"
  shows "drop_words ws s = s"
proof -
  have "find (\<lambda>w. w \<noteq> [] \<and> prefix w s) ws = None"
    using assms by (auto simp: find_None_iff)
  then show ?thesis by (simp add: drop_words.simps)
qed

definition is_graphic :: "char \<Rightarrow> bool" where
  "is_graphic c \<longleftrightarrow> (let n = (of_char c :: nat) in 33 \<le> n \<and> n \<le> 126)"

lemma trim_plain:
  assumes "s \<noteq> [] \<Longrightarrow> is_graphic (hd s) \<and> is_graphic (last s)"
  shows "trim s = s"
proof (cases s)
  case Nil
  have "drop_words ws [] = []" for ws :: "string list"
    by (rule drop_words_plain) simp
  with Nil show ?thesis by (simp add: trim_def trim_start_def trim_end_def)
next
  case (Cons c t)
  then have g: "is_graphic c" "is_graphic (last s)" using assms by auto
  have *: "\<forall>w \<in> set WHITE_SPACE. w \<noteq> [] \<and> \<not> is_graphic (hd w) \<and> \<not> is_graphic (last w)"
    by (simp add: WHITE_SPACE_def is_graphic_def)
  have "\<not> prefix w s" if "w \<in> set WHITE_SPACE" for w
    using * that g(1) Cons by (cases w) auto
  then have "drop_words WHITE_SPACE s = s" by (intro drop_words_plain) blast
  moreover have "drop_words (map rev WHITE_SPACE) (rev s) = rev s"
  proof (rule drop_words_plain)
    fix w assume "w \<in> set (map rev WHITE_SPACE)"
    then obtain v where v: "v \<in> set WHITE_SPACE" "w = rev v" by auto
    show "\<not> prefix w (rev s)"
    proof
      assume "prefix w (rev s)"
      moreover have "hd w = last v" "w \<noteq> []" using v * by (auto simp: hd_rev)
      moreover have "hd (rev s) = last s" by (simp add: hd_rev)
      ultimately have "last v = last s" by (metis hd_append2 prefix_def)
      with * v(1) g(2) show False by auto
    qed
  qed
  ultimately show ?thesis by (simp add: trim_def trim_start_def trim_end_def)
qed

section \<open>Decimal numbers\<close>

fun show_nat :: "nat \<Rightarrow> string" where
  "show_nat n = (if n < 10 then [char_of (48 + n)] else show_nat (n div 10) @ [char_of (48 + n mod 10)])"

declare show_nat.simps [simp del]

definition digit_value :: "char \<Rightarrow> nat" where
  "digit_value c = of_char c - 48"

definition decimal :: "string \<Rightarrow> nat" where
  "decimal s = foldl (\<lambda>v c. v * 10 + digit_value c) 0 s"

text \<open>\<open>str::parse::<u64>\<close>: an optional plus sign, then digits, and the value fits.\<close>

definition parse_u64 :: "string \<Rightarrow> u64 option" where
  "parse_u64 s =
     (let t = (case s of c # r \<Rightarrow> if c = CHR ''+'' then r else s | [] \<Rightarrow> s) in
      if t = [] \<or> (\<exists>c \<in> set t. \<not> is_ascii_digit c) then None
      else if decimal t < 2 ^ 64 then Some (word_of_nat (decimal t)) else None)"

lemma of_char_digit: "n < 10 \<Longrightarrow> of_char (char_of (48 + n) :: char) = (48 + n :: nat)"
  by simp

lemma show_nat_digits: "c \<in> set (show_nat n) \<Longrightarrow> is_ascii_digit c"
proof (induction n rule: show_nat.induct)
  case (1 n)
  then show ?case
    by (subst (asm) (2) show_nat.simps) (auto simp: is_ascii_digit_def split: if_splits)
qed

lemma show_nat_not_Nil [simp]: "show_nat n \<noteq> []"
  by (subst show_nat.simps) simp

lemma decimal_show_nat [simp]: "decimal (show_nat n) = n"
proof (induction n rule: show_nat.induct)
  case (1 n)
  then show ?case
    by (subst show_nat.simps) (auto simp: decimal_def digit_value_def)
qed

lemma parse_u64_show [simp]: "n < 2 ^ 64 \<Longrightarrow> parse_u64 (show_nat n) = Some (word_of_nat n)"
proof -
  assume n: "n < 2 ^ 64"
  have "CHR ''+'' \<notin> set (show_nat n)" using show_nat_digits [of "CHR ''+''" n] by (auto simp: is_ascii_digit_def)
  then have "(case show_nat n of c # r \<Rightarrow> if c = CHR ''+'' then r else show_nat n | [] \<Rightarrow> show_nat n) = show_nat n"
    by (cases "show_nat n") auto
  with n show ?thesis using show_nat_digits by (auto simp: parse_u64_def Let_def)
qed

section \<open>Lossy UTF-8\<close>

text \<open>\<open>String::from_utf8_lossy\<close>: every maximal broken sequence becomes one replacement character.\<close>

definition REPLACEMENT :: bytes where
  "REPLACEMENT = [0xEF, 0xBF, 0xBD]"

definition second_of_3 :: "byte \<Rightarrow> byte \<Rightarrow> bool" where
  "second_of_3 a b \<longleftrightarrow> is_cont b \<and> (a = 0xE0 \<longrightarrow> 0xA0 \<le> b) \<and> (a = 0xED \<longrightarrow> b \<le> 0x9F)"

definition second_of_4 :: "byte \<Rightarrow> byte \<Rightarrow> bool" where
  "second_of_4 a b \<longleftrightarrow> is_cont b \<and> (a = 0xF0 \<longrightarrow> 0x90 \<le> b) \<and> (a = 0xF4 \<longrightarrow> b \<le> 0x8F)"

fun utf8_lossy :: "bytes \<Rightarrow> bytes" where
  "utf8_lossy [] = []"
| "utf8_lossy (a # r) =
     (if a < 0x80 then a # utf8_lossy r
      else if 0xC2 \<le> a \<and> a \<le> 0xDF then
        (case r of
           b # r1 \<Rightarrow> if is_cont b then a # b # utf8_lossy r1 else REPLACEMENT @ utf8_lossy r
         | [] \<Rightarrow> REPLACEMENT)
      else if 0xE0 \<le> a \<and> a \<le> 0xEF then
        (case r of
           b # r1 \<Rightarrow>
             if second_of_3 a b then
               (case r1 of
                  c # r2 \<Rightarrow> if is_cont c then a # b # c # utf8_lossy r2 else REPLACEMENT @ utf8_lossy r1
                | [] \<Rightarrow> REPLACEMENT)
             else REPLACEMENT @ utf8_lossy r
         | [] \<Rightarrow> REPLACEMENT)
      else if 0xF0 \<le> a \<and> a \<le> 0xF4 then
        (case r of
           b # r1 \<Rightarrow>
             if second_of_4 a b then
               (case r1 of
                  c # r2 \<Rightarrow>
                    if is_cont c then
                      (case r2 of
                         d # r3 \<Rightarrow> if is_cont d then a # b # c # d # utf8_lossy r3 else REPLACEMENT @ utf8_lossy r2
                       | [] \<Rightarrow> REPLACEMENT)
                    else REPLACEMENT @ utf8_lossy r1
                | [] \<Rightarrow> REPLACEMENT)
             else REPLACEMENT @ utf8_lossy r
         | [] \<Rightarrow> REPLACEMENT)
      else REPLACEMENT @ utf8_lossy r)"

lemma utf8_lossy_valid: "utf8_valid bs \<Longrightarrow> utf8_lossy bs = bs"
proof (induction bs rule: utf8_valid.induct)
  case (2 a r)
  consider (one) "a < 0x80" | (two) "\<not> a < 0x80" "0xC2 \<le> a \<and> a \<le> 0xDF"
    | (three) "\<not> a < 0x80" "\<not> (0xC2 \<le> a \<and> a \<le> 0xDF)" "0xE0 \<le> a \<and> a \<le> 0xEF"
    | (four) "\<not> a < 0x80" "\<not> (0xC2 \<le> a \<and> a \<le> 0xDF)" "\<not> (0xE0 \<le> a \<and> a \<le> 0xEF)" "0xF0 \<le> a \<and> a \<le> 0xF4"
    | (none) "\<not> a < 0x80" "\<not> (0xC2 \<le> a \<and> a \<le> 0xDF)" "\<not> (0xE0 \<le> a \<and> a \<le> 0xEF)" "\<not> (0xF0 \<le> a \<and> a \<le> 0xF4)"
    by blast
  then show ?case
  proof cases
    case one
    with 2 show ?thesis unfolding utf8_lossy.simps utf8_valid.simps by (simp only: if_True simp_thms)
  next
    case two
    from 2(5) two obtain b r1 where r: "r = b # r1" "is_cont b" "utf8_valid r1"
      unfolding utf8_valid.simps by (cases r; simp only: if_False if_True list.case simp_thms; blast)
    from 2(2) [OF two r(1,3)] two r(2) show ?thesis
      unfolding utf8_lossy.simps r(1) by (simp only: if_False if_True list.case simp_thms)
  next
    case three
    from 2(5) three obtain b c r1 where r: "r = b # c # r1" "second_of_3 a b" "is_cont c" "utf8_valid r1"
      unfolding utf8_valid.simps second_of_3_def
      by (cases r; cases "tl r"; simp only: if_False if_True list.case list.sel simp_thms; blast)
    from 2(3) [OF three r(1) refl r(4)] three r(2,3) show ?thesis
      unfolding utf8_lossy.simps r(1) by (simp only: if_False if_True list.case simp_thms)
  next
    case four
    from 2(5) four obtain b c d r1 where r: "r = b # c # d # r1" "second_of_4 a b" "is_cont c" "is_cont d" "utf8_valid r1"
      unfolding utf8_valid.simps second_of_4_def
      by (cases r; cases "tl r"; cases "tl (tl r)"; simp only: if_False if_True list.case list.sel simp_thms; blast)
    from 2(4) [OF four r(1) refl refl r(5)] four r(2,3,4) show ?thesis
      unfolding utf8_lossy.simps r(1) by (simp only: if_False if_True list.case simp_thms)
  next
    case none
    with 2(5) show ?thesis unfolding utf8_valid.simps by (simp only: if_False)
  qed
qed simp

definition from_utf8_lossy :: "bytes \<Rightarrow> string" where
  "from_utf8_lossy bs = map byte_char (utf8_lossy bs)"

lemma from_utf8_lossy_str [simp]: "is_str s \<Longrightarrow> from_utf8_lossy (as_bytes s) = s"
  by (simp add: from_utf8_lossy_def is_str_def utf8_lossy_valid map_byte_char_as_bytes)

end
