(* ===== verification/Summ_Query.thy ===== *)
theory Summ_Query
  imports Summ_Text
begin

text \<open>
  Query strings and percent-encoding (\<open>summ-server/src/query.rs\<close>).

  A query string is split into pairs as in the source; the encoding is written over the bytes of the text, and the decoder
  puts them back together as lossy UTF-8.
\<close>

section \<open>Decoding\<close>

definition query_hex_digit :: "byte \<Rightarrow> byte option" where
  "query_hex_digit c =
     (if 0x30 \<le> c \<and> c \<le> 0x39 then Some (c - 0x30)
      else if 0x61 \<le> c \<and> c \<le> 0x66 then Some (c - 0x61 + 10)
      else if 0x41 \<le> c \<and> c \<le> 0x46 then Some (c - 0x41 + 10)
      else None)"

definition hex_pair :: "byte \<Rightarrow> byte \<Rightarrow> byte option" where
  "hex_pair hi lo =
     Option.bind (query_hex_digit hi) (\<lambda>h. Option.bind (query_hex_digit lo) (\<lambda>l. Some (or (push_bit 4 h) l)))"

text \<open>The loop over the bytes: an escape needs two more bytes after the percent sign.\<close>

fun percent_bytes :: "bool \<Rightarrow> bytes \<Rightarrow> bytes" where
  "percent_bytes plus_is_space [] = []"
| "percent_bytes plus_is_space (c # r) =
     (if c = 0x25 \<and> 2 \<le> length r then
        (case hex_pair (r ! 0) (r ! 1) of
           Some b \<Rightarrow> b # percent_bytes plus_is_space (drop 2 r)
         | None \<Rightarrow> 0x25 # percent_bytes plus_is_space r)
      else if c = 0x2B \<and> plus_is_space then 0x20 # percent_bytes plus_is_space r
      else c # percent_bytes plus_is_space r)"

definition percent_decode :: "string \<Rightarrow> bool \<Rightarrow> string" where
  "percent_decode s plus_is_space =
     (if \<not> (CHR ''%'' \<in> set s \<or> (plus_is_space \<and> CHR ''+'' \<in> set s)) then s
      else from_utf8_lossy (percent_bytes plus_is_space (as_bytes s)))"

definition form_decode :: "string \<Rightarrow> string" where
  "form_decode s = percent_decode s True"

definition path_decode :: "string \<Rightarrow> string" where
  "path_decode s = percent_decode s False"

section \<open>Pairs\<close>

definition pair_of :: "string \<Rightarrow> string \<times> string" where
  "pair_of part =
     (case split_once CHR ''='' part of
        Some (k, v) \<Rightarrow> (form_decode k, form_decode v)
      | None \<Rightarrow> (form_decode part, []))"

definition pairs :: "string \<Rightarrow> (string \<times> string) list" where
  "pairs query = map pair_of (filter (\<lambda>s. s \<noteq> []) (split_on CHR ''&'' query))"

definition first :: "(string \<times> string) list \<Rightarrow> string \<Rightarrow> string option" where
  "first ps key = map_option snd (find (\<lambda>(k, _). k = key) ps)"

definition all_values :: "(string \<times> string) list \<Rightarrow> string \<Rightarrow> string list" where
  "all_values ps key = map snd (filter (\<lambda>(k, _). k = key) ps)"

section \<open>Escaping\<close>

definition upper_hex_digit :: "nat \<Rightarrow> char" where
  "upper_hex_digit n = (if n < 10 then char_of (48 + n) else char_of (55 + n))"

definition unreserved :: "byte \<Rightarrow> bool" where
  "unreserved b \<longleftrightarrow>
     (0x41 \<le> b \<and> b \<le> 0x5A) \<or> (0x61 \<le> b \<and> b \<le> 0x7A) \<or> (0x30 \<le> b \<and> b \<le> 0x39)
     \<or> b = 0x2D \<or> b = 0x5F \<or> b = 0x2E \<or> b = 0x7E"

definition escape_byte :: "byte \<Rightarrow> string" where
  "escape_byte b =
     (if unreserved b then [byte_char b]
      else if b = 0x20 then [CHR ''+'']
      else [CHR ''%'', upper_hex_digit (unat b div 16), upper_hex_digit (unat b mod 16)])"

definition query_escape :: "string \<Rightarrow> string" where
  "query_escape s = concat (map escape_byte (as_bytes s))"

section \<open>Escaping and decoding\<close>

lemma query_hex_digit_upper:
  "n < 16 \<Longrightarrow> query_hex_digit (char_byte (upper_hex_digit n)) = Some (word_of_nat n)"
  by (drule lt16_cases)
    (elim insertE emptyE; simp add: query_hex_digit_def upper_hex_digit_def char_byte_def)

lemma hex_pair_escape:
  "hex_pair (char_byte (upper_hex_digit (unat b div 16))) (char_byte (upper_hex_digit (unat b mod 16))) = Some b"
  by (simp add: hex_pair_def query_hex_digit_upper unat_byte_digits join_nibbles)

lemma percent_bytes_escape:
  "percent_bytes True (as_bytes (escape_byte b) @ r) = b # percent_bytes True r"
proof -
  consider (plain) "unreserved b" | (space) "\<not> unreserved b" "b = 0x20" | (escaped) "\<not> unreserved b" "b \<noteq> 0x20"
    by blast
  then show ?thesis
  proof cases
    case plain
    then have "b \<noteq> 0x25" "b \<noteq> 0x2B" by (auto simp: unreserved_def)
    with plain show ?thesis by (simp add: escape_byte_def)
  next
    case space
    then show ?thesis by (simp add: escape_byte_def char_byte_def)
  next
    case escaped
    have "char_byte CHR ''%'' = 0x25" by (simp add: char_byte_def)
    with escaped show ?thesis by (simp add: escape_byte_def hex_pair_escape)
  qed
qed

lemma percent_bytes_query_escape:
  "percent_bytes True (as_bytes (query_escape s) @ r) = as_bytes s @ percent_bytes True r"
  by (induction s) (simp_all add: query_escape_def percent_bytes_escape)

definition query_safe :: "char \<Rightarrow> bool" where
  "query_safe c \<longleftrightarrow> unreserved (char_byte c) \<or> c = CHR ''+'' \<or> c = CHR ''%''"

lemma upper_hex_safe: "n < 16 \<Longrightarrow> query_safe (upper_hex_digit n)"
  by (drule lt16_cases)
    (elim insertE emptyE; simp add: query_safe_def unreserved_def upper_hex_digit_def char_byte_def)

lemma escape_byte_safe: "c \<in> set (escape_byte b) \<Longrightarrow> query_safe c"
  using upper_hex_safe [OF unat_byte_digits(1), of b] upper_hex_safe [OF unat_byte_digits(2), of b]
  by (auto simp: escape_byte_def query_safe_def split: if_splits)

lemma query_escape_safe: "c \<in> set (query_escape s) \<Longrightarrow> query_safe c"
  by (auto simp: query_escape_def escape_byte_safe)

lemma form_decode_query_escape [simp]:
  assumes "is_str s"
  shows "form_decode (query_escape s) = s"
proof (cases "CHR ''%'' \<in> set (query_escape s) \<or> CHR ''+'' \<in> set (query_escape s)")
  case True
  have "percent_bytes True (as_bytes (query_escape s)) = as_bytes s"
    using percent_bytes_query_escape [of s "[]"] by simp
  with True assms show ?thesis by (auto simp: form_decode_def percent_decode_def)
next
  case False
  then have "query_escape s = s"
    by (induction s) (auto simp: query_escape_def escape_byte_def split: if_splits)
  with False show ?thesis by (simp add: form_decode_def percent_decode_def)
qed

end
