(* ===== verification/Summ_Range.thy ===== *)
theory Summ_Range
  imports Summ_Query
begin

text \<open>
  The two range grammars (\<open>summ-server/src/range.rs\<close>): the \<open>Range\<close> of a download and the bare
  \<open>Content-Range\<close> of an upload in chunks.

  Positions are 64-bit words. \<open>size\<close> adds one to the distance of the ends, and wraps for the one range that covers all of
  \<open>u64\<close>.
\<close>

section \<open>Downloads\<close>

record byte_range =
  range_start :: u64
  range_end :: u64

definition range_size :: "byte_range \<Rightarrow> u64" where
  "range_size r = range_end r - range_start r + 1"

datatype range_outcome = Whole | Partial byte_range | Unsatisfiable

text \<open>The decision once the header is split: \<open>-N\<close>, \<open>N-\<close> and \<open>A-B\<close>.\<close>

definition resolve_range :: "string \<Rightarrow> string \<Rightarrow> u64 \<Rightarrow> range_outcome" where
  "resolve_range from to len =
     (if len = 0 then Unsatisfiable
      else if from = [] \<and> to \<noteq> [] then
        (case parse_u64 to of
           Some n \<Rightarrow>
             if n = 0 then Unsatisfiable
             else Partial \<lparr>range_start = (if n \<le> len then len - n else 0), range_end = len - 1\<rparr>
         | None \<Rightarrow> Whole)
      else if from \<noteq> [] \<and> to = [] then
        (case parse_u64 from of
           Some a \<Rightarrow> if len \<le> a then Unsatisfiable else Partial \<lparr>range_start = a, range_end = len - 1\<rparr>
         | None \<Rightarrow> Whole)
      else if from \<noteq> [] \<and> to \<noteq> [] then
        (case (parse_u64 from, parse_u64 to) of
           (Some a, Some b) \<Rightarrow>
             if len \<le> a \<or> b < a then Unsatisfiable
             else Partial \<lparr>range_start = a, range_end = min b (len - 1)\<rparr>
         | _ \<Rightarrow> Whole)
      else Whole)"

definition parse_range :: "string \<Rightarrow> u64 \<Rightarrow> range_outcome" where
  "parse_range header len =
     (case strip_prefix (trim header) ''bytes='' of
        None \<Rightarrow> Whole
      | Some rest \<Rightarrow>
          let spec = trim rest in
          if CHR '','' \<in> set spec then Whole
          else (case split_once CHR ''-'' spec of
                  None \<Rightarrow> Whole
                | Some (from, to) \<Rightarrow> resolve_range (trim from) (trim to) len))"

section \<open>Uploads\<close>

datatype chunk_range_error = MalformedRange string | Inverted

definition parse_chunk_range :: "string \<Rightarrow> chunk_range_error + byte_range" where
  "parse_chunk_range value =
     (let t = trim value in
      if t = [] then Inl (MalformedRange value)
      else if CHR ''/'' \<in> set t \<or> (\<exists>c \<in> set t. is_ascii_alphabetic c) then
        Inl (MalformedRange (''chunked upload Content-Range is `<start>-<end>`, not RFC 9110 form: '' @ t))
      else (case split_once CHR ''-'' t of
              None \<Rightarrow> Inl (MalformedRange t)
            | Some (from, to) \<Rightarrow>
                if from = [] \<or> to = [] \<or> \<not> (\<forall>c \<in> set from. is_ascii_digit c) \<or> \<not> (\<forall>c \<in> set to. is_ascii_digit c)
                then Inl (MalformedRange t)
                else (case (parse_u64 from, parse_u64 to) of
                        (Some a, Some b) \<Rightarrow>
                          if b < a then Inl Inverted else Inr \<lparr>range_start = a, range_end = b\<rparr>
                      | _ \<Rightarrow> Inl (MalformedRange t))))"

definition upload_range_header :: "u64 \<Rightarrow> string" where
  "upload_range_header offset = ''0-'' @ show_nat (unat (if offset = 0 then 0 else offset - 1))"

section \<open>Numbers in ranges\<close>

text \<open>A run of digits is a number when it fits; nothing else reads it.\<close>

definition digits :: "string \<Rightarrow> bool" where
  "digits s \<longleftrightarrow> s \<noteq> [] \<and> (\<forall>c \<in> set s. is_ascii_digit c)"

lemma digits_show_nat [simp]: "digits (show_nat n)"
  by (auto simp: digits_def show_nat_digits)

lemma parse_u64_digits:
  assumes "digits s"
  shows "parse_u64 s = (if decimal s < 2 ^ 64 then Some (word_of_nat (decimal s)) else None)"
proof -
  have "CHR ''+'' \<notin> set s" using assms by (auto simp: digits_def is_ascii_digit_def)
  then have "(case s of c # r \<Rightarrow> if c = CHR ''+'' then r else s | [] \<Rightarrow> s) = s" by (cases s) auto
  with assms show ?thesis by (auto simp: parse_u64_def Let_def digits_def)
qed

lemma is_graphic_digit: "is_ascii_digit c \<Longrightarrow> is_graphic c"
  by (simp add: is_ascii_digit_def is_graphic_def Let_def)

lemma trim_digits [simp]: "digits s \<Longrightarrow> trim s = s"
  by (rule trim_plain) (simp add: digits_def is_graphic_digit)

lemma trim_Nil [simp]: "trim [] = []"
  by (rule trim_plain) simp

definition range_text :: "string \<Rightarrow> bool" where
  "range_text s \<longleftrightarrow> (\<forall>c \<in> set s. is_ascii_digit c)"

lemma range_text_plain:
  assumes "range_text s"
  shows "CHR ''-'' \<notin> set s" "CHR '','' \<notin> set s" "CHR ''/'' \<notin> set s" "trim s = s"
proof -
  show "CHR ''-'' \<notin> set s" "CHR '','' \<notin> set s" "CHR ''/'' \<notin> set s"
    using assms by (auto simp: range_text_def is_ascii_digit_def)
  show "trim s = s"
    by (rule trim_plain) (use assms in \<open>simp add: range_text_def is_graphic_digit\<close>)
qed

lemma trim_span:
  assumes "range_text a" and "range_text b"
  shows "trim (a @ CHR ''-'' # b) = a @ CHR ''-'' # b"
proof (rule trim_plain)
  have g: "is_graphic CHR ''-''" by (simp add: is_graphic_def)
  have "\<forall>c \<in> set (a @ CHR ''-'' # b). is_graphic c"
    using assms g by (auto simp: range_text_def is_graphic_digit)
  then show "is_graphic (hd (a @ CHR ''-'' # b)) \<and> is_graphic (last (a @ CHR ''-'' # b))"
    by (metis append_is_Nil_conv hd_in_set last_in_set list.distinct(1))
qed

lemma trim_bytes_span:
  assumes "range_text a" and "range_text b"
  shows "trim (''bytes='' @ a @ CHR ''-'' # b) = ''bytes='' @ a @ CHR ''-'' # b"
proof (rule trim_plain)
  have g: "is_graphic CHR ''-''" "\<forall>c \<in> set ''bytes=''. is_graphic c" by (simp_all add: is_graphic_def)
  have "\<forall>c \<in> set (''bytes='' @ a @ CHR ''-'' # b). is_graphic c"
    using assms g by (auto simp: range_text_def is_graphic_digit)
  then show "is_graphic (hd (''bytes='' @ a @ CHR ''-'' # b)) \<and> is_graphic (last (''bytes='' @ a @ CHR ''-'' # b))"
    by (metis append_is_Nil_conv hd_in_set last_in_set list.distinct(1))
qed

lemma parse_range_span:
  assumes "range_text a" and "range_text b"
  shows "parse_range (''bytes='' @ a @ CHR ''-'' # b) len = resolve_range a b len"
proof -
  have "CHR '','' \<notin> set (a @ CHR ''-'' # b)"
    using range_text_plain(2) [OF assms(1)] range_text_plain(2) [OF assms(2)] by simp
  moreover have "split_once CHR ''-'' (a @ CHR ''-'' # b) = Some (a, b)"
    by (rule split_once_append) (rule range_text_plain(1) [OF assms(1)])
  ultimately show ?thesis
    by (simp only: parse_range_def trim_bytes_span [OF assms] strip_prefix_append option.case Let_def
        trim_span [OF assms] if_False prod.case range_text_plain(4) [OF assms(1)] range_text_plain(4) [OF assms(2)])
qed

section \<open>Windows\<close>

lemma unat_minus_1: "len \<noteq> (0 :: u64) \<Longrightarrow> unat (len - 1) = unat len - 1"
  by (simp add: unat_minus_one)

lemma le_minus_1: "len \<noteq> (0 :: u64) \<Longrightarrow> x \<le> len - 1 \<longleftrightarrow> x < len"
  using unat_gt_0 [of len] by (auto simp: word_le_nat_alt word_less_nat_alt unat_minus_1)

lemma resolve_range_window:
  assumes "resolve_range from to len = Partial r"
  shows "range_start r \<le> range_end r \<and> range_end r < len"
proof -
  have len: "len \<noteq> 0" using assms by (auto simp: resolve_range_def)
  have down: "len - n < len" if "n \<noteq> 0" "n \<le> len" for n
    using that len unat_gt_0 [of n] by (simp add: word_less_nat_alt unat_sub word_le_nat_alt)
  have "len - 1 < len" using len le_minus_1 by blast
  with assms len down show ?thesis
    by (auto simp: resolve_range_def not_le not_less min_def le_minus_1 split: if_splits option.splits)
qed

lemma parse_range_window:
  assumes "parse_range header len = Partial r"
  shows "range_start r \<le> range_end r \<and> range_end r < len"
  using assms resolve_range_window
  by (auto simp: parse_range_def Let_def split: option.splits if_splits prod.splits)

lemma unat_range_size:
  assumes "range_start r \<le> range_end r" and "range_end r < len"
  shows "unat (range_size r) = unat (range_end r) - unat (range_start r) + 1"
proof -
  have "unat (range_end r) < unat len" "unat len < 2 ^ 64"
    using assms(2) unsigned_less [of len] by (simp_all add: word_less_nat_alt)
  moreover have "unat (range_end r - range_start r) = unat (range_end r) - unat (range_start r)"
    using assms(1) by (simp add: unat_sub word_le_nat_alt)
  ultimately show ?thesis
    unfolding range_size_def by (subst unat_add_lem [THEN iffD1]) auto
qed

lemma top_word: "len \<noteq> (0 :: u64) \<Longrightarrow> word_of_nat (unat len - 1) = len - 1"
  using unat_minus_1 [of len] by (metis of_nat_unat ucast_id)

lemma word_of_nat_order:
  fixes len :: u64
  assumes "a < 2 ^ 64" and "b < 2 ^ 64"
  shows "(word_of_nat b :: u64) < word_of_nat a \<longleftrightarrow> b < a" "len \<le> word_of_nat a \<longleftrightarrow> unat len \<le> a"
    "word_of_nat b \<le> len \<longleftrightarrow> b \<le> unat len" "word_of_nat b = (0 :: u64) \<longleftrightarrow> b = 0"
  using assms by (auto simp: word_less_nat_alt word_le_nat_alt unat_of_nat unat_eq_0 [symmetric])

lemma range_text_numbers: "range_text (show_nat n)" "range_text []"
  by (auto simp: range_text_def show_nat_digits)

lemma parse_range_between:
  assumes "a < 2 ^ 64" and "b < 2 ^ 64"
  shows "parse_range (''bytes='' @ show_nat a @ ''-'' @ show_nat b) len =
    (if unat len \<le> a \<or> b < a then Unsatisfiable
     else Partial \<lparr>range_start = word_of_nat a, range_end = word_of_nat (min b (unat len - 1))\<rparr>)"
proof -
  note order = word_of_nat_order [OF assms] and a = parse_u64_show [OF assms(1)] and b = parse_u64_show [OF assms(2)]
  have len0: "unat len = 0 \<longleftrightarrow> len = 0" by (simp add: unat_eq_0)
  have "parse_range (''bytes='' @ show_nat a @ ''-'' @ show_nat b) len = resolve_range (show_nat a) (show_nat b) len"
    using parse_range_span [OF range_text_numbers(1) range_text_numbers(1)] by simp
  moreover have "min (word_of_nat b) (len - 1) = (word_of_nat (min b (unat len - 1)) :: u64)" if "len \<noteq> 0"
    using top_word [OF that] assms(2) unsigned_less [of len, where ?'a = nat]
    by (auto simp: min_def word_le_nat_alt unat_minus_1 [OF that] unat_of_nat)
  ultimately show ?thesis using len0 by (auto simp: resolve_range_def a b order)
qed

lemma parse_range_from:
  assumes "a < 2 ^ 64"
  shows "parse_range (''bytes='' @ show_nat a @ ''-'') len =
    (if unat len \<le> a then Unsatisfiable
     else Partial \<lparr>range_start = word_of_nat a, range_end = word_of_nat (unat len - 1)\<rparr>)"
proof -
  have "parse_range (''bytes='' @ show_nat a @ ''-'') len = resolve_range (show_nat a) [] len"
    using parse_range_span [OF range_text_numbers] by simp
  moreover have "unat len = 0 \<longleftrightarrow> len = 0" by (simp add: unat_eq_0)
  ultimately show ?thesis
    using parse_u64_show [OF assms] top_word [of len] word_of_nat_order(2) [OF assms assms] by (auto simp: resolve_range_def)
qed

lemma parse_range_suffix:
  assumes "b < 2 ^ 64"
  shows "parse_range (''bytes=-'' @ show_nat b) len =
    (if len = 0 \<or> b = 0 then Unsatisfiable
     else Partial \<lparr>range_start = word_of_nat (unat len - b), range_end = word_of_nat (unat len - 1)\<rparr>)"
proof -
  note order = word_of_nat_order [OF assms assms] and b = parse_u64_show [OF assms]
  have "parse_range (''bytes=-'' @ show_nat b) len = resolve_range [] (show_nat b) len"
    using parse_range_span [OF range_text_numbers(2) range_text_numbers(1)] by simp
  moreover have "(if word_of_nat b \<le> len then len - word_of_nat b else 0) = (word_of_nat (unat len - b) :: u64)"
    by (simp add: order of_nat_diff)
  ultimately show ?thesis using top_word [of len] by (auto simp: resolve_range_def b order)
qed

text \<open>
  The window of a download lies inside the blob, is never empty, and its size is its length; and a header
  with decimal positions gets exactly the window that it names, cut at the end of the blob, or a refusal.
\<close>

theorem range_resolves:
  assumes "a < 2 ^ 64" and "b < 2 ^ 64"
  shows "(\<forall>header r. parse_range header len = Partial r \<longrightarrow>
            range_start r \<le> range_end r \<and> range_end r < len
            \<and> unat (range_size r) = unat (range_end r) - unat (range_start r) + 1)
    \<and> parse_range (''bytes='' @ show_nat a @ ''-'' @ show_nat b) len =
        (if unat len \<le> a \<or> b < a then Unsatisfiable
         else Partial \<lparr>range_start = word_of_nat a, range_end = word_of_nat (min b (unat len - 1))\<rparr>)
    \<and> parse_range (''bytes='' @ show_nat a @ ''-'') len =
        (if unat len \<le> a then Unsatisfiable
         else Partial \<lparr>range_start = word_of_nat a, range_end = word_of_nat (unat len - 1)\<rparr>)
    \<and> parse_range (''bytes=-'' @ show_nat b) len =
        (if len = 0 \<or> b = 0 then Unsatisfiable
         else Partial \<lparr>range_start = word_of_nat (unat len - b), range_end = word_of_nat (unat len - 1)\<rparr>)"
  using parse_range_between [OF assms] parse_range_from [OF assms(1)] parse_range_suffix [OF assms(2)]
    parse_range_window unat_range_size by blast

theorem range_resolves_witness:
  "parse_range (''bytes='' @ show_nat 2000 @ ''-'' @ show_nat 5000) 2048
     = Partial \<lparr>range_start = 2000, range_end = 2047\<rparr>"
  using range_resolves [of 2000 5000 2048] by simp

section \<open>Chunks\<close>

lemma digit_not_letter: "is_ascii_digit c \<Longrightarrow> \<not> is_ascii_alphabetic c \<and> c \<noteq> CHR ''/''"
  by (auto simp: is_ascii_digit_def is_ascii_alphabetic_def is_ascii_lowercase_def is_ascii_uppercase_def Let_def)

lemma hyphen_not_letter: "\<not> is_ascii_alphabetic CHR ''-''"
  by (simp add: is_ascii_alphabetic_def is_ascii_lowercase_def is_ascii_uppercase_def)

lemma chunk_accepts:
  "parse_chunk_range value = Inr r \<longleftrightarrow>
      (\<exists>a b. trim value = a @ CHR ''-'' # b \<and> digits a \<and> digits b \<and> decimal a \<le> decimal b \<and> decimal b < 2 ^ 64
         \<and> r = \<lparr>range_start = word_of_nat (decimal a), range_end = word_of_nat (decimal b)\<rparr>)" (is "?p = ?q")
proof
  assume ?p
  then obtain a b where s: "split_once CHR ''-'' (trim value) = Some (a, b)" "digits a" "digits b"
    and v: "(case (parse_u64 a, parse_u64 b) of
               (Some a, Some b) \<Rightarrow> if b < a then Inl Inverted else Inr \<lparr>range_start = a, range_end = b\<rparr>
             | _ \<Rightarrow> Inl (MalformedRange (trim value))) = Inr r"
    by (auto simp: parse_chunk_range_def Let_def digits_def split: if_splits option.splits prod.splits)
  from v s(2,3) have "decimal a < 2 ^ 64" "decimal b < 2 ^ 64"
    "\<not> word_of_nat (decimal b) < (word_of_nat (decimal a) :: u64)"
    "r = \<lparr>range_start = word_of_nat (decimal a), range_end = word_of_nat (decimal b)\<rparr>"
    by (auto simp: parse_u64_digits split: if_splits)
  moreover from this have "decimal a \<le> decimal b"
    by (simp add: word_less_nat_alt unat_of_nat)
  ultimately show ?q using s by (auto simp: split_once_Some)
next
  assume ?q
  then obtain a b where s: "trim value = a @ CHR ''-'' # b" "digits a" "digits b"
    and v: "decimal a \<le> decimal b" "decimal b < 2 ^ 64"
      "r = \<lparr>range_start = word_of_nat (decimal a), range_end = word_of_nat (decimal b)\<rparr>" by blast
  have "\<not> is_ascii_alphabetic c \<and> c \<noteq> CHR ''/''" if "c \<in> set (trim value)" for c
    using that s digit_not_letter hyphen_not_letter by (auto simp: digits_def)
  then have plain: "CHR ''/'' \<notin> set (trim value)" "\<not> (\<exists>c \<in> set (trim value). is_ascii_alphabetic c)" "trim value \<noteq> []"
    using s(1) by auto
  have "CHR ''-'' \<notin> set a" using s(2) range_text_plain(1) by (auto simp: digits_def range_text_def)
  then have split: "split_once CHR ''-'' (trim value) = Some (a, b)" by (simp add: s(1) split_once_append)
  have "\<not> word_of_nat (decimal b) < (word_of_nat (decimal a) :: u64)"
    using v by (simp add: word_less_nat_alt unat_of_nat)
  then show ?p
    using s(2,3) v plain split by (simp add: parse_chunk_range_def Let_def parse_u64_digits digits_def [symmetric] del: trim_digits)
      (auto simp: digits_def)
qed

text \<open>
  The range of a chunk is accepted exactly when it is two runs of digits with a hyphen between them, in order and
  within 64 bits; so nothing in the grammar of downloads is. What an
  upload answers names its last byte. The one range that covers all of 64 bits is accepted, and its size reads as zero.
\<close>

theorem chunk_range_exact:
  "(parse_chunk_range value = Inr r \<longleftrightarrow>
      (\<exists>a b. trim value = a @ CHR ''-'' # b \<and> digits a \<and> digits b \<and> decimal a \<le> decimal b \<and> decimal b < 2 ^ 64
         \<and> r = \<lparr>range_start = word_of_nat (decimal a), range_end = word_of_nat (decimal b)\<rparr>))
    \<and> parse_chunk_range (upload_range_header n) = Inr \<lparr>range_start = 0, range_end = (if n = 0 then 0 else n - 1)\<rparr>
    \<and> parse_chunk_range ''0-18446744073709551615'' = Inr \<lparr>range_start = 0, range_end = - 1\<rparr>
    \<and> range_size \<lparr>range_start = 0, range_end = - 1\<rparr> = 0"
proof (intro conjI)
  have z: "range_text ''0''" "digits ''0''" "decimal ''0'' = 0"
    by (simp_all add: range_text_def digits_def is_ascii_digit_def decimal_def digit_value_def)
  have "range_text (show_nat m)" for m by (simp add: range_text_def show_nat_digits)
  then have t: "trim (''0'' @ CHR ''-'' # show_nat m) = ''0'' @ CHR ''-'' # show_nat m" for m
    using trim_span [OF z(1)] by blast
  let ?m = "if n = 0 then 0 else n - 1"
  have "upload_range_header n = ''0'' @ CHR ''-'' # show_nat (unat ?m)" by (simp add: upload_range_header_def)
  then have "trim (upload_range_header n) = ''0'' @ CHR ''-'' # show_nat (unat ?m)" by (simp only: t)
  moreover have "unat ?m < 2 ^ 64" using unsigned_less [of ?m] by simp
  ultimately show "parse_chunk_range (upload_range_header n) = Inr \<lparr>range_start = 0, range_end = ?m\<rparr>"
    using z(2,3) by (subst chunk_accepts) (intro exI [of _ "''0''"] exI [of _ "show_nat (unat ?m)"], simp)
next
  have z: "digits ''0''" "decimal ''0'' = 0" "digits ''18446744073709551615''" "decimal ''18446744073709551615'' = 2 ^ 64 - 1"
    by (simp_all add: digits_def is_ascii_digit_def decimal_def digit_value_def)
  have "is_graphic CHR ''0''" "is_graphic CHR ''5''" by (simp_all add: is_graphic_def)
  then have "trim ''0-18446744073709551615'' = ''0-18446744073709551615''" by (intro trim_plain) simp
  with z show "parse_chunk_range ''0-18446744073709551615'' = Inr \<lparr>range_start = 0, range_end = - 1\<rparr>"
    by (subst chunk_accepts) (intro exI [of _ "''0''"] exI [of _ "''18446744073709551615''"], simp)
qed (simp_all add: chunk_accepts range_size_def)

end
