(* ===== verification/Summ_Names.thy ===== *)
theory Summ_Names
  imports Summ_Range
begin

text \<open>
  The grammars at the HTTP boundary (\<open>summ-server/src/reference.rs\<close>): repository names, tags and digests.

  The checks are written over the bytes of the text, as loops where the source has loops; the name grammar is also given
  as an inductive predicate that follows the regular expression of its comment.
  Error texts keep their literal part.
\<close>

section \<open>Repository names\<close>

definition MAX_NAME_LEN :: nat where "MAX_NAME_LEN = 255"

definition HTTP_MAX_TAG_LEN :: nat where "HTTP_MAX_TAG_LEN = 128"

definition alnum :: "char \<Rightarrow> bool" where
  "alnum c \<longleftrightarrow> is_ascii_lowercase c \<or> is_ascii_digit c"

lemma dropWhile_shorter:
  assumes "c # r = dropWhile P s"
  shows "length r < length s" and "Q c \<Longrightarrow> length (dropWhile Q (dropWhile P s)) < length s"
proof -
  show "length r < length s"
    using arg_cong [OF assms, of length] length_dropWhile_le [of P s] by simp
  then show "length (dropWhile Q (dropWhile P s)) < length s" if "Q c"
    using that length_dropWhile_le [of Q r] unfolding assms [symmetric] by simp
qed

text \<open>A run of letters and digits, then the end or a separator and the next run.\<close>

function valid_name_component :: "string \<Rightarrow> bool" where
  "valid_name_component component =
     (let rest = dropWhile alnum component in
      if takeWhile alnum component = [] then False
      else (case rest of
              [] \<Rightarrow> True
            | c # r \<Rightarrow>
                if c = CHR ''.'' then valid_name_component r
                else if c = CHR ''_'' then
                  (if 2 < length (takeWhile (\<lambda>x. x = CHR ''_'') rest) then False
                   else valid_name_component (dropWhile (\<lambda>x. x = CHR ''_'') rest))
                else if c = CHR ''-'' then valid_name_component (dropWhile (\<lambda>x. x = CHR ''-'') rest)
                else False))"
  by pat_completeness auto

termination
  by (relation "measure length"; simp; erule dropWhile_shorter; simp)

declare valid_name_component.simps [simp del]

definition valid_name :: "string \<Rightarrow> bool" where
  "valid_name name =
     (if name = [] \<or> MAX_NAME_LEN < length name then False
      else list_all valid_name_component (split_on CHR ''/'' name))"

section \<open>Tags and digests\<close>

definition http_valid_tag :: "string \<Rightarrow> bool" where
  "http_valid_tag tag =
     (case tag of
        [] \<Rightarrow> False
      | b # r \<Rightarrow>
          if HTTP_MAX_TAG_LEN < length tag then False
          else if \<not> (is_ascii_alphanumeric b \<or> b = CHR ''_'') then False
          else list_all (\<lambda>c. is_ascii_alphanumeric c \<or> c \<in> {CHR ''.'', CHR ''_'', CHR ''-''}) r)"

datatype digest_error = DigestError string

definition http_parse_digest :: "string \<Rightarrow> (digest_error + digest) call" where
  "http_parse_digest s =
     (case split_once CHR '':'' s of
        None \<Rightarrow> Returns (Inl (DigestError (''missing algorithm separator: '' @ s)))
      | Some (algo, encoded) \<Rightarrow>
          if algo = [] \<or> encoded = [] then Returns (Inl (DigestError (''malformed digest: '' @ s)))
          else if \<not> list_all (\<lambda>c. is_ascii_lowercase c \<or> is_ascii_digit c) encoded then
            Returns (Inl (DigestError (''digest encoding must be lowercase: '' @ s)))
          else (case from_str s of
                  Panics \<Rightarrow> Panics
                | Returns (Inr d) \<Rightarrow> Returns (Inr d)
                | Returns (Inl e) \<Rightarrow> Returns (Inl (DigestError ''invalid digest''))))"

datatype http_reference = TagName string | DigestName digest

fun http_as_digest :: "http_reference \<Rightarrow> digest option" where
  "http_as_digest (DigestName d) = Some d"
| "http_as_digest (TagName _) = None"

fun show_http_reference :: "http_reference \<Rightarrow> string" where
  "show_http_reference (TagName t) = t"
| "show_http_reference (DigestName d) = to_string d"

datatype reference_error = BadDigest string | BadTag string

definition http_parse_reference :: "string \<Rightarrow> (reference_error + http_reference) call" where
  "http_parse_reference s =
     (if CHR '':'' \<in> set s then
        (case http_parse_digest s of
           Panics \<Rightarrow> Panics
         | Returns (Inr d) \<Rightarrow> Returns (Inr (DigestName d))
         | Returns (Inl (DigestError e)) \<Rightarrow> Returns (Inl (BadDigest e)))
      else if http_valid_tag s then Returns (Inr (TagName s))
      else Returns (Inl (BadTag (''invalid tag: '' @ s))))"

text \<open>\<open>as_ops_reference\<close> of \<open>backend.rs\<close>: the same reference for the registry below.\<close>

fun as_ops_reference :: "http_reference \<Rightarrow> reference" where
  "as_ops_reference (TagName t) = Tag t"
| "as_ops_reference (DigestName d) = DigestRef d"

section \<open>The name grammar\<close>

text \<open>\<open>[a-z0-9]+((\.|_|__|-+)[a-z0-9]+)*\<close>, and components joined by slashes.\<close>

definition separator :: "string \<Rightarrow> bool" where
  "separator s \<longleftrightarrow> s = ''.'' \<or> s = ''_'' \<or> s = ''__'' \<or> (\<exists>n > 0. s = replicate n CHR ''-'')"

inductive name_component :: "string \<Rightarrow> bool" where
  single: "r \<noteq> [] \<Longrightarrow> list_all alnum r \<Longrightarrow> name_component r"
| chain: "r \<noteq> [] \<Longrightarrow> list_all alnum r \<Longrightarrow> separator s \<Longrightarrow> name_component c \<Longrightarrow> name_component (r @ s @ c)"

fun join :: "string \<Rightarrow> string list \<Rightarrow> string" where
  "join sep [] = []"
| "join sep [x] = x"
| "join sep (x # xs) = x @ sep @ join sep xs"

lemma takeWhile_dropWhile_run:
  assumes "list_all P r" and "s = [] \<or> \<not> P (hd s)"
  shows "takeWhile P (r @ s) = r" "dropWhile P (r @ s) = s"
  using assms by (induction r; cases s; simp)+

lemma name_component_hd: "name_component c \<Longrightarrow> c \<noteq> [] \<and> alnum (hd c)"
  by (induction rule: name_component.induct) (auto simp: neq_Nil_conv)

lemma not_alnum: "\<not> alnum CHR ''.''" "\<not> alnum CHR ''_''" "\<not> alnum CHR ''-''" "\<not> alnum CHR ''/''"
  by (simp_all add: alnum_def is_ascii_lowercase_def is_ascii_digit_def)

lemma valid_name_component_run:
  assumes "r \<noteq> []" and "list_all alnum r" and "s = [] \<or> \<not> alnum (hd s)"
  shows "valid_name_component (r @ s) =
    (case s of
       [] \<Rightarrow> True
     | x # t \<Rightarrow>
         if x = CHR ''.'' then valid_name_component t
         else if x = CHR ''_'' then
           (if 2 < length (takeWhile (\<lambda>x. x = CHR ''_'') s) then False
            else valid_name_component (dropWhile (\<lambda>x. x = CHR ''_'') s))
         else if x = CHR ''-'' then valid_name_component (dropWhile (\<lambda>x. x = CHR ''-'') s)
         else False)"
  by (subst valid_name_component.simps)
    (simp only: takeWhile_dropWhile_run [OF assms(2,3)] Let_def assms(1) if_False)

lemma name_component_valid: "name_component c \<Longrightarrow> valid_name_component c"
proof (induction rule: name_component.induct)
  case (single r)
  then show ?case using valid_name_component_run [of r "[]"] by simp
next
  case (chain r s c)
  have c: "c \<noteq> []" "alnum (hd c)" using name_component_hd [OF chain.hyps(4)] by simp_all
  then have run: "dropWhile (\<lambda>x. x = d) c = c" "takeWhile (\<lambda>x. x = d) c = []" if "\<not> alnum d" for d
    using that by (cases c; auto)+
  have "s \<noteq> [] \<and> \<not> alnum (hd s)"
    using chain.hyps(3) not_alnum by (auto simp: separator_def)
  then have step: "valid_name_component (r @ s @ c) =
    (case s @ c of
       [] \<Rightarrow> True
     | x # t \<Rightarrow>
         if x = CHR ''.'' then valid_name_component t
         else if x = CHR ''_'' then
           (if 2 < length (takeWhile (\<lambda>x. x = CHR ''_'') (s @ c)) then False
            else valid_name_component (dropWhile (\<lambda>x. x = CHR ''_'') (s @ c)))
         else if x = CHR ''-'' then valid_name_component (dropWhile (\<lambda>x. x = CHR ''-'') (s @ c))
         else False)"
    using chain.hyps(1,2) by (intro valid_name_component_run) auto
  have dash: "dropWhile (\<lambda>x. x = CHR ''-'') (replicate n CHR ''-'' @ c) = c" for n
    by (induction n) (simp_all add: run not_alnum)
  from chain.hyps(3) consider (dot) "s = ''.''" | (one) "s = ''_''" | (two) "s = ''__''"
    | (dashes) n where "s = replicate (Suc n) CHR ''-''"
    unfolding separator_def by (metis gr0_implies_Suc)
  then show ?case
  proof cases
    case dashes
    then show ?thesis using step chain.IH dash [of n] by simp
  qed (use step chain.IH in \<open>simp_all add: run not_alnum\<close>)
qed

lemma run_of_same: "takeWhile (\<lambda>x. x = c) s = replicate (length (takeWhile (\<lambda>x. x = c) s)) c"
  by (induction s) auto

lemma valid_component_name: "valid_name_component c \<Longrightarrow> name_component c"
proof (induction c rule: valid_name_component.induct)
  case (1 c)
  define r where "r = takeWhile alnum c"
  define s where "s = dropWhile alnum c"
  have split: "c = r @ s" by (simp add: r_def s_def)
  have run: "r \<noteq> []" "list_all alnum r"
    using 1(4) valid_name_component.simps [of c]
    by (simp_all add: r_def Let_def list_all_iff split: if_splits) (auto dest: set_takeWhileD)
  have hd_s: "s = [] \<or> \<not> alnum (hd s)" using hd_dropWhile [of alnum c] by (auto simp: s_def)
  show ?case
  proof (cases s)
    case Nil
    with split run show ?thesis by (simp add: name_component.single)
  next
    case (Cons x t)
    have step: "name_component (r @ u @ v)" if "separator u" "name_component v" for u v
      using run that by (rule name_component.chain)
    have valid: "(if x = CHR ''.'' then valid_name_component t
                else if x = CHR ''_'' then
                  (if 2 < length (takeWhile (\<lambda>x. x = CHR ''_'') s) then False
                   else valid_name_component (dropWhile (\<lambda>x. x = CHR ''_'') s))
                else if x = CHR ''-'' then valid_name_component (dropWhile (\<lambda>x. x = CHR ''-'') s)
                else False)"
      using 1(4) valid_name_component_run [OF run, of s] hd_s Cons unfolding split by simp
    let ?us = "takeWhile (\<lambda>x. x = CHR ''_'') s" and ?ds = "takeWhile (\<lambda>x. x = CHR ''-'') s"
    have parts: "s = ?us @ dropWhile (\<lambda>x. x = CHR ''_'') s" "s = ?ds @ dropWhile (\<lambda>x. x = CHR ''-'') s" by simp_all
    consider (dot) "x = CHR ''.''" "valid_name_component t"
      | (under) "x = CHR ''_''" "length ?us \<le> 2" "valid_name_component (dropWhile (\<lambda>x. x = CHR ''_'') s)"
      | (dash) "x = CHR ''-''" "valid_name_component (dropWhile (\<lambda>x. x = CHR ''-'') s)"
      using valid by (auto split: if_splits)
    then show ?thesis
    proof cases
      case dot
      then have "name_component t" using 1(1) [OF s_def] run(1) Cons by (simp add: r_def)
      with dot Cons split show ?thesis using step [of "''.''" t] by (simp add: separator_def)
    next
      case under
      have "0 < length ?us" using under(1) Cons by simp
      with under(2) have "length ?us = 1 \<or> length ?us = 2" by linarith
      then have "separator ?us"
        using run_of_same [of "CHR ''_''" s] by (auto simp: separator_def numeral_2_eq_2)
      moreover have "name_component (dropWhile (\<lambda>x. x = CHR ''_'') s)"
        using 1(2) [OF s_def] run(1) Cons under by (simp add: r_def)
      ultimately show ?thesis using step parts(1) split by metis
    next
      case dash
      have "length ?ds > 0" using dash Cons by simp
      then have "separator ?ds"
        using run_of_same [of "CHR ''-''" s] by (auto simp: separator_def)
      moreover have "name_component (dropWhile (\<lambda>x. x = CHR ''-'') s)"
        using 1(3) [OF s_def] run(1) Cons dash by (simp add: r_def)
      ultimately show ?thesis using step parts(2) split by metis
    qed
  qed
qed

lemma valid_name_component_iff: "valid_name_component c \<longleftrightarrow> name_component c"
  using name_component_valid valid_component_name by blast

section \<open>Names\<close>

lemma split_on_free: "x \<in> set (split_on c s) \<Longrightarrow> c \<notin> set x"
  by (induction s arbitrary: x) (auto split: list.splits if_splits)

lemma join_split_on: "join [c] (split_on c s) = s"
proof (induction s)
  case (Cons x s)
  then show ?case
    by (cases "split_on c s"; cases "tl (split_on c s)") (auto split: if_splits)
qed simp

lemma split_on_join:
  assumes "cs \<noteq> []" and "\<forall>x \<in> set cs. c \<notin> set x"
  shows "split_on c (join [c] cs) = cs"
  using assms by (induction "[c]" cs rule: join.induct) (auto simp: split_on_append)

lemma name_component_chars: "name_component x \<Longrightarrow> CHR ''/'' \<notin> set x"
  by (induction rule: name_component.induct)
    (auto simp: list_all_iff separator_def not_alnum dest: not_alnum(4) [THEN notE])

text \<open>
  C39. The loop over the bytes of a name accepts exactly what the regular expression describes: names of at most 255 bytes
  that are components joined by slashes, each component runs of lowercase letters and digits with single separators between.
\<close>

theorem name_grammar:
  "valid_name name \<longleftrightarrow>
     length name \<le> 255 \<and> (\<exists>cs. cs \<noteq> [] \<and> name = join ''/'' cs \<and> list_all name_component cs)"
proof
  assume v: "valid_name name"
  then have "list_all name_component (split_on CHR ''/'' name)"
    by (simp add: valid_name_def list_all_iff valid_name_component_iff split: if_splits)
  moreover have "name = join ''/'' (split_on CHR ''/'' name)" by (simp add: join_split_on)
  moreover have "length name \<le> 255" using v by (simp add: valid_name_def MAX_NAME_LEN_def split: if_splits)
  ultimately show "length name \<le> 255 \<and> (\<exists>cs. cs \<noteq> [] \<and> name = join ''/'' cs \<and> list_all name_component cs)"
    using split_on_not_Nil by blast
next
  assume "length name \<le> 255 \<and> (\<exists>cs. cs \<noteq> [] \<and> name = join ''/'' cs \<and> list_all name_component cs)"
  then obtain cs where cs: "cs \<noteq> []" "name = join ''/'' cs" "\<forall>c \<in> set cs. name_component c" "length name \<le> 255"
    by (auto simp: list_all_iff)
  then have "split_on CHR ''/'' name = cs" using split_on_join name_component_chars by blast
  moreover have "name \<noteq> []"
  proof -
    obtain c r where "cs = c # r" using cs(1) by (cases cs) auto
    moreover have "c \<noteq> []" using cs(3) \<open>cs = c # r\<close> name_component_hd by auto
    ultimately show ?thesis using cs(2) by (cases r) auto
  qed
  ultimately show "valid_name name"
    using cs(3,4) by (simp add: valid_name_def MAX_NAME_LEN_def list_all_iff valid_name_component_iff)
qed

section \<open>Digests and references\<close>

lemma lowercase_ascii: "is_ascii_lowercase c \<or> is_ascii_digit c \<Longrightarrow> char_byte c < 0x80"
  by (auto simp: is_ascii_lowercase_def is_ascii_digit_def Let_def word_less_nat_alt unat_char_byte)

lemma http_valid_tag_iff: "http_valid_tag t \<longleftrightarrow> validate_tag t = Inr ()"
  unfolding validate_tag_iff
  by (cases t)
    (auto simp: http_valid_tag_def valid_tag_def tag_char_def HTTP_MAX_TAG_LEN_def list_all_iff)

definition lower_alnum :: "char \<Rightarrow> bool" where
  "lower_alnum c \<longleftrightarrow> is_ascii_lowercase c \<or> is_ascii_digit c"

lemma lower_hex_digit:
  assumes "lower_alnum c" and "to_digit16 c = Some n"
  shows "n < 16 \<and> c = hex_digit n"
proof -
  have n: "n < 16" using assms(2) by (auto simp: to_digit16_def Let_def split: if_splits)
  have "(of_char c :: nat) = of_char (hex_digit n)"
    using assms n
    by (auto simp: to_digit16_def lower_alnum_def is_ascii_lowercase_def is_ascii_digit_def Let_def of_char_hex_digit
        split: if_splits)
  with n show ?thesis by simp
qed

lemma hex_byte_pair:
  assumes "lower_alnum a" and "lower_alnum b" and "u8_from_str_radix16 [a, b] = Some x"
  shows "hex_byte x = [a, b]"
proof -
  have "a \<noteq> CHR ''+''" using assms(1) by (auto simp: lower_alnum_def is_ascii_lowercase_def is_ascii_digit_def)
  with assms(3) obtain m n where d: "to_digit16 a = Some m" "to_digit16 b = Some n" "x = word_of_nat (m * 16 + n)"
    by (auto simp: u8_from_str_radix16_def split: option.splits if_splits)
  have h: "m < 16" "n < 16" "a = hex_digit m" "b = hex_digit n"
    using lower_hex_digit [OF assms(1) d(1)] lower_hex_digit [OF assms(2) d(2)] by simp_all
  then have "unat x = m * 16 + n" using d(3) by (simp add: unat_of_nat del: of_nat_add of_nat_mult)
  with h show ?thesis by (simp add: hex_byte_def)
qed

lemma unhex_loop_lower:
  assumes "list_all lower_alnum hex" and "is_ascii hex" and "(i + k) * 2 \<le> length hex"
    and "unhex_loop hex i k = Returns (Inr bs)"
  shows "concat (map hex_byte bs) = take (k * 2) (drop (i * 2) hex)"
  using assms(3,4)
proof (induction k arbitrary: i bs)
  case (Suc k)
  have len: "i * 2 + 2 \<le> length hex" using Suc.prems(1) by simp
  obtain a b r where ab: "drop (i * 2) hex = a # b # r"
  proof -
    have "2 \<le> length (drop (i * 2) hex)" using len by simp
    then show thesis
      by (cases "drop (i * 2) hex"; cases "tl (drop (i * 2) hex)") (auto intro: that)
  qed
  then have r: "drop (Suc i * 2) hex = r"
    by (metis drop_Suc_Cons drop_0 drop_drop mult_Suc numeral_2_eq_2 plus_nat.simps(2) add.commute)
  have "set (a # b # r) \<subseteq> set hex" using set_drop_subset [of "i * 2" hex] ab by simp
  then have lower: "lower_alnum a" "lower_alnum b" using assms(1) by (auto simp: list_all_iff)
  have slice: "str_slice hex (i * 2) (i * 2 + 2) = Returns [a, b]"
    using len by (subst str_slice_ascii [OF assms(2)]) (simp_all add: ab)
  from Suc.prems(2) obtain x cs where x: "u8_from_str_radix16 [a, b] = Some x"
    "unhex_loop hex (Suc i) k = Returns (Inr cs)" "bs = x # cs"
    by (auto simp: slice and_then_Inr simp del: add_2_eq_Suc' split: option.splits call.splits)
  have "concat (map hex_byte cs) = take (k * 2) r"
    using Suc.IH [OF _ x(2)] Suc.prems(1) r by simp
  with x(1,3) lower ab show ?case by (simp add: hex_byte_pair)
qed simp

lemma http_parse_digest_Inr: "http_parse_digest s = Returns (Inr d) \<longleftrightarrow> s = to_string d"
proof
  assume *: "http_parse_digest s = Returns (Inr d)"
  then obtain algo hex where s: "split_once CHR '':'' s = Some (algo, hex)" "list_all lower_alnum hex"
    and d: "from_str s = Returns (Inr d)"
    by (auto simp: http_parse_digest_def lower_alnum_def list_all_iff split: option.splits if_splits call.splits sum.splits)
  have ascii: "is_ascii hex" using s(2) lowercase_ascii by (auto simp: is_ascii_def list_all_iff lower_alnum_def)
  have whole: "concat (map hex_byte bs) = hex" if "unhex n hex = Returns (Inr bs)" for n bs
    using that unhex_loop_lower [OF s(2) ascii, of 0 n bs] by (auto simp: unhex_def split: if_splits)
  have len: "length bs = n" if "unhex n hex = Returns (Inr bs)" for n bs
    using that by (auto simp: unhex_def dest: length_unhex_loop split: if_splits)
  from d s(1) consider
    (a) bs where "algo = ''sha256''" "unhex 32 hex = Returns (Inr bs)" "d = Sha256 (arr32 bs)"
    | (b) bs where "algo = ''sha512''" "unhex 64 hex = Returns (Inr bs)" "d = Sha512 (arr64 bs)"
    by (auto simp: from_str_def map_call_def and_then_Inr split: if_splits call.splits)
  then have "to_string d = algo @ '':'' @ hex"
    by cases (simp_all add: to_string_def whole len)
  then show "s = to_string d" using s(1) by (simp add: split_once_Some)
next
  assume s: "s = to_string d"
  have "list_all (\<lambda>c. is_ascii_lowercase c \<or> is_ascii_digit c) (concat (map hex_byte bs))" for bs
  proof -
    have "is_ascii_lowercase (hex_digit n) \<or> is_ascii_digit (hex_digit n)" if "n < 16" for n
      using that by (auto simp: is_ascii_lowercase_def is_ascii_digit_def of_char_hex_digit)
    then show ?thesis by (induction bs) (auto simp: hex_byte_def unat_byte_digits)
  qed
  moreover have "algorithm d \<noteq> []" by (cases d) simp_all
  moreover have "concat (map hex_byte (raw_of d)) \<noteq> []"
  proof -
    have "length (raw_of d) > 0" by (simp add: length_raw_digest split: digest.split)
    then have "length (concat (map hex_byte (raw_of d))) > 0" by (simp only: length_hex_bytes)
    then show ?thesis by fastforce
  qed
  ultimately show "http_parse_digest s = Returns (Inr d)"
    unfolding http_parse_digest_def s split_once_to_string by (simp only: option.case prod.case if_False simp_thms from_str_to_string call.case sum.case)
qed

lemma http_parse_digest_returns: "http_parse_digest s \<noteq> Panics"
proof -
  have "from_str s \<noteq> Panics" if "split_once CHR '':'' s = Some (algo, hex)" "list_all lower_alnum hex" for algo hex
  proof -
    have "is_ascii hex" using that(2) lowercase_ascii by (auto simp: is_ascii_def list_all_iff lower_alnum_def)
    then have "unhex n hex \<noteq> Panics" for n
      using unhex_loop_no_panic [of hex 0 n] by (auto simp: unhex_def)
    then show ?thesis using that(1) by (auto simp: from_str_def map_call_def split: call.splits)
  qed
  then show ?thesis
    by (auto simp: http_parse_digest_def lower_alnum_def list_all_iff split: option.splits call.splits sum.splits)
qed

text \<open>
  At the HTTP boundary a reference with a colon is a digest or an error and any other a tag or an error, and
  parsing never panics, whatever the text. A digest is accepted only as the text that it prints as, a tag only in the grammar of
  the registry, which parses the text of either to the same reference.
\<close>

theorem http_reference_exact:
  "(\<exists>r. http_parse_reference s = Returns r)
    \<and> (http_parse_reference s = Returns (Inr r) \<longleftrightarrow>
         s = show_http_reference r \<and> (case r of TagName t \<Rightarrow> validate_tag t = Inr () | DigestName _ \<Rightarrow> True))
    \<and> (http_parse_reference s = Returns (Inr r) \<longrightarrow> parse_reference s = Returns (Inr (as_ops_reference r)))"
proof (intro conjI impI)
  have colon: "CHR '':'' \<in> set s" if "http_parse_digest s = Returns (Inr d)" for d
    using that colon_in_to_string by (auto simp: http_parse_digest_Inr)
  have plain: "CHR '':'' \<notin> set t" if "validate_tag t = Inr ()" for t
    using that valid_tag_facts(3) by (simp add: validate_tag_iff)
  show "\<exists>r. http_parse_reference s = Returns r"
    using http_parse_digest_returns [of s]
    by (auto simp: http_parse_reference_def split: call.split sum.split digest_error.split)
  show iff: "http_parse_reference s = Returns (Inr r) \<longleftrightarrow>
         s = show_http_reference r \<and> (case r of TagName t \<Rightarrow> validate_tag t = Inr () | DigestName _ \<Rightarrow> True)"
  proof (cases r)
    case (TagName t)
    then show ?thesis
      using plain
      by (auto simp: http_parse_reference_def http_valid_tag_iff split: call.splits sum.splits digest_error.splits)
  next
    case (DigestName d)
    have "http_parse_reference s = Returns (Inr (DigestName d)) \<longleftrightarrow> http_parse_digest s = Returns (Inr d)"
      using colon by (auto simp: http_parse_reference_def split: call.splits sum.splits digest_error.splits)
    with DigestName show ?thesis by (simp add: http_parse_digest_Inr)
  qed
  assume "http_parse_reference s = Returns (Inr r)"
  with iff plain show "parse_reference s = Returns (Inr (as_ops_reference r))"
    by (cases r) (simp_all add: parse_reference_def colon_in_to_string from_str_to_string)
qed

theorem http_reference_exact_witness:
  "http_parse_reference ''v1.0'' = Returns (Inr (TagName ''v1.0'')) \<and> parse_reference ''v1.0'' = Returns (Inr (Tag ''v1.0''))"
proof -
  have "http_parse_reference ''v1.0'' = Returns (Inr (TagName ''v1.0''))"
    by (simp add: http_parse_reference_def http_valid_tag_def HTTP_MAX_TAG_LEN_def is_ascii_alphanumeric_def)
  then show ?thesis using http_reference_exact [of "''v1.0''" "TagName ''v1.0''"] by simp
qed

end
