(* ===== verification/Summ_Http.thy ===== *)
theory Summ_Http
  imports Summ_Names
begin

text \<open>
  The errors of the HTTP layer (\<open>summ-server/src/error.rs\<close>), the failures of the seam below it
  (\<open>seam.rs\<close>) and their translation (\<open>handlers/mod.rs\<close>).

  A status is its number, a header a pair of texts. The body of an error is the data that \<open>serde_json\<close> writes; a detail is
  always text here, as it is wherever the sources attach one. The insertion of a header replaces one of the same name.
\<close>

section \<open>Error codes\<close>

datatype error_code =
    CodeBlobUnknown
  | CodeBlobUploadInvalid
  | CodeBlobUploadUnknown
  | CodeDigestInvalid
  | CodeManifestBlobUnknown
  | CodeManifestInvalid
  | CodeManifestUnknown
  | CodeNameInvalid
  | CodeNameUnknown
  | CodeSizeInvalid
  | CodeUnauthorized
  | CodeDenied
  | CodeUnsupported
  | CodeTooManyRequests
  | CodePaginationNumberInvalid

fun code_as_str :: "error_code \<Rightarrow> string" where
  "code_as_str CodeBlobUnknown = ''BLOB_UNKNOWN''"
| "code_as_str CodeBlobUploadInvalid = ''BLOB_UPLOAD_INVALID''"
| "code_as_str CodeBlobUploadUnknown = ''BLOB_UPLOAD_UNKNOWN''"
| "code_as_str CodeDigestInvalid = ''DIGEST_INVALID''"
| "code_as_str CodeManifestBlobUnknown = ''MANIFEST_BLOB_UNKNOWN''"
| "code_as_str CodeManifestInvalid = ''MANIFEST_INVALID''"
| "code_as_str CodeManifestUnknown = ''MANIFEST_UNKNOWN''"
| "code_as_str CodeNameInvalid = ''NAME_INVALID''"
| "code_as_str CodeNameUnknown = ''NAME_UNKNOWN''"
| "code_as_str CodeSizeInvalid = ''SIZE_INVALID''"
| "code_as_str CodeUnauthorized = ''UNAUTHORIZED''"
| "code_as_str CodeDenied = ''DENIED''"
| "code_as_str CodeUnsupported = ''UNSUPPORTED''"
| "code_as_str CodeTooManyRequests = ''TOOMANYREQUESTS''"
| "code_as_str CodePaginationNumberInvalid = ''PAGINATION_NUMBER_INVALID''"

definition code_status :: "error_code \<Rightarrow> nat" where
  "code_status c =
     (case c of
        CodeBlobUnknown \<Rightarrow> 404
      | CodeBlobUploadUnknown \<Rightarrow> 404
      | CodeManifestUnknown \<Rightarrow> 404
      | CodeNameUnknown \<Rightarrow> 404
      | CodeUnauthorized \<Rightarrow> 401
      | CodeDenied \<Rightarrow> 403
      | CodeUnsupported \<Rightarrow> 405
      | CodeTooManyRequests \<Rightarrow> 429
      | _ \<Rightarrow> 400)"

fun default_message :: "error_code \<Rightarrow> string" where
  "default_message CodeBlobUnknown = ''blob unknown to registry''"
| "default_message CodeBlobUploadInvalid = ''blob upload invalid''"
| "default_message CodeBlobUploadUnknown = ''blob upload unknown to registry''"
| "default_message CodeDigestInvalid = ''provided digest did not match uploaded content''"
| "default_message CodeManifestBlobUnknown = ''manifest references a manifest or blob unknown to registry''"
| "default_message CodeManifestInvalid = ''manifest invalid''"
| "default_message CodeManifestUnknown = ''manifest unknown''"
| "default_message CodeNameInvalid = ''invalid repository name''"
| "default_message CodeNameUnknown = ''repository name not known to registry''"
| "default_message CodeSizeInvalid = ''provided length did not match content length''"
| "default_message CodeUnauthorized = ''authentication required''"
| "default_message CodeDenied = ''requested access to the resource is denied''"
| "default_message CodeUnsupported = ''the operation is unsupported''"
| "default_message CodeTooManyRequests = ''too many requests''"
| "default_message CodePaginationNumberInvalid = ''invalid number of results requested''"

section \<open>Errors and responses\<close>

type_synonym headers = "(string \<times> string) list"

record api_error =
  err_status :: nat
  err_code :: error_code
  err_message :: string
  err_detail :: "string option"
  err_extra :: headers
  err_bare :: bool

definition new_error :: "error_code \<Rightarrow> api_error" where
  "new_error c =
     \<lparr>err_status = code_status c, err_code = c, err_message = default_message c, err_detail = None,
      err_extra = [], err_bare = False\<rparr>"

definition internal_error :: api_error where
  "internal_error =
     \<lparr>err_status = 500, err_code = CodeUnsupported, err_message = ''internal error'', err_detail = None,
      err_extra = [], err_bare = True\<rparr>"

definition status_only :: "nat \<Rightarrow> api_error" where
  "status_only status =
     \<lparr>err_status = status, err_code = CodeUnsupported, err_message = [], err_detail = None,
      err_extra = [], err_bare = True\<rparr>"

definition with_status :: "nat \<Rightarrow> api_error \<Rightarrow> api_error" where
  "with_status status e = e\<lparr>err_status := status\<rparr>"

definition with_message :: "string \<Rightarrow> api_error \<Rightarrow> api_error" where
  "with_message message e = e\<lparr>err_message := message\<rparr>"

definition with_detail :: "string \<Rightarrow> api_error \<Rightarrow> api_error" where
  "with_detail detail e = e\<lparr>err_detail := Some detail\<rparr>"

definition with_header :: "string \<Rightarrow> string \<Rightarrow> api_error \<Rightarrow> api_error" where
  "with_header name value e = e\<lparr>err_extra := err_extra e @ [(name, value)]\<rparr>"

record wire_error =
  wire_code :: string
  wire_message :: string
  wire_detail :: "string option"

text \<open>What a response carries: nothing, the one error of an error body, or bytes.\<close>

datatype body = NoBody | ErrorBody wire_error | Content bytes

record response =
  resp_status :: nat
  resp_headers :: headers
  resp_body :: body

definition insert_header :: "string \<times> string \<Rightarrow> headers \<Rightarrow> headers" where
  "insert_header h hs = filter (\<lambda>x. fst x \<noteq> fst h) hs @ [h]"

definition into_response :: "(wire_error \<Rightarrow> bytes) \<Rightarrow> api_error \<Rightarrow> response" where
  "into_response to_json e =
     (let base =
        (if err_bare e then
           \<lparr>resp_status = err_status e, resp_headers = [(''content-length'', ''0'')], resp_body = NoBody\<rparr>
         else
           (let w = \<lparr>wire_code = code_as_str (err_code e), wire_message = err_message e, wire_detail = err_detail e\<rparr> in
            \<lparr>resp_status = err_status e,
             resp_headers = [(''content-type'', ''application/json''), (''content-length'', show_nat (length (to_json w)))],
             resp_body = ErrorBody w\<rparr>))
      in base\<lparr>resp_headers := fold insert_header (err_extra e) (resp_headers base)\<rparr>)"

section \<open>Failures from below\<close>

datatype ops_error =
    OpsRepoUnknown
  | OpsManifestUnknown
  | OpsBlobUnknown
  | OpsUploadUnknown
  | OpsOffsetMismatch u64
  | OpsDigestMismatch
  | OpsSizeMismatch u64 u64
  | OpsBodyTooLarge u64
  | OpsBodyIncomplete string
  | OpsManifestInvalid string
  | OpsManifestBlobUnknown digest
  | OpsInternal string

definition method_not_allowed :: "string \<Rightarrow> api_error" where
  "method_not_allowed allow =
     with_header ''allow'' allow (with_message ''method not allowed'' (new_error CodeUnsupported))"

definition api_error_of :: "ops_error \<Rightarrow> api_error" where
  "api_error_of e =
     (case e of
        OpsRepoUnknown \<Rightarrow> new_error CodeNameUnknown
      | OpsManifestUnknown \<Rightarrow> new_error CodeManifestUnknown
      | OpsBlobUnknown \<Rightarrow> new_error CodeBlobUnknown
      | OpsUploadUnknown \<Rightarrow> new_error CodeBlobUploadUnknown
      | OpsOffsetMismatch current \<Rightarrow>
          with_detail (''expected the chunk to start at '' @ show_nat (unat current))
            (with_message ''chunk is out of order'' (with_status 416 (new_error CodeBlobUploadInvalid)))
      | OpsDigestMismatch \<Rightarrow> new_error CodeDigestInvalid
      | OpsManifestInvalid detail \<Rightarrow> with_detail detail (new_error CodeManifestInvalid)
      | OpsManifestBlobUnknown d \<Rightarrow>
          with_detail (to_string d @ '' is not present in this repository'') (new_error CodeManifestBlobUnknown)
      | OpsSizeMismatch want got \<Rightarrow>
          with_detail (''expected '' @ show_nat (unat want) @ '' bytes, got '' @ show_nat (unat got))
            (new_error CodeSizeInvalid)
      | OpsBodyTooLarge limit \<Rightarrow>
          with_detail (''limit is '' @ show_nat (unat limit) @ '' bytes'')
            (with_message ''request body exceeds the maximum accepted size''
              (with_status 413 (new_error CodeSizeInvalid)))
      | OpsBodyIncomplete detail \<Rightarrow>
          with_detail detail (with_message ''the request body did not arrive complete'' (new_error CodeBlobUploadInvalid))
      | OpsInternal _ \<Rightarrow> internal_error)"

definition media_type_of :: "string \<Rightarrow> string" where
  "media_type_of s = trim (case split_on CHR '';'' s of t # _ \<Rightarrow> t | [] \<Rightarrow> s)"

text \<open>\<open>Ctx::flag\<close>: a query parameter read as a switch.\<close>

definition flag :: "(string \<times> string) list \<Rightarrow> string \<Rightarrow> bool" where
  "flag ps key = (case first ps key of None \<Rightarrow> False | Some v \<Rightarrow> v \<notin> {''false'', ''0'', ''no''})"

lemmas error_defs = new_error_def internal_error_def status_only_def with_status_def with_message_def with_detail_def
  with_header_def method_not_allowed_def

section \<open>Error responses\<close>

text \<open>The characters of the specification, and one text per code.\<close>

lemma code_as_str_chars: "list_all (\<lambda>c. is_ascii_uppercase c \<or> c = CHR ''_'') (code_as_str c) \<and> code_as_str c \<noteq> []"
  by (cases c) (simp_all add: is_ascii_uppercase_def)

lemma code_as_str_inject [simp]: "code_as_str c = code_as_str d \<longleftrightarrow> c = d"
  by (cases c; cases d; simp)

text \<open>
  Every failure from below becomes a response of one of five statuses. It is a 500, without a body, exactly for an internal
  failure; every other response is an error body with the code of the failure, its own
  length as the content length, and is never the retryable 429.
\<close>

theorem failure_responses:
  "(resp_status (into_response to_json (api_error_of e)) \<in> {400, 404, 413, 416, 500})
    \<and> (resp_status (into_response to_json (api_error_of e)) = 500 \<longleftrightarrow> (\<exists>x. e = OpsInternal x))
    \<and> (case resp_body (into_response to_json (api_error_of e)) of
         NoBody \<Rightarrow> (\<exists>x. e = OpsInternal x) \<and> resp_headers (into_response to_json (api_error_of e)) = [(''content-length'', ''0'')]
       | ErrorBody w \<Rightarrow>
           (\<nexists>x. e = OpsInternal x) \<and> wire_code w = code_as_str (err_code (api_error_of e))
           \<and> resp_headers (into_response to_json (api_error_of e)) =
               [(''content-type'', ''application/json''), (''content-length'', show_nat (length (to_json w)))]
       | Content _ \<Rightarrow> False)"
  by (cases e) (simp_all add: api_error_of_def into_response_def error_defs code_status_def Let_def)

end
