(* ===== verification/Summ_Auth.thy ===== *)
theory Summ_Auth
  imports Summ_Http
begin

text \<open>
  Authentication by API key (\<open>summ-server/src/auth.rs\<close>) and the configuration that chooses it
  (\<open>config.rs\<close>).

  Lengths (\<open>usize\<close>) are natural numbers, with their bitwise operations. A parameter \<open>to_str\<close> stands for
  \<open>HeaderValue::to_str\<close>, which may refuse a value; the identifiers a key is generated from are arguments. A duration is its number of
  seconds.
\<close>

section \<open>Access\<close>

datatype http_method = GET | HEAD | OPTIONS | PUT | POST | PATCH | DELETE | OtherMethod string

datatype access = ReadAccess | WriteAccess

definition access_of :: "http_method \<Rightarrow> access" where
  "access_of m = (case m of GET \<Rightarrow> ReadAccess | HEAD \<Rightarrow> ReadAccess | OPTIONS \<Rightarrow> ReadAccess | _ \<Rightarrow> WriteAccess)"

section \<open>Keys\<close>

datatype api_key = ApiKey string

fun expose :: "api_key \<Rightarrow> string" where
  "expose (ApiKey k) = k"

definition generate_key :: "bytes \<times> bytes \<Rightarrow> api_key" where
  "generate_key uuids = ApiKey (concat (map hex_byte (fst uuids @ snd uuids)))"

text \<open>The fold over the longer of the two texts, indexing both modulo their length.\<close>

definition key_diff :: "bytes \<Rightarrow> bytes \<Rightarrow> nat" where
  "key_diff expected got =
     fold (\<lambda>i diff. or diff (unat (xor (expected ! (i mod length expected)) (got ! (i mod length got)))))
       [0..<max (length expected) (length got)] (xor (length expected) (length got))"

definition key_matches :: "api_key \<Rightarrow> string \<Rightarrow> bool" where
  "key_matches key presented =
     (let expected = as_bytes (expose key); got = as_bytes presented in
      if expected = [] \<or> got = [] then False else key_diff expected got = 0)"

section \<open>Base64\<close>

definition sextet :: "byte \<Rightarrow> u32 option" where
  "sextet b =
     (if 0x41 \<le> b \<and> b \<le> 0x5A then Some (ucast (b - 0x41))
      else if 0x61 \<le> b \<and> b \<le> 0x7A then Some (ucast (b - 0x61) + 26)
      else if 0x30 \<le> b \<and> b \<le> 0x39 then Some (ucast (b - 0x30) + 52)
      else if b = 0x2B then Some 62
      else if b = 0x2F then Some 63
      else None)"

fun chunks :: "nat \<Rightarrow> 'a list \<Rightarrow> 'a list list" where
  "chunks n xs = (if n = 0 \<or> xs = [] then [] else take n xs # chunks n (drop n xs))"

declare chunks.simps [simp del]

fun sextets :: "u32 \<Rightarrow> bytes \<Rightarrow> u32 option" where
  "sextets acc [] = Some acc"
| "sextets acc (b # r) = (case sextet b of None \<Rightarrow> None | Some s \<Rightarrow> sextets (or (push_bit 6 acc) s) r)"

definition chunk_bytes :: "bytes \<Rightarrow> bytes option" where
  "chunk_bytes chunk =
     map_option
       (\<lambda>acc. let acc = push_bit (6 * (4 - length chunk)) acc in
         map (\<lambda>i. ucast (and (drop_bit (16 - 8 * i) acc) 0xFF)) [0..<length chunk - 1])
       (sextets 0 chunk)"

fun decode_chunks :: "bytes list \<Rightarrow> bytes option" where
  "decode_chunks [] = Some []"
| "decode_chunks (c # cs) =
     (case chunk_bytes c of None \<Rightarrow> None | Some out \<Rightarrow> map_option (\<lambda>r. out @ r) (decode_chunks cs))"

definition strip_suffix :: "'a list \<Rightarrow> 'a list \<Rightarrow> 'a list option" where
  "strip_suffix k s = (if suffix s k then Some (take (length k - length s) k) else None)"

definition base64_decode :: "string \<Rightarrow> bytes option" where
  "base64_decode input =
     (let bs = as_bytes input;
          t = (case strip_suffix bs [0x3D, 0x3D] of
                 Some r \<Rightarrow> r
               | None \<Rightarrow> (case strip_suffix bs [0x3D] of Some r \<Rightarrow> r | None \<Rightarrow> bs)) in
      if length t mod 4 = 1 then None else decode_chunks (chunks 4 t))"

section \<open>Credentials\<close>

definition ascii_lowercase :: "char \<Rightarrow> char" where
  "ascii_lowercase c = (if is_ascii_uppercase c then char_of ((of_char c :: nat) + 32) else c)"

definition eq_ignore_ascii_case :: "string \<Rightarrow> string \<Rightarrow> bool" where
  "eq_ignore_ascii_case s t \<longleftrightarrow> map ascii_lowercase s = map ascii_lowercase t"

definition credential :: "string \<Rightarrow> string option" where
  "credential value =
     (case split_once CHR '' '' value of
        None \<Rightarrow> None
      | Some (scheme, rest) \<Rightarrow>
          let rest = trim rest in
          if eq_ignore_ascii_case scheme ''bearer'' then (if rest \<noteq> [] then Some rest else None)
          else if eq_ignore_ascii_case scheme ''basic'' then
            Option.bind (base64_decode rest) (\<lambda>raw_bytes.
            Option.bind (from_utf8 raw_bytes) (\<lambda>decoded.
            Option.bind (split_once CHR '':'' decoded) (\<lambda>(user, password).
              let key = (if password = [] then user else password) in
              if key \<noteq> [] then Some key else None)))
          else None)"

section \<open>Policies\<close>

datatype auth_policy = OpenPolicy | PublicPull api_key | Private api_key api_key

datatype auth_error = Missing | Malformed | InvalidKey | Insufficient

record generated =
  gen_read :: bool
  gen_write :: bool

definition nonempty :: "string \<Rightarrow> string option \<Rightarrow> string + unit" where
  "nonempty label key =
     (case key of
        Some k \<Rightarrow> if trim k = [] then Inl (''the '' @ label @ '' API key is empty'') else Inr ()
      | None \<Rightarrow> Inr ())"

definition key_or_generated :: "bytes \<times> bytes \<Rightarrow> string option \<Rightarrow> api_key" where
  "key_or_generated uuids key = (case key of Some k \<Rightarrow> ApiKey k | None \<Rightarrow> generate_key uuids)"

definition for_public_pull :: "bytes \<times> bytes \<Rightarrow> string option \<Rightarrow> string + (auth_policy \<times> generated)" where
  "for_public_pull uuids w =
     and_then (nonempty ''write'' w) (\<lambda>_.
       Inr (PublicPull (key_or_generated uuids w), \<lparr>gen_read = False, gen_write = (w = None)\<rparr>))"

definition for_private ::
  "bytes \<times> bytes \<Rightarrow> bytes \<times> bytes \<Rightarrow> string option \<Rightarrow> string option \<Rightarrow> string + (auth_policy \<times> generated)" where
  "for_private uuids uuids' r w =
     and_then (nonempty ''read'' r) (\<lambda>_.
     and_then (nonempty ''write'' w) (\<lambda>_.
       Inr (Private (key_or_generated uuids r) (key_or_generated uuids' w),
            \<lparr>gen_read = (r = None), gen_write = (w = None)\<rparr>)))"

definition is_enabled :: "auth_policy \<Rightarrow> bool" where
  "is_enabled p = (case p of OpenPolicy \<Rightarrow> False | _ \<Rightarrow> True)"

text \<open>The decision once the keys are chosen: no read key stands for reads that need none.\<close>

definition authorize_with ::
  "('h \<Rightarrow> string option) \<Rightarrow> api_key option \<Rightarrow> api_key \<Rightarrow> http_method \<Rightarrow> 'h option \<Rightarrow> auth_error + unit" where
  "authorize_with to_str r w method header =
     (case header of
        None \<Rightarrow> (if access_of method = ReadAccess \<and> r = None then Inr () else Inl Missing)
      | Some value \<Rightarrow>
          (case Option.bind (to_str value) credential of
             None \<Rightarrow> Inl Malformed
           | Some presented \<Rightarrow>
               if key_matches w presented then Inr ()
               else (case r of
                       None \<Rightarrow> Inl InvalidKey
                     | Some k \<Rightarrow>
                         if key_matches k presented then
                           (case access_of method of ReadAccess \<Rightarrow> Inr () | WriteAccess \<Rightarrow> Inl Insufficient)
                         else Inl InvalidKey)))"

definition authorize ::
  "('h \<Rightarrow> string option) \<Rightarrow> auth_policy \<Rightarrow> http_method \<Rightarrow> 'h option \<Rightarrow> auth_error + unit" where
  "authorize to_str policy method header =
     (case policy of
        OpenPolicy \<Rightarrow> Inr ()
      | PublicPull w \<Rightarrow> authorize_with to_str None w method header
      | Private r w \<Rightarrow> authorize_with to_str (Some r) w method header)"

definition CHALLENGE :: string where
  "CHALLENGE = ''Basic realm='' @ [CHR 0x22] @ ''summ'' @ [CHR 0x22] @ '', charset='' @ [CHR 0x22] @ ''UTF-8'' @ [CHR 0x22]"

definition auth_api_error :: "auth_error \<Rightarrow> api_error" where
  "auth_api_error e =
     (case e of
        Missing \<Rightarrow>
          with_header ''www-authenticate'' CHALLENGE
            (with_detail ''send the API key as the password of an HTTP Basic credential'' (new_error CodeUnauthorized))
      | Malformed \<Rightarrow>
          with_header ''www-authenticate'' CHALLENGE
            (with_detail ''expected `Basic <base64>` or `Bearer <key>`''
              (with_message ''malformed Authorization header'' (new_error CodeUnauthorized)))
      | InvalidKey \<Rightarrow>
          with_header ''www-authenticate'' CHALLENGE (with_message ''invalid API key'' (new_error CodeUnauthorized))
      | Insufficient \<Rightarrow>
          with_detail ''use the write API key for push and delete''
            (with_message ''the read API key does not permit writes'' (new_error CodeDenied)))"

section \<open>Comparing keys\<close>

lemma fold_or_zero:
  fixes a :: nat
  shows "fold (\<lambda>i d. or d (f i)) xs a = 0 \<longleftrightarrow> a = 0 \<and> (\<forall>i \<in> set xs. f i = 0)"
  by (induction xs arbitrary: a) (auto simp: or_eq_0_iff)

lemma xor_zero: "xor (a :: nat) b = 0 \<longleftrightarrow> a = b" "xor (x :: byte) y = 0 \<longleftrightarrow> x = y"
  by (auto simp: bit_eq_iff bit_simps)

text \<open>
  A presented text matches a key exactly when it is the key, and the key is not empty: the fold over both texts, indexed modulo
  their lengths, finds every difference, also when one text repeats the other.
\<close>

lemma key_matches_iff:
  "key_matches (ApiKey k) presented \<longleftrightarrow> k \<noteq> [] \<and> presented = k"
proof (cases "k = [] \<or> presented = []")
  case False
  let ?e = "as_bytes k" and ?g = "as_bytes presented"
  have "key_diff ?e ?g = 0 \<longleftrightarrow> length k = length presented \<and>
      (\<forall>i < max (length k) (length presented). ?e ! (i mod length k) = ?g ! (i mod length presented))"
    by (auto simp: key_diff_def fold_or_zero xor_zero unat_eq_0)
  also have "\<dots> \<longleftrightarrow> ?e = ?g" by (auto simp: list_eq_iff_nth_eq)
  finally show ?thesis using False by (auto simp: key_matches_def)
qed (auto simp: key_matches_def)

lemma credential_not_Nil: "credential v = Some k \<Longrightarrow> k \<noteq> []"
  by (auto simp: credential_def Let_def bind_eq_Some_conv split: option.splits if_splits prod.splits)

text \<open>The credential of a request, if it has one that is understood.\<close>

definition presented :: "('h \<Rightarrow> string option) \<Rightarrow> 'h option \<Rightarrow> string option" where
  "presented to_str header = Option.bind (Option.bind header to_str) credential"

lemma authorize_iff:
  "authorize to_str policy method header = Inr () \<longleftrightarrow>
     (case policy of
        OpenPolicy \<Rightarrow> True
      | PublicPull w \<Rightarrow>
          presented to_str header = Some (expose w) \<or> (header = None \<and> access_of method = ReadAccess)
      | Private r w \<Rightarrow>
          presented to_str header = Some (expose w)
          \<or> (presented to_str header = Some (expose r) \<and> access_of method = ReadAccess))"
proof -
  have k: "key_matches key p \<longleftrightarrow> p = expose key" if "Option.bind v credential = Some p" for v key p
    using that key_matches_iff credential_not_Nil by (cases key) (auto simp: bind_eq_Some_conv)
  show ?thesis
  proof (cases header)
    case None
    then show ?thesis
      by (cases policy) (auto simp: authorize_def authorize_with_def presented_def split: access.splits)
  next
    case (Some h)
    show ?thesis
    proof (cases "Option.bind (to_str h) credential")
      case None
      then show ?thesis using Some
        by (cases policy) (simp_all add: authorize_def authorize_with_def presented_def)
    next
      case (Some p)
      note key = k [OF Some]
      show ?thesis using Some \<open>header = Some h\<close>
        by (cases policy; cases "access_of method")
          (auto simp: authorize_def authorize_with_def presented_def key)
    qed
  qed
qed

text \<open>
  C20. What a request is allowed: with keys that are not empty, anything under the open policy; under public pull a read without a
  credential, and everything with the write key; under the private policy everything with the write key and reads with the read
  key. In particular a credential that is wrong is refused in every mode that looks at it.
\<close>

theorem authorize_exact:
  "authorize to_str policy method header = Inr () \<longleftrightarrow>
     (case policy of
        OpenPolicy \<Rightarrow> True
      | PublicPull w \<Rightarrow>
          presented to_str header = Some (expose w) \<or> (header = None \<and> access_of method = ReadAccess)
      | Private r w \<Rightarrow>
          presented to_str header = Some (expose w)
          \<or> (presented to_str header = Some (expose r) \<and> access_of method = ReadAccess))"
  by (rule authorize_iff)

section \<open>Base64\<close>

text \<open>The encoder of RFC 4648 that the tests of the source build their inputs with, padded.\<close>

definition ALPHABET :: string where
  "ALPHABET = ''ABCDEFGHIJKLMNOPQRSTUVWXYZabcdefghijklmnopqrstuvwxyz0123456789+/''"

definition group_word :: "bytes \<Rightarrow> u32" where
  "group_word g =
     (case g of
        [a] \<Rightarrow> push_bit 16 (ucast a)
      | [a, b] \<Rightarrow> or (push_bit 16 (ucast a)) (push_bit 8 (ucast b))
      | a # b # c # _ \<Rightarrow> or (or (push_bit 16 (ucast a)) (push_bit 8 (ucast b))) (ucast c)
      | [] \<Rightarrow> 0)"

definition group_chars :: "bytes \<Rightarrow> string" where
  "group_chars g = map (\<lambda>i. ALPHABET ! unat (and (drop_bit (18 - 6 * i) (group_word g)) 0x3F)) [0..<length g + 1]"

fun base64_plain :: "bytes \<Rightarrow> string" where
  "base64_plain [] = []"
| "base64_plain [a] = group_chars [a]"
| "base64_plain [a, b] = group_chars [a, b]"
| "base64_plain (a # b # c # r) = group_chars [a, b, c] @ base64_plain r"

definition base64_encode :: "bytes \<Rightarrow> string" where
  "base64_encode bs = base64_plain bs @ replicate ((3 - length bs mod 3) mod 3) CHR ''=''"

lemma sextets_of_alphabet: "map (\<lambda>c. sextet (char_byte c)) ALPHABET = map (\<lambda>n. Some (word_of_nat n)) [0..<64]"
  by (simp add: ALPHABET_def sextet_def char_byte_def upt_rec)

lemma sextet_alphabet:
  assumes "n < 64"
  shows "sextet (char_byte (ALPHABET ! n)) = Some (word_of_nat n)"
proof -
  have "length ALPHABET = 64" by (simp add: ALPHABET_def)
  then show ?thesis
    using arg_cong [OF sextets_of_alphabet, of "\<lambda>l. l ! n"] assms by simp
qed

lemma alphabet_no_pad:
  assumes "n < 64"
  shows "char_byte (ALPHABET ! n) \<noteq> 0x3D"
  using sextet_alphabet [OF assms] by (auto simp: sextet_def)

lemma and_63_less: "unat (and (w :: u32) 0x3F) < 64"
proof -
  have "and w 0x3F = take_bit 6 w" by (simp add: take_bit_eq_mask mask_eq_exp_minus_1)
  then show ?thesis using take_bit_nat_less_exp [of 6 "unat w"] by (simp add: unsigned_take_bit_eq)
qed

lemma sextet_of_word: "sextet (char_byte (ALPHABET ! unat (and w 0x3F))) = Some (and (w :: u32) 0x3F)"
  using sextet_alphabet [OF and_63_less] by simp

lemma mask_63: "and (w :: u32) 0x3F = take_bit 6 w"
  by (simp add: take_bit_eq_mask mask_eq_exp_minus_1)

lemma mask_255: "and (w :: u32) 0xFF = take_bit 8 w"
  by (simp add: take_bit_eq_mask mask_eq_exp_minus_1)

text \<open>Shifting six bits in puts the next six of a word below what is there.\<close>

lemma shift_in:
  "or (push_bit 6 (take_bit m (drop_bit 6 h))) (take_bit 6 h) = take_bit (m + 6) (h :: u32)"
  by (rule bit_eqI) (auto simp: bit_simps)

lemma sextets_group:
  fixes g :: u32
  shows "or (push_bit 6 0) (and (drop_bit 18 g) 0x3F) = take_bit 6 (drop_bit 18 g)"
    and "or (push_bit 6 (take_bit 6 (drop_bit 18 g))) (and (drop_bit 12 g) 0x3F) = take_bit 12 (drop_bit 12 g)"
    and "or (push_bit 6 (take_bit 12 (drop_bit 12 g))) (and (drop_bit 6 g) 0x3F) = take_bit 18 (drop_bit 6 g)"
    and "or (push_bit 6 (take_bit 18 (drop_bit 6 g))) (and g 0x3F) = take_bit 24 g"
  using shift_in [of 6 "drop_bit 12 g"] shift_in [of 12 "drop_bit 6 g"] shift_in [of 18 g]
  by (simp_all add: mask_63 drop_bit_drop_bit)

lemma byte_eqI:
  fixes a b :: byte
  assumes "\<And>n. n < 8 \<Longrightarrow> bit a n \<longleftrightarrow> bit b n"
  shows "a = b"
  using assms by (intro bit_word_eqI) simp

lemma bit_byte_high [simp]: "8 \<le> n \<Longrightarrow> \<not> bit (b :: byte) n"
  by (auto dest: bit_imp_le_length)

lemma group_bytes_3:
  "(ucast (and (drop_bit 16 (take_bit 24 (group_word [a, b, c]))) 0xFF) :: byte) = a"
  "(ucast (and (drop_bit 8 (take_bit 24 (group_word [a, b, c]))) 0xFF) :: byte) = b"
  "(ucast (and (take_bit 24 (group_word [a, b, c])) 0xFF) :: byte) = c"
  by (rule byte_eqI; auto simp: mask_255 group_word_def bit_simps)+

lemma group_bytes_2:
  "(ucast (and (drop_bit 16 (push_bit 6 (take_bit 18 (drop_bit 6 (group_word [a, b]))))) 0xFF) :: byte) = a"
  "(ucast (and (drop_bit 8 (push_bit 6 (take_bit 18 (drop_bit 6 (group_word [a, b]))))) 0xFF) :: byte) = b"
  by (rule byte_eqI; auto simp: mask_255 group_word_def bit_simps)+

lemma group_bytes_1:
  "(ucast (and (drop_bit 16 (push_bit 12 (take_bit 12 (drop_bit 12 (group_word [a]))))) 0xFF) :: byte) = a"
  by (rule byte_eqI; auto simp: mask_255 group_word_def bit_simps)

lemma chunk_bytes_group:
  "chunk_bytes (as_bytes (group_chars [a])) = Some [a]"
  "chunk_bytes (as_bytes (group_chars [a, b])) = Some [a, b]"
  "chunk_bytes (as_bytes (group_chars [a, b, c])) = Some [a, b, c]"
  by (simp_all add: chunk_bytes_def group_chars_def upt_rec sextet_of_word sextets_group group_bytes_3 group_bytes_2 group_bytes_1
      del: push_bit_of_0)

lemma length_group_chars [simp]: "length (group_chars g) = length g + 1"
  by (simp add: group_chars_def)

lemma chunks_append: "length x = n \<Longrightarrow> 0 < n \<Longrightarrow> chunks n (x @ r) = x # chunks n r"
  by (subst chunks.simps) auto

lemma chunks_Nil [simp]: "chunks n [] = []"
  by (simp add: chunks.simps)

lemma chunks_short: "x \<noteq> [] \<Longrightarrow> length x \<le> n \<Longrightarrow> chunks n x = [x]"
  by (cases n; subst chunks.simps) auto

lemma decode_plain: "decode_chunks (chunks 4 (as_bytes (base64_plain bs))) = Some bs"
proof (induction bs rule: base64_plain.induct)
  case 1
  show ?case by (simp add: chunks.simps)
next
  case (2 a)
  have "chunks 4 (as_bytes (group_chars [a])) = [as_bytes (group_chars [a])]"
    by (rule chunks_short) (simp_all flip: length_0_conv)
  then show ?case by (simp add: chunk_bytes_group)
next
  case (3 a b)
  have "chunks 4 (as_bytes (group_chars [a, b])) = [as_bytes (group_chars [a, b])]"
    by (rule chunks_short) (simp_all flip: length_0_conv)
  then show ?case by (simp add: chunk_bytes_group)
next
  case (4 a b c r)
  then show ?case by (simp add: chunks_append chunk_bytes_group)
qed

lemma length_base64_plain: "length (base64_plain bs) mod 4 \<noteq> 1"
  by (induction bs rule: base64_plain.induct) simp_all

lemma group_chars_alphabet: "c \<in> set (group_chars g) \<Longrightarrow> \<exists>n < 64. c = ALPHABET ! n"
  using and_63_less by (auto simp: group_chars_def)

lemma base64_plain_alphabet: "c \<in> set (base64_plain bs) \<Longrightarrow> \<exists>n < 64. c = ALPHABET ! n"
  by (induction bs rule: base64_plain.induct) (use group_chars_alphabet in auto)

lemma base64_plain_no_pad: "0x3D \<notin> set (as_bytes (base64_plain bs))"
proof
  assume "0x3D \<in> set (as_bytes (base64_plain bs))"
  then obtain c where "c \<in> set (base64_plain bs)" "char_byte c = 0x3D" by (auto simp: as_bytes_def)
  then show False using base64_plain_alphabet alphabet_no_pad by blast
qed

lemma strip_suffix_append: "strip_suffix (x @ s) s = Some x"
  by (simp add: strip_suffix_def suffix_def)

lemma strip_suffix_None: "s \<noteq> [] \<Longrightarrow> last s \<notin> set x \<Longrightarrow> strip_suffix x s = None"
  by (auto simp: strip_suffix_def suffix_def)

lemma base64_decode_padded:
  assumes "k \<le> 2"
  shows "base64_decode (base64_plain bs @ replicate k CHR ''='') = Some bs"
proof -
  let ?p = "as_bytes (base64_plain bs)"
  have none: "strip_suffix ?p [0x3D, 0x3D] = None" "strip_suffix ?p [0x3D] = None"
    using base64_plain_no_pad by (auto intro!: strip_suffix_None)
  have one: "strip_suffix (?p @ [0x3D]) [0x3D, 0x3D] = None"
    using base64_plain_no_pad [of bs] by (auto simp: strip_suffix_def suffix_def Cons_eq_append_conv append_eq_append_conv2)
  have pad: "char_byte CHR ''='' = 0x3D" by (simp add: char_byte_def)
  consider "k = 0" | "k = 1" | "k = 2" using assms by linarith
  then show ?thesis
  proof cases
    case 1
    then show ?thesis
      using length_base64_plain by (simp add: base64_decode_def Let_def none decode_plain)
  next
    case 2
    then show ?thesis
      using length_base64_plain strip_suffix_append [of ?p "[0x3D]"]
      by (simp add: base64_decode_def Let_def one pad decode_plain)
  next
    case 3
    then show ?thesis
      using length_base64_plain strip_suffix_append [of ?p "[0x3D, 0x3D]"]
      by (simp add: base64_decode_def Let_def pad decode_plain numeral_2_eq_2)
  qed
qed

lemma alphabet_graphic: "n < 64 \<Longrightarrow> is_graphic (ALPHABET ! n)"
proof -
  assume "n < 64"
  have "list_all is_graphic ALPHABET" "length ALPHABET = 64" by (simp_all add: ALPHABET_def is_graphic_def)
  with \<open>n < 64\<close> show ?thesis by (simp add: list_all_length)
qed

lemma trim_base64: "trim (base64_plain bs @ replicate k CHR ''='') = base64_plain bs @ replicate k CHR ''=''"
proof (rule trim_plain)
  let ?t = "base64_plain bs @ replicate k CHR ''=''"
  assume "?t \<noteq> []"
  moreover have "is_graphic CHR ''=''" by (simp add: is_graphic_def)
  then have "\<forall>c \<in> set ?t. is_graphic c" using base64_plain_alphabet alphabet_graphic by fastforce
  ultimately show "is_graphic (hd ?t) \<and> is_graphic (last ?t)" by (metis hd_in_set last_in_set)
qed

text \<open>
  A Basic credential is read back: the base64 text of any user and password decodes to them, padded or not, and gives
  the password, or the user when the password is empty; a bearer credential gives its text.
\<close>

theorem credential_roundtrip:
  assumes "is_str (user @ '':'' @ password)" and "CHR '':'' \<notin> set user" and "user \<noteq> [] \<or> password \<noteq> []"
    and "k \<le> 2"
  shows "base64_decode (base64_plain bs @ replicate k CHR ''='') = Some bs
    \<and> credential (''Basic '' @ base64_plain (as_bytes (user @ '':'' @ password)) @ replicate k CHR ''='')
        = Some (if password = [] then user else password)
    \<and> (user \<noteq> [] \<longrightarrow> is_graphic (hd user) \<longrightarrow> is_graphic (last user) \<longrightarrow> credential (''Bearer '' @ user) = Some user)"
proof (intro conjI impI)
  show "base64_decode (base64_plain bs @ replicate k CHR ''='') = Some bs" for bs
    using assms(4) by (rule base64_decode_padded)
  then have d: "base64_decode (base64_plain (as_bytes (user @ '':'' @ password)) @ replicate k CHR ''='')
      = Some (as_bytes (user @ '':'' @ password))" by blast
  have basic: "split_once CHR '' '' (''Basic '' @ t) = Some (''Basic'', t)" for t
    using split_once_append [of "CHR '' ''" "''Basic''" t] by simp
  have bearer: "split_once CHR '' '' (''Bearer '' @ t) = Some (''Bearer'', t)" for t
    using split_once_append [of "CHR '' ''" "''Bearer''" t] by simp
  have scheme: "\<not> eq_ignore_ascii_case ''Basic'' ''bearer''" "eq_ignore_ascii_case ''Basic'' ''basic''"
    "eq_ignore_ascii_case ''Bearer'' ''bearer''"
    by code_simp+
  have colon: "split_once CHR '':'' (user @ '':'' @ password) = Some (user, password)"
    using assms(2) split_once_append by simp
  show "credential (''Basic '' @ base64_plain (as_bytes (user @ '':'' @ password)) @ replicate k CHR ''='')
        = Some (if password = [] then user else password)"
    unfolding credential_def basic option.case prod.case Let_def trim_base64 d
    using scheme from_utf8_as_bytes [OF assms(1)] colon assms(3)
    by (auto simp del: as_bytes_append as_bytes_Cons append_Cons)
  show "credential (''Bearer '' @ user) = Some user"
    if "user \<noteq> []" "is_graphic (hd user)" "is_graphic (last user)"
    using that trim_plain [of user] unfolding credential_def bearer by (simp add: scheme Let_def)
qed

theorem credential_roundtrip_witness:
  "credential ''Basic dTpr'' = Some ''k'' \<and> credential ''Bearer u'' = Some ''u''"
proof -
  have s: "is_str (''u'' @ '':'' @ ''k'')" by (simp add: is_str_def char_byte_def)
  have b: "base64_plain (as_bytes (''u'' @ '':'' @ ''k'')) = ''dTpr''" by code_simp
  have g: "is_graphic CHR ''u''" by (simp add: is_graphic_def)
  show ?thesis
    using credential_roundtrip [OF s, of 0 "[]"] g unfolding b by simp
qed

end
