(* ===== verification/Summ_Config.thy ===== *)
theory Summ_Config
  imports Summ_Auth
begin

text \<open>
  The configuration of the server (\<open>summ-server/src/config.rs\<close>): durations, the limits of the handlers, and the policy
  that the arguments choose.

  A duration is its number of seconds. Parsing the command line itself is \<open>clap\<close>'s work: the arguments are a record.
\<close>

definition DEFAULT_MAX_UPLOAD_BYTES :: u64 where
  "DEFAULT_MAX_UPLOAD_BYTES = 32 * 1024 * 1024 * 1024"

record purge_config =
  pc_enabled :: bool
  pc_interval :: u64
  pc_grace :: u64
  pc_upload_ttl :: u64
  pc_untagged :: bool
  pc_untagged_min_age :: u64

definition default_purge_config :: purge_config where
  "default_purge_config =
     \<lparr>pc_enabled = True, pc_interval = 60 * 60, pc_grace = 24 * 60 * 60, pc_upload_ttl = 24 * 60 * 60,
      pc_untagged = False, pc_untagged_min_age = 7 * 24 * 60 * 60\<rparr>"

definition saturating_mul :: "u64 \<Rightarrow> u64 \<Rightarrow> u64" where
  "saturating_mul a b = (if unat a * unat b < 2 ^ 64 then a * b else - 1)"

definition duration_unit :: "string \<Rightarrow> (string \<times> u64) option" where
  "duration_unit text =
     (if text = [] then None
      else if is_ascii_digit (last text) then Some (text, 1)
      else if last text = CHR ''s'' then Some (butlast text, 1)
      else if last text = CHR ''m'' then Some (butlast text, 60)
      else if last text = CHR ''h'' then Some (butlast text, 60 * 60)
      else if last text = CHR ''d'' then Some (butlast text, 24 * 60 * 60)
      else None)"

definition parse_duration :: "string \<Rightarrow> string + u64" where
  "parse_duration text =
     (let t = trim text; err = '' is not a duration: use 30s, 10m, 24h or 7d'' in
      case duration_unit t of
        None \<Rightarrow> Inl err
      | Some (count, u) \<Rightarrow>
          (case parse_u64 (trim count) of
             None \<Rightarrow> Inl err
           | Some n \<Rightarrow> Inr (saturating_mul n u)))"

record server_config =
  cfg_max_manifest_bytes :: nat
  cfg_max_upload_bytes :: "u64 option"
  cfg_default_page_size :: nat
  cfg_max_page_size :: nat
  cfg_max_tag_params :: nat
  cfg_chunk_min_length :: "u64 option"
  cfg_referrers_enabled :: bool
  cfg_auth :: auth_policy

definition default_server_config :: server_config where
  "default_server_config =
     \<lparr>cfg_max_manifest_bytes = 8 * 1024 * 1024, cfg_max_upload_bytes = Some DEFAULT_MAX_UPLOAD_BYTES,
      cfg_default_page_size = 1000, cfg_max_page_size = 1000, cfg_max_tag_params = 32, cfg_chunk_min_length = None,
      cfg_referrers_enabled = True, cfg_auth = OpenPolicy\<rparr>"

datatype auth_mode = OpenMode | PublicPullMode | PrivateMode

record serve_args =
  arg_listen :: string
  arg_data_dir :: string
  arg_allow_missing_references :: bool
  arg_max_manifest_bytes :: nat
  arg_max_upload_bytes :: u64
  arg_default_page_size :: nat
  arg_max_page_size :: nat
  arg_no_referrers :: bool
  arg_no_pull_counts :: bool
  arg_auth_mode :: auth_mode
  arg_no_purge :: bool
  arg_purge_interval :: u64
  arg_purge_grace :: u64
  arg_upload_ttl :: u64
  arg_purge_untagged :: bool
  arg_purge_untagged_min_age :: u64
  arg_read_apikey :: "string option"
  arg_write_apikey :: "string option"

definition purge_config_of :: "serve_args \<Rightarrow> purge_config" where
  "purge_config_of a =
     \<lparr>pc_enabled = (\<not> arg_no_purge a), pc_interval = arg_purge_interval a, pc_grace = arg_purge_grace a,
      pc_upload_ttl = arg_upload_ttl a, pc_untagged = arg_purge_untagged a,
      pc_untagged_min_age = arg_purge_untagged_min_age a\<rparr>"

text \<open>The policy of the mode, with the key material for the keys that have to be generated.\<close>

definition auth_of_args ::
  "bytes \<times> bytes \<Rightarrow> bytes \<times> bytes \<Rightarrow> serve_args \<Rightarrow> string + (auth_policy \<times> generated option)" where
  "auth_of_args uuids uuids' a =
     (case arg_auth_mode a of
        OpenMode \<Rightarrow>
          if arg_read_apikey a \<noteq> None \<or> arg_write_apikey a \<noteq> None
          then Inl ''an API key was supplied but --auth-mode is `open`''
          else Inr (OpenPolicy, None)
      | PublicPullMode \<Rightarrow>
          if arg_read_apikey a \<noteq> None
          then Inl ''a read API key was supplied but --auth-mode is `public-pull`''
          else and_then (for_public_pull uuids (arg_write_apikey a)) (\<lambda>(p, g). Inr (p, Some g))
      | PrivateMode \<Rightarrow>
          and_then (for_private uuids uuids' (arg_read_apikey a) (arg_write_apikey a)) (\<lambda>(p, g). Inr (p, Some g)))"

definition server_config_of ::
  "bytes \<times> bytes \<Rightarrow> bytes \<times> bytes \<Rightarrow> serve_args \<Rightarrow> string + (server_config \<times> generated option)" where
  "server_config_of uuids uuids' a =
     and_then (auth_of_args uuids uuids' a) (\<lambda>(auth, g).
       Inr (default_server_config
              \<lparr>cfg_max_manifest_bytes := arg_max_manifest_bytes a,
               cfg_max_upload_bytes := (if 0 < arg_max_upload_bytes a then Some (arg_max_upload_bytes a) else None),
               cfg_default_page_size := arg_default_page_size a,
               cfg_max_page_size := arg_max_page_size a,
               cfg_referrers_enabled := (\<not> arg_no_referrers a),
               cfg_auth := auth\<rparr>, g))"

section \<open>Durations\<close>

lemma unat_saturating_mul: "unat (saturating_mul a b) = min (unat a * unat b) (2 ^ 64 - 1)"
proof (cases "unat a * unat b < 2 ^ 64")
  case True
  then have "unat (a * b) = unat a * unat b" by (simp add: unat_mult_lem [THEN iffD1])
  with True show ?thesis by (simp add: saturating_mul_def)
next
  case False
  have "unat (- 1 :: u64) = 2 ^ 64 - 1" by (simp add: unsigned_minus_1_eq_mask mask_eq_exp_minus_1)
  with False show ?thesis by (simp add: saturating_mul_def)
qed

text \<open>A count of a unit is that many of its seconds, and saturates; a bare count is seconds.\<close>

lemma parse_duration_count:
  assumes n: "n < 2 ^ 64" and u: "(c, k) \<in> {(CHR ''s'', 1), (CHR ''m'', 60), (CHR ''h'', 3600), (CHR ''d'', 86400)}"
  shows "\<exists>d. parse_duration (show_nat n @ [c]) = Inr d \<and> unat d = min (n * k) (2 ^ 64 - 1)"
    and "parse_duration (show_nat n) = Inr (word_of_nat n)"
proof -
  have c: "is_graphic c" "\<not> is_ascii_digit c" using u by (auto simp: is_graphic_def is_ascii_digit_def)
  have "is_graphic (hd (show_nat n))" using show_nat_digits [of "hd (show_nat n)" n] is_graphic_digit by simp
  then have t: "trim (show_nat n @ [c]) = show_nat n @ [c]" using c by (intro trim_plain) simp
  have "\<exists>w. duration_unit (show_nat n @ [c]) = Some (show_nat n, w) \<and> unat w = k"
    using u c by (auto simp: duration_unit_def)
  then obtain w where w: "duration_unit (show_nat n @ [c]) = Some (show_nat n, w)" "unat w = k" by blast
  have "unat (saturating_mul (word_of_nat n) w) = min (n * k) (2 ^ 64 - 1)"
    unfolding unat_saturating_mul w(2) using n by (simp add: unat_of_nat)
  then show "\<exists>d. parse_duration (show_nat n @ [c]) = Inr d \<and> unat d = min (n * k) (2 ^ 64 - 1)"
    using parse_u64_show [OF n] by (simp add: parse_duration_def t w Let_def)
  have "is_ascii_digit (last (show_nat n))" using show_nat_digits [of "last (show_nat n)" n] by simp
  then have "duration_unit (show_nat n) = Some (show_nat n, 1)" by (simp add: duration_unit_def)
  moreover have "saturating_mul (word_of_nat n) 1 = word_of_nat n"
    using n by (simp add: saturating_mul_def unat_of_nat)
  ultimately show "parse_duration (show_nat n) = Inr (word_of_nat n)"
    using parse_u64_show [OF n] by (simp add: parse_duration_def Let_def)
qed

section \<open>The policy of the arguments\<close>

lemma nonempty_Inr: "nonempty label key = Inr u \<Longrightarrow> key \<noteq> Some []"
  by (auto simp: nonempty_def)

lemma auth_of_args_Inr:
  assumes "auth_of_args uuids uuids' a = Inr (p, g)"
  shows "(arg_auth_mode a = OpenMode \<and> p = OpenPolicy \<and> arg_read_apikey a = None \<and> arg_write_apikey a = None)
    \<or> (arg_auth_mode a = PublicPullMode \<and> arg_read_apikey a = None \<and> arg_write_apikey a \<noteq> Some []
        \<and> p = PublicPull (key_or_generated uuids (arg_write_apikey a)))
    \<or> (arg_auth_mode a = PrivateMode \<and> arg_read_apikey a \<noteq> Some [] \<and> arg_write_apikey a \<noteq> Some []
        \<and> p = Private (key_or_generated uuids (arg_read_apikey a)) (key_or_generated uuids' (arg_write_apikey a)))"
proof (cases "arg_auth_mode a")
  case OpenMode
  with assms show ?thesis by (simp add: auth_of_args_def split: if_splits)
next
  case PublicPullMode
  with assms show ?thesis
    by (auto simp: auth_of_args_def for_public_pull_def and_then_Inr dest: nonempty_Inr split: if_splits)
next
  case PrivateMode
  with assms show ?thesis
    by (auto simp: auth_of_args_def for_private_def and_then_Inr dest: nonempty_Inr)
qed

text \<open>
  A server that starts is as open as its mode says: only the open mode, which refuses to start with a key, answers a write without a
  credential; a supplied write key authorises every request in the other two modes, and a supplied read key reads and nothing more
  unless it is also the write key.
\<close>

theorem started_as_configured:
  assumes "server_config_of uuids uuids' a = Inr (c, g)"
    and "presented to_str (Some h) = Some k"
  shows "(authorize to_str (cfg_auth c) method None = Inr () \<longleftrightarrow>
           arg_auth_mode a = OpenMode \<or> (arg_auth_mode a = PublicPullMode \<and> access_of method = ReadAccess))
    \<and> (arg_write_apikey a = Some k \<longrightarrow> arg_auth_mode a \<noteq> OpenMode \<and> authorize to_str (cfg_auth c) method (Some h) = Inr ())
    \<and> (arg_read_apikey a = Some k \<longrightarrow> arg_auth_mode a = PrivateMode
         \<and> (authorize to_str (cfg_auth c) method (Some h) = Inr () \<longleftrightarrow>
              access_of method = ReadAccess \<or> expose (key_or_generated uuids' (arg_write_apikey a)) = k))"
proof -
  have p: "auth_of_args uuids uuids' a = Inr (cfg_auth c, g)"
    using assms(1) by (auto simp: server_config_of_def and_then_Inr)
  have none: "presented to_str None = None" by (simp add: presented_def)
  have key: "expose (key_or_generated u (Some k)) = k" for u by (simp add: key_or_generated_def)
  from auth_of_args_Inr [OF p] show ?thesis
    unfolding authorize_iff assms(2) none
    by (elim disjE conjE) (auto simp: key)
qed

text \<open>A write key on the command line of a public registry.\<close>

definition example_args :: serve_args where
  "example_args =
     \<lparr>arg_listen = ''127.0.0.1:3110'', arg_data_dir = ''./data'', arg_allow_missing_references = False,
      arg_max_manifest_bytes = 8388608, arg_max_upload_bytes = 0, arg_default_page_size = 1000,
      arg_max_page_size = 1000, arg_no_referrers = False, arg_no_pull_counts = False, arg_auth_mode = PublicPullMode,
      arg_no_purge = False, arg_purge_interval = 3600, arg_purge_grace = 86400, arg_upload_ttl = 86400,
      arg_purge_untagged = False, arg_purge_untagged_min_age = 604800, arg_read_apikey = None,
      arg_write_apikey = Some ''u''\<rparr>"

theorem started_as_configured_witness:
  "\<exists>c. server_config_of ([], []) ([], []) example_args = Inr (c, Some \<lparr>gen_read = False, gen_write = False\<rparr>)
     \<and> authorize Some (cfg_auth c) PUT None \<noteq> Inr () \<and> authorize Some (cfg_auth c) PUT (Some ''Bearer u'') = Inr ()"
proof -
  have "trim ''u'' = ''u''" by (rule trim_plain) (simp add: is_graphic_def)
  then obtain c where c: "server_config_of ([], []) ([], []) example_args = Inr (c, Some \<lparr>gen_read = False, gen_write = False\<rparr>)"
    by (simp add: server_config_of_def auth_of_args_def for_public_pull_def nonempty_def example_args_def)
  have "split_once CHR '' '' ''Bearer u'' = Some (''Bearer'', ''u'')" by (simp add: split_once_def)
  moreover have "eq_ignore_ascii_case ''Bearer'' ''bearer''" by code_simp
  ultimately have "presented Some (Some ''Bearer u'') = Some ''u''"
    using \<open>trim ''u'' = ''u''\<close> by (simp add: presented_def credential_def)
  from started_as_configured [OF c this, of PUT] c show ?thesis
    by (auto simp: example_args_def access_of_def)
qed

end
