(* ===== verification/Summ_Route.thy ===== *)
theory Summ_Route
  imports Summ_Config
begin

text \<open>
  Pages and their \<open>Link\<close> (\<open>summ-server/src/pagination.rs\<close>), the dispatch of paths (\<open>app.rs\<close>) and
  the locations that the upload handlers answer (\<open>handlers/uploads.rs\<close>).

  Page sizes (\<open>usize\<close>) are natural numbers; every \<open>u64\<close> is one. The parameter \<open>header_ok\<close> stands for
  \<open>HeaderValue::from_str\<close>, which may refuse a text.
\<close>

section \<open>Pages\<close>

record page_params =
  page_limit :: nat
  page_last :: "string option"
  page_zero :: bool

definition nonempty_value :: "string option \<Rightarrow> string option" where
  "nonempty_value v = (case v of Some s \<Rightarrow> if s \<noteq> [] then Some s else None | None \<Rightarrow> None)"

definition parse_page :: "(string \<times> string) list \<Rightarrow> server_config \<Rightarrow> api_error + page_params" where
  "parse_page ps config =
     and_then
       (case first ps ''n'' of
          None \<Rightarrow> Inr (cfg_default_page_size config, False)
        | Some value \<Rightarrow>
            (case parse_u64 value of
               None \<Rightarrow> Inl (with_detail (''n='' @ value) (new_error CodePaginationNumberInvalid))
             | Some n \<Rightarrow> Inr (min (unat n) (cfg_max_page_size config), n = 0)))
       (\<lambda>(limit, zero).
         Inr \<lparr>page_limit = limit, page_last = nonempty_value (first ps ''last''), page_zero = zero\<rparr>)"

definition LINK_NEXT :: string where
  "LINK_NEXT = ''>; rel='' @ [CHR 0x22] @ ''next'' @ [CHR 0x22]"

definition link_next :: "(string \<Rightarrow> bool) \<Rightarrow> string \<Rightarrow> string \<Rightarrow> nat \<Rightarrow> string option" where
  "link_next header_ok path last_item n =
     (let value = ''<'' @ path @ ''?last='' @ query_escape last_item @ ''&n='' @ show_nat n @ LINK_NEXT in
      if header_ok value then Some value else None)"

definition link_next_referrers ::
  "(string \<Rightarrow> bool) \<Rightarrow> string \<Rightarrow> string option \<Rightarrow> string \<Rightarrow> nat \<Rightarrow> string option" where
  "link_next_referrers header_ok path artifact_type last_item n =
     (let filter_text =
            (case artifact_type of Some t \<Rightarrow> ''artifactType='' @ query_escape t @ ''&'' | None \<Rightarrow> []);
          value = ''<'' @ path @ ''?'' @ filter_text @ ''last='' @ query_escape last_item @ ''&n='' @ show_nat n @ LINK_NEXT in
      if header_ok value then Some value else None)"

lemma form_decode_plain: "CHR ''%'' \<notin> set s \<Longrightarrow> CHR ''+'' \<notin> set s \<Longrightarrow> form_decode s = s"
  by (simp add: form_decode_def percent_decode_def)

lemma query_escape_free: "\<not> query_safe c \<Longrightarrow> c \<notin> set (query_escape s)"
  using query_escape_safe by blast

lemma show_nat_free: "\<not> is_ascii_digit c \<Longrightarrow> c \<notin> set (show_nat n)"
  using show_nat_digits by blast

lemma not_safe: "\<not> query_safe CHR ''&''" "\<not> query_safe CHR ''=''" "\<not> query_safe CHR ''>''" "\<not> query_safe CHR ''?''"
    "\<not> query_safe CHR '' ''"
  by (simp_all add: query_safe_def unreserved_def char_byte_def)

lemma not_digit: "\<not> is_ascii_digit CHR ''&''" "\<not> is_ascii_digit CHR ''>''" "\<not> is_ascii_digit CHR ''?''"
    "\<not> is_ascii_digit CHR ''%''" "\<not> is_ascii_digit CHR ''+''"
  by (simp_all add: is_ascii_digit_def)

lemma pair_of_escaped:
  assumes "is_str s" and "CHR ''='' \<notin> set k" and "CHR ''%'' \<notin> set k" and "CHR ''+'' \<notin> set k"
  shows "pair_of (k @ CHR ''='' # query_escape s) = (k, s)"
  using assms by (simp add: pair_of_def split_once_append form_decode_plain)

lemma pair_of_number: "pair_of (CHR ''n'' # CHR ''='' # show_nat n) = (''n'', show_nat n)"
  using split_once_append [of "CHR ''=''" "''n''" "show_nat n"]
  by (simp add: pair_of_def form_decode_plain show_nat_free not_digit)

lemma split_on_part: "c \<notin> set a \<Longrightarrow> split_on c (a @ c # b) = a # split_on c b"
  by (rule split_on_append)

lemma pairs_last_n:
  assumes "is_str s"
  shows "pairs (''last='' @ query_escape s @ ''&n='' @ show_nat n) = [(''last'', s), (''n'', show_nat n)]"
proof -
  have "split_on CHR ''&'' ((''last='' @ query_escape s) @ CHR ''&'' # ''n='' @ show_nat n)
      = [''last='' @ query_escape s, ''n='' @ show_nat n]"
    by (subst split_on_part) (simp_all add: query_escape_free not_safe show_nat_free not_digit)
  then show ?thesis
    using pair_of_escaped [OF assms, of "''last''"] pair_of_number by (simp add: pairs_def)
qed

lemma pairs_type_last_n:
  assumes "is_str s" and "is_str t"
  shows "pairs (''artifactType='' @ query_escape t @ ''&last='' @ query_escape s @ ''&n='' @ show_nat n)
    = (''artifactType'', t) # pairs (''last='' @ query_escape s @ ''&n='' @ show_nat n)"
proof -
  have "split_on CHR ''&'' ((''artifactType='' @ query_escape t) @ CHR ''&'' # ''last='' @ query_escape s @ ''&n='' @ show_nat n)
      = (''artifactType='' @ query_escape t) # split_on CHR ''&'' (''last='' @ query_escape s @ ''&n='' @ show_nat n)"
    by (rule split_on_part) (simp add: query_escape_free not_safe)
  then show ?thesis
    using pair_of_escaped [OF assms(2), of "''artifactType''"] by (simp add: pairs_def)
qed

lemma query_of_link_free:
  assumes "c \<in> {CHR ''>'', CHR ''?''}"
  shows "c \<notin> set (''last='' @ query_escape s @ ''&n='' @ show_nat n)"
  using assms query_escape_free [of c s] show_nat_free [of c n] not_safe not_digit by auto

text \<open>
  A \<open>Link\<close> is a complete instruction for the next page: between its question mark and its closing bracket is a query that
  reads back as exactly the cursor and the page size that it was built from, and for referrers the filter too, whatever characters they
  hold.
\<close>

theorem link_resumes:
  assumes "is_str item" and "item \<noteq> []" and "is_str t" and "n < 2 ^ 64"
    and "link_next header_ok path item n = Some link"
    and "link_next_referrers header_ok path (Some t) item n = Some rlink"
  shows "\<exists>q. link = ''<'' @ path @ ''?'' @ q @ LINK_NEXT \<and> CHR ''>'' \<notin> set q
      \<and> rlink = ''<'' @ path @ ''?artifactType='' @ query_escape t @ ''&'' @ q @ LINK_NEXT
      \<and> parse_page (pairs q) config =
          Inr \<lparr>page_limit = min n (cfg_max_page_size config), page_last = Some item, page_zero = (n = 0)\<rparr>
      \<and> parse_page (pairs (''artifactType='' @ query_escape t @ ''&'' @ q)) config = parse_page (pairs q) config
      \<and> first (pairs (''artifactType='' @ query_escape t @ ''&'' @ q)) ''artifactType'' = Some t
      \<and> first (pairs q) ''artifactType'' = None"
proof -
  let ?q = "''last='' @ query_escape item @ ''&n='' @ show_nat n"
  have p: "pairs ?q = [(''last'', item), (''n'', show_nat n)]" by (rule pairs_last_n [OF assms(1)])
  have r: "pairs (''artifactType='' @ query_escape t @ ''&'' @ ?q) = (''artifactType'', t) # pairs ?q"
    using pairs_type_last_n [OF assms(1,3)] by simp
  have page: "parse_page ps config =
      Inr \<lparr>page_limit = min n (cfg_max_page_size config), page_last = Some item, page_zero = (n = 0)\<rparr>"
    if "first ps ''n'' = Some (show_nat n)" "first ps ''last'' = Some item" for ps
    using that assms(2,4) by (simp add: parse_page_def nonempty_value_def unat_of_nat unat_eq_0 [symmetric])
  show ?thesis
  proof (intro exI [of _ ?q] conjI)
    show "link = ''<'' @ path @ ''?'' @ ?q @ LINK_NEXT"
      using assms(5) by (simp add: link_next_def Let_def split: if_splits)
    show "CHR ''>'' \<notin> set ?q" by (rule query_of_link_free) simp
    show "rlink = ''<'' @ path @ ''?artifactType='' @ query_escape t @ ''&'' @ ?q @ LINK_NEXT"
      using assms(6) by (simp add: link_next_referrers_def Let_def split: if_splits)
    show "parse_page (pairs ?q) config =
        Inr \<lparr>page_limit = min n (cfg_max_page_size config), page_last = Some item, page_zero = (n = 0)\<rparr>"
      unfolding p by (rule page) (simp_all add: first_def)
    then show "parse_page (pairs (''artifactType='' @ query_escape t @ ''&'' @ ?q)) config = parse_page (pairs ?q) config"
      unfolding r p by (subst page) (simp_all add: first_def)
    show "first (pairs (''artifactType='' @ query_escape t @ ''&'' @ ?q)) ''artifactType'' = Some t"
      unfolding r by (simp add: first_def)
    show "first (pairs ?q) ''artifactType'' = None" unfolding p by (simp add: first_def)
  qed
qed

theorem link_resumes_witness:
  "\<exists>q. ''</v2/a/tags/list?last=v1&n=2'' @ LINK_NEXT = ''<'' @ ''/v2/a/tags/list'' @ ''?'' @ q @ LINK_NEXT
     \<and> parse_page (pairs q) default_server_config = Inr \<lparr>page_limit = 2, page_last = Some ''v1'', page_zero = False\<rparr>"
proof -
  have s: "is_str ''v1''" "is_str ''t''" by (simp_all add: is_str_def char_byte_def)
  have "query_escape ''v1'' = ''v1''" by code_simp
  moreover have "show_nat 2 = ''2''" by code_simp
  ultimately have l: "link_next (\<lambda>_. True) ''/v2/a/tags/list'' ''v1'' 2 = Some (''</v2/a/tags/list?last=v1&n=2'' @ LINK_NEXT)"
    by (simp add: link_next_def)
  obtain r where "link_next_referrers (\<lambda>_. True) ''/v2/a/tags/list'' (Some ''t'') ''v1'' 2 = Some r"
    by (simp add: link_next_referrers_def Let_def)
  from link_resumes [OF s(1) _ s(2) _ l this, of default_server_config]
  show ?thesis by (auto simp: default_server_config_def)
qed

section \<open>Paths under \<open>/v2/\<close>\<close>

datatype endpoint =
    EpBase
  | EpCatalog
  | EpTagList string
  | EpManifest string string
  | EpBlob string string
  | EpUploads string
  | EpUpload string string
  | EpReferrers string string

datatype route_error = InvalidName string | NoMatch

definition route_name_of :: "string list \<Rightarrow> nat \<Rightarrow> route_error + string" where
  "route_name_of segments count =
     (if length segments < count \<or> take count segments = [] then Inl NoMatch
      else (let name = join ''/'' (take count segments) in
            if valid_name name then Inr name else Inl (InvalidName name)))"

text \<open>The segments of a path: decoded one by one after the split, a trailing empty one dropped.\<close>

definition path_segments :: "string \<Rightarrow> string list" where
  "path_segments rest =
     (let segments = map path_decode (split_on CHR ''/'' rest) in
      if segments \<noteq> [] \<and> last segments = [] then butlast segments else segments)"

definition dispatch :: "string list \<Rightarrow> route_error + endpoint" where
  "dispatch segments =
     (let n = length segments in
      if [] \<in> set segments then Inl NoMatch
      else if n = 1 \<and> segments ! 0 = ''_catalog'' then Inr EpCatalog
      else if 4 \<le> n \<and> segments ! (n - 3) = ''blobs'' \<and> segments ! (n - 2) = ''uploads'' then
        and_then (route_name_of segments (n - 3)) (\<lambda>name. Inr (EpUpload name (segments ! (n - 1))))
      else if 3 \<le> n \<and> segments ! (n - 2) = ''blobs'' \<and> segments ! (n - 1) = ''uploads'' then
        and_then (route_name_of segments (n - 2)) (\<lambda>name. Inr (EpUploads name))
      else if 3 \<le> n \<and> segments ! (n - 2) = ''manifests'' then
        and_then (route_name_of (butlast segments) (n - 2)) (\<lambda>name. Inr (EpManifest name (last segments)))
      else if 3 \<le> n \<and> segments ! (n - 2) = ''blobs'' then
        and_then (route_name_of (butlast segments) (n - 2)) (\<lambda>name. Inr (EpBlob name (last segments)))
      else if 3 \<le> n \<and> segments ! (n - 2) = ''tags'' \<and> segments ! (n - 1) = ''list'' then
        and_then (route_name_of segments (n - 2)) (\<lambda>name. Inr (EpTagList name))
      else if 3 \<le> n \<and> segments ! (n - 2) = ''referrers'' then
        and_then (route_name_of (butlast segments) (n - 2)) (\<lambda>name. Inr (EpReferrers name (last segments)))
      else Inl NoMatch)"

definition route :: "string \<Rightarrow> route_error + endpoint" where
  "route path =
     (case strip_prefix path ''/v2'' of
        None \<Rightarrow> Inl NoMatch
      | Some rest \<Rightarrow>
          if rest = [] \<or> rest = ''/'' then Inr EpBase
          else (case strip_prefix rest ''/'' of
                  None \<Rightarrow> Inl NoMatch
                | Some rest \<Rightarrow> dispatch (path_segments rest)))"

text \<open>The locations that the upload handlers answer.\<close>

definition location :: "string \<Rightarrow> string \<Rightarrow> string" where
  "location name upload = ''/v2/'' @ name @ ''/blobs/uploads/'' @ upload"

definition blob_location :: "string \<Rightarrow> digest \<Rightarrow> string" where
  "blob_location name d = ''/v2/'' @ name @ ''/blobs/'' @ to_string d"

section \<open>Paths under \<open>/api/v1/\<close>\<close>

datatype api_endpoint =
    ApiRepositories
  | ApiRepository string
  | ApiTags string
  | ApiManifests string
  | ApiManifest string string
  | ApiTagHistory string string
  | ApiPullCounts string "string option"
  | ApiPurge

definition decode_path :: "string \<Rightarrow> string" where
  "decode_path s = join ''/'' (map path_decode (split_on CHR ''/'' s))"

definition api_name_of :: "string \<Rightarrow> route_error + string" where
  "api_name_of s =
     (let name = decode_path s in
      if name = [] then Inl NoMatch else if valid_name name then Inr name else Inl (InvalidName name))"

definition api_route :: "string \<Rightarrow> route_error + api_endpoint" where
  "api_route path =
     (case strip_prefix path ''/api/v1/'' of
        None \<Rightarrow> Inl NoMatch
      | Some rest \<Rightarrow>
          let (resource, remainder) = (case split_once CHR ''/'' rest of Some p \<Rightarrow> p | None \<Rightarrow> (rest, []));
              remainder = (case strip_suffix remainder ''/'' of Some r \<Rightarrow> r | None \<Rightarrow> remainder) in
          if resource = ''repositories'' \<and> remainder = [] then Inr ApiRepositories
          else if resource = ''repositories'' then and_then (api_name_of remainder) (\<lambda>name. Inr (ApiRepository name))
          else if resource = ''tags'' then and_then (api_name_of remainder) (\<lambda>name. Inr (ApiTags name))
          else if resource = ''manifests'' then
            (case rsplit_once CHR ''@'' remainder of
               Some (name, reference) \<Rightarrow>
                 and_then (api_name_of name) (\<lambda>name. Inr (ApiManifest name (path_decode reference)))
             | None \<Rightarrow> and_then (api_name_of remainder) (\<lambda>name. Inr (ApiManifests name)))
          else if resource = ''tag-history'' then
            (case rsplit_once CHR ''@'' remainder of
               Some (name, reference) \<Rightarrow>
                 and_then (api_name_of name) (\<lambda>name. Inr (ApiTagHistory name (path_decode reference)))
             | None \<Rightarrow> Inl NoMatch)
          else if resource = ''pull-counts'' then
            (case rsplit_once CHR ''@'' remainder of
               Some (name, reference) \<Rightarrow>
                 and_then (api_name_of name) (\<lambda>name. Inr (ApiPullCounts name (Some (path_decode reference))))
             | None \<Rightarrow> and_then (api_name_of remainder) (\<lambda>name. Inr (ApiPullCounts name None)))
          else if resource = ''purge'' \<and> remainder = [] then Inr ApiPurge
          else Inl NoMatch)"

section \<open>Names in paths\<close>

lemma name_of_Inr: "route_name_of segments count = Inr name \<Longrightarrow> valid_name name"
  by (auto simp: route_name_of_def Let_def split: if_splits)

lemma name_of_Inl: "route_name_of segments count = Inl (InvalidName name) \<Longrightarrow> \<not> valid_name name"
  by (auto simp: route_name_of_def Let_def split: if_splits)

lemma api_name_of_Inr: "api_name_of s = Inr name \<Longrightarrow> valid_name name"
  by (auto simp: api_name_of_def Let_def split: if_splits)

lemma api_name_of_Inl: "api_name_of s = Inl (InvalidName name) \<Longrightarrow> \<not> valid_name name"
  by (auto simp: api_name_of_def Let_def split: if_splits)

fun endpoint_ok :: "endpoint \<Rightarrow> bool" where
  "endpoint_ok EpBase = True"
| "endpoint_ok EpCatalog = True"
| "endpoint_ok (EpTagList name) = valid_name name"
| "endpoint_ok (EpManifest name r) = (valid_name name \<and> r \<noteq> [])"
| "endpoint_ok (EpBlob name r) = (valid_name name \<and> r \<noteq> [])"
| "endpoint_ok (EpUploads name) = valid_name name"
| "endpoint_ok (EpUpload name r) = (valid_name name \<and> r \<noteq> [])"
| "endpoint_ok (EpReferrers name r) = (valid_name name \<and> r \<noteq> [])"

text \<open>Here the reference may be empty.\<close>

fun api_endpoint_ok :: "api_endpoint \<Rightarrow> bool" where
  "api_endpoint_ok ApiRepositories = True"
| "api_endpoint_ok (ApiRepository name) = valid_name name"
| "api_endpoint_ok (ApiTags name) = valid_name name"
| "api_endpoint_ok (ApiManifests name) = valid_name name"
| "api_endpoint_ok (ApiManifest name _) = valid_name name"
| "api_endpoint_ok (ApiTagHistory name _) = valid_name name"
| "api_endpoint_ok (ApiPullCounts name _) = valid_name name"
| "api_endpoint_ok ApiPurge = True"

definition routed :: "('e \<Rightarrow> bool) \<Rightarrow> route_error + 'e \<Rightarrow> bool" where
  "routed ok r = (case r of Inr e \<Rightarrow> ok e | Inl (InvalidName name) \<Rightarrow> \<not> valid_name name | Inl NoMatch \<Rightarrow> True)"

lemma routed_simps [simp]:
  "routed ok (Inr e) = ok e" "routed ok (Inl NoMatch)" "routed ok (Inl (InvalidName name)) = (\<not> valid_name name)"
  by (simp_all add: routed_def)

lemma routed_name [intro]:
  assumes "\<And>name. valid_name name \<Longrightarrow> ok (f name)"
  shows "routed ok (and_then (route_name_of segments count) (\<lambda>name. Inr (f name)))"
    and "routed ok (and_then (api_name_of s) (\<lambda>name. Inr (f name)))"
  using assms name_of_Inr [of segments count] name_of_Inl [of segments count] api_name_of_Inr [of s] api_name_of_Inl [of s]
  by (auto simp: and_then_def routed_def split: sum.split route_error.split)

lemma routed_dispatch: "routed endpoint_ok (dispatch segments)"
proof (cases "[] \<in> set segments")
  case False
  have "segments ! (length segments - 1) \<noteq> []" "last segments \<noteq> []" if "segments \<noteq> []"
    using that False by (metis last_conv_nth last_in_set)+
  moreover have "segments \<noteq> []" if "3 \<le> length segments" using that by auto
  ultimately show ?thesis
    unfolding dispatch_def Let_def by (auto intro!: routed_name(1))
qed (simp add: dispatch_def)

lemma routed_branch:
  "(c \<Longrightarrow> routed ok x) \<Longrightarrow> (\<not> c \<Longrightarrow> routed ok y) \<Longrightarrow> routed ok (if c then x else y)"
  "routed ok y \<Longrightarrow> (\<And>a b. routed ok (f a b)) \<Longrightarrow> routed ok (case v of None \<Rightarrow> y | Some (a, b) \<Rightarrow> f a b)"
  "(\<And>a b. routed ok (f a b)) \<Longrightarrow> routed ok (case u of (a, b) \<Rightarrow> f a b)"
  by (auto split: option.split prod.split)

text \<open>
  C40. Every path that routes to an endpoint of the distribution interface carries a repository name of the grammar, and a
  reference, digest or upload that is not empty; every path that routes to an endpoint of \<open>/api/v1\<close> carries a name of the
  grammar. Both refuse a name only when it is outside the grammar. The reference of an \<open>/api/v1\<close> endpoint is what follows the
  last at sign and may be empty: it is refused later, as a reference that does not parse.
\<close>

theorem routes_well_formed:
  "routed endpoint_ok (route path) \<and> routed api_endpoint_ok (api_route path)
    \<and> api_route ''/api/v1/manifests/foo@'' = Inr (ApiManifest ''foo'' [])"
proof (intro conjI)
  show "routed endpoint_ok (route path)"
    using routed_dispatch by (auto simp: route_def split: option.split)
  show "routed api_endpoint_ok (api_route path)"
  proof (cases "strip_prefix path ''/api/v1/''")
    case (Some rest)
    show ?thesis
      unfolding api_route_def Let_def Some option.case
      by (intro routed_branch routed_name(2)) simp_all
  qed (simp add: api_route_def)
  show "api_route ''/api/v1/manifests/foo@'' = Inr (ApiManifest ''foo'' [])" by code_simp
qed

section \<open>Locations route back\<close>

lemma split_on_join_two: "split_on c (a @ c # b) = split_on c a @ split_on c b"
  by (induction a) (auto split: list.split)

lemma name_component_set: "name_component c \<Longrightarrow> x \<in> set c \<Longrightarrow> alnum x \<or> x \<in> {CHR ''.'', CHR ''_'', CHR ''-''}"
  by (induction rule: name_component.induct) (auto simp: list_all_iff separator_def)

lemma valid_name_components:
  assumes "valid_name name"
  shows "c \<in> set (split_on CHR ''/'' name) \<Longrightarrow> name_component c" and "name \<noteq> []"
  using assms by (auto simp: valid_name_def list_all_iff valid_name_component_iff split: if_splits)

lemma path_decode_plain: "CHR ''%'' \<notin> set s \<Longrightarrow> path_decode s = s"
  by (simp add: path_decode_def percent_decode_def)

lemma name_component_plain:
  assumes "name_component c"
  shows "path_decode c = c" and "c \<noteq> []"
proof -
  have "CHR ''%'' \<notin> set c" using name_component_set [OF assms, of "CHR ''%''"]
    by (auto simp: alnum_def is_ascii_lowercase_def is_ascii_digit_def)
  then show "path_decode c = c" by (rule path_decode_plain)
  show "c \<noteq> []" using name_component_hd [OF assms] by simp
qed

text \<open>A segment that stands for itself: not empty, no slash and no percent sign.\<close>

definition plain_segment :: "string \<Rightarrow> bool" where
  "plain_segment s \<longleftrightarrow> s \<noteq> [] \<and> CHR ''/'' \<notin> set s \<and> CHR ''%'' \<notin> set s"

lemma map_path_decode_name: "valid_name name \<Longrightarrow> map path_decode (split_on CHR ''/'' name) = split_on CHR ''/'' name"
  using valid_name_components(1) name_component_plain(1) by (intro map_idI) blast

lemma path_segments_name:
  assumes "valid_name name" and "plain_segment a" and "plain_segment b"
  shows "path_segments (name @ CHR ''/'' # a @ CHR ''/'' # b) = split_on CHR ''/'' name @ [a, b]"
  using assms
  by (simp add: path_segments_def split_on_join_two plain_segment_def map_path_decode_name path_decode_plain)

lemma path_segments_uploads:
  assumes "valid_name name" and "plain_segment b"
  shows "path_segments (name @ ''/blobs/uploads/'' @ b) = split_on CHR ''/'' name @ [''blobs'', ''uploads'', b]"
    and "path_segments (name @ ''/blobs/uploads/'') = split_on CHR ''/'' name @ [''blobs'', ''uploads'']"
proof -
  have "split_on CHR ''/'' (name @ ''/blobs/uploads/'' @ t) = split_on CHR ''/'' name @ [''blobs'', ''uploads''] @ split_on CHR ''/'' t"
    for t by (simp add: split_on_join_two)
  then show "path_segments (name @ ''/blobs/uploads/'' @ b) = split_on CHR ''/'' name @ [''blobs'', ''uploads'', b]"
    "path_segments (name @ ''/blobs/uploads/'') = split_on CHR ''/'' name @ [''blobs'', ''uploads'']"
    using assms by (simp_all add: path_segments_def plain_segment_def map_path_decode_name path_decode_plain butlast_append)
qed

lemma name_of_split:
  assumes "valid_name name" and "k = length (split_on CHR ''/'' name)"
  shows "route_name_of (split_on CHR ''/'' name @ r) k = Inr name"
  using assms by (simp add: route_name_of_def join_split_on)

lemma route_under_v2: "rest \<noteq> [] \<Longrightarrow> route (''/v2/'' @ rest) = dispatch (path_segments rest)"
  by (simp add: route_def strip_prefix_def)

lemma dispatch_two:
  assumes "valid_name name" and "a \<noteq> []" and "b \<noteq> []" and "a \<noteq> ''uploads''"
  shows "dispatch (split_on CHR ''/'' name @ [a, b]) =
    (if a = ''blobs'' \<and> b = ''uploads'' then Inr (EpUploads name)
     else if a = ''manifests'' then Inr (EpManifest name b)
     else if a = ''blobs'' then Inr (EpBlob name b)
     else if a = ''tags'' \<and> b = ''list'' then Inr (EpTagList name)
     else if a = ''referrers'' then Inr (EpReferrers name b)
     else Inl NoMatch)"
proof -
  let ?ns = "split_on CHR ''/'' name"
  have ns: "[] \<notin> set ?ns" "0 < length ?ns"
    using valid_name_components(1) [OF assms(1)] name_component_plain(2) by auto
  have at: "(?ns @ [a, b]) ! (length ?ns + 2 - 3) = last ?ns" "(?ns @ [a, b]) ! (length ?ns + 2 - 2) = a"
    "(?ns @ [a, b]) ! (length ?ns + 2 - 1) = b"
    using ns(2) by (auto simp: nth_append last_conv_nth)
  have name: "route_name_of (?ns @ r) (length ?ns + 2 - 2) = Inr name" for r
    using name_of_split [OF assms(1) refl] by simp
  have len: "length (?ns @ [a, b]) = length ?ns + 2" "butlast (?ns @ [a, b]) = ?ns @ [a]" "last (?ns @ [a, b]) = b"
    by (simp_all add: butlast_append)
  have "[] \<notin> set (?ns @ [a, b])" "length ?ns + 2 \<noteq> 1" "3 \<le> length ?ns + 2"
    using ns assms(2,3) by (simp_all add: Suc_le_eq)
  with assms(4) show ?thesis
    unfolding dispatch_def Let_def len at by (simp only: name) (auto simp: and_then_def)
qed

lemma plain_words: "plain_segment ''manifests''" "plain_segment ''referrers''" "plain_segment ''tags''" "plain_segment ''list''"
    "plain_segment ''blobs''" "plain_segment ''uploads''"
  by (simp_all add: plain_segment_def)

lemma hex_digit_plain: "n < 16 \<Longrightarrow> hex_digit n \<noteq> CHR ''/'' \<and> hex_digit n \<noteq> CHR ''%''"
  by (drule lt16_cases) (auto simp: hex_digit_def)

lemma plain_to_string: "plain_segment (to_string d)" "to_string d \<noteq> ''uploads''"
proof -
  have "CHR ''/'' \<notin> set (concat (map hex_byte bs))" "CHR ''%'' \<notin> set (concat (map hex_byte bs))" for bs
    using hex_digit_plain [OF unat_byte_digits(1)] hex_digit_plain [OF unat_byte_digits(2)]
    by (auto simp: hex_byte_def) metis+
  then show "plain_segment (to_string d)"
    by (cases d) (simp_all add: plain_segment_def to_string_def)
  show "to_string d \<noteq> ''uploads''" using colon_in_to_string [of d] by auto
qed

text \<open>
  The paths of the interface route to their endpoints for every name of the grammar, whatever its depth and also when its
  components are words of the interface, and the locations that a push is answered with lead back to the upload and the blob.
\<close>

theorem locations_route_back:
  assumes "valid_name name" and "plain_segment r"
  shows "route (location name r) = Inr (EpUpload name r)
    \<and> route (blob_location name d) = Inr (EpBlob name (to_string d))
    \<and> route (''/v2/'' @ name @ ''/blobs/uploads/'') = Inr (EpUploads name)
    \<and> route (''/v2/'' @ name @ ''/manifests/'' @ r) = Inr (EpManifest name r)
    \<and> route (''/v2/'' @ name @ ''/referrers/'' @ r) = Inr (EpReferrers name r)
    \<and> route (''/v2/'' @ name @ ''/tags/list'') = Inr (EpTagList name)"
proof -
  have r: "r \<noteq> []" using assms(2) by (simp add: plain_segment_def)
  note name = valid_name_components [OF assms(1)]
  have two: "route (''/v2/'' @ name @ CHR ''/'' # a @ CHR ''/'' # b) = dispatch (split_on CHR ''/'' name @ [a, b])"
    if "plain_segment a" "plain_segment b" for a b
    using name(2) path_segments_name [OF assms(1) that] by (subst route_under_v2) simp_all
  show ?thesis
  proof (intro conjI)
    let ?ns = "split_on CHR ''/'' name"
    have ns: "[] \<notin> set ?ns" "0 < length ?ns" using name(1) name_component_plain(2) by auto
    have "dispatch (?ns @ [''blobs'', ''uploads'', r]) = Inr (EpUpload name r)"
      using ns r name_of_split [OF assms(1) refl]
      by (simp add: dispatch_def Let_def nth_append and_then_def Suc_le_eq)
    then show "route (location name r) = Inr (EpUpload name r)"
      using name(2) path_segments_uploads(1) [OF assms] unfolding location_def
      by (subst route_under_v2) simp_all
    show "route (''/v2/'' @ name @ ''/blobs/uploads/'') = Inr (EpUploads name)"
      using name(2) path_segments_uploads(2) [OF assms] dispatch_two [OF assms(1), of "''blobs''" "''uploads''"]
      by (subst route_under_v2) simp_all
    show "route (blob_location name d) = Inr (EpBlob name (to_string d))"
      using two [OF plain_words(5) plain_to_string(1)] dispatch_two [OF assms(1), of "''blobs''" "to_string d"]
        plain_to_string(2) [of d] plain_to_string(1) [of d]
      by (auto simp: blob_location_def plain_segment_def)
    show "route (''/v2/'' @ name @ ''/manifests/'' @ r) = Inr (EpManifest name r)"
      using two [OF plain_words(1) assms(2)] dispatch_two [OF assms(1) _ r, of "''manifests''"] by simp
    show "route (''/v2/'' @ name @ ''/referrers/'' @ r) = Inr (EpReferrers name r)"
      using two [OF plain_words(2) assms(2)] dispatch_two [OF assms(1) _ r, of "''referrers''"] by simp
    show "route (''/v2/'' @ name @ ''/tags/list'') = Inr (EpTagList name)"
      using two [OF plain_words(3) plain_words(4)] dispatch_two [OF assms(1), of "''tags''" "''list''"] by simp
  qed
qed

theorem locations_route_back_witness:
  "route ''/v2/foo/blobs/manifests/v1'' = Inr (EpManifest ''foo/blobs'' ''v1'')
    \<and> route ''/v2/foo/blobs/blobs/uploads/v1'' = Inr (EpUpload ''foo/blobs'' ''v1'')"
proof -
  have n: "valid_name ''foo/blobs''" by code_simp
  have r: "plain_segment ''v1''" by (simp add: plain_segment_def)
  show ?thesis using locations_route_back [OF n r] by (simp add: location_def)
qed

end
