(* ===== verification/Summ_Pulls.thy ===== *)
theory Summ_Pulls
  imports Summ_Route "HOL-Library.Multiset"
begin

text \<open>
  The accumulator of pull counts (\<open>summ-server/src/counters.rs\<close>): increments waiting in memory for the next flush.

  The map of buckets is an association list with distinct keys; the order in which a \<open>HashMap\<close> hands its entries out is not
  specified, and no statement here depends on it. Every call that takes the lock is one step, so a sequence of operations is any
  interleaving of the requests and the flush task. The clock is an argument. Counters are 64-bit words.
\<close>

section \<open>State\<close>

definition MAX_BUCKETS :: nat where "MAX_BUCKETS = 50000"

datatype pull_subject = PulledManifest digest | PulledTag string | PulledRepo

record bucket_key =
  bk_repo :: string
  bk_subject :: pull_subject
  bk_day :: u16
  bk_hour :: byte

record pull_counts =
  pc_manifest_pulls :: u64
  pc_blob_pulls :: u64
  pc_bytes_out :: u64

definition no_counts :: pull_counts where
  "no_counts = \<lparr>pc_manifest_pulls = 0, pc_blob_pulls = 0, pc_bytes_out = 0\<rparr>"

record recorded =
  rec_repo :: string
  rec_subject :: pull_subject
  rec_day :: u16
  rec_hour :: nat
  rec_manifest_pulls :: u64
  rec_blob_pulls :: u64
  rec_bytes_out :: u64

type_synonym buckets = "(bucket_key \<times> pull_counts) list"

record pull_counters =
  counters_enabled :: bool
  dirty :: buckets
  dropped :: u64

definition new_counters :: pull_counters where
  "new_counters = \<lparr>counters_enabled = True, dirty = [], dropped = 0\<rparr>"

definition disabled_counters :: pull_counters where
  "disabled_counters = \<lparr>counters_enabled = False, dirty = [], dropped = 0\<rparr>"

section \<open>Recording\<close>

definition plus_counts :: "pull_counts \<Rightarrow> pull_counts \<Rightarrow> pull_counts" where
  "plus_counts a b =
     \<lparr>pc_manifest_pulls = pc_manifest_pulls a + pc_manifest_pulls b,
      pc_blob_pulls = pc_blob_pulls a + pc_blob_pulls b,
      pc_bytes_out = pc_bytes_out a + pc_bytes_out b\<rparr>"

fun bump :: "bucket_key \<Rightarrow> pull_counts \<Rightarrow> buckets \<Rightarrow> buckets" where
  "bump k c [] = []"
| "bump k c ((k', v) # m) = (if k' = k then (k', plus_counts v c) # m else (k', v) # bump k c m)"

definition add_increment :: "bucket_key \<Rightarrow> pull_counts \<Rightarrow> pull_counters \<Rightarrow> pull_counters" where
  "add_increment k c s =
     (if map_of (dirty s) k \<noteq> None then s\<lparr>dirty := bump k c (dirty s)\<rparr>
      else if MAX_BUCKETS \<le> length (dirty s) then s\<lparr>dropped := dropped s + 1\<rparr>
      else s\<lparr>dirty := dirty s @ [(k, c)]\<rparr>)"

definition pull_key :: "string \<Rightarrow> pull_subject \<Rightarrow> u16 \<Rightarrow> byte \<Rightarrow> bucket_key" where
  "pull_key repo subject day hour = \<lparr>bk_repo = repo, bk_subject = subject, bk_day = day, bk_hour = hour\<rparr>"

definition now_bucket :: "u64 \<Rightarrow> u16 \<times> byte" where
  "now_bucket unix = (day_bucket unix, word_of_nat (hour_of_day unix))"

definition record_manifest_pull :: "u64 \<Rightarrow> string \<Rightarrow> string option \<Rightarrow> digest \<Rightarrow> pull_counters \<Rightarrow> pull_counters" where
  "record_manifest_pull unix repo tag d s =
     (if \<not> counters_enabled s then s
      else
        let (day, hour) = now_bucket unix;
            counts = no_counts\<lparr>pc_manifest_pulls := 1\<rparr>;
            s1 = add_increment (pull_key repo (PulledManifest d) day hour) counts s;
            s2 = (case tag of
                    Some t \<Rightarrow> add_increment (pull_key repo (PulledTag t) day hour) counts s1
                  | None \<Rightarrow> s1)
        in add_increment (pull_key repo PulledRepo day hour) counts s2)"

definition record_blob_bytes :: "string \<Rightarrow> u16 \<Rightarrow> byte \<Rightarrow> u64 \<Rightarrow> pull_counters \<Rightarrow> pull_counters" where
  "record_blob_bytes repo day hour sent s =
     (if \<not> counters_enabled s then s
      else
        add_increment (pull_key repo PulledRepo day hour)
          (no_counts\<lparr>pc_blob_pulls := 1, pc_bytes_out := sent\<rparr>) s)"

section \<open>Handing over\<close>

definition recorded_of :: "bucket_key \<times> pull_counts \<Rightarrow> recorded" where
  "recorded_of kv =
     (let (k, v) = kv in
      \<lparr>rec_repo = bk_repo k, rec_subject = bk_subject k, rec_day = bk_day k, rec_hour = unat (bk_hour k),
       rec_manifest_pulls = pc_manifest_pulls v, rec_blob_pulls = pc_blob_pulls v, rec_bytes_out = pc_bytes_out v\<rparr>)"

definition drain_counters :: "pull_counters \<Rightarrow> recorded list \<times> pull_counters" where
  "drain_counters s = (map recorded_of (dirty s), s\<lparr>dirty := []\<rparr>)"

definition take_dropped :: "pull_counters \<Rightarrow> u64 \<times> pull_counters" where
  "take_dropped s = (dropped s, s\<lparr>dropped := 0\<rparr>)"

section \<open>A metered body\<close>

text \<open>
  A response body that counts what it yields and reports when it is dropped, however far it got: \<open>Chunk\<close> is a
  frame that came through, the other outcomes of a poll add nothing.
\<close>

datatype polled = Chunk bytes | Failed | Ended | Pending

record metered_blob =
  mb_repo :: string
  mb_day :: u16
  mb_hour :: byte
  mb_bytes :: u64

definition meter_blob :: "u64 \<Rightarrow> string \<Rightarrow> pull_counters \<Rightarrow> metered_blob option" where
  "meter_blob unix repo s =
     (if \<not> counters_enabled s then None
      else
        let (day, hour) = now_bucket unix in
        Some \<lparr>mb_repo = repo, mb_day = day, mb_hour = hour, mb_bytes = 0\<rparr>)"

definition poll_next :: "polled \<Rightarrow> metered_blob \<Rightarrow> metered_blob" where
  "poll_next p b =
     (case p of Chunk chunk \<Rightarrow> b\<lparr>mb_bytes := mb_bytes b + word_of_nat (length chunk)\<rparr> | _ \<Rightarrow> b)"

definition drop_metered :: "metered_blob \<Rightarrow> pull_counters \<Rightarrow> pull_counters" where
  "drop_metered b s = record_blob_bytes (mb_repo b) (mb_day b) (mb_hour b) (mb_bytes b) s"

section \<open>Runs\<close>

text \<open>
  An interleaving of requests and flushes: the operations so far, the state, the rows handed over and the losses reported. What an operation
  asks to add is its list of increments.
\<close>

datatype pull_op =
    ManifestPull u64 string "string option" digest
  | BlobSent string u16 byte u64
  | Drain
  | TakeDropped

type_synonym increment = "bucket_key \<times> pull_counts"

definition increments :: "pull_op \<Rightarrow> increment list" where
  "increments p =
     (case p of
        ManifestPull unix repo tag d \<Rightarrow>
          (let (day, hour) = now_bucket unix; c = no_counts\<lparr>pc_manifest_pulls := 1\<rparr> in
           (pull_key repo (PulledManifest d) day hour, c)
           # (case tag of Some t \<Rightarrow> [(pull_key repo (PulledTag t) day hour, c)] | None \<Rightarrow> [])
           @ [(pull_key repo PulledRepo day hour, c)])
      | BlobSent repo day hour sent \<Rightarrow>
          [(pull_key repo PulledRepo day hour, no_counts\<lparr>pc_blob_pulls := 1, pc_bytes_out := sent\<rparr>)]
      | _ \<Rightarrow> [])"

inductive pulls :: "pull_op list \<Rightarrow> pull_counters \<Rightarrow> recorded list \<Rightarrow> u64 \<Rightarrow> bool" where
  start: "pulls [] new_counters [] 0"
| manifest: "pulls tr s out n \<Longrightarrow>
    pulls (tr @ [ManifestPull unix repo tag d]) (record_manifest_pull unix repo tag d s) out n"
| blob: "pulls tr s out n \<Longrightarrow> pulls (tr @ [BlobSent repo day hour sent]) (record_blob_bytes repo day hour sent s) out n"
| drained: "pulls tr s out n \<Longrightarrow> drain_counters s = (rows, s') \<Longrightarrow> pulls (tr @ [Drain]) s' (out @ rows) n"
| reported: "pulls tr s out n \<Longrightarrow> take_dropped s = (m, s') \<Longrightarrow> pulls (tr @ [TakeDropped]) s' out (n + m)"

datatype quantity = ManifestPulls | BlobPulls | BytesOut

fun counted :: "quantity \<Rightarrow> pull_counts \<Rightarrow> u64" where
  "counted ManifestPulls c = pc_manifest_pulls c"
| "counted BlobPulls c = pc_blob_pulls c"
| "counted BytesOut c = pc_bytes_out c"

text \<open>How much of a quantity a list of increments, or of rows, holds for a key.\<close>

definition amount :: "quantity \<Rightarrow> bucket_key \<Rightarrow> increment list \<Rightarrow> u64" where
  "amount q k xs = sum_list (map (\<lambda>x. if fst x = k then counted q (snd x) else 0) xs)"

definition increment_of :: "recorded \<Rightarrow> increment" where
  "increment_of r =
     (pull_key (rec_repo r) (rec_subject r) (rec_day r) (word_of_nat (rec_hour r)),
      \<lparr>pc_manifest_pulls = rec_manifest_pulls r, pc_blob_pulls = rec_blob_pulls r, pc_bytes_out = rec_bytes_out r\<rparr>)"

lemma increment_of_recorded [simp]: "increment_of (recorded_of x) = x"
  by (cases x) (simp add: increment_of_def recorded_of_def pull_key_def)

lemma amount_simps [simp]:
  "amount q k [] = 0"
  "amount q k (x # xs) = (if fst x = k then counted q (snd x) else 0) + amount q k xs"
  "amount q k (xs @ ys) = amount q k xs + amount q k ys"
  by (simp_all add: amount_def)

lemma counted_plus [simp]: "counted q (plus_counts a b) = counted q a + counted q b"
  by (cases q) (simp_all add: plus_counts_def)

lemma map_fst_bump [simp]: "map fst (bump k c m) = map fst m"
  by (induction m) auto

lemma length_bump [simp]: "length (bump k c m) = length m"
  by (induction m) auto

lemma amount_bump: "map_of m k \<noteq> None \<Longrightarrow> amount q j (bump k c m) = amount q j m + amount q j [(k, c)]"
  by (induction m) (auto simp: add.assoc add.commute add.left_commute split: if_splits)

text \<open>
  The invariant of a run: the map is bounded and has one bucket per key, and everything asked for has been handed over, is
  waiting, or is one of the increments that were dropped and counted as dropped.
\<close>

definition accounted :: "increment list \<Rightarrow> pull_counters \<Rightarrow> recorded list \<Rightarrow> u64 \<Rightarrow> increment list \<Rightarrow> bool" where
  "accounted asked s out n lost \<longleftrightarrow>
     counters_enabled s \<and> length (dirty s) \<le> MAX_BUCKETS \<and> distinct (map fst (dirty s))
     \<and> mset lost \<subseteq># mset asked \<and> word_of_nat (length lost) = n + dropped s
     \<and> (\<forall>q k. amount q k asked = amount q k (map increment_of out) + amount q k (dirty s) + amount q k lost)"

lemma accounted_add:
  assumes "accounted asked s out n lost"
  shows "\<exists>lost'. accounted (asked @ [(k, c)]) (add_increment k c s) out n lost'"
proof -
  have sub: "mset lost \<subseteq># mset (asked @ [(k, c)])" "mset (lost @ [(k, c)]) \<subseteq># mset (asked @ [(k, c)])"
  proof -
    have lost: "mset lost \<subseteq># mset asked" using assms by (simp add: accounted_def)
    moreover have "mset asked \<subseteq># mset (asked @ [(k, c)])" by simp
    ultimately show "mset lost \<subseteq># mset (asked @ [(k, c)])" by (rule subset_mset.order_trans)
    show "mset (lost @ [(k, c)]) \<subseteq># mset (asked @ [(k, c)])" using lost by simp
  qed
  consider (there) "map_of (dirty s) k \<noteq> None"
    | (full) "map_of (dirty s) k = None" "MAX_BUCKETS \<le> length (dirty s)"
    | (room) "map_of (dirty s) k = None" "length (dirty s) < MAX_BUCKETS"
    by fastforce
  then show ?thesis
  proof cases
    case there
    then have "accounted (asked @ [(k, c)]) (add_increment k c s) out n lost"
      using assms sub(1) by (auto simp: accounted_def add_increment_def amount_bump)
    then show ?thesis by blast
  next
    case full
    then have "accounted (asked @ [(k, c)]) (add_increment k c s) out n (lost @ [(k, c)])"
      using assms sub(2) by (auto simp: accounted_def add_increment_def)
    then show ?thesis by blast
  next
    case room
    then have "k \<notin> fst ` set (dirty s)" by (simp add: map_of_eq_None_iff)
    with room have "accounted (asked @ [(k, c)]) (add_increment k c s) out n lost"
      using assms sub(1) by (auto simp: accounted_def add_increment_def)
    then show ?thesis by blast
  qed
qed

lemma accounted_enabled: "accounted asked s out n lost \<Longrightarrow> counters_enabled s"
  by (simp add: accounted_def)

lemma accounted_fold:
  "accounted asked s out n lost \<Longrightarrow>
    \<exists>lost'. accounted (asked @ xs) (fold (\<lambda>(k, c). add_increment k c) xs s) out n lost'"
proof (induction xs arbitrary: asked s lost)
  case (Cons x xs)
  obtain k c where x: "x = (k, c)" by (cases x)
  obtain l where "accounted (asked @ [x]) (add_increment k c s) out n l"
    using accounted_add [OF Cons.prems, of k c] x by blast
  from Cons.IH [OF this] show ?case by (simp add: x)
qed auto

text \<open>Recording is the fold of what the operation asks for.\<close>

lemma record_is_fold:
  assumes "counters_enabled s"
  shows "record_manifest_pull unix repo tag d s
      = fold (\<lambda>(k, c). add_increment k c) (increments (ManifestPull unix repo tag d)) s"
    and "record_blob_bytes repo day hour sent s
      = fold (\<lambda>(k, c). add_increment k c) (increments (BlobSent repo day hour sent)) s"
  using assms
  by (auto simp: record_manifest_pull_def record_blob_bytes_def increments_def Let_def split: prod.split option.split)

definition asked_of :: "pull_op list \<Rightarrow> increment list" where
  "asked_of tr = concat (map increments tr)"

lemma pulls_accounted: "pulls tr s out n \<Longrightarrow> \<exists>lost. accounted (asked_of tr) s out n lost"
proof (induction rule: pulls.induct)
  case start
  then show ?case by (intro exI [of _ "[]"]) (simp add: accounted_def new_counters_def asked_of_def)
next
  case (manifest tr s out n unix repo tag d)
  then obtain lost where l: "accounted (asked_of tr) s out n lost" by blast
  show ?case
    using accounted_fold [OF l] record_is_fold(1) [OF accounted_enabled [OF l]] by (simp add: asked_of_def)
next
  case (blob tr s out n repo day hour sent)
  then obtain lost where l: "accounted (asked_of tr) s out n lost" by blast
  show ?case
    using accounted_fold [OF l] record_is_fold(2) [OF accounted_enabled [OF l]] by (simp add: asked_of_def)
next
  case (drained tr s out n rows s')
  then show ?case
    by (auto simp: accounted_def drain_counters_def asked_of_def increments_def comp_def)
next
  case (reported tr s out n m s')
  then show ?case
    by (auto simp: accounted_def take_dropped_def asked_of_def increments_def)
qed

text \<open>
  C38. However requests and flushes interleave, the accumulator stays within its bound with one bucket per key, and loses nothing that it
  does not report: for every bucket, what the pulls asked to add is what the flushes were handed plus what is waiting plus increments
  that were dropped, and the number of those is what was or will be reported.
\<close>

theorem pulls_accounted_for:
  assumes "pulls tr s out n"
  shows "length (dirty s) \<le> MAX_BUCKETS \<and> distinct (map fst (dirty s))
    \<and> (\<exists>lost. mset lost \<subseteq># mset (concat (map increments tr)) \<and> word_of_nat (length lost) = n + dropped s
         \<and> (\<forall>q k. amount q k (concat (map increments tr))
                  = amount q k (map increment_of out) + amount q k (dirty s) + amount q k lost))"
  using pulls_accounted [OF assms] by (auto simp: accounted_def asked_of_def)

theorem pulls_accounted_for_witness:
  "\<exists>s out n. pulls [BlobSent ''a'' 1 2 7, Drain, BlobSent ''a'' 1 2 5, TakeDropped] s out n
     \<and> length (dirty s) \<le> MAX_BUCKETS \<and> out = [recorded_of (pull_key ''a'' PulledRepo 1 2, no_counts\<lparr>pc_blob_pulls := 1, pc_bytes_out := 7\<rparr>)]"
proof -
  let ?k = "pull_key ''a'' PulledRepo 1 2"
  let ?c = "\<lambda>n. no_counts\<lparr>pc_blob_pulls := 1, pc_bytes_out := n\<rparr>"
  let ?s1 = "record_blob_bytes ''a'' 1 2 7 new_counters"
  have s1: "?s1 = new_counters\<lparr>dirty := [(?k, ?c 7)]\<rparr>"
    by (simp add: record_blob_bytes_def new_counters_def add_increment_def MAX_BUCKETS_def)
  have "pulls ([] @ [BlobSent ''a'' 1 2 7]) ?s1 [] 0" by (rule pulls.blob [OF pulls.start])
  then have "pulls (([] @ [BlobSent ''a'' 1 2 7]) @ [Drain]) (?s1\<lparr>dirty := []\<rparr>) ([] @ [recorded_of (?k, ?c 7)]) 0"
    by (rule pulls.drained) (simp add: drain_counters_def s1)
  from pulls.reported [OF pulls.blob [OF this, of "''a''" 1 2 5]]
  obtain s n where "pulls [BlobSent ''a'' 1 2 7, Drain, BlobSent ''a'' 1 2 5, TakeDropped] s [recorded_of (?k, ?c 7)] n"
    by (fastforce simp: take_dropped_def)
  with pulls_accounted_for [OF this] show ?thesis by blast
qed

end
