(* ===== verification/Summ_Btree.thy ===== *)
theory Summ_Btree
  imports Summ_Pulls "HOL-Library.RBT" "HOL-Library.Char_ord" "HOL-Library.Product_Lexorder"
begin

text \<open>
  The ordered map of the standard library: a \<open>BTreeMap\<close> is a red-black tree of the library, whose entries come in key order.
  Strings are ordered by their bytes, digests by algorithm and bytes, pairs lexicographically.
\<close>

type_synonym ('k, 'v) btree = "('k, 'v) rbt"

text \<open>\<open>entry(k).or_default()\<close>: the value there or the default, and the tree with the value changed.\<close>

definition bt_get_or :: "'v \<Rightarrow> ('k::linorder, 'v) btree \<Rightarrow> 'k \<Rightarrow> 'v" where
  "bt_get_or v t k = (case RBT.lookup t k of None \<Rightarrow> v | Some x \<Rightarrow> x)"

definition bt_update :: "'v \<Rightarrow> 'k::linorder \<Rightarrow> ('v \<Rightarrow> 'v) \<Rightarrow> ('k, 'v) btree \<Rightarrow> ('k, 'v) btree" where
  "bt_update v k f t = RBT.insert k (f (bt_get_or v t k)) t"

definition bt_len :: "('k::linorder, 'v) btree \<Rightarrow> nat" where
  "bt_len t = length (RBT.keys t)"

lemma bt_get_or_lookup [simp]: "RBT.lookup t k = Some v \<Longrightarrow> bt_get_or w t k = v" "RBT.lookup t k = None \<Longrightarrow> bt_get_or w t k = w"
  by (simp_all add: bt_get_or_def)

lemma lookup_bt_update [simp]:
  "RBT.lookup (bt_update v k f t) k' = (if k' = k then Some (f (bt_get_or v t k)) else RBT.lookup t k')"
  by (simp add: bt_update_def)

lemma lookup_rbt_filter [simp]:
  "RBT.lookup (RBT.filter P t) k = (case RBT.lookup t k of None \<Rightarrow> None | Some v \<Rightarrow> if P k v then Some v else None)"
  by (rule RBT.lookup_filter)

lemma set_bt_keys: "k \<in> set (RBT.keys t) \<longleftrightarrow> RBT.lookup t k \<noteq> None"
  by (auto simp: RBT.lookup_keys [symmetric])

lemma in_entries: "(k, v) \<in> set (RBT.entries t) \<longleftrightarrow> RBT.lookup t k = Some v"
  by (simp add: RBT.lookup_in_tree)

text \<open>The entries are the keys in order with what is stored under them.\<close>

lemma entries_of_keys: "RBT.entries t = map (\<lambda>k. (k, the (RBT.lookup t k))) (RBT.keys t)"
proof -
  have "map (\<lambda>k. (k, the (RBT.lookup t k))) (map fst (RBT.entries t)) = RBT.entries t"
    by (simp add: comp_def, rule map_idI) (auto simp: in_entries)
  then show ?thesis by (simp add: RBT.keys_def_alt)
qed

lemma bt_keys_unique:
  assumes "sorted xs" and "distinct xs" and "set xs = dom (RBT.lookup t)"
  shows "RBT.keys t = xs"
  by (rule sorted_distinct_set_unique [OF _ _ assms(1,2)]) (simp_all add: assms(3) RBT.lookup_keys)

end
