(* ===== verification/Summ_Seam.thy ===== *)
theory Summ_Seam
  imports Summ_Btree
begin

text \<open>
  The seam between the HTTP layer and the registry from_seam (\<open>summ-server/src/seam.rs\<close>): the values that cross it, an upload's body
  with its two limits, and the trait as the record of its operations.

  An operation takes the state of the implementation and returns a result and a state; its failures are those of the
  trait, or a panic. The body of a request is an opaque value of type \<open>'b\<close>. A body that goes out is its bytes.
\<close>

section \<open>Operations that may panic\<close>

datatype 'e halt = Panicking | Fails 'e

definition of_result :: "'e + 'a \<Rightarrow> ('s, 'e halt, 'a) action" where
  "of_result r = lift_a (map_err Fails r)"

definition of_call :: "('e + 'a) call \<Rightarrow> ('s, 'e halt, 'a) action" where
  "of_call c = (case c of Panics \<Rightarrow> fail_a Panicking | Returns r \<Rightarrow> of_result r)"

fun map_halt :: "('e \<Rightarrow> 'f) \<Rightarrow> 'e halt \<Rightarrow> 'f halt" where
  "map_halt f Panicking = Panicking"
| "map_halt f (Fails e) = Fails (f e)"

type_synonym ('s, 'a) ops = "('s, ops_error halt, 'a) action"

lemma of_result_simps [simp]: "of_result (Inl e) = fail_a (Fails e)" "of_result (Inr a) = return_a a"
  by (simp_all add: of_result_def lift_a_def fail_a_def return_a_def)

lemma of_call_simps [simp]: "of_call Panics = fail_a Panicking" "of_call (Returns r) = of_result r"
  by (simp_all add: of_call_def)

section \<open>Values\<close>

record 'a seam_page =
  page_items :: "'a list"
  page_more :: bool

definition empty_page :: "'a seam_page" where
  "empty_page = \<lparr>page_items = [], page_more = False\<rparr>"

record manifest_stat =
  ms_digest :: digest
  ms_media_type :: string
  ms_size :: u64

record manifest_done =
  md_digest :: digest
  md_subject :: "digest option"
  md_tags :: "string list"

record blob_read =
  bd_total_size :: u64
  bd_window :: "byte_range option"
  bd_body :: bytes

record seam_descriptor =
  sd_media_type :: string
  sd_digest :: digest
  sd_size :: u64
  sd_artifact_type :: "string option"
  sd_annotations :: "(string, string) btree"

record seam_referrers =
  rf_manifests :: "seam_descriptor list"
  rf_filter_applied :: bool
  rf_next :: "digest option"

definition TAGS_PER_MANIFEST :: nat where "TAGS_PER_MANIFEST = 8"

record tally =
  tally_count :: u64
  tally_complete :: bool

definition exact_tally :: "u64 \<Rightarrow> tally" where
  "exact_tally n = \<lparr>tally_count = n, tally_complete = True\<rparr>"

record repo_summary =
  rs_name :: string
  rs_tags :: tally
  rs_manifests :: tally

record repo_page =
  rp_items :: "repo_summary list"
  rp_next :: "string option"

record repo_detail =
  rd_name :: string
  rd_tags :: tally
  rd_manifests :: tally
  rd_blobs :: tally
  rd_size_bytes :: u64

record manifest_info =
  mi_digest :: digest
  mi_media_type :: string
  mi_size :: u64
  mi_blob_size :: u64
  mi_artifact_type :: "string option"
  mi_subject :: "digest option"
  mi_pushed_at :: u64
  mi_platforms :: "string list"
  mi_blobs :: u64
  mi_children :: u64
  mi_tags :: "string list"
  mi_annotations :: "(string, string) btree"

record tag_info =
  ti_name :: string
  ti_digest :: digest
  ti_tagged_at :: u64
  ti_manifest :: "manifest_info option"

record tag_event_info =
  ev_at :: u64
  ev_tag :: string
  ev_digest :: digest
  ev_deleted :: bool
  ev_media_type :: string
  ev_size :: u64

record seam_cursor =
  cursor_before :: u64
  cursor_last :: string

record pull_count_day =
  pd_day :: u16
  pd_bucket :: counter_bucket

datatype pull_count_scope = RepositoryScope | TagScope string | ManifestScope digest

fun scope_label :: "pull_count_scope \<Rightarrow> string" where
  "scope_label RepositoryScope = ''repository''"
| "scope_label (TagScope _) = ''tag''"
| "scope_label (ManifestScope _) = ''manifest''"

record purge_report =
  pr_started_at :: u64
  pr_duration_ms :: u64
  pr_dry_run :: bool
  pr_manifests :: u64
  pr_memberships :: u64
  pr_marked :: u64
  pr_blobs :: u64
  pr_bytes :: u64
  pr_uploads :: u64
  pr_repositories :: u64

definition default_purge_report :: purge_report where
  "default_purge_report =
     \<lparr>pr_started_at = 0, pr_duration_ms = 0, pr_dry_run = False, pr_manifests = 0, pr_memberships = 0, pr_marked = 0,
      pr_blobs = 0, pr_bytes = 0, pr_uploads = 0, pr_repositories = 0\<rparr>"

definition is_empty_report :: "purge_report \<Rightarrow> bool" where
  "is_empty_report r \<longleftrightarrow>
     pr_manifests r = 0 \<and> pr_memberships r = 0 \<and> pr_marked r = 0 \<and> pr_blobs r = 0 \<and> pr_uploads r = 0
     \<and> pr_repositories r = 0"

section \<open>An upload's body\<close>

record 'b upload_body =
  ub_body :: 'b
  ub_declared :: "u64 option"
  ub_limit :: "u64 option"

text \<open>\<open>to_bytes b n\<close> stands for \<open>axum::body::to_bytes\<close>: the whole body, or \<open>None\<close> when it is longer than \<open>n\<close> or fails.\<close>

definition collect_body :: "('b \<Rightarrow> nat \<Rightarrow> bytes option) \<Rightarrow> 'b upload_body \<Rightarrow> ops_error + bytes" where
  "collect_body to_bytes u =
     (let limit = (case ub_limit u of Some l \<Rightarrow> l | None \<Rightarrow> - 1) in
      if (case ub_declared u of Some d \<Rightarrow> d > limit | None \<Rightarrow> False) then Inl (OpsBodyTooLarge limit)
      else
        and_then (ok_or (OpsBodyTooLarge limit) (to_bytes (ub_body u) (unat limit))) (\<lambda>bytes.
          case ub_declared u of
            Some d \<Rightarrow>
              if d \<noteq> word_of_nat (length bytes) then Inl (OpsSizeMismatch d (word_of_nat (length bytes)))
              else Inr bytes
          | None \<Rightarrow> Inr bytes))"

section \<open>The trait\<close>

record ('s, 'b) registry_ops =
  op_repositories :: "string option \<Rightarrow> nat \<Rightarrow> ('s, string seam_page) ops"
  op_tags :: "string \<Rightarrow> string option \<Rightarrow> nat \<Rightarrow> ('s, string seam_page) ops"
  op_delete_repository :: "string \<Rightarrow> ('s, unit) ops"
  op_purge :: "bool \<Rightarrow> ('s, purge_report) ops"
  op_last_purge :: "('s, purge_report option) ops"
  op_stat_manifest :: "string \<Rightarrow> http_reference \<Rightarrow> ('s, manifest_stat) ops"
  op_get_manifest :: "string \<Rightarrow> http_reference \<Rightarrow> ('s, manifest_stat \<times> bytes) ops"
  op_put_manifest :: "string \<Rightarrow> http_reference \<Rightarrow> string \<Rightarrow> string list \<Rightarrow> bytes \<Rightarrow> ('s, manifest_done) ops"
  op_delete_manifest :: "string \<Rightarrow> http_reference \<Rightarrow> ('s, unit) ops"
  op_stat_blob :: "string \<Rightarrow> digest \<Rightarrow> ('s, u64) ops"
  op_get_blob :: "string \<Rightarrow> digest \<Rightarrow> byte_range option \<Rightarrow> ('s, blob_read) ops"
  op_delete_blob :: "string \<Rightarrow> digest \<Rightarrow> ('s, unit) ops"
  op_mount_blob :: "string \<Rightarrow> digest \<Rightarrow> string option \<Rightarrow> ('s, bool) ops"
  op_create_upload :: "string \<Rightarrow> string \<Rightarrow> string \<Rightarrow> ('s, unit) ops"
  op_upload_offset :: "string \<Rightarrow> string \<Rightarrow> ('s, u64) ops"
  op_append_upload :: "string \<Rightarrow> string \<Rightarrow> u64 \<Rightarrow> 'b upload_body \<Rightarrow> ('s, u64) ops"
  op_finish_upload :: "string \<Rightarrow> string \<Rightarrow> u64 \<Rightarrow> 'b upload_body \<Rightarrow> digest \<Rightarrow> ('s, unit) ops"
  op_cancel_upload :: "string \<Rightarrow> string \<Rightarrow> ('s, unit) ops"
  op_put_blob :: "string \<Rightarrow> digest \<Rightarrow> 'b upload_body \<Rightarrow> ('s, unit) ops"
  op_referrers :: "string \<Rightarrow> digest \<Rightarrow> string option \<Rightarrow> digest option \<Rightarrow> nat \<Rightarrow> ('s, seam_referrers) ops"
  op_repository_summaries :: "string \<Rightarrow> string option \<Rightarrow> nat \<Rightarrow> ('s, repo_page) ops"
  op_repository_detail :: "string \<Rightarrow> ('s, repo_detail) ops"
  op_tag_details :: "string \<Rightarrow> string option \<Rightarrow> nat \<Rightarrow> ('s, tag_info seam_page) ops"
  op_manifest_details :: "string \<Rightarrow> digest option \<Rightarrow> nat \<Rightarrow> ('s, manifest_info seam_page) ops"
  op_manifest_detail :: "string \<Rightarrow> http_reference \<Rightarrow> ('s, manifest_info) ops"
  op_tag_history ::
    "string \<Rightarrow> http_reference \<Rightarrow> u64 option \<Rightarrow> string option \<Rightarrow> nat \<Rightarrow> ('s, tag_event_info list \<times> seam_cursor option) ops"
  op_pull_counts :: "string \<Rightarrow> pull_count_scope \<Rightarrow> u16 \<Rightarrow> u16 \<Rightarrow> ('s, pull_count_day list) ops"

text \<open>The two operations the trait implements itself: a pass that finds nothing, and no pass so far.\<close>

definition default_purge :: "bool \<Rightarrow> ('s, purge_report) ops" where
  "default_purge dry_run = return_a (default_purge_report\<lparr>pr_dry_run := dry_run\<rparr>)"

definition default_last_purge :: "('s, purge_report option) ops" where
  "default_last_purge = return_a None"

section \<open>What a body may carry\<close>

lemma max_u64: "unat (- 1 :: u64) = 2 ^ 64 - 1"
  by (simp add: unsigned_minus_1_eq_mask mask_eq_exp_minus_1)

text \<open>A body that is accepted carries what it declared, and no more than its limit.\<close>

lemma collect_body_exact:
  assumes "collect_body to_bytes u = Inr bytes"
  shows "(case ub_declared u of Some d \<Rightarrow> d = word_of_nat (length bytes) | None \<Rightarrow> True)
    \<and> to_bytes (ub_body u) (unat (case ub_limit u of Some l \<Rightarrow> l | None \<Rightarrow> - 1)) = Some bytes"
  using assms by (auto simp: collect_body_def Let_def ok_or_def split: if_splits option.splits)

lemma collect_body_within:
  assumes "to_bytes (ub_body u) (unat (case ub_limit u of Some l \<Rightarrow> l | None \<Rightarrow> - 1)) = Some bytes"
    and "(case ub_declared u of
            Some d \<Rightarrow> d = word_of_nat (length bytes) \<and> d \<le> (case ub_limit u of Some l \<Rightarrow> l | None \<Rightarrow> - 1)
          | None \<Rightarrow> True)"
  shows "collect_body to_bytes u = Inr bytes"
  using assms by (auto simp: collect_body_def Let_def split: option.splits)

section \<open>JSON documents\<close>

text \<open>
  \<open>serde_json::Value\<close>, with what is read of it: a number is known by what \<open>as_u64\<close> says of it, an object by its members in the order of
  their keys.
\<close>

datatype json =
    JNull
  | JBool bool
  | JNumber "u64 option"
  | JString string
  | JArray "json list"
  | JObject "(string \<times> json) list"

fun json_get :: "string \<Rightarrow> json \<Rightarrow> json option" where
  "json_get k (JObject kvs) = map_of kvs k"
| "json_get k _ = None"

fun as_str :: "json \<Rightarrow> string option" where
  "as_str (JString s) = Some s"
| "as_str _ = None"

fun as_array :: "json \<Rightarrow> json list option" where
  "as_array (JArray vs) = Some vs"
| "as_array _ = None"

fun as_object :: "json \<Rightarrow> (string \<times> json) list option" where
  "as_object (JObject kvs) = Some kvs"
| "as_object _ = None"

fun as_u64 :: "json \<Rightarrow> u64 option" where
  "as_u64 (JNumber n) = n"
| "as_u64 _ = None"

end
