(* ===== verification/Summ_Memory.thy ===== *)
theory Summ_Memory
  imports Summ_Seam
begin

text \<open>
  The registry that holds everything in memory (\<open>summ-server/src/memory.rs\<close>): the second implementation of the seam, on which the HTTP
  layer is driven end to end.

  The mutex makes every method one step on the state. The hash functions, the JSON reader and the collection of a body are the functions of
  \<open>mem_libs\<close>; nothing is assumed of them here. Lengths are 64-bit words, the clock and the sums wrap as in a
  release build.
\<close>

section \<open>State\<close>

record 'b mem_libs =
  ml_sha256 :: "bytes \<Rightarrow> bytes32"
  ml_sha512 :: "bytes \<Rightarrow> bytes64"
  ml_json :: "bytes \<Rightarrow> json option"
  ml_to_bytes :: "'b \<Rightarrow> nat \<Rightarrow> bytes option"

record mem_manifest_entry =
  sm_media_type :: string
  sm_body :: bytes
  sm_subject :: "digest option"
  sm_artifact_type :: "string option"
  sm_annotations :: "(string, string) btree"

datatype counter_scope = ScopeManifest digest | ScopeTag string | ScopeRepo

instantiation counter_scope :: linorder
begin

fun less_eq_counter_scope :: "counter_scope \<Rightarrow> counter_scope \<Rightarrow> bool" where
  "ScopeManifest d \<le> ScopeManifest e \<longleftrightarrow> d \<le> e"
| "ScopeManifest d \<le> y \<longleftrightarrow> True"
| "ScopeTag t \<le> ScopeManifest d \<longleftrightarrow> False"
| "ScopeTag t \<le> ScopeTag u \<longleftrightarrow> t \<le> u"
| "ScopeTag t \<le> ScopeRepo \<longleftrightarrow> True"
| "ScopeRepo \<le> y \<longleftrightarrow> y = ScopeRepo"

definition less_counter_scope :: "counter_scope \<Rightarrow> counter_scope \<Rightarrow> bool" where
  "x < y \<longleftrightarrow> x \<le> y \<and> \<not> y \<le> (x :: counter_scope)"

instance
proof
  fix x y z :: counter_scope
  show "x < y \<longleftrightarrow> x \<le> y \<and> \<not> y \<le> x" by (rule less_counter_scope_def)
  show "x \<le> x" by (cases x) simp_all
  show "x \<le> y \<Longrightarrow> y \<le> z \<Longrightarrow> x \<le> z" by (cases x; cases y; cases z) auto
  show "x \<le> y \<Longrightarrow> y \<le> x \<Longrightarrow> x = y" by (cases x; cases y) auto
  show "x \<le> y \<or> y \<le> x" by (cases x; cases y) auto
qed

end

record mem_repo =
  repo_tags :: "(string, digest) btree"
  repo_manifests :: "(digest, mem_manifest_entry) btree"
  repo_blobs :: "(digest, bytes) btree"
  repo_history :: "tag_event_info list"
  repo_counters :: "(counter_scope \<times> u16, counter_bucket) btree"

definition new_repo :: mem_repo where
  "new_repo =
     \<lparr>repo_tags = RBT.empty, repo_manifests = RBT.empty, repo_blobs = RBT.empty, repo_history = [],
      repo_counters = RBT.empty\<rparr>"

record mem_upload =
  mu_repo :: string
  mu_buffer :: bytes

record mem_state =
  mem_repos :: "(string, mem_repo) btree"
  mem_uploads :: "(string, mem_upload) btree"
  mem_clock :: u64

definition new_memory :: mem_state where
  "new_memory = \<lparr>mem_repos = RBT.empty, mem_uploads = RBT.empty, mem_clock = 0\<rparr>"

section \<open>Helpers\<close>

definition tick :: "u64 \<Rightarrow> u64" where
  "tick clock = clock + 1"

definition record_event :: "u64 \<Rightarrow> string \<Rightarrow> digest \<Rightarrow> bool \<Rightarrow> mem_repo \<Rightarrow> mem_repo" where
  "record_event at tag d deleted r =
     (let (media_type, size) =
        (case RBT.lookup (repo_manifests r) d of
           Some m \<Rightarrow> (sm_media_type m, word_of_nat (length (sm_body m)))
         | None \<Rightarrow> ([], 0))
      in r\<lparr>repo_history := repo_history r @
             [\<lparr>ev_at = at, ev_tag = tag, ev_digest = d, ev_deleted = deleted, ev_media_type = media_type,
               ev_size = size\<rparr>]\<rparr>)"

definition hash_like :: "'b mem_libs \<Rightarrow> bytes \<Rightarrow> digest \<Rightarrow> digest" where
  "hash_like lib bytes d =
     (case d of Sha256 _ \<Rightarrow> Sha256 (ml_sha256 lib bytes) | Sha512 _ \<Rightarrow> Sha512 (ml_sha512 lib bytes))"

definition push_platform :: "json \<Rightarrow> string list \<Rightarrow> string list" where
  "push_platform v labels =
     (case (Option.bind (json_get ''os'' v) as_str, Option.bind (json_get ''architecture'' v) as_str) of
        (Some os, Some arch) \<Rightarrow>
          let label =
            (case Option.bind (json_get ''variant'' v) as_str of
               Some variant \<Rightarrow> os @ ''/'' @ arch @ ''/'' @ variant
             | None \<Rightarrow> os @ ''/'' @ arch)
          in if label \<in> set labels then labels else labels @ [label]
      | _ \<Rightarrow> labels)"

definition string_members :: "(string \<times> json) list \<Rightarrow> (string, string) btree" where
  "string_members kvs = fold (\<lambda>(k, v) t. case as_str v of Some s \<Rightarrow> RBT.insert k s t | None \<Rightarrow> t) kvs RBT.empty"

text \<open>The config of a manifest and its layers, in that order.\<close>

definition referenced_blobs :: "json \<Rightarrow> json list" where
  "referenced_blobs v =
     (case json_get ''config'' v of Some c \<Rightarrow> [c] | None \<Rightarrow> [])
     @ (case Option.bind (json_get ''layers'' v) as_array of Some ls \<Rightarrow> ls | None \<Rightarrow> [])"

definition own_bytes :: "json \<Rightarrow> bool" where
  "own_bytes e = (case Option.bind (json_get ''urls'' e) as_array of None \<Rightarrow> True | Some u \<Rightarrow> u = [])"

definition describe :: "'b mem_libs \<Rightarrow> mem_repo \<Rightarrow> digest \<Rightarrow> mem_manifest_entry \<Rightarrow> manifest_info" where
  "describe lib r d m =
     (let parsed = (case ml_json lib (sm_body m) of Some v \<Rightarrow> v | None \<Rightarrow> JNull);
          entries = Option.bind (json_get ''manifests'' parsed) as_array;
          platforms =
            (case entries of
               None \<Rightarrow> []
             | Some es \<Rightarrow> fold (\<lambda>e labels. case json_get ''platform'' e of Some p \<Rightarrow> push_platform p labels | None \<Rightarrow> labels) es []);
          referenced = referenced_blobs parsed
      in \<lparr>mi_digest = d, mi_media_type = sm_media_type m, mi_size = word_of_nat (length (sm_body m)),
          mi_blob_size =
            sum_list (List.map_filter (\<lambda>e. Option.bind (json_get ''size'' e) as_u64) (filter own_bytes referenced)),
          mi_artifact_type = sm_artifact_type m, mi_subject = sm_subject m, mi_pushed_at = 0,
          mi_platforms = platforms, mi_blobs = word_of_nat (length referenced),
          mi_children = (case entries of Some es \<Rightarrow> word_of_nat (length es) | None \<Rightarrow> 0),
          mi_tags = take TAGS_PER_MANIFEST (map fst (filter (\<lambda>(_, e). e = d) (RBT.entries (repo_tags r)))),
          mi_annotations =
            (case Option.bind (json_get ''annotations'' parsed) as_object of
               Some kvs \<Rightarrow> string_members kvs
             | None \<Rightarrow> sm_annotations m)\<rparr>)"

definition paginate :: "'a::linorder list \<Rightarrow> 'a option \<Rightarrow> nat \<Rightarrow> 'a seam_page" where
  "paginate xs from limit =
     (let items = take (limit + 1) (filter (\<lambda>x. case from of None \<Rightarrow> True | Some l \<Rightarrow> l < x) xs) in
      \<lparr>page_items = take limit items, page_more = limit < length items\<rparr>)"

definition mem_repo_of :: "string \<Rightarrow> mem_state \<Rightarrow> ops_error + mem_repo" where
  "mem_repo_of name s = ok_or OpsRepoUnknown (RBT.lookup (mem_repos s) name)"

definition mem_resolve :: "mem_repo \<Rightarrow> http_reference \<Rightarrow> ops_error + digest" where
  "mem_resolve r reference =
     (case reference of
        DigestName d \<Rightarrow> if RBT.lookup (repo_manifests r) d \<noteq> None then Inr d else Inl OpsManifestUnknown
      | TagName t \<Rightarrow> ok_or OpsManifestUnknown (RBT.lookup (repo_tags r) t))"

text \<open>A method that only reads under the lock.\<close>

definition mem_read :: "(mem_state \<Rightarrow> ops_error + 'a) \<Rightarrow> (mem_state, 'a) ops" where
  "mem_read f = (\<lambda>s. (map_err Fails (f s), s))"

section \<open>Repositories, tags and manifests\<close>

definition mem_repositories :: "string option \<Rightarrow> nat \<Rightarrow> (mem_state, string seam_page) ops" where
  "mem_repositories from limit = mem_read (\<lambda>s. Inr (paginate (RBT.keys (mem_repos s)) from limit))"

definition mem_tags :: "string \<Rightarrow> string option \<Rightarrow> nat \<Rightarrow> (mem_state, string seam_page) ops" where
  "mem_tags name from limit =
     mem_read (\<lambda>s. and_then (mem_repo_of name s) (\<lambda>r. Inr (paginate (RBT.keys (repo_tags r)) from limit)))"

definition mem_delete_repository :: "string \<Rightarrow> (mem_state, unit) ops" where
  "mem_delete_repository name =
     (\<lambda>s. case RBT.lookup (mem_repos s) name of
            None \<Rightarrow> (Inl (Fails OpsRepoUnknown), s)
          | Some _ \<Rightarrow> (Inr (), s\<lparr>mem_repos := RBT.delete name (mem_repos s)\<rparr>))"

text \<open>What both reads of a manifest look up.\<close>

definition mem_find_manifest :: "string \<Rightarrow> http_reference \<Rightarrow> mem_state \<Rightarrow> ops_error + (mem_repo \<times> digest \<times> mem_manifest_entry)" where
  "mem_find_manifest name reference s =
     and_then (mem_repo_of name s) (\<lambda>r.
     and_then (mem_resolve r reference) (\<lambda>d.
     and_then (ok_or OpsManifestUnknown (RBT.lookup (repo_manifests r) d)) (\<lambda>m. Inr (r, d, m))))"

definition stat_of :: "digest \<Rightarrow> mem_manifest_entry \<Rightarrow> manifest_stat" where
  "stat_of d m = \<lparr>ms_digest = d, ms_media_type = sm_media_type m, ms_size = word_of_nat (length (sm_body m))\<rparr>"

definition mem_stat_manifest :: "string \<Rightarrow> http_reference \<Rightarrow> (mem_state, manifest_stat) ops" where
  "mem_stat_manifest name reference =
     mem_read (\<lambda>s. and_then (mem_find_manifest name reference s) (\<lambda>(r, d, m). Inr (stat_of d m)))"

definition mem_get_manifest :: "string \<Rightarrow> http_reference \<Rightarrow> (mem_state, manifest_stat \<times> bytes) ops" where
  "mem_get_manifest name reference =
     mem_read (\<lambda>s. and_then (mem_find_manifest name reference s) (\<lambda>(r, d, m). Inr (stat_of d m, sm_body m)))"

text \<open>What a push reads out of the document, when it is one.\<close>

definition pushed_subject :: "json option \<Rightarrow> digest option call" where
  "pushed_subject parsed =
     (case Option.bind (Option.bind (Option.bind parsed (json_get ''subject'')) (json_get ''digest'')) as_str of
        None \<Rightarrow> Returns None
      | Some text \<Rightarrow>
          (case from_str text of
             Panics \<Rightarrow> Panics
           | Returns (Inr d) \<Rightarrow> Returns (Some d)
           | Returns (Inl _) \<Rightarrow> Returns None))"

definition pushed_artifact_type :: "json option \<Rightarrow> string option" where
  "pushed_artifact_type parsed =
     (case Option.bind (Option.bind parsed (json_get ''artifactType'')) as_str of
        Some a \<Rightarrow> Some a
      | None \<Rightarrow> Option.bind (Option.bind (Option.bind parsed (json_get ''config'')) (json_get ''mediaType'')) as_str)"

definition pushed_annotations :: "json option \<Rightarrow> (string, string) btree" where
  "pushed_annotations parsed =
     (case Option.bind (Option.bind parsed (json_get ''annotations'')) as_object of
        Some kvs \<Rightarrow> string_members kvs
      | None \<Rightarrow> RBT.empty)"

text \<open>The loop over the tags to write: each points to the manifest and leaves an event of its own instant.\<close>

definition write_tag :: "digest \<Rightarrow> string \<Rightarrow> mem_repo \<times> u64 \<Rightarrow> mem_repo \<times> u64" where
  "write_tag d tag rc =
     (let (r, clock) = rc; at = tick clock in
      (record_event at tag d False (r\<lparr>repo_tags := RBT.insert tag d (repo_tags r)\<rparr>), at))"

definition drop_tag_event :: "digest \<Rightarrow> string \<Rightarrow> mem_repo \<times> u64 \<Rightarrow> mem_repo \<times> u64" where
  "drop_tag_event d tag rc = (let (r, clock) = rc; at = tick clock in (record_event at tag d True r, at))"

definition claimed_digest :: "'b mem_libs \<Rightarrow> http_reference \<Rightarrow> bytes \<Rightarrow> ops_error + digest" where
  "claimed_digest lib reference content =
     (case reference of
        DigestName claimed \<Rightarrow>
          let actual = hash_like lib content claimed in
          if actual \<noteq> claimed then Inl OpsDigestMismatch else Inr actual
      | TagName _ \<Rightarrow> Inr (Sha256 (ml_sha256 lib content)))"

definition mem_put_manifest ::
  "'b mem_libs \<Rightarrow> string \<Rightarrow> http_reference \<Rightarrow> string \<Rightarrow> string list \<Rightarrow> bytes \<Rightarrow> (mem_state, manifest_done) ops" where
  "mem_put_manifest lib name reference content_type tags content =
     bind_a (of_result (claimed_digest lib reference content)) (\<lambda>d.
     let parsed = ml_json lib content in
     case pushed_subject parsed of
       Panics \<Rightarrow> fail_a Panicking
     | Returns subject \<Rightarrow>
         (\<lambda>s. let m = \<lparr>sm_media_type = content_type, sm_body = content, sm_subject = subject,
                        sm_artifact_type = pushed_artifact_type parsed, sm_annotations = pushed_annotations parsed\<rparr>;
                  r = bt_get_or new_repo (mem_repos s) name;
                  written = (case reference of TagName t \<Rightarrow> [t] | DigestName _ \<Rightarrow> []) @ tags;
                  (r', clock) =
                    fold (write_tag d) written (r\<lparr>repo_manifests := RBT.insert d m (repo_manifests r)\<rparr>, mem_clock s)
              in (Inr \<lparr>md_digest = d, md_subject = subject, md_tags = tags\<rparr>,
                  s\<lparr>mem_repos := RBT.insert name r' (mem_repos s), mem_clock := clock\<rparr>)))"

definition mem_delete_manifest :: "string \<Rightarrow> http_reference \<Rightarrow> (mem_state, unit) ops" where
  "mem_delete_manifest name reference =
     (\<lambda>s. case RBT.lookup (mem_repos s) name of
            None \<Rightarrow> (Inl (Fails OpsRepoUnknown), s)
          | Some r \<Rightarrow>
              (case reference of
                 TagName tag \<Rightarrow>
                   (case RBT.lookup (repo_tags r) tag of
                      None \<Rightarrow> (Inl (Fails OpsManifestUnknown), s)
                    | Some d \<Rightarrow>
                        let (r', clock) =
                          drop_tag_event d tag (r\<lparr>repo_tags := RBT.delete tag (repo_tags r)\<rparr>, mem_clock s)
                        in (Inr (), s\<lparr>mem_repos := RBT.insert name r' (mem_repos s), mem_clock := clock\<rparr>))
               | DigestName d \<Rightarrow>
                   if RBT.lookup (repo_manifests r) d = None then (Inl (Fails OpsManifestUnknown), s)
                   else
                     let dropped = map fst (filter (\<lambda>(_, target). target = d) (RBT.entries (repo_tags r)));
                         (r', clock) = fold (drop_tag_event d) dropped (r, mem_clock s);
                         r'' = r'\<lparr>repo_manifests := RBT.delete d (repo_manifests r'),
                                  repo_tags := RBT.filter (\<lambda>_ target. target \<noteq> d) (repo_tags r')\<rparr>
                     in (Inr (), s\<lparr>mem_repos := RBT.insert name r'' (mem_repos s), mem_clock := clock\<rparr>)))"

section \<open>Blobs\<close>

definition mem_find_blob :: "string \<Rightarrow> digest \<Rightarrow> mem_state \<Rightarrow> ops_error + bytes" where
  "mem_find_blob name d s =
     and_then (map_err (\<lambda>_. OpsBlobUnknown) (mem_repo_of name s)) (\<lambda>r. ok_or OpsBlobUnknown (RBT.lookup (repo_blobs r) d))"

definition mem_stat_blob :: "string \<Rightarrow> digest \<Rightarrow> (mem_state, u64) ops" where
  "mem_stat_blob name d = mem_read (\<lambda>s. and_then (mem_find_blob name d s) (\<lambda>b. Inr (word_of_nat (length b))))"

text \<open>Slicing panics when the window ends before it starts.\<close>

definition window_of :: "bytes \<Rightarrow> byte_range option \<Rightarrow> bytes call" where
  "window_of b window =
     (case window of
        None \<Rightarrow> Returns b
      | Some r \<Rightarrow>
          let total = word_of_nat (length b) :: u64;
              from = unat (min (range_start r) total);
              to = unat (min (range_end r + 1) total)
          in if to < from then Panics else Returns (take (to - from) (drop from b)))"

definition mem_get_blob :: "string \<Rightarrow> digest \<Rightarrow> byte_range option \<Rightarrow> (mem_state, blob_read) ops" where
  "mem_get_blob name d window =
     (\<lambda>s. case mem_find_blob name d s of
            Inl e \<Rightarrow> (Inl (Fails e), s)
          | Inr b \<Rightarrow>
              (case window_of b window of
                 Panics \<Rightarrow> (Inl Panicking, s)
               | Returns part \<Rightarrow>
                   (Inr \<lparr>bd_total_size = word_of_nat (length b), bd_window = window, bd_body = part\<rparr>, s)))"

definition mem_delete_blob :: "string \<Rightarrow> digest \<Rightarrow> (mem_state, unit) ops" where
  "mem_delete_blob name d =
     (\<lambda>s. case RBT.lookup (mem_repos s) name of
            None \<Rightarrow> (Inl (Fails OpsBlobUnknown), s)
          | Some r \<Rightarrow>
              if RBT.lookup (repo_blobs r) d = None then (Inl (Fails OpsBlobUnknown), s)
              else (Inr (), s\<lparr>mem_repos := RBT.insert name (r\<lparr>repo_blobs := RBT.delete d (repo_blobs r)\<rparr>) (mem_repos s)\<rparr>))"

text \<open>\<open>entry(name).or_default().blobs.insert(d, b)\<close>\<close>

definition store_blob :: "string \<Rightarrow> digest \<Rightarrow> bytes \<Rightarrow> mem_state \<Rightarrow> mem_state" where
  "store_blob name d b s =
     s\<lparr>mem_repos := bt_update new_repo name (\<lambda>r. r\<lparr>repo_blobs := RBT.insert d b (repo_blobs r)\<rparr>) (mem_repos s)\<rparr>"

definition mount_source :: "digest \<Rightarrow> string option \<Rightarrow> mem_state \<Rightarrow> bytes option" where
  "mount_source d from s =
     (case from of
        Some name \<Rightarrow> Option.bind (RBT.lookup (mem_repos s) name) (\<lambda>r. RBT.lookup (repo_blobs r) d)
      | None \<Rightarrow>
          (case List.map_filter (\<lambda>(_, r). RBT.lookup (repo_blobs r) d) (RBT.entries (mem_repos s)) of
             [] \<Rightarrow> None
           | b # _ \<Rightarrow> Some b))"

definition mem_mount_blob :: "string \<Rightarrow> digest \<Rightarrow> string option \<Rightarrow> (mem_state, bool) ops" where
  "mem_mount_blob name d from =
     (\<lambda>s. case mount_source d from s of
            None \<Rightarrow> (Inr False, s)
          | Some b \<Rightarrow> (Inr True, store_blob name d b s))"

section \<open>Uploads\<close>

definition mem_create_upload :: "string \<Rightarrow> string \<Rightarrow> string \<Rightarrow> (mem_state, unit) ops" where
  "mem_create_upload name i algo =
     (\<lambda>s. (Inr (),
       s\<lparr>mem_repos := bt_update new_repo name (\<lambda>r. r) (mem_repos s),
         mem_uploads := RBT.insert i \<lparr>mu_repo = name, mu_buffer = []\<rparr> (mem_uploads s)\<rparr>))"

definition mem_session :: "string \<Rightarrow> string \<Rightarrow> mem_state \<Rightarrow> ops_error + mem_upload" where
  "mem_session name i s =
     and_then (ok_or OpsUploadUnknown (RBT.lookup (mem_uploads s) i)) (\<lambda>u.
       if mu_repo u \<noteq> name then Inl OpsUploadUnknown else Inr u)"

definition mem_upload_offset :: "string \<Rightarrow> string \<Rightarrow> (mem_state, u64) ops" where
  "mem_upload_offset name i =
     mem_read (\<lambda>s. and_then (mem_session name i s) (\<lambda>u. Inr (word_of_nat (length (mu_buffer u)))))"

text \<open>The session, when it is where the caller expects it.\<close>

definition session_at :: "string \<Rightarrow> string \<Rightarrow> u64 \<Rightarrow> mem_state \<Rightarrow> ops_error + mem_upload" where
  "session_at name i expected s =
     and_then (mem_session name i s) (\<lambda>u.
       let current = word_of_nat (length (mu_buffer u)) in
       if current \<noteq> expected then Inl (OpsOffsetMismatch current) else Inr u)"

definition mem_append_upload ::
  "'b mem_libs \<Rightarrow> string \<Rightarrow> string \<Rightarrow> u64 \<Rightarrow> 'b upload_body \<Rightarrow> (mem_state, u64) ops" where
  "mem_append_upload lib name i expected b =
     bind_a (of_result (collect_body (ml_to_bytes lib) b)) (\<lambda>chunk s.
       case session_at name i expected s of
         Inl e \<Rightarrow> (Inl (Fails e), s)
       | Inr u \<Rightarrow>
           let buffer = mu_buffer u @ chunk in
           (Inr (word_of_nat (length buffer)),
            s\<lparr>mem_uploads := RBT.insert i (u\<lparr>mu_buffer := buffer\<rparr>) (mem_uploads s)\<rparr>))"

definition mem_finish_upload ::
  "'b mem_libs \<Rightarrow> string \<Rightarrow> string \<Rightarrow> u64 \<Rightarrow> 'b upload_body \<Rightarrow> digest \<Rightarrow> (mem_state, unit) ops" where
  "mem_finish_upload lib name i expected b d =
     bind_a (of_result (collect_body (ml_to_bytes lib) b)) (\<lambda>chunk s.
       case session_at name i expected s of
         Inl e \<Rightarrow> (Inl (Fails e), s)
       | Inr u \<Rightarrow>
           let content = mu_buffer u @ chunk in
           if hash_like lib content d \<noteq> d then (Inl (Fails OpsDigestMismatch), s)
           else (Inr (), store_blob name d content (s\<lparr>mem_uploads := RBT.delete i (mem_uploads s)\<rparr>)))"

definition mem_cancel_upload :: "string \<Rightarrow> string \<Rightarrow> (mem_state, unit) ops" where
  "mem_cancel_upload name i =
     (\<lambda>s. case RBT.lookup (mem_uploads s) i of
            Some u \<Rightarrow>
              if mu_repo u = name then (Inr (), s\<lparr>mem_uploads := RBT.delete i (mem_uploads s)\<rparr>)
              else (Inl (Fails OpsUploadUnknown), s)
          | None \<Rightarrow> (Inl (Fails OpsUploadUnknown), s))"

definition mem_put_blob :: "'b mem_libs \<Rightarrow> string \<Rightarrow> digest \<Rightarrow> 'b upload_body \<Rightarrow> (mem_state, unit) ops" where
  "mem_put_blob lib name d b =
     bind_a (of_result (collect_body (ml_to_bytes lib) b)) (\<lambda>content.
       if hash_like lib content d \<noteq> d then fail_a (Fails OpsDigestMismatch)
       else (\<lambda>s. (Inr (), store_blob name d content s)))"

section \<open>Referrers and discovery\<close>

definition descriptor_of :: "digest \<times> mem_manifest_entry \<Rightarrow> seam_descriptor" where
  "descriptor_of e =
     (let (d, m) = e in
      \<lparr>sd_media_type = sm_media_type m, sd_digest = d, sd_size = word_of_nat (length (sm_body m)),
       sd_artifact_type = sm_artifact_type m, sd_annotations = sm_annotations m\<rparr>)"

definition refers_to :: "digest \<Rightarrow> digest option \<Rightarrow> digest \<times> mem_manifest_entry \<Rightarrow> bool" where
  "refers_to subject from e \<longleftrightarrow>
     sm_subject (snd e) = Some subject \<and> (case from of None \<Rightarrow> True | Some l \<Rightarrow> l < fst e)"

definition wanted_type :: "string option \<Rightarrow> digest \<times> mem_manifest_entry \<Rightarrow> bool" where
  "wanted_type artifact_type e \<longleftrightarrow>
     (case artifact_type of Some wanted \<Rightarrow> sm_artifact_type (snd e) = Some wanted | None \<Rightarrow> True)"

definition mem_referrers ::
  "string \<Rightarrow> digest \<Rightarrow> string option \<Rightarrow> digest option \<Rightarrow> nat \<Rightarrow> (mem_state, seam_referrers) ops" where
  "mem_referrers name subject artifact_type from limit =
     mem_read (\<lambda>s.
       case RBT.lookup (mem_repos s) name of
         None \<Rightarrow> Inr \<lparr>rf_manifests = [], rf_filter_applied = artifact_type \<noteq> None, rf_next = None\<rparr>
       | Some r \<Rightarrow>
           let scanned = take (limit + 1) (filter (refers_to subject from) (RBT.entries (repo_manifests r)));
               found = take limit scanned
           in Inr \<lparr>rf_manifests = map descriptor_of (filter (wanted_type artifact_type) found),
                   rf_filter_applied = artifact_type \<noteq> None,
                   rf_next = (if limit < length scanned \<and> found \<noteq> [] then Some (fst (last found)) else None)\<rparr>)"

definition summary_of :: "mem_state \<Rightarrow> string \<Rightarrow> repo_summary" where
  "summary_of s name =
     (let r = the (RBT.lookup (mem_repos s) name) in
      \<lparr>rs_name = name, rs_tags = exact_tally (word_of_nat (bt_len (repo_tags r))),
       rs_manifests = exact_tally (word_of_nat (bt_len (repo_manifests r)))\<rparr>)"

definition mem_repository_summaries :: "string \<Rightarrow> string option \<Rightarrow> nat \<Rightarrow> (mem_state, repo_page) ops" where
  "mem_repository_summaries query from limit =
     mem_read (\<lambda>s.
       let names = paginate (filter (sublist query) (RBT.keys (mem_repos s))) from limit in
       Inr \<lparr>rp_items = map (summary_of s) (page_items names),
            rp_next = (if page_more names \<and> page_items names \<noteq> [] then Some (last (page_items names)) else None)\<rparr>)"

definition mem_repository_detail :: "string \<Rightarrow> (mem_state, repo_detail) ops" where
  "mem_repository_detail name =
     mem_read (\<lambda>s. and_then (mem_repo_of name s) (\<lambda>r.
       Inr \<lparr>rd_name = name, rd_tags = exact_tally (word_of_nat (bt_len (repo_tags r))),
            rd_manifests = exact_tally (word_of_nat (bt_len (repo_manifests r))),
            rd_blobs = exact_tally (word_of_nat (bt_len (repo_blobs r))),
            rd_size_bytes = sum_list (map (\<lambda>(_, b). word_of_nat (length b)) (RBT.entries (repo_blobs r)))\<rparr>))"

definition tag_info_of :: "'b mem_libs \<Rightarrow> mem_repo \<Rightarrow> string \<Rightarrow> tag_info" where
  "tag_info_of lib r tag =
     (let d = the (RBT.lookup (repo_tags r) tag) in
      \<lparr>ti_name = tag, ti_digest = d, ti_tagged_at = 0,
       ti_manifest = map_option (describe lib r d) (RBT.lookup (repo_manifests r) d)\<rparr>)"

definition mem_tag_details :: "'b mem_libs \<Rightarrow> string \<Rightarrow> string option \<Rightarrow> nat \<Rightarrow> (mem_state, tag_info seam_page) ops" where
  "mem_tag_details lib name from limit =
     mem_read (\<lambda>s. and_then (mem_repo_of name s) (\<lambda>r.
       let p = paginate (RBT.keys (repo_tags r)) from limit in
       Inr \<lparr>page_items = map (tag_info_of lib r) (page_items p), page_more = page_more p\<rparr>))"

definition mem_manifest_details ::
  "'b mem_libs \<Rightarrow> string \<Rightarrow> digest option \<Rightarrow> nat \<Rightarrow> (mem_state, manifest_info seam_page) ops" where
  "mem_manifest_details lib name from limit =
     mem_read (\<lambda>s. and_then (mem_repo_of name s) (\<lambda>r.
       let p = paginate (RBT.keys (repo_manifests r)) from limit in
       Inr \<lparr>page_items = map (\<lambda>d. describe lib r d (the (RBT.lookup (repo_manifests r) d))) (page_items p),
            page_more = page_more p\<rparr>))"

definition mem_manifest_detail :: "'b mem_libs \<Rightarrow> string \<Rightarrow> http_reference \<Rightarrow> (mem_state, manifest_info) ops" where
  "mem_manifest_detail lib name reference =
     mem_read (\<lambda>s. and_then (mem_find_manifest name reference s) (\<lambda>(r, d, m). Inr (describe lib r d m)))"

section \<open>History and counters\<close>

definition mem_event_key :: "http_reference \<Rightarrow> tag_event_info \<Rightarrow> string" where
  "mem_event_key reference e = (case reference of TagName _ \<Rightarrow> to_string (ev_digest e) | DigestName _ \<Rightarrow> ev_tag e)"

definition about :: "http_reference \<Rightarrow> tag_event_info \<Rightarrow> bool" where
  "about reference e \<longleftrightarrow> (case reference of TagName t \<Rightarrow> ev_tag e = t | DigestName d \<Rightarrow> ev_digest e = d)"

definition after_cursor :: "http_reference \<Rightarrow> u64 option \<Rightarrow> string option \<Rightarrow> tag_event_info \<Rightarrow> bool" where
  "after_cursor reference before from e \<longleftrightarrow>
     (case (before, from) of
        (Some at, Some l) \<Rightarrow> ev_at e < at \<or> ev_at e = at \<and> l < mem_event_key reference e
      | (Some at, None) \<Rightarrow> ev_at e < at
      | (None, _) \<Rightarrow> True)"

definition mem_tag_history ::
  "string \<Rightarrow> http_reference \<Rightarrow> u64 option \<Rightarrow> string option \<Rightarrow> nat
    \<Rightarrow> (mem_state, tag_event_info list \<times> seam_cursor option) ops" where
  "mem_tag_history name reference before from limit =
     mem_read (\<lambda>s.
       case RBT.lookup (mem_repos s) name of
         None \<Rightarrow> Inr ([], None)
       | Some r \<Rightarrow>
           let rows = filter (after_cursor reference before from) (filter (about reference) (rev (repo_history r)));
               kept = take limit rows
           in Inr (kept,
                if limit < length rows \<and> kept \<noteq> []
                then Some \<lparr>cursor_before = ev_at (last kept), cursor_last = mem_event_key reference (last kept)\<rparr> else None))"

definition scope_wanted :: "pull_count_scope \<Rightarrow> counter_scope" where
  "scope_wanted scope =
     (case scope of RepositoryScope \<Rightarrow> ScopeRepo | TagScope t \<Rightarrow> ScopeTag t | ManifestScope d \<Rightarrow> ScopeManifest d)"

definition mem_pull_counts :: "string \<Rightarrow> pull_count_scope \<Rightarrow> u16 \<Rightarrow> u16 \<Rightarrow> (mem_state, pull_count_day list) ops" where
  "mem_pull_counts name scope from_day days =
     mem_read (\<lambda>s.
       if days = 0 then Inr []
       else (case RBT.lookup (mem_repos s) name of
               None \<Rightarrow> Inr []
             | Some r \<Rightarrow>
                 let final = sat_add from_day (sat_sub days 1) in
                 Inr (map (\<lambda>((_, day), bucket). \<lparr>pd_day = day, pd_bucket = bucket\<rparr>)
                   (filter (\<lambda>((sc, day), _). sc = scope_wanted scope \<and> from_day \<le> day \<and> day \<le> final)
                     (RBT.entries (repo_counters r))))))"

definition recorded_scope :: "pull_subject \<Rightarrow> counter_scope" where
  "recorded_scope subject =
     (case subject of PulledManifest d \<Rightarrow> ScopeManifest d | PulledTag t \<Rightarrow> ScopeTag t | PulledRepo \<Rightarrow> ScopeRepo)"

definition apply_row :: "recorded \<Rightarrow> mem_state \<Rightarrow> mem_state" where
  "apply_row row s =
     (case RBT.lookup (mem_repos s) (rec_repo row) of
        None \<Rightarrow> s
      | Some r \<Rightarrow>
          s\<lparr>mem_repos := RBT.insert (rec_repo row)
              (r\<lparr>repo_counters :=
                  bt_update default_bucket (recorded_scope (rec_subject row), rec_day row)
                    (\<lambda>b. bucket_add b (rec_hour row) (rec_manifest_pulls row) (rec_blob_pulls row) (rec_bytes_out row))
                    (repo_counters r)\<rparr>) (mem_repos s)\<rparr>)"

definition apply_pull_counts :: "recorded list \<Rightarrow> mem_state \<Rightarrow> mem_state" where
  "apply_pull_counts rows s = fold apply_row rows s"

section \<open>Seeds\<close>

definition seed_blob :: "'b mem_libs \<Rightarrow> string \<Rightarrow> bytes \<Rightarrow> mem_state \<Rightarrow> digest \<times> mem_state" where
  "seed_blob lib name bytes s =
     (let d = Sha256 (ml_sha256 lib bytes) in (d, store_blob name d bytes s))"

definition seed_manifest ::
  "'b mem_libs \<Rightarrow> string \<Rightarrow> string option \<Rightarrow> string \<Rightarrow> bytes \<Rightarrow> mem_state \<Rightarrow> digest \<times> mem_state" where
  "seed_manifest lib name tag media_type content s =
     (let d = Sha256 (ml_sha256 lib content);
          m = \<lparr>sm_media_type = media_type, sm_body = content, sm_subject = None, sm_artifact_type = None,
               sm_annotations = RBT.empty\<rparr>;
          r = bt_get_or new_repo (mem_repos s) name;
          (r', clock) =
            fold (write_tag d) (case tag of Some t \<Rightarrow> [t] | None \<Rightarrow> [])
              (r\<lparr>repo_manifests := RBT.insert d m (repo_manifests r)\<rparr>, mem_clock s)
      in (d, s\<lparr>mem_repos := RBT.insert name r' (mem_repos s), mem_clock := clock\<rparr>))"

definition seed_subject :: "string \<Rightarrow> digest \<Rightarrow> digest \<Rightarrow> string option \<Rightarrow> mem_state \<Rightarrow> mem_state" where
  "seed_subject name d subject artifact_type s =
     (case RBT.lookup (mem_repos s) name of
        None \<Rightarrow> s
      | Some r \<Rightarrow>
          (case RBT.lookup (repo_manifests r) d of
             None \<Rightarrow> s
           | Some m \<Rightarrow>
               s\<lparr>mem_repos := RBT.insert name
                   (r\<lparr>repo_manifests := RBT.insert d (m\<lparr>sm_subject := Some subject, sm_artifact_type := artifact_type\<rparr>)
                        (repo_manifests r)\<rparr>) (mem_repos s)\<rparr>))"

section \<open>The implementation of the seam\<close>

definition memory_registry :: "'b mem_libs \<Rightarrow> (mem_state, 'b) registry_ops" where
  "memory_registry lib =
     \<lparr>op_repositories = mem_repositories, op_tags = mem_tags, op_delete_repository = mem_delete_repository,
      op_purge = default_purge, op_last_purge = default_last_purge, op_stat_manifest = mem_stat_manifest,
      op_get_manifest = mem_get_manifest, op_put_manifest = mem_put_manifest lib,
      op_delete_manifest = mem_delete_manifest, op_stat_blob = mem_stat_blob, op_get_blob = mem_get_blob,
      op_delete_blob = mem_delete_blob, op_mount_blob = mem_mount_blob, op_create_upload = mem_create_upload,
      op_upload_offset = mem_upload_offset, op_append_upload = mem_append_upload lib,
      op_finish_upload = mem_finish_upload lib, op_cancel_upload = mem_cancel_upload,
      op_put_blob = mem_put_blob lib, op_referrers = mem_referrers,
      op_repository_summaries = mem_repository_summaries, op_repository_detail = mem_repository_detail,
      op_tag_details = mem_tag_details lib, op_manifest_details = mem_manifest_details lib,
      op_manifest_detail = mem_manifest_detail lib, op_tag_history = mem_tag_history,
      op_pull_counts = mem_pull_counts\<rparr>"

end
