(* ===== verification/Summ_Serve.thy ===== *)
theory Summ_Serve
  imports Summ_Memory
begin

text \<open>
  What the request handlers share (\<open>handlers/mod.rs\<close>) and the upload state machine (\<open>handlers/uploads.rs\<close>).

  A handler is given the registry as the record of the seam's operations and is otherwise independent of it; its state is the store of that
  registry and the accumulator of pull counts. The framework's conversions are the functions of \<open>web\<close>: the text of a header value
  (type \<open>'h\<close>), the validity of an outgoing one, the collection of a body, the encoding of JSON. The clock and the fresh identifier of a
  request come with its context. The calls of one handler follow each other on the state; what other
  requests do between them is the state they find.
\<close>

section \<open>Context\<close>

record ('b, 'h) web =
  wb_to_str :: "'h \<Rightarrow> string option"
  wb_header_ok :: "string \<Rightarrow> bool"
  wb_to_bytes :: "'b \<Rightarrow> nat \<Rightarrow> bytes option"
  wb_json :: "json \<Rightarrow> string + bytes"
  wb_error_json :: "wire_error \<Rightarrow> bytes"

record 'h ctx =
  cx_method :: http_method
  cx_path :: string
  cx_query :: "(string \<times> string) list"
  cx_headers :: "(string \<times> 'h) list"
  cx_config :: server_config
  cx_now :: u64
  cx_fresh :: string

definition ctx_header :: "('b, 'h) web \<Rightarrow> 'h ctx \<Rightarrow> string \<Rightarrow> string option" where
  "ctx_header w c name = Option.bind (map_of (cx_headers c) name) (wb_to_str w)"

definition ctx_param :: "'h ctx \<Rightarrow> string \<Rightarrow> string option" where
  "ctx_param c key = first (cx_query c) key"

record 's server =
  sv_store :: 's
  sv_pulls :: pull_counters

type_synonym ('s, 'a) handler = "('s server, api_error halt, 'a) action"

text \<open>\<open>ctx.registry().op(..).await.map_err(ops_error)\<close>\<close>

definition from_seam_raw :: "('s, 'a) ops \<Rightarrow> ('s server, ops_error halt, 'a) action" where
  "from_seam_raw m = (\<lambda>sv. case m (sv_store sv) of (r, s') \<Rightarrow> (r, sv\<lparr>sv_store := s'\<rparr>))"

definition from_seam :: "('s, 'a) ops \<Rightarrow> ('s, 'a) handler" where
  "from_seam m = map_err_a (map_halt api_error_of) (from_seam_raw m)"

definition on_pulls :: "(pull_counters \<Rightarrow> pull_counters) \<Rightarrow> ('s, unit) handler" where
  "on_pulls f = (\<lambda>sv. (Inr (), sv\<lparr>sv_pulls := f (sv_pulls sv)\<rparr>))"

section \<open>Responses\<close>

text \<open>A header that the builder has to check, and one that is a value already: \<open>None\<close> is the builder's error.\<close>

type_synonym built = "(string \<times> string option) list"

definition text_header :: "('b, 'h) web \<Rightarrow> string \<Rightarrow> string \<Rightarrow> string \<times> string option" where
  "text_header w name value = (name, if wb_header_ok w value then Some value else None)"

definition value_header :: "string \<Rightarrow> string \<Rightarrow> string \<times> string option" where
  "value_header name value = (name, Some value)"

definition build :: "('b, 'h) web \<Rightarrow> nat \<Rightarrow> built \<Rightarrow> body \<Rightarrow> response" where
  "build w status hs content =
     (if list_all (\<lambda>h. snd h \<noteq> None) hs then
        \<lparr>resp_status = status, resp_headers = map (\<lambda>(name, v). (name, the v)) hs, resp_body = content\<rparr>
      else into_response (wb_error_json w) internal_error)"

definition empty_with_length :: "nat \<Rightarrow> u64 \<Rightarrow> headers \<Rightarrow> response" where
  "empty_with_length status len hs =
     \<lparr>resp_status = status, resp_headers = (''content-length'', show_nat (unat len)) # hs, resp_body = NoBody\<rparr>"

text \<open>\<open>ascii\<close>, \<open>header_value\<close> and \<open>digest_header\<close>: a value, or a fixed text where it is not one.\<close>

definition header_value :: "('b, 'h) web \<Rightarrow> string \<Rightarrow> string" where
  "header_value w value = (if wb_header_ok w value then value else ''invalid'')"

definition digest_header :: "('b, 'h) web \<Rightarrow> digest \<Rightarrow> string" where
  "digest_header w d = header_value w (to_string d)"

definition DOCKER_CONTENT_DIGEST :: string where "DOCKER_CONTENT_DIGEST = ''docker-content-digest''"
definition OCI_SUBJECT :: string where "OCI_SUBJECT = ''oci-subject''"
definition OCI_TAG :: string where "OCI_TAG = ''oci-tag''"
definition OCI_CHUNK_MIN_LENGTH :: string where "OCI_CHUNK_MIN_LENGTH = ''oci-chunk-min-length''"
definition OCI_FILTERS_APPLIED :: string where "OCI_FILTERS_APPLIED = ''oci-filters-applied''"
definition MEDIA_TYPE_INDEX :: string where "MEDIA_TYPE_INDEX = ''application/vnd.oci.image.index.v1+json''"
definition MEDIA_TYPE_MANIFEST :: string where "MEDIA_TYPE_MANIFEST = ''application/vnd.oci.image.manifest.v1+json''"
definition MEDIA_TYPE_OCTET_STREAM :: string where "MEDIA_TYPE_OCTET_STREAM = ''application/octet-stream''"

definition read_body :: "('b, 'h) web \<Rightarrow> 'b \<Rightarrow> nat \<Rightarrow> api_error \<Rightarrow> api_error + bytes" where
  "read_body w b limit on_overflow = ok_or on_overflow (wb_to_bytes w b limit)"

definition parse_digest_as :: "string \<Rightarrow> (api_error \<Rightarrow> api_error) \<Rightarrow> ('s, digest) handler" where
  "parse_digest_as text f =
     of_call (case http_parse_digest text of
                Panics \<Rightarrow> Panics
              | Returns r \<Rightarrow>
                  Returns (map_err (\<lambda>e. case e of DigestError m \<Rightarrow> with_detail m (f (new_error CodeDigestInvalid))) r))"

section \<open>Uploads\<close>

definition upload_body_of :: "'h ctx \<Rightarrow> 'b \<Rightarrow> u64 option \<Rightarrow> 'b upload_body" where
  "upload_body_of c b chunk_len = \<lparr>ub_body = b, ub_declared = chunk_len, ub_limit = cfg_max_upload_bytes (cx_config c)\<rparr>"

definition digest_algorithm :: "'h ctx \<Rightarrow> api_error + string" where
  "digest_algorithm c =
     (case ctx_param c ''digest-algorithm'' of
        None \<Rightarrow> Inr ''sha256''
      | Some a \<Rightarrow>
          if a = [] then Inr ''sha256''
          else if a = ''sha256'' \<or> a = ''sha512'' then Inr a
          else Inl (with_detail a (with_message ''unsupported digest algorithm'' (new_error CodeDigestInvalid))))"

definition size_mismatch :: "u64 \<Rightarrow> u64 \<Rightarrow> api_error" where
  "size_mismatch want got =
     with_detail (''expected '' @ show_nat (unat want) @ '' bytes, got '' @ show_nat (unat got)) (new_error CodeSizeInvalid)"

definition out_of_order :: "u64 \<Rightarrow> u64 \<Rightarrow> api_error" where
  "out_of_order offset got =
     with_detail (''expected the chunk to start at '' @ show_nat (unat offset) @ '', got '' @ show_nat (unat got))
       (with_message ''chunk is out of order'' (with_status 416 (new_error CodeBlobUploadInvalid)))"

definition chunk_error :: "string \<Rightarrow> chunk_range_error \<Rightarrow> api_error" where
  "chunk_error header e =
     (case e of
        MalformedRange detail \<Rightarrow>
          with_detail detail (with_message ''malformed Content-Range'' (new_error CodeBlobUploadInvalid))
      | Inverted \<Rightarrow>
          with_detail header (with_message ''Content-Range start is after its end'' (new_error CodeBlobUploadInvalid)))"

definition validate_chunk :: "('b, 'h) web \<Rightarrow> 'h ctx \<Rightarrow> u64 \<Rightarrow> api_error + u64 option" where
  "validate_chunk w c offset =
     (case (ctx_header w c ''content-range'', Option.bind (ctx_header w c ''content-length'') parse_u64) of
        (Some header, Some len) \<Rightarrow>
          and_then (map_err (chunk_error header) (parse_chunk_range header)) (\<lambda>r.
            if range_size r \<noteq> len then Inl (size_mismatch (range_size r) len)
            else if range_start r \<noteq> offset then Inl (out_of_order offset (range_start r))
            else Inr (Some len))
      | _ \<Rightarrow> Inr None)"

definition blob_created :: "('b, 'h) web \<Rightarrow> string \<Rightarrow> digest \<Rightarrow> response" where
  "blob_created w name d =
     empty_with_length 201 0
       [(''location'', header_value w (blob_location name d)), (DOCKER_CONTENT_DIGEST, digest_header w d)]"

definition upload_mount :: "('b, 'h) web \<Rightarrow> ('s, 'b) registry_ops \<Rightarrow> 'h ctx \<Rightarrow> string \<Rightarrow> string \<Rightarrow> ('s, response option) handler" where
  "upload_mount w r c name text =
     (case http_parse_digest text of
        Panics \<Rightarrow> fail_a Panicking
      | Returns (Inl _) \<Rightarrow> return_a None
      | Returns (Inr d) \<Rightarrow>
          let from = (case ctx_param c ''from'' of Some f \<Rightarrow> if valid_name f then Some f else None | None \<Rightarrow> None) in
          bind_a (from_seam (op_mount_blob r name d from)) (\<lambda>mounted.
            return_a (if mounted then Some (blob_created w name d) else None)))"

definition upload_single_post ::
  "('b, 'h) web \<Rightarrow> ('s, 'b) registry_ops \<Rightarrow> 'h ctx \<Rightarrow> string \<Rightarrow> string \<Rightarrow> 'b \<Rightarrow> ('s, response) handler" where
  "upload_single_post w r c name text b =
     bind_a (parse_digest_as text id) (\<lambda>d.
     bind_a (from_seam (op_put_blob r name d (upload_body_of c b None))) (\<lambda>_.
       return_a (blob_created w name d)))"

definition upload_headers :: "('b, 'h) web \<Rightarrow> string \<Rightarrow> string \<Rightarrow> u64 \<Rightarrow> headers" where
  "upload_headers w name i offset =
     [(''location'', header_value w (location name i)), (''range'', header_value w (upload_range_header offset))]"

definition upload_create ::
  "('b, 'h) web \<Rightarrow> ('s, 'b) registry_ops \<Rightarrow> 'h ctx \<Rightarrow> string \<Rightarrow> 'b \<Rightarrow> ('s, response) handler" where
  "upload_create w r c name b =
     (if cx_method c \<noteq> POST then fail_a (Fails (method_not_allowed ''POST''))
      else
        bind_a (case ctx_param c ''mount'' of Some text \<Rightarrow> upload_mount w r c name text | None \<Rightarrow> return_a None) (\<lambda>mounted.
          case mounted of
            Some response \<Rightarrow> return_a response
          | None \<Rightarrow>
              (case ctx_param c ''digest'' of
                 Some text \<Rightarrow> upload_single_post w r c name text b
               | None \<Rightarrow>
                   bind_a (of_result (digest_algorithm c)) (\<lambda>algo.
                   bind_a (from_seam (op_create_upload r name (cx_fresh c) algo)) (\<lambda>_.
                     return_a (empty_with_length 202 0
                       (upload_headers w name (cx_fresh c) 0
                        @ (case cfg_chunk_min_length (cx_config c) of
                             Some least \<Rightarrow> [(OCI_CHUNK_MIN_LENGTH, header_value w (show_nat (unat least)))]
                           | None \<Rightarrow> []))))))))"

definition upload_patch ::
  "('b, 'h) web \<Rightarrow> ('s, 'b) registry_ops \<Rightarrow> 'h ctx \<Rightarrow> string \<Rightarrow> string \<Rightarrow> 'b \<Rightarrow> ('s, response) handler" where
  "upload_patch w r c name i b =
     bind_a (from_seam (op_upload_offset r name i)) (\<lambda>offset.
     bind_a (of_result (validate_chunk w c offset)) (\<lambda>chunk_len.
     bind_a (from_seam (op_append_upload r name i offset (upload_body_of c b chunk_len))) (\<lambda>new_offset.
       return_a (empty_with_length 202 0 (upload_headers w name i new_offset)))))"

definition upload_finish ::
  "('b, 'h) web \<Rightarrow> ('s, 'b) registry_ops \<Rightarrow> 'h ctx \<Rightarrow> string \<Rightarrow> string \<Rightarrow> 'b \<Rightarrow> ('s, response) handler" where
  "upload_finish w r c name i b =
     (case ctx_param c ''digest'' of
        None \<Rightarrow>
          fail_a (Fails (with_message ''digest query parameter is required to close an upload'' (new_error CodeDigestInvalid)))
      | Some text \<Rightarrow>
          bind_a (parse_digest_as text id) (\<lambda>d.
          bind_a (from_seam (op_upload_offset r name i)) (\<lambda>offset.
          bind_a (of_result (validate_chunk w c offset)) (\<lambda>chunk_len.
          bind_a (from_seam (op_finish_upload r name i offset (upload_body_of c b chunk_len) d)) (\<lambda>_.
            return_a (blob_created w name d))))))"

definition upload_status ::
  "('b, 'h) web \<Rightarrow> ('s, 'b) registry_ops \<Rightarrow> string \<Rightarrow> string \<Rightarrow> ('s, response) handler" where
  "upload_status w r name i =
     bind_a (from_seam (op_upload_offset r name i)) (\<lambda>offset.
       return_a (empty_with_length 204 0 (upload_headers w name i offset)))"

definition upload_cancel :: "('s, 'b) registry_ops \<Rightarrow> string \<Rightarrow> string \<Rightarrow> ('s, response) handler" where
  "upload_cancel r name i = bind_a (from_seam (op_cancel_upload r name i)) (\<lambda>_. return_a (empty_with_length 204 0 []))"

definition upload_endpoint ::
  "('b, 'h) web \<Rightarrow> ('s, 'b) registry_ops \<Rightarrow> 'h ctx \<Rightarrow> string \<Rightarrow> string \<Rightarrow> 'b \<Rightarrow> ('s, response) handler" where
  "upload_endpoint w r c name i b =
     (case cx_method c of
        PATCH \<Rightarrow> upload_patch w r c name i b
      | PUT \<Rightarrow> upload_finish w r c name i b
      | GET \<Rightarrow> upload_status w r name i
      | DELETE \<Rightarrow> upload_cancel r name i
      | _ \<Rightarrow> fail_a (Fails (method_not_allowed ''GET, PATCH, PUT, DELETE'')))"

end
