(* ===== verification/Summ_Codec.thy ===== *)
theory Summ_Codec
  imports Summ_Reference
begin

text \<open>
  Value encoding (\<open>summ-registry/src/codec.rs\<close>) and the third-party code below the registry, as one
  record of functions \<open>libs\<close>: \<open>postcard\<close> for each stored type, \<open>zstd\<close>, \<open>sha2\<close>, and
  \<open>serde_json\<close> with the manifest types of \<open>oci-spec\<close>. The locale \<open>library_code\<close> states what the
  registry relies on: a record and a compressed body decode to what was encoded, and
  hashes have their length. A codec in the format that postcard documents (variable-length
  integers, length-prefixed sequences, a tag byte for options and variants) meets it.
\<close>

section \<open>The libraries\<close>

record 'a coder =
  co_enc :: "'a \<Rightarrow> bytes option"
  co_dec :: "bytes \<Rightarrow> 'a option"

text \<open>The projections of \<open>oci-spec\<close> that the registry reads.\<close>

record descriptor =
  de_media_type :: string
  de_digest :: string
  de_size :: u64
  de_urls :: "string list option"
  de_platform :: "platform option"

record image_manifest =
  im_schema_version :: u32
  im_artifact_type :: "string option"
  im_config :: descriptor
  im_layers :: "descriptor list"
  im_annotations :: "annotations option"
  im_subject :: "descriptor option"

record image_index =
  ix_schema_version :: u32
  ix_artifact_type :: "string option"
  ix_manifests :: "descriptor list"
  ix_annotations :: "annotations option"
  ix_subject :: "descriptor option"

text \<open>\<open>Shape\<close>: the media type, and whether \<open>manifests\<close> and \<open>config\<close> are present.\<close>

record shape =
  sh_media_type :: "string option"
  sh_manifests :: bool
  sh_config :: bool

record libs =
  lb_manifest :: "manifest_record coder"
  lb_blob :: "blob_record coder"
  lb_repo_blob :: "repo_blob_record coder"
  lb_mark :: "blob_mark_record coder"
  lb_tag :: "tag_record coder"
  lb_referrer :: "referrer_record coder"
  lb_upload :: "upload_session coder"
  lb_dead :: "dead_repo_record coder"
  lb_event :: "tag_event coder"
  lb_bucket :: "counter_bucket coder"
  lb_compress :: "bytes \<Rightarrow> bytes option"
  lb_decompress :: "bytes \<Rightarrow> bytes option"
  lb_sha256 :: "bytes \<Rightarrow> bytes"
  lb_sha512 :: "bytes \<Rightarrow> bytes"
  lb_shape :: "bytes \<Rightarrow> shape option"
  lb_image :: "bytes \<Rightarrow> image_manifest option"
  lb_index :: "bytes \<Rightarrow> image_index option"

section \<open>Encoding values\<close>

definition encode :: "'a coder \<Rightarrow> 'a \<Rightarrow> registry_error + bytes" where
  "encode c v = ok_or (Meta (InvalidData ''encode'')) (co_enc c v)"

definition decode :: "'a coder \<Rightarrow> bytes \<Rightarrow> string \<Rightarrow> registry_error + 'a" where
  "decode c bs what = ok_or (corrupt what) (co_dec c bs)"

definition compress_body :: "libs \<Rightarrow> bytes \<Rightarrow> registry_error + bytes" where
  "compress_body lib body = ok_or (Meta (Storage ''compress body'')) (lb_compress lib body)"

definition decompress_body :: "libs \<Rightarrow> bytes \<Rightarrow> registry_error + bytes" where
  "decompress_body lib stored = ok_or (corrupt ''manifest body'') (lb_decompress lib stored)"

section \<open>What the libraries promise\<close>

definition coder_ok :: "'a coder \<Rightarrow> bool" where
  "coder_ok c \<longleftrightarrow> (\<forall>v. \<exists>bs. co_enc c v = Some bs \<and> co_dec c bs = Some v)"

text \<open>The bytes a value is stored as.\<close>

definition stored_as :: "'a coder \<Rightarrow> 'a \<Rightarrow> bytes" where
  "stored_as c v = the (co_enc c v)"

lemma coder_ok_simps:
  assumes "coder_ok c"
  shows "co_enc c v = Some (stored_as c v)" "co_dec c (stored_as c v) = Some v"
    "encode c v = Inr (stored_as c v)" "decode c (stored_as c v) what = Inr v"
  using assms unfolding coder_ok_def stored_as_def encode_def decode_def
  by (metis option.sel, metis option.sel, metis option.sel ok_or_def option.case(2),
      metis option.sel ok_or_def option.case(2))

lemma stored_as_inject: "coder_ok c \<Longrightarrow> stored_as c v = stored_as c w \<longleftrightarrow> v = w"
  by (metis coder_ok_simps(2) option.inject)

locale library_code =
  fixes lib :: libs
  assumes manifest_coder: "coder_ok (lb_manifest lib)" and blob_coder: "coder_ok (lb_blob lib)"
    and repo_blob_coder: "coder_ok (lb_repo_blob lib)" and mark_coder: "coder_ok (lb_mark lib)"
    and tag_coder: "coder_ok (lb_tag lib)" and referrer_coder: "coder_ok (lb_referrer lib)"
    and upload_coder: "coder_ok (lb_upload lib)" and dead_coder: "coder_ok (lb_dead lib)"
    and event_coder: "coder_ok (lb_event lib)" and bucket_coder: "coder_ok (lb_bucket lib)"
    and compress_ok: "\<exists>z. lb_compress lib body = Some z \<and> lb_decompress lib z = Some body"
    and sha_length: "length (lb_sha256 lib body) = 32" "length (lb_sha512 lib body) = 64"
begin

lemmas coders = coder_ok_simps [OF manifest_coder] coder_ok_simps [OF blob_coder]
  coder_ok_simps [OF repo_blob_coder] coder_ok_simps [OF mark_coder] coder_ok_simps [OF tag_coder]
  coder_ok_simps [OF referrer_coder] coder_ok_simps [OF upload_coder] coder_ok_simps [OF dead_coder]
  coder_ok_simps [OF event_coder] coder_ok_simps [OF bucket_coder]

lemma compress_body_eq: "compress_body lib body = Inr (the (lb_compress lib body))"
  using compress_ok [of body] by (auto simp: compress_body_def)

lemma decompress_body_eq: "decompress_body lib (the (lb_compress lib body)) = Inr body"
  using compress_ok [of body] by (auto simp: decompress_body_def)

end

section \<open>A codec in postcard's format\<close>

text \<open>
  Writers and readers of self-delimiting values: a reader returns the value and what follows it.
  \<open>delimits\<close> is the law they are combined under.
\<close>

type_synonym 'a wire = "('a \<Rightarrow> bytes) \<times> (bytes \<Rightarrow> ('a \<times> bytes) option)"

definition delimits :: "'a wire \<Rightarrow> bool" where
  "delimits w \<longleftrightarrow> (\<forall>x r. snd w (fst w x @ r) = Some (x, r))"

fun varint :: "nat \<Rightarrow> bytes" where
  "varint n = (if n < 128 then [word_of_nat n] else word_of_nat (n mod 128 + 128) # varint (n div 128))"

declare varint.simps [simp del]

fun read_varint :: "bytes \<Rightarrow> (nat \<times> bytes) option" where
  "read_varint [] = None"
| "read_varint (b # r) =
     (if unat b < 128 then Some (unat b, r)
      else (case read_varint r of None \<Rightarrow> None | Some (n, r') \<Rightarrow> Some (unat b - 128 + 128 * n, r')))"

fun read_many :: "(bytes \<Rightarrow> ('a \<times> bytes) option) \<Rightarrow> nat \<Rightarrow> bytes \<Rightarrow> ('a list \<times> bytes) option" where
  "read_many rd 0 r = Some ([], r)"
| "read_many rd (Suc n) r =
     (case rd r of None \<Rightarrow> None | Some (x, r') \<Rightarrow>
        (case read_many rd n r' of None \<Rightarrow> None | Some (xs, r'') \<Rightarrow> Some (x # xs, r'')))"

definition w_nat :: "nat wire" where "w_nat = (varint, read_varint)"

definition w_via :: "('a \<Rightarrow> 'b) \<Rightarrow> ('b \<Rightarrow> 'a option) \<Rightarrow> 'b wire \<Rightarrow> 'a wire" where
  "w_via f g w =
     (fst w \<circ> f, \<lambda>bs. case snd w bs of None \<Rightarrow> None | Some (y, r) \<Rightarrow> map_option (\<lambda>x. (x, r)) (g y))"

definition w_pair :: "'a wire \<Rightarrow> 'b wire \<Rightarrow> ('a \<times> 'b) wire" where
  "w_pair v w =
     (\<lambda>(x, y). fst v x @ fst w y,
      \<lambda>bs. case snd v bs of None \<Rightarrow> None | Some (x, r) \<Rightarrow>
        (case snd w r of None \<Rightarrow> None | Some (y, r') \<Rightarrow> Some ((x, y), r')))"

definition w_list :: "'a wire \<Rightarrow> 'a list wire" where
  "w_list w =
     (\<lambda>xs. varint (length xs) @ concat (map (fst w) xs),
      \<lambda>bs. case read_varint bs of None \<Rightarrow> None | Some (n, r) \<Rightarrow> read_many (snd w) n r)"

definition w_option :: "'a wire \<Rightarrow> 'a option wire" where
  "w_option w =
     (\<lambda>x. case x of None \<Rightarrow> [0] | Some y \<Rightarrow> 1 # fst w y,
      \<lambda>bs. case bs of [] \<Rightarrow> None
        | t # r \<Rightarrow> if t = 0 then Some (None, r)
                   else if t = 1 then map_option (\<lambda>(y, r'). (Some y, r')) (snd w r) else None)"

definition w_byte :: "byte wire" where
  "w_byte = (\<lambda>b. [b], \<lambda>bs. case bs of [] \<Rightarrow> None | b # r \<Rightarrow> Some (b, r))"

lemma w_nat_delimits: "delimits w_nat"
proof -
  have "read_varint (varint n @ r) = Some (n, r)" for n r
  proof (induction n rule: varint.induct)
    case (1 n)
    have "unat (word_of_nat (n mod 128 + 128) :: byte) = n mod 128 + 128"
      by (subst unat_of_nat, rule mod_less) (use mod_less_divisor [of 128 n] in simp)
    moreover have "unat (word_of_nat n :: byte) = n" if "n < 128"
      using that by (simp add: unat_of_nat)
    ultimately show ?case
      using 1 by (subst varint.simps) (auto simp: mult_div_mod_eq)
  qed
  then show ?thesis by (simp add: delimits_def w_nat_def)
qed

lemma w_via_delimits: "delimits w \<Longrightarrow> (\<And>x. g (f x) = Some x) \<Longrightarrow> delimits (w_via f g w)"
  by (simp add: delimits_def w_via_def)

lemma w_pair_delimits: "delimits v \<Longrightarrow> delimits w \<Longrightarrow> delimits (w_pair v w)"
  by (simp add: delimits_def w_pair_def)

lemma w_option_delimits: "delimits w \<Longrightarrow> delimits (w_option w)"
  by (auto simp: delimits_def w_option_def split: option.split)

lemma w_byte_delimits: "delimits w_byte"
  by (simp add: delimits_def w_byte_def)

lemma w_list_delimits:
  assumes "delimits w"
  shows "delimits (w_list w)"
proof -
  have "read_many (snd w) (length xs) (concat (map (fst w) xs) @ r) = Some (xs, r)" for xs r
    using assms by (induction xs) (auto simp: delimits_def)
  then show ?thesis
    using w_nat_delimits by (simp add: delimits_def w_list_def w_nat_def)
qed

subsection \<open>The stored types\<close>

definition w_word :: "'a::len word wire" where
  "w_word = w_via unat (\<lambda>n. Some (word_of_nat n)) w_nat"

definition w_string :: "string wire" where
  "w_string = w_via as_bytes (\<lambda>bs. Some (map byte_char bs)) (w_list w_byte)"

definition w_digest :: "digest wire" where
  "w_digest = w_via (\<lambda>d. enc d) (\<lambda>bs. map_option fst (decode_digest bs)) (w_list w_byte)"

definition w_platform :: "platform wire" where
  "w_platform = w_via (\<lambda>p. (pl_os p, pl_arch p, pl_variant p))
     (\<lambda>(a, b, c). Some \<lparr> pl_os = a, pl_arch = b, pl_variant = c \<rparr>)
     (w_pair w_string (w_pair w_string (w_option w_string)))"

definition w_child :: "child_ref wire" where
  "w_child = w_via (\<lambda>c. (cr_digest c, cr_platform c)) (\<lambda>(a, b). Some \<lparr> cr_digest = a, cr_platform = b \<rparr>)
     (w_pair w_digest (w_option w_platform))"

definition w_annotations :: "annotations wire" where
  "w_annotations = w_list (w_pair w_string w_string)"

definition w_manifest :: "manifest_record wire" where
  "w_manifest = w_via
     (\<lambda>m. (mr_repo m, mr_digest m, mr_media_type m, mr_size m, mr_total_layer_size m, mr_platform m,
           mr_layers m, mr_children m, mr_subject m, mr_artifact_type m, mr_annotations m, mr_pushed_at m))
     (\<lambda>(a, b, c, d, e, f, g, h, i, j, k, l). Some
        \<lparr> mr_repo = a, mr_digest = b, mr_media_type = c, mr_size = d, mr_total_layer_size = e,
          mr_platform = f, mr_layers = g, mr_children = h, mr_subject = i, mr_artifact_type = j,
          mr_annotations = k, mr_pushed_at = l \<rparr>)
     (w_pair w_word (w_pair w_digest (w_pair w_string (w_pair w_word (w_pair w_word
       (w_pair (w_option w_platform) (w_pair (w_list w_digest) (w_pair (w_list w_child)
         (w_pair (w_option w_digest) (w_pair (w_option w_string) (w_pair w_annotations w_word)))))))))))"

definition w_blob :: "blob_record wire" where
  "w_blob = w_via br_size (\<lambda>a. Some \<lparr> br_size = a \<rparr>) w_word"

definition w_repo_blob :: "repo_blob_record wire" where
  "w_repo_blob = w_via (\<lambda>b. (rb_size b, rb_added_at b)) (\<lambda>(a, b). Some \<lparr> rb_size = a, rb_added_at = b \<rparr>)
     (w_pair w_word w_word)"

definition w_mark :: "blob_mark_record wire" where
  "w_mark = w_via bm_seen_at (\<lambda>a. Some \<lparr> bm_seen_at = a \<rparr>) w_word"

definition w_tag :: "tag_record wire" where
  "w_tag = w_via (\<lambda>t. (tr_digest t, tr_tagged_at t)) (\<lambda>(a, b). Some \<lparr> tr_digest = a, tr_tagged_at = b \<rparr>)
     (w_pair w_digest w_word)"

definition w_referrer :: "referrer_record wire" where
  "w_referrer = w_via (\<lambda>r. (rr_media_type r, rr_artifact_type r, rr_size r, rr_annotations r))
     (\<lambda>(a, b, c, d). Some \<lparr> rr_media_type = a, rr_artifact_type = b, rr_size = c, rr_annotations = d \<rparr>)
     (w_pair w_string (w_pair (w_option w_string) (w_pair w_word w_annotations)))"

definition w_upload :: "upload_session wire" where
  "w_upload = w_via
     (\<lambda>u. (us_repo u, us_offset u, us_started_at u, us_updated_at u, us_algorithm u, us_hasher_state u))
     (\<lambda>(a, b, c, d, e, f). Some
        \<lparr> us_repo = a, us_offset = b, us_started_at = c, us_updated_at = d, us_algorithm = e, us_hasher_state = f \<rparr>)
     (w_pair w_word (w_pair w_word (w_pair w_word (w_pair w_word (w_pair w_string
       (w_option (w_list w_byte)))))))"

definition w_dead :: "dead_repo_record wire" where
  "w_dead = w_via (\<lambda>d. (dr_name d, dr_dropped_at d)) (\<lambda>(a, b). Some \<lparr> dr_name = a, dr_dropped_at = b \<rparr>)
     (w_pair w_string w_word)"

definition w_kind :: "tag_event_kind wire" where
  "w_kind = w_via (\<lambda>k. case k of Created \<Rightarrow> 0 | Deleted \<Rightarrow> 1)
     (\<lambda>n. if n = 0 then Some Created else if n = 1 then Some Deleted else None) w_nat"

definition w_event :: "tag_event wire" where
  "w_event = w_via (\<lambda>e. (te_event e, te_media_type e, te_size e))
     (\<lambda>(a, b, c). Some \<lparr> te_event = a, te_media_type = b, te_size = c \<rparr>)
     (w_pair w_kind (w_pair w_string w_word))"

definition w_bucket :: "counter_bucket wire" where
  "w_bucket = w_via (\<lambda>b. (cb_manifest_pulls b, cb_blob_pulls b, cb_bytes_out b))
     (\<lambda>(a, b, c). Some \<lparr> cb_manifest_pulls = a, cb_blob_pulls = b, cb_bytes_out = c \<rparr>)
     (w_pair (w_list w_word) (w_pair (w_list w_word) (w_list w_word)))"

lemma w_word_delimits: "delimits (w_word :: 'a::len word wire)"
  unfolding w_word_def by (rule w_via_delimits [OF w_nat_delimits]) simp

lemma w_string_delimits: "delimits w_string"
  unfolding w_string_def by (rule w_via_delimits [OF w_list_delimits [OF w_byte_delimits]]) simp

lemma w_digest_delimits: "delimits w_digest"
  unfolding w_digest_def by (rule w_via_delimits [OF w_list_delimits [OF w_byte_delimits]]) simp

lemmas delimits_intros =
  w_pair_delimits w_option_delimits w_list_delimits w_byte_delimits w_nat_delimits w_word_delimits
  w_string_delimits w_digest_delimits

lemma w_platform_delimits: "delimits w_platform"
  unfolding w_platform_def by (intro w_via_delimits delimits_intros) simp

lemma w_child_delimits: "delimits w_child"
  unfolding w_child_def by (intro w_via_delimits delimits_intros w_platform_delimits) simp

lemma w_annotations_delimits: "delimits w_annotations"
  unfolding w_annotations_def by (intro delimits_intros)

lemma w_manifest_delimits: "delimits w_manifest"
  unfolding w_manifest_def
  by (intro w_via_delimits delimits_intros w_platform_delimits w_child_delimits w_annotations_delimits) simp

lemma w_kind_delimits: "delimits w_kind"
  unfolding w_kind_def by (intro w_via_delimits delimits_intros) (simp split: tag_event_kind.split)

lemma w_record_delimits:
  "delimits w_blob" "delimits w_repo_blob" "delimits w_mark" "delimits w_tag" "delimits w_referrer"
  "delimits w_upload" "delimits w_dead" "delimits w_event" "delimits w_bucket"
  unfolding w_blob_def w_repo_blob_def w_mark_def w_tag_def w_referrer_def w_upload_def w_dead_def
    w_event_def w_bucket_def
  by (intro w_via_delimits delimits_intros w_kind_delimits w_annotations_delimits; simp)+

text \<open>\<open>to_allocvec\<close> and \<open>from_bytes\<close>: the reader ignores what follows the value.\<close>

definition coder_of :: "'a wire \<Rightarrow> 'a coder" where
  "coder_of w = \<lparr> co_enc = (\<lambda>v. Some (fst w v)), co_dec = (\<lambda>bs. map_option fst (snd w bs)) \<rparr>"

lemma coder_ok_of: "delimits w \<Longrightarrow> coder_ok (coder_of w)"
proof -
  assume "delimits w"
  then have "snd w (fst w v @ []) = Some (v, [])" for v
    unfolding delimits_def by blast
  then show ?thesis by (simp add: coder_ok_def coder_of_def)
qed

definition plain_libs :: "(bytes \<Rightarrow> shape option) \<Rightarrow> (bytes \<Rightarrow> image_manifest option) \<Rightarrow> (bytes \<Rightarrow> image_index option) \<Rightarrow> libs" where
  "plain_libs sh im ix =
     \<lparr> lb_manifest = coder_of w_manifest, lb_blob = coder_of w_blob, lb_repo_blob = coder_of w_repo_blob,
       lb_mark = coder_of w_mark, lb_tag = coder_of w_tag, lb_referrer = coder_of w_referrer,
       lb_upload = coder_of w_upload, lb_dead = coder_of w_dead, lb_event = coder_of w_event,
       lb_bucket = coder_of w_bucket, lb_compress = Some, lb_decompress = Some,
       lb_sha256 = (\<lambda>b. take 32 (b @ replicate 32 0)), lb_sha512 = (\<lambda>b. take 64 (b @ replicate 64 0)),
       lb_shape = sh, lb_image = im, lb_index = ix \<rparr>"

interpretation pl: library_code "plain_libs sh im ix" for sh im ix
  by unfold_locales
    (simp_all add: plain_libs_def coder_ok_of w_manifest_delimits w_record_delimits)

end
