(* ===== verification/Summ_Manifest.thy ===== *)
theory Summ_Manifest
  imports Summ_Codec
begin

text \<open>
  Parsing a pushed manifest (\<open>summ-registry/src/manifest.rs\<close>): which of the two shapes a body has,
  and the projection of either onto what the key schema stores. The JSON reader and the document
  types of \<open>oci-spec\<close> are the functions \<open>lb_shape\<close>, \<open>lb_image\<close> and \<open>lb_index\<close> of \<open>libs\<close>.
\<close>

section \<open>Media types\<close>

definition DEFAULT_MEDIA_TYPE :: string where
  "DEFAULT_MEDIA_TYPE = ''application/vnd.oci.image.manifest.v1+json''"

definition OCI_INDEX :: string where
  "OCI_INDEX = ''application/vnd.oci.image.index.v1+json''"

definition DOCKER_MANIFEST_LIST :: string where
  "DOCKER_MANIFEST_LIST = ''application/vnd.docker.distribution.manifest.list.v2+json''"

definition OCI_MANIFEST :: string where
  "OCI_MANIFEST = ''application/vnd.oci.image.manifest.v1+json''"

definition DOCKER_MANIFEST :: string where
  "DOCKER_MANIFEST = ''application/vnd.docker.distribution.manifest.v2+json''"

lemmas media_type_defs =
  DEFAULT_MEDIA_TYPE_def OCI_INDEX_def DOCKER_MANIFEST_LIST_def OCI_MANIFEST_def DOCKER_MANIFEST_def

section \<open>A parsed manifest\<close>

record blob_desc =
  bd_digest :: digest
  bd_size :: u64
  bd_foreign :: bool

datatype manifest_kind = Image | Index

record parsed_manifest =
  pm_kind :: manifest_kind
  pm_media_type :: string
  pm_artifact_type :: "string option"
  pm_referrer_artifact_type :: "string option"
  pm_annotations :: annotations
  pm_subject :: "digest option"
  pm_blobs :: "blob_desc list"
  pm_children :: "child_ref list"

text \<open>The iterator's \<open>sum\<close> of \<open>u64\<close> wraps in a release build.\<close>

definition total_layer_size :: "parsed_manifest \<Rightarrow> u64" where
  "total_layer_size p = sum_list (map bd_size (filter (\<lambda>b. \<not> bd_foreign b) (pm_blobs p)))"

section \<open>Parsing\<close>

definition classify :: "shape \<Rightarrow> registry_error + manifest_kind" where
  "classify sh =
     (if sh_media_type sh \<in> {Some OCI_INDEX, Some DOCKER_MANIFEST_LIST} then Inr Index
      else if sh_media_type sh \<in> {Some OCI_MANIFEST, Some DOCKER_MANIFEST} then Inr Image
      else (case (sh_manifests sh, sh_config sh) of
              (True, False) \<Rightarrow> Inr Index
            | (False, True) \<Rightarrow> Inr Image
            | (True, True) \<Rightarrow> Inl (invalid ''has both manifests and config; neither an image manifest nor an index'')
            | (False, False) \<Rightarrow> Inl (invalid ''has neither manifests nor config'')))"

definition check_schema_version :: "u32 \<Rightarrow> registry_error + unit" where
  "check_schema_version v = (if v = 2 then Inr () else Inl (invalid ''schemaVersion must be 2''))"

definition descriptor_digest :: "descriptor \<Rightarrow> registry_error + digest" where
  "descriptor_digest d =
     (case from_str (de_digest d) of
        Panics \<Rightarrow> Inl Panicked
      | Returns r \<Rightarrow> map_err (\<lambda>_. invalid ''descriptor digest'') r)"

definition blob_desc_of :: "descriptor \<Rightarrow> registry_error + blob_desc" where
  "blob_desc_of d =
     and_then (descriptor_digest d) (\<lambda>dg.
       Inr \<lparr> bd_digest = dg, bd_size = de_size d,
             bd_foreign = (case de_urls d of None \<Rightarrow> False | Some u \<Rightarrow> u \<noteq> []) \<rparr>)"

definition child_of :: "descriptor \<Rightarrow> registry_error + child_ref" where
  "child_of d = and_then (descriptor_digest d) (\<lambda>dg. Inr \<lparr> cr_digest = dg, cr_platform = de_platform d \<rparr>)"

text \<open>A loop that pushes one converted item after the other, and returns at the first error.\<close>

fun try_map :: "('a \<Rightarrow> 'e + 'b) \<Rightarrow> 'a list \<Rightarrow> 'e + 'b list" where
  "try_map f [] = Inr []"
| "try_map f (x # xs) = and_then (f x) (\<lambda>y. and_then (try_map f xs) (\<lambda>ys. Inr (y # ys)))"

text \<open>\<open>option.map(f).transpose()\<close>\<close>

definition try_option :: "('a \<Rightarrow> 'e + 'b) \<Rightarrow> 'a option \<Rightarrow> 'e + 'b option" where
  "try_option f x = (case x of None \<Rightarrow> Inr None | Some y \<Rightarrow> and_then (f y) (\<lambda>z. Inr (Some z)))"

text \<open>Collecting a \<open>HashMap\<close>, in whatever order it iterates, into a \<open>BTreeMap\<close>.\<close>

fun btree_insert :: "string \<Rightarrow> string \<Rightarrow> annotations \<Rightarrow> annotations" where
  "btree_insert k v [] = [(k, v)]"
| "btree_insert k v ((l, w) # r) =
     (if as_bytes k < as_bytes l then (k, v) # (l, w) # r
      else if k = l then (k, v) # r else (l, w) # btree_insert k v r)"

definition collect_annotations :: "annotations option \<Rightarrow> annotations" where
  "collect_annotations a =
     (case a of None \<Rightarrow> [] | Some kvs \<Rightarrow> fold (\<lambda>(k, v). btree_insert k v) kvs [])"

definition parse_image :: "libs \<Rightarrow> bytes \<Rightarrow> string \<Rightarrow> registry_error + parsed_manifest" where
  "parse_image lib body media_type =
     and_then (ok_or (invalid ''not an image manifest'') (lb_image lib body)) (\<lambda>m.
     and_then (check_schema_version (im_schema_version m)) (\<lambda>_.
     let artifact_type = im_artifact_type m;
         referrer_artifact_type =
           (case artifact_type of Some a \<Rightarrow> Some a | None \<Rightarrow> Some (de_media_type (im_config m))) in
     and_then (blob_desc_of (im_config m)) (\<lambda>config.
     and_then (try_map blob_desc_of (im_layers m)) (\<lambda>layers.
     and_then (try_option descriptor_digest (im_subject m)) (\<lambda>subject.
       Inr \<lparr> pm_kind = Image, pm_media_type = media_type, pm_artifact_type = artifact_type,
             pm_referrer_artifact_type = referrer_artifact_type,
             pm_annotations = collect_annotations (im_annotations m), pm_subject = subject,
             pm_blobs = config # layers, pm_children = [] \<rparr>)))))"

definition parse_index :: "libs \<Rightarrow> bytes \<Rightarrow> string \<Rightarrow> registry_error + parsed_manifest" where
  "parse_index lib body media_type =
     and_then (ok_or (invalid ''not an image index'') (lb_index lib body)) (\<lambda>ix.
     and_then (check_schema_version (ix_schema_version ix)) (\<lambda>_.
     and_then (try_map child_of (ix_manifests ix)) (\<lambda>children.
     and_then (try_option descriptor_digest (ix_subject ix)) (\<lambda>subject.
       Inr \<lparr> pm_kind = Index, pm_media_type = media_type, pm_artifact_type = ix_artifact_type ix,
             pm_referrer_artifact_type = ix_artifact_type ix,
             pm_annotations = collect_annotations (ix_annotations ix), pm_subject = subject,
             pm_blobs = [], pm_children = children \<rparr>))))"

definition parse_manifest :: "libs \<Rightarrow> bytes \<Rightarrow> string option \<Rightarrow> registry_error + parsed_manifest" where
  "parse_manifest lib body content_type =
     and_then (ok_or (invalid ''not a JSON object'') (lb_shape lib body)) (\<lambda>sh.
     let media_type =
       (case sh_media_type sh of
          Some t \<Rightarrow> t
        | None \<Rightarrow> (case content_type of Some t \<Rightarrow> t | None \<Rightarrow> DEFAULT_MEDIA_TYPE)) in
     and_then (classify sh) (\<lambda>kind.
       case kind of Index \<Rightarrow> parse_index lib body media_type | Image \<Rightarrow> parse_image lib body media_type))"

section \<open>What parsing gives\<close>

lemma try_map_Inr: "try_map f xs = Inr ys \<longleftrightarrow> list_all2 (\<lambda>x y. f x = Inr y) xs ys"
  by (induction xs arbitrary: ys) (auto simp: and_then_Inr list_all2_Cons1)

lemma try_map_Inl: "try_map f xs = Inl e \<Longrightarrow> \<exists>x \<in> set xs. f x = Inl e"
proof (induction xs)
  case (Cons x xs)
  then show ?case by (cases "f x"; cases "try_map f xs") auto
qed simp

lemma try_option_Inl: "try_option f x = Inl e \<Longrightarrow> \<exists>y \<in> set_option x. f y = Inl e"
  by (auto simp: try_option_def and_then_def split: option.splits sum.splits)

lemma map_of_btree_insert: "map_of (btree_insert k v r) = (map_of r)(k \<mapsto> v)"
  by (induction k v r rule: btree_insert.induct) auto

lemma btree_insert_keys: "set (map fst (btree_insert k v r)) = insert k (set (map fst r))"
  by (induction k v r rule: btree_insert.induct) auto

lemma btree_insert_sorted:
  "sorted_wrt (\<lambda>a b. as_bytes a < as_bytes b) (map fst r) \<Longrightarrow>
   sorted_wrt (\<lambda>a b. as_bytes a < as_bytes b) (map fst (btree_insert k v r))"
proof (induction k v r rule: btree_insert.induct)
  case (2 k v l w r)
  have "as_bytes l < as_bytes k" if "\<not> as_bytes k < as_bytes l" "k \<noteq> l"
    using that by (simp add: not_less_iff_gr_or_eq)
  with 2 show ?case
    using btree_insert_keys [of k v r] by (auto dest: order.strict_trans)
qed simp

lemma collect_annotations_correct:
  assumes "distinct (map fst kvs)"
  shows "map_of (collect_annotations (Some kvs)) = map_of kvs"
    and "sorted_wrt (\<lambda>a b. as_bytes a < as_bytes b) (map fst (collect_annotations (Some kvs)))"
proof -
  have "map_of (fold (\<lambda>(k, v). btree_insert k v) kvs r) = map_of r ++ map_of kvs"
    if "distinct (map fst kvs)" for r and kvs :: annotations
    using that
  proof (induction kvs arbitrary: r)
    case (Cons kv kvs)
    obtain k v where kv: "kv = (k, v)" by fastforce
    have "map_of kvs k = None" using Cons.prems by (simp add: kv map_of_eq_None_iff)
    with Cons show ?case
      by (auto simp: kv map_of_btree_insert map_add_def fun_eq_iff split: option.splits)
  qed simp
  with assms show "map_of (collect_annotations (Some kvs)) = map_of kvs"
    by (simp add: collect_annotations_def)
  have "sorted_wrt (\<lambda>a b. as_bytes a < as_bytes b) (map fst (fold (\<lambda>(k, v). btree_insert k v) kvs r))"
    if "sorted_wrt (\<lambda>a b. as_bytes a < as_bytes b) (map fst r)" for r and kvs :: annotations
    using that by (induction kvs arbitrary: r) (auto simp: btree_insert_sorted)
  then show "sorted_wrt (\<lambda>a b. as_bytes a < as_bytes b) (map fst (collect_annotations (Some kvs)))"
    by (simp add: collect_annotations_def)
qed

text \<open>The content type decides the media type of a body that has none, and nothing else.\<close>

lemma parse_media_type:
  assumes "parse_manifest lib body c = Inr p"
  obtains sh where "lb_shape lib body = Some sh"
    "pm_media_type p = (case sh_media_type sh of Some t \<Rightarrow> t
       | None \<Rightarrow> (case c of Some t \<Rightarrow> t | None \<Rightarrow> DEFAULT_MEDIA_TYPE))"
proof -
  obtain sh k where sh: "lb_shape lib body = Some sh" "classify sh = Inr k"
    using assms by (auto simp: parse_manifest_def and_then_Inr ok_or_def split: option.splits)
  have "pm_media_type p = t" if "parse_image lib body t = Inr p \<or> parse_index lib body t = Inr p" for t
    using that by (auto simp: parse_image_def parse_index_def and_then_Inr Let_def)
  with assms sh that show ?thesis
    by (cases k) (auto simp: parse_manifest_def Let_def)
qed

lemma parse_same_body:
  assumes "parse_manifest lib body c = Inr p" and "parse_manifest lib body c' = Inr p'"
  shows "p' = p\<lparr>pm_media_type := pm_media_type p'\<rparr>"
proof -
  obtain sh k where "lb_shape lib body = Some sh" "classify sh = Inr k"
    using assms(1) by (auto simp: parse_manifest_def and_then_Inr ok_or_def split: option.splits)
  then show ?thesis
    using assms unfolding parse_manifest_def
    by (cases k) (auto simp: and_then_Inr Let_def parse_index_def parse_image_def split: option.splits)
qed

lemma parse_any_type:
  assumes "parse_manifest lib body c = Inr p"
  shows "\<exists>u. parse_manifest lib body c' = Inr (p\<lparr>pm_media_type := u\<rparr>)"
proof -
  obtain sh k where sh: "lb_shape lib body = Some sh" "classify sh = Inr k"
    using assms by (auto simp: parse_manifest_def and_then_Inr ok_or_def split: option.splits)
  have "parse_image lib body v = Inr (p\<lparr>pm_media_type := v\<rparr>)" if "parse_image lib body t = Inr p" for t v
    using that by (auto simp: parse_image_def and_then_Inr Let_def)
  moreover have "parse_index lib body v = Inr (p\<lparr>pm_media_type := v\<rparr>)" if "parse_index lib body t = Inr p" for t v
    using that by (auto simp: parse_index_def and_then_Inr)
  ultimately show ?thesis
    using assms sh unfolding parse_manifest_def Let_def by (cases k) (auto, blast+)
qed

lemma descriptor_digest_client:
  "descriptor_digest d = Inl e \<Longrightarrow> is_ascii (de_digest d) \<Longrightarrow> code e = ''MANIFEST_INVALID''"
  by (auto simp: descriptor_digest_def invalid_def from_str_no_panic map_err_def split: call.splits sum.splits)

section \<open>Properties\<close>

text \<open>
  \<open>oci-spec\<close> accepts a descriptor's digest only in the grammar of the image specification, whose
  characters are ASCII.
\<close>

definition image_digests :: "image_manifest \<Rightarrow> string set" where
  "image_digests m = de_digest ` (insert (im_config m) (set (im_layers m) \<union> set_option (im_subject m)))"

definition index_digests :: "image_index \<Rightarrow> string set" where
  "index_digests ix = de_digest ` (set (ix_manifests ix) \<union> set_option (ix_subject ix))"

definition ascii_digests :: "libs \<Rightarrow> bytes \<Rightarrow> bool" where
  "ascii_digests lib body \<longleftrightarrow>
     (\<forall>m. lb_image lib body = Some m \<longrightarrow> (\<forall>s \<in> image_digests m. is_ascii s))
     \<and> (\<forall>ix. lb_index lib body = Some ix \<longrightarrow> (\<forall>s \<in> index_digests ix. is_ascii s))"

lemma blob_desc_of_Inl: "blob_desc_of d = Inl e \<Longrightarrow> descriptor_digest d = Inl e"
  by (auto simp: blob_desc_of_def and_then_def split: sum.splits)

lemma child_of_Inl: "child_of d = Inl e \<Longrightarrow> descriptor_digest d = Inl e"
  by (auto simp: child_of_def and_then_def split: sum.splits)

lemma parse_image_Inl:
  assumes "parse_image lib body t = Inl e" and "ascii_digests lib body"
  shows "code e = ''MANIFEST_INVALID''"
proof (cases "lb_image lib body")
  case None
  with assms(1) show ?thesis by (auto simp: parse_image_def invalid_def)
next
  case (Some m)
  have ascii: "code f = ''MANIFEST_INVALID''"
    if "descriptor_digest d = Inl f" "de_digest d \<in> image_digests m" for d f
    using that Some assms(2) descriptor_digest_client by (auto simp: ascii_digests_def)
  show ?thesis
  proof (cases "im_schema_version m = 2")
    case False
    with assms(1) Some show ?thesis by (auto simp: parse_image_def check_schema_version_def invalid_def)
  next
    case True
    then consider "blob_desc_of (im_config m) = Inl e" | "try_map blob_desc_of (im_layers m) = Inl e"
      | "try_option descriptor_digest (im_subject m) = Inl e"
      using assms(1) Some
      by (auto simp: parse_image_def check_schema_version_def Let_def and_then_def split: sum.splits)
    then show ?thesis
      by cases (auto dest!: blob_desc_of_Inl try_map_Inl try_option_Inl intro!: ascii simp: image_digests_def)
  qed
qed

lemma parse_index_Inl:
  assumes "parse_index lib body t = Inl e" and "ascii_digests lib body"
  shows "code e = ''MANIFEST_INVALID''"
proof (cases "lb_index lib body")
  case None
  with assms(1) show ?thesis by (auto simp: parse_index_def invalid_def)
next
  case (Some ix)
  have ascii: "code f = ''MANIFEST_INVALID''"
    if "descriptor_digest d = Inl f" "de_digest d \<in> index_digests ix" for d f
    using that Some assms(2) descriptor_digest_client by (auto simp: ascii_digests_def)
  show ?thesis
  proof (cases "ix_schema_version ix = 2")
    case False
    with assms(1) Some show ?thesis by (auto simp: parse_index_def check_schema_version_def invalid_def)
  next
    case True
    then consider "try_map child_of (ix_manifests ix) = Inl e"
      | "try_option descriptor_digest (ix_subject ix) = Inl e"
      using assms(1) Some
      by (auto simp: parse_index_def check_schema_version_def and_then_def split: sum.splits)
    then show ?thesis
      by cases (auto dest!: child_of_Inl try_map_Inl try_option_Inl intro!: ascii simp: index_digests_def)
  qed
qed

text \<open>
  Every failure to parse a pushed document is \<open>MANIFEST_INVALID\<close>, given that the digests of
  its descriptors are ASCII. A body that parses keeps its own media type, whatever the content
  type of the push; a body without one takes the content type, and the default without either.
  Pushed again with another content type it gives the same record in every other field.
\<close>

theorem parse_outcomes:
  assumes "ascii_digests lib body"
  shows "case parse_manifest lib body content_type of
      Inl e \<Rightarrow> code e = ''MANIFEST_INVALID''
    | Inr p \<Rightarrow> (\<exists>sh. lb_shape lib body = Some sh
          \<and> pm_media_type p = (case sh_media_type sh of Some t \<Rightarrow> t
               | None \<Rightarrow> (case content_type of Some t \<Rightarrow> t | None \<Rightarrow> DEFAULT_MEDIA_TYPE)))
        \<and> (\<forall>other p'. parse_manifest lib body other = Inr p' \<longrightarrow> p' = p\<lparr>pm_media_type := pm_media_type p'\<rparr>)"
proof (cases "parse_manifest lib body content_type")
  case (Inl e)
  then have "code e = ''MANIFEST_INVALID''"
    using parse_image_Inl [OF _ assms] parse_index_Inl [OF _ assms]
    by (auto simp: parse_manifest_def Let_def and_then_def ok_or_def invalid_def classify_def
        split: option.splits sum.splits if_splits manifest_kind.splits bool.splits)
  with Inl show ?thesis by simp
next
  case (Inr p)
  moreover obtain sh where "lb_shape lib body = Some sh"
    "pm_media_type p = (case sh_media_type sh of Some t \<Rightarrow> t
       | None \<Rightarrow> (case content_type of Some t \<Rightarrow> t | None \<Rightarrow> DEFAULT_MEDIA_TYPE))"
    by (rule parse_media_type [OF Inr])
  ultimately show ?thesis
    using parse_same_body [OF Inr] by auto
qed

theorem parse_outcomes_witness:
  "let d = \<lparr> de_media_type = ''c'', de_digest = ''md5:00'', de_size = 1, de_urls = None, de_platform = None \<rparr>;
       m = \<lparr> im_schema_version = 2, im_artifact_type = None, im_config = d, im_layers = [],
             im_annotations = None, im_subject = None \<rparr>;
       lib = plain_libs (\<lambda>_. Some \<lparr> sh_media_type = None, sh_manifests = False, sh_config = True \<rparr>)
               (\<lambda>_. Some m) (\<lambda>_. None)
   in ascii_digests lib [] \<and> (\<exists>e. parse_manifest lib [] None = Inl e \<and> code e = ''MANIFEST_INVALID'')"
proof -
  define d where "d = \<lparr> de_media_type = ''c'', de_digest = ''md5:00'', de_size = 1, de_urls = None,
    de_platform = (None :: platform option) \<rparr>"
  define m where "m = \<lparr> im_schema_version = 2, im_artifact_type = None, im_config = d, im_layers = [],
    im_annotations = None, im_subject = None \<rparr>"
  define lib where "lib = plain_libs
    (\<lambda>_. Some \<lparr> sh_media_type = None, sh_manifests = False, sh_config = True \<rparr>) (\<lambda>_. Some m) (\<lambda>_. None)"
  have ascii: "ascii_digests lib []"
    by (simp add: ascii_digests_def lib_def plain_libs_def image_digests_def m_def d_def is_ascii_def char_byte_def)
  have "from_str ''md5:00'' = Returns (Inl (InvalidDigest ''unsupported algorithm''))"
    by (simp add: from_str_def split_once_def)
  then have "parse_manifest lib [] None = Inl (invalid ''descriptor digest'')"
    by (simp add: parse_manifest_def lib_def plain_libs_def classify_def media_type_defs parse_image_def
        check_schema_version_def blob_desc_of_def descriptor_digest_def m_def d_def)
  with parse_outcomes [OF ascii, of None] ascii show ?thesis
    unfolding Let_def d_def [symmetric] m_def [symmetric] lib_def [symmetric] by simp
qed

end
