(* ===== verification/Summ_Handlers.thy ===== *)
theory Summ_Handlers
  imports Summ_Serve Summ_Manifest
begin

text \<open>
  The handlers of blobs, manifests, lists and referrers (\<open>handlers/blobs.rs\<close>, \<open>manifests.rs\<close>, \<open>tags.rs\<close>, \<open>catalog.rs\<close>, \<open>base.rs\<close>,
  \<open>referrers.rs\<close>), the choice between them (\<open>handlers/mod.rs\<close>) and the paths, authentication and headers around
  them (\<open>app.rs\<close>).
\<close>

section \<open>Blobs\<close>

text \<open>A response may be metered: what reaches the socket is then counted by the meter that comes with it.\<close>

type_synonym metered = "response \<times> metered_blob option"

definition blob_get :: "('b, 'h) web \<Rightarrow> ('s, 'b) registry_ops \<Rightarrow> 'h ctx \<Rightarrow> string \<Rightarrow> digest \<Rightarrow> ('s, metered) handler" where
  "blob_get w r c name d =
     bind_a (from_seam (op_stat_blob r name d)) (\<lambda>total.
     let outcome = (case ctx_header w c ''range'' of Some text \<Rightarrow> parse_range text total | None \<Rightarrow> Whole) in
     bind_a
       (case outcome of
          Whole \<Rightarrow> return_a None
        | Partial span \<Rightarrow> return_a (Some span)
        | Unsatisfiable \<Rightarrow>
            fail_a (Fails (with_header ''content-range''
              (let v = ''bytes */'' @ show_nat (unat total) in if wb_header_ok w v then v else ''bytes */0'')
              (status_only 416)))) (\<lambda>window.
     bind_a (from_seam (op_get_blob r name d window)) (\<lambda>read.
     let hs =
           [text_header w ''content-type'' MEDIA_TYPE_OCTET_STREAM, text_header w ''accept-ranges'' ''bytes'',
            value_header DOCKER_CONTENT_DIGEST (digest_header w d)];
         head =
           (case bd_window read of
              Some span \<Rightarrow>
                (206, hs @ [value_header ''content-length'' (show_nat (unat (range_size span))),
                            text_header w ''content-range''
                              (''bytes '' @ show_nat (unat (range_start span)) @ ''-'' @ show_nat (unat (range_end span))
                               @ ''/'' @ show_nat (unat (bd_total_size read)))])
            | None \<Rightarrow> (200, hs @ [value_header ''content-length'' (show_nat (unat (bd_total_size read)))]))
     in (\<lambda>sv. (Inr (build w (fst head) (snd head) (Content (bd_body read)), meter_blob (cx_now c) name (sv_pulls sv)), sv)))))"

definition blob_head :: "('b, 'h) web \<Rightarrow> ('s, 'b) registry_ops \<Rightarrow> string \<Rightarrow> digest \<Rightarrow> ('s, response) handler" where
  "blob_head w r name d =
     bind_a (from_seam (op_stat_blob r name d)) (\<lambda>total.
       return_a (empty_with_length 200 total
         [(''content-type'', MEDIA_TYPE_OCTET_STREAM), (''accept-ranges'', ''bytes''),
          (DOCKER_CONTENT_DIGEST, digest_header w d)]))"

definition blob_delete :: "('s, 'b) registry_ops \<Rightarrow> string \<Rightarrow> digest \<Rightarrow> ('s, response) handler" where
  "blob_delete r name d = bind_a (from_seam (op_delete_blob r name d)) (\<lambda>_. return_a (empty_with_length 202 0 []))"

definition unmetered :: "('s, response) handler \<Rightarrow> ('s, metered) handler" where
  "unmetered m = bind_a m (\<lambda>response. return_a (response, None))"

definition blob_endpoint ::
  "('b, 'h) web \<Rightarrow> ('s, 'b) registry_ops \<Rightarrow> 'h ctx \<Rightarrow> string \<Rightarrow> string \<Rightarrow> ('s, metered) handler" where
  "blob_endpoint w r c name text =
     bind_a (parse_digest_as text id) (\<lambda>d.
       case cx_method c of
         GET \<Rightarrow> blob_get w r c name d
       | HEAD \<Rightarrow> unmetered (blob_head w r name d)
       | DELETE \<Rightarrow> unmetered (blob_delete r name d)
       | _ \<Rightarrow> fail_a (Fails (method_not_allowed ''GET, HEAD, DELETE'')))"

section \<open>Manifests\<close>

definition manifest_reference_error :: "reference_error \<Rightarrow> bool \<Rightarrow> api_error" where
  "manifest_reference_error e writing =
     (case e of
        BadDigest detail \<Rightarrow> with_detail detail (new_error CodeDigestInvalid)
      | BadTag detail \<Rightarrow>
          if writing then with_detail detail (new_error CodeManifestInvalid)
          else with_detail detail (new_error CodeManifestUnknown))"

definition trim_quotes :: "string \<Rightarrow> string" where
  "trim_quotes s = rev (dropWhile (\<lambda>c. c = CHR 0x22) (rev (dropWhile (\<lambda>c. c = CHR 0x22) s)))"

definition if_none_match :: "('b, 'h) web \<Rightarrow> 'h ctx \<Rightarrow> string \<Rightarrow> bool" where
  "if_none_match w c etag =
     (case ctx_header w c ''if-none-match'' of
        None \<Rightarrow> False
      | Some header \<Rightarrow>
          list_ex (\<lambda>candidate. candidate = ''*'' \<or> candidate = etag \<or> trim_quotes candidate = trim_quotes etag)
            (map trim (split_on CHR '','' header)))"

definition etag_of :: "digest \<Rightarrow> string" where
  "etag_of d = [CHR 0x22] @ to_string d @ [CHR 0x22]"

definition http_manifest_get ::
  "('b, 'h) web \<Rightarrow> ('s, 'b) registry_ops \<Rightarrow> 'h ctx \<Rightarrow> string \<Rightarrow> http_reference \<Rightarrow> ('s, response) handler" where
  "http_manifest_get w r c name reference =
     bind_a (from_seam (op_get_manifest r name reference)) (\<lambda>(stat, content).
     let d = ms_digest stat; etag = etag_of d in
     if if_none_match w c etag then
       return_a (empty_with_length 304 0 [(DOCKER_CONTENT_DIGEST, digest_header w d), (''etag'', header_value w etag)])
     else
       bind_a (on_pulls (record_manifest_pull (cx_now c) name
                           (case reference of TagName t \<Rightarrow> Some t | DigestName _ \<Rightarrow> None) d)) (\<lambda>_.
         return_a (build w 200
           [text_header w ''content-type'' (ms_media_type stat), value_header ''content-length'' (show_nat (length content)),
            value_header DOCKER_CONTENT_DIGEST (digest_header w d), text_header w ''etag'' etag]
           (Content content))))"

definition http_manifest_head ::
  "('b, 'h) web \<Rightarrow> ('s, 'b) registry_ops \<Rightarrow> string \<Rightarrow> http_reference \<Rightarrow> ('s, response) handler" where
  "http_manifest_head w r name reference =
     bind_a (from_seam (op_stat_manifest r name reference)) (\<lambda>stat.
       return_a (empty_with_length 200 (ms_size stat)
         [(''content-type'', header_value w (ms_media_type stat)), (DOCKER_CONTENT_DIGEST, digest_header w (ms_digest stat)),
          (''etag'', header_value w (etag_of (ms_digest stat)))]))"

definition too_large :: "nat \<Rightarrow> api_error" where
  "too_large limit =
     with_detail (''limit is '' @ show_nat limit @ '' bytes'')
       (with_message ''manifest exceeds the maximum accepted size'' (with_status 413 (new_error CodeManifestInvalid)))"

definition tag_params :: "'h ctx \<Rightarrow> api_error + string list" where
  "tag_params c =
     (let given = all_values (cx_query c) ''tag''; most = cfg_max_tag_params (cx_config c) in
      if given = [] then Inr []
      else if most < length given then
        Inl (with_detail (''limit is '' @ show_nat most)
          (with_message ''too many tag parameters'' (with_status 414 (new_error CodeManifestInvalid))))
      else try_map (\<lambda>tag.
        if \<not> http_valid_tag tag then
          Inl (with_detail tag (with_message ''invalid tag parameter'' (new_error CodeManifestInvalid)))
        else Inr tag) given)"

definition pushed_content_type :: "('b, 'h) web \<Rightarrow> 'h ctx \<Rightarrow> string" where
  "pushed_content_type w c =
     (case map_option media_type_of (ctx_header w c ''content-type'') of
        Some t \<Rightarrow> if t \<noteq> [] then t else MEDIA_TYPE_MANIFEST
      | None \<Rightarrow> MEDIA_TYPE_MANIFEST)"

definition http_manifest_put ::
  "('b, 'h) web \<Rightarrow> ('s, 'b) registry_ops \<Rightarrow> 'h ctx \<Rightarrow> string \<Rightarrow> http_reference \<Rightarrow> 'b \<Rightarrow> ('s, response) handler" where
  "http_manifest_put w r c name reference b =
     (let limit = cfg_max_manifest_bytes (cx_config c) in
      if (case Option.bind (ctx_header w c ''content-length'') parse_u64 of Some n \<Rightarrow> limit < unat n | None \<Rightarrow> False)
      then fail_a (Fails (too_large limit))
      else
        bind_a (of_result (read_body w b limit (too_large limit))) (\<lambda>content.
        bind_a (of_result (tag_params c)) (\<lambda>tags.
        bind_a (from_seam (op_put_manifest r name reference (pushed_content_type w c) tags content)) (\<lambda>result.
          return_a (empty_with_length 201 0
            ([(''location'', header_value w (''/v2/'' @ name @ ''/manifests/'' @ to_string (md_digest result))),
              (DOCKER_CONTENT_DIGEST, digest_header w (md_digest result))]
             @ (case md_subject result of
                  Some subject \<Rightarrow>
                    if cfg_referrers_enabled (cx_config c) then [(OCI_SUBJECT, digest_header w subject)] else []
                | None \<Rightarrow> [])
             @ map (\<lambda>tag. (OCI_TAG, header_value w tag)) (md_tags result)))))))"

definition http_manifest_delete :: "('s, 'b) registry_ops \<Rightarrow> string \<Rightarrow> http_reference \<Rightarrow> ('s, response) handler" where
  "http_manifest_delete r name reference =
     bind_a (from_seam (op_delete_manifest r name reference)) (\<lambda>_. return_a (empty_with_length 202 0 []))"

definition manifest_endpoint ::
  "('b, 'h) web \<Rightarrow> ('s, 'b) registry_ops \<Rightarrow> 'h ctx \<Rightarrow> string \<Rightarrow> string \<Rightarrow> 'b \<Rightarrow> ('s, response) handler" where
  "manifest_endpoint w r c name text b =
     bind_a (of_call (case http_parse_reference text of
                        Panics \<Rightarrow> Panics
                      | Returns x \<Rightarrow> Returns (map_err (\<lambda>e. manifest_reference_error e (cx_method c = PUT)) x))) (\<lambda>reference.
       case cx_method c of
         GET \<Rightarrow> http_manifest_get w r c name reference
       | HEAD \<Rightarrow> http_manifest_head w r name reference
       | PUT \<Rightarrow> http_manifest_put w r c name reference b
       | DELETE \<Rightarrow> http_manifest_delete r name reference
       | _ \<Rightarrow> fail_a (Fails (method_not_allowed ''GET, HEAD, PUT, DELETE'')))"

section \<open>Lists\<close>

definition reads :: "'h ctx \<Rightarrow> bool" where
  "reads c \<longleftrightarrow> cx_method c = GET \<or> cx_method c = HEAD"

text \<open>A JSON answer, without its body for \<open>HEAD\<close>.\<close>

definition json_response :: "('b, 'h) web \<Rightarrow> 'h ctx \<Rightarrow> string \<Rightarrow> json \<Rightarrow> built \<Rightarrow> ('s, response) handler" where
  "json_response w c content_type document extra =
     (case wb_json w document of
        Inl _ \<Rightarrow> fail_a (Fails internal_error)
      | Inr content \<Rightarrow>
          return_a (build w 200
            ([text_header w ''content-type'' content_type, value_header ''content-length'' (show_nat (length content))] @ extra)
            (if cx_method c = HEAD then NoBody else Content content)))"

definition link_header :: "string option \<Rightarrow> built" where
  "link_header link = (case link of Some v \<Rightarrow> [value_header ''link'' v] | None \<Rightarrow> [])"

definition page_link :: "('b, 'h) web \<Rightarrow> string \<Rightarrow> page_params \<Rightarrow> string seam_page \<Rightarrow> string option" where
  "page_link w path params p =
     (if \<not> page_zero params \<and> page_more p \<and> page_items p \<noteq> []
      then link_next (wb_header_ok w) path (last (page_items p)) (page_limit params) else None)"

definition http_tag_list :: "('b, 'h) web \<Rightarrow> ('s, 'b) registry_ops \<Rightarrow> 'h ctx \<Rightarrow> string \<Rightarrow> ('s, response) handler" where
  "http_tag_list w r c name =
     (if \<not> reads c then fail_a (Fails (method_not_allowed ''GET, HEAD''))
      else
        bind_a (of_result (parse_page (cx_query c) (cx_config c))) (\<lambda>params.
        bind_a (from_seam (op_tags r name (page_last params) (page_limit params))) (\<lambda>p.
          json_response w c ''application/json''
            (JObject [(''name'', JString name), (''tags'', JArray (map JString (page_items p)))])
            (link_header (page_link w (''/v2/'' @ name @ ''/tags/list'') params p)))))"

definition catalog :: "('b, 'h) web \<Rightarrow> ('s, 'b) registry_ops \<Rightarrow> 'h ctx \<Rightarrow> ('s, response) handler" where
  "catalog w r c =
     (if \<not> reads c then fail_a (Fails (method_not_allowed ''GET, HEAD''))
      else
        bind_a (of_result (parse_page (cx_query c) (cx_config c))) (\<lambda>params.
        bind_a (from_seam (op_repositories r (page_last params) (page_limit params))) (\<lambda>p.
          json_response w c ''application/json''
            (JObject [(''repositories'', JArray (map JString (page_items p)))])
            (link_header (page_link w ''/v2/_catalog'' params p)))))"

definition BASE_BODY :: bytes where "BASE_BODY = as_bytes ''{}''"

definition base_endpoint :: "('b, 'h) web \<Rightarrow> 'h ctx \<Rightarrow> ('s, response) handler" where
  "base_endpoint w c =
     (case cx_method c of
        GET \<Rightarrow>
          return_a (build w 200
            [text_header w ''content-type'' ''application/json'', value_header ''content-length'' (show_nat (length BASE_BODY))]
            (Content BASE_BODY))
      | HEAD \<Rightarrow> return_a (empty_with_length 200 (word_of_nat (length BASE_BODY)) [(''content-type'', ''application/json'')])
      | _ \<Rightarrow> fail_a (Fails (method_not_allowed ''GET, HEAD'')))"

section \<open>Referrers\<close>

definition descriptor_json :: "seam_descriptor \<Rightarrow> json" where
  "descriptor_json e =
     (let m = RBT.insert ''size'' (JNumber (Some (sd_size e)))
            (RBT.insert ''digest'' (JString (to_string (sd_digest e)))
              (RBT.insert ''mediaType'' (JString (sd_media_type e)) RBT.empty));
          m' = (case sd_artifact_type e of Some t \<Rightarrow> RBT.insert ''artifactType'' (JString t) m | None \<Rightarrow> m);
          m'' = (if bt_len (sd_annotations e) \<noteq> 0
                 then RBT.insert ''annotations''
                        (JObject (map (\<lambda>(k, v). (k, JString v)) (RBT.entries (sd_annotations e)))) m'
                 else m')
      in JObject (RBT.entries m''))"

definition unknown_referrers :: "string option \<Rightarrow> seam_referrers" where
  "unknown_referrers artifact_type = \<lparr>rf_manifests = [], rf_filter_applied = artifact_type \<noteq> None, rf_next = None\<rparr>"

text \<open>An unknown repository is an empty list here as well, whatever the registry says.\<close>

definition referrers_or_none :: "string option \<Rightarrow> ('s, seam_referrers) ops \<Rightarrow> ('s, seam_referrers) handler" where
  "referrers_or_none artifact_type m =
     (\<lambda>sv. case from_seam_raw m sv of
             (Inl (Fails OpsRepoUnknown), sv') \<Rightarrow> (Inr (unknown_referrers artifact_type), sv')
           | (x, sv') \<Rightarrow> (map_err (map_halt api_error_of) x, sv'))"

definition referrers_endpoint ::
  "('b, 'h) web \<Rightarrow> ('s, 'b) registry_ops \<Rightarrow> 'h ctx \<Rightarrow> string \<Rightarrow> string \<Rightarrow> ('s, response) handler" where
  "referrers_endpoint w r c name text =
     (if \<not> reads c then fail_a (Fails (method_not_allowed ''GET, HEAD''))
      else
        bind_a (parse_digest_as text id) (\<lambda>subject.
        if \<not> cfg_referrers_enabled (cx_config c) then
          fail_a (Fails (with_message ''referrers API is not enabled'' (with_status 404 (new_error CodeUnsupported))))
        else
          let artifact_type = nonempty_value (ctx_param c ''artifactType'') in
          bind_a (of_result (parse_page (cx_query c) (cx_config c))) (\<lambda>params.
          bind_a (case page_last params of
                    None \<Rightarrow> return_a None
                  | Some l \<Rightarrow> bind_a (parse_digest_as l (with_message ''last is not a digest'')) (\<lambda>d. return_a (Some d))) (\<lambda>from.
          bind_a (referrers_or_none artifact_type (op_referrers r name subject artifact_type from (page_limit params))) (\<lambda>found.
            json_response w c MEDIA_TYPE_INDEX
              (JObject [(''manifests'', JArray (map descriptor_json (rf_manifests found))),
                        (''mediaType'', JString MEDIA_TYPE_INDEX), (''schemaVersion'', JNumber (Some 2))])
              (link_header
                 (case (if page_zero params then None else rf_next found) of
                    Some d \<Rightarrow>
                      link_next_referrers (wb_header_ok w) (''/v2/'' @ name @ ''/referrers/'' @ to_string subject)
                        artifact_type (to_string d) (page_limit params)
                  | None \<Rightarrow> None)
               @ (if rf_filter_applied found then [value_header OCI_FILTERS_APPLIED ''artifactType''] else [])))))))"

section \<open>Dispatch\<close>

definition handle ::
  "('b, 'h) web \<Rightarrow> ('s, 'b) registry_ops \<Rightarrow> 'h ctx \<Rightarrow> endpoint \<Rightarrow> 'b \<Rightarrow> ('s, metered) handler" where
  "handle w r c e b =
     (case e of
        EpBase \<Rightarrow> unmetered (base_endpoint w c)
      | EpCatalog \<Rightarrow> unmetered (catalog w r c)
      | EpTagList name \<Rightarrow> unmetered (http_tag_list w r c name)
      | EpManifest name reference \<Rightarrow> unmetered (manifest_endpoint w r c name reference b)
      | EpBlob name d \<Rightarrow> blob_endpoint w r c name d
      | EpUploads name \<Rightarrow> unmetered (upload_create w r c name b)
      | EpUpload name i \<Rightarrow> unmetered (upload_endpoint w r c name i b)
      | EpReferrers name d \<Rightarrow> unmetered (referrers_endpoint w r c name d))"

text \<open>An answer of the server: a response with its meter, or nothing when the handler panicked.\<close>

definition answer :: "('b, 'h) web \<Rightarrow> ('s, metered) handler \<Rightarrow> 's server \<Rightarrow> metered call \<times> 's server" where
  "answer w m sv =
     (case m sv of
        (Inr x, sv') \<Rightarrow> (Returns x, sv')
      | (Inl (Fails e), sv') \<Rightarrow> (Returns (into_response (wb_error_json w) e, None), sv')
      | (Inl Panicking, sv') \<Rightarrow> (Panics, sv'))"

end
