(* ===== verification/Summ_Api.thy ===== *)
theory Summ_Api
  imports Summ_Handlers
begin

text \<open>
  The discovery API under \<open>/api/v1/\<close> (\<open>handlers/api.rs\<close>): its bodies, its calendar, its pages and its handlers.

  A serialised body is the JSON object of its fields in their order. Page sizes (\<open>usize\<close>) are natural numbers; every \<open>u64\<close> is
  one. The calendar computes on \<open>i64\<close>, far from its bounds for every 16-bit day, and is modelled on integers.
\<close>

section \<open>Bounds\<close>

definition API_DEFAULT_PAGE :: nat where "API_DEFAULT_PAGE = 25"
definition API_MAX_PAGE :: nat where "API_MAX_PAGE = 100"
definition DEFAULT_PULL_COUNT_DAYS :: u16 where "DEFAULT_PULL_COUNT_DAYS = 30"
definition MAX_PULL_COUNT_DAYS :: u64 where "MAX_PULL_COUNT_DAYS = 400"

section \<open>Dates\<close>

definition civil_from_days :: "int \<Rightarrow> int \<times> int \<times> int" where
  "civil_from_days day =
     (let z = day + 719468;
          era = z div 146097;
          doe = z mod 146097;
          yoe = (doe - doe div 1460 + doe div 36524 - doe div 146096) div 365;
          y = yoe + era * 400;
          doy = doe - (365 * yoe + yoe div 4 - yoe div 100);
          mp = (5 * doy + 2) div 153;
          d = doy - (153 * mp + 2) div 5 + 1;
          m = (if mp < 10 then mp + 3 else mp - 9)
      in (if m \<le> 2 then y + 1 else y, m, d))"

text \<open>\<open>{:04}\<close> and \<open>{:02}\<close>, for numbers that are not negative.\<close>

definition padded :: "nat \<Rightarrow> int \<Rightarrow> string" where
  "padded width n = (let s = show_nat (nat n) in replicate (width - length s) CHR ''0'' @ s)"

definition iso_date :: "u16 \<Rightarrow> string" where
  "iso_date day =
     (let (y, m, d) = civil_from_days (uint day) in padded 4 y @ ''-'' @ padded 2 m @ ''-'' @ padded 2 d)"

section \<open>Bodies\<close>

definition j64 :: "u64 \<Rightarrow> json" where "j64 n = JNumber (Some n)"

definition jopt :: "('a \<Rightarrow> json) \<Rightarrow> 'a option \<Rightarrow> json" where
  "jopt f v = (case v of Some x \<Rightarrow> f x | None \<Rightarrow> JNull)"

definition purge_json :: "purge_report \<Rightarrow> json" where
  "purge_json r =
     JObject [(''started_at'', j64 (pr_started_at r)), (''duration_ms'', j64 (pr_duration_ms r)),
       (''dry_run'', JBool (pr_dry_run r)), (''manifests'', j64 (pr_manifests r)), (''memberships'', j64 (pr_memberships r)),
       (''marked'', j64 (pr_marked r)), (''blobs'', j64 (pr_blobs r)), (''bytes'', j64 (pr_bytes r)),
       (''uploads'', j64 (pr_uploads r)), (''repositories'', j64 (pr_repositories r))]"

definition tally_json :: "tally \<Rightarrow> json" where
  "tally_json t = JObject [(''count'', j64 (tally_count t)), (''complete'', JBool (tally_complete t))]"

definition repo_row_json :: "repo_summary \<Rightarrow> json" where
  "repo_row_json r =
     JObject [(''name'', JString (rs_name r)), (''tags'', tally_json (rs_tags r)), (''manifests'', tally_json (rs_manifests r))]"

definition repository_json :: "repo_detail \<Rightarrow> json" where
  "repository_json r =
     JObject [(''name'', JString (rd_name r)), (''tags'', tally_json (rd_tags r)), (''manifests'', tally_json (rd_manifests r)),
       (''blobs'', tally_json (rd_blobs r)), (''size_bytes'', j64 (rd_size_bytes r))]"

definition manifest_json :: "manifest_info \<Rightarrow> json" where
  "manifest_json i =
     JObject [(''digest'', JString (to_string (mi_digest i))), (''media_type'', JString (mi_media_type i)),
       (''size'', j64 (mi_size i)), (''blob_size'', j64 (mi_blob_size i)),
       (''artifact_type'', jopt JString (mi_artifact_type i)),
       (''subject'', jopt (\<lambda>d. JString (to_string d)) (mi_subject i)), (''pushed_at'', j64 (mi_pushed_at i)),
       (''platforms'', JArray (map JString (mi_platforms i))), (''blobs'', j64 (mi_blobs i)),
       (''children'', j64 (mi_children i)), (''tags'', JArray (map JString (mi_tags i))),
       (''annotations'', JObject (map (\<lambda>(k, v). (k, JString v)) (RBT.entries (mi_annotations i))))]"

definition tag_json :: "tag_info \<Rightarrow> json" where
  "tag_json i =
     JObject [(''name'', JString (ti_name i)), (''digest'', JString (to_string (ti_digest i))),
       (''tagged_at'', j64 (ti_tagged_at i)), (''manifest'', jopt manifest_json (ti_manifest i))]"

definition tag_event_json :: "tag_event_info \<Rightarrow> json" where
  "tag_event_json e =
     JObject [(''at'', j64 (ev_at e)), (''tag'', JString (ev_tag e)), (''digest'', JString (to_string (ev_digest e))),
       (''event'', JString (if ev_deleted e then ''deleted'' else ''created'')), (''media_type'', JString (ev_media_type e)),
       (''size'', j64 (ev_size e))]"

definition cursor_json :: "seam_cursor \<Rightarrow> json" where
  "cursor_json c = JObject [(''before'', j64 (cursor_before c)), (''last'', JString (cursor_last c))]"

section \<open>The wall of pull counts\<close>

record count_row =
  cw_day :: u16
  cw_date :: string
  cw_weekday :: byte
  cw_bucket :: counter_bucket

record count_totals =
  ct_manifest_pulls :: u64
  ct_blob_pulls :: u64
  ct_bytes_out :: u64

text \<open>The merge of the window with the days stored: the offsets still to come, what is left of the series.\<close>

fun fill_days :: "u16 \<Rightarrow> nat list \<Rightarrow> pull_count_day list \<Rightarrow> count_row list" where
  "fill_days from [] series = []"
| "fill_days from (offset # offsets) series =
     (let day = sat_add from (word_of_nat offset);
          (bucket, series') =
            (case series of
               next # rest \<Rightarrow> if pd_day next = day then (pd_bucket next, rest) else (default_bucket, series)
             | [] \<Rightarrow> (default_bucket, series))
      in \<lparr>cw_day = day, cw_date = iso_date day, cw_weekday = weekday day, cw_bucket = bucket\<rparr>
         # fill_days from offsets series')"

definition window_rows :: "u16 \<Rightarrow> u16 \<Rightarrow> pull_count_day list \<Rightarrow> count_row list" where
  "window_rows from days series = fill_days from [0..<unat days] series"

definition count_totals_of :: "count_row list \<Rightarrow> count_totals" where
  "count_totals_of rows =
     \<lparr>ct_manifest_pulls = sum_list (map (\<lambda>w. manifest_pulls_total (cw_bucket w)) rows),
      ct_blob_pulls = sum_list (map (\<lambda>w. blob_pulls_total (cw_bucket w)) rows),
      ct_bytes_out = sum_list (map (\<lambda>w. bytes_out_total (cw_bucket w)) rows)\<rparr>"

definition hours_json :: "counter_bucket \<Rightarrow> json" where
  "hours_json b =
     JObject [(''manifest_pulls'', JArray (map (\<lambda>n. j64 (ucast n)) (cb_manifest_pulls b))),
       (''blob_pulls'', JArray (map (\<lambda>n. j64 (ucast n)) (cb_blob_pulls b))),
       (''bytes_out'', JArray (map j64 (cb_bytes_out b)))]"

definition count_row_json :: "count_row \<Rightarrow> json" where
  "count_row_json w =
     JObject [(''day'', j64 (ucast (cw_day w))), (''date'', JString (cw_date w)), (''weekday'', j64 (ucast (cw_weekday w))),
       (''manifest_pulls'', j64 (manifest_pulls_total (cw_bucket w))), (''blob_pulls'', j64 (blob_pulls_total (cw_bucket w))),
       (''bytes_out'', j64 (bytes_out_total (cw_bucket w))), (''hours'', hours_json (cw_bucket w))]"

definition pull_counts_json ::
  "string \<Rightarrow> string option \<Rightarrow> pull_count_scope \<Rightarrow> u16 \<Rightarrow> u16 \<Rightarrow> pull_count_day list \<Rightarrow> json" where
  "pull_counts_json name reference scope from days series =
     (let rows = window_rows from days series; totals = count_totals_of rows in
      JObject [(''repository'', JString name), (''reference'', jopt JString reference),
        (''scope'', JString (scope_label scope)), (''approximate'', JBool True), (''from'', JString (iso_date from)),
        (''to'', JString (iso_date (sat_add from (sat_sub days 1)))),
        (''totals'', JObject [(''manifest_pulls'', j64 (ct_manifest_pulls totals)),
                              (''blob_pulls'', j64 (ct_blob_pulls totals)), (''bytes_out'', j64 (ct_bytes_out totals))]),
        (''days'', JArray (map count_row_json rows))])"

section \<open>Parameters\<close>

definition api_page_params :: "'h ctx \<Rightarrow> api_error + (nat \<times> string option)" where
  "api_page_params c =
     and_then
       (case ctx_param c ''n'' of
          None \<Rightarrow> Inr API_DEFAULT_PAGE
        | Some text \<Rightarrow>
            (case parse_u64 text of
               None \<Rightarrow> Inl (with_detail (''n='' @ text) (new_error CodePaginationNumberInvalid))
             | Some n \<Rightarrow> Inr (min (max (unat n) 1) API_MAX_PAGE)))
       (\<lambda>limit. Inr (limit, nonempty_value (ctx_param c ''last'')))"

definition api_reference :: "string \<Rightarrow> ('s, http_reference) handler" where
  "api_reference text =
     (if CHR '':'' \<in> set text then bind_a (parse_digest_as text id) (\<lambda>d. return_a (DigestName d))
      else if \<not> http_valid_tag text then fail_a (Fails (with_detail text (new_error CodeManifestUnknown)))
      else return_a (TagName text))"

definition api_json :: "('b, 'h) web \<Rightarrow> 'h ctx \<Rightarrow> json \<Rightarrow> ('s, response) handler" where
  "api_json w c document =
     json_response w c ''application/json'' document [text_header w ''cache-control'' ''no-store'']"

section \<open>Handlers\<close>

definition api_purge :: "('b, 'h) web \<Rightarrow> ('s, 'b) registry_ops \<Rightarrow> 'h ctx \<Rightarrow> ('s, response) handler" where
  "api_purge w r c =
     bind_a (from_seam (op_purge r (flag (cx_query c) ''dry-run''))) (\<lambda>report. api_json w c (purge_json report))"

definition api_last_purge :: "('b, 'h) web \<Rightarrow> ('s, 'b) registry_ops \<Rightarrow> 'h ctx \<Rightarrow> ('s, response) handler" where
  "api_last_purge w r c =
     bind_a (from_seam (op_last_purge r)) (\<lambda>report. api_json w c (JObject [(''last'', jopt purge_json report)]))"

definition api_repositories :: "('b, 'h) web \<Rightarrow> ('s, 'b) registry_ops \<Rightarrow> 'h ctx \<Rightarrow> ('s, response) handler" where
  "api_repositories w r c =
     bind_a (of_result (api_page_params c)) (\<lambda>(limit, from).
     let query = map ascii_lowercase (case ctx_param c ''q'' of Some q \<Rightarrow> q | None \<Rightarrow> []) in
     bind_a (from_seam (op_repository_summaries r query from limit)) (\<lambda>p.
       api_json w c (JObject [(''repositories'', JArray (map repo_row_json (rp_items p))),
                              (''next'', jopt JString (rp_next p))])))"

definition api_repository :: "('b, 'h) web \<Rightarrow> ('s, 'b) registry_ops \<Rightarrow> 'h ctx \<Rightarrow> string \<Rightarrow> ('s, response) handler" where
  "api_repository w r c name =
     bind_a (from_seam (op_repository_detail r name)) (\<lambda>detail. api_json w c (repository_json detail))"

definition api_delete_repository :: "('s, 'b) registry_ops \<Rightarrow> string \<Rightarrow> ('s, response) handler" where
  "api_delete_repository r name =
     bind_a (from_seam (op_delete_repository r name)) (\<lambda>_. return_a (empty_with_length 202 0 []))"

definition api_tags :: "('b, 'h) web \<Rightarrow> ('s, 'b) registry_ops \<Rightarrow> 'h ctx \<Rightarrow> string \<Rightarrow> ('s, response) handler" where
  "api_tags w r c name =
     bind_a (of_result (api_page_params c)) (\<lambda>(limit, from).
     bind_a (from_seam (op_tag_details r name from limit)) (\<lambda>p.
       api_json w c (JObject [(''tags'', JArray (map tag_json (page_items p))),
         (''next'', jopt JString
            (if page_more p \<and> page_items p \<noteq> [] then Some (ti_name (last (page_items p))) else None))])))"

definition api_manifests :: "('b, 'h) web \<Rightarrow> ('s, 'b) registry_ops \<Rightarrow> 'h ctx \<Rightarrow> string \<Rightarrow> ('s, response) handler" where
  "api_manifests w r c name =
     bind_a (of_result (api_page_params c)) (\<lambda>(limit, from).
     bind_a (case from of
               None \<Rightarrow> return_a None
             | Some l \<Rightarrow> bind_a (parse_digest_as l (with_message ''invalid cursor'')) (\<lambda>d. return_a (Some d))) (\<lambda>cursor.
     bind_a (from_seam (op_manifest_details r name cursor limit)) (\<lambda>p.
       api_json w c (JObject [(''manifests'', JArray (map manifest_json (page_items p))),
         (''next'', jopt JString
            (if page_more p \<and> page_items p \<noteq> [] then Some (to_string (mi_digest (last (page_items p)))) else None))]))))"

definition api_manifest :: "('b, 'h) web \<Rightarrow> ('s, 'b) registry_ops \<Rightarrow> 'h ctx \<Rightarrow> string \<Rightarrow> string \<Rightarrow> ('s, response) handler" where
  "api_manifest w r c name text =
     bind_a (api_reference text) (\<lambda>reference.
     bind_a (from_seam (op_manifest_detail r name reference)) (\<lambda>info. api_json w c (manifest_json info)))"

definition api_tag_history ::
  "('b, 'h) web \<Rightarrow> ('s, 'b) registry_ops \<Rightarrow> 'h ctx \<Rightarrow> string \<Rightarrow> string \<Rightarrow> ('s, response) handler" where
  "api_tag_history w r c name text =
     bind_a (of_result (api_page_params c)) (\<lambda>(limit, from).
     bind_a (api_reference text) (\<lambda>reference.
     bind_a (of_result
               (case ctx_param c ''before'' of
                  None \<Rightarrow> Inr None
                | Some b \<Rightarrow>
                    (case parse_u64 b of
                       None \<Rightarrow>
                         Inl (with_detail (''before='' @ b)
                           (with_message ''invalid before'' (new_error CodePaginationNumberInvalid)))
                     | Some n \<Rightarrow> Inr (Some n)))) (\<lambda>before.
     bind_a (from_seam (op_tag_history r name reference before from limit)) (\<lambda>(events, cursor).
       api_json w c (JObject [(''events'', JArray (map tag_event_json events)), (''next'', jopt cursor_json cursor)])))))"

definition count_days :: "'h ctx \<Rightarrow> api_error + u16" where
  "count_days c =
     (case ctx_param c ''days'' of
        None \<Rightarrow> Inr DEFAULT_PULL_COUNT_DAYS
      | Some text \<Rightarrow>
          (case parse_u64 text of
             None \<Rightarrow>
               Inl (with_detail (''days='' @ text) (with_message ''invalid days'' (new_error CodePaginationNumberInvalid)))
           | Some n \<Rightarrow> Inr (ucast (min (max n 1) MAX_PULL_COUNT_DAYS))))"

definition api_pull_counts ::
  "('b, 'h) web \<Rightarrow> ('s, 'b) registry_ops \<Rightarrow> 'h ctx \<Rightarrow> string \<Rightarrow> string option \<Rightarrow> ('s, response) handler" where
  "api_pull_counts w r c name reference =
     bind_a (of_result (count_days c)) (\<lambda>days.
     bind_a (case reference of
               None \<Rightarrow> return_a RepositoryScope
             | Some text \<Rightarrow>
                 bind_a (api_reference text) (\<lambda>x.
                   return_a (case x of TagName t \<Rightarrow> TagScope t | DigestName d \<Rightarrow> ManifestScope d))) (\<lambda>scope.
     let today = day_bucket (cx_now c); from = sat_sub today (sat_sub days 1) in
     bind_a (from_seam (op_pull_counts r name scope from days)) (\<lambda>series.
       api_json w c (pull_counts_json name reference scope from days series))))"

definition api_handle ::
  "('b, 'h) web \<Rightarrow> ('s, 'b) registry_ops \<Rightarrow> 'h ctx \<Rightarrow> api_endpoint \<Rightarrow> ('s, response) handler" where
  "api_handle w r c e =
     (if cx_method c = DELETE then
        (case e of
           ApiRepository name \<Rightarrow> api_delete_repository r name
         | _ \<Rightarrow> fail_a (Fails (method_not_allowed ''GET, HEAD'')))
      else if cx_method c = POST then
        (case e of ApiPurge \<Rightarrow> api_purge w r c | _ \<Rightarrow> fail_a (Fails (method_not_allowed ''GET, HEAD'')))
      else if \<not> reads c then
        fail_a (Fails (method_not_allowed
          (case e of
             ApiRepository _ \<Rightarrow> ''GET, HEAD, DELETE''
           | ApiPurge \<Rightarrow> ''GET, HEAD, POST''
           | _ \<Rightarrow> ''GET, HEAD'')))
      else
        (case e of
           ApiRepositories \<Rightarrow> api_repositories w r c
         | ApiRepository name \<Rightarrow> api_repository w r c name
         | ApiTags name \<Rightarrow> api_tags w r c name
         | ApiManifests name \<Rightarrow> api_manifests w r c name
         | ApiManifest name text \<Rightarrow> api_manifest w r c name text
         | ApiTagHistory name text \<Rightarrow> api_tag_history w r c name text
         | ApiPullCounts name reference \<Rightarrow> api_pull_counts w r c name reference
         | ApiPurge \<Rightarrow> api_last_purge w r c))"

end
