(* ===== verification/Summ_App.thy ===== *)
theory Summ_App
  imports Summ_Api
begin

text \<open>
  The application (\<open>app.rs\<close>): authentication in front of everything, the two interfaces by their paths, the version header, and the
  fallback. The pages of the web interface are the function \<open>page\<close>.
\<close>

section \<open>Requests\<close>

definition API_VERSION_HEADER :: string where "API_VERSION_HEADER = ''docker-distribution-api-version''"

text \<open>A request: method, path, query text, headers, body. The context also takes the clock and the fresh identifier.\<close>

record ('b, 'h) request =
  rq_method :: http_method
  rq_path :: string
  rq_query :: string
  rq_headers :: "(string \<times> 'h) list"
  rq_body :: 'b
  rq_now :: u64
  rq_fresh :: string

definition ctx_of :: "server_config \<Rightarrow> ('b, 'h) request \<Rightarrow> 'h ctx" where
  "ctx_of config q =
     \<lparr>cx_method = rq_method q, cx_path = rq_path q, cx_query = pairs (rq_query q), cx_headers = rq_headers q,
      cx_config = config, cx_now = rq_now q, cx_fresh = rq_fresh q\<rparr>"

definition dispatch_v2 ::
  "('b, 'h) web \<Rightarrow> ('s, 'b) registry_ops \<Rightarrow> server_config \<Rightarrow> ('b, 'h) request \<Rightarrow> ('s, metered) handler" where
  "dispatch_v2 w r config q =
     (case route (rq_path q) of
        Inr e \<Rightarrow> handle w r (ctx_of config q) e (rq_body q)
      | Inl (InvalidName name) \<Rightarrow> fail_a (Fails (with_detail name (new_error CodeNameInvalid)))
      | Inl NoMatch \<Rightarrow>
          fail_a (Fails (with_detail (rq_path q)
            (with_message ''unknown repository or endpoint'' (new_error CodeNameUnknown)))))"

definition dispatch_api ::
  "('b, 'h) web \<Rightarrow> ('s, 'b) registry_ops \<Rightarrow> server_config \<Rightarrow> ('b, 'h) request \<Rightarrow> ('s, metered) handler" where
  "dispatch_api w r config q =
     (case api_route (rq_path q) of
        Inr e \<Rightarrow> unmetered (api_handle w r (ctx_of config q) e)
      | Inl (InvalidName name) \<Rightarrow> fail_a (Fails (with_detail name (new_error CodeNameInvalid)))
      | Inl NoMatch \<Rightarrow>
          fail_a (Fails (with_detail (rq_path q) (with_message ''unknown endpoint'' (new_error CodeNameUnknown)))))"

definition fallback ::
  "(http_method \<Rightarrow> string \<Rightarrow> response) \<Rightarrow> ('b, 'h) request \<Rightarrow> ('s, metered) handler" where
  "fallback ui q =
     (if strip_prefix (rq_path q) ''/api/'' \<noteq> None \<or> strip_prefix (rq_path q) ''/v2/'' \<noteq> None then
        fail_a (Fails (with_detail (rq_path q) (with_message ''not found'' (new_error CodeNameUnknown))))
      else return_a (ui (rq_method q) (rq_path q), None))"

text \<open>The router: \<open>/v2\<close>, \<open>/v2/\<close>, \<open>/v2/{*rest}\<close> and \<open>/api/v1/{*rest}\<close>, where a rest is not empty.\<close>

definition routed_request ::
  "('b, 'h) web \<Rightarrow> (http_method \<Rightarrow> string \<Rightarrow> response) \<Rightarrow> ('s, 'b) registry_ops \<Rightarrow> server_config
    \<Rightarrow> ('b, 'h) request \<Rightarrow> ('s, metered) handler" where
  "routed_request w ui r config q =
     (if rq_path q = ''/v2'' \<or> strip_prefix (rq_path q) ''/v2/'' \<noteq> None then dispatch_v2 w r config q
      else (case strip_prefix (rq_path q) ''/api/v1/'' of
              Some (_ # _) \<Rightarrow> dispatch_api w r config q
            | _ \<Rightarrow> fallback ui q))"

definition with_version :: "response \<Rightarrow> response" where
  "with_version r =
     (if API_VERSION_HEADER \<in> fst ` set (resp_headers r) then r
      else r\<lparr>resp_headers := resp_headers r @ [(API_VERSION_HEADER, ''registry/2.0'')]\<rparr>)"

fun versioned :: "metered call \<Rightarrow> metered call" where
  "versioned Panics = Panics"
| "versioned (Returns (r, m)) = Returns (with_version r, m)"

definition app ::
  "('b, 'h) web \<Rightarrow> (http_method \<Rightarrow> string \<Rightarrow> response) \<Rightarrow> ('s, 'b) registry_ops \<Rightarrow> server_config
    \<Rightarrow> ('b, 'h) request \<Rightarrow> 's server \<Rightarrow> metered call \<times> 's server" where
  "app w ui r config q sv =
     (let next = (\<lambda>sv. case answer w (routed_request w ui r config q) sv of (x, sv') \<Rightarrow> (versioned x, sv')) in
      if is_enabled (cfg_auth config) then
        (case authorize (wb_to_str w) (cfg_auth config) (rq_method q) (map_of (rq_headers q) ''authorization'') of
           Inr _ \<Rightarrow> next sv
         | Inl e \<Rightarrow> (Returns (into_response (wb_error_json w) (auth_api_error e), None), sv))
      else next sv)"

end
