(* ===== verification/Summ_Safety.thy ===== *)
theory Summ_Safety
  imports Summ_App
begin

text \<open>
  What a request may do to the store. The contract of the seam is a locale: reads are quiet, and a mutation that fails leaves the state as it
  was. From it follow, for every registry that keeps it, that safe methods never write and that a request which is answered
  with an error, or not at all, has changed nothing. The registry in memory keeps it.
\<close>

section \<open>Quiet and all-or-nothing actions\<close>

definition quiet :: "('s, 'e, 'a) action \<Rightarrow> bool" where
  "quiet m \<longleftrightarrow> (\<forall>s. snd (m s) = s)"

definition all_or_nothing :: "('s, 'e, 'a) action \<Rightarrow> bool" where
  "all_or_nothing m \<longleftrightarrow> (\<forall>s e. fst (m s) = Inl e \<longrightarrow> snd (m s) = s)"

text \<open>Handlers: one that keeps the store, and one that keeps it unless it answers below 400.\<close>

definition keeps_store :: "('s, 'a) handler \<Rightarrow> bool" where
  "keeps_store m \<longleftrightarrow> (\<forall>sv. sv_store (snd (m sv)) = sv_store sv)"

definition clean :: "('a \<Rightarrow> response) \<Rightarrow> ('s, 'a) handler \<Rightarrow> bool" where
  "clean f m \<longleftrightarrow>
     (\<forall>sv. (case fst (m sv) of Inr a \<Rightarrow> 400 \<le> resp_status (f a) | Inl _ \<Rightarrow> True) \<longrightarrow> sv_store (snd (m sv)) = sv_store sv)"

lemma quiet_all_or_nothing: "quiet m \<Longrightarrow> all_or_nothing m"
  by (simp add: quiet_def all_or_nothing_def)

lemma quiet_intros [intro]:
  "quiet (return_a a)" "quiet (fail_a e)" "quiet (mem_read f)"
  by (simp_all add: quiet_def run_simps mem_read_def)

lemma all_or_nothing_bind [intro]:
  assumes "quiet m" and "\<And>a. all_or_nothing (k a)"
  shows "all_or_nothing (bind_a m k)"
  using assms by (auto simp: all_or_nothing_def quiet_def run_simps split: prod.splits sum.splits) (metis fst_conv snd_conv)+

lemma keeps_store_intros:
  "keeps_store (return_a a)" "keeps_store (fail_a e)" "keeps_store (of_result x)" "keeps_store (of_call y)"
  "keeps_store (on_pulls f)" "keeps_store (parse_digest_as text g)"
  by (auto simp: keeps_store_def run_simps of_result_def of_call_def on_pulls_def parse_digest_as_def
      split: call.split sum.split)

lemma keeps_store_below: "quiet m \<Longrightarrow> keeps_store (from_seam m)"
  by (auto simp: keeps_store_def quiet_def from_seam_def from_seam_raw_def run_simps split: prod.split) (metis snd_conv)

lemma keeps_store_bind: "keeps_store m \<Longrightarrow> (\<And>a. keeps_store (k a)) \<Longrightarrow> keeps_store (bind_a m k)"
  by (auto simp: keeps_store_def run_simps split: prod.split sum.split) (metis snd_conv)+

lemma keeps_store_clean: "keeps_store m \<Longrightarrow> clean f m"
  by (simp add: keeps_store_def clean_def)

lemma clean_bind:
  assumes "keeps_store m" and "\<And>a. clean f (k a)"
  shows "clean f (bind_a m k)"
  unfolding clean_def
proof (intro allI impI)
  fix sv
  assume *: "case fst (bind_a m k sv) of Inr a \<Rightarrow> 400 \<le> resp_status (f a) | Inl _ \<Rightarrow> True"
  obtain x sv' where m: "m sv = (x, sv')" by fastforce
  then have "sv_store sv' = sv_store sv" using assms(1) unfolding keeps_store_def by (metis snd_conv)
  then show "sv_store (snd (bind_a m k sv)) = sv_store sv"
    using * m assms(2) by (cases x) (auto simp: run_simps clean_def)
qed

lemma clean_if: "(p \<Longrightarrow> clean f m) \<Longrightarrow> (\<not> p \<Longrightarrow> clean f n) \<Longrightarrow> clean f (if p then m else n)"
  by simp

lemma clean_mutation:
  assumes "all_or_nothing m" and "\<And>a. resp_status (f (g a)) < 400"
  shows "clean f (bind_a (from_seam m) (\<lambda>a. return_a (g a)))"
  unfolding clean_def
proof (intro allI impI)
  fix sv
  assume *: "case fst (bind_a (from_seam m) (\<lambda>a. return_a (g a)) sv) of Inr a \<Rightarrow> 400 \<le> resp_status (f a) | Inl _ \<Rightarrow> True"
  obtain x s' where m: "m (sv_store sv) = (x, s')" by fastforce
  show "sv_store (snd (bind_a (from_seam m) (\<lambda>a. return_a (g a)) sv)) = sv_store sv"
  proof (cases x)
    case (Inl e)
    then have "s' = sv_store sv" using assms(1) m unfolding all_or_nothing_def by (metis fst_conv snd_conv)
    with Inl m show ?thesis by (simp add: from_seam_def from_seam_raw_def run_simps)
  next
    case (Inr a)
    with m * assms(2) [of a] show ?thesis by (simp add: from_seam_def from_seam_raw_def run_simps)
  qed
qed

lemma clean_unmetered: "clean id m \<Longrightarrow> clean fst (unmetered m)"
  unfolding clean_def
proof (intro allI impI)
  fix sv
  assume c: "\<forall>sv. (case fst (m sv) of Inr a \<Rightarrow> 400 \<le> resp_status (id a) | Inl _ \<Rightarrow> True) \<longrightarrow> sv_store (snd (m sv)) = sv_store sv"
    and *: "case fst (unmetered m sv) of Inr a \<Rightarrow> 400 \<le> resp_status (fst a) | Inl _ \<Rightarrow> True"
  obtain x sv' where m: "m sv = (x, sv')" by fastforce
  show "sv_store (snd (unmetered m sv)) = sv_store sv"
    using c [rule_format, of sv] * m by (cases x) (auto simp: unmetered_def run_simps)
qed

lemma keeps_store_unmetered: "keeps_store m \<Longrightarrow> keeps_store (unmetered m)"
  unfolding unmetered_def by (intro keeps_store_bind keeps_store_intros)

lemma keeps_store_json: "keeps_store (json_response w c t d x)"
  by (auto simp: json_response_def intro: keeps_store_intros split: sum.split)

text \<open>A handler that keeps a property of the store; to keep the store is to keep every property of it.\<close>

definition keeps :: "('s \<Rightarrow> bool) \<Rightarrow> ('s, 'a) handler \<Rightarrow> bool" where
  "keeps P m \<longleftrightarrow> (\<forall>sv. P (sv_store sv) \<longrightarrow> P (sv_store (snd (m sv))))"

lemma keeps_quiet: "keeps_store m \<Longrightarrow> keeps P m"
  by (simp add: keeps_def keeps_store_def)

lemma keeps_store_iff: "keeps_store m \<longleftrightarrow> (\<forall>s. keeps (\<lambda>t. t = s) m)"
  by (auto simp: keeps_def keeps_store_def)

lemma keeps_below: "(\<And>s. P s \<Longrightarrow> P (snd (m s))) \<Longrightarrow> keeps P (from_seam m)"
  by (auto simp: keeps_def from_seam_def from_seam_raw_def run_simps split: prod.split) (metis snd_conv)

lemma keeps_bind:
  fixes P :: "'s \<Rightarrow> bool"
  assumes "keeps P m" and "\<And>a. keeps P (k a)"
  shows "keeps P (bind_a m k)"
  unfolding keeps_def
proof (intro allI impI)
  fix sv :: "'s server"
  assume p: "P (sv_store sv)"
  obtain x sv' where m: "m sv = (x, sv')" by fastforce
  then have "P (sv_store sv')" using assms(1) p unfolding keeps_def by (metis snd_conv)
  then show "P (sv_store (snd (bind_a m k sv)))"
    using m assms(2) by (cases x) (auto simp: run_simps keeps_def)
qed

lemma keeps_unmetered: "keeps P m \<Longrightarrow> keeps P (unmetered m)"
  unfolding unmetered_def by (rule keeps_bind, assumption, rule keeps_quiet, rule keeps_store_intros)

lemma keeps_cases:
  "keeps P m \<Longrightarrow> keeps P n \<Longrightarrow> keeps P (if p then m else n)"
  "keeps P m \<Longrightarrow> (\<And>a. keeps P (k a)) \<Longrightarrow> keeps P (case v of None \<Rightarrow> m | Some a \<Rightarrow> k a)"
  by (simp_all split: option.split)

lemmas keeps_plain = keeps_quiet [OF keeps_store_intros(1)] keeps_quiet [OF keeps_store_intros(2)]
  keeps_quiet [OF keeps_store_intros(3)] keeps_quiet [OF keeps_store_intros(4)]
  keeps_quiet [OF keeps_store_intros(5)] keeps_quiet [OF keeps_store_intros(6)] keeps_quiet [OF keeps_store_json]

lemmas keeps_intros = keeps_bind keeps_unmetered keeps_cases keeps_plain

lemmas store_intros = keeps_store_intros keeps_store_below keeps_store_bind keeps_store_json keeps_store_unmetered

section \<open>Reads\<close>

text \<open>A property of the state that every read of the registry keeps, whether or not the read changes something else.\<close>

locale reading_seam =
  fixes r :: "('s, 'b) registry_ops" and P :: "'s \<Rightarrow> bool"
  assumes keep_lists: "P s \<Longrightarrow> P (snd (op_repositories r from limit s))" "P s \<Longrightarrow> P (snd (op_tags r name from limit s))"
    and keep_manifests: "P s \<Longrightarrow> P (snd (op_stat_manifest r name reference s))" "P s \<Longrightarrow> P (snd (op_get_manifest r name reference s))"
    and keep_blobs: "P s \<Longrightarrow> P (snd (op_stat_blob r name d s))" "P s \<Longrightarrow> P (snd (op_get_blob r name d window s))"
    and keep_uploads: "P s \<Longrightarrow> P (snd (op_upload_offset r name i s))"
    and keep_referrers: "P s \<Longrightarrow> P (snd (op_referrers r name d artifact_type cursor limit s))"
    and keep_details: "P s \<Longrightarrow> P (snd (op_repository_summaries r query from limit s))" "P s \<Longrightarrow> P (snd (op_repository_detail r name s))"
      "P s \<Longrightarrow> P (snd (op_tag_details r name from limit s))" "P s \<Longrightarrow> P (snd (op_manifest_details r name cursor limit s))"
      "P s \<Longrightarrow> P (snd (op_manifest_detail r name reference s))" "P s \<Longrightarrow> P (snd (op_tag_history r name reference before from limit s))"
      "P s \<Longrightarrow> P (snd (op_pull_counts r name scope day days s))" "P s \<Longrightarrow> P (snd (op_last_purge r s))"
begin

lemmas keep_all = keep_lists keep_manifests keep_blobs keep_uploads keep_referrers keep_details

lemmas reading_intros = keeps_intros keeps_below keep_all

lemma keeps_referrers: "keeps P (referrers_endpoint w r c name given)"
proof -
  have "keeps P (referrers_or_none t (op_referrers r name d t cursor limit))" for t d cursor limit
    using keep_referrers [of _ name d t cursor limit]
    by (auto simp: keeps_def referrers_or_none_def from_seam_raw_def split: prod.split sum.split halt.split ops_error.split)
      (metis snd_conv)+
  then show ?thesis
    unfolding referrers_endpoint_def Let_def by (auto intro!: reading_intros split: option.split)
qed

lemma keeps_lists: "keeps P (http_tag_list w r c name)" "keeps P (catalog w r c)" "keeps P (base_endpoint w c)"
  unfolding http_tag_list_def catalog_def base_endpoint_def
  by (auto intro!: reading_intros split: http_method.split)

lemma keeps_manifest_reads: "keeps P (http_manifest_get w r c name reference)" "keeps P (http_manifest_head w r name reference)"
  unfolding http_manifest_get_def http_manifest_head_def Let_def by (auto intro!: reading_intros)

lemma keeps_blob_get: "keeps P (blob_get w r c name d)"
proof -
  have "keeps P (\<lambda>sv. (Inr (x, meter_blob t name (sv_pulls sv)), sv))" for x t
    by (simp add: keeps_def)
  then show ?thesis
    unfolding blob_get_def Let_def
    by (auto intro!: reading_intros split: range_outcome.split option.split simp: case_prod_beta)
qed

lemma keeps_blob_head: "keeps P (blob_head w r name d)"
  unfolding blob_head_def by (auto intro!: reading_intros)

lemma keeps_status: "keeps P (upload_status w r name i)"
  unfolding upload_status_def by (auto intro!: reading_intros)

text \<open>A request whose method is not a write only reads.\<close>

lemma reading_handle:
  assumes "cx_method c \<notin> {PUT, POST, PATCH, DELETE}"
  shows "keeps P (handle w r c e b)"
proof (cases e)
  case (EpManifest name reference)
  with assms show ?thesis
    unfolding handle_def manifest_endpoint_def
    by (auto intro!: reading_intros keeps_manifest_reads split: http_method.split)
next
  case (EpBlob name d)
  with assms show ?thesis
    unfolding handle_def blob_endpoint_def
    by (auto intro!: reading_intros keeps_blob_get keeps_blob_head split: http_method.split)
next
  case (EpUploads name)
  with assms show ?thesis by (auto simp: handle_def upload_create_def intro!: reading_intros)
next
  case (EpUpload name i)
  with assms show ?thesis
    by (auto simp: handle_def upload_endpoint_def intro!: reading_intros keeps_status split: http_method.split)
qed (auto simp: handle_def intro!: reading_intros keeps_lists keeps_referrers)

lemma keeps_api_reference: "keeps P (api_reference given)"
  unfolding api_reference_def by (auto intro!: reading_intros)

lemma keeps_api_json: "keeps P (api_json w c d)"
  by (simp add: api_json_def keeps_plain)

lemma keeps_api_reads:
  "keeps P (api_last_purge w r c)" "keeps P (api_repositories w r c)"
  "keeps P (api_repository w r c name)" "keeps P (api_tags w r c name)" "keeps P (api_manifests w r c name)"
  "keeps P (api_manifest w r c name given)" "keeps P (api_tag_history w r c name given)"
  "keeps P (api_pull_counts w r c name ref)"
  unfolding api_last_purge_def api_repositories_def api_repository_def api_tags_def api_manifests_def
    api_manifest_def api_tag_history_def api_pull_counts_def Let_def
  by (auto intro!: reading_intros keeps_api_reference keeps_api_json)

lemma reading_api:
  assumes "cx_method c \<notin> {DELETE, POST}"
  shows "keeps P (api_handle w r c e)"
  using assms by (cases e) (simp_all add: api_handle_def keeps_api_reads keeps_plain keeps_cases)

lemma reading_routed:
  assumes "rq_method q \<notin> {PUT, POST, PATCH, DELETE}"
  shows "keeps P (routed_request w ui r config q)"
proof -
  have m: "cx_method (ctx_of config q) = rq_method q" by (simp add: ctx_of_def)
  have "keeps P (dispatch_v2 w r config q)"
    using assms by (auto simp: dispatch_v2_def m intro!: reading_handle keeps_plain split: sum.split route_error.split)
  moreover have "keeps P (dispatch_api w r config q)"
    using assms
    by (auto simp: dispatch_api_def m intro!: keeps_unmetered reading_api keeps_plain split: sum.split route_error.split)
  moreover have "keeps P (fallback ui q :: ('s, metered) handler)"
    by (auto simp: fallback_def intro!: keeps_plain)
  ultimately show ?thesis by (simp add: routed_request_def split: option.split list.split)
qed

text \<open>So does one that is not authorized, which is answered before it is routed.\<close>

lemma app_reads:
  assumes P: "P (sv_store sv)"
    and "rq_method q \<notin> {PUT, POST, PATCH, DELETE}
      \<or> authorize (wb_to_str w) (cfg_auth config) (rq_method q) (map_of (rq_headers q) ''authorization'') \<noteq> Inr ()"
  shows "P (sv_store (snd (app w ui r config q sv)))"
proof -
  let ?m = "routed_request w ui r config q"
  let ?auth = "authorize (wb_to_str w) (cfg_auth config) (rq_method q) (map_of (rq_headers q) ''authorization'')"
  have routed: "P (sv_store (snd (answer w ?m sv)))" if safe: "rq_method q \<notin> {PUT, POST, PATCH, DELETE}"
  proof -
    obtain x sv' where m: "?m sv = (x, sv')" by fastforce
    then have "P (sv_store sv')" using reading_routed [OF safe] P unfolding keeps_def by (metis snd_conv)
    with m show ?thesis by (cases x) (auto simp: answer_def split: halt.split)
  qed
  have open_ok: "?auth = Inr ()" if "\<not> is_enabled (cfg_auth config)"
    using that by (cases "cfg_auth config") (simp_all add: is_enabled_def authorize_def)
  show ?thesis
  proof (cases "?auth = Inr ()")
    case True
    with assms(2) routed show ?thesis by (auto simp: app_def case_prod_beta Let_def)
  next
    case False
    with open_ok have "is_enabled (cfg_auth config)" by blast
    moreover obtain e where "?auth = Inl e" using False by (cases ?auth) auto
    ultimately show ?thesis by (simp add: app_def P)
  qed
qed

end

section \<open>The contract of the seam\<close>

locale seam_contract =
  fixes r :: "('s, 'b) registry_ops"
  assumes reads_lists: "quiet (op_repositories r from limit)" "quiet (op_tags r name from limit)"
    and reads_manifests: "quiet (op_stat_manifest r name reference)" "quiet (op_get_manifest r name reference)"
    and reads_blobs: "quiet (op_stat_blob r name d)" "quiet (op_get_blob r name d window)"
    and reads_uploads: "quiet (op_upload_offset r name i)"
    and reads_referrers: "quiet (op_referrers r name d artifact_type cursor limit)"
    and reads_details: "quiet (op_repository_summaries r query from limit)" "quiet (op_repository_detail r name)"
      "quiet (op_tag_details r name from limit)" "quiet (op_manifest_details r name cursor limit)"
      "quiet (op_manifest_detail r name reference)" "quiet (op_tag_history r name reference before from limit)"
      "quiet (op_pull_counts r name scope day days)" "quiet (op_last_purge r)"
    and writes_manifests: "all_or_nothing (op_put_manifest r name reference media_type tags content)"
      "all_or_nothing (op_delete_manifest r name reference)" "all_or_nothing (op_delete_repository r name)"
    and writes_blobs: "all_or_nothing (op_put_blob r name d body)" "all_or_nothing (op_delete_blob r name d)"
      "all_or_nothing (op_mount_blob r name d from)"
    and mount_refused: "fst (op_mount_blob r name d from s) = Inr False \<Longrightarrow> snd (op_mount_blob r name d from s) = s"
    and writes_uploads: "all_or_nothing (op_create_upload r name i algo)"
      "all_or_nothing (op_append_upload r name i offset body)"
      "all_or_nothing (op_finish_upload r name i offset body d)" "all_or_nothing (op_cancel_upload r name i)"
begin

lemmas reads_all = reads_lists reads_manifests reads_blobs reads_uploads reads_referrers reads_details

lemmas writes_all = writes_manifests writes_blobs writes_uploads

end

text \<open>Quiet reads keep whatever the state is.\<close>

sublocale seam_contract \<subseteq> still: reading_seam r "\<lambda>s. s = s0" for s0
  using reads_lists reads_manifests reads_blobs reads_uploads reads_referrers reads_details
  by unfold_locales (simp_all add: quiet_def)

context seam_contract
begin

lemma keeps_store_manifest_get: "keeps_store (http_manifest_get w r c name reference)"
  and keeps_store_manifest_head: "keeps_store (http_manifest_head w r name reference)"
  and keeps_store_blob_get: "keeps_store (blob_get w r c name d)"
  and keeps_store_blob_head: "keeps_store (blob_head w r name d)"
  and keeps_store_status: "keeps_store (upload_status w r name i)"
  and keeps_store_referrers: "keeps_store (referrers_endpoint w r c name given)"
  by (simp_all add: keeps_store_iff still.keeps_manifest_reads still.keeps_blob_get still.keeps_blob_head still.keeps_status
      still.keeps_referrers)

lemma keeps_store_lists: "keeps_store (http_tag_list w r c name)" "keeps_store (catalog w r c)"
    "keeps_store (base_endpoint w c :: ('s, response) handler)"
  by (simp_all add: keeps_store_iff still.keeps_lists)

lemma safe_handle: "cx_method c \<notin> {PUT, POST, PATCH, DELETE} \<Longrightarrow> keeps_store (handle w r c e b)"
  unfolding keeps_store_iff by (intro allI still.reading_handle)

lemma clean_patch: "clean id (upload_patch w r c name i b)"
  unfolding upload_patch_def
  by (intro clean_bind keeps_store_below reads_uploads keeps_store_intros clean_mutation writes_uploads)
    (simp add: empty_with_length_def)

lemma clean_finish: "clean id (upload_finish w r c name i b)"
proof (cases "ctx_param c ''digest''")
  case (Some given)
  then show ?thesis
    unfolding upload_finish_def option.case
    by (simp only: option.case) (intro clean_bind keeps_store_below reads_uploads keeps_store_intros clean_mutation
      writes_uploads, simp add: empty_with_length_def blob_created_def)
qed (simp add: upload_finish_def keeps_store_clean keeps_store_intros)

lemma clean_cancel: "clean id (upload_cancel r name i)"
  unfolding upload_cancel_def by (intro clean_mutation writes_uploads) (simp add: empty_with_length_def)

lemma clean_single_post: "clean id (upload_single_post w r c name text b)"
  unfolding upload_single_post_def
  by (intro clean_bind keeps_store_intros clean_mutation writes_blobs) (simp add: empty_with_length_def blob_created_def)

lemma clean_open: "clean id (bind_a (of_result (digest_algorithm c)) (\<lambda>algo.
    bind_a (from_seam (op_create_upload r name i algo)) (\<lambda>_. return_a (empty_with_length 202 0 hs))))"
  by (intro clean_bind keeps_store_intros clean_mutation writes_uploads) (simp add: empty_with_length_def)

text \<open>A mount that is refused has changed nothing, so the request goes on from the state it came with.\<close>

lemma mount_steps:
  assumes "upload_mount w r c name text sv = (x, sv')"
  shows "(\<exists>response. x = Inr (Some response) \<and> resp_status response = 201) \<or> sv_store sv' = sv_store sv"
proof (cases "http_parse_digest text")
  case Panics
  with assms show ?thesis by (simp add: upload_mount_def run_simps)
next
  case (Returns y)
  show ?thesis
  proof (cases y)
    case (Inl e)
    with Returns assms show ?thesis by (simp add: upload_mount_def run_simps)
  next
    case (Inr d)
    let ?from = "case ctx_param c ''from'' of Some f \<Rightarrow> if valid_name f then Some f else None | None \<Rightarrow> None"
    obtain z s' where m: "op_mount_blob r name d ?from (sv_store sv) = (z, s')" by fastforce
    have "s' = sv_store sv" if "z = Inr False"
      using mount_refused [of name d ?from "sv_store sv"] m that by simp
    moreover have "s' = sv_store sv" if "z = Inl e" for e
      using writes_blobs(3) [of name d ?from, unfolded all_or_nothing_def, rule_format, of "sv_store sv" e] m that by simp
    ultimately show ?thesis
      using m Returns Inr assms
      by (cases z) (auto simp: upload_mount_def run_simps from_seam_def from_seam_raw_def Let_def blob_created_def
          empty_with_length_def split: if_splits)
  qed
qed

lemma clean_create: "clean id (upload_create w r c name b)"
proof -
  let ?go = "case ctx_param c ''digest'' of
      Some text \<Rightarrow> upload_single_post w r c name text b
    | None \<Rightarrow>
        bind_a (of_result (digest_algorithm c)) (\<lambda>algo.
        bind_a (from_seam (op_create_upload r name (cx_fresh c) algo)) (\<lambda>_.
          return_a (empty_with_length 202 0
            (upload_headers w name (cx_fresh c) 0
             @ (case cfg_chunk_min_length (cx_config c) of
                  Some least \<Rightarrow> [(OCI_CHUNK_MIN_LENGTH, header_value w (show_nat (unat least)))] | None \<Rightarrow> [])))))"
  have go: "clean id ?go" by (auto intro: clean_single_post clean_open split: option.split)
  show ?thesis
  proof (cases "cx_method c = POST")
    case False
    then show ?thesis by (simp add: upload_create_def keeps_store_clean keeps_store_intros)
  next
    case post: True
    show ?thesis
    proof (cases "ctx_param c ''mount''")
      case None
      then have "upload_create w r c name b = ?go"
        using post by (simp add: upload_create_def fun_eq_iff run_simps)
      with go show ?thesis by simp
    next
      case (Some given)
      have run: "upload_create w r c name b sv = (case upload_mount w r c name given sv of
          (Inl e, sv') \<Rightarrow> (Inl e, sv') | (Inr (Some x), sv') \<Rightarrow> (Inr x, sv') | (Inr None, sv') \<Rightarrow> ?go sv')" for sv
        using post Some by (auto simp: upload_create_def run_simps split: prod.split sum.split option.split)
      show ?thesis
        unfolding clean_def
      proof (intro allI impI)
        fix sv
        assume *: "case fst (upload_create w r c name b sv) of Inr a \<Rightarrow> 400 \<le> resp_status (id a) | Inl _ \<Rightarrow> True"
        obtain x sv' where m: "upload_mount w r c name given sv = (x, sv')" by fastforce
        show "sv_store (snd (upload_create w r c name b sv)) = sv_store sv"
        proof (cases x)
          case (Inl e)
          with mount_steps [OF m] m show ?thesis by (simp add: run)
        next
          case (Inr y)
          show ?thesis
          proof (cases y)
            case None
            with mount_steps [OF m] Inr have "sv_store sv' = sv_store sv" by simp
            moreover have "sv_store (snd (?go sv')) = sv_store sv'"
              using go * m Inr None unfolding clean_def run by simp
            ultimately show ?thesis using m Inr None by (simp add: run)
          next
            case (Some response)
            with mount_steps [OF m] Inr m * show ?thesis by (auto simp: run)
          qed
        qed
      qed
    qed
  qed
qed

lemma clean_manifest_put: "clean id (http_manifest_put w r c name reference b)"
  unfolding http_manifest_put_def Let_def
  by (rule clean_if, intro keeps_store_clean keeps_store_intros,
      intro clean_bind keeps_store_intros clean_mutation writes_manifests, simp add: empty_with_length_def)

lemma clean_manifest_delete: "clean id (http_manifest_delete r name reference)"
  unfolding http_manifest_delete_def by (intro clean_mutation writes_manifests) (simp add: empty_with_length_def)

text \<open>Whatever the endpoint, a request that fails has changed nothing.\<close>

lemma clean_handle: "clean fst (handle w r c e b)"
proof (cases "cx_method c \<in> {PUT, POST, PATCH, DELETE}")
  case False
  then show ?thesis by (intro keeps_store_clean safe_handle) simp
next
  case mutating: True
  show ?thesis
  proof (cases e)
    case (EpManifest name reference)
    have "clean id (manifest_endpoint w r c name reference b)"
      unfolding manifest_endpoint_def
      by (intro clean_bind keeps_store_intros, cases "cx_method c")
        (simp_all add: clean_manifest_put clean_manifest_delete keeps_store_clean keeps_store_manifest_get
          keeps_store_manifest_head keeps_store_intros)
    with EpManifest show ?thesis by (simp add: handle_def clean_unmetered)
  next
    case (EpBlob name d)
    have "clean id (blob_delete r name x)" for x
      unfolding blob_delete_def by (intro clean_mutation writes_blobs) (simp add: empty_with_length_def)
    then have "clean fst (blob_endpoint w r c name d)"
      unfolding blob_endpoint_def
      by (intro clean_bind keeps_store_intros, cases "cx_method c")
        (simp_all add: clean_unmetered keeps_store_clean keeps_store_unmetered keeps_store_blob_get keeps_store_blob_head
          keeps_store_intros)
    with EpBlob show ?thesis by (simp add: handle_def)
  next
    case (EpUploads name)
    then show ?thesis by (simp add: handle_def clean_unmetered clean_create)
  next
    case (EpUpload name i)
    have "clean id (upload_endpoint w r c name i b)"
      unfolding upload_endpoint_def
      by (auto intro!: clean_patch clean_finish clean_cancel keeps_store_clean keeps_store_intros keeps_store_status
          split: http_method.split)
    with EpUpload show ?thesis by (simp add: handle_def clean_unmetered)
  qed (auto simp: handle_def intro!: keeps_store_clean store_intros keeps_store_lists keeps_store_referrers)
qed

end

section \<open>The whole application\<close>

text \<open>A purge reports what it did after it did it; a registry with nothing to purge has no such pass.\<close>

locale quiet_purge = seam_contract r for r :: "('s, 'b) registry_ops" +
  assumes purges: "quiet (op_purge r dry_run)"
begin

lemma keeps_store_api_purge: "keeps_store (api_purge w r c)"
  unfolding api_purge_def api_json_def by (auto intro!: store_intros purges)

lemma safe_api:
  assumes "cx_method c \<noteq> DELETE"
  shows "keeps_store (api_handle w r c e)"
proof (cases "cx_method c = POST")
  case True
  then show ?thesis by (cases e) (simp_all add: api_handle_def keeps_store_api_purge keeps_store_intros)
next
  case False
  with assms show ?thesis unfolding keeps_store_iff by (intro allI still.reading_api) simp
qed

lemma clean_api: "clean id (api_handle w r c e)"
proof (cases "cx_method c = DELETE")
  case True
  have "clean id (api_delete_repository r name)" for name
    unfolding api_delete_repository_def by (intro clean_mutation writes_manifests) (simp add: empty_with_length_def)
  with True show ?thesis by (cases e) (simp_all add: api_handle_def keeps_store_clean keeps_store_intros)
qed (simp add: keeps_store_clean safe_api)

lemma safe_routed: "rq_method q \<notin> {PUT, POST, PATCH, DELETE} \<Longrightarrow> keeps_store (routed_request w ui r config q)"
  unfolding keeps_store_iff by (intro allI still.reading_routed)

lemma clean_routed: "clean fst (routed_request w ui r config q)"
proof -
  have "clean fst (dispatch_v2 w r config q)"
    by (auto simp: dispatch_v2_def keeps_store_clean keeps_store_intros intro!: clean_handle split: sum.split route_error.split)
  moreover have "clean fst (dispatch_api w r config q)"
    by (auto simp: dispatch_api_def keeps_store_clean keeps_store_intros intro!: clean_unmetered clean_api
        split: sum.split route_error.split)
  moreover have "clean fst (fallback ui q :: ('s, metered) handler)"
    by (auto simp: fallback_def intro!: keeps_store_clean keeps_store_intros)
  ultimately show ?thesis by (simp add: routed_request_def split: option.split list.split)
qed

lemma answered:
  assumes "keeps_store m"
  shows "sv_store (snd (answer w m sv)) = sv_store sv"
  using assms by (auto simp: answer_def keeps_store_def split: prod.split sum.split halt.split) (metis snd_conv)+

lemma answered_below_400:
  assumes "clean fst m"
  shows "sv_store (snd (answer w m sv)) = sv_store sv
    \<or> (\<exists>x. fst (answer w m sv) = Returns x \<and> resp_status (fst x) < 400)"
proof -
  obtain x sv' where m: "m sv = (x, sv')" by fastforce
  show ?thesis
    using assms [unfolded clean_def, rule_format, of sv] m
    by (cases x) (auto simp: answer_def not_le split: halt.split)
qed

lemma version_status [simp]: "resp_status (with_version x) = resp_status x"
  by (simp add: with_version_def)

lemma app_writes:
  "sv_store (snd (app w ui r config q sv)) = sv_store sv
    \<or> rq_method q \<in> {PUT, POST, PATCH, DELETE}
      \<and> authorize (wb_to_str w) (cfg_auth config) (rq_method q) (map_of (rq_headers q) ''authorization'') = Inr ()
      \<and> (\<exists>response m. fst (app w ui r config q sv) = Returns (response, m) \<and> resp_status response < 400)"
proof -
  let ?m = "routed_request w ui r config q"
  let ?auth = "authorize (wb_to_str w) (cfg_auth config) (rq_method q) (map_of (rq_headers q) ''authorization'')"
  obtain x sv' where a: "answer w ?m sv = (x, sv')" by fastforce
  have app: "app w ui r config q sv = (versioned x, sv')" if "?auth = Inr ()"
    using that a by (simp add: app_def)
  have open_ok: "?auth = Inr ()" if "\<not> is_enabled (cfg_auth config)"
    using that by (cases "cfg_auth config") (simp_all add: is_enabled_def authorize_def)
  show ?thesis
  proof (cases "?auth = Inr ()")
    case True
    show ?thesis
    proof (cases "rq_method q \<in> {PUT, POST, PATCH, DELETE}")
      case False
      then have "sv_store sv' = sv_store sv" using answered [OF safe_routed, of q w w ui config sv] a by simp
      with True app show ?thesis by simp
    next
      case write_method: True
      show ?thesis
        using answered_below_400 [OF clean_routed, of w w ui config q sv] a True app write_method
        by (cases x) auto
    qed
  next
    case False
    with open_ok have "is_enabled (cfg_auth config)" by blast
    moreover obtain e where "?auth = Inl e" using False by (cases ?auth) auto
    ultimately show ?thesis by (simp add: app_def)
  qed
qed

end

section \<open>The registry in memory\<close>

lemma quiet_get_blob: "quiet (mem_get_blob name d window)"
  by (auto simp: quiet_def mem_get_blob_def split: sum.split call.split)

lemma atomic_put_manifest: "all_or_nothing (mem_put_manifest lib name reference media_type tags content)"
  unfolding mem_put_manifest_def Let_def
  by (rule all_or_nothing_bind)
    (auto simp: quiet_def of_result_def run_simps case_prod_beta all_or_nothing_def split: call.split)

lemma atomic_manifests: "all_or_nothing (mem_delete_manifest name reference)" "all_or_nothing (mem_delete_repository name)"
  by (auto simp: all_or_nothing_def mem_delete_manifest_def mem_delete_repository_def Let_def case_prod_beta
      split: option.splits http_reference.splits if_splits)

lemma atomic_blobs: "all_or_nothing (mem_put_blob lib name d b)" "all_or_nothing (mem_delete_blob name d)"
  "all_or_nothing (mem_mount_blob name d from)"
  by (auto simp: all_or_nothing_def mem_put_blob_def mem_delete_blob_def mem_mount_blob_def run_simps of_result_def
      split: option.splits if_splits sum.splits prod.splits)

lemma atomic_uploads: "all_or_nothing (mem_create_upload name i algo)" "all_or_nothing (mem_append_upload lib name i offset b)"
  "all_or_nothing (mem_finish_upload lib name i offset b d)" "all_or_nothing (mem_cancel_upload name i)"
  by (auto simp: all_or_nothing_def mem_create_upload_def mem_append_upload_def mem_finish_upload_def mem_cancel_upload_def
      run_simps of_result_def Let_def split: option.splits if_splits sum.splits prod.splits)

interpretation memory: quiet_purge "memory_registry lib" for lib :: "'b mem_libs"
proof unfold_locales
  show "snd (op_mount_blob (memory_registry lib) name d from s) = s"
    if "fst (op_mount_blob (memory_registry lib) name d from s) = Inr False" for name d "from" s
    using that by (auto simp: memory_registry_def mem_mount_blob_def split: option.splits)
qed (auto simp: memory_registry_def quiet_get_blob atomic_put_manifest atomic_manifests atomic_blobs atomic_uploads
    default_purge_def default_last_purge_def mem_repositories_def mem_tags_def mem_stat_manifest_def mem_get_manifest_def
    mem_stat_blob_def mem_upload_offset_def mem_referrers_def mem_repository_summaries_def mem_repository_detail_def
    mem_tag_details_def mem_manifest_details_def mem_manifest_detail_def mem_tag_history_def mem_pull_counts_def)

text \<open>
  Over the registry in memory, a request leaves the store as it was unless its method is a write, its credential is authorized and it is
  answered with a status below 400: reads never write, and a request that is refused, fails or panics has changed nothing.
\<close>

theorem only_answered_writes:
  "sv_store (snd (app w ui (memory_registry lib) config q sv)) = sv_store sv
    \<or> rq_method q \<in> {PUT, POST, PATCH, DELETE}
      \<and> authorize (wb_to_str w) (cfg_auth config) (rq_method q) (map_of (rq_headers q) ''authorization'') = Inr ()
      \<and> (\<exists>response m. fst (app w ui (memory_registry lib) config q sv) = Returns (response, m) \<and> resp_status response < 400)"
  by (rule memory.app_writes)

end
