(* ===== verification/Summ_Session.thy ===== *)
theory Summ_Session
  imports Summ_Safety
begin

text \<open>
  An upload from its \<open>POST\<close> to its \<open>PUT\<close>. The contract of a session, as a locale: its offset is the length of what was accepted, a chunk at the
  offset is appended, and closing it stores the whole under its digest. The client lemmas are about the handlers over any such registry; the
  registry in memory is one.
\<close>

section \<open>Chunks\<close>

definition upload_limit :: "'h ctx \<Rightarrow> nat" where
  "upload_limit c = (case cfg_max_upload_bytes (cx_config c) of Some l \<Rightarrow> unat l | None \<Rightarrow> 2 ^ 64 - 1)"

text \<open>
  A request that carries the bytes \<open>x\<close> for the position \<open>off\<close>: as a stream, or as a chunk that says so. Its body arrives, within the limit of a
  request.
\<close>

definition sends :: "('b, 'h) web \<Rightarrow> 'h ctx \<times> 'b \<Rightarrow> nat \<Rightarrow> bytes \<Rightarrow> bool" where
  "sends w request off x \<longleftrightarrow>
     (let (c, b) = request in
      (ctx_header w c ''content-range'' = None
       \<or> x \<noteq> [] \<and> ctx_header w c ''content-range'' = Some (show_nat off @ ''-'' @ show_nat (off + length x - 1))
         \<and> ctx_header w c ''content-length'' = Some (show_nat (length x)))
      \<and> off + length x < 2 ^ 64 \<and> length x \<le> upload_limit c \<and> wb_to_bytes w b (upload_limit c) = Some x)"

lemma parse_chunk_between:
  assumes "a \<le> b" and "b < 2 ^ 64"
  shows "parse_chunk_range (show_nat a @ ''-'' @ show_nat b) = Inr \<lparr>range_start = word_of_nat a, range_end = word_of_nat b\<rparr>"
proof -
  have "range_text (show_nat n)" for n by (simp add: range_text_def show_nat_digits)
  then have "trim (show_nat a @ CHR ''-'' # show_nat b) = show_nat a @ CHR ''-'' # show_nat b" using trim_span by blast
  with assms show ?thesis
    by (subst chunk_accepts) (intro exI [of _ "show_nat a"] exI [of _ "show_nat b"], simp)
qed

lemma chunk_size:
  assumes "x \<noteq> []" and "off + length x < 2 ^ 64"
  shows "range_size \<lparr>range_start = word_of_nat off, range_end = word_of_nat (off + length x - 1)\<rparr> = (word_of_nat (length x) :: u64)"
proof -
  have "off + length x - 1 = off + (length x - 1)" using assms(1) by (cases x) auto
  then have "word_of_nat (off + length x - 1) - word_of_nat off + 1 = (word_of_nat (length x - 1 + 1) :: u64)"
    by simp
  with assms(1) show ?thesis by (simp add: range_size_def)
qed

lemma sends_validated:
  assumes "sends w (c, b) off x"
  shows "\<exists>len. validate_chunk w c (word_of_nat off) = Inr len
    \<and> (len = None \<or> len = Some (word_of_nat (length x)))"
proof (cases "ctx_header w c ''content-range''")
  case None
  then show ?thesis by (simp add: validate_chunk_def)
next
  case (Some header)
  with assms have x: "x \<noteq> []" "header = show_nat off @ ''-'' @ show_nat (off + length x - 1)" "off + length x < 2 ^ 64"
    and l: "ctx_header w c ''content-length'' = Some (show_nat (length x))" by (auto simp: sends_def)
  have "parse_chunk_range header = Inr \<lparr>range_start = word_of_nat off, range_end = word_of_nat (off + length x - 1)\<rparr>"
    unfolding x(2) by (rule parse_chunk_between) (use x in \<open>cases x; simp\<close>)+
  with Some l x show ?thesis
    by (simp add: validate_chunk_def parse_u64_show chunk_size del: One_nat_def)
qed

lemma sends_collected:
  assumes "sends w (c, b) off x" and "len = None \<or> len = Some (word_of_nat (length x))"
  shows "collect_body (wb_to_bytes w) (upload_body_of c b len) = Inr x"
proof -
  let ?lim = "case cfg_max_upload_bytes (cx_config c) of Some l \<Rightarrow> l | None \<Rightarrow> - 1"
  have lim: "unat ?lim = upload_limit c" by (simp add: upload_limit_def max_u64 split: option.split)
  have "length x < 2 ^ 64" using assms(1) by (auto simp: sends_def)
  then have "word_of_nat (length x) \<le> ?lim"
    using assms(1) by (simp add: word_le_nat_alt unat_of_nat lim sends_def)
  then show ?thesis
    by (intro collect_body_within) (use assms lim in \<open>auto simp: upload_body_of_def sends_def\<close>)
qed

text \<open>The requests of an upload: each carries the next bytes.\<close>

fun fits :: "('b, 'h) web \<Rightarrow> nat \<Rightarrow> ('h ctx \<times> 'b) list \<Rightarrow> bytes list \<Rightarrow> bool" where
  "fits w off [] [] = True"
| "fits w off (q # qs) (x # xs) = (sends w q off x \<and> fits w (off + length x) qs xs)"
| "fits w off _ _ = False"

fun patch_all ::
  "('b, 'h) web \<Rightarrow> ('s, 'b) registry_ops \<Rightarrow> string \<Rightarrow> string \<Rightarrow> ('h ctx \<times> 'b) list \<Rightarrow> ('s, response list) handler" where
  "patch_all w r name i [] = return_a []"
| "patch_all w r name i ((c, b) # qs) =
     bind_a (upload_patch w r c name i b) (\<lambda>y. bind_a (patch_all w r name i qs) (\<lambda>ys. return_a (y # ys)))"

text \<open>The whole conversation: \<open>POST\<close>, the \<open>PATCH\<close>es at the location it answered, and the closing \<open>PUT\<close>.\<close>

definition push_in_chunks ::
  "('b, 'h) web \<Rightarrow> ('s, 'b) registry_ops \<Rightarrow> string \<Rightarrow> 'h ctx \<times> 'b \<Rightarrow> ('h ctx \<times> 'b) list \<Rightarrow> 'h ctx \<times> 'b
    \<Rightarrow> ('s, response list) handler" where
  "push_in_chunks w r name opening qs closing =
     (let i = cx_fresh (fst opening) in
      bind_a (upload_create w r (fst opening) name (snd opening)) (\<lambda>x.
      bind_a (patch_all w r name i qs) (\<lambda>xs.
      bind_a (upload_finish w r (fst closing) name i (snd closing)) (\<lambda>y.
        return_a (x # xs @ [y])))))"

lemma below_run:
  "from_seam m sv = (case m (sv_store sv) of (x, s') \<Rightarrow> (map_err (map_halt api_error_of) x, sv\<lparr>sv_store := s'\<rparr>))"
  by (simp add: from_seam_def from_seam_raw_def run_simps split: prod.split)

section \<open>The contract of a session\<close>

locale upload_seam =
  fixes r :: "('s, 'b) registry_ops"
    and to_bytes :: "'b \<Rightarrow> nat \<Rightarrow> bytes option"
    and content :: "string \<Rightarrow> string \<Rightarrow> 's \<Rightarrow> bytes option"
    and stored :: "string \<Rightarrow> digest \<Rightarrow> 's \<Rightarrow> bytes option"
    and hashes :: "digest \<Rightarrow> bytes \<Rightarrow> bool"
  assumes offset_known: "content name i s = Some x \<Longrightarrow> op_upload_offset r name i s = (Inr (word_of_nat (length x)), s)"
    and offset_unknown: "content name i s = None \<Longrightarrow> op_upload_offset r name i s = (Inl (Fails OpsUploadUnknown), s)"
    and create: "\<exists>s'. op_create_upload r name i algo s = (Inr (), s') \<and> content name i s' = Some []"
    and append: "content name i s = Some x \<Longrightarrow> collect_body to_bytes b = Inr y
      \<Longrightarrow> \<exists>s'. op_append_upload r name i (word_of_nat (length x)) b s = (Inr (word_of_nat (length (x @ y))), s')
             \<and> content name i s' = Some (x @ y)"
    and append_stale: "content name i s = Some x \<Longrightarrow> collect_body to_bytes b = Inr y \<Longrightarrow> off \<noteq> word_of_nat (length x)
      \<Longrightarrow> op_append_upload r name i off b s = (Inl (Fails (OpsOffsetMismatch (word_of_nat (length x)))), s)"
    and finish: "content name i s = Some x \<Longrightarrow> collect_body to_bytes b = Inr y \<Longrightarrow> hashes d (x @ y)
      \<Longrightarrow> \<exists>s'. op_finish_upload r name i (word_of_nat (length x)) b d s = (Inr (), s')
             \<and> content name i s' = None \<and> stored name d s' = Some (x @ y)"
    and finish_mismatch: "content name i s = Some x \<Longrightarrow> collect_body to_bytes b = Inr y \<Longrightarrow> \<not> hashes d (x @ y)
      \<Longrightarrow> op_finish_upload r name i (word_of_nat (length x)) b d s = (Inl (Fails OpsDigestMismatch), s)"
begin

lemma patch_accepts:
  assumes "content name i (sv_store sv) = Some x" and "sends w (c, b) (length x) y" and "to_bytes = wb_to_bytes w"
  shows "\<exists>sv'. upload_patch w r c name i b sv
      = (Inr (empty_with_length 202 0 (upload_headers w name i (word_of_nat (length (x @ y))))), sv')
    \<and> content name i (sv_store sv') = Some (x @ y)"
proof -
  obtain len where len: "validate_chunk w c (word_of_nat (length x)) = Inr len" "len = None \<or> len = Some (word_of_nat (length y))"
    using sends_validated [OF assms(2)] by blast
  have body: "collect_body to_bytes (upload_body_of c b len) = Inr y"
    using sends_collected [OF assms(2) len(2)] assms(3) by simp
  obtain s' where s': "op_append_upload r name i (word_of_nat (length x)) (upload_body_of c b len) (sv_store sv)
      = (Inr (word_of_nat (length (x @ y))), s')" "content name i s' = Some (x @ y)"
    using append [OF assms(1) body] by blast
  have "upload_patch w r c name i b sv
      = (Inr (empty_with_length 202 0 (upload_headers w name i (word_of_nat (length (x @ y))))), sv\<lparr>sv_store := s'\<rparr>)"
    by (simp add: upload_patch_def run_simps below_run offset_known [OF assms(1)] s'(1) len(1))
  with s'(2) show ?thesis by simp
qed

lemma patch_all_accepts:
  assumes "content name i (sv_store sv) = Some x" and "fits w (length x) qs ys" and "to_bytes = wb_to_bytes w"
  shows "\<exists>rs sv'. patch_all w r name i qs sv = (Inr rs, sv') \<and> map resp_status rs = replicate (length qs) 202
    \<and> content name i (sv_store sv') = Some (x @ concat ys)"
  using assms(1,2)
proof (induction qs ys arbitrary: sv x rule: list_induct2')
  case (4 q qs y ys)
  obtain c b where q: "q = (c, b)" by (cases q)
  have sent: "sends w (c, b) (length x) y" and rest: "fits w (length (x @ y)) qs ys" using 4(3) q by simp_all
  obtain sv1 where p: "upload_patch w r c name i b sv
      = (Inr (empty_with_length 202 0 (upload_headers w name i (word_of_nat (length (x @ y))))), sv1)"
    and c1: "content name i (sv_store sv1) = Some (x @ y)" using patch_accepts [OF 4(2) sent assms(3)] by blast
  obtain rs sv' where "patch_all w r name i qs sv1 = (Inr rs, sv')" "map resp_status rs = replicate (length qs) 202"
    "content name i (sv_store sv') = Some ((x @ y) @ concat ys)" using 4(1) [OF c1 rest] by blast
  with p show ?case by (simp add: q run_simps empty_with_length_def)
qed (simp_all add: run_simps)

lemma finish_accepts:
  assumes "content name i (sv_store sv) = Some x" and "sends w (c, b) (length x) y" and "to_bytes = wb_to_bytes w"
    and "ctx_param c ''digest'' = Some (to_string d)" and "hashes d (x @ y)"
  shows "\<exists>sv'. upload_finish w r c name i b sv = (Inr (blob_created w name d), sv')
    \<and> content name i (sv_store sv') = None \<and> stored name d (sv_store sv') = Some (x @ y)"
proof -
  obtain len where len: "validate_chunk w c (word_of_nat (length x)) = Inr len" "len = None \<or> len = Some (word_of_nat (length y))"
    using sends_validated [OF assms(2)] by blast
  have body: "collect_body to_bytes (upload_body_of c b len) = Inr y"
    using sends_collected [OF assms(2) len(2)] assms(3) by simp
  obtain s' where s': "op_finish_upload r name i (word_of_nat (length x)) (upload_body_of c b len) d (sv_store sv) = (Inr (), s')"
    "content name i s' = None" "stored name d s' = Some (x @ y)" using finish [OF assms(1) body assms(5)] by blast
  have "http_parse_digest (to_string d) = Returns (Inr d)" by (simp add: http_parse_digest_Inr)
  then have "upload_finish w r c name i b sv = (Inr (blob_created w name d), sv\<lparr>sv_store := s'\<rparr>)"
    by (simp add: upload_finish_def assms(4) parse_digest_as_def run_simps below_run offset_known [OF assms(1)] s'(1) len(1))
  with s' show ?thesis by simp
qed

text \<open>Whatever way the content is cut up and sent, it is stored whole.\<close>

lemma chunks_are_stored:
  assumes "cx_method c0 = POST" and "ctx_param c0 ''mount'' = None" and "ctx_param c0 ''digest'' = None"
    and "digest_algorithm c0 = Inr algo" and "fits w 0 qs ys" and "sends w (c1, b1) (length (concat ys)) y"
    and "ctx_param c1 ''digest'' = Some (to_string d)" and "hashes d (concat ys @ y)" and "to_bytes = wb_to_bytes w"
  shows "\<exists>rs sv'. push_in_chunks w r name (c0, b0) qs (c1, b1) sv = (Inr (rs @ [blob_created w name d]), sv')
    \<and> map resp_status rs = replicate (Suc (length qs)) 202
    \<and> content name (cx_fresh c0) (sv_store sv') = None \<and> stored name d (sv_store sv') = Some (concat ys @ y)"
proof -
  let ?i = "cx_fresh c0"
  obtain s1 where s1: "op_create_upload r name ?i algo (sv_store sv) = (Inr (), s1)" "content name ?i s1 = Some []"
    using create by blast
  let ?sv1 = "sv\<lparr>sv_store := s1\<rparr>"
  obtain x0 where x0: "upload_create w r c0 name b0 sv = (Inr x0, ?sv1)" "resp_status x0 = 202"
    using assms(1-4) s1(1) by (simp add: upload_create_def run_simps below_run empty_with_length_def)
  have "content name ?i (sv_store ?sv1) = Some []" "fits w (length ([] :: bytes)) qs ys" using s1(2) assms(5) by simp_all
  from patch_all_accepts [OF this assms(9)]
  obtain rs sv2 where rs: "patch_all w r name ?i qs ?sv1 = (Inr rs, sv2)" "map resp_status rs = replicate (length qs) 202"
    "content name ?i (sv_store sv2) = Some (concat ys)" by auto
  from finish_accepts [OF rs(3) assms(6,9,7,8)]
  obtain sv' where f: "upload_finish w r c1 name ?i b1 sv2 = (Inr (blob_created w name d), sv')"
    "content name ?i (sv_store sv') = None" "stored name d (sv_store sv') = Some (concat ys @ y)" by blast
  have "push_in_chunks w r name (c0, b0) qs (c1, b1) sv = (Inr ((x0 # rs) @ [blob_created w name d]), sv')"
    using x0(1) rs(1) f(1) by (simp add: push_in_chunks_def Let_def run_simps)
  moreover have "map resp_status (x0 # rs) = replicate (Suc (length qs)) 202" using x0(2) rs(2) by simp
  ultimately show ?thesis using f(2,3) by blast
qed

text \<open>A chunk for another position is refused, and the session stays where it was.\<close>

lemma chunk_refused:
  assumes "content name i (sv_store sv) = Some x" and "a \<le> b" and "b < 2 ^ 64" and "a \<noteq> length x" and "length x < 2 ^ 64"
    and "ctx_header w c ''content-range'' = Some (show_nat a @ ''-'' @ show_nat b)"
    and "ctx_header w c ''content-length'' = Some (show_nat (b - a + 1))" and "b - a + 1 < 2 ^ 64"
  shows "upload_patch w r c name i body sv
      = (Inl (Fails (out_of_order (word_of_nat (length x)) (word_of_nat a))), sv)"
    and "ctx_param c ''digest'' = Some (to_string d)
      \<Longrightarrow> upload_finish w r c name i body sv = (Inl (Fails (out_of_order (word_of_nat (length x)) (word_of_nat a))), sv)"
proof -
  have "word_of_nat (b - a + 1) = (word_of_nat b - word_of_nat a + 1 :: u64)" using assms(2) by (simp add: of_nat_diff)
  moreover have "(word_of_nat a :: u64) \<noteq> word_of_nat (length x)"
    using assms(2-5) by (auto simp: unat_of_nat dest!: arg_cong [where f = unat])
  ultimately have v: "validate_chunk w c (word_of_nat (length x)) = Inl (out_of_order (word_of_nat (length x)) (word_of_nat a))"
    using assms parse_chunk_between [OF assms(2,3)]
    by (simp add: validate_chunk_def parse_u64_show range_size_def del: One_nat_def)
  then show "upload_patch w r c name i body sv
      = (Inl (Fails (out_of_order (word_of_nat (length x)) (word_of_nat a))), sv)"
    by (simp add: upload_patch_def run_simps below_run offset_known [OF assms(1)])
  have "http_parse_digest (to_string d) = Returns (Inr d)" by (simp add: http_parse_digest_Inr)
  then show "ctx_param c ''digest'' = Some (to_string d)
      \<Longrightarrow> upload_finish w r c name i body sv = (Inl (Fails (out_of_order (word_of_nat (length x)) (word_of_nat a))), sv)"
    by (simp add: upload_finish_def parse_digest_as_def run_simps below_run offset_known [OF assms(1)] v)
qed

text \<open>The status of a session names its last byte, which is what a client resumes from.\<close>

lemma status_answers:
  assumes "content name i (sv_store sv) = Some x"
  shows "upload_status w r name i sv
      = (Inr (empty_with_length 204 0 (upload_headers w name i (word_of_nat (length x)))), sv)"
  by (simp add: upload_status_def run_simps below_run offset_known [OF assms])

end

section \<open>The registry in memory\<close>

definition mem_content :: "string \<Rightarrow> string \<Rightarrow> mem_state \<Rightarrow> bytes option" where
  "mem_content name i s =
     (case RBT.lookup (mem_uploads s) i of Some u \<Rightarrow> if mu_repo u = name then Some (mu_buffer u) else None | None \<Rightarrow> None)"

definition mem_stored :: "string \<Rightarrow> digest \<Rightarrow> mem_state \<Rightarrow> bytes option" where
  "mem_stored name d s = Option.bind (RBT.lookup (mem_repos s) name) (\<lambda>r. RBT.lookup (repo_blobs r) d)"

lemma mem_session_content:
  "mem_session name i s = (case mem_content name i s of None \<Rightarrow> Inl OpsUploadUnknown | Some x \<Rightarrow> Inr \<lparr>mu_repo = name, mu_buffer = x\<rparr>)"
  by (auto simp: mem_session_def mem_content_def split: option.split)

lemma mem_find_blob_stored: "mem_find_blob name d s = ok_or OpsBlobUnknown (mem_stored name d s)"
  by (cases "RBT.lookup (mem_repos s) name") (simp_all add: mem_find_blob_def mem_stored_def mem_repo_of_def)

lemma mem_stored_store [simp]:
  "mem_stored n e (store_blob name d x s) = (if n = name \<and> e = d then Some x else mem_stored n e s)"
  by (auto simp: mem_stored_def store_blob_def new_repo_def bt_get_or_def split: option.split)

lemma mem_uploads_store [simp]: "mem_uploads (store_blob name d x s) = mem_uploads s"
  by (simp add: store_blob_def)

interpretation sessions: upload_seam "memory_registry lib" "ml_to_bytes lib" mem_content mem_stored
    "\<lambda>d x. hash_like lib x d = d" for lib :: "'b mem_libs"
proof unfold_locales
  fix name i algo s
  show "\<exists>s'. op_create_upload (memory_registry lib) name i algo s = (Inr (), s') \<and> mem_content name i s' = Some []"
    by (simp add: memory_registry_def mem_create_upload_def mem_content_def)
next
  fix name i s x y and b :: "'b upload_body"
  assume c: "mem_content name i s = Some x" and b: "collect_body (ml_to_bytes lib) b = Inr y"
  show "\<exists>s'. op_append_upload (memory_registry lib) name i (word_of_nat (length x)) b s = (Inr (word_of_nat (length (x @ y))), s')
      \<and> mem_content name i s' = Some (x @ y)"
    using c b by (simp add: memory_registry_def mem_append_upload_def run_simps session_at_def mem_session_content Let_def)
      (simp add: mem_content_def)
qed (auto simp: memory_registry_def mem_upload_offset_def mem_read_def mem_session_content mem_append_upload_def run_simps
    session_at_def Let_def mem_finish_upload_def, auto simp: mem_content_def split: option.splits if_splits)

section \<open>Uploads over the registry in memory\<close>

text \<open>
  C12. However a blob is cut up and sent over the registry in memory, in streams or in ranged chunks and the rest in the closing \<open>PUT\<close>, every
  request is answered 202 and the last one 201 with the location of the blob; then the session is gone and the blob is the
  concatenation of what was sent. The digest that closes the upload has to be the one of the whole.
\<close>

theorem chunks_assembled:
  assumes "cx_method c0 = POST" and "ctx_param c0 ''mount'' = None" and "ctx_param c0 ''digest'' = None"
    and "digest_algorithm c0 = Inr algo" and "fits w 0 qs ys" and "sends w (c1, b1) (length (concat ys)) y"
    and "ctx_param c1 ''digest'' = Some (to_string d)" and "hash_like lib (concat ys @ y) d = d"
    and "ml_to_bytes lib = wb_to_bytes w"
  shows "\<exists>rs sv'. push_in_chunks w (memory_registry lib) name (c0, b0) qs (c1, b1) sv
        = (Inr (rs @ [blob_created w name d]), sv')
    \<and> map resp_status rs = replicate (Suc (length qs)) 202
    \<and> mem_content name (cx_fresh c0) (sv_store sv') = None \<and> mem_stored name d (sv_store sv') = Some (concat ys @ y)"
  using sessions.chunks_are_stored [OF assms] .

text \<open>Concrete libraries: a body is its bytes, a header its text, every hash the same.\<close>

definition plain_web :: "(bytes, string) web" where
  "plain_web =
     \<lparr>wb_to_str = Some, wb_header_ok = (\<lambda>_. True), wb_to_bytes = (\<lambda>b n. if length b \<le> n then Some b else None),
      wb_json = (\<lambda>_. Inr []), wb_error_json = (\<lambda>_. [])\<rparr>"

definition zero_libs :: "bytes mem_libs" where
  "zero_libs =
     \<lparr>ml_sha256 = (\<lambda>_. arr32 (replicate 32 0)), ml_sha512 = (\<lambda>_. arr64 (replicate 64 0)), ml_json = (\<lambda>_. None),
      ml_to_bytes = (\<lambda>b n. if length b \<le> n then Some b else None)\<rparr>"

definition zero_digest :: digest where "zero_digest = Sha256 (arr32 (replicate 32 0))"

definition plain_ctx :: "http_method \<Rightarrow> (string \<times> string) list \<Rightarrow> headers \<Rightarrow> string ctx" where
  "plain_ctx method query hs =
     \<lparr>cx_method = method, cx_path = [], cx_query = query, cx_headers = hs, cx_config = default_server_config, cx_now = 0,
      cx_fresh = ''u1''\<rparr>"

definition fresh_server :: "mem_state server" where
  "fresh_server = \<lparr>sv_store = new_memory, sv_pulls = new_counters\<rparr>"

lemma hash_zero [simp]: "hash_like zero_libs x zero_digest = zero_digest"
  by (simp add: hash_like_def zero_digest_def zero_libs_def)

lemma plain_ctx_simps [simp]:
  "cx_method (plain_ctx m q hs) = m" "ctx_param (plain_ctx m q hs) = first q" "cx_headers (plain_ctx m q hs) = hs"
  "ctx_header plain_web (plain_ctx m q hs) = map_of hs" "cx_config (plain_ctx m q hs) = default_server_config"
  "cx_fresh (plain_ctx m q hs) = ''u1''" "cx_query (plain_ctx m q hs) = q" "cx_now (plain_ctx m q hs) = 0"
  by (auto simp: plain_ctx_def ctx_param_def ctx_header_def plain_web_def fun_eq_iff)

lemma small_numbers: "show_nat 0 = ''0''" "show_nat 1 = ''1''" "show_nat 2 = ''2''" "show_nat (Suc 0) = ''1''"
  "show_nat (Suc (Suc 0)) = ''2''"
  by code_simp+

lemma plain_sends:
  assumes "x = b" and "off + length x < 2 ^ 30"
    and "map_of hs ''content-range'' = None
      \<or> x \<noteq> [] \<and> map_of hs ''content-range'' = Some (show_nat off @ ''-'' @ show_nat (off + length x - 1))
        \<and> map_of hs ''content-length'' = Some (show_nat (length x))"
  shows "sends plain_web (plain_ctx m q hs, b) off x"
  using assms
  by (simp add: sends_def upload_limit_def default_server_config_def DEFAULT_MAX_UPLOAD_BYTES_def) (simp add: plain_web_def)

theorem chunks_assembled_witness:
  "\<exists>rs sv'. push_in_chunks plain_web (memory_registry zero_libs) ''a'' (plain_ctx POST [] [], [])
      [(plain_ctx PATCH [] [], [1, 2]), (plain_ctx PATCH [] [(''content-range'', ''2-2''), (''content-length'', ''1'')], [3])]
      (plain_ctx PUT [(''digest'', to_string zero_digest)] [], [4]) fresh_server
      = (Inr (rs @ [blob_created plain_web ''a'' zero_digest]), sv')
    \<and> map resp_status rs = [202, 202, 202] \<and> mem_stored ''a'' zero_digest (sv_store sv') = Some [1, 2, 3, 4]"
proof -
  let ?qs = "[(plain_ctx PATCH [] [], [1, 2 :: byte]),
    (plain_ctx PATCH [] [(''content-range'', ''2-2''), (''content-length'', ''1'')], [3])]"
  have "sends plain_web (?qs ! 1) 2 [3]" by simp (rule plain_sends, simp_all add: small_numbers)
  moreover have "sends plain_web (?qs ! 0) 0 [1, 2]" by simp (rule plain_sends, simp_all)
  ultimately have "fits plain_web 0 ?qs [[1, 2], [3]]" by (simp add: numeral_2_eq_2)
  moreover have "sends plain_web (plain_ctx PUT [(''digest'', to_string zero_digest)] [], [4]) (length (concat [[1, 2], [3 :: byte]])) [4]"
    by (rule plain_sends) simp_all
  moreover have "ml_to_bytes zero_libs = wb_to_bytes plain_web" by (simp add: zero_libs_def plain_web_def)
  ultimately have "\<exists>rs sv'. push_in_chunks plain_web (memory_registry zero_libs) ''a'' (plain_ctx POST [] [], []) ?qs
      (plain_ctx PUT [(''digest'', to_string zero_digest)] [], [4]) fresh_server
      = (Inr (rs @ [blob_created plain_web ''a'' zero_digest]), sv')
    \<and> map resp_status rs = replicate (Suc (length ?qs)) 202
    \<and> mem_content ''a'' (cx_fresh (plain_ctx POST [] [])) (sv_store sv') = None
    \<and> mem_stored ''a'' zero_digest (sv_store sv') = Some (concat [[1, 2], [3]] @ [4])"
    by (intro chunks_assembled [where algo = "''sha256''"]) (simp_all add: first_def digest_algorithm_def)
  then show ?thesis by (simp add: numeral_3_eq_3) (elim exE conjE, intro exI conjI, assumption+)
qed

text \<open>
  C30. A \<open>PATCH\<close> or closing \<open>PUT\<close> to the handlers over the registry in memory, with a well-formed chunk for another position than the end
  of the session, is answered 416 with the position that was expected, and nothing at all has changed; the status of the session then
  answers the end of what was accepted.
\<close>

theorem chunk_out_of_order:
  assumes "mem_content name i (sv_store sv) = Some x" and "a \<le> b" and "b < 2 ^ 64" and "a \<noteq> length x"
    and "length x < 2 ^ 64" and "ctx_header w c ''content-range'' = Some (show_nat a @ ''-'' @ show_nat b)"
    and "ctx_header w c ''content-length'' = Some (show_nat (b - a + 1))" and "b - a + 1 < 2 ^ 64"
    and "cx_method c = PATCH \<or> cx_method c = PUT \<and> ctx_param c ''digest'' = Some (to_string d)"
  shows "(\<exists>e. upload_endpoint w (memory_registry lib) c name i body sv = (Inl (Fails e), sv) \<and> err_status e = 416
      \<and> err_code e = CodeBlobUploadInvalid
      \<and> err_detail e = Some (''expected the chunk to start at '' @ show_nat (length x) @ '', got '' @ show_nat a))
    \<and> (\<exists>resp. upload_endpoint w (memory_registry lib) (c\<lparr>cx_method := GET\<rparr>) name i body sv = (Inr resp, sv)
        \<and> resp_status resp = 204
        \<and> map_of (resp_headers resp) ''range'' = Some (header_value w (upload_range_header (word_of_nat (length x)))))"
proof -
  let ?e = "out_of_order (word_of_nat (length x)) (word_of_nat a)"
  have "a < 2 ^ 64" using assms(2,3) by simp
  then have e: "err_status ?e = 416" "err_code ?e = CodeBlobUploadInvalid"
    "err_detail ?e = Some (''expected the chunk to start at '' @ show_nat (length x) @ '', got '' @ show_nat a)"
    using assms(5) by (simp_all add: out_of_order_def error_defs unat_of_nat)
  have "upload_endpoint w (memory_registry lib) c name i body sv = (Inl (Fails ?e), sv)"
    using assms(9) sessions.chunk_refused [OF assms(1-8)] by (auto simp: upload_endpoint_def)
  moreover have "upload_endpoint w (memory_registry lib) (c\<lparr>cx_method := GET\<rparr>) name i body sv
      = (Inr (empty_with_length 204 0 (upload_headers w name i (word_of_nat (length x)))), sv)"
    using sessions.status_answers [OF assms(1)] by (simp add: upload_endpoint_def)
  ultimately show ?thesis using e by (simp add: empty_with_length_def upload_headers_def)
qed

theorem chunk_out_of_order_witness:
  "let s = new_memory\<lparr>mem_uploads := RBT.insert ''u1'' \<lparr>mu_repo = ''a'', mu_buffer = [1, 2]\<rparr> RBT.empty\<rparr>;
       sv = fresh_server\<lparr>sv_store := s\<rparr>;
       c = plain_ctx PATCH [] [(''content-range'', ''0-1''), (''content-length'', ''2'')] in
   \<exists>e. upload_endpoint plain_web (memory_registry zero_libs) c ''a'' ''u1'' [5, 6] sv = (Inl (Fails e), sv) \<and> err_status e = 416"
proof -
  let ?sv = "fresh_server\<lparr>sv_store := new_memory\<lparr>mem_uploads := RBT.insert ''u1'' \<lparr>mu_repo = ''a'', mu_buffer = [1, 2]\<rparr> RBT.empty\<rparr>\<rparr>"
  let ?c = "plain_ctx PATCH [] [(''content-range'', ''0-1''), (''content-length'', ''2'')]"
  have "mem_content ''a'' ''u1'' (sv_store ?sv) = Some [1, 2]" by (simp add: mem_content_def)
  then have "\<exists>e. upload_endpoint plain_web (memory_registry zero_libs) ?c ''a'' ''u1'' [5, 6] ?sv = (Inl (Fails e), ?sv)
      \<and> err_status e = 416 \<and> err_code e = CodeBlobUploadInvalid
      \<and> err_detail e = Some (''expected the chunk to start at '' @ show_nat (length [1, 2 :: byte]) @ '', got '' @ show_nat 0)"
    by (intro conjunct1 [OF chunk_out_of_order [where b = 1]]) (simp_all add: small_numbers)
  then have "\<exists>e. upload_endpoint plain_web (memory_registry zero_libs) ?c ''a'' ''u1'' [5, 6] ?sv = (Inl (Fails e), ?sv)
      \<and> err_status e = 416" by blast
  then show ?thesis by (simp only: Let_def)
qed

end
