(* ===== verification/Summ_Contents.thy ===== *)
theory Summ_Contents
  imports Summ_Session
begin

text \<open>
  What the registry in memory keeps and gives back: blobs and their windows, manifests under their digest and their tags, deletions, and the
  invariant of every state that requests reach.
\<close>

section \<open>Blobs\<close>

text \<open>What \<open>HeaderValue::from_str\<close> accepts at least: visible characters and spaces.\<close>

definition visible :: "char \<Rightarrow> bool" where
  "visible c \<longleftrightarrow> is_graphic c \<or> c = CHR '' ''"

definition plain_headers :: "('b, 'h) web \<Rightarrow> bool" where
  "plain_headers w \<longleftrightarrow> (\<forall>v. list_all visible v \<longrightarrow> wb_header_ok w v)"

lemma plain_header: "plain_headers w \<Longrightarrow> list_all visible v \<Longrightarrow> wb_header_ok w v"
  by (simp add: plain_headers_def)

lemma show_nat_plain [simp]: "list_all visible (show_nat n)"
  by (auto simp: list_all_iff show_nat_digits is_graphic_digit visible_def)

text \<open>A window that starts where it may is cut out without a panic.\<close>

lemma window_of_inside:
  assumes "range_start span \<le> range_end span" and "range_end span < (word_of_nat (length x) :: u64)" and "length x < 2 ^ 64"
  shows "window_of x (Some span)
    = Returns (take (unat (range_end span) - unat (range_start span) + 1) (drop (unat (range_start span)) x))"
proof -
  let ?n = "word_of_nat (length x) :: u64"
  have n: "unat ?n = length x" using assms(3) by (simp add: unat_of_nat)
  have le: "unat (range_start span) \<le> unat (range_end span)" and lt: "unat (range_end span) < length x"
    using assms(1,2) n by (simp_all add: word_le_nat_alt word_less_nat_alt)
  have "unat (range_end span + 1) = unat (range_end span) + 1"
    using lt assms(3) by (subst unat_add_lem [THEN iffD1]) auto
  then have "unat (min (range_end span + 1) ?n) = unat (range_end span) + 1" "unat (min (range_start span) ?n) = unat (range_start span)"
    using le lt n by (auto simp: min_def word_le_nat_alt)
  moreover have "Suc (unat (range_end span)) - unat (range_start span) = Suc (unat (range_end span) - unat (range_start span))"
    using le by simp
  ultimately show ?thesis using le by (simp add: window_of_def Let_def)
qed

definition blob_headers :: "('b, 'h) web \<Rightarrow> digest \<Rightarrow> headers" where
  "blob_headers w d =
     [(''content-type'', MEDIA_TYPE_OCTET_STREAM), (''accept-ranges'', ''bytes''), (DOCKER_CONTENT_DIGEST, digest_header w d)]"

text \<open>The answer to a download of a stored blob, by what its \<open>Range\<close> asks for.\<close>

definition blob_answer :: "('b, 'h) web \<Rightarrow> digest \<Rightarrow> bytes \<Rightarrow> range_outcome \<Rightarrow> api_error halt + response" where
  "blob_answer w d x outcome =
     (case outcome of
        Whole \<Rightarrow>
          Inr \<lparr>resp_status = 200, resp_headers = blob_headers w d @ [(''content-length'', show_nat (length x))],
               resp_body = Content x\<rparr>
      | Partial span \<Rightarrow>
          let a = unat (range_start span); b = unat (range_end span); part = take (b - a + 1) (drop a x) in
          Inr \<lparr>resp_status = 206,
               resp_headers = blob_headers w d @ [(''content-length'', show_nat (length part)),
                 (''content-range'', ''bytes '' @ show_nat a @ ''-'' @ show_nat b @ ''/'' @ show_nat (length x))],
               resp_body = Content part\<rparr>
      | Unsatisfiable \<Rightarrow>
          Inl (Fails (with_header ''content-range'' (''bytes */'' @ show_nat (length x)) (status_only 416))))"

lemma blob_get_stored:
  assumes "mem_stored name d (sv_store sv) = Some x" and "length x < 2 ^ 64" and "plain_headers w"
  shows "blob_get w (memory_registry lib) c name d sv
    = (map_sum id (\<lambda>resp. (resp, meter_blob (cx_now c) name (sv_pulls sv)))
        (blob_answer w d x (case ctx_header w c ''range'' of Some t \<Rightarrow> parse_range t (word_of_nat (length x)) | None \<Rightarrow> Whole)), sv)"
proof -
  let ?n = "word_of_nat (length x) :: u64"
  let ?out = "case ctx_header w c ''range'' of Some t \<Rightarrow> parse_range t ?n | None \<Rightarrow> Whole"
  have n: "unat ?n = length x" using assms(2) by (simp add: unat_of_nat)
  have find: "mem_find_blob name d (sv_store sv) = Inr x" using assms(1) by (simp add: mem_find_blob_stored)
  have stat: "op_stat_blob (memory_registry lib) name d (sv_store sv) = (Inr ?n, sv_store sv)"
    by (simp add: memory_registry_def mem_stat_blob_def mem_read_def find)
  have get: "op_get_blob (memory_registry lib) name d v (sv_store sv)
      = (case window_of x v of Panics \<Rightarrow> (Inl Panicking, sv_store sv)
         | Returns part \<Rightarrow> (Inr \<lparr>bd_total_size = ?n, bd_window = v, bd_body = part\<rparr>, sv_store sv))" for v
    by (simp add: memory_registry_def mem_get_blob_def find)
  have ok: "wb_header_ok w MEDIA_TYPE_OCTET_STREAM" "wb_header_ok w ''bytes''"
    "wb_header_ok w (''bytes */'' @ show_nat m)" "wb_header_ok w (''bytes '' @ show_nat a @ ''-'' @ show_nat b @ ''/'' @ show_nat m)"
    for m a b
    by (rule plain_header [OF assms(3)]; simp add: MEDIA_TYPE_OCTET_STREAM_def visible_def is_graphic_def)+
  note ok = ok ok(3,4) [simplified]
  show ?thesis
  proof (cases ?out)
    case Whole
    then show ?thesis
      by (simp add: blob_get_def run_simps below_run stat get window_of_def blob_answer_def Let_def n build_def text_header_def
          value_header_def ok blob_headers_def)
  next
    case (Partial span)
    then obtain t where "parse_range t ?n = Partial span" by (auto split: option.splits)
    from parse_range_window [OF this]
    have span: "range_start span \<le> range_end span" "range_end span < ?n" by simp_all
    let ?a = "unat (range_start span)" and ?b = "unat (range_end span)"
    have "?a \<le> ?b" "?b < length x" using span n by (simp_all add: word_le_nat_alt word_less_nat_alt)
    then have len: "length (take (?b - ?a + 1) (drop ?a x)) = ?b - ?a + 1" by simp
    have size: "unat (range_size span) = ?b - ?a + 1" by (rule unat_range_size [OF span])
    show ?thesis
      using Partial len
      by (simp add: blob_get_def run_simps below_run stat get window_of_inside [OF span assms(2)] blob_answer_def Let_def n
          build_def text_header_def value_header_def ok blob_headers_def size)
  next
    case Unsatisfiable
    then show ?thesis
      by (simp add: blob_get_def run_simps below_run stat blob_answer_def Let_def n ok)
  qed
qed

lemma blob_endpoint_digest:
  "blob_endpoint w r c name (to_string d) =
     (case cx_method c of
        GET \<Rightarrow> blob_get w r c name d
      | HEAD \<Rightarrow> unmetered (blob_head w r name d)
      | DELETE \<Rightarrow> unmetered (blob_delete r name d)
      | _ \<Rightarrow> fail_a (Fails (method_not_allowed ''GET, HEAD, DELETE'')))"
proof -
  have "http_parse_digest (to_string d) = Returns (Inr d)" by (simp add: http_parse_digest_Inr)
  then show ?thesis by (simp add: blob_endpoint_def parse_digest_as_def fun_eq_iff run_simps)
qed

text \<open>
  C31. A download of a stored blob from the registry in memory answers the whole blob, or exactly the window that its \<open>Range\<close> asks for with its
  place in the whole, or 416 with the size; the content length is the length of what is sent. \<open>HEAD\<close> answers the whole blob's headers, a blob
  that is not stored in the repository is 404, and nothing panics.
\<close>

theorem blob_window_served:
  assumes "length x < 2 ^ 64" and "plain_headers w"
    and "mem_stored name d (sv_store sv) = Some x" and "mem_stored other d (sv_store sv) = None"
  shows "blob_endpoint w (memory_registry lib) (c\<lparr>cx_method := GET\<rparr>) name (to_string d) sv
      = (map_sum id (\<lambda>resp. (resp, meter_blob (cx_now c) name (sv_pulls sv)))
          (blob_answer w d x
            (case ctx_header w c ''range'' of Some t \<Rightarrow> parse_range t (word_of_nat (length x)) | None \<Rightarrow> Whole)), sv)
    \<and> blob_endpoint w (memory_registry lib) (c\<lparr>cx_method := HEAD\<rparr>) name (to_string d) sv
      = (Inr (\<lparr>resp_status = 200, resp_headers = (''content-length'', show_nat (length x)) # blob_headers w d,
               resp_body = NoBody\<rparr>, None), sv)
    \<and> blob_endpoint w (memory_registry lib) (c\<lparr>cx_method := GET\<rparr>) other (to_string d) sv
      = (Inl (Fails (new_error CodeBlobUnknown)), sv)"
proof -
  have find: "mem_find_blob name d (sv_store sv) = Inr x" "mem_find_blob other d (sv_store sv) = Inl OpsBlobUnknown"
    using assms(3,4) by (simp_all add: mem_find_blob_stored)
  have h: "ctx_header w (c\<lparr>cx_method := m\<rparr>) = ctx_header w c" "cx_now (c\<lparr>cx_method := m\<rparr>) = cx_now c" for m
    by (simp_all add: ctx_header_def fun_eq_iff)
  show ?thesis
    using blob_get_stored [OF assms(3,1,2), of lib "c\<lparr>cx_method := GET\<rparr>"] assms(1) find
    by (simp add: blob_endpoint_digest h unmetered_def blob_head_def blob_get_def run_simps below_run memory_registry_def
        mem_stat_blob_def mem_read_def empty_with_length_def blob_headers_def unat_of_nat api_error_of_def)
qed

definition held :: "bytes \<Rightarrow> mem_state server" where
  "held x = fresh_server\<lparr>sv_store := store_blob ''a'' zero_digest x new_memory\<rparr>"

theorem blob_window_served_witness:
  "fst (blob_endpoint plain_web (memory_registry zero_libs) (plain_ctx GET [] [(''range'', ''bytes=1-2'')]) ''a''
       (to_string zero_digest) (held [5, 6, 7, 8]))
     = Inr (\<lparr>resp_status = 206, resp_headers = blob_headers plain_web zero_digest @
              [(''content-length'', ''2''), (''content-range'', ''bytes 1-2/4'')], resp_body = Content [6, 7]\<rparr>,
            meter_blob 0 ''a'' new_counters)"
proof -
  let ?c = "plain_ctx GET [] [(''range'', ''bytes=1-2'')]"
  have sv: "mem_stored ''a'' zero_digest (sv_store (held [5, 6, 7, 8])) = Some [5, 6, 7, 8]"
    "mem_stored ''b'' zero_digest (sv_store (held [5, 6, 7, 8])) = None" "sv_pulls (held [5, 6, 7, 8]) = new_counters"
    by (simp_all add: held_def fresh_server_def) (simp add: mem_stored_def new_memory_def)
  have w: "plain_headers plain_web" by (simp add: plain_headers_def plain_web_def)
  have c: "?c\<lparr>cx_method := GET\<rparr> = ?c" by (simp add: plain_ctx_def)
  have range: "parse_range ''bytes=1-2'' 4 = Partial \<lparr>range_start = 1, range_end = 2\<rparr>"
    using parse_range_between [of 1 2 4] by (simp add: small_numbers)
  have "blob_endpoint plain_web (memory_registry zero_libs) ?c ''a'' (to_string zero_digest) (held [5, 6, 7, 8])
      = (map_sum id (\<lambda>resp. (resp, meter_blob (cx_now ?c) ''a'' new_counters))
          (blob_answer plain_web zero_digest [5, 6, 7, 8] (Partial \<lparr>range_start = 1, range_end = 2\<rparr>)), held [5, 6, 7, 8])"
    using conjunct1 [OF blob_window_served [OF _ w sv(1,2), of zero_libs ?c]] sv(3) range c by simp
  moreover have "show_nat (Suc (Suc (Suc (Suc 0)))) = ''4''" by code_simp
  ultimately show ?thesis by (simp add: blob_answer_def Let_def small_numbers)
qed

section \<open>The contents of a state\<close>

definition mem_manifest :: "string \<Rightarrow> digest \<Rightarrow> mem_state \<Rightarrow> mem_manifest_entry option" where
  "mem_manifest name d s = Option.bind (RBT.lookup (mem_repos s) name) (\<lambda>r. RBT.lookup (repo_manifests r) d)"

definition mem_tag :: "string \<Rightarrow> string \<Rightarrow> mem_state \<Rightarrow> digest option" where
  "mem_tag name t s = Option.bind (RBT.lookup (mem_repos s) name) (\<lambda>r. RBT.lookup (repo_tags r) t)"

lemmas view_defs = mem_manifest_def mem_tag_def mem_stored_def

text \<open>The history and the counters of a repository; one that does not exist has none.\<close>

definition mem_history :: "string \<Rightarrow> mem_state \<Rightarrow> tag_event_info list" where
  "mem_history name s = (case RBT.lookup (mem_repos s) name of None \<Rightarrow> [] | Some r \<Rightarrow> repo_history r)"

definition mem_counter :: "string \<Rightarrow> counter_scope \<times> u16 \<Rightarrow> mem_state \<Rightarrow> counter_bucket option" where
  "mem_counter name k s = Option.bind (RBT.lookup (mem_repos s) name) (\<lambda>r. RBT.lookup (repo_counters r) k)"

text \<open>The events that tags get one after the other, each a tick later.\<close>

fun tag_events :: "u64 \<Rightarrow> digest \<Rightarrow> bool \<Rightarrow> string \<times> u64 \<Rightarrow> string list \<Rightarrow> tag_event_info list" where
  "tag_events clock d deleted what [] = []"
| "tag_events clock d deleted what (t # ts) =
     \<lparr>ev_at = clock + 1, ev_tag = t, ev_digest = d, ev_deleted = deleted, ev_media_type = fst what, ev_size = snd what\<rparr>
       # tag_events (clock + 1) d deleted what ts"

text \<open>What an event says of the manifest it is about.\<close>

definition described :: "mem_manifest_entry option \<Rightarrow> string \<times> u64" where
  "described found = (case found of Some m \<Rightarrow> (sm_media_type m, word_of_nat (length (sm_body m))) | None \<Rightarrow> ([], 0))"

lemma new_repo_simps [simp]:
  "repo_history new_repo = []" "repo_counters new_repo = RBT.empty"
  by (simp_all add: new_repo_def)

lemma new_repo_views [simp]:
  "repo_tags new_repo = RBT.empty" "repo_manifests new_repo = RBT.empty" "mem_repo.repo_blobs new_repo = RBT.empty"
  by (simp_all add: new_repo_def)

text \<open>The views of a state in which one repository was replaced.\<close>

lemma views_insert:
  "mem_manifest n e (s\<lparr>mem_repos := RBT.insert name r (mem_repos s)\<rparr>)
     = (if n = name then RBT.lookup (repo_manifests r) e else mem_manifest n e s)"
  "mem_tag n t (s\<lparr>mem_repos := RBT.insert name r (mem_repos s)\<rparr>)
     = (if n = name then RBT.lookup (repo_tags r) t else mem_tag n t s)"
  "mem_stored n e (s\<lparr>mem_repos := RBT.insert name r (mem_repos s)\<rparr>)
     = (if n = name then RBT.lookup (mem_repo.repo_blobs r) e else mem_stored n e s)"
  by (simp_all add: view_defs)

lemma views_fields [simp]:
  "mem_manifest n e (s\<lparr>mem_uploads := u\<rparr>) = mem_manifest n e s" "mem_manifest n e (s\<lparr>mem_clock := k\<rparr>) = mem_manifest n e s"
  "mem_tag n t (s\<lparr>mem_uploads := u\<rparr>) = mem_tag n t s" "mem_tag n t (s\<lparr>mem_clock := k\<rparr>) = mem_tag n t s"
  "mem_stored n e (s\<lparr>mem_uploads := u\<rparr>) = mem_stored n e s" "mem_stored n e (s\<lparr>mem_clock := k\<rparr>) = mem_stored n e s"
  by (simp_all add: view_defs)

lemma views_get_or:
  "RBT.lookup (repo_manifests (bt_get_or new_repo (mem_repos s) name)) e = mem_manifest name e s"
  "RBT.lookup (repo_tags (bt_get_or new_repo (mem_repos s) name)) t = mem_tag name t s"
  "RBT.lookup (mem_repo.repo_blobs (bt_get_or new_repo (mem_repos s) name)) e = mem_stored name e s"
  by (cases "RBT.lookup (mem_repos s) name"; simp add: view_defs)+

lemma logs_insert:
  "mem_history n (s\<lparr>mem_repos := RBT.insert name r (mem_repos s), mem_clock := c\<rparr>) = (if n = name then repo_history r else mem_history n s)"
  "mem_counter n k (s\<lparr>mem_repos := RBT.insert name r (mem_repos s), mem_clock := c\<rparr>)
     = (if n = name then RBT.lookup (repo_counters r) k else mem_counter n k s)"
  by (simp_all add: mem_history_def mem_counter_def)

lemma logs_get_or:
  "repo_history (bt_get_or new_repo (mem_repos s) name) = mem_history name s"
  "RBT.lookup (repo_counters (bt_get_or new_repo (mem_repos s) name)) k = mem_counter name k s"
  by (cases "RBT.lookup (mem_repos s) name"; simp add: mem_history_def mem_counter_def bt_get_or_def)+

lemma views_store [simp]:
  "mem_manifest n e (store_blob name d x s) = mem_manifest n e s" "mem_tag n t (store_blob name d x s) = mem_tag n t s"
  by (auto simp: store_blob_def bt_update_def views_insert views_get_or)

lemma record_event_fields [simp]:
  "repo_manifests (record_event at t d b r) = repo_manifests r" "repo_tags (record_event at t d b r) = repo_tags r"
  "mem_repo.repo_blobs (record_event at t d b r) = mem_repo.repo_blobs r"
  by (simp_all add: record_event_def case_prod_beta)

lemma fold_write_tag:
  "repo_manifests (fst (fold (write_tag d) ts rc)) = repo_manifests (fst rc)
    \<and> mem_repo.repo_blobs (fst (fold (write_tag d) ts rc)) = mem_repo.repo_blobs (fst rc)
    \<and> RBT.lookup (repo_tags (fst (fold (write_tag d) ts rc))) t
        = (if t \<in> set ts then Some d else RBT.lookup (repo_tags (fst rc)) t)"
  by (induction ts arbitrary: rc) (auto simp: write_tag_def case_prod_beta Let_def)

lemma fold_drop_tag_event:
  "repo_manifests (fst (fold (drop_tag_event d) ts rc)) = repo_manifests (fst rc)
    \<and> mem_repo.repo_blobs (fst (fold (drop_tag_event d) ts rc)) = mem_repo.repo_blobs (fst rc)
    \<and> repo_tags (fst (fold (drop_tag_event d) ts rc)) = repo_tags (fst rc)"
  by (induction ts arbitrary: rc) (auto simp: drop_tag_event_def case_prod_beta Let_def)

text \<open>What the two folds leave in the history, on the clock and in the counters.\<close>

lemma record_event_history [simp]:
  "repo_history (record_event at t d b r) = repo_history r @
     [\<lparr>ev_at = at, ev_tag = t, ev_digest = d, ev_deleted = b, ev_media_type = fst (described (RBT.lookup (repo_manifests r) d)),
       ev_size = snd (described (RBT.lookup (repo_manifests r) d))\<rparr>]"
  "repo_counters (record_event at t d b r) = repo_counters r"
  by (simp_all add: record_event_def case_prod_beta described_def split: option.split)

lemma fold_write_log:
  "repo_history (fst (fold (write_tag d) ts rc))
      = repo_history (fst rc) @ tag_events (snd rc) d False (described (RBT.lookup (repo_manifests (fst rc)) d)) ts
    \<and> repo_counters (fst (fold (write_tag d) ts rc)) = repo_counters (fst rc)
    \<and> snd (fold (write_tag d) ts rc) = snd rc + word_of_nat (length ts)"
  by (induction ts arbitrary: rc) (auto simp: write_tag_def case_prod_beta Let_def tick_def)

lemma fold_drop_log:
  "repo_history (fst (fold (drop_tag_event d) ts rc))
      = repo_history (fst rc) @ tag_events (snd rc) d True (described (RBT.lookup (repo_manifests (fst rc)) d)) ts
    \<and> repo_counters (fst (fold (drop_tag_event d) ts rc)) = repo_counters (fst rc)
    \<and> snd (fold (drop_tag_event d) ts rc) = snd rc + word_of_nat (length ts)"
  by (induction ts arbitrary: rc) (auto simp: drop_tag_event_def case_prod_beta Let_def tick_def)

section \<open>Manifests\<close>

text \<open>The tags that a push sets, in order.\<close>

definition written_tags :: "http_reference \<Rightarrow> string list \<Rightarrow> string list" where
  "written_tags reference tags = (case reference of TagName t \<Rightarrow> [t] | DigestName _ \<Rightarrow> []) @ tags"

lemma put_manifest_effect:
  assumes "mem_put_manifest lib name reference ct tags content s = (Inr out, s')"
  obtains d m where "claimed_digest lib reference content = Inr d" "md_digest out = d" "md_tags out = tags"
    "sm_body m = content" "sm_media_type m = ct"
    "\<And>n e. mem_manifest n e s' = (if n = name \<and> e = d then Some m else mem_manifest n e s)"
    "\<And>n t. mem_tag n t s' = (if n = name \<and> (reference = TagName t \<or> t \<in> set tags) then Some d else mem_tag n t s)"
    "\<And>n e. mem_stored n e s' = mem_stored n e s"
    "\<And>n. mem_history n s' = mem_history n s @ (if n = name
       then tag_events (mem_clock s) d False (ct, word_of_nat (length content)) (written_tags reference tags) else [])"
    "\<And>n k. mem_counter n k s' = mem_counter n k s" "mem_uploads s' = mem_uploads s"
    "mem_clock s' = mem_clock s + word_of_nat (length (written_tags reference tags))"
    "\<And>n. RBT.lookup (mem_repos s') n \<noteq> None \<longleftrightarrow> n = name \<or> RBT.lookup (mem_repos s) n \<noteq> None"
proof -
  obtain d where d: "claimed_digest lib reference content = Inr d"
    using assms by (cases "claimed_digest lib reference content") (simp_all add: mem_put_manifest_def run_simps)
  obtain subject where sub: "pushed_subject (ml_json lib content) = Returns subject"
    using assms d by (cases "pushed_subject (ml_json lib content)") (simp_all add: mem_put_manifest_def run_simps)
  let ?json = "ml_json lib content"
  define m where "m = \<lparr>sm_media_type = ct, sm_body = content, sm_subject = subject,
    sm_artifact_type = pushed_artifact_type ?json, sm_annotations = pushed_annotations ?json\<rparr>"
  define r where "r = bt_get_or new_repo (mem_repos s) name"
  define written where "written = (case reference of TagName t \<Rightarrow> [t] | DigestName _ \<Rightarrow> []) @ tags"
  have w: "written_tags reference tags = written" by (simp add: written_tags_def written_def)
  let ?f = "fold (write_tag d) written (r\<lparr>repo_manifests := RBT.insert d m (repo_manifests r)\<rparr>, mem_clock s)"
  have run: "out = \<lparr>md_digest = d, md_subject = subject, md_tags = tags\<rparr>"
    "s' = s\<lparr>mem_repos := RBT.insert name (fst ?f) (mem_repos s), mem_clock := snd ?f\<rparr>"
    using assms d sub by (simp_all add: mem_put_manifest_def run_simps Let_def case_prod_beta m_def r_def written_def)
  have tags: "t \<in> set written \<longleftrightarrow> reference = TagName t \<or> t \<in> set tags" for t
    by (auto simp: written_def split: http_reference.splits)
  have f: "repo_manifests (fst ?f) = RBT.insert d m (repo_manifests r)"
    "mem_repo.repo_blobs (fst ?f) = mem_repo.repo_blobs r"
    "RBT.lookup (repo_tags (fst ?f)) t = (if t \<in> set written then Some d else RBT.lookup (repo_tags r) t)" for t
    using fold_write_tag [of d written "(r\<lparr>repo_manifests := RBT.insert d m (repo_manifests r)\<rparr>, mem_clock s)" t] by simp_all
  show ?thesis
  proof (rule that [OF d, of m])
    show "mem_manifest n e s' = (if n = name \<and> e = d then Some m else mem_manifest n e s)" for n e
      by (simp add: run views_insert f, simp add: r_def views_get_or)
    show "mem_tag n t s' = (if n = name \<and> (reference = TagName t \<or> t \<in> set tags) then Some d else mem_tag n t s)" for n t
      by (simp add: run views_insert f tags, simp add: r_def views_get_or)
    show "mem_stored n e s' = mem_stored n e s" for n e
      by (simp add: run views_insert f, simp add: r_def views_get_or)
    have m: "described (Some m) = (ct, word_of_nat (length content))" by (simp add: described_def m_def)
    show "mem_history n s' = mem_history n s @ (if n = name
        then tag_events (mem_clock s) d False (ct, word_of_nat (length content)) (written_tags reference tags) else [])" for n
      unfolding run(2) logs_insert by (simp add: fold_write_log m w, simp add: r_def logs_get_or)
    show "mem_counter n k s' = mem_counter n k s" for n k
      unfolding run(2) logs_insert by (simp add: fold_write_log, simp add: r_def logs_get_or)
  qed (simp_all add: run m_def fold_write_log w)
qed

lemma delete_digest_effect:
  assumes "mem_delete_manifest name (DigestName d) s = (Inr (), s')"
  shows "mem_manifest name d s \<noteq> None"
    and "mem_manifest n e s' = (if n = name \<and> e = d then None else mem_manifest n e s)"
    and "mem_tag n t s' = (if n = name \<and> mem_tag n t s = Some d then None else mem_tag n t s)"
    and "mem_stored n e s' = mem_stored n e s"
    and "\<exists>dropped. distinct dropped \<and> set dropped = {t. mem_tag name t s = Some d}
      \<and> mem_clock s' = mem_clock s + word_of_nat (length dropped)
      \<and> (\<forall>n. mem_history n s' = mem_history n s @ (if n = name
           then tag_events (mem_clock s) d True (described (mem_manifest name d s)) dropped else []))"
    and "mem_counter n k s' = mem_counter n k s" and "mem_uploads s' = mem_uploads s"
    and "RBT.lookup (mem_repos s') n \<noteq> None \<longleftrightarrow> RBT.lookup (mem_repos s) n \<noteq> None"
proof -
  obtain r where r: "RBT.lookup (mem_repos s) name = Some r"
    using assms by (auto simp: mem_delete_manifest_def split: option.splits)
  have there: "RBT.lookup (repo_manifests r) d \<noteq> None"
    using assms r by (auto simp: mem_delete_manifest_def split: if_splits)
  let ?dropped = "map fst (filter (\<lambda>(_, target). target = d) (RBT.entries (repo_tags r)))"
  let ?f = "fold (drop_tag_event d) ?dropped (r, mem_clock s)"
  let ?r = "(fst ?f)\<lparr>repo_manifests := RBT.delete d (repo_manifests (fst ?f)),
    repo_tags := RBT.filter (\<lambda>_ target. target \<noteq> d) (repo_tags (fst ?f))\<rparr>"
  have s': "s' = s\<lparr>mem_repos := RBT.insert name ?r (mem_repos s), mem_clock := snd ?f\<rparr>"
    using assms r there by (auto simp: mem_delete_manifest_def Let_def case_prod_beta)
  have f: "repo_manifests (fst ?f) = repo_manifests r" "repo_tags (fst ?f) = repo_tags r"
    "mem_repo.repo_blobs (fst ?f) = mem_repo.repo_blobs r" by (simp_all add: fold_drop_tag_event)
  show "mem_manifest name d s \<noteq> None" using r there by (simp add: mem_manifest_def)
  show "mem_manifest n e s' = (if n = name \<and> e = d then None else mem_manifest n e s)"
    by (simp add: s' views_insert f, simp add: mem_manifest_def r)
  show "mem_tag n t s' = (if n = name \<and> mem_tag n t s = Some d then None else mem_tag n t s)"
    by (simp add: s' views_insert f, auto simp: mem_tag_def r split: option.split)
  show "mem_stored n e s' = mem_stored n e s"
    by (simp add: s' views_insert f, simp add: mem_stored_def r)
  have "set ?dropped = {t. (t, d) \<in> set (RBT.entries (repo_tags r))}" by force
  then have "distinct ?dropped" "set ?dropped = {t. mem_tag name t s = Some d}"
    by (simp_all add: mem_tag_def r in_entries distinct_map_filter RBT.distinct_entries)
  then show "\<exists>dropped. distinct dropped \<and> set dropped = {t. mem_tag name t s = Some d}
      \<and> mem_clock s' = mem_clock s + word_of_nat (length dropped)
      \<and> (\<forall>n. mem_history n s' = mem_history n s @ (if n = name
           then tag_events (mem_clock s) d True (described (mem_manifest name d s)) dropped else []))"
    unfolding s' logs_insert
    by (intro exI [of _ ?dropped]) (simp add: fold_drop_log mem_manifest_def mem_history_def r)
  show "mem_counter n k s' = mem_counter n k s" unfolding s' logs_insert by (simp add: fold_drop_log mem_counter_def r)
  show "mem_uploads s' = mem_uploads s" "RBT.lookup (mem_repos s') n \<noteq> None \<longleftrightarrow> RBT.lookup (mem_repos s) n \<noteq> None"
    by (simp_all add: s' r)
qed

lemma delete_tag_effect:
  assumes "mem_delete_manifest name (TagName tag) s = (Inr (), s')"
  shows "mem_tag name tag s \<noteq> None"
    and "mem_manifest n e s' = mem_manifest n e s"
    and "mem_tag n t s' = (if n = name \<and> t = tag then None else mem_tag n t s)"
    and "mem_stored n e s' = mem_stored n e s"
    and "mem_clock s' = mem_clock s + 1"
    and "mem_history n s' = mem_history n s @ (if n = name
      then tag_events (mem_clock s) (the (mem_tag name tag s)) True (described (mem_manifest name (the (mem_tag name tag s)) s)) [tag] else [])"
    and "mem_counter n k s' = mem_counter n k s" and "mem_uploads s' = mem_uploads s"
    and "RBT.lookup (mem_repos s') n \<noteq> None \<longleftrightarrow> RBT.lookup (mem_repos s) n \<noteq> None"
proof -
  obtain r d where r: "RBT.lookup (mem_repos s) name = Some r" "RBT.lookup (repo_tags r) tag = Some d"
    using assms by (auto simp: mem_delete_manifest_def split: option.splits)
  let ?f = "drop_tag_event d tag (r\<lparr>repo_tags := RBT.delete tag (repo_tags r)\<rparr>, mem_clock s)"
  have s': "s' = s\<lparr>mem_repos := RBT.insert name (fst ?f) (mem_repos s), mem_clock := snd ?f\<rparr>"
    using assms r by (auto simp: mem_delete_manifest_def case_prod_beta Let_def)
  have f: "repo_manifests (fst ?f) = repo_manifests r" "repo_tags (fst ?f) = RBT.delete tag (repo_tags r)"
    "mem_repo.repo_blobs (fst ?f) = mem_repo.repo_blobs r" by (simp_all add: drop_tag_event_def Let_def)
  show "mem_tag name tag s \<noteq> None" using r by (simp add: mem_tag_def)
  show "mem_manifest n e s' = mem_manifest n e s" "mem_stored n e s' = mem_stored n e s"
    "mem_tag n t s' = (if n = name \<and> t = tag then None else mem_tag n t s)"
    by (simp_all add: s' views_insert f) (simp_all add: view_defs r)
  have log: "repo_history (fst ?f) = repo_history r @ tag_events (mem_clock s) d True (described (RBT.lookup (repo_manifests r) d)) [tag]"
    "repo_counters (fst ?f) = repo_counters r" "snd ?f = mem_clock s + 1"
    by (simp_all add: drop_tag_event_def Let_def tick_def)
  show "mem_history n s' = mem_history n s @ (if n = name
      then tag_events (mem_clock s) (the (mem_tag name tag s)) True (described (mem_manifest name (the (mem_tag name tag s)) s)) [tag] else [])"
    unfolding s' logs_insert log by (simp add: mem_history_def mem_tag_def mem_manifest_def r)
  show "mem_counter n k s' = mem_counter n k s" unfolding s' logs_insert log by (simp add: mem_counter_def r)
  show "mem_clock s' = mem_clock s + 1" "mem_uploads s' = mem_uploads s"
    "RBT.lookup (mem_repos s') n \<noteq> None \<longleftrightarrow> RBT.lookup (mem_repos s) n \<noteq> None"
    by (simp_all add: s' log r)
qed

text \<open>What a reference reads: the tag's digest or the digest itself, when the manifest is there.\<close>

definition points_to :: "string \<Rightarrow> http_reference \<Rightarrow> mem_state \<Rightarrow> digest option" where
  "points_to name reference s = (case reference of TagName t \<Rightarrow> mem_tag name t s | DigestName d \<Rightarrow> Some d)"

lemma find_manifest_view:
  "(case mem_find_manifest name reference s of
      Inr (r, d, m) \<Rightarrow> points_to name reference s = Some d \<and> mem_manifest name d s = Some m
    | Inl e \<Rightarrow> (e = OpsRepoUnknown \<or> e = OpsManifestUnknown)
        \<and> Option.bind (points_to name reference s) (\<lambda>d. mem_manifest name d s) = None)"
  by (cases "RBT.lookup (mem_repos s) name"; cases reference)
    (auto simp: mem_find_manifest_def mem_repo_of_def mem_resolve_def points_to_def mem_manifest_def mem_tag_def
      and_then_def ok_or_def split: option.splits sum.splits)

lemma get_manifest_view:
  "fst (mem_get_manifest name reference s)
     = (case Option.bind (points_to name reference s) (\<lambda>d. map_option (Pair d) (mem_manifest name d s)) of
          Some (d, m) \<Rightarrow> Inr (stat_of d m, sm_body m)
        | None \<Rightarrow> Inl (Fails (if RBT.lookup (mem_repos s) name = None then OpsRepoUnknown else OpsManifestUnknown)))"
proof (cases "mem_find_manifest name reference s")
  case (Inr x)
  obtain r d m where "x = (r, d, m)" by (cases x)
  with Inr find_manifest_view [of name reference s] show ?thesis
    by (simp add: mem_get_manifest_def mem_read_def)
next
  case (Inl e)
  have "e = (if RBT.lookup (mem_repos s) name = None then OpsRepoUnknown else OpsManifestUnknown)"
    using Inl by (cases "RBT.lookup (mem_repos s) name"; cases reference)
      (auto simp: mem_find_manifest_def mem_repo_of_def mem_resolve_def and_then_def ok_or_def split: option.splits sum.splits if_splits)
  moreover have "Option.bind (points_to name reference s) (\<lambda>d. map_option (Pair d) (mem_manifest name d s)) = None"
    using Inl find_manifest_view [of name reference s] by (cases "points_to name reference s") auto
  ultimately show ?thesis using Inl by (simp add: mem_get_manifest_def mem_read_def)
qed

text \<open>
  C28. What a push into the registry in memory stores is what a pull returns, byte for byte and with its media type: under the digest of its
  content, the tag or digest of the request and every \<open>?tag=\<close>, which all point to it. Each of these tags gets one event, a tick of the clock
  after the one before. Nothing else changes: no other tag, manifest, blob, history, counter or upload of any repository, and no
  repository but this one comes to exist. A digest in the request that is not the content's refuses the push.
\<close>

theorem pushed_manifest_pulled:
  assumes "mem_put_manifest lib name reference media_type tags content s = (Inr out, s')"
    and "asked = DigestName (md_digest out) \<or> asked = reference \<or> asked \<in> TagName ` set tags"
  shows "hash_like lib content (md_digest out) = md_digest out
    \<and> (case reference of DigestName d \<Rightarrow> d = md_digest out | TagName _ \<Rightarrow> md_digest out = Sha256 (ml_sha256 lib content))
    \<and> fst (mem_get_manifest name asked s') =
        Inr (\<lparr>ms_digest = md_digest out, ms_media_type = media_type, ms_size = word_of_nat (length content)\<rparr>, content)
    \<and> (\<forall>n t. mem_tag n t s' = (if n = name \<and> (reference = TagName t \<or> t \<in> set tags) then Some (md_digest out) else mem_tag n t s))
    \<and> (\<forall>n d. (n, d) = (name, md_digest out) \<or> mem_manifest n d s' = mem_manifest n d s)
    \<and> (\<forall>n d. mem_stored n d s' = mem_stored n d s)
    \<and> (\<forall>n. mem_history n s' = mem_history n s @ (if n = name
         then tag_events (mem_clock s) (md_digest out) False (media_type, word_of_nat (length content)) (written_tags reference tags) else []))
    \<and> mem_clock s' = mem_clock s + word_of_nat (length (written_tags reference tags))
    \<and> (\<forall>n k. mem_counter n k s' = mem_counter n k s) \<and> mem_uploads s' = mem_uploads s
    \<and> (\<forall>n. RBT.lookup (mem_repos s') n \<noteq> None \<longleftrightarrow> n = name \<or> RBT.lookup (mem_repos s) n \<noteq> None)"
proof -
  obtain d m where e: "claimed_digest lib reference content = Inr d" "md_digest out = d" "md_tags out = tags"
    "sm_body m = content" "sm_media_type m = media_type"
    "\<And>n e. mem_manifest n e s' = (if n = name \<and> e = d then Some m else mem_manifest n e s)"
    "\<And>n t. mem_tag n t s' = (if n = name \<and> (reference = TagName t \<or> t \<in> set tags) then Some d else mem_tag n t s)"
    "\<And>n e. mem_stored n e s' = mem_stored n e s"
    and log: "\<And>n. mem_history n s' = mem_history n s @ (if n = name
       then tag_events (mem_clock s) d False (media_type, word_of_nat (length content)) (written_tags reference tags) else [])"
    "\<And>n k. mem_counter n k s' = mem_counter n k s" "mem_uploads s' = mem_uploads s"
    "mem_clock s' = mem_clock s + word_of_nat (length (written_tags reference tags))"
    "\<And>n. RBT.lookup (mem_repos s') n \<noteq> None \<longleftrightarrow> n = name \<or> RBT.lookup (mem_repos s) n \<noteq> None"
    by (rule put_manifest_effect [OF assms(1)]) (rule that; simp only:)
  have hash: "hash_like lib content d = d"
    "case reference of DigestName e \<Rightarrow> e = d | TagName _ \<Rightarrow> d = Sha256 (ml_sha256 lib content)"
    using e(1) by (auto simp: claimed_digest_def hash_like_def Let_def split: http_reference.splits digest.splits if_splits)
  have "points_to name asked s' = Some d"
    using assms(2) e(2,7) hash(2) by (cases asked) (auto simp: points_to_def)
  then have "fst (mem_get_manifest name asked s') = Inr (stat_of d m, content)"
    by (simp add: get_manifest_view e(4,6))
  with e hash have "hash_like lib content d = d
      \<and> (case reference of DigestName e \<Rightarrow> e = d | TagName _ \<Rightarrow> d = Sha256 (ml_sha256 lib content))
      \<and> fst (mem_get_manifest name asked s')
        = Inr (\<lparr>ms_digest = d, ms_media_type = media_type, ms_size = word_of_nat (length content)\<rparr>, content)"
    by (simp add: stat_of_def)
  then show ?thesis using e(2,6-8) log by (cases reference; intro conjI allI; (simp; fail | auto))
qed

theorem pushed_manifest_pulled_witness:
  "\<exists>out s'. mem_put_manifest zero_libs ''a'' (TagName ''v1'') ''m/t'' [''v2''] [7, 8] new_memory = (Inr out, s')
     \<and> fst (mem_get_manifest ''a'' (TagName ''v2'') s')
       = Inr (\<lparr>ms_digest = zero_digest, ms_media_type = ''m/t'', ms_size = 2\<rparr>, [7, 8])"
proof -
  obtain x s' where x: "mem_put_manifest zero_libs ''a'' (TagName ''v1'') ''m/t'' [''v2''] [7, 8] new_memory = (x, s')"
    by fastforce
  then obtain out where "x = Inr out" and out: "md_digest out = zero_digest"
    by (auto simp: mem_put_manifest_def claimed_digest_def run_simps zero_libs_def pushed_subject_def Let_def zero_digest_def
        case_prod_beta)
  with x have run: "mem_put_manifest zero_libs ''a'' (TagName ''v1'') ''m/t'' [''v2''] [7, 8] new_memory = (Inr out, s')" by simp
  from pushed_manifest_pulled [OF run, of "TagName ''v2''"] out run show ?thesis by auto
qed



end
