(* ===== verification/Summ_Runs.thy ===== *)
theory Summ_Runs
  imports Summ_Contents
begin

text \<open>
  The states that requests reach. An invariant that every operation of a registry keeps is kept by every request to the application over
  it; the registry in memory keeps its contents addressed by their hash and its tags pointing at manifests it has.
\<close>

section \<open>Invariants of a registry\<close>

locale invariant_seam = quiet_purge r for r :: "('s, 'b) registry_ops" +
  fixes P :: "'s \<Rightarrow> bool"
  assumes put_manifest_keeps: "P s \<Longrightarrow> P (snd (op_put_manifest r name reference media_type tags content s))"
    and delete_manifest_keeps: "P s \<Longrightarrow> P (snd (op_delete_manifest r name reference s))"
    and delete_repository_keeps: "P s \<Longrightarrow> P (snd (op_delete_repository r name s))"
    and put_blob_keeps: "P s \<Longrightarrow> P (snd (op_put_blob r name d body s))"
    and delete_blob_keeps: "P s \<Longrightarrow> P (snd (op_delete_blob r name d s))"
    and mount_keeps: "P s \<Longrightarrow> P (snd (op_mount_blob r name d from s))"
    and create_keeps: "P s \<Longrightarrow> P (snd (op_create_upload r name i algo s))"
    and append_keeps: "P s \<Longrightarrow> P (snd (op_append_upload r name i offset body s))"
    and finish_keeps: "P s \<Longrightarrow> P (snd (op_finish_upload r name i offset body d s))"
    and cancel_keeps: "P s \<Longrightarrow> P (snd (op_cancel_upload r name i s))"
begin

lemma keeps_reads: "quiet m \<Longrightarrow> keeps P (from_seam m)"
  by (rule keeps_quiet) (rule keeps_store_below)

lemma keeps_uploads:
  "keeps P (upload_patch w r c name i b)" "keeps P (upload_finish w r c name i b)" "keeps P (upload_cancel r name i)"
  "keeps P (upload_single_post w r c name given b)"
  unfolding upload_patch_def upload_finish_def upload_cancel_def upload_single_post_def
  by (intro keeps_intros keeps_reads [OF reads_uploads] keeps_below append_keeps finish_keeps cancel_keeps put_blob_keeps; assumption)+

lemma keeps_mount: "keeps P (upload_mount w r c name given)"
proof (cases "http_parse_digest given")
  case (Returns x)
  then show ?thesis
    unfolding upload_mount_def Let_def
    by (cases x) (auto intro!: keeps_intros keeps_below mount_keeps)
qed (simp add: upload_mount_def keeps_intros)

lemma keeps_create: "keeps P (upload_create w r c name b)"
  unfolding upload_create_def
  by (intro keeps_intros keeps_mount keeps_uploads keeps_below create_keeps)

lemma keeps_manifests: "keeps P (http_manifest_put w r c name reference b)" "keeps P (http_manifest_delete r name reference)"
  unfolding http_manifest_put_def http_manifest_delete_def Let_def
  by (intro keeps_intros keeps_below put_manifest_keeps delete_manifest_keeps; assumption)+

lemma keeps_handle: "keeps P (handle w r c e b)"
proof (cases "cx_method c \<in> {PUT, POST, PATCH, DELETE}")
  case False
  then show ?thesis by (intro keeps_quiet safe_handle) simp
next
  case mutating: True
  show ?thesis
  proof (cases e)
    case (EpManifest name reference)
    have "keeps P (manifest_endpoint w r c name reference b)"
      unfolding manifest_endpoint_def
      by (intro keeps_intros, cases "cx_method c")
        (simp_all add: keeps_manifests keeps_quiet keeps_store_manifest_get keeps_store_manifest_head keeps_store_intros)
    with EpManifest show ?thesis by (simp add: handle_def keeps_unmetered)
  next
    case (EpBlob name d)
    have "keeps P (blob_delete r name x)" for x
      unfolding blob_delete_def by (intro keeps_intros keeps_below delete_blob_keeps)
    then have "keeps P (blob_endpoint w r c name d)"
      unfolding blob_endpoint_def
      by (intro keeps_intros, cases "cx_method c")
        (simp_all add: keeps_unmetered keeps_quiet keeps_store_unmetered keeps_store_blob_get keeps_store_blob_head
          keeps_store_intros)
    with EpBlob show ?thesis by (simp add: handle_def)
  next
    case (EpUploads name)
    then show ?thesis by (simp add: handle_def keeps_unmetered keeps_create)
  next
    case (EpUpload name i)
    have "keeps P (upload_endpoint w r c name i b)"
      unfolding upload_endpoint_def
      by (cases "cx_method c") (simp_all add: keeps_uploads keeps_quiet keeps_store_status keeps_store_intros)
    with EpUpload show ?thesis by (simp add: handle_def keeps_unmetered)
  qed (auto simp: handle_def intro!: keeps_quiet store_intros keeps_store_lists keeps_store_referrers)
qed

lemma keeps_api: "keeps P (api_handle w r c e)"
proof (cases "cx_method c = DELETE")
  case True
  have "keeps P (api_delete_repository r name)" for name
    unfolding api_delete_repository_def by (intro keeps_intros keeps_below delete_repository_keeps)
  with True show ?thesis by (cases e) (simp_all add: api_handle_def keeps_intros)
qed (simp add: keeps_quiet safe_api)

lemma keeps_routed: "keeps P (routed_request w ui r config q)"
proof -
  have "keeps P (dispatch_v2 w r config q)"
    by (auto simp: dispatch_v2_def keeps_intros intro!: keeps_handle split: sum.split route_error.split)
  moreover have "keeps P (dispatch_api w r config q)"
    by (auto simp: dispatch_api_def keeps_intros intro!: keeps_unmetered keeps_api split: sum.split route_error.split)
  moreover have "keeps P (fallback ui q :: ('s, metered) handler)"
    by (auto simp: fallback_def intro!: keeps_intros)
  ultimately show ?thesis by (simp add: routed_request_def split: option.split list.split)
qed

lemma app_keeps:
  assumes "P (sv_store sv)"
  shows "P (sv_store (snd (app w ui r config q sv)))"
proof -
  obtain x sv' where m: "routed_request w ui r config q sv = (x, sv')" by fastforce
  then have "P (sv_store sv')" using keeps_routed assms unfolding keeps_def by (metis snd_conv)
  then have "P (sv_store (snd (answer w (routed_request w ui r config q) sv)))"
    using m by (cases x) (auto simp: answer_def split: halt.split)
  with assms show ?thesis by (auto simp: app_def case_prod_beta Let_def split: sum.split)
qed

end

section \<open>The invariant of the registry in memory\<close>

text \<open>Blobs and manifests are stored under the hash of their bytes, and a tag points to a manifest of its repository.\<close>

definition sound :: "'b mem_libs \<Rightarrow> mem_state \<Rightarrow> bool" where
  "sound lib s \<longleftrightarrow>
     (\<forall>n d x. mem_stored n d s = Some x \<longrightarrow> hash_like lib x d = d)
     \<and> (\<forall>n d m. mem_manifest n d s = Some m \<longrightarrow> hash_like lib (sm_body m) d = d)
     \<and> (\<forall>n t d. mem_tag n t s = Some d \<longrightarrow> mem_manifest n d s \<noteq> None)"

lemma all_or_nothingD:
  assumes "all_or_nothing m" and "m s = (Inl e, s')"
  shows "s' = s"
  using assms(1) [unfolded all_or_nothing_def, rule_format, of s e] assms(2) by simp

lemma sound_views:
  assumes "sound lib s" and "\<And>n d. mem_stored n d s' = mem_stored n d s" and "\<And>n d. mem_manifest n d s' = mem_manifest n d s"
    and "\<And>n t. mem_tag n t s' = mem_tag n t s"
  shows "sound lib s'"
  using assms by (simp add: sound_def)

lemma sound_store: "sound lib s \<Longrightarrow> hash_like lib x d = d \<Longrightarrow> sound lib (store_blob name d x s)"
  by (simp add: sound_def)

lemma sound_put_manifest:
  assumes "sound lib s"
  shows "sound lib (snd (mem_put_manifest lib name reference media_type tags content s))"
proof -
  obtain x s' where run: "mem_put_manifest lib name reference media_type tags content s = (x, s')" by fastforce
  show ?thesis
  proof (cases x)
    case (Inl e)
    with run have "s' = s" by (intro all_or_nothingD [OF atomic_put_manifest]) simp
    with run assms show ?thesis by simp
  next
    case (Inr out)
    obtain d m where e: "claimed_digest lib reference content = Inr d" "md_digest out = d" "md_tags out = tags"
      "sm_body m = content" "sm_media_type m = media_type"
      "\<And>n e. mem_manifest n e s' = (if n = name \<and> e = d then Some m else mem_manifest n e s)"
      "\<And>n t. mem_tag n t s' = (if n = name \<and> (reference = TagName t \<or> t \<in> set tags) then Some d else mem_tag n t s)"
      "\<And>n e. mem_stored n e s' = mem_stored n e s"
      by (rule put_manifest_effect [OF run [unfolded Inr]]) (rule that; simp only:)
    have "hash_like lib content d = d"
      using e(1) by (auto simp: claimed_digest_def hash_like_def Let_def split: http_reference.splits digest.splits if_splits)
    with assms e(4,6-8) run show ?thesis by (auto simp: sound_def)
  qed
qed

lemma sound_delete_manifest:
  assumes "sound lib s"
  shows "sound lib (snd (mem_delete_manifest name reference s))"
proof -
  obtain x s' where run: "mem_delete_manifest name reference s = (x, s')" by fastforce
  show ?thesis
  proof (cases x)
    case (Inl e)
    with run have "s' = s" by (intro all_or_nothingD [OF atomic_manifests(1)]) simp
    with run assms show ?thesis by simp
  next
    case (Inr u)
    then have ran: "mem_delete_manifest name reference s = (Inr (), s')" using run by simp
    show ?thesis
    proof (cases reference)
      case (TagName t)
      from delete_tag_effect [OF ran [unfolded TagName]] assms show ?thesis by (auto simp: run sound_def)
    next
      case (DigestName d)
      from delete_digest_effect [OF ran [unfolded DigestName]] assms show ?thesis by (auto simp: run sound_def)
    qed
  qed
qed

lemma sound_delete_repository:
  assumes "sound lib s"
  shows "sound lib (snd (mem_delete_repository name s))"
proof -
  have "mem_stored n d (s\<lparr>mem_repos := RBT.delete name (mem_repos s)\<rparr>) = (if n = name then None else mem_stored n d s)"
    "mem_manifest n d (s\<lparr>mem_repos := RBT.delete name (mem_repos s)\<rparr>) = (if n = name then None else mem_manifest n d s)"
    "mem_tag n t (s\<lparr>mem_repos := RBT.delete name (mem_repos s)\<rparr>) = (if n = name then None else mem_tag n t s)" for n d t
    by (simp_all add: view_defs)
  with assms show ?thesis by (simp add: mem_delete_repository_def sound_def split: option.split)
qed

lemma sound_delete_blob:
  assumes "sound lib s"
  shows "sound lib (snd (mem_delete_blob name d s))"
proof (cases "RBT.lookup (mem_repos s) name")
  case (Some r)
  let ?s = "s\<lparr>mem_repos := RBT.insert name (r\<lparr>repo_blobs := RBT.delete d (mem_repo.repo_blobs r)\<rparr>) (mem_repos s)\<rparr>"
  have "mem_stored n e ?s = (if (n, e) = (name, d) then None else mem_stored n e s)"
    "mem_manifest n e ?s = mem_manifest n e s" "mem_tag n t ?s = mem_tag n t s" for n e t
    by (simp_all add: views_insert) (simp_all add: view_defs Some)
  then have "sound lib ?s" using assms by (simp add: sound_def)
  with assms Some show ?thesis by (simp add: mem_delete_blob_def)
qed (simp add: mem_delete_blob_def assms)

lemma mount_source_stored:
  assumes "mount_source d from s = Some x"
  shows "\<exists>n. mem_stored n d s = Some x"
proof (cases "from")
  case None
  then obtain ys where "List.map_filter (\<lambda>(_, r). RBT.lookup (mem_repo.repo_blobs r) d) (RBT.entries (mem_repos s)) = x # ys"
    using assms by (auto simp: mount_source_def split: list.splits)
  then have "x \<in> set (List.map_filter (\<lambda>(_, r). RBT.lookup (mem_repo.repo_blobs r) d) (RBT.entries (mem_repos s)))" by simp
  then obtain n r where "(n, r) \<in> set (RBT.entries (mem_repos s))" "RBT.lookup (mem_repo.repo_blobs r) d = Some x"
    by (auto simp: map_filter_def)
  then show ?thesis by (intro exI [of _ n]) (simp add: mem_stored_def in_entries)
next
  case (Some n)
  with assms show ?thesis by (auto simp: mount_source_def mem_stored_def)
qed

lemma sound_mount:
  assumes "sound lib s"
  shows "sound lib (snd (mem_mount_blob name d from s))"
proof (cases "mount_source d from s")
  case (Some x)
  then obtain n where "mem_stored n d s = Some x" using mount_source_stored by blast
  then have "hash_like lib x d = d" using assms by (simp add: sound_def)
  with assms Some show ?thesis by (simp add: mem_mount_blob_def sound_store)
qed (simp add: mem_mount_blob_def assms)

lemma sound_blob_writes:
  assumes "sound lib s"
  shows "sound lib (snd (mem_put_blob lib name d b s))" "sound lib (snd (mem_finish_upload lib name i offset b d s))"
proof -
  have "sound lib (s\<lparr>mem_uploads := u\<rparr>)" for u using assms by (rule sound_views) simp_all
  then show "sound lib (snd (mem_put_blob lib name d b s))" "sound lib (snd (mem_finish_upload lib name i offset b d s))"
    using assms
    by (auto simp: mem_put_blob_def mem_finish_upload_def run_simps of_result_def Let_def sound_store split: prod.splits sum.splits)
qed

lemma sound_uploads:
  assumes "sound lib s"
  shows "sound lib (snd (mem_create_upload name i algo s))" "sound lib (snd (mem_append_upload lib name i offset b s))"
    "sound lib (snd (mem_cancel_upload name i s))"
proof -
  have u: "sound lib (s\<lparr>mem_uploads := u\<rparr>)" for u using assms by (rule sound_views) simp_all
  have "sound lib (s\<lparr>mem_repos := bt_update new_repo name (\<lambda>r. r) (mem_repos s), mem_uploads := u\<rparr>)" for u
    by (rule sound_views [OF assms]) (simp_all add: bt_update_def views_insert views_get_or)
  then show "sound lib (snd (mem_create_upload name i algo s))" by (simp add: mem_create_upload_def)
  show "sound lib (snd (mem_append_upload lib name i offset b s))" "sound lib (snd (mem_cancel_upload name i s))"
    using assms u by (auto simp: mem_append_upload_def mem_cancel_upload_def run_simps of_result_def Let_def
        split: prod.splits sum.splits option.splits)
qed

interpretation soundness: invariant_seam "memory_registry lib" "sound lib" for lib :: "'b mem_libs"
  by unfold_locales (simp_all add: memory_registry_def sound_put_manifest sound_delete_manifest sound_delete_repository
      sound_delete_blob sound_mount sound_blob_writes sound_uploads)

section \<open>Runs\<close>

text \<open>
  The states of a server over the registry in memory: requests in any order, the seeds, the counts that are applied, and whatever happens to the
  accumulator of pulls meanwhile.
\<close>

inductive memory_runs ::
  "'b mem_libs \<Rightarrow> ('b, 'h) web \<Rightarrow> (http_method \<Rightarrow> string \<Rightarrow> response) \<Rightarrow> server_config \<Rightarrow> mem_state server \<Rightarrow> bool"
  for lib w ui config where
  start: "memory_runs lib w ui config \<lparr>sv_store = new_memory, sv_pulls = p\<rparr>"
| request: "memory_runs lib w ui config sv
    \<Longrightarrow> memory_runs lib w ui config (snd (app w ui (memory_registry lib) config q sv))"
| seeded_blob: "memory_runs lib w ui config sv
    \<Longrightarrow> memory_runs lib w ui config (sv\<lparr>sv_store := snd (seed_blob lib name x (sv_store sv))\<rparr>)"
| seeded_manifest: "memory_runs lib w ui config sv
    \<Longrightarrow> memory_runs lib w ui config (sv\<lparr>sv_store := snd (seed_manifest lib name tag media_type x (sv_store sv))\<rparr>)"
| seeded_subject: "memory_runs lib w ui config sv
    \<Longrightarrow> memory_runs lib w ui config (sv\<lparr>sv_store := seed_subject name d subject artifact_type (sv_store sv)\<rparr>)"
| counted: "memory_runs lib w ui config sv
    \<Longrightarrow> memory_runs lib w ui config (sv\<lparr>sv_store := apply_pull_counts rows (sv_store sv), sv_pulls := p\<rparr>)"

lemma sound_new: "sound lib new_memory"
  by (simp add: sound_def view_defs new_memory_def)

lemma sound_seed_manifest:
  assumes "sound lib s"
  shows "sound lib (snd (seed_manifest lib name tag media_type x s))"
proof -
  define d where "d = Sha256 (ml_sha256 lib x)"
  define m where "m = \<lparr>sm_media_type = media_type, sm_body = x, sm_subject = None, sm_artifact_type = None,
    sm_annotations = RBT.empty\<rparr>"
  define r where "r = bt_get_or new_repo (mem_repos s) name"
  define written where "written = (case tag of Some t \<Rightarrow> [t] | None \<Rightarrow> [])"
  let ?f = "fold (write_tag d) written (r\<lparr>repo_manifests := RBT.insert d m (repo_manifests r)\<rparr>, mem_clock s)"
  define s' where "s' = s\<lparr>mem_repos := RBT.insert name (fst ?f) (mem_repos s), mem_clock := snd ?f\<rparr>"
  have f: "repo_manifests (fst ?f) = RBT.insert d m (repo_manifests r)"
    "mem_repo.repo_blobs (fst ?f) = mem_repo.repo_blobs r"
    "RBT.lookup (repo_tags (fst ?f)) t = (if t \<in> set written then Some d else RBT.lookup (repo_tags r) t)" for t
    using fold_write_tag [of d written "(r\<lparr>repo_manifests := RBT.insert d m (repo_manifests r)\<rparr>, mem_clock s)" t] by simp_all
  have views: "mem_manifest n e s' = (if n = name \<and> e = d then Some m else mem_manifest n e s)"
    "mem_tag n t s' = (if n = name \<and> t \<in> set written then Some d else mem_tag n t s)"
    "mem_stored n e s' = mem_stored n e s" for n e t
    by (simp_all add: s'_def views_insert f) (simp_all add: r_def views_get_or)
  have "snd (seed_manifest lib name tag media_type x s) = s'"
    by (simp add: s'_def seed_manifest_def Let_def case_prod_beta d_def m_def r_def written_def)
  moreover have "hash_like lib x d = d" by (simp add: d_def hash_like_def)
  moreover have "sm_body m = x" by (simp add: m_def)
  ultimately show ?thesis using assms by (auto simp: sound_def views)
qed

lemma sound_seeds:
  assumes "sound lib s"
  shows "sound lib (snd (seed_blob lib name x s))" "sound lib (seed_subject name d subject artifact_type s)"
    "sound lib (apply_pull_counts rows s)"
proof -
  show "sound lib (snd (seed_blob lib name x s))"
    using assms by (simp add: seed_blob_def Let_def sound_store hash_like_def)
  show "sound lib (seed_subject name d subject artifact_type s)"
  proof (cases "RBT.lookup (mem_repos s) name")
    case (Some r)
    show ?thesis
    proof (cases "RBT.lookup (repo_manifests r) d")
      case m: (Some m)
      let ?m = "m\<lparr>sm_subject := Some subject, sm_artifact_type := artifact_type\<rparr>"
      let ?s = "s\<lparr>mem_repos := RBT.insert name (r\<lparr>repo_manifests := RBT.insert d ?m (repo_manifests r)\<rparr>) (mem_repos s)\<rparr>"
      have there: "mem_manifest name d s = Some m" by (simp add: mem_manifest_def Some m)
      have "mem_manifest n e ?s = (if n = name \<and> e = d then Some ?m else mem_manifest n e s)"
        "mem_tag n t ?s = mem_tag n t s" "mem_stored n e ?s = mem_stored n e s" for n e t
        by (simp_all add: views_insert) (simp_all add: view_defs Some)
      with assms there have "sound lib ?s" by (auto simp: sound_def)
      with Some m show ?thesis by (simp add: seed_subject_def)
    qed (simp add: seed_subject_def Some assms)
  qed (simp add: seed_subject_def assms)
  have "sound lib (apply_row row t)" if "sound lib t" for row t
  proof (cases "RBT.lookup (mem_repos t) (rec_repo row)")
    case (Some r)
    show ?thesis
      by (rule sound_views [OF that]) (simp_all add: apply_row_def Some views_insert, simp_all add: view_defs Some)
  qed (simp add: apply_row_def that)
  then show "sound lib (apply_pull_counts rows s)"
    using assms unfolding apply_pull_counts_def by (induction rows arbitrary: s) auto
qed

lemma runs_sound: "memory_runs lib w ui config sv \<Longrightarrow> sound lib (sv_store sv)"
  by (induction rule: memory_runs.induct)
    (simp_all add: sound_new soundness.app_keeps sound_seeds sound_seed_manifest)

text \<open>
  C13. In every state that requests reach over the registry in memory, what is stored under a digest has that hash, and a tag
  points to a manifest that its repository has: a pull by tag never finds the tag and misses the manifest.
\<close>

theorem contents_addressed:
  assumes "memory_runs lib w ui config sv"
  shows "(\<forall>n d x. mem_stored n d (sv_store sv) = Some x \<longrightarrow> hash_like lib x d = d)
    \<and> (\<forall>n d m. mem_manifest n d (sv_store sv) = Some m \<longrightarrow> hash_like lib (sm_body m) d = d)
    \<and> (\<forall>n t d. mem_tag n t (sv_store sv) = Some d \<longrightarrow>
         (\<exists>out. fst (mem_get_manifest n (TagName t) (sv_store sv)) = Inr out \<and> ms_digest (fst out) = d))"
proof -
  have s: "sound lib (sv_store sv)" by (rule runs_sound [OF assms])
  have "\<exists>out. fst (mem_get_manifest n (TagName t) (sv_store sv)) = Inr out \<and> ms_digest (fst out) = d"
    if tag: "mem_tag n t (sv_store sv) = Some d" for n t d
  proof -
    have "mem_manifest n d (sv_store sv) \<noteq> None" using s tag unfolding sound_def by blast
    then obtain m where "mem_manifest n d (sv_store sv) = Some m" by blast
    with tag show ?thesis by (simp add: get_manifest_view points_to_def stat_of_def)
  qed
  with s show ?thesis by (simp add: sound_def)
qed

theorem contents_addressed_witness:
  "\<exists>sv. memory_runs zero_libs plain_web (\<lambda>_ _. empty_with_length 200 0 []) default_server_config sv
     \<and> mem_tag ''a'' ''v1'' (sv_store sv) = Some zero_digest
     \<and> (\<exists>out. fst (mem_get_manifest ''a'' (TagName ''v1'') (sv_store sv)) = Inr out \<and> ms_digest (fst out) = zero_digest)"
proof -
  let ?run = "memory_runs zero_libs plain_web (\<lambda>_ _. empty_with_length 200 0 []) default_server_config"
  define sv where "sv = fresh_server\<lparr>sv_store := snd (seed_manifest zero_libs ''a'' (Some ''v1'') ''m/t'' [7] new_memory)\<rparr>"
  have "?run fresh_server" unfolding fresh_server_def by (rule memory_runs.start)
  from memory_runs.seeded_manifest [OF this, of "''a''" "Some ''v1''" "''m/t''" "[7]"]
  have run: "?run sv" by (simp add: sv_def fresh_server_def)
  have "mem_tag ''a'' ''v1'' (sv_store sv) = Some zero_digest"
    by (simp add: sv_def seed_manifest_def write_tag_def Let_def mem_tag_def zero_libs_def zero_digest_def
        bt_get_or_def new_memory_def)
  with contents_addressed [OF run] run show ?thesis by blast
qed

end
