(* ===== verification/Summ_Registry.thy ===== *)
theory Summ_Registry
  imports Summ_Manifest
begin

text \<open>
  The registry (\<open>summ-registry/src/registry.rs\<close>): repositories, blob authorisation and the reads of
  manifests, together with the reads of tags (\<open>tags.rs\<close>) they use. Pushing is in
  \<open>Summ_Push\<close>.

  The second half is the library the other components are proved with: what a store means
  (\<open>manifest_at\<close>, \<open>tag_at\<close>, \<open>servable\<close>), which stores are consistent (\<open>store_ok\<close>), and
  \<open>refines\<close>, by which an operation that only reads computes a function of the store.
\<close>

section \<open>Data\<close>

record registry_options =
  ro_validate_references :: bool
  ro_max_manifest_bytes :: nat
  ro_search_ceiling :: nat

definition default_options :: registry_options where
  "default_options = \<lparr> ro_validate_references = True, ro_max_manifest_bytes = 4 * 1024 * 1024,
                       ro_search_ceiling = 50000 \<rparr>"

record ('s, 'c) registry =
  rg_engine :: "'s meta_engine"
  rg_caches :: "'c caches"
  rg_options :: registry_options
  rg_libs :: libs

type_synonym ('s, 'c, 'a) op = "(('s, 'c) rstate, registry_error, 'a) action"

text \<open>\<open>Planned<T>\<close>: the outcome and the batch that brings it about.\<close>

type_synonym 'a planned = "'a \<times> write_batch"

record manifest_head =
  mh_digest :: digest
  mh_media_type :: string
  mh_size :: u64

record stored_manifest =
  sm_digest :: digest
  sm_media_type :: string
  sm_body :: bytes

text \<open>An engine or interner call, with \<open>?\<close> turning its error into a \<open>RegistryError\<close>.\<close>

definition meta_a :: "(('s, 'c) rstate, summ_error, 'a) action \<Rightarrow> ('s, 'c, 'a) op" where
  "meta_a m = map_err_a Meta m"

definition rg_get :: "('s, 'c) registry \<Rightarrow> bytes \<Rightarrow> ('s, 'c, bytes option) op" where
  "rg_get G k = meta_a (eng_get (rg_engine G) k)"

definition rg_exists :: "('s, 'c) registry \<Rightarrow> bytes \<Rightarrow> ('s, 'c, bool) op" where
  "rg_exists G p = meta_a (eng_exists (rg_engine G) p)"

definition rg_scan :: "('s, 'c) registry \<Rightarrow> bytes \<Rightarrow> bytes option \<Rightarrow> nat \<Rightarrow> ('s, 'c, page) op" where
  "rg_scan G p a n = meta_a (eng_scan (rg_engine G) p a n)"

definition rg_scan_keys :: "('s, 'c) registry \<Rightarrow> bytes \<Rightarrow> bytes option \<Rightarrow> nat \<Rightarrow> ('s, 'c, key_page) op" where
  "rg_scan_keys G p a n = meta_a (eng_scan_keys (rg_engine G) p a n)"

definition rg_apply :: "('s, 'c) registry \<Rightarrow> write_batch \<Rightarrow> ('s, 'c, unit) op" where
  "rg_apply G b = meta_a (eng_apply (rg_engine G) b)"

text \<open>\<open>match engine.get(key)? { Some(raw) => Ok(Some(decode(&raw, what)?)), None => Ok(None) }\<close>\<close>

definition get_record :: "('s, 'c) registry \<Rightarrow> 'a coder \<Rightarrow> bytes \<Rightarrow> string \<Rightarrow> ('s, 'c, 'a option) op" where
  "get_record G c k what =
     bind_a (rg_get G k) (\<lambda>found.
       case found of
         None \<Rightarrow> return_a None
       | Some stored \<Rightarrow> bind_a (lift_a (decode c stored what)) (\<lambda>v. return_a (Some v)))"

text \<open>The plain form of an operation: its plan, followed by one \<open>apply\<close>.\<close>

definition applied :: "('s, 'c) registry \<Rightarrow> ('s, 'c, 'a planned) op \<Rightarrow> ('s, 'c, 'a) op" where
  "applied G plan = bind_a plan (\<lambda>(outcome, batch). bind_a (rg_apply G batch) (\<lambda>_. return_a outcome))"

section \<open>Repositories\<close>

definition lookup_repo :: "('s, 'c) registry \<Rightarrow> string \<Rightarrow> ('s, 'c, repo_id option) op" where
  "lookup_repo G name = meta_a (interner_lookup (rg_engine G) (rg_caches G) name)"

definition require_repo :: "('s, 'c) registry \<Rightarrow> string \<Rightarrow> ('s, 'c, repo_id) op" where
  "require_repo G name = bind_a (lookup_repo G name) (\<lambda>r. lift_a (ok_or (NameUnknown name) r))"

definition intern_repo :: "('s, 'c) registry \<Rightarrow> string \<Rightarrow> ('s, 'c, repo_id) op" where
  "intern_repo G name = meta_a (interner_intern (rg_engine G) (rg_caches G) name)"

definition forget_repo :: "('s, 'c) registry \<Rightarrow> string \<Rightarrow> repo_id \<Rightarrow> ('s, 'c, unit) op" where
  "forget_repo G name rid = forget (rg_caches G) name rid"

definition repo_name :: "('s, 'c) registry \<Rightarrow> repo_id \<Rightarrow> ('s, 'c, string) op" where
  "repo_name G rid =
     bind_a (meta_a (interner_resolve (rg_engine G) (rg_caches G) rid))
       (\<lambda>n. lift_a (ok_or (corrupt ''repo id with no name'') n))"

definition repo_exists :: "('s, 'c) registry \<Rightarrow> string \<Rightarrow> ('s, 'c, bool) op" where
  "repo_exists G name = bind_a (lookup_repo G name) (\<lambda>r. return_a (r \<noteq> None))"

section \<open>Blobs\<close>

definition blob_is_servable_id :: "('s, 'c) registry \<Rightarrow> repo_id \<Rightarrow> digest \<Rightarrow> ('s, 'c, bool) op" where
  "blob_is_servable_id G repo d =
     bind_a (rg_exists G (blob_refs_in_repo d repo)) (\<lambda>hit.
       if hit then return_a True else rg_exists G (repo_blob_key repo d))"

definition blob_is_servable :: "('s, 'c) registry \<Rightarrow> string \<Rightarrow> digest \<Rightarrow> ('s, 'c, bool) op" where
  "blob_is_servable G repo d =
     bind_a (lookup_repo G repo) (\<lambda>r.
       case r of Some rid \<Rightarrow> blob_is_servable_id G rid d | None \<Rightarrow> return_a False)"

definition blob_record_of :: "('s, 'c) registry \<Rightarrow> digest \<Rightarrow> ('s, 'c, blob_record option) op" where
  "blob_record_of G d = get_record G (lb_blob (rg_libs G)) (blob_key d) ''BlobRecord''"

definition blob_metadata :: "('s, 'c) registry \<Rightarrow> digest \<Rightarrow> ('s, 'c, blob_record option) op" where
  "blob_metadata G d = blob_record_of G d"

definition servable_blob :: "('s, 'c) registry \<Rightarrow> string \<Rightarrow> digest \<Rightarrow> ('s, 'c, blob_record option) op" where
  "servable_blob G repo d =
     bind_a (blob_is_servable G repo d) (\<lambda>ok.
       if \<not> ok then return_a None else blob_record_of G d)"

definition plan_blob_commit ::
    "('s, 'c) registry \<Rightarrow> string \<Rightarrow> digest \<Rightarrow> u64 \<Rightarrow> timestamp \<Rightarrow> ('s, 'c, unit planned) op" where
  "plan_blob_commit G repo d sz now =
     bind_a (intern_repo G repo) (\<lambda>repo_id.
     bind_a (lift_a (encode (lb_blob (rg_libs G)) \<lparr> br_size = sz \<rparr>)) (\<lambda>record.
     let batch = batch_delete (blob_mark_key d) (batch_put (blob_key d) record batch_new) in
     bind_a (rg_exists G (repo_blob_key repo_id d)) (\<lambda>member.
       if \<not> member then
         bind_a (lift_a (encode (lb_repo_blob (rg_libs G)) \<lparr> rb_size = sz, rb_added_at = secs now \<rparr>))
           (\<lambda>membership. return_a ((), batch_put (repo_blob_key repo_id d) membership batch))
       else return_a ((), batch))))"

definition commit_blob ::
    "('s, 'c) registry \<Rightarrow> string \<Rightarrow> digest \<Rightarrow> u64 \<Rightarrow> timestamp \<Rightarrow> ('s, 'c, unit) op" where
  "commit_blob G repo d sz now =
     applied G (plan_blob_commit G repo d sz now)"

section \<open>Reading manifests\<close>

definition manifest_record_of ::
    "('s, 'c) registry \<Rightarrow> repo_id \<Rightarrow> digest \<Rightarrow> ('s, 'c, manifest_record option) op" where
  "manifest_record_of G repo d =
     get_record G (lb_manifest (rg_libs G)) (manifest_key repo d) ''ManifestRecord''"

definition tag_record_of :: "('s, 'c) registry \<Rightarrow> repo_id \<Rightarrow> string \<Rightarrow> ('s, 'c, tag_record option) op" where
  "tag_record_of G repo t = get_record G (lb_tag (rg_libs G)) (tag_key repo t) ''TagRecord''"

definition get_tag :: "('s, 'c) registry \<Rightarrow> string \<Rightarrow> string \<Rightarrow> ('s, 'c, tag_record option) op" where
  "get_tag G repo t = bind_a (require_repo G repo) (\<lambda>repo_id. tag_record_of G repo_id t)"

definition resolve :: "('s, 'c) registry \<Rightarrow> repo_id \<Rightarrow> reference \<Rightarrow> ('s, 'c, digest option) op" where
  "resolve G repo ref =
     (case ref of
        DigestRef d \<Rightarrow> return_a (Some d)
      | Tag t \<Rightarrow> bind_a (tag_record_of G repo t) (\<lambda>r. return_a (map_option tr_digest r)))"

definition head_manifest :: "('s, 'c) registry \<Rightarrow> string \<Rightarrow> reference \<Rightarrow> ('s, 'c, manifest_head option) op" where
  "head_manifest G repo ref =
     bind_a (require_repo G repo) (\<lambda>repo_id.
     bind_a (resolve G repo_id ref) (\<lambda>found.
       case found of
         None \<Rightarrow> return_a None
       | Some d \<Rightarrow>
           bind_a (manifest_record_of G repo_id d) (\<lambda>r.
             return_a (map_option (\<lambda>r. \<lparr> mh_digest = d, mh_media_type = mr_media_type r, mh_size = mr_size r \<rparr>) r))))"

definition stored_manifest_of ::
    "('s, 'c) registry \<Rightarrow> repo_id \<Rightarrow> digest \<Rightarrow> ('s, 'c, stored_manifest option) op" where
  "stored_manifest_of G repo d =
     bind_a (manifest_record_of G repo d) (\<lambda>found.
       case found of
         None \<Rightarrow> return_a None
       | Some record \<Rightarrow>
           bind_a (rg_get G (manifest_body_key repo d)) (\<lambda>z.
           bind_a (lift_a (ok_or (corrupt ''manifest record with no body'') z)) (\<lambda>stored.
           bind_a (lift_a (decompress_body (rg_libs G) stored)) (\<lambda>body.
             return_a (Some \<lparr> sm_digest = d, sm_media_type = mr_media_type record, sm_body = body \<rparr>)))))"

definition get_manifest_by_tag ::
    "('s, 'c) registry \<Rightarrow> string \<Rightarrow> string \<Rightarrow> ('s, 'c, stored_manifest option) op" where
  "get_manifest_by_tag G repo t =
     bind_a (require_repo G repo) (\<lambda>repo_id.
     bind_a (tag_record_of G repo_id t) (\<lambda>found.
       case found of None \<Rightarrow> return_a None | Some r \<Rightarrow> stored_manifest_of G repo_id (tr_digest r)))"

definition get_manifest_by_digest ::
    "('s, 'c) registry \<Rightarrow> string \<Rightarrow> digest \<Rightarrow> ('s, 'c, stored_manifest option) op" where
  "get_manifest_by_digest G repo d =
     bind_a (require_repo G repo) (\<lambda>repo_id. stored_manifest_of G repo_id d)"

definition get_manifest_record ::
    "('s, 'c) registry \<Rightarrow> string \<Rightarrow> digest \<Rightarrow> ('s, 'c, manifest_record option) op" where
  "get_manifest_record G repo d =
     bind_a (require_repo G repo) (\<lambda>repo_id. manifest_record_of G repo_id d)"

text \<open>The digest of a body, by the algorithm of the digest it was pushed under.\<close>

definition digest_body :: "libs \<Rightarrow> bytes \<Rightarrow> digest option \<Rightarrow> digest" where
  "digest_body lib body like =
     (case like of
        Some (Sha512 _) \<Rightarrow> Sha512 (arr64 (lb_sha512 lib body))
      | _ \<Rightarrow> Sha256 (arr32 (lb_sha256 lib body)))"

section \<open>What a store means\<close>

definition tag_at :: "libs \<Rightarrow> store \<Rightarrow> repo_id \<Rightarrow> string \<Rightarrow> tag_record option" where
  "tag_at lib m r t = Option.bind (m (tag_key r t)) (co_dec (lb_tag lib))"

definition manifest_at :: "libs \<Rightarrow> store \<Rightarrow> repo_id \<Rightarrow> digest \<Rightarrow> manifest_record option" where
  "manifest_at lib m r d = Option.bind (m (manifest_key r d)) (co_dec (lb_manifest lib))"

definition body_at :: "libs \<Rightarrow> store \<Rightarrow> repo_id \<Rightarrow> digest \<Rightarrow> bytes option" where
  "body_at lib m r d = Option.bind (m (manifest_body_key r d)) (lb_decompress lib)"

definition blob_at :: "libs \<Rightarrow> store \<Rightarrow> digest \<Rightarrow> blob_record option" where
  "blob_at lib m d = Option.bind (m (blob_key d)) (co_dec (lb_blob lib))"

definition servable :: "store \<Rightarrow> repo_id \<Rightarrow> digest \<Rightarrow> bool" where
  "servable m r d \<longleftrightarrow> (\<exists>md. m (blob_ref_key d r md) \<noteq> None) \<or> m (repo_blob_key r d) \<noteq> None"

section \<open>Consistent stores\<close>

text \<open>Every key is one of the schema's, with a name or a tag that could be written, and every value decodes.\<close>

fun good_key :: "store_key \<Rightarrow> bool" where
  "good_key (KTag r t) = valid_tag t"
| "good_key (KManifestTag r d t) = valid_tag t"
| "good_key (KTagHistory r t at d) = valid_tag t"
| "good_key (KManifestTagHistory r d at t) = valid_tag t"
| "good_key (KCounterTag r t day shard) = nul_free t"
| "good_key (KRepoByName n) = is_str n"
| "good_key _ = True"

fun good_value :: "libs \<Rightarrow> store_key \<Rightarrow> bytes \<Rightarrow> bool" where
  "good_value lib (KManifest r d) v =
     (case co_dec (lb_manifest lib) v of None \<Rightarrow> False | Some rec \<Rightarrow> mr_repo rec = r \<and> mr_digest rec = d)"
| "good_value lib (KManifestBody r d) v = (lb_decompress lib v \<noteq> None)"
| "good_value lib (KTag r t) v = (co_dec (lb_tag lib) v \<noteq> None)"
| "good_value lib (KBlob d) v = (co_dec (lb_blob lib) v \<noteq> None)"
| "good_value lib (KBlobMark d) v = (co_dec (lb_mark lib) v \<noteq> None)"
| "good_value lib (KRepoBlob r d) v = (co_dec (lb_repo_blob lib) v \<noteq> None)"
| "good_value lib (KReferrer r s d) v = (co_dec (lb_referrer lib) v \<noteq> None)"
| "good_value lib (KUpload u) v = (co_dec (lb_upload lib) v \<noteq> None)"
| "good_value lib (KTagHistory r t at d) v = (co_dec (lb_event lib) v \<noteq> None)"
| "good_value lib (KManifestTagHistory r d at t) v = (co_dec (lb_event lib) v \<noteq> None)"
| "good_value lib (KCounterManifest r d day shard) v = (co_dec (lb_bucket lib) v \<noteq> None)"
| "good_value lib (KCounterTag r t day shard) v = (co_dec (lb_bucket lib) v \<noteq> None)"
| "good_value lib (KCounterRepo r day shard) v = (co_dec (lb_bucket lib) v \<noteq> None)"
| "good_value lib (KDeadRepo r) v = (co_dec (lb_dead lib) v \<noteq> None)"
| "good_value lib _ v = True"

definition good_entry :: "libs \<Rightarrow> bytes \<Rightarrow> bytes \<Rightarrow> bool" where
  "good_entry lib k v \<longleftrightarrow> (\<exists>sk. k = encode_key sk \<and> good_key sk \<and> good_value lib sk v)"

definition entries_ok :: "libs \<Rightarrow> store \<Rightarrow> bool" where
  "entries_ok lib m \<longleftrightarrow> (\<forall>k v. m k = Some v \<longrightarrow> good_entry lib k v)"

text \<open>
  A tag names a manifest that is stored, and the reverse index holds exactly the tags that exist.
\<close>

definition tags_ok :: "libs \<Rightarrow> store \<Rightarrow> bool" where
  "tags_ok lib m \<longleftrightarrow>
     (\<forall>r t d. m (manifest_tag_key r d t) \<noteq> None \<longleftrightarrow> map_option tr_digest (tag_at lib m r t) = Some d)
     \<and> (\<forall>r t d. map_option tr_digest (tag_at lib m r t) = Some d \<longrightarrow> m (manifest_key r d) \<noteq> None)"

text \<open>
  A manifest and its body are stored together; the body digests to the digest it is stored under,
  and the record is what parsing it gives, with the length of the body.
\<close>

definition bodies_ok :: "libs \<Rightarrow> store \<Rightarrow> bool" where
  "bodies_ok lib m \<longleftrightarrow>
     (\<forall>r d. m (manifest_key r d) \<noteq> None \<longleftrightarrow> m (manifest_body_key r d) \<noteq> None)
     \<and> (\<forall>r d rec body. manifest_at lib m r d = Some rec \<and> body_at lib m r d = Some body \<longrightarrow>
          digest_body lib body (Some d) = d
          \<and> (\<exists>c p. parse_manifest lib body c = Inr p \<and> mr_layers rec = map bd_digest (pm_blobs p)
               \<and> mr_children rec = pm_children p \<and> mr_subject rec = pm_subject p
               \<and> mr_media_type rec = pm_media_type p)
          \<and> mr_size rec = word_of_nat (length body))"

text \<open>
  An edge from a blob, or from a child, comes from a stored manifest that lists it, and a blob with an
  edge has its record.
\<close>

definition edges_ok :: "libs \<Rightarrow> store \<Rightarrow> bool" where
  "edges_ok lib m \<longleftrightarrow>
     (\<forall>b r md. m (blob_ref_key b r md) \<noteq> None \<longrightarrow>
        m (blob_key b) \<noteq> None \<and> (\<exists>rec. manifest_at lib m r md = Some rec \<and> b \<in> set (mr_layers rec)))
     \<and> (\<forall>r c p. m (child_parent_key r c p) \<noteq> None \<longrightarrow>
        (\<exists>rec. manifest_at lib m r p = Some rec \<and> c \<in> cr_digest ` set (mr_children rec)))"

definition store_ok :: "libs \<Rightarrow> store \<Rightarrow> bool" where
  "store_ok lib m \<longleftrightarrow> entries_ok lib m \<and> tags_ok lib m \<and> bodies_ok lib m \<and> edges_ok lib m"

section \<open>Operations as functions of the store\<close>

text \<open>
  \<open>at_store\<close> relates a state of the registry to the store it holds, which is consistent, with
  coherent caches. An operation refines a function of the store when it returns what the function
  gives and leaves the store alone; only a failure of the engine may come in between.
\<close>

definition at_store ::
    "('s \<Rightarrow> store) \<Rightarrow> ('s \<Rightarrow> bool) \<Rightarrow> ('c \<Rightarrow> string \<rightharpoonup> repo_id) \<Rightarrow> ('c \<Rightarrow> repo_id \<rightharpoonup> string) \<Rightarrow> libs \<Rightarrow>
     store \<Rightarrow> ('s, 'c) rstate \<Rightarrow> bool" where
  "at_store tbl ok names ids lib m s \<longleftrightarrow>
     interner_ok tbl ok names ids s \<and> tbl (rs_engine s) = m \<and> store_ok lib m"

definition engine_error :: "bool \<Rightarrow> registry_error \<Rightarrow> bool" where
  "engine_error fails e \<longleftrightarrow> fails \<and> (\<exists>x. e = Meta x)"

definition refines ::
    "(store \<Rightarrow> 'st \<Rightarrow> bool) \<Rightarrow> bool \<Rightarrow> ('st, registry_error, 'a) action \<Rightarrow> (store \<Rightarrow> registry_error + 'a) \<Rightarrow> bool" where
  "refines at fails oper f \<longleftrightarrow> (\<forall>m s. at m s \<longrightarrow>
     wp oper (\<lambda>a s'. at m s' \<and> f m = Inr a) (\<lambda>e s'. at m s' \<and> (f m = Inl e \<or> engine_error fails e)) s)"

text \<open>The pure loop that \<open>for_a\<close> refines.\<close>

fun for_r :: "'x list \<Rightarrow> 'b \<Rightarrow> ('x \<Rightarrow> 'b \<Rightarrow> 'e + 'b) \<Rightarrow> 'e + 'b" where
  "for_r [] acc body = Inr acc"
| "for_r (x # xs) acc body = and_then (body x acc) (\<lambda>acc'. for_r xs acc' body)"

lemma refines_return: "refines at fails (return_a a) (\<lambda>_. Inr a)"
  by (simp add: refines_def wp_simps)

lemma refines_fail: "refines at fails (fail_a e) (\<lambda>_. Inl e)"
  by (simp add: refines_def wp_simps)

lemma refines_lift: "refines at fails (lift_a r) (\<lambda>_. r)"
  by (auto simp: refines_def wp_simps split: sum.split)

lemma refines_bind:
  assumes "refines at fails oper f" and "\<And>a. refines at fails (k a) (g a)"
  shows "refines at fails (bind_a oper k) (\<lambda>m. and_then (f m) (\<lambda>a. g a m))"
  unfolding refines_def wp_bind
proof (intro allI impI)
  fix m s assume "at m s"
  with assms(1) have "wp oper (\<lambda>a s'. at m s' \<and> f m = Inr a) (\<lambda>e s'. at m s' \<and> (f m = Inl e \<or> engine_error fails e)) s"
    by (simp add: refines_def)
  then show "wp oper (\<lambda>a. wp (k a) (\<lambda>b s'. at m s' \<and> and_then (f m) (\<lambda>a. g a m) = Inr b)
      (\<lambda>e s'. at m s' \<and> (and_then (f m) (\<lambda>a. g a m) = Inl e \<or> engine_error fails e)))
      (\<lambda>e s'. at m s' \<and> (and_then (f m) (\<lambda>a. g a m) = Inl e \<or> engine_error fails e)) s"
    by (rule wp_weaken) (use assms(2) in \<open>auto simp: refines_def\<close>)
qed

text \<open>With what is known of the store carried along.\<close>

lemma refines_restrict:
  "refines at fails oper f \<Longrightarrow> refines (\<lambda>m s. at m s \<and> P m) fails oper f"
  unfolding refines_def by (fastforce elim!: wp_weaken)

lemma refines_bind_known:
  assumes "refines at fails oper f" and "\<And>a. refines (\<lambda>m s. at m s \<and> f m = Inr a) fails (k a) (g a)"
  shows "refines at fails (bind_a oper k) (\<lambda>m. and_then (f m) (\<lambda>a. g a m))"
  unfolding refines_def wp_bind
proof (intro allI impI)
  fix m s assume "at m s"
  with assms(1) have "wp oper (\<lambda>a s'. at m s' \<and> f m = Inr a) (\<lambda>e s'. at m s' \<and> (f m = Inl e \<or> engine_error fails e)) s"
    by (simp add: refines_def)
  then show "wp oper (\<lambda>a. wp (k a) (\<lambda>b s'. at m s' \<and> and_then (f m) (\<lambda>a. g a m) = Inr b)
      (\<lambda>e s'. at m s' \<and> (and_then (f m) (\<lambda>a. g a m) = Inl e \<or> engine_error fails e)))
      (\<lambda>e s'. at m s' \<and> (and_then (f m) (\<lambda>a. g a m) = Inl e \<or> engine_error fails e)) s"
  proof (rule wp_weaken)
    fix a t assume "at m t \<and> f m = Inr a"
    with assms(2) [of a] show "wp (k a) (\<lambda>b s'. at m s' \<and> and_then (f m) (\<lambda>a. g a m) = Inr b)
        (\<lambda>e s'. at m s' \<and> (and_then (f m) (\<lambda>a. g a m) = Inl e \<or> engine_error fails e)) t"
      unfolding refines_def by (fastforce elim!: wp_weaken)
  qed auto
qed

text \<open>\<open>oper()?.ok_or(e)?\<close>, with the value found known to what follows.\<close>

lemma refines_required:
  assumes "refines at fails oper (\<lambda>m. Inr (F m))"
    and "\<And>a. refines (\<lambda>m s. at m s \<and> F m = Some a) fails (k a) (g a)"
  shows "refines at fails (bind_a oper (\<lambda>x. bind_a (lift_a (ok_or e x)) k)) (\<lambda>m. and_then (ok_or e (F m)) (\<lambda>a. g a m))"
proof -
  have "refines (\<lambda>m s. at m s \<and> Inr (F m) = Inr x) fails (bind_a (lift_a (ok_or e x)) k)
      (\<lambda>m. and_then (ok_or e x) (\<lambda>a. g a m))" for x
  proof (cases x)
    case None
    then show ?thesis by (simp add: refines_def wp_simps)
  next
    case (Some a)
    with assms(2) [of a] show ?thesis by (simp add: refines_def wp_simps)
  qed
  from refines_bind_known [OF assms(1) this] show ?thesis by simp
qed

lemma refines_if:
  assumes "b \<Longrightarrow> refines at fails x f" and "\<not> b \<Longrightarrow> refines at fails y g"
  shows "refines at fails (if b then x else y) (\<lambda>m. if b then f m else g m)"
  using assms by (cases b) auto

lemma refines_option:
  assumes "refines at fails x f" and "\<And>a. refines at fails (y a) (g a)"
  shows "refines at fails (case v of None \<Rightarrow> x | Some a \<Rightarrow> y a) (\<lambda>m. case v of None \<Rightarrow> f m | Some a \<Rightarrow> g a m)"
  using assms by (cases v) auto

lemma refines_pair:
  assumes "\<And>a b. refines at fails (k a b) (g a b)"
  shows "refines at fails (case v of (a, b) \<Rightarrow> k a b) (\<lambda>m. case v of (a, b) \<Rightarrow> g a b m)"
  using assms by (cases v) auto

lemma refines_for:
  assumes "\<And>x acc. refines at fails (body x acc) (g x acc)"
  shows "refines at fails (for_a xs acc body) (\<lambda>m. for_r xs acc (\<lambda>x acc. g x acc m))"
proof (induction xs arbitrary: acc)
  case Nil
  show ?case by (simp add: refines_return)
next
  case (Cons x xs)
  show ?case using refines_bind [OF assms Cons] by simp
qed

lemma refines_cong:
  assumes "refines at fails oper f" and "\<And>m s. at m s \<Longrightarrow> f m = g m"
  shows "refines at fails oper g"
  using assms by (auto simp: refines_def)

lemma refines_run:
  assumes "refines at fails oper f" and "at m s" and "oper s = (r, s')"
  shows "at m s' \<and> (r = f m \<or> (\<exists>e. engine_error fails e \<and> r = Inl e))"
proof -
  have "wp oper (\<lambda>a s'. at m s' \<and> f m = Inr a) (\<lambda>e s'. at m s' \<and> (f m = Inl e \<or> engine_error fails e)) s"
    using assms(1,2) by (simp add: refines_def)
  with assms(3) show ?thesis by (cases r) (auto simp: wp_def)
qed

lemma refines_wp:
  assumes "refines at fails oper f" and "at m s"
    and "\<And>a s'. at m s' \<Longrightarrow> f m = Inr a \<Longrightarrow> Q a s'"
    and "\<And>e s'. at m s' \<Longrightarrow> f m = Inl e \<or> engine_error fails e \<Longrightarrow> X e s'"
  shows "wp oper Q X s"
proof -
  have "wp oper (\<lambda>a s'. at m s' \<and> f m = Inr a) (\<lambda>e s'. at m s' \<and> (f m = Inl e \<or> engine_error fails e)) s"
    using assms(1,2) by (simp add: refines_def)
  then show ?thesis by (rule wp_weaken) (use assms(3,4) in auto)
qed

lemmas refines_intros = refines_return refines_fail refines_lift refines_bind refines_option refines_if refines_pair

section \<open>Keys and values of consistent stores\<close>

lemma good_key_wf: "good_key sk \<Longrightarrow> wf_key sk"
  by (cases sk) (auto dest: valid_tag_facts)

lemma good_entry_iff:
  assumes "wf_key sk"
  shows "good_entry lib (encode_key sk) v \<longleftrightarrow> good_key sk \<and> good_value lib sk v"
  using assms good_key_wf encode_key_inject unfolding good_entry_def by blast

text \<open>The same with the builders written out, for each kind of key.\<close>

lemma good_entry_simps [simp]:
  "good_entry lib (manifest_key r d) v \<longleftrightarrow>
     (case co_dec (lb_manifest lib) v of None \<Rightarrow> False | Some rec \<Rightarrow> mr_repo rec = r \<and> mr_digest rec = d)"
  "good_entry lib (manifest_body_key r d) v \<longleftrightarrow> lb_decompress lib v \<noteq> None"
  "good_entry lib (tag_key r t) v \<longleftrightarrow> valid_tag t \<and> co_dec (lb_tag lib) v \<noteq> None"
  "good_entry lib (manifest_tag_key r d t) v \<longleftrightarrow> valid_tag t"
  "good_entry lib (blob_key d) v \<longleftrightarrow> co_dec (lb_blob lib) v \<noteq> None"
  "good_entry lib (blob_mark_key d) v \<longleftrightarrow> co_dec (lb_mark lib) v \<noteq> None"
  "good_entry lib (blob_ref_key d r md) v"
  "good_entry lib (repo_blob_key r d) v \<longleftrightarrow> co_dec (lb_repo_blob lib) v \<noteq> None"
  "good_entry lib (child_parent_key r d p) v"
  "good_entry lib (referrer_key r d p) v \<longleftrightarrow> co_dec (lb_referrer lib) v \<noteq> None"
  "good_entry lib (upload_key u) v \<longleftrightarrow> co_dec (lb_upload lib) v \<noteq> None"
  "good_entry lib (dead_repo_key r) v \<longleftrightarrow> co_dec (lb_dead lib) v \<noteq> None"
  "good_entry lib (counter_manifest_key r d day shard) v \<longleftrightarrow> co_dec (lb_bucket lib) v \<noteq> None"
  "good_entry lib (counter_repo_key r day shard) v \<longleftrightarrow> co_dec (lb_bucket lib) v \<noteq> None"
  "good_entry lib (manifest_tag_history_key r d at t) v \<longleftrightarrow> valid_tag t \<and> co_dec (lb_event lib) v \<noteq> None"
  "good_entry lib (repo_by_name n) v \<longleftrightarrow> is_str n"
  "good_entry lib (repo_by_id r) v"
  using good_entry_iff [of "KManifest r d" lib v] good_entry_iff [of "KManifestBody r d" lib v]
    good_entry_iff [of "KTag r t" lib v] good_entry_iff [of "KManifestTag r d t" lib v]
    good_entry_iff [of "KBlob d" lib v] good_entry_iff [of "KBlobMark d" lib v]
    good_entry_iff [of "KBlobRef d r md" lib v] good_entry_iff [of "KRepoBlob r d" lib v]
    good_entry_iff [of "KChildParent r d p" lib v] good_entry_iff [of "KReferrer r d p" lib v]
    good_entry_iff [of "KUpload u" lib v] good_entry_iff [of "KDeadRepo r" lib v]
    good_entry_iff [of "KCounterManifest r d day shard" lib v] good_entry_iff [of "KCounterRepo r day shard" lib v]
    good_entry_iff [of "KManifestTagHistory r d at t" lib v] good_entry_iff [of "KRepoByName n" lib v]
    good_entry_iff [of "KRepoById r" lib v]
  by simp_all

lemma good_entry_tagged:
  "valid_tag t \<Longrightarrow> good_entry lib (tag_history_key r t at d) v \<longleftrightarrow> co_dec (lb_event lib) v \<noteq> None"
  "nul_free t \<Longrightarrow> good_entry lib (counter_tag_key r t day shard) v \<longleftrightarrow> co_dec (lb_bucket lib) v \<noteq> None"
  using good_entry_iff [of "KTagHistory r t at d" lib v] good_entry_iff [of "KCounterTag r t day shard" lib v]
    valid_tag_facts [of t] by simp_all

lemma entries_okD: "entries_ok lib m \<Longrightarrow> m k = Some v \<Longrightarrow> good_entry lib k v"
  by (simp add: entries_ok_def)

lemma entries_ok_key:
  assumes "entries_ok lib m" and "m k \<noteq> None"
  obtains sk where "k = encode_key sk" "good_key sk" "wf_key sk"
  using assms good_key_wf unfolding entries_ok_def good_entry_def by (metis option.exhaust)

lemma entries_ok_apply:
  assumes "entries_ok lib m" and "\<And>k v. Put k v \<in> set b \<Longrightarrow> good_entry lib k v"
  shows "entries_ok lib (apply_ops b m)"
  using assms
proof (induction b arbitrary: m)
  case (Cons x b)
  have "entries_ok lib (apply_op x m)"
    using Cons.prems by (cases x) (auto simp: entries_ok_def)
  with Cons show ?case by simp
qed simp

text \<open>Which keys of a consistent store lie under a prefix.\<close>

lemma has_prefix_iff:
  assumes "entries_ok lib m" and "\<And>sk. wf_key sk \<Longrightarrow> prefix p (encode_key sk) \<longleftrightarrow> (\<exists>a. sk = f a)"
  shows "has_prefix m p \<longleftrightarrow> (\<exists>a. good_key (f a) \<and> m (encode_key (f a)) \<noteq> None)"
proof
  assume "has_prefix m p"
  then obtain k where k: "m k \<noteq> None" "prefix p k" by (auto simp: has_prefix_def)
  from entries_ok_key [OF assms(1) k(1)] obtain sk where "k = encode_key sk" "good_key sk" "wf_key sk" .
  with k assms(2) show "\<exists>a. good_key (f a) \<and> m (encode_key (f a)) \<noteq> None" by blast
next
  assume "\<exists>a. good_key (f a) \<and> m (encode_key (f a)) \<noteq> None"
  then obtain a where a: "good_key (f a)" "m (encode_key (f a)) \<noteq> None" by blast
  then have "prefix p (encode_key (f a))" using assms(2) good_key_wf by blast
  with a show "has_prefix m p" by (auto simp: has_prefix_def)
qed

lemma prefix_keys:
  assumes "wf_key sk"
  shows "prefix (blob_refs_in_repo d r) (encode_key sk) \<longleftrightarrow> (\<exists>md. sk = KBlobRef d r md)"
    and "prefix (blob_refs d) (encode_key sk) \<longleftrightarrow> (\<exists>r md. sk = KBlobRef d r md)"
    and "prefix (repo_blob_key r d) (encode_key sk) \<longleftrightarrow> sk = KRepoBlob r d"
    and "prefix (manifest_key r d) (encode_key sk) \<longleftrightarrow> sk = KManifest r d"
    and "prefix (tags_of_manifest r d) (encode_key sk) \<longleftrightarrow> (\<exists>t. sk = KManifestTag r d t)"
    and "prefix (parents_of r d) (encode_key sk) \<longleftrightarrow> (\<exists>p. sk = KChildParent r d p)"
    and "prefix (tags_in_repo r) (encode_key sk) \<longleftrightarrow> (\<exists>t. sk = KTag r t)"
    and "prefix (manifests_in_repo r) (encode_key sk) \<longleftrightarrow> (\<exists>d. sk = KManifest r d)"
    and "prefix (referrers_of r d) (encode_key sk) \<longleftrightarrow> (\<exists>p. sk = KReferrer r d p)"
  using assms by (cases sk; simp add: key_defs key_codes eq_commute)+

lemma has_prefix_keys:
  assumes "entries_ok lib m"
  shows "has_prefix m (blob_refs_in_repo d r) \<longleftrightarrow> (\<exists>md. m (blob_ref_key d r md) \<noteq> None)"
    and "has_prefix m (blob_refs d) \<longleftrightarrow> (\<exists>r md. m (blob_ref_key d r md) \<noteq> None)"
    and "has_prefix m (repo_blob_key r d) \<longleftrightarrow> m (repo_blob_key r d) \<noteq> None"
    and "has_prefix m (manifest_key r d) \<longleftrightarrow> m (manifest_key r d) \<noteq> None"
    and "has_prefix m (parents_of r d) \<longleftrightarrow> (\<exists>p. m (child_parent_key r d p) \<noteq> None)"
    and "has_prefix m (tags_of_manifest r d) \<longleftrightarrow> (\<exists>t. valid_tag t \<and> m (manifest_tag_key r d t) \<noteq> None)"
proof -
  note iff = has_prefix_iff [OF assms]
  show "has_prefix m (blob_refs_in_repo d r) \<longleftrightarrow> (\<exists>md. m (blob_ref_key d r md) \<noteq> None)"
    by (subst iff [OF prefix_keys(1)]) auto
  show "has_prefix m (blob_refs d) \<longleftrightarrow> (\<exists>r md. m (blob_ref_key d r md) \<noteq> None)"
    by (subst iff [of _ "\<lambda>(r, md). KBlobRef d r md"]) (auto simp: prefix_keys(2))
  show "has_prefix m (repo_blob_key r d) \<longleftrightarrow> m (repo_blob_key r d) \<noteq> None"
    by (subst iff [of _ "\<lambda>_ :: unit. KRepoBlob r d"]) (auto simp: prefix_keys(3))
  show "has_prefix m (manifest_key r d) \<longleftrightarrow> m (manifest_key r d) \<noteq> None"
    by (subst iff [of _ "\<lambda>_ :: unit. KManifest r d"]) (auto simp: prefix_keys(4))
  show "has_prefix m (parents_of r d) \<longleftrightarrow> (\<exists>p. m (child_parent_key r d p) \<noteq> None)"
    by (subst iff [OF prefix_keys(6)]) auto
  show "has_prefix m (tags_of_manifest r d) \<longleftrightarrow> (\<exists>t. valid_tag t \<and> m (manifest_tag_key r d t) \<noteq> None)"
    by (subst iff [OF prefix_keys(5)]) auto
qed

lemma record_cases:
  assumes "entries_ok lib m"
  shows "m (tag_key r t) = (case tag_at lib m r t of None \<Rightarrow> None | Some x \<Rightarrow> m (tag_key r t))"
    and "m (manifest_key r d) \<noteq> None \<longleftrightarrow> manifest_at lib m r d \<noteq> None"
    and "m (tag_key r t) \<noteq> None \<longleftrightarrow> tag_at lib m r t \<noteq> None"
    and "m (blob_key d) \<noteq> None \<longleftrightarrow> blob_at lib m d \<noteq> None"
    and "m (manifest_body_key r d) \<noteq> None \<longleftrightarrow> body_at lib m r d \<noteq> None"
  using entries_okD [OF assms, of "tag_key r t"] entries_okD [OF assms, of "manifest_key r d"]
    entries_okD [OF assms, of "blob_key d"] entries_okD [OF assms, of "manifest_body_key r d"]
  by (auto simp: tag_at_def manifest_at_def blob_at_def body_at_def split: option.splits bind_splits)

lemma manifest_at_id:
  assumes "entries_ok lib m" and "manifest_at lib m r d = Some rec"
  shows "mr_repo rec = r" and "mr_digest rec = d"
  using assms entries_okD [OF assms(1), of "manifest_key r d"]
  by (auto simp: manifest_at_def bind_eq_Some_conv)

text \<open>A stored manifest has its body, and the record describes it.\<close>

lemma store_ok_body:
  assumes "store_ok lib m" and "manifest_at lib m r d = Some rec"
  obtains body c p where "body_at lib m r d = Some body" "digest_body lib body (Some d) = d"
    "mr_size rec = word_of_nat (length body)" "parse_manifest lib body c = Inr p"
    "mr_layers rec = map bd_digest (pm_blobs p)" "mr_children rec = pm_children p"
    "mr_subject rec = pm_subject p" "mr_media_type rec = pm_media_type p"
proof -
  have e: "entries_ok lib m" and b: "bodies_ok lib m" using assms(1) by (simp_all add: store_ok_def)
  have "m (manifest_key r d) \<noteq> None" using record_cases(2) [OF e] assms(2) by simp
  with b have "m (manifest_body_key r d) \<noteq> None" unfolding bodies_ok_def by blast
  then obtain body where body: "body_at lib m r d = Some body" using record_cases(5) [OF e] by blast
  with b assms(2) have "digest_body lib body (Some d) = d
      \<and> (\<exists>c p. parse_manifest lib body c = Inr p \<and> mr_layers rec = map bd_digest (pm_blobs p)
           \<and> mr_children rec = pm_children p \<and> mr_subject rec = pm_subject p \<and> mr_media_type rec = pm_media_type p)
      \<and> mr_size rec = word_of_nat (length body)"
    unfolding bodies_ok_def by blast
  with body that show ?thesis by blast
qed

text \<open>Each part of the invariant depends on its own ranges of keys.\<close>

lemma tags_ok_cong:
  assumes "tags_ok lib m" and "\<And>r t. m' (tag_key r t) = m (tag_key r t)"
    and "\<And>r d t. m' (manifest_tag_key r d t) = m (manifest_tag_key r d t)"
    and "\<And>r d. m' (manifest_key r d) = m (manifest_key r d)"
  shows "tags_ok lib m'"
  using assms(1) unfolding tags_ok_def tag_at_def assms(2-4) .

lemma bodies_ok_cong:
  assumes "bodies_ok lib m" and "\<And>r d. m' (manifest_key r d) = m (manifest_key r d)"
    and "\<And>r d. m' (manifest_body_key r d) = m (manifest_body_key r d)"
  shows "bodies_ok lib m'"
  using assms(1) unfolding bodies_ok_def manifest_at_def body_at_def assms(2-3) .

lemma edges_ok_cong:
  assumes "edges_ok lib m" and "\<And>r d. m' (manifest_key r d) = m (manifest_key r d)"
    and "\<And>d. m' (blob_key d) = m (blob_key d)" and "\<And>b r d. m' (blob_ref_key b r d) = m (blob_ref_key b r d)"
    and "\<And>r c p. m' (child_parent_key r c p) = m (child_parent_key r c p)"
  shows "edges_ok lib m'"
  using assms(1) unfolding edges_ok_def manifest_at_def assms(2-5) .

section \<open>Operations that commit a batch\<close>

text \<open>
  An operation that commits returns what its specification gives and leaves the store the
  specification gives; when it fails, the store is the one it found.
\<close>

definition commits ::
    "(store \<Rightarrow> 'st \<Rightarrow> bool) \<Rightarrow> bool \<Rightarrow> ('st, registry_error, 'a) action \<Rightarrow>
     (store \<Rightarrow> registry_error + 'a \<times> store) \<Rightarrow> bool" where
  "commits at fails oper f \<longleftrightarrow> (\<forall>m s. at m s \<longrightarrow>
     wp oper (\<lambda>a s'. \<exists>m'. f m = Inr (a, m') \<and> at m' s')
       (\<lambda>e s'. at m s' \<and> (f m = Inl e \<or> engine_error fails e)) s)"

lemma commits_run:
  assumes "commits at fails oper f" and "at m s" and "oper s = (r, s')"
  shows "case r of Inr a \<Rightarrow> \<exists>m'. f m = Inr (a, m') \<and> at m' s'
    | Inl e \<Rightarrow> at m s' \<and> (f m = Inl e \<or> engine_error fails e)"
proof -
  have "wp oper (\<lambda>a s'. \<exists>m'. f m = Inr (a, m') \<and> at m' s')
       (\<lambda>e s'. at m s' \<and> (f m = Inl e \<or> engine_error fails e)) s"
    using assms(1,2) by (simp add: commits_def)
  with assms(3) show ?thesis by (cases r) (auto simp: wp_def)
qed

text \<open>Batches that leave the interner's keys alone.\<close>

definition nameless :: "write_batch \<Rightarrow> bool" where
  "nameless b \<longleftrightarrow> (\<forall>x \<in> set b. \<forall>n i. \<not> touches x (repo_by_name n) \<and> \<not> touches x (repo_by_id i))"

lemma nameless_names:
  assumes "nameless b"
  shows "apply_ops b m (repo_by_name n) = m (repo_by_name n)" "apply_ops b m (repo_by_id i) = m (repo_by_id i)"
  using assms by (simp_all add: nameless_def apply_ops_untouched)

lemma id_of_nameless: "nameless b \<Longrightarrow> id_of (apply_ops b m) n = id_of m n"
  by (simp add: id_of_def nameless_names)

lemma nameless_append [simp]: "nameless (a @ b) \<longleftrightarrow> nameless a \<and> nameless b"
  by (auto simp: nameless_def)

lemma bounded_append [simp]: "bounded_batch (a @ b) \<longleftrightarrow> bounded_batch a \<and> bounded_batch b"
  by (auto simp: bounded_batch_def)

text \<open>A batch of single-key operations on keys of the data ranges.\<close>

fun op_key :: "meta_op \<Rightarrow> bytes" where
  "op_key (Put k v) = k"
| "op_key (Delete k) = k"
| "op_key (DeletePrefix p) = p"

definition point_op :: "meta_op \<Rightarrow> bool" where
  "point_op x = (case x of DeletePrefix _ \<Rightarrow> False | _ \<Rightarrow> True)"

text \<open>\<open>ranged hs b\<close>: every operation of \<open>b\<close> is on one key, whose first byte is among \<open>hs\<close>.\<close>

definition ranged :: "byte set \<Rightarrow> write_batch \<Rightarrow> bool" where
  "ranged hs b \<longleftrightarrow> (\<forall>x \<in> set b. point_op x \<and> (\<exists>h r. op_key x = h # r \<and> h \<in> hs))"

lemma ranged_simps [simp]:
  "ranged hs []" "ranged hs (a @ b) \<longleftrightarrow> ranged hs a \<and> ranged hs b"
  "ranged hs (Put k v # b) \<longleftrightarrow> (\<exists>h r. k = h # r \<and> h \<in> hs) \<and> ranged hs b"
  "ranged hs (Delete k # b) \<longleftrightarrow> (\<exists>h r. k = h # r \<and> h \<in> hs) \<and> ranged hs b"
  by (auto simp: ranged_def point_op_def)

lemma ranged_touches:
  assumes "ranged hs b" and "x \<in> set b" and "h \<notin> hs"
  shows "\<not> touches x (h # r)"
  using bspec [OF assms(1) [unfolded ranged_def] assms(2)] assms(3) by (cases x) (auto simp: point_op_def)

lemma ranged_untouched: "ranged hs b \<Longrightarrow> h \<notin> hs \<Longrightarrow> apply_ops b m (h # r) = m (h # r)"
  by (rule apply_ops_untouched) (auto dest: ranged_touches)

lemma ranged_bounded: "ranged hs b \<Longrightarrow> bounded_batch b"
  by (auto simp: ranged_def bounded_batch_def bounded_op_def point_op_def split: meta_op.splits)

lemma ranged_nameless: "ranged hs b \<Longrightarrow> 0x6E \<notin> hs \<Longrightarrow> 0x69 \<notin> hs \<Longrightarrow> nameless b"
  unfolding nameless_def key_defs by (blast dest: ranged_touches)

lemma ranged_mono: "ranged hs b \<Longrightarrow> hs \<subseteq> ks \<Longrightarrow> ranged ks b"
  unfolding ranged_def by blast

section \<open>Operations that intern a name first\<close>

text \<open>
  Interning is a batch of its own: the name has its id afterwards, and the rest of the operation
  starts from the store \<open>m1\<close> it leaves. \<open>pre\<close> is what is assumed of the store before.
\<close>

definition interned :: "store \<Rightarrow> string \<Rightarrow> repo_id \<Rightarrow> store \<Rightarrow> bool" where
  "interned m n r m1 \<longleftrightarrow> (id_of m n = Some r \<and> m1 = m)
     \<or> (id_of m n = None \<and> next_of m = Some r \<and> r \<noteq> NEXT_ID_KEY_ID \<and> m1 = alloc_store m n r)"

definition ids_exhausted :: "store \<Rightarrow> string \<Rightarrow> bool" where
  "ids_exhausted m n \<longleftrightarrow> id_of m n = None \<and> next_of m = Some NEXT_ID_KEY_ID"

definition commits_in ::
    "(store \<Rightarrow> 'st \<Rightarrow> bool) \<Rightarrow> bool \<Rightarrow> (store \<Rightarrow> bool) \<Rightarrow> string \<Rightarrow> ('st, registry_error, 'a) action \<Rightarrow>
     (repo_id \<Rightarrow> store \<Rightarrow> registry_error + 'a \<times> store) \<Rightarrow> bool" where
  "commits_in at fails pre n oper f \<longleftrightarrow> (\<forall>m s. at m s \<longrightarrow> pre m \<longrightarrow>
     wp oper (\<lambda>a s'. \<exists>r m1 m'. interned m n r m1 \<and> f r m1 = Inr (a, m') \<and> at m' s')
       (\<lambda>e s'. (at m s' \<and> engine_error (fails \<or> ids_exhausted m n) e)
          \<or> (\<exists>r m1. interned m n r m1 \<and> at m1 s' \<and> (f r m1 = Inl e \<or> engine_error fails e))) s)"

lemma interned_id: "interned m n r m1 \<Longrightarrow> id_of m1 n = Some r"
  by (auto simp: interned_def id_of_alloc)

lemma alloc_data [simp]:
  "h \<noteq> 0x6E \<Longrightarrow> h \<noteq> 0x69 \<Longrightarrow> alloc_store m n r (h # k) = m (h # k)"
  by (simp add: alloc_store_def key_defs)

lemma interned_data: "interned m n r m1 \<Longrightarrow> h \<noteq> 0x6E \<Longrightarrow> h \<noteq> 0x69 \<Longrightarrow> m1 (h # k) = m (h # k)"
  by (auto simp: interned_def)

lemma store_ok_alloc:
  assumes "store_ok lib m" and "is_str n"
  shows "store_ok lib (alloc_store m n r)"
proof -
  have "entries_ok lib (alloc_store m n r)"
    using assms by (auto simp: entries_ok_def alloc_store_def store_ok_def)
  moreover have "tags_ok lib (alloc_store m n r)" "bodies_ok lib (alloc_store m n r)" "edges_ok lib (alloc_store m n r)"
    using assms(1) unfolding store_ok_def
    by (auto elim!: tags_ok_cong bodies_ok_cong edges_ok_cong simp: key_defs)
  ultimately show ?thesis by (simp add: store_ok_def)
qed

lemma commits_in_run:
  assumes "commits_in at fails pre n oper f" and "at m s" and "pre m" and "oper s = (r, s')"
  shows "case r of
      Inr a \<Rightarrow> \<exists>rid m1 m'. interned m n rid m1 \<and> f rid m1 = Inr (a, m') \<and> at m' s'
    | Inl e \<Rightarrow> (at m s' \<and> engine_error (fails \<or> ids_exhausted m n) e)
        \<or> (\<exists>rid m1. interned m n rid m1 \<and> at m1 s' \<and> (f rid m1 = Inl e \<or> engine_error fails e))"
proof -
  have "wp oper (\<lambda>a s'. \<exists>rid m1 m'. interned m n rid m1 \<and> f rid m1 = Inr (a, m') \<and> at m' s')
       (\<lambda>e s'. (at m s' \<and> engine_error (fails \<or> ids_exhausted m n) e)
          \<or> (\<exists>rid m1. interned m n rid m1 \<and> at m1 s' \<and> (f rid m1 = Inl e \<or> engine_error fails e))) s"
    using assms(1-3) by (simp add: commits_in_def)
  with assms(4) show ?thesis by (cases r) (auto simp: wp_def)
qed

section \<open>The registry's environment\<close>

locale registry_env =
  interner_env "rg_engine G" tbl inv may_fail "rg_caches G" names ids + library_code "rg_libs G"
  for G :: "('s, 'c) registry" and tbl inv may_fail names ids
begin

abbreviation "holds \<equiv> at_store tbl inv names ids (rg_libs G)"

lemma holdsD:
  assumes "holds m s"
  shows "interner_ok tbl inv names ids s" "inv (rs_engine s)" "tbl (rs_engine s) = m" "store_ok (rg_libs G) m"
    "entries_ok (rg_libs G) m" "names_ok m"
  using assms by (auto simp: at_store_def interner_ok_def store_ok_def)

lemma holds_finite: "holds m s \<Longrightarrow> finite (dom m)"
  using finite_tbl holdsD by blast

lemma holds_same: "holds m s \<Longrightarrow> interner_ok tbl inv names ids s' \<Longrightarrow> rs_engine s' = rs_engine s \<Longrightarrow> holds m s'"
  by (auto simp: at_store_def)

lemma refines_get: "refines holds may_fail (rg_get G k) (\<lambda>m. Inr (m k))"
  unfolding refines_def rg_get_def meta_a_def wp_simps
  by (auto intro!: wp_get simp: holdsD engine_error_def)

lemma refines_exists: "refines holds may_fail (rg_exists G p) (\<lambda>m. Inr (has_prefix m p))"
  unfolding refines_def rg_exists_def meta_a_def wp_simps
  by (auto intro!: wp_exists simp: holdsD engine_error_def)

lemma refines_scan:
  "under p a \<Longrightarrow> grouped p a \<Longrightarrow> refines holds may_fail (rg_scan G p a n) (\<lambda>m. Inr (scan_page m p a n))"
  unfolding refines_def rg_scan_def meta_a_def wp_simps
  by (auto intro!: wp_scan simp: holdsD engine_error_def)

lemma refines_scan_keys:
  "under p a \<Longrightarrow> grouped p a \<Longrightarrow>
   refines holds may_fail (rg_scan_keys G p a n) (\<lambda>m. Inr (key_page_of (scan_page m p a n)))"
  unfolding refines_def rg_scan_keys_def meta_a_def wp_simps
  by (auto intro!: wp_scan_keys simp: holdsD engine_error_def)

lemma refines_lookup_repo: "refines holds may_fail (lookup_repo G n) (\<lambda>m. Inr (id_of m n))"
  unfolding refines_def lookup_repo_def meta_a_def wp_simps
proof (intro allI impI)
  fix m s assume h: "holds m s"
  show "wp (interner_lookup (rg_engine G) (rg_caches G) n) (\<lambda>a s'. holds m s' \<and> Inr (id_of m n) = Inr a)
      (\<lambda>e s'. holds m s' \<and> (Inr (id_of m n) = Inl (Meta e) \<or> engine_error may_fail (Meta e))) s"
    by (rule wp_lookup [OF holdsD(1) [OF h]]) (use h in \<open>auto simp: holdsD engine_error_def intro: holds_same\<close>)
qed

lemma refines_require_repo:
  "refines holds may_fail (require_repo G n) (\<lambda>m. ok_or (NameUnknown n) (id_of m n))"
  unfolding require_repo_def
  by (rule refines_cong, (rule refines_intros refines_lookup_repo)+) simp

lemma refines_repo_name:
  assumes "r \<noteq> NEXT_ID_KEY_ID"
  shows "refines holds may_fail (repo_name G r) (\<lambda>m. ok_or (corrupt ''repo id with no name'') (name_of m r))"
proof -
  have "refines holds may_fail (meta_a (interner_resolve (rg_engine G) (rg_caches G) r)) (\<lambda>m. Inr (name_of m r))"
    unfolding refines_def meta_a_def wp_simps
  proof (intro allI impI)
    fix m s assume h: "holds m s"
    show "wp (interner_resolve (rg_engine G) (rg_caches G) r) (\<lambda>a s'. holds m s' \<and> Inr (name_of m r) = Inr a)
        (\<lambda>e s'. holds m s' \<and> (Inr (name_of m r) = Inl (Meta e) \<or> engine_error may_fail (Meta e))) s"
      by (rule wp_resolve [OF holdsD(1) [OF h] assms])
        (use h in \<open>auto simp: holdsD engine_error_def intro: holds_same\<close>)
  qed
  from refines_bind [OF this refines_lift] show ?thesis
    unfolding repo_name_def by (rule refines_cong) simp
qed

lemma refines_repo_exists: "refines holds may_fail (repo_exists G n) (\<lambda>m. Inr (id_of m n \<noteq> None))"
  unfolding repo_exists_def
  by (rule refines_cong, (rule refines_intros refines_lookup_repo)+) simp

lemma refines_get_record:
  assumes "\<And>m v. entries_ok (rg_libs G) m \<Longrightarrow> m k = Some v \<Longrightarrow> co_dec c v \<noteq> None"
  shows "refines holds may_fail (get_record G c k what) (\<lambda>m. Inr (Option.bind (m k) (co_dec c)))"
  unfolding get_record_def
proof (rule refines_cong, (rule refines_intros refines_get)+)
  fix m s assume "holds m s"
  then show "and_then (Inr (m k)) (\<lambda>a. case a of None \<Rightarrow> Inr None
      | Some aa \<Rightarrow> and_then (decode c aa what) (\<lambda>a. Inr (Some a))) = Inr (Option.bind (m k) (co_dec c))"
    using assms [OF holdsD(5)] by (fastforce simp: decode_def split: option.split)
qed

lemma refines_manifest_record:
  "refines holds may_fail (manifest_record_of G r d) (\<lambda>m. Inr (manifest_at (rg_libs G) m r d))"
  unfolding manifest_record_of_def manifest_at_def
  by (rule refines_get_record) (auto dest!: entries_okD split: option.splits)

lemma refines_tag_record: "refines holds may_fail (tag_record_of G r t) (\<lambda>m. Inr (tag_at (rg_libs G) m r t))"
  unfolding tag_record_of_def tag_at_def
  by (rule refines_get_record) (auto dest!: entries_okD split: option.splits)

lemma refines_blob_record: "refines holds may_fail (blob_record_of G d) (\<lambda>m. Inr (blob_at (rg_libs G) m d))"
  unfolding blob_record_of_def blob_at_def
  by (rule refines_get_record) (auto dest!: entries_okD split: option.splits)

lemma refines_servable_id: "refines holds may_fail (blob_is_servable_id G r d) (\<lambda>m. Inr (servable m r d))"
  unfolding blob_is_servable_id_def
  by (rule refines_cong, (rule refines_intros refines_exists)+)
    (auto simp: has_prefix_keys [OF holdsD(5)] servable_def)

lemma refines_resolve:
  "refines holds may_fail (resolve G r ref)
     (\<lambda>m. Inr (case ref of DigestRef d \<Rightarrow> Some d | Tag t \<Rightarrow> map_option tr_digest (tag_at (rg_libs G) m r t)))"
proof (cases ref)
  case (Tag t)
  show ?thesis unfolding resolve_def Tag reference.case
    by (rule refines_cong, (rule refines_intros refines_tag_record)+) simp
qed (simp add: resolve_def refines_return)

lemma refines_stored_manifest:
  "refines holds may_fail (stored_manifest_of G r d)
     (\<lambda>m. Inr (case manifest_at (rg_libs G) m r d of None \<Rightarrow> None
        | Some rec \<Rightarrow> map_option (\<lambda>body. \<lparr> sm_digest = d, sm_media_type = mr_media_type rec, sm_body = body \<rparr>)
            (body_at (rg_libs G) m r d)))"
  unfolding stored_manifest_of_def
proof (rule refines_cong, (rule refines_intros refines_manifest_record refines_get)+)
  fix m s assume h: "holds m s"
  have "body_at (rg_libs G) m r d \<noteq> None" if "manifest_at (rg_libs G) m r d \<noteq> None"
    using that holdsD(4) [OF h] record_cases(2,5) [OF holdsD(5) [OF h]] by (simp add: store_ok_def bodies_ok_def)
  then show "and_then (Inr (manifest_at (rg_libs G) m r d)) (\<lambda>a. case a of None \<Rightarrow> Inr None
      | Some rec \<Rightarrow> and_then (Inr (m (manifest_body_key r d)))
          (\<lambda>z. and_then (ok_or (corrupt ''manifest record with no body'') z)
            (\<lambda>stored. and_then (decompress_body (rg_libs G) stored)
              (\<lambda>body. Inr (Some \<lparr> sm_digest = d, sm_media_type = mr_media_type rec, sm_body = body \<rparr>)))))
    = Inr (case manifest_at (rg_libs G) m r d of None \<Rightarrow> None
        | Some rec \<Rightarrow> map_option (\<lambda>body. \<lparr> sm_digest = d, sm_media_type = mr_media_type rec, sm_body = body \<rparr>)
            (body_at (rg_libs G) m r d))"
    by (cases "manifest_at (rg_libs G) m r d")
      (auto simp: body_at_def decompress_body_def split: option.splits bind_splits)
qed

lemma refines_servable_blob:
  "refines holds may_fail (servable_blob G repo d)
     (\<lambda>m. Inr (if \<exists>r. id_of m repo = Some r \<and> servable m r d then blob_at (rg_libs G) m d else None))"
proof -
  have "refines holds may_fail (blob_is_servable G repo d) (\<lambda>m. Inr (\<exists>r. id_of m repo = Some r \<and> servable m r d))"
    unfolding blob_is_servable_def
    by (rule refines_cong, (rule refines_intros refines_lookup_repo refines_servable_id)+) (simp split: option.split)
  from refines_bind [OF this refines_if [OF refines_return refines_blob_record]]
  show ?thesis unfolding servable_blob_def by (rule refines_cong) auto
qed

lemma refines_head_manifest:
  "refines holds may_fail (head_manifest G repo ref)
     (\<lambda>m. and_then (ok_or (NameUnknown repo) (id_of m repo)) (\<lambda>r.
        Inr (Option.bind
          (case ref of DigestRef d \<Rightarrow> Some d | Tag t \<Rightarrow> map_option tr_digest (tag_at (rg_libs G) m r t))
          (\<lambda>d. map_option (\<lambda>rec. \<lparr> mh_digest = d, mh_media_type = mr_media_type rec, mh_size = mr_size rec \<rparr>)
             (manifest_at (rg_libs G) m r d)))))"
  unfolding head_manifest_def
  by (rule refines_cong,
      (rule refines_intros refines_require_repo refines_resolve refines_manifest_record)+)
    (auto simp: and_then_def ok_or_def split: option.split sum.split reference.split bind_splits)

text \<open>What a pull of one manifest returns.\<close>

lemma refines_get_manifest:
  "refines holds may_fail (case ref of Tag t \<Rightarrow> get_manifest_by_tag G repo t | DigestRef d \<Rightarrow> get_manifest_by_digest G repo d)
     (\<lambda>m. and_then (ok_or (NameUnknown repo) (id_of m repo)) (\<lambda>r.
        Inr (Option.bind
          (case ref of DigestRef d \<Rightarrow> Some d | Tag t \<Rightarrow> map_option tr_digest (tag_at (rg_libs G) m r t))
          (\<lambda>d. case manifest_at (rg_libs G) m r d of None \<Rightarrow> None
            | Some rec \<Rightarrow> map_option (\<lambda>body. \<lparr> sm_digest = d, sm_media_type = mr_media_type rec, sm_body = body \<rparr>)
                (body_at (rg_libs G) m r d)))))"
proof (cases ref)
  case (Tag t)
  show ?thesis unfolding Tag reference.case get_manifest_by_tag_def
    by (rule refines_cong,
        (rule refines_intros refines_require_repo refines_tag_record refines_stored_manifest)+)
      (auto simp: and_then_def ok_or_def split: option.split sum.split bind_splits)
next
  case (DigestRef d)
  show ?thesis unfolding DigestRef reference.case get_manifest_by_digest_def
    by (rule refines_cong, (rule refines_intros refines_require_repo refines_stored_manifest)+) simp
qed

text \<open>Applying a batch keeps the state consistent when the store stays so and the names are left alone.\<close>

lemma wp_rg_apply:
  assumes h: "holds m s" and "bounded_batch b" and "nameless b" and "store_ok (rg_libs G) (apply_ops b m)"
    and "\<And>s'. holds (apply_ops b m) s' \<Longrightarrow> Q () s'"
    and "\<And>e s'. holds m s' \<Longrightarrow> engine_error may_fail e \<Longrightarrow> X e s'"
  shows "wp (rg_apply G b) Q X s"
  unfolding rg_apply_def meta_a_def wp_simps
proof (rule wp_apply [OF holdsD(2) [OF h] assms(2)])
  have n: "names_ok m" and c: "cache_ok m (names (rs_cache s)) (ids (rs_cache s))" and t: "tbl (rs_engine s) = m"
    using h by (auto simp: at_store_def interner_ok_def)
  fix e' assume e': "inv e'" "tbl e' = apply_ops b (tbl (rs_engine s))"
  have "names_ok (apply_ops b m)"
    by (rule names_ok_cong [OF n]) (simp_all add: nameless_names [OF assms(3)])
  moreover have "cache_ok (apply_ops b m) (names (rs_cache s)) (ids (rs_cache s))"
    by (rule cache_ok_cong [OF c]) (simp_all add: nameless_names [OF assms(3)])
  ultimately have "interner_ok tbl inv names ids (s\<lparr>rs_engine := e'\<rparr>)"
    using e' by (simp add: interner_ok_def t)
  with e' t assms(4) show "Q () (s\<lparr>rs_engine := e'\<rparr>)" by (intro assms(5)) (simp add: at_store_def)
next
  fix e e' assume "may_fail" "inv e'" "tbl e' = tbl (rs_engine s)"
  with h show "X (Meta e) (s\<lparr>rs_engine := e'\<rparr>)"
    by (intro assms(6)) (auto simp: at_store_def interner_ok_def engine_error_def)
qed

lemma commits_planned:
  assumes plan: "refines holds may_fail oper P"
    and ok: "\<And>m a b. store_ok (rg_libs G) m \<Longrightarrow> names_ok m \<Longrightarrow> finite (dom m) \<Longrightarrow> P m = Inr (a, b) \<Longrightarrow>
      bounded_batch b \<and> nameless b \<and> store_ok (rg_libs G) (apply_ops b m)"
  shows "commits holds may_fail (applied G oper)
    (\<lambda>m. and_then (P m) (\<lambda>(a, b). Inr (a, apply_ops b m)))"
  unfolding commits_def applied_def
proof (intro allI impI)
  fix m s assume h: "holds m s"
  let ?f = "and_then (P m) (\<lambda>(a, b). Inr (a, apply_ops b m))"
  let ?Q = "\<lambda>a s'. \<exists>m'. ?f = Inr (a, m') \<and> holds m' s'"
  let ?X = "\<lambda>e s'. holds m s' \<and> (?f = Inl e \<or> engine_error may_fail e)"
  have step: "wp (rg_apply G b) (\<lambda>_. ?Q a) ?X s'" if "P m = Inr (a, b)" "holds m s'" for a b s'
    by (rule wp_rg_apply [OF that(2)]) (use ok [OF holdsD(4,6) [OF h] holds_finite [OF h] that(1)] that(1) in auto)
  show "wp (bind_a oper (\<lambda>(a, b). bind_a (rg_apply G b) (\<lambda>_. return_a a))) ?Q ?X s"
    unfolding wp_bind
    by (rule refines_wp [OF plan h]) (use step in \<open>auto simp: wp_simps split_def\<close>)
qed

lemma wp_intern_repo:
  assumes h: "holds m s" and str: "is_str n"
    and ret: "\<And>r m1 s'. interned m n r m1 \<Longrightarrow> holds m1 s' \<Longrightarrow> Q r s'"
    and err: "\<And>e s'. holds m s' \<Longrightarrow> engine_error (may_fail \<or> ids_exhausted m n) e \<Longrightarrow> X e s'"
  shows "wp (intern_repo G n) Q X s"
  unfolding intern_repo_def meta_a_def wp_simps
proof (rule wp_intern [OF holdsD(1) [OF h] str])
  fix s' r assume "interner_ok tbl inv names ids s'" "rs_engine s' = rs_engine s" "id_of (tbl (rs_engine s)) n = Some r"
  then show "Q r s'" using h by (intro ret [of r m]) (auto simp: interned_def holdsD intro: holds_same)
next
  fix s' r assume a: "interner_ok tbl inv names ids s'" "id_of (tbl (rs_engine s)) n = None"
    "next_of (tbl (rs_engine s)) = Some r" "r \<noteq> NEXT_ID_KEY_ID"
    "tbl (rs_engine s') = alloc_store (tbl (rs_engine s)) n r"
  then show "Q r s'"
    using h store_ok_alloc [OF holdsD(4) [OF h] str]
    by (intro ret [of r "alloc_store m n r"]) (auto simp: interned_def at_store_def)
next
  fix e s' assume "may_fail \<or> (id_of (tbl (rs_engine s)) n = None \<and> next_of (tbl (rs_engine s)) = Some NEXT_ID_KEY_ID)"
    "interner_ok tbl inv names ids s'" "tbl (rs_engine s') = tbl (rs_engine s)"
  then show "X (Meta e) s'"
    using h by (intro err) (auto simp: at_store_def engine_error_def ids_exhausted_def)
qed

lemma commits_in_planned:
  assumes str: "is_str n" and plan: "\<And>r. refines holds may_fail (oper r) (P r)"
    and stable: "\<And>m r m1. interned m n r m1 \<Longrightarrow> pre m \<Longrightarrow> pre m1"
    and ok: "\<And>m r a b. store_ok (rg_libs G) m \<Longrightarrow> finite (dom m) \<Longrightarrow> pre m \<Longrightarrow> id_of m n = Some r \<Longrightarrow> P r m = Inr (a, b) \<Longrightarrow>
      bounded_batch b \<and> nameless b \<and> store_ok (rg_libs G) (apply_ops b m)"
  shows "commits_in holds may_fail pre n (applied G (bind_a (intern_repo G n) oper))
    (\<lambda>r m. and_then (P r m) (\<lambda>(a, b). Inr (a, apply_ops b m)))"
  unfolding commits_in_def
proof (intro allI impI)
  fix m s assume h: "holds m s" and pre: "pre m"
  let ?f = "\<lambda>r m. and_then (P r m) (\<lambda>(a, b). Inr (a, apply_ops b m))"
  let ?Q = "\<lambda>a s'. \<exists>r m1 m'. interned m n r m1 \<and> ?f r m1 = Inr (a, m') \<and> holds m' s'"
  let ?X = "\<lambda>e s'. (holds m s' \<and> engine_error (may_fail \<or> ids_exhausted m n) e)
      \<or> (\<exists>r m1. interned m n r m1 \<and> holds m1 s' \<and> (?f r m1 = Inl e \<or> engine_error may_fail e))"
  have "wp (applied G (oper r)) ?Q ?X s'" if i: "interned m n r m1" and h1: "holds m1 s'" for r m1 s'
  proof -
    have step: "wp (rg_apply G b) (\<lambda>_. ?Q a) ?X t" if "P r m1 = Inr (a, b)" "holds m1 t" for a b t
      by (rule wp_rg_apply [OF that(2)])
        (use ok [OF holdsD(4) [OF h1] holds_finite [OF h1] stable [OF i pre] interned_id [OF i] that(1)] i that(1) in force)+
    have failed: "?X e t" if "P r m1 = Inl e \<or> engine_error may_fail e" "holds m1 t" for e t
      using that i by (intro disjI2 exI [of _ r] exI [of _ m1]) auto
    show ?thesis unfolding applied_def wp_bind
      by (rule refines_wp [OF plan h1]) (use step failed in \<open>auto simp: wp_simps split_def\<close>)
  qed
  then show "wp (applied G (bind_a (intern_repo G n) oper)) ?Q ?X s"
    unfolding applied_def wp_bind by (intro wp_intern_repo [OF h str]) auto
qed

end

section \<open>A registry in memory\<close>

definition table_registry ::
    "registry_options \<Rightarrow> (bytes \<Rightarrow> shape option) \<Rightarrow> (bytes \<Rightarrow> image_manifest option) \<Rightarrow>
     (bytes \<Rightarrow> image_index option) \<Rightarrow> (table, list_caches) registry" where
  "table_registry opts sh im ix =
     \<lparr> rg_engine = table_engine, rg_caches = list_caches, rg_options = opts, rg_libs = plain_libs sh im ix \<rparr>"

lemma table_registry_simps [simp]:
  "rg_engine (table_registry opts sh im ix) = table_engine" "rg_caches (table_registry opts sh im ix) = list_caches"
  "rg_options (table_registry opts sh im ix) = opts" "rg_libs (table_registry opts sh im ix) = plain_libs sh im ix"
  by (simp_all add: table_registry_def)

interpretation trg: registry_env "table_registry opts sh im ix" table_map "\<lambda>_. True" False
  "\<lambda>c. map_of (fst c)" "\<lambda>c. map_of (snd c)" for opts sh im ix
  by (intro_locales; unfold table_registry_simps)
    (rule tre.engine_contract_axioms [unfolded engine_contract_def, THEN conjunct1]
      tre.engine_contract_axioms [unfolded engine_contract_def, THEN conjunct2]
      lc.lru_caches_axioms pl.library_code_axioms)+

lemma store_ok_empty: "store_ok lib Map.empty"
  by (simp add: store_ok_def entries_ok_def tags_ok_def bodies_ok_def edges_ok_def tag_at_def manifest_at_def)

lemma at_store_empty:
  "at_store table_map (\<lambda>_. True) (\<lambda>c. map_of (fst c)) (\<lambda>c. map_of (snd c)) lib Map.empty empty_state"
  using interner_ok_empty store_ok_empty by (simp add: at_store_def empty_state_def)

text \<open>A store with one repository name in it, and a state that holds it.\<close>

definition one_repo :: store where
  "one_repo = alloc_store Map.empty ''a'' 0"

definition one_repo_state :: "(table, list_caches) rstate" where
  "one_repo_state =
     \<lparr> rs_engine = table_put (repo_by_id NEXT_ID_KEY_ID) (to_be_bytes (1 :: u32))
         (table_put (repo_by_id 0) (as_bytes ''a'')
           (table_put (repo_by_name ''a'') (to_be_bytes (0 :: u32)) table_empty)),
       rs_cache = ([], []) \<rparr>"

lemma is_str_a: "is_str ''a''"
  by (simp add: is_str_def char_byte_def)

lemma id_of_one_repo: "id_of one_repo n = (if n = ''a'' then Some 0 else None)"
  unfolding one_repo_def by (simp add: id_of_alloc) (simp add: id_of_def)

lemma one_repo_data [simp]: "h \<noteq> 0x6E \<Longrightarrow> h \<noteq> 0x69 \<Longrightarrow> one_repo (h # k) = None"
  by (simp add: one_repo_def)

lemma at_store_one_repo:
  assumes "lib = plain_libs sh im ix"
  shows "at_store table_map (\<lambda>_. True) (\<lambda>c. map_of (fst c)) (\<lambda>c. map_of (snd c)) lib one_repo one_repo_state"
proof -
  have "table_map (rs_engine one_repo_state) = one_repo"
    by (simp add: one_repo_state_def one_repo_def alloc_store_def)
  moreover have "names_ok one_repo"
    unfolding one_repo_def
    by (rule names_ok_alloc [OF names_ok_empty]) (simp_all add: next_of_def NEXT_ID_KEY_ID_def is_str_a)
  moreover have "cache_ok one_repo (map_of (fst ([], []))) (map_of (snd ([], [])))"
    by (simp add: cache_ok_def)
  ultimately show ?thesis
    using store_ok_alloc [OF store_ok_empty is_str_a, of lib 0]
    by (simp add: at_store_def interner_ok_def one_repo_state_def one_repo_def)
qed

text \<open>A registry whose JSON reader takes every body for an index without entries, and a store with one manifest.\<close>

definition demo_libs :: libs where
  "demo_libs = plain_libs
     (\<lambda>_. Some \<lparr> sh_media_type = Some OCI_INDEX, sh_manifests = True, sh_config = False \<rparr>) (\<lambda>_. None)
     (\<lambda>_. Some \<lparr> ix_schema_version = 2, ix_artifact_type = None, ix_manifests = [], ix_annotations = None,
                 ix_subject = None \<rparr>)"

definition demo_registry :: "(table, list_caches) registry" where
  "demo_registry = \<lparr> rg_engine = table_engine, rg_caches = list_caches, rg_options = default_options, rg_libs = demo_libs \<rparr>"

definition demo_body :: bytes where
  "demo_body = [1, 2, 3]"

definition demo_digest :: digest where
  "demo_digest = digest_body demo_libs demo_body None"

definition demo_record :: manifest_record where
  "demo_record = \<lparr> mr_repo = 0, mr_digest = demo_digest, mr_media_type = OCI_INDEX, mr_size = 3,
     mr_total_layer_size = 0, mr_platform = None, mr_layers = [], mr_children = [], mr_subject = None,
     mr_artifact_type = None, mr_annotations = [], mr_pushed_at = 0 \<rparr>"

definition demo_store :: store where
  "demo_store = one_repo(manifest_key 0 demo_digest \<mapsto> stored_as (lb_manifest demo_libs) demo_record,
     manifest_body_key 0 demo_digest \<mapsto> demo_body)"

definition demo_state :: "(table, list_caches) rstate" where
  "demo_state = one_repo_state\<lparr>rs_engine := table_put (manifest_body_key 0 demo_digest) demo_body
     (table_put (manifest_key 0 demo_digest) (stored_as (lb_manifest demo_libs) demo_record)
       (rs_engine one_repo_state))\<rparr>"

interpretation dl: library_code demo_libs
  unfolding demo_libs_def by (rule pl.library_code_axioms)

interpretation dr: registry_env demo_registry table_map "\<lambda>_. True" False
  "\<lambda>c. map_of (fst c)" "\<lambda>c. map_of (snd c)"
  unfolding demo_registry_def demo_libs_def table_registry_def [symmetric] by (rule trg.registry_env_axioms)

lemma demo_parse:
  "parse_manifest demo_libs body c = Inr \<lparr> pm_kind = Index, pm_media_type = OCI_INDEX, pm_artifact_type = None,
     pm_referrer_artifact_type = None, pm_annotations = [], pm_subject = None, pm_blobs = [], pm_children = [] \<rparr>"
  by (simp add: parse_manifest_def demo_libs_def plain_libs_def classify_def parse_index_def check_schema_version_def
      try_option_def collect_annotations_def)

lemma demo_at [simp]:
  "id_of demo_store n = (if n = ''a'' then Some 0 else None)"
  "manifest_at demo_libs demo_store r d = (if r = 0 \<and> d = demo_digest then Some demo_record else None)"
  "body_at demo_libs demo_store r d = (if r = 0 \<and> d = demo_digest then Some demo_body else None)"
  "tag_at demo_libs demo_store r t = None"
proof -
  show "id_of demo_store n = (if n = ''a'' then Some 0 else None)"
    using id_of_one_repo [of n] by (simp add: id_of_def demo_store_def key_defs)
  show "manifest_at demo_libs demo_store r d = (if r = 0 \<and> d = demo_digest then Some demo_record else None)"
    by (simp add: manifest_at_def demo_store_def key_defs key_codes dl.coders)
  show "body_at demo_libs demo_store r d = (if r = 0 \<and> d = demo_digest then Some demo_body else None)"
    by (simp add: body_at_def demo_store_def key_defs key_codes) (simp add: demo_libs_def plain_libs_def)
  show "tag_at demo_libs demo_store r t = None"
    by (simp add: tag_at_def demo_store_def key_defs)
qed

lemma demo_store_ok: "store_ok demo_libs demo_store"
proof -
  have "entries_ok demo_libs one_repo"
    using store_ok_alloc [OF store_ok_empty is_str_a] by (simp add: one_repo_def store_ok_def)
  then have "entries_ok demo_libs demo_store"
    by (auto simp: entries_ok_def demo_store_def dl.coders) (simp_all add: demo_record_def demo_libs_def plain_libs_def)
  moreover have "tags_ok demo_libs demo_store"
    unfolding tags_ok_def demo_at by (simp add: demo_store_def key_defs)
  moreover have "bodies_ok demo_libs demo_store"
  proof -
    have "digest_body demo_libs demo_body (Some demo_digest) = demo_digest"
      by (simp add: demo_digest_def digest_body_def)
    then show ?thesis
      unfolding bodies_ok_def demo_at demo_parse
      by (auto simp: demo_store_def key_defs key_codes demo_record_def demo_body_def)
  qed
  moreover have "edges_ok demo_libs demo_store"
    unfolding edges_ok_def demo_at by (simp add: demo_store_def key_defs)
  ultimately show ?thesis by (simp add: store_ok_def)
qed

lemma at_store_demo:
  "at_store table_map (\<lambda>_. True) (\<lambda>c. map_of (fst c)) (\<lambda>c. map_of (snd c)) (rg_libs demo_registry) demo_store demo_state"
proof -
  have one: "at_store table_map (\<lambda>_. True) (\<lambda>c. map_of (fst c)) (\<lambda>c. map_of (snd c)) demo_libs one_repo one_repo_state"
    unfolding demo_libs_def by (rule at_store_one_repo) (rule refl)
  have n: "names_ok one_repo" and c: "cache_ok one_repo (map_of (fst (rs_cache one_repo_state))) (map_of (snd (rs_cache one_repo_state)))"
    and t: "table_map (rs_engine one_repo_state) = one_repo"
    using one by (auto simp: at_store_def interner_ok_def)
  have "table_map (rs_engine demo_state) = demo_store"
    by (simp add: demo_state_def demo_store_def t)
  moreover have "names_ok demo_store" by (rule names_ok_cong [OF n]) (simp_all add: demo_store_def key_defs)
  moreover have "cache_ok demo_store (map_of (fst (rs_cache demo_state))) (map_of (snd (rs_cache demo_state)))"
    using cache_ok_cong [OF c, of demo_store] by (simp add: demo_store_def key_defs demo_state_def)
  ultimately show ?thesis
    using demo_store_ok by (simp add: at_store_def interner_ok_def demo_registry_def)
qed

section \<open>Properties\<close>

text \<open>
  A blob is served under a repository exactly when the repository holds it: some manifest of that
  repository has an edge to it, or it was uploaded or mounted there. That the content exists
  elsewhere is not enough, and an unknown repository, a foreign blob and a missing one are
  the same answer. The read changes nothing.
\<close>

theorem blob_authorisation:
  assumes "registry_env G tbl ok fails names ids" and "at_store tbl ok names ids (rg_libs G) m s"
    and "servable_blob G repo d s = (Inr found, s')"
  shows "at_store tbl ok names ids (rg_libs G) m s'
    \<and> found = (if \<exists>r. id_of m repo = Some r \<and> ((\<exists>md. m (blob_ref_key d r md) \<noteq> None) \<or> m (repo_blob_key r d) \<noteq> None)
               then blob_at (rg_libs G) m d else None)"
  using refines_run [OF registry_env.refines_servable_blob [OF assms(1)] assms(2,3)]
  unfolding servable_def by auto

theorem blob_authorisation_witness:
  "\<exists>s'. servable_blob (table_registry default_options (\<lambda>_. None) (\<lambda>_. None) (\<lambda>_. None)) ''a''
     (Sha256 (arr32 [])) one_repo_state = (Inr None, s')"
proof -
  let ?G = "table_registry default_options (\<lambda>_. None) (\<lambda>_. None) (\<lambda>_. None)"
  obtain r s' where run: "servable_blob ?G ''a'' (Sha256 (arr32 [])) one_repo_state = (r, s')" by fastforce
  have at: "at_store table_map (\<lambda>_. True) (\<lambda>c. map_of (fst c)) (\<lambda>c. map_of (snd c)) (rg_libs ?G) one_repo one_repo_state"
    by (rule at_store_one_repo) simp
  from refines_run [OF trg.refines_servable_blob at run] obtain found where "r = Inr found"
    by (auto simp: engine_error_def)
  with blob_authorisation [OF trg.registry_env_axioms at, of "''a''" "Sha256 (arr32 [])" found s'] run
  show ?thesis by (simp add: id_of_one_repo key_defs)
qed

text \<open>
  \<open>HEAD\<close> and \<open>GET\<close> of a manifest agree: under every reference either both find nothing, or they
  give the same digest and media type, and the size that \<open>HEAD\<close> announces is the length of the body
  that \<open>GET\<close> serves. The body digests to the digest it is served under.
\<close>

theorem head_get_agree:
  assumes "registry_env G tbl ok fails names ids" and "at_store tbl ok names ids (rg_libs G) m s"
    and "head_manifest G repo ref s = (Inr h, s1)"
    and "(case ref of Tag t \<Rightarrow> get_manifest_by_tag G repo t | DigestRef d \<Rightarrow> get_manifest_by_digest G repo d) s = (Inr g, s2)"
  shows "case h of
      None \<Rightarrow> g = None
    | Some hv \<Rightarrow> (\<exists>body. g = Some \<lparr> sm_digest = mh_digest hv, sm_media_type = mh_media_type hv, sm_body = body \<rparr>
        \<and> mh_size hv = word_of_nat (length body) \<and> digest_body (rg_libs G) body (Some (mh_digest hv)) = mh_digest hv
        \<and> (\<forall>d. ref = DigestRef d \<longrightarrow> mh_digest hv = d))"
proof -
  let ?lib = "rg_libs G"
  have ok: "store_ok ?lib m" using assms(2) by (simp add: at_store_def)
  have body: "\<exists>body. body_at ?lib m r d = Some body \<and> mr_size rec = word_of_nat (length body)
      \<and> digest_body ?lib body (Some d) = d" if "manifest_at ?lib m r d = Some rec" for r d rec
    using store_ok_body [OF ok that] by blast
  obtain r where r: "id_of m repo = Some r"
    using refines_run [OF registry_env.refines_head_manifest [OF assms(1)] assms(2,3)] by (cases "id_of m repo") auto
  let ?d = "case ref of DigestRef d \<Rightarrow> Some d | Tag t \<Rightarrow> map_option tr_digest (tag_at ?lib m r t)"
  have h: "h = Option.bind ?d (\<lambda>d. map_option
      (\<lambda>rec. \<lparr> mh_digest = d, mh_media_type = mr_media_type rec, mh_size = mr_size rec \<rparr>) (manifest_at ?lib m r d))"
    using refines_run [OF registry_env.refines_head_manifest [OF assms(1)] assms(2,3)] r by auto
  have g: "g = Option.bind ?d (\<lambda>d. case manifest_at ?lib m r d of None \<Rightarrow> None
      | Some rec \<Rightarrow> map_option (\<lambda>body. \<lparr> sm_digest = d, sm_media_type = mr_media_type rec, sm_body = body \<rparr>)
          (body_at ?lib m r d))"
    using refines_run [OF registry_env.refines_get_manifest [OF assms(1)] assms(2,4)] r by auto
  show ?thesis
  proof (cases ?d)
    case (Some d)
    then have "\<forall>e. ref = DigestRef e \<longrightarrow> d = e" by auto
    with body [of r d] show ?thesis
      unfolding h g Some by (cases "manifest_at ?lib m r d") auto
  qed (simp add: h g)
qed

theorem head_get_agree_witness:
  "\<exists>s1 s2. head_manifest demo_registry ''a'' (DigestRef demo_digest) demo_state
       = (Inr (Some \<lparr> mh_digest = demo_digest, mh_media_type = OCI_INDEX, mh_size = 3 \<rparr>), s1)
     \<and> get_manifest_by_digest demo_registry ''a'' demo_digest demo_state
       = (Inr (Some \<lparr> sm_digest = demo_digest, sm_media_type = OCI_INDEX, sm_body = demo_body \<rparr>), s2)"
proof -
  let ?ref = "DigestRef demo_digest"
  obtain rh s1 where h: "head_manifest demo_registry ''a'' ?ref demo_state = (rh, s1)" by fastforce
  obtain rg s2 where g: "(case ?ref of Tag t \<Rightarrow> get_manifest_by_tag demo_registry ''a'' t
      | DigestRef d \<Rightarrow> get_manifest_by_digest demo_registry ''a'' d) demo_state = (rg, s2)" by fastforce
  have lib: "rg_libs demo_registry = demo_libs" by (simp add: demo_registry_def)
  have rh: "rh = Inr (Some \<lparr> mh_digest = demo_digest, mh_media_type = OCI_INDEX, mh_size = 3 \<rparr>)"
    using refines_run [OF dr.refines_head_manifest at_store_demo h]
    by (simp add: engine_error_def lib demo_record_def)
  obtain gv where rg: "rg = Inr gv"
    using refines_run [OF dr.refines_get_manifest at_store_demo g] by (auto simp: engine_error_def lib)
  have "gv = Some \<lparr> sm_digest = demo_digest, sm_media_type = OCI_INDEX, sm_body = demo_body \<rparr>"
    using refines_run [OF dr.refines_get_manifest at_store_demo g] rg
    by (simp add: engine_error_def lib demo_record_def)
  with head_get_agree [OF dr.registry_env_axioms at_store_demo h [unfolded rh] g [unfolded rg]] h g rh rg
  show ?thesis by simp
qed

end
