(* ===== verification/Summ_Tags.thy ===== *)
theory Summ_Tags
  imports Summ_Registry
begin

text \<open>
  Tags (\<open>summ-registry/src/tags.rs\<close>): setting, moving and deleting them with their reverse index,
  their history and the referrer edge of an artifact tag, and the two ordered lists.
\<close>

section \<open>Operations\<close>

record tag_list =
  tl_tags :: "string list"
  tl_next :: "string option"

record tag_set =
  ts_displaced :: "digest option"

record tag_target =
  tt_digest :: digest
  tt_media_type :: string
  tt_size :: u64
  tt_referrer :: referrer_record

definition stage_set_tag ::
    "('s, 'c) registry \<Rightarrow> write_batch \<Rightarrow> repo_id \<Rightarrow> string \<Rightarrow> tag_target \<Rightarrow> timestamp \<Rightarrow>
     ('s, 'c, digest option planned) op" where
  "stage_set_tag G batch repo t target now =
     bind_a (lift_a (validate_tag t)) (\<lambda>_.
     bind_a (subject_a t) (\<lambda>artifact_subject.
     bind_a (tag_record_of G repo t) (\<lambda>record.
     let previous = map_option tr_digest record;
         batch = (case previous of
             None \<Rightarrow> batch
           | Some old \<Rightarrow>
               if old = tt_digest target then batch
               else let b = batch_delete (manifest_tag_key repo old t) batch in
                    case artifact_subject of None \<Rightarrow> b | Some subject \<Rightarrow> batch_delete (referrer_key repo subject old) b) in
     bind_a (lift_a (encode (lb_tag (rg_libs G)) \<lparr> tr_digest = tt_digest target, tr_tagged_at = secs now \<rparr>)) (\<lambda>tag_bytes.
     let batch = batch_set (manifest_tag_key repo (tt_digest target) t) (batch_put (tag_key repo t) tag_bytes batch);
         event = \<lparr> te_event = Created, te_media_type = tt_media_type target, te_size = tt_size target \<rparr> in
     bind_a (lift_a (encode (lb_event (rg_libs G)) event)) (\<lambda>encoded.
     let batch = batch_put (manifest_tag_history_key repo (tt_digest target) now t) encoded
                   (batch_put (tag_history_key repo t now (tt_digest target)) encoded batch) in
     case artifact_subject of
       None \<Rightarrow> return_a (previous, batch)
     | Some subject \<Rightarrow>
         bind_a (lift_a (encode (lb_referrer (rg_libs G)) (tt_referrer target))) (\<lambda>referrer.
           return_a (previous, batch_put (referrer_key repo subject (tt_digest target)) referrer batch)))))))"

definition tag_target_of ::
    "('s, 'c) registry \<Rightarrow> repo_id \<Rightarrow> digest \<Rightarrow> string \<Rightarrow> manifest_record \<Rightarrow> ('s, 'c, tag_target) op" where
  "tag_target_of G repo d t record =
     bind_a (subject_a t) (\<lambda>subject.
     bind_a (if subject \<noteq> None then
               bind_a (rg_get G (manifest_body_key repo d)) (\<lambda>found.
                 case found of
                   Some stored \<Rightarrow>
                     bind_a (lift_a (decompress_body (rg_libs G) stored)) (\<lambda>body.
                     bind_a (lift_a (parse_manifest (rg_libs G) body (Some (mr_media_type record)))) (\<lambda>p.
                       return_a (pm_referrer_artifact_type p)))
                 | None \<Rightarrow> return_a (mr_artifact_type record))
             else return_a (mr_artifact_type record)) (\<lambda>artifact_type.
       return_a \<lparr> tt_digest = d, tt_media_type = mr_media_type record, tt_size = mr_size record,
                  tt_referrer = \<lparr> rr_media_type = mr_media_type record, rr_artifact_type = artifact_type,
                                  rr_size = mr_size record, rr_annotations = mr_annotations record \<rparr> \<rparr>))"

definition plan_set_tag ::
    "('s, 'c) registry \<Rightarrow> string \<Rightarrow> string \<Rightarrow> digest \<Rightarrow> timestamp \<Rightarrow> ('s, 'c, tag_set planned) op" where
  "plan_set_tag G repo t d now =
     bind_a (lift_a (validate_tag t)) (\<lambda>_.
     bind_a (require_repo G repo) (\<lambda>repo_id.
     bind_a (manifest_record_of G repo_id d) (\<lambda>found.
     bind_a (lift_a (ok_or (ManifestUnknown repo (to_string d)) found)) (\<lambda>record.
     bind_a (tag_target_of G repo_id d t record) (\<lambda>target.
     bind_a (stage_set_tag G batch_new repo_id t target now) (\<lambda>(displaced, batch).
       return_a (\<lparr> ts_displaced = displaced \<rparr>, batch)))))))"

definition set_tag ::
    "('s, 'c) registry \<Rightarrow> string \<Rightarrow> string \<Rightarrow> digest \<Rightarrow> timestamp \<Rightarrow> ('s, 'c, tag_set) op" where
  "set_tag G repo t d now = applied G (plan_set_tag G repo t d now)"

definition stage_delete_tag ::
    "('s, 'c) registry \<Rightarrow> write_batch \<Rightarrow> repo_id \<Rightarrow> string \<Rightarrow> digest \<Rightarrow> manifest_record option \<Rightarrow> timestamp \<Rightarrow>
     ('s, 'c, write_batch) op" where
  "stage_delete_tag G batch repo t d record now =
     (let batch = batch_delete (manifest_tag_key repo d t) (batch_delete (tag_key repo t) batch) in
     bind_a (subject_a t) (\<lambda>artifact_subject.
     let batch = (case artifact_subject of
             None \<Rightarrow> batch | Some subject \<Rightarrow> batch_delete (referrer_key repo subject d) batch);
         event = \<lparr> te_event = Deleted,
                   te_media_type = (case record of Some r \<Rightarrow> mr_media_type r | None \<Rightarrow> DEFAULT_MEDIA_TYPE),
                   te_size = (case record of Some r \<Rightarrow> mr_size r | None \<Rightarrow> 0) \<rparr> in
     bind_a (lift_a (encode (lb_event (rg_libs G)) event)) (\<lambda>encoded.
       return_a (batch_put (manifest_tag_history_key repo d now t) encoded
         (batch_put (tag_history_key repo t now d) encoded batch)))))"

definition plan_delete_tag ::
    "('s, 'c) registry \<Rightarrow> string \<Rightarrow> string \<Rightarrow> timestamp \<Rightarrow> ('s, 'c, digest planned) op" where
  "plan_delete_tag G repo t now =
     bind_a (require_repo G repo) (\<lambda>repo_id.
     bind_a (tag_record_of G repo_id t) (\<lambda>found.
     bind_a (lift_a (ok_or (ManifestUnknown repo t) found)) (\<lambda>record.
     bind_a (manifest_record_of G repo_id (tr_digest record)) (\<lambda>manifest.
     bind_a (stage_delete_tag G batch_new repo_id t (tr_digest record) manifest now) (\<lambda>batch.
       return_a (tr_digest record, batch))))))"

definition delete_tag :: "('s, 'c) registry \<Rightarrow> string \<Rightarrow> string \<Rightarrow> timestamp \<Rightarrow> ('s, 'c, digest) op" where
  "delete_tag G repo t now = applied G (plan_delete_tag G repo t now)"

definition next_tag :: "bytes option \<Rightarrow> registry_error + string option" where
  "next_tag cursor =
     (case cursor of
        None \<Rightarrow> Inr None
      | Some key \<Rightarrow> and_then (ok_or (corrupt ''tag cursor'') (parse_tag_suffix key)) (\<lambda>t. Inr (Some t)))"

definition list_tags ::
    "('s, 'c) registry \<Rightarrow> string \<Rightarrow> string option \<Rightarrow> nat \<Rightarrow> ('s, 'c, tag_list) op" where
  "list_tags G repo start_after limit =
     bind_a (require_repo G repo) (\<lambda>repo_id.
     bind_a (rg_scan_keys G (tags_in_repo repo_id) (map_option (tag_key repo_id) start_after) limit) (\<lambda>page.
     bind_a (lift_a (try_map (\<lambda>key. ok_or (corrupt ''tag key'') (parse_tag_suffix key)) (kp_keys page))) (\<lambda>tags.
     bind_a (lift_a (next_tag (kp_next page))) (\<lambda>nxt.
       return_a \<lparr> tl_tags = tags, tl_next = nxt \<rparr>))))"

definition list_manifest_tags ::
    "('s, 'c) registry \<Rightarrow> string \<Rightarrow> digest \<Rightarrow> string option \<Rightarrow> nat \<Rightarrow> ('s, 'c, tag_list) op" where
  "list_manifest_tags G repo d start_after limit =
     bind_a (require_repo G repo) (\<lambda>repo_id.
     bind_a (rg_scan_keys G (tags_of_manifest repo_id d) (map_option (manifest_tag_key repo_id d) start_after) limit) (\<lambda>page.
     bind_a (lift_a (try_map (\<lambda>key. ok_or (corrupt ''manifest-tag key'') (parse_manifest_tag_suffix key d)) (kp_keys page))) (\<lambda>tags.
     bind_a (case kp_next page of
         Some key \<Rightarrow> bind_a (lift_a (ok_or (corrupt ''manifest-tag cursor'') (parse_manifest_tag_suffix key d)))
           (\<lambda>t. return_a (Some t))
       | None \<Rightarrow> return_a None) (\<lambda>nxt.
       return_a \<lparr> tl_tags = tags, tl_next = nxt \<rparr>))))"

section \<open>The batches, as functions of what was there\<close>

definition subject_of :: "string \<Rightarrow> digest option" where
  "subject_of t = (case subject_of_artifact_tag t of Returns d \<Rightarrow> d | Panics \<Rightarrow> None)"

definition set_tag_ops ::
    "libs \<Rightarrow> repo_id \<Rightarrow> string \<Rightarrow> tag_target \<Rightarrow> timestamp \<Rightarrow> digest option \<Rightarrow> write_batch" where
  "set_tag_ops lib r t target now previous =
     (case previous of
        None \<Rightarrow> []
      | Some old \<Rightarrow> if old = tt_digest target then []
          else Delete (manifest_tag_key r old t)
            # (case subject_of t of None \<Rightarrow> [] | Some s \<Rightarrow> [Delete (referrer_key r s old)]))
     @ [Put (tag_key r t) (stored_as (lb_tag lib) \<lparr> tr_digest = tt_digest target, tr_tagged_at = secs now \<rparr>),
        Put (manifest_tag_key r (tt_digest target) t) [],
        Put (tag_history_key r t now (tt_digest target))
          (stored_as (lb_event lib) \<lparr> te_event = Created, te_media_type = tt_media_type target, te_size = tt_size target \<rparr>),
        Put (manifest_tag_history_key r (tt_digest target) now t)
          (stored_as (lb_event lib) \<lparr> te_event = Created, te_media_type = tt_media_type target, te_size = tt_size target \<rparr>)]
     @ (case subject_of t of None \<Rightarrow> []
        | Some s \<Rightarrow> [Put (referrer_key r s (tt_digest target)) (stored_as (lb_referrer lib) (tt_referrer target))])"

definition deleted_event :: "manifest_record option \<Rightarrow> tag_event" where
  "deleted_event record =
     \<lparr> te_event = Deleted,
       te_media_type = (case record of Some r \<Rightarrow> mr_media_type r | None \<Rightarrow> DEFAULT_MEDIA_TYPE),
       te_size = (case record of Some r \<Rightarrow> mr_size r | None \<Rightarrow> 0) \<rparr>"

definition delete_tag_ops ::
    "libs \<Rightarrow> repo_id \<Rightarrow> string \<Rightarrow> digest \<Rightarrow> manifest_record option \<Rightarrow> timestamp \<Rightarrow> write_batch" where
  "delete_tag_ops lib r t d record now =
     [Delete (tag_key r t), Delete (manifest_tag_key r d t)]
     @ (case subject_of t of None \<Rightarrow> [] | Some s \<Rightarrow> [Delete (referrer_key r s d)])
     @ [Put (tag_history_key r t now d) (stored_as (lb_event lib) (deleted_event record)),
        Put (manifest_tag_history_key r d now t) (stored_as (lb_event lib) (deleted_event record))]"

lemma subject_a_valid: "valid_tag t \<Longrightarrow> subject_a t = return_a (subject_of t)"
  using subject_no_panic [OF valid_tag_ascii, of t] by (fastforce simp: subject_a_def subject_of_def)

lemma set_tag_ops_ranged: "ranged {0x47, 0x46, 0x54, 0x48, 0x4A} (set_tag_ops lib r t target now previous)"
  by (simp add: set_tag_ops_def key_defs split: option.split)

lemma delete_tag_ops_ranged: "ranged {0x47, 0x46, 0x54, 0x48, 0x4A} (delete_tag_ops lib r t d record now)"
  by (simp add: delete_tag_ops_def key_defs split: option.split)

text \<open>What they leave at the keys of tags.\<close>

lemma set_tag_ops_tag:
  "apply_ops (set_tag_ops lib r t target now previous) m (tag_key q u) =
     (if q = r \<and> u = t
      then Some (stored_as (lb_tag lib) \<lparr> tr_digest = tt_digest target, tr_tagged_at = secs now \<rparr>)
      else m (tag_key q u))"
  by (auto simp: set_tag_ops_def key_defs key_codes split: option.split)

lemma set_tag_ops_index:
  "apply_ops (set_tag_ops lib r t target now previous) m (manifest_tag_key q d u) =
     (if q = r \<and> u = t \<and> d = tt_digest target then Some []
      else if q = r \<and> u = t \<and> previous = Some d then None
      else m (manifest_tag_key q d u))"
  by (auto simp: set_tag_ops_def key_defs key_codes split: option.split)

lemma set_tag_ops_referrer:
  "apply_ops (set_tag_ops lib r t target now previous) m (referrer_key q s e) =
     (if q = r \<and> subject_of t = Some s \<and> e = tt_digest target then Some (stored_as (lb_referrer lib) (tt_referrer target))
      else if q = r \<and> subject_of t = Some s \<and> previous = Some e then None
      else m (referrer_key q s e))"
  by (auto simp: set_tag_ops_def key_defs key_codes split: option.split)

lemma delete_tag_ops_referrer:
  "apply_ops (delete_tag_ops lib r t d record now) m (referrer_key q s e) =
     (if q = r \<and> subject_of t = Some s \<and> e = d then None else m (referrer_key q s e))"
  by (auto simp: delete_tag_ops_def key_defs key_codes split: option.split)

lemma tag_ops_manifest_history:
  "apply_ops (set_tag_ops lib r t target now previous) m (manifest_tag_history_key q e at u) =
     (if (q, e, at, u) = (r, tt_digest target, now, t)
      then Some (stored_as (lb_event lib) \<lparr> te_event = Created, te_media_type = tt_media_type target, te_size = tt_size target \<rparr>)
      else m (manifest_tag_history_key q e at u))"
  "apply_ops (delete_tag_ops lib r t d record now) m (manifest_tag_history_key q e at u) =
     (if (q, e, at, u) = (r, d, now, t) then Some (stored_as (lb_event lib) (deleted_event record))
      else m (manifest_tag_history_key q e at u))"
  by (auto simp: set_tag_ops_def delete_tag_ops_def key_defs key_codes split: option.split)

lemma tag_ops_history:
  assumes "valid_tag t" and "nul_free u"
  shows "apply_ops (set_tag_ops lib r t target now previous) m (tag_history_key q u at e) =
      (if (q, u, at, e) = (r, t, now, tt_digest target)
       then Some (stored_as (lb_event lib) \<lparr> te_event = Created, te_media_type = tt_media_type target, te_size = tt_size target \<rparr>)
       else m (tag_history_key q u at e))"
    "apply_ops (delete_tag_ops lib r t d rec now) m (tag_history_key q u at e) =
      (if (q, u, at, e) = (r, t, now, d) then Some (stored_as (lb_event lib) (deleted_event rec))
       else m (tag_history_key q u at e))"
  using valid_tag_facts(2) [OF assms(1)] assms(2)
  by (auto simp: set_tag_ops_def delete_tag_ops_def key_defs key_codes split: option.split)

lemma delete_tag_ops_tag:
  "apply_ops (delete_tag_ops lib r t d record now) m (tag_key q u) =
     (if q = r \<and> u = t then None else m (tag_key q u))"
  by (auto simp: delete_tag_ops_def key_defs key_codes split: option.split)

lemma delete_tag_ops_index:
  "apply_ops (delete_tag_ops lib r t d record now) m (manifest_tag_key q e u) =
     (if q = r \<and> u = t \<and> e = d then None else m (manifest_tag_key q e u))"
  by (auto simp: delete_tag_ops_def key_defs key_codes split: option.split)

section \<open>Consistency\<close>

context library_code
begin

lemma set_tag_ops_good:
  assumes "valid_tag t" and "Put k v \<in> set (set_tag_ops lib r t target now previous)"
  shows "good_entry lib k v"
  using assms by (auto simp: set_tag_ops_def coders good_entry_tagged split: option.splits if_splits)

lemma delete_tag_ops_good:
  assumes "valid_tag t" and "Put k v \<in> set (delete_tag_ops lib r t d record now)"
  shows "good_entry lib k v"
  using assms by (auto simp: delete_tag_ops_def coders good_entry_tagged split: option.splits)

lemma tag_at_set:
  "tag_at lib (apply_ops (set_tag_ops lib r t target now previous) m) q u =
     (if q = r \<and> u = t then Some \<lparr> tr_digest = tt_digest target, tr_tagged_at = secs now \<rparr> else tag_at lib m q u)"
  by (simp add: tag_at_def set_tag_ops_tag coders)

lemma tag_at_delete:
  "tag_at lib (apply_ops (delete_tag_ops lib r t d record now) m) q u =
     (if q = r \<and> u = t then None else tag_at lib m q u)"
  by (simp add: tag_at_def delete_tag_ops_tag)

lemma ranged_tag_keys:
  assumes "ranged {0x47, 0x46, 0x54, 0x48, 0x4A} b"
  shows "apply_ops b m (manifest_key q e) = m (manifest_key q e)"
    "apply_ops b m (manifest_body_key q e) = m (manifest_body_key q e)"
    "apply_ops b m (blob_key e) = m (blob_key e)"
    "apply_ops b m (blob_ref_key e q f) = m (blob_ref_key e q f)"
    "apply_ops b m (child_parent_key q e f) = m (child_parent_key q e f)"
  using assms by (auto simp: key_defs ranged_untouched)

lemmas set_tag_ops_other = ranged_tag_keys [OF set_tag_ops_ranged]
lemmas delete_tag_ops_other = ranged_tag_keys [OF delete_tag_ops_ranged]

lemma store_ok_set_tag:
  assumes ok: "store_ok lib m" and t: "valid_tag t" and target: "m (manifest_key r (tt_digest target)) \<noteq> None"
    and prev: "previous = map_option tr_digest (tag_at lib m r t)"
  shows "store_ok lib (apply_ops (set_tag_ops lib r t target now previous) m)"
proof -
  let ?m = "apply_ops (set_tag_ops lib r t target now previous) m"
  have "entries_ok lib ?m"
    by (rule entries_ok_apply) (use ok set_tag_ops_good [OF t] in \<open>auto simp: store_ok_def\<close>)
  moreover have "bodies_ok lib ?m" "edges_ok lib ?m"
    using ok unfolding store_ok_def
    by (auto elim!: bodies_ok_cong edges_ok_cong simp: set_tag_ops_other)
  moreover have "tags_ok lib ?m"
    using ok target unfolding store_ok_def tags_ok_def tag_at_set set_tag_ops_index prev set_tag_ops_other
    by (auto, metis not_Some_eq)
  ultimately show ?thesis by (simp add: store_ok_def)
qed

lemma store_ok_delete_tag:
  assumes ok: "store_ok lib m" and t: "valid_tag t" and d: "map_option tr_digest (tag_at lib m r t) = Some d"
  shows "store_ok lib (apply_ops (delete_tag_ops lib r t d record now) m)"
proof -
  let ?m = "apply_ops (delete_tag_ops lib r t d record now) m"
  define f where "f = (\<lambda>r t. map_option tr_digest (tag_at lib m r t))"
  have f: "map_option tr_digest (tag_at lib ?m q u) = (if q = r \<and> u = t then None else f q u)" for q u
    by (simp add: f_def tag_at_delete)
  have fd: "f r t = Some d" using d by (simp add: f_def)
  have tags: "\<forall>r t d. f r t = Some d \<longrightarrow> m (manifest_key r d) \<noteq> None"
    and index: "m (manifest_tag_key r d t) \<noteq> None \<longleftrightarrow> f r t = Some d" for r d t
    using ok unfolding store_ok_def tags_ok_def f_def by blast+
  have "entries_ok lib ?m"
    by (rule entries_ok_apply) (use ok delete_tag_ops_good [OF t] in \<open>auto simp: store_ok_def\<close>)
  moreover have "bodies_ok lib ?m" "edges_ok lib ?m"
    using ok unfolding store_ok_def
    by (auto elim!: bodies_ok_cong edges_ok_cong simp: delete_tag_ops_other)
  moreover have "tags_ok lib ?m"
    unfolding tags_ok_def f delete_tag_ops_index delete_tag_ops_other
    using tags index [of r _ t] index fd by (simp del: not_None_eq) (metis option.inject)
  ultimately show ?thesis by (simp add: store_ok_def)
qed

lemma tag_at_valid: "entries_ok lib m \<Longrightarrow> tag_at lib m r t = Some rec \<Longrightarrow> valid_tag t"
  by (auto simp: tag_at_def bind_eq_Some_conv dest: entries_okD)

end

section \<open>Refinement\<close>

text \<open>The outcome and the batch of each planned operation, as functions of the store.\<close>

definition stage_set_spec ::
    "libs \<Rightarrow> write_batch \<Rightarrow> repo_id \<Rightarrow> string \<Rightarrow> tag_target \<Rightarrow> timestamp \<Rightarrow> store \<Rightarrow> registry_error + digest option planned" where
  "stage_set_spec lib batch r t target now m =
     and_then (validate_tag t) (\<lambda>_.
       let previous = map_option tr_digest (tag_at lib m r t)
       in Inr (previous, batch @ set_tag_ops lib r t target now previous))"

definition target_at :: "libs \<Rightarrow> store \<Rightarrow> repo_id \<Rightarrow> digest \<Rightarrow> string \<Rightarrow> manifest_record \<Rightarrow> tag_target" where
  "target_at lib m r d t rec =
     \<lparr> tt_digest = d, tt_media_type = mr_media_type rec, tt_size = mr_size rec,
       tt_referrer = \<lparr> rr_media_type = mr_media_type rec,
         rr_artifact_type =
           (if subject_of t = None then mr_artifact_type rec
            else (case parse_manifest lib (the (body_at lib m r d)) None of
                    Inr p \<Rightarrow> pm_referrer_artifact_type p | Inl _ \<Rightarrow> None)),
         rr_size = mr_size rec, rr_annotations = mr_annotations rec \<rparr> \<rparr>"

definition set_tag_spec ::
    "libs \<Rightarrow> string \<Rightarrow> string \<Rightarrow> digest \<Rightarrow> timestamp \<Rightarrow> store \<Rightarrow> registry_error + tag_set planned" where
  "set_tag_spec lib repo t d now m =
     and_then (validate_tag t) (\<lambda>_.
     and_then (ok_or (NameUnknown repo) (id_of m repo)) (\<lambda>r.
     and_then (ok_or (ManifestUnknown repo (to_string d)) (manifest_at lib m r d)) (\<lambda>rec.
     let previous = map_option tr_digest (tag_at lib m r t)
     in Inr (\<lparr> ts_displaced = previous \<rparr>, set_tag_ops lib r t (target_at lib m r d t rec) now previous))))"

definition delete_tag_spec ::
    "libs \<Rightarrow> string \<Rightarrow> string \<Rightarrow> timestamp \<Rightarrow> store \<Rightarrow> registry_error + digest planned" where
  "delete_tag_spec lib repo t now m =
     and_then (ok_or (NameUnknown repo) (id_of m repo)) (\<lambda>r.
     and_then (ok_or (ManifestUnknown repo t) (tag_at lib m r t)) (\<lambda>rec.
     Inr (tr_digest rec, delete_tag_ops lib r t (tr_digest rec) (manifest_at lib m r (tr_digest rec)) now)))"

lemma target_at_digest [simp]: "tt_digest (target_at lib m r d t rec) = d"
  by (simp add: target_at_def)

text \<open>A page of tags: the names in byte order, and where to resume.\<close>

definition tag_page :: "store \<Rightarrow> bytes \<Rightarrow> string option \<Rightarrow> nat \<Rightarrow> tag_list" where
  "tag_page m p start_after limit =
     (case suffix_page m p (map_option as_bytes start_after) limit of
        (bs, nxt) \<Rightarrow> \<lparr> tl_tags = map (map byte_char) bs, tl_next = map_option (map byte_char) nxt \<rparr>)"

lemma try_map_all: "(\<And>x. x \<in> set xs \<Longrightarrow> f x = Inr (g x)) \<Longrightarrow> try_map f xs = Inr (map g xs)"
  by (induction xs) auto

lemma suffix_tags:
  assumes "entries_ok lib m" and "b \<in> suffixes_after m p a" and "p = tags_in_repo r \<or> p = tags_of_manifest r d"
  obtains t where "valid_tag t" "b = as_bytes t"
proof -
  have "m (p @ b) \<noteq> None" using assms(2) by (simp add: suffixes_after_def)
  with assms(1) obtain sk where sk: "p @ b = encode_key sk" "good_key sk" "wf_key sk"
    by (rule entries_ok_key)
  then have "prefix p (encode_key sk)" by (metis prefixI)
  with assms(3) sk(3) obtain t where "sk = KTag r t \<or> sk = KManifestTag r d t"
    using prefix_keys(5,7) by metis
  with sk assms(3) that show ?thesis by (auto simp: key_defs)
qed

lemma parse_suffixes:
  assumes "entries_ok lib m" and "b \<in> suffixes_after m p a"
  shows "p = tags_in_repo r \<Longrightarrow> parse_tag_suffix (p @ b) = Some (map byte_char b)"
    and "p = tags_of_manifest r d \<Longrightarrow> parse_manifest_tag_suffix (p @ b) d = Some (map byte_char b)"
proof -
  show "parse_tag_suffix (p @ b) = Some (map byte_char b)" if "p = tags_in_repo r"
    using suffix_tags [OF assms disjI1 [OF that]] that parse_tag_suffix_key valid_tag_facts(1)
    by (fastforce simp: key_defs)
  show "parse_manifest_tag_suffix (p @ b) d = Some (map byte_char b)" if "p = tags_of_manifest r d"
    using suffix_tags [OF assms disjI2 [OF that]] that parse_manifest_tag_suffix_key valid_tag_facts(1)
    by (fastforce simp: key_defs)
qed

lemma tag_page_read:
  assumes "finite (dom m)"
    and "\<And>b. b \<in> suffixes_after m p (map_option as_bytes a) \<Longrightarrow> parse (p @ b) = Some (map byte_char b)"
    and "page = key_page_of (scan_page m p (map_option (append p) (map_option as_bytes a)) n)"
  shows "try_map (\<lambda>k. ok_or e (parse k)) (kp_keys page) = Inr (tl_tags (tag_page m p a n))"
    and "try_option (\<lambda>k. ok_or e (parse k)) (kp_next page) = Inr (tl_next (tag_page m p a n))"
proof -
  obtain bs nxt where sp: "suffix_page m p (map_option as_bytes a) n = (bs, nxt)" by fastforce
  have page: "kp_keys page = map (append p) bs" "kp_next page = map_option (append p) nxt"
    unfolding assms(3) key_page_of_def scan_page_suffixes [OF assms(1)] by (simp_all add: sp comp_def)
  have bs: "set bs \<subseteq> suffixes_after m p (map_option as_bytes a)"
    and nxt: "\<And>b. nxt = Some b \<Longrightarrow> b \<in> suffixes_after m p (map_option as_bytes a)"
    using suffix_page_facts [OF assms(1), of p "map_option as_bytes a" n] sp by auto
  have "try_map (\<lambda>k. ok_or e (parse k)) (map (append p) bs) = Inr (map (map byte_char \<circ> drop (length p)) (map (append p) bs))"
    by (rule try_map_all) (use bs assms(2) in auto)
  then show "try_map (\<lambda>k. ok_or e (parse k)) (kp_keys page) = Inr (tl_tags (tag_page m p a n))"
    by (simp add: page tag_page_def sp comp_def)
  show "try_option (\<lambda>k. ok_or e (parse k)) (kp_next page) = Inr (tl_next (tag_page m p a n))"
    using nxt assms(2) by (cases nxt) (auto simp: page tag_page_def sp try_option_def)
qed

context registry_env
begin

lemma refines_stage_set_tag:
  "refines holds may_fail (stage_set_tag G batch r t target now) (stage_set_spec (rg_libs G) batch r t target now)"
proof (cases "valid_tag t")
  case True
  then have v: "validate_tag t = Inr ()" by (simp add: validate_tag_iff)
  show ?thesis
    unfolding stage_set_tag_def subject_a_valid [OF True] Let_def coders v
    by (rule refines_cong, (rule refines_intros refines_tag_record)+)
      (auto simp: stage_set_spec_def v Let_def set_tag_ops_def batch_put_def batch_delete_def batch_set_def
        split: option.split)
next
  case False
  then obtain e where v: "validate_tag t = Inl e"
    using validate_tag_iff [of t] by (cases "validate_tag t") auto
  show ?thesis
    unfolding stage_set_tag_def v refines_def wp_simps by (simp add: stage_set_spec_def v)
qed

lemma refines_stage_delete_tag:
  assumes "valid_tag t"
  shows "refines holds may_fail (stage_delete_tag G batch r t d record now)
    (\<lambda>_. Inr (batch @ delete_tag_ops (rg_libs G) r t d record now))"
  unfolding stage_delete_tag_def subject_a_valid [OF assms] Let_def coders
  by (rule refines_cong, (rule refines_intros)+)
    (auto simp: delete_tag_ops_def deleted_event_def batch_put_def batch_delete_def split: option.split)

lemma refines_tag_target:
  assumes "valid_tag t"
  shows "refines (\<lambda>m s. holds m s \<and> manifest_at (rg_libs G) m r d = Some rec) may_fail
    (tag_target_of G r d t rec) (\<lambda>m. Inr (target_at (rg_libs G) m r d t rec))"
proof -
  let ?at = "\<lambda>m s. holds m s \<and> manifest_at (rg_libs G) m r d = Some rec"
  have get: "refines ?at may_fail (rg_get G k) (\<lambda>m. Inr (m k))" for k
    by (rule refines_restrict) (rule refines_get)
  show ?thesis
    unfolding tag_target_of_def subject_a_valid [OF assms]
  proof (rule refines_cong, (rule refines_intros get)+)
    fix m s assume at: "?at m s"
    then obtain body c p where b: "body_at (rg_libs G) m r d = Some body" "parse_manifest (rg_libs G) body c = Inr p"
      using store_ok_body [OF holdsD(4)] by metis
    then obtain stored where z: "m (manifest_body_key r d) = Some stored" "decompress_body (rg_libs G) stored = Inr body"
      by (auto simp: body_at_def decompress_body_def bind_eq_Some_conv)
    obtain u v where "parse_manifest (rg_libs G) body (Some (mr_media_type rec)) = Inr (p\<lparr>pm_media_type := u\<rparr>)"
      "parse_manifest (rg_libs G) body None = Inr (p\<lparr>pm_media_type := v\<rparr>)"
      using parse_any_type [OF b(2)] by metis
    with b z show "and_then (Inr (subject_of t)) (\<lambda>subject. and_then
        (if subject \<noteq> None then and_then (Inr (m (manifest_body_key r d))) (\<lambda>found.
            case found of None \<Rightarrow> Inr (mr_artifact_type rec)
            | Some stored \<Rightarrow> and_then (decompress_body (rg_libs G) stored) (\<lambda>body.
                and_then (parse_manifest (rg_libs G) body (Some (mr_media_type rec)))
                  (\<lambda>p. Inr (pm_referrer_artifact_type p))))
         else Inr (mr_artifact_type rec))
        (\<lambda>artifact_type. Inr \<lparr> tt_digest = d, tt_media_type = mr_media_type rec, tt_size = mr_size rec,
           tt_referrer = \<lparr> rr_media_type = mr_media_type rec, rr_artifact_type = artifact_type,
             rr_size = mr_size rec, rr_annotations = mr_annotations rec \<rparr> \<rparr>))
      = Inr (target_at (rg_libs G) m r d t rec)"
      by (simp add: target_at_def)
  qed
qed

lemma refines_plan_set_tag:
  "refines holds may_fail (plan_set_tag G repo t d now) (set_tag_spec (rg_libs G) repo t d now)"
proof (cases "valid_tag t")
  case True
  then have v: "validate_tag t = Inr ()" by (simp add: validate_tag_iff)
  let ?lib = "rg_libs G"
  have tail: "refines (\<lambda>m s. holds m s \<and> manifest_at ?lib m r d = Some rec) may_fail
      (bind_a (tag_target_of G r d t rec) (\<lambda>target.
        bind_a (stage_set_tag G batch_new r t target now)
          (\<lambda>(displaced, batch). return_a (\<lparr> ts_displaced = displaced \<rparr>, batch))))
      (\<lambda>m. and_then (Inr (target_at ?lib m r d t rec)) (\<lambda>target.
        and_then (stage_set_spec ?lib batch_new r t target now m)
          (\<lambda>p. case p of (displaced, batch) \<Rightarrow> Inr (\<lparr> ts_displaced = displaced \<rparr>, batch))))" for r rec
    by (rule refines_bind refines_tag_target [OF True] refines_restrict [OF refines_stage_set_tag]
        refines_pair refines_return)+
  note rest = refines_required [OF refines_manifest_record tail]
  have "refines holds may_fail (plan_set_tag G repo t d now) (\<lambda>m.
      and_then (ok_or (NameUnknown repo) (id_of m repo)) (\<lambda>r.
         and_then (ok_or (ManifestUnknown repo (to_string d)) (manifest_at ?lib m r d)) (\<lambda>rec.
         and_then (Inr (target_at ?lib m r d t rec)) (\<lambda>target.
           and_then (stage_set_spec ?lib batch_new r t target now m)
             (\<lambda>p. case p of (displaced, batch) \<Rightarrow> Inr (\<lparr> ts_displaced = displaced \<rparr>, batch))))))"
    unfolding plan_set_tag_def v
    by (rule refines_cong, (rule refines_bind refines_lift refines_require_repo rest)+) simp
  then show ?thesis
    by (rule refines_cong)
      (auto simp: set_tag_spec_def v stage_set_spec_def batch_new_def Let_def and_then_def split: sum.split)
next
  case False
  then obtain e where v: "validate_tag t = Inl e"
    using validate_tag_iff [of t] by (cases "validate_tag t") auto
  show ?thesis
    unfolding plan_set_tag_def v refines_def wp_simps by (simp add: set_tag_spec_def v)
qed

lemma refines_plan_delete_tag:
  "refines holds may_fail (plan_delete_tag G repo t now) (delete_tag_spec (rg_libs G) repo t now)"
proof -
  let ?lib = "rg_libs G"
  let ?at = "\<lambda>r rec m s. holds m s \<and> tag_at ?lib m r t = Some rec"
  have tail: "refines (?at r rec) may_fail
      (bind_a (manifest_record_of G r (tr_digest rec)) (\<lambda>manifest.
       bind_a (stage_delete_tag G batch_new r t (tr_digest rec) manifest now) (\<lambda>batch.
         return_a (tr_digest rec, batch))))
      (\<lambda>m. Inr (tr_digest rec, delete_tag_ops ?lib r t (tr_digest rec) (manifest_at ?lib m r (tr_digest rec)) now))" for r rec
  proof (cases "valid_tag t")
    case True
    show ?thesis
      by (rule refines_cong, (rule refines_bind refines_return refines_restrict [OF refines_manifest_record]
            refines_restrict [OF refines_stage_delete_tag [OF True]])+) (simp add: batch_new_def)
  next
    case False
    then have "\<not> ?at r rec m s" for m s using tag_at_valid [OF holdsD(5)] by blast
    then show ?thesis unfolding refines_def by blast
  qed
  show ?thesis
    unfolding plan_delete_tag_def delete_tag_spec_def
    by (rule refines_bind refines_require_repo refines_required refines_tag_record tail)+
qed

lemma grouped_tags: "grouped (tags_in_repo r) (map_option (tag_key r) a)"
  "grouped (tags_of_manifest r d) (map_option (manifest_tag_key r d) a)"
  using repo_groups(1) [of "0x54" r] digest_groups(2) [of "0x47" r d]
  by (auto simp: grouped_def group_within_def key_defs split: option.split)

lemma tag_cursors:
  "map_option (tag_key r) a = map_option (append (tags_in_repo r)) (map_option as_bytes a)"
  "map_option (manifest_tag_key r d) a = map_option (append (tags_of_manifest r d)) (map_option as_bytes a)"
  by (cases a; simp add: key_defs)+

lemma under_append: "under p (map_option (append p) a)"
  by (simp add: under_def split: option.split)

lemma under_tags: "under (tags_in_repo r) (map_option (tag_key r) a)"
  "under (tags_of_manifest r d) (map_option (manifest_tag_key r d) a)"
  unfolding tag_cursors by (rule under_append)+

lemma refines_list_tags:
  "refines holds may_fail (list_tags G repo start_after limit)
     (\<lambda>m. and_then (ok_or (NameUnknown repo) (id_of m repo)) (\<lambda>r. Inr (tag_page m (tags_in_repo r) start_after limit)))"
  unfolding list_tags_def
proof (rule refines_bind [OF refines_require_repo])
  fix r
  let ?p = "tags_in_repo r" and ?a = "map_option as_bytes start_after"
  show "refines holds may_fail (bind_a (rg_scan_keys G ?p (map_option (tag_key r) start_after) limit) (\<lambda>page.
     bind_a (lift_a (try_map (\<lambda>key. ok_or (corrupt ''tag key'') (parse_tag_suffix key)) (kp_keys page))) (\<lambda>tags.
     bind_a (lift_a (next_tag (kp_next page))) (\<lambda>nxt. return_a \<lparr> tl_tags = tags, tl_next = nxt \<rparr>))))
     (\<lambda>m. Inr (tag_page m ?p start_after limit))"
  proof (rule refines_cong,
      (rule refines_bind refines_lift refines_return refines_scan_keys [OF under_tags(1) grouped_tags(1)])+)
    fix m s assume h: "holds m s"
    note read = tag_page_read [OF holds_finite [OF h] parse_suffixes(1) [OF holdsD(5) [OF h] _ refl] refl]
    have "next_tag k = try_option (\<lambda>k. ok_or (corrupt ''tag cursor'') (parse_tag_suffix k)) k" for k
      by (simp add: next_tag_def try_option_def)
    then show "and_then (Inr (key_page_of (scan_page m ?p (map_option (tag_key r) start_after) limit))) (\<lambda>page.
        and_then (try_map (\<lambda>key. ok_or (corrupt ''tag key'') (parse_tag_suffix key)) (kp_keys page)) (\<lambda>tags.
        and_then (next_tag (kp_next page)) (\<lambda>nxt. Inr \<lparr> tl_tags = tags, tl_next = nxt \<rparr>)))
      = Inr (tag_page m ?p start_after limit)"
      unfolding tag_cursors by (simp add: read)
  qed
qed

lemma refines_list_manifest_tags:
  "refines holds may_fail (list_manifest_tags G repo d start_after limit)
     (\<lambda>m. and_then (ok_or (NameUnknown repo) (id_of m repo)) (\<lambda>r. Inr (tag_page m (tags_of_manifest r d) start_after limit)))"
  unfolding list_manifest_tags_def
proof (rule refines_bind [OF refines_require_repo])
  fix r
  let ?p = "tags_of_manifest r d" and ?parse = "\<lambda>key. parse_manifest_tag_suffix key d"
  show "refines holds may_fail (bind_a (rg_scan_keys G ?p (map_option (manifest_tag_key r d) start_after) limit) (\<lambda>page.
     bind_a (lift_a (try_map (\<lambda>key. ok_or (corrupt ''manifest-tag key'') (?parse key)) (kp_keys page))) (\<lambda>tags.
     bind_a (case kp_next page of
         Some key \<Rightarrow> bind_a (lift_a (ok_or (corrupt ''manifest-tag cursor'') (?parse key))) (\<lambda>t. return_a (Some t))
       | None \<Rightarrow> return_a None) (\<lambda>nxt. return_a \<lparr> tl_tags = tags, tl_next = nxt \<rparr>))))
     (\<lambda>m. Inr (tag_page m ?p start_after limit))"
  proof (rule refines_cong,
      (rule refines_bind refines_lift refines_return refines_option
        refines_scan_keys [OF under_tags(2) grouped_tags(2)])+)
    fix m s assume h: "holds m s"
    note read = tag_page_read [OF holds_finite [OF h] parse_suffixes(2) [OF holdsD(5) [OF h] _ refl] refl]
    have "(case k of None \<Rightarrow> Inr None | Some key \<Rightarrow> and_then (ok_or (corrupt ''manifest-tag cursor'') (?parse key)) (\<lambda>t. Inr (Some t)))
      = try_option (\<lambda>k. ok_or (corrupt ''manifest-tag cursor'') (?parse k)) k" for k
      by (simp add: try_option_def)
    then show "and_then (Inr (key_page_of (scan_page m ?p (map_option (manifest_tag_key r d) start_after) limit))) (\<lambda>page.
        and_then (try_map (\<lambda>key. ok_or (corrupt ''manifest-tag key'') (?parse key)) (kp_keys page)) (\<lambda>tags.
        and_then (case kp_next page of None \<Rightarrow> Inr None
          | Some key \<Rightarrow> and_then (ok_or (corrupt ''manifest-tag cursor'') (?parse key)) (\<lambda>t. Inr (Some t)))
          (\<lambda>nxt. Inr \<lparr> tl_tags = tags, tl_next = nxt \<rparr>)))
      = Inr (tag_page m ?p start_after limit)"
      unfolding tag_cursors by (simp add: read)
  qed
qed

lemma bounded_set_tag: "bounded_batch (set_tag_ops (rg_libs G) r t target now previous)"
    "nameless (set_tag_ops (rg_libs G) r t target now previous)"
  by (rule ranged_bounded [OF set_tag_ops_ranged], rule ranged_nameless [OF set_tag_ops_ranged]) auto

lemma bounded_delete_tag: "bounded_batch (delete_tag_ops (rg_libs G) r t d found now)"
    "nameless (delete_tag_ops (rg_libs G) r t d found now)"
  by (rule ranged_bounded [OF delete_tag_ops_ranged], rule ranged_nameless [OF delete_tag_ops_ranged]) auto

lemma set_tag_spec_Inr:
  assumes "set_tag_spec (rg_libs G) repo t d now m = Inr (out, b)"
  obtains r rec where "valid_tag t" "id_of m repo = Some r" "manifest_at (rg_libs G) m r d = Some rec"
    "ts_displaced out = map_option tr_digest (tag_at (rg_libs G) m r t)"
    "b = set_tag_ops (rg_libs G) r t (target_at (rg_libs G) m r d t rec) now (ts_displaced out)"
  using assms by (auto simp: set_tag_spec_def and_then_Inr validate_tag_iff ok_or_def Let_def split: option.splits)

lemma commits_set_tag:
  "commits holds may_fail (set_tag G repo t d now)
     (\<lambda>m. and_then (set_tag_spec (rg_libs G) repo t d now m) (\<lambda>(a, b). Inr (a, apply_ops b m)))"
  unfolding set_tag_def
proof (rule commits_planned [OF refines_plan_set_tag])
  fix m a b assume ok: "store_ok (rg_libs G) m" and "set_tag_spec (rg_libs G) repo t d now m = Inr (a, b)"
  then obtain r rec where *: "valid_tag t" "manifest_at (rg_libs G) m r d = Some rec"
    "ts_displaced a = map_option tr_digest (tag_at (rg_libs G) m r t)"
    "b = set_tag_ops (rg_libs G) r t (target_at (rg_libs G) m r d t rec) now (ts_displaced a)"
    using set_tag_spec_Inr by metis
  moreover have "m (manifest_key r (tt_digest (target_at (rg_libs G) m r d t rec))) \<noteq> None"
    using *(2) by (auto simp: manifest_at_def bind_eq_Some_conv)
  ultimately show "bounded_batch b \<and> nameless b \<and> store_ok (rg_libs G) (apply_ops b m)"
    using store_ok_set_tag [OF ok] bounded_set_tag by simp
qed

lemma commits_delete_tag:
  "commits holds may_fail (delete_tag G repo t now)
     (\<lambda>m. and_then (delete_tag_spec (rg_libs G) repo t now m) (\<lambda>(a, b). Inr (a, apply_ops b m)))"
  unfolding delete_tag_def
proof (rule commits_planned [OF refines_plan_delete_tag])
  fix m a b assume ok: "store_ok (rg_libs G) m" and "delete_tag_spec (rg_libs G) repo t now m = Inr (a, b)"
  then obtain r rec where *: "tag_at (rg_libs G) m r t = Some rec"
    "b = delete_tag_ops (rg_libs G) r t (tr_digest rec) (manifest_at (rg_libs G) m r (tr_digest rec)) now"
    by (auto simp: delete_tag_spec_def and_then_Inr ok_or_def split: option.splits)
  moreover have "valid_tag t" using ok *(1) tag_at_valid by (auto simp: store_ok_def)
  ultimately show "bounded_batch b \<and> nameless b \<and> store_ok (rg_libs G) (apply_ops b m)"
    using store_ok_delete_tag [OF ok] bounded_delete_tag by simp
qed

end

section \<open>Properties\<close>

text \<open>
  C15. Setting a tag on a stored manifest points it there, reports what it pointed at before, and touches no
  other tag. The reverse index follows. One \<open>Created\<close> event for this instant joins the history of the tag and that of the
  manifest, and every other event stays. When the tag names an artifact of a subject, the referrer edge of that
  subject moves from the manifest the tag displaced to the new one, and no other edge changes. Nothing else changes:
  no manifest, body, blob, membership, mark, edge of the graph, upload, counter or name. It fails, changing nothing, exactly for a tag outside the
  grammar, an unknown repository or a manifest that is not stored there, or when the engine fails. The store
  stays consistent. (Every key of a consistent store is of one of the documented kinds, so the five kinds listed and the other
  first bytes are all there is.)
\<close>

theorem set_tag_correct:
  assumes env: "registry_env G tbl ok fails names ids" and at: "at_store tbl ok names ids (rg_libs G) m s"
    and run: "set_tag G repo t d now s = (res, s')"
  shows "\<exists>m'. at_store tbl ok names ids (rg_libs G) m' s' \<and> (case res of
      Inl e \<Rightarrow> m' = m \<and> (validate_tag t = Inl e \<or> e = NameUnknown repo \<and> id_of m repo = None
        \<or> e = ManifestUnknown repo (to_string d) \<and> (\<exists>r. id_of m repo = Some r \<and> manifest_at (rg_libs G) m r d = None)
        \<or> engine_error fails e)
    | Inr out \<Rightarrow> (\<exists>r rec. valid_tag t \<and> id_of m repo = Some r \<and> manifest_at (rg_libs G) m r d = Some rec
        \<and> ts_displaced out = map_option tr_digest (tag_at (rg_libs G) m r t)
        \<and> (\<forall>q u. tag_at (rg_libs G) m' q u =
              (if q = r \<and> u = t then Some \<lparr> tr_digest = d, tr_tagged_at = secs now \<rparr> else tag_at (rg_libs G) m q u))
        \<and> (\<forall>q u a e. nul_free u \<longrightarrow> m' (tag_history_key q u a e) =
              (if (q, u, a, e) = (r, t, now, d)
               then Some (stored_as (lb_event (rg_libs G))
                 \<lparr> te_event = Created, te_media_type = mr_media_type rec, te_size = mr_size rec \<rparr>)
               else m (tag_history_key q u a e)))
        \<and> (\<forall>q e a u. m' (manifest_tag_history_key q e a u) =
              (if (q, e, a, u) = (r, d, now, t)
               then Some (stored_as (lb_event (rg_libs G))
                 \<lparr> te_event = Created, te_media_type = mr_media_type rec, te_size = mr_size rec \<rparr>)
               else m (manifest_tag_history_key q e a u)))
        \<and> (\<forall>q e u. m' (manifest_tag_key q e u) =
              (if q = r \<and> u = t \<and> e = d then Some [] else if q = r \<and> u = t \<and> ts_displaced out = Some e then None
               else m (manifest_tag_key q e u)))
        \<and> (\<forall>q x e. m' (referrer_key q x e) =
              (if q = r \<and> subject_of t = Some x \<and> e = d
               then Some (stored_as (lb_referrer (rg_libs G)) (tt_referrer (target_at (rg_libs G) m r d t rec)))
               else if q = r \<and> subject_of t = Some x \<and> ts_displaced out = Some e then None
               else m (referrer_key q x e)))
        \<and> (\<forall>h k. h \<notin> {0x54, 0x47, 0x46, 0x48, 0x4A} \<longrightarrow> m' (h # k) = m (h # k))))"
proof -
  let ?lib = "rg_libs G"
  note lib = registry_env.axioms(2) [OF env]
  note c = commits_run [OF registry_env.commits_set_tag [OF env] at run]
  show ?thesis
  proof (cases res)
    case (Inl e)
    with c have "at_store tbl ok names ids ?lib m s'"
      "set_tag_spec ?lib repo t d now m = Inl e \<or> engine_error fails e"
      by (auto simp: and_then_def split: sum.splits)
    with Inl show ?thesis
      by (intro exI [of _ m]) (auto simp: set_tag_spec_def and_then_def ok_or_def Let_def
          split: sum.splits option.splits)
  next
    case (Inr out)
    with c obtain m' b where m': "at_store tbl ok names ids ?lib m' s'"
      and spec: "set_tag_spec ?lib repo t d now m = Inr (out, b)" and b: "m' = apply_ops b m"
      by (auto simp: and_then_Inr)
    obtain r rec where *: "valid_tag t" "id_of m repo = Some r" "manifest_at ?lib m r d = Some rec"
      "ts_displaced out = map_option tr_digest (tag_at ?lib m r t)"
      "b = set_tag_ops ?lib r t (target_at ?lib m r d t rec) now (ts_displaced out)"
      using registry_env.set_tag_spec_Inr [OF env spec] by metis
    have other: "m' (h # k) = m (h # k)" if "h \<notin> {0x54, 0x47, 0x46, 0x48, 0x4A}" for h k
      unfolding b *(5) by (rule ranged_untouched [OF set_tag_ops_ranged]) (use that in auto)
    have tags: "tag_at ?lib m' q u =
        (if q = r \<and> u = t then Some \<lparr> tr_digest = d, tr_tagged_at = secs now \<rparr> else tag_at ?lib m q u)" for q u
      unfolding b *(5) by (simp add: library_code.tag_at_set [OF lib])
    have hist: "m' (tag_history_key q u a e) = (if (q, u, a, e) = (r, t, now, d)
        then Some (stored_as (lb_event ?lib)
          \<lparr> te_event = Created, te_media_type = mr_media_type rec, te_size = mr_size rec \<rparr>)
        else m (tag_history_key q u a e))" if "nul_free u" for q u a e
      unfolding b *(5) tag_ops_history(1) [OF *(1) that] by (simp add: target_at_def)
    have events: "m' (manifest_tag_history_key q e a u) = (if (q, e, a, u) = (r, d, now, t)
        then Some (stored_as (lb_event ?lib)
          \<lparr> te_event = Created, te_media_type = mr_media_type rec, te_size = mr_size rec \<rparr>)
        else m (manifest_tag_history_key q e a u))" for q e a u
      unfolding b *(5) tag_ops_manifest_history(1) by (simp add: target_at_def)
    have index: "m' (manifest_tag_key q e u) =
        (if q = r \<and> u = t \<and> e = d then Some [] else if q = r \<and> u = t \<and> ts_displaced out = Some e then None
         else m (manifest_tag_key q e u))" for q e u
      unfolding b *(5) set_tag_ops_index by simp
    have edges: "m' (referrer_key q x e) =
        (if q = r \<and> subject_of t = Some x \<and> e = d
         then Some (stored_as (lb_referrer ?lib) (tt_referrer (target_at ?lib m r d t rec)))
         else if q = r \<and> subject_of t = Some x \<and> ts_displaced out = Some e then None
         else m (referrer_key q x e))" for q x e
      unfolding b *(5) set_tag_ops_referrer by simp
    show ?thesis
      unfolding Inr sum.case using m' *(1-4) tags hist events index edges other
      by (intro exI [of _ m'] conjI exI [of _ r] exI [of _ rec] allI impI) simp_all
  qed
qed

theorem set_tag_correct_witness:
  "\<exists>s'. set_tag demo_registry ''a'' ''v1'' demo_digest (Timestamp 0) demo_state = (Inr \<lparr> ts_displaced = None \<rparr>, s')"
proof -
  obtain res s' where run: "set_tag demo_registry ''a'' ''v1'' demo_digest (Timestamp 0) demo_state = (res, s')"
    by fastforce
  have lib: "rg_libs demo_registry = demo_libs" by (simp add: demo_registry_def)
  have v: "validate_tag ''v1'' = Inr ()"
    by (simp add: validate_tag_def is_ascii_alphanumeric_def MAX_TAG_LEN_def char_count_def)
  obtain out where "res = Inr out"
    using commits_run [OF dr.commits_set_tag at_store_demo run]
    by (cases res) (auto simp: set_tag_spec_def lib v engine_error_def Let_def)
  with set_tag_correct [OF dr.registry_env_axioms at_store_demo run] run show ?thesis
    by (auto simp: lib)
qed

text \<open>
  Deleting a tag removes it, reports the digest it pointed at, adds a \<open>Deleted\<close> event carrying that
  digest and keeps every other event, and leaves the manifest, its body and its blobs where they
  are; no other tag changes. It fails, changing nothing, exactly for an unknown repository or tag, or when the
  engine fails.
\<close>

theorem delete_tag_correct:
  assumes env: "registry_env G tbl ok fails names ids" and at: "at_store tbl ok names ids (rg_libs G) m s"
    and run: "delete_tag G repo t now s = (res, s')"
  shows "\<exists>m'. at_store tbl ok names ids (rg_libs G) m' s' \<and> (case res of
      Inl e \<Rightarrow> m' = m \<and> (e = NameUnknown repo \<and> id_of m repo = None
        \<or> e = ManifestUnknown repo t \<and> (\<exists>r. id_of m repo = Some r \<and> tag_at (rg_libs G) m r t = None)
        \<or> engine_error fails e)
    | Inr d \<Rightarrow> (\<exists>r rec. id_of m repo = Some r \<and> tag_at (rg_libs G) m r t = Some rec \<and> tr_digest rec = d
        \<and> (\<forall>q u. tag_at (rg_libs G) m' q u = (if q = r \<and> u = t then None else tag_at (rg_libs G) m q u))
        \<and> (\<forall>q e u. m' (manifest_tag_key q e u) = (if q = r \<and> u = t \<and> e = d then None else m (manifest_tag_key q e u)))
        \<and> (\<forall>q e a u. m' (manifest_tag_history_key q e a u) =
              (if (q, e, a, u) = (r, d, now, t)
               then Some (stored_as (lb_event (rg_libs G)) (deleted_event (manifest_at (rg_libs G) m r d)))
               else m (manifest_tag_history_key q e a u)))
        \<and> (\<forall>q x e. m' (referrer_key q x e) =
              (if q = r \<and> subject_of t = Some x \<and> e = d then None else m (referrer_key q x e)))
        \<and> (\<forall>q u a e. nul_free u \<longrightarrow> m' (tag_history_key q u a e) =
              (if (q, u, a, e) = (r, t, now, d)
               then Some (stored_as (lb_event (rg_libs G)) (deleted_event (manifest_at (rg_libs G) m r d)))
               else m (tag_history_key q u a e)))
        \<and> (\<forall>h k. h \<notin> {0x54, 0x47, 0x46, 0x48, 0x4A} \<longrightarrow> m' (h # k) = m (h # k))))"
proof -
  let ?lib = "rg_libs G"
  note lib = registry_env.axioms(2) [OF env]
  note c = commits_run [OF registry_env.commits_delete_tag [OF env] at run]
  show ?thesis
  proof (cases res)
    case (Inl e)
    with c have "at_store tbl ok names ids ?lib m s'"
      "delete_tag_spec ?lib repo t now m = Inl e \<or> engine_error fails e"
      by (auto simp: and_then_def split: sum.splits)
    with Inl show ?thesis
      by (intro exI [of _ m]) (auto simp: delete_tag_spec_def and_then_def ok_or_def
          split: sum.splits option.splits)
  next
    case (Inr d)
    with c obtain m' b where m': "at_store tbl ok names ids ?lib m' s'"
      and spec: "delete_tag_spec ?lib repo t now m = Inr (d, b)" and b: "m' = apply_ops b m"
      by (auto simp: and_then_Inr)
    obtain r rec where *: "id_of m repo = Some r" "tag_at ?lib m r t = Some rec" "tr_digest rec = d"
      "b = delete_tag_ops ?lib r t d (manifest_at ?lib m r d) now"
      using spec by (auto simp: delete_tag_spec_def and_then_Inr ok_or_def split: option.splits)
    have t: "valid_tag t"
      using library_code.tag_at_valid [OF lib _ *(2)] at by (simp add: at_store_def store_ok_def)
    have other: "m' (h # k) = m (h # k)" if "h \<notin> {0x54, 0x47, 0x46, 0x48, 0x4A}" for h k
      unfolding b *(4) by (rule ranged_untouched [OF delete_tag_ops_ranged]) (use that in auto)
    have tags: "tag_at ?lib m' q u = (if q = r \<and> u = t then None else tag_at ?lib m q u)" for q u
      unfolding b *(4) by (rule library_code.tag_at_delete [OF lib])
    have hist: "m' (tag_history_key q u a e) = (if (q, u, a, e) = (r, t, now, d)
        then Some (stored_as (lb_event ?lib) (deleted_event (manifest_at ?lib m r d)))
        else m (tag_history_key q u a e))" if "nul_free u" for q u a e
      unfolding b *(4) by (rule tag_ops_history(2) [OF t that])
    show ?thesis
      unfolding Inr sum.case using m' *(1-3) tags hist other
      by (intro exI [of _ m'] conjI exI [of _ r] exI [of _ rec] allI impI)
        (simp_all add: b *(4) delete_tag_ops_index delete_tag_ops_referrer tag_ops_manifest_history)
  qed
qed

theorem delete_tag_correct_witness:
  "\<exists>s'. delete_tag demo_registry ''a'' ''v1'' (Timestamp 0) demo_state = (Inl (ManifestUnknown ''a'' ''v1''), s')"
proof -
  obtain res s' where run: "delete_tag demo_registry ''a'' ''v1'' (Timestamp 0) demo_state = (res, s')"
    by fastforce
  have lib: "rg_libs demo_registry = demo_libs" by (simp add: demo_registry_def)
  from delete_tag_correct [OF dr.registry_env_axioms at_store_demo run] run show ?thesis
    by (cases res) (auto simp: lib engine_error_def)
qed

text \<open>
  A page of the tag list holds the first \<open>limit\<close> tags of the repository after \<open>start_after\<close>, in byte order, and
  names the last of them as the point to resume exactly when more follow.
\<close>

theorem list_tags_ordered:
  assumes env: "registry_env G tbl ok fails names ids" and at: "at_store tbl ok names ids (rg_libs G) m s"
    and run: "list_tags G repo start_after limit s = (Inr page, s')"
    and all: "sorted_wrt (\<lambda>a b. as_bytes a < as_bytes b) ts"
      "set ts = {t. \<exists>r. id_of m repo = Some r \<and> tag_at (rg_libs G) m r t \<noteq> None
        \<and> (case start_after of None \<Rightarrow> True | Some a \<Rightarrow> as_bytes a < as_bytes t)}"
  shows "tl_tags page = take limit ts
    \<and> tl_next page = (if 0 < limit \<and> limit < length ts then Some (last (take limit ts)) else None)"
proof -
  note c = refines_run [OF registry_env.refines_list_tags [OF env] at run]
  then obtain r where r: "id_of m repo = Some r" "page = tag_page m (tags_in_repo r) start_after limit"
    by (cases "id_of m repo") auto
  have fin: "finite (dom m)"
    using at env by (auto simp: at_store_def interner_ok_def registry_env_def interner_env_def
        engine_contract_def dest: fallible_engine.finite_tbl)
  have entries: "entries_ok (rg_libs G) m" using at by (simp add: at_store_def store_ok_def)
  let ?S = "suffixes_after m (tags_in_repo r) (map_option as_bytes start_after)"
  have key: "tags_in_repo r @ as_bytes t = tag_key r t" for t by (simp add: key_defs)
  have S: "?S = as_bytes ` set ts"
  proof
    show "?S \<subseteq> as_bytes ` set ts"
    proof
      fix b assume b: "b \<in> ?S"
      with entries obtain t where t: "b = as_bytes t" using suffix_tags [OF entries b disjI1 [OF refl]] by blast
      with b show "b \<in> as_bytes ` set ts"
        using record_cases(3) [OF entries, of r t] r(1)
        by (auto simp: all(2) suffixes_after_def key after_def split: option.splits)
    qed
    show "as_bytes ` set ts \<subseteq> ?S"
      using record_cases(3) [OF entries, of r] r(1)
      by (auto simp: all(2) suffixes_after_def key after_def split: option.splits)
  qed
  have "sorted_wrt (<) (map as_bytes ts)" using all(1) by (simp add: sorted_wrt_map)
  then have sl: "sorted_list_of_set ?S = map as_bytes ts"
    by (intro sorted_distinct_set_unique)
      (simp_all add: strict_sorted_iff finite_suffixes_after [OF fin], simp add: S)
  have chars: "map (map byte_char) (map as_bytes xs) = xs" for xs by (simp add: comp_def)
  show ?thesis
    unfolding r(2) tag_page_def suffix_page_def sl
    by (auto simp: Let_def take_map comp_def) (subst last_map; auto)
qed

theorem list_tags_ordered_witness:
  "\<exists>s'. list_tags demo_registry ''a'' None 10 demo_state = (Inr \<lparr> tl_tags = [], tl_next = None \<rparr>, s')"
proof -
  obtain res s' where run: "list_tags demo_registry ''a'' None 10 demo_state = (res, s')" by fastforce
  have lib: "rg_libs demo_registry = demo_libs" by (simp add: demo_registry_def)
  obtain page where p: "res = Inr page"
    using refines_run [OF dr.refines_list_tags at_store_demo run] by (auto simp: engine_error_def)
  with list_tags_ordered [OF dr.registry_env_axioms at_store_demo run [unfolded p], of "[]"] run
  show ?thesis by (cases page) (simp add: lib)
qed

end
