(* ===== verification/Summ_Push.thy ===== *)
theory Summ_Push
  imports Summ_Tags
begin

text \<open>
  Pushing: committing a blob to a repository, and the one batch a manifest push writes, with its tags
  (\<open>summ-registry/src/registry.rs\<close>). The first part is the code, the second what a push leaves in the
  store, and that it keeps the store consistent.
\<close>

section \<open>Operations\<close>

record manifest_put =
  mp_repo :: string
  mp_reference :: reference
  mp_body :: bytes
  mp_content_type :: "string option"
  mp_now :: timestamp

record push_outcome =
  po_digest :: digest
  po_media_type :: string
  po_size :: u64
  po_subject :: "digest option"
  po_tag :: "string option"
  po_displaced :: "digest option"

definition stage_blobs ::
    "('s, 'c) registry \<Rightarrow> write_batch \<Rightarrow> string \<Rightarrow> repo_id \<Rightarrow> digest \<Rightarrow> parsed_manifest \<Rightarrow> timestamp \<Rightarrow>
     ('s, 'c, write_batch) op" where
  "stage_blobs G batch name repo md parsed now =
     for_a (pm_blobs parsed) batch (\<lambda>desc batch.
       bind_a (blob_record_of G (bd_digest desc)) (\<lambda>known.
       bind_a (blob_is_servable_id G repo (bd_digest desc)) (\<lambda>in_repo.
       if bd_foreign desc \<and> \<not> (known \<noteq> None \<and> in_repo) then return_a batch
       else if ro_validate_references (rg_options G) \<and> \<not> (known \<noteq> None \<and> in_repo) then
         fail_a (ManifestBlobUnknown name (bd_digest desc))
       else
         let sz = (case known of None \<Rightarrow> bd_size desc | Some r \<Rightarrow> br_size r) in
         bind_a (if known = None
                 then bind_a (lift_a (encode (lb_blob (rg_libs G)) \<lparr> br_size = sz \<rparr>)) (\<lambda>v.
                        return_a (batch_put (blob_key (bd_digest desc)) v batch))
                 else return_a batch) (\<lambda>batch.
         bind_a (rg_exists G (repo_blob_key repo (bd_digest desc))) (\<lambda>member.
         bind_a (if \<not> member
                 then bind_a (lift_a (encode (lb_repo_blob (rg_libs G)) \<lparr> rb_size = sz, rb_added_at = secs now \<rparr>)) (\<lambda>v.
                        return_a (batch_put (repo_blob_key repo (bd_digest desc)) v batch))
                 else return_a batch) (\<lambda>batch.
         return_a (batch_delete (blob_mark_key (bd_digest desc))
           (batch_set (blob_ref_key (bd_digest desc) repo md) batch))))))))"

definition stage_children ::
    "('s, 'c) registry \<Rightarrow> write_batch \<Rightarrow> string \<Rightarrow> repo_id \<Rightarrow> digest \<Rightarrow> parsed_manifest \<Rightarrow>
     ('s, 'c, write_batch) op" where
  "stage_children G batch name repo md parsed =
     for_a (pm_children parsed) batch (\<lambda>child batch.
       bind_a (if ro_validate_references (rg_options G)
               then bind_a (rg_exists G (manifest_key repo (cr_digest child))) (\<lambda>hit. return_a (\<not> hit))
               else return_a False) (\<lambda>missing.
       if missing then fail_a (ManifestBlobUnknown name (cr_digest child))
       else return_a (batch_set (child_parent_key repo (cr_digest child) md) batch)))"

text \<open>The loop over the tag of the reference and the extra tags, with its locals \<open>applied\<close> and \<open>displaced\<close>.\<close>

definition stage_push_tags ::
    "('s, 'c) registry \<Rightarrow> write_batch \<Rightarrow> repo_id \<Rightarrow> string list \<Rightarrow> tag_target \<Rightarrow> timestamp \<Rightarrow>
     ('s, 'c, digest option planned) op" where
  "stage_push_tags G batch repo tags target now =
     bind_a (for_a tags (batch, [], None) (\<lambda>t (batch, done_tags, displaced).
       if t \<in> set done_tags then return_a (batch, done_tags, displaced)
       else bind_a (stage_set_tag G batch repo t target now) (\<lambda>(previous, batch).
         return_a (batch, done_tags @ [t], if done_tags = [] then previous else displaced))))
       (\<lambda>(batch, _, displaced). return_a (displaced, batch))"

text \<open>\<open>plan_manifest_put_tagged\<close>: after the checks that need no store, and from the interned name on.\<close>

definition plan_interned_put ::
    "('s, 'c) registry \<Rightarrow> manifest_put \<Rightarrow> string list \<Rightarrow> digest \<Rightarrow> parsed_manifest \<Rightarrow> repo_id \<Rightarrow>
     ('s, 'c, push_outcome planned) op" where
  "plan_interned_put G req extra_tags d parsed repo =
     bind_a (stage_blobs G batch_new (mp_repo req) repo d parsed (mp_now req)) (\<lambda>batch.
     bind_a (stage_children G batch (mp_repo req) repo d parsed) (\<lambda>batch.
     let record = \<lparr> mr_repo = repo, mr_digest = d, mr_media_type = pm_media_type parsed,
           mr_size = word_of_nat (length (mp_body req)), mr_total_layer_size = total_layer_size parsed,
           mr_platform = None, mr_layers = map bd_digest (pm_blobs parsed), mr_children = pm_children parsed,
           mr_subject = pm_subject parsed, mr_artifact_type = pm_artifact_type parsed,
           mr_annotations = pm_annotations parsed, mr_pushed_at = secs (mp_now req) \<rparr> in
     bind_a (lift_a (encode (lb_manifest (rg_libs G)) record)) (\<lambda>record_bytes.
     bind_a (lift_a (compress_body (rg_libs G) (mp_body req))) (\<lambda>body_bytes.
     let batch = batch_put (manifest_body_key repo d) body_bytes (batch_put (manifest_key repo d) record_bytes batch);
         referrer = \<lparr> rr_media_type = pm_media_type parsed, rr_artifact_type = pm_referrer_artifact_type parsed,
           rr_size = mr_size record, rr_annotations = pm_annotations parsed \<rparr> in
     bind_a (case pm_subject parsed of
         None \<Rightarrow> return_a batch
       | Some subject \<Rightarrow>
           bind_a (lift_a (encode (lb_referrer (rg_libs G)) referrer)) (\<lambda>v.
             return_a (batch_put (referrer_key repo subject d) v batch))) (\<lambda>batch.
     bind_a (if as_tag (mp_reference req) \<noteq> None \<or> extra_tags \<noteq> []
             then stage_push_tags G batch repo
               ((case as_tag (mp_reference req) of None \<Rightarrow> [] | Some t \<Rightarrow> [t]) @ extra_tags)
               \<lparr> tt_digest = d, tt_media_type = pm_media_type parsed, tt_size = mr_size record,
                 tt_referrer = referrer \<rparr> (mp_now req)
             else return_a (None, batch)) (\<lambda>(displaced, batch).
     return_a (\<lparr> po_digest = d, po_media_type = pm_media_type parsed, po_size = mr_size record,
                 po_subject = pm_subject parsed, po_tag = as_tag (mp_reference req), po_displaced = displaced \<rparr>,
               batch)))))))"

definition check_put :: "registry_options \<Rightarrow> libs \<Rightarrow> manifest_put \<Rightarrow> registry_error + digest \<times> parsed_manifest" where
  "check_put opts lib req =
     (if ro_max_manifest_bytes opts < length (mp_body req) then Inl (invalid ''manifest is too large'')
      else
        let d = digest_body lib (mp_body req) (as_digest (mp_reference req)) in
        if (case as_digest (mp_reference req) of None \<Rightarrow> False | Some claimed \<Rightarrow> claimed \<noteq> d)
        then Inl (DigestInvalid ''body does not digest to the digest it was pushed as'')
        else and_then (parse_manifest lib (mp_body req) (mp_content_type req)) (\<lambda>parsed. Inr (d, parsed)))"

definition plan_manifest_put_tagged ::
    "('s, 'c) registry \<Rightarrow> manifest_put \<Rightarrow> string list \<Rightarrow> ('s, 'c, push_outcome planned) op" where
  "plan_manifest_put_tagged G req extra_tags =
     bind_a (lift_a (check_put (rg_options G) (rg_libs G) req)) (\<lambda>(d, parsed).
     bind_a (intern_repo G (mp_repo req)) (\<lambda>repo. plan_interned_put G req extra_tags d parsed repo))"

definition plan_manifest_put :: "('s, 'c) registry \<Rightarrow> manifest_put \<Rightarrow> ('s, 'c, push_outcome planned) op" where
  "plan_manifest_put G req = plan_manifest_put_tagged G req []"

definition put_manifest :: "('s, 'c) registry \<Rightarrow> manifest_put \<Rightarrow> ('s, 'c, push_outcome) op" where
  "put_manifest G req = applied G (plan_manifest_put G req)"

text \<open>A push with extra tags is planned by the server and applied there the same way.\<close>

definition put_manifest_tagged ::
    "('s, 'c) registry \<Rightarrow> manifest_put \<Rightarrow> string list \<Rightarrow> ('s, 'c, push_outcome) op" where
  "put_manifest_tagged G req extra_tags = applied G (plan_manifest_put_tagged G req extra_tags)"

section \<open>The batch as a function of the store\<close>

definition missing_blob :: "libs \<Rightarrow> store \<Rightarrow> repo_id \<Rightarrow> blob_desc \<Rightarrow> bool" where
  "missing_blob lib m r desc \<longleftrightarrow> \<not> (blob_at lib m (bd_digest desc) \<noteq> None \<and> servable m r (bd_digest desc))"

definition blob_ops :: "libs \<Rightarrow> store \<Rightarrow> repo_id \<Rightarrow> digest \<Rightarrow> timestamp \<Rightarrow> blob_desc \<Rightarrow> write_batch" where
  "blob_ops lib m r md now desc =
     (let d = bd_digest desc;
          sz = (case blob_at lib m d of None \<Rightarrow> bd_size desc | Some b \<Rightarrow> br_size b) in
      (if blob_at lib m d = None then [Put (blob_key d) (stored_as (lb_blob lib) \<lparr> br_size = sz \<rparr>)] else [])
      @ (if m (repo_blob_key r d) = None
         then [Put (repo_blob_key r d) (stored_as (lb_repo_blob lib) \<lparr> rb_size = sz, rb_added_at = secs now \<rparr>)] else [])
      @ [Put (blob_ref_key d r md) [], Delete (blob_mark_key d)])"

definition kept_blobs :: "libs \<Rightarrow> store \<Rightarrow> repo_id \<Rightarrow> parsed_manifest \<Rightarrow> blob_desc list" where
  "kept_blobs lib m r p = filter (\<lambda>desc. \<not> (bd_foreign desc \<and> missing_blob lib m r desc)) (pm_blobs p)"

text \<open>The first blob, or child, that a push with validation must refuse.\<close>

definition refused_blob :: "bool \<Rightarrow> libs \<Rightarrow> store \<Rightarrow> repo_id \<Rightarrow> blob_desc list \<Rightarrow> blob_desc option" where
  "refused_blob validate lib m r descs =
     (if validate then List.find (\<lambda>desc. \<not> bd_foreign desc \<and> missing_blob lib m r desc) descs else None)"

definition refused_child :: "bool \<Rightarrow> store \<Rightarrow> repo_id \<Rightarrow> child_ref list \<Rightarrow> child_ref option" where
  "refused_child validate m r cs =
     (if validate then List.find (\<lambda>c. m (manifest_key r (cr_digest c)) = None) cs else None)"

definition child_ops :: "repo_id \<Rightarrow> digest \<Rightarrow> child_ref list \<Rightarrow> write_batch" where
  "child_ops r md cs = map (\<lambda>c. Put (child_parent_key r (cr_digest c) md) []) cs"

definition push_record :: "repo_id \<Rightarrow> digest \<Rightarrow> manifest_put \<Rightarrow> parsed_manifest \<Rightarrow> manifest_record" where
  "push_record r d req p = \<lparr> mr_repo = r, mr_digest = d, mr_media_type = pm_media_type p,
     mr_size = word_of_nat (length (mp_body req)), mr_total_layer_size = total_layer_size p,
     mr_platform = None, mr_layers = map bd_digest (pm_blobs p), mr_children = pm_children p,
     mr_subject = pm_subject p, mr_artifact_type = pm_artifact_type p,
     mr_annotations = pm_annotations p, mr_pushed_at = secs (mp_now req) \<rparr>"

definition push_referrer :: "manifest_put \<Rightarrow> parsed_manifest \<Rightarrow> referrer_record" where
  "push_referrer req p = \<lparr> rr_media_type = pm_media_type p, rr_artifact_type = pm_referrer_artifact_type p,
     rr_size = word_of_nat (length (mp_body req)), rr_annotations = pm_annotations p \<rparr>"

definition push_target :: "digest \<Rightarrow> manifest_put \<Rightarrow> parsed_manifest \<Rightarrow> tag_target" where
  "push_target d req p = \<lparr> tt_digest = d, tt_media_type = pm_media_type p,
     tt_size = word_of_nat (length (mp_body req)), tt_referrer = push_referrer req p \<rparr>"

text \<open>Everything but the tags.\<close>

definition push_ops :: "libs \<Rightarrow> store \<Rightarrow> repo_id \<Rightarrow> digest \<Rightarrow> manifest_put \<Rightarrow> parsed_manifest \<Rightarrow> write_batch" where
  "push_ops lib m r d req p =
     concat (map (blob_ops lib m r d (mp_now req)) (kept_blobs lib m r p))
     @ child_ops r d (pm_children p)
     @ [Put (manifest_key r d) (stored_as (lb_manifest lib) (push_record r d req p)),
        Put (manifest_body_key r d) (the (lb_compress lib (mp_body req)))]
     @ (case pm_subject p of None \<Rightarrow> []
        | Some s \<Rightarrow> [Put (referrer_key r s d) (stored_as (lb_referrer lib) (push_referrer req p))])"

text \<open>The tags of a push, each once, in the order they come.\<close>

fun firsts :: "'a list \<Rightarrow> 'a list \<Rightarrow> 'a list" where
  "firsts seen [] = []"
| "firsts seen (x # xs) = (if x \<in> set seen then firsts seen xs else x # firsts (seen @ [x]) xs)"

definition put_tags :: "manifest_put \<Rightarrow> string list \<Rightarrow> string list" where
  "put_tags req extra_tags = firsts [] ((case as_tag (mp_reference req) of None \<Rightarrow> [] | Some t \<Rightarrow> [t]) @ extra_tags)"

definition tagged_ops :: "libs \<Rightarrow> store \<Rightarrow> repo_id \<Rightarrow> tag_target \<Rightarrow> timestamp \<Rightarrow> string list \<Rightarrow> write_batch" where
  "tagged_ops lib m r target now ts =
     concat (map (\<lambda>t. set_tag_ops lib r t target now (map_option tr_digest (tag_at lib m r t))) ts)"

definition put_spec ::
    "registry_options \<Rightarrow> libs \<Rightarrow> manifest_put \<Rightarrow> string list \<Rightarrow> digest \<Rightarrow> parsed_manifest \<Rightarrow> repo_id \<Rightarrow> store \<Rightarrow>
     registry_error + push_outcome planned" where
  "put_spec opts lib req extra_tags d p r m =
     (case refused_blob (ro_validate_references opts) lib m r (pm_blobs p) of
        Some desc \<Rightarrow> Inl (ManifestBlobUnknown (mp_repo req) (bd_digest desc))
      | None \<Rightarrow>
     (case refused_child (ro_validate_references opts) m r (pm_children p) of
        Some c \<Rightarrow> Inl (ManifestBlobUnknown (mp_repo req) (cr_digest c))
      | None \<Rightarrow>
        let ts = put_tags req extra_tags in
        and_then (for_r ts () (\<lambda>t _. validate_tag t)) (\<lambda>_.
        Inr (\<lparr> po_digest = d, po_media_type = pm_media_type p, po_size = word_of_nat (length (mp_body req)),
               po_subject = pm_subject p, po_tag = as_tag (mp_reference req),
               po_displaced = (case ts of [] \<Rightarrow> None | t # _ \<Rightarrow> map_option tr_digest (tag_at lib m r t)) \<rparr>,
             push_ops lib m r d req p @ tagged_ops lib m r (push_target d req p) (mp_now req) ts))))"

section \<open>Refinement\<close>

lemma for_r_blobs:
  "for_r descs batch (\<lambda>desc batch.
      if bd_foreign desc \<and> missing_blob lib m r desc then Inr batch
      else if validate \<and> missing_blob lib m r desc then Inl (ManifestBlobUnknown name (bd_digest desc))
      else Inr (batch @ blob_ops lib m r md now desc)) =
    (case refused_blob validate lib m r descs of
       Some desc \<Rightarrow> Inl (ManifestBlobUnknown name (bd_digest desc))
     | None \<Rightarrow> Inr (batch @ concat (map (blob_ops lib m r md now)
         (filter (\<lambda>desc. \<not> (bd_foreign desc \<and> missing_blob lib m r desc)) descs))))"
  by (induction descs arbitrary: batch) (auto simp: refused_blob_def split: option.splits)

lemma for_r_children:
  "for_r cs batch (\<lambda>c batch.
      if validate \<and> m (manifest_key r (cr_digest c)) = None then Inl (ManifestBlobUnknown name (cr_digest c))
      else Inr (batch @ child_ops r md [c])) =
    (case refused_child validate m r cs of
       Some c \<Rightarrow> Inl (ManifestBlobUnknown name (cr_digest c))
     | None \<Rightarrow> Inr (batch @ child_ops r md cs))"
  by (induction cs arbitrary: batch) (auto simp: refused_child_def child_ops_def split: option.splits)

lemma for_r_tags:
  "for_r ts (batch, seen, displaced) (\<lambda>t (batch, seen, displaced).
      if t \<in> set seen then Inr (batch, seen, displaced)
      else and_then (stage_set_spec lib batch r t target now m) (\<lambda>(previous, batch).
        Inr (batch, seen @ [t], if seen = [] then previous else displaced))) =
    and_then (for_r (firsts seen ts) () (\<lambda>t _. validate_tag t)) (\<lambda>_.
      Inr (batch @ tagged_ops lib m r target now (firsts seen ts), seen @ firsts seen ts,
        if seen = [] \<and> firsts seen ts \<noteq> [] then map_option tr_digest (tag_at lib m r (hd (firsts seen ts))) else displaced))"
proof (induction ts arbitrary: batch seen displaced)
  case (Cons t ts)
  show ?case
  proof (cases "t \<in> set seen")
    case True
    then have "seen \<noteq> []" by auto
    with True show ?thesis by (simp add: Cons)
  next
    case False
    then show ?thesis
      by (cases "validate_tag t") (simp_all add: Cons tagged_ops_def stage_set_spec_def Let_def)
  qed
qed (simp add: tagged_ops_def)

context registry_env
begin

lemma refines_stage_blobs:
  "refines holds may_fail (stage_blobs G batch name r md p now)
     (\<lambda>m. case refused_blob (ro_validate_references (rg_options G)) (rg_libs G) m r (pm_blobs p) of
        Some desc \<Rightarrow> Inl (ManifestBlobUnknown name (bd_digest desc))
      | None \<Rightarrow> Inr (batch @ concat (map (blob_ops (rg_libs G) m r md now) (kept_blobs (rg_libs G) m r p))))"
  unfolding kept_blobs_def for_r_blobs [symmetric] stage_blobs_def
proof (rule refines_for)
  fix desc batch
  show "refines holds may_fail
    (bind_a (blob_record_of G (bd_digest desc)) (\<lambda>known.
     bind_a (blob_is_servable_id G r (bd_digest desc)) (\<lambda>in_repo.
     if bd_foreign desc \<and> \<not> (known \<noteq> None \<and> in_repo) then return_a batch
     else if ro_validate_references (rg_options G) \<and> \<not> (known \<noteq> None \<and> in_repo) then
       fail_a (ManifestBlobUnknown name (bd_digest desc))
     else
       let sz = (case known of None \<Rightarrow> bd_size desc | Some r \<Rightarrow> br_size r) in
       bind_a (if known = None
               then bind_a (lift_a (encode (lb_blob (rg_libs G)) \<lparr> br_size = sz \<rparr>)) (\<lambda>v.
                      return_a (batch_put (blob_key (bd_digest desc)) v batch))
               else return_a batch) (\<lambda>batch.
       bind_a (rg_exists G (repo_blob_key r (bd_digest desc))) (\<lambda>member.
       bind_a (if \<not> member
               then bind_a (lift_a (encode (lb_repo_blob (rg_libs G)) \<lparr> rb_size = sz, rb_added_at = secs now \<rparr>)) (\<lambda>v.
                      return_a (batch_put (repo_blob_key r (bd_digest desc)) v batch))
               else return_a batch) (\<lambda>batch.
       return_a (batch_delete (blob_mark_key (bd_digest desc))
         (batch_set (blob_ref_key (bd_digest desc) r md) batch)))))))
    )
    (\<lambda>m. if bd_foreign desc \<and> missing_blob (rg_libs G) m r desc then Inr batch
      else if ro_validate_references (rg_options G) \<and> missing_blob (rg_libs G) m r desc
      then Inl (ManifestBlobUnknown name (bd_digest desc))
      else Inr (batch @ blob_ops (rg_libs G) m r md now desc))"
    unfolding Let_def coders
    by (rule refines_cong,
        (rule refines_bind refines_blob_record refines_servable_id refines_if refines_return refines_fail
          refines_exists refines_lift)+)
      (auto simp: has_prefix_keys(3) [OF holdsD(5)] missing_blob_def blob_ops_def Let_def batch_put_def
        batch_set_def batch_delete_def split: option.splits)
qed

lemma refines_stage_children:
  "refines holds may_fail (stage_children G batch name r md p)
     (\<lambda>m. case refused_child (ro_validate_references (rg_options G)) m r (pm_children p) of
        Some c \<Rightarrow> Inl (ManifestBlobUnknown name (cr_digest c))
      | None \<Rightarrow> Inr (batch @ child_ops r md (pm_children p)))"
  unfolding for_r_children [symmetric] stage_children_def
proof (rule refines_for)
  fix child batch
  show "refines holds may_fail
    (bind_a (if ro_validate_references (rg_options G)
             then bind_a (rg_exists G (manifest_key r (cr_digest child))) (\<lambda>hit. return_a (\<not> hit))
             else return_a False) (\<lambda>missing.
     if missing then fail_a (ManifestBlobUnknown name (cr_digest child))
     else return_a (batch_set (child_parent_key r (cr_digest child) md) batch)))
    (\<lambda>m. if ro_validate_references (rg_options G) \<and> m (manifest_key r (cr_digest child)) = None
      then Inl (ManifestBlobUnknown name (cr_digest child)) else Inr (batch @ child_ops r md [child]))"
    by (rule refines_cong, (rule refines_bind refines_if refines_return refines_fail refines_exists)+)
      (auto simp: has_prefix_keys(4) [OF holdsD(5)] child_ops_def batch_set_def batch_put_def)
qed

lemma refines_stage_push_tags:
  "refines holds may_fail (stage_push_tags G batch r ts target now)
     (\<lambda>m. and_then (for_r (firsts [] ts) () (\<lambda>t _. validate_tag t)) (\<lambda>_.
        Inr (case firsts [] ts of [] \<Rightarrow> None | t # _ \<Rightarrow> map_option tr_digest (tag_at (rg_libs G) m r t),
             batch @ tagged_ops (rg_libs G) m r target now (firsts [] ts))))"
proof -
  have loop: "refines holds may_fail
     (for_a ts (batch, [], None) (\<lambda>t (batch, done_tags, displaced).
       if t \<in> set done_tags then return_a (batch, done_tags, displaced)
       else bind_a (stage_set_tag G batch r t target now) (\<lambda>(previous, batch).
         return_a (batch, done_tags @ [t], if done_tags = [] then previous else displaced))))
     (\<lambda>m. for_r ts (batch, [], None) (\<lambda>t (batch, seen, displaced).
        if t \<in> set seen then Inr (batch, seen, displaced)
        else and_then (stage_set_spec (rg_libs G) batch r t target now m) (\<lambda>(previous, batch).
          Inr (batch, seen @ [t], if seen = [] then previous else displaced))))"
    by (rule refines_for, (rule refines_pair)+, (rule refines_bind refines_if refines_return refines_stage_set_tag refines_pair)+)
  from refines_bind [OF loop refines_pair [OF refines_pair [OF refines_return]]]
  show ?thesis unfolding stage_push_tags_def for_r_tags
    by (rule refines_cong) (auto simp: and_then_def split: sum.split list.split)
qed

lemma refines_plan_interned_put:
  "refines holds may_fail (plan_interned_put G req extra_tags d p r)
     (put_spec (rg_options G) (rg_libs G) req extra_tags d p r)"
proof -
  let ?ts = "put_tags req extra_tags"
  have tags: "refines holds may_fail
      (if as_tag (mp_reference req) \<noteq> None \<or> extra_tags \<noteq> []
       then stage_push_tags G batch r ((case as_tag (mp_reference req) of None \<Rightarrow> [] | Some t \<Rightarrow> [t]) @ extra_tags) target now
       else return_a (None, batch))
      (\<lambda>m. and_then (for_r ?ts () (\<lambda>t _. validate_tag t)) (\<lambda>_.
        Inr (case ?ts of [] \<Rightarrow> None | t # _ \<Rightarrow> map_option tr_digest (tag_at (rg_libs G) m r t),
             batch @ tagged_ops (rg_libs G) m r target now ?ts)))" for batch target now
  proof (cases "as_tag (mp_reference req) \<noteq> None \<or> extra_tags \<noteq> []")
    case True
    with refines_stage_push_tags show ?thesis unfolding put_tags_def by simp
  next
    case False
    then have "?ts = []" by (simp add: put_tags_def)
    with False show ?thesis by (simp add: refines_return tagged_ops_def)
  qed
  show ?thesis
    unfolding plan_interned_put_def Let_def coders compress_body_eq
    by (rule refines_cong,
        (rule refines_bind refines_lift refines_return refines_option refines_pair tags
          refines_stage_blobs refines_stage_children)+)
      (auto simp: put_spec_def Let_def push_record_def push_referrer_def push_target_def
        push_ops_def batch_put_def batch_new_def and_then_def split: option.split sum.split)
qed

end

section \<open>What a push leaves in the store\<close>

text \<open>Values at keys that a batch only ever puts.\<close>

lemma apply_ops_only:
  assumes "\<And>x. x \<in> set b \<Longrightarrow> touches x k \<Longrightarrow> x = Put k v"
  shows "apply_ops b m k = (if \<exists>x \<in> set b. touches x k then Some v else m k)"
  using assms
proof (induction b arbitrary: m)
  case (Cons x b)
  have "apply_op x m k = (if touches x k then Some v else m k)"
    using Cons.prems [of x] by (cases x) auto
  with Cons show ?case by auto
qed simp

lemma apply_ops_put_some:
  assumes "\<And>x. x \<in> set b \<Longrightarrow> touches x k \<Longrightarrow> \<exists>v. x = Put k v"
  shows "apply_ops b m k \<noteq> None \<longleftrightarrow> (\<exists>x \<in> set b. touches x k) \<or> m k \<noteq> None"
  using assms
proof (induction b arbitrary: m)
  case (Cons x b)
  have "apply_op x m k \<noteq> None \<longleftrightarrow> touches x k \<or> m k \<noteq> None"
    using Cons.prems [of x] by (cases x) auto
  with Cons show ?case by auto
qed simp

lemma blob_ops_ranged: "ranged {0x42, 0x43, 0x50, 0x52} (concat (map (blob_ops lib m r md now) descs))"
  by (induction descs) (simp_all add: blob_ops_def Let_def key_defs)

lemma child_ops_ranged: "ranged {0x53} (child_ops r md cs)"
  unfolding child_ops_def by (induction cs) (simp_all add: key_defs)

lemma push_ops_ranged: "ranged {0x42, 0x43, 0x50, 0x52, 0x53, 0x4D, 0x5A, 0x46} (push_ops lib m r d req p)"
  unfolding push_ops_def ranged_simps
  by (intro conjI ranged_mono [OF blob_ops_ranged] ranged_mono [OF child_ops_ranged])
    (auto simp: key_defs split: option.split)

text \<open>Which keys a push puts, by kind.\<close>

lemma push_ops_manifest:
  "apply_ops (push_ops lib m r d req p) m' (manifest_key q e) =
     (if q = r \<and> e = d then Some (stored_as (lb_manifest lib) (push_record r d req p)) else m' (manifest_key q e))"
  using ranged_untouched [OF blob_ops_ranged, of "0x4D"] ranged_untouched [OF child_ops_ranged, of "0x4D"]
  by (auto simp: push_ops_def key_defs key_codes split: option.split)

lemma push_ops_body:
  "apply_ops (push_ops lib m r d req p) m' (manifest_body_key q e) =
     (if q = r \<and> e = d then Some (the (lb_compress lib (mp_body req))) else m' (manifest_body_key q e))"
  using ranged_untouched [OF blob_ops_ranged, of "0x5A"] ranged_untouched [OF child_ops_ranged, of "0x5A"]
  by (auto simp: push_ops_def key_defs key_codes split: option.split)

lemma push_ops_refs:
  "apply_ops (push_ops lib m r d req p) m' (blob_ref_key b q e) =
     (if q = r \<and> e = d \<and> b \<in> bd_digest ` set (kept_blobs lib m r p) then Some [] else m' (blob_ref_key b q e))"
proof -
  let ?descs = "kept_blobs lib m r p"
  have rest: "apply_ops (push_ops lib m r d req p) m' (blob_ref_key b q e) =
      apply_ops (concat (map (blob_ops lib m r d (mp_now req)) ?descs)) m' (blob_ref_key b q e)"
    using ranged_untouched [OF child_ops_ranged, of "0x52"]
    by (auto simp: push_ops_def key_defs split: option.split)
  have touch: "touches x (blob_ref_key b q e) \<longleftrightarrow> q = r \<and> e = d \<and> bd_digest desc = b \<and> x = Put (blob_ref_key b q e) []"
    if "x \<in> set (blob_ops lib m r d (mp_now req) desc)" for x desc
    using that by (auto simp: blob_ops_def Let_def key_defs key_codes split: if_splits)
  have mem: "Put (blob_ref_key (bd_digest desc) r d) [] \<in> set (blob_ops lib m r d (mp_now req) desc)" for desc
    by (simp add: blob_ops_def Let_def)
  have "(\<exists>x \<in> set (concat (map (blob_ops lib m r d (mp_now req)) ?descs)). touches x (blob_ref_key b q e)) \<longleftrightarrow>
      q = r \<and> e = d \<and> b \<in> bd_digest ` set ?descs"
    using touch mem by fastforce
  then show ?thesis
    unfolding rest by (subst apply_ops_only [where v = "[]"]) (use touch in auto)
qed

lemma push_ops_children:
  "apply_ops (push_ops lib m r d req p) m' (child_parent_key q c e) =
     (if q = r \<and> e = d \<and> c \<in> cr_digest ` set (pm_children p) then Some [] else m' (child_parent_key q c e))"
proof -
  have rest: "apply_ops (push_ops lib m r d req p) m' (child_parent_key q c e) =
      apply_ops (child_ops r d (pm_children p))
        (apply_ops (concat (map (blob_ops lib m r d (mp_now req)) (kept_blobs lib m r p))) m') (child_parent_key q c e)"
    by (auto simp: push_ops_def key_defs split: option.split)
  show ?thesis
    unfolding rest
    by (subst apply_ops_only [where v = "[]"])
      (use ranged_untouched [OF blob_ops_ranged, of "0x53"] in
        \<open>auto simp: child_ops_def key_defs key_codes image_iff\<close>)
qed

lemma push_ops_blobs:
  "apply_ops (push_ops lib m r d req p) m' (blob_key b) \<noteq> None \<longleftrightarrow>
     m' (blob_key b) \<noteq> None \<or> (blob_at lib m b = None \<and> b \<in> bd_digest ` set (kept_blobs lib m r p))"
proof -
  let ?descs = "kept_blobs lib m r p"
  have rest: "apply_ops (push_ops lib m r d req p) m' (blob_key b) =
      apply_ops (concat (map (blob_ops lib m r d (mp_now req)) ?descs)) m' (blob_key b)"
    using ranged_untouched [OF child_ops_ranged, of "0x42"]
    by (auto simp: push_ops_def key_defs split: option.split)
  have touch: "touches x (blob_key b) \<longleftrightarrow> bd_digest desc = b \<and> blob_at lib m b = None \<and> (\<exists>v. x = Put (blob_key b) v)"
    if "x \<in> set (blob_ops lib m r d (mp_now req) desc)" for x desc
    using that by (auto simp: blob_ops_def Let_def key_defs key_codes split: if_splits)
  have mem: "\<exists>v. Put (blob_key (bd_digest desc)) v \<in> set (blob_ops lib m r d (mp_now req) desc)"
    if "blob_at lib m (bd_digest desc) = None" for desc
    using that by (auto simp: blob_ops_def Let_def)
  have "(\<exists>x \<in> set (concat (map (blob_ops lib m r d (mp_now req)) ?descs)). touches x (blob_key b)) \<longleftrightarrow>
      blob_at lib m b = None \<and> b \<in> bd_digest ` set ?descs" (is "?L \<longleftrightarrow> ?R")
  proof
    assume ?L
    then obtain desc x where "desc \<in> set ?descs" "x \<in> set (blob_ops lib m r d (mp_now req) desc)" "touches x (blob_key b)"
      by auto
    with touch [of x desc] show ?R by blast
  next
    assume ?R
    then obtain desc where desc: "desc \<in> set ?descs" "bd_digest desc = b" "blob_at lib m (bd_digest desc) = None" by blast
    then obtain v where "Put (blob_key b) v \<in> set (blob_ops lib m r d (mp_now req) desc)" using mem by blast
    with desc show ?L by (auto intro!: bexI [of _ desc] bexI [of _ "Put (blob_key b) v"])
  qed
  then show ?thesis
    unfolding rest by (subst apply_ops_put_some) (use touch in auto)
qed

text \<open>
  The store after a push, one kind of key at a time: \<open>m\<close> is the store before with the name interned, \<open>ts\<close> the tags, each once. A
  digest that is listed more than once is recorded with the size of its last descriptor.
\<close>

definition listed :: "blob_desc list \<Rightarrow> digest \<Rightarrow> blob_desc option" where
  "listed descs b = List.find (\<lambda>desc. bd_digest desc = b) (rev descs)"

fun pushed ::
    "libs \<Rightarrow> store \<Rightarrow> repo_id \<Rightarrow> digest \<Rightarrow> manifest_put \<Rightarrow> parsed_manifest \<Rightarrow> string list \<Rightarrow> store_key \<Rightarrow> bytes option" where
  "pushed lib m r d req p ts (KManifest q e) =
     (if q = r \<and> e = d then Some (stored_as (lb_manifest lib) (push_record r d req p)) else m (manifest_key q e))"
| "pushed lib m r d req p ts (KManifestBody q e) =
     (if q = r \<and> e = d then lb_compress lib (mp_body req) else m (manifest_body_key q e))"
| "pushed lib m r d req p ts (KBlob b) =
     (case listed (kept_blobs lib m r p) b of
        Some desc \<Rightarrow> if m (blob_key b) = None then Some (stored_as (lb_blob lib) \<lparr> br_size = bd_size desc \<rparr>) else m (blob_key b)
      | None \<Rightarrow> m (blob_key b))"
| "pushed lib m r d req p ts (KBlobMark b) = (if listed (kept_blobs lib m r p) b = None then m (blob_mark_key b) else None)"
| "pushed lib m r d req p ts (KRepoBlob q b) =
     (case listed (kept_blobs lib m r p) b of
        Some desc \<Rightarrow>
          if q = r \<and> m (repo_blob_key r b) = None
          then Some (stored_as (lb_repo_blob lib)
            \<lparr> rb_size = (case blob_at lib m b of None \<Rightarrow> bd_size desc | Some known \<Rightarrow> br_size known), rb_added_at = secs (mp_now req) \<rparr>)
          else m (repo_blob_key q b)
      | None \<Rightarrow> m (repo_blob_key q b))"
| "pushed lib m r d req p ts (KBlobRef b q e) =
     (if q = r \<and> e = d \<and> listed (kept_blobs lib m r p) b \<noteq> None then Some [] else m (blob_ref_key b q e))"
| "pushed lib m r d req p ts (KChildParent q c e) =
     (if q = r \<and> e = d \<and> c \<in> cr_digest ` set (pm_children p) then Some [] else m (child_parent_key q c e))"
| "pushed lib m r d req p ts (KReferrer q s e) =
     (if q = r \<and> e = d \<and> (pm_subject p = Some s \<or> (\<exists>t \<in> set ts. subject_of t = Some s))
      then Some (stored_as (lb_referrer lib) (push_referrer req p))
      else if q = r \<and> (\<exists>t \<in> set ts. subject_of t = Some s \<and> map_option tr_digest (tag_at lib m r t) = Some e) then None
      else m (referrer_key q s e))"
| "pushed lib m r d req p ts (KTag q u) =
     (if q = r \<and> u \<in> set ts then Some (stored_as (lb_tag lib) \<lparr> tr_digest = d, tr_tagged_at = secs (mp_now req) \<rparr>)
      else m (tag_key q u))"
| "pushed lib m r d req p ts (KManifestTag q e u) =
     (if q = r \<and> u \<in> set ts \<and> e = d then Some []
      else if q = r \<and> u \<in> set ts \<and> map_option tr_digest (tag_at lib m r u) = Some e then None
      else m (manifest_tag_key q e u))"
| "pushed lib m r d req p ts (KTagHistory q u at e) =
     (if q = r \<and> u \<in> set ts \<and> at = mp_now req \<and> e = d
      then Some (stored_as (lb_event lib)
        \<lparr> te_event = Created, te_media_type = pm_media_type p, te_size = word_of_nat (length (mp_body req)) \<rparr>)
      else m (tag_history_key q u at e))"
| "pushed lib m r d req p ts (KManifestTagHistory q e at u) =
     (if q = r \<and> u \<in> set ts \<and> at = mp_now req \<and> e = d
      then Some (stored_as (lb_event lib)
        \<lparr> te_event = Created, te_media_type = pm_media_type p, te_size = word_of_nat (length (mp_body req)) \<rparr>)
      else m (manifest_tag_history_key q e at u))"
| "pushed lib m r d req p ts sk = m (encode_key sk)"

text \<open>A batch made of parts: where each part that touches a key leaves the same value there, or where the last part decides.\<close>

lemma apply_parts:
  assumes "\<And>x m. x \<in> set xs \<Longrightarrow> apply_ops (f x) m k = (if P x then v else m k)"
  shows "apply_ops (concat (map f xs)) m k = (if \<exists>x \<in> set xs. P x then v else m k)"
  using assms by (induction xs arbitrary: m) auto

lemma apply_parts_last:
  assumes "\<And>x m. apply_ops (f x) m k = (if P x then h x else m k)"
  shows "apply_ops (concat (map f xs)) m k = (case List.find P (rev xs) of Some x \<Rightarrow> h x | None \<Rightarrow> m k)"
  by (induction xs arbitrary: m rule: rev_induct) (simp_all add: assms)

lemma listed_None: "listed descs b = None \<longleftrightarrow> b \<notin> bd_digest ` set descs"
  by (auto simp: listed_def find_None_iff)

lemma listed_mem: "listed descs b = Some desc \<Longrightarrow> b \<in> bd_digest ` set descs"
  using listed_None [of descs b] by auto

lemma find_guarded: "List.find (\<lambda>x. P x \<and> b) xs = (if b then List.find P xs else None)"
  by (induction xs) auto

text \<open>The records and the memberships of its blobs, and their marks.\<close>

lemma push_ops_base:
  "h \<in> {0x42, 0x50, 0x43} \<Longrightarrow> apply_ops (push_ops lib m r d req p) m' (h # k) =
     apply_ops (concat (map (blob_ops lib m r d (mp_now req)) (kept_blobs lib m r p))) m' (h # k)"
  using ranged_untouched [OF child_ops_ranged] by (auto simp: push_ops_def key_defs split: option.split)

lemma push_ops_records:
  "apply_ops (push_ops lib m r d req p) m' (blob_key b) =
     (case listed (kept_blobs lib m r p) b of
        Some desc \<Rightarrow> if blob_at lib m b = None then Some (stored_as (lb_blob lib) \<lparr> br_size = bd_size desc \<rparr>) else m' (blob_key b)
      | None \<Rightarrow> m' (blob_key b))"
  "apply_ops (push_ops lib m r d req p) m' (repo_blob_key q b) =
     (case listed (kept_blobs lib m r p) b of
        Some desc \<Rightarrow>
          if q = r \<and> m (repo_blob_key r b) = None
          then Some (stored_as (lb_repo_blob lib)
            \<lparr> rb_size = (case blob_at lib m b of None \<Rightarrow> bd_size desc | Some known \<Rightarrow> br_size known), rb_added_at = secs (mp_now req) \<rparr>)
          else m' (repo_blob_key q b)
      | None \<Rightarrow> m' (repo_blob_key q b))"
  "apply_ops (push_ops lib m r d req p) m' (blob_mark_key b) =
     (if listed (kept_blobs lib m r p) b = None then m' (blob_mark_key b) else None)"
proof -
  let ?f = "blob_ops lib m r d (mp_now req)"
  have B: "apply_ops (?f desc) n (blob_key b) = (if bd_digest desc = b \<and> blob_at lib m b = None
      then Some (stored_as (lb_blob lib) \<lparr> br_size = bd_size desc \<rparr>) else n (blob_key b))" for desc n
    by (auto simp: blob_ops_def Let_def key_defs key_codes)
  have P: "apply_ops (?f desc) n (repo_blob_key q b) = (if bd_digest desc = b \<and> q = r \<and> m (repo_blob_key r b) = None
      then Some (stored_as (lb_repo_blob lib)
        \<lparr> rb_size = (case blob_at lib m b of None \<Rightarrow> bd_size desc | Some known \<Rightarrow> br_size known), rb_added_at = secs (mp_now req) \<rparr>)
      else n (repo_blob_key q b))" for desc n
    by (auto simp: blob_ops_def Let_def key_defs key_codes)
  have C: "apply_ops (?f desc) n (blob_mark_key b) = (if bd_digest desc = b then None else n (blob_mark_key b))" for desc n
    by (auto simp: blob_ops_def Let_def key_defs key_codes)
  have base: "apply_ops (push_ops lib m r d req p) m' k = apply_ops (concat (map ?f (kept_blobs lib m r p))) m' k"
    if "k \<in> {blob_key b, repo_blob_key q b, blob_mark_key b}" for k
    using that push_ops_base by (auto simp: key_defs)
  show "apply_ops (push_ops lib m r d req p) m' (blob_key b) =
     (case listed (kept_blobs lib m r p) b of
        Some desc \<Rightarrow> if blob_at lib m b = None then Some (stored_as (lb_blob lib) \<lparr> br_size = bd_size desc \<rparr>) else m' (blob_key b)
      | None \<Rightarrow> m' (blob_key b))"
    by (simp add: base apply_parts_last [OF B] find_guarded listed_def split: option.split)
  show "apply_ops (push_ops lib m r d req p) m' (repo_blob_key q b) =
     (case listed (kept_blobs lib m r p) b of
        Some desc \<Rightarrow>
          if q = r \<and> m (repo_blob_key r b) = None
          then Some (stored_as (lb_repo_blob lib)
            \<lparr> rb_size = (case blob_at lib m b of None \<Rightarrow> bd_size desc | Some known \<Rightarrow> br_size known), rb_added_at = secs (mp_now req) \<rparr>)
          else m' (repo_blob_key q b)
      | None \<Rightarrow> m' (repo_blob_key q b))"
    by (simp add: base apply_parts_last [OF P] find_guarded listed_def split: option.split)
  show "apply_ops (push_ops lib m r d req p) m' (blob_mark_key b) =
     (if listed (kept_blobs lib m r p) b = None then m' (blob_mark_key b) else None)"
    by (simp add: base apply_parts_last [OF C] listed_def split: option.split)
qed

lemma push_ops_referrer:
  "apply_ops (push_ops lib m r d req p) m' (referrer_key q s e) =
     (if q = r \<and> e = d \<and> pm_subject p = Some s then Some (stored_as (lb_referrer lib) (push_referrer req p))
      else m' (referrer_key q s e))"
  using ranged_untouched [OF blob_ops_ranged, of "0x46"] ranged_untouched [OF child_ops_ranged, of "0x46"]
  by (auto simp: push_ops_def key_defs key_codes split: option.split)

text \<open>What its tags leave.\<close>

lemma tagged_ops_at:
  fixes lib m r d req p ts m'
  defines "new \<equiv> apply_ops (tagged_ops lib m r (push_target d req p) (mp_now req) ts) m'"
    and "event \<equiv> stored_as (lb_event lib)
      \<lparr> te_event = Created, te_media_type = pm_media_type p, te_size = word_of_nat (length (mp_body req)) \<rparr>"
  shows "new (tag_key q u) = (if q = r \<and> u \<in> set ts
      then Some (stored_as (lb_tag lib) \<lparr> tr_digest = d, tr_tagged_at = secs (mp_now req) \<rparr>) else m' (tag_key q u))"
    and "new (manifest_tag_key q e u) = (if q = r \<and> u \<in> set ts \<and> e = d then Some []
      else if q = r \<and> u \<in> set ts \<and> map_option tr_digest (tag_at lib m r u) = Some e then None else m' (manifest_tag_key q e u))"
    and "new (referrer_key q s e) =
      (if q = r \<and> e = d \<and> (\<exists>t \<in> set ts. subject_of t = Some s) then Some (stored_as (lb_referrer lib) (push_referrer req p))
       else if q = r \<and> (\<exists>t \<in> set ts. subject_of t = Some s \<and> map_option tr_digest (tag_at lib m r t) = Some e) then None
       else m' (referrer_key q s e))"
    and "new (manifest_tag_history_key q e at u) =
      (if q = r \<and> u \<in> set ts \<and> at = mp_now req \<and> e = d then Some event else m' (manifest_tag_history_key q e at u))"
    and "nul_free u \<Longrightarrow> \<forall>t \<in> set ts. valid_tag t \<Longrightarrow> new (tag_history_key q u at e) =
      (if q = r \<and> u \<in> set ts \<and> at = mp_now req \<and> e = d then Some event else m' (tag_history_key q u at e))"
  unfolding new_def event_def tagged_ops_def
  by (induction ts arbitrary: m')
    (auto simp: set_tag_ops_tag set_tag_ops_index set_tag_ops_referrer tag_ops_history tag_ops_manifest_history push_target_def)

lemma digest_body_fix: "digest_body lib body (Some (digest_body lib body x)) = digest_body lib body x"
  by (auto simp: digest_body_def split: option.split digest.split)

lemma firsts_facts:
  "set (firsts seen xs) = set xs - set seen" "distinct (firsts seen xs)"
  by (induction xs arbitrary: seen) auto

lemma for_r_validate: "for_r ts () (\<lambda>t _. validate_tag t) = Inr () \<longleftrightarrow> (\<forall>t \<in> set ts. valid_tag t)"
  by (induction ts) (auto simp: and_then_Inr validate_tag_iff)

context library_code
begin

lemma push_ops_good:
  assumes "Put k v \<in> set (push_ops lib m r d req p)"
  shows "good_entry lib k v"
proof -
  have "lb_decompress lib (the (lb_compress lib (mp_body req))) = Some (mp_body req)"
    using compress_ok [of "mp_body req"] by auto
  with assms show ?thesis
    by (auto simp: push_ops_def blob_ops_def child_ops_def Let_def coders push_record_def
        split: option.splits if_splits)
qed

lemma store_ok_push:
  assumes ok: "store_ok lib m" and parse: "parse_manifest lib (mp_body req) c = Inr p"
    and d: "digest_body lib (mp_body req) (Some d) = d"
    and same: "\<And>body. body_at lib m r d = Some body \<Longrightarrow> body = mp_body req"
  shows "store_ok lib (apply_ops (push_ops lib m r d req p) m)"
proof -
  let ?m = "apply_ops (push_ops lib m r d req p) m"
  have e: "entries_ok lib m" and b: "bodies_ok lib m" and g: "edges_ok lib m" and t: "tags_ok lib m"
    using ok by (simp_all add: store_ok_def)
  have man: "manifest_at lib ?m q f = (if q = r \<and> f = d then Some (push_record r d req p) else manifest_at lib m q f)" for q f
    by (simp add: manifest_at_def push_ops_manifest coders)
  have bod: "body_at lib ?m q f = (if q = r \<and> f = d then Some (mp_body req) else body_at lib m q f)" for q f
    using compress_ok [of "mp_body req"] by (auto simp: body_at_def push_ops_body)
  have same_layers: "mr_layers rec = map bd_digest (pm_blobs p) \<and> mr_children rec = pm_children p"
    if old: "manifest_at lib m r d = Some rec" for rec
  proof -
    obtain body c' p' where "body_at lib m r d = Some body" "parse_manifest lib body c' = Inr p'"
      "mr_layers rec = map bd_digest (pm_blobs p')" "mr_children rec = pm_children p'"
      using store_ok_body [OF ok old] by metis
    with same parse_same_body [OF parse, of c' p'] show ?thesis
      by (metis parsed_manifest.select_convs(7,8) parsed_manifest.surjective parsed_manifest.update_convs(2))
  qed
  have "entries_ok lib ?m" by (rule entries_ok_apply [OF e]) (rule push_ops_good)
  moreover have "tags_ok lib ?m"
  proof -
    have T: "?m (tag_key q u) = m (tag_key q u)" and G: "?m (manifest_tag_key q f u) = m (manifest_tag_key q f u)" for q u f
      unfolding key_defs by (rule ranged_untouched [OF push_ops_ranged]; simp)+
    show ?thesis
      using t unfolding tags_ok_def tag_at_def T G push_ops_manifest by auto
  qed
  moreover have "bodies_ok lib ?m"
    unfolding bodies_ok_def man bod push_ops_manifest push_ops_body
    using b parse d unfolding bodies_ok_def by (auto simp: push_record_def)
  moreover have "edges_ok lib ?m"
  proof -
    have R: "?m (blob_ref_key x q f) \<noteq> None \<Longrightarrow>
        ?m (blob_key x) \<noteq> None \<and> (\<exists>rec. manifest_at lib ?m q f = Some rec \<and> x \<in> set (mr_layers rec))" for x q f
    proof (cases "q = r \<and> f = d \<and> x \<in> bd_digest ` set (kept_blobs lib m r p)")
      case True
      then have "?m (blob_key x) \<noteq> None"
        unfolding push_ops_blobs using record_cases(4) [OF e, of x] by blast
      moreover have "x \<in> set (map bd_digest (pm_blobs p))" using True by (auto simp: kept_blobs_def)
      ultimately show ?thesis using True by (simp add: man push_record_def)
    next
      case False
      assume "?m (blob_ref_key x q f) \<noteq> None"
      then have "m (blob_ref_key x q f) \<noteq> None" unfolding push_ops_refs using False by (metis (full_types))
      then obtain rec where rec: "m (blob_key x) \<noteq> None" "manifest_at lib m q f = Some rec" "x \<in> set (mr_layers rec)"
        using g unfolding edges_ok_def by blast
      moreover have "?m (blob_key x) \<noteq> None" unfolding push_ops_blobs using rec(1) by blast
      ultimately show ?thesis using same_layers [of rec] by (auto simp: man push_record_def)
    qed
    have S: "?m (child_parent_key q x f) \<noteq> None \<Longrightarrow>
        \<exists>rec. manifest_at lib ?m q f = Some rec \<and> x \<in> cr_digest ` set (mr_children rec)" for q x f
    proof (cases "q = r \<and> f = d \<and> x \<in> cr_digest ` set (pm_children p)")
      case True
      then show ?thesis by (simp add: man push_record_def)
    next
      case False
      assume "?m (child_parent_key q x f) \<noteq> None"
      then have "m (child_parent_key q x f) \<noteq> None" unfolding push_ops_children using False by (metis (full_types))
      then obtain rec where "manifest_at lib m q f = Some rec" "x \<in> cr_digest ` set (mr_children rec)"
        using g unfolding edges_ok_def by blast
      then show ?thesis using same_layers [of rec] by (auto simp: man push_record_def)
    qed
    show ?thesis unfolding edges_ok_def using R S by blast
  qed
  ultimately show ?thesis by (simp add: store_ok_def)
qed

lemma store_ok_tagged:
  assumes "store_ok lib m1" and "\<forall>t \<in> set ts. valid_tag t" and "distinct ts"
    and "m1 (manifest_key r (tt_digest target)) \<noteq> None"
    and "\<forall>t \<in> set ts. tag_at lib m1 r t = tag_at lib m r t"
  shows "store_ok lib (apply_ops (tagged_ops lib m r target now ts) m1)"
  using assms
proof (induction ts arbitrary: m1)
  case (Cons t ts)
  let ?ops = "set_tag_ops lib r t target now (map_option tr_digest (tag_at lib m r t))"
  have "store_ok lib (apply_ops ?ops m1)"
    using store_ok_set_tag [of m1 t r target _ now] Cons.prems by simp
  moreover have "\<forall>u \<in> set ts. tag_at lib (apply_ops ?ops m1) r u = tag_at lib m r u"
    using Cons.prems by (auto simp: tag_at_set)
  ultimately have "store_ok lib (apply_ops (tagged_ops lib m r target now ts) (apply_ops ?ops m1))"
    using Cons.prems by (intro Cons.IH) (auto simp: set_tag_ops_other)
  then show ?case by (simp add: tagged_ops_def)
qed (simp add: tagged_ops_def)

lemma tag_at_tagged:
  "tag_at lib (apply_ops (tagged_ops lib m r target now ts) m1) q u =
     (if q = r \<and> u \<in> set ts then Some \<lparr> tr_digest = tt_digest target, tr_tagged_at = secs now \<rparr> else tag_at lib m1 q u)"
  by (induction ts arbitrary: m1) (auto simp: tagged_ops_def tag_at_set)

lemma tagged_ops_ranged: "ranged {0x47, 0x46, 0x54, 0x48, 0x4A} (tagged_ops lib m r target now ts)"
  by (induction ts) (simp_all add: tagged_ops_def set_tag_ops_ranged)

end

section \<open>Commits\<close>

text \<open>Wherever a body is stored under the digest, it is the same body.\<close>

definition same_content :: "libs \<Rightarrow> digest \<Rightarrow> bytes \<Rightarrow> store \<Rightarrow> bool" where
  "same_content lib d body m \<longleftrightarrow> (\<forall>r b. body_at lib m r d = Some b \<longrightarrow> b = body)"

lemma same_content_interned: "interned m n r m1 \<Longrightarrow> same_content lib d body m \<Longrightarrow> same_content lib d body m1"
  using interned_data [of m n r m1 "0x5A"] by (simp add: same_content_def body_at_def key_defs)

lemma check_put_Inr:
  assumes "check_put opts lib req = Inr (d, p)"
  shows "parse_manifest lib (mp_body req) (mp_content_type req) = Inr p"
    and "d = digest_body lib (mp_body req) (as_digest (mp_reference req))"
    and "length (mp_body req) \<le> ro_max_manifest_bytes opts"
    and "as_digest (mp_reference req) = Some c \<Longrightarrow> c = d"
  using assms by (auto simp: check_put_def Let_def and_then_Inr split: if_splits option.splits)

lemma put_spec_Inr:
  assumes "put_spec opts lib req extra_tags d p r m = Inr (out, b)"
  shows "b = push_ops lib m r d req p @ tagged_ops lib m r (push_target d req p) (mp_now req) (put_tags req extra_tags)"
    and "\<forall>t \<in> set (put_tags req extra_tags). valid_tag t"
    and "out = \<lparr> po_digest = d, po_media_type = pm_media_type p, po_size = word_of_nat (length (mp_body req)),
      po_subject = pm_subject p, po_tag = as_tag (mp_reference req),
      po_displaced = (case put_tags req extra_tags of [] \<Rightarrow> None | t # _ \<Rightarrow> map_option tr_digest (tag_at lib m r t)) \<rparr>"
    and "refused_blob (ro_validate_references opts) lib m r (pm_blobs p) = None"
    and "refused_child (ro_validate_references opts) m r (pm_children p) = None"
  using assms for_r_validate [of "put_tags req extra_tags"]
  by (auto simp: put_spec_def Let_def and_then_Inr split: option.splits)

lemma planned_Inl: "and_then f (\<lambda>(a, b). Inr (a, apply_ops b m)) = Inl e \<longleftrightarrow> f = Inl e"
  by (auto simp: and_then_def split: sum.split)

context registry_env
begin

lemma put_store_ok:
  assumes ok: "store_ok (rg_libs G) m" and same: "same_content (rg_libs G) d (mp_body req) m"
    and check: "check_put (rg_options G) (rg_libs G) req = Inr (d, p)"
    and spec: "put_spec (rg_options G) (rg_libs G) req extra_tags d p r m = Inr (out, b)"
  shows "bounded_batch b \<and> nameless b \<and> store_ok (rg_libs G) (apply_ops b m)"
proof -
  let ?lib = "rg_libs G" and ?ts = "put_tags req extra_tags"
  let ?push = "push_ops ?lib m r d req p" and ?tags = "tagged_ops ?lib m r (push_target d req p) (mp_now req) ?ts"
  note c = check_put_Inr [OF check] and s = put_spec_Inr [OF spec]
  have "digest_body ?lib (mp_body req) (Some d) = d" unfolding c(2) by (rule digest_body_fix)
  then have m1: "store_ok ?lib (apply_ops ?push m)"
    by (rule store_ok_push [OF ok c(1)]) (use same in \<open>simp add: same_content_def\<close>)
  have "tag_at ?lib (apply_ops ?push m) r t = tag_at ?lib m r t" for t
    using ranged_untouched [OF push_ops_ranged, of "0x54"] by (simp add: tag_at_def key_defs)
  then have "store_ok ?lib (apply_ops ?tags (apply_ops ?push m))"
    by (intro store_ok_tagged [OF m1 s(2)])
      (simp_all add: put_tags_def firsts_facts push_target_def push_ops_manifest)
  moreover have "bounded_batch ?push" "bounded_batch ?tags"
    by (rule ranged_bounded [OF push_ops_ranged], rule ranged_bounded [OF tagged_ops_ranged])
  moreover have "nameless ?push" by (rule ranged_nameless [OF push_ops_ranged]) auto
  moreover have "nameless ?tags" by (rule ranged_nameless [OF tagged_ops_ranged]) auto
  ultimately show ?thesis unfolding s(1) by simp
qed

lemma commits_put:
  assumes "is_str (mp_repo req)" and check: "check_put (rg_options G) (rg_libs G) req = Inr (d, p)"
  shows "commits_in holds may_fail (same_content (rg_libs G) d (mp_body req)) (mp_repo req)
    (put_manifest_tagged G req extra_tags)
    (\<lambda>r m. and_then (put_spec (rg_options G) (rg_libs G) req extra_tags d p r m) (\<lambda>(a, b). Inr (a, apply_ops b m)))"
proof -
  have "put_manifest_tagged G req extra_tags =
      applied G (bind_a (intern_repo G (mp_repo req)) (plan_interned_put G req extra_tags d p))"
    by (simp add: put_manifest_tagged_def plan_manifest_put_tagged_def check applied_def bind_a_def lift_a_def)
  then show ?thesis
    using commits_in_planned [OF assms(1) refines_plan_interned_put same_content_interned put_store_ok [OF _ _ check]]
    by simp
qed

lemma put_rejected:
  assumes "check_put (rg_options G) (rg_libs G) req = Inl e"
  shows "put_manifest_tagged G req extra_tags s = (Inl e, s)"
  by (simp add: put_manifest_tagged_def plan_manifest_put_tagged_def assms applied_def bind_a_def lift_a_def)

text \<open>What a push that returns leaves behind.\<close>

lemma put_run:
  assumes "is_str (mp_repo req)" and at: "holds m s"
    and same: "same_content (rg_libs G) (digest_body (rg_libs G) (mp_body req) (as_digest (mp_reference req))) (mp_body req) m"
    and run: "put_manifest_tagged G req extra_tags s = (Inr out, s')"
  obtains d p r m1 b where "check_put (rg_options G) (rg_libs G) req = Inr (d, p)"
    "interned m (mp_repo req) r m1" "put_spec (rg_options G) (rg_libs G) req extra_tags d p r m1 = Inr (out, b)"
    "holds (apply_ops b m1) s'" "store_ok (rg_libs G) m1"
proof -
  obtain d p where check: "check_put (rg_options G) (rg_libs G) req = Inr (d, p)"
    using put_rejected [of req _ extra_tags s] run by (cases "check_put (rg_options G) (rg_libs G) req") auto
  have same': "same_content (rg_libs G) d (mp_body req) m"
    using same check_put_Inr(2) [OF check] by simp
  from commits_in_run [OF commits_put [OF assms(1) check] at same' run]
  obtain r m1 m' where i: "interned m (mp_repo req) r m1" and h: "holds m' s'"
    and f: "and_then (put_spec (rg_options G) (rg_libs G) req extra_tags d p r m1) (\<lambda>(a, b). Inr (a, apply_ops b m1)) = Inr (out, m')"
    by auto
  moreover have "store_ok (rg_libs G) m1"
    using i holdsD(4) [OF at] store_ok_alloc [OF _ assms(1)] by (auto simp: interned_def)
  ultimately show ?thesis using that check by (auto simp: and_then_Inr)
qed

end

lemma refused_blob_None:
  "refused_blob True lib m r descs = None \<longleftrightarrow> (\<forall>desc \<in> set descs. bd_foreign desc \<or> \<not> missing_blob lib m r desc)"
  by (auto simp: refused_blob_def find_None_iff)

lemma refused_child_None:
  "refused_child True m r cs = None \<longleftrightarrow> (\<forall>c \<in> set cs. m (manifest_key r (cr_digest c)) \<noteq> None)"
  by (auto simp: refused_child_def find_None_iff)

text \<open>The batch of a push, key by key.\<close>

context library_code
begin

lemma put_effects:
  fixes m1 r d req p ts
  defines "m' \<equiv> apply_ops (push_ops lib m1 r d req p @ tagged_ops lib m1 r (push_target d req p) (mp_now req) ts) m1"
  shows "manifest_at lib m' r d = Some (push_record r d req p)" "body_at lib m' r d = Some (mp_body req)"
    "m' (manifest_key q e) \<noteq> m1 (manifest_key q e) \<Longrightarrow> q = r \<and> e = d"
    "tag_at lib m' q u = (if q = r \<and> u \<in> set ts then Some \<lparr> tr_digest = d, tr_tagged_at = secs (mp_now req) \<rparr>
       else tag_at lib m1 q u)"
    "id_of m' n = id_of m1 n"
proof -
  let ?push = "push_ops lib m1 r d req p"
  let ?tags = "tagged_ops lib m1 r (push_target d req p) (mp_now req) ts"
  have other: "m' (h # k) = apply_ops ?push m1 (h # k)" if "h \<notin> {0x47, 0x46, 0x54, 0x48, 0x4A}" for h k
    unfolding m'_def apply_ops_append by (rule ranged_untouched [OF tagged_ops_ranged that])
  have M: "m' (manifest_key q e) = apply_ops ?push m1 (manifest_key q e)"
    and Z: "m' (manifest_body_key q e) = apply_ops ?push m1 (manifest_body_key q e)" for q e
    by (simp_all add: key_defs other)
  show "manifest_at lib m' r d = Some (push_record r d req p)"
    by (simp add: manifest_at_def M push_ops_manifest coders)
  show "body_at lib m' r d = Some (mp_body req)"
    using compress_ok [of "mp_body req"] by (auto simp: body_at_def Z push_ops_body)
  show "q = r \<and> e = d" if "m' (manifest_key q e) \<noteq> m1 (manifest_key q e)"
    using that by (simp add: M push_ops_manifest split: if_splits)
  have "tag_at lib (apply_ops ?push m1) q u = tag_at lib m1 q u"
    using ranged_untouched [OF push_ops_ranged, of "0x54"] by (simp add: tag_at_def key_defs)
  then show "tag_at lib m' q u = (if q = r \<and> u \<in> set ts then Some \<lparr> tr_digest = d, tr_tagged_at = secs (mp_now req) \<rparr>
       else tag_at lib m1 q u)"
    unfolding m'_def apply_ops_append tag_at_tagged by (simp add: push_target_def)
  have "nameless (?push @ ?tags)"
    unfolding nameless_append
    by (intro conjI ranged_nameless [OF push_ops_ranged] ranged_nameless [OF tagged_ops_ranged]) auto
  then show "id_of m' n = id_of m1 n" unfolding m'_def by (rule id_of_nameless)
qed

lemma merge_edges:
  "(displacing \<longrightarrow> setting) \<Longrightarrow>
   (if x \<and> y \<and> setting then u else if x \<and> displacing then None else if x \<and> y \<and> own then u else v) =
   (if x \<and> y \<and> (own \<or> setting) then u else if x \<and> displacing then None else v)"
  by auto

lemma put_store:
  assumes ok: "entries_ok lib m1" and ts: "\<forall>t \<in> set ts. valid_tag t" and sk: "wf_key sk"
  shows "apply_ops (push_ops lib m1 r d req p @ tagged_ops lib m1 r (push_target d req p) (mp_now req) ts) m1 (encode_key sk)
    = pushed lib m1 r d req p ts sk"
proof -
  let ?push = "apply_ops (push_ops lib m1 r d req p) m1"
  let ?new = "apply_ops (tagged_ops lib m1 r (push_target d req p) (mp_now req) ts) ?push"
  have low: "?new (h # k) = ?push (h # k)" if "h \<notin> {0x47, 0x46, 0x54, 0x48, 0x4A}" for h k
    by (rule ranged_untouched [OF tagged_ops_ranged that])
  have base: "?push (h # k) = m1 (h # k)" if "h \<notin> {0x42, 0x43, 0x50, 0x52, 0x53, 0x4D, 0x5A, 0x46}" for h k
    by (rule ranged_untouched [OF push_ops_ranged that])
  have body: "Some (the (lb_compress lib (mp_body req))) = lb_compress lib (mp_body req)"
    using compress_ok [of "mp_body req"] by auto
  have tags: "?push (tag_key q u) = m1 (tag_key q u)" "?push (manifest_tag_key q e u) = m1 (manifest_tag_key q e u)"
    "?push (tag_history_key q u at e) = m1 (tag_history_key q u at e)"
    "?push (manifest_tag_history_key q e at u) = m1 (manifest_tag_history_key q e at u)" for q e u at
    by (simp_all add: key_defs base)
  have pushes: "?new (manifest_key q e) = ?push (manifest_key q e)" "?new (manifest_body_key q e) = ?push (manifest_body_key q e)"
    "?new (blob_key b) = ?push (blob_key b)" "?new (blob_mark_key b) = ?push (blob_mark_key b)"
    "?new (repo_blob_key q b) = ?push (repo_blob_key q b)" "?new (blob_ref_key b q e) = ?push (blob_ref_key b q e)"
    "?new (child_parent_key q b e) = ?push (child_parent_key q b e)" for q e b
    by (simp_all add: key_defs low)
  have other: "?new (encode_key k) = m1 (encode_key k)"
    if "case k of KUpload _ \<Rightarrow> True | KCounterManifest _ _ _ _ \<Rightarrow> True | KCounterTag _ _ _ _ \<Rightarrow> True | KCounterRepo _ _ _ \<Rightarrow> True
      | KDeadRepo _ \<Rightarrow> True | KRepoByName _ \<Rightarrow> True | KRepoById _ \<Rightarrow> True | KDbVersion \<Rightarrow> True | _ \<Rightarrow> False" for k
    using that by (cases k) (simp_all add: key_defs low base)
  have recorded: "blob_at lib m1 b = None \<longleftrightarrow> m1 (blob_key b) = None" for b
    using record_cases(4) [OF ok, of b] by blast
  have edge: "?new (referrer_key q s e) = pushed lib m1 r d req p ts (KReferrer q s e)" for q s e
    unfolding tagged_ops_at(3) push_ops_referrer pushed.simps by (rule merge_edges) blast
  have "?new (encode_key sk) = pushed lib m1 r d req p ts sk"
  proof (cases "\<exists>q s e. sk = KReferrer q s e")
    case True
    with edge show ?thesis by (metis encode_key.simps(10))
  next
    case False
    with sk ts other [of sk] show ?thesis
      by (cases sk) (simp_all add: tagged_ops_at tags pushes push_ops_manifest push_ops_body push_ops_refs push_ops_children
          push_ops_records listed_None recorded body split: option.split, auto dest: listed_mem)
  qed
  then show ?thesis by simp
qed

lemma put_serves:
  fixes m1 r d req p ts
  defines "m' \<equiv> apply_ops (push_ops lib m1 r d req p @ tagged_ops lib m1 r (push_target d req p) (mp_now req) ts) m1"
  assumes ok: "entries_ok lib m1" and desc: "desc \<in> set (pm_blobs p)" "\<not> bd_foreign desc"
  shows "servable m' r (bd_digest desc) \<and> m' (blob_key (bd_digest desc)) \<noteq> None"
proof -
  let ?push = "push_ops lib m1 r d req p"
  have other: "m' (h # k) = apply_ops ?push m1 (h # k)" if "h \<notin> {0x47, 0x46, 0x54, 0x48, 0x4A}" for h k
    unfolding m'_def apply_ops_append by (rule ranged_untouched [OF tagged_ops_ranged that])
  have kept: "desc \<in> set (kept_blobs lib m1 r p)" using desc by (simp add: kept_blobs_def)
  have "apply_ops ?push m1 (blob_ref_key (bd_digest desc) r d) = Some []"
    using kept by (auto simp: push_ops_refs)
  then have "m' (blob_ref_key (bd_digest desc) r d) = Some []" by (simp add: key_defs other)
  moreover have "apply_ops ?push m1 (blob_key (bd_digest desc)) \<noteq> None"
    unfolding push_ops_blobs using kept record_cases(4) [OF ok] by blast
  then have "m' (blob_key (bd_digest desc)) \<noteq> None" by (simp add: key_defs other)
  ultimately show ?thesis by (auto simp: servable_def)
qed

end

text \<open>Interning changes nothing that a push validates against.\<close>

lemma interned_reads:
  assumes "interned m n r m1"
  shows "servable m1 q e = servable m q e" "m1 (blob_key e) = m (blob_key e)"
    "m1 (manifest_key q e) = m (manifest_key q e)" "tag_at lib m1 q u = tag_at lib m q u"
  using interned_data [OF assms] by (simp_all add: servable_def tag_at_def key_defs)

lemma validated:
  assumes "entries_ok lib m" and "refused_blob True lib m r descs = None" and "refused_child True m r cs = None"
  shows "(\<forall>desc \<in> set descs. \<not> bd_foreign desc \<longrightarrow> servable m r (bd_digest desc) \<and> m (blob_key (bd_digest desc)) \<noteq> None)
    \<and> (\<forall>c \<in> set cs. m (manifest_key r (cr_digest c)) \<noteq> None)"
  using assms(2,3) record_cases(4) [OF assms(1)]
  unfolding refused_blob_None refused_child_None missing_blob_def by blast

section \<open>Committing a blob\<close>

definition commit_ops :: "libs \<Rightarrow> store \<Rightarrow> repo_id \<Rightarrow> digest \<Rightarrow> u64 \<Rightarrow> timestamp \<Rightarrow> write_batch" where
  "commit_ops lib m r d sz now =
     [Put (blob_key d) (stored_as (lb_blob lib) \<lparr> br_size = sz \<rparr>), Delete (blob_mark_key d)]
     @ (if m (repo_blob_key r d) = None
        then [Put (repo_blob_key r d) (stored_as (lb_repo_blob lib) \<lparr> rb_size = sz, rb_added_at = secs now \<rparr>)] else [])"

context library_code
begin

lemma store_ok_commit:
  assumes "store_ok lib m"
  shows "store_ok lib (apply_ops (commit_ops lib m r d sz now) m)"
proof -
  let ?m = "apply_ops (commit_ops lib m r d sz now) m"
  have B: "?m (blob_key e) = (if e = d then Some (stored_as (lb_blob lib) \<lparr> br_size = sz \<rparr>) else m (blob_key e))" for e
    by (simp add: commit_ops_def key_defs)
  have "entries_ok lib ?m"
    by (rule entries_ok_apply) (use assms in \<open>auto simp: store_ok_def commit_ops_def coders split: if_splits\<close>)
  moreover have "tags_ok lib ?m" "bodies_ok lib ?m"
    using assms unfolding store_ok_def
    by (auto elim!: tags_ok_cong bodies_ok_cong simp: commit_ops_def key_defs)
  moreover have "edges_ok lib ?m"
  proof -
    have M: "manifest_at lib ?m q e = manifest_at lib m q e"
      and R: "?m (blob_ref_key x q e) = m (blob_ref_key x q e)"
      and S: "?m (child_parent_key q x e) = m (child_parent_key q x e)" for q x e
      by (simp_all add: manifest_at_def commit_ops_def key_defs)
    show ?thesis
      using assms unfolding store_ok_def edges_ok_def M R S B by (metis option.distinct(1))
  qed
  ultimately show ?thesis by (simp add: store_ok_def)
qed

end

context registry_env
begin

lemma refines_commit_plan:
  "refines holds may_fail
     (bind_a (lift_a (encode (lb_blob (rg_libs G)) \<lparr> br_size = sz \<rparr>)) (\<lambda>record.
      let batch = batch_delete (blob_mark_key d) (batch_put (blob_key d) record batch_new) in
      bind_a (rg_exists G (repo_blob_key r d)) (\<lambda>member.
        if \<not> member then
          bind_a (lift_a (encode (lb_repo_blob (rg_libs G)) \<lparr> rb_size = sz, rb_added_at = secs now \<rparr>))
            (\<lambda>membership. return_a ((), batch_put (repo_blob_key r d) membership batch))
        else return_a ((), batch))))
     (\<lambda>m. Inr ((), commit_ops (rg_libs G) m r d sz now))"
  unfolding Let_def coders
  by (rule refines_cong, (rule refines_bind refines_lift refines_exists refines_if refines_return)+)
    (auto simp: commit_ops_def has_prefix_keys(3) [OF holdsD(5)] batch_put_def batch_delete_def batch_new_def)

lemma commits_commit_blob:
  assumes "is_str repo"
  shows "commits_in holds may_fail (\<lambda>_. True) repo (commit_blob G repo d sz now)
    (\<lambda>r m. Inr ((), apply_ops (commit_ops (rg_libs G) m r d sz now) m))"
proof -
  have ranged: "ranged {0x42, 0x43, 0x50} (commit_ops (rg_libs G) m r d sz now)" for m r
    by (simp add: commit_ops_def key_defs)
  have "bounded_batch b \<and> nameless b \<and> store_ok (rg_libs G) (apply_ops b m)"
    if "store_ok (rg_libs G) m" "b = commit_ops (rg_libs G) m r d sz now" for m r b
    using store_ok_commit [OF that(1)] ranged_bounded [OF ranged] ranged_nameless [OF ranged] that(2) by simp
  then have "commits_in holds may_fail (\<lambda>_. True) repo (commit_blob G repo d sz now)
      (\<lambda>r m. and_then (Inr ((), commit_ops (rg_libs G) m r d sz now)) (\<lambda>(a, b). Inr (a, apply_ops b m)))"
    unfolding commit_blob_def plan_blob_commit_def
    by (intro commits_in_planned [OF assms refines_commit_plan]) auto
  then show ?thesis by simp
qed

end

section \<open>A push on the demonstration registry\<close>

definition demo_put :: manifest_put where
  "demo_put = \<lparr> mp_repo = ''a'', mp_reference = Tag ''v1'', mp_body = demo_body, mp_content_type = None, mp_now = Timestamp 0 \<rparr>"

lemma demo_libs_of [simp]: "rg_libs demo_registry = demo_libs"
  by (simp add: demo_registry_def)

lemma demo_put_name: "is_str (mp_repo demo_put)"
  by (simp add: demo_put_def is_str_a)

lemma demo_put_same:
  "same_content (rg_libs demo_registry)
     (digest_body (rg_libs demo_registry) (mp_body demo_put) (as_digest (mp_reference demo_put))) (mp_body demo_put) demo_store"
  by (simp add: same_content_def demo_put_def demo_digest_def [symmetric])

lemma demo_push:
  obtains out s1 where "put_manifest_tagged demo_registry demo_put [] demo_state = (Inr out, s1)"
    "po_digest out = demo_digest" "\<forall>res s2. get_manifest_by_tag demo_registry ''a'' ''v1'' s1 = (res, s2) \<longrightarrow> (\<exists>got. res = Inr got)"
proof -
  obtain res s1 where run: "put_manifest_tagged demo_registry demo_put [] demo_state = (res, s1)" by fastforce
  have v: "validate_tag ''v1'' = Inr ()"
    by (simp add: validate_tag_def is_ascii_alphanumeric_def MAX_TAG_LEN_def char_count_def)
  obtain p where p: "check_put (rg_options demo_registry) (rg_libs demo_registry) demo_put = Inr (demo_digest, p)"
    "pm_blobs p = []" "pm_children p = []"
    by (simp add: check_put_def demo_parse demo_digest_def Let_def demo_registry_def default_options_def
        demo_body_def demo_put_def)
  have same: "same_content (rg_libs demo_registry) demo_digest (mp_body demo_put) demo_store"
    by (simp add: same_content_def demo_put_def)
  have ne: "and_then (put_spec opts lib demo_put [] demo_digest p r m) (\<lambda>(a, b). Inr (a, apply_ops b m)) \<noteq> Inl e"
    for opts lib r m e
    by (simp add: put_spec_def p refused_blob_def refused_child_def Let_def put_tags_def v demo_put_def)
  have "\<not> ids_exhausted demo_store (mp_repo demo_put)" by (simp add: ids_exhausted_def demo_put_def)
  with commits_in_run [OF dr.commits_put [OF demo_put_name p(1), of "[]"] at_store_demo same run]
  obtain out where out: "res = Inr out"
    by (cases res) (simp_all add: ne engine_error_def)
  from dr.put_run [OF demo_put_name at_store_demo demo_put_same run [unfolded out]]
  obtain d q r m1 b where *: "check_put (rg_options demo_registry) (rg_libs demo_registry) demo_put = Inr (d, q)"
    "interned demo_store (mp_repo demo_put) r m1"
    "put_spec (rg_options demo_registry) (rg_libs demo_registry) demo_put [] d q r m1 = Inr (out, b)"
    "at_store table_map (\<lambda>_. True) (\<lambda>c. map_of (fst c)) (\<lambda>c. map_of (snd c)) (rg_libs demo_registry) (apply_ops b m1) s1" .
  have id: "id_of (apply_ops b m1) ''a'' = Some r"
    using dl.put_effects(5) [of m1 r d demo_put q "put_tags demo_put []" "''a''"] put_spec_Inr(1) [OF *(3)]
      interned_id [OF *(2)] by (simp add: demo_put_def)
  have "\<exists>got. res = Inr got" if "get_manifest_by_tag demo_registry ''a'' ''v1'' s1 = (res, s2)" for res s2
    using refines_run [OF dr.refines_get_manifest [where ref = "Tag ''v1''"] *(4), of "''a''" res s2] that id
    by (auto simp: engine_error_def)
  moreover have "po_digest out = demo_digest" using put_spec_Inr(3) [OF *(3)] *(1) p(1) by simp
  ultimately show ?thesis using that run out by blast
qed

section \<open>Properties\<close>

text \<open>
  C1. A push that returns has interned the name and changed the store, key by key, to \<open>pushed\<close>, and to nothing else: the record and the
  very bytes of the manifest under the digest of those bytes; for each blob it lists (foreign ones only if they are held) a record and a
  membership where there was none, the edge to this manifest, and no mark; an edge for each child; the referrer edge to its subject; and for the tag of
  its reference and every extra tag the tag, its row of the reverse index in place of the old one, one \<open>Created\<close> event in both
  histories, and the referrer edge of an artifact tag in place of the displaced one. In particular no other tag and no other manifest changes, and
  every blob it lists that is not foreign can be served from the
  repository afterwards and has its record. With validation on, each of them, and each child, was there
  before. (\<open>same_content\<close>: no other body with this digest is stored. Every key of a consistent store is the encoding of a \<open>store_key\<close>.)
\<close>

theorem push_correct:
  assumes env: "registry_env G tbl ok fails names ids" and at: "at_store tbl ok names ids (rg_libs G) m s"
    and name: "is_str (mp_repo req)"
    and same: "same_content (rg_libs G) (digest_body (rg_libs G) (mp_body req) (as_digest (mp_reference req))) (mp_body req) m"
    and run: "put_manifest_tagged G req extra_tags s = (Inr out, s')"
  shows "\<exists>p r m1 m' d. d = digest_body (rg_libs G) (mp_body req) (as_digest (mp_reference req))
    \<and> parse_manifest (rg_libs G) (mp_body req) (mp_content_type req) = Inr p
    \<and> at_store tbl ok names ids (rg_libs G) m' s' \<and> id_of m' (mp_repo req) = Some r \<and> po_digest out = d
    \<and> manifest_at (rg_libs G) m' r d = Some (push_record r d req p) \<and> body_at (rg_libs G) m' r d = Some (mp_body req)
    \<and> interned m (mp_repo req) r m1
    \<and> (\<forall>sk. wf_key sk \<longrightarrow> m' (encode_key sk) = pushed (rg_libs G) m1 r d req p (put_tags req extra_tags) sk)
    \<and> (\<forall>q u. tag_at (rg_libs G) m' q u = (if q = r \<and> u \<in> set (put_tags req extra_tags)
          then Some \<lparr> tr_digest = d, tr_tagged_at = secs (mp_now req) \<rparr> else tag_at (rg_libs G) m q u))
    \<and> (\<forall>q e. (q, e) \<noteq> (r, d) \<longrightarrow> m' (manifest_key q e) = m (manifest_key q e))
    \<and> (\<forall>desc \<in> set (pm_blobs p). \<not> bd_foreign desc \<longrightarrow>
          servable m' r (bd_digest desc) \<and> m' (blob_key (bd_digest desc)) \<noteq> None)
    \<and> (ro_validate_references (rg_options G) \<longrightarrow>
          (\<forall>desc \<in> set (pm_blobs p). \<not> bd_foreign desc \<longrightarrow>
             servable m r (bd_digest desc) \<and> m (blob_key (bd_digest desc)) \<noteq> None)
          \<and> (\<forall>c \<in> set (pm_children p). m (manifest_key r (cr_digest c)) \<noteq> None))"
proof -
  let ?lib = "rg_libs G" and ?ts = "put_tags req extra_tags"
  note lib = registry_env.axioms(2) [OF env]
  obtain d p r m1 b where check: "check_put (rg_options G) ?lib req = Inr (d, p)"
    and i: "interned m (mp_repo req) r m1"
    and spec: "put_spec (rg_options G) ?lib req extra_tags d p r m1 = Inr (out, b)"
    and at': "at_store tbl ok names ids ?lib (apply_ops b m1) s'" and ok1: "store_ok ?lib m1"
    by (rule registry_env.put_run [OF env name at same run])
  note c = check_put_Inr [OF check] and s = put_spec_Inr [OF spec]
  note effects = library_code.put_effects [OF lib, of m1 r d req p ?ts, folded s(1)]
  have entries: "entries_ok ?lib m1" using ok1 by (simp add: store_ok_def)
  note serves = library_code.put_serves [OF lib entries, of _ p r d req ?ts, folded s(1)]
  note reads = interned_reads [OF i]
  have "(\<forall>desc \<in> set (pm_blobs p). \<not> bd_foreign desc \<longrightarrow>
        servable m r (bd_digest desc) \<and> m (blob_key (bd_digest desc)) \<noteq> None)
      \<and> (\<forall>c \<in> set (pm_children p). m (manifest_key r (cr_digest c)) \<noteq> None)"
    if "ro_validate_references (rg_options G)"
    using validated [OF entries] s(4,5) that unfolding reads by simp
  moreover have "apply_ops b m1 (manifest_key q e) = m (manifest_key q e)" if "(q, e) \<noteq> (r, d)" for q e
    using effects(3) [of q e] that unfolding reads by blast
  moreover have "id_of (apply_ops b m1) (mp_repo req) = Some r" unfolding effects(5) by (rule interned_id [OF i])
  moreover have "po_digest out = d" by (simp add: s(3))
  moreover have "apply_ops b m1 (encode_key sk) = pushed ?lib m1 r d req p ?ts sk" if "wf_key sk" for sk
    unfolding s(1) by (rule library_code.put_store [OF lib entries s(2) that])
  ultimately show ?thesis
    using c(1,2) at' i effects(1,2) effects(4) [unfolded reads] serves
    by (intro exI [of _ p] exI [of _ r] exI [of _ m1] exI [of _ "apply_ops b m1"] exI [of _ d]) blast
qed

theorem push_correct_witness:
  "\<exists>out s1. put_manifest_tagged demo_registry demo_put [] demo_state = (Inr out, s1) \<and> po_digest out = demo_digest"
proof -
  obtain out s1 where run: "put_manifest_tagged demo_registry demo_put [] demo_state = (Inr out, s1)" by (rule demo_push)
  from push_correct [OF dr.registry_env_axioms at_store_demo demo_put_name demo_put_same run]
  have "po_digest out = demo_digest" by (auto simp: demo_put_def demo_digest_def)
  with run show ?thesis by blast
qed

text \<open>
  C2. Pull after push: the manifest that a push stored is served, under its digest and under every tag it set, with the
  bytes that were pushed and the media type the push reported.
\<close>

theorem push_then_pull:
  assumes env: "registry_env G tbl ok fails names ids" and at: "at_store tbl ok names ids (rg_libs G) m s"
    and name: "is_str (mp_repo req)"
    and same: "same_content (rg_libs G) (digest_body (rg_libs G) (mp_body req) (as_digest (mp_reference req))) (mp_body req) m"
    and push: "put_manifest_tagged G req extra_tags s = (Inr out, s1)"
    and ref: "ref = DigestRef (po_digest out) \<or> (\<exists>t \<in> set (put_tags req extra_tags). ref = Tag t)"
    and pull: "(case ref of Tag t \<Rightarrow> get_manifest_by_tag G (mp_repo req) t
        | DigestRef d \<Rightarrow> get_manifest_by_digest G (mp_repo req) d) s1 = (Inr got, s2)"
  shows "got = Some \<lparr> sm_digest = po_digest out, sm_media_type = po_media_type out, sm_body = mp_body req \<rparr>"
proof -
  let ?lib = "rg_libs G"
  note lib = registry_env.axioms(2) [OF env]
  obtain d p r m1 b where check: "check_put (rg_options G) ?lib req = Inr (d, p)"
    and i: "interned m (mp_repo req) r m1"
    and spec: "put_spec (rg_options G) ?lib req extra_tags d p r m1 = Inr (out, b)"
    and at': "at_store tbl ok names ids ?lib (apply_ops b m1) s1"
    by (rule registry_env.put_run [OF env name at same push])
  note s = put_spec_Inr [OF spec]
  note effects = library_code.put_effects [OF lib, of m1 r d req p "put_tags req extra_tags", folded s(1)]
  have out: "po_digest out = d" "po_media_type out = pm_media_type p" by (simp_all add: s(3))
  have id: "id_of (apply_ops b m1) (mp_repo req) = Some r" unfolding effects(5) by (rule interned_id [OF i])
  have "(case ref of DigestRef d \<Rightarrow> Some d | Tag t \<Rightarrow> map_option tr_digest (tag_at ?lib (apply_ops b m1) r t)) = Some d"
    using ref out by (auto simp: effects(4))
  with refines_run [OF registry_env.refines_get_manifest [OF env] at' pull] show ?thesis
    by (auto simp: id effects(1,2) out push_record_def)
qed

theorem push_then_pull_witness:
  "\<exists>out s1 s2. put_manifest_tagged demo_registry demo_put [] demo_state = (Inr out, s1)
     \<and> get_manifest_by_tag demo_registry ''a'' ''v1'' s1
       = (Inr (Some \<lparr> sm_digest = po_digest out, sm_media_type = po_media_type out, sm_body = demo_body \<rparr>), s2)"
proof -
  obtain out s1 where push: "put_manifest_tagged demo_registry demo_put [] demo_state = (Inr out, s1)"
    and ret: "\<forall>res s2. get_manifest_by_tag demo_registry ''a'' ''v1'' s1 = (res, s2) \<longrightarrow> (\<exists>got. res = Inr got)"
    by (rule demo_push)
  obtain res s2 where pull: "get_manifest_by_tag demo_registry ''a'' ''v1'' s1 = (res, s2)" by fastforce
  with ret obtain got where got: "res = Inr got" by blast
  have "Tag ''v1'' = DigestRef (po_digest out) \<or> (\<exists>t \<in> set (put_tags demo_put []). Tag ''v1'' = Tag t)"
    by (simp add: put_tags_def demo_put_def)
  from push_then_pull [OF dr.registry_env_axioms at_store_demo demo_put_name demo_put_same push this, of got s2]
  have "got = Some \<lparr> sm_digest = po_digest out, sm_media_type = po_media_type out, sm_body = demo_body \<rparr>"
    using pull got by (simp add: demo_put_def)
  with push pull got show ?thesis by blast
qed

text \<open>
  C24. A push that fails writes nothing of itself: the store is the one before, or differs from it only in the
  name having been interned. The reasons are the checks that come before the store is touched; while validation is on, a listed blob that is not
  foreign and has no record or cannot be served from the repository, or a listed child that the repository does not have, which the
  error names; a tag outside the grammar; or the store.
\<close>

theorem push_failure:
  assumes env: "registry_env G tbl ok fails names ids" and at: "at_store tbl ok names ids (rg_libs G) m s"
    and name: "is_str (mp_repo req)"
    and same: "same_content (rg_libs G) (digest_body (rg_libs G) (mp_body req) (as_digest (mp_reference req))) (mp_body req) m"
    and run: "put_manifest_tagged G req extra_tags s = (Inl e, s')"
  shows "s' = s \<and> check_put (rg_options G) (rg_libs G) req = Inl e
    \<or> (\<exists>d p m'. check_put (rg_options G) (rg_libs G) req = Inr (d, p)
        \<and> at_store tbl ok names ids (rg_libs G) m' s' \<and> (m' = m \<or> (\<exists>r. interned m (mp_repo req) r m'))
        \<and> (engine_error (fails \<or> ids_exhausted m (mp_repo req)) e
           \<or> (\<exists>t \<in> set (put_tags req extra_tags). validate_tag t = Inl e)
           \<or> (ro_validate_references (rg_options G) \<and> (\<exists>r. interned m (mp_repo req) r m'
               \<and> ((\<exists>desc \<in> set (pm_blobs p). e = ManifestBlobUnknown (mp_repo req) (bd_digest desc) \<and> \<not> bd_foreign desc
                     \<and> \<not> (m (blob_key (bd_digest desc)) \<noteq> None \<and> servable m r (bd_digest desc)))
                   \<or> (\<exists>c \<in> set (pm_children p). e = ManifestBlobUnknown (mp_repo req) (cr_digest c)
                     \<and> m (manifest_key r (cr_digest c)) = None))))))"
proof (cases "check_put (rg_options G) (rg_libs G) req")
  case (Inl e')
  with registry_env.put_rejected [OF env Inl, of extra_tags s] run show ?thesis by simp
next
  case (Inr dp)
  let ?lib = "rg_libs G" and ?opts = "rg_options G"
  obtain d p where dp: "dp = (d, p)" by fastforce
  have same': "same_content ?lib d (mp_body req) m" using same check_put_Inr(2) [OF Inr [unfolded dp]] by simp
  have tag: "for_r ts () (\<lambda>t _. validate_tag t) = Inl e \<Longrightarrow> \<exists>t \<in> set ts. validate_tag t = Inl e" for ts
    by (induction ts) (auto simp: and_then_def split: sum.splits)
  let ?missing = "\<lambda>r. (\<exists>desc \<in> set (pm_blobs p). e = ManifestBlobUnknown (mp_repo req) (bd_digest desc) \<and> \<not> bd_foreign desc
        \<and> \<not> (m (blob_key (bd_digest desc)) \<noteq> None \<and> servable m r (bd_digest desc)))
      \<or> (\<exists>c \<in> set (pm_children p). e = ManifestBlobUnknown (mp_repo req) (cr_digest c) \<and> m (manifest_key r (cr_digest c)) = None)"
  have spec: "(\<exists>t \<in> set (put_tags req extra_tags). validate_tag t = Inl e) \<or> ro_validate_references ?opts \<and> ?missing r"
    if "put_spec ?opts ?lib req extra_tags d p r m1 = Inl e" "interned m (mp_repo req) r m1" "entries_ok ?lib m1" for r m1
  proof -
    note reads = interned_reads [OF that(2)]
    have "blob_at ?lib m1 x = None \<longleftrightarrow> m (blob_key x) = None" for x
      using record_cases(4) [OF that(3), of x] reads(2) by metis
    then have blob: "missing_blob ?lib m1 r desc \<longleftrightarrow> \<not> (m (blob_key (bd_digest desc)) \<noteq> None \<and> servable m r (bd_digest desc))" for desc
      by (simp add: missing_blob_def reads(1))
    show ?thesis
      using that(1) tag unfolding put_spec_def Let_def refused_blob_def refused_child_def blob reads(3)
      by (fastforce simp: and_then_def find_Some_iff in_set_conv_nth split: option.splits if_splits sum.splits)
  qed
  from commits_in_run [OF registry_env.commits_put [OF env name Inr [unfolded dp]] at same' run]
  have "(at_store tbl ok names ids ?lib m s' \<and> engine_error (fails \<or> ids_exhausted m (mp_repo req)) e)
      \<or> (\<exists>r m1. interned m (mp_repo req) r m1 \<and> at_store tbl ok names ids ?lib m1 s'
          \<and> (put_spec ?opts ?lib req extra_tags d p r m1 = Inl e \<or> engine_error fails e))"
    by (simp add: planned_Inl)
  then consider (before) "at_store tbl ok names ids ?lib m s'" "engine_error (fails \<or> ids_exhausted m (mp_repo req)) e"
    | (engine) r m1 where "interned m (mp_repo req) r m1" "at_store tbl ok names ids ?lib m1 s'" "engine_error fails e"
    | (plan) r m1 where "interned m (mp_repo req) r m1" "at_store tbl ok names ids ?lib m1 s'"
        "put_spec ?opts ?lib req extra_tags d p r m1 = Inl e"
    by blast
  then show ?thesis
  proof cases
    case before
    then show ?thesis using Inr dp by blast
  next
    case engine
    then show ?thesis using Inr dp by (auto simp: engine_error_def)
  next
    case plan
    then have "entries_ok ?lib m1" by (simp add: at_store_def store_ok_def)
    from spec [OF plan(3,1) this] plan(1,2) show ?thesis using Inr dp by blast
  qed
qed

theorem push_failure_witness:
  "put_manifest_tagged demo_registry (demo_put\<lparr>mp_reference := DigestRef (Sha512 (arr64 []))\<rparr>) [] demo_state
     = (Inl (DigestInvalid ''body does not digest to the digest it was pushed as''), demo_state)"
proof -
  let ?req = "demo_put\<lparr>mp_reference := DigestRef (Sha512 (arr64 []))\<rparr>"
  let ?e = "DigestInvalid ''body does not digest to the digest it was pushed as''"
  have raw: "raw_of (Sha512 (arr64 [])) \<noteq> raw_of (Sha512 (arr64 (lb_sha512 demo_libs demo_body)))"
    by (auto simp: demo_libs_def plain_libs_def demo_body_def raw64_def raw_arr64_code dest: arg_cong [where f = hd])
  then have ne: "Sha512 (arr64 []) \<noteq> Sha512 (arr64 (lb_sha512 demo_libs demo_body))" by metis
  have check: "check_put (rg_options demo_registry) (rg_libs demo_registry) ?req = Inl ?e"
    using ne by (simp add: check_put_def Let_def demo_put_def demo_registry_def default_options_def demo_body_def digest_body_def)
  have run: "put_manifest_tagged demo_registry ?req [] demo_state = (Inl ?e, demo_state)"
    by (rule dr.put_rejected [OF check])
  have name: "is_str (mp_repo ?req)" using demo_put_name by (simp add: demo_put_def)
  have same: "same_content (rg_libs demo_registry)
      (digest_body (rg_libs demo_registry) (mp_body ?req) (as_digest (mp_reference ?req))) (mp_body ?req) demo_store"
    by (simp add: same_content_def demo_put_def)
  from push_failure [OF dr.registry_env_axioms at_store_demo name same run] run show ?thesis by blast
qed

text \<open>
  Committing a blob makes it servable in that repository, with its size on record and purge's mark withdrawn;
  the clock of an existing membership is not restarted, and no other blob or repository becomes or stops being
  servable. If it fails, nothing but possibly the name is written.
\<close>

theorem commit_blob_correct:
  assumes env: "registry_env G tbl ok fails names ids" and at: "at_store tbl ok names ids (rg_libs G) m s"
    and name: "is_str repo" and run: "commit_blob G repo d sz now s = (res, s')"
  shows "\<exists>m'. at_store tbl ok names ids (rg_libs G) m' s' \<and> (case res of
      Inl e \<Rightarrow> (m' = m \<or> (\<exists>r. interned m repo r m')) \<and> engine_error (fails \<or> ids_exhausted m repo) e
    | Inr _ \<Rightarrow> (\<exists>r. id_of m' repo = Some r \<and> servable m' r d \<and> blob_at (rg_libs G) m' d = Some \<lparr> br_size = sz \<rparr>
        \<and> m' (blob_mark_key d) = None
        \<and> (\<forall>q x. m' (repo_blob_key q x) = (if q = r \<and> x = d \<and> m (repo_blob_key r d) = None
             then Some (stored_as (lb_repo_blob (rg_libs G)) \<lparr> rb_size = sz, rb_added_at = secs now \<rparr>)
             else m (repo_blob_key q x)))
        \<and> (\<forall>q x. (q, x) \<noteq> (r, d) \<longrightarrow> servable m' q x = servable m q x)))"
proof -
  let ?lib = "rg_libs G"
  note lib = registry_env.axioms(2) [OF env]
  note c = commits_in_run [OF registry_env.commits_commit_blob [OF env name] at TrueI run]
  show ?thesis
  proof (cases res)
    case (Inl e)
    with c obtain m' where "at_store tbl ok names ids ?lib m' s'" "m' = m \<or> (\<exists>r. interned m repo r m')"
      "engine_error (fails \<or> ids_exhausted m repo) e"
      by (auto simp: engine_error_def)
    with Inl show ?thesis by auto
  next
    case (Inr u)
    with c obtain r m1 m' where i: "interned m repo r m1" and at': "at_store tbl ok names ids ?lib m' s'"
      and m': "m' = apply_ops (commit_ops ?lib m1 r d sz now) m1" by auto
    have m1: "m1 (h # k) = m (h # k)" if "h \<notin> {0x6E, 0x69}" for h k
      using interned_data [OF i] that by simp
    have P: "m' (repo_blob_key q x) = (if q = r \<and> x = d \<and> m (repo_blob_key r d) = None
        then Some (stored_as (lb_repo_blob ?lib) \<lparr> rb_size = sz, rb_added_at = secs now \<rparr>) else m (repo_blob_key q x))" for q x
      by (simp add: m' commit_ops_def key_defs key_codes m1)
    have R: "m' (blob_ref_key x q e) = m (blob_ref_key x q e)" for x q e
      by (simp add: m' commit_ops_def key_defs m1)
    have "blob_at ?lib m' d = Some \<lparr> br_size = sz \<rparr>"
      by (simp add: blob_at_def m' commit_ops_def key_defs library_code.coders [OF lib])
    moreover have "m' (blob_mark_key d) = None" by (simp add: m' commit_ops_def key_defs)
    moreover have "servable m' r d" unfolding servable_def P by auto
    moreover have "servable m' q x = servable m q x" if "(q, x) \<noteq> (r, d)" for q x
      using that unfolding servable_def P R by auto
    moreover have "id_of m' repo = Some r"
    proof -
      have "nameless (commit_ops ?lib m1 r d sz now)"
        by (rule ranged_nameless [of "{0x42, 0x43, 0x50}"]) (simp_all add: commit_ops_def key_defs)
      with interned_id [OF i] show ?thesis by (simp add: m' id_of_nameless)
    qed
    ultimately show ?thesis unfolding Inr sum.case using at' P by blast
  qed
qed

theorem commit_blob_correct_witness:
  "\<exists>s'. commit_blob demo_registry ''a'' demo_digest 3 (Timestamp 0) demo_state = (Inr (), s')"
proof -
  obtain res s' where run: "commit_blob demo_registry ''a'' demo_digest 3 (Timestamp 0) demo_state = (res, s')" by fastforce
  have "\<not> ids_exhausted demo_store ''a''" by (simp add: ids_exhausted_def)
  with commit_blob_correct [OF dr.registry_env_axioms at_store_demo is_str_a run] run show ?thesis
    by (cases res) (auto simp: engine_error_def)
qed

end
