(* ===== verification/Summ_Delete.thy ===== *)
theory Summ_Delete
  imports Summ_Push
begin

text \<open>
  Deletion (\<open>summ-registry/src/delete.rs\<close>): a manifest with every edge that named it, the membership of a
  blob, and whole repositories, whose name is released at once and whose keys are swept afterwards.
  The loop over the pages of a range, \<open>drain\<close>, is a partial function: that it returns is proved of
  every engine that keeps its contract.
\<close>

section \<open>Draining a range\<close>

definition DRAIN_PAGE :: nat where "DRAIN_PAGE = 256"

partial_function (option) drain_from ::
    "('s, 'c) registry \<Rightarrow> bytes \<Rightarrow> (bytes \<Rightarrow> 'b \<Rightarrow> registry_error + 'b) \<Rightarrow> bytes option \<Rightarrow> 'b \<Rightarrow> ('s, 'c) rstate \<Rightarrow>
     ((registry_error + 'b) \<times> ('s, 'c) rstate) option" where
  "drain_from G p f cursor acc s =
     (case rg_scan_keys G p cursor DRAIN_PAGE s of
        (Inl e, s') \<Rightarrow> Some (Inl e, s')
      | (Inr page, s') \<Rightarrow>
          (case for_r (kp_keys page) acc f of
             Inl e \<Rightarrow> Some (Inl e, s')
           | Inr acc' \<Rightarrow>
               (case kp_next page of
                  Some next \<Rightarrow> drain_from G p f (Some next) acc' s'
                | None \<Rightarrow> Some (Inr acc', s'))))"

text \<open>A loop as an operation: one that does not end is the outcome \<open>Diverged\<close>.\<close>

definition loop_a :: "('s \<Rightarrow> ((registry_error + 'a) \<times> 's) option) \<Rightarrow> ('s, registry_error, 'a) action" where
  "loop_a body = (\<lambda>s. case body s of None \<Rightarrow> (Inl Diverged, s) | Some r \<Rightarrow> r)"

definition drain ::
    "('s, 'c) registry \<Rightarrow> bytes \<Rightarrow> 'b \<Rightarrow> (bytes \<Rightarrow> 'b \<Rightarrow> registry_error + 'b) \<Rightarrow> ('s, 'c, 'b) op" where
  "drain G p acc f = loop_a (drain_from G p f None acc)"

section \<open>Manifests and blobs\<close>

record manifest_deleted =
  md_digest :: digest
  md_removed_tags :: "string list"

record blob_ref_deleted =
  bx_digest :: digest
  bx_was_member :: bool
  bx_references_removed :: nat

definition plan_manifest_delete ::
    "('s, 'c) registry \<Rightarrow> string \<Rightarrow> digest \<Rightarrow> timestamp \<Rightarrow> ('s, 'c, manifest_deleted planned) op" where
  "plan_manifest_delete G repo d now =
     bind_a (require_repo G repo) (\<lambda>repo_id.
     bind_a (manifest_record_of G repo_id d) (\<lambda>found.
     bind_a (lift_a (ok_or (ManifestUnknown repo (to_string d)) found)) (\<lambda>record.
     let batch = batch_delete (manifest_body_key repo_id d) (batch_delete (manifest_key repo_id d) batch_new);
         batch = fold (\<lambda>blob. batch_delete (blob_ref_key blob repo_id d)) (mr_layers record) batch;
         batch = fold (\<lambda>child. batch_delete (child_parent_key repo_id (cr_digest child) d)) (mr_children record) batch;
         batch = (case mr_subject record of
             Some subject \<Rightarrow> batch_delete (referrer_key repo_id subject d) batch | None \<Rightarrow> batch) in
     bind_a (drain G (parents_of repo_id d) batch (\<lambda>key batch. Inr (batch_delete key batch))) (\<lambda>batch.
     bind_a (drain G (tags_of_manifest repo_id d) [] (\<lambda>key removed_tags.
         and_then (ok_or (corrupt ''manifest-tag key'') (parse_manifest_tag_suffix key d))
           (\<lambda>t. Inr (removed_tags @ [t])))) (\<lambda>removed_tags.
     bind_a (for_a removed_tags batch (\<lambda>t batch. stage_delete_tag G batch repo_id t d (Some record) now)) (\<lambda>batch.
       return_a (\<lparr> md_digest = d, md_removed_tags = removed_tags \<rparr>, batch)))))))"

definition delete_manifest ::
    "('s, 'c) registry \<Rightarrow> string \<Rightarrow> digest \<Rightarrow> timestamp \<Rightarrow> ('s, 'c, manifest_deleted) op" where
  "delete_manifest G repo d now = applied G (plan_manifest_delete G repo d now)"

definition plan_blob_reference_delete ::
    "('s, 'c) registry \<Rightarrow> string \<Rightarrow> digest \<Rightarrow> ('s, 'c, blob_ref_deleted planned) op" where
  "plan_blob_reference_delete G repo d =
     bind_a (require_repo G repo) (\<lambda>repo_id.
     bind_a (rg_exists G (repo_blob_key repo_id d)) (\<lambda>was_member.
     bind_a (drain G (blob_refs_in_repo d repo_id) (0, batch_new)
       (\<lambda>key (removed, batch). Inr (removed + 1, batch_delete key batch))) (\<lambda>(references_removed, batch).
     if \<not> was_member \<and> references_removed = 0 then fail_a (BlobUnknown repo d)
     else
       let batch = (if was_member then batch_delete (repo_blob_key repo_id d) batch else batch);
           batch = batch_delete (blob_mark_key d) batch in
       return_a (\<lparr> bx_digest = d, bx_was_member = was_member, bx_references_removed = references_removed \<rparr>, batch))))"

definition delete_blob_reference ::
    "('s, 'c) registry \<Rightarrow> string \<Rightarrow> digest \<Rightarrow> ('s, 'c, blob_ref_deleted) op" where
  "delete_blob_reference G repo d = applied G (plan_blob_reference_delete G repo d)"

section \<open>Repositories\<close>

record repo_tombstoned =
  rt_id :: repo_id
  rt_name :: string

record dead_repo_entry =
  dx_id :: repo_id
  dx_name :: string
  dx_dropped_at :: u64

record sweep_step =
  ss_manifests :: nat
  ss_next :: "bytes option"

definition plan_repo_tombstone ::
    "('s, 'c) registry \<Rightarrow> string \<Rightarrow> timestamp \<Rightarrow> ('s, 'c, repo_tombstoned planned) op" where
  "plan_repo_tombstone G repo now =
     bind_a (require_repo G repo) (\<lambda>repo_id.
     let batch = batch_delete (repo_by_id repo_id) (batch_delete (repo_by_name repo) batch_new) in
     bind_a (lift_a (encode (lb_dead (rg_libs G)) \<lparr> dr_name = repo, dr_dropped_at = secs now \<rparr>)) (\<lambda>v.
       return_a (\<lparr> rt_id = repo_id, rt_name = repo \<rparr>, batch_put (dead_repo_key repo_id) v batch)))"

definition delete_repository ::
    "('s, 'c) registry \<Rightarrow> string \<Rightarrow> timestamp \<Rightarrow> ('s, 'c, repo_tombstoned) op" where
  "delete_repository G repo now =
     bind_a (plan_repo_tombstone G repo now) (\<lambda>(outcome, batch).
     bind_a (rg_apply G batch) (\<lambda>_.
     bind_a (forget_repo G (rt_name outcome) (rt_id outcome)) (\<lambda>_.
       return_a outcome)))"

definition dead_repo_entry_of :: "libs \<Rightarrow> entry \<Rightarrow> registry_error + dead_repo_entry" where
  "dead_repo_entry_of lib e =
     (case e of (key, raw_bytes) \<Rightarrow>
        and_then (ok_or (corrupt ''dead repo key'') (parse_dead_repo_id key)) (\<lambda>rid.
        and_then (decode (lb_dead lib) raw_bytes ''DeadRepo'') (\<lambda>record.
          Inr \<lparr> dx_id = rid, dx_name = dr_name record, dx_dropped_at = dr_dropped_at record \<rparr>)))"

definition list_dead_repos ::
    "('s, 'c) registry \<Rightarrow> repo_id option \<Rightarrow> nat \<Rightarrow> ('s, 'c, dead_repo_entry list) op" where
  "list_dead_repos G start_after limit =
     bind_a (rg_scan G dead_repos (map_option dead_repo_key start_after) limit) (\<lambda>page.
       lift_a (try_map (dead_repo_entry_of (rg_libs G)) (pg_entries page)))"

definition sweep_repo_refs ::
    "('s, 'c) registry \<Rightarrow> repo_id \<Rightarrow> bytes option \<Rightarrow> nat \<Rightarrow> ('s, 'c, sweep_step) op" where
  "sweep_repo_refs G repo cursor limit =
     bind_a (rg_scan G (manifests_in_repo repo) cursor limit) (\<lambda>page.
     bind_a (for_a (pg_entries page) batch_new (\<lambda>(_, raw_bytes) batch.
       bind_a (lift_a (decode (lb_manifest (rg_libs G)) raw_bytes ''ManifestRecord'')) (\<lambda>record.
         return_a (fold (\<lambda>blob. batch_delete (blob_ref_key blob repo (mr_digest record))) (mr_layers record) batch)))) (\<lambda>batch.
     bind_a (rg_apply G batch) (\<lambda>_.
       return_a \<lparr> ss_manifests = length (pg_entries page), ss_next = pg_next page \<rparr>)))"

definition plan_repo_sweep_finish :: "repo_id \<Rightarrow> write_batch" where
  "plan_repo_sweep_finish repo =
     batch_delete (dead_repo_key repo)
       (fold batch_delete_prefix
         [manifests_in_repo repo, manifest_bodies_in_repo repo, tags_in_repo repo, manifest_tags_in_repo repo,
          blobs_in_repo repo, children_in_repo repo, referrers_in_repo repo, tag_history_in_repo repo,
          manifest_tag_history_in_repo repo, counters_in_repo_scope SCOPE_MANIFEST repo,
          counters_in_repo_scope SCOPE_TAG repo, counters_in_repo_scope SCOPE_REPO repo] batch_new)"

definition finish_repo_sweep :: "('s, 'c) registry \<Rightarrow> repo_id \<Rightarrow> ('s, 'c, unit) op" where
  "finish_repo_sweep G repo = rg_apply G (plan_repo_sweep_finish repo)"

section \<open>A drain visits every key of its range\<close>

text \<open>\<open>ends body Q X s\<close>: the loop ends, in a state and with a result that satisfy \<open>Q\<close> or \<open>X\<close>.\<close>

definition ends ::
    "('s \<Rightarrow> (('e + 'a) \<times> 's) option) \<Rightarrow> ('a \<Rightarrow> 's \<Rightarrow> bool) \<Rightarrow> ('e \<Rightarrow> 's \<Rightarrow> bool) \<Rightarrow> 's \<Rightarrow> bool" where
  "ends body Q X s \<longleftrightarrow>
     (\<exists>a s'. body s = Some (Inr a, s') \<and> Q a s') \<or> (\<exists>e s'. body s = Some (Inl e, s') \<and> X e s')"

lemma wp_loop: "ends body Q X s \<Longrightarrow> wp (loop_a body) Q X s"
  by (auto simp: ends_def loop_a_def wp_def)

lemma ends_drain_from:
  assumes "wp (rg_scan_keys G p cursor DRAIN_PAGE) (\<lambda>page s'.
      case for_r (kp_keys page) acc f of
        Inl e \<Rightarrow> X e s'
      | Inr acc' \<Rightarrow> (case kp_next page of
            Some next \<Rightarrow> ends (drain_from G p f (Some next) acc') Q X s' | None \<Rightarrow> Q acc' s')) X s"
  shows "ends (drain_from G p f cursor acc) Q X s"
  using assms unfolding ends_def drain_from.simps [of G p f cursor acc s]
  by (auto simp: wp_def split: prod.splits sum.splits option.splits)

lemma for_r_append: "for_r (xs @ ys) acc f = and_then (for_r xs acc f) (\<lambda>a. for_r ys a f)"
proof (induction xs arbitrary: acc)
  case (Cons x xs)
  then show ?case by (cases "f x acc") auto
qed simp

lemma for_r_fold: "for_r xs acc (\<lambda>x a. Inr (g x a)) = Inr (fold g xs acc)"
  by (induction xs arbitrary: acc) auto

definition keys_under :: "store \<Rightarrow> bytes \<Rightarrow> bytes list" where
  "keys_under m p = map fst (scan_list m p None)"

lemma set_keys_under: "finite (dom m) \<Longrightarrow> set (keys_under m p) = {k. m k \<noteq> None \<and> prefix p k}"
  by (force simp: keys_under_def set_scan_list after_def)

text \<open>Ranges whose scans may be resumed at any key of theirs.\<close>

definition resumable :: "bytes \<Rightarrow> bool" where
  "resumable p \<longleftrightarrow> (\<forall>c. prefix p c \<longrightarrow> group_within p c)"

lemma resumable_ranges [simp]:
  "resumable (parents_of r d)" "resumable (tags_of_manifest r d)" "resumable (blob_refs_in_repo d r)"
  "resumable (manifests_in_repo r)" "resumable (tags_in_repo r)" "resumable (referrers_of r d)" "resumable dead_repos"
  "resumable (blobs_in_repo r)" "resumable (blob_refs d)"
  by (auto simp: resumable_def group_within_def prefix_def key_defs digest_groups repo_groups no_group)

context registry_env
begin

lemma wp_drain_from:
  assumes "resumable p" and "holds m s" and "under p cursor"
  shows "ends (drain_from G p f cursor acc)
    (\<lambda>a s'. holds m s' \<and> for_r (map fst (scan_list m p cursor)) acc f = Inr a)
    (\<lambda>e s'. holds m s' \<and> (for_r (map fst (scan_list m p cursor)) acc f = Inl e \<or> engine_error may_fail e)) s"
  using assms(2,3)
proof (induction "length (scan_list m p cursor)" arbitrary: cursor acc s rule: less_induct)
  case less
  have g: "grouped p cursor"
    using less.prems(2) assms(1) by (auto simp: grouped_def under_def resumable_def split: option.splits)
  let ?page = "scan_page m p cursor DRAIN_PAGE"
  let ?ks = "map fst (pg_entries ?page)" and ?rest = "\<lambda>c. map fst (scan_list m p (Some c))"
  have split: "map fst (scan_list m p cursor) = ?ks @ (case pg_next ?page of Some c \<Rightarrow> ?rest c | None \<Rightarrow> [])"
    using pages_exhaust [of DRAIN_PAGE m p cursor] by (auto simp: DRAIN_PAGE_def split: option.splits)
  have next_page: "ends (drain_from G p f (Some c) acc')
      (\<lambda>a s'. holds m s' \<and> for_r (?rest c) acc' f = Inr a)
      (\<lambda>e s'. holds m s' \<and> (for_r (?rest c) acc' f = Inl e \<or> engine_error may_fail e)) t"
    if "pg_next ?page = Some c" "holds m t" for c acc' t
    using scan_list_next [OF that(1)] that(2) by (intro less.hyps) (auto simp: under_def)
  show ?case
    unfolding split for_r_append
    by (rule ends_drain_from, rule refines_wp [OF refines_scan_keys [OF less.prems(2) g] less.prems(1)])
      (use next_page in \<open>fastforce simp: key_page_of_def split: sum.splits option.splits\<close>)+
qed

text \<open>
  A drain returns, and has visited every key of the range once and in order.
\<close>

lemma refines_drain:
  assumes "resumable p"
  shows "refines holds may_fail (drain G p acc f) (\<lambda>m. for_r (keys_under m p) acc f)"
  unfolding refines_def drain_def keys_under_def
  by (intro allI impI wp_loop [OF wp_drain_from [OF assms]]) (simp_all add: under_def)

end

section \<open>Deleting a manifest\<close>

definition manifest_tags :: "store \<Rightarrow> repo_id \<Rightarrow> digest \<Rightarrow> string list" where
  "manifest_tags m r d =
     map (map byte_char) (sorted_list_of_set (suffixes_after m (tags_of_manifest r d) None))"

definition manifest_delete_ops ::
    "libs \<Rightarrow> store \<Rightarrow> repo_id \<Rightarrow> digest \<Rightarrow> manifest_record \<Rightarrow> timestamp \<Rightarrow> write_batch" where
  "manifest_delete_ops lib m r d rec now =
     map Delete ([manifest_key r d, manifest_body_key r d]
       @ map (\<lambda>b. blob_ref_key b r d) (mr_layers rec)
       @ map (\<lambda>c. child_parent_key r (cr_digest c) d) (mr_children rec)
       @ (case mr_subject rec of None \<Rightarrow> [] | Some s \<Rightarrow> [referrer_key r s d])
       @ keys_under m (parents_of r d))
     @ concat (map (\<lambda>t. delete_tag_ops lib r t d (Some rec) now) (manifest_tags m r d))"

definition manifest_delete_spec ::
    "libs \<Rightarrow> string \<Rightarrow> digest \<Rightarrow> timestamp \<Rightarrow> store \<Rightarrow> registry_error + manifest_deleted planned" where
  "manifest_delete_spec lib repo d now m =
     and_then (ok_or (NameUnknown repo) (id_of m repo)) (\<lambda>r.
     and_then (ok_or (ManifestUnknown repo (to_string d)) (manifest_at lib m r d)) (\<lambda>rec.
     Inr (\<lparr> md_digest = d, md_removed_tags = manifest_tags m r d \<rparr>, manifest_delete_ops lib m r d rec now)))"

lemma fold_batch_delete: "fold (\<lambda>x. batch_delete (f x)) xs b = b @ map (\<lambda>x. Delete (f x)) xs"
  by (induction xs arbitrary: b) (simp_all add: batch_delete_def)

lemma for_r_snoc:
  "(\<And>x. x \<in> set xs \<Longrightarrow> f x = Inr (g x)) \<Longrightarrow>
   for_r xs acc (\<lambda>x a. and_then (f x) (\<lambda>t. Inr (a @ [t]))) = Inr (acc @ map g xs)"
  by (induction xs arbitrary: acc) auto

lemma refines_for_mem:
  assumes "\<And>x acc. x \<in> set xs \<Longrightarrow> refines at fails (body x acc) (g x acc)"
  shows "refines at fails (for_a xs acc body) (\<lambda>m. for_r xs acc (\<lambda>x acc. g x acc m))"
  using assms
proof (induction xs arbitrary: acc)
  case Nil
  show ?case by (simp add: refines_return)
next
  case (Cons x xs)
  have "refines at fails (for_a xs a body) (\<lambda>m. for_r xs a (\<lambda>x acc. g x acc m))" for a
    using Cons.prems by (intro Cons.IH) simp
  from refines_bind [OF Cons.prems [of x acc] this] show ?case by simp
qed

lemma for_r_batches: "for_r xs b (\<lambda>x b. Inr (b @ f x)) = Inr (b @ concat (map f xs))"
  by (induction xs arbitrary: b) auto

lemma apply_deletes: "apply_ops (map Delete ks) m k = (if k \<in> set ks then None else m k)"
  by (induction ks arbitrary: m) auto

text \<open>The tags of a manifest, by its reverse index.\<close>

lemma set_manifest_tags:
  "finite (dom m) \<Longrightarrow> set (manifest_tags m r d) = map byte_char ` suffixes_after m (tags_of_manifest r d) None"
  unfolding manifest_tags_def set_map by (subst set_sorted_list_of_set [OF finite_suffixes_after]) simp_all

lemma manifest_tags_iff:
  assumes "store_ok lib m" and "finite (dom m)"
  shows "t \<in> set (manifest_tags m r d) \<longleftrightarrow> map_option tr_digest (tag_at lib m r t) = Some d"
proof -
  have e: "entries_ok lib m" and tags: "tags_ok lib m" using assms(1) by (simp_all add: store_ok_def)
  have "t \<in> set (manifest_tags m r d) \<longleftrightarrow> (\<exists>b. m (tags_of_manifest r d @ b) \<noteq> None \<and> t = map byte_char b)"
    by (auto simp: set_manifest_tags [OF assms(2)] suffixes_after_def after_def)
  also have "\<dots> \<longleftrightarrow> m (manifest_tag_key r d t) \<noteq> None"
  proof
    assume "\<exists>b. m (tags_of_manifest r d @ b) \<noteq> None \<and> t = map byte_char b"
    then obtain b where b: "b \<in> suffixes_after m (tags_of_manifest r d) None" "t = map byte_char b"
      by (auto simp: suffixes_after_def after_def)
    obtain u where "b = as_bytes u" using suffix_tags [OF e b(1) disjI2 [OF refl]] .
    with b show "m (manifest_tag_key r d t) \<noteq> None" by (auto simp: suffixes_after_def key_defs comp_def)
  next
    assume "m (manifest_tag_key r d t) \<noteq> None"
    then show "\<exists>b. m (tags_of_manifest r d @ b) \<noteq> None \<and> t = map byte_char b"
      by (intro exI [of _ "as_bytes t"]) (simp add: key_defs comp_def)
  qed
  finally show ?thesis using tags unfolding tags_ok_def by blast
qed

lemma manifest_tags_valid:
  assumes "entries_ok lib m" and "finite (dom m)" and "t \<in> set (manifest_tags m r d)"
  shows "valid_tag t"
proof -
  obtain b where b: "b \<in> suffixes_after m (tags_of_manifest r d) None" "t = map byte_char b"
    using assms(3) unfolding set_manifest_tags [OF assms(2)] by blast
  obtain u where "valid_tag u" "b = as_bytes u" using suffix_tags [OF assms(1) b(1) disjI2 [OF refl]] .
  with b(2) show ?thesis by (simp add: comp_def)
qed

text \<open>What the batch leaves in each range.\<close>

lemma delete_tags_ranged:
  "ranged {0x47, 0x46, 0x54, 0x48, 0x4A} (concat (map (\<lambda>t. delete_tag_ops lib r t d rec now) ts))"
  by (induction ts) (simp_all add: delete_tag_ops_ranged)

lemma delete_tags_at:
  "apply_ops (concat (map (\<lambda>t. delete_tag_ops lib r t d rec now) ts)) m (tag_key q u) =
     (if q = r \<and> u \<in> set ts then None else m (tag_key q u))"
  "apply_ops (concat (map (\<lambda>t. delete_tag_ops lib r t d rec now) ts)) m (manifest_tag_key q e u) =
     (if q = r \<and> e = d \<and> u \<in> set ts then None else m (manifest_tag_key q e u))"
  "apply_ops (concat (map (\<lambda>t. delete_tag_ops lib r t d rec now) ts)) m (referrer_key q s e) =
     (if q = r \<and> e = d \<and> (\<exists>t \<in> set ts. subject_of t = Some s) then None else m (referrer_key q s e))"
  "apply_ops (concat (map (\<lambda>t. delete_tag_ops lib r t d rec now) ts)) m (manifest_tag_history_key q e at u) =
     (if q = r \<and> e = d \<and> at = now \<and> u \<in> set ts then Some (stored_as (lb_event lib) (deleted_event rec))
      else m (manifest_tag_history_key q e at u))"
  by (induction ts arbitrary: m)
    (auto simp: delete_tag_ops_tag delete_tag_ops_index delete_tag_ops_referrer tag_ops_manifest_history)

lemma manifest_delete_ranged:
  "ranged {0x4D, 0x5A, 0x52, 0x53, 0x47, 0x46, 0x54, 0x48, 0x4A} (manifest_delete_ops lib m r d rec now)"
proof -
  have deletes: "ranged hs (map Delete ks)" if "\<And>k. k \<in> set ks \<Longrightarrow> \<exists>h x. k = h # x \<and> h \<in> hs" for hs ks
    using that by (induction ks) auto
  have parents: "\<exists>x. k = 0x53 # x" if "k \<in> set (keys_under m (parents_of r d))" for k
    using that by (auto simp: keys_under_def scan_list_def scan_prefixes prefix_def)
  show ?thesis
    unfolding manifest_delete_ops_def ranged_simps
    by (intro conjI deletes ranged_mono [OF delete_tags_ranged])
      (auto simp: data_keys dest!: parents split: option.splits)
qed

text \<open>
  The manifest, its body, its tags and every edge from or to it are gone; everything else in those
  ranges is as it was.
\<close>

lemma manifest_delete_at:
  assumes "store_ok lib m" and fin: "finite (dom m)" and rec: "manifest_at lib m r d = Some rec"
    and m'_def: "m' = apply_ops (manifest_delete_ops lib m r d rec now) m"
  shows "m' (manifest_key q e) = (if q = r \<and> e = d then None else m (manifest_key q e))"
    and "m' (manifest_body_key q e) = (if q = r \<and> e = d then None else m (manifest_body_key q e))"
    and "m' (blob_ref_key b q e) = (if q = r \<and> e = d then None else m (blob_ref_key b q e))"
    and "m' (child_parent_key q c p) = (if q = r \<and> (c = d \<or> p = d) then None else m (child_parent_key q c p))"
    and "m' (tag_key q u) = (if q = r \<and> map_option tr_digest (tag_at lib m r u) = Some d then None else m (tag_key q u))"
    and "m' (manifest_tag_key q e u) = (if q = r \<and> e = d then None else m (manifest_tag_key q e u))"
    and "m' (referrer_key q s e) =
      (if q = r \<and> e = d \<and> (mr_subject rec = Some s \<or> (\<exists>t \<in> set (manifest_tags m r d). subject_of t = Some s)) then None
       else m (referrer_key q s e))"
    and "m' (manifest_tag_history_key q e at u) =
      (if q = r \<and> e = d \<and> at = now \<and> u \<in> set (manifest_tags m r d)
       then Some (stored_as (lb_event lib) (deleted_event (Some rec))) else m (manifest_tag_history_key q e at u))"
proof -
  let ?ks = "[manifest_key r d, manifest_body_key r d] @ map (\<lambda>b. blob_ref_key b r d) (mr_layers rec)
       @ map (\<lambda>c. child_parent_key r (cr_digest c) d) (mr_children rec)
       @ (case mr_subject rec of None \<Rightarrow> [] | Some s \<Rightarrow> [referrer_key r s d]) @ keys_under m (parents_of r d)"
  define tags where "tags = concat (map (\<lambda>t. delete_tag_ops lib r t d (Some rec) now) (manifest_tags m r d))"
  have m': "m' = apply_ops tags (apply_ops (map Delete ?ks) m)"
    by (simp add: m'_def manifest_delete_ops_def tags_def)
  have tr: "ranged {0x47, 0x46, 0x54, 0x48, 0x4A} tags"
    unfolding tags_def by (rule delete_tags_ranged)
  have other: "m' k = (if k \<in> set ?ks then None else m k)" if "k = h # x" "h \<notin> {0x47, 0x46, 0x54, 0x48, 0x4A}" for k h x
    unfolding m' that(1) ranged_untouched [OF tr that(2)] by (rule apply_deletes)
  note parents = set_keys_under [OF fin]
  have edge: "m (blob_ref_key b r d) = None" if "b \<notin> set (mr_layers rec)" for b
    using assms(1) rec that unfolding store_ok_def edges_ok_def by fastforce
  have child: "m (child_parent_key r c d) = None" if "c \<notin> cr_digest ` set (mr_children rec)" for c
    using assms(1) rec that unfolding store_ok_def edges_ok_def by fastforce
  show "m' (manifest_key q e) = (if q = r \<and> e = d then None else m (manifest_key q e))"
    by (subst other [of _ "0x4D"]) (auto simp: parents data_keys scan_prefixes key_codes split: option.splits)
  show "m' (manifest_body_key q e) = (if q = r \<and> e = d then None else m (manifest_body_key q e))"
    by (subst other [of _ "0x5A"]) (auto simp: parents data_keys scan_prefixes key_codes split: option.splits)
  show "m' (blob_ref_key b q e) = (if q = r \<and> e = d then None else m (blob_ref_key b q e))"
    using edge [of b]
    by (subst other [of _ "0x52"]) (auto simp: parents data_keys scan_prefixes key_codes split: option.splits)
  show "m' (child_parent_key q c p) = (if q = r \<and> (c = d \<or> p = d) then None else m (child_parent_key q c p))"
    using child [of c]
    by (subst other [of _ "0x53"]) (auto simp: parents data_keys scan_prefixes key_codes split: option.splits)
  have low: "apply_ops (map Delete ?ks) m k = m k" if "k = h # x" "h \<in> {0x54, 0x47}" for k h x
    unfolding apply_deletes using that by (auto simp: parents data_keys scan_prefixes split: option.splits)
  have "u \<in> set (manifest_tags m r d) \<longleftrightarrow> map_option tr_digest (tag_at lib m r u) = Some d" for u
    by (rule manifest_tags_iff [OF assms(1) fin])
  then show "m' (tag_key q u) = (if q = r \<and> map_option tr_digest (tag_at lib m r u) = Some d then None else m (tag_key q u))"
    unfolding m' tags_def delete_tags_at by (subst low [of _ "0x54"]) (auto simp: data_keys)
  have "m (manifest_tag_key r d u) = None" if "u \<notin> set (manifest_tags m r d)" for u
    using assms(1) that manifest_tags_iff [OF assms(1) fin] unfolding store_ok_def tags_ok_def by blast
  then show "m' (manifest_tag_key q e u) = (if q = r \<and> e = d then None else m (manifest_tag_key q e u))"
    unfolding m' tags_def delete_tags_at by (subst low [of _ "0x47"]) (auto simp: data_keys)
  have "apply_ops (map Delete ?ks) m (referrer_key q s e) =
      (if q = r \<and> e = d \<and> mr_subject rec = Some s then None else m (referrer_key q s e))"
    unfolding apply_deletes by (auto simp: parents data_keys scan_prefixes key_codes split: option.splits)
  then show "m' (referrer_key q s e) =
      (if q = r \<and> e = d \<and> (mr_subject rec = Some s \<or> (\<exists>t \<in> set (manifest_tags m r d). subject_of t = Some s)) then None
       else m (referrer_key q s e))"
    unfolding m' tags_def delete_tags_at by auto
  have "apply_ops (map Delete ?ks) m (manifest_tag_history_key q e at u) = m (manifest_tag_history_key q e at u)"
    unfolding apply_deletes by (auto simp: parents data_keys scan_prefixes split: option.splits)
  then show "m' (manifest_tag_history_key q e at u) =
      (if q = r \<and> e = d \<and> at = now \<and> u \<in> set (manifest_tags m r d)
       then Some (stored_as (lb_event lib) (deleted_event (Some rec))) else m (manifest_tag_history_key q e at u))"
    unfolding m' tags_def delete_tags_at by simp
qed

context library_code
begin

lemma store_ok_manifest_delete:
  assumes ok: "store_ok lib m" and fin: "finite (dom m)" and rec: "manifest_at lib m r d = Some rec"
  shows "store_ok lib (apply_ops (manifest_delete_ops lib m r d rec now) m)"
proof -
  define m' where "m' = apply_ops (manifest_delete_ops lib m r d rec now) m"
  note at = manifest_delete_at [OF ok fin rec m'_def]
  have e: "entries_ok lib m" and t: "tags_ok lib m" and b: "bodies_ok lib m" and g: "edges_ok lib m"
    using ok by (simp_all add: store_ok_def)
  define f where "f = (\<lambda>r t. map_option tr_digest (tag_at lib m r t))"
  have f: "map_option tr_digest (tag_at lib m' q u) = (if q = r \<and> f q u = Some d then None else f q u)" for q u
    by (auto simp: tag_at_def at(5) f_def)
  have man: "manifest_at lib m' q x = (if q = r \<and> x = d then None else manifest_at lib m q x)" for q x
    by (simp add: manifest_at_def at)
  have body: "body_at lib m' q x = (if q = r \<and> x = d then None else body_at lib m q x)" for q x
    by (simp add: body_at_def at)
  have "entries_ok lib m'"
    unfolding m'_def
  proof (rule entries_ok_apply [OF e])
    fix k v assume "Put k v \<in> set (manifest_delete_ops lib m r d rec now)"
    then obtain t where "t \<in> set (manifest_tags m r d)" "Put k v \<in> set (delete_tag_ops lib r t d (Some rec) now)"
      by (auto simp: manifest_delete_ops_def split: option.splits)
    then show "good_entry lib k v" using delete_tag_ops_good manifest_tags_valid [OF e fin] by blast
  qed
  moreover have "tags_ok lib m'"
  proof -
    have i: "m (manifest_tag_key q x u) \<noteq> None \<longleftrightarrow> f q u = Some x" and s: "f q u = Some x \<Longrightarrow> m (manifest_key q x) \<noteq> None" for q u x
      using t unfolding tags_ok_def f_def by blast+
    show ?thesis unfolding tags_ok_def f at using i s by (simp del: not_None_eq) (metis option.inject)
  qed
  moreover have "bodies_ok lib m'"
    using b unfolding bodies_ok_def man body at by (auto simp del: not_None_eq)
  moreover have "edges_ok lib m'"
  proof -
    have "m' (blob_key x) = m (blob_key x)" for x
      unfolding m'_def data_keys by (rule ranged_untouched [OF manifest_delete_ranged]) simp
    then show ?thesis
      using g unfolding edges_ok_def man at by (auto simp del: not_None_eq)
  qed
  ultimately show ?thesis by (simp add: store_ok_def m'_def)
qed

end

context registry_env
begin

lemma refines_drain_parents:
  "refines holds may_fail (drain G (parents_of r d) batch (\<lambda>key batch. Inr (batch_delete key batch)))
    (\<lambda>m. Inr (batch @ map Delete (keys_under m (parents_of r d))))"
  by (rule refines_cong [OF refines_drain]) (simp_all add: for_r_fold fold_batch_delete)

lemma refines_drain_tags:
  "refines holds may_fail (drain G (tags_of_manifest r d) [] (\<lambda>key removed_tags.
       and_then (ok_or (corrupt ''manifest-tag key'') (parse_manifest_tag_suffix key d)) (\<lambda>t. Inr (removed_tags @ [t]))))
    (\<lambda>m. Inr (manifest_tags m r d))"
proof (rule refines_cong [OF refines_drain])
  fix m s assume h: "holds m s"
  let ?p = "tags_of_manifest r d" and ?bs = "sorted_list_of_set (suffixes_after m (tags_of_manifest r d) None)"
  have keys: "keys_under m ?p = map (append ?p) ?bs"
    using scan_suffixes [OF holds_finite [OF h], of ?p None] by (simp add: keys_under_def)
  have parse: "ok_or (corrupt ''manifest-tag key'') (parse_manifest_tag_suffix k d) = Inr ((map byte_char \<circ> drop (length ?p)) k)"
    if "k \<in> set (keys_under m ?p)" for k
    using that parse_suffixes(2) [OF holdsD(5) [OF h] _ refl, of _ r d None] finite_suffixes_after [OF holds_finite [OF h]]
    unfolding keys by auto
  have "for_r (keys_under m ?p) [] (\<lambda>key removed_tags.
       and_then (ok_or (corrupt ''manifest-tag key'') (parse_manifest_tag_suffix key d)) (\<lambda>t. Inr (removed_tags @ [t])))
    = Inr ([] @ map (map byte_char \<circ> drop (length ?p)) (keys_under m ?p))"
    by (rule for_r_snoc) (rule parse)
  also have "\<dots> = Inr (manifest_tags m r d)" unfolding keys manifest_tags_def by (simp add: comp_def)
  finally show "for_r (keys_under m ?p) [] (\<lambda>key removed_tags.
       and_then (ok_or (corrupt ''manifest-tag key'') (parse_manifest_tag_suffix key d)) (\<lambda>t. Inr (removed_tags @ [t])))
    = Inr (manifest_tags m r d)" .
qed simp

lemma refines_stage_delete_tags:
  "refines (\<lambda>m s. holds m s \<and> Inr (manifest_tags m r d) = Inr ts) may_fail
     (for_a ts batch (\<lambda>t batch. stage_delete_tag G batch r t d (Some rec) now))
     (\<lambda>m. Inr (batch @ concat (map (\<lambda>t. delete_tag_ops (rg_libs G) r t d (Some rec) now) ts)))"
proof (cases "\<forall>t \<in> set ts. valid_tag t")
  case True
  then show ?thesis
    by (intro refines_cong [OF refines_for_mem [OF refines_restrict [OF refines_stage_delete_tag]]])
      (auto simp: for_r_batches)
next
  case False
  then have "\<not> (holds m s \<and> Inr (manifest_tags m r d) = Inr ts)" for m s
    using manifest_tags_valid [OF holdsD(5) holds_finite] by blast
  then show ?thesis unfolding refines_def by blast
qed

lemma refines_delete_tail:
  "refines holds may_fail
     (bind_a (drain G (parents_of r d) batch (\<lambda>key batch. Inr (batch_delete key batch))) (\<lambda>batch.
      bind_a (drain G (tags_of_manifest r d) [] (\<lambda>key removed_tags.
          and_then (ok_or (corrupt ''manifest-tag key'') (parse_manifest_tag_suffix key d))
            (\<lambda>t. Inr (removed_tags @ [t])))) (\<lambda>removed_tags.
      bind_a (for_a removed_tags batch (\<lambda>t batch. stage_delete_tag G batch r t d (Some rec) now)) (\<lambda>batch.
        return_a (\<lparr> md_digest = d, md_removed_tags = removed_tags \<rparr>, batch)))))
     (\<lambda>m. Inr (\<lparr> md_digest = d, md_removed_tags = manifest_tags m r d \<rparr>,
        batch @ map Delete (keys_under m (parents_of r d))
          @ concat (map (\<lambda>t. delete_tag_ops (rg_libs G) r t d (Some rec) now) (manifest_tags m r d))))"
  by (rule refines_cong, (rule refines_bind_known [OF refines_drain_tags] refines_bind refines_return
        refines_drain_parents refines_stage_delete_tags)+) simp

lemma refines_plan_manifest_delete:
  "refines holds may_fail (plan_manifest_delete G repo d now) (manifest_delete_spec (rg_libs G) repo d now)"
  unfolding plan_manifest_delete_def Let_def fold_batch_delete
  by (rule refines_cong, (rule refines_delete_tail refines_bind refines_lift
        refines_require_repo refines_manifest_record)+)
    (auto simp: manifest_delete_spec_def manifest_delete_ops_def and_then_def ok_or_def batch_delete_def batch_new_def
        comp_def split: option.split sum.split)

lemma commits_delete_manifest:
  "commits holds may_fail (delete_manifest G repo d now)
     (\<lambda>m. and_then (manifest_delete_spec (rg_libs G) repo d now m) (\<lambda>(a, b). Inr (a, apply_ops b m)))"
  unfolding delete_manifest_def
proof (rule commits_planned [OF refines_plan_manifest_delete])
  fix m a b assume ok: "store_ok (rg_libs G) m" "finite (dom m)"
    and "manifest_delete_spec (rg_libs G) repo d now m = Inr (a, b)"
  then obtain r rec where "manifest_at (rg_libs G) m r d = Some rec" "b = manifest_delete_ops (rg_libs G) m r d rec now"
    by (auto simp: manifest_delete_spec_def and_then_Inr ok_or_def split: option.splits)
  with ok show "bounded_batch b \<and> nameless b \<and> store_ok (rg_libs G) (apply_ops b m)"
    using store_ok_manifest_delete ranged_bounded [OF manifest_delete_ranged] ranged_nameless [OF manifest_delete_ranged]
    by simp
qed

end

section \<open>Dropping a blob's membership\<close>

definition blob_ref_delete_ops :: "store \<Rightarrow> repo_id \<Rightarrow> digest \<Rightarrow> write_batch" where
  "blob_ref_delete_ops m r d =
     map Delete (keys_under m (blob_refs_in_repo d r)
       @ (if m (repo_blob_key r d) \<noteq> None then [repo_blob_key r d] else []) @ [blob_mark_key d])"

definition blob_ref_delete_spec :: "string \<Rightarrow> digest \<Rightarrow> store \<Rightarrow> registry_error + blob_ref_deleted planned" where
  "blob_ref_delete_spec repo d m =
     and_then (ok_or (NameUnknown repo) (id_of m repo)) (\<lambda>r.
       if \<not> servable m r d then Inl (BlobUnknown repo d)
       else Inr (\<lparr> bx_digest = d, bx_was_member = (m (repo_blob_key r d) \<noteq> None),
                   bx_references_removed = length (keys_under m (blob_refs_in_repo d r)) \<rparr>,
                 blob_ref_delete_ops m r d))"

lemma blob_ref_delete_at:
  assumes fin: "finite (dom m)" and m': "m' = apply_ops (blob_ref_delete_ops m r d) m"
  shows "m' (blob_ref_key b q e) = (if b = d \<and> q = r then None else m (blob_ref_key b q e))"
    and "m' (repo_blob_key q b) = (if q = r \<and> b = d then None else m (repo_blob_key q b))"
    and "m' (blob_mark_key b) = (if b = d then None else m (blob_mark_key b))"
    and "h \<notin> {0x52, 0x50, 0x43} \<Longrightarrow> m' (h # x) = m (h # x)"
  unfolding m' blob_ref_delete_ops_def apply_deletes
  by (auto simp: set_keys_under [OF fin] key_defs key_codes prefix_def)

lemma store_ok_blob_ref_delete:
  assumes ok: "store_ok lib m" and fin: "finite (dom m)"
  shows "store_ok lib (apply_ops (blob_ref_delete_ops m r d) m)"
proof -
  define m' where "m' = apply_ops (blob_ref_delete_ops m r d) m"
  note at = blob_ref_delete_at [OF fin m'_def]
  have "entries_ok lib m'"
    unfolding m'_def by (rule entries_ok_apply) (use ok in \<open>auto simp: store_ok_def blob_ref_delete_ops_def\<close>)
  moreover have "tags_ok lib m'" "bodies_ok lib m'"
    using ok unfolding store_ok_def by (auto elim!: tags_ok_cong bodies_ok_cong simp: data_keys at(4))
  moreover have "edges_ok lib m'"
  proof -
    have "manifest_at lib m' q e = manifest_at lib m q e" "m' (blob_key b) = m (blob_key b)"
      "m' (child_parent_key q c p) = m (child_parent_key q c p)" for q e b c p
      by (simp_all add: manifest_at_def data_keys at(4))
    with ok show ?thesis unfolding store_ok_def edges_ok_def at(1) by (auto simp del: not_None_eq split: if_splits)
  qed
  ultimately show ?thesis by (simp add: store_ok_def m'_def)
qed

context registry_env
begin

lemma refines_plan_blob_reference_delete:
  "refines holds may_fail (plan_blob_reference_delete G repo d) (blob_ref_delete_spec repo d)"
proof -
  have drained: "refines holds may_fail (drain G (blob_refs_in_repo d r) (0, batch_new)
       (\<lambda>key (removed, batch). Inr (removed + 1, batch_delete key batch)))
     (\<lambda>m. Inr (length (keys_under m (blob_refs_in_repo d r)), map Delete (keys_under m (blob_refs_in_repo d r))))" for r
  proof (rule refines_cong [OF refines_drain])
    fix m s
    have "for_r ks (n, b) (\<lambda>key (removed, batch). Inr (removed + 1, batch_delete key batch))
      = Inr (n + length ks, b @ map Delete ks)" for ks n b
      by (induction ks arbitrary: n b) (auto simp: batch_delete_def)
    from this [of "keys_under m (blob_refs_in_repo d r)" 0 batch_new]
    show "for_r (keys_under m (blob_refs_in_repo d r)) (0, batch_new)
        (\<lambda>key (removed, batch). Inr (removed + 1, batch_delete key batch)) =
      Inr (length (keys_under m (blob_refs_in_repo d r)), map Delete (keys_under m (blob_refs_in_repo d r)))"
      by (simp add: batch_new_def)
  qed (rule resumable_ranges)
  show ?thesis
    unfolding plan_blob_reference_delete_def Let_def
  proof (rule refines_cong, (rule drained refines_intros refines_require_repo refines_exists)+)
    fix m s assume h: "holds m s"
    have "keys_under m (blob_refs_in_repo d r) = [] \<longleftrightarrow> (\<forall>md. m (blob_ref_key d r md) = None)" for r
      using scan_list_empty [OF holds_finite [OF h]] has_prefix_keys(1) [OF holdsD(5) [OF h], of d r]
      by (auto simp: keys_under_def)
    then have "\<not> servable m r d \<longleftrightarrow> m (repo_blob_key r d) = None \<and> keys_under m (blob_refs_in_repo d r) = []" for r
      by (auto simp: servable_def)
    then show "and_then (ok_or (NameUnknown repo) (id_of m repo)) (\<lambda>r.
        and_then (Inr (has_prefix m (repo_blob_key r d))) (\<lambda>was_member.
        and_then (Inr (length (keys_under m (blob_refs_in_repo d r)), map Delete (keys_under m (blob_refs_in_repo d r))))
          (\<lambda>p. case p of (references_removed, batch) \<Rightarrow>
             if \<not> was_member \<and> references_removed = 0 then Inl (BlobUnknown repo d)
             else Inr (\<lparr> bx_digest = d, bx_was_member = was_member, bx_references_removed = references_removed \<rparr>,
               batch_delete (blob_mark_key d) (if was_member then batch_delete (repo_blob_key r d) batch else batch)))))
      = blob_ref_delete_spec repo d m"
      by (auto simp: blob_ref_delete_spec_def blob_ref_delete_ops_def has_prefix_keys(3) [OF holdsD(5) [OF h]]
          and_then_def batch_delete_def split: sum.split)
  qed
qed

lemma commits_delete_blob_reference:
  "commits holds may_fail (delete_blob_reference G repo d)
     (\<lambda>m. and_then (blob_ref_delete_spec repo d m) (\<lambda>(a, b). Inr (a, apply_ops b m)))"
  unfolding delete_blob_reference_def
proof (rule commits_planned [OF refines_plan_blob_reference_delete])
  fix m a b assume ok: "store_ok (rg_libs G) m" "finite (dom m)" and "blob_ref_delete_spec repo d m = Inr (a, b)"
  then obtain r where b: "b = blob_ref_delete_ops m r d"
    by (auto simp: blob_ref_delete_spec_def and_then_Inr split: if_splits)
  have "ranged {0x52, 0x50, 0x43} b"
    unfolding b blob_ref_delete_ops_def
    by (auto simp: ranged_def point_op_def set_keys_under [OF ok(2)] key_defs prefix_def)
  then show "bounded_batch b \<and> nameless b \<and> store_ok (rg_libs G) (apply_ops b m)"
    using store_ok_blob_ref_delete [OF ok] ranged_bounded ranged_nameless by (simp add: b)
qed

end

section \<open>Releasing a repository's name\<close>

definition tombstone :: "libs \<Rightarrow> store \<Rightarrow> string \<Rightarrow> repo_id \<Rightarrow> timestamp \<Rightarrow> store" where
  "tombstone lib m repo r now = (drop_name m repo r)
     (dead_repo_key r \<mapsto> stored_as (lb_dead lib) \<lparr> dr_name = repo, dr_dropped_at = secs now \<rparr>)"

definition tombstone_spec ::
    "libs \<Rightarrow> string \<Rightarrow> timestamp \<Rightarrow> store \<Rightarrow> registry_error + repo_tombstoned \<times> store" where
  "tombstone_spec lib repo now m =
     and_then (ok_or (NameUnknown repo) (id_of m repo)) (\<lambda>r.
       Inr (\<lparr> rt_id = r, rt_name = repo \<rparr>, tombstone lib m repo r now))"

lemma tombstone_data: "h \<notin> {0x6E, 0x69, 0x44} \<Longrightarrow> tombstone lib m repo r now (h # x) = m (h # x)"
  by (simp add: tombstone_def drop_name_def data_keys)

lemma tombstone_names:
  "tombstone lib m repo r now (repo_by_name n) = drop_name m repo r (repo_by_name n)"
  "tombstone lib m repo r now (repo_by_id i) = drop_name m repo r (repo_by_id i)"
  by (simp_all add: tombstone_def data_keys)

context library_code
begin

lemma store_ok_tombstone:
  assumes ok: "store_ok lib m"
  shows "store_ok lib (tombstone lib m repo r now)"
proof -
  have "entries_ok lib (tombstone lib m repo r now)"
    using ok by (auto simp: entries_ok_def store_ok_def tombstone_def drop_name_def coders split: if_splits)
  moreover have "tags_ok lib (tombstone lib m repo r now)" "bodies_ok lib (tombstone lib m repo r now)"
    "edges_ok lib (tombstone lib m repo r now)"
    using ok unfolding store_ok_def
    by (auto elim!: tags_ok_cong bodies_ok_cong edges_ok_cong simp: data_keys tombstone_data)
  ultimately show ?thesis by (simp add: store_ok_def)
qed

end

context registry_env
begin

text \<open>Releasing a name: the batch takes it out of the store, then the caches forget it.\<close>

lemma wp_release:
  assumes t: "holds m t" and r: "id_of m n = Some r" and b: "bounded_batch b" and ok: "store_ok (rg_libs G) (apply_ops b m)"
    and eqs: "\<And>x. apply_ops b m (repo_by_name x) = drop_name m n r (repo_by_name x)"
      "\<And>i. apply_ops b m (repo_by_id i) = drop_name m n r (repo_by_id i)"
    and ret: "\<And>s'. holds (apply_ops b m) s' \<Longrightarrow> Q () s'"
    and err: "\<And>e s'. holds m s' \<Longrightarrow> engine_error may_fail e \<Longrightarrow> X e s'"
  shows "wp (rg_apply G b) (\<lambda>_. wp (forget_repo G n r) Q X) X t"
  unfolding rg_apply_def meta_a_def wp_simps
proof (rule wp_apply [OF holdsD(2) [OF t] b])
  fix e' assume e': "inv e'" "tbl e' = apply_ops b (tbl (rs_engine t))"
  then have tb: "tbl e' = apply_ops b m" by (simp add: holdsD [OF t])
  have "names_ok (apply_ops b m)"
    by (rule names_ok_cong [OF names_ok_drop [OF holdsD(6) [OF t] r]]) (simp_all add: eqs)
  moreover have "cache_ok (apply_ops b m) ((names (rs_cache t))(n := None)) ((ids (rs_cache t))(r := None))"
    by (rule cache_ok_cong [OF cache_ok_drop]) (use t in \<open>auto simp: at_store_def interner_ok_def eqs\<close>)
  ultimately show "wp (forget_repo G n r) Q X (t\<lparr>rs_engine := e'\<rparr>)"
    unfolding forget_repo_def using e'(1) tb ok by (intro wp_forget) (auto simp: at_store_def intro!: ret)
next
  fix e e' assume "may_fail" "inv e'" "tbl e' = tbl (rs_engine t)"
  with t show "X (Meta e) (t\<lparr>rs_engine := e'\<rparr>)"
    by (intro err) (auto simp: at_store_def interner_ok_def engine_error_def)
qed

lemma commits_delete_repository:
  "commits holds may_fail (delete_repository G repo now) (tombstone_spec (rg_libs G) repo now)"
  unfolding commits_def
proof (intro allI impI)
  fix m s assume h: "holds m s"
  let ?lib = "rg_libs G" and ?spec = "tombstone_spec (rg_libs G) repo now m"
  let ?Q = "\<lambda>a s'. \<exists>m'. ?spec = Inr (a, m') \<and> holds m' s'"
  let ?X = "\<lambda>e s'. holds m s' \<and> (?spec = Inl e \<or> engine_error may_fail e)"
  let ?ops = "\<lambda>r. [Delete (repo_by_name repo), Delete (repo_by_id r),
      Put (dead_repo_key r) (stored_as (lb_dead ?lib) \<lparr> dr_name = repo, dr_dropped_at = secs now \<rparr>)]"
  have plan: "refines holds may_fail (plan_repo_tombstone G repo now)
      (\<lambda>m. and_then (ok_or (NameUnknown repo) (id_of m repo)) (\<lambda>r. Inr (\<lparr> rt_id = r, rt_name = repo \<rparr>, ?ops r)))"
    unfolding plan_repo_tombstone_def Let_def coders
    by (rule refines_cong, (rule refines_intros refines_require_repo)+)
      (simp add: batch_put_def batch_delete_def batch_new_def)
  have step: "wp (rg_apply G (?ops r)) (\<lambda>_. wp (forget_repo G repo r) (\<lambda>_ s'. ?Q \<lparr> rt_id = r, rt_name = repo \<rparr> s') ?X) ?X t"
    if r: "id_of m repo = Some r" and t: "holds m t" for r t
  proof (rule wp_release [OF t r])
    have tb: "apply_ops (?ops r) m = tombstone ?lib m repo r now" by (simp add: tombstone_def drop_name_def)
    show "bounded_batch (?ops r)" by (simp add: bounded_batch_def bounded_op_def)
    show "store_ok ?lib (apply_ops (?ops r) m)" unfolding tb by (rule store_ok_tombstone [OF holdsD(4) [OF h]])
    show "apply_ops (?ops r) m (repo_by_name x) = drop_name m repo r (repo_by_name x)"
      "apply_ops (?ops r) m (repo_by_id i) = drop_name m repo r (repo_by_id i)" for x i
      unfolding tb by (rule tombstone_names)+
    show "?Q \<lparr> rt_id = r, rt_name = repo \<rparr> s'" if "holds (apply_ops (?ops r) m) s'" for s'
      using that r unfolding tb by (simp add: tombstone_spec_def)
  qed simp
  show "wp (delete_repository G repo now) ?Q ?X s"
    unfolding delete_repository_def wp_bind
    by (rule refines_wp [OF plan h])
      (use step in \<open>auto simp: wp_simps and_then_Inr tombstone_spec_def and_then_def ok_or_def split: option.splits sum.splits\<close>)
qed

end

section \<open>Properties\<close>

text \<open>
  Draining the edges of one object returns, whatever the size of the range: the closure is called once for
  each key of the range, in key order, and nothing is written. It can end early only by an error of
  the closure or of the engine.
\<close>

theorem drain_returns:
  assumes env: "registry_env G tbl ok fails names ids" and at: "at_store tbl ok names ids (rg_libs G) m s"
    and range: "p \<in> {parents_of r d, tags_of_manifest r d, blob_refs_in_repo d r}"
    and keys: "sorted_wrt (<) ks" "set ks = {k. m k \<noteq> None \<and> prefix p k}"
    and run: "drain G p acc f s = (res, s')"
  shows "at_store tbl ok names ids (rg_libs G) m s'
    \<and> (res = for_r ks acc f \<or> (\<exists>e. engine_error fails e \<and> res = Inl e))
    \<and> ((\<forall>k a. f k a \<noteq> Inl Diverged) \<longrightarrow> res \<noteq> Inl Diverged)"
proof -
  have fin: "finite (dom m)" using registry_env.holds_finite [OF env at] .
  have "resumable p" using range by auto
  note run' = refines_run [OF registry_env.refines_drain [OF env this] at run]
  have "keys_under m p = ks"
  proof (rule sorted_distinct_set_unique)
    show "sorted (keys_under m p)" "distinct (keys_under m p)"
      using sorted_scan_list [of m p None] by (simp_all add: keys_under_def strict_sorted_iff)
    show "sorted ks" "distinct ks" using keys(1) by (simp_all add: strict_sorted_iff)
    show "set (keys_under m p) = set ks" by (simp add: set_keys_under [OF fin] keys(2))
  qed
  moreover have div: "for_r xs a f \<noteq> Inl Diverged" if "\<forall>k a. f k a \<noteq> Inl Diverged" for xs a
    using that by (induction xs arbitrary: a) (auto simp: and_then_def split: sum.split)
  ultimately have *: "at_store tbl ok names ids (rg_libs G) m s'"
    "res = for_r ks acc f \<or> (\<exists>e. engine_error fails e \<and> res = Inl e)" using run' by simp_all
  then have "res \<noteq> Inl Diverged" if "\<forall>k a. f k a \<noteq> Inl Diverged"
    using div [OF that, of ks acc] by (auto simp: engine_error_def)
  with * show ?thesis by blast
qed

theorem drain_returns_witness:
  "\<exists>s'. drain demo_registry (tags_of_manifest 0 demo_digest) (0 :: nat) (\<lambda>k n. Inr (Suc n)) demo_state = (Inr 0, s')"
proof -
  obtain res s' where run: "drain demo_registry (tags_of_manifest 0 demo_digest) 0 (\<lambda>k n. Inr (Suc n)) demo_state = (res, s')"
    by fastforce
  have "demo_store k = None" if "prefix (tags_of_manifest 0 demo_digest) k" for k
    using that by (auto simp: demo_store_def one_repo_def key_defs prefix_def)
  then have "set [] = {k. demo_store k \<noteq> None \<and> prefix (tags_of_manifest 0 demo_digest) k}" by auto
  from drain_returns [OF dr.registry_env_axioms at_store_demo _ _ this run, of 0 demo_digest] run
  show ?thesis by (auto simp: engine_error_def)
qed

lemma delete_tags_history:
  assumes "\<And>t. t \<in> set ts \<Longrightarrow> valid_tag t" and "nul_free u"
  shows "apply_ops (concat (map (\<lambda>t. delete_tag_ops lib r t d rec now) ts)) m (tag_history_key q u at e) =
    (if q = r \<and> u \<in> set ts \<and> at = now \<and> e = d then Some (stored_as (lb_event lib) (deleted_event rec))
     else m (tag_history_key q u at e))"
  using assms(1) by (induction ts arbitrary: m) (auto simp: tag_ops_history(2) assms(2))

lemma manifest_delete_history:
  assumes "entries_ok lib m" and fin: "finite (dom m)" and "nul_free u"
  shows "apply_ops (manifest_delete_ops lib m r d rec now) m (tag_history_key q u at e) =
    (if q = r \<and> u \<in> set (manifest_tags m r d) \<and> at = now \<and> e = d
     then Some (stored_as (lb_event lib) (deleted_event (Some rec))) else m (tag_history_key q u at e))"
proof -
  let ?ks = "[manifest_key r d, manifest_body_key r d] @ map (\<lambda>b. blob_ref_key b r d) (mr_layers rec)
       @ map (\<lambda>c. child_parent_key r (cr_digest c) d) (mr_children rec)
       @ (case mr_subject rec of None \<Rightarrow> [] | Some s \<Rightarrow> [referrer_key r s d]) @ keys_under m (parents_of r d)"
  have "tag_history_key q u at e \<notin> set ?ks"
    by (auto simp: data_keys scan_prefixes set_keys_under [OF fin] prefix_def split: option.splits)
  then have "apply_ops (map Delete ?ks) m (tag_history_key q u at e) = m (tag_history_key q u at e)"
    unfolding apply_deletes by presburger
  moreover have "valid_tag t" if "t \<in> set (manifest_tags m r d)" for t
    by (rule manifest_tags_valid [OF assms(1,2) that])
  ultimately show ?thesis
    unfolding manifest_delete_ops_def apply_ops_append [of "map Delete ?ks"]
    by (subst delete_tags_history [OF _ assms(3)]) (assumption, presburger)
qed

text \<open>
  C3. Deleting a manifest removes its record, its body, every tag that pointed at it with its row of the reverse index, the
  blob edges from it, the child edges in both directions, and the referrer edges from it: to its subject, and to the subject of each
  artifact tag that goes. The referrers that point at it stay. The tags are reported, and each gets one \<open>Deleted\<close> event in its
  history and one in that of the manifest. Every other manifest, body, tag, edge and event stays, and so do every membership, blob,
  mark, upload, counter and name. It fails, changing nothing, exactly for an unknown repository or manifest, or when
  the engine fails; in particular the loops over the tags and the parents return.
\<close>

theorem delete_manifest_correct:
  assumes env: "registry_env G tbl ok fails names ids" and at: "at_store tbl ok names ids (rg_libs G) m s"
    and run: "delete_manifest G repo d now s = (res, s')"
  shows "\<exists>m'. at_store tbl ok names ids (rg_libs G) m' s' \<and> (case res of
      Inl e \<Rightarrow> m' = m \<and> (e = NameUnknown repo \<and> id_of m repo = None
        \<or> e = ManifestUnknown repo (to_string d) \<and> (\<exists>r. id_of m repo = Some r \<and> manifest_at (rg_libs G) m r d = None)
        \<or> engine_error fails e)
    | Inr out \<Rightarrow> (\<exists>r rec. id_of m repo = Some r \<and> manifest_at (rg_libs G) m r d = Some rec \<and> md_digest out = d
        \<and> set (md_removed_tags out) = {t. map_option tr_digest (tag_at (rg_libs G) m r t) = Some d}
        \<and> (\<forall>q e. manifest_at (rg_libs G) m' q e = (if q = r \<and> e = d then None else manifest_at (rg_libs G) m q e))
        \<and> (\<forall>q e. body_at (rg_libs G) m' q e = (if q = r \<and> e = d then None else body_at (rg_libs G) m q e))
        \<and> (\<forall>q t. tag_at (rg_libs G) m' q t =
              (if q = r \<and> t \<in> set (md_removed_tags out) then None else tag_at (rg_libs G) m q t))
        \<and> (\<forall>b q e. m' (blob_ref_key b q e) = (if q = r \<and> e = d then None else m (blob_ref_key b q e)))
        \<and> (\<forall>q c p. m' (child_parent_key q c p) = (if q = r \<and> (c = d \<or> p = d) then None else m (child_parent_key q c p)))
        \<and> (\<forall>q e t. m' (manifest_tag_key q e t) = (if q = r \<and> e = d then None else m (manifest_tag_key q e t)))
        \<and> (\<forall>q x e. m' (referrer_key q x e) =
              (if q = r \<and> e = d \<and> (mr_subject rec = Some x \<or> (\<exists>t \<in> set (md_removed_tags out). subject_of t = Some x)) then None
               else m (referrer_key q x e)))
        \<and> (\<forall>q e a u. m' (manifest_tag_history_key q e a u) =
              (if q = r \<and> e = d \<and> a = now \<and> u \<in> set (md_removed_tags out)
               then Some (stored_as (lb_event (rg_libs G)) (deleted_event (Some rec))) else m (manifest_tag_history_key q e a u)))
        \<and> (\<forall>q u a e. nul_free u \<longrightarrow> m' (tag_history_key q u a e) =
              (if q = r \<and> u \<in> set (md_removed_tags out) \<and> a = now \<and> e = d
               then Some (stored_as (lb_event (rg_libs G)) (deleted_event (Some rec))) else m (tag_history_key q u a e)))
        \<and> (\<forall>h k. h \<notin> {0x4D, 0x5A, 0x52, 0x53, 0x47, 0x46, 0x54, 0x48, 0x4A} \<longrightarrow> m' (h # k) = m (h # k))))"
proof -
  let ?lib = "rg_libs G"
  note c = commits_run [OF registry_env.commits_delete_manifest [OF env] at run]
  have fin: "finite (dom m)" and ok: "store_ok ?lib m"
    using registry_env.holds_finite [OF env at] at by (simp_all add: at_store_def)
  then have e: "entries_ok ?lib m" by (simp add: store_ok_def)
  show ?thesis
  proof (cases res)
    case (Inl e)
    with c have "at_store tbl ok names ids ?lib m s'" "manifest_delete_spec ?lib repo d now m = Inl e \<or> engine_error fails e"
      by (auto simp: and_then_def split: sum.splits)
    with Inl show ?thesis
      by (intro exI [of _ m]) (auto simp: manifest_delete_spec_def and_then_def ok_or_def split: sum.splits option.splits)
  next
    case (Inr out)
    with c obtain m' b where m': "at_store tbl ok names ids ?lib m' s'"
      and spec: "manifest_delete_spec ?lib repo d now m = Inr (out, b)" and b: "m' = apply_ops b m"
      by (auto simp: and_then_Inr)
    obtain r rec where *: "id_of m repo = Some r" "manifest_at ?lib m r d = Some rec"
      "md_digest out = d" "md_removed_tags out = manifest_tags m r d" and bo: "b = manifest_delete_ops ?lib m r d rec now"
      using spec by (auto simp: manifest_delete_spec_def and_then_Inr ok_or_def split: option.splits)
    note ats = manifest_delete_at [OF ok fin *(2) b [unfolded bo]]
    have tags: "set (md_removed_tags out) = {t. map_option tr_digest (tag_at ?lib m r t) = Some d}"
      unfolding *(4) using manifest_tags_iff [OF ok fin] by blast
    have man: "manifest_at ?lib m' q x = (if q = r \<and> x = d then None else manifest_at ?lib m q x)"
      "body_at ?lib m' q x = (if q = r \<and> x = d then None else body_at ?lib m q x)" for q x
      by (simp_all add: manifest_at_def body_at_def ats)
    have tag: "tag_at ?lib m' q t = (if q = r \<and> t \<in> set (md_removed_tags out) then None else tag_at ?lib m q t)" for q t
      unfolding tags mem_Collect_eq by (auto simp: tag_at_def ats(5))
    have hist: "m' (tag_history_key q u a x) = (if q = r \<and> u \<in> set (md_removed_tags out) \<and> a = now \<and> x = d
        then Some (stored_as (lb_event ?lib) (deleted_event (Some rec))) else m (tag_history_key q u a x))" if "nul_free u" for q u a x
      unfolding b bo *(4) by (rule manifest_delete_history [OF e fin that])
    have other: "m' (h # k) = m (h # k)" if "h \<notin> {0x4D, 0x5A, 0x52, 0x53, 0x47, 0x46, 0x54, 0x48, 0x4A}" for h k
      unfolding b bo by (rule ranged_untouched [OF manifest_delete_ranged that])
    show ?thesis
      unfolding Inr sum.case using m' *(1-3) tags man tag ats(3,4,6) ats(7,8) [folded *(4)] hist other
      by (intro exI [of _ m'] conjI exI [of _ r] exI [of _ rec] allI impI) simp_all
  qed
qed

theorem delete_manifest_correct_witness:
  "\<exists>s'. delete_manifest demo_registry ''a'' demo_digest (Timestamp 0) demo_state
     = (Inr \<lparr> md_digest = demo_digest, md_removed_tags = [] \<rparr>, s')"
proof -
  obtain res s' where run: "delete_manifest demo_registry ''a'' demo_digest (Timestamp 0) demo_state = (res, s')"
    by fastforce
  have lib: "rg_libs demo_registry = demo_libs" by (simp add: demo_registry_def)
  from delete_manifest_correct [OF dr.registry_env_axioms at_store_demo run] run show ?thesis
    by (cases res) (auto simp: lib engine_error_def intro!: manifest_deleted.equality)
qed

text \<open>
  Dropping a blob's membership of a repository makes it unservable there at once: both the membership and every edge
  from the repository's manifests go, with purge's mark. No other blob and no other repository changes, and the
  record of the content stays. It fails, changing nothing, exactly when the repository is unknown or
  does not hold the blob, or when the engine fails.
\<close>

theorem delete_blob_reference_correct:
  assumes env: "registry_env G tbl ok fails names ids" and at: "at_store tbl ok names ids (rg_libs G) m s"
    and run: "delete_blob_reference G repo d s = (res, s')"
  shows "\<exists>m'. at_store tbl ok names ids (rg_libs G) m' s' \<and> (case res of
      Inl e \<Rightarrow> m' = m \<and> (e = NameUnknown repo \<and> id_of m repo = None
        \<or> e = BlobUnknown repo d \<and> (\<exists>r. id_of m repo = Some r \<and> \<not> servable m r d) \<or> engine_error fails e)
    | Inr out \<Rightarrow> (\<exists>r. id_of m repo = Some r \<and> servable m r d \<and> bx_digest out = d
        \<and> (bx_was_member out \<longleftrightarrow> m (repo_blob_key r d) \<noteq> None)
        \<and> bx_references_removed out = card {md. m (blob_ref_key d r md) \<noteq> None}
        \<and> (\<forall>q b. servable m' q b \<longleftrightarrow> servable m q b \<and> \<not> (q = r \<and> b = d))
        \<and> (\<forall>b q e. m' (blob_ref_key b q e) = (if b = d \<and> q = r then None else m (blob_ref_key b q e)))
        \<and> (\<forall>q b. m' (repo_blob_key q b) = (if q = r \<and> b = d then None else m (repo_blob_key q b)))
        \<and> (\<forall>b. m' (blob_mark_key b) = (if b = d then None else m (blob_mark_key b)))
        \<and> (\<forall>h k. h \<notin> {0x52, 0x50, 0x43} \<longrightarrow> m' (h # k) = m (h # k))))"
proof -
  let ?lib = "rg_libs G"
  note c = commits_run [OF registry_env.commits_delete_blob_reference [OF env] at run]
  have fin: "finite (dom m)" and e: "entries_ok ?lib m"
    using registry_env.holds_finite [OF env at] at by (simp_all add: at_store_def store_ok_def)
  show ?thesis
  proof (cases res)
    case (Inl e)
    with c have "at_store tbl ok names ids ?lib m s'" "blob_ref_delete_spec repo d m = Inl e \<or> engine_error fails e"
      by (auto simp: and_then_def split: sum.splits)
    with Inl show ?thesis
      by (intro exI [of _ m]) (auto simp: blob_ref_delete_spec_def and_then_def ok_or_def split: sum.splits option.splits if_splits)
  next
    case (Inr out)
    with c obtain m' b where m': "at_store tbl ok names ids ?lib m' s'"
      and spec: "blob_ref_delete_spec repo d m = Inr (out, b)" and b: "m' = apply_ops b m"
      by (auto simp: and_then_Inr)
    obtain r where *: "id_of m repo = Some r" "servable m r d" "b = blob_ref_delete_ops m r d"
      and out: "out = \<lparr> bx_digest = d, bx_was_member = (m (repo_blob_key r d) \<noteq> None),
        bx_references_removed = length (keys_under m (blob_refs_in_repo d r)) \<rparr>"
      using spec by (auto simp: blob_ref_delete_spec_def and_then_Inr ok_or_def split: option.splits if_splits)
    note ats = blob_ref_delete_at [OF fin b [unfolded *(3)]]
    have keys: "set (keys_under m (blob_refs_in_repo d r)) = (\<lambda>md. blob_ref_key d r md) ` {md. m (blob_ref_key d r md) \<noteq> None}"
    proof (intro set_eqI iffI)
      fix k assume "k \<in> set (keys_under m (blob_refs_in_repo d r))"
      then have k: "m k \<noteq> None" "prefix (blob_refs_in_repo d r) k" by (simp_all add: set_keys_under [OF fin])
      obtain sk where sk: "k = encode_key sk" "wf_key sk" using entries_ok_key [OF e k(1)] by metis
      with k prefix_keys(1) [OF sk(2), of d r] show "k \<in> (\<lambda>md. blob_ref_key d r md) ` {md. m (blob_ref_key d r md) \<noteq> None}"
        by auto
    qed (auto simp: set_keys_under [OF fin] data_keys scan_prefixes)
    have "distinct (keys_under m (blob_refs_in_repo d r))"
      using sorted_scan_list [of m _ None] by (simp add: keys_under_def strict_sorted_iff)
    moreover have "card ((\<lambda>md. blob_ref_key d r md) ` {md. m (blob_ref_key d r md) \<noteq> None}) = card {md. m (blob_ref_key d r md) \<noteq> None}"
      by (rule card_image) (auto simp: inj_on_def data_keys key_codes)
    ultimately have "length (keys_under m (blob_refs_in_repo d r)) = card {md. m (blob_ref_key d r md) \<noteq> None}"
      using distinct_card keys by metis
    moreover have "servable m' q x \<longleftrightarrow> servable m q x \<and> \<not> (q = r \<and> x = d)" for q x
      unfolding servable_def ats by auto
    ultimately show ?thesis
      unfolding Inr sum.case using m' *(1,2) out ats
      by (intro exI [of _ m'] conjI exI [of _ r] allI impI) simp_all
  qed
qed

theorem delete_blob_reference_correct_witness:
  "\<exists>s'. delete_blob_reference demo_registry ''a'' demo_digest demo_state = (Inl (BlobUnknown ''a'' demo_digest), s')"
proof -
  obtain res s' where run: "delete_blob_reference demo_registry ''a'' demo_digest demo_state = (res, s')"
    by fastforce
  have "\<not> servable demo_store 0 demo_digest"
    by (auto simp: servable_def demo_store_def one_repo_def key_defs)
  with delete_blob_reference_correct [OF dr.registry_env_axioms at_store_demo run] run show ?thesis
    by (cases res) (auto simp: engine_error_def)
qed

text \<open>
  C21. Dropping a repository releases its name in both directions and records the sweep that is left to do, and nothing
  else; the cache forgets the name too, so a later push of the same name is given a new id and never sees the
  old repository's keys. The id was in use, so it is below the allocation counter, which stays.
\<close>

theorem delete_repository_correct:
  assumes env: "registry_env G tbl ok fails names ids" and at: "at_store tbl ok names ids (rg_libs G) m s"
    and run: "delete_repository G repo now s = (res, s')"
  shows "\<exists>m'. at_store tbl ok names ids (rg_libs G) m' s' \<and> (case res of
      Inl e \<Rightarrow> m' = m \<and> (e = NameUnknown repo \<and> id_of m repo = None \<or> engine_error fails e)
    | Inr out \<Rightarrow> rt_name out = repo \<and> id_of m repo = Some (rt_id out)
        \<and> (\<forall>n. id_of m' n = (if n = repo then None else id_of m n))
        \<and> m' (dead_repo_key (rt_id out)) \<noteq> None
        \<and> next_of m' = next_of m \<and> (\<exists>nx. next_of m = Some nx \<and> rt_id out < nx)
        \<and> (\<forall>q. q \<noteq> rt_id out \<longrightarrow> m' (dead_repo_key q) = m (dead_repo_key q))
        \<and> (\<forall>h k. h \<notin> {0x6E, 0x69, 0x44} \<longrightarrow> m' (h # k) = m (h # k)))"
proof -
  let ?lib = "rg_libs G"
  note c = commits_run [OF registry_env.commits_delete_repository [OF env] at run]
  show ?thesis
  proof (cases res)
    case (Inl e)
    with c show ?thesis
      by (intro exI [of _ m]) (auto simp: tombstone_spec_def and_then_def ok_or_def split: sum.splits option.splits)
  next
    case (Inr out)
    with c obtain r where m': "at_store tbl ok names ids ?lib (tombstone ?lib m repo r now) s'"
      and r: "id_of m repo = Some r" and out: "out = \<lparr> rt_id = r, rt_name = repo \<rparr>"
      by (auto simp: tombstone_spec_def and_then_Inr ok_or_def split: option.splits)
    let ?m = "tombstone ?lib m repo r now"
    have n: "names_ok m" using at by (auto simp: at_store_def interner_ok_def)
    from r obtain raw_id where raw_id: "m (repo_by_name repo) = Some raw_id"
      by (auto simp: id_of_def bind_eq_Some_conv)
    obtain nx q where nx: "next_of m = Some nx" "raw_id = to_be_bytes q" "q < nx"
      using n raw_id unfolding names_ok_def by blast
    with r raw_id have q: "q = r" by (simp add: id_of_def)
    have r': "r \<noteq> NEXT_ID_KEY_ID" using names_ok_id_of [OF n raw_id] r by auto
    have "id_of ?m x = (if x = repo then None else id_of m x)" for x
      by (simp add: id_of_def tombstone_names drop_name_def)
    moreover have "next_of ?m = next_of m"
      using r' by (simp add: next_of_def tombstone_names drop_name_def)
    ultimately show ?thesis
      unfolding Inr sum.case using m' r out nx q tombstone_data
      by (intro exI [of _ ?m] conjI allI impI) (simp_all add: tombstone_def drop_name_def data_keys)
  qed
qed

theorem delete_repository_correct_witness:
  "\<exists>s'. delete_repository demo_registry ''a'' (Timestamp 0) demo_state = (Inr \<lparr> rt_id = 0, rt_name = ''a'' \<rparr>, s')"
proof -
  obtain res s' where run: "delete_repository demo_registry ''a'' (Timestamp 0) demo_state = (res, s')"
    by fastforce
  from delete_repository_correct [OF dr.registry_env_axioms at_store_demo run] run show ?thesis
    by (cases res) (auto simp: engine_error_def intro!: repo_tombstoned.equality)
qed

end
