(* ===== verification/Summ_Sweep.thy ===== *)
theory Summ_Sweep
  imports Summ_Delete
begin

text \<open>
  The sweep of dropped repositories: the steps of \<open>summ-registry/src/delete.rs\<close> and the loops of
  \<open>summ-server/src/backend.rs\<close> that drive them to the end, for one repository and for all of them.
\<close>

section \<open>The sweeper\<close>

definition SWEEP_STEP :: nat where "SWEEP_STEP = 500"
definition SWEEP_BATCH :: nat where "SWEEP_BATCH = 32"

partial_function (option) sweep_from ::
    "('s, 'c) registry \<Rightarrow> repo_id \<Rightarrow> bytes option \<Rightarrow> nat \<Rightarrow> ('s, 'c) rstate \<Rightarrow>
     ((registry_error + nat) \<times> ('s, 'c) rstate) option" where
  "sweep_from G rid cursor manifests s =
     (case sweep_repo_refs G rid cursor SWEEP_STEP s of
        (Inl e, s') \<Rightarrow> Some (Inl e, s')
      | (Inr step, s') \<Rightarrow>
          (case ss_next step of
             Some next \<Rightarrow> sweep_from G rid (Some next) (manifests + ss_manifests step) s'
           | None \<Rightarrow> Some (Inr (manifests + ss_manifests step), s')))"

definition sweep_one :: "('s, 'c) registry \<Rightarrow> repo_id \<Rightarrow> ('s, 'c, nat) op" where
  "sweep_one G rid =
     bind_a (loop_a (sweep_from G rid None 0)) (\<lambda>manifests.
     bind_a (finish_repo_sweep G rid) (\<lambda>_. return_a manifests))"

partial_function (option) sweep_all_from ::
    "('s, 'c) registry \<Rightarrow> nat \<Rightarrow> ('s, 'c) rstate \<Rightarrow> ((registry_error + nat) \<times> ('s, 'c) rstate) option" where
  "sweep_all_from G swept s =
     (case list_dead_repos G None SWEEP_BATCH s of
        (Inl e, s') \<Rightarrow> Some (Inl e, s')
      | (Inr dead, s') \<Rightarrow>
          if dead = [] then Some (Inr swept, s')
          else (case for_a dead swept (\<lambda>repo swept. bind_a (sweep_one G (dx_id repo)) (\<lambda>_. return_a (swept + 1))) s' of
                  (Inl e, s'') \<Rightarrow> Some (Inl e, s'')
                | (Inr swept', s'') \<Rightarrow> sweep_all_from G swept' s''))"

definition sweep_dead_repos :: "('s, 'c) registry \<Rightarrow> ('s, 'c, nat) op" where
  "sweep_dead_repos G = loop_a (sweep_all_from G 0)"

section \<open>Which repository a key belongs to\<close>

fun key_owner :: "store_key \<Rightarrow> repo_id option" where
  "key_owner (KManifest r d) = Some r"
| "key_owner (KManifestBody r d) = Some r"
| "key_owner (KTag r t) = Some r"
| "key_owner (KManifestTag r d t) = Some r"
| "key_owner (KBlobRef b r d) = Some r"
| "key_owner (KRepoBlob r b) = Some r"
| "key_owner (KChildParent r c p) = Some r"
| "key_owner (KReferrer r s d) = Some r"
| "key_owner (KTagHistory r t at d) = Some r"
| "key_owner (KManifestTagHistory r d at t) = Some r"
| "key_owner (KCounterManifest r d day shard) = Some r"
| "key_owner (KCounterTag r t day shard) = Some r"
| "key_owner (KCounterRepo r day shard) = Some r"
| "key_owner (KDeadRepo r) = Some r"
| "key_owner _ = None"

definition is_edge :: "repo_id \<Rightarrow> bytes \<Rightarrow> bool" where
  "is_edge r k \<longleftrightarrow> (\<exists>b e. k = blob_ref_key b r e)"

lemma sweep_finish_at:
  assumes "wf_key sk"
  shows "apply_ops (plan_repo_sweep_finish r) m (encode_key sk) =
    (if key_owner sk = Some r \<and> \<not> is_edge r (encode_key sk) then None else m (encode_key sk))"
  using assms
  by (cases sk) (auto simp: plan_repo_sweep_finish_def batch_delete_def batch_delete_prefix_def batch_new_def
      is_edge_def SCOPE_MANIFEST_def SCOPE_TAG_def SCOPE_REPO_def key_defs key_codes)

section \<open>One step of a sweep\<close>

text \<open>The edges that one page of manifest records names.\<close>

definition page_edges :: "libs \<Rightarrow> repo_id \<Rightarrow> entry list \<Rightarrow> bytes list" where
  "page_edges lib r es = concat (map (\<lambda>(k, v).
     case co_dec (lb_manifest lib) v of
       None \<Rightarrow> []
     | Some rec \<Rightarrow> map (\<lambda>b. blob_ref_key b r (mr_digest rec)) (mr_layers rec)) es)"

text \<open>A store without the edges from the manifests of \<open>r\<close> up to a cursor, and without any edge of \<open>r\<close>.\<close>

definition swept_to :: "store \<Rightarrow> repo_id \<Rightarrow> bytes option \<Rightarrow> store" where
  "swept_to m r a = (\<lambda>k. if \<exists>b e. k = blob_ref_key b r e \<and> \<not> after a (manifest_key r e) then None else m k)"

definition edges_gone :: "store \<Rightarrow> repo_id \<Rightarrow> store" where
  "edges_gone m r = (\<lambda>k. if is_edge r k then None else m k)"

lemma swept_to_start [simp]: "swept_to m r None = m"
  by (simp add: swept_to_def after_def)

lemma blob_ref_key_inject [simp]: "blob_ref_key b r e = blob_ref_key b' r' e' \<longleftrightarrow> b = b' \<and> r = r' \<and> e = e'"
  by (auto simp: data_keys key_codes)

lemma swept_to_data: "h \<noteq> 0x52 \<Longrightarrow> swept_to m r a (h # k) = m (h # k)"
  by (auto simp: swept_to_def data_keys)

text \<open>Losing edges from blobs to manifests keeps a store consistent.\<close>

lemma store_ok_fewer_edges:
  assumes ok: "store_ok lib m" and less: "\<And>k. m' k = m k \<or> m' k = None" and data: "\<And>h k. h \<noteq> 0x52 \<Longrightarrow> m' (h # k) = m (h # k)"
  shows "store_ok lib m'"
proof -
  have "entries_ok lib m'" using ok less unfolding store_ok_def entries_ok_def by (metis option.distinct(1))
  moreover have "tags_ok lib m'" "bodies_ok lib m'"
    using ok unfolding store_ok_def by (auto elim!: tags_ok_cong bodies_ok_cong simp: data_keys data)
  moreover have "edges_ok lib m'"
  proof -
    have "manifest_at lib m' q e = manifest_at lib m q e" "m' (blob_key b) = m (blob_key b)"
      "m' (child_parent_key q c p) = m (child_parent_key q c p)" for q e b c p
      by (simp_all add: manifest_at_def data_keys data)
    moreover have "m (blob_ref_key b q e) \<noteq> None" if "m' (blob_ref_key b q e) \<noteq> None" for b q e
      using that less by metis
    ultimately show ?thesis using ok unfolding store_ok_def edges_ok_def by metis
  qed
  ultimately show ?thesis by (simp add: store_ok_def)
qed

lemma page_edges_mem:
  assumes ok: "store_ok lib m" and es: "set es \<subseteq> {(k, v). m k = Some v \<and> prefix (manifests_in_repo r) k}"
  shows "k \<in> set (page_edges lib r es) \<longleftrightarrow>
    (\<exists>b e rec. k = blob_ref_key b r e \<and> manifest_at lib m r e = Some rec \<and> b \<in> set (mr_layers rec)
       \<and> manifest_key r e \<in> fst ` set es)"
proof
  have e: "entries_ok lib m" using ok by (simp add: store_ok_def)
  have key: "\<exists>d. k = manifest_key r d" if "(k, v) \<in> set es" for k v
  proof -
    from that es have k: "m k \<noteq> None" "prefix (manifests_in_repo r) k" by auto
    obtain sk where sk: "k = encode_key sk" "wf_key sk" using entries_ok_key [OF e k(1)] by metis
    with k prefix_keys(8) [OF sk(2), of r] show ?thesis by auto
  qed
  {
    assume "k \<in> set (page_edges lib r es)"
    then obtain k' v rec b where *: "(k', v) \<in> set es" "co_dec (lb_manifest lib) v = Some rec" "b \<in> set (mr_layers rec)"
      "k = blob_ref_key b r (mr_digest rec)" by (auto simp: page_edges_def split: option.splits dest!: sym [of "Some _"])
    obtain d where d: "k' = manifest_key r d" using key [OF *(1)] by blast
    with * es have at: "manifest_at lib m r d = Some rec" by (auto simp: manifest_at_def)
    with manifest_at_id(2) [OF e at] * d show "\<exists>b e rec. k = blob_ref_key b r e \<and> manifest_at lib m r e = Some rec
        \<and> b \<in> set (mr_layers rec) \<and> manifest_key r e \<in> fst ` set es" by force
  }
  assume "\<exists>b e rec. k = blob_ref_key b r e \<and> manifest_at lib m r e = Some rec \<and> b \<in> set (mr_layers rec)
       \<and> manifest_key r e \<in> fst ` set es"
  then obtain b x rec v where *: "k = blob_ref_key b r x" "manifest_at lib m r x = Some rec" "b \<in> set (mr_layers rec)"
    "(manifest_key r x, v) \<in> set es" by auto
  with es have "co_dec (lb_manifest lib) v = Some rec" by (auto simp: manifest_at_def)
  with * manifest_at_id(2) [OF e *(2)] show "k \<in> set (page_edges lib r es)"
    by (force simp: page_edges_def)
qed

lemma sweep_step_store:
  assumes ok: "store_ok lib m" and fin: "finite (dom m)" and n: "0 < n"
    and page_def: "page = scan_page m (manifests_in_repo r) a n"
  shows "apply_ops (map Delete (page_edges lib r (pg_entries page))) (swept_to m r a) =
    (case pg_next page of Some c \<Rightarrow> swept_to m r (Some c) | None \<Rightarrow> edges_gone m r)"
proof (rule ext)
  fix k
  let ?p = "manifests_in_repo r" and ?es = "pg_entries page"
  have all: "scan_list m ?p a = ?es @ (case pg_next page of Some c \<Rightarrow> scan_list m ?p (Some c) | None \<Rightarrow> [])"
    unfolding page_def by (rule pages_exhaust [OF n])
  have es: "set ?es \<subseteq> {(k, v). m k = Some v \<and> prefix ?p k}"
    using all set_scan_list [OF fin, of ?p a] by (auto split: option.splits)
  note del = apply_deletes page_edges_mem [OF ok es]
  show "apply_ops (map Delete (page_edges lib r ?es)) (swept_to m r a) k =
    (case pg_next page of Some c \<Rightarrow> swept_to m r (Some c) | None \<Rightarrow> edges_gone m r) k"
  proof (cases "is_edge r k \<and> m k \<noteq> None")
    case False
    then show ?thesis
      by (auto simp: del swept_to_def edges_gone_def is_edge_def split: option.split)
  next
    case True
    then obtain b e where k: "k = blob_ref_key b r e" by (auto simp: is_edge_def)
    with True ok obtain rec where rec: "manifest_at lib m r e = Some rec" "b \<in> set (mr_layers rec)"
      unfolding store_ok_def edges_ok_def by blast
    have stored: "m (manifest_key r e) \<noteq> None" using rec(1) by (auto simp: manifest_at_def bind_eq_Some_conv)
    have at: "manifest_key r e \<in> fst ` set (scan_list m ?p c) \<longleftrightarrow> after c (manifest_key r e)" for c
      using stored by (force simp: set_scan_list [OF fin] data_keys scan_prefixes)
    have lhs: "apply_ops (map Delete (page_edges lib r ?es)) (swept_to m r a) k =
        (if manifest_key r e \<in> fst ` set ?es \<or> \<not> after a (manifest_key r e) then None else m k)"
      using rec by (auto simp: del k swept_to_def)
    show ?thesis
    proof (cases "pg_next page")
      case None
      with all at [of a] lhs k show ?thesis by (auto simp: edges_gone_def is_edge_def)
    next
      case (Some c)
      have "distinct (map fst (scan_list m ?p a))"
        using sorted_scan_list [of m ?p a] by (simp add: strict_sorted_iff)
      then have "fst ` set ?es \<inter> fst ` set (scan_list m ?p (Some c)) = {}"
        using all Some by simp
      then have "manifest_key r e \<in> fst ` set ?es \<or> \<not> after a (manifest_key r e) \<longleftrightarrow> \<not> after (Some c) (manifest_key r e)"
        using all Some at [of a] at [of "Some c"] by auto
      with lhs k Some show ?thesis by (simp add: swept_to_def)
    qed
  qed
qed

section \<open>Sweeping one repository\<close>

lemma scan_list_cong:
  assumes "finite (dom m)" "finite (dom m')" and "\<And>k. prefix p k \<Longrightarrow> m' k = m k"
  shows "scan_list m' p a = scan_list m p a"
  by (rule sorted_entries_unique [OF sorted_scan_list sorted_scan_list])
    (use assms in \<open>auto simp: set_scan_list\<close>)

lemma scan_page_mem:
  "finite (dom m) \<Longrightarrow> (k, v) \<in> set (pg_entries (scan_page m p a n)) \<Longrightarrow> m k = Some v \<and> prefix p k \<and> after a k"
  using set_scan_list [of m p a] by (auto simp: scan_page_def page_of_def dest: in_set_takeD)

lemma ends_weaken:
  "ends body Q X s \<Longrightarrow> (\<And>a t. Q a t \<Longrightarrow> Q' a t) \<Longrightarrow> (\<And>e t. X e t \<Longrightarrow> X' e t) \<Longrightarrow> ends body Q' X' s"
  by (auto simp: ends_def)

lemma under_None [simp]: "under p None"
  by (simp add: under_def)

lemma sweep_repo_refs_planned:
  "sweep_repo_refs G r cursor limit = applied G
     (bind_a (rg_scan G (manifests_in_repo r) cursor limit) (\<lambda>page.
      bind_a (for_a (pg_entries page) batch_new (\<lambda>(_, raw_bytes) batch.
        bind_a (lift_a (decode (lb_manifest (rg_libs G)) raw_bytes ''ManifestRecord'')) (\<lambda>record.
          return_a (fold (\<lambda>blob. batch_delete (blob_ref_key blob r (mr_digest record))) (mr_layers record) batch))))
      (\<lambda>batch. return_a (\<lparr> ss_manifests = length (pg_entries page), ss_next = pg_next page \<rparr>, batch))))"
  unfolding sweep_repo_refs_def applied_def
  by (rule ext) (simp add: bind_a_def return_a_def split: prod.split sum.split)

lemma refines_pair_arg:
  assumes "\<And>a b. refines at fails (k a b c) (g a b)"
  shows "refines at fails ((case v of (a, b) \<Rightarrow> k a b) c) (\<lambda>m. case v of (a, b) \<Rightarrow> g a b m)"
  using assms by (cases v) auto

lemma edges_ranged: "ranged {0x52} (map Delete (page_edges lib r es))"
  by (auto simp: ranged_def point_op_def page_edges_def data_keys split: option.splits)

context registry_env
begin

lemma refines_scan_in:
  "resumable p \<Longrightarrow> under p a \<Longrightarrow> refines holds may_fail (rg_scan G p a n) (\<lambda>m. Inr (scan_page m p a n))"
  by (rule refines_scan) (auto simp: grouped_def under_def resumable_def split: option.splits)

lemma commits_sweep_repo_refs:
  assumes "under (manifests_in_repo r) cursor"
  shows "commits holds may_fail (sweep_repo_refs G r cursor limit) (\<lambda>m.
    let page = scan_page m (manifests_in_repo r) cursor limit in
    Inr (\<lparr> ss_manifests = length (pg_entries page), ss_next = pg_next page \<rparr>,
         apply_ops (map Delete (page_edges (rg_libs G) r (pg_entries page))) m))"
proof -
  let ?lib = "rg_libs G" and ?p = "manifests_in_repo r"
  let ?P = "\<lambda>m. let page = scan_page m ?p cursor limit in
      Inr (\<lparr> ss_manifests = length (pg_entries page), ss_next = pg_next page \<rparr>, map Delete (page_edges ?lib r (pg_entries page)))"
  let ?step = "\<lambda>(_ :: bytes, raw_bytes) batch. and_then (decode (lb_manifest ?lib) raw_bytes ''ManifestRecord'') (\<lambda>record.
      Inr (fold (\<lambda>blob. batch_delete (blob_ref_key blob r (mr_digest record))) (mr_layers record) batch))"
  have loop: "for_r es b ?step = Inr (b @ map Delete (page_edges ?lib r es))"
    if "\<forall>(k, v) \<in> set es. co_dec (lb_manifest ?lib) v \<noteq> None" for es b
    using that
    by (induction es arbitrary: b) (auto simp: page_edges_def decode_def fold_batch_delete comp_def split: option.splits)
  have "refines holds may_fail
     (bind_a (rg_scan G ?p cursor limit) (\<lambda>page.
      bind_a (for_a (pg_entries page) batch_new (\<lambda>(_, raw_bytes) batch.
        bind_a (lift_a (decode (lb_manifest ?lib) raw_bytes ''ManifestRecord'')) (\<lambda>record.
          return_a (fold (\<lambda>blob. batch_delete (blob_ref_key blob r (mr_digest record))) (mr_layers record) batch))))
      (\<lambda>batch. return_a (\<lparr> ss_manifests = length (pg_entries page), ss_next = pg_next page \<rparr>, batch)))) ?P"
  proof (rule refines_cong, (rule refines_for refines_pair_arg refines_intros refines_scan_in [OF resumable_ranges(4) assms])+)
    fix m s assume h: "holds m s"
    have dec: "co_dec (lb_manifest ?lib) v \<noteq> None" if "(k, v) \<in> set (pg_entries (scan_page m ?p cursor limit))" for k v
    proof -
      have kv: "m k = Some v" "prefix ?p k" using scan_page_mem [OF holds_finite [OF h] that] by simp_all
      obtain sk where sk: "k = encode_key sk" "wf_key sk"
        using entries_ok_key [OF holdsD(5) [OF h]] kv(1) by (metis option.distinct(1))
      with kv prefix_keys(8) [OF sk(2), of r] obtain d where "k = manifest_key r d" by auto
      with entries_okD [OF holdsD(5) [OF h] kv(1)] show ?thesis by (auto split: option.splits)
    qed
    then have "for_r (pg_entries (scan_page m ?p cursor limit)) [] ?step
        = Inr ([] @ map Delete (page_edges ?lib r (pg_entries (scan_page m ?p cursor limit))))" by (intro loop) blast
    then show "and_then (Inr (scan_page m ?p cursor limit)) (\<lambda>page.
        and_then (for_r (pg_entries page) batch_new (\<lambda>x acc. case x of (_, raw_bytes) \<Rightarrow>
          and_then (decode (lb_manifest ?lib) raw_bytes ''ManifestRecord'') (\<lambda>record.
            Inr (fold (\<lambda>blob. batch_delete (blob_ref_key blob r (mr_digest record))) (mr_layers record) acc))))
        (\<lambda>batch. Inr (\<lparr> ss_manifests = length (pg_entries page), ss_next = pg_next page \<rparr>, batch))) = ?P m"
      by (simp add: batch_new_def split_def Let_def)
  qed
  then have "commits holds may_fail (sweep_repo_refs G r cursor limit)
      (\<lambda>m. and_then (?P m) (\<lambda>(a, b). Inr (a, apply_ops b m)))"
    unfolding sweep_repo_refs_planned
  proof (rule commits_planned)
    fix m a b assume ok: "store_ok ?lib m" and "?P m = Inr (a, b)"
    then obtain es where b: "b = map Delete (page_edges ?lib r es)" by (auto simp: Let_def)
    have "apply_ops b m k = m k \<or> apply_ops b m k = None" for k unfolding b apply_deletes by simp
    moreover have "apply_ops b m (h # k) = m (h # k)" if "h \<noteq> 0x52" for h k
      unfolding b by (rule ranged_untouched [OF edges_ranged]) (use that in simp)
    ultimately have "store_ok ?lib (apply_ops b m)" by (intro store_ok_fewer_edges [OF ok]) auto
    then show "bounded_batch b \<and> nameless b \<and> store_ok ?lib (apply_ops b m)"
      using ranged_bounded [OF edges_ranged] ranged_nameless [OF edges_ranged] by (simp add: b)
  qed
  then show ?thesis by (simp add: Let_def)
qed

lemma commits_wp:
  assumes "commits holds may_fail oper f" and "holds m s"
    and "\<And>a m' s'. f m = Inr (a, m') \<Longrightarrow> holds m' s' \<Longrightarrow> Q a s'"
    and "\<And>e s'. holds m s' \<Longrightarrow> f m = Inl e \<or> engine_error may_fail e \<Longrightarrow> X e s'"
  shows "wp oper Q X s"
proof -
  have "wp oper (\<lambda>a s'. \<exists>m'. f m = Inr (a, m') \<and> holds m' s')
      (\<lambda>e s'. holds m s' \<and> (f m = Inl e \<or> engine_error may_fail e)) s"
    using assms(1,2) by (simp add: commits_def)
  then show ?thesis by (rule wp_weaken) (use assms(3,4) in auto)
qed

lemma ends_sweep_from:
  assumes "wp (sweep_repo_refs G r cursor SWEEP_STEP) (\<lambda>step s'.
      case ss_next step of
        Some next \<Rightarrow> ends (sweep_from G r (Some next) (n + ss_manifests step)) Q X s'
      | None \<Rightarrow> Q (n + ss_manifests step) s') X s"
  shows "ends (sweep_from G r cursor n) Q X s"
  using assms unfolding ends_def sweep_from.simps [of G r cursor n s]
  by (auto simp: wp_def split: prod.splits sum.splits option.splits)

lemma wp_sweep_from:
  assumes ok: "store_ok (rg_libs G) m" and fin: "finite (dom m)"
    and "holds (swept_to m r cursor) s" and "under (manifests_in_repo r) cursor"
  shows "ends (sweep_from G r cursor n)
    (\<lambda>k s'. holds (edges_gone m r) s' \<and> k = n + length (scan_list m (manifests_in_repo r) cursor))
    (\<lambda>e s'. engine_error may_fail e \<and> (\<exists>a. holds (swept_to m r a) s')) s"
  using assms(3,4)
proof (induction "length (scan_list m (manifests_in_repo r) cursor)" arbitrary: cursor n s rule: less_induct)
  case less
  let ?p = "manifests_in_repo r" and ?lib = "rg_libs G"
  let ?page = "scan_page m ?p cursor SWEEP_STEP"
  have pos: "0 < SWEEP_STEP" by (simp add: SWEEP_STEP_def)
  have "scan_list (swept_to m r cursor) ?p cursor = scan_list m ?p cursor"
    by (rule scan_list_cong [OF fin holds_finite [OF less.prems(1)]])
      (auto simp: swept_to_def data_keys scan_prefixes prefix_def)
  then have page: "scan_page (swept_to m r cursor) ?p cursor SWEEP_STEP = ?page"
    by (simp add: scan_page_def)
  note step = sweep_step_store [OF ok fin pos refl, of r cursor]
  have len: "length (scan_list m ?p cursor) = length (pg_entries ?page) +
      (case pg_next ?page of Some c \<Rightarrow> length (scan_list m ?p (Some c)) | None \<Rightarrow> 0)"
    by (subst pages_exhaust [OF pos]) (simp split: option.split)
  have again: "ends (sweep_from G r (Some c) (n + length (pg_entries ?page)))
      (\<lambda>k s'. holds (edges_gone m r) s' \<and> k = n + length (scan_list m ?p cursor))
      (\<lambda>e s'. engine_error may_fail e \<and> (\<exists>a. holds (swept_to m r a) s')) t"
    if "pg_next ?page = Some c" "holds (swept_to m r (Some c)) t" for c t
  proof -
    note c = scan_list_next [OF that(1)]
    have shorter: "length (scan_list m ?p (Some c)) < length (scan_list m ?p cursor)" using c pos by simp
    have "under ?p (Some c)" using c by (simp add: under_def)
    from less.hyps [OF shorter that(2) this, of "n + length (pg_entries ?page)"]
    have "ends (sweep_from G r (Some c) (n + length (pg_entries ?page)))
      (\<lambda>k s'. holds (edges_gone m r) s' \<and> k = (n + length (pg_entries ?page)) + length (scan_list m ?p (Some c)))
      (\<lambda>e s'. engine_error may_fail e \<and> (\<exists>a. holds (swept_to m r a) s')) t" .
    moreover have "(n + length (pg_entries ?page)) + length (scan_list m ?p (Some c)) = n + length (scan_list m ?p cursor)"
      using len that(1) by simp
    ultimately show ?thesis by (simp only:)
  qed
  show ?case
  proof (rule ends_sweep_from, rule commits_wp [OF commits_sweep_repo_refs [OF less.prems(2)] less.prems(1)],
      unfold Let_def page)
    fix out m' t assume "Inr (\<lparr> ss_manifests = length (pg_entries ?page), ss_next = pg_next ?page \<rparr>,
        apply_ops (map Delete (page_edges ?lib r (pg_entries ?page))) (swept_to m r cursor)) = Inr (out, m')" "holds m' t"
    then have out: "ss_next out = pg_next ?page" "ss_manifests out = length (pg_entries ?page)"
      and h: "holds (case pg_next ?page of Some c \<Rightarrow> swept_to m r (Some c) | None \<Rightarrow> edges_gone m r) t"
      unfolding step by auto
    show "case ss_next out of
        None \<Rightarrow> holds (edges_gone m r) t \<and> n + ss_manifests out = n + length (scan_list m ?p cursor)
      | Some next \<Rightarrow> ends (sweep_from G r (Some next) (n + ss_manifests out))
          (\<lambda>k s'. holds (edges_gone m r) s' \<and> k = n + length (scan_list m ?p cursor))
          (\<lambda>e s'. engine_error may_fail e \<and> (\<exists>a. holds (swept_to m r a) s')) t"
      unfolding out using h len again by (cases "pg_next ?page") simp_all
  qed auto
qed

end

section \<open>The end of a sweep\<close>

definition repo_gone :: "store \<Rightarrow> repo_id \<Rightarrow> store" where
  "repo_gone m r = apply_ops (plan_repo_sweep_finish r) (edges_gone m r)"

lemma repo_gone_at:
  assumes "wf_key sk"
  shows "repo_gone m r (encode_key sk) = (if key_owner sk = Some r then None else m (encode_key sk))"
proof -
  have "key_owner sk = Some r" if edge: "is_edge r (encode_key sk)"
  proof -
    from edge obtain b e where "encode_key sk = encode_key (KBlobRef b r e)" by (auto simp: is_edge_def)
    then have "sk = KBlobRef b r e" using encode_key_inject assms by (metis wf_key.simps)
    then show ?thesis by simp
  qed
  then show ?thesis
    unfolding repo_gone_def sweep_finish_at [OF assms] by (auto simp: edges_gone_def)
qed

lemma repo_gone_keys:
  "repo_gone m r (manifest_key q d) = (if q = r then None else m (manifest_key q d))"
  "repo_gone m r (manifest_body_key q d) = (if q = r then None else m (manifest_body_key q d))"
  "repo_gone m r (tag_key q t) = (if q = r then None else m (tag_key q t))"
  "repo_gone m r (manifest_tag_key q d t) = (if q = r then None else m (manifest_tag_key q d t))"
  "repo_gone m r (blob_ref_key b q d) = (if q = r then None else m (blob_ref_key b q d))"
  "repo_gone m r (child_parent_key q c p) = (if q = r then None else m (child_parent_key q c p))"
  "repo_gone m r (dead_repo_key q) = (if q = r then None else m (dead_repo_key q))"
  "repo_gone m r (blob_key b) = m (blob_key b)"
  using repo_gone_at [of "KManifest q d" m r] repo_gone_at [of "KManifestBody q d" m r] repo_gone_at [of "KTag q t" m r]
    repo_gone_at [of "KManifestTag q d t" m r] repo_gone_at [of "KBlobRef b q d" m r]
    repo_gone_at [of "KChildParent q c p" m r] repo_gone_at [of "KDeadRepo q" m r] repo_gone_at [of "KBlob b" m r]
  by simp_all

lemma finish_deletes: "oper \<in> set (plan_repo_sweep_finish r) \<Longrightarrow> \<exists>h x. oper \<in> {Delete (h # x), DeletePrefix (h # x)} \<and> h \<notin> {0x6E, 0x69, 0xFF}"
  by (auto simp: plan_repo_sweep_finish_def batch_delete_def batch_delete_prefix_def batch_new_def key_defs
      SCOPE_MANIFEST_def SCOPE_TAG_def SCOPE_REPO_def)

lemma store_ok_repo_gone:
  assumes ok: "store_ok lib m"
  shows "store_ok lib (repo_gone m r)"
proof -
  have man: "manifest_at lib (repo_gone m r) q d = (if q = r then None else manifest_at lib m q d)"
    "body_at lib (repo_gone m r) q d = (if q = r then None else body_at lib m q d)"
    "tag_at lib (repo_gone m r) q t = (if q = r then None else tag_at lib m q t)" for q d t
    by (simp_all add: manifest_at_def body_at_def tag_at_def repo_gone_keys)
  have "entries_ok lib (edges_gone m r)"
    using ok by (auto simp: store_ok_def entries_ok_def edges_gone_def)
  then have "entries_ok lib (repo_gone m r)"
    unfolding repo_gone_def by (rule entries_ok_apply) (use finish_deletes in blast)
  moreover have t: "tags_ok lib m" and b: "bodies_ok lib m" and g: "edges_ok lib m" using ok by (simp_all add: store_ok_def)
  have "tags_ok lib (repo_gone m r)"
    using t unfolding tags_ok_def man repo_gone_keys by (simp split: if_split)
  moreover have "bodies_ok lib (repo_gone m r)"
    using b unfolding bodies_ok_def man repo_gone_keys by (auto split: if_splits)
  moreover have "edges_ok lib (repo_gone m r)"
    using g unfolding edges_ok_def man repo_gone_keys by (auto split: if_splits)
  ultimately show ?thesis by (simp add: store_ok_def)
qed

lemma finish_safe: "bounded_batch (plan_repo_sweep_finish r)" "nameless (plan_repo_sweep_finish r)"
proof -
  show "bounded_batch (plan_repo_sweep_finish r)"
    unfolding bounded_batch_def
  proof
    fix oper assume "oper \<in> set (plan_repo_sweep_finish r)"
    from finish_deletes [OF this] show "bounded_op oper" by (auto simp: bounded_op_def)
  qed
  show "nameless (plan_repo_sweep_finish r)"
    unfolding nameless_def
  proof
    fix oper assume "oper \<in> set (plan_repo_sweep_finish r)"
    from finish_deletes [OF this] show "\<forall>n i. \<not> touches oper (repo_by_name n) \<and> \<not> touches oper (repo_by_id i)"
      by (auto simp: data_keys)
  qed
qed

section \<open>Sweeping every dropped repository\<close>

definition dead_ids :: "store \<Rightarrow> repo_id set" where
  "dead_ids m = {r. m (dead_repo_key r) \<noteq> None}"

lemma finite_dead_ids: "finite (dom m) \<Longrightarrow> finite (dead_ids m)"
proof -
  assume "finite (dom m)"
  then have "finite (dead_repo_key -` dom m)" by (rule finite_vimageI) (auto simp: inj_def data_keys)
  then show ?thesis by (rule finite_subset [rotated]) (auto simp: dead_ids_def)
qed

lemma dead_ids_gone: "dead_ids (fold (\<lambda>r m. repo_gone m r) rs m) = dead_ids m - set rs"
  by (induction rs arbitrary: m) (auto simp: dead_ids_def repo_gone_keys)

lemma fold_gone_at:
  assumes "wf_key sk"
  shows "fold (\<lambda>r m. repo_gone m r) rs m (encode_key sk) =
    (if \<exists>r \<in> set rs. key_owner sk = Some r then None else m (encode_key sk))"
  by (induction rs arbitrary: m) (auto simp: repo_gone_at [OF assms])

lemma dead_key:
  assumes "entries_ok lib m" and "m k \<noteq> None" and "prefix dead_repos k"
  shows "\<exists>r. k = dead_repo_key r"
proof -
  obtain sk where sk: "k = encode_key sk" "wf_key sk" using entries_ok_key [OF assms(1,2)] by metis
  with assms(3) show ?thesis by (cases sk) (auto simp: key_defs)
qed

lemma parse_dead_repo_id_key: "parse_dead_repo_id (dead_repo_key r) = Some r"
  by (simp add: parse_dead_repo_id_def data_keys try_array_def)

text \<open>A page of the dead repositories: each once, and none only if there are none.\<close>

lemma dead_page:
  assumes ents: "entries_ok lib m" and fin: "finite (dom m)"
    and rs: "rs = map (\<lambda>e. the (parse_dead_repo_id (fst e))) (pg_entries (scan_page m dead_repos None limit))"
  shows "distinct rs" and "set rs \<subseteq> dead_ids m" and "rs = [] \<Longrightarrow> 0 < limit \<Longrightarrow> dead_ids m = {}"
proof -
  let ?es = "pg_entries (scan_page m dead_repos None limit)" and ?id = "\<lambda>e. the (parse_dead_repo_id (fst e))"
  have mem: "\<exists>r. e = (dead_repo_key r, snd e) \<and> m (dead_repo_key r) \<noteq> None \<and> ?id e = r" if "e \<in> set ?es" for e
  proof -
    obtain k v where e: "e = (k, v)" by fastforce
    from scan_page_mem [OF fin that [unfolded e]] have kv: "m k = Some v" "prefix dead_repos k" by simp_all
    with dead_key [OF ents] obtain r where "k = dead_repo_key r" by blast
    with kv e show ?thesis by (auto simp: parse_dead_repo_id_key)
  qed
  have "distinct (map fst (scan_list m dead_repos None))"
    using sorted_scan_list [of m dead_repos None] by (simp add: strict_sorted_iff)
  then have "distinct ?es"
    by (simp add: scan_page_def page_of_def distinct_map)
  moreover have "inj_on ?id (set ?es)"
  proof (rule inj_onI)
    fix x y assume xy: "x \<in> set ?es" "y \<in> set ?es" "?id x = ?id y"
    then have "fst x = fst y" using mem [OF xy(1)] mem [OF xy(2)] by (metis fst_conv)
    with xy show "x = y" using \<open>distinct (map fst (scan_list m dead_repos None))\<close>
      by (auto simp: distinct_map scan_page_def page_of_def dest!: in_set_takeD dest: inj_onD)
  qed
  ultimately show "distinct rs" unfolding rs by (simp add: distinct_map)
  show "set rs \<subseteq> dead_ids m" unfolding rs using mem by (fastforce simp: dead_ids_def)
  show "dead_ids m = {}" if "rs = []" "0 < limit"
  proof -
    have "scan_list m dead_repos None = []" using that unfolding rs by (simp add: scan_page_def page_of_def)
    then have "\<not> has_prefix m dead_repos" using scan_list_empty [OF fin] by simp
    moreover have "prefix dead_repos (dead_repo_key r)" for r by (simp add: data_keys scan_prefixes)
    ultimately show ?thesis unfolding dead_ids_def has_prefix_def by blast
  qed
qed

text \<open>What a sweep that a failure interrupts may have done: some edges of the repository are gone.\<close>

definition fewer_edges :: "repo_id \<Rightarrow> store \<Rightarrow> store \<Rightarrow> bool" where
  "fewer_edges r m m' \<longleftrightarrow> (\<forall>k. m' k = m k \<or> m' k = None \<and> is_edge r k)"

lemma fewer_edges_sweep: "fewer_edges r m (swept_to m r a)" "fewer_edges r m (edges_gone m r)"
  by (auto simp: fewer_edges_def swept_to_def edges_gone_def is_edge_def)

context registry_env
begin

lemma wp_sweep_one:
  assumes h: "holds m s"
    and ret: "\<And>s'. holds (repo_gone m r) s' \<Longrightarrow> Q (length (scan_list m (manifests_in_repo r) None)) s'"
    and err: "\<And>e m' s'. engine_error may_fail e \<Longrightarrow> holds m' s' \<Longrightarrow> fewer_edges r m m' \<Longrightarrow> X e s'"
  shows "wp (sweep_one G r) Q X s"
  unfolding sweep_one_def wp_bind
proof (rule wp_loop [OF wp_sweep_from, THEN wp_weaken])
  show "store_ok (rg_libs G) m" "finite (dom m)" using h by (simp_all add: holdsD holds_finite)
  show "holds (swept_to m r None) s" "under (manifests_in_repo r) None" using h by (simp_all add: under_def)
  fix k t assume "holds (edges_gone m r) t \<and> k = 0 + length (scan_list m (manifests_in_repo r) None)"
  then show "wp (finish_repo_sweep G r) (\<lambda>_. wp (return_a k) Q X) X t"
    unfolding finish_repo_sweep_def wp_return
    by (intro wp_rg_apply [where m = "edges_gone m r"])
      (use finish_safe ret err fewer_edges_sweep(2) store_ok_repo_gone [OF holdsD(4) [OF h]] in \<open>auto simp: repo_gone_def\<close>)
next
  fix e t assume "engine_error may_fail e \<and> (\<exists>a. holds (swept_to m r a) t)"
  then show "X e t" using err fewer_edges_sweep(1) by blast
qed

lemma refines_list_dead_repos:
  "refines holds may_fail (list_dead_repos G None limit)
     (\<lambda>m. Inr (map (\<lambda>(k, v). \<lparr> dx_id = the (parse_dead_repo_id k),
        dx_name = dr_name (the (co_dec (lb_dead (rg_libs G)) v)),
        dx_dropped_at = dr_dropped_at (the (co_dec (lb_dead (rg_libs G)) v)) \<rparr>)
        (pg_entries (scan_page m dead_repos None limit))))"
  unfolding list_dead_repos_def option.map
proof (rule refines_cong, (rule refines_intros refines_scan_in [OF resumable_ranges(7) under_None])+)
  fix m s assume h: "holds m s"
  let ?lib = "rg_libs G" and ?es = "pg_entries (scan_page m dead_repos None limit)"
  have "dead_repo_entry_of ?lib e = Inr ((\<lambda>(k, v). \<lparr> dx_id = the (parse_dead_repo_id k),
        dx_name = dr_name (the (co_dec (lb_dead ?lib) v)), dx_dropped_at = dr_dropped_at (the (co_dec (lb_dead ?lib) v)) \<rparr>) e)"
    if "e \<in> set ?es" for e
  proof -
    obtain k v where e: "e = (k, v)" by fastforce
    with that have kv: "m k = Some v" "prefix dead_repos k"
      using scan_page_mem [OF holds_finite [OF h]] by blast+
    from dead_key [OF holdsD(5) [OF h]] kv obtain r where r: "k = dead_repo_key r" by blast
    with entries_okD [OF holdsD(5) [OF h] kv(1)] show ?thesis
      by (auto simp: e dead_repo_entry_of_def decode_def parse_dead_repo_id_key)
  qed
  then show "and_then (Inr (scan_page m dead_repos None limit)) (\<lambda>page.
      try_map (dead_repo_entry_of ?lib) (pg_entries page)) =
    Inr (map (\<lambda>(k, v). \<lparr> dx_id = the (parse_dead_repo_id k), dx_name = dr_name (the (co_dec (lb_dead ?lib) v)),
        dx_dropped_at = dr_dropped_at (the (co_dec (lb_dead ?lib) v)) \<rparr>) ?es)"
    by (simp add: try_map_all)
qed

lemma ends_sweep_all:
  assumes "wp (list_dead_repos G None SWEEP_BATCH) (\<lambda>dead s'.
      if dead = [] then Q n s'
      else wp (for_a dead n (\<lambda>repo n. bind_a (sweep_one G (dx_id repo)) (\<lambda>_. return_a (n + 1))))
        (\<lambda>n' t. ends (sweep_all_from G n') Q X t) X s') X s"
  shows "ends (sweep_all_from G n) Q X s"
  using assms unfolding ends_def sweep_all_from.simps [of G n s]
  by (auto simp: wp_def split: prod.splits sum.splits if_splits)

lemma wp_sweep_list:
  assumes h: "holds m s"
    and ret: "\<And>s'. holds (fold (\<lambda>r m. repo_gone m r) (map dx_id dead) m) s' \<Longrightarrow> Q (n + length dead) s'"
    and err: "\<And>e m' s'. engine_error may_fail e \<Longrightarrow> holds m' s' \<Longrightarrow> X e s'"
  shows "wp (for_a dead n (\<lambda>repo n. bind_a (sweep_one G (dx_id repo)) (\<lambda>_. return_a (n + 1)))) Q X s"
proof (rule wp_for_a [where J = "\<lambda>before k t. holds (fold (\<lambda>r m. repo_gone m r) (map dx_id before) m) t \<and> k = n + length before"])
  fix before x rest k t
  assume "holds (fold (\<lambda>r m. repo_gone m r) (map dx_id before) m) t \<and> k = n + length before"
  then show "wp (bind_a (sweep_one G (dx_id x)) (\<lambda>_. return_a (k + 1)))
      (\<lambda>k t. holds (fold (\<lambda>r m. repo_gone m r) (map dx_id (before @ [x])) m) t \<and> k = n + length (before @ [x])) X t"
    unfolding wp_bind wp_return by (intro wp_sweep_one) (use err in auto)
qed (use h ret in auto)

lemma wp_sweep_all:
  assumes "holds m s"
  shows "ends (sweep_all_from G n)
    (\<lambda>k s'. k = n + card (dead_ids m) \<and>
       (\<exists>rs. set rs = dead_ids m \<and> holds (fold (\<lambda>r m. repo_gone m r) rs m) s'))
    (\<lambda>e s'. engine_error may_fail e \<and> (\<exists>m'. holds m' s')) s"
  using assms
proof (induction "card (dead_ids m)" arbitrary: m n s rule: less_induct)
  case less
  let ?lib = "rg_libs G"
  let ?Q = "\<lambda>k s'. k = n + card (dead_ids m) \<and> (\<exists>rs. set rs = dead_ids m \<and> holds (fold (\<lambda>r m. repo_gone m r) rs m) s')"
  let ?X = "\<lambda>e s'. engine_error may_fail e \<and> (\<exists>m'. holds m' s')"
  note h = less.prems
  have fin: "finite (dead_ids m)" by (rule finite_dead_ids [OF holds_finite [OF h]])
  define es where "es = pg_entries (scan_page m dead_repos None SWEEP_BATCH)"
  define rs where "rs = map (\<lambda>e. the (parse_dead_repo_id (fst e))) es"
  note page = dead_page [OF holdsD(5) [OF h] holds_finite [OF h] rs_def [unfolded es_def]]
  show ?case
  proof (rule ends_sweep_all, rule refines_wp [OF refines_list_dead_repos h])
    fix dead t assume t: "holds m t" and "Inr (map (\<lambda>(k, v). \<lparr> dx_id = the (parse_dead_repo_id k),
        dx_name = dr_name (the (co_dec (lb_dead ?lib) v)), dx_dropped_at = dr_dropped_at (the (co_dec (lb_dead ?lib) v)) \<rparr>)
        (pg_entries (scan_page m dead_repos None SWEEP_BATCH))) = Inr dead"
    then have dead: "map dx_id dead = rs" "dead = [] \<longleftrightarrow> rs = []"
      by (auto simp: rs_def es_def comp_def split_def)
    have len: "length dead = length rs" unfolding dead(1) [symmetric] by simp
    show "if dead = [] then ?Q n t
      else wp (for_a dead n (\<lambda>repo n. bind_a (sweep_one G (dx_id repo)) (\<lambda>_. return_a (n + 1))))
        (\<lambda>n' t. ends (sweep_all_from G n') ?Q ?X t) ?X t"
    proof (cases "rs = []")
      case True
      with page have "dead_ids m = {}" by (simp add: SWEEP_BATCH_def)
      with True t dead show ?thesis by auto
    next
      case False
      let ?m = "fold (\<lambda>r m. repo_gone m r) rs m"
      have d: "dead_ids ?m = dead_ids m - set rs" by (rule dead_ids_gone)
      have c: "card (dead_ids m) = card (dead_ids ?m) + length rs"
        using page(2) fin distinct_card [OF page(1)] card_mono [OF fin page(2)] unfolding d
        by (simp add: card_Diff_subset)
      have again: "ends (sweep_all_from G (n + length rs)) ?Q ?X t'" if t': "holds ?m t'" for t'
      proof -
        have "card (dead_ids ?m) < card (dead_ids m)" using c False by simp
        note ih = less.hyps [OF this t', of "n + length rs"]
        have "?Q k u" if "k = n + length rs + card (dead_ids ?m)
            \<and> (\<exists>qs. set qs = dead_ids ?m \<and> holds (fold (\<lambda>r m. repo_gone m r) qs ?m) u)" for k u
        proof -
          from that obtain qs where qs: "set qs = dead_ids ?m" "holds (fold (\<lambda>r m. repo_gone m r) qs ?m) u" by blast
          have "set (rs @ qs) = dead_ids m" using qs(1) page(2) d by auto
          moreover have "holds (fold (\<lambda>r m. repo_gone m r) (rs @ qs) m) u" using qs(2) by simp
          moreover have "k = n + card (dead_ids m)" using that c by simp
          ultimately show ?thesis by blast
        qed
        with ih show ?thesis by (rule ends_weaken)
      qed
      have "wp (for_a dead n (\<lambda>repo n. bind_a (sweep_one G (dx_id repo)) (\<lambda>_. return_a (n + 1))))
        (\<lambda>n' t. ends (sweep_all_from G n') ?Q ?X t) ?X t"
        by (rule wp_sweep_list [OF t]) (use again in \<open>auto simp: dead len\<close>)
      with False dead(2) show ?thesis by presburger
    qed
  qed (use h in auto)
qed

end

section \<open>Properties\<close>

lemma manifest_count:
  assumes "entries_ok lib m" and "finite (dom m)"
  shows "length (scan_list m (manifests_in_repo r) None) = card {d. manifest_at lib m r d \<noteq> None}"
proof -
  let ?p = "manifests_in_repo r"
  have "set (keys_under m ?p) = (\<lambda>d. manifest_key r d) ` {d. m (manifest_key r d) \<noteq> None}"
  proof (intro set_eqI iffI)
    fix k assume "k \<in> set (keys_under m ?p)"
    then have k: "m k \<noteq> None" "prefix ?p k" by (simp_all add: set_keys_under [OF assms(2)])
    obtain sk where sk: "k = encode_key sk" "wf_key sk" using entries_ok_key [OF assms(1) k(1)] by metis
    with k prefix_keys(8) [OF sk(2), of r] show "k \<in> (\<lambda>d. manifest_key r d) ` {d. m (manifest_key r d) \<noteq> None}" by auto
  qed (auto simp: set_keys_under [OF assms(2)] data_keys scan_prefixes)
  moreover have "distinct (keys_under m ?p)"
    using sorted_scan_list [of m ?p None] by (simp add: keys_under_def strict_sorted_iff)
  moreover have "card ((\<lambda>d. manifest_key r d) ` {d. m (manifest_key r d) \<noteq> None}) = card {d. m (manifest_key r d) \<noteq> None}"
    by (rule card_image) (auto simp: inj_on_def data_keys key_codes)
  ultimately show ?thesis
    unfolding record_cases(2) [OF assms(1), symmetric] by (metis distinct_card keys_under_def length_map)
qed

text \<open>
  C22. Sweeping one repository returns, reports the number of its manifests and leaves no key that belongs to its id, neither in
  the ranges under the id nor among the edges from blobs; every other key of the store stays. A failure can only come
  from the engine, and has then removed nothing but edges from blobs to manifests of this repository, so
  starting over finishes the work.
\<close>

theorem sweep_one_complete:
  assumes env: "registry_env G tbl ok fails names ids" and at: "at_store tbl ok names ids (rg_libs G) m s"
    and run: "sweep_one G r s = (res, s')"
  shows "\<exists>m'. at_store tbl ok names ids (rg_libs G) m' s' \<and> (case res of
      Inr n \<Rightarrow> n = card {d. manifest_at (rg_libs G) m r d \<noteq> None}
        \<and> (\<forall>sk. wf_key sk \<longrightarrow> m' (encode_key sk) = (if key_owner sk = Some r then None else m (encode_key sk)))
    | Inl e \<Rightarrow> engine_error fails e
        \<and> (\<forall>k. m' k = m k \<or> m' k = None \<and> (\<exists>b d. k = blob_ref_key b r d)))"
proof -
  have fin: "finite (dom m)" and e: "entries_ok (rg_libs G) m"
    using registry_env.holds_finite [OF env at] at by (simp_all add: at_store_def store_ok_def)
  have "wp (sweep_one G r)
      (\<lambda>n s'. n = card {d. manifest_at (rg_libs G) m r d \<noteq> None} \<and> at_store tbl ok names ids (rg_libs G) (repo_gone m r) s')
      (\<lambda>e s'. engine_error fails e \<and> (\<exists>m'. at_store tbl ok names ids (rg_libs G) m' s' \<and> fewer_edges r m m')) s"
    by (rule registry_env.wp_sweep_one [OF env at]) (use manifest_count [OF e fin] in auto)
  with run show ?thesis
    by (cases res) (auto simp: wp_def repo_gone_at fewer_edges_def is_edge_def)
qed

theorem sweep_one_complete_witness: "\<exists>s'. sweep_one demo_registry 0 demo_state = (Inr 1, s')"
proof -
  obtain res s' where run: "sweep_one demo_registry 0 demo_state = (res, s')" by fastforce
  have lib: "rg_libs demo_registry = demo_libs" by (simp add: demo_registry_def)
  have "{d. manifest_at demo_libs demo_store 0 d \<noteq> None} = {demo_digest}" by auto
  with sweep_one_complete [OF dr.registry_env_axioms at_store_demo run] run show ?thesis
    by (cases res) (auto simp: lib engine_error_def)
qed

text \<open>
  C23. A pass of the sweeper ends, however many repositories are dropped and whatever their size. When it returns it has swept every
  repository that was recorded as dropped, each once, and no key of theirs is left, while every other key stays; nothing remains
  recorded as dropped. It can fail only when the engine does.
\<close>

theorem sweeper_drains:
  assumes env: "registry_env G tbl ok fails names ids" and at: "at_store tbl ok names ids (rg_libs G) m s"
    and run: "sweep_dead_repos G s = (res, s')"
  shows "\<exists>m'. at_store tbl ok names ids (rg_libs G) m' s' \<and> (case res of
      Inr n \<Rightarrow> n = card {r. m (dead_repo_key r) \<noteq> None} \<and> (\<forall>r. m' (dead_repo_key r) = None)
        \<and> (\<forall>sk. wf_key sk \<longrightarrow> m' (encode_key sk) =
              (if \<exists>r. key_owner sk = Some r \<and> m (dead_repo_key r) \<noteq> None then None else m (encode_key sk)))
    | Inl e \<Rightarrow> engine_error fails e)"
proof -
  note w = wp_loop [OF registry_env.wp_sweep_all [OF env at], of 0, folded sweep_dead_repos_def]
  show ?thesis
  proof (cases res)
    case (Inl e)
    with w run show ?thesis by (auto simp: wp_def)
  next
    case (Inr n)
    with w run obtain rs where n: "n = card (dead_ids m)" and rs: "set rs = dead_ids m"
      and h: "at_store tbl ok names ids (rg_libs G) (fold (\<lambda>r m. repo_gone m r) rs m) s'"
      by (auto simp: wp_def)
    let ?m = "fold (\<lambda>r m. repo_gone m r) rs m"
    have keys: "?m (encode_key sk) = (if \<exists>r. key_owner sk = Some r \<and> m (dead_repo_key r) \<noteq> None then None else m (encode_key sk))"
      if "wf_key sk" for sk
    proof -
      have "(\<exists>r \<in> dead_ids m. key_owner sk = Some r) \<longleftrightarrow> (\<exists>r. key_owner sk = Some r \<and> m (dead_repo_key r) \<noteq> None)"
        by (auto simp: dead_ids_def)
      then show ?thesis unfolding fold_gone_at [OF that] rs by presburger
    qed
    have "?m (dead_repo_key r) = None" for r
      using dead_ids_gone [of rs m] unfolding rs dead_ids_def by blast
    with h n keys show ?thesis unfolding Inr sum.case dead_ids_def by blast
  qed
qed

theorem sweeper_drains_witness:
  "\<exists>s1 s2. delete_repository demo_registry ''a'' (Timestamp 0) demo_state = (Inr \<lparr> rt_id = 0, rt_name = ''a'' \<rparr>, s1)
     \<and> sweep_dead_repos demo_registry s1 = (Inr 1, s2)"
proof -
  obtain res s1 where drop: "delete_repository demo_registry ''a'' (Timestamp 0) demo_state = (res, s1)" by fastforce
  let ?m = "tombstone (rg_libs demo_registry) demo_store ''a'' 0 (Timestamp 0)"
  obtain at: "at_store table_map (\<lambda>_. True) (\<lambda>c. map_of (fst c)) (\<lambda>c. map_of (snd c)) (rg_libs demo_registry) ?m s1"
    and out: "res = Inr \<lparr> rt_id = 0, rt_name = ''a'' \<rparr>"
    using commits_run [OF dr.commits_delete_repository at_store_demo drop]
    by (cases res) (auto simp: tombstone_spec_def engine_error_def)
  have "demo_store (dead_repo_key r) = None" for r by (simp add: demo_store_def data_keys)
  then have dead: "{r. ?m (dead_repo_key r) \<noteq> None} = {0}"
    by (auto simp: tombstone_def drop_name_def data_keys)
  obtain res2 s2 where run: "sweep_dead_repos demo_registry s1 = (res2, s2)" by fastforce
  with sweeper_drains [OF dr.registry_env_axioms at run] dead have "res2 = Inr 1"
    by (cases res2) (auto simp: engine_error_def)
  with drop out run show ?thesis by blast
qed

end
