(* ===== verification/Summ_Purge.thy ===== *)
theory Summ_Purge
  imports Summ_Sweep
begin

text \<open>
  Purge (\<open>summ-registry/src/purge.rs\<close>): the steps that reclaim what deletes leave behind. Manifests without a tag,
  memberships whose manifest never came, the marks on unreferenced blobs and the collection of those whose
  mark has stood for the grace period, idle uploads, and names with nothing under them.
\<close>

section \<open>Untagged manifests\<close>

record manifest_scan =
  ms_digests :: "digest list"
  ms_examined :: nat
  ms_next :: "bytes option"

record membership_sweep =
  mw_examined :: nat
  mw_retracted :: nat
  mw_next :: "bytes option"

record blob_scan =
  bs_examined :: nat
  bs_marked :: nat
  bs_unmarked :: nat
  bs_ripe :: "(digest \<times> u64) list"
  bs_next :: "bytes option"

record expired_upload =
  eu_id :: bytes16
  eu_repo :: repo_id
  eu_updated_at :: u64

record empty_repo =
  er_id :: repo_id
  er_name :: string

record empty_repo_scan =
  es_repos :: "empty_repo list"
  es_examined :: nat
  es_next :: "string option"

definition manifest_is_purgeable ::
    "('s, 'c) registry \<Rightarrow> repo_id \<Rightarrow> manifest_record \<Rightarrow> timestamp \<Rightarrow> ('s, 'c, bool) op" where
  "manifest_is_purgeable G repo_id record pushed_before =
     (if secs pushed_before < mr_pushed_at record then return_a False
      else
        bind_a (rg_exists G (tags_of_manifest repo_id (mr_digest record))) (\<lambda>tagged.
        if tagged then return_a False
        else
          bind_a (rg_exists G (parents_of repo_id (mr_digest record))) (\<lambda>listed.
          if listed then return_a False
          else
            (case mr_subject record of
               Some subject \<Rightarrow>
                 bind_a (rg_exists G (manifest_key repo_id subject)) (\<lambda>live.
                   if live then return_a False else return_a True)
             | None \<Rightarrow> return_a True))))"

definition purgeable_manifests ::
    "('s, 'c) registry \<Rightarrow> string \<Rightarrow> bytes option \<Rightarrow> nat \<Rightarrow> timestamp \<Rightarrow> ('s, 'c, manifest_scan) op" where
  "purgeable_manifests G repo cursor limit pushed_before =
     bind_a (require_repo G repo) (\<lambda>repo_id.
     bind_a (rg_scan G (manifests_in_repo repo_id) cursor limit) (\<lambda>page.
     bind_a (for_a (pg_entries page) [] (\<lambda>(_, raw_bytes) digests.
       bind_a (lift_a (decode (lb_manifest (rg_libs G)) raw_bytes ''ManifestRecord'')) (\<lambda>record.
       bind_a (manifest_is_purgeable G repo_id record pushed_before) (\<lambda>ok.
         return_a (if ok then digests @ [mr_digest record] else digests))))) (\<lambda>digests.
       return_a \<lparr> ms_digests = digests, ms_examined = length (pg_entries page), ms_next = pg_next page \<rparr>)))"

definition purge_manifest ::
    "('s, 'c) registry \<Rightarrow> string \<Rightarrow> digest \<Rightarrow> timestamp \<Rightarrow> timestamp \<Rightarrow> ('s, 'c, manifest_deleted option) op" where
  "purge_manifest G repo d pushed_before now =
     bind_a (require_repo G repo) (\<lambda>repo_id.
     bind_a (manifest_record_of G repo_id d) (\<lambda>found.
       case found of
         None \<Rightarrow> return_a None
       | Some record \<Rightarrow>
           bind_a (manifest_is_purgeable G repo_id record pushed_before) (\<lambda>ok.
             if \<not> ok then return_a None
             else bind_a (plan_manifest_delete G repo d now) (\<lambda>(outcome, batch).
                  bind_a (rg_apply G batch) (\<lambda>_. return_a (Some outcome))))))"

section \<open>Stale memberships\<close>

definition repo_of_membership :: "bytes \<Rightarrow> registry_error + repo_id" where
  "repo_of_membership key =
     and_then (ok_or (corrupt ''P key'') (Option.bind (get_range 1 5 key) (try_array 4)))
       (\<lambda>repo_bytes. Inr (from_be_bytes repo_bytes))"

definition sweep_repo_blobs ::
    "('s, 'c) registry \<Rightarrow> bytes option \<Rightarrow> nat \<Rightarrow> timestamp \<Rightarrow> bool \<Rightarrow> ('s, 'c, membership_sweep) op" where
  "sweep_repo_blobs G cursor limit added_before report_only =
     bind_a (rg_scan G repo_blobs cursor limit) (\<lambda>page.
     bind_a (for_a (pg_entries page) (batch_new, 0) (\<lambda>(key, raw_bytes) (batch, retracted).
       bind_a (lift_a (repo_of_membership key)) (\<lambda>repo.
       bind_a (lift_a (ok_or (corrupt ''P key'') (digest_after_repo key))) (\<lambda>d.
       bind_a (lift_a (decode (lb_repo_blob (rg_libs G)) raw_bytes ''RepoBlobRecord'')) (\<lambda>record.
       if secs added_before < rb_added_at record then return_a (batch, retracted)
       else
         bind_a (rg_exists G (blob_refs_in_repo d repo)) (\<lambda>referenced.
         if referenced then return_a (batch, retracted)
         else return_a (batch_delete (blob_mark_key d) (batch_delete key batch), retracted + 1))))))) (\<lambda>(batch, retracted).
     bind_a (if \<not> report_only \<and> \<not> batch_is_empty batch then rg_apply G batch else return_a ()) (\<lambda>_.
       return_a \<lparr> mw_examined = length (pg_entries page), mw_retracted = retracted, mw_next = pg_next page \<rparr>)))"

section \<open>Blobs\<close>

definition blob_mark_of :: "('s, 'c) registry \<Rightarrow> digest \<Rightarrow> ('s, 'c, blob_mark_record option) op" where
  "blob_mark_of G d = get_record G (lb_mark (rg_libs G)) (blob_mark_key d) ''BlobMark''"

definition digest_of_blob_key :: "bytes \<Rightarrow> registry_error + digest" where
  "digest_of_blob_key key =
     ok_or (corrupt ''B key'') (map_option fst (Option.bind (get_from 1 key) decode_digest))"

definition scan_blob_step ::
    "('s, 'c) registry \<Rightarrow> timestamp \<Rightarrow> timestamp \<Rightarrow> entry \<Rightarrow> blob_scan \<times> write_batch \<Rightarrow> ('s, 'c, blob_scan \<times> write_batch) op" where
  "scan_blob_step G seen_before now e acc =
     (case (e, acc) of ((key, raw_bytes), (scan, batch)) \<Rightarrow>
       bind_a (lift_a (digest_of_blob_key key)) (\<lambda>d.
       bind_a (blob_mark_of G d) (\<lambda>mark.
       bind_a (rg_exists G (blob_refs d)) (\<lambda>referenced.
       if referenced then
         (if mark \<noteq> None
          then return_a (scan\<lparr>bs_unmarked := bs_unmarked scan + 1\<rparr>, batch_delete (blob_mark_key d) batch)
          else return_a (scan, batch))
       else
         (case mark of
            None \<Rightarrow>
              bind_a (lift_a (encode (lb_mark (rg_libs G)) \<lparr> bm_seen_at = secs now \<rparr>)) (\<lambda>v.
                return_a (scan\<lparr>bs_marked := bs_marked scan + 1\<rparr>, batch_put (blob_mark_key d) v batch))
          | Some mk \<Rightarrow>
              if bm_seen_at mk \<le> secs seen_before then
                bind_a (lift_a (decode (lb_blob (rg_libs G)) raw_bytes ''BlobRecord'')) (\<lambda>record.
                  return_a (scan\<lparr>bs_ripe := bs_ripe scan @ [(d, br_size record)]\<rparr>, batch))
              else return_a (scan, batch))))))"

definition scan_blobs ::
    "('s, 'c) registry \<Rightarrow> bytes option \<Rightarrow> nat \<Rightarrow> timestamp \<Rightarrow> timestamp \<Rightarrow> bool \<Rightarrow> ('s, 'c, blob_scan) op" where
  "scan_blobs G cursor limit seen_before now report_only =
     bind_a (rg_scan G blobs cursor limit) (\<lambda>page.
     let scan = \<lparr> bs_examined = length (pg_entries page), bs_marked = 0, bs_unmarked = 0, bs_ripe = [], bs_next = pg_next page \<rparr> in
     bind_a (for_a (pg_entries page) (scan, batch_new) (scan_blob_step G seen_before now)) (\<lambda>(scan, batch).
     bind_a (if \<not> report_only \<and> \<not> batch_is_empty batch then rg_apply G batch else return_a ()) (\<lambda>_.
       return_a scan)))"

definition collect_blob :: "('s, 'c) registry \<Rightarrow> digest \<Rightarrow> timestamp \<Rightarrow> ('s, 'c, u64 option) op" where
  "collect_blob G d seen_before =
     bind_a (blob_metadata G d) (\<lambda>found.
       case found of
         None \<Rightarrow> return_a None
       | Some record \<Rightarrow>
           bind_a (blob_mark_of G d) (\<lambda>marked.
             case marked of
               None \<Rightarrow> return_a None
             | Some mark \<Rightarrow>
                 if secs seen_before < bm_seen_at mark then return_a None
                 else
                   bind_a (rg_exists G (blob_refs d)) (\<lambda>referenced.
                     if referenced then return_a None
                     else
                       bind_a (rg_apply G (batch_delete (blob_mark_key d) (batch_delete (blob_key d) batch_new)))
                         (\<lambda>_. return_a (Some (br_size record))))))"

section \<open>Idle uploads and empty repositories\<close>

definition expired_uploads :: "('s, 'c) registry \<Rightarrow> timestamp \<Rightarrow> nat \<Rightarrow> ('s, 'c, expired_upload list) op" where
  "expired_uploads G idle_before limit =
     bind_a (rg_scan G uploads None limit) (\<lambda>page.
     for_a (pg_entries page) [] (\<lambda>(key, raw_bytes) out.
       bind_a (lift_a (decode (lb_upload (rg_libs G)) raw_bytes ''UploadSession'')) (\<lambda>session.
       if secs idle_before < us_updated_at session then return_a out
       else
         bind_a (lift_a (ok_or (corrupt ''U key'') (Option.bind (get_from 1 key) (try_array 16)))) (\<lambda>id_bytes.
           return_a (out @ [\<lparr> eu_id = arr16 id_bytes, eu_repo = us_repo session, eu_updated_at = us_updated_at session \<rparr>])))))"

definition next_repo_id :: "('s, 'c) registry \<Rightarrow> ('s, 'c, repo_id) op" where
  "next_repo_id G = meta_a (next_id (rg_engine G))"

fun none_under :: "('s, 'c) registry \<Rightarrow> bytes list \<Rightarrow> ('s, 'c, bool) op" where
  "none_under G [] = return_a True"
| "none_under G (p # ps) = bind_a (rg_exists G p) (\<lambda>hit. if hit then return_a False else none_under G ps)"

definition repo_is_empty :: "('s, 'c) registry \<Rightarrow> repo_id \<Rightarrow> repo_id list \<Rightarrow> ('s, 'c, bool) op" where
  "repo_is_empty G rid live =
     (if rid \<in> set live then return_a False
      else none_under G
        [manifests_in_repo rid, blobs_in_repo rid, tags_in_repo rid, tag_history_in_repo rid,
         manifest_tag_history_in_repo rid, counters_in_repo_scope SCOPE_MANIFEST rid,
         counters_in_repo_scope SCOPE_TAG rid, counters_in_repo_scope SCOPE_REPO rid])"

definition empty_repos ::
    "('s, 'c) registry \<Rightarrow> string option \<Rightarrow> nat \<Rightarrow> repo_id list \<Rightarrow> repo_id \<Rightarrow> ('s, 'c, empty_repo_scan) op" where
  "empty_repos G start_after limit live interned_before =
     bind_a (rg_scan G repos_by_name (map_option repo_by_name start_after) limit) (\<lambda>page.
     bind_a (for_a (pg_entries page) ([], None) (\<lambda>(key, val) (repos, _).
       bind_a (lift_a (ok_or (corrupt ''repo name key'') (parse_repo_name key))) (\<lambda>name.
       bind_a (lift_a (ok_or (corrupt ''repo id value'') (parse_repo_id val))) (\<lambda>rid.
       bind_a (if rid < interned_before then repo_is_empty G rid live else return_a False) (\<lambda>blank.
         return_a (if blank then repos @ [\<lparr> er_id = rid, er_name = name \<rparr>] else repos, Some name)))))) (\<lambda>(repos, last_name).
       return_a \<lparr> es_repos = repos, es_examined = length (pg_entries page),
                  es_next = (if pg_next page = None then None else last_name) \<rparr>))"

definition retire_repo ::
    "('s, 'c) registry \<Rightarrow> string \<Rightarrow> repo_id list \<Rightarrow> repo_id \<Rightarrow> ('s, 'c, repo_id option) op" where
  "retire_repo G name live interned_before =
     bind_a (lookup_repo G name) (\<lambda>found.
       case found of
         None \<Rightarrow> return_a None
       | Some rid \<Rightarrow>
           bind_a (if interned_before \<le> rid then return_a True
                   else bind_a (repo_is_empty G rid live) (\<lambda>blank. return_a (\<not> blank))) (\<lambda>keep.
             if keep then return_a None
             else
               bind_a (rg_apply G (batch_delete (repo_by_id rid) (batch_delete (repo_by_name name) batch_new))) (\<lambda>_.
               bind_a (forget_repo G name rid) (\<lambda>_. return_a (Some rid)))))"

section \<open>Operations that read, decide and then write\<close>

text \<open>As \<open>commits\<close>, with what is known of the store when the operation starts.\<close>

definition commits_on ::
    "(store \<Rightarrow> bool) \<Rightarrow> (store \<Rightarrow> 'st \<Rightarrow> bool) \<Rightarrow> bool \<Rightarrow> ('st, registry_error, 'a) action \<Rightarrow>
     (store \<Rightarrow> registry_error + 'a \<times> store) \<Rightarrow> bool" where
  "commits_on known at fails oper f \<longleftrightarrow> (\<forall>m s. at m s \<longrightarrow> known m \<longrightarrow>
     wp oper (\<lambda>a s'. \<exists>m'. f m = Inr (a, m') \<and> at m' s')
       (\<lambda>e s'. at m s' \<and> (f m = Inl e \<or> engine_error fails e)) s)"

lemma commits_onD: "commits_on (\<lambda>_. True) at fails oper f \<Longrightarrow> commits at fails oper f"
  by (simp add: commits_on_def commits_def)

lemma commits_on_return: "commits_on known at fails (return_a a) (\<lambda>m. Inr (a, m))"
  by (simp add: commits_on_def wp_simps)

lemma commits_on_bind:
  assumes "refines at fails oper f" and "\<And>a. commits_on (\<lambda>m. known m \<and> f m = Inr a) at fails (k a) (g a)"
  shows "commits_on known at fails (bind_a oper k) (\<lambda>m. and_then (f m) (\<lambda>a. g a m))"
  unfolding commits_on_def wp_bind
proof (intro allI impI)
  fix m s assume "at m s" "known m"
  then show "wp oper (\<lambda>a. wp (k a) (\<lambda>b s'. \<exists>m'. and_then (f m) (\<lambda>a. g a m) = Inr (b, m') \<and> at m' s')
      (\<lambda>e s'. at m s' \<and> (and_then (f m) (\<lambda>a. g a m) = Inl e \<or> engine_error fails e)))
      (\<lambda>e s'. at m s' \<and> (and_then (f m) (\<lambda>a. g a m) = Inl e \<or> engine_error fails e)) s"
    by (intro refines_wp [OF assms(1)]) (use assms(2) in \<open>auto simp: commits_on_def\<close>)
qed

lemma commits_on_if:
  assumes "b \<Longrightarrow> commits_on known at fails x f" and "\<not> b \<Longrightarrow> commits_on known at fails y g"
  shows "commits_on known at fails (if b then x else y) (\<lambda>m. if b then f m else g m)"
  using assms by (cases b) auto

lemma commits_on_option:
  assumes "v = None \<Longrightarrow> commits_on known at fails x f" and "\<And>a. v = Some a \<Longrightarrow> commits_on known at fails (y a) (g a)"
  shows "commits_on known at fails (case v of None \<Rightarrow> x | Some a \<Rightarrow> y a) (\<lambda>m. case v of None \<Rightarrow> f m | Some a \<Rightarrow> g a m)"
  using assms by (cases v) auto

lemma commits_on_pair:
  assumes "\<And>a b. v = (a, b) \<Longrightarrow> commits_on known at fails (k a b) (g a b)"
  shows "commits_on known at fails (case v of (a, b) \<Rightarrow> k a b) (\<lambda>m. case v of (a, b) \<Rightarrow> g a b m)"
  using assms by (cases v) auto

lemma commits_on_cong:
  assumes "commits_on known at fails oper f" and "\<And>m s. at m s \<Longrightarrow> known m \<Longrightarrow> f m = g m"
  shows "commits_on known at fails oper g"
  using assms unfolding commits_on_def by simp

lemma commits_on_weaken:
  "commits_on known at fails oper f \<Longrightarrow> (\<And>m. known' m \<Longrightarrow> known m) \<Longrightarrow> commits_on known' at fails oper f"
  by (auto simp: commits_on_def)

lemmas commits_on_intros = commits_on_return commits_on_if commits_on_option commits_on_pair

definition mark_at :: "libs \<Rightarrow> store \<Rightarrow> digest \<Rightarrow> blob_mark_record option" where
  "mark_at lib m d = Option.bind (m (blob_mark_key d)) (co_dec (lb_mark lib))"

definition referenced :: "store \<Rightarrow> digest \<Rightarrow> bool" where
  "referenced m d \<longleftrightarrow> (\<exists>r md. m (blob_ref_key d r md) \<noteq> None)"

lemma edges_ok_fewer:
  assumes g: "edges_ok lib m" and man: "\<And>q e. manifest_at lib m' q e = manifest_at lib m q e"
    and edge: "\<And>b q e. m' (blob_ref_key b q e) \<noteq> None \<Longrightarrow> m (blob_ref_key b q e) \<noteq> None"
    and rec: "\<And>b q e. m (blob_ref_key b q e) \<noteq> None \<Longrightarrow> m' (blob_key b) = m (blob_key b)"
    and child: "\<And>q c p. m' (child_parent_key q c p) \<noteq> None \<Longrightarrow> m (child_parent_key q c p) \<noteq> None"
  shows "edges_ok lib m'"
  unfolding edges_ok_def man
proof (intro conjI allI impI)
  fix b r md assume "m' (blob_ref_key b r md) \<noteq> None"
  then have e: "m (blob_ref_key b r md) \<noteq> None" by (rule edge)
  with g have "m (blob_key b) \<noteq> None" and l: "\<exists>rec. manifest_at lib m r md = Some rec \<and> b \<in> set (mr_layers rec)"
    unfolding edges_ok_def by blast+
  with rec [OF e] show "m' (blob_key b) \<noteq> None" by simp
  show "\<exists>rec. manifest_at lib m r md = Some rec \<and> b \<in> set (mr_layers rec)" by (rule l)
next
  fix r c p assume "m' (child_parent_key r c p) \<noteq> None"
  then have "m (child_parent_key r c p) \<noteq> None" by (rule child)
  then show "\<exists>rec. manifest_at lib m r p = Some rec \<and> c \<in> cr_digest ` set (mr_children rec)"
    using g unfolding edges_ok_def by blast
qed

text \<open>A blob without an edge can lose its record and its mark.\<close>

lemma store_ok_collect:
  assumes ok: "store_ok lib m" and "\<not> referenced m d"
  shows "store_ok lib (m(0x42 # enc d := None, 0x43 # enc d := None))"
proof -
  let ?m = "m(0x42 # enc d := None, 0x43 # enc d := None)"
  have "entries_ok lib ?m" using ok by (simp add: store_ok_def entries_ok_def)
  moreover have "tags_ok lib ?m" "bodies_ok lib ?m"
    using ok unfolding store_ok_def by (auto elim!: tags_ok_cong bodies_ok_cong simp: data_keys)
  moreover have "edges_ok lib ?m"
  proof -
    have rec: "?m (blob_key b) = m (blob_key b)" if "m (blob_ref_key b q e) \<noteq> None" for b q e
      using that assms(2) by (auto simp: referenced_def data_keys)
    have g: "edges_ok lib m" using ok by (simp add: store_ok_def)
    show ?thesis by (rule edges_ok_fewer [OF g _ _ rec]) (simp_all add: manifest_at_def data_keys)
  qed
  ultimately show ?thesis by (simp add: store_ok_def)
qed

text \<open>The guards on an untagged manifest.\<close>

definition purgeable :: "libs \<Rightarrow> store \<Rightarrow> repo_id \<Rightarrow> manifest_record \<Rightarrow> timestamp \<Rightarrow> bool" where
  "purgeable lib m r rec before \<longleftrightarrow> mr_pushed_at rec \<le> secs before
     \<and> (\<forall>t. map_option tr_digest (tag_at lib m r t) \<noteq> Some (mr_digest rec))
     \<and> (\<forall>p. m (child_parent_key r (mr_digest rec) p) = None)
     \<and> (\<forall>s. mr_subject rec = Some s \<longrightarrow> manifest_at lib m r s = None)"

text \<open>The ranges a name must have nothing in to be retired.\<close>

definition data_ranges :: "repo_id \<Rightarrow> bytes list" where
  "data_ranges r =
     [manifests_in_repo r, blobs_in_repo r, tags_in_repo r, tag_history_in_repo r,
      manifest_tag_history_in_repo r, counters_in_repo_scope SCOPE_MANIFEST r,
      counters_in_repo_scope SCOPE_TAG r, counters_in_repo_scope SCOPE_REPO r]"

fun in_data_range :: "repo_id \<Rightarrow> store_key \<Rightarrow> bool" where
  "in_data_range r (KManifest q d) = (q = r)"
| "in_data_range r (KRepoBlob q b) = (q = r)"
| "in_data_range r (KTag q t) = (q = r)"
| "in_data_range r (KTagHistory q t at d) = (q = r)"
| "in_data_range r (KManifestTagHistory q d at t) = (q = r)"
| "in_data_range r (KCounterManifest q d day shard) = (q = r)"
| "in_data_range r (KCounterTag q t day shard) = (q = r)"
| "in_data_range r (KCounterRepo q day shard) = (q = r)"
| "in_data_range r _ = False"

definition vacant :: "store \<Rightarrow> repo_id \<Rightarrow> bool" where
  "vacant m r \<longleftrightarrow> (\<forall>sk. wf_key sk \<and> in_data_range r sk \<longrightarrow> m (encode_key sk) = None)"

lemma data_ranges_prefix:
  "wf_key sk \<Longrightarrow> (\<exists>p \<in> set (data_ranges r). prefix p (encode_key sk)) \<longleftrightarrow> in_data_range r sk"
  by (cases sk) (auto simp: data_ranges_def SCOPE_MANIFEST_def SCOPE_TAG_def SCOPE_REPO_def key_defs key_codes)

lemma vacant_ranges:
  assumes "entries_ok lib m"
  shows "(\<forall>p \<in> set (data_ranges r). \<not> has_prefix m p) \<longleftrightarrow> vacant m r"
proof
  assume none: "\<forall>p \<in> set (data_ranges r). \<not> has_prefix m p"
  show "vacant m r"
    unfolding vacant_def
  proof (intro allI impI)
    fix sk assume "wf_key sk \<and> in_data_range r sk"
    then obtain p where "p \<in> set (data_ranges r)" "prefix p (encode_key sk)" using data_ranges_prefix by blast
    with none show "m (encode_key sk) = None" unfolding has_prefix_def by blast
  qed
next
  assume v: "vacant m r"
  show "\<forall>p \<in> set (data_ranges r). \<not> has_prefix m p"
  proof (intro ballI notI)
    fix p assume "p \<in> set (data_ranges r)" "has_prefix m p"
    then obtain k where k: "m k \<noteq> None" "prefix p k" "p \<in> set (data_ranges r)" by (auto simp: has_prefix_def)
    obtain sk where "k = encode_key sk" "wf_key sk" using entries_ok_key [OF assms k(1)] by metis
    with k v show False using data_ranges_prefix [of sk r] unfolding vacant_def by metis
  qed
qed

lemma store_ok_drop:
  assumes ok: "store_ok lib m"
  shows "store_ok lib (drop_name m n r)"
proof -
  have "entries_ok lib (drop_name m n r)"
    using ok by (simp add: store_ok_def entries_ok_def drop_name_def)
  moreover have "tags_ok lib (drop_name m n r)" "bodies_ok lib (drop_name m n r)" "edges_ok lib (drop_name m n r)"
    using ok unfolding store_ok_def
    by (auto elim!: tags_ok_cong bodies_ok_cong edges_ok_cong simp: drop_name_def data_keys)
  ultimately show ?thesis by (simp add: store_ok_def)
qed

context registry_env
begin

lemma commits_on_apply:
  assumes "\<And>m. store_ok (rg_libs G) m \<Longrightarrow> finite (dom m) \<Longrightarrow> known m \<Longrightarrow>
      bounded_batch b \<and> nameless b \<and> store_ok (rg_libs G) (apply_ops b m)"
  shows "commits_on known holds may_fail (bind_a (rg_apply G b) (\<lambda>_. return_a x)) (\<lambda>m. Inr (x, apply_ops b m))"
  unfolding commits_on_def wp_bind wp_return
proof (intro allI impI)
  fix m s assume h: "holds m s" and "known m"
  with assms [OF holdsD(4) [OF h] holds_finite [OF h]]
  have "bounded_batch b" "nameless b" "store_ok (rg_libs G) (apply_ops b m)" by simp_all
  then show "wp (rg_apply G b) (\<lambda>_ s'. \<exists>m'. Inr (x, apply_ops b m) = Inr (x, m') \<and> holds m' s')
      (\<lambda>e s'. holds m s' \<and> (Inr (x, apply_ops b m) = Inl e \<or> engine_error may_fail e)) s"
    by (intro wp_rg_apply [OF h]) auto
qed

lemma refines_purgeable:
  "refines holds may_fail (manifest_is_purgeable G r rec before) (\<lambda>m. Inr (purgeable (rg_libs G) m r rec before))"
  unfolding manifest_is_purgeable_def
proof (rule refines_cong, (rule refines_intros refines_exists)+)
  fix m s assume h: "holds m s"
  note e = holdsD(5) [OF h]
  let ?lib = "rg_libs G" and ?d = "mr_digest rec"
  have "has_prefix m (tags_of_manifest r ?d) \<longleftrightarrow> (\<exists>t. map_option tr_digest (tag_at ?lib m r t) = Some ?d)"
  proof -
    have "m (manifest_tag_key r ?d t) \<noteq> None \<longleftrightarrow> map_option tr_digest (tag_at ?lib m r t) = Some ?d" for t
      using holdsD(4) [OF h] unfolding store_ok_def tags_ok_def by blast
    moreover have "valid_tag t" if "m (manifest_tag_key r ?d t) \<noteq> None" for t
      using that entries_okD [OF e] by fastforce
    ultimately show ?thesis unfolding has_prefix_keys(6) [OF e] by blast
  qed
  moreover have "m (manifest_key r x) = None \<longleftrightarrow> manifest_at ?lib m r x = None" for x
    using record_cases(2) [OF e] by blast
  ultimately show "(if secs before < mr_pushed_at rec then Inr False
      else and_then (Inr (has_prefix m (tags_of_manifest r ?d))) (\<lambda>tagged.
        if tagged then Inr False
        else and_then (Inr (has_prefix m (parents_of r ?d))) (\<lambda>listed.
          if listed then Inr False
          else case mr_subject rec of None \<Rightarrow> Inr True
            | Some subject \<Rightarrow> and_then (Inr (has_prefix m (manifest_key r subject))) (\<lambda>live.
                if live then Inr False else Inr True))))
    = Inr (purgeable ?lib m r rec before)"
    by (auto simp: purgeable_def has_prefix_keys(4,5) [OF e] split: option.split)
qed

lemma refines_mark: "refines holds may_fail (blob_mark_of G d) (\<lambda>m. Inr (mark_at (rg_libs G) m d))"
  unfolding blob_mark_of_def mark_at_def
  by (rule refines_get_record) (auto dest!: entries_okD split: option.splits)

lemma refines_referenced: "refines holds may_fail (rg_exists G (blob_refs d)) (\<lambda>m. Inr (referenced m d))"
  by (rule refines_cong [OF refines_exists]) (simp add: has_prefix_keys(2) [OF holdsD(5)] referenced_def)

lemma commits_purge_manifest:
  "commits holds may_fail (purge_manifest G repo d before now) (\<lambda>m.
     and_then (ok_or (NameUnknown repo) (id_of m repo)) (\<lambda>r.
       case manifest_at (rg_libs G) m r d of
         None \<Rightarrow> Inr (None, m)
       | Some rec \<Rightarrow>
           if purgeable (rg_libs G) m r rec before
           then Inr (Some \<lparr> md_digest = d, md_removed_tags = [] \<rparr>, apply_ops (manifest_delete_ops (rg_libs G) m r d rec now) m)
           else Inr (None, m)))"
proof -
  let ?lib = "rg_libs G"
  have tail: "commits_on (\<lambda>m. known m) holds may_fail
      (bind_a (plan_manifest_delete G repo d now) (\<lambda>(outcome, batch). bind_a (rg_apply G batch) (\<lambda>_. return_a (Some outcome))))
      (\<lambda>m. and_then (manifest_delete_spec ?lib repo d now m) (\<lambda>(a, b). Inr (Some a, apply_ops b m)))" for known
  proof (rule commits_on_bind [OF refines_plan_manifest_delete], rule commits_on_pair, rule commits_on_apply)
    fix ab a b m assume ok: "store_ok ?lib m" "finite (dom m)" and "ab = (a, b)"
      and "known m \<and> manifest_delete_spec ?lib repo d now m = Inr ab"
    then obtain r rec where "manifest_at ?lib m r d = Some rec" "b = manifest_delete_ops ?lib m r d rec now"
      by (auto simp: manifest_delete_spec_def and_then_Inr ok_or_def split: option.splits)
    with ok show "bounded_batch b \<and> nameless b \<and> store_ok ?lib (apply_ops b m)"
      using store_ok_manifest_delete ranged_bounded [OF manifest_delete_ranged] ranged_nameless [OF manifest_delete_ranged]
      by simp
  qed
  show ?thesis
    unfolding purge_manifest_def
  proof (rule commits_onD, rule commits_on_cong,
      (rule commits_on_bind [OF refines_require_repo] commits_on_bind [OF refines_manifest_record]
        commits_on_bind [OF refines_purgeable] commits_on_intros tail)+)
    fix m s assume h: "holds m s"
    have "manifest_tags m r d = []" if rec: "manifest_at ?lib m r d = Some rec" "purgeable ?lib m r rec before" for r rec
    proof -
      have "t \<notin> set (manifest_tags m r d)" for t
        using rec(2) manifest_at_id(2) [OF holdsD(5) [OF h] rec(1)] manifest_tags_iff [OF holdsD(4) [OF h] holds_finite [OF h]]
        unfolding purgeable_def by blast
      then show ?thesis by (cases "manifest_tags m r d") auto
    qed
    then show "and_then (ok_or (NameUnknown repo) (id_of m repo)) (\<lambda>r. and_then (Inr (manifest_at ?lib m r d)) (\<lambda>found.
        case found of None \<Rightarrow> Inr (None, m)
        | Some record \<Rightarrow> and_then (Inr (purgeable ?lib m r record before)) (\<lambda>ok.
            if \<not> ok then Inr (None, m)
            else and_then (manifest_delete_spec ?lib repo d now m) (\<lambda>(a, b). Inr (Some a, apply_ops b m)))))
      = and_then (ok_or (NameUnknown repo) (id_of m repo)) (\<lambda>r.
         case manifest_at ?lib m r d of None \<Rightarrow> Inr (None, m)
         | Some rec \<Rightarrow> if purgeable ?lib m r rec before
             then Inr (Some \<lparr> md_digest = d, md_removed_tags = [] \<rparr>, apply_ops (manifest_delete_ops ?lib m r d rec now) m)
             else Inr (None, m))"
      by (cases "id_of m repo") (auto simp: manifest_delete_spec_def split: option.split)
  qed
qed

lemma commits_collect_blob:
  "commits holds may_fail (collect_blob G d before) (\<lambda>m.
     Inr (case blob_at (rg_libs G) m d of
            None \<Rightarrow> (None, m)
          | Some rec \<Rightarrow>
              (case mark_at (rg_libs G) m d of
                 None \<Rightarrow> (None, m)
               | Some mark \<Rightarrow>
                   if secs before < bm_seen_at mark \<or> referenced m d then (None, m)
                   else (Some (br_size rec), m(blob_key d := None, blob_mark_key d := None)))))"
proof -
  let ?lib = "rg_libs G" and ?b = "[Delete (blob_key d), Delete (blob_mark_key d)]"
  have b: "batch_delete (blob_mark_key d) (batch_delete (blob_key d) batch_new) = ?b"
    by (simp add: batch_delete_def batch_new_def)
  have tail: "commits_on (\<lambda>m. known m \<and> Inr (referenced m d) = Inr refd) holds may_fail
      (if refd then return_a None else bind_a (rg_apply G ?b) (\<lambda>_. return_a (Some x)))
      (\<lambda>m. if refd then Inr (None, m) else Inr (Some x, apply_ops ?b m))" for known refd x
  proof (rule commits_on_if)
    assume "\<not> refd"
    then show "commits_on (\<lambda>m. known m \<and> Inr (referenced m d) = Inr refd) holds may_fail
        (bind_a (rg_apply G ?b) (\<lambda>_. return_a (Some x))) (\<lambda>m. Inr (Some x, apply_ops ?b m))"
      by (intro commits_on_apply) (auto simp: bounded_batch_def bounded_op_def nameless_def data_keys store_ok_collect)
  qed (rule commits_on_return)
  show ?thesis
    unfolding collect_blob_def blob_metadata_def b
    by (rule commits_onD, rule commits_on_cong,
        (rule tail commits_on_bind [OF refines_blob_record] commits_on_bind [OF refines_mark] commits_on_bind [OF refines_referenced]
          commits_on_intros)+)
      (auto split: option.split)
qed

lemma refines_none_under:
  "refines holds may_fail (none_under G ps) (\<lambda>m. Inr (\<forall>p \<in> set ps. \<not> has_prefix m p))"
proof (induction ps)
  case Nil
  show ?case by (simp add: refines_return)
next
  case (Cons p ps)
  show ?case
    by (rule refines_cong, unfold none_under.simps, (rule refines_intros refines_exists Cons)+) simp
qed

lemma refines_repo_is_empty:
  "refines holds may_fail (repo_is_empty G r live) (\<lambda>m. Inr (r \<notin> set live \<and> vacant m r))"
  unfolding repo_is_empty_def data_ranges_def [symmetric]
proof (rule refines_cong, (rule refines_intros refines_none_under)+)
  fix m s assume "holds m s"
  note v = vacant_ranges [OF holdsD(5) [OF this]]
  show "(if r \<in> set live then Inr False else Inr (\<forall>p \<in> set (data_ranges r). \<not> has_prefix m p))
      = Inr (r \<notin> set live \<and> vacant m r)" by (simp add: v)
qed

lemma commits_retire_repo:
  "commits holds may_fail (retire_repo G n live watermark) (\<lambda>m.
     Inr (case id_of m n of
            None \<Rightarrow> (None, m)
          | Some r \<Rightarrow> if r < watermark \<and> r \<notin> set live \<and> vacant m r then (Some r, drop_name m n r) else (None, m)))"
proof -
  let ?lib = "rg_libs G"
  let ?keep = "\<lambda>r. if watermark \<le> r then return_a True else bind_a (repo_is_empty G r live) (\<lambda>blank. return_a (\<not> blank))"
  have keep: "refines holds may_fail (?keep r) (\<lambda>m. Inr (\<not> (r < watermark \<and> r \<notin> set live \<and> vacant m r)))" for r
    by (rule refines_cong, (rule refines_intros refines_repo_is_empty)+) (auto simp: not_le)
  have tail: "commits_on (\<lambda>m. known m \<and> id_of m n = Some r) holds may_fail
      (bind_a (rg_apply G (batch_delete (repo_by_id r) (batch_delete (repo_by_name n) batch_new))) (\<lambda>_.
         bind_a (forget_repo G n r) (\<lambda>_. return_a (Some r)))) (\<lambda>m. Inr (Some r, drop_name m n r))" for known r
    unfolding commits_on_def wp_bind wp_return
  proof (intro allI impI)
    fix m t assume h: "holds m t" and "known m \<and> id_of m n = Some r"
    then have r: "id_of m n = Some r" by simp
    let ?b = "batch_delete (repo_by_id r) (batch_delete (repo_by_name n) batch_new)"
    have tb: "apply_ops ?b m = drop_name m n r" by (simp add: batch_delete_def batch_new_def drop_name_def)
    show "wp (rg_apply G ?b) (\<lambda>_. wp (forget_repo G n r)
        (\<lambda>_ s'. \<exists>m'. Inr (Some r, drop_name m n r) = Inr (Some r, m') \<and> holds m' s')
        (\<lambda>e s'. holds m s' \<and> (Inr (Some r, drop_name m n r) = Inl e \<or> engine_error may_fail e)))
        (\<lambda>e s'. holds m s' \<and> (Inr (Some r, drop_name m n r) = Inl e \<or> engine_error may_fail e)) t"
      by (rule wp_release [OF h r])
        (use tb store_ok_drop [OF holdsD(4) [OF h]] in \<open>auto simp: bounded_batch_def bounded_op_def batch_delete_def batch_new_def\<close>)
  qed
  have whole: "commits_on (\<lambda>m. known m \<and> id_of m n = Some r) holds may_fail
      (bind_a (?keep r) (\<lambda>keep. if keep then return_a None
         else bind_a (rg_apply G (batch_delete (repo_by_id r) (batch_delete (repo_by_name n) batch_new))) (\<lambda>_.
                bind_a (forget_repo G n r) (\<lambda>_. return_a (Some r)))))
      (\<lambda>m. and_then (Inr (\<not> (r < watermark \<and> r \<notin> set live \<and> vacant m r)))
         (\<lambda>keep. if keep then Inr (None, m) else Inr (Some r, drop_name m n r)))" for known r
    by (rule commits_on_bind [OF keep], rule commits_on_if, rule commits_on_return)
      (rule commits_on_weaken [OF tail [of known]], simp)
  have "commits_on (\<lambda>_. True) holds may_fail (retire_repo G n live watermark) (\<lambda>m.
      and_then (Inr (id_of m n)) (\<lambda>found. case found of None \<Rightarrow> Inr (None, m)
        | Some r \<Rightarrow> and_then (Inr (\<not> (r < watermark \<and> r \<notin> set live \<and> vacant m r)))
            (\<lambda>keep. if keep then Inr (None, m) else Inr (Some r, drop_name m n r))))"
    unfolding retire_repo_def
  proof (rule commits_on_bind [OF refines_lookup_repo], rule commits_on_option, rule commits_on_return)
    fix found :: "repo_id option" and r :: repo_id assume "found = Some r"
    then show "commits_on (\<lambda>m. True \<and> Inr (id_of m n) = Inr found) holds may_fail
      (bind_a (?keep r) (\<lambda>keep. if keep then return_a None
         else bind_a (rg_apply G (batch_delete (repo_by_id r) (batch_delete (repo_by_name n) batch_new))) (\<lambda>_.
                bind_a (forget_repo G n r) (\<lambda>_. return_a (Some r)))))
      (\<lambda>m. and_then (Inr (\<not> (r < watermark \<and> r \<notin> set live \<and> vacant m r)))
         (\<lambda>keep. if keep then Inr (None, m) else Inr (Some r, drop_name m n r)))"
      by (intro commits_on_weaken [OF whole [of "\<lambda>_. True"]]) simp
  qed
  then show ?thesis by (intro commits_onD, elim commits_on_cong) (auto split: option.split)
qed


end

section \<open>The marks\<close>

text \<open>A page as the list of what its keys stand for.\<close>

lemma scan_list_map:
  assumes "finite (dom m)" and "sorted_wrt (\<lambda>x y. key x < key y) xs"
    and "set xs = {x. m (key x) \<noteq> None \<and> after a (key x)}"
    and "\<And>k. m k \<noteq> None \<Longrightarrow> prefix p k \<Longrightarrow> \<exists>x. k = key x" and "\<And>x. prefix p (key x)"
  shows "scan_list m p a = map (\<lambda>x. (key x, the (m (key x)))) xs"
proof (rule sorted_entries_unique [OF sorted_scan_list])
  show "sorted_wrt (<) (map fst (map (\<lambda>x. (key x, the (m (key x)))) xs))"
    using assms(2) by (simp add: comp_def sorted_wrt_map)
  show "set (scan_list m p a) = set (map (\<lambda>x. (key x, the (m (key x)))) xs)"
    unfolding set_scan_list [OF assms(1)] set_map assms(3) using assms(4,5) by force
qed

definition blob_digest :: "entry \<Rightarrow> digest" where
  "blob_digest e = (case digest_of_blob_key (fst e) of Inr d \<Rightarrow> d | Inl _ \<Rightarrow> undefined)"

lemma digest_of_blob_key [simp]: "digest_of_blob_key (blob_key d) = Inr d"
  by (simp add: digest_of_blob_key_def data_keys get_from_def)

lemma blob_digest_key [simp]: "blob_digest (blob_key d, v) = d"
  by (simp add: blob_digest_def)

lemma blob_keys:
  assumes "entries_ok lib m" and "m k \<noteq> None" and "prefix blobs k"
  shows "\<exists>d. k = blob_key d"
proof -
  obtain sk where sk: "k = encode_key sk" "wf_key sk" using entries_ok_key [OF assms(1,2)] by metis
  with assms(3) show ?thesis by (cases sk) (auto simp: key_defs)
qed

definition mark_ops :: "libs \<Rightarrow> store \<Rightarrow> timestamp \<Rightarrow> digest \<Rightarrow> write_batch" where
  "mark_ops lib m now d =
     (if referenced m d then (if mark_at lib m d \<noteq> None then [Delete (blob_mark_key d)] else [])
      else if mark_at lib m d = None
           then [Put (blob_mark_key d) (stored_as (lb_mark lib) \<lparr> bm_seen_at = secs now \<rparr>)] else [])"

definition ripe :: "libs \<Rightarrow> store \<Rightarrow> timestamp \<Rightarrow> digest \<Rightarrow> bool" where
  "ripe lib m before d \<longleftrightarrow> \<not> referenced m d \<and> (\<exists>mk. mark_at lib m d = Some mk \<and> bm_seen_at mk \<le> secs before)"

definition scan_result :: "libs \<Rightarrow> store \<Rightarrow> timestamp \<Rightarrow> digest list \<Rightarrow> blob_scan \<Rightarrow> blob_scan" where
  "scan_result lib m before ds scan = scan
     \<lparr> bs_marked := bs_marked scan + length (filter (\<lambda>d. \<not> referenced m d \<and> mark_at lib m d = None) ds),
       bs_unmarked := bs_unmarked scan + length (filter (\<lambda>d. referenced m d \<and> mark_at lib m d \<noteq> None) ds),
       bs_ripe := bs_ripe scan @ map (\<lambda>d. (d, br_size (the (blob_at lib m d)))) (filter (ripe lib m before) ds) \<rparr>"

lemma marks_ranged: "ranged {0x43} (concat (map (mark_ops lib m now) ds))"
  by (induction ds) (auto simp: mark_ops_def data_keys)

text \<open>Batches outside the ranges that the invariant relates to each other.\<close>

lemma store_ok_ranged:
  assumes ok: "store_ok lib m" and b: "ranged hs b" and hs: "hs \<inter> {0x4D, 0x5A, 0x54, 0x47, 0x42, 0x52, 0x53} = {}"
    and good: "\<And>k v. Put k v \<in> set b \<Longrightarrow> good_entry lib k v"
  shows "store_ok lib (apply_ops b m)"
proof -
  have other: "apply_ops b m (h # x) = m (h # x)" if "h \<in> {0x4D, 0x5A, 0x54, 0x47, 0x42, 0x52, 0x53}" for h x
    by (rule ranged_untouched [OF b]) (use that hs in blast)
  have "entries_ok lib (apply_ops b m)"
    using ok good by (intro entries_ok_apply) (auto simp: store_ok_def)
  moreover have "tags_ok lib (apply_ops b m)" "bodies_ok lib (apply_ops b m)" "edges_ok lib (apply_ops b m)"
    using ok unfolding store_ok_def
    by (auto elim!: tags_ok_cong bodies_ok_cong edges_ok_cong simp: data_keys other)
  ultimately show ?thesis by (simp add: store_ok_def)
qed

text \<open>The pure form of one step, and of the loop over a page.\<close>

definition scan_step_at ::
    "libs \<Rightarrow> timestamp \<Rightarrow> timestamp \<Rightarrow> store \<Rightarrow> entry \<Rightarrow> blob_scan \<times> write_batch \<Rightarrow> registry_error + blob_scan \<times> write_batch" where
  "scan_step_at lib before now m e acc =
     and_then (digest_of_blob_key (fst e)) (\<lambda>d.
       if ripe lib m before d
       then and_then (decode (lb_blob lib) (snd e) ''BlobRecord'') (\<lambda>record.
         Inr ((fst acc)\<lparr>bs_ripe := bs_ripe (fst acc) @ [(d, br_size record)]\<rparr>, snd acc))
       else Inr (scan_result lib m before [d] (fst acc), snd acc @ mark_ops lib m now d))"

lemma scan_loop_at:
  assumes "\<And>d. d \<in> set ds \<Longrightarrow> blob_at lib m d \<noteq> None"
  shows "for_r (map (\<lambda>d. (blob_key d, the (m (blob_key d)))) ds) (scan, b) (scan_step_at lib before now m)
    = Inr (scan_result lib m before ds scan, b @ concat (map (mark_ops lib m now) ds))"
  using assms
proof (induction ds arbitrary: scan b)
  case Nil
  show ?case by (simp add: scan_result_def)
next
  case (Cons d ds)
  from Cons.prems obtain v rec where v: "m (blob_key d) = Some v" "co_dec (lb_blob lib) v = Some rec"
    "blob_at lib m d = Some rec"
    by (fastforce simp: blob_at_def bind_eq_Some_conv)
  have "mark_ops lib m now d = []" if "ripe lib m before d"
    using that by (auto simp: ripe_def mark_ops_def)
  then have "scan_step_at lib before now m (blob_key d, the (m (blob_key d))) (scan, b)
      = Inr (scan_result lib m before [d] scan, b @ mark_ops lib m now d)"
    using v by (auto simp: scan_step_at_def decode_def scan_result_def ripe_def)
  with Cons show ?case by (simp add: scan_result_def)
qed

lemma blob_page:
  assumes "entries_ok lib m" and "finite (dom m)" and ds: "ds = map blob_digest (pg_entries (scan_page m blobs cursor limit))"
  shows "pg_entries (scan_page m blobs cursor limit) = map (\<lambda>d. (blob_key d, the (m (blob_key d)))) ds"
    and "\<And>d. d \<in> set ds \<Longrightarrow> blob_at lib m d \<noteq> None"
proof -
  have each: "e = (blob_key (blob_digest e), the (m (blob_key (blob_digest e)))) \<and> blob_at lib m (blob_digest e) \<noteq> None"
    if "e \<in> set (pg_entries (scan_page m blobs cursor limit))" for e
  proof -
    obtain k v where e: "e = (k, v)" by fastforce
    from scan_page_mem [OF assms(2) that [unfolded e]] have kv: "m k = Some v" "prefix blobs k" by simp_all
    then obtain d where "k = blob_key d" using blob_keys [OF assms(1)] by blast
    with kv e record_cases(4) [OF assms(1), of d] show ?thesis by auto
  qed
  then show "pg_entries (scan_page m blobs cursor limit) = map (\<lambda>d. (blob_key d, the (m (blob_key d)))) ds"
    unfolding ds map_map by (intro map_idI [symmetric]) (use each in simp)
  show "blob_at lib m d \<noteq> None" if "d \<in> set ds" for d
    using that each unfolding ds by auto
qed

lemma scan_page_loop:
  assumes "entries_ok lib m" and "finite (dom m)" and ds: "ds = map blob_digest (pg_entries (scan_page m blobs cursor limit))"
  shows "for_r (pg_entries (scan_page m blobs cursor limit)) (scan, b) (scan_step_at lib before now m)
    = Inr (scan_result lib m before ds scan, b @ concat (map (mark_ops lib m now) ds))"
proof -
  note page = blob_page [OF assms]
  have "for_r (map (\<lambda>d. (blob_key d, the (m (blob_key d)))) ds) (scan, b) (scan_step_at lib before now m)
    = Inr (scan_result lib m before ds scan, b @ concat (map (mark_ops lib m now) ds))"
    by (rule scan_loop_at) (rule page(2))
  then show ?thesis by (simp only: page(1) [symmetric])
qed

context registry_env
begin

lemma commits_on_apply_if:
  assumes "\<And>m. store_ok (rg_libs G) m \<Longrightarrow> finite (dom m) \<Longrightarrow> known m \<Longrightarrow>
      bounded_batch b \<and> nameless b \<and> store_ok (rg_libs G) (apply_ops b m)"
  shows "commits_on known holds may_fail
    (bind_a (if \<not> report_only \<and> \<not> batch_is_empty b then rg_apply G b else return_a ()) (\<lambda>_. return_a x))
    (\<lambda>m. Inr (x, if report_only then m else apply_ops b m))"
proof (cases "\<not> report_only \<and> \<not> batch_is_empty b")
  case True
  with commits_on_apply [OF assms] show ?thesis by simp
next
  case False
  then show ?thesis by (auto simp: commits_on_def wp_simps batch_is_empty_def)
qed

lemma refines_scan_step:
  "refines holds may_fail (scan_blob_step G before now e acc) (\<lambda>m. scan_step_at (rg_libs G) before now m e acc)"
proof -
  obtain k v scan b where *: "e = (k, v)" "acc = (scan, b)" by (metis surj_pair)
  show ?thesis
    unfolding scan_blob_step_def * prod.case coders scan_step_at_def
    by (rule refines_cong, (rule refines_intros refines_mark refines_referenced)+)
      (auto simp: ripe_def scan_result_def mark_ops_def batch_put_def batch_delete_def and_then_def
        split: option.split sum.split)
qed

lemma commits_scan_blobs:
  assumes "under blobs cursor"
  shows "commits holds may_fail (scan_blobs G cursor limit before now report_only) (\<lambda>m.
    let page = scan_page m blobs cursor limit; ds = map blob_digest (pg_entries page) in
    Inr (scan_result (rg_libs G) m before ds
           \<lparr> bs_examined = length ds, bs_marked = 0, bs_unmarked = 0, bs_ripe = [], bs_next = pg_next page \<rparr>,
         if report_only then m else apply_ops (concat (map (mark_ops (rg_libs G) m now) ds)) m))"
proof -
  let ?lib = "rg_libs G"
  let ?ds = "\<lambda>m. map blob_digest (pg_entries (scan_page m blobs cursor limit))"
  let ?start = "\<lambda>page. (\<lparr> bs_examined = length (pg_entries page), bs_marked = 0, bs_unmarked = 0, bs_ripe = [], bs_next = pg_next page \<rparr>, batch_new)"
  have res: "resumable blobs" by (auto simp: resumable_def group_within_def prefix_def scan_prefixes no_group)
  have "commits_on (\<lambda>_. True) holds may_fail (scan_blobs G cursor limit before now report_only) (\<lambda>m.
      and_then (Inr (scan_page m blobs cursor limit)) (\<lambda>page.
      and_then (for_r (pg_entries page) (?start page) (scan_step_at (rg_libs G) before now m)) (\<lambda>p.
        case p of (scan, batch) \<Rightarrow> Inr (scan, if report_only then m else apply_ops batch m))))"
    unfolding scan_blobs_def Let_def
  proof (rule commits_on_bind [OF refines_scan_in [OF res assms]], rule commits_on_bind [OF refines_for [OF refines_scan_step]],
      rule commits_on_pair, rule commits_on_apply_if)
    fix page p scan batch m
    assume "store_ok ?lib m" "finite (dom m)" "p = (scan, batch)"
      "(True \<and> Inr (scan_page m blobs cursor limit) = Inr page) \<and> for_r (pg_entries page) (?start page) (\<lambda>x acc. scan_step_at (rg_libs G) before now m x acc) = Inr p"
    then have ok: "store_ok ?lib m" "finite (dom m)" and e: "entries_ok ?lib m"
      and run: "for_r (pg_entries (scan_page m blobs cursor limit)) (?start (scan_page m blobs cursor limit))
        (scan_step_at ?lib before now m) = Inr (scan, batch)" by (auto simp: store_ok_def)
    have batch: "batch = concat (map (mark_ops ?lib m now) (?ds m))"
      using run unfolding scan_page_loop [OF e ok(2) refl] by (simp add: batch_new_def)
    have "good_entry ?lib k v" if "Put k v \<in> set batch" for k v
      using that by (auto simp: batch mark_ops_def coders split: if_splits)
    then have "store_ok ?lib (apply_ops batch m)"
      by (intro store_ok_ranged [OF ok(1) marks_ranged [of ?lib m now "?ds m", folded batch]]) auto
    moreover have "ranged {0x43} batch" unfolding batch by (rule marks_ranged)
    ultimately show "bounded_batch batch \<and> nameless batch \<and> store_ok ?lib (apply_ops batch m)"
      using ranged_bounded ranged_nameless by force
  qed
  then show ?thesis
  proof (rule commits_on_cong [THEN commits_onD])
    fix m s assume h: "holds m s"
    show "and_then (Inr (scan_page m blobs cursor limit)) (\<lambda>page.
        and_then (for_r (pg_entries page) (?start page) (scan_step_at ?lib before now m)) (\<lambda>p.
          case p of (scan, batch) \<Rightarrow> Inr (scan, if report_only then m else apply_ops batch m)))
      = (let page = scan_page m blobs cursor limit; ds = map blob_digest (pg_entries page) in
         Inr (scan_result ?lib m before ds
           \<lparr> bs_examined = length ds, bs_marked = 0, bs_unmarked = 0, bs_ripe = [], bs_next = pg_next page \<rparr>,
         if report_only then m else apply_ops (concat (map (mark_ops ?lib m now) ds)) m))"
      using scan_page_loop [OF holdsD(5) [OF h] holds_finite [OF h] refl]
      by (simp add: Let_def batch_new_def)
  qed
qed

end

section \<open>The memberships\<close>

definition membership_key :: "repo_id \<times> digest \<Rightarrow> bytes" where
  "membership_key x = repo_blob_key (fst x) (snd x)"

definition stale :: "libs \<Rightarrow> store \<Rightarrow> timestamp \<Rightarrow> repo_id \<times> digest \<Rightarrow> bool" where
  "stale lib m before x \<longleftrightarrow>
     (\<exists>rec. Option.bind (m (membership_key x)) (co_dec (lb_repo_blob lib)) = Some rec \<and> rb_added_at rec \<le> secs before)
     \<and> (\<forall>md. m (blob_ref_key (snd x) (fst x) md) = None)"

definition retract_ops :: "(repo_id \<times> digest) list \<Rightarrow> write_batch" where
  "retract_ops xs = map Delete (concat (map (\<lambda>x. [membership_key x, blob_mark_key (snd x)]) xs))"

definition membership_of :: "entry \<Rightarrow> repo_id \<times> digest" where
  "membership_of e = (case repo_of_membership (fst e) of Inr r \<Rightarrow> r | Inl _ \<Rightarrow> 0, the (digest_after_repo (fst e)))"

lemma repo_of_membership_key [simp]: "repo_of_membership (repo_blob_key r d) = Inr r"
  by (simp add: repo_of_membership_def data_keys get_range_def try_array_def)

lemma digest_of_membership_key [simp]: "digest_after_repo (repo_blob_key r d) = Some d"
  by (simp add: data_keys)

lemma membership_of_key [simp]: "membership_of (membership_key x, v) = x"
  by (simp add: membership_of_def membership_key_def)

lemma membership_keys:
  assumes "entries_ok lib m" and "m k \<noteq> None" and "prefix repo_blobs k"
  shows "\<exists>x. k = membership_key x"
proof -
  obtain sk where sk: "k = encode_key sk" "wf_key sk" using entries_ok_key [OF assms(1,2)] by metis
  with assms(3) show ?thesis by (cases sk) (auto simp: key_defs membership_key_def)
qed

lemma retract_ranged: "ranged {0x43, 0x50} (retract_ops xs)"
  by (induction xs) (auto simp: retract_ops_def membership_key_def data_keys)

lemma membership_page:
  assumes "entries_ok lib m" and "finite (dom m)" and xs: "xs = map membership_of (pg_entries (scan_page m repo_blobs cursor limit))"
  shows "pg_entries (scan_page m repo_blobs cursor limit) = map (\<lambda>x. (membership_key x, the (m (membership_key x)))) xs"
    and "\<And>x. x \<in> set xs \<Longrightarrow> m (membership_key x) \<noteq> None"
proof -
  have each: "e = (membership_key (membership_of e), the (m (membership_key (membership_of e))))
      \<and> m (membership_key (membership_of e)) \<noteq> None"
    if "e \<in> set (pg_entries (scan_page m repo_blobs cursor limit))" for e
  proof -
    obtain k v where e: "e = (k, v)" by fastforce
    from scan_page_mem [OF assms(2) that [unfolded e]] have kv: "m k = Some v" "prefix repo_blobs k" by simp_all
    then obtain x where "k = membership_key x" using membership_keys [OF assms(1)] by blast
    with kv e show ?thesis by auto
  qed
  then show "pg_entries (scan_page m repo_blobs cursor limit) = map (\<lambda>x. (membership_key x, the (m (membership_key x)))) xs"
    unfolding xs map_map by (intro map_idI [symmetric]) (use each in simp)
  show "m (membership_key x) \<noteq> None" if "x \<in> set xs" for x
    using that each unfolding xs by auto
qed

text \<open>The pure form of one step.\<close>

definition sweep_step_at ::
    "libs \<Rightarrow> timestamp \<Rightarrow> store \<Rightarrow> entry \<Rightarrow> write_batch \<times> nat \<Rightarrow> registry_error + write_batch \<times> nat" where
  "sweep_step_at lib before m e acc =
     (case (e, acc) of ((key, raw_bytes), (batch, retracted)) \<Rightarrow>
       and_then (repo_of_membership key) (\<lambda>repo.
       and_then (ok_or (corrupt ''P key'') (digest_after_repo key)) (\<lambda>d.
       and_then (decode (lb_repo_blob lib) raw_bytes ''RepoBlobRecord'') (\<lambda>record.
       if secs before < rb_added_at record then Inr (batch, retracted)
       else and_then (Inr (has_prefix m (blob_refs_in_repo d repo))) (\<lambda>refd.
         if refd then Inr (batch, retracted)
         else Inr (batch_delete (blob_mark_key d) (batch_delete key batch), retracted + 1))))))"

lemma sweep_page_loop:
  assumes e: "entries_ok lib m" and "finite (dom m)"
    and xs: "xs = map membership_of (pg_entries (scan_page m repo_blobs cursor limit))"
  shows "for_r (pg_entries (scan_page m repo_blobs cursor limit)) (b, n) (sweep_step_at lib before m)
    = Inr (b @ retract_ops (filter (stale lib m before) xs), n + length (filter (stale lib m before) xs))"
proof -
  note page = membership_page [OF assms]
  have step: "sweep_step_at lib before m (membership_key x, the (m (membership_key x))) (b, n) =
      Inr (if stale lib m before x then (b @ retract_ops [x], n + 1) else (b, n))" if "m (membership_key x) \<noteq> None" for x b n
  proof -
    obtain r d where x: "x = (r, d)" by fastforce
    from that obtain v where v: "m (repo_blob_key r d) = Some v" by (auto simp: x membership_key_def)
    with entries_okD [OF e v] obtain rec where rec: "co_dec (lb_repo_blob lib) v = Some rec" by auto
    show ?thesis
      using v rec by (auto simp: sweep_step_at_def x membership_key_def decode_def stale_def has_prefix_keys(1) [OF e]
          retract_ops_def batch_delete_def)
  qed
  have "for_r (map (\<lambda>x. (membership_key x, the (m (membership_key x)))) ys) (b, n) (sweep_step_at lib before m)
    = Inr (b @ retract_ops (filter (stale lib m before) ys), n + length (filter (stale lib m before) ys))"
    if "set ys \<subseteq> set xs" for ys
    using that
  proof (induction ys arbitrary: b n)
    case (Cons y ys)
    then show ?case using step [OF page(2), of y] by (auto simp: retract_ops_def)
  qed (simp add: retract_ops_def)
  from this [of xs] show ?thesis by (simp only: page(1) [symmetric] subset_refl)
qed

context registry_env
begin

lemma commits_sweep_repo_blobs:
  assumes "under repo_blobs cursor" and "grouped repo_blobs cursor"
  shows "commits holds may_fail (sweep_repo_blobs G cursor limit before report_only) (\<lambda>m.
    let page = scan_page m repo_blobs cursor limit; xs = filter (stale (rg_libs G) m before) (map membership_of (pg_entries page)) in
    Inr (\<lparr> mw_examined = length (pg_entries page), mw_retracted = length xs, mw_next = pg_next page \<rparr>,
         if report_only then m else apply_ops (retract_ops xs) m))"
proof -
  let ?lib = "rg_libs G"
  let ?xs = "\<lambda>m. filter (stale ?lib m before) (map membership_of (pg_entries (scan_page m repo_blobs cursor limit)))"
  have step: "refines holds may_fail ((\<lambda>(key, raw_bytes) (batch, retracted).
       bind_a (lift_a (repo_of_membership key)) (\<lambda>repo.
       bind_a (lift_a (ok_or (corrupt ''P key'') (digest_after_repo key))) (\<lambda>d.
       bind_a (lift_a (decode (lb_repo_blob ?lib) raw_bytes ''RepoBlobRecord'')) (\<lambda>record.
       if secs before < rb_added_at record then return_a (batch, retracted)
       else
         bind_a (rg_exists G (blob_refs_in_repo d repo)) (\<lambda>refd.
         if refd then return_a (batch, retracted)
         else return_a (batch_delete (blob_mark_key d) (batch_delete key batch), retracted + 1)))))) e acc)
     (\<lambda>m. sweep_step_at ?lib before m e acc)" for e and acc :: "write_batch \<times> nat"
  proof -
    obtain k v b n where *: "e = (k, v)" "acc = (b, n)" by (metis surj_pair)
    show ?thesis
      unfolding * prod.case sweep_step_at_def
      by (rule refines_cong, (rule refines_intros refines_exists)+) simp
  qed
  have "commits_on (\<lambda>_. True) holds may_fail (sweep_repo_blobs G cursor limit before report_only) (\<lambda>m.
      and_then (Inr (scan_page m repo_blobs cursor limit)) (\<lambda>page.
      and_then (for_r (pg_entries page) (batch_new, 0) (sweep_step_at ?lib before m)) (\<lambda>p.
        case p of (batch, retracted) \<Rightarrow>
          Inr (\<lparr> mw_examined = length (pg_entries page), mw_retracted = retracted, mw_next = pg_next page \<rparr>,
               if report_only then m else apply_ops batch m))))"
    unfolding sweep_repo_blobs_def
  proof (rule commits_on_bind [OF refines_scan [OF assms]], rule commits_on_bind [OF refines_for [OF step]],
      rule commits_on_pair, rule commits_on_apply_if)
    fix page p batch n m
    assume "store_ok ?lib m" "finite (dom m)" "p = (batch, n)"
      "(True \<and> Inr (scan_page m repo_blobs cursor limit) = Inr page)
        \<and> for_r (pg_entries page) (batch_new, 0) (\<lambda>x acc. sweep_step_at ?lib before m x acc) = Inr p"
    then have ok: "store_ok ?lib m" "finite (dom m)" and e: "entries_ok ?lib m"
      and run: "for_r (pg_entries (scan_page m repo_blobs cursor limit)) (batch_new, 0) (sweep_step_at ?lib before m) = Inr (batch, n)"
      by (auto simp: store_ok_def)
    have batch: "batch = retract_ops (?xs m)"
      using run unfolding sweep_page_loop [OF e ok(2) refl] by (simp add: batch_new_def)
    have r: "ranged {0x43, 0x50} batch" unfolding batch by (rule retract_ranged)
    moreover have "store_ok ?lib (apply_ops batch m)"
      by (rule store_ok_ranged [OF ok(1) r]) (auto simp: batch retract_ops_def)
    ultimately show "bounded_batch batch \<and> nameless batch \<and> store_ok ?lib (apply_ops batch m)"
      using ranged_bounded ranged_nameless by force
  qed
  then show ?thesis
  proof (rule commits_on_cong [THEN commits_onD])
    fix m s assume h: "holds m s"
    show "and_then (Inr (scan_page m repo_blobs cursor limit)) (\<lambda>page.
      and_then (for_r (pg_entries page) (batch_new, 0) (sweep_step_at ?lib before m)) (\<lambda>p.
        case p of (batch, retracted) \<Rightarrow>
          Inr (\<lparr> mw_examined = length (pg_entries page), mw_retracted = retracted, mw_next = pg_next page \<rparr>,
               if report_only then m else apply_ops batch m)))
      = (let page = scan_page m repo_blobs cursor limit; xs = filter (stale ?lib m before) (map membership_of (pg_entries page)) in
         Inr (\<lparr> mw_examined = length (pg_entries page), mw_retracted = length xs, mw_next = pg_next page \<rparr>,
              if report_only then m else apply_ops (retract_ops xs) m))"
      using sweep_page_loop [OF holdsD(5) [OF h] holds_finite [OF h] refl]
      by (simp add: Let_def batch_new_def)
  qed
qed

end

section \<open>Properties\<close>

text \<open>
  C25. A manifest is purged only when nothing keeps it: it is old enough, no tag names it, no index lists it and the subject it
  refers to, if any, is gone. Then exactly what a delete removes goes, with no tag among it; in every other case,
  and on every failure, the store is left as it was.
\<close>

theorem purge_manifest_guarded:
  assumes env: "registry_env G tbl ok fails names ids" and at: "at_store tbl ok names ids (rg_libs G) m s"
    and run: "purge_manifest G repo d before now s = (res, s')"
  shows "\<exists>m'. at_store tbl ok names ids (rg_libs G) m' s' \<and> (case res of
      Inl e \<Rightarrow> m' = m \<and> (e = NameUnknown repo \<and> id_of m repo = None \<or> engine_error fails e)
    | Inr None \<Rightarrow> m' = m \<and> (\<exists>r. id_of m repo = Some r
        \<and> (\<forall>rec. manifest_at (rg_libs G) m r d = Some rec \<longrightarrow> \<not> purgeable (rg_libs G) m r rec before))
    | Inr (Some out) \<Rightarrow> (\<exists>r rec. id_of m repo = Some r \<and> manifest_at (rg_libs G) m r d = Some rec
        \<and> purgeable (rg_libs G) m r rec before \<and> md_digest out = d \<and> md_removed_tags out = []
        \<and> (\<forall>q e. manifest_at (rg_libs G) m' q e = (if q = r \<and> e = d then None else manifest_at (rg_libs G) m q e))
        \<and> (\<forall>q t. tag_at (rg_libs G) m' q t = tag_at (rg_libs G) m q t)
        \<and> (\<forall>b q e. m' (blob_ref_key b q e) = (if q = r \<and> e = d then None else m (blob_ref_key b q e)))
        \<and> (\<forall>b. m' (blob_key b) = m (blob_key b))))"
proof -
  let ?lib = "rg_libs G"
  note c = commits_run [OF registry_env.commits_purge_manifest [OF env] at run]
  have fin: "finite (dom m)" and ok: "store_ok ?lib m"
    using registry_env.holds_finite [OF env at] at by (simp_all add: at_store_def)
  consider (fails) e where "res = Inl e" | (kept) "res = Inr None" | (gone) out where "res = Inr (Some out)"
    by (metis option.exhaust sum.exhaust)
  then show ?thesis
  proof cases
    case fails
    with c show ?thesis
      by (intro exI [of _ m]) (auto simp: and_then_def ok_or_def split: sum.splits option.splits if_splits)
  next
    case kept
    with c show ?thesis
      by (intro exI [of _ m]) (auto simp: and_then_Inr ok_or_def split: option.splits if_splits)
  next
    case gone
    with c obtain r rec m' where m': "at_store tbl ok names ids ?lib m' s'"
      and *: "id_of m repo = Some r" "manifest_at ?lib m r d = Some rec" "purgeable ?lib m r rec before"
        "out = \<lparr> md_digest = d, md_removed_tags = [] \<rparr>"
      and b: "m' = apply_ops (manifest_delete_ops ?lib m r d rec now) m"
      by (auto simp: and_then_Inr ok_or_def split: option.splits if_splits)
    note ats = manifest_delete_at [OF ok fin *(2) b]
    have rec: "mr_digest rec = d"
      using manifest_at_id(2) [OF _ *(2)] ok by (simp add: store_ok_def)
    have "map_option tr_digest (tag_at ?lib m r t) \<noteq> Some d" for t
      using *(3) unfolding purgeable_def rec by blast
    then have tag: "tag_at ?lib m' q t = tag_at ?lib m q t" for q t
      by (auto simp: tag_at_def ats(5))
    have man: "manifest_at ?lib m' q x = (if q = r \<and> x = d then None else manifest_at ?lib m q x)" for q x
      by (simp add: manifest_at_def ats)
    have blob: "m' (blob_key x) = m (blob_key x)" for x
      unfolding b data_keys by (rule ranged_untouched [OF manifest_delete_ranged]) simp
    show ?thesis
      unfolding gone sum.case option.case using m' * tag man blob ats(3)
      by (intro exI [of _ m'] conjI exI [of _ r] exI [of _ rec] allI) simp_all
  qed
qed

lemma demo_purgeable: "purgeable demo_libs demo_store 0 demo_record (Timestamp 1000)"
proof -
  have "demo_store (child_parent_key 0 demo_digest p) = None" for p
    by (simp add: demo_store_def one_repo_def key_defs)
  then show ?thesis by (simp add: purgeable_def demo_record_def)
qed

theorem purge_manifest_guarded_witness:
  "\<exists>s'. purge_manifest demo_registry ''a'' demo_digest (Timestamp 1000) (Timestamp 2000) demo_state
     = (Inr (Some \<lparr> md_digest = demo_digest, md_removed_tags = [] \<rparr>), s')"
proof -
  obtain res s' where run: "purge_manifest demo_registry ''a'' demo_digest (Timestamp 1000) (Timestamp 2000) demo_state = (res, s')"
    by fastforce
  consider (fails) e where "res = Inl e" | (kept) "res = Inr None" | (gone) out where "res = Inr (Some out)"
    by (metis option.exhaust sum.exhaust)
  then show ?thesis
    by cases (use purge_manifest_guarded [OF dr.registry_env_axioms at_store_demo run] run demo_purgeable in
      \<open>auto simp: engine_error_def intro!: manifest_deleted.equality\<close>)
qed

text \<open>
  C4. A blob is collected only when its record exists, its mark has stood since the given time and no manifest of any
  repository references it. Collecting removes its record and its mark and nothing else, and returns the size that
  was on record; in every other case, and when the engine fails, the store is left as it was.
\<close>

theorem collect_blob_safe:
  assumes env: "registry_env G tbl ok fails names ids" and at: "at_store tbl ok names ids (rg_libs G) m s"
    and run: "collect_blob G d before s = (res, s')"
  shows "case res of
      Inl e \<Rightarrow> at_store tbl ok names ids (rg_libs G) m s' \<and> engine_error fails e
    | Inr None \<Rightarrow> at_store tbl ok names ids (rg_libs G) m s'
        \<and> (blob_at (rg_libs G) m d = None \<or> \<not> ripe (rg_libs G) m before d)
    | Inr (Some n) \<Rightarrow> at_store tbl ok names ids (rg_libs G) (m(blob_key d := None, blob_mark_key d := None)) s'
        \<and> ripe (rg_libs G) m before d \<and> (\<exists>rec. blob_at (rg_libs G) m d = Some rec \<and> br_size rec = n)"
  using commits_run [OF registry_env.commits_collect_blob [OF env] at run]
  by (auto simp: ripe_def not_less split: sum.splits option.splits if_splits)

theorem collect_blob_safe_witness: "\<exists>s'. collect_blob demo_registry demo_digest (Timestamp 0) demo_state = (Inr None, s')"
proof -
  obtain res s' where run: "collect_blob demo_registry demo_digest (Timestamp 0) demo_state = (res, s')" by fastforce
  have "blob_at demo_libs demo_store demo_digest = None"
    by (simp add: blob_at_def demo_store_def one_repo_def key_defs)
  with collect_blob_safe [OF dr.registry_env_axioms at_store_demo run] run show ?thesis
    by (auto simp: engine_error_def split: sum.splits option.splits)
qed

lemma marks_at:
  "apply_ops (concat (map (mark_ops lib m now) ds)) m0 (blob_mark_key d) =
    (if d \<in> set ds \<and> mark_ops lib m now d \<noteq> [] then
       (if referenced m d then None else Some (stored_as (lb_mark lib) \<lparr> bm_seen_at = secs now \<rparr>))
     else m0 (blob_mark_key d))"
proof (induction ds arbitrary: m0)
  case (Cons x ds)
  have "apply_ops (mark_ops lib m now x) m0 (blob_mark_key d) =
      (if x = d \<and> mark_ops lib m now d \<noteq> [] then
         (if referenced m d then None else Some (stored_as (lb_mark lib) \<lparr> bm_seen_at = secs now \<rparr>))
       else m0 (blob_mark_key d))"
    by (auto simp: mark_ops_def key_codes data_keys)
  with Cons show ?case by (auto simp: apply_ops_append)
qed simp

text \<open>
  C26. One page of the blob pass gives every blob on it the mark it should have: a referenced blob loses its mark, an
  unreferenced one without a mark gets the present time, an older mark stays. What it reports as ripe are exactly the
  unreferenced blobs of the page whose mark has stood for the grace period, with their sizes. A dry run reports the same
  and writes nothing; nothing but marks is ever written.
\<close>

theorem scan_blobs_marks:
  assumes env: "registry_env G tbl ok fails names ids" and at: "at_store tbl ok names ids (rg_libs G) m s"
    and cursor: "under blobs cursor" and run: "scan_blobs G cursor limit before now report_only s = (res, s')"
  shows "\<exists>m' ds. at_store tbl ok names ids (rg_libs G) m' s'
    \<and> map blob_key ds = map fst (pg_entries (scan_page m blobs cursor limit)) \<and> (case res of
      Inl e \<Rightarrow> m' = m \<and> engine_error fails e
    | Inr out \<Rightarrow> bs_examined out = length ds \<and> bs_next out = pg_next (scan_page m blobs cursor limit)
        \<and> bs_ripe out = map (\<lambda>d. (d, br_size (the (blob_at (rg_libs G) m d)))) (filter (ripe (rg_libs G) m before) ds)
        \<and> bs_marked out = length (filter (\<lambda>d. \<not> referenced m d \<and> mark_at (rg_libs G) m d = None) ds)
        \<and> bs_unmarked out = length (filter (\<lambda>d. referenced m d \<and> mark_at (rg_libs G) m d \<noteq> None) ds)
        \<and> (\<forall>d. mark_at (rg_libs G) m' d =
             (if report_only \<or> d \<notin> set ds then mark_at (rg_libs G) m d
              else if referenced m d then None
              else Some (case mark_at (rg_libs G) m d of None \<Rightarrow> \<lparr> bm_seen_at = secs now \<rparr> | Some mk \<Rightarrow> mk)))
        \<and> (\<forall>h k. h \<noteq> 0x43 \<longrightarrow> m' (h # k) = m (h # k)))"
proof -
  let ?lib = "rg_libs G"
  define ds where "ds = map blob_digest (pg_entries (scan_page m blobs cursor limit))"
  note c = commits_run [OF registry_env.commits_scan_blobs [OF env cursor] at run, unfolded Let_def, folded ds_def]
  have fin: "finite (dom m)" and e: "entries_ok ?lib m"
    using registry_env.holds_finite [OF env at] at by (simp_all add: at_store_def store_ok_def)
  have dec: "co_dec (lb_mark ?lib) (stored_as (lb_mark ?lib) x) = Some x" for x
    using library_code.coders [OF registry_env.axioms(2) [OF env]] by simp
  have keys: "map blob_key ds = map fst (pg_entries (scan_page m blobs cursor limit))"
    unfolding blob_page(1) [OF e fin ds_def] by simp
  show ?thesis
  proof (cases res)
    case (Inl e)
    with c keys show ?thesis by (intro exI [of _ m] exI [of _ ds]) auto
  next
    case (Inr out)
    define b where "b = concat (map (mark_ops ?lib m now) ds)"
    define m' where "m' = (if report_only then m else apply_ops b m)"
    from c Inr have m': "at_store tbl ok names ids ?lib m' s'"
      and out: "out = scan_result ?lib m before ds \<lparr> bs_examined = length ds, bs_marked = 0, bs_unmarked = 0, bs_ripe = [],
          bs_next = pg_next (scan_page m blobs cursor limit) \<rparr>"
      by (auto simp: m'_def b_def)
    have mark: "mark_at ?lib m' d = (if report_only \<or> d \<notin> set ds then mark_at ?lib m d
              else if referenced m d then None
              else Some (case mark_at ?lib m d of None \<Rightarrow> \<lparr> bm_seen_at = secs now \<rparr> | Some mk \<Rightarrow> mk))" for d
      using marks_at [of ?lib m now ds m d]
      by (auto simp: m'_def b_def mark_at_def mark_ops_def dec split: option.split if_splits)
    have "m' (h # k) = m (h # k)" if "h \<noteq> 0x43" for h k
      using ranged_untouched [OF marks_ranged, of h ?lib m now ds m k] that by (simp add: m'_def b_def)
    with m' keys mark show ?thesis
      unfolding Inr sum.case out by (intro exI [of _ m'] exI [of _ ds]) (simp add: scan_result_def)
  qed
qed

theorem scan_blobs_marks_witness:
  "\<exists>s' out. scan_blobs demo_registry None 5 (Timestamp 0) (Timestamp 0) False demo_state = (Inr out, s') \<and> bs_ripe out = []"
proof -
  obtain res s' where run: "scan_blobs demo_registry None 5 (Timestamp 0) (Timestamp 0) False demo_state = (res, s')" by fastforce
  have no: "mark_at demo_libs demo_store d = None" for d
    by (simp add: mark_at_def demo_store_def one_repo_def key_defs)
  from scan_blobs_marks [OF dr.registry_env_axioms at_store_demo under_None run] obtain out where "res = Inr out" "bs_ripe out = []"
    by (cases res) (auto simp: engine_error_def ripe_def no)
  with run show ?thesis by blast
qed

text \<open>
  One page of the membership pass retracts exactly the memberships of the page that are old enough and whose repository
  has no manifest referencing the blob, and withdraws the mark of each such blob so that its grace period starts over;
  no other key changes. The page may begin anywhere that the engine can resume, which on RocksDB is the start or a
  cursor in the last repository.
\<close>

theorem sweep_memberships_exact:
  assumes env: "registry_env G tbl ok fails names ids" and at: "at_store tbl ok names ids (rg_libs G) m s"
    and cursor: "under repo_blobs cursor" "grouped repo_blobs cursor"
    and run: "sweep_repo_blobs G cursor limit before report_only s = (res, s')"
  shows "\<exists>m' xs. at_store tbl ok names ids (rg_libs G) m' s'
    \<and> map (\<lambda>x. repo_blob_key (fst x) (snd x)) xs = map fst (pg_entries (scan_page m repo_blobs cursor limit)) \<and> (case res of
      Inl e \<Rightarrow> m' = m \<and> engine_error fails e
    | Inr out \<Rightarrow> mw_examined out = length xs \<and> mw_next out = pg_next (scan_page m repo_blobs cursor limit)
        \<and> mw_retracted out = length (filter (stale (rg_libs G) m before) xs)
        \<and> (\<forall>r d. m' (repo_blob_key r d) =
             (if \<not> report_only \<and> (r, d) \<in> set xs \<and> stale (rg_libs G) m before (r, d) then None else m (repo_blob_key r d)))
        \<and> (\<forall>d. m' (blob_mark_key d) =
             (if \<not> report_only \<and> (\<exists>r. (r, d) \<in> set xs \<and> stale (rg_libs G) m before (r, d)) then None else m (blob_mark_key d)))
        \<and> (\<forall>h k. h \<notin> {0x43, 0x50} \<longrightarrow> m' (h # k) = m (h # k)))"
proof -
  let ?lib = "rg_libs G"
  define xs where "xs = map membership_of (pg_entries (scan_page m repo_blobs cursor limit))"
  note c = commits_run [OF registry_env.commits_sweep_repo_blobs [OF env cursor] at run, unfolded Let_def, folded xs_def]
  have fin: "finite (dom m)" and e: "entries_ok ?lib m"
    using registry_env.holds_finite [OF env at] at by (simp_all add: at_store_def store_ok_def)
  note page = membership_page(1) [OF e fin xs_def]
  have keys: "map (\<lambda>x. repo_blob_key (fst x) (snd x)) xs = map fst (pg_entries (scan_page m repo_blobs cursor limit))"
    unfolding page by (simp add: membership_key_def)
  have len: "length (pg_entries (scan_page m repo_blobs cursor limit)) = length xs"
    by (simp add: xs_def)
  show ?thesis
  proof (cases res)
    case (Inl e)
    with c keys show ?thesis by (intro exI [of _ m] exI [of _ xs]) auto
  next
    case (Inr out)
    define ys where "ys = filter (stale ?lib m before) xs"
    define m' where "m' = (if report_only then m else apply_ops (retract_ops ys) m)"
    from c Inr have m': "at_store tbl ok names ids ?lib m' s'"
      and out: "out = \<lparr> mw_examined = length xs, mw_retracted = length ys, mw_next = pg_next (scan_page m repo_blobs cursor limit) \<rparr>"
      by (auto simp: m'_def ys_def len)
    have at_k: "m' k = (if \<not> report_only \<and> (\<exists>x \<in> set ys. k = membership_key x \<or> k = blob_mark_key (snd x)) then None else m k)" for k
      unfolding m'_def retract_ops_def apply_deletes by auto
    have mem: "m' (repo_blob_key r d) = (if \<not> report_only \<and> (r, d) \<in> set ys then None else m (repo_blob_key r d))" for r d
      unfolding at_k by (auto simp: membership_key_def data_keys key_codes)
    have mark: "m' (blob_mark_key d) = (if \<not> report_only \<and> (\<exists>r. (r, d) \<in> set ys) then None else m (blob_mark_key d))" for d
      unfolding at_k by (force simp: membership_key_def data_keys key_codes)
    have "m' (h # k) = m (h # k)" if "h \<notin> {0x43, 0x50}" for h k
      unfolding at_k using that by (auto simp: membership_key_def data_keys)
    with m' keys mem mark show ?thesis
      unfolding Inr sum.case out by (intro exI [of _ m'] exI [of _ xs]) (simp add: ys_def)
  qed
qed

theorem sweep_memberships_exact_witness:
  "\<exists>s' out. sweep_repo_blobs demo_registry None 5 (Timestamp 0) False demo_state = (Inr out, s') \<and> mw_next out = pg_next (scan_page demo_store repo_blobs None 5)"
proof -
  obtain res s' where run: "sweep_repo_blobs demo_registry None 5 (Timestamp 0) False demo_state = (res, s')" by fastforce
  have "grouped repo_blobs None" by (simp add: grouped_def)
  from sweep_memberships_exact [OF dr.registry_env_axioms at_store_demo under_None this run]
  obtain out where "res = Inr out" "mw_next out = pg_next (scan_page demo_store repo_blobs None 5)"
    by (cases res) (auto simp: engine_error_def)
  with run show ?thesis by blast
qed

text \<open>
  A name is retired only when its id is below the watermark, is not in use and has nothing stored under it: no
  manifest, membership, tag, event or counter. Retiring removes the two entries of the name, so that it no longer
  resolves and a later push gets a new id, and no other key; in every other case, and when the engine fails, the
  store is left as it was.
\<close>

theorem retire_repo_correct:
  assumes env: "registry_env G tbl ok fails names ids" and at: "at_store tbl ok names ids (rg_libs G) m s"
    and run: "retire_repo G n live watermark s = (res, s')"
  shows "case res of
      Inl e \<Rightarrow> at_store tbl ok names ids (rg_libs G) m s' \<and> engine_error fails e
    | Inr None \<Rightarrow> at_store tbl ok names ids (rg_libs G) m s'
        \<and> (\<forall>r. id_of m n = Some r \<longrightarrow> watermark \<le> r \<or> r \<in> set live \<or> \<not> vacant m r)
    | Inr (Some r) \<Rightarrow> id_of m n = Some r \<and> r < watermark \<and> r \<notin> set live \<and> vacant m r
        \<and> at_store tbl ok names ids (rg_libs G) (m(repo_by_name n := None, repo_by_id r := None)) s'"
  using commits_run [OF registry_env.commits_retire_repo [OF env] at run]
  by (auto simp: drop_name_def fun_upd_twist not_less split: sum.splits option.splits if_splits)

theorem retire_repo_correct_witness: "\<exists>s'. retire_repo demo_registry ''a'' [] 1 demo_state = (Inr None, s')"
proof -
  obtain res s' where run: "retire_repo demo_registry ''a'' [] 1 demo_state = (res, s')" by fastforce
  have "demo_store (encode_key (KManifest 0 demo_digest)) \<noteq> None"
    by (simp add: demo_store_def)
  moreover have "demo_store (encode_key (KManifest 0 demo_digest)) = None" if "vacant demo_store 0"
    by (rule that [unfolded vacant_def, rule_format]) simp
  ultimately have "\<not> vacant demo_store 0" by iprover
  with retire_repo_correct [OF dr.registry_env_axioms at_store_demo run] run show ?thesis
    by (auto simp: engine_error_def split: sum.splits option.splits)
qed

end
