(* ===== verification/Summ_Uploads.thy ===== *)
theory Summ_Uploads
  imports Summ_Purge
begin

text \<open>
  Upload sessions (\<open>summ-registry/src/uploads.rs\<close>): the records that make an upload resumable, the check that a
  session belongs to the repository it is used under, the repositories that open uploads keep alive, and the two
  textual forms of an upload id.
\<close>

section \<open>Sessions\<close>

definition plan_create_upload ::
    "('s, 'c) registry \<Rightarrow> string \<Rightarrow> bytes16 \<Rightarrow> string \<Rightarrow> timestamp \<Rightarrow> ('s, 'c, upload_session planned) op" where
  "plan_create_upload G repo uid algo now =
     bind_a (intern_repo G repo) (\<lambda>repo_id.
     let session = \<lparr> us_repo = repo_id, us_offset = 0, us_started_at = secs now, us_updated_at = secs now,
                     us_algorithm = algo, us_hasher_state = None \<rparr> in
     bind_a (lift_a (encode (lb_upload (rg_libs G)) session)) (\<lambda>v.
       return_a (session, batch_put (upload_key uid) v batch_new)))"

definition create_upload ::
    "('s, 'c) registry \<Rightarrow> string \<Rightarrow> bytes16 \<Rightarrow> string \<Rightarrow> timestamp \<Rightarrow> ('s, 'c, upload_session) op" where
  "create_upload G repo uid algo now = applied G (plan_create_upload G repo uid algo now)"

definition get_upload :: "('s, 'c) registry \<Rightarrow> bytes16 \<Rightarrow> ('s, 'c, upload_session option) op" where
  "get_upload G uid = get_record G (lb_upload (rg_libs G)) (upload_key uid) ''UploadSession''"

definition get_upload_in :: "('s, 'c) registry \<Rightarrow> string \<Rightarrow> bytes16 \<Rightarrow> ('s, 'c, upload_session option) op" where
  "get_upload_in G repo uid =
     bind_a (get_upload G uid) (\<lambda>found.
       case found of
         None \<Rightarrow> return_a None
       | Some session \<Rightarrow>
           bind_a (lookup_repo G repo) (\<lambda>r.
             return_a (case r of
                 Some repo_id \<Rightarrow> if repo_id = us_repo session then Some session else None
               | None \<Rightarrow> None)))"

definition plan_save_upload :: "('s, 'c) registry \<Rightarrow> bytes16 \<Rightarrow> upload_session \<Rightarrow> ('s, 'c, unit planned) op" where
  "plan_save_upload G uid session =
     bind_a (lift_a (encode (lb_upload (rg_libs G)) session)) (\<lambda>v.
       return_a ((), batch_put (upload_key uid) v batch_new))"

definition save_upload :: "('s, 'c) registry \<Rightarrow> bytes16 \<Rightarrow> upload_session \<Rightarrow> ('s, 'c, unit) op" where
  "save_upload G uid session = applied G (plan_save_upload G uid session)"

definition plan_delete_upload :: "bytes16 \<Rightarrow> unit planned" where
  "plan_delete_upload uid = ((), batch_delete (upload_key uid) batch_new)"

definition delete_upload :: "('s, 'c) registry \<Rightarrow> bytes16 \<Rightarrow> ('s, 'c, unit) op" where
  "delete_upload G uid = applied G (return_a (plan_delete_upload uid))"

definition live_upload_repos :: "('s, 'c) registry \<Rightarrow> nat \<Rightarrow> ('s, 'c, repo_id list) op" where
  "live_upload_repos G limit =
     bind_a (rg_scan G uploads None limit) (\<lambda>page.
     for_a (pg_entries page) [] (\<lambda>(_, val) repos.
       bind_a (lift_a (decode (lb_upload (rg_libs G)) val ''UploadSession'')) (\<lambda>session.
         return_a (if us_repo session \<notin> set repos then repos @ [us_repo session] else repos))))"

section \<open>Upload ids\<close>

fun format_from :: "nat \<Rightarrow> bytes \<Rightarrow> string" where
  "format_from i [] = []"
| "format_from i (b # bs) = (if i \<in> {4, 6, 8, 10} then ''-'' else []) @ hex_byte b @ format_from (i + 1) bs"

definition format_upload_id :: "bytes16 \<Rightarrow> string" where
  "format_upload_id uid = format_from 0 (raw16 uid)"

definition hex :: "byte \<Rightarrow> byte option" where
  "hex b =
     (if 0x30 \<le> b \<and> b \<le> 0x39 then Some (b - 0x30)
      else if 0x61 \<le> b \<and> b \<le> 0x66 then Some (b - 0x61 + 10)
      else if 0x41 \<le> b \<and> b \<le> 0x46 then Some (b - 0x41 + 10)
      else None)"

text \<open>The loop over the sixteen slots, with the digits that are left.\<close>

fun parse_slots :: "nat \<Rightarrow> bytes \<Rightarrow> (bytes \<times> bytes) option" where
  "parse_slots 0 nibbles = Some ([], nibbles)"
| "parse_slots (Suc n) nibbles =
     (case nibbles of
        hi # lo # rest \<Rightarrow>
          (case (hex hi, hex lo) of
             (Some h, Some l) \<Rightarrow>
               map_option (\<lambda>(slots, left). (or (push_bit 4 h) l # slots, left)) (parse_slots n rest)
           | _ \<Rightarrow> None)
      | _ \<Rightarrow> None)"

definition malformed :: "string \<Rightarrow> registry_error" where
  "malformed s = invalid (''malformed upload id '' @ s)"

definition parse_upload_id :: "string \<Rightarrow> registry_error + bytes16" where
  "parse_upload_id s =
     (case parse_slots 16 (filter (\<lambda>b. b \<noteq> 0x2D) (as_bytes s)) of
        None \<Rightarrow> Inl (malformed s)
      | Some (slots, left) \<Rightarrow> if left \<noteq> [] then Inl (malformed s) else Inr (arr16 slots))"

section \<open>The text of an upload id\<close>

definition ascii_lower :: "char \<Rightarrow> char" where
  "ascii_lower c = (if 65 \<le> (of_char c :: nat) \<and> of_char c \<le> (90 :: nat) then char_of ((of_char c :: nat) + 32) else c)"

lemma hex_char: "hex (char_byte c) = map_option word_of_nat (to_digit16 c)"
proof -
  define n where "n = (of_char c :: nat)"
  have "n < 256" using unat_byte_less [of "char_byte c"] by (simp add: unat_char_byte n_def)
  have c: "char_byte c = word_of_nat n" by (simp add: char_byte_def n_def)
  have le: "(0x30 :: byte) \<le> word_of_nat n \<longleftrightarrow> 48 \<le> n" "word_of_nat n \<le> (0x39 :: byte) \<longleftrightarrow> n \<le> 57"
    "(0x61 :: byte) \<le> word_of_nat n \<longleftrightarrow> 97 \<le> n" "word_of_nat n \<le> (0x66 :: byte) \<longleftrightarrow> n \<le> 102"
    "(0x41 :: byte) \<le> word_of_nat n \<longleftrightarrow> 65 \<le> n" "word_of_nat n \<le> (0x46 :: byte) \<longleftrightarrow> n \<le> 70"
    using \<open>n < 256\<close> by (simp_all add: word_le_nat_alt unat_of_nat)
  have "hex (word_of_nat n) = (if 48 \<le> n \<and> n \<le> 57 then Some (word_of_nat (n - 48))
      else if 97 \<le> n \<and> n \<le> 102 then Some (word_of_nat (n - 97 + 10))
      else if 65 \<le> n \<and> n \<le> 70 then Some (word_of_nat (n - 65 + 10)) else None)"
    unfolding hex_def le by (simp add: of_nat_diff)
  then show ?thesis
    unfolding c to_digit16_def Let_def n_def [symmetric] by auto
qed

lemma of_char_nat_less: "(of_char c :: nat) < 256"
  using unat_byte_less [of "char_byte c"] by (simp add: unat_char_byte)

lemma to_digit16_lower: "to_digit16 c = Some n \<longleftrightarrow> n < 16 \<and> ascii_lower c = hex_digit n"
proof
  assume *: "to_digit16 c = Some n"
  then have n: "n < 16" by (auto simp: to_digit16_def Let_def split: if_splits)
  have "(of_char (ascii_lower c) :: nat) = of_char (hex_digit n)"
    using * n of_char_nat_less [of c]
    by (auto simp: to_digit16_def Let_def of_char_hex_digit ascii_lower_def split: if_splits)
  with n show "n < 16 \<and> ascii_lower c = hex_digit n" by (metis char_of_char)
next
  assume "n < 16 \<and> ascii_lower c = hex_digit n"
  then have n: "n < 16" and "(of_char (ascii_lower c) :: nat) = of_char (hex_digit n)" by simp_all
  then show "to_digit16 c = Some n"
    using of_char_nat_less [of c]
    by (auto simp: to_digit16_def Let_def of_char_hex_digit ascii_lower_def split: if_splits)
qed

lemma parse_pair:
  "(\<exists>h l. hex (char_byte a) = Some h \<and> hex (char_byte b) = Some l \<and> x = or (push_bit 4 h) l)
    \<longleftrightarrow> [ascii_lower a, ascii_lower b] = hex_byte x"
proof -
  have x: "x = word_of_nat (16 * (unat x div 16) + unat x mod 16)" by (simp del: of_nat_add of_nat_mult)
  have "h = unat x div 16 \<and> l = unat x mod 16 \<longleftrightarrow> x = word_of_nat (16 * h + l)" if "h < 16" "l < 16" for h l
  proof
    assume "x = word_of_nat (16 * h + l)"
    then have "unat x = 16 * h + l" using that by (simp add: unat_of_nat del: of_nat_add of_nat_mult)
    with that show "h = unat x div 16 \<and> l = unat x mod 16" by simp
  qed (use x in iprover)
  then have digits: "i < 16 \<and> j < 16 \<and> x = or (push_bit 4 (word_of_nat i)) (word_of_nat j)
      \<longleftrightarrow> i = unat x div 16 \<and> j = unat x mod 16" for i j
    using unat_byte_digits [of x] join_nibbles [of i j] by metis
  have "(\<exists>h l. hex (char_byte a) = Some h \<and> hex (char_byte b) = Some l \<and> x = or (push_bit 4 h) l) \<longleftrightarrow>
      (\<exists>i j. to_digit16 a = Some i \<and> to_digit16 b = Some j \<and> x = or (push_bit 4 (word_of_nat i)) (word_of_nat j))"
    unfolding hex_char by blast
  also have "\<dots> \<longleftrightarrow> (\<exists>i j. ascii_lower a = hex_digit i \<and> ascii_lower b = hex_digit j \<and> i = unat x div 16 \<and> j = unat x mod 16)"
    unfolding to_digit16_lower digits [symmetric] by blast
  finally show ?thesis by (simp add: hex_byte_def)
qed

lemma parse_slots_text:
  "parse_slots n (as_bytes cs) = Some (slots, []) \<longleftrightarrow> length slots = n \<and> map ascii_lower cs = concat (map hex_byte slots)"
proof (induction n arbitrary: cs slots)
  case 0
  show ?case by (auto simp: as_bytes_def)
next
  case (Suc n)
  have two: "map ascii_lower cs = hex_byte x @ ys \<longleftrightarrow> (\<exists>a b rest. cs = a # b # rest \<and> [ascii_lower a, ascii_lower b] = hex_byte x
      \<and> map ascii_lower rest = ys)" for x ys
    by (auto simp: hex_byte_def map_eq_Cons_conv)
  show ?case
  proof (cases slots)
    case Nil
    then show ?thesis by (auto split: list.splits option.splits)
  next
    case (Cons x xs)
    have "parse_slots (Suc n) (as_bytes cs) = Some (x # xs, []) \<longleftrightarrow>
        (\<exists>a b rest h l. cs = a # b # rest \<and> hex (char_byte a) = Some h \<and> hex (char_byte b) = Some l \<and> x = or (push_bit 4 h) l
          \<and> parse_slots n (as_bytes rest) = Some (xs, []))"
      by (auto simp: as_bytes_def split: list.splits option.splits)
    also have "\<dots> \<longleftrightarrow> (\<exists>a b rest. cs = a # b # rest \<and> [ascii_lower a, ascii_lower b] = hex_byte x
        \<and> length xs = n \<and> map ascii_lower rest = concat (map hex_byte xs))"
      unfolding Suc parse_pair [symmetric] by blast
    finally show ?thesis unfolding Cons using two by auto
  qed
qed

lemma hex_byte_no_hyphen: "filter (\<lambda>c. c \<noteq> CHR ''-'') (hex_byte b) = hex_byte b"
  using unat_byte_digits [of b] of_char_hex_digit [of "unat b div 16"] of_char_hex_digit [of "unat b mod 16"]
  by (auto simp: hex_byte_def split: if_splits)

lemma format_from_digits: "filter (\<lambda>c. c \<noteq> CHR ''-'') (format_from i bs) = concat (map hex_byte bs)"
  by (induction bs arbitrary: i) (simp_all add: hex_byte_no_hyphen)

lemma lower_digits: "map ascii_lower (hex_byte b) = hex_byte b"
proof -
  have "ascii_lower (hex_digit n) = hex_digit n" if "n < 16" for n
    using hex_digit_facts(1) [OF that] by (simp add: to_digit16_lower)
  then show ?thesis by (simp add: hex_byte_def unat_byte_digits)
qed

text \<open>
  An upload id is accepted exactly when, without its hyphens and in lower case, it is the thirty-two hexadecimal
  digits of the key, and then it gives that key; everything else is refused as malformed. The form this registry
  writes is accepted and gives back the key it was written for.
\<close>

theorem upload_id_exact:
  "(parse_upload_id s = Inr u \<longleftrightarrow> map ascii_lower (filter (\<lambda>c. c \<noteq> CHR ''-'') s) = concat (map hex_byte (raw16 u)))
   \<and> ((\<exists>u. parse_upload_id s = Inr u) \<or> parse_upload_id s = Inl (malformed s))
   \<and> parse_upload_id (format_upload_id u) = Inr u"
proof -
  have strip: "filter (\<lambda>b. b \<noteq> 0x2D) (as_bytes s) = as_bytes (filter (\<lambda>c. c \<noteq> CHR ''-'') s)" for s
  proof -
    have "char_byte c = 0x2D \<longleftrightarrow> c = CHR ''-''" for c
      using char_byte_inject [of c "CHR ''-''"] by (simp add: char_byte_def)
    then show ?thesis by (induction s) simp_all
  qed
  have parse: "parse_upload_id s = Inr u \<longleftrightarrow>
      map ascii_lower (filter (\<lambda>c. c \<noteq> CHR ''-'') s) = concat (map hex_byte (raw16 u))" for s
  proof -
    let ?cs = "filter (\<lambda>c. c \<noteq> CHR ''-'') s"
    have "parse_upload_id s = Inr u \<longleftrightarrow> (\<exists>slots. parse_slots 16 (as_bytes ?cs) = Some (slots, []) \<and> arr16 slots = u)"
      by (auto simp: parse_upload_id_def strip split: option.split prod.split if_splits)
    also have "\<dots> \<longleftrightarrow> parse_slots 16 (as_bytes ?cs) = Some (raw16 u, [])"
      using parse_slots_text [of 16 ?cs] by (metis arr16_raw16 raw16_arr16)
    finally show ?thesis by (simp add: parse_slots_text)
  qed
  have "map ascii_lower (concat (map hex_byte bs)) = concat (map hex_byte bs)" for bs
    by (induction bs) (simp_all add: lower_digits)
  then have "parse_upload_id (format_upload_id u) = Inr u"
    by (simp add: parse format_upload_id_def format_from_digits)
  with parse show ?thesis by (auto simp: parse_upload_id_def split: option.split prod.split if_splits)
qed

section \<open>Sessions as functions of the store\<close>

definition upload_at :: "libs \<Rightarrow> store \<Rightarrow> bytes16 \<Rightarrow> upload_session option" where
  "upload_at lib m u = Option.bind (m (upload_key u)) (co_dec (lb_upload lib))"

definition new_session :: "repo_id \<Rightarrow> string \<Rightarrow> timestamp \<Rightarrow> upload_session" where
  "new_session r algo now = \<lparr> us_repo = r, us_offset = 0, us_started_at = secs now, us_updated_at = secs now,
     us_algorithm = algo, us_hasher_state = None \<rparr>"

lemma upload_ranged: "ranged {0x55} [Put (upload_key u) v]" "ranged {0x55} [Delete (upload_key u)]"
  by (simp_all add: data_keys)

context registry_env
begin

text \<open>A plan that does not depend on the store.\<close>

lemma batch_ok:
  assumes "store_ok (rg_libs G) m" and "ranged hs b" and "hs \<inter> {0x4D, 0x5A, 0x54, 0x47, 0x42, 0x52, 0x53, 0x6E, 0x69} = {}"
    and "\<And>k v. Put k v \<in> set b \<Longrightarrow> good_entry (rg_libs G) k v"
  shows "bounded_batch b \<and> nameless b \<and> store_ok (rg_libs G) (apply_ops b m)"
  using assms ranged_bounded [OF assms(2)] ranged_nameless [OF assms(2)] store_ok_ranged [OF assms(1,2)] by blast

lemma commits_fixed:
  assumes "refines holds may_fail oper (\<lambda>m. Inr (a, b))" and "ranged hs b"
    and "hs \<inter> {0x4D, 0x5A, 0x54, 0x47, 0x42, 0x52, 0x53, 0x6E, 0x69} = {}"
    and "\<And>k v. Put k v \<in> set b \<Longrightarrow> good_entry (rg_libs G) k v"
  shows "commits holds may_fail (applied G oper) (\<lambda>m. Inr (a, apply_ops b m))"
proof -
  have "commits holds may_fail (applied G oper) (\<lambda>m. and_then (Inr (a, b)) (\<lambda>(a, b). Inr (a, apply_ops b m)))"
    by (rule commits_planned [OF assms(1)]) (use batch_ok [OF _ assms(2-4)] in auto)
  then show ?thesis by simp
qed

lemma refines_get_upload: "refines holds may_fail (get_upload G u) (\<lambda>m. Inr (upload_at (rg_libs G) m u))"
  unfolding get_upload_def upload_at_def
  by (rule refines_get_record) (auto dest!: entries_okD split: option.splits)

lemma refines_get_upload_in:
  "refines holds may_fail (get_upload_in G repo u) (\<lambda>m.
     Inr (case upload_at (rg_libs G) m u of
            Some x \<Rightarrow> if id_of m repo = Some (us_repo x) then Some x else None | None \<Rightarrow> None))"
  unfolding get_upload_in_def
  by (rule refines_cong, (rule refines_intros refines_get_upload refines_lookup_repo)+) (auto split: option.split)

lemma commits_save_upload:
  "commits holds may_fail (save_upload G u x) (\<lambda>m. Inr ((), m(upload_key u \<mapsto> stored_as (lb_upload (rg_libs G)) x)))"
proof -
  have "refines holds may_fail (plan_save_upload G u x) (\<lambda>m. Inr ((), [Put (upload_key u) (stored_as (lb_upload (rg_libs G)) x)]))"
    unfolding plan_save_upload_def coders
    by (rule refines_cong, (rule refines_intros)+) (simp add: batch_put_def batch_new_def)
  then have "commits holds may_fail (save_upload G u x)
      (\<lambda>m. Inr ((), apply_ops [Put (upload_key u) (stored_as (lb_upload (rg_libs G)) x)] m))"
    unfolding save_upload_def by (rule commits_fixed [OF _ upload_ranged(1)]) (auto simp: coders)
  then show ?thesis by simp
qed

lemma commits_delete_upload:
  "commits holds may_fail (delete_upload G u) (\<lambda>m. Inr ((), m(upload_key u := None)))"
proof -
  have "refines holds may_fail (return_a (plan_delete_upload u)) (\<lambda>m. Inr ((), [Delete (upload_key u)]))"
    unfolding plan_delete_upload_def by (rule refines_cong, rule refines_return) (simp add: batch_delete_def batch_new_def)
  then have "commits holds may_fail (delete_upload G u) (\<lambda>m. Inr ((), apply_ops [Delete (upload_key u)] m))"
    unfolding delete_upload_def by (rule commits_fixed [OF _ upload_ranged(2)]) auto
  then show ?thesis by simp
qed

lemma commits_create_upload:
  assumes "is_str repo"
  shows "commits_in holds may_fail (\<lambda>_. True) repo (create_upload G repo u algo now)
    (\<lambda>r m. Inr (new_session r algo now, m(upload_key u \<mapsto> stored_as (lb_upload (rg_libs G)) (new_session r algo now))))"
proof -
  have plan: "refines holds may_fail
      (bind_a (lift_a (encode (lb_upload (rg_libs G)) (new_session r algo now))) (\<lambda>v.
         return_a (new_session r algo now, batch_put (upload_key u) v batch_new)))
      (\<lambda>m. Inr (new_session r algo now, [Put (upload_key u) (stored_as (lb_upload (rg_libs G)) (new_session r algo now))]))" for r
    unfolding coders by (rule refines_cong, (rule refines_intros)+) (simp add: batch_put_def batch_new_def)
  have "commits_in holds may_fail (\<lambda>_. True) repo (create_upload G repo u algo now)
      (\<lambda>r m. and_then (Inr (new_session r algo now, [Put (upload_key u) (stored_as (lb_upload (rg_libs G)) (new_session r algo now))]))
         (\<lambda>(a, b). Inr (a, apply_ops b m)))"
    unfolding create_upload_def plan_create_upload_def Let_def new_session_def [symmetric]
  proof (rule commits_in_planned [OF assms plan])
    fix m r a b assume "store_ok (rg_libs G) m"
      "Inr (new_session r algo now, [Put (upload_key u) (stored_as (lb_upload (rg_libs G)) (new_session r algo now))]) = Inr (a, b)"
    then show "bounded_batch b \<and> nameless b \<and> store_ok (rg_libs G) (apply_ops b m)"
      by (elim sum.inject(2) [THEN iffD1, elim_format] conjE Pair_inject, hypsubst, intro batch_ok [OF _ upload_ranged(1)]) (auto simp: coders)
  qed
  then show ?thesis by simp
qed

end

lemma scan_length:
  assumes "finite (dom m)"
  shows "length (scan_list m p None) = card {k. m k \<noteq> None \<and> prefix p k}"
proof -
  have "distinct (map fst (scan_list m p None))"
    using sorted_scan_list [of m p None] by (simp add: strict_sorted_iff)
  then have "length (scan_list m p None) = card (set (map fst (scan_list m p None)))"
    by (metis distinct_card length_map)
  also have "set (map fst (scan_list m p None)) = {k. m k \<noteq> None \<and> prefix p k}"
    by (auto simp: set_scan_list [OF assms] after_def image_iff)
  finally show ?thesis .
qed

lemma upload_keys:
  assumes "entries_ok lib m"
  shows "{k. m k \<noteq> None \<and> prefix uploads k} = upload_key ` {u. upload_at lib m u \<noteq> None}"
proof (intro set_eqI iffI)
  fix k assume "k \<in> {k. m k \<noteq> None \<and> prefix uploads k}"
  then have k: "m k \<noteq> None" "prefix uploads k" by simp_all
  obtain sk where sk: "k = encode_key sk" "wf_key sk" using entries_ok_key [OF assms k(1)] by metis
  with k(2) obtain u where u: "k = upload_key u" by (cases sk) (auto simp: key_defs)
  with k(1) entries_okD [OF assms, of k] show "k \<in> upload_key ` {u. upload_at lib m u \<noteq> None}"
    by (auto simp: upload_at_def)
qed (auto simp: upload_at_def key_defs bind_eq_Some_conv)

text \<open>The repositories named by a page of sessions, each once.\<close>

definition live_step :: "libs \<Rightarrow> entry \<Rightarrow> repo_id list \<Rightarrow> registry_error + repo_id list" where
  "live_step lib e repos =
     and_then (decode (lb_upload lib) (snd e) ''UploadSession'') (\<lambda>x.
       Inr (if us_repo x \<notin> set repos then repos @ [us_repo x] else repos))"

lemma live_loop:
  assumes "\<And>e. e \<in> set es \<Longrightarrow> co_dec (lb_upload lib) (snd e) \<noteq> None"
  shows "\<exists>rs. for_r es acc (live_step lib) = Inr rs
    \<and> set rs = set acc \<union> (\<lambda>e. us_repo (the (co_dec (lb_upload lib) (snd e)))) ` set es"
  using assms
proof (induction es arbitrary: acc)
  case (Cons e es)
  from Cons.prems [of e] obtain x where x: "co_dec (lb_upload lib) (snd e) = Some x" by auto
  define acc' where "acc' = (if us_repo x \<notin> set acc then acc @ [us_repo x] else acc)"
  obtain rs where "for_r es acc' (live_step lib) = Inr rs"
    "set rs = set acc' \<union> (\<lambda>e. us_repo (the (co_dec (lb_upload lib) (snd e)))) ` set es"
    using Cons.IH [of acc'] Cons.prems by auto
  moreover have "live_step lib e acc = Inr acc'" by (simp add: live_step_def decode_def x acc'_def)
  moreover have "set acc' = insert (us_repo x) (set acc)" by (auto simp: acc'_def)
  ultimately show ?case by (simp add: x)
qed simp

context registry_env
begin

lemma refines_live_uploads:
  "refines holds may_fail (live_upload_repos G limit)
     (\<lambda>m. for_r (pg_entries (scan_page m uploads None limit)) [] (live_step (rg_libs G)))"
proof -
  have loop: "refines holds may_fail (for_a es acc (\<lambda>(_, val) repos.
       bind_a (lift_a (decode (lb_upload (rg_libs G)) val ''UploadSession'')) (\<lambda>session.
         return_a (if us_repo session \<notin> set repos then repos @ [us_repo session] else repos))))
     (\<lambda>m. for_r es acc (live_step (rg_libs G)))" for es acc
    by (rule refines_for [where g = "\<lambda>e acc m. live_step (rg_libs G) e acc"])
      (clarsimp simp: live_step_def, rule refines_cong, (rule refines_intros)+, simp)
  have "refines holds may_fail (live_upload_repos G limit) (\<lambda>m.
      and_then (Inr (scan_page m uploads None limit)) (\<lambda>page. for_r (pg_entries page) [] (live_step (rg_libs G))))"
    unfolding live_upload_repos_def
    by (rule refines_bind [OF refines_scan loop]) (simp_all add: under_def grouped_def)
  then show ?thesis by simp
qed

lemma live_uploads_all:
  assumes h: "holds m s" and few: "card {u. upload_at (rg_libs G) m u \<noteq> None} \<le> limit"
  shows "\<exists>rs. for_r (pg_entries (scan_page m uploads None limit)) [] (live_step (rg_libs G)) = Inr rs
    \<and> set rs = {us_repo x | u x. upload_at (rg_libs G) m u = Some x}"
proof -
  let ?lib = "rg_libs G" and ?es = "scan_list m uploads None"
  note e = holdsD(5) [OF h] and fin = holds_finite [OF h]
  have "card {k. m k \<noteq> None \<and> prefix uploads k} = card {u. upload_at ?lib m u \<noteq> None}"
    unfolding upload_keys [OF e] by (rule card_image) (auto simp: inj_on_def data_keys)
  with few have all: "pg_entries (scan_page m uploads None limit) = ?es"
    by (simp add: scan_page_def page_of_def scan_length [OF fin])
  have entry: "(k, v) \<in> set ?es \<longleftrightarrow> (\<exists>u x. k = upload_key u \<and> m k = Some v \<and> upload_at ?lib m u = Some x \<and> co_dec (lb_upload ?lib) v = Some x)" for k v
  proof -
    have "(k, v) \<in> set ?es \<longleftrightarrow> m k = Some v \<and> k \<in> {k. m k \<noteq> None \<and> prefix uploads k}"
      by (auto simp: set_scan_list [OF fin] after_def)
    then show ?thesis unfolding upload_keys [OF e] by (auto simp: upload_at_def bind_eq_Some_conv)
  qed
  have dec: "co_dec (lb_upload ?lib) (snd e) \<noteq> None" if "e \<in> set ?es" for e
    using that entry [of "fst e" "snd e"] by auto
  have "(\<lambda>e. us_repo (the (co_dec (lb_upload ?lib) (snd e)))) ` set ?es = {us_repo x | u x. upload_at ?lib m u = Some x}"
  proof (intro set_eqI iffI)
    fix r assume "r \<in> {us_repo x | u x. upload_at ?lib m u = Some x}"
    then obtain u x v where "r = us_repo x" "m (upload_key u) = Some v" "co_dec (lb_upload ?lib) v = Some x"
      by (auto simp: upload_at_def bind_eq_Some_conv)
    moreover from this have "(upload_key u, v) \<in> set ?es" unfolding entry by (auto simp: upload_at_def)
    ultimately show "r \<in> (\<lambda>e. us_repo (the (co_dec (lb_upload ?lib) (snd e)))) ` set ?es" by force
  qed (use entry in fastforce)
  with live_loop [OF dec, of ?es "[]"] show ?thesis unfolding all by simp
qed

end

text \<open>
  Opening an upload interns the repository's name and stores a session of that repository at offset 0 under the id, and
  changes no other key. From then on the id is found under that repository's name; under any other name, or once the
  session is deleted, the answer is that there is no such session. A failure writes nothing but possibly the
  name.
\<close>

theorem create_upload_correct:
  assumes env: "registry_env G tbl ok fails names ids" and at: "at_store tbl ok names ids (rg_libs G) m s"
    and name: "is_str repo" and run: "create_upload G repo u algo now s = (res, s')"
  shows "\<exists>m'. at_store tbl ok names ids (rg_libs G) m' s' \<and> (case res of
      Inl e \<Rightarrow> (m' = m \<or> (\<exists>r. interned m repo r m')) \<and> engine_error (fails \<or> ids_exhausted m repo) e
    | Inr x \<Rightarrow> id_of m' repo = Some (us_repo x) \<and> x = new_session (us_repo x) algo now
        \<and> (\<forall>v. upload_at (rg_libs G) m' v = (if v = u then Some x else upload_at (rg_libs G) m v))
        \<and> (\<forall>h k. h \<notin> {0x55, 0x6E, 0x69} \<longrightarrow> m' (h # k) = m (h # k))
        \<and> (\<forall>other found s''. get_upload_in G other u s' = (Inr found, s'') \<longrightarrow>
              found = (if id_of m' other = Some (us_repo x) then Some x else None)))"
proof -
  let ?lib = "rg_libs G"
  note lib = registry_env.axioms(2) [OF env]
  note c = commits_in_run [OF registry_env.commits_create_upload [OF env name] at TrueI run]
  show ?thesis
  proof (cases res)
    case (Inl e)
    with c obtain m' where "at_store tbl ok names ids ?lib m' s'" "m' = m \<or> (\<exists>r. interned m repo r m')"
      "engine_error (fails \<or> ids_exhausted m repo) e"
      by (auto simp: engine_error_def)
    with Inl show ?thesis by auto
  next
    case (Inr x)
    with c obtain r m1 m' where i: "interned m repo r m1" and at': "at_store tbl ok names ids ?lib m' s'"
      and x: "x = new_session r algo now" and m': "m' = m1(upload_key u \<mapsto> stored_as (lb_upload ?lib) x)" by auto
    have r: "us_repo x = r" by (simp add: x new_session_def)
    have U: "upload_at ?lib m' v = (if v = u then Some x else upload_at ?lib m v)" for v
      using interned_data [OF i] by (simp add: upload_at_def m' data_keys library_code.coders [OF lib])
    have other: "m' (h # k) = m (h # k)" if "h \<notin> {0x55, 0x6E, 0x69}" for h k
      using interned_data [OF i] that by (simp add: m' data_keys)
    have "id_of m' n = id_of m1 n" for n by (simp add: m' id_of_def key_defs)
    with interned_id [OF i] have id: "id_of m' repo = Some (us_repo x)" by (simp add: r)
    have "found = (if id_of m' n = Some (us_repo x) then Some x else None)"
      if "get_upload_in G n u s' = (Inr found, s'')" for n found s''
      using refines_run [OF registry_env.refines_get_upload_in [OF env] at' that] by (simp add: U)
    with at' U other id show ?thesis
      unfolding Inr sum.case r using x by (intro exI [of _ m']) blast
  qed
qed

theorem create_upload_correct_witness:
  "\<exists>x s'. create_upload demo_registry ''a'' (arr16 []) ''sha256'' (Timestamp 0) demo_state = (Inr x, s') \<and> us_offset x = 0"
proof -
  obtain res s' where run: "create_upload demo_registry ''a'' (arr16 []) ''sha256'' (Timestamp 0) demo_state = (res, s')" by fastforce
  have "\<not> ids_exhausted demo_store ''a''" by (simp add: ids_exhausted_def)
  with create_upload_correct [OF dr.registry_env_axioms at_store_demo is_str_a run] obtain x where
    "res = Inr x" "x = new_session (us_repo x) ''sha256'' (Timestamp 0)"
    by (cases res) (auto simp: engine_error_def)
  moreover from this(2) have "us_offset x = 0" by (metis new_session_def upload_session.select_convs(2))
  ultimately show ?thesis using run by auto
qed

text \<open>
  C27. While no more uploads are open than the limit it asks for (\<open>PURGE_UPLOADS\<close>, which is 10000, in the backend), purge does not retire the
  name of a repository that an open upload belongs to. It asks first for the repositories of the open sessions; whatever name it
  retires after that, every session is still there and its repository still answers to its name.
\<close>

theorem retire_spares_uploads:
  assumes env: "registry_env G tbl ok fails names ids" and at: "at_store tbl ok names ids (rg_libs G) m s"
    and few: "card {u. upload_at (rg_libs G) m u \<noteq> None} \<le> limit"
    and live: "live_upload_repos G limit s = (Inr rs, s1)" and retire: "retire_repo G n rs watermark s1 = (res, s2)"
    and session: "upload_at (rg_libs G) m u = Some x" and name: "id_of m repo = Some (us_repo x)"
  shows "\<exists>m'. at_store tbl ok names ids (rg_libs G) m' s2 \<and> upload_at (rg_libs G) m' u = Some x
    \<and> id_of m' repo = Some (us_repo x)"
proof -
  let ?lib = "rg_libs G"
  obtain rs' where rs': "for_r (pg_entries (scan_page m uploads None limit)) [] (live_step ?lib) = Inr rs'"
    "set rs' = {us_repo x | u x. upload_at ?lib m u = Some x}"
    using registry_env.live_uploads_all [OF env at few] by blast
  have at1: "at_store tbl ok names ids ?lib m s1" and "rs = rs'"
    using refines_run [OF registry_env.refines_live_uploads [OF env] at live] rs'(1) by simp_all
  with session rs'(2) have rs: "us_repo x \<in> set rs" by blast
  note c = commits_run [OF registry_env.commits_retire_repo [OF env] at1 retire]
  show ?thesis
  proof (cases "\<exists>r. res = Inr (Some r)")
    case True
    with c obtain r where r: "id_of m n = Some r" "r \<notin> set rs" and at2: "at_store tbl ok names ids ?lib (drop_name m n r) s2"
      by (auto split: option.splits if_splits)
    from r rs name have "repo \<noteq> n" by auto
    then have "id_of (drop_name m n r) repo = id_of m repo"
      by (simp add: id_of_def drop_name_def key_defs)
    moreover have "upload_at ?lib (drop_name m n r) u = upload_at ?lib m u"
      by (simp add: upload_at_def drop_name_def key_defs)
    ultimately show ?thesis using at2 session name by auto
  next
    case False
    with c have "at_store tbl ok names ids ?lib m s2"
      by (cases res) (auto split: option.splits if_splits)
    with session name show ?thesis by blast
  qed
qed

lemma demo_upload:
  obtains x m1 s1 where "create_upload demo_registry ''a'' (arr16 []) ''sha256'' (Timestamp 0) demo_state = (Inr x, s1)"
    "at_store table_map (\<lambda>_. True) (\<lambda>c. map_of (fst c)) (\<lambda>c. map_of (snd c)) (rg_libs demo_registry) m1 s1"
    "id_of m1 ''a'' = Some (us_repo x)" "upload_at (rg_libs demo_registry) m1 (arr16 []) = Some x"
    "{u. upload_at (rg_libs demo_registry) m1 u \<noteq> None} \<subseteq> {arr16 []}"
proof -
  let ?lib = "rg_libs demo_registry"
  obtain res s1 where run: "create_upload demo_registry ''a'' (arr16 []) ''sha256'' (Timestamp 0) demo_state = (res, s1)" by fastforce
  have "\<not> ids_exhausted demo_store ''a''" by (simp add: ids_exhausted_def)
  with commits_in_run [OF dr.commits_create_upload [OF is_str_a] at_store_demo TrueI run]
  obtain x r m1 m' where x: "res = Inr x" "x = new_session r ''sha256'' (Timestamp 0)" and i: "interned demo_store ''a'' r m1"
    and at: "at_store table_map (\<lambda>_. True) (\<lambda>c. map_of (fst c)) (\<lambda>c. map_of (snd c)) ?lib m' s1"
    and m': "m' = m1(upload_key (arr16 []) \<mapsto> stored_as (lb_upload ?lib) x)"
    by (cases res) (auto simp: engine_error_def)
  have "upload_at ?lib m' u = (if u = arr16 [] then Some x else None)" for u
  proof -
    have "demo_store (upload_key u) = None" by (simp add: demo_store_def one_repo_def key_defs)
    then show ?thesis using interned_data [OF i] by (simp add: upload_at_def m' data_keys dl.coders)
  qed
  moreover have "id_of m' ''a'' = Some (us_repo x)"
    using interned_id [OF i] by (simp add: m' id_of_def key_defs x new_session_def)
  ultimately show ?thesis using that [of x s1 m'] run at x(1) by auto
qed

theorem retire_spares_uploads_witness:
  "\<exists>x s1 rs s2 res s3 m'. create_upload demo_registry ''a'' (arr16 []) ''sha256'' (Timestamp 0) demo_state = (Inr x, s1)
     \<and> live_upload_repos demo_registry 5 s1 = (Inr rs, s2) \<and> retire_repo demo_registry ''a'' rs 9 s2 = (res, s3)
     \<and> table_map (rs_engine s3) = m' \<and> id_of m' ''a'' = Some (us_repo x)"
proof -
  obtain x m1 s1 where new: "create_upload demo_registry ''a'' (arr16 []) ''sha256'' (Timestamp 0) demo_state = (Inr x, s1)"
    and at: "at_store table_map (\<lambda>_. True) (\<lambda>c. map_of (fst c)) (\<lambda>c. map_of (snd c)) (rg_libs demo_registry) m1 s1"
    and id: "id_of m1 ''a'' = Some (us_repo x)" and up: "upload_at (rg_libs demo_registry) m1 (arr16 []) = Some x"
    and one: "{u. upload_at (rg_libs demo_registry) m1 u \<noteq> None} \<subseteq> {arr16 []}" by (rule demo_upload)
  have few: "card {u. upload_at (rg_libs demo_registry) m1 u \<noteq> None} \<le> 5"
    using card_mono [OF _ one] by simp
  obtain r2 s2 where live: "live_upload_repos demo_registry 5 s1 = (r2, s2)" by fastforce
  obtain rs where rs: "r2 = Inr rs"
    using refines_run [OF dr.refines_live_uploads at live] dr.live_uploads_all [OF at few] by (auto simp: engine_error_def)
  obtain res s3 where retire: "retire_repo demo_registry ''a'' rs 9 s2 = (res, s3)" by fastforce
  from retire_spares_uploads [OF dr.registry_env_axioms at few live [unfolded rs] retire up id]
  show ?thesis using new live rs retire by (auto simp: at_store_def)
qed

end
