(* ===== verification/Summ_Discovery.thy ===== *)
theory Summ_Discovery
  imports Summ_Uploads "HOL-Library.Char_ord" "HOL-Library.Product_Lexorder"
begin

text \<open>
  Listings: the referrers of a subject (\<open>summ-registry/src/referrers.rs\<close>) and the discovery queries
  (\<open>discovery.rs\<close>). Each serves one page of a range of keys; what a page holds is proved once, in the locale
  \<open>item_range\<close>, of which every range is an interpretation.
\<close>

section \<open>Data\<close>

record referrer_entry =
  fe_digest :: digest
  fe_record :: referrer_record

record referrer_list =
  fl_entries :: "referrer_entry list"
  fl_next :: "digest option"
  fl_filter_applied :: bool

record repo_list =
  rl_repos :: "string list"
  rl_next :: "string option"

record manifest_list =
  nl_manifests :: "manifest_record list"
  nl_next :: "digest option"

record digest_list =
  dl_digests :: "digest list"
  dl_next :: "digest option"

record repo_usage_page =
  up_blobs :: u64
  up_bytes :: u64
  up_next :: "digest option"

record manifest_count_page =
  mc_manifests :: u64
  mc_next :: "digest option"

record tag_count_page =
  tc_tags :: u64
  tc_next :: "string option"

record blob_reference =
  bf_repo :: string
  bf_manifest :: digest

record blob_reference_list =
  bl_references :: "blob_reference list"
  bl_next :: "blob_reference option"

section \<open>Referrers\<close>

definition referrer_step ::
    "libs \<Rightarrow> string option \<Rightarrow> entry \<Rightarrow> referrer_entry list \<Rightarrow> registry_error + referrer_entry list" where
  "referrer_step lib artifact_type e entries =
     and_then (ok_or (corrupt ''referrer key'') (second_digest_after_repo (fst e))) (\<lambda>d.
     and_then (decode (lb_referrer lib) (snd e) ''ReferrerRecord'') (\<lambda>record.
       case artifact_type of
         Some wanted \<Rightarrow>
           if rr_artifact_type record \<noteq> Some wanted then Inr entries
           else Inr (entries @ [\<lparr> fe_digest = d, fe_record = record \<rparr>])
       | None \<Rightarrow> Inr (entries @ [\<lparr> fe_digest = d, fe_record = record \<rparr>])))"

definition referrers ::
    "('s, 'c) registry \<Rightarrow> string \<Rightarrow> digest \<Rightarrow> string option \<Rightarrow> digest option \<Rightarrow> nat \<Rightarrow> ('s, 'c, referrer_list) op" where
  "referrers G repo subject artifact_type start_after limit =
     bind_a (lookup_repo G repo) (\<lambda>found.
       case found of
         None \<Rightarrow> return_a \<lparr> fl_entries = [], fl_next = None, fl_filter_applied = (artifact_type \<noteq> None) \<rparr>
       | Some repo_id \<Rightarrow>
           bind_a (rg_scan G (referrers_of repo_id subject) (map_option (referrer_key repo_id subject) start_after) limit) (\<lambda>page.
           bind_a (lift_a (for_r (pg_entries page) [] (referrer_step (rg_libs G) artifact_type))) (\<lambda>entries.
           bind_a (lift_a (try_option (\<lambda>key. ok_or (corrupt ''referrer cursor'') (second_digest_after_repo key)) (pg_next page))) (\<lambda>nxt.
             return_a \<lparr> fl_entries = entries, fl_next = nxt, fl_filter_applied = (artifact_type \<noteq> None) \<rparr>))))"

section \<open>Repositories\<close>

definition SEARCH_STEP :: nat where "SEARCH_STEP = 512"

definition search_repos ::
    "('s, 'c) registry \<Rightarrow> string \<Rightarrow> string option \<Rightarrow> nat \<Rightarrow> ('s, 'c, repo_list) op" where
  "search_repos G pre start_after limit =
     bind_a (rg_scan_keys G (repo_by_name pre) (map_option repo_by_name start_after) limit) (\<lambda>page.
     bind_a (lift_a (try_map (\<lambda>key. ok_or (corrupt ''repo name key'') (parse_repo_name key)) (kp_keys page))) (\<lambda>repos.
     bind_a (lift_a (try_option (\<lambda>key. ok_or (corrupt ''repo cursor'') (parse_repo_name key)) (kp_next page))) (\<lambda>nxt.
       return_a \<lparr> rl_repos = repos, rl_next = nxt \<rparr>)))"

definition list_repos :: "('s, 'c) registry \<Rightarrow> string option \<Rightarrow> nat \<Rightarrow> ('s, 'c, repo_list) op" where
  "list_repos G start_after limit = search_repos G '''' start_after limit"

text \<open>
  The loop over the names of one page of a substring search: \<open>Inl\<close> when it breaks off with the next cursor,
  \<open>Inr\<close> with the names found and the number examined.
\<close>

fun search_keys ::
    "string \<Rightarrow> nat \<Rightarrow> bytes list \<Rightarrow> string list \<Rightarrow> nat \<Rightarrow> registry_error + (string list \<times> string option) + (string list \<times> nat)" where
  "search_keys needle limit [] repos examined = Inr (Inr (repos, examined))"
| "search_keys needle limit (key # keys) repos examined =
     and_then (ok_or (corrupt ''repo name key'') (parse_repo_name key)) (\<lambda>name.
       if \<not> sublist needle name then search_keys needle limit keys repos (examined + 1)
       else if length repos = limit then Inr (Inl (repos, if repos = [] then None else Some (last repos)))
       else search_keys needle limit keys (repos @ [name]) (examined + 1))"

partial_function (option) search_from ::
    "('s, 'c) registry \<Rightarrow> string \<Rightarrow> nat \<Rightarrow> bytes option \<Rightarrow> string list \<Rightarrow> nat \<Rightarrow> ('s, 'c) rstate \<Rightarrow>
     ((registry_error + repo_list) \<times> ('s, 'c) rstate) option" where
  "search_from G needle limit cursor repos examined s =
     (let ceiling = ro_search_ceiling (rg_options G); step = min SEARCH_STEP (ceiling - examined) in
      case rg_scan_keys G repos_by_name cursor step s of
        (Inl e, s') \<Rightarrow> Some (Inl e, s')
      | (Inr page, s') \<Rightarrow>
          (case search_keys needle limit (kp_keys page) repos examined of
             Inl e \<Rightarrow> Some (Inl e, s')
           | Inr (Inl (repos', nxt)) \<Rightarrow> Some (Inr \<lparr> rl_repos = repos', rl_next = nxt \<rparr>, s')
           | Inr (Inr (repos', examined')) \<Rightarrow>
               (case kp_next page of
                  None \<Rightarrow> Some (Inr \<lparr> rl_repos = repos', rl_next = None \<rparr>, s')
                | Some key \<Rightarrow>
                    if ceiling \<le> examined' then
                      (case ok_or (corrupt ''repo cursor'') (parse_repo_name key) of
                         Inl e \<Rightarrow> Some (Inl e, s')
                       | Inr name \<Rightarrow> Some (Inr \<lparr> rl_repos = repos', rl_next = Some name \<rparr>, s'))
                    else search_from G needle limit (Some key) repos' examined' s')))"

definition search_repos_containing ::
    "('s, 'c) registry \<Rightarrow> string \<Rightarrow> string option \<Rightarrow> nat \<Rightarrow> ('s, 'c, repo_list) op" where
  "search_repos_containing G needle start_after limit =
     (if needle = '''' then search_repos G '''' start_after limit
      else loop_a (search_from G needle limit (map_option repo_by_name start_after) [] 0))"

section \<open>Manifests, tags and blobs\<close>

definition cursor_digest :: "bytes option \<Rightarrow> string \<Rightarrow> registry_error + digest option" where
  "cursor_digest key what =
     (case key of
        Some k \<Rightarrow> and_then (ok_or (corrupt what) (digest_after_repo k)) (\<lambda>d. Inr (Some d))
      | None \<Rightarrow> Inr None)"

definition list_manifests ::
    "('s, 'c) registry \<Rightarrow> string \<Rightarrow> digest option \<Rightarrow> nat \<Rightarrow> ('s, 'c, manifest_list) op" where
  "list_manifests G repo start_after limit =
     bind_a (require_repo G repo) (\<lambda>repo_id.
     bind_a (rg_scan G (manifests_in_repo repo_id) (map_option (manifest_key repo_id) start_after) limit) (\<lambda>page.
     bind_a (lift_a (try_map (\<lambda>e. decode (lb_manifest (rg_libs G)) (snd e) ''ManifestRecord'') (pg_entries page))) (\<lambda>manifests.
     bind_a (lift_a (cursor_digest (pg_next page) ''manifest cursor'')) (\<lambda>nxt.
       return_a \<lparr> nl_manifests = manifests, nl_next = nxt \<rparr>))))"

definition untagged_manifests ::
    "('s, 'c) registry \<Rightarrow> string \<Rightarrow> digest option \<Rightarrow> nat \<Rightarrow> ('s, 'c, digest_list) op" where
  "untagged_manifests G repo start_after limit =
     bind_a (require_repo G repo) (\<lambda>repo_id.
     bind_a (rg_scan_keys G (manifests_in_repo repo_id) (map_option (manifest_key repo_id) start_after) limit) (\<lambda>page.
     bind_a (for_a (kp_keys page) [] (\<lambda>key digests.
       bind_a (lift_a (ok_or (corrupt ''manifest key'') (digest_after_repo key))) (\<lambda>d.
       bind_a (rg_exists G (tags_of_manifest repo_id d)) (\<lambda>tagged.
         return_a (if \<not> tagged then digests @ [d] else digests))))) (\<lambda>digests.
     bind_a (lift_a (cursor_digest (kp_next page) ''manifest cursor'')) (\<lambda>nxt.
       return_a \<lparr> dl_digests = digests, dl_next = nxt \<rparr>))))"

definition repo_usage ::
    "('s, 'c) registry \<Rightarrow> string \<Rightarrow> digest option \<Rightarrow> nat \<Rightarrow> ('s, 'c, repo_usage_page) op" where
  "repo_usage G repo start_after limit =
     bind_a (require_repo G repo) (\<lambda>repo_id.
     bind_a (rg_scan G (blobs_in_repo repo_id) (map_option (repo_blob_key repo_id) start_after) limit) (\<lambda>page.
     bind_a (lift_a (cursor_digest (pg_next page) ''repo blob cursor'')) (\<lambda>nxt.
       lift_a (for_r (pg_entries page) \<lparr> up_blobs = 0, up_bytes = 0, up_next = nxt \<rparr> (\<lambda>e usage.
         and_then (decode (lb_repo_blob (rg_libs G)) (snd e) ''RepoBlobRecord'') (\<lambda>record.
           Inr (usage\<lparr>up_blobs := up_blobs usage + 1, up_bytes := up_bytes usage + rb_size record\<rparr>)))))))"

definition count_manifests ::
    "('s, 'c) registry \<Rightarrow> string \<Rightarrow> digest option \<Rightarrow> nat \<Rightarrow> ('s, 'c, manifest_count_page) op" where
  "count_manifests G repo start_after limit =
     bind_a (require_repo G repo) (\<lambda>repo_id.
     bind_a (rg_scan_keys G (manifests_in_repo repo_id) (map_option (manifest_key repo_id) start_after) limit) (\<lambda>page.
     bind_a (lift_a (cursor_digest (kp_next page) ''manifest cursor'')) (\<lambda>nxt.
       return_a \<lparr> mc_manifests = word_of_nat (length (kp_keys page)), mc_next = nxt \<rparr>)))"

definition count_tags ::
    "('s, 'c) registry \<Rightarrow> string \<Rightarrow> string option \<Rightarrow> nat \<Rightarrow> ('s, 'c, tag_count_page) op" where
  "count_tags G repo start_after limit =
     bind_a (require_repo G repo) (\<lambda>repo_id.
     bind_a (rg_scan_keys G (tags_in_repo repo_id) (map_option (tag_key repo_id) start_after) limit) (\<lambda>page.
     bind_a (lift_a (try_option (\<lambda>key. ok_or (corrupt ''tag cursor'') (parse_tag_suffix key)) (kp_next page))) (\<lambda>nxt.
       return_a \<lparr> tc_tags = word_of_nat (length (kp_keys page)), tc_next = nxt \<rparr>)))"

definition blob_reference_of :: "('s, 'c) registry \<Rightarrow> bytes \<Rightarrow> ('s, 'c, blob_reference) op" where
  "blob_reference_of G key =
     bind_a (lift_a (ok_or (corrupt ''blob ref key'') (blob_ref_target key))) (\<lambda>(repo_id, md).
     bind_a (repo_name G repo_id) (\<lambda>name.
       return_a \<lparr> bf_repo = name, bf_manifest = md \<rparr>))"

definition manifests_referencing_blob ::
    "('s, 'c) registry \<Rightarrow> digest \<Rightarrow> blob_reference option \<Rightarrow> nat \<Rightarrow> ('s, 'c, blob_reference_list) op" where
  "manifests_referencing_blob G d start_after limit =
     bind_a (case start_after of
         Some a \<Rightarrow> bind_a (lookup_repo G (bf_repo a)) (\<lambda>r. return_a (map_option (\<lambda>rid. blob_ref_key d rid (bf_manifest a)) r))
       | None \<Rightarrow> return_a None) (\<lambda>cursor.
     bind_a (rg_scan_keys G (blob_refs d) cursor limit) (\<lambda>page.
     bind_a (for_a (kp_keys page) [] (\<lambda>key references.
       bind_a (blob_reference_of G key) (\<lambda>r. return_a (references @ [r])))) (\<lambda>references.
     bind_a (case kp_next page of
         Some key \<Rightarrow> bind_a (blob_reference_of G key) (\<lambda>r. return_a (Some r))
       | None \<Rightarrow> return_a None) (\<lambda>nxt.
       return_a \<lparr> bl_references = references, bl_next = nxt \<rparr>))))"

definition parents_of_manifest ::
    "('s, 'c) registry \<Rightarrow> string \<Rightarrow> digest \<Rightarrow> digest option \<Rightarrow> nat \<Rightarrow> ('s, 'c, digest_list) op" where
  "parents_of_manifest G repo child start_after limit =
     bind_a (require_repo G repo) (\<lambda>repo_id.
     bind_a (rg_scan_keys G (parents_of repo_id child) (map_option (child_parent_key repo_id child) start_after) limit) (\<lambda>page.
     bind_a (lift_a (try_map (\<lambda>key. ok_or (corrupt ''child-parent key'') (second_digest_after_repo key)) (kp_keys page))) (\<lambda>digests.
     bind_a (lift_a (try_option (\<lambda>key. ok_or (corrupt ''child-parent cursor'') (second_digest_after_repo key)) (kp_next page))) (\<lambda>nxt.
       return_a \<lparr> dl_digests = digests, dl_next = nxt \<rparr>))))"

section \<open>Ranges of items\<close>

text \<open>
  \<open>xs\<close> lists the items of \<open>X\<close> in the order of their keys, each once. Together with the set this determines the
  list.
\<close>

definition lists_by :: "('a \<Rightarrow> bytes) \<Rightarrow> 'a set \<Rightarrow> 'a list \<Rightarrow> bool" where
  "lists_by key X xs \<longleftrightarrow> sorted_wrt (\<lambda>x y. key x < key y) xs \<and> set xs = X"

definition next_after :: "nat \<Rightarrow> 'a list \<Rightarrow> 'a option" where
  "next_after n xs = (if 0 < n \<and> n < length xs then Some (last (take n xs)) else None)"

lemma lists_by_unique:
  assumes "lists_by key X xs" and "lists_by key X ys"
  shows "xs = ys"
proof -
  have s: "sorted_wrt (<) (map key xs)" "sorted_wrt (<) (map key ys)"
    using assms by (simp_all add: lists_by_def sorted_wrt_map)
  have "map key xs = map key ys"
    using s assms by (intro sorted_distinct_set_unique) (auto simp: strict_sorted_iff lists_by_def)
  moreover have "inj_on key X"
    using s(1) assms(1) by (auto simp: strict_sorted_iff lists_by_def distinct_map)
  ultimately show ?thesis using assms by (auto simp: lists_by_def intro: inj_on_map_eq_map [THEN iffD1])
qed

lemma lists_by_card: "lists_by key X xs \<Longrightarrow> length xs = card X"
proof -
  assume l: "lists_by key X xs"
  then have "sorted_wrt (<) (map key xs)" by (simp add: lists_by_def sorted_wrt_map)
  then have "distinct xs" by (simp add: strict_sorted_iff distinct_map)
  with l show ?thesis by (auto simp: lists_by_def distinct_card)
qed

lemma next_after_taken:
  assumes "next_after n xs = Some x"
  shows "x \<in> set (take n xs)"
proof -
  from assms have "take n xs \<noteq> []" "x = last (take n xs)" by (auto simp: next_after_def split: if_splits)
  then show ?thesis by simp
qed

lemma next_after_mem: "next_after n xs = Some x \<Longrightarrow> x \<in> set xs"
  by (rule in_set_takeD [OF next_after_taken])

locale item_range =
  fixes p :: bytes and key :: "'a \<Rightarrow> bytes" and good :: "'a \<Rightarrow> bool"
  assumes key_under: "good x \<Longrightarrow> prefix p (key x)"
    and key_inj: "good x \<Longrightarrow> good y \<Longrightarrow> key x = key y \<Longrightarrow> x = y"
    and covers: "entries_ok lib m \<Longrightarrow> m k \<noteq> None \<Longrightarrow> prefix p k \<Longrightarrow> \<exists>x. good x \<and> k = key x"
    and resume: "resumable p"
begin

lemma page_items:
  assumes e: "entries_ok lib m" and fin: "finite (dom m)"
  shows "\<exists>xs. lists_by key {x. good x \<and> m (key x) \<noteq> None \<and> after a (key x)} xs
    \<and> scan_page m p a n = \<lparr> pg_entries = map (\<lambda>x. (key x, the (m (key x)))) (take n xs), pg_next = map_option key (next_after n xs) \<rparr>"
proof -
  define item where "item = (\<lambda>k. SOME x. good x \<and> k = key x)"
  have item: "good (item k)" "key (item k) = k" if "m k \<noteq> None" "prefix p k" for k
    using someI_ex [OF covers [OF e that]] by (simp_all add: item_def)
  let ?es = "scan_list m p a"
  let ?xs = "map (item \<circ> fst) ?es"
  have mem: "m k = Some v \<and> prefix p k \<and> after a k" if "(k, v) \<in> set ?es" for k v
    using that by (simp add: set_scan_list [OF fin])
  have keys: "map key ?xs = map fst ?es"
    by (simp, intro ballI) (use mem item in fastforce)
  have es: "?es = map (\<lambda>x. (key x, the (m (key x)))) ?xs"
    by (rule sym, simp add: comp_def, rule map_idI) (use mem item in fastforce)
  have "set ?xs = {x. good x \<and> m (key x) \<noteq> None \<and> after a (key x)}"
  proof (intro set_eqI iffI)
    fix x assume "x \<in> set ?xs"
    then obtain k v where kv: "(k, v) \<in> set ?es" "x = item k" by auto
    with mem item show "x \<in> {x. good x \<and> m (key x) \<noteq> None \<and> after a (key x)}" by fastforce
  next
    fix x assume x: "x \<in> {x. good x \<and> m (key x) \<noteq> None \<and> after a (key x)}"
    then have "(key x, the (m (key x))) \<in> set ?es" by (auto simp: set_scan_list [OF fin] key_under)
    moreover have "item (key x) = x"
      using x item [OF _ key_under] by (intro key_inj) auto
    ultimately show "x \<in> set ?xs" by force
  qed
  moreover have "sorted_wrt (\<lambda>x y. key x < key y) ?xs"
    using sorted_scan_list [of m p a] unfolding keys [symmetric] by (simp only: sorted_wrt_map)
  ultimately have "lists_by key {x. good x \<and> m (key x) \<noteq> None \<and> after a (key x)} ?xs" by (simp add: lists_by_def)
  moreover have "scan_page m p a n = \<lparr> pg_entries = map (\<lambda>x. (key x, the (m (key x)))) (take n ?xs), pg_next = map_option key (next_after n ?xs) \<rparr>"
  proof -
    have "fst (last (take n ?es)) = key (last (take n ?xs))" if "0 < n" "n < length ?es"
    proof -
      have ne: "take n ?es \<noteq> []" "take n ?xs \<noteq> []" using that by auto
      have "fst (last (take n ?es)) = last (map fst (take n ?es))" by (rule last_map [OF ne(1), symmetric])
      also have "map fst (take n ?es) = map key (take n ?xs)" unfolding take_map [symmetric] keys ..
      also have "last (map key (take n ?xs)) = key (last (take n ?xs))" by (rule last_map [OF ne(2)])
      finally show ?thesis .
    qed
    moreover have "take n ?es = map (\<lambda>x. (key x, the (m (key x)))) (take n ?xs)"
      by (subst es) (rule take_map)
    ultimately show ?thesis by (simp add: scan_page_def page_of_def next_after_def)
  qed
  ultimately show ?thesis by blast
qed

lemma cursor_ok:
  "(\<And>x. a = Some x \<Longrightarrow> good x) \<Longrightarrow> under p (map_option key a)"
  "(\<And>x. a = Some x \<Longrightarrow> good x) \<Longrightarrow> grouped p (map_option key a)"
  using resume key_under by (auto simp: under_def grouped_def resumable_def split: option.split)

end

text \<open>Ranges whose items have an order of their own, which is the order of the keys.\<close>

definition past :: "'a::linorder option \<Rightarrow> 'a \<Rightarrow> bool" where
  "past a x \<longleftrightarrow> (case a of None \<Rightarrow> True | Some y \<Rightarrow> y < x)"

definition item_page :: "'a::linorder set \<Rightarrow> 'a option \<Rightarrow> nat \<Rightarrow> 'a list \<times> 'a option" where
  "item_page X a n = (let xs = sorted_list_of_set {d \<in> X. past a d} in (take n xs, next_after n xs))"

locale ordered_range = item_range p key good for p and key :: "'a::linorder \<Rightarrow> bytes" and good +
  assumes key_less: "key x < key y \<longleftrightarrow> x < y"
begin

lemma finite_items: "finite (dom m) \<Longrightarrow> finite {x. good x \<and> m (key x) \<noteq> None}"
proof -
  assume "finite (dom m)"
  moreover have "inj key" by (rule injI) (metis key_less less_irrefl linorder_neqE)
  ultimately have "finite (key -` dom m)" by (rule finite_vimageI)
  then show ?thesis by (rule finite_subset [rotated]) auto
qed

lemma page_of_items:
  assumes e: "entries_ok lib m" and fin: "finite (dom m)"
  shows "scan_page m p (map_option key a) n =
    \<lparr> pg_entries = map (\<lambda>d. (key d, the (m (key d)))) (fst (item_page {d. good d \<and> m (key d) \<noteq> None} a n)),
      pg_next = map_option key (snd (item_page {d. good d \<and> m (key d) \<noteq> None} a n)) \<rparr>"
proof -
  have "after (map_option key a) (key d) \<longleftrightarrow> past a d" for d
    by (simp add: after_def past_def key_less split: option.split)
  then obtain xs where xs: "lists_by key {d. good d \<and> m (key d) \<noteq> None \<and> past a d} xs"
    "scan_page m p (map_option key a) n =
      \<lparr> pg_entries = map (\<lambda>x. (key x, the (m (key x)))) (take n xs), pg_next = map_option key (next_after n xs) \<rparr>"
    using page_items [OF e fin, of "map_option key a" n] by auto
  then have "sorted_wrt (<) xs" "set xs = {d \<in> {d. good d \<and> m (key d) \<noteq> None}. past a d}"
    by (auto simp: lists_by_def key_less)
  then have "sorted_list_of_set {d \<in> {d. good d \<and> m (key d) \<noteq> None}. past a d} = xs"
    by (metis sorted_list_of_set.idem_if_sorted_distinct strict_sorted_iff)
  with xs(2) show ?thesis by (simp add: item_page_def Let_def)
qed

lemma page_mem:
  assumes e: "entries_ok lib m" and fin: "finite (dom m)" and "d \<in> set (fst (item_page {d. good d \<and> m (key d) \<noteq> None} a n))"
  shows "m (key d) \<noteq> None" "good d"
proof -
  have "finite {d \<in> {d. good d \<and> m (key d) \<noteq> None}. past a d}"
    using finite_items [OF fin] by (rule finite_subset [rotated]) auto
  moreover have "d \<in> set (sorted_list_of_set {d \<in> {d. good d \<and> m (key d) \<noteq> None}. past a d})"
    using assms(3) by (auto simp: item_page_def Let_def dest: in_set_takeD)
  ultimately have "d \<in> {d \<in> {d. good d \<and> m (key d) \<noteq> None}. past a d}" by (simp only: set_sorted_list_of_set)
  then show "m (key d) \<noteq> None" "good d" by simp_all
qed

end

locale digest_range = ordered_range p key "\<lambda>_. True" for p :: bytes and key :: "digest \<Rightarrow> bytes"
begin

lemmas page_digests = page_of_items [unfolded simp_thms]
lemmas digest_mem = page_mem(1) [unfolded simp_thms]

lemma cursor: "under p (map_option key a)" "grouped p (map_option key a)"
  by (rule cursor_ok; rule TrueI)+

end

lemma digest_key_less:
  "manifest_key r d < manifest_key r e \<longleftrightarrow> d < e" "repo_blob_key r d < repo_blob_key r e \<longleftrightarrow> d < e"
  "referrer_key r s d < referrer_key r s e \<longleftrightarrow> d < e" "child_parent_key r s d < child_parent_key r s e \<longleftrightarrow> d < e"
  using enc_append_less [of d "[]" e "[]"] by (simp_all add: data_keys)

lemma prefix_as_bytes [simp]: "prefix (as_bytes p) (as_bytes n) \<longleftrightarrow> prefix p n"
proof (induction p arbitrary: n)
  case (Cons c p)
  then show ?case by (cases n) simp_all
qed simp

lemma resumable_names [simp]: "resumable (repo_by_name n)" "resumable repos_by_name"
  by (auto simp: resumable_def group_within_def prefix_def key_defs no_group)

lemma range_cover:
  assumes "entries_ok lib m" and "m k \<noteq> None" and "prefix p k"
    and "\<And>sk. wf_key sk \<Longrightarrow> good_key sk \<Longrightarrow> prefix p (encode_key sk) \<Longrightarrow> \<exists>x. good x \<and> encode_key sk = key x"
  shows "\<exists>x. good x \<and> k = key x"
  using entries_ok_key [OF assms(1,2)] assms(3,4) by metis

interpretation manifests: digest_range "manifests_in_repo r" "manifest_key r" for r
proof
  fix lib :: libs and m :: store and k assume "entries_ok lib m" "m k \<noteq> None" "prefix (manifests_in_repo r) k"
  then show "\<exists>d. True \<and> k = manifest_key r d" by (rule range_cover) (auto simp: prefix_keys(8))
qed (simp add: data_keys scan_prefixes, simp add: data_keys key_codes, rule resumable_ranges, rule digest_key_less)

interpretation referrers_of_subject: digest_range "referrers_of r d" "referrer_key r d" for r d
proof
  fix lib :: libs and m :: store and k assume "entries_ok lib m" "m k \<noteq> None" "prefix (referrers_of r d) k"
  then show "\<exists>e. True \<and> k = referrer_key r d e" by (rule range_cover) (auto simp: prefix_keys(9))
qed (simp add: data_keys scan_prefixes, simp add: data_keys key_codes, rule resumable_ranges, rule digest_key_less)

interpretation parents: digest_range "parents_of r d" "child_parent_key r d" for r d
proof
  fix lib :: libs and m :: store and k assume "entries_ok lib m" "m k \<noteq> None" "prefix (parents_of r d) k"
  then show "\<exists>e. True \<and> k = child_parent_key r d e" by (rule range_cover) (auto simp: prefix_keys(6))
qed (simp add: data_keys scan_prefixes, simp add: data_keys key_codes, rule resumable_ranges, rule digest_key_less)

lemma prefix_repo_blobs: "wf_key sk \<Longrightarrow> prefix (blobs_in_repo r) (encode_key sk) \<longleftrightarrow> (\<exists>d. sk = KRepoBlob r d)"
  by (cases sk) (auto simp: key_defs key_codes)

interpretation members: digest_range "blobs_in_repo r" "repo_blob_key r" for r
proof
  fix lib :: libs and m :: store and k assume "entries_ok lib m" "m k \<noteq> None" "prefix (blobs_in_repo r) k"
  then show "\<exists>e. True \<and> k = repo_blob_key r e" by (rule range_cover) (auto simp: prefix_repo_blobs)
qed (simp add: data_keys scan_prefixes, simp add: data_keys key_codes, rule resumable_ranges, rule digest_key_less)

definition edge_key :: "digest \<Rightarrow> repo_id \<times> digest \<Rightarrow> bytes" where
  "edge_key b x = blob_ref_key b (fst x) (snd x)"

interpretation edges: ordered_range "blob_refs d" "edge_key d" "\<lambda>_. True" for d
proof
  fix lib :: libs and m :: store and k assume "entries_ok lib m" "m k \<noteq> None" "prefix (blob_refs d) k"
  then show "\<exists>e. True \<and> k = edge_key d e" by (rule range_cover) (auto simp: prefix_keys(2) edge_key_def)
next
  fix x y :: "repo_id \<times> digest"
  show "edge_key d x < edge_key d y \<longleftrightarrow> x < y"
    using enc_append_less [of "snd x" "[]" "snd y" "[]"] by (auto simp: edge_key_def data_keys key_codes less_prod_def)
qed (simp add: edge_key_def data_keys scan_prefixes, auto simp: edge_key_def data_keys key_codes prod_eq_iff intro: resumable_ranges)

lemma as_bytes_less [simp]: "as_bytes a < as_bytes b \<longleftrightarrow> a < b"
proof -
  have "char_byte c < char_byte d \<longleftrightarrow> c < d" for c d
    by (simp add: word_less_nat_alt unat_char_byte less_char_def)
  then show ?thesis by (induction a arbitrary: b) (case_tac b; simp)+
qed

interpretation names: ordered_range "repo_by_name p" repo_by_name "\<lambda>n. is_str n \<and> prefix p n" for p
proof
  fix lib :: libs and m :: store and k assume "entries_ok lib m" "m k \<noteq> None" "prefix (repo_by_name p) k"
  then show "\<exists>n. (is_str n \<and> prefix p n) \<and> k = repo_by_name n"
  proof (rule range_cover)
    fix sk assume "wf_key sk" "good_key sk" "prefix (repo_by_name p) (encode_key sk)"
    then show "\<exists>n. (is_str n \<and> prefix p n) \<and> encode_key sk = repo_by_name n"
      by (cases sk) (auto simp: key_defs)
  qed
qed (simp add: key_defs, simp add: key_defs, rule resumable_names, simp add: key_defs)

interpretation tags: item_range "tags_in_repo r" "tag_key r" valid_tag for r
proof
  fix lib :: libs and m :: store and k assume "entries_ok lib m" "m k \<noteq> None" "prefix (tags_in_repo r) k"
  then show "\<exists>t. valid_tag t \<and> k = tag_key r t"
  proof (rule range_cover)
    fix sk assume "wf_key sk" "good_key sk" "prefix (tags_in_repo r) (encode_key sk)"
    then show "\<exists>t. valid_tag t \<and> encode_key sk = tag_key r t" by (auto simp: prefix_keys(7))
  qed
qed (simp add: key_defs, simp add: key_defs, rule resumable_ranges)

section \<open>What the listings return\<close>

lemma for_r_collect:
  assumes "\<And>x acc. x \<in> set xs \<Longrightarrow> step x acc = Inr (acc @ h x)"
  shows "for_r xs acc step = Inr (acc @ concat (map h xs))"
  using assms by (induction xs arbitrary: acc) auto

definition referrer_at :: "libs \<Rightarrow> store \<Rightarrow> repo_id \<Rightarrow> digest \<Rightarrow> digest \<Rightarrow> referrer_record option" where
  "referrer_at lib m r s d = Option.bind (m (referrer_key r s d)) (co_dec (lb_referrer lib))"

lemma referrer_at_iff: "entries_ok lib m \<Longrightarrow> m (referrer_key r s d) \<noteq> None \<longleftrightarrow> referrer_at lib m r s d \<noteq> None"
  using entries_okD [of lib m "referrer_key r s d"] by (cases "m (referrer_key r s d)") (auto simp: referrer_at_def)

definition matching :: "string option \<Rightarrow> referrer_record \<Rightarrow> bool" where
  "matching wanted x \<longleftrightarrow> (case wanted of None \<Rightarrow> True | Some w \<Rightarrow> rr_artifact_type x = Some w)"

lemma for_r_map: "for_r (map f xs) acc step = for_r xs acc (\<lambda>x. step (f x))"
  by (induction xs arbitrary: acc) simp_all

lemma referrer_digest: "second_digest_after_repo (referrer_key r s d) = Some d" "second_digest_after_repo (child_parent_key r s d) = Some d"
  "digest_after_repo (manifest_key r d) = Some d"
  by (simp_all add: data_keys)

context registry_env
begin

lemma refines_referrers:
  "refines holds may_fail (referrers G repo subject wanted a n) (\<lambda>m. Inr (case id_of m repo of
     None \<Rightarrow> \<lparr> fl_entries = [], fl_next = None, fl_filter_applied = (wanted \<noteq> None) \<rparr>
   | Some r \<Rightarrow>
       (case item_page {d. m (referrer_key r subject d) \<noteq> None} a n of (ds, nxt) \<Rightarrow>
          \<lparr> fl_entries = map (\<lambda>d. \<lparr> fe_digest = d, fe_record = the (referrer_at (rg_libs G) m r subject d) \<rparr>)
               (filter (\<lambda>d. matching wanted (the (referrer_at (rg_libs G) m r subject d))) ds),
            fl_next = nxt, fl_filter_applied = (wanted \<noteq> None) \<rparr>)))"
  unfolding referrers_def
proof (rule refines_cong, (rule refines_intros refines_lookup_repo refines_scan referrers_of_subject.cursor)+)
  let ?lib = "rg_libs G"
  fix m s assume h: "holds m s"
  note e = holdsD(5) [OF h] and fin = holds_finite [OF h]
  have "for_r (map (\<lambda>d. (referrer_key r subject d, the (m (referrer_key r subject d)))) ds) [] (referrer_step ?lib wanted)
      = Inr (map (\<lambda>d. \<lparr> fe_digest = d, fe_record = the (referrer_at ?lib m r subject d) \<rparr>)
               (filter (\<lambda>d. matching wanted (the (referrer_at ?lib m r subject d))) ds))"
    if ds: "\<And>d. d \<in> set ds \<Longrightarrow> m (referrer_key r subject d) \<noteq> None" for r ds
  proof -
    have step: "referrer_step ?lib wanted (referrer_key r subject d, the (m (referrer_key r subject d))) acc
        = Inr (acc @ (if matching wanted (the (referrer_at ?lib m r subject d))
            then [\<lparr> fe_digest = d, fe_record = the (referrer_at ?lib m r subject d) \<rparr>] else []))" if mem: "d \<in> set ds" for d acc
    proof -
      obtain v where v: "m (referrer_key r subject d) = Some v" using ds [OF mem] by auto
      with entries_okD [OF e v] obtain x where "co_dec (lb_referrer ?lib) v = Some x" by auto
      with v show ?thesis
        by (auto simp: referrer_step_def decode_def referrer_at_def matching_def referrer_digest split: option.split)
    qed
    have "for_r (map (\<lambda>d. (referrer_key r subject d, the (m (referrer_key r subject d)))) ds) [] (referrer_step ?lib wanted)
      = Inr ([] @ concat (map (\<lambda>d. if matching wanted (the (referrer_at ?lib m r subject d))
            then [\<lparr> fe_digest = d, fe_record = the (referrer_at ?lib m r subject d) \<rparr>] else []) ds))"
      unfolding for_r_map by (rule for_r_collect) (rule step)
    also have "concat (map (\<lambda>d. if matching wanted (the (referrer_at ?lib m r subject d))
            then [\<lparr> fe_digest = d, fe_record = the (referrer_at ?lib m r subject d) \<rparr>] else []) ds)
      = map (\<lambda>d. \<lparr> fe_digest = d, fe_record = the (referrer_at ?lib m r subject d) \<rparr>)
               (filter (\<lambda>d. matching wanted (the (referrer_at ?lib m r subject d))) ds)" by (induction ds) auto
    finally show ?thesis by simp
  qed
  note loop = this [OF referrers_of_subject.digest_mem [OF e fin]]
  show "and_then (Inr (id_of m repo)) (\<lambda>found. case found of
      None \<Rightarrow> Inr \<lparr> fl_entries = [], fl_next = None, fl_filter_applied = (wanted \<noteq> None) \<rparr>
    | Some repo_id \<Rightarrow> and_then (Inr (scan_page m (referrers_of repo_id subject) (map_option (referrer_key repo_id subject) a) n)) (\<lambda>page.
        and_then (for_r (pg_entries page) [] (referrer_step ?lib wanted)) (\<lambda>entries.
        and_then (try_option (\<lambda>key. ok_or (corrupt ''referrer cursor'') (second_digest_after_repo key)) (pg_next page)) (\<lambda>nxt.
          Inr \<lparr> fl_entries = entries, fl_next = nxt, fl_filter_applied = (wanted \<noteq> None) \<rparr>))))
    = Inr (case id_of m repo of
        None \<Rightarrow> \<lparr> fl_entries = [], fl_next = None, fl_filter_applied = (wanted \<noteq> None) \<rparr>
      | Some r \<Rightarrow>
       (case item_page {d. m (referrer_key r subject d) \<noteq> None} a n of (ds, nxt) \<Rightarrow>
          \<lparr> fl_entries = map (\<lambda>d. \<lparr> fe_digest = d, fe_record = the (referrer_at ?lib m r subject d) \<rparr>)
               (filter (\<lambda>d. matching wanted (the (referrer_at ?lib m r subject d))) ds),
            fl_next = nxt, fl_filter_applied = (wanted \<noteq> None) \<rparr>))"
    by (simp add: referrers_of_subject.page_digests [OF e fin] loop try_option_def referrer_digest split: option.split prod.split)
qed

end

lemma try_map_map: "(\<And>x. x \<in> set xs \<Longrightarrow> f (g x) = Inr (h x)) \<Longrightarrow> try_map f (map g xs) = Inr (map h xs)"
  by (induction xs) auto

lemma try_option_map: "(\<And>x. f (g x) = Inr x) \<Longrightarrow> try_option f (map_option g x) = Inr x"
  by (simp add: try_option_def split: option.split)

lemma cursor_digest_key:
  "cursor_digest (map_option (manifest_key r) a) what = Inr a"
  "cursor_digest (map_option (repo_blob_key r) a) what = Inr a"
  by (simp_all add: cursor_digest_def referrer_digest digest_of_membership_key split: option.split)

lemma manifest_set:
  assumes "entries_ok lib m"
  shows "{d. \<exists>y. m (manifest_key r d) = Some y} = {d. \<exists>y. manifest_at lib m r d = Some y}"
  using record_cases(2) [OF assms, of r] by simp

text \<open>The manifests of a page that no tag names.\<close>

definition untagged :: "libs \<Rightarrow> store \<Rightarrow> repo_id \<Rightarrow> digest \<Rightarrow> bool" where
  "untagged lib m r d \<longleftrightarrow> (\<forall>t. map_option tr_digest (tag_at lib m r t) \<noteq> Some d)"

lemma has_tags:
  assumes "store_ok lib m"
  shows "has_prefix m (tags_of_manifest r d) \<longleftrightarrow> \<not> untagged lib m r d"
proof -
  have e: "entries_ok lib m" using assms by (simp add: store_ok_def)
  have "m (manifest_tag_key r d t) \<noteq> None \<longleftrightarrow> map_option tr_digest (tag_at lib m r t) = Some d" for t
    using assms unfolding store_ok_def tags_ok_def by blast
  moreover have "valid_tag t" if "m (manifest_tag_key r d t) \<noteq> None" for t
    using that entries_okD [OF e] by fastforce
  ultimately show ?thesis unfolding has_prefix_keys(6) [OF e] untagged_def by blast
qed

definition member_size :: "libs \<Rightarrow> store \<Rightarrow> repo_id \<Rightarrow> digest \<Rightarrow> u64" where
  "member_size lib m r d = (case Option.bind (m (repo_blob_key r d)) (co_dec (lb_repo_blob lib)) of
     Some x \<Rightarrow> rb_size x | None \<Rightarrow> 0)"

context registry_env
begin

lemma refines_list_manifests:
  "refines holds may_fail (list_manifests G repo a n) (\<lambda>m.
     and_then (ok_or (NameUnknown repo) (id_of m repo)) (\<lambda>r.
       case item_page {d. manifest_at (rg_libs G) m r d \<noteq> None} a n of (ds, nxt) \<Rightarrow>
         Inr \<lparr> nl_manifests = map (\<lambda>d. the (manifest_at (rg_libs G) m r d)) ds, nl_next = nxt \<rparr>))"
  unfolding list_manifests_def
proof (rule refines_cong, (rule refines_intros refines_require_repo refines_scan manifests.cursor)+)
  let ?lib = "rg_libs G"
  fix m s assume h: "holds m s"
  note e = holdsD(5) [OF h] and fin = holds_finite [OF h]
  have read: "decode (lb_manifest ?lib) (the (m (manifest_key r d))) what = Inr (the (manifest_at ?lib m r d))"
    if "m (manifest_key r d) \<noteq> None" for r d what
  proof -
    obtain v where v: "m (manifest_key r d) = Some v" using \<open>m _ \<noteq> None\<close> by auto
    with entries_okD [OF e v] show ?thesis by (auto simp: decode_def manifest_at_def split: option.splits)
  qed
  have "try_map (\<lambda>e. decode (lb_manifest ?lib) (snd e) what) (map (\<lambda>d. (manifest_key r d, the (m (manifest_key r d))))
        (fst (item_page {d. m (manifest_key r d) \<noteq> None} a n)))
      = Inr (map (\<lambda>d. the (manifest_at ?lib m r d)) (fst (item_page {d. m (manifest_key r d) \<noteq> None} a n)))" for r what
    by (rule try_map_map) (simp add: read [OF manifests.digest_mem [OF e fin]])
  then show "and_then (ok_or (NameUnknown repo) (id_of m repo)) (\<lambda>r.
      and_then (Inr (scan_page m (manifests_in_repo r) (map_option (manifest_key r) a) n)) (\<lambda>page.
      and_then (try_map (\<lambda>e. decode (lb_manifest ?lib) (snd e) ''ManifestRecord'') (pg_entries page)) (\<lambda>ms.
      and_then (cursor_digest (pg_next page) ''manifest cursor'') (\<lambda>nxt.
        Inr \<lparr> nl_manifests = ms, nl_next = nxt \<rparr>))))
    = and_then (ok_or (NameUnknown repo) (id_of m repo)) (\<lambda>r.
       case item_page {d. manifest_at ?lib m r d \<noteq> None} a n of (ds, nxt) \<Rightarrow>
         Inr \<lparr> nl_manifests = map (\<lambda>d. the (manifest_at ?lib m r d)) ds, nl_next = nxt \<rparr>)"
    by (simp add: manifests.page_digests [OF e fin] cursor_digest_key manifest_set [OF e] case_prod_beta)
qed

lemma refines_untagged:
  "refines holds may_fail (untagged_manifests G repo a n) (\<lambda>m.
     and_then (ok_or (NameUnknown repo) (id_of m repo)) (\<lambda>r.
       case item_page {d. manifest_at (rg_libs G) m r d \<noteq> None} a n of (ds, nxt) \<Rightarrow>
         Inr \<lparr> dl_digests = filter (untagged (rg_libs G) m r) ds, dl_next = nxt \<rparr>))"
proof -
  let ?lib = "rg_libs G"
  have loop: "refines holds may_fail (for_a ks [] (\<lambda>key digests.
       bind_a (lift_a (ok_or (corrupt ''manifest key'') (digest_after_repo key))) (\<lambda>d.
       bind_a (rg_exists G (tags_of_manifest r d)) (\<lambda>tagged.
         return_a (if \<not> tagged then digests @ [d] else digests)))))
     (\<lambda>m. for_r ks [] (\<lambda>key digests. and_then (ok_or (corrupt ''manifest key'') (digest_after_repo key)) (\<lambda>d.
        Inr (if untagged ?lib m r d then digests @ [d] else digests))))" for ks r
    by (rule refines_for, rule refines_cong, (rule refines_intros refines_exists)+)
      (simp add: has_tags [OF holdsD(4)])
  show ?thesis
    unfolding untagged_manifests_def
  proof (rule refines_cong, (rule loop refines_intros refines_require_repo refines_scan_keys manifests.cursor)+)
    fix m s assume h: "holds m s"
    note e = holdsD(5) [OF h] and fin = holds_finite [OF h]
    have "for_r (map (manifest_key r) ds) [] (\<lambda>key digests. and_then (ok_or (corrupt ''manifest key'') (digest_after_repo key)) (\<lambda>d.
        Inr (if untagged ?lib m r d then digests @ [d] else digests))) = Inr (filter (untagged ?lib m r) ds)" for r ds
    proof -
      have "for_r ds [] (\<lambda>d digests. Inr (if untagged ?lib m r d then digests @ [d] else digests))
        = Inr ([] @ concat (map (\<lambda>d. if untagged ?lib m r d then [d] else []) ds))"
        by (rule for_r_collect) simp
      moreover have "concat (map (\<lambda>d. if untagged ?lib m r d then [d] else []) ds) = filter (untagged ?lib m r) ds"
        by (induction ds) auto
      ultimately show ?thesis by (simp add: for_r_map referrer_digest)
    qed
    then show "and_then (ok_or (NameUnknown repo) (id_of m repo)) (\<lambda>r.
        and_then (Inr (key_page_of (scan_page m (manifests_in_repo r) (map_option (manifest_key r) a) n))) (\<lambda>page.
        and_then (for_r (kp_keys page) [] (\<lambda>key digests. and_then (ok_or (corrupt ''manifest key'') (digest_after_repo key)) (\<lambda>d.
          Inr (if untagged ?lib m r d then digests @ [d] else digests)))) (\<lambda>digests.
        and_then (cursor_digest (kp_next page) ''manifest cursor'') (\<lambda>nxt.
          Inr \<lparr> dl_digests = digests, dl_next = nxt \<rparr>))))
      = and_then (ok_or (NameUnknown repo) (id_of m repo)) (\<lambda>r.
         case item_page {d. manifest_at ?lib m r d \<noteq> None} a n of (ds, nxt) \<Rightarrow>
           Inr \<lparr> dl_digests = filter (untagged ?lib m r) ds, dl_next = nxt \<rparr>)"
      by (simp add: manifests.page_digests [OF e fin] key_page_of_def comp_def cursor_digest_key manifest_set [OF e] case_prod_beta)
  qed
qed

lemma refines_repo_usage:
  "refines holds may_fail (repo_usage G repo a n) (\<lambda>m.
     and_then (ok_or (NameUnknown repo) (id_of m repo)) (\<lambda>r.
       case item_page {d. m (repo_blob_key r d) \<noteq> None} a n of (ds, nxt) \<Rightarrow>
         Inr \<lparr> up_blobs = word_of_nat (length ds), up_bytes = sum_list (map (member_size (rg_libs G) m r) ds), up_next = nxt \<rparr>))"
  unfolding repo_usage_def
proof (rule refines_cong, (rule refines_intros refines_require_repo refines_scan members.cursor)+)
  let ?lib = "rg_libs G"
  fix m s assume h: "holds m s"
  note e = holdsD(5) [OF h] and fin = holds_finite [OF h]
  let ?step = "\<lambda>e usage. and_then (decode (lb_repo_blob ?lib) (snd e) ''RepoBlobRecord'') (\<lambda>record.
           Inr (usage\<lparr>up_blobs := up_blobs usage + 1, up_bytes := up_bytes usage + rb_size record\<rparr>))"
  have step: "?step (repo_blob_key r d, the (m (repo_blob_key r d))) u
      = Inr (u\<lparr>up_blobs := up_blobs u + 1, up_bytes := up_bytes u + member_size ?lib m r d\<rparr>)" if mem: "m (repo_blob_key r d) \<noteq> None" for r d u
  proof -
    obtain v where v: "m (repo_blob_key r d) = Some v" using mem by auto
    with entries_okD [OF e v] show ?thesis by (auto simp: decode_def member_size_def)
  qed
  have "for_r ds u (\<lambda>d. ?step (repo_blob_key r d, the (m (repo_blob_key r d))))
      = Inr (u\<lparr>up_blobs := up_blobs u + word_of_nat (length ds), up_bytes := up_bytes u + sum_list (map (member_size ?lib m r) ds)\<rparr>)"
    if "\<And>d. d \<in> set ds \<Longrightarrow> m (repo_blob_key r d) \<noteq> None" for r ds u
    using that
  proof (induction ds arbitrary: u)
    case (Cons d ds)
    have "for_r (d # ds) u (\<lambda>d. ?step (repo_blob_key r d, the (m (repo_blob_key r d))))
        = for_r ds (u\<lparr>up_blobs := up_blobs u + 1, up_bytes := up_bytes u + member_size ?lib m r d\<rparr>)
            (\<lambda>d. ?step (repo_blob_key r d, the (m (repo_blob_key r d))))"
      using step [of r d u] Cons.prems [of d] by simp
    with Cons show ?case by (simp add: ac_simps)
  qed simp
  note loop = this [OF members.digest_mem [OF e fin], unfolded snd_conv]
  show "and_then (ok_or (NameUnknown repo) (id_of m repo)) (\<lambda>r.
      and_then (Inr (scan_page m (blobs_in_repo r) (map_option (repo_blob_key r) a) n)) (\<lambda>page.
      and_then (cursor_digest (pg_next page) ''repo blob cursor'') (\<lambda>nxt.
        for_r (pg_entries page) \<lparr> up_blobs = 0, up_bytes = 0, up_next = nxt \<rparr> ?step)))
    = and_then (ok_or (NameUnknown repo) (id_of m repo)) (\<lambda>r.
       case item_page {d. m (repo_blob_key r d) \<noteq> None} a n of (ds, nxt) \<Rightarrow>
         Inr \<lparr> up_blobs = word_of_nat (length ds), up_bytes = sum_list (map (member_size ?lib m r) ds), up_next = nxt \<rparr>)"
    by (simp add: members.page_digests [OF e fin] cursor_digest_key for_r_map loop case_prod_beta del: not_None_eq)
qed

lemma refines_count_manifests:
  "refines holds may_fail (count_manifests G repo a n) (\<lambda>m.
     and_then (ok_or (NameUnknown repo) (id_of m repo)) (\<lambda>r.
       case item_page {d. manifest_at (rg_libs G) m r d \<noteq> None} a n of (ds, nxt) \<Rightarrow>
         Inr \<lparr> mc_manifests = word_of_nat (length ds), mc_next = nxt \<rparr>))"
  unfolding count_manifests_def
proof (rule refines_cong, (rule refines_intros refines_require_repo refines_scan_keys manifests.cursor)+)
  fix m s assume h: "holds m s"
  note e = holdsD(5) [OF h] and fin = holds_finite [OF h]
  show "and_then (ok_or (NameUnknown repo) (id_of m repo)) (\<lambda>r.
      and_then (Inr (key_page_of (scan_page m (manifests_in_repo r) (map_option (manifest_key r) a) n))) (\<lambda>page.
      and_then (cursor_digest (kp_next page) ''manifest cursor'') (\<lambda>nxt.
        Inr \<lparr> mc_manifests = word_of_nat (length (kp_keys page)), mc_next = nxt \<rparr>)))
    = and_then (ok_or (NameUnknown repo) (id_of m repo)) (\<lambda>r.
       case item_page {d. manifest_at (rg_libs G) m r d \<noteq> None} a n of (ds, nxt) \<Rightarrow>
         Inr \<lparr> mc_manifests = word_of_nat (length ds), mc_next = nxt \<rparr>)"
    by (simp add: manifests.page_digests [OF e fin] key_page_of_def cursor_digest_key manifest_set [OF e] case_prod_beta)
qed

lemma refines_parents:
  "refines holds may_fail (parents_of_manifest G repo c a n) (\<lambda>m.
     and_then (ok_or (NameUnknown repo) (id_of m repo)) (\<lambda>r.
       case item_page {d. m (child_parent_key r c d) \<noteq> None} a n of (ds, nxt) \<Rightarrow>
         Inr \<lparr> dl_digests = ds, dl_next = nxt \<rparr>))"
  unfolding parents_of_manifest_def
proof (rule refines_cong, (rule refines_intros refines_require_repo refines_scan_keys parents.cursor)+)
  fix m s assume h: "holds m s"
  note e = holdsD(5) [OF h] and fin = holds_finite [OF h]
  have "try_map (\<lambda>key. ok_or (corrupt what) (second_digest_after_repo key)) (map (child_parent_key r c) ds) = Inr ds" for r what ds
    using try_map_map [of ds "\<lambda>key. ok_or (corrupt what) (second_digest_after_repo key)" "child_parent_key r c" "\<lambda>d. d"]
    by (simp add: referrer_digest)
  then show "and_then (ok_or (NameUnknown repo) (id_of m repo)) (\<lambda>r.
      and_then (Inr (key_page_of (scan_page m (parents_of r c) (map_option (child_parent_key r c) a) n))) (\<lambda>page.
      and_then (try_map (\<lambda>key. ok_or (corrupt ''child-parent key'') (second_digest_after_repo key)) (kp_keys page)) (\<lambda>digests.
      and_then (try_option (\<lambda>key. ok_or (corrupt ''child-parent cursor'') (second_digest_after_repo key)) (kp_next page)) (\<lambda>nxt.
        Inr \<lparr> dl_digests = digests, dl_next = nxt \<rparr>))))
    = and_then (ok_or (NameUnknown repo) (id_of m repo)) (\<lambda>r.
       case item_page {d. m (child_parent_key r c d) \<noteq> None} a n of (ds, nxt) \<Rightarrow>
         Inr \<lparr> dl_digests = ds, dl_next = nxt \<rparr>)"
    by (simp add: parents.page_digests [OF e fin] key_page_of_def comp_def try_option_map referrer_digest case_prod_beta)
qed

end

section \<open>Repository names\<close>

lemma name_range_keys:
  assumes "entries_ok lib m" and "names_ok m"
  shows "{n. (is_str n \<and> prefix p n) \<and> m (repo_by_name n) \<noteq> None} = {n. prefix p n \<and> id_of m n \<noteq> None}"
proof -
  have "m (repo_by_name n) \<noteq> None \<longleftrightarrow> id_of m n \<noteq> None" for n
  proof
    assume "m (repo_by_name n) \<noteq> None"
    then obtain v where "m (repo_by_name n) = Some v" by auto
    then show "id_of m n \<noteq> None" using names_ok_id_of [OF assms(2)] by (metis option.distinct(1))
  qed (auto simp: id_of_def bind_eq_Some_conv)
  moreover have "is_str n" if "m (repo_by_name n) \<noteq> None" for n
    using that entries_okD [OF assms(1), of "repo_by_name n"] by auto
  ultimately show ?thesis by blast
qed

lemma parse_repo_name_key: "is_str n \<Longrightarrow> parse_repo_name (repo_by_name n) = Some n"
  by (simp add: parse_repo_name_def key_defs get_from_def)

definition names_from :: "store \<Rightarrow> string \<Rightarrow> string option \<Rightarrow> string list" where
  "names_from m p a = sorted_list_of_set {n \<in> {n. prefix p n \<and> id_of m n \<noteq> None}. past a n}"

text \<open>What a substring search serves of the names that follow its cursor.\<close>

definition search_result :: "string \<Rightarrow> nat \<Rightarrow> nat \<Rightarrow> string list \<Rightarrow> repo_list" where
  "search_result needle limit ceiling ns =
     (let hits = filter (sublist needle) (take ceiling ns) in
      if limit < length hits
      then \<lparr> rl_repos = take limit hits, rl_next = (if limit = 0 then None else Some (last (take limit hits))) \<rparr>
      else \<lparr> rl_repos = hits,
             rl_next = (if 0 < ceiling \<and> ceiling < length ns then Some (ns ! (ceiling - 1)) else None) \<rparr>)"

lemma search_keys_names:
  assumes "\<And>n. n \<in> set ns \<Longrightarrow> is_str n" and "length repos \<le> limit"
  shows "search_keys needle limit (map repo_by_name ns) repos examined =
    Inr (let hits = repos @ filter (sublist needle) ns in
         if limit < length hits then Inl (take limit hits, if limit = 0 then None else Some (last (take limit hits)))
         else Inr (hits, examined + length ns))"
  using assms
proof (induction ns arbitrary: repos examined)
  case (Cons n ns)
  have parse: "parse_repo_name (repo_by_name n) = Some n" using Cons.prems(1) by (simp add: parse_repo_name_key)
  show ?case
  proof (cases "sublist needle n")
    case False
    with Cons parse show ?thesis by (simp add: Let_def)
  next
    case True
    note found = True
    show ?thesis
    proof (cases "length repos = limit")
      case True
      then show ?thesis by (auto simp: parse found)
    next
      case False
      with Cons.prems(2) have "length (repos @ [n]) \<le> limit" by simp
      with Cons.IH [OF Cons.prems(1) this] False found parse show ?thesis by (simp add: Let_def)
    qed
  qed
qed (simp add: Let_def)

lemma names_past:
  assumes "sorted_wrt (<) (xs :: string list)" and "k < length xs"
  shows "sorted_list_of_set {x \<in> set xs. xs ! k < x} = drop (Suc k) xs"
proof -
  have s: "sorted_wrt (<) (drop (Suc k) xs)" using assms(1) by (rule sorted_wrt_drop)
  have mem: "x \<in> set (drop (Suc k) xs) \<longleftrightarrow> (\<exists>i. Suc k \<le> i \<and> i < length xs \<and> x = xs ! i)" for x
  proof
    assume "\<exists>i. Suc k \<le> i \<and> i < length xs \<and> x = xs ! i"
    then obtain i where "Suc k \<le> i" "i < length xs" "x = xs ! i" by blast
    then show "x \<in> set (drop (Suc k) xs)" by (auto simp: in_set_conv_nth intro!: exI [of _ "i - Suc k"])
  next
    assume "x \<in> set (drop (Suc k) xs)"
    then obtain i where "i < length xs - Suc k" "x = xs ! (Suc k + i)" by (auto simp: in_set_conv_nth)
    then show "\<exists>i. Suc k \<le> i \<and> i < length xs \<and> x = xs ! i" by (intro exI [of _ "Suc k + i"]) auto
  qed
  have "{x \<in> set xs. xs ! k < x} = set (drop (Suc k) xs)"
  proof (intro set_eqI iffI)
    fix x assume "x \<in> {x \<in> set xs. xs ! k < x}"
    then obtain i where i: "i < length xs" "x = xs ! i" "xs ! k < xs ! i" by (auto simp: in_set_conv_nth)
    have "k < i"
    proof (rule ccontr)
      assume "\<not> k < i"
      then have "xs ! i \<le> xs ! k"
        using sorted_wrt_nth_less [OF assms(1), of i k] assms(2) by (cases "i = k") auto
      with i(3) show False by simp
    qed
    with i(1,2) show "x \<in> set (drop (Suc k) xs)" unfolding mem by (intro exI [of _ i]) simp
  next
    fix x assume "x \<in> set (drop (Suc k) xs)"
    then obtain i where "Suc k \<le> i" "i < length xs" "x = xs ! i" by (auto simp: mem)
    with sorted_wrt_nth_less [OF assms(1), of k i] show "x \<in> {x \<in> set xs. xs ! k < x}" by auto
  qed
  with s show ?thesis by (metis sorted_list_of_set.idem_if_sorted_distinct strict_sorted_iff)
qed

context registry_env
begin

lemma name_page:
  assumes h: "holds m s"
  shows "scan_page m (repo_by_name p) (map_option repo_by_name a) n =
    \<lparr> pg_entries = map (\<lambda>x. (repo_by_name x, the (m (repo_by_name x)))) (take n (names_from m p a)),
      pg_next = map_option repo_by_name (next_after n (names_from m p a)) \<rparr>"
    and "\<And>x. x \<in> set (names_from m p a) \<Longrightarrow> is_str x"
    and "sorted_wrt (<) (names_from m p a)"
    and "set (names_from m p a) = {x. prefix p x \<and> id_of m x \<noteq> None \<and> past a x}"
proof -
  note e = holdsD(5) [OF h] and fin = holds_finite [OF h]
  note eq = name_range_keys [OF e holdsD(6) [OF h], of p]
  show "scan_page m (repo_by_name p) (map_option repo_by_name a) n =
    \<lparr> pg_entries = map (\<lambda>x. (repo_by_name x, the (m (repo_by_name x)))) (take n (names_from m p a)),
      pg_next = map_option repo_by_name (next_after n (names_from m p a)) \<rparr>"
    unfolding names.page_of_items [OF e fin] eq by (simp add: item_page_def Let_def names_from_def)
  have fin': "finite {n \<in> {n. prefix p n \<and> id_of m n \<noteq> None}. past a n}"
    using names.finite_items [OF fin, of p] unfolding eq by (rule finite_subset [rotated]) auto
  show set: "set (names_from m p a) = {x. prefix p x \<and> id_of m x \<noteq> None \<and> past a x}"
    unfolding names_from_def set_sorted_list_of_set [OF fin'] by auto
  show "is_str x" if "x \<in> set (names_from m p a)" for x
    using that eq unfolding set by blast
  show "sorted_wrt (<) (names_from m p a)" by (simp add: names_from_def)
qed

lemma refines_search_repos:
  assumes "\<And>x. a = Some x \<Longrightarrow> is_str x \<and> prefix p x"
  shows "refines holds may_fail (search_repos G p a n) (\<lambda>m.
    Inr \<lparr> rl_repos = take n (names_from m p a), rl_next = next_after n (names_from m p a) \<rparr>)"
  unfolding search_repos_def
proof (rule refines_cong, (rule refines_intros refines_scan_keys names.cursor_ok assms | assumption)+)
  fix m s assume h: "holds m s"
  have "try_map (\<lambda>key. ok_or e (parse_repo_name key)) (map repo_by_name (take n (names_from m p a))) = Inr (map (\<lambda>x. x) (take n (names_from m p a)))" for e :: registry_error
    by (rule try_map_map) (use name_page(2) [OF h] in \<open>auto simp: parse_repo_name_key dest: in_set_takeD\<close>)
  moreover have "try_option (\<lambda>key. ok_or e (parse_repo_name key)) (map_option repo_by_name (next_after n (names_from m p a)))
      = Inr (next_after n (names_from m p a))" for e :: registry_error
    using name_page(2) [OF h next_after_mem]
    by (cases "next_after n (names_from m p a)") (simp_all add: try_option_def parse_repo_name_key)
  ultimately show "and_then (Inr (key_page_of (scan_page m (repo_by_name p) (map_option repo_by_name a) n))) (\<lambda>page.
      and_then (try_map (\<lambda>key. ok_or (corrupt ''repo name key'') (parse_repo_name key)) (kp_keys page)) (\<lambda>repos.
      and_then (try_option (\<lambda>key. ok_or (corrupt ''repo cursor'') (parse_repo_name key)) (kp_next page)) (\<lambda>nxt.
        Inr \<lparr> rl_repos = repos, rl_next = nxt \<rparr>)))
    = Inr \<lparr> rl_repos = take n (names_from m p a), rl_next = next_after n (names_from m p a) \<rparr>"
    by (simp add: name_page(1) [OF h] key_page_of_def comp_def)
qed

lemma repos_by_name_all: "repos_by_name = repo_by_name ''''"
  by (simp add: key_defs)

lemma ends_search_from:
  assumes "wp (rg_scan_keys G repos_by_name cursor (min SEARCH_STEP (ro_search_ceiling (rg_options G) - examined))) (\<lambda>page s'.
      case search_keys needle limit (kp_keys page) repos examined of
        Inl e \<Rightarrow> X e s'
      | Inr (Inl (repos', nxt)) \<Rightarrow> Q \<lparr> rl_repos = repos', rl_next = nxt \<rparr> s'
      | Inr (Inr (repos', examined')) \<Rightarrow>
          (case kp_next page of
             None \<Rightarrow> Q \<lparr> rl_repos = repos', rl_next = None \<rparr> s'
           | Some key \<Rightarrow>
               if ro_search_ceiling (rg_options G) \<le> examined' then
                 (case ok_or (corrupt ''repo cursor'') (parse_repo_name key) of
                    Inl e \<Rightarrow> X e s' | Inr name \<Rightarrow> Q \<lparr> rl_repos = repos', rl_next = Some name \<rparr> s')
               else ends (search_from G needle limit (Some key) repos' examined') Q X s')) X s"
  shows "ends (search_from G needle limit cursor repos examined) Q X s"
  using assms unfolding ends_def search_from.simps [of G needle limit cursor repos examined s] Let_def
  by (auto simp: wp_def split: prod.splits sum.splits option.splits if_splits)

lemma names_from_next:
  assumes h: "holds m s" and "k < length (names_from m p a)"
  shows "names_from m p (Some (names_from m p a ! k)) = drop (Suc k) (names_from m p a)"
proof -
  let ?xs = "names_from m p a"
  have "past a (?xs ! k)" using nth_mem [OF assms(2)] unfolding name_page(4) [OF h] by simp
  then have "{n \<in> {n. prefix p n \<and> id_of m n \<noteq> None}. past (Some (?xs ! k)) n} = {x \<in> set ?xs. ?xs ! k < x}"
    unfolding name_page(4) [OF h] by (auto simp: past_def split: option.splits)
  then show ?thesis
    using names_past [OF name_page(3) [OF h] assms(2)] by (simp add: names_from_def)
qed

end

lemma search_result_hits:
  assumes "j \<le> ceiling" and "limit < length (filter P (take j xs))"
  shows "limit < length (filter P (take ceiling xs))" and "take limit (filter P (take ceiling xs)) = take limit (filter P (take j xs))"
proof -
  have "take ceiling xs = take j xs @ take (ceiling - j) (drop j xs)"
    using assms(1) by (metis le_add_diff_inverse take_add)
  then have "filter P (take ceiling xs) = filter P (take j xs) @ filter P (take (ceiling - j) (drop j xs))" by simp
  with assms(2) show "limit < length (filter P (take ceiling xs))"
    "take limit (filter P (take ceiling xs)) = take limit (filter P (take j xs))" by simp_all
qed

context registry_env
begin

lemma wp_search_from:
  assumes h: "holds m s" and xs_def: "xs = names_from m '''' a" and str: "\<And>x. a = Some x \<Longrightarrow> is_str x"
    and C: "C = ro_search_ceiling (rg_options G)"
    and "k \<le> length xs" and "k < C \<or> C = 0 \<and> k = 0" and "length (filter (sublist needle) (take k xs)) \<le> limit"
  shows "ends (search_from G needle limit (map_option repo_by_name (if k = 0 then a else Some (xs ! (k - 1))))
      (filter (sublist needle) (take k xs)) k)
    (\<lambda>out s'. holds m s' \<and> out = search_result needle limit C xs) (\<lambda>e s'. holds m s' \<and> engine_error may_fail e) s"
  using assms(1,5-7)
proof (induction "length xs - k" arbitrary: k s rule: less_induct)
  case less
  let ?cur = "if k = 0 then a else Some (xs ! (k - 1))" and ?n = "min SEARCH_STEP (C - k)"
  let ?hits = "filter (sublist needle) (take (k + ?n) xs)"
  have strs: "is_str x" if "x \<in> set xs" for x using that name_page(2) [OF h] unfolding xs_def by blast
  have rest: "names_from m '''' ?cur = drop k xs"
    using less.prems(2) names_from_next [OF h, of "k - 1" "''''" a] by (cases k) (auto simp: xs_def)
  have under: "under repos_by_name (map_option repo_by_name ?cur)" "grouped repos_by_name (map_option repo_by_name ?cur)"
  proof -
    have "is_str x \<and> prefix '''' x" if "?cur = Some x" for x
      using that less.prems(2) str strs nth_mem [of "k - 1" xs] by (auto split: if_splits)
    then show "under repos_by_name (map_option repo_by_name ?cur)" "grouped repos_by_name (map_option repo_by_name ?cur)"
      unfolding repos_by_name_all using names.cursor_ok [of ?cur "''''"] by blast+
  qed
  have found: "search_keys needle limit (map repo_by_name (take ?n (drop k xs))) (filter (sublist needle) (take k xs)) k =
      Inr (if limit < length ?hits then Inl (take limit ?hits, if limit = 0 then None else Some (last (take limit ?hits)))
           else Inr (?hits, k + length (take ?n (drop k xs))))"
    by (subst search_keys_names) (use strs less.prems(4) in \<open>auto simp: Let_def take_add dest!: in_set_takeD in_set_dropD\<close>)
  show ?case
  proof (rule ends_search_from, rule refines_wp [OF refines_scan_keys [OF under] less.prems(1)])
    fix page s' assume h': "holds m s'" and "Inr (key_page_of (scan_page m repos_by_name (map_option repo_by_name ?cur)
        (min SEARCH_STEP (ro_search_ceiling (rg_options G) - k)))) = Inr page"
    then have page: "kp_keys page = map repo_by_name (take ?n (drop k xs))"
      "kp_next page = map_option repo_by_name (next_after ?n (drop k xs))"
      unfolding repos_by_name_all name_page(1) [OF h'] rest C [symmetric] by (auto simp: key_page_of_def comp_def)
    have finish: "search_result needle limit C xs = \<lparr> rl_repos = ?hits, rl_next = None \<rparr>"
      if "\<not> limit < length ?hits" "next_after ?n (drop k xs) = None"
    proof (cases "C = 0")
      case False
      with less.prems(3) that(2) have "length xs \<le> k + ?n"
        by (auto simp: next_after_def SEARCH_STEP_def split: if_splits)
      then have "take (k + ?n) xs = xs" "take C xs = xs" "\<not> C < length xs" using less.prems(3) by auto
      with that(1) show ?thesis by (simp add: search_result_def)
    qed (use less.prems(3) in \<open>simp add: search_result_def\<close>)
    have over: "search_result needle limit C xs =
        \<lparr> rl_repos = take limit ?hits, rl_next = (if limit = 0 then None else Some (last (take limit ?hits))) \<rparr>"
      if "limit < length ?hits"
    proof -
      have "k + ?n \<le> C" using less.prems(3) by auto
      from search_result_hits [OF this that] show ?thesis by (simp add: search_result_def)
    qed
    have more: "is_str x \<and> x = xs ! (k + ?n - 1) \<and> k + ?n < length xs \<and> 0 < ?n" if "next_after ?n (drop k xs) = Some x" for x
    proof -
      from that have n: "0 < ?n" "?n < length (drop k xs)" "x = last (take ?n (drop k xs))"
        by (auto simp: next_after_def split: if_splits)
      define j where "j = ?n"
      have j: "0 < j" "j < length (drop k xs)" "x = last (take j (drop k xs))" using n unfolding j_def by simp_all
      then have "x = take j (drop k xs) ! (length (take j (drop k xs)) - 1)" by (subst last_conv_nth [symmetric]) auto
      with j have "x = xs ! (k + (j - 1))" by simp
      moreover from this j strs have "is_str x" by simp
      ultimately show ?thesis using j unfolding j_def [symmetric] by (auto simp: Suc_le_eq)
    qed
    have stop: "search_result needle limit C xs = \<lparr> rl_repos = ?hits, rl_next = Some x \<rparr>"
      if "\<not> limit < length ?hits" "next_after ?n (drop k xs) = Some x" "C \<le> k + ?n" for x
    proof -
      have "C = k + ?n" using that(3) less.prems(3) by auto
      with that(1) more [OF that(2)] show ?thesis by (auto simp: search_result_def)
    qed
    have again: "ends (search_from G needle limit (Some (repo_by_name x)) ?hits (k + ?n))
        (\<lambda>out s'. holds m s' \<and> out = search_result needle limit C xs) (\<lambda>e s'. holds m s' \<and> engine_error may_fail e) s'"
      if "\<not> limit < length ?hits" "next_after ?n (drop k xs) = Some x" "\<not> C \<le> k + ?n" for x
      using less.hyps [of "k + ?n" s'] more [OF that(2)] that(1,3) h' by auto
    show "case search_keys needle limit (kp_keys page) (filter (sublist needle) (take k xs)) k of
        Inl e \<Rightarrow> holds m s' \<and> engine_error may_fail e
      | Inr (Inl (repos', nxt)) \<Rightarrow> holds m s' \<and> \<lparr> rl_repos = repos', rl_next = nxt \<rparr> = search_result needle limit C xs
      | Inr (Inr (repos', examined')) \<Rightarrow>
          (case kp_next page of
             None \<Rightarrow> holds m s' \<and> \<lparr> rl_repos = repos', rl_next = None \<rparr> = search_result needle limit C xs
           | Some key \<Rightarrow>
               if ro_search_ceiling (rg_options G) \<le> examined' then
                 (case ok_or (corrupt ''repo cursor'') (parse_repo_name key) of
                    Inl e \<Rightarrow> holds m s' \<and> engine_error may_fail e
                  | Inr name \<Rightarrow> holds m s' \<and> \<lparr> rl_repos = repos', rl_next = Some name \<rparr> = search_result needle limit C xs)
               else ends (search_from G needle limit (Some key) repos' examined')
                 (\<lambda>out s'. holds m s' \<and> out = search_result needle limit C xs) (\<lambda>e s'. holds m s' \<and> engine_error may_fail e) s')"
    proof (cases "limit < length ?hits")
      case True
      with over h' show ?thesis unfolding page found by simp
    next
      case False
      note low = False
      show ?thesis
      proof (cases "next_after ?n (drop k xs)")
        case None
        with finish low h' show ?thesis unfolding page found by simp
      next
        case (Some x)
        note x = more [OF Some]
        then have len: "k + length (take ?n (drop k xs)) = k + ?n" by auto
        show ?thesis
        proof (cases "C \<le> k + ?n")
          case True
          have "parse_repo_name (repo_by_name x) = Some x" using x by (intro parse_repo_name_key) blast
          moreover have "k < C" using x by simp
          ultimately show ?thesis
            unfolding page found C [symmetric] len Some using stop [OF low Some True] h' low True by simp
        next
          case False
          show ?thesis
            unfolding page found C [symmetric] len Some
            using again [OF low Some False] by (simp only: low False if_False sum.case prod.case option.simps)
        qed
      qed
    qed
  qed auto
qed

end

section \<open>The manifests that reference a blob\<close>

definition reference_at :: "store \<Rightarrow> repo_id \<times> digest \<Rightarrow> registry_error + blob_reference" where
  "reference_at m x =
     and_then (ok_or (corrupt ''repo id with no name'') (name_of m (fst x))) (\<lambda>n. Inr \<lparr> bf_repo = n, bf_manifest = snd x \<rparr>)"

definition reference_cursor :: "store \<Rightarrow> blob_reference option \<Rightarrow> (repo_id \<times> digest) option" where
  "reference_cursor m a =
     Option.bind a (\<lambda>a. map_option (\<lambda>r. (r, bf_manifest a)) (id_of m (bf_repo a)))"

lemma for_r_try_map:
  "for_r xs acc (\<lambda>x acc. and_then (f x) (\<lambda>y. Inr (acc @ [y]))) = and_then (try_map f xs) (\<lambda>ys. Inr (acc @ ys))"
proof (induction xs arbitrary: acc)
  case (Cons x xs)
  then show ?case by (cases "f x"; cases "try_map f xs") simp_all
qed simp

lemma and_then_Inr_id [simp]: "and_then r Inr = r"
  by (cases r) simp_all

lemma edge_cursor: "under (blob_refs d) (map_option (edge_key d) a)" "grouped (blob_refs d) (map_option (edge_key d) a)"
  by (rule edges.cursor_ok; rule TrueI)+

context registry_env
begin

lemma refines_reference:
  assumes "fst x \<noteq> NEXT_ID_KEY_ID"
  shows "refines holds may_fail (blob_reference_of G (edge_key d x)) (\<lambda>m. reference_at m x)"
proof -
  have "blob_ref_target (edge_key d x) = Some x" by (simp add: edge_key_def data_keys)
  then have "blob_reference_of G (edge_key d x) =
      bind_a (lift_a (Inr x)) (\<lambda>(r, md). bind_a (repo_name G r) (\<lambda>n. return_a \<lparr> bf_repo = n, bf_manifest = md \<rparr>))"
    by (simp add: blob_reference_of_def)
  moreover have "\<dots> = bind_a (repo_name G (fst x)) (\<lambda>n. return_a \<lparr> bf_repo = n, bf_manifest = snd x \<rparr>)"
    by (auto simp: fun_eq_iff bind_a_def lift_a_def case_prod_beta)
  ultimately show ?thesis
    using refines_bind [OF refines_repo_name [OF assms] refines_return] by (simp add: reference_at_def)
qed

lemma refines_references:
  assumes h: "holds m s" and no: "\<And>md. m (blob_ref_key d NEXT_ID_KEY_ID md) = None"
    and page: "item_page {x. m (edge_key d x) \<noteq> None} (reference_cursor m a) n = (xs, nxt)"
  defines "out \<equiv> and_then (try_map (reference_at m) xs) (\<lambda>rs. and_then (try_option (reference_at m) nxt) (\<lambda>r.
      Inr \<lparr> bl_references = rs, bl_next = r \<rparr>))"
  shows "wp (manifests_referencing_blob G d a n) (\<lambda>r s'. holds m s' \<and> out = Inr r)
    (\<lambda>e s'. holds m s' \<and> (out = Inl e \<or> engine_error may_fail e)) s"
proof -
  let ?cur = "\<lambda>m. map_option (edge_key d) (reference_cursor m a)"
  have cursor: "refines holds may_fail (case a of
         Some a \<Rightarrow> bind_a (lookup_repo G (bf_repo a)) (\<lambda>r. return_a (map_option (\<lambda>rid. blob_ref_key d rid (bf_manifest a)) r))
       | None \<Rightarrow> return_a None) (\<lambda>m. Inr (?cur m))"
    by (rule refines_cong, (rule refines_intros refines_lookup_repo)+)
      (auto simp: reference_cursor_def edge_key_def option.map_comp comp_def split: option.split)
  note e = holdsD(5) [OF h] and fin = holds_finite [OF h]
  have keys: "key_page_of (scan_page m (blob_refs d) (?cur m) n) = \<lparr> kp_keys = map (edge_key d) xs, kp_next = map_option (edge_key d) nxt \<rparr>"
    using page by (simp add: edges.page_of_items [OF e fin] key_page_of_def)
  have mem: "fst x \<noteq> NEXT_ID_KEY_ID" if "m (edge_key d x) \<noteq> None" for x
    using that no by (auto simp: edge_key_def)
  have xs: "fst x \<noteq> NEXT_ID_KEY_ID" if "x \<in> set xs" for x
    using mem edges.page_mem(1) [OF e fin, of x d "reference_cursor m a" n] page that by auto
  have last: "fst x \<noteq> NEXT_ID_KEY_ID" if "nxt = Some x" for x
  proof -
    from page obtain ys where "xs = take n ys" "nxt = next_after n ys" by (auto simp: item_page_def Let_def)
    with that have "x \<in> set xs" using next_after_taken by metis
    then show ?thesis by (rule xs)
  qed
  have loop: "refines holds may_fail (for_a xs [] (\<lambda>x references. bind_a (blob_reference_of G (edge_key d x)) (\<lambda>r. return_a (references @ [r]))))
      (\<lambda>m. try_map (reference_at m) xs)"
    by (rule refines_cong [OF refines_for_mem [OF refines_bind [OF refines_reference refines_return]]])
      (use xs in \<open>simp_all add: for_r_try_map\<close>)
  have final: "refines holds may_fail (case map_option (edge_key d) nxt of
         Some key \<Rightarrow> bind_a (blob_reference_of G key) (\<lambda>r. return_a (Some r)) | None \<Rightarrow> return_a None)
      (\<lambda>m. try_option (reference_at m) nxt)"
  proof (cases nxt)
    case None
    then show ?thesis by (simp add: try_option_def refines_return)
  next
    case (Some x)
    with refines_bind [OF refines_reference [OF last [OF Some], of d] refines_return] show ?thesis by (simp add: try_option_def)
  qed
  have for_map: "for_a (map f zs) acc body = for_a zs acc (\<lambda>x. body (f x))" for f zs acc body
    by (induction zs arbitrary: acc) simp_all
  note run = refines_bind [OF loop refines_bind [OF final refines_return]]
  show ?thesis
    unfolding manifests_referencing_blob_def wp_bind
  proof (rule refines_wp [OF cursor h], goal_cases)
    case (1 cur s1)
    then have cur: "cur = ?cur m" by simp
    show ?case
      unfolding cur
    proof (rule refines_wp [OF refines_scan_keys [OF edge_cursor] 1(1)], goal_cases)
      case (1 kp s2)
      then have kp: "kp = \<lparr> kp_keys = map (edge_key d) xs, kp_next = map_option (edge_key d) nxt \<rparr>" by (simp add: keys)
      show ?case
        unfolding kp wp_bind [symmetric] key_page.select_convs for_map out_def
        by (intro refines_wp [OF run 1(1)]) simp_all
    qed auto
  qed auto
qed

end

section \<open>Properties\<close>

text \<open>
  C33. The referrers of a subject come as pages in digest order: the first \<open>limit\<close> edges past the cursor, each with its
  record, kept when it has the wanted artifact type and dropped only otherwise; the next cursor is the last edge
  looked at, and is there exactly when more follow. An unknown repository is an empty list, and only the engine can make the
  query fail.
\<close>

theorem referrers_exact:
  assumes env: "registry_env G tbl ok fails names ids" and at: "at_store tbl ok names ids (rg_libs G) m s"
    and run: "referrers G repo subject wanted a limit s = (res, s')"
  shows "at_store tbl ok names ids (rg_libs G) m s' \<and> (case res of
      Inl e \<Rightarrow> engine_error fails e
    | Inr out \<Rightarrow> fl_filter_applied out = (wanted \<noteq> None) \<and> (case id_of m repo of
          None \<Rightarrow> fl_entries out = [] \<and> fl_next out = None
        | Some r \<Rightarrow> (\<exists>ds. item_page {d. referrer_at (rg_libs G) m r subject d \<noteq> None} a limit = (ds, fl_next out)
            \<and> map fe_digest (fl_entries out) = filter (\<lambda>d. matching wanted (the (referrer_at (rg_libs G) m r subject d))) ds
            \<and> (\<forall>x \<in> set (fl_entries out). referrer_at (rg_libs G) m r subject (fe_digest x) = Some (fe_record x)))))"
proof -
  let ?lib = "rg_libs G"
  note c = refines_run [OF registry_env.refines_referrers [OF env] at run]
  have fin: "finite (dom m)" and e: "entries_ok ?lib m"
    using registry_env.holds_finite [OF env at] at by (simp_all add: at_store_def store_ok_def)
  have set: "{d. m (referrer_key r subject d) \<noteq> None} = {d. referrer_at ?lib m r subject d \<noteq> None}" for r
    using referrer_at_iff [OF e] by simp
  show ?thesis
  proof (cases res)
    case (Inl x)
    with c show ?thesis by auto
  next
    case (Inr out)
    show ?thesis
    proof (cases "id_of m repo")
      case None
      with c Inr show ?thesis by auto
    next
      case (Some r)
      obtain ds nxt where page: "item_page {d. referrer_at ?lib m r subject d \<noteq> None} a limit = (ds, nxt)" by fastforce
      with c Inr Some have out: "out = \<lparr> fl_entries = map (\<lambda>d. \<lparr> fe_digest = d, fe_record = the (referrer_at ?lib m r subject d) \<rparr>)
               (filter (\<lambda>d. matching wanted (the (referrer_at ?lib m r subject d))) ds),
            fl_next = nxt, fl_filter_applied = (wanted \<noteq> None) \<rparr>" by (simp add: set [simplified])
      have "referrer_at ?lib m r subject d \<noteq> None" if "d \<in> set ds" for d
        using referrers_of_subject.digest_mem [OF e fin, of d r subject a limit] that page
        unfolding set by (simp add: referrer_at_iff [OF e] del: not_None_eq)
      with conjunct1 [OF c] Inr Some page show ?thesis by (auto simp: out comp_def)
    qed
  qed
qed

text \<open>The tag under which the signature of a manifest is pushed: setting it makes the signature one of the manifest's referrers.\<close>

definition signature_tag :: "digest \<Rightarrow> string" where
  "signature_tag d = algorithm d @ ''-'' @ drop (length (algorithm d) + 1) (to_string d) @ ''.sig''"

theorem referrers_exact_witness:
  "\<exists>moved s1. set_tag demo_registry ''a'' (signature_tag (Sha256 (arr32 []))) demo_digest (Timestamp 0) demo_state = (Inr moved, s1)
     \<and> (\<exists>out s2. referrers demo_registry ''a'' (Sha256 (arr32 [])) None None 5 s1 = (Inr out, s2)
       \<and> map fe_digest (fl_entries out) = [demo_digest] \<and> fl_next out = None)
     \<and> (\<exists>out s2. referrers demo_registry ''a'' (Sha256 (arr32 [])) (Some ''x'') None 5 s1 = (Inr out, s2)
       \<and> fl_entries out = [] \<and> fl_filter_applied out)"
proof -
  let ?d = "Sha256 (arr32 [])" and ?lib = "rg_libs demo_registry"
  let ?t = "signature_tag ?d"
  let ?target = "target_at ?lib demo_store 0 demo_digest ?t demo_record"
  let ?m = "apply_ops (set_tag_ops ?lib 0 ?t ?target (Timestamp 0) None) demo_store"
  have lib: "?lib = demo_libs" by (simp add: demo_registry_def)
  have t: "validate_tag ?t = Inr ()"
    unfolding signature_tag_def by code_simp
  have subject: "subject_of ?t = Some ?d"
    using artifact_tag_subject [of "''sig''" ?d] by (simp add: subject_of_def signature_tag_def)
  obtain res s1 where tag: "set_tag demo_registry ''a'' ?t demo_digest (Timestamp 0) demo_state = (res, s1)" by fastforce
  obtain moved where moved: "res = Inr moved"
    and at: "at_store table_map (\<lambda>_. True) (\<lambda>c. map_of (fst c)) (\<lambda>c. map_of (snd c)) ?lib ?m s1"
    using commits_run [OF dr.commits_set_tag at_store_demo tag]
    by (cases res) (auto simp: set_tag_spec_def lib t engine_error_def Let_def)
  have edge: "referrer_at ?lib ?m 0 ?d e = (if e = demo_digest then Some (tt_referrer ?target) else None)" for e
    by (simp add: referrer_at_def set_tag_ops_referrer subject target_at_def lib dl.coders) (simp add: demo_store_def key_defs)
  have known: "id_of ?m ''a'' = Some 0" using demo_at(1) [of "''a''"] by (simp add: id_of_def key_defs ranged_untouched [OF set_tag_ops_ranged])
  have page: "item_page {d. referrer_at ?lib ?m 0 ?d d \<noteq> None} None 5 = ([demo_digest], None)"
  proof -
    have "{d. referrer_at ?lib ?m 0 ?d d \<noteq> None} = {demo_digest}" by (auto simp only: edge split: if_splits)
    then show ?thesis by (simp only:) (simp add: item_page_def next_after_def past_def)
  qed
  have "rr_artifact_type (tt_referrer ?target) = None" by (simp add: target_at_def subject lib demo_parse)
  then have kept: "filter (\<lambda>d. matching wanted (the (referrer_at ?lib ?m 0 ?d d))) [demo_digest] = (if wanted = None then [demo_digest] else [])"
    for wanted by (simp only: edge) (simp add: matching_def split: option.split)
  have found: "\<exists>out s2. referrers demo_registry ''a'' ?d wanted None 5 s1 = (Inr out, s2) \<and> fl_next out = None
      \<and> fl_filter_applied out = (wanted \<noteq> None) \<and> map fe_digest (fl_entries out) = (if wanted = None then [demo_digest] else [])" for wanted
  proof -
    obtain res2 s2 where run: "referrers demo_registry ''a'' ?d wanted None 5 s1 = (res2, s2)" by fastforce
    note exact = referrers_exact [OF dr.registry_env_axioms at run]
    show ?thesis
    proof (cases res2)
      case (Inl e)
      with exact show ?thesis by (simp add: engine_error_def)
    next
      case (Inr out)
      from exact have "fl_filter_applied out = (wanted \<noteq> None)" "fl_next out = None"
        "map fe_digest (fl_entries out) = filter (\<lambda>d. matching wanted (the (referrer_at ?lib ?m 0 ?d d))) [demo_digest]"
        unfolding Inr sum.case known option.case page by (elim conjE exE, simp only: prod.inject)+
      with run Inr kept show ?thesis by metis
    qed
  qed
  show ?thesis using tag moved found [of None] found [of "Some ''x''"] by fastforce
qed

text \<open>
  A page of untagged manifests looks at the first \<open>limit\<close> manifests of the repository past the cursor and serves exactly
  those that no tag names, in digest order; the cursor is the last manifest looked at, so paging until there is none
  finds every untagged manifest.
\<close>

theorem untagged_manifests_exact:
  assumes env: "registry_env G tbl ok fails names ids" and at: "at_store tbl ok names ids (rg_libs G) m s"
    and run: "untagged_manifests G repo a limit s = (res, s')"
  shows "at_store tbl ok names ids (rg_libs G) m s' \<and> (case res of
      Inl e \<Rightarrow> e = NameUnknown repo \<and> id_of m repo = None \<or> engine_error fails e
    | Inr out \<Rightarrow> (\<exists>r ds. id_of m repo = Some r
        \<and> item_page {d. manifest_at (rg_libs G) m r d \<noteq> None} a limit = (ds, dl_next out)
        \<and> dl_digests out = filter (\<lambda>d. \<forall>t. map_option tr_digest (tag_at (rg_libs G) m r t) \<noteq> Some d) ds))"
  using refines_run [OF registry_env.refines_untagged [OF env] at run]
  by (auto simp: untagged_def [abs_def] ok_or_def and_then_def split: option.splits sum.splits prod.splits)

theorem untagged_manifests_exact_witness:
  "\<exists>out s'. untagged_manifests demo_registry ''a'' None 5 demo_state = (Inr out, s') \<and> dl_digests out = [demo_digest]"
proof -
  obtain res s' where run: "untagged_manifests demo_registry ''a'' None 5 demo_state = (res, s')" by fastforce
  have "{d. manifest_at demo_libs demo_store 0 d \<noteq> None} = {demo_digest}" by auto
  moreover have "{d \<in> {demo_digest}. past None d} = {demo_digest}" by (auto simp: past_def)
  ultimately have "item_page {d. manifest_at demo_libs demo_store 0 d \<noteq> None} None 5 = ([demo_digest], None)"
    by (simp add: item_page_def next_after_def)
  with untagged_manifests_exact [OF dr.registry_env_axioms at_store_demo run] obtain out where "res = Inr out" "dl_digests out = [demo_digest]"
    by (cases res) (auto simp: engine_error_def)
  with run show ?thesis by blast
qed

text \<open>
  C35. A search for a substring ends, and serves what a walk over the names past the cursor finds among the first \<open>search_ceiling\<close>
  of them: the first \<open>limit\<close> matches in name order, with the last of them as the cursor when there is one match
  more; or, with fewer matches, the last name walked as the cursor when the ceiling stopped it. Without a cursor nothing further
  matches.
\<close>

theorem search_containing_exact:
  assumes env: "registry_env G tbl ok fails names ids" and at: "at_store tbl ok names ids (rg_libs G) m s"
    and str: "\<And>x. a = Some x \<Longrightarrow> is_str x" and needle: "needle \<noteq> ''''"
    and run: "search_repos_containing G needle a limit s = (res, s')"
  shows "at_store tbl ok names ids (rg_libs G) m s' \<and> (case res of
      Inl e \<Rightarrow> engine_error fails e
    | Inr out \<Rightarrow> (\<exists>ns. sorted_wrt (<) ns \<and> set ns = {n. id_of m n \<noteq> None \<and> past a n}
        \<and> out = search_result needle limit (ro_search_ceiling (rg_options G)) ns
        \<and> (rl_next out = None \<and> 0 < ro_search_ceiling (rg_options G) \<and> 0 < limit \<longrightarrow> rl_repos out = filter (sublist needle) ns)))"
proof -
  let ?C = "ro_search_ceiling (rg_options G)" and ?ns = "names_from m '''' a"
  have "wp (loop_a (search_from G needle limit (map_option repo_by_name a) [] 0))
      (\<lambda>out s'. at_store tbl ok names ids (rg_libs G) m s' \<and> out = search_result needle limit ?C ?ns)
      (\<lambda>e s'. at_store tbl ok names ids (rg_libs G) m s' \<and> engine_error fails e) s"
    using registry_env.wp_search_from [OF env at refl str refl, where k = 0 and needle = needle and limit = limit]
    by (intro wp_loop) (cases "?C"; simp)
  with run needle have w: "case res of Inl e \<Rightarrow> at_store tbl ok names ids (rg_libs G) m s' \<and> engine_error fails e
      | Inr out \<Rightarrow> at_store tbl ok names ids (rg_libs G) m s' \<and> out = search_result needle limit ?C ?ns"
    by (auto simp: search_repos_containing_def wp_def split: sum.splits)
  have "rl_repos (search_result needle limit ?C ?ns) = filter (sublist needle) ?ns"
    if "rl_next (search_result needle limit ?C ?ns) = None" "0 < ?C" "0 < limit"
    using that by (auto simp: search_result_def Let_def split: if_splits)
  with w show ?thesis
    using registry_env.name_page(3,4) [OF env at, of "''''" a] by (cases res) auto
qed

theorem search_containing_exact_witness:
  "\<exists>out s'. search_repos_containing demo_registry ''zz'' None 5 demo_state = (Inr out, s')"
proof -
  obtain res s' where run: "search_repos_containing demo_registry ''zz'' None 5 demo_state = (res, s')" by fastforce
  have ne: "''zz'' \<noteq> ''''" by simp
  from search_containing_exact [OF dr.registry_env_axioms at_store_demo _ ne run] obtain out where "res = Inr out"
    by (cases res) (auto simp: engine_error_def)
  with run show ?thesis by blast
qed

text \<open>
  Asking which manifests reference a blob fails as long as one of the edges on the page belongs to a repository that was dropped and
  is not swept yet: its name is gone, and the whole query ends in an error for a malformed record. Otherwise the page
  names each edge's repository, in the order of the edges.
\<close>

theorem references_need_names:
  assumes env: "registry_env G tbl ok fails names ids" and at: "at_store tbl ok names ids (rg_libs G) m s"
    and no: "\<And>md. m (blob_ref_key d NEXT_ID_KEY_ID md) = None"
    and page: "item_page {x. m (blob_ref_key d (fst x) (snd x)) \<noteq> None} None limit = (xs, nxt)"
    and run: "manifests_referencing_blob G d None limit s = (res, s')"
  shows "at_store tbl ok names ids (rg_libs G) m s' \<and> (case res of
      Inl e \<Rightarrow> e = corrupt ''repo id with no name'' \<and> (\<exists>x \<in> set xs. name_of m (fst x) = None) \<or> engine_error fails e
    | Inr out \<Rightarrow> (\<forall>x \<in> set xs. name_of m (fst x) \<noteq> None)
        \<and> bl_references out = map (\<lambda>x. \<lparr> bf_repo = the (name_of m (fst x)), bf_manifest = snd x \<rparr>) xs)"
proof -
  note w = registry_env.refines_references [OF env at no, of None limit xs nxt]
  have page': "item_page {x. m (edge_key d x) \<noteq> None} (reference_cursor m None) limit = (xs, nxt)"
    using page by (simp add: edge_key_def reference_cursor_def)
  have taken: "x \<in> set xs" if "nxt = Some x" for x
  proof -
    from page obtain ys where "xs = take limit ys" "nxt = next_after limit ys" by (auto simp: item_page_def Let_def)
    with that show ?thesis using next_after_taken by metis
  qed
  have ref: "reference_at m x = (case name_of m (fst x) of None \<Rightarrow> Inl (corrupt ''repo id with no name'')
      | Some n \<Rightarrow> Inr \<lparr> bf_repo = n, bf_manifest = snd x \<rparr>)" for x
    by (simp add: reference_at_def split: option.split)
  show ?thesis
  proof (cases "\<forall>x \<in> set xs. name_of m (fst x) \<noteq> None")
    case True
    have "try_map (reference_at m) xs = Inr (map (\<lambda>x. \<lparr> bf_repo = the (name_of m (fst x)), bf_manifest = snd x \<rparr>) xs)"
      by (rule try_map_all) (use True in \<open>auto simp: ref split: option.split\<close>)
    moreover have "\<exists>r. try_option (reference_at m) nxt = Inr r"
      using True taken by (cases nxt) (auto simp: try_option_def ref split: option.split)
    ultimately show ?thesis using w [OF page'] run True by (cases res) (auto simp: wp_def)
  next
    case False
    have "try_map (reference_at m) xs = Inl (corrupt ''repo id with no name'')"
      using False
    proof (induction xs)
      case (Cons x xs)
      then show ?case by (cases "name_of m (fst x)") (simp_all add: ref)
    qed simp
    then show ?thesis using w [OF page'] run False by (cases res) (auto simp: wp_def)
  qed
qed

theorem references_need_names_witness:
  "\<exists>out s'. manifests_referencing_blob demo_registry demo_digest None 5 demo_state = (Inr out, s') \<and> bl_references out = []"
proof -
  obtain res s' where run: "manifests_referencing_blob demo_registry demo_digest None 5 demo_state = (res, s')" by fastforce
  have no: "demo_store (blob_ref_key d r md) = None" for d r md by (simp add: demo_store_def one_repo_def key_defs)
  have "item_page {x. demo_store (blob_ref_key demo_digest (fst x) (snd x)) \<noteq> None} None 5 = ([], None)"
    by (simp add: no item_page_def next_after_def)
  from references_need_names [OF dr.registry_env_axioms at_store_demo no this run] obtain out where "res = Inr out" "bl_references out = []"
    by (cases res) (auto simp: engine_error_def)
  with run show ?thesis by blast
qed

end
