(* ===== verification/Summ_History.thy ===== *)
theory Summ_History
  imports Summ_Discovery
begin

text \<open>
  Tag history (\<open>summ-registry/src/history.rs\<close>): the pages of events of a tag and of a manifest, newest first, with the cursor
  that resumes them inside an instant.
\<close>

section \<open>The queries\<close>

record tag_event_entry =
  ev_at :: timestamp
  ev_tag :: string
  ev_digest :: digest
  ev_event :: tag_event

record history_cursor =
  hc_before :: timestamp
  hc_last :: string

record tag_history_page =
  th_events :: "tag_event_entry list"
  th_next :: "history_cursor option"

definition parse_digest :: "string \<Rightarrow> ('s, registry_error, digest) action" where
  "parse_digest s = call_a (\<lambda>_. DigestInvalid (s @ '' is not a digest'')) (from_str s)"

definition next_cursor ::
    "tag_event_entry list \<Rightarrow> bool \<Rightarrow> (tag_event_entry \<Rightarrow> string) \<Rightarrow> history_cursor option" where
  "next_cursor events remaining last_of =
     (if \<not> remaining then None
      else if events = [] then None
      else Some \<lparr> hc_before = ev_at (last events), hc_last = last_of (last events) \<rparr>)"

definition tag_history ::
    "('s, 'c) registry \<Rightarrow> string \<Rightarrow> string \<Rightarrow> timestamp option \<Rightarrow> string option \<Rightarrow> nat \<Rightarrow> ('s, 'c, tag_history_page) op" where
  "tag_history G repo t before last_row limit =
     bind_a (lookup_repo G repo) (\<lambda>found.
       case found of
         None \<Rightarrow> return_a \<lparr> th_events = [], th_next = None \<rparr>
       | Some repo_id \<Rightarrow>
           bind_a (case (before, last_row) of
               (Some at, Some row) \<Rightarrow>
                 bind_a (parse_digest row) (\<lambda>d. return_a (Some (tag_history_key repo_id t at d)))
             | (Some at, None) \<Rightarrow> return_a (Some (tag_history_before repo_id t at))
             | (None, _) \<Rightarrow> return_a None) (\<lambda>cursor.
           bind_a (rg_scan G (tag_history_of repo_id t) cursor limit) (\<lambda>page.
           bind_a (lift_a (try_map (\<lambda>e.
               and_then (ok_or (corrupt ''tag history key'') (tag_history_suffix (fst e) (tag_history_of repo_id t))) (\<lambda>(at, d).
               and_then (decode (lb_event (rg_libs G)) (snd e) ''TagEvent'') (\<lambda>event.
                 Inr \<lparr> ev_at = at, ev_tag = t, ev_digest = d, ev_event = event \<rparr>))) (pg_entries page))) (\<lambda>events.
             return_a \<lparr> th_events = events, th_next = next_cursor events (pg_next page \<noteq> None) (\<lambda>e. to_string (ev_digest e)) \<rparr>))))"

definition manifest_tag_history ::
    "('s, 'c) registry \<Rightarrow> string \<Rightarrow> digest \<Rightarrow> timestamp option \<Rightarrow> string option \<Rightarrow> nat \<Rightarrow> ('s, 'c, tag_history_page) op" where
  "manifest_tag_history G repo d before last_row limit =
     bind_a (lookup_repo G repo) (\<lambda>found.
       case found of
         None \<Rightarrow> return_a \<lparr> th_events = [], th_next = None \<rparr>
       | Some repo_id \<Rightarrow>
           let cursor = (case (before, last_row) of
               (Some at, Some t) \<Rightarrow> Some (manifest_tag_history_key repo_id d at t)
             | (Some at, None) \<Rightarrow> Some (manifest_tag_history_before repo_id d at)
             | (None, _) \<Rightarrow> None) in
           bind_a (rg_scan G (manifest_tag_history_of repo_id d) cursor limit) (\<lambda>page.
           bind_a (lift_a (try_map (\<lambda>e.
               and_then (ok_or (corrupt ''manifest tag history key'')
                   (manifest_tag_history_suffix (fst e) (manifest_tag_history_of repo_id d))) (\<lambda>(at, t).
               and_then (decode (lb_event (rg_libs G)) (snd e) ''TagEvent'') (\<lambda>event.
                 Inr \<lparr> ev_at = at, ev_tag = t, ev_digest = d, ev_event = event \<rparr>))) (pg_entries page))) (\<lambda>events.
             return_a \<lparr> th_events = events, th_next = next_cursor events (pg_next page \<noteq> None) ev_tag \<rparr>)))"

section \<open>The ranges\<close>

definition event_key :: "repo_id \<Rightarrow> string \<Rightarrow> timestamp \<times> digest \<Rightarrow> bytes" where
  "event_key r t x = tag_history_key r t (fst x) (snd x)"

definition tagging_key :: "repo_id \<Rightarrow> digest \<Rightarrow> timestamp \<times> string \<Rightarrow> bytes" where
  "tagging_key r d x = manifest_tag_history_key r d (fst x) (snd x)"

text \<open>Newest first; within one instant by the second component.\<close>

definition newer :: "timestamp \<times> 'a::linorder \<Rightarrow> timestamp \<times> 'a \<Rightarrow> bool" where
  "newer x y \<longleftrightarrow> millis (fst y) < millis (fst x) \<or> fst x = fst y \<and> snd x < snd y"

lemma resumable_history [simp]: "resumable (tag_history_of r t)" "resumable (manifest_tag_history_of r d)"
  by (auto simp: resumable_def group_within_def prefix_def key_defs repo_groups)

lemma event_key_less:
  "event_key r t x < event_key r t y \<longleftrightarrow> newer x y"
  "tagging_key r d u < tagging_key r d v \<longleftrightarrow> newer u v"
  using enc_append_less [of "snd x" "[]" "snd y" "[]"]
  by (auto simp: event_key_def tagging_key_def newer_def key_defs key_codes)

lemma prefix_history:
  assumes "wf_key sk"
  shows "nul_free t \<Longrightarrow> prefix (tag_history_of r t) (encode_key sk) \<longleftrightarrow> (\<exists>at d. sk = KTagHistory r t at d)"
    and "prefix (manifest_tag_history_of r d) (encode_key sk) \<longleftrightarrow> (\<exists>at t. sk = KManifestTagHistory r d at t)"
  using assms by (cases sk; simp add: key_defs key_codes eq_commute; fail)+

interpretation taggings: item_range "manifest_tag_history_of r d" "tagging_key r d" "\<lambda>x. valid_tag (snd x)" for r d
proof
  fix lib :: libs and m :: store and k assume "entries_ok lib m" "m k \<noteq> None" "prefix (manifest_tag_history_of r d) k"
  then show "\<exists>x. valid_tag (snd x) \<and> k = tagging_key r d x"
  proof (rule range_cover)
    fix sk assume "wf_key sk" "good_key sk" "prefix (manifest_tag_history_of r d) (encode_key sk)"
    then obtain at t where "sk = KManifestTagHistory r d at t" "valid_tag t" by (auto simp: prefix_history(2))
    then show "\<exists>x. valid_tag (snd x) \<and> encode_key sk = tagging_key r d x"
      by (intro exI [of _ "(at, t)"]) (simp add: tagging_key_def)
  qed
qed (simp add: tagging_key_def key_defs, simp add: tagging_key_def key_defs key_codes prod_eq_iff, rule resumable_history)

lemma event_range: "nul_free t \<Longrightarrow> item_range (tag_history_of r t) (event_key r t) (\<lambda>_. True)"
proof
  fix lib :: libs and m :: store and k assume t: "nul_free t" and "entries_ok lib m" "m k \<noteq> None" "prefix (tag_history_of r t) k"
  from this(2-) show "\<exists>x. True \<and> k = event_key r t x"
  proof (rule range_cover)
    fix sk assume "wf_key sk" "good_key sk" "prefix (tag_history_of r t) (encode_key sk)"
    then obtain at d where "sk = KTagHistory r t at d" by (auto simp: prefix_history(1) [OF _ t])
    then show "\<exists>x. True \<and> encode_key sk = event_key r t x"
      by (intro exI [of _ "(at, d)"]) (simp add: event_key_def)
  qed
qed (simp add: event_key_def key_defs, simp add: event_key_def key_defs key_codes prod_eq_iff, rule resumable_history)

definition follows :: "timestamp option \<Rightarrow> 'a::linorder option \<Rightarrow> timestamp \<times> 'a \<Rightarrow> bool" where
  "follows before last_row x =
     (case before of
        None \<Rightarrow> True
      | Some b \<Rightarrow>
          (case last_row of
             None \<Rightarrow> millis (fst x) < millis b \<or> millis b = 0 \<and> millis (fst x) = 0
           | Some l \<Rightarrow> newer (b, l) x))"

lemma after_before:
  "tag_history_before r t b < event_key r t x \<longleftrightarrow> follows (Some b) None x"
  "tag_history_before r t b < event_key r t x \<longleftrightarrow> millis (fst x) \<le> sat_sub (millis b) 1"
  "manifest_tag_history_before r d b < tagging_key r d y \<longleftrightarrow> follows (Some b) None y"
  if "snd y \<noteq> ''''"
proof -
  have le: "a \<le> sat_sub n 1 \<longleftrightarrow> a < n \<or> n = 0 \<and> a = 0" for a n :: u64
  proof (cases "n = 0")
    case True
    then show ?thesis by (simp add: sat_sub_def)
  next
    case False
    then have "0 < n" by (simp add: word_neq_0_conv)
    with False show ?thesis by (simp only: le_sat_sub_1) simp
  qed
  show *: "tag_history_before r t b < event_key r t x \<longleftrightarrow> millis (fst x) \<le> sat_sub (millis b) 1"
    by (auto simp: event_key_def key_defs key_codes le_less)
  then show "tag_history_before r t b < event_key r t x \<longleftrightarrow> follows (Some b) None x"
    unfolding le follows_def by simp
  have "manifest_tag_history_before r d b < tagging_key r d y \<longleftrightarrow> millis (fst y) \<le> sat_sub (millis b) 1"
    using that by (cases "snd y") (auto simp: tagging_key_def key_defs key_codes le_less)
  then show "manifest_tag_history_before r d b < tagging_key r d y \<longleftrightarrow> follows (Some b) None y"
    unfolding le follows_def by simp
qed

definition parsed_digest :: "string \<Rightarrow> registry_error + digest" where
  "parsed_digest s =
     (case from_str s of
        Panics \<Rightarrow> Inl Panicked
      | Returns r \<Rightarrow> map_err (\<lambda>_. DigestInvalid (s @ '' is not a digest'')) r)"

lemma parse_digest_lift: "parse_digest s = lift_a (parsed_digest s)"
  by (auto simp: parse_digest_def call_a_def parsed_digest_def lift_a_def fail_a_def return_a_def fun_eq_iff
      split: call.split sum.split)

lemma event_suffix:
  "tag_history_suffix (event_key r t x) (tag_history_of r t) = Some x"
  "is_str (snd y) \<Longrightarrow> manifest_tag_history_suffix (tagging_key r d y) (manifest_tag_history_of r d) = Some y"
  by (simp_all add: event_key_def tagging_key_def key_defs tag_history_suffix_def manifest_tag_history_suffix_def)

definition event_at :: "libs \<Rightarrow> store \<Rightarrow> bytes \<Rightarrow> tag_event option" where
  "event_at lib m k = Option.bind (m k) (co_dec (lb_event lib))"

text \<open>The row that a page shows for an item.\<close>

definition event_row :: "libs \<Rightarrow> store \<Rightarrow> repo_id \<Rightarrow> string \<Rightarrow> timestamp \<times> digest \<Rightarrow> tag_event_entry" where
  "event_row lib m r t x = \<lparr> ev_at = fst x, ev_tag = t, ev_digest = snd x, ev_event = the (event_at lib m (event_key r t x)) \<rparr>"

definition tagging_row :: "libs \<Rightarrow> store \<Rightarrow> repo_id \<Rightarrow> digest \<Rightarrow> timestamp \<times> string \<Rightarrow> tag_event_entry" where
  "tagging_row lib m r d x = \<lparr> ev_at = fst x, ev_tag = snd x, ev_digest = d, ev_event = the (event_at lib m (tagging_key r d x)) \<rparr>"

lemma stored_event:
  assumes "entries_ok lib m"
  shows "nul_free t \<Longrightarrow> m (event_key r t x) \<noteq> None \<Longrightarrow>
      decode (lb_event lib) (the (m (event_key r t x))) what = Inr (the (event_at lib m (event_key r t x)))"
    and "m (tagging_key r d y) \<noteq> None \<Longrightarrow>
      decode (lb_event lib) (the (m (tagging_key r d y))) what = Inr (the (event_at lib m (tagging_key r d y)))"
proof -
  assume "nul_free t" "m (event_key r t x) \<noteq> None"
  then obtain v where v: "m (event_key r t x) = Some v" by auto
  with good_entry_iff [of "KTagHistory r t (fst x) (snd x)" lib v] \<open>nul_free t\<close> entries_okD [OF assms v]
  show "decode (lb_event lib) (the (m (event_key r t x))) what = Inr (the (event_at lib m (event_key r t x)))"
    by (auto simp: event_key_def decode_def event_at_def)
next
  assume "m (tagging_key r d y) \<noteq> None"
  then obtain v where v: "m (tagging_key r d y) = Some v" by auto
  with entries_okD [OF assms v]
  show "decode (lb_event lib) (the (m (tagging_key r d y))) what = Inr (the (event_at lib m (tagging_key r d y)))"
    by (auto simp: tagging_key_def decode_def event_at_def)
qed

lemma next_cursor_rows:
  "next_cursor (map row (take n xs)) (next_after n xs \<noteq> None) last_of =
     map_option (\<lambda>x. \<lparr> hc_before = ev_at (row x), hc_last = last_of (row x) \<rparr>) (next_after n xs)"
  by (auto simp: next_cursor_def next_after_def last_map)


section \<open>The pages\<close>

text \<open>The cursor that a page starts from: none, an instant, or the row a page ended with.\<close>

definition start_key :: "(timestamp \<Rightarrow> bytes) \<Rightarrow> (timestamp \<times> 'a \<Rightarrow> bytes) \<Rightarrow> timestamp option \<Rightarrow> 'a option \<Rightarrow> bytes option" where
  "start_key first_key row_key before last_row =
     (case before of
        None \<Rightarrow> None
      | Some b \<Rightarrow> (case last_row of None \<Rightarrow> Some (first_key b) | Some l \<Rightarrow> Some (row_key (b, l))))"

definition last_digest :: "timestamp option \<Rightarrow> string option \<Rightarrow> registry_error + digest option" where
  "last_digest before last_row =
     (case (before, last_row) of
        (Some _, Some row) \<Rightarrow> and_then (parsed_digest row) (\<lambda>d. Inr (Some d))
      | _ \<Rightarrow> Inr None)"

lemma bind_lift: "bind_a (lift_a (Inr a)) k = k a" "bind_a (lift_a (Inl e)) k = fail_a e"
  by (simp_all add: fun_eq_iff bind_a_def lift_a_def fail_a_def)

lemma history_start:
  "(case (before, last_row) of
      (Some at, Some row) \<Rightarrow> bind_a (parse_digest row) (\<lambda>d. return_a (Some (tag_history_key r t at d)))
    | (Some at, None) \<Rightarrow> return_a (Some (tag_history_before r t at))
    | (None, _) \<Rightarrow> return_a None)
   = lift_a (and_then (last_digest before last_row) (\<lambda>l. Inr (start_key (tag_history_before r t) (event_key r t) before l)))"
  by (auto simp: last_digest_def start_key_def parse_digest_lift event_key_def fun_eq_iff bind_a_def lift_a_def fail_a_def
      return_a_def split: option.split sum.split)

lemma tagging_start:
  "(case (before, last_row) of
      (Some at, Some t) \<Rightarrow> Some (manifest_tag_history_key r d at t)
    | (Some at, None) \<Rightarrow> Some (manifest_tag_history_before r d at)
    | (None, _) \<Rightarrow> None)
   = start_key (manifest_tag_history_before r d) (tagging_key r d) before last_row"
  by (auto simp: start_key_def tagging_key_def split: option.split)

lemma start_key_cursor:
  assumes "resumable p" and "\<And>b. prefix p (first_key b)" and "\<And>x. prefix p (row_key x)"
  shows "under p (start_key first_key row_key before l)" and "grouped p (start_key first_key row_key before l)"
  using assms by (auto simp: start_key_def under_def grouped_def resumable_def split: option.split)

lemmas history_cursor_ok =
  start_key_cursor [of "tag_history_of r t" "tag_history_before r t" "event_key r t" for r t]
  start_key_cursor [of "manifest_tag_history_of r d" "manifest_tag_history_before r d" "tagging_key r d" for r d]

lemma history_under [simp]:
  "prefix (tag_history_of r t) (event_key r t x)" "prefix (tag_history_of r t) (tag_history_before r t b)"
  "prefix (manifest_tag_history_of r d) (tagging_key r d y)" "prefix (manifest_tag_history_of r d) (manifest_tag_history_before r d b)"
  by (simp_all add: event_key_def tagging_key_def key_defs)

lemma after_start:
  "after (start_key (tag_history_before r t) (event_key r t) before l) (event_key r t x) \<longleftrightarrow> follows before l x"
  "snd y \<noteq> '''' \<Longrightarrow>
   after (start_key (manifest_tag_history_before r d) (tagging_key r d) before u) (tagging_key r d y) \<longleftrightarrow> follows before u y"
  using after_before(1) [of "(undefined, ''a'')" r t _ x] after_before(3) [of y r d]
  by (auto simp: start_key_def after_def event_key_less follows_def [of None]
      follows_def [of "Some b" "Some l'" for b l'] split: option.split)

context registry_env
begin

lemma refines_event_page:
  assumes "under p c" and "grouped p c"
  shows "refines holds may_fail
     (bind_a (rg_scan G p c n) (\<lambda>page.
      bind_a (lift_a (try_map row (pg_entries page))) (\<lambda>events. return_a (out events (pg_next page \<noteq> None)))))
     (\<lambda>m. and_then (try_map row (pg_entries (scan_page m p c n))) (\<lambda>events. Inr (out events (pg_next (scan_page m p c n) \<noteq> None))))"
  by (rule refines_cong, (rule refines_intros refines_scan assms)+) simp

end

lemma event_at_iff:
  assumes "entries_ok lib m"
  shows "nul_free t \<Longrightarrow> event_at lib m (event_key r t x) \<noteq> None \<longleftrightarrow> m (event_key r t x) \<noteq> None"
    and "valid_tag (snd y) \<Longrightarrow> event_at lib m (tagging_key r d y) \<noteq> None \<longleftrightarrow> m (tagging_key r d y) \<noteq> None"
proof -
  have "decode c (the (m k)) ''e'' = Inr (the (event_at lib m k)) \<Longrightarrow> c = lb_event lib \<Longrightarrow> m k \<noteq> None \<Longrightarrow> event_at lib m k \<noteq> None" for k and c :: "tag_event coder"
    by (auto simp: decode_def event_at_def ok_or_def split: option.splits)
  moreover have "event_at lib m k \<noteq> None \<Longrightarrow> m k \<noteq> None" for k by (auto simp: event_at_def bind_eq_Some_conv)
  ultimately show "nul_free t \<Longrightarrow> event_at lib m (event_key r t x) \<noteq> None \<longleftrightarrow> m (event_key r t x) \<noteq> None"
    and "valid_tag (snd y) \<Longrightarrow> event_at lib m (tagging_key r d y) \<noteq> None \<longleftrightarrow> m (tagging_key r d y) \<noteq> None"
    using stored_event [OF assms, where what = "''e''"] by blast+
qed

text \<open>What a page shows of a list of items.\<close>

definition history_page :: "(timestamp \<times> 'a \<Rightarrow> tag_event_entry) \<Rightarrow> ('a \<Rightarrow> string) \<Rightarrow> nat \<Rightarrow> (timestamp \<times> 'a) list \<Rightarrow> tag_history_page" where
  "history_page row shown n xs =
     \<lparr> th_events = map row (take n xs),
       th_next = map_option (\<lambda>x. \<lparr> hc_before = fst x, hc_last = shown (snd x) \<rparr>) (next_after n xs) \<rparr>"

lemma history_page_rows:
  assumes "\<And>x. x \<in> set (take n xs) \<Longrightarrow> suff (key x) = Some x"
    and "\<And>x. x \<in> set (take n xs) \<Longrightarrow> decode c (the (m (key x))) what = Inr (event x)"
    and "\<And>x. row x = mk x (event x)" and "\<And>x. ev_at (row x) = fst x" and "\<And>x. last_of (row x) = shown (snd x)"
  shows "and_then (try_map (\<lambda>e. and_then (ok_or err (suff (fst e))) (\<lambda>(at, d). and_then (decode c (snd e) what) (\<lambda>event. Inr (mk (at, d) event))))
            (map (\<lambda>x. (key x, the (m (key x)))) (take n xs)))
          (\<lambda>events. Inr \<lparr> th_events = events, th_next = next_cursor events (map_option key (next_after n xs) \<noteq> None) last_of \<rparr>)
       = Inr (history_page row shown n xs)"
proof -
  have "try_map (\<lambda>e. and_then (ok_or err (suff (fst e))) (\<lambda>(at, d). and_then (decode c (snd e) what) (\<lambda>event. Inr (mk (at, d) event))))
      (map (\<lambda>x. (key x, the (m (key x)))) (take n xs)) = Inr (map row (take n xs))"
    by (rule try_map_map) (simp add: assms(1,2,3) case_prod_beta)
  moreover have "next_cursor (map row (take n xs)) (next_after n xs \<noteq> None) last_of
      = map_option (\<lambda>x. \<lparr> hc_before = fst x, hc_last = shown (snd x) \<rparr>) (next_after n xs)"
    by (simp only: next_cursor_rows assms(4,5))
  ultimately show ?thesis by (simp add: history_page_def)
qed

lemma page_of_events:
  fixes r :: repo_id and n :: nat and before :: "timestamp option" and l :: "digest option"
  assumes e: "entries_ok lib m" and fin: "finite (dom m)" and t: "nul_free t"
  defines "p \<equiv> tag_history_of r t"
  defines "page \<equiv> scan_page m p (start_key (tag_history_before r t) (event_key r t) before l) n"
  shows "\<exists>xs. sorted_wrt newer xs \<and> set xs = {x. event_at lib m (event_key r t x) \<noteq> None \<and> follows before l x}
    \<and> and_then (try_map (\<lambda>e.
          and_then (ok_or (corrupt ''tag history key'') (tag_history_suffix (fst e) p)) (\<lambda>(at, d).
          and_then (decode (lb_event lib) (snd e) ''TagEvent'') (\<lambda>event.
            Inr \<lparr> ev_at = at, ev_tag = t, ev_digest = d, ev_event = event \<rparr>))) (pg_entries page))
        (\<lambda>events. Inr \<lparr> th_events = events, th_next = next_cursor events (pg_next page \<noteq> None) (\<lambda>e. to_string (ev_digest e)) \<rparr>)
      = Inr (history_page (event_row lib m r t) to_string n xs)"
proof -
  from item_range.page_items [OF event_range [OF t] e fin] obtain xs where
    xs: "lists_by (event_key r t) {x. True \<and> m (event_key r t x) \<noteq> None
           \<and> after (start_key (tag_history_before r t) (event_key r t) before l) (event_key r t x)} xs"
    and page: "page = \<lparr> pg_entries = map (\<lambda>x. (event_key r t x, the (m (event_key r t x)))) (take n xs),
      pg_next = map_option (event_key r t) (next_after n xs) \<rparr>" unfolding page_def p_def by blast
  have set: "set xs = {x. event_at lib m (event_key r t x) \<noteq> None \<and> follows before l x}"
    using xs by (simp add: lists_by_def after_start(1) event_at_iff(1) [OF e t] del: not_None_eq)
  have mem: "m (event_key r t x) \<noteq> None" if "x \<in> set (take n xs)" for x
    using in_set_takeD [OF that] unfolding set by (simp add: event_at_iff(1) [OF e t] del: not_None_eq)
  have "and_then (try_map (\<lambda>e.
          and_then (ok_or (corrupt ''tag history key'') (tag_history_suffix (fst e) p)) (\<lambda>(at, d).
          and_then (decode (lb_event lib) (snd e) ''TagEvent'') (\<lambda>event.
            Inr ((\<lambda>x ev. \<lparr> ev_at = fst x, ev_tag = t, ev_digest = snd x, ev_event = ev \<rparr>) (at, d) event))))
          (map (\<lambda>x. (event_key r t x, the (m (event_key r t x)))) (take n xs)))
        (\<lambda>events. Inr \<lparr> th_events = events,
           th_next = next_cursor events (map_option (event_key r t) (next_after n xs) \<noteq> None) (\<lambda>e. to_string (ev_digest e)) \<rparr>)
      = Inr (history_page (event_row lib m r t) to_string n xs)"
    by (rule history_page_rows [where event = "\<lambda>x. the (event_at lib m (event_key r t x))"])
      (simp_all add: p_def event_suffix event_row_def stored_event(1) [OF e t mem])
  with xs set show ?thesis by (intro exI [of _ xs]) (simp add: lists_by_def event_key_less page)
qed

lemma page_of_taggings:
  fixes r :: repo_id and d :: digest and n :: nat and before :: "timestamp option" and l :: "string option"
  assumes e: "entries_ok lib m" and fin: "finite (dom m)"
  defines "p \<equiv> manifest_tag_history_of r d"
  defines "page \<equiv> scan_page m p (start_key (manifest_tag_history_before r d) (tagging_key r d) before l) n"
  shows "\<exists>xs. sorted_wrt newer xs \<and> set xs = {x. valid_tag (snd x) \<and> event_at lib m (tagging_key r d x) \<noteq> None \<and> follows before l x}
    \<and> and_then (try_map (\<lambda>e.
          and_then (ok_or (corrupt ''manifest tag history key'') (manifest_tag_history_suffix (fst e) p)) (\<lambda>(at, t).
          and_then (decode (lb_event lib) (snd e) ''TagEvent'') (\<lambda>event.
            Inr \<lparr> ev_at = at, ev_tag = t, ev_digest = d, ev_event = event \<rparr>))) (pg_entries page))
        (\<lambda>events. Inr \<lparr> th_events = events, th_next = next_cursor events (pg_next page \<noteq> None) ev_tag \<rparr>)
      = Inr (history_page (tagging_row lib m r d) (\<lambda>t. t) n xs)"
proof -
  from taggings.page_items [OF e fin] obtain xs where
    xs: "lists_by (tagging_key r d) {x. valid_tag (snd x) \<and> m (tagging_key r d x) \<noteq> None
           \<and> after (start_key (manifest_tag_history_before r d) (tagging_key r d) before l) (tagging_key r d x)} xs"
    and page: "page = \<lparr> pg_entries = map (\<lambda>x. (tagging_key r d x, the (m (tagging_key r d x)))) (take n xs),
      pg_next = map_option (tagging_key r d) (next_after n xs) \<rparr>" unfolding page_def p_def by blast
  have set: "set xs = {x. valid_tag (snd x) \<and> event_at lib m (tagging_key r d x) \<noteq> None \<and> follows before l x}"
    using xs by (simp add: lists_by_def after_start(2) event_at_iff(2) [OF e] valid_tag_facts(4) cong: conj_cong del: not_None_eq)
  have mem: "m (tagging_key r d x) \<noteq> None" "is_str (snd x)" if "x \<in> set (take n xs)" for x
    using in_set_takeD [OF that] event_at_iff(2) [OF e] unfolding set by (blast intro: valid_tag_facts(1))+
  have "and_then (try_map (\<lambda>e.
          and_then (ok_or (corrupt ''manifest tag history key'') (manifest_tag_history_suffix (fst e) p)) (\<lambda>(at, t).
          and_then (decode (lb_event lib) (snd e) ''TagEvent'') (\<lambda>event.
            Inr ((\<lambda>x ev. \<lparr> ev_at = fst x, ev_tag = snd x, ev_digest = d, ev_event = ev \<rparr>) (at, t) event))))
          (map (\<lambda>x. (tagging_key r d x, the (m (tagging_key r d x)))) (take n xs)))
        (\<lambda>events. Inr \<lparr> th_events = events,
           th_next = next_cursor events (map_option (tagging_key r d) (next_after n xs) \<noteq> None) ev_tag \<rparr>)
      = Inr (history_page (tagging_row lib m r d) (\<lambda>t. t) n xs)"
    by (rule history_page_rows [where event = "\<lambda>x. the (event_at lib m (tagging_key r d x))"])
      (simp_all add: p_def event_suffix tagging_row_def stored_event(2) [OF e mem(1)] mem(2))
  with xs set show ?thesis by (intro exI [of _ xs]) (simp add: lists_by_def event_key_less page)
qed

context registry_env
begin

lemma refines_tag_history:
  "refines holds may_fail (tag_history G repo t before last_row n) (\<lambda>m.
     case id_of m repo of
       None \<Rightarrow> Inr \<lparr> th_events = [], th_next = None \<rparr>
     | Some r \<Rightarrow> and_then (last_digest before last_row) (\<lambda>l.
         let page = scan_page m (tag_history_of r t) (start_key (tag_history_before r t) (event_key r t) before l) n in
         and_then (try_map (\<lambda>e.
            and_then (ok_or (corrupt ''tag history key'') (tag_history_suffix (fst e) (tag_history_of r t))) (\<lambda>(at, d).
            and_then (decode (lb_event (rg_libs G)) (snd e) ''TagEvent'') (\<lambda>event.
              Inr \<lparr> ev_at = at, ev_tag = t, ev_digest = d, ev_event = event \<rparr>))) (pg_entries page))
          (\<lambda>events. Inr \<lparr> th_events = events, th_next = next_cursor events (pg_next page \<noteq> None) (\<lambda>e. to_string (ev_digest e)) \<rparr>)))"
proof (cases "last_digest before last_row")
  case (Inl e)
  show ?thesis
    unfolding tag_history_def history_start Inl result_simps bind_lift
    by (rule refines_cong, (rule refines_intros refines_lookup_repo)+) (simp split: option.split)
next
  case (Inr l)
  show ?thesis
    unfolding tag_history_def history_start Inr result_simps bind_lift
    by (rule refines_cong, (rule refines_intros(1,5) refines_event_page history_cursor_ok history_under resumable_history
          refines_bind [OF refines_lookup_repo])+)
      (simp add: Let_def split: option.split)
qed

lemma refines_manifest_tag_history:
  "refines holds may_fail (manifest_tag_history G repo d before last_row n) (\<lambda>m.
     case id_of m repo of
       None \<Rightarrow> Inr \<lparr> th_events = [], th_next = None \<rparr>
     | Some r \<Rightarrow>
         let page = scan_page m (manifest_tag_history_of r d) (start_key (manifest_tag_history_before r d) (tagging_key r d) before last_row) n in
         and_then (try_map (\<lambda>e.
            and_then (ok_or (corrupt ''manifest tag history key'') (manifest_tag_history_suffix (fst e) (manifest_tag_history_of r d))) (\<lambda>(at, t).
            and_then (decode (lb_event (rg_libs G)) (snd e) ''TagEvent'') (\<lambda>event.
              Inr \<lparr> ev_at = at, ev_tag = t, ev_digest = d, ev_event = event \<rparr>))) (pg_entries page))
          (\<lambda>events. Inr \<lparr> th_events = events, th_next = next_cursor events (pg_next page \<noteq> None) ev_tag \<rparr>))"
  unfolding manifest_tag_history_def tagging_start Let_def
  by (rule refines_cong, (rule refines_intros(1,5) refines_event_page history_cursor_ok history_under resumable_history
        refines_bind [OF refines_lookup_repo])+)
    (simp split: option.split)

end

section \<open>Properties\<close>

lemma last_digest_error:
  "last_digest before last_row = Inl e \<Longrightarrow>
   \<exists>row. before \<noteq> None \<and> last_row = Some row \<and> (\<forall>d. from_str row \<noteq> Returns (Inr d))
     \<and> (e = DigestInvalid (row @ '' is not a digest'') \<or> e = Panicked)"
  by (auto simp: last_digest_def parsed_digest_def map_err_def and_then_def split: option.splits sum.splits call.splits)

lemma tag_history_run:
  assumes env: "registry_env G tbl ok fails names ids" and at: "at_store tbl ok names ids (rg_libs G) m s" and t: "nul_free t"
    and run: "tag_history G repo t before last_row limit s = (res, s')"
  shows "at_store tbl ok names ids (rg_libs G) m s' \<and> (case res of
      Inl e \<Rightarrow> engine_error fails e \<or> (\<exists>row. before \<noteq> None \<and> last_row = Some row \<and> (\<forall>d. from_str row \<noteq> Returns (Inr d))
          \<and> (e = DigestInvalid (row @ '' is not a digest'') \<or> e = Panicked))
    | Inr page \<Rightarrow> (case id_of m repo of
          None \<Rightarrow> page = \<lparr> th_events = [], th_next = None \<rparr>
        | Some r \<Rightarrow> (\<exists>l xs. last_digest before last_row = Inr l \<and> sorted_wrt newer xs
            \<and> set xs = {x. event_at (rg_libs G) m (event_key r t x) \<noteq> None \<and> follows before l x}
            \<and> page = history_page (event_row (rg_libs G) m r t) to_string limit xs)))"
proof -
  have e: "entries_ok (rg_libs G) m" and fin: "finite (dom m)"
    using registry_env.holds_finite [OF env at] at by (simp_all add: at_store_def store_ok_def)
  note c = refines_run [OF registry_env.refines_tag_history [OF env] at run]
  show ?thesis
  proof (cases "id_of m repo")
    case None
    with c show ?thesis by (auto split: sum.split)
  next
    case (Some r)
    show ?thesis
    proof (cases "last_digest before last_row")
      case (Inl e)
      from Inl last_digest_error [OF Inl] Some c show ?thesis by (auto split: sum.split)
    next
      case (Inr l)
      from page_of_events [OF e fin t, of r before l limit] obtain xs where "sorted_wrt newer xs"
        "set xs = {x. event_at (rg_libs G) m (event_key r t x) \<noteq> None \<and> follows before l x}"
        and "res = Inr (history_page (event_row (rg_libs G) m r t) to_string limit xs) \<or> (\<exists>e. engine_error fails e \<and> res = Inl e)"
        using c Some Inr by (auto simp: Let_def)
      with Inr Some conjunct1 [OF c] show ?thesis by auto
    qed
  qed
qed

text \<open>
  A page of a tag's history is the first \<open>limit\<close> events of the tag, newest first and by digest within an instant, past the cursor:
  those strictly before the instant \<open>before\<close>, or strictly after the row \<open>(before, last)\<close> that a page ended with. There is a next cursor, the
  last row served, exactly when events are left. An unknown repository has the empty page, and the only error of its own is a cursor that
  is no digest.
\<close>

theorem tag_history_exact:
  assumes env: "registry_env G tbl ok fails names ids" and at: "at_store tbl ok names ids (rg_libs G) m s" and t: "nul_free t"
    and run: "tag_history G repo t before last_row limit s = (res, s')"
  shows "at_store tbl ok names ids (rg_libs G) m s' \<and> (case res of
      Inl e \<Rightarrow> engine_error fails e \<or> (\<exists>row. before \<noteq> None \<and> last_row = Some row \<and> (\<forall>d. from_str row \<noteq> Returns (Inr d))
          \<and> (e = DigestInvalid (row @ '' is not a digest'') \<or> e = Panicked))
    | Inr page \<Rightarrow> (case id_of m repo of
          None \<Rightarrow> page = \<lparr> th_events = [], th_next = None \<rparr>
        | Some r \<Rightarrow> (\<exists>l xs. last_digest before last_row = Inr l \<and> sorted_wrt newer xs
            \<and> set xs = {x. event_at (rg_libs G) m (event_key r t x) \<noteq> None \<and> follows before l x}
            \<and> page = history_page (event_row (rg_libs G) m r t) to_string limit xs)))"
  by (rule tag_history_run [OF env at t run])

theorem tag_history_exact_witness:
  "\<exists>s'. tag_history demo_registry ''zz'' ''v1'' None None 5 demo_state = (Inr \<lparr> th_events = [], th_next = None \<rparr>, s')"
proof -
  obtain res s' where run: "tag_history demo_registry ''zz'' ''v1'' None None 5 demo_state = (res, s')" by fastforce
  have t: "nul_free ''v1''" by (simp add: nul_free_def)
  from tag_history_exact [OF dr.registry_env_axioms at_store_demo t run] have "res = Inr \<lparr> th_events = [], th_next = None \<rparr>"
    by (cases res) (auto simp: engine_error_def)
  with run show ?thesis by blast
qed

text \<open>
  A page of what a manifest was tagged is the first \<open>limit\<close> tag events of the manifest, newest first and by tag within an instant, past
  the cursor.
\<close>

theorem manifest_tag_history_exact:
  assumes env: "registry_env G tbl ok fails names ids" and at: "at_store tbl ok names ids (rg_libs G) m s"
    and run: "manifest_tag_history G repo d before last_row limit s = (res, s')"
  shows "at_store tbl ok names ids (rg_libs G) m s' \<and> (case res of
      Inl e \<Rightarrow> engine_error fails e
    | Inr page \<Rightarrow> (case id_of m repo of
          None \<Rightarrow> page = \<lparr> th_events = [], th_next = None \<rparr>
        | Some r \<Rightarrow> (\<exists>xs. sorted_wrt newer xs
            \<and> set xs = {x. valid_tag (snd x) \<and> event_at (rg_libs G) m (tagging_key r d x) \<noteq> None \<and> follows before last_row x}
            \<and> page = history_page (tagging_row (rg_libs G) m r d) (\<lambda>t. t) limit xs)))"
proof -
  have e: "entries_ok (rg_libs G) m" and fin: "finite (dom m)"
    using registry_env.holds_finite [OF env at] at by (simp_all add: at_store_def store_ok_def)
  note c = refines_run [OF registry_env.refines_manifest_tag_history [OF env] at run]
  show ?thesis
  proof (cases "id_of m repo")
    case None
    with c show ?thesis by (auto split: sum.split)
  next
    case (Some r)
    from page_of_taggings [OF e fin, of r d before last_row limit] obtain xs where "sorted_wrt newer xs"
      "set xs = {x. valid_tag (snd x) \<and> event_at (rg_libs G) m (tagging_key r d x) \<noteq> None \<and> follows before last_row x}"
      and "res = Inr (history_page (tagging_row (rg_libs G) m r d) (\<lambda>t. t) limit xs) \<or> (\<exists>e. engine_error fails e \<and> res = Inl e)"
      using c Some by (auto simp: Let_def)
    with Some conjunct1 [OF c] show ?thesis by auto
  qed
qed

theorem manifest_tag_history_exact_witness:
  "\<exists>s'. manifest_tag_history demo_registry ''zz'' demo_digest None None 5 demo_state = (Inr \<lparr> th_events = [], th_next = None \<rparr>, s')"
proof -
  obtain res s' where run: "manifest_tag_history demo_registry ''zz'' demo_digest None None 5 demo_state = (res, s')" by fastforce
  from manifest_tag_history_exact [OF dr.registry_env_axioms at_store_demo run] have "res = Inr \<lparr> th_events = [], th_next = None \<rparr>"
    by (cases res) (auto simp: engine_error_def)
  with run show ?thesis by blast
qed

lemma newer_order:
  fixes x y z :: "timestamp \<times> 'a::linorder"
  shows "newer x y \<Longrightarrow> \<not> newer y x" "newer x y \<Longrightarrow> newer y z \<Longrightarrow> newer x z" "newer x y \<or> x = y \<or> newer y x"
  by (cases "fst x"; cases "fst y"; cases "fst z"; auto simp: newer_def prod_eq_iff)+

lemma newer_rest:
  assumes "sorted_wrt newer xs" and "next_after n xs = Some l"
  shows "set (drop n xs) = {x \<in> set xs. newer l x}"
proof -
  from assms(2) have n: "0 < n" "n < length xs" "l = last (take n xs)" by (auto simp: next_after_def split: if_splits)
  then have "take n xs \<noteq> []" by auto
  with n have l: "l = xs ! (n - 1)" by (simp add: last_conv_nth [of "take n xs"] min_def)
  have less: "newer (xs ! i) (xs ! j) \<longleftrightarrow> i < j" if "i < length xs" "j < length xs" for i j
    using that sorted_wrt_nth_less [OF assms(1)] newer_order(1) by (metis linorder_neqE_nat less_irrefl)
  show ?thesis
  proof (intro set_eqI iffI)
    fix x assume "x \<in> set (drop n xs)"
    then obtain i where "i < length xs - n" "x = xs ! (n + i)" by (auto simp: in_set_conv_nth)
    with n l less [of "n - 1" "n + i"] show "x \<in> {x \<in> set xs. newer l x}" by auto
  next
    fix x assume "x \<in> {x \<in> set xs. newer l x}"
    then obtain i where i: "i < length xs" "x = xs ! i" "newer l x" by (auto simp: in_set_conv_nth)
    with n l less [of "n - 1" i] have "n \<le> i" by auto
    with i have "drop n xs ! (i - n) = x" "i - n < length (drop n xs)" by auto
    then show "x \<in> set (drop n xs)" by (metis nth_mem)
  qed
qed

lemma newer_sorted_unique:
  assumes "sorted_wrt newer xs" and "sorted_wrt newer ys" and "set xs = set ys"
  shows "xs = ys"
  using assms
proof (induction xs arbitrary: ys)
  case (Cons x xs)
  from Cons.prems(3) obtain y ys' where ys: "ys = y # ys'" by (cases ys) auto
  have "x = y"
    using Cons.prems ys newer_order(1) by (metis list.set_intros(1) set_ConsD sorted_wrt.simps(2))
  moreover have "x \<notin> set xs" "y \<notin> set ys'"
    using Cons.prems ys newer_order(1) [of x x] newer_order(1) [of y y] by auto
  ultimately have "set xs = set ys'" using Cons.prems(3) ys by auto
  with Cons ys \<open>x = y\<close> show ?case by auto
qed simp

text \<open>
  C34. The cursor of a page resumes exactly: when a page of a tag's history hands out a cursor and the next page is asked for with it, on a store
  that did not change, the two pages together are the first \<open>limit + limit'\<close> events of one list, newest first: nothing is skipped, nothing is
  served twice, also when the first page ends inside an instant.
\<close>

theorem history_pages_join:
  assumes env: "registry_env G tbl ok fails names ids" and at: "at_store tbl ok names ids (rg_libs G) m s" and t: "nul_free t"
    and one: "tag_history G repo t before last_row limit s = (Inr p, s1)" and nxt: "th_next p = Some c"
    and two: "tag_history G repo t (Some (hc_before c)) (Some (hc_last c)) limit' s1 = (Inr q, s2)"
  shows "\<exists>r l xs. id_of m repo = Some r \<and> last_digest before last_row = Inr l \<and> sorted_wrt newer xs
    \<and> set xs = {x. event_at (rg_libs G) m (event_key r t x) \<noteq> None \<and> follows before l x}
    \<and> th_events p @ th_events q = map (event_row (rg_libs G) m r t) (take (limit + limit') xs)
    \<and> (th_next q \<noteq> None \<longleftrightarrow> 0 < limit' \<and> limit + limit' < length xs)"
proof -
  note r1 = tag_history_run [OF env at t one]
  then have at1: "at_store tbl ok names ids (rg_libs G) m s1" by simp
  from r1 nxt obtain r l xs where r: "id_of m repo = Some r" and l: "last_digest before last_row = Inr l" and s: "sorted_wrt newer xs"
    and xs: "set xs = {x. event_at (rg_libs G) m (event_key r t x) \<noteq> None \<and> follows before l x}"
    and p: "p = history_page (event_row (rg_libs G) m r t) to_string limit xs"
    by (auto split: option.splits)
  from nxt p obtain z where z: "next_after limit xs = Some z" and c: "hc_before c = fst z" "hc_last c = to_string (snd z)"
    by (auto simp: history_page_def)
  have "last_digest (Some (fst z)) (Some (to_string (snd z))) = Inr (Some (snd z))"
    by (simp add: last_digest_def parsed_digest_def from_str_to_string)
  with tag_history_run [OF env at1 t two] r c obtain ys where ys: "sorted_wrt newer ys"
    "set ys = {x. event_at (rg_libs G) m (event_key r t x) \<noteq> None \<and> newer z x}"
    and q: "q = history_page (event_row (rg_libs G) m r t) to_string limit' ys"
    by (auto simp: follows_def)
  have z': "follows before l z" using next_after_mem [OF z] xs by auto
  have step: "follows before l x" if "newer z x" for x
    using z' that by (auto simp: follows_def newer_def split: option.splits)
  have "ys = drop limit xs"
  proof (rule newer_sorted_unique [OF ys(1)])
    show "sorted_wrt newer (drop limit xs)" by (rule sorted_wrt_drop [OF s])
    show "set ys = set (drop limit xs)" unfolding newer_rest [OF s z] ys(2) xs using step by auto
  qed
  moreover have "limit < length xs" using z by (auto simp: next_after_def split: if_splits)
  ultimately have "th_events p @ th_events q = map (event_row (rg_libs G) m r t) (take (limit + limit') xs)"
    and "th_next q \<noteq> None \<longleftrightarrow> 0 < limit' \<and> limit + limit' < length xs"
    by (auto simp: p q history_page_def take_add next_after_def)
  with r l s xs show ?thesis by blast
qed

text \<open>A store with two events of one tag.\<close>

definition demo_event :: tag_event where
  "demo_event = \<lparr> te_event = Created, te_media_type = OCI_INDEX, te_size = 3 \<rparr>"

definition history_store :: store where
  "history_store = demo_store(event_key 0 ''v1'' (Timestamp 5, demo_digest) \<mapsto> stored_as (lb_event demo_libs) demo_event,
     event_key 0 ''v1'' (Timestamp 6, demo_digest) \<mapsto> stored_as (lb_event demo_libs) demo_event)"

definition history_state :: "(table, list_caches) rstate" where
  "history_state = demo_state\<lparr>rs_engine :=
     table_put (event_key 0 ''v1'' (Timestamp 6, demo_digest)) (stored_as (lb_event demo_libs) demo_event)
       (table_put (event_key 0 ''v1'' (Timestamp 5, demo_digest)) (stored_as (lb_event demo_libs) demo_event)
         (rs_engine demo_state))\<rparr>"

lemma valid_v1: "valid_tag ''v1''"
  by (simp add: valid_tag_def tag_char_def is_ascii_alphanumeric_def)

lemma history_store_ok: "store_ok demo_libs history_store"
proof -
  let ?v = "stored_as (lb_event demo_libs) demo_event"
  let ?b = "[Put (event_key 0 ''v1'' (Timestamp 5, demo_digest)) ?v, Put (event_key 0 ''v1'' (Timestamp 6, demo_digest)) ?v]"
  have "good_entry demo_libs (event_key 0 ''v1'' x) ?v" for x
    by (simp add: event_key_def good_entry_tagged(1) [OF valid_v1] dl.coders)
  then have good: "good_entry demo_libs k v" if "Put k v \<in> set ?b" for k v using that by auto
  have "ranged {0x48} ?b" by (simp add: event_key_def key_defs)
  from store_ok_ranged [OF demo_store_ok this _ good] have "store_ok demo_libs (apply_ops ?b demo_store)" by simp
  then show ?thesis by (simp add: history_store_def)
qed

lemma at_store_history:
  "at_store table_map (\<lambda>_. True) (\<lambda>c. map_of (fst c)) (\<lambda>c. map_of (snd c)) (rg_libs demo_registry) history_store history_state"
proof -
  have n: "names_ok demo_store" and c: "cache_ok demo_store (map_of (fst (rs_cache demo_state))) (map_of (snd (rs_cache demo_state)))"
    and t: "table_map (rs_engine demo_state) = demo_store"
    using at_store_demo by (auto simp: at_store_def interner_ok_def)
  have "table_map (rs_engine history_state) = history_store" by (simp add: history_state_def history_store_def t)
  moreover have "names_ok history_store"
    by (rule names_ok_cong [OF n]) (simp_all add: history_store_def event_key_def key_defs)
  moreover have "cache_ok history_store (map_of (fst (rs_cache history_state))) (map_of (snd (rs_cache history_state)))"
    using cache_ok_cong [OF c, of history_store] by (simp add: history_store_def event_key_def key_defs history_state_def)
  ultimately show ?thesis using history_store_ok by (simp add: at_store_def interner_ok_def demo_registry_def)
qed

lemma history_events: "event_at demo_libs history_store (event_key 0 ''v1'' x) \<noteq> None \<longleftrightarrow> x \<in> {(Timestamp 5, demo_digest), (Timestamp 6, demo_digest)}"
proof -
  have "demo_store (event_key 0 ''v1'' x) = None" by (simp add: demo_store_def one_repo_def event_key_def key_defs)
  moreover have "event_key 0 ''v1'' x = event_key 0 ''v1'' y \<longleftrightarrow> x = y" for y
    by (simp add: event_key_def key_defs key_codes prod_eq_iff)
  ultimately show ?thesis by (auto simp: event_at_def history_store_def dl.coders)
qed

theorem history_pages_join_witness:
  "\<exists>p s1 c q s2. tag_history demo_registry ''a'' ''v1'' None None 1 history_state = (Inr p, s1) \<and> th_next p = Some c
    \<and> tag_history demo_registry ''a'' ''v1'' (Some (hc_before c)) (Some (hc_last c)) 5 s1 = (Inr q, s2)
    \<and> 2 \<le> length (th_events p @ th_events q)"
proof -
  note env = dr.registry_env_axioms and lib = demo_registry_def
  have nul: "nul_free ''v1''" by (simp add: nul_free_def)
  have id: "id_of history_store ''a'' = Some 0"
    using demo_at(1) [of "''a''"] by (simp add: id_of_def history_store_def event_key_def key_defs)
  have size: "2 \<le> length xs" if "set xs = {x. event_at demo_libs history_store (event_key 0 ''v1'' x) \<noteq> None \<and> follows None l x}" for xs l
  proof -
    have "set xs = {(Timestamp 5, demo_digest), (Timestamp 6, demo_digest)}" unfolding that history_events by (auto simp: follows_def)
    then show ?thesis using card_length [of xs] by simp
  qed
  obtain res s1 where one: "tag_history demo_registry ''a'' ''v1'' None None 1 history_state = (res, s1)" by fastforce
  note r1 = tag_history_run [OF env at_store_history nul one]
  then obtain l xs where xs: "set xs = {x. event_at demo_libs history_store (event_key 0 ''v1'' x) \<noteq> None \<and> follows None l x}"
    and p: "res = Inr (history_page (event_row demo_libs history_store 0 ''v1'') to_string 1 xs)"
    using id by (cases res) (auto simp: engine_error_def lib)
  from p size [OF xs] obtain pg c z where c: "res = Inr pg" "th_next pg = Some c" "hc_last c = to_string z"
    by (auto simp: history_page_def next_after_def)
  have at1: "at_store table_map (\<lambda>_. True) (\<lambda>c. map_of (fst c)) (\<lambda>c. map_of (snd c)) (rg_libs demo_registry) history_store s1"
    using r1 by simp
  obtain res' s2 where two: "tag_history demo_registry ''a'' ''v1'' (Some (hc_before c)) (Some (hc_last c)) 5 s1 = (res', s2)" by fastforce
  from tag_history_run [OF env at1 nul two] c(3) obtain q where q: "res' = Inr q"
    by (cases res') (auto simp: engine_error_def from_str_to_string)
  from history_pages_join [OF env at_store_history nul one [unfolded c(1)] c(2) two [unfolded q]] id size
  have "2 \<le> length (th_events pg @ th_events q)" by (fastforce simp: lib)
  with one two c q show ?thesis by blast
qed
end
