(* ===== verification/Summ_Counters.thy ===== *)
theory Summ_Counters
  imports Summ_History
begin

text \<open>
  Pull counts (\<open>summ-registry/src/counters.rs\<close>): folding a flush of increments into the day buckets of the store, and
  reading a window of days back with the shards summed.
\<close>

section \<open>Data\<close>

datatype count_subject = CountManifest digest | CountTag string | CountRepo

record count_delta =
  cd_repo :: string
  cd_subject :: count_subject
  cd_day :: u16
  cd_hour :: nat
  cd_manifest_pulls :: u64
  cd_blob_pulls :: u64
  cd_bytes_out :: u64

record count_day =
  cy_day :: u16
  cy_bucket :: counter_bucket

definition SHARD :: u16 where
  "SHARD = 0"

definition SHARD_SCAN_SLACK :: nat where
  "SHARD_SCAN_SLACK = 4"

text \<open>The derived order of the enum: by variant, then by content.\<close>

instantiation count_subject :: linorder
begin

fun less_eq_count_subject :: "count_subject \<Rightarrow> count_subject \<Rightarrow> bool" where
  "CountManifest d \<le> CountManifest e \<longleftrightarrow> d \<le> e"
| "CountManifest d \<le> y \<longleftrightarrow> True"
| "CountTag t \<le> CountManifest d \<longleftrightarrow> False"
| "CountTag t \<le> CountTag u \<longleftrightarrow> t \<le> u"
| "CountTag t \<le> CountRepo \<longleftrightarrow> True"
| "CountRepo \<le> y \<longleftrightarrow> y = CountRepo"

definition less_count_subject :: "count_subject \<Rightarrow> count_subject \<Rightarrow> bool" where
  "x < y \<longleftrightarrow> x \<le> y \<and> \<not> y \<le> (x :: count_subject)"

instance
proof
  fix x y z :: count_subject
  show "x < y \<longleftrightarrow> x \<le> y \<and> \<not> y \<le> x" by (rule less_count_subject_def)
  show "x \<le> x" by (cases x) simp_all
  show "x \<le> y \<Longrightarrow> y \<le> z \<Longrightarrow> x \<le> z" by (cases x; cases y; cases z) auto
  show "x \<le> y \<Longrightarrow> y \<le> x \<Longrightarrow> x = y" by (cases x; cases y) auto
  show "x \<le> y \<or> y \<le> x" by (cases x; cases y) auto
qed

end

section \<open>Writing\<close>

text \<open>\<open>BTreeMap::entry(k).or_default().push(v)\<close>\<close>

fun entry_push :: "'k::linorder \<Rightarrow> 'v \<Rightarrow> ('k \<times> 'v list) list \<Rightarrow> ('k \<times> 'v list) list" where
  "entry_push k v [] = [(k, [v])]"
| "entry_push k v ((k', vs) # rest) =
     (if k < k' then (k, [v]) # (k', vs) # rest
      else if k = k' then (k', vs @ [v]) # rest
      else (k', vs) # entry_push k v rest)"

definition delta_key :: "count_delta \<Rightarrow> string \<times> count_subject \<times> u16" where
  "delta_key x = (cd_repo x, cd_subject x, cd_day x)"

definition fold_deltas :: "count_delta list \<Rightarrow> ((string \<times> count_subject \<times> u16) \<times> count_delta list) list" where
  "fold_deltas deltas = fold (\<lambda>x. entry_push (delta_key x) x) deltas []"

fun counter_key :: "repo_id \<Rightarrow> count_subject \<Rightarrow> u16 \<Rightarrow> u16 \<Rightarrow> bytes" where
  "counter_key r (CountManifest d) day shard = counter_manifest_key r d day shard"
| "counter_key r (CountTag t) day shard = counter_tag_key r t day shard"
| "counter_key r CountRepo day shard = counter_repo_key r day shard"

definition add_delta :: "count_delta \<Rightarrow> counter_bucket \<Rightarrow> counter_bucket" where
  "add_delta x b = bucket_add b (cd_hour x) (cd_manifest_pulls x) (cd_blob_pulls x) (cd_bytes_out x)"

definition add_pull_counts :: "('s, 'c) registry \<Rightarrow> count_delta list \<Rightarrow> ('s, 'c, nat) op" where
  "add_pull_counts G deltas =
     bind_a (for_a (fold_deltas deltas) batch_new (\<lambda>((repo, subject, day), entries) batch.
       bind_a (lookup_repo G repo) (\<lambda>found.
       case found of
         None \<Rightarrow> return_a batch
       | Some repo_id \<Rightarrow>
           let key = counter_key repo_id subject day SHARD in
           bind_a (rg_get G key) (\<lambda>stored.
           bind_a (case stored of
               Some v \<Rightarrow> lift_a (decode (lb_bucket (rg_libs G)) v ''CounterBucket'')
             | None \<Rightarrow> return_a default_bucket) (\<lambda>bucket.
           bind_a (lift_a (encode (lb_bucket (rg_libs G)) (fold add_delta entries bucket))) (\<lambda>v.
             return_a (batch_put key v batch))))))) (\<lambda>batch.
     let written = batch_len batch in
     bind_a (if 0 < written then rg_apply G batch else return_a ()) (\<lambda>_.
       return_a written))"

section \<open>Reading\<close>

text \<open>The shards of a day are summed hour by hour.\<close>

definition add_bucket :: "counter_bucket \<Rightarrow> counter_bucket \<Rightarrow> counter_bucket" where
  "add_bucket prev b =
     fold (\<lambda>hour prev. bucket_add prev hour (ucast (cb_manifest_pulls b ! hour)) (ucast (cb_blob_pulls b ! hour)) (cb_bytes_out b ! hour))
       [0..<HOURS_PER_DAY] prev"

definition push_day :: "count_day list \<Rightarrow> u16 \<Rightarrow> counter_bucket \<Rightarrow> count_day list" where
  "push_day out day b =
     (if out \<noteq> [] \<and> cy_day (last out) = day
      then butlast out @ [(last out)\<lparr>cy_bucket := add_bucket (cy_bucket (last out)) b\<rparr>]
      else out @ [\<lparr> cy_day = day, cy_bucket = b \<rparr>])"

fun sum_days :: "libs \<Rightarrow> bytes \<Rightarrow> u16 \<Rightarrow> entry list \<Rightarrow> count_day list \<Rightarrow> registry_error + count_day list" where
  "sum_days lib p last_day [] out = Inr out"
| "sum_days lib p last_day (e # es) out =
     (case counter_suffix (fst e) p of
        None \<Rightarrow> sum_days lib p last_day es out
      | Some (day, shard) \<Rightarrow>
          if last_day < day then Inr out
          else
            and_then (decode (lb_bucket lib) (snd e) ''CounterBucket'') (\<lambda>b.
              sum_days lib p last_day es (push_day out day b)))"

definition counts :: "('s, 'c) registry \<Rightarrow> string \<Rightarrow> u16 \<Rightarrow> u16 \<Rightarrow> (repo_id \<Rightarrow> bytes) \<Rightarrow> ('s, 'c, count_day list) op" where
  "counts G repo from_day days prefix_of =
     (if days = 0 then return_a []
      else
        bind_a (lookup_repo G repo) (\<lambda>found.
        case found of
          None \<Rightarrow> return_a []
        | Some repo_id \<Rightarrow>
            let p = prefix_of repo_id;
                limit = unat days * SHARD_SCAN_SLACK;
                last_day = sat_add from_day (sat_sub days 1) in
            bind_a (rg_scan G p (Some (counters_from_day p from_day)) limit) (\<lambda>page.
              lift_a (sum_days (rg_libs G) p last_day (pg_entries page) []))))"

definition manifest_counts :: "('s, 'c) registry \<Rightarrow> string \<Rightarrow> digest \<Rightarrow> u16 \<Rightarrow> u16 \<Rightarrow> ('s, 'c, count_day list) op" where
  "manifest_counts G repo d from_day days = counts G repo from_day days (\<lambda>r. counters_of_manifest r d)"

definition tag_counts :: "('s, 'c) registry \<Rightarrow> string \<Rightarrow> string \<Rightarrow> u16 \<Rightarrow> u16 \<Rightarrow> ('s, 'c, count_day list) op" where
  "tag_counts G repo t from_day days = counts G repo from_day days (\<lambda>r. counters_of_tag r t)"

definition repo_counts :: "('s, 'c) registry \<Rightarrow> string \<Rightarrow> u16 \<Rightarrow> u16 \<Rightarrow> ('s, 'c, count_day list) op" where
  "repo_counts G repo from_day days = counts G repo from_day days counters_of_repo"

section \<open>Folding the increments\<close>

lemma entry_push_keys: "set (map fst (entry_push k v ps)) = insert k (set (map fst ps))"
  by (induction k v ps rule: entry_push.induct) auto

lemma sorted_entry_push: "sorted_wrt (<) (map fst ps) \<Longrightarrow> sorted_wrt (<) (map fst (entry_push k v ps))"
proof (induction k v ps rule: entry_push.induct)
  case (2 k v k' vs rest)
  have "set (map fst (entry_push k v rest)) = insert k (set (map fst rest))" by (rule entry_push_keys)
  with 2 show ?case by (auto simp: not_less le_less)
qed simp

lemma map_of_entry_push:
  "sorted_wrt (<) (map fst ps) \<Longrightarrow>
   map_of (entry_push k v ps) = (map_of ps)(k \<mapsto> (case map_of ps k of None \<Rightarrow> [v] | Some vs \<Rightarrow> vs @ [v]))"
proof (induction k v ps rule: entry_push.induct)
  case (2 k v k' vs rest)
  have "map_of rest k = None" if "k < k'"
    using 2(2) that by (auto simp: map_of_eq_None_iff)
  with 2 show ?case by (auto simp: fun_eq_iff)
qed simp

lemma fold_deltas_run:
  "sorted_wrt (<) (map fst ps) \<Longrightarrow>
   sorted_wrt (<) (map fst (fold (\<lambda>x. entry_push (delta_key x) x) ds ps))
   \<and> map_of (fold (\<lambda>x. entry_push (delta_key x) x) ds ps) k =
      (case map_of ps k of
         None \<Rightarrow> if filter (\<lambda>x. delta_key x = k) ds = [] then None else Some (filter (\<lambda>x. delta_key x = k) ds)
       | Some vs \<Rightarrow> Some (vs @ filter (\<lambda>x. delta_key x = k) ds))"
proof (induction ds arbitrary: ps)
  case Nil
  then show ?case by (simp split: option.split)
next
  case (Cons x ds)
  from Cons.IH [OF sorted_entry_push [OF Cons.prems]] show ?case
    by (auto simp: map_of_entry_push [OF Cons.prems] split: option.splits)
qed

lemma fold_deltas_groups:
  "distinct (map fst (fold_deltas ds))"
  "(k, es) \<in> set (fold_deltas ds) \<longleftrightarrow> es = filter (\<lambda>x. delta_key x = k) ds \<and> es \<noteq> []"
proof -
  have run: "sorted_wrt (<) (map fst (fold_deltas ds))"
    "map_of (fold_deltas ds) k = (if filter (\<lambda>x. delta_key x = k) ds = [] then None else Some (filter (\<lambda>x. delta_key x = k) ds))"
    using fold_deltas_run [of "[]" ds k] by (simp_all add: fold_deltas_def)
  then show d: "distinct (map fst (fold_deltas ds))" by (simp add: strict_sorted_iff)
  from run(2) show "(k, es) \<in> set (fold_deltas ds) \<longleftrightarrow> es = filter (\<lambda>x. delta_key x = k) ds \<and> es \<noteq> []"
    unfolding map_of_eq_Some_iff [OF d, symmetric] by auto
qed

text \<open>The bucket stored under a key, the empty one if there is none.\<close>

definition bucket_at :: "libs \<Rightarrow> store \<Rightarrow> bytes \<Rightarrow> counter_bucket" where
  "bucket_at lib m k = (case m k of None \<Rightarrow> default_bucket | Some v \<Rightarrow> the (co_dec (lb_bucket lib) v))"

fun count_ops :: "libs \<Rightarrow> store \<Rightarrow> (string \<times> count_subject \<times> u16) \<times> count_delta list \<Rightarrow> write_batch" where
  "count_ops lib m ((n, subject, day), es) =
     (case id_of m n of
        None \<Rightarrow> []
      | Some r \<Rightarrow>
          let k = counter_key r subject day SHARD in
          [Put k (stored_as (lb_bucket lib) (fold add_delta es (bucket_at lib m k)))])"

fun countable :: "count_subject \<Rightarrow> bool" where
  "countable (CountTag t) = nul_free t"
| "countable _ = True"

lemma counter_key_inject:
  "countable x \<Longrightarrow> countable y \<Longrightarrow> counter_key r x day shard = counter_key r' y day' shard' \<longleftrightarrow> r = r' \<and> x = y \<and> day = day' \<and> shard = shard'"
  using encode_key_inject by (cases x; cases y) (simp_all add: key_defs key_codes tag_codes)

lemma counter_key_good:
  assumes "countable x"
  shows "good_entry lib (counter_key r x day shard) v \<longleftrightarrow> co_dec (lb_bucket lib) v \<noteq> None"
  using assms by (cases x) (simp_all add: good_entry_tagged(2))

lemma counter_key_head: "\<exists>x. counter_key r s day shard = 0x41 # x"
  by (cases s) (simp_all add: data_keys)

lemma stored_bucket:
  assumes "entries_ok lib m" and "countable x" and "m (counter_key r x day shard) = Some v"
  shows "decode (lb_bucket lib) v what = Inr (bucket_at lib m (counter_key r x day shard))"
  using entries_okD [OF assms(1,3)] assms(3) by (auto simp: counter_key_good [OF assms(2)] decode_def bucket_at_def)


context registry_env
begin

lemma refines_count_batch:
  assumes good: "\<And>x. x \<in> set deltas \<Longrightarrow> countable (cd_subject x)"
  shows "refines holds may_fail
    (for_a (fold_deltas deltas) batch_new (\<lambda>((repo, subject, day), entries) batch.
       bind_a (lookup_repo G repo) (\<lambda>found.
       case found of
         None \<Rightarrow> return_a batch
       | Some repo_id \<Rightarrow>
           let key = counter_key repo_id subject day SHARD in
           bind_a (rg_get G key) (\<lambda>stored.
           bind_a (case stored of
               Some v \<Rightarrow> lift_a (decode (lb_bucket (rg_libs G)) v ''CounterBucket'')
             | None \<Rightarrow> return_a default_bucket) (\<lambda>bucket.
           bind_a (lift_a (encode (lb_bucket (rg_libs G)) (fold add_delta entries bucket))) (\<lambda>v.
             return_a (batch_put key v batch)))))))
    (\<lambda>m. Inr (concat (map (count_ops (rg_libs G) m) (fold_deltas deltas))))"
proof (rule refines_cong [OF refines_for_mem])
  fix x :: "(string \<times> count_subject \<times> u16) \<times> count_delta list" and b :: write_batch
  let ?lib = "rg_libs G"
  assume x: "x \<in> set (fold_deltas deltas)"
  obtain n subject day es where xs: "x = ((n, subject, day), es)" by (metis surj_pair)
  with x fold_deltas_groups(2) [of "(n, subject, day)" es deltas] obtain y where "y \<in> set deltas" "cd_subject y = subject"
    by (auto simp: delta_key_def filter_empty_conv)
  with good have c: "countable subject" by blast
  show "refines holds may_fail ((\<lambda>((repo, subject, day), entries) batch.
       bind_a (lookup_repo G repo) (\<lambda>found.
       case found of
         None \<Rightarrow> return_a batch
       | Some repo_id \<Rightarrow>
           let key = counter_key repo_id subject day SHARD in
           bind_a (rg_get G key) (\<lambda>stored.
           bind_a (case stored of
               Some v \<Rightarrow> lift_a (decode (lb_bucket ?lib) v ''CounterBucket'')
             | None \<Rightarrow> return_a default_bucket) (\<lambda>bucket.
           bind_a (lift_a (encode (lb_bucket ?lib) (fold add_delta entries bucket))) (\<lambda>v.
             return_a (batch_put key v batch)))))) x b)
    (\<lambda>m. Inr (b @ count_ops ?lib m x))"
    unfolding xs prod.case Let_def
  proof (rule refines_cong, (rule refines_intros refines_lookup_repo refines_get)+)
    fix m s assume h: "holds m s"
    have read: "(case m (counter_key r subject day SHARD) of None \<Rightarrow> Inr default_bucket
        | Some v \<Rightarrow> decode (lb_bucket ?lib) v ''CounterBucket'') = Inr (bucket_at ?lib m (counter_key r subject day SHARD))" for r
      using stored_bucket [OF holdsD(5) [OF h] c] by (auto simp: bucket_at_def split: option.split)
    show "and_then (Inr (id_of m n)) (\<lambda>a. case a of None \<Rightarrow> Inr b
        | Some r \<Rightarrow> and_then (Inr (m (counter_key r subject day SHARD))) (\<lambda>a.
            and_then (case a of None \<Rightarrow> Inr default_bucket | Some v \<Rightarrow> decode (lb_bucket ?lib) v ''CounterBucket'') (\<lambda>a.
            and_then (encode (lb_bucket ?lib) (fold add_delta es a)) (\<lambda>a.
              Inr (batch_put (counter_key r subject day SHARD) a b)))))
      = Inr (b @ count_ops ?lib m ((n, subject, day), es))"
      by (auto simp: read coders Let_def batch_put_def split: option.split)
  qed
next
  fix m s
  show "for_r (fold_deltas deltas) batch_new (\<lambda>x b. Inr (b @ count_ops (rg_libs G) m x))
      = Inr (concat (map (count_ops (rg_libs G) m) (fold_deltas deltas)))"
    by (simp add: for_r_batches batch_new_def)
qed

lemma count_ops_good:
  assumes ok: "store_ok (rg_libs G) m" and good: "\<And>x. x \<in> set deltas \<Longrightarrow> countable (cd_subject x)"
  defines "b \<equiv> concat (map (count_ops (rg_libs G) m) (fold_deltas deltas))"
  shows "ranged {0x41} b \<and> store_ok (rg_libs G) (apply_ops b m)"
proof -
  have ops: "\<exists>r subject day v. countable subject \<and> y = Put (counter_key r subject day SHARD) (stored_as (lb_bucket (rg_libs G)) v)"
    if "y \<in> set b" for y
  proof -
    from that obtain n subject day es where "((n, subject, day), es) \<in> set (fold_deltas deltas)"
      and y: "y \<in> set (count_ops (rg_libs G) m ((n, subject, day), es))" by (auto simp: b_def)
    with fold_deltas_groups(2) [of "(n, subject, day)" es deltas] obtain z where "z \<in> set deltas" "cd_subject z = subject"
      by (auto simp: delta_key_def filter_empty_conv)
    with good y show ?thesis by (auto simp: Let_def split: option.splits)
  qed
  have "ranged {0x41} b"
    unfolding ranged_def
  proof
    fix y assume "y \<in> set b"
    with ops obtain r subject day v where y: "y = Put (counter_key r subject day SHARD) v" by blast
    from counter_key_head [of r subject day SHARD] obtain k where "counter_key r subject day SHARD = 0x41 # k" ..
    with y show "point_op y \<and> (\<exists>h r. op_key y = h # r \<and> h \<in> {0x41})" by (simp add: point_op_def)
  qed
  moreover have "store_ok (rg_libs G) (apply_ops b m)"
    by (rule store_ok_ranged [OF ok \<open>ranged {0x41} b\<close>]) (use ops in \<open>auto dest!: ops simp: counter_key_good coders\<close>)
  ultimately show ?thesis ..
qed

lemma commits_add_pull_counts:
  assumes good: "\<And>x. x \<in> set deltas \<Longrightarrow> countable (cd_subject x)"
  shows "commits holds may_fail (add_pull_counts G deltas)
    (\<lambda>m. let b = concat (map (count_ops (rg_libs G) m) (fold_deltas deltas)) in Inr (length b, apply_ops b m))"
  unfolding add_pull_counts_def
proof (rule commits_on_cong [THEN commits_onD, OF commits_on_bind [OF refines_count_batch [OF good]]])
  fix b :: write_batch
  have "commits_on (\<lambda>m. True \<and> Inr (concat (map (count_ops (rg_libs G) m) (fold_deltas deltas))) = Inr b) holds may_fail
      (bind_a (if \<not> False \<and> \<not> batch_is_empty b then rg_apply G b else return_a ()) (\<lambda>_. return_a (batch_len b)))
      (\<lambda>m. Inr (batch_len b, if False then m else apply_ops b m))"
    by (rule commits_on_apply_if) (use count_ops_good [OF _ good] ranged_bounded ranged_nameless in force)
  then show "commits_on (\<lambda>m. True \<and> Inr (concat (map (count_ops (rg_libs G) m) (fold_deltas deltas))) = Inr b) holds may_fail
      (let written = batch_len b in bind_a (if 0 < written then rg_apply G b else return_a ()) (\<lambda>_. return_a written))
      (\<lambda>m. Inr (batch_len b, apply_ops b m))"
    by (simp add: Let_def batch_is_empty_def batch_len_def)
qed (simp_all add: Let_def batch_len_def)

end

text \<open>The increments of a flush that go to one bucket, in their order.\<close>

definition deltas_for :: "count_delta list \<Rightarrow> string \<Rightarrow> count_subject \<Rightarrow> u16 \<Rightarrow> count_delta list" where
  "deltas_for deltas n subject day = filter (\<lambda>x. delta_key x = (n, subject, day)) deltas"

lemma count_batch_mem:
  "y \<in> set (concat (map (count_ops lib m) (fold_deltas deltas))) \<longleftrightarrow>
   (\<exists>n r subject day. id_of m n = Some r \<and> deltas_for deltas n subject day \<noteq> []
     \<and> y = Put (counter_key r subject day SHARD)
         (stored_as (lb_bucket lib) (fold add_delta (deltas_for deltas n subject day) (bucket_at lib m (counter_key r subject day SHARD)))))"
proof -
  have mem: "y \<in> set (count_ops lib m ((n, subject, day), es)) \<longleftrightarrow> (\<exists>r. id_of m n = Some r \<and> y = Put (counter_key r subject day SHARD)
      (stored_as (lb_bucket lib) (fold add_delta es (bucket_at lib m (counter_key r subject day SHARD)))))" for n subject day es
    by (cases "id_of m n") (simp_all add: Let_def)
  have "y \<in> set (concat (map (count_ops lib m) (fold_deltas deltas))) \<longleftrightarrow>
    (\<exists>n subject day es. ((n, subject, day), es) \<in> set (fold_deltas deltas) \<and> y \<in> set (count_ops lib m ((n, subject, day), es)))"
    by (auto simp del: count_ops.simps)
  also have "\<dots> \<longleftrightarrow> (\<exists>n subject day. deltas_for deltas n subject day \<noteq> [] \<and> y \<in> set (count_ops lib m ((n, subject, day), deltas_for deltas n subject day)))"
    by (auto simp: fold_deltas_groups(2) deltas_for_def)
  finally show ?thesis unfolding mem by blast
qed

lemma count_batch_at:
  fixes day :: u16
  assumes n: "names_ok m" and c: "countable subject" and r: "id_of m n = Some r"
    and good: "\<And>x. x \<in> set deltas \<Longrightarrow> countable (cd_subject x)"
  defines "k \<equiv> counter_key r subject day SHARD"
  shows "apply_ops (concat (map (count_ops lib m) (fold_deltas deltas))) m k =
    (if deltas_for deltas n subject day = [] then m k
     else Some (stored_as (lb_bucket lib) (fold add_delta (deltas_for deltas n subject day) (bucket_at lib m k))))"
proof -
  let ?b = "concat (map (count_ops lib m) (fold_deltas deltas))"
  let ?v = "stored_as (lb_bucket lib) (fold add_delta (deltas_for deltas n subject day) (bucket_at lib m k))"
  have same: "n' = n \<and> subject' = subject \<and> day' = day"
    if "id_of m n' = Some r'" "deltas_for deltas n' subject' day' \<noteq> []" "counter_key r' subject' day' SHARD = k" for n' r' subject' day'
  proof -
    from that(2) obtain x where "x \<in> set deltas" "cd_subject x = subject'" by (auto simp: deltas_for_def delta_key_def filter_empty_conv)
    with good have "countable subject'" by blast
    with that(3) c have "r' = r" "subject' = subject" "day' = day" by (simp_all add: k_def counter_key_inject)
    with that(1) r id_of_name_of [OF n] show ?thesis by simp
  qed
  have only: "x = Put k ?v" if "x \<in> set ?b" "touches x k" for x
    using that same unfolding count_batch_mem by (auto simp: k_def)
  have "(\<exists>x \<in> set ?b. touches x k) \<longleftrightarrow> deltas_for deltas n subject day \<noteq> []"
  proof
    assume "\<exists>x \<in> set ?b. touches x k"
    then obtain n' r' subject' day' where "id_of m n' = Some r'" "deltas_for deltas n' subject' day' \<noteq> []"
      "counter_key r' subject' day' SHARD = k" unfolding count_batch_mem Bex_def by auto
    with same show "deltas_for deltas n subject day \<noteq> []" by metis
  next
    assume "deltas_for deltas n subject day \<noteq> []"
    with r have "Put k ?v \<in> set ?b" unfolding count_batch_mem k_def by blast
    then show "\<exists>x \<in> set ?b. touches x k" by force
  qed
  with apply_ops_only [OF only, of ?b m] show ?thesis by simp
qed

lemma length_count_batch:
  "length (concat (map (count_ops lib m) (fold_deltas deltas))) = card (delta_key ` {x \<in> set deltas. id_of m (cd_repo x) \<noteq> None})"
proof -
  have "length (concat (map (count_ops lib m) gs)) = length (filter (\<lambda>g. id_of m (fst (fst g)) \<noteq> None) gs)" for gs
    by (induction gs) (auto simp: Let_def split: option.splits)
  moreover from fold_deltas_groups(1) [of deltas]
  have "distinct (map fst (filter (\<lambda>g. id_of m (fst (fst g)) \<noteq> None) (fold_deltas deltas)))" by (rule distinct_map_filter)
  from distinct_card [OF this] have "length (filter (\<lambda>g. id_of m (fst (fst g)) \<noteq> None) (fold_deltas deltas))
      = card (fst ` set (filter (\<lambda>g. id_of m (fst (fst g)) \<noteq> None) (fold_deltas deltas)))" by simp
  moreover have "fst ` set (filter (\<lambda>g. id_of m (fst (fst g)) \<noteq> None) (fold_deltas deltas)) = delta_key ` {x \<in> set deltas. id_of m (cd_repo x) \<noteq> None}"
    by (force simp: fold_deltas_groups(2) delta_key_def filter_empty_conv image_iff)
  ultimately show ?thesis by simp
qed

section \<open>Properties\<close>

text \<open>
  C36. A flush of increments adds each of them to the bucket of its subject and day: the bucket then holds what it held before with
  the increments of the flush added hour by hour, in their order, whatever else the flush holds, and a bucket that did not exist starts
  empty. It returns the number of buckets written. A repository that is gone is skipped, no name is interned, no other key changes,
  and a flush that fails changes nothing.
\<close>

theorem pull_counts_added:
  assumes env: "registry_env G tbl ok fails names ids" and at: "at_store tbl ok names ids (rg_libs G) m s"
    and good: "\<And>x. x \<in> set deltas \<Longrightarrow> countable (cd_subject x)"
    and run: "add_pull_counts G deltas s = (res, s')"
  shows "case res of
      Inl e \<Rightarrow> at_store tbl ok names ids (rg_libs G) m s' \<and> engine_error fails e
    | Inr n \<Rightarrow> (\<exists>m'. at_store tbl ok names ids (rg_libs G) m' s'
        \<and> n = card (delta_key ` {x \<in> set deltas. id_of m (cd_repo x) \<noteq> None})
        \<and> (\<forall>repo r subject day. id_of m repo = Some r \<longrightarrow> countable subject \<longrightarrow>
            m' (counter_key r subject day SHARD) =
              (if deltas_for deltas repo subject day = [] then m (counter_key r subject day SHARD)
               else Some (stored_as (lb_bucket (rg_libs G))
                 (fold add_delta (deltas_for deltas repo subject day) (bucket_at (rg_libs G) m (counter_key r subject day SHARD))))))
        \<and> (\<forall>k. (\<forall>x r. x \<in> set deltas \<longrightarrow> id_of m (cd_repo x) = Some r \<longrightarrow> k \<noteq> counter_key r (cd_subject x) (cd_day x) SHARD) \<longrightarrow>
            m' k = m k))"
proof -
  let ?lib = "rg_libs G"
  let ?b = "concat (map (count_ops ?lib m) (fold_deltas deltas))"
  have n: "names_ok m" using at by (auto simp: at_store_def interner_ok_def)
  have other: "apply_ops ?b m k = m k"
    if "\<forall>x r. x \<in> set deltas \<longrightarrow> id_of m (cd_repo x) = Some r \<longrightarrow> k \<noteq> counter_key r (cd_subject x) (cd_day x) SHARD" for k
  proof (rule apply_ops_untouched, rule ballI)
    fix y assume "y \<in> set ?b"
    then show "\<not> touches y k"
      using that unfolding count_batch_mem by (fastforce simp: deltas_for_def delta_key_def filter_empty_conv)
  qed
  from commits_run [OF registry_env.commits_add_pull_counts [OF env good] at run]
  show ?thesis
  proof (cases res)
    case (Inr a)
    with commits_run [OF registry_env.commits_add_pull_counts [OF env good] at run]
    have "a = length ?b" "at_store tbl ok names ids ?lib (apply_ops ?b m) s'" by (auto simp: Let_def)
    with Inr count_batch_at [OF n _ _ good] other show ?thesis
      by (auto simp: length_count_batch simp del: map_map intro!: exI [of _ "apply_ops ?b m"])
  qed (auto simp: Let_def)
qed

section \<open>Windows of days\<close>

fun counters_of :: "count_subject \<Rightarrow> repo_id \<Rightarrow> bytes" where
  "counters_of (CountManifest d) r = counters_of_manifest r d"
| "counters_of (CountTag t) r = counters_of_tag r t"
| "counters_of CountRepo r = counters_of_repo r"

definition shard_key :: "repo_id \<Rightarrow> count_subject \<Rightarrow> u16 \<times> u16 \<Rightarrow> bytes" where
  "shard_key r subject x = counter_key r subject (fst x) (snd x)"

lemma shard_key_eq: "shard_key r subject x = counters_of subject r @ to_be_bytes (fst x) @ to_be_bytes (snd x)"
  by (cases subject) (simp_all add: shard_key_def key_defs)

lemma counter_suffix_shard: "counter_suffix (shard_key r subject x) (counters_of subject r) = Some x"
  unfolding shard_key_eq by (simp add: counter_suffix_bucket)

lemma resumable_counters [simp]: "resumable (counters_of subject r)"
proof (cases subject)
  case (CountManifest d)
  then show ?thesis by (auto simp: resumable_def group_within_def prefix_def key_defs digest_groups)
qed (auto simp: resumable_def group_within_def prefix_def key_defs repo_groups)

lemma shard_key_less: "shard_key r subject x < shard_key r subject y \<longleftrightarrow> x < y"
  by (cases x; cases y) (auto simp: shard_key_eq less_prod_def key_codes append_less_eq_length le_less)

lemma prefix_counters:
  assumes "wf_key sk" and "countable subject"
  shows "prefix (counters_of subject r) (encode_key sk) \<longleftrightarrow> (\<exists>x. encode_key sk = shard_key r subject x)"
proof (cases subject)
  case (CountManifest d)
  with assms show ?thesis by (cases sk) (auto simp: shard_key_def key_defs key_codes)
next
  case (CountTag t)
  with assms show ?thesis by (cases sk) (auto simp: shard_key_def key_defs key_codes tag_codes)
next
  case CountRepo
  with assms show ?thesis by (cases sk) (auto simp: shard_key_def key_defs key_codes)
qed

lemma counter_range: "countable subject \<Longrightarrow> item_range (counters_of subject r) (shard_key r subject) (\<lambda>_. True)"
proof
  fix lib :: libs and m :: store and k
  assume c: "countable subject" and e: "entries_ok lib m" "m k \<noteq> None" and p: "prefix (counters_of subject r) k"
  from entries_ok_key [OF e] obtain sk where "k = encode_key sk" "wf_key sk" by metis
  with p prefix_counters [OF _ c, of sk r] show "\<exists>x. True \<and> k = shard_key r subject x" by simp
qed (simp add: shard_key_eq, metis linorder_neqE shard_key_less less_irrefl, rule resumable_counters)

text \<open>The buckets that the shards of a day hold, and their sum.\<close>

definition shards :: "store \<Rightarrow> repo_id \<Rightarrow> count_subject \<Rightarrow> u16 \<Rightarrow> u16 list" where
  "shards m r subject day = sorted_list_of_set {sh. m (counter_key r subject day sh) \<noteq> None}"

definition day_total :: "libs \<Rightarrow> store \<Rightarrow> repo_id \<Rightarrow> count_subject \<Rightarrow> u16 \<Rightarrow> counter_bucket" where
  "day_total lib m r subject day =
     (let bs = map (\<lambda>sh. bucket_at lib m (counter_key r subject day sh)) (shards m r subject day) in
      fold (\<lambda>b sum. add_bucket sum b) (tl bs) (hd bs))"

definition counted_days :: "store \<Rightarrow> repo_id \<Rightarrow> count_subject \<Rightarrow> u16 \<Rightarrow> u16 \<Rightarrow> u16 list" where
  "counted_days m r subject a b = sorted_list_of_set {day. a \<le> day \<and> day \<le> b \<and> shards m r subject day \<noteq> []}"

lemma finite_u16 [simp]: "finite (X :: u16 set)"
  by (rule finite_subset [OF subset_UNIV]) simp

lemma set_shards: "set (shards m r subject day) = {sh. m (counter_key r subject day sh) \<noteq> None}"
  by (simp add: shards_def)

lemma day_block:
  assumes "day \<notin> cy_day ` set out"
  shows "fold (\<lambda>b out. push_day out day b) (b # bs) out = out @ [\<lparr> cy_day = day, cy_bucket = fold (\<lambda>b sum. add_bucket sum b) bs b \<rparr>]"
proof -
  have first_push: "push_day out day b = out @ [\<lparr> cy_day = day, cy_bucket = b \<rparr>]"
    using assms last_in_set [of out] by (auto simp: push_day_def)
  have "fold (\<lambda>b out. push_day out day b) bs (out @ [\<lparr> cy_day = day, cy_bucket = c \<rparr>])
      = out @ [\<lparr> cy_day = day, cy_bucket = fold (\<lambda>b sum. add_bucket sum b) bs c \<rparr>]" for c
    by (induction bs arbitrary: c) (simp_all add: push_day_def)
  with first_push show ?thesis by simp
qed

lemma day_blocks:
  assumes "distinct (map cy_day out @ ds)" and "\<And>day. day \<in> set ds \<Longrightarrow> shards m r subject day \<noteq> []"
  shows "fold (\<lambda>x out. push_day out (fst x) (bucket_at lib m (shard_key r subject x)))
      (concat (map (\<lambda>day. map (Pair day) (shards m r subject day)) ds)) out
    = out @ map (\<lambda>day. \<lparr> cy_day = day, cy_bucket = day_total lib m r subject day \<rparr>) ds"
  using assms
proof (induction ds arbitrary: out)
  case (Cons day ds)
  obtain sh shs where sh: "shards m r subject day = sh # shs" using Cons.prems(2) [of day] by (cases "shards m r subject day") auto
  let ?b = "\<lambda>sh. bucket_at lib m (counter_key r subject day sh)"
  have "fold (\<lambda>x out. push_day out (fst x) (bucket_at lib m (shard_key r subject x))) (map (Pair day) (shards m r subject day)) out
      = fold (\<lambda>b out. push_day out day b) (?b sh # map ?b shs) out"
    by (simp add: sh fold_map comp_def shard_key_def)
  also have "\<dots> = out @ [\<lparr> cy_day = day, cy_bucket = day_total lib m r subject day \<rparr>]"
    using Cons.prems(1) by (subst day_block) (auto simp: day_total_def sh)
  finally show ?case using Cons by simp
qed simp

text \<open>The keys of a window in order: day by day, and in a day shard by shard.\<close>

lemma window_items:
  assumes "sorted_wrt (<) xs" and "set xs = {x. m (shard_key r subject x) \<noteq> None \<and> a \<le> fst x}"
  shows "filter (\<lambda>x. fst x \<le> b) xs = concat (map (\<lambda>day. map (Pair day) (shards m r subject day)) (counted_days m r subject a b))"
proof (rule sorted_distinct_set_unique)
  let ?ys = "concat (map (\<lambda>day. map (Pair day) (shards m r subject day)) (counted_days m r subject a b))"
  have "sorted_wrt (<) (concat (map (\<lambda>day. map (Pair day) (shards m r subject day)) ds))" if "sorted_wrt (<) ds" for ds
    using that by (induction ds) (auto simp: sorted_wrt_append sorted_wrt_map shards_def less_prod_def)
  then have s: "sorted_wrt (<) ?ys" by (simp add: counted_days_def)
  then show "sorted ?ys" "distinct ?ys" by (simp_all add: strict_sorted_iff)
  from assms(1) show "sorted (filter (\<lambda>x. fst x \<le> b) xs)" "distinct (filter (\<lambda>x. fst x \<le> b) xs)"
    by (simp_all add: strict_sorted_iff sorted_wrt_filter)
  have "shards m r subject day \<noteq> [] \<longleftrightarrow> (\<exists>sh. m (counter_key r subject day sh) \<noteq> None)" for day
    using set_shards [of m r subject day] by (metis (mono_tags, lifting) empty_Collect_eq set_empty)
  then show "set (filter (\<lambda>x. fst x \<le> b) xs) = set ?ys"
    by (fastforce simp: assms(2) set_shards counted_days_def shard_key_def)
qed

lemma sum_days_run:
  assumes e: "entries_ok lib m" and c: "countable subject" and mem: "\<And>x. x \<in> set xs \<Longrightarrow> m (shard_key r subject x) \<noteq> None"
  shows "sum_days lib (counters_of subject r) b (map (\<lambda>x. (shard_key r subject x, the (m (shard_key r subject x)))) xs) out
    = Inr (fold (\<lambda>x out. push_day out (fst x) (bucket_at lib m (shard_key r subject x))) (takeWhile (\<lambda>x. fst x \<le> b) xs) out)"
  using mem
proof (induction xs arbitrary: out)
  case (Cons x xs)
  from Cons.prems [of x] obtain v where v: "m (shard_key r subject x) = Some v" by auto
  with stored_bucket [OF e c, of r "fst x" "snd x" v]
  have "decode (lb_bucket lib) v ''CounterBucket'' = Inr (bucket_at lib m (shard_key r subject x))" by (simp add: shard_key_def)
  with Cons v show ?case by (cases x) (auto simp: counter_suffix_shard)
qed simp

lemma takeWhile_sorted:
  "sorted_wrt (<) xs \<Longrightarrow> takeWhile (\<lambda>x. fst x \<le> b) xs = filter (\<lambda>x. fst x \<le> b) (xs :: (u16 \<times> u16) list)"
proof (induction xs)
  case (Cons x xs)
  show ?case
  proof (cases "fst x \<le> b")
    case True
    with Cons show ?thesis by simp
  next
    case False
    with Cons.prems have "filter (\<lambda>x. fst x \<le> b) xs = []" unfolding filter_empty_conv by (fastforce simp: less_prod_def)
    with False show ?thesis by simp
  qed
qed simp

lemma filter_in_take:
  assumes "sorted_wrt (<) xs" and "length (filter (\<lambda>x. fst x \<le> b) xs) \<le> n"
  shows "filter (\<lambda>x. fst x \<le> b) (take n xs) = filter (\<lambda>x. fst x \<le> (b :: u16)) (xs :: (u16 \<times> u16) list)"
proof -
  have "takeWhile (\<lambda>x. fst x \<le> b) (take n xs) = take n (takeWhile (\<lambda>x. fst x \<le> b) xs)" by (induction xs arbitrary: n) (auto simp: take_Cons split: nat.splits)
  moreover have "sorted_wrt (<) (take n xs)" by (rule sorted_wrt_take [OF assms(1)])
  ultimately show ?thesis using assms by (simp add: takeWhile_sorted)
qed

text \<open>A window of \<open>days\<close> days: its last day, and how many keys it can hold.\<close>

definition last_day_of :: "u16 \<Rightarrow> u16 \<Rightarrow> u16" where
  "last_day_of a days = sat_add a (sat_sub days 1)"

lemma window_size:
  assumes "days \<noteq> 0" and few: "\<And>day. length (shards m r subject day) \<le> SHARD_SCAN_SLACK"
  shows "length (concat (map (\<lambda>day. map (Pair day) (shards m r subject day)) (counted_days m r subject a (last_day_of a days))))
    \<le> unat days * SHARD_SCAN_SLACK"
proof -
  let ?ds = "counted_days m r subject a (last_day_of a days)"
  have "length (concat (map (\<lambda>day. map (Pair day) (shards m r subject day)) ds)) \<le> length ds * SHARD_SCAN_SLACK" for ds
    using few by (induction ds) (auto intro: add_mono)
  moreover have "length ?ds \<le> unat days"
  proof -
    have "unat ` set ?ds \<subseteq> {unat a ..< unat a + unat days}"
    proof
      fix i assume "i \<in> unat ` set ?ds"
      then obtain day where day: "i = unat day" "a \<le> day" "day \<le> last_day_of a days" by (auto simp: counted_days_def)
      have "0 < unat days" using assms(1) by (simp add: unat_gt_0)
      moreover have "unat (last_day_of a days) \<le> unat a + (unat days - 1)"
        by (simp add: last_day_of_def unat_sat_add unat_sat_sub)
      ultimately show "i \<in> {unat a ..< unat a + unat days}"
        using day by (auto simp: word_le_nat_alt)
    qed
    then have "card (unat ` set ?ds) \<le> unat days" by (metis card_atLeastLessThan card_mono diff_add_inverse finite_atLeastLessThan)
    moreover have "card (unat ` set ?ds) = card (set ?ds)" by (rule card_image) (auto intro: inj_onI word_unat_eq_iff [THEN iffD2])
    moreover have "distinct ?ds" by (simp add: counted_days_def)
    note distinct_card [OF this]
    ultimately show ?thesis by simp
  qed
  ultimately show ?thesis by (meson le_trans mult_le_mono1)
qed

context registry_env
begin

lemma refines_counts:
  "refines holds may_fail (counts G repo a days (counters_of subject)) (\<lambda>m.
     if days = 0 then Inr []
     else case id_of m repo of
       None \<Rightarrow> Inr []
     | Some r \<Rightarrow> sum_days (rg_libs G) (counters_of subject r) (last_day_of a days)
         (pg_entries (scan_page m (counters_of subject r) (Some (counters_from_day (counters_of subject r) a)) (unat days * SHARD_SCAN_SLACK))) [])"
proof -
  have c: "under (counters_of subject r) (Some (counters_from_day (counters_of subject r) a))"
    "grouped (counters_of subject r) (Some (counters_from_day (counters_of subject r) a))" for r
    using resumable_counters [of subject r] by (simp_all add: under_def grouped_def resumable_def counters_from_day_def)
  show ?thesis
    unfolding counts_def Let_def
    by (rule refines_cong, (rule refines_intros refines_lookup_repo refines_scan c)+) (simp add: last_day_of_def split: option.split)
qed

end

lemma after_from_day: "after (Some (counters_from_day (counters_of subject r) a)) (shard_key r subject x) \<longleftrightarrow> a \<le> fst x"
  by (auto simp: after_def counters_from_day_def shard_key_eq key_codes append_less_eq_length le_less)

text \<open>
  C37. A window of counts holds exactly the days of the window that have any, in order, each with the sum of its shards: from the
  day asked for, as many days as asked for and no further than the last day there is. This needs no more than the four shards per
  day that the scan allows for; there is one writer today. No days, or an unknown repository, is an empty answer and not an error.
\<close>

theorem counts_window_exact:
  assumes env: "registry_env G tbl ok fails names ids" and at: "at_store tbl ok names ids (rg_libs G) m s"
    and c: "countable subject" and few: "\<And>r day. length (shards m r subject day) \<le> SHARD_SCAN_SLACK"
    and run: "(case subject of CountManifest d \<Rightarrow> manifest_counts G repo d a days | CountTag t \<Rightarrow> tag_counts G repo t a days
        | CountRepo \<Rightarrow> repo_counts G repo a days) s = (res, s')"
  shows "at_store tbl ok names ids (rg_libs G) m s' \<and> (case res of
      Inl e \<Rightarrow> engine_error fails e
    | Inr out \<Rightarrow> out = (if days = 0 then [] else case id_of m repo of
          None \<Rightarrow> []
        | Some r \<Rightarrow> map (\<lambda>day. \<lparr> cy_day = day, cy_bucket = day_total (rg_libs G) m r subject day \<rparr>)
            (counted_days m r subject a (last_day_of a days))))"
proof -
  let ?lib = "rg_libs G"
  have e: "entries_ok ?lib m" and fin: "finite (dom m)"
    using registry_env.holds_finite [OF env at] at by (simp_all add: at_store_def store_ok_def)
  have "(case subject of CountManifest d \<Rightarrow> manifest_counts G repo d a days | CountTag t \<Rightarrow> tag_counts G repo t a days
      | CountRepo \<Rightarrow> repo_counts G repo a days) = counts G repo a days (counters_of subject)"
  proof -
    have "counters_of (CountManifest d) = (\<lambda>r. counters_of_manifest r d)" "counters_of (CountTag t) = (\<lambda>r. counters_of_tag r t)"
      "counters_of CountRepo = counters_of_repo" for d t by (simp_all add: fun_eq_iff)
    then show ?thesis by (cases subject) (simp_all add: manifest_counts_def tag_counts_def repo_counts_def)
  qed
  note w = refines_run [OF registry_env.refines_counts [OF env] at run [unfolded this]]
  have days: "sum_days ?lib (counters_of subject r) (last_day_of a days)
      (pg_entries (scan_page m (counters_of subject r) (Some (counters_from_day (counters_of subject r) a)) (unat days * SHARD_SCAN_SLACK))) []
    = Inr (map (\<lambda>day. \<lparr> cy_day = day, cy_bucket = day_total ?lib m r subject day \<rparr>) (counted_days m r subject a (last_day_of a days)))"
    if "days \<noteq> 0" for r
  proof -
    let ?b = "last_day_of a days" and ?n = "unat days * SHARD_SCAN_SLACK"
    from item_range.page_items [OF counter_range [OF c, of r] e fin,
        where a = "Some (counters_from_day (counters_of subject r) a)" and n = ?n] obtain xs where
      xs: "lists_by (shard_key r subject) {x. True \<and> m (shard_key r subject x) \<noteq> None
            \<and> after (Some (counters_from_day (counters_of subject r) a)) (shard_key r subject x)} xs"
      and page: "pg_entries (scan_page m (counters_of subject r) (Some (counters_from_day (counters_of subject r) a)) ?n)
        = map (\<lambda>x. (shard_key r subject x, the (m (shard_key r subject x)))) (take ?n xs)" by (elim exE conjE) simp
    from xs have s: "sorted_wrt (<) xs" and set: "set xs = {x. m (shard_key r subject x) \<noteq> None \<and> a \<le> fst x}"
      by (simp_all add: lists_by_def shard_key_less after_from_day del: not_None_eq)
    note win = window_items [OF s set, of ?b]
    have all: "filter (\<lambda>x. fst x \<le> ?b) (take ?n xs) = filter (\<lambda>x. fst x \<le> ?b) xs"
      by (rule filter_in_take [OF s]) (unfold win, rule window_size [OF that few])
    have "m (shard_key r subject x) \<noteq> None" if "x \<in> set (take ?n xs)" for x
      using in_set_takeD [OF that] set by blast
    note sum_days_run [OF e c this]
    moreover have "distinct (map cy_day [] @ counted_days m r subject a ?b)"
      "\<And>day. day \<in> set (counted_days m r subject a ?b) \<Longrightarrow> shards m r subject day \<noteq> []"
      by (simp_all add: counted_days_def)
    note day_blocks [OF this, of ?lib]
    ultimately show ?thesis
      unfolding page by (simp add: takeWhile_sorted [OF sorted_wrt_take [OF s]] all win)
  qed
  with w show ?thesis by (auto split: sum.splits option.splits if_splits)
qed

definition demo_delta :: count_delta where
  "demo_delta = \<lparr> cd_repo = ''a'', cd_subject = CountRepo, cd_day = 3, cd_hour = 5, cd_manifest_pulls = 2, cd_blob_pulls = 0, cd_bytes_out = 7 \<rparr>"

theorem pull_counts_added_witness:
  "\<exists>s'. add_pull_counts demo_registry [demo_delta] demo_state = (Inr 1, s')"
proof -
  obtain res s' where run: "add_pull_counts demo_registry [demo_delta] demo_state = (res, s')" by fastforce
  have good: "countable (cd_subject x)" if "x \<in> set [demo_delta]" for x using that by (simp add: demo_delta_def)
  have "delta_key ` {x \<in> set [demo_delta]. id_of demo_store (cd_repo x) \<noteq> None} = {delta_key demo_delta}"
    by (auto simp: demo_delta_def)
  then have card: "card (delta_key ` {x \<in> set [demo_delta]. id_of demo_store (cd_repo x) \<noteq> None}) = 1" by simp
  from pull_counts_added [OF dr.registry_env_axioms at_store_demo good run]
  have "res = Inr 1" unfolding card by (cases res) (auto simp: engine_error_def)
  with run show ?thesis by simp
qed

lemma demo_flush:
  obtains s1 m1 where "add_pull_counts demo_registry [demo_delta] demo_state = (Inr 1, s1)"
    "at_store table_map (\<lambda>_. True) (\<lambda>c. map_of (fst c)) (\<lambda>c. map_of (snd c)) (rg_libs demo_registry) m1 s1"
    "id_of m1 ''a'' = Some 0" "\<forall>r day. shards m1 r CountRepo day = (if r = 0 \<and> day = 3 then [0] else [])"
proof -
  let ?lib = "demo_libs"
  have lib: "rg_libs demo_registry = demo_libs" by (simp add: demo_registry_def)
  obtain res s1 where run: "add_pull_counts demo_registry [demo_delta] demo_state = (res, s1)" by fastforce
  have good: "countable (cd_subject x)" if "x \<in> set [demo_delta]" for x using that by (simp add: demo_delta_def)
  have ops: "concat (map (count_ops ?lib demo_store) (fold_deltas [demo_delta]))
      = [Put (counter_repo_key 0 3 0) (stored_as (lb_bucket ?lib) (add_delta demo_delta (bucket_at ?lib demo_store (counter_repo_key 0 3 0))))]"
    by (simp add: fold_deltas_def delta_key_def demo_delta_def SHARD_def Let_def)
  obtain v where m1: "res = Inr 1" "at_store table_map (\<lambda>_. True) (\<lambda>c. map_of (fst c)) (\<lambda>c. map_of (snd c)) ?lib
      (demo_store(counter_repo_key 0 3 0 \<mapsto> v)) s1"
    using commits_run [OF dr.commits_add_pull_counts [OF good] at_store_demo run]
    by (cases res) (auto simp: engine_error_def lib Let_def ops)
  have none: "demo_store (counter_repo_key r day sh) = None" for r day sh
    by (simp add: demo_store_def one_repo_def key_defs)
  have "{sh. (demo_store(counter_repo_key 0 3 0 \<mapsto> v)) (counter_key r CountRepo day sh) \<noteq> None} = (if r = 0 \<and> day = 3 then {0} else {})" for r day
    by (auto simp: none) (simp_all add: key_defs key_codes)
  then have "shards (demo_store(counter_repo_key 0 3 0 \<mapsto> v)) r CountRepo day = (if r = 0 \<and> day = 3 then [0] else [])" for r day
    unfolding shards_def by simp
  moreover have "id_of (demo_store(counter_repo_key 0 3 0 \<mapsto> v)) ''a'' = Some 0"
    using demo_at(1) [of "''a''"] by (simp add: id_of_def key_defs)
  ultimately show ?thesis using that m1 run by (metis lib)
qed

theorem counts_window_exact_witness:
  "\<exists>s1 out s2. add_pull_counts demo_registry [demo_delta] demo_state = (Inr 1, s1)
    \<and> repo_counts demo_registry ''a'' 1 7 s1 = (Inr out, s2) \<and> map cy_day out = [3]"
proof -
  obtain s1 m1 where flush: "add_pull_counts demo_registry [demo_delta] demo_state = (Inr 1, s1)"
    and at: "at_store table_map (\<lambda>_. True) (\<lambda>c. map_of (fst c)) (\<lambda>c. map_of (snd c)) (rg_libs demo_registry) m1 s1"
    and id: "id_of m1 ''a'' = Some 0" and sh: "\<forall>r day. shards m1 r CountRepo day = (if r = 0 \<and> day = 3 then [0] else [])"
    by (rule demo_flush) blast
  obtain res s2 where run: "repo_counts demo_registry ''a'' 1 7 s1 = (res, s2)" by fastforce
  have few: "length (shards m1 r CountRepo day) \<le> SHARD_SCAN_SLACK" for r day by (simp add: sh SHARD_SCAN_SLACK_def)
  have "unat (last_day_of 1 7) = 7" by (simp add: last_day_of_def unat_sat_add unat_sat_sub)
  then have l: "last_day_of 1 7 = 7" by (simp add: word_unat_eq_iff)
  have "{day. 1 \<le> day \<and> day \<le> last_day_of 1 7 \<and> shards m1 0 CountRepo day \<noteq> []} = {3}"
    unfolding l by (auto simp: sh)
  then have "counted_days m1 0 CountRepo 1 (last_day_of 1 7) = [3]" unfolding counted_days_def by simp
  with counts_window_exact [OF dr.registry_env_axioms at _ few, where repo = "''a''" and a = 1 and days = 7 and res = res and s' = s2]
    run id obtain out where "res = Inr out" "map cy_day out = [3]"
    by (cases res) (auto simp: engine_error_def)
  with flush run show ?thesis by fastforce
qed
end
