(* ===== verification/Summ_Disk.thy ===== *)
theory Summ_Disk
  imports Summ_Text
begin

text \<open>
  The file system, as far as \<open>summ-storage\<close> and \<open>backend.rs\<close> use it through \<open>std::fs\<close> and \<open>tokio::fs\<close>.

  A disk maps paths to directories and files, and files to their contents; an open file is the number of its contents, so that it
  survives a rename and the removal of its name. Next to the current names and contents stand those that have been
  synced, from which a crash starts. Every call takes the next of a list of verdicts, by which a disk can fail, transfer
  less than was asked for, or be interrupted; a call that fails this way changes nothing. When the list is empty,
  calls succeed. What is proved for every disk is so proved for every finite pattern of faults.
\<close>

section \<open>Disks\<close>

type_synonym path = "string list"

datatype node = Directory | File nat

datatype io_error = IoNotFound | IoAlreadyExists | IoInterrupted | IoWriteZero | IoUnexpectedEof | IoOther

datatype verdict = Proceed | Partially nat | Interrupts | Breaks

record disk =
  dk_names :: "path \<Rightarrow> node option"
  dk_data :: "nat \<Rightarrow> bytes"
  dk_kept :: "path \<Rightarrow> node option"
  dk_flushed :: "nat \<Rightarrow> bytes"
  dk_fresh :: nat
  dk_verdicts :: "verdict list"

type_synonym 'a io = "(disk, io_error, 'a) action"

definition MAX_FILE :: nat where "MAX_FILE = 2 ^ 63 - 1"

definition take_verdict :: "disk \<Rightarrow> verdict \<times> disk" where
  "take_verdict k = (case dk_verdicts k of [] \<Rightarrow> (Proceed, k) | v # vs \<Rightarrow> (v, k\<lparr>dk_verdicts := vs\<rparr>))"

text \<open>Calls that transfer no data are restarted by the standard library when they are interrupted.\<close>

definition syscall :: "(disk \<Rightarrow> (io_error + 'a) \<times> disk) \<Rightarrow> 'a io" where
  "syscall f = (\<lambda>k. case take_verdict k of (v, k') \<Rightarrow> if v = Breaks then (Inl IoOther, k') else f k')"

text \<open>A path is found when all directories on the way are there.\<close>

definition ancestors :: "path \<Rightarrow> path list" where
  "ancestors p = map (\<lambda>n. take n p) [0..<length p]"

definition find_node :: "disk \<Rightarrow> path \<Rightarrow> node option" where
  "find_node k p = (if \<forall>q \<in> set (ancestors p). dk_names k q = Some Directory then dk_names k p else None)"

definition parent :: "path \<Rightarrow> path" where
  "parent p = butlast p"

section \<open>Calls on names\<close>

definition fs_node :: "path \<Rightarrow> node io" where
  "fs_node p = syscall (\<lambda>k. (ok_or IoNotFound (find_node k p), k))"

definition fs_open :: "path \<Rightarrow> nat io" where
  "fs_open p = syscall (\<lambda>k. (case find_node k p of
       None \<Rightarrow> Inl IoNotFound | Some Directory \<Rightarrow> Inl IoOther | Some (File i) \<Rightarrow> Inr i, k))"

definition fs_try_exists :: "path \<Rightarrow> bool io" where
  "fs_try_exists p = syscall (\<lambda>k. (Inr (find_node k p \<noteq> None), k))"

text \<open>\<open>Path::is_dir\<close> answers \<open>false\<close> when the question cannot be put.\<close>

definition fs_is_dir :: "path \<Rightarrow> bool io" where
  "fs_is_dir p = (\<lambda>k. case fs_node p k of (r, k') \<Rightarrow> (Inr (r = Inr Directory), k'))"

definition fs_create_dir :: "path \<Rightarrow> unit io" where
  "fs_create_dir p = syscall (\<lambda>k.
     if find_node k p \<noteq> None then (Inl IoAlreadyExists, k)
     else if p = [] \<or> find_node k (parent p) \<noteq> Some Directory then (Inl IoNotFound, k)
     else (Inr (), k\<lparr>dk_names := (dk_names k)(p \<mapsto> Directory)\<rparr>))"

definition fs_create_new :: "path \<Rightarrow> nat io" where
  "fs_create_new p = syscall (\<lambda>k.
     if find_node k p \<noteq> None then (Inl IoAlreadyExists, k)
     else if p = [] \<or> find_node k (parent p) \<noteq> Some Directory then (Inl IoNotFound, k)
     else
       (Inr (dk_fresh k),
        k\<lparr>dk_names := (dk_names k)(p \<mapsto> File (dk_fresh k)), dk_data := (dk_data k)(dk_fresh k := []), dk_fresh := dk_fresh k + 1\<rparr>))"

definition fs_rename :: "path \<Rightarrow> path \<Rightarrow> unit io" where
  "fs_rename p q = syscall (\<lambda>k.
     case find_node k p of
       Some (File i) \<Rightarrow>
         (case find_node k q of
            Some Directory \<Rightarrow> (Inl IoOther, k)
          | _ \<Rightarrow>
              if q = [] \<or> find_node k (parent q) \<noteq> Some Directory then (Inl IoNotFound, k)
              else (Inr (), k\<lparr>dk_names := (dk_names k)(p := None, q \<mapsto> File i)\<rparr>))
     | Some Directory \<Rightarrow> (Inl IoOther, k)
     | None \<Rightarrow> (Inl IoNotFound, k))"

definition fs_remove_file :: "path \<Rightarrow> unit io" where
  "fs_remove_file p = syscall (\<lambda>k.
     case find_node k p of
       Some (File i) \<Rightarrow> (Inr (), k\<lparr>dk_names := (dk_names k)(p := None)\<rparr>)
     | Some Directory \<Rightarrow> (Inl IoOther, k)
     | None \<Rightarrow> (Inl IoNotFound, k))"

text \<open>\<open>fsync_dir\<close> of \<open>paths.rs\<close>: syncing a directory makes its entries durable.\<close>

definition fs_sync_dir :: "path \<Rightarrow> unit io" where
  "fs_sync_dir p = syscall (\<lambda>k.
     case find_node k p of
       None \<Rightarrow> (Inl IoNotFound, k)
     | Some (File i) \<Rightarrow> (Inr (), k\<lparr>dk_flushed := (dk_flushed k)(i := dk_data k i)\<rparr>)
     | Some Directory \<Rightarrow> (Inr (), k\<lparr>dk_kept := (\<lambda>q. if q \<noteq> [] \<and> parent q = p then dk_names k q else dk_kept k q)\<rparr>))"

section \<open>Calls on open files\<close>

definition fs_len :: "nat \<Rightarrow> u64 io" where
  "fs_len i = syscall (\<lambda>k. (Inr (word_of_nat (length (dk_data k i))), k))"

definition set_data :: "nat \<Rightarrow> bytes \<Rightarrow> disk \<Rightarrow> disk" where
  "set_data i b k = k\<lparr>dk_data := (dk_data k)(i := b)\<rparr>"

definition resized :: "nat \<Rightarrow> bytes \<Rightarrow> bytes" where
  "resized n b = take n b @ replicate (n - length b) 0"

definition fs_set_len :: "nat \<Rightarrow> u64 \<Rightarrow> unit io" where
  "fs_set_len i n = syscall (\<lambda>k.
     if MAX_FILE < unat n then (Inl IoOther, k) else (Inr (), set_data i (resized (unat n) (dk_data k i)) k))"

definition fs_sync_file :: "nat \<Rightarrow> unit io" where
  "fs_sync_file i = syscall (\<lambda>k. (Inr (), k\<lparr>dk_flushed := (dk_flushed k)(i := dk_data k i)\<rparr>))"

text \<open>\<open>write_at\<close> and \<open>read_at\<close> may transfer less than they are asked to, and an interruption is returned.\<close>

definition transferred :: "verdict \<Rightarrow> nat \<Rightarrow> nat" where
  "transferred v n = (case v of Partially m \<Rightarrow> min m n | _ \<Rightarrow> n)"

definition overwritten :: "bytes \<Rightarrow> nat \<Rightarrow> bytes \<Rightarrow> bytes" where
  "overwritten old at new = resized at old @ new @ drop (at + length new) old"

definition fs_write_at :: "nat \<Rightarrow> bytes \<Rightarrow> u64 \<Rightarrow> nat io" where
  "fs_write_at i buf at = (\<lambda>k.
     case take_verdict k of (v, k') \<Rightarrow>
       if v = Breaks \<or> MAX_FILE < unat at + length buf then (Inl IoOther, k')
       else if v = Interrupts then (Inl IoInterrupted, k')
       else
         let n = transferred v (length buf)
         in (Inr n, set_data i (overwritten (dk_data k' i) (unat at) (take n buf)) k'))"

definition fs_read_at :: "nat \<Rightarrow> nat \<Rightarrow> u64 \<Rightarrow> bytes io" where
  "fs_read_at i want at = (\<lambda>k.
     case take_verdict k of (v, k') \<Rightarrow>
       if v = Breaks then (Inl IoOther, k')
       else if v = Interrupts then (Inl IoInterrupted, k')
       else (Inr (take (transferred v want) (drop (unat at) (dk_data k' i))), k'))"

section \<open>The loops over partial transfers\<close>

text \<open>An interruption uses up a verdict, a transfer makes the rest shorter: both loops end.\<close>

lemma take_verdict_verdicts:
  assumes "take_verdict k = (v, k')"
  shows "length (dk_verdicts k') \<le> length (dk_verdicts k)"
    and "v \<noteq> Proceed \<Longrightarrow> length (dk_verdicts k') < length (dk_verdicts k)"
  using assms by (auto simp: take_verdict_def split: list.splits)

lemma write_at_verdicts:
  "fs_write_at i buf at k = (Inl IoInterrupted, k') \<Longrightarrow> length (dk_verdicts k') < length (dk_verdicts k)"
  "fs_write_at i buf at k = (r, k') \<Longrightarrow> length (dk_verdicts k') \<le> length (dk_verdicts k)"
  by (auto simp: fs_write_at_def Let_def set_data_def split: prod.splits if_splits
      dest: take_verdict_verdicts)

lemma read_at_verdicts:
  "fs_read_at i want at k = (Inl IoInterrupted, k') \<Longrightarrow> length (dk_verdicts k') < length (dk_verdicts k)"
  "fs_read_at i want at k = (r, k') \<Longrightarrow> length (dk_verdicts k') \<le> length (dk_verdicts k)"
  by (auto simp: fs_read_at_def split: prod.splits if_splits dest: take_verdict_verdicts)

text \<open>\<open>write_all_at\<close> of \<open>upload.rs\<close>.\<close>

function write_all_at :: "nat \<Rightarrow> u64 \<Rightarrow> bytes \<Rightarrow> unit io" where
  "write_all_at i at buf k =
     (if buf = [] then (Inr (), k)
      else
        case fs_write_at i buf at k of
          (Inr n, k') \<Rightarrow>
            if n = 0 then (Inl IoWriteZero, k') else write_all_at i (at + word_of_nat n) (drop n buf) k'
        | (Inl IoInterrupted, k') \<Rightarrow> write_all_at i at buf k'
        | (Inl e, k') \<Rightarrow> (Inl e, k'))"
  by pat_completeness auto
termination
proof (relation "measure (\<lambda>(i, at, buf, k). length buf + length (dk_verdicts k))", goal_cases)
  case (2 i at buf k res k' e)
  then show ?case using write_at_verdicts(1) [of i buf at k k'] by auto
next
  case (3 i at buf k res k' n)
  then show ?case using write_at_verdicts(2) [of i buf at k res k'] by (cases buf) auto
qed simp

declare write_all_at.simps [simp del]

text \<open>\<open>read_exact_at\<close> of \<open>read.rs\<close>; that of the standard library, which \<open>rehash\<close> calls, is the same loop.\<close>

function read_exact_at :: "nat \<Rightarrow> u64 \<Rightarrow> nat \<Rightarrow> bytes io" where
  "read_exact_at i at want k =
     (if want = 0 then (Inr [], k)
      else
        case fs_read_at i want at k of
          (Inr part, k') \<Rightarrow>
            if part = [] then (Inl IoUnexpectedEof, k')
            else
              (case read_exact_at i (at + word_of_nat (length part)) (want - length part) k' of
                 (Inr rest, k'') \<Rightarrow> (Inr (part @ rest), k'')
               | (Inl e, k'') \<Rightarrow> (Inl e, k''))
        | (Inl IoInterrupted, k') \<Rightarrow> read_exact_at i at want k'
        | (Inl e, k') \<Rightarrow> (Inl e, k'))"
  by pat_completeness auto
termination
proof (relation "measure (\<lambda>(i, at, want, k). want + length (dk_verdicts k))", goal_cases)
  case (2 i at want k res k' e)
  then show ?case using read_at_verdicts(1) [of i want at k k'] by auto
next
  case (3 i at want k res k' part)
  then show ?case using read_at_verdicts(2) [of i want at k res k'] by (cases part) auto
qed simp

declare read_exact_at.simps [simp del]

section \<open>Well-formed disks\<close>

text \<open>Names form a tree of directories, a file has one name, and no file is longer than the system allows.\<close>

definition disk_ok :: "disk \<Rightarrow> bool" where
  "disk_ok k \<longleftrightarrow> dk_names k [] = Some Directory
     \<and> (\<forall>p. dk_names k p \<noteq> None \<longrightarrow> (\<forall>q \<in> set (ancestors p). dk_names k q = Some Directory))
     \<and> (\<forall>p q i. dk_names k p = Some (File i) \<longrightarrow> dk_names k q = Some (File i) \<longrightarrow> p = q)
     \<and> (\<forall>p i. dk_names k p = Some (File i) \<longrightarrow> i < dk_fresh k)
     \<and> (\<forall>i. length (dk_data k i) \<le> MAX_FILE)"

text \<open>\<open>faulty\<close> says whether calls may fail, transfer less or be interrupted.\<close>

definition disk_env :: "bool \<Rightarrow> disk \<Rightarrow> bool" where
  "disk_env faulty k \<longleftrightarrow> disk_ok k \<and> (faulty \<or> dk_verdicts k = [])"

text \<open>Equal but for the verdicts to come.\<close>

definition same_disk :: "disk \<Rightarrow> disk \<Rightarrow> bool" where
  "same_disk k k' \<longleftrightarrow> dk_names k' = dk_names k \<and> dk_data k' = dk_data k \<and> dk_kept k' = dk_kept k
     \<and> dk_flushed k' = dk_flushed k \<and> dk_fresh k' = dk_fresh k"

lemma same_disk_simps:
  assumes "same_disk k k'"
  shows "dk_names k' = dk_names k" "dk_data k' = dk_data k" "dk_kept k' = dk_kept k" "dk_flushed k' = dk_flushed k"
    "dk_fresh k' = dk_fresh k"
  using assms by (simp_all add: same_disk_def)

lemma same_disk_refl [simp]: "same_disk k k"
  by (simp add: same_disk_def)

lemma same_disk_trans: "same_disk k k' \<Longrightarrow> same_disk k' k'' \<Longrightarrow> same_disk k k''"
  by (simp add: same_disk_def)

lemma disk_ok_same: "disk_ok k \<Longrightarrow> same_disk k k' \<Longrightarrow> disk_ok k'"
  by (simp add: disk_ok_def same_disk_def)

lemma ancestors_simps [simp]: "ancestors [] = []" "ancestors (p @ [c]) = ancestors p @ [p]"
  by (simp_all add: ancestors_def)

lemma disk_okD:
  assumes "disk_ok k"
  shows "dk_names k [] = Some Directory"
    and "dk_names k p \<noteq> None \<Longrightarrow> q \<in> set (ancestors p) \<Longrightarrow> dk_names k q = Some Directory"
    and "dk_names k p = Some (File i) \<Longrightarrow> dk_names k q = Some (File i) \<Longrightarrow> p = q"
    and "dk_names k p = Some (File i) \<Longrightarrow> i < dk_fresh k"
    and "length (dk_data k i) \<le> MAX_FILE"
  using assms unfolding disk_ok_def by blast+

lemma find_node_ok: "disk_ok k \<Longrightarrow> find_node k p = dk_names k p"
  using disk_okD(2) [of k p] by (cases "dk_names k p") (auto simp: find_node_def)

lemma parent_ancestors: "p \<noteq> [] \<Longrightarrow> set (ancestors p) = insert (parent p) (set (ancestors (parent p)))"
  by (cases p rule: rev_cases) (simp_all add: parent_def)

text \<open>Adding a name below a directory, and removing the name of a file.\<close>

lemma disk_ok_add:
  assumes "disk_ok k" and "p \<noteq> []" and "dk_names k (parent p) = Some Directory" and "dk_names k p \<noteq> Some Directory"
    and "\<And>i. n = File i \<Longrightarrow> i < f \<and> (\<forall>q. dk_names k q = Some (File i) \<longrightarrow> q = p)" and "dk_fresh k \<le> f"
    and "\<forall>i. length (d i) \<le> MAX_FILE"
  shows "disk_ok (k\<lparr>dk_names := (dk_names k)(p \<mapsto> n), dk_data := d, dk_fresh := f\<rparr>)"
proof -
  note D = disk_okD [OF assms(1)]
  have tree: "((dk_names k)(p \<mapsto> n)) r = Some Directory" if "((dk_names k)(p \<mapsto> n)) q \<noteq> None" "r \<in> set (ancestors q)" for q r
  proof (cases "q = p")
    case True
    have "r \<noteq> p" using that(2) by (auto simp: ancestors_def True)
    moreover have "dk_names k r = Some Directory"
      using that(2) D(2) [of "parent p"] assms(2,3) by (auto simp: True parent_ancestors)
    ultimately show ?thesis by simp
  next
    case False
    with that D(2) [of q r] have "dk_names k r = Some Directory" by simp
    with assms(4) show ?thesis by auto
  qed
  have one: "q = r" if "((dk_names k)(p \<mapsto> n)) q = Some (File i)" "((dk_names k)(p \<mapsto> n)) r = Some (File i)" for q r i
    using that assms(5) D(3) by (cases "q = p"; cases "r = p") auto
  have fresh: "i < f" if "((dk_names k)(p \<mapsto> n)) q = Some (File i)" for q i
    using that assms(5,6) D(4) [of q i] by (cases "q = p") auto
  have root: "((dk_names k)(p \<mapsto> n)) [] = Some Directory" using D(1) assms(2) by simp
  let ?k = "k\<lparr>dk_names := (dk_names k)(p \<mapsto> n), dk_data := d, dk_fresh := f\<rparr>"
  have sel: "dk_names ?k = (dk_names k)(p \<mapsto> n)" "dk_data ?k = d" "dk_fresh ?k = f" by simp_all
  show ?thesis
    unfolding disk_ok_def sel
    by (intro conjI allI impI ballI root assms(7) [rule_format]) ((erule (1) tree one) | erule fresh)+
qed

lemma disk_ok_add_name:
  assumes "disk_ok k" and "p \<noteq> []" and "dk_names k (parent p) = Some Directory" and "dk_names k p \<noteq> Some Directory"
    and "\<And>i. n = File i \<Longrightarrow> i < dk_fresh k \<and> (\<forall>q. dk_names k q = Some (File i) \<longrightarrow> q = p)"
  shows "disk_ok (k\<lparr>dk_names := (dk_names k)(p \<mapsto> n)\<rparr>)"
proof -
  have "disk_ok (k\<lparr>dk_names := (dk_names k)(p \<mapsto> n), dk_data := dk_data k, dk_fresh := dk_fresh k\<rparr>)"
    using assms disk_okD(5) [OF assms(1)] by (intro disk_ok_add) auto
  moreover have "k\<lparr>dk_names := m, dk_data := dk_data k, dk_fresh := dk_fresh k\<rparr> = k\<lparr>dk_names := m\<rparr>" for m
    by (cases k) simp
  ultimately show ?thesis by simp
qed

lemma disk_ok_remove:
  assumes "disk_ok k" and "dk_names k p = Some (File i)"
  shows "disk_ok (k\<lparr>dk_names := (dk_names k)(p := None)\<rparr>)"
  using assms unfolding disk_ok_def by auto

lemma disk_ok_data:
  assumes "disk_ok k" and "length b \<le> MAX_FILE"
  shows "disk_ok (set_data i b k)"
  using assms by (auto simp: disk_ok_def set_data_def)

section \<open>What the calls do\<close>

lemma wp_syscall:
  assumes "disk_env faulty k"
    and "\<And>k'. disk_env faulty k' \<Longrightarrow> same_disk k k' \<Longrightarrow> wp f Q X k'"
    and "\<And>k'. faulty \<Longrightarrow> disk_env faulty k' \<Longrightarrow> same_disk k k' \<Longrightarrow> X IoOther k'"
  shows "wp (syscall f) Q X k"
proof -
  obtain v k' where v: "take_verdict k = (v, k')" by fastforce
  then have same: "same_disk k k'" by (auto simp: take_verdict_def same_disk_def split: list.splits)
  have env: "disk_env faulty k'"
    using assms(1) disk_ok_same [OF _ same] v by (auto simp: disk_env_def take_verdict_def split: list.splits)
  have "v = Breaks \<Longrightarrow> faulty" using assms(1) v by (auto simp: disk_env_def take_verdict_def split: list.splits)
  with assms(2) [OF env same] assms(3) [OF _ env same] show ?thesis
    by (auto simp: wp_def syscall_def v)
qed

lemma disk_env_ok: "disk_env faulty k \<Longrightarrow> disk_ok k"
  by (simp add: disk_env_def)

lemma disk_env_update: "disk_env faulty k \<Longrightarrow> disk_ok k' \<Longrightarrow> dk_verdicts k' = dk_verdicts k \<Longrightarrow> disk_env faulty k'"
  by (simp add: disk_env_def)

text \<open>A call that only looks.\<close>

lemma wp_look:
  assumes "disk_env faulty k"
    and "\<And>k'. disk_env faulty k' \<Longrightarrow> same_disk k k' \<Longrightarrow> (case g k' of Inr a \<Rightarrow> Q a k' | Inl e \<Rightarrow> X e k')"
    and "\<And>k'. faulty \<Longrightarrow> disk_env faulty k' \<Longrightarrow> same_disk k k' \<Longrightarrow> X IoOther k'"
  shows "wp (syscall (\<lambda>k. (g k, k))) Q X k"
  by (rule wp_syscall [OF assms(1)]) (use assms(2,3) in \<open>auto simp: wp_def split: sum.split\<close>)

lemma wp_fs_node:
  assumes "disk_env faulty k"
    and "\<And>k' n. disk_env faulty k' \<Longrightarrow> same_disk k k' \<Longrightarrow> dk_names k p = Some n \<Longrightarrow> Q n k'"
    and "\<And>k'. disk_env faulty k' \<Longrightarrow> same_disk k k' \<Longrightarrow> dk_names k p = None \<Longrightarrow> X IoNotFound k'"
    and "\<And>k'. faulty \<Longrightarrow> disk_env faulty k' \<Longrightarrow> same_disk k k' \<Longrightarrow> X IoOther k'"
  shows "wp (fs_node p) Q X k"
  unfolding fs_node_def
  by (rule wp_look [OF assms(1)])
    (use assms(2-4) in \<open>auto simp: find_node_ok disk_env_ok same_disk_simps ok_or_def split: option.split\<close>)

lemma wp_fs_open:
  assumes "disk_env faulty k"
    and "\<And>k' i. disk_env faulty k' \<Longrightarrow> same_disk k k' \<Longrightarrow> dk_names k p = Some (File i) \<Longrightarrow> Q i k'"
    and "\<And>k'. disk_env faulty k' \<Longrightarrow> same_disk k k' \<Longrightarrow> dk_names k p = None \<Longrightarrow> X IoNotFound k'"
    and "\<And>k'. faulty \<or> dk_names k p = Some Directory \<Longrightarrow> disk_env faulty k' \<Longrightarrow> same_disk k k' \<Longrightarrow> X IoOther k'"
  shows "wp (fs_open p) Q X k"
  unfolding fs_open_def
  by (rule wp_look [OF assms(1)])
    (use assms(2-4) in \<open>auto simp: find_node_ok disk_env_ok same_disk_simps split: option.split node.split\<close>)

lemma wp_fs_try_exists:
  assumes "disk_env faulty k"
    and "\<And>k'. disk_env faulty k' \<Longrightarrow> same_disk k k' \<Longrightarrow> Q (dk_names k p \<noteq> None) k'"
    and "\<And>k'. faulty \<Longrightarrow> disk_env faulty k' \<Longrightarrow> same_disk k k' \<Longrightarrow> X IoOther k'"
  shows "wp (fs_try_exists p) Q X k"
  unfolding fs_try_exists_def
  by (rule wp_look [OF assms(1)])
    (use assms(2,3) in \<open>auto simp: find_node_ok disk_env_ok same_disk_simps\<close>)

lemma wp_fs_len:
  assumes "disk_env faulty k"
    and "\<And>k'. disk_env faulty k' \<Longrightarrow> same_disk k k' \<Longrightarrow> Q (word_of_nat (length (dk_data k i))) k'"
    and "\<And>k'. faulty \<Longrightarrow> disk_env faulty k' \<Longrightarrow> same_disk k k' \<Longrightarrow> X IoOther k'"
  shows "wp (fs_len i) Q X k"
  unfolding fs_len_def
  by (rule wp_look [OF assms(1)]) (use assms(2,3) in \<open>auto simp: same_disk_simps\<close>)

text \<open>Calls that change the disk: the state after them is the one written out, up to the verdicts.\<close>

lemma wp_change:
  assumes "disk_env faulty k"
    and "\<And>k'. disk_env faulty k' \<Longrightarrow> same_disk k k' \<Longrightarrow> f k' = (Inr a, g k')"
    and "\<And>k'. disk_ok k' \<Longrightarrow> same_disk k k' \<Longrightarrow> disk_ok (g k') \<and> same_disk (g k) (g k') \<and> dk_verdicts (g k') = dk_verdicts k'"
    and "\<And>k'. disk_env faulty k' \<Longrightarrow> same_disk (g k) k' \<Longrightarrow> Q a k'"
    and "\<And>k'. faulty \<Longrightarrow> disk_env faulty k' \<Longrightarrow> same_disk k k' \<Longrightarrow> X IoOther k'"
  shows "wp (syscall f) Q X k"
proof (rule wp_syscall [OF assms(1)])
  fix k' assume k': "disk_env faulty k'" "same_disk k k'"
  with assms(3) disk_env_ok have "disk_ok (g k')" "same_disk (g k) (g k')" "dk_verdicts (g k') = dk_verdicts k'" by blast+
  then have "Q a (g k')" using assms(4) disk_env_update [OF k'(1)] by blast
  then show "wp f Q X k'" by (simp add: wp_def assms(2) [OF k'])
qed (use assms(5) in auto)

lemma wp_fs_create_new:
  assumes "disk_env faulty k" and "dk_names k p = None" and "p \<noteq> []" and "dk_names k (parent p) = Some Directory"
    and "\<And>k'. disk_env faulty k' \<Longrightarrow>
      same_disk (k\<lparr>dk_names := (dk_names k)(p \<mapsto> File (dk_fresh k)), dk_data := (dk_data k)(dk_fresh k := []),
                   dk_fresh := dk_fresh k + 1\<rparr>) k' \<Longrightarrow> Q (dk_fresh k) k'"
    and "\<And>k'. faulty \<Longrightarrow> disk_env faulty k' \<Longrightarrow> same_disk k k' \<Longrightarrow> X IoOther k'"
  shows "wp (fs_create_new p) Q X k"
  unfolding fs_create_new_def
proof (rule wp_change [where a = "dk_fresh k" and g = "\<lambda>k. k\<lparr>dk_names := (dk_names k)(p \<mapsto> File (dk_fresh k)),
    dk_data := (dk_data k)(dk_fresh k := []), dk_fresh := dk_fresh k + 1\<rparr>", OF assms(1)], goal_cases)
  case (1 k')
  then show ?case using assms(2-4) by (simp add: find_node_ok disk_env_ok same_disk_simps)
next
  case (2 k')
  have "disk_ok (k'\<lparr>dk_names := (dk_names k')(p \<mapsto> File (dk_fresh k')), dk_data := (dk_data k')(dk_fresh k' := []),
      dk_fresh := dk_fresh k' + 1\<rparr>)"
    using disk_okD(4,5) [OF 2(1)] assms(2-4) 2 by (intro disk_ok_add) (auto simp: same_disk_simps)
  with 2 show ?case by (simp add: same_disk_def)
qed (use assms(5,6) in auto)

lemma wp_fs_create_dir:
  assumes "disk_env faulty k" and "dk_names k p = None" and "p \<noteq> []" and "dk_names k (parent p) = Some Directory"
    and "\<And>k'. disk_env faulty k' \<Longrightarrow> same_disk (k\<lparr>dk_names := (dk_names k)(p \<mapsto> Directory)\<rparr>) k' \<Longrightarrow> Q () k'"
    and "\<And>k'. faulty \<Longrightarrow> disk_env faulty k' \<Longrightarrow> same_disk k k' \<Longrightarrow> X IoOther k'"
  shows "wp (fs_create_dir p) Q X k"
  unfolding fs_create_dir_def
proof (rule wp_change [where a = "()" and g = "\<lambda>k. k\<lparr>dk_names := (dk_names k)(p \<mapsto> Directory)\<rparr>", OF assms(1)], goal_cases)
  case (1 k')
  then show ?case using assms(2-4) by (simp add: find_node_ok disk_env_ok same_disk_simps)
next
  case (2 k')
  have "disk_ok (k'\<lparr>dk_names := (dk_names k')(p \<mapsto> Directory)\<rparr>)"
    using assms(2-4) 2 by (intro disk_ok_add_name) (auto simp: same_disk_simps)
  with 2 show ?case by (simp add: same_disk_def)
qed (use assms(5,6) in auto)

lemma wp_fs_rename:
  assumes "disk_env faulty k" and "dk_names k p = Some (File i)" and "dk_names k q \<noteq> Some Directory" and "q \<noteq> []"
    and "dk_names k (parent q) = Some Directory"
    and "\<And>k'. disk_env faulty k' \<Longrightarrow> same_disk (k\<lparr>dk_names := (dk_names k)(p := None, q \<mapsto> File i)\<rparr>) k' \<Longrightarrow> Q () k'"
    and "\<And>k'. faulty \<Longrightarrow> disk_env faulty k' \<Longrightarrow> same_disk k k' \<Longrightarrow> X IoOther k'"
  shows "wp (fs_rename p q) Q X k"
  unfolding fs_rename_def
proof (rule wp_change [where a = "()" and g = "\<lambda>k. k\<lparr>dk_names := (dk_names k)(p := None, q \<mapsto> File i)\<rparr>", OF assms(1)], goal_cases)
  case (1 k')
  then show ?case using assms(2-5)
    by (auto simp: find_node_ok disk_env_ok same_disk_simps split: option.split node.split)
next
  case (2 k')
  let ?k = "k'\<lparr>dk_names := (dk_names k')(p := None)\<rparr>"
  have "disk_ok ?k" using disk_ok_remove [OF 2(1)] assms(2) 2 by (simp add: same_disk_simps)
  moreover have "parent q \<noteq> p" using assms(2,5) by auto
  ultimately have "disk_ok (?k\<lparr>dk_names := (dk_names ?k)(q \<mapsto> File i)\<rparr>)"
    using disk_okD(3,4) [OF 2(1)] assms(2-5) 2 by (intro disk_ok_add_name) (auto simp: same_disk_simps)
  with 2 show ?case by (simp add: same_disk_def)
qed (use assms(6,7) in auto)

lemma wp_fs_remove_file:
  assumes "disk_env faulty k" and "dk_names k p \<noteq> Some Directory"
    and "\<And>k' i. disk_env faulty k' \<Longrightarrow> dk_names k p = Some (File i) \<Longrightarrow>
      same_disk (k\<lparr>dk_names := (dk_names k)(p := None)\<rparr>) k' \<Longrightarrow> Q () k'"
    and "\<And>k'. disk_env faulty k' \<Longrightarrow> same_disk k k' \<Longrightarrow> dk_names k p = None \<Longrightarrow> X IoNotFound k'"
    and "\<And>k'. faulty \<Longrightarrow> disk_env faulty k' \<Longrightarrow> same_disk k k' \<Longrightarrow> X IoOther k'"
  shows "wp (fs_remove_file p) Q X k"
proof (cases "dk_names k p")
  case None
  with assms show ?thesis
    unfolding fs_remove_file_def
    by (intro wp_syscall [OF assms(1)]) (auto simp: wp_def find_node_ok disk_env_ok same_disk_simps)
next
  case (Some n)
  with assms(2) obtain i where i: "dk_names k p = Some (File i)" by (cases n) auto
  show ?thesis
    unfolding fs_remove_file_def
  proof (rule wp_change [where a = "()" and g = "\<lambda>k. k\<lparr>dk_names := (dk_names k)(p := None)\<rparr>", OF assms(1)], goal_cases)
    case (1 k')
    then show ?case using i by (simp add: find_node_ok disk_env_ok same_disk_simps)
  next
    case (2 k')
    with i disk_ok_remove [OF 2(1)] show ?case by (simp add: same_disk_def)
  qed (use assms(3) [OF _ i] assms(5) in auto)
qed

lemma disk_ok_kept: "disk_ok (k\<lparr>dk_kept := f\<rparr>) = disk_ok k" "disk_ok (k\<lparr>dk_flushed := g\<rparr>) = disk_ok k"
  by (simp_all add: disk_ok_def)

lemma wp_fs_sync_dir:
  assumes "disk_env faulty k" and "dk_names k p = Some Directory"
    and "\<And>k'. disk_env faulty k' \<Longrightarrow>
      same_disk (k\<lparr>dk_kept := (\<lambda>q. if q \<noteq> [] \<and> parent q = p then dk_names k q else dk_kept k q)\<rparr>) k' \<Longrightarrow> Q () k'"
    and "\<And>k'. faulty \<Longrightarrow> disk_env faulty k' \<Longrightarrow> same_disk k k' \<Longrightarrow> X IoOther k'"
  shows "wp (fs_sync_dir p) Q X k"
  unfolding fs_sync_dir_def
proof (rule wp_change [where a = "()" and g = "\<lambda>k. k\<lparr>dk_kept := (\<lambda>q. if q \<noteq> [] \<and> parent q = p then dk_names k q else dk_kept k q)\<rparr>",
      OF assms(1)], goal_cases)
  case (1 k')
  then show ?case using assms(2) by (simp add: find_node_ok disk_env_ok same_disk_simps)
next
  case (2 k')
  then show ?case by (simp add: disk_ok_kept same_disk_def cong: if_cong)
qed (use assms(3,4) in auto)

lemma wp_fs_sync_file:
  assumes "disk_env faulty k"
    and "\<And>k'. disk_env faulty k' \<Longrightarrow>
      same_disk (k\<lparr>dk_flushed := (dk_flushed k)(i := dk_data k i)\<rparr>) k' \<Longrightarrow> Q () k'"
    and "\<And>k'. faulty \<Longrightarrow> disk_env faulty k' \<Longrightarrow> same_disk k k' \<Longrightarrow> X IoOther k'"
  shows "wp (fs_sync_file i) Q X k"
  unfolding fs_sync_file_def
proof (rule wp_change [where a = "()" and g = "\<lambda>k. k\<lparr>dk_flushed := (dk_flushed k)(i := dk_data k i)\<rparr>", OF assms(1)], goal_cases)
  case (2 k')
  then show ?case by (simp add: disk_ok_kept same_disk_def)
qed (use assms(2,3) in auto)

lemma wp_fs_truncate:
  assumes "disk_env faulty k" and "unat n \<le> length (dk_data k i)"
    and "\<And>k'. disk_env faulty k' \<Longrightarrow> same_disk (set_data i (take (unat n) (dk_data k i)) k) k' \<Longrightarrow> Q () k'"
    and "\<And>k'. faulty \<Longrightarrow> disk_env faulty k' \<Longrightarrow> same_disk k k' \<Longrightarrow> X IoOther k'"
  shows "wp (fs_set_len i n) Q X k"
  unfolding fs_set_len_def
proof (rule wp_change [where a = "()" and g = "\<lambda>k. set_data i (resized (unat n) (dk_data k i)) k", OF assms(1)], goal_cases)
  case (1 k')
  then show ?case using assms(2) disk_okD(5) [OF disk_env_ok [OF assms(1)], of i] by simp
next
  case (2 k')
  have "length (dk_data k' i) \<le> MAX_FILE" using disk_okD(5) [OF 2(1)] .
  with assms(2) 2(2) have "length (resized (unat n) (dk_data k' i)) \<le> MAX_FILE" by (simp add: resized_def same_disk_simps)
  with disk_ok_data [OF 2(1)] 2(2) show ?case by (simp add: same_disk_def set_data_def)
next
  case (3 k')
  with assms(2,3) show ?case by (simp add: resized_def)
qed (use assms(4) in auto)

section \<open>Transfers\<close>

lemma take_verdict_env:
  assumes "disk_env faulty k" and "take_verdict k = (v, k')"
  shows "disk_env faulty k'" and "same_disk k k'" and "v \<noteq> Proceed \<Longrightarrow> faulty"
proof -
  show same: "same_disk k k'" using assms(2) by (auto simp: take_verdict_def same_disk_def split: list.splits)
  show "disk_env faulty k'"
    using assms disk_ok_same [OF _ same] by (auto simp: disk_env_def take_verdict_def split: list.splits)
  show "v \<noteq> Proceed \<Longrightarrow> faulty"
    using assms by (auto simp: disk_env_def take_verdict_def split: list.splits)
qed

lemma transferred_le: "transferred v n \<le> n"
  by (simp add: transferred_def split: verdict.split)

lemma overwritten_end: "overwritten d (length d) b = d @ b"
  by (simp add: overwritten_def resized_def)

lemma set_data_twice [simp]: "set_data i b (set_data i a k) = set_data i b k"
  by (simp add: set_data_def)

lemma set_data_same: "same_disk k k' \<Longrightarrow> same_disk (set_data i b k) (set_data i b k')"
  by (simp add: same_disk_def set_data_def)

lemma set_data_data [simp]: "dk_data (set_data i b k) j = (if j = i then b else dk_data k j)"
  "dk_names (set_data i b k) = dk_names k" "dk_kept (set_data i b k) = dk_kept k"
  "dk_flushed (set_data i b k) = dk_flushed k" "dk_fresh (set_data i b k) = dk_fresh k"
  "dk_verdicts (set_data i b k) = dk_verdicts k"
  by (simp_all add: set_data_def)

lemma set_data_id: "dk_data k i = b \<Longrightarrow> same_disk (set_data i b k) k"
  by (auto simp: same_disk_def set_data_def)

text \<open>Writing at the end of a file appends all of the buffer, or fails after appending a part of it.\<close>

lemma write_all_spec:
  assumes "disk_env faulty k" and "dk_data k i = d" and "write_all_at i (word_of_nat (length d)) buf k = (r, k')"
  shows "\<exists>n. disk_env faulty k' \<and> same_disk (set_data i (d @ take n buf) k) k'
    \<and> (case r of Inr _ \<Rightarrow> n = length buf | Inl e \<Rightarrow> faulty \<or> MAX_FILE < length d + length buf)"
  using assms
proof (induction i "word_of_nat (length d) :: u64" buf k arbitrary: d r k' rule: write_all_at.induct)
  case (1 i buf k)
  note env = 1(3) and d = 1(4) and run = 1(5)
  show ?case
  proof (cases "buf = []")
    case True
    with run env d show ?thesis by (auto simp: write_all_at.simps set_data_id)
  next
    case False
    obtain v k1 where v: "take_verdict k = (v, k1)" by fastforce
    note V = take_verdict_env [OF env v]
    have short: "length d \<le> MAX_FILE" using disk_okD(5) [OF disk_env_ok [OF env], of i] by (simp add: d)
    then have len: "unat (word_of_nat (length d) :: u64) = length d" by (simp add: MAX_FILE_def unat_of_nat)
    have keep: "disk_env faulty k1 \<and> same_disk (set_data i (d @ take 0 buf) k) k1"
      using V(1) same_disk_trans [OF set_data_id V(2), of i "d"] d by simp
    let ?w = "fs_write_at i buf (word_of_nat (length d)) k"
    let ?n = "transferred v (length buf)"
    have w: "?w = (if v = Breaks \<or> MAX_FILE < length d + length buf then (Inl IoOther, k1)
        else if v = Interrupts then (Inl IoInterrupted, k1) else (Inr ?n, set_data i (d @ take ?n buf) k1))"
      using V(2) d len by (simp add: fs_write_at_def v same_disk_simps overwritten_end Let_def)
    consider (fails) "?w = (Inl IoOther, k1)" "faulty \<or> MAX_FILE < length d + length buf"
      | (again) "?w = (Inl IoInterrupted, k1)" faulty
      | (some) n where "?w = (Inr n, set_data i (d @ take n buf) k1)" "n \<le> length buf" "n = length buf \<or> faulty"
          "length d + length buf \<le> MAX_FILE"
    proof (cases "v = Breaks \<or> MAX_FILE < length d + length buf")
      case True
      with w V(3) show ?thesis by (intro that(1)) auto
    next
      case no: False
      show ?thesis
      proof (cases "v = Interrupts")
        case True
        with w V(3) no show ?thesis by (intro that(2)) auto
      next
        case False
        with w no V(3) transferred_le [of v "length buf"] show ?thesis
          by (intro that(3) [of ?n]) (auto simp: transferred_def split: verdict.split)
      qed
    qed
    then show ?thesis
    proof cases
      case fails
      with run False have "r = Inl IoOther" "k' = k1" by (simp_all add: write_all_at.simps)
      with keep fails(2) show ?thesis by (auto intro!: exI [of _ 0])
    next
      case again
      with run False have "write_all_at i (word_of_nat (length d)) buf k1 = (r, k')"
        by (simp add: write_all_at.simps [of i _ buf k])
      from 1(1) [OF False again(1) [symmetric] refl refl refl V(1) _ this] V(2) d obtain n where
        "disk_env faulty k'" "same_disk (set_data i (d @ take n buf) k1) k'"
        "case r of Inr _ \<Rightarrow> n = length buf | Inl e \<Rightarrow> faulty \<or> MAX_FILE < length d + length buf"
        by (auto simp: same_disk_simps)
      with same_disk_trans [OF set_data_same [OF V(2)]] show ?thesis by blast
    next
      case some
      show ?thesis
      proof (cases "n = 0")
        case True
        with run False some have r: "r = Inl IoWriteZero" "k' = set_data i d k1" by (simp_all add: write_all_at.simps)
        have "k' = set_data i (d @ take 0 buf) k1" using r by simp
        moreover have "disk_env faulty (set_data i d k1)"
          using disk_env_update [OF V(1) disk_ok_data] disk_env_ok [OF V(1)] short by simp
        moreover have "faulty" using some True False by auto
        ultimately show ?thesis using r set_data_same [OF V(2), of i d] by (auto intro!: exI [of _ 0])
      next
        case n: False
        let ?k = "set_data i (d @ take n buf) k1"
        have env': "disk_env faulty ?k"
          using some by (intro disk_env_update [OF V(1) disk_ok_data] disk_env_ok [OF V(1)]) simp_all
        have l: "length (d @ take n buf) = length d + n" using some(2) by simp
        from run False some(1) n have rest: "write_all_at i (word_of_nat (length (d @ take n buf))) (drop n buf) ?k = (r, k')"
          unfolding l of_nat_add write_all_at.simps [of i _ buf k] by simp
        have eq: "(word_of_nat (length d) :: u64) + word_of_nat n = word_of_nat (length (d @ take n buf))"
          unfolding l by simp
        from 1(2) [OF False some(1) [symmetric] refl n eq env' _ rest] obtain m where
          "disk_env faulty k'" "same_disk (set_data i ((d @ take n buf) @ take m (drop n buf)) ?k) k'"
          "case r of Inr _ \<Rightarrow> m = length (drop n buf) | Inl e \<Rightarrow> faulty \<or> MAX_FILE < length (d @ take n buf) + length (drop n buf)"
          by auto
        moreover have "(d @ take n buf) @ take m (drop n buf) = d @ take (n + m) buf" by (simp add: take_add)
        ultimately show ?thesis
          using same_disk_trans [OF set_data_same [OF V(2), of i "d @ take (n + m) buf"], of k'] some
          by (intro exI [of _ "n + m"]) (auto split: sum.splits)
      qed
    qed
  qed
qed

text \<open>An exact read returns the bytes of the window, and fails only on a fault or past the end.\<close>

lemma read_exact_spec:
  assumes "disk_env faulty k" and "a \<le> MAX_FILE" and "read_exact_at i (word_of_nat a) want k = (r, k')"
  shows "disk_env faulty k' \<and> same_disk k k'
    \<and> (case r of Inr b \<Rightarrow> b = take want (drop a (dk_data k i)) \<and> length b = want
       | Inl e \<Rightarrow> faulty \<or> length (dk_data k i) < a + want)"
  using assms
proof (induction i "word_of_nat a :: u64" want k arbitrary: a r k' rule: read_exact_at.induct)
  case (1 i want k)
  note env = 1(3) and short = 1(4) and run = 1(5)
  show ?case
  proof (cases "want = 0")
    case True
    with run env show ?thesis by (auto simp: read_exact_at.simps)
  next
    case False
    obtain v k1 where v: "take_verdict k = (v, k1)" by fastforce
    note V = take_verdict_env [OF env v]
    from short have a: "unat (word_of_nat a :: u64) = a" by (simp add: MAX_FILE_def unat_of_nat)
    let ?c = "dk_data k i" and ?n = "transferred v want"
    let ?part = "take ?n (drop a ?c)"
    have rd: "fs_read_at i want (word_of_nat a) k = (if v = Breaks then (Inl IoOther, k1)
        else if v = Interrupts then (Inl IoInterrupted, k1) else (Inr ?part, k1))"
      using V(2) a by (simp add: fs_read_at_def v same_disk_simps)
    consider (fails) "v = Breaks" | (again) "v = Interrupts" | (some) "v \<noteq> Breaks" "v \<noteq> Interrupts" by blast
    then show ?thesis
    proof cases
      case fails
      with run rd False have "r = Inl IoOther" "k' = k1" by (simp_all add: read_exact_at.simps)
      with V fails show ?thesis by simp
    next
      case again
      with rd have w: "fs_read_at i want (word_of_nat a) k = (Inl IoInterrupted, k1)" by simp
      with run False have "read_exact_at i (word_of_nat a) want k1 = (r, k')" by (simp add: read_exact_at.simps [of i _ want k])
      from 1(1) [OF False w [symmetric] refl refl refl V(1) short this] same_disk_trans [OF V(2)]
      show ?thesis by (cases r) (simp_all add: same_disk_simps [OF V(2)])
    next
      case some
      with rd have w: "fs_read_at i want (word_of_nat a) k = (Inr ?part, k1)" by simp
      show ?thesis
      proof (cases "?part = []")
        case True
        with run w False have r: "r = Inl IoUnexpectedEof" "k' = k1" by (simp_all add: read_exact_at.simps [of i _ want k])
        have "faulty \<or> length ?c < a + want"
        proof (rule ccontr)
          assume no: "\<not> ?thesis"
          then have "v = Proceed" using V(3) by blast
          with no True False show False by (auto simp: transferred_def)
        qed
        with r V show ?thesis by simp
      next
        case part: False
        have l: "length ?part \<le> want" "length ?part + a \<le> length ?c"
          using transferred_le [of v want] part by auto
        have a': "a + length ?part \<le> MAX_FILE" using l(2) disk_okD(5) [OF disk_env_ok [OF env], of i] by linarith
        obtain r2 k2 where rest: "read_exact_at i (word_of_nat (a + length ?part)) (want - length ?part) k1 = (r2, k2)"
          by fastforce
        have eq: "(word_of_nat a :: u64) + word_of_nat (length ?part) = word_of_nat (a + length ?part)" by simp
        have "read_exact_at i (word_of_nat a) want k
            = (case (r2, k2) of (Inr b, k'') \<Rightarrow> (Inr (?part @ b), k'') | (Inl e, k'') \<Rightarrow> (Inl e, k''))"
          unfolding read_exact_at.simps [of i "word_of_nat a" want k] w by (simp only: False part if_False prod.case sum.case eq rest)
        with run have run': "(r, k') = (case r2 of Inr b \<Rightarrow> (Inr (?part @ b), k2) | Inl e \<Rightarrow> (Inl e, k2))"
          by (cases r2) auto
        from 1(2) [OF False w [symmetric] refl part eq V(1) a' rest] same_disk_trans [OF V(2), of k2]
        have R: "disk_env faulty k2" "same_disk k k2"
          "case r2 of Inr b \<Rightarrow> b = take (want - length ?part) (drop (a + length ?part) ?c) \<and> length b = want - length ?part
            | Inl e \<Rightarrow> faulty \<or> length ?c < (a + length ?part) + (want - length ?part)"
          by (cases r2; simp add: same_disk_simps [OF V(2)])+
        have split: "?part @ take (want - length ?part) (drop (a + length ?part) ?c) = take want (drop a ?c)"
        proof -
          define n where "n = length ?part"
          have p: "?part = take n (drop a ?c)" by (simp add: n_def min_def)
          have "take want (drop a ?c) = take (n + (want - n)) (drop a ?c)" using l(1) by (simp add: n_def)
          also have "\<dots> = take n (drop a ?c) @ take (want - n) (drop (a + n) ?c)" by (simp add: take_add add.commute)
          finally show ?thesis unfolding p [symmetric] n_def [symmetric] by simp
        qed
        show ?thesis
        proof (cases r2)
          case (Inl e)
          with R run' l(1) show ?thesis by simp
        next
          case (Inr b)
          note b = R(3) [unfolded Inr sum.case, THEN conjunct1] R(3) [unfolded Inr sum.case, THEN conjunct2]
          from Inr run' have r: "r = Inr (?part @ b)" "k' = k2" by simp_all
          have "length (?part @ b) = want" using b(2) l(1) unfolding length_append by linarith
          moreover have "?part @ b = take want (drop a ?c)" unfolding b(1) by (rule split)
          ultimately show ?thesis using R(1,2) unfolding r by (simp only: sum.case simp_thms)
        qed
      qed
    qed
  qed
qed

section \<open>Crashes\<close>

text \<open>
  After a crash each name is either what it was or what was last synced, and a file that was synced as it is keeps its contents; what
  becomes of one that was not is open.
\<close>

definition crashed :: "disk \<Rightarrow> disk \<Rightarrow> bool" where
  "crashed k k' \<longleftrightarrow>
     (\<forall>p. dk_names k' p = dk_names k p \<or> dk_names k' p = dk_kept k p)
     \<and> (\<forall>i. dk_flushed k i = dk_data k i \<longrightarrow> dk_data k' i = dk_data k i)"

text \<open>What a path holds.\<close>

definition contents :: "disk \<Rightarrow> path \<Rightarrow> bytes option" where
  "contents k p = (case find_node k p of Some (File i) \<Rightarrow> Some (dk_data k i) | _ \<Rightarrow> None)"

text \<open>A name is durable when it and all directories on the way are synced as they are.\<close>

definition durable_name :: "disk \<Rightarrow> path \<Rightarrow> bool" where
  "durable_name k p \<longleftrightarrow> (\<forall>q \<in> set (p # ancestors p). q \<noteq> [] \<longrightarrow> dk_kept k q = dk_names k q)"

lemma crash_keeps:
  assumes "crashed k k'" and "contents k p = Some b" and "durable_name k p" and "dk_names k' [] = Some Directory"
    and "p \<noteq> []" and "\<And>i. dk_names k p = Some (File i) \<Longrightarrow> dk_flushed k i = dk_data k i"
  shows "contents k' p = Some b"
proof -
  from assms(2) obtain i where i: "dk_names k p = Some (File i)" "\<forall>q \<in> set (ancestors p). dk_names k q = Some Directory" "dk_data k i = b"
    by (auto simp: contents_def find_node_def split: option.splits node.splits if_splits)
  have kept: "dk_names k' q = dk_names k q" if "q \<in> set (p # ancestors p)" "q \<noteq> []" for q
    using assms(1,3) that unfolding crashed_def durable_name_def by metis
  have "dk_names k' q = Some Directory" if "q \<in> set (ancestors p)" for q
    using kept [of q] that i(2) assms(4) by (cases "q = []") auto
  then have "find_node k' p = Some (File i)"
    using kept [of p] i(1) assms(5) by (simp add: find_node_def)
  moreover have "dk_data k' i = b" using assms(1) assms(6) [OF i(1)] i(3) by (simp add: crashed_def)
  ultimately show ?thesis by (simp add: contents_def)
qed

end
