(* ===== verification/Summ_Storage.thy ===== *)
theory Summ_Storage
  imports Summ_Disk
begin

text \<open>
  The blob store (\<open>summ-storage\<close>): hash algorithms (\<open>algorithm.rs\<close>), the resumable hasher (\<open>hasher.rs\<close>), paths and the
  directories on the way to them (\<open>paths.rs\<close>), staged uploads (\<open>upload.rs\<close>) and the operations of the store (\<open>store.rs\<close>).

  The hash functions are the record \<open>sha2\<close>, of the crate of that name. A task that is spawned to run blocking calls runs them; that the
  task itself is lost is not modelled.
\<close>

section \<open>Algorithms\<close>

datatype hash_algorithm = AlgSha256 | AlgSha512

fun algorithm_name :: "hash_algorithm \<Rightarrow> string" where
  "algorithm_name AlgSha256 = ''sha256''"
| "algorithm_name AlgSha512 = ''sha512''"

definition algorithm_from_name :: "string \<Rightarrow> summ_error + hash_algorithm" where
  "algorithm_from_name name =
     (if name = ''sha256'' then Inr AlgSha256
      else if name = ''sha512'' then Inr AlgSha512
      else Inl (InvalidDigest ''unsupported digest algorithm''))"

fun algorithm_of :: "digest \<Rightarrow> hash_algorithm" where
  "algorithm_of (Sha256 _) = AlgSha256"
| "algorithm_of (Sha512 _) = AlgSha512"

section \<open>The hasher\<close>

text \<open>One hash function of the crate: its states, and their serialised form with its fixed length.\<close>

record 'h sha =
  sha_new :: 'h
  sha_update :: "'h \<Rightarrow> bytes \<Rightarrow> 'h"
  sha_finalize :: "'h \<Rightarrow> bytes"
  sha_serialize :: "'h \<Rightarrow> bytes"
  sha_deserialize :: "bytes \<Rightarrow> 'h option"
  sha_state_len :: nat

record 'h sha2 =
  s256 :: "'h sha"
  s512 :: "'h sha"

datatype 'h hasher = Hash256 'h | Hash512 'h

fun hasher_new :: "'h sha2 \<Rightarrow> hash_algorithm \<Rightarrow> 'h hasher" where
  "hasher_new L AlgSha256 = Hash256 (sha_new (s256 L))"
| "hasher_new L AlgSha512 = Hash512 (sha_new (s512 L))"

fun hasher_update :: "'h sha2 \<Rightarrow> 'h hasher \<Rightarrow> bytes \<Rightarrow> 'h hasher" where
  "hasher_update L (Hash256 h) b = Hash256 (sha_update (s256 L) h b)"
| "hasher_update L (Hash512 h) b = Hash512 (sha_update (s512 L) h b)"

fun hasher_finalize :: "'h sha2 \<Rightarrow> 'h hasher \<Rightarrow> digest" where
  "hasher_finalize L (Hash256 h) = Sha256 (arr32 (sha_finalize (s256 L) h))"
| "hasher_finalize L (Hash512 h) = Sha512 (arr64 (sha_finalize (s512 L) h))"

fun hasher_serialize :: "'h sha2 \<Rightarrow> 'h hasher \<Rightarrow> bytes" where
  "hasher_serialize L (Hash256 h) = sha_serialize (s256 L) h"
| "hasher_serialize L (Hash512 h) = sha_serialize (s512 L) h"

definition restore_sha :: "'h sha \<Rightarrow> ('h \<Rightarrow> 'h hasher) \<Rightarrow> bytes \<Rightarrow> summ_error + 'h hasher" where
  "restore_sha S wrap state =
     (if length state \<noteq> sha_state_len S then Inl (Storage ''corrupt hasher state: expected bytes, got'')
      else case sha_deserialize S state of
        None \<Rightarrow> Inl (Storage ''corrupt hasher state: rejected by sha2'')
      | Some h \<Rightarrow> Inr (wrap h))"

fun hasher_restore :: "'h sha2 \<Rightarrow> hash_algorithm \<Rightarrow> bytes \<Rightarrow> summ_error + 'h hasher" where
  "hasher_restore L AlgSha256 state = restore_sha (s256 L) Hash256 state"
| "hasher_restore L AlgSha512 state = restore_sha (s512 L) Hash512 state"

section \<open>Paths\<close>

definition BLOBS_DIR :: string where "BLOBS_DIR = ''blobs''"
definition UPLOADS_DIR :: string where "UPLOADS_DIR = ''uploads''"
definition FANOUT_LEVELS :: nat where "FANOUT_LEVELS = 3"
definition HEX :: string where "HEX = ''0123456789abcdef''"

definition hex_encode :: "bytes \<Rightarrow> string" where
  "hex_encode bs = concat (map (\<lambda>b. [HEX ! unat (drop_bit 4 b), HEX ! unat (and b 0x0F)]) bs)"

text \<open>\<open>PathBuf::push\<close> of a name: an absolute one replaces the path, and the parts between slashes are components.\<close>

definition push_name :: "path \<Rightarrow> string \<Rightarrow> path" where
  "push_name p s =
     (let parts = filter (\<lambda>c. c \<noteq> [] \<and> c \<noteq> ''.'') (split_on CHR ''/'' s)
      in if prefix ''/'' s then parts else p @ parts)"

definition blob_path :: "path \<Rightarrow> digest \<Rightarrow> path \<times> path" where
  "blob_path root d =
     (let hex = hex_encode (raw_of d);
          dir = push_name (push_name root BLOBS_DIR) (algorithm d);
          dir = fold (\<lambda>level dir. push_name dir (take 2 (drop (level * 2) hex))) [0..<FANOUT_LEVELS] dir
      in (dir, push_name dir hex))"

definition upload_path :: "path \<Rightarrow> string \<Rightarrow> path" where
  "upload_path root i = push_name (push_name root UPLOADS_DIR) i"

text \<open>The levels that are missing between \<open>stop\<close> and \<open>dir\<close>, the deepest first.\<close>

function missing_levels :: "path \<Rightarrow> path \<Rightarrow> path list io" where
  "missing_levels stop cursor =
     (if cursor = stop then return_a []
      else bind_a (fs_try_exists cursor) (\<lambda>there.
        if there then return_a []
        else if cursor = [] then return_a [cursor]
        else bind_a (missing_levels stop (parent cursor)) (\<lambda>levels. return_a (cursor # levels))))"
  by pat_completeness auto
termination
  by (relation "measure (\<lambda>(stop, cursor). length cursor)") (simp_all add: parent_def)

declare missing_levels.simps [simp del]

text \<open>\<open>create_dir\<close>, with a directory that another writer created first accepted.\<close>

definition create_level :: "path \<Rightarrow> unit io" where
  "create_level level = (\<lambda>k.
     case fs_create_dir level k of
       (Inl IoAlreadyExists, k') \<Rightarrow>
         bind_a (fs_is_dir level) (\<lambda>dir. if \<not> dir then fail_a IoAlreadyExists else return_a ()) k'
     | (r, k') \<Rightarrow> (r, k'))"

definition create_dir_durable :: "path \<Rightarrow> path \<Rightarrow> unit io" where
  "create_dir_durable dir stop =
     bind_a (fs_try_exists dir) (\<lambda>there.
       if there then return_a ()
       else
         bind_a (missing_levels stop dir) (\<lambda>missing.
           for_a (rev missing) () (\<lambda>level _.
             bind_a (create_level level) (\<lambda>_.
               if level \<noteq> [] then fs_sync_dir (parent level) else return_a ()))))"

section \<open>Staged uploads\<close>

definition upload_id_char :: "char \<Rightarrow> bool" where
  "upload_id_char c \<longleftrightarrow> is_ascii_alphanumeric c \<or> c \<in> {CHR ''-'', CHR ''_'', CHR ''.'', CHR ''~''}"

definition new_upload_id :: "string \<Rightarrow> summ_error + string" where
  "new_upload_id i =
     (if i \<noteq> [] \<and> length i \<le> 128 \<and> i \<noteq> ''.'' \<and> i \<noteq> ''..'' \<and> list_all upload_id_char i then Inr i
      else Inl (InvalidData ''malformed upload id''))"

record 'h upload =
  up_id :: string
  up_path :: path
  up_algorithm :: hash_algorithm
  up_offset :: u64
  up_staged :: "(nat \<times> 'h hasher) option"

definition upload_open :: "string \<Rightarrow> path \<Rightarrow> hash_algorithm \<Rightarrow> u64 \<Rightarrow> 'h hasher \<Rightarrow> nat \<Rightarrow> 'h upload" where
  "upload_open i p a off h f =
     \<lparr>up_id = i, up_path = p, up_algorithm = a, up_offset = off, up_staged = Some (f, h)\<rparr>"

definition poisoned :: summ_error where
  "poisoned = Storage ''upload handle is unusable: a previous append did not return its state''"

definition staged :: "'h upload \<Rightarrow> summ_error + nat \<times> 'h hasher" where
  "staged u = ok_or poisoned (up_staged u)"

definition hasher_state :: "'h sha2 \<Rightarrow> 'h upload \<Rightarrow> summ_error + bytes" where
  "hasher_state L u = and_then (staged u) (\<lambda>(_, h). Inr (hasher_serialize L h))"

text \<open>Operations on the disk whose errors are those of the store. \<open>told what\<close> is \<open>map_err(|e| Storage(format!(what, ..)))\<close>.\<close>

type_synonym 'a sto = "(disk, summ_error, 'a) action"

definition told :: "string \<Rightarrow> 'a io \<Rightarrow> 'a sto" where
  "told what m = map_err_a (\<lambda>_. Storage what) m"

text \<open>
  \<open>&mut self\<close>: the upload after the call is returned; a call that fails leaves it as it was, whatever became of the
  file.
\<close>

definition append_chunk :: "'h sha2 \<Rightarrow> 'h upload \<Rightarrow> u64 \<Rightarrow> bytes \<Rightarrow> 'h upload sto" where
  "append_chunk L u offset chunk =
     (if offset \<noteq> up_offset u then fail_a (InvalidData ''out-of-order chunk'')
      else if chunk = [] then return_a u
      else
        bind_a (lift_a (staged u)) (\<lambda>(f, h).
        bind_a (told ''writing to upload'' (write_all_at f (up_offset u) chunk)) (\<lambda>_.
          return_a (u\<lparr>up_staged := Some (f, hasher_update L h chunk),
                      up_offset := up_offset u + word_of_nat (length chunk)\<rparr>))))"

text \<open>\<open>rehash\<close>: the first \<open>len\<close> bytes of a file, read in blocks, into a fresh hasher.\<close>

function rehash_from :: "'h sha2 \<Rightarrow> nat \<Rightarrow> nat \<Rightarrow> nat \<Rightarrow> nat \<Rightarrow> 'h hasher \<Rightarrow> 'h hasher io" where
  "rehash_from L f len block at h =
     (if len \<le> at then return_a h
      else
        (let want = min (max block 1) (len - at) in
         bind_a (read_exact_at f (word_of_nat at) want) (\<lambda>part.
           rehash_from L f len block (at + want) (hasher_update L h part))))"
  by pat_completeness auto
termination
  by (relation "measure (\<lambda>(L, f, len, block, at, h). len - at)") auto

declare rehash_from.simps [simp del]

definition rehash :: "'h sha2 \<Rightarrow> nat \<Rightarrow> u64 \<Rightarrow> hash_algorithm \<Rightarrow> nat \<Rightarrow> 'h hasher io" where
  "rehash L f len algo block = rehash_from L f (unat len) block 0 (hasher_new L algo)"

definition rehash_as :: "'h sha2 \<Rightarrow> 'h upload \<Rightarrow> hash_algorithm \<Rightarrow> nat \<Rightarrow> 'h upload sto" where
  "rehash_as L u algo block =
     (if algo = up_algorithm u then return_a u
      else
        bind_a (lift_a (staged u)) (\<lambda>(f, _).
        bind_a (told ''rehashing upload'' (rehash L f (up_offset u) algo block)) (\<lambda>h.
          return_a (u\<lparr>up_staged := Some (f, h), up_algorithm := algo\<rparr>))))"

definition seal :: "'h sha2 \<Rightarrow> 'h upload \<Rightarrow> (path \<times> digest \<times> u64) sto" where
  "seal L u =
     bind_a (lift_a (staged u)) (\<lambda>(f, h).
     bind_a (told ''fsyncing upload'' (fs_sync_file f)) (\<lambda>_.
       return_a (up_path u, hasher_finalize L h, up_offset u)))"

definition open_staging :: "path \<Rightarrow> bool \<Rightarrow> nat sto" where
  "open_staging p create_new =
     map_err_a (\<lambda>e. if e = IoNotFound then NotFound else Storage ''opening upload'')
       (if create_new then fs_create_new p else fs_open p)"

section \<open>The store\<close>

definition DEFAULT_READ_CHUNK_SIZE :: nat where "DEFAULT_READ_CHUNK_SIZE = 1024 * 1024"
definition MIN_READ_CHUNK_SIZE :: nat where "MIN_READ_CHUNK_SIZE = 256 * 1024"

record blob_store =
  st_root :: path
  st_read_chunk_size :: nat

text \<open>\<open>std::fs::create_dir_all\<close>\<close>

function fs_create_dir_all :: "path \<Rightarrow> unit io" where
  "fs_create_dir_all p =
     (\<lambda>k. case fs_create_dir p k of
        (Inr _, k') \<Rightarrow> (Inr (), k')
      | (Inl e, k') \<Rightarrow>
          if e = IoNotFound then
            (if p = [] then (Inl IoOther, k')
             else
               bind_a (fs_create_dir_all (parent p)) (\<lambda>_ k.
                 case fs_create_dir p k of
                   (Inr _, k') \<Rightarrow> (Inr (), k')
                 | (Inl e, k') \<Rightarrow> bind_a (fs_is_dir p) (\<lambda>dir. if dir then return_a () else fail_a e) k') k')
          else bind_a (fs_is_dir p) (\<lambda>dir. if dir then return_a () else fail_a e) k')"
  by pat_completeness auto
termination
  by (relation "measure length") (simp_all add: parent_def)

declare fs_create_dir_all.simps [simp del]

definition store_open :: "path \<Rightarrow> blob_store sto" where
  "store_open root =
     bind_a (for_a [push_name root BLOBS_DIR, push_name root UPLOADS_DIR] ()
       (\<lambda>dir _. told ''creating'' (fs_create_dir_all dir))) (\<lambda>_.
     bind_a (told ''fsyncing'' (fs_sync_dir root)) (\<lambda>_.
       return_a \<lparr>st_root = root, st_read_chunk_size = DEFAULT_READ_CHUNK_SIZE\<rparr>))"

definition with_read_chunk_size :: "blob_store \<Rightarrow> nat \<Rightarrow> blob_store" where
  "with_read_chunk_size B n = B\<lparr>st_read_chunk_size := max n MIN_READ_CHUNK_SIZE\<rparr>"

definition store_stat :: "blob_store \<Rightarrow> digest \<Rightarrow> u64 option sto" where
  "store_stat B d = (\<lambda>k.
     case fs_node (snd (blob_path (st_root B) d)) k of
       (Inr (File i), k') \<Rightarrow> (Inr (Some (word_of_nat (length (dk_data k' i)))), k')
     | (Inr Directory, k') \<Rightarrow> (Inr (Some 0), k')
     | (Inl IoNotFound, k') \<Rightarrow> (Inr None, k')
     | (Inl _, k') \<Rightarrow> (Inl (Storage ''stat''), k'))"

definition store_contains :: "blob_store \<Rightarrow> digest \<Rightarrow> bool sto" where
  "store_contains B d = bind_a (store_stat B d) (\<lambda>n. return_a (n \<noteq> None))"

definition store_delete_blob :: "blob_store \<Rightarrow> digest \<Rightarrow> bool sto" where
  "store_delete_blob B d = (\<lambda>k.
     case fs_remove_file (snd (blob_path (st_root B) d)) k of
       (Inr _, k') \<Rightarrow> (Inr True, k')
     | (Inl IoNotFound, k') \<Rightarrow> (Inr False, k')
     | (Inl _, k') \<Rightarrow> (Inl (Storage ''deleting blob''), k'))"

definition store_create_upload :: "'h sha2 \<Rightarrow> blob_store \<Rightarrow> string \<Rightarrow> hash_algorithm \<Rightarrow> 'h upload sto" where
  "store_create_upload L B i algo =
     (let p = upload_path (st_root B) i in
      bind_a (open_staging p True) (\<lambda>f. return_a (upload_open i p algo 0 (hasher_new L algo) f)))"

definition store_resume_upload ::
    "'h sha2 \<Rightarrow> blob_store \<Rightarrow> string \<Rightarrow> hash_algorithm \<Rightarrow> u64 \<Rightarrow> bytes option \<Rightarrow> 'h upload sto" where
  "store_resume_upload L B i algo offset state =
     (let p = upload_path (st_root B) i in
      bind_a (lift_a (case state of
          Some st \<Rightarrow> hasher_restore L algo st
        | None \<Rightarrow> if offset = 0 then Inr (hasher_new L algo) else Inl (Storage ''upload records offset but no hasher state''))) (\<lambda>h.
      bind_a (open_staging p False) (\<lambda>f.
      bind_a (told ''stat upload'' (fs_len f)) (\<lambda>len.
        if len < offset then fail_a (Storage ''upload is shorter than its session records'')
        else
          bind_a (if offset < len then told ''truncating upload'' (fs_set_len f offset) else return_a ()) (\<lambda>_.
            return_a (upload_open i p algo offset h f))))))"

definition store_rehash_upload :: "'h sha2 \<Rightarrow> blob_store \<Rightarrow> 'h upload \<Rightarrow> hash_algorithm \<Rightarrow> 'h upload sto" where
  "store_rehash_upload L B u algo = rehash_as L u algo (st_read_chunk_size B)"

definition store_commit_upload :: "'h sha2 \<Rightarrow> blob_store \<Rightarrow> 'h upload \<Rightarrow> digest \<Rightarrow> u64 sto" where
  "store_commit_upload L B u expected =
     bind_a (seal L u) (\<lambda>(from_path, actual, size).
       if actual \<noteq> expected then fail_a (InvalidDigest ''digest mismatch'')
       else
         (let (dir, final_path) = blob_path (st_root B) expected in
          bind_a (told ''creating'' (create_dir_durable dir (push_name (st_root B) BLOBS_DIR))) (\<lambda>_.
          bind_a (told ''committing'' (fs_rename from_path final_path)) (\<lambda>_.
          bind_a (told ''fsyncing'' (fs_sync_dir dir)) (\<lambda>_.
            return_a size)))))"

definition store_cancel_upload :: "blob_store \<Rightarrow> string \<Rightarrow> unit sto" where
  "store_cancel_upload B i = (\<lambda>k.
     case fs_remove_file (upload_path (st_root B) i) k of
       (Inr _, k') \<Rightarrow> (Inr (), k')
     | (Inl IoNotFound, k') \<Rightarrow> (Inr (), k')
     | (Inl _, k') \<Rightarrow> (Inl (Storage ''cancelling upload''), k'))"

section \<open>What is required of the hash functions\<close>

text \<open>
  Feeding a hasher in pieces is feeding it the whole, and a serialised state is read back as it was. The states are those
  that a new hasher reaches.
\<close>

locale sha_law =
  fixes S :: "'h sha"
  assumes update_nothing: "sha_update S h [] = h"
    and update_twice: "sha_update S (sha_update S h a) b = sha_update S h (a @ b)"
    and state_length: "length (sha_serialize S (sha_update S (sha_new S) c)) = sha_state_len S"
    and state_restored: "sha_deserialize S (sha_serialize S (sha_update S (sha_new S) c)) = Some (sha_update S (sha_new S) c)"
begin

lemma restored:
  "restore_sha S wrap (sha_serialize S (sha_update S (sha_new S) c)) = Inr (wrap (sha_update S (sha_new S) c))"
  by (simp add: restore_sha_def state_length state_restored)

end

locale hashing = small: sha_law "s256 L" + large: sha_law "s512 L" for L :: "'h sha2"

text \<open>The state of a hasher that was fed \<open>c\<close>, and the digest of \<open>c\<close>.\<close>

definition hashed :: "'h sha2 \<Rightarrow> hash_algorithm \<Rightarrow> bytes \<Rightarrow> 'h hasher" where
  "hashed L a c = hasher_update L (hasher_new L a) c"

definition content_digest :: "'h sha2 \<Rightarrow> hash_algorithm \<Rightarrow> bytes \<Rightarrow> digest" where
  "content_digest L a c = hasher_finalize L (hashed L a c)"

lemma algorithm_of_digest [simp]: "algorithm_of (content_digest L a c) = a"
  by (cases a) (simp_all add: content_digest_def hashed_def)

lemma algorithm_name_roundtrip [simp]: "algorithm_from_name (algorithm_name a) = Inr a"
  by (cases a) (simp_all add: algorithm_from_name_def)

context hashing
begin

lemma hashed_nothing: "hasher_new L a = hashed L a []"
  by (cases a) (simp_all add: hashed_def small.update_nothing large.update_nothing)

lemma hashed_more: "hasher_update L (hashed L a c) b = hashed L a (c @ b)"
  by (cases a) (simp_all add: hashed_def small.update_twice large.update_twice)

lemma hashed_restored: "hasher_restore L a (hasher_serialize L (hashed L a c)) = Inr (hashed L a c)"
  by (cases a) (simp_all add: hashed_def small.restored large.restored)

end

section \<open>Where blobs and uploads are\<close>

lemma push_name_plain: "s \<noteq> [] \<Longrightarrow> s \<noteq> ''.'' \<Longrightarrow> CHR ''/'' \<notin> set s \<Longrightarrow> push_name p s = p @ [s]"
  by (cases s) (auto simp: push_name_def split_on_plain)

lemma hex_encode_eq: "hex_encode bs = concat (map hex_byte bs)"
proof -
  have "unat (drop_bit 4 b) = unat b div 16" for b :: byte
    using unsigned_less [of b, where 'a = nat] unfolding unsigned_drop_bit_eq by (simp add: drop_bit_eq_div take_bit_eq_mod)
  moreover have "unat (and b 0x0F) = unat b mod 16" for b :: byte
  proof -
    have "unat (and b 0x0F) = unat (take_bit 4 b)" by (simp add: take_bit_eq_mask mask_eq_exp_minus_1)
    also have "\<dots> = take_bit 4 (unat b)" by (rule unsigned_take_bit_eq)
    finally show ?thesis by (simp add: take_bit_eq_mod)
  qed
  ultimately have "HEX ! unat (drop_bit 4 b) = hex_digit (unat b div 16)" "HEX ! unat (and b 0x0F) = hex_digit (unat b mod 16)" for b :: byte
    by (simp_all add: HEX_def hex_digit_def)
  then show ?thesis by (simp add: hex_encode_def hex_byte_def [abs_def])
qed

lemma hex_encode_chars: "set (hex_encode bs) \<subseteq> set HEX"
proof -
  have "HEX ! unat (drop_bit 4 b) \<in> set HEX" "HEX ! unat (and b 0x0F) \<in> set HEX" for b :: byte
  proof -
    have "unat (drop_bit 4 b) < 16"
      using unsigned_less [of b, where 'a = nat] unfolding unsigned_drop_bit_eq
      by (simp add: drop_bit_eq_div take_bit_eq_mod less_mult_imp_div_less)
    moreover have "unat (and b 0x0F) < 16"
      using word_and_le1 [of b "0x0F"] by (simp add: word_le_nat_alt)
    moreover have "length HEX = 16" by (simp add: HEX_def)
    ultimately show "HEX ! unat (drop_bit 4 b) \<in> set HEX" "HEX ! unat (and b 0x0F) \<in> set HEX"
      by (metis nth_mem)+
  qed
  then show ?thesis by (auto simp: hex_encode_def)
qed

lemma hex_piece:
  assumes "set s \<subseteq> set HEX" and "s \<noteq> []"
  shows "push_name p s = p @ [s]"
proof (rule push_name_plain [OF assms(2)])
  have "CHR ''.'' \<notin> set HEX" "CHR ''/'' \<notin> set HEX" by (simp_all add: HEX_def)
  then show "s \<noteq> ''.''" "CHR ''/'' \<notin> set s" using assms(1) by auto
qed

definition blob_hex :: "digest \<Rightarrow> string" where
  "blob_hex d = hex_encode (raw_of d)"

definition fan_parts :: "digest \<Rightarrow> path" where
  "fan_parts d = [algorithm d, take 2 (blob_hex d), take 2 (drop 2 (blob_hex d)), take 2 (drop 4 (blob_hex d))]"

definition blob_dir :: "path \<Rightarrow> digest \<Rightarrow> path" where
  "blob_dir root d = (root @ [BLOBS_DIR]) @ fan_parts d"

definition blob_at_path :: "path \<Rightarrow> digest \<Rightarrow> path" where
  "blob_at_path root d = blob_dir root d @ [blob_hex d]"

lemma length_blob_hex: "length (blob_hex d) = length (raw_of d) * 2" and blob_hex_long: "6 < length (blob_hex d)"
  by (cases d; simp add: blob_hex_def hex_encode_eq)+

lemma blob_path_eq: "blob_path root d = (blob_dir root d, blob_at_path root d)"
proof -
  have hex: "set (blob_hex d) \<subseteq> set HEX" unfolding blob_hex_def by (rule hex_encode_chars)
  have part: "push_name p (take 2 (drop n (blob_hex d))) = p @ [take 2 (drop n (blob_hex d))]" if "n < 6" for p n
    using that hex blob_hex_long [of d] set_take_subset [of 2 "drop n (blob_hex d)"] set_drop_subset [of n "blob_hex d"]
    by (intro hex_piece) auto
  have whole: "push_name p (blob_hex d) = p @ [blob_hex d]" for p
    using hex blob_hex_long [of d] by (intro hex_piece) auto
  have named: "push_name p BLOBS_DIR = p @ [BLOBS_DIR]" "push_name p (algorithm d) = p @ [algorithm d]" for p
    by (rule push_name_plain; cases d; simp add: BLOBS_DIR_def)+
  show ?thesis
    using part [of 0] part [of 2] part [of 4]
    by (simp add: blob_path_def Let_def blob_hex_def [symmetric] FANOUT_LEVELS_def named whole upt_rec blob_dir_def fan_parts_def
        blob_at_path_def)
qed

lemma hex_bytes_inject: "concat (map hex_byte as) = concat (map hex_byte bs) \<longleftrightarrow> as = bs"
proof
  show "concat (map hex_byte as) = concat (map hex_byte bs) \<Longrightarrow> as = bs"
    using unhex_hex_bytes [of as "length as"] unhex_hex_bytes [of bs "length bs"] length_hex_bytes [of as] length_hex_bytes [of bs]
    by (metis Inr_inject call.inject mult_cancel2 numeral_eq_iff zero_neq_numeral)
qed simp

lemma blob_at_path_inject: "blob_at_path root d = blob_at_path root e \<longleftrightarrow> d = e"
  by (cases d; cases e) (auto simp: blob_at_path_def blob_dir_def fan_parts_def blob_hex_def hex_encode_eq hex_bytes_inject)

text \<open>An id that is accepted is one component below the directory of uploads.\<close>

lemma new_upload_id_plain:
  assumes "new_upload_id i = Inr j"
  shows "j = i" and "upload_path root i = root @ [UPLOADS_DIR, i]"
proof -
  from assms have i: "i \<noteq> []" "i \<noteq> ''.''" "list_all upload_id_char i" and "j = i"
    by (auto simp: new_upload_id_def split: if_splits)
  then show "j = i" by simp
  have "CHR ''/'' \<notin> set i"
    using i(3) by (auto simp: list_all_iff upload_id_char_def is_ascii_alphanumeric_def)
  then have "push_name p i = p @ [i]" for p by (rule push_name_plain [OF i(1,2)])
  moreover have "push_name root UPLOADS_DIR = root @ [UPLOADS_DIR]" by (rule push_name_plain) (simp_all add: UPLOADS_DIR_def)
  ultimately show "upload_path root i = root @ [UPLOADS_DIR, i]" by (simp add: upload_path_def)
qed

section \<open>Making the directories of a blob\<close>

text \<open>The directories from \<open>b\<close> down, one for each name.\<close>

fun chain :: "path \<Rightarrow> path \<Rightarrow> path list" where
  "chain b [] = []"
| "chain b (x # xs) = (b @ [x]) # chain (b @ [x]) xs"

lemma chain_append: "chain b (xs @ ys) = chain b xs @ chain (b @ xs) ys"
  by (induction xs arbitrary: b) simp_all

lemma chain_longer: "q \<in> set (chain b xs) \<Longrightarrow> \<exists>ys. ys \<noteq> [] \<and> q = b @ ys \<and> length ys \<le> length xs"
  by (induction xs arbitrary: b) fastforce+

lemma ancestors_append: "ancestors (b @ xs @ [y]) = ancestors b @ b # chain b xs"
proof (induction xs rule: rev_induct)
  case Nil
  show ?case using ancestors_simps(2) [of b y] by simp
next
  case (snoc x xs)
  have "ancestors (b @ (xs @ [x]) @ [y]) = ancestors (b @ xs @ [x]) @ [b @ xs @ [x]]"
    using ancestors_simps(2) [of "b @ xs @ [x]" y] by simp
  also have "\<dots> = ancestors b @ b # chain b xs @ [b @ xs @ [x]]"
    using snoc ancestors_simps(2) [of "b @ xs" x] ancestors_simps(2) [of "b @ xs" y] by simp
  finally show ?case by (simp add: chain_append)
qed

text \<open>Only directories are added, at the paths \<open>D\<close>.\<close>

definition grown :: "path set \<Rightarrow> disk \<Rightarrow> disk \<Rightarrow> bool" where
  "grown D k k' \<longleftrightarrow>
     (\<forall>p. dk_names k' p = dk_names k p \<or> (p \<in> D \<and> dk_names k p = None \<and> dk_names k' p = Some Directory))
     \<and> dk_data k' = dk_data k \<and> dk_flushed k' = dk_flushed k \<and> dk_fresh k' = dk_fresh k"

lemma grown_same: "same_disk k k' \<Longrightarrow> grown D k k'"
  by (simp add: grown_def same_disk_def)

lemma grown_trans: "grown D k k1 \<Longrightarrow> grown D k1 k' \<Longrightarrow> grown D k k'"
  unfolding grown_def by (metis option.distinct(1))

lemma grown_mono: "grown D k k' \<Longrightarrow> D \<subseteq> E \<Longrightarrow> grown E k k'"
  unfolding grown_def by blast

lemma grown_name: "grown D k k' \<Longrightarrow> dk_names k p = Some n \<Longrightarrow> dk_names k' p = Some n"
  unfolding grown_def by (metis option.distinct(1))

definition dirs_durable :: "path set \<Rightarrow> disk \<Rightarrow> bool" where
  "dirs_durable D k \<longleftrightarrow> (\<forall>q \<in> D. dk_names k q \<noteq> None \<longrightarrow> dk_kept k q = dk_names k q)"

lemma dirs_durable_same: "same_disk k k' \<Longrightarrow> dirs_durable D k \<Longrightarrow> dirs_durable D k'"
  by (simp add: dirs_durable_def same_disk_def)

lemma wp_missing_levels:
  assumes "disk_env faulty k" and "dk_names k stop = Some Directory"
    and "\<And>levels k' pre post. disk_env faulty k' \<Longrightarrow> same_disk k k' \<Longrightarrow> xs = pre @ post \<Longrightarrow> rev levels = chain (stop @ pre) post
      \<Longrightarrow> dk_names k (stop @ pre) \<noteq> None \<Longrightarrow> (\<forall>q \<in> set levels. dk_names k q = None) \<Longrightarrow> Q levels k'"
    and "\<And>k'. faulty \<Longrightarrow> disk_env faulty k' \<Longrightarrow> same_disk k k' \<Longrightarrow> X IoOther k'"
  shows "wp (missing_levels stop (stop @ xs)) Q X k"
  using assms
proof (induction xs arbitrary: k Q rule: rev_induct)
  case Nil
  then show ?case by (simp add: missing_levels.simps wp_simps)
next
  case (snoc x xs)
  note env = snoc.prems(1) and dir = snoc.prems(2) and Q = snoc.prems(3) and X = snoc.prems(4)
  have up: "parent (stop @ xs @ [x]) = stop @ xs" by (simp add: parent_def butlast_append)
  show ?case
    unfolding missing_levels.simps [of stop "stop @ xs @ [x]"] up
  proof (simp add: wp_simps, rule wp_fs_try_exists [OF env])
    fix k' assume k': "disk_env faulty k'" "same_disk k k'"
    show "wp (if dk_names k (stop @ xs @ [x]) \<noteq> None then return_a []
        else bind_a (missing_levels stop (stop @ xs)) (\<lambda>levels. return_a ((stop @ xs @ [x]) # levels))) Q X k'"
    proof (cases "dk_names k (stop @ xs @ [x]) = None")
      case False
      with Q [OF k', of "xs @ [x]" "[]" "[]"] show ?thesis by (simp add: wp_simps)
    next
      case True
      show ?thesis
      proof (simp add: True wp_simps, rule snoc.IH [OF k'(1)])
        show "dk_names k' stop = Some Directory" using dir k'(2) by (simp add: same_disk_simps)
        fix levels k2 pre post
        assume k2: "disk_env faulty k2" "same_disk k' k2" and xs: "xs = pre @ post" and rev: "rev levels = chain (stop @ pre) post"
          and there: "dk_names k' (stop @ pre) \<noteq> None" and none: "\<forall>q \<in> set levels. dk_names k' q = None"
        show "Q ((stop @ xs @ [x]) # levels) k2"
          using Q [OF k2(1) same_disk_trans [OF k'(2) k2(2)], of pre "post @ [x]" "(stop @ xs @ [x]) # levels"]
            xs rev there none True k'(2) by (simp add: chain_append same_disk_simps)
      qed (use X k'(2) same_disk_trans in blast)
    qed
  qed (use X in auto)
qed

lemma wp_create_level:
  assumes "disk_env faulty k" and "dk_names k p = None" and "p \<noteq> []" and "dk_names k (parent p) = Some Directory"
    and "\<And>k'. disk_env faulty k' \<Longrightarrow> same_disk (k\<lparr>dk_names := (dk_names k)(p \<mapsto> Directory)\<rparr>) k' \<Longrightarrow> Q () k'"
    and "\<And>k'. faulty \<Longrightarrow> disk_env faulty k' \<Longrightarrow> same_disk k k' \<Longrightarrow> X IoOther k'"
  shows "wp (create_level p) Q X k"
proof -
  have "wp (fs_create_dir p) Q (\<lambda>e k'. e = IoOther \<and> X IoOther k') k"
    by (rule wp_fs_create_dir [OF assms(1-4)]) (use assms(5,6) in auto)
  then show ?thesis
    by (auto simp: wp_def create_level_def split: prod.splits sum.splits io_error.splits)
qed

lemma parent_snoc [simp]: "parent (p @ [x]) = p"
  by (simp add: parent_def)

lemma wp_create_chain:
  assumes "disk_env faulty k" and "dk_names k b = Some Directory" and "\<forall>q \<in> set (chain b xs). dk_names k q = None"
    and "\<And>k'. disk_env faulty k' \<Longrightarrow> grown (set (chain b xs)) k k' \<Longrightarrow> (\<forall>q \<in> set (chain b xs). dk_names k' q = Some Directory)
      \<Longrightarrow> (\<forall>D. dirs_durable D k \<longrightarrow> dirs_durable D k') \<Longrightarrow> Q () k'"
    and "\<And>k'. faulty \<Longrightarrow> disk_env faulty k' \<Longrightarrow> grown (set (chain b xs)) k k' \<Longrightarrow> X IoOther k'"
  shows "wp (for_a (chain b xs) () (\<lambda>level _. bind_a (create_level level) (\<lambda>_.
      if level \<noteq> [] then fs_sync_dir (parent level) else return_a ()))) Q X k"
  using assms
proof (induction xs arbitrary: b k)
  case Nil
  then show ?case by (simp add: wp_simps grown_same)
next
  case (Cons x xs)
  note env = Cons.prems(1) and dir = Cons.prems(2) and none = Cons.prems(3) and Q = Cons.prems(4) and X = Cons.prems(5)
  let ?q = "b @ [x]"
  let ?D = "insert ?q (set (chain ?q xs))"
  have q: "dk_names k ?q = None" using none by simp
  let ?make = "\<lambda>level _. bind_a (create_level level) (\<lambda>_. if level \<noteq> [] then fs_sync_dir (parent level) else return_a ())"
  have step: "wp (for_a (chain b (x # xs)) () ?make) Q X
      = wp (create_level ?q) (\<lambda>_. wp (fs_sync_dir b) (\<lambda>_. wp (for_a (chain ?q xs) () ?make) Q X) X) X"
    by (simp add: wp_simps)
  show ?case
    unfolding step
  proof (rule wp_create_level [OF env q])
    show "dk_names k (parent ?q) = Some Directory" using dir by simp
    fix k1 assume k1: "disk_env faulty k1" "same_disk (k\<lparr>dk_names := (dk_names k)(?q \<mapsto> Directory)\<rparr>) k1"
    have n1: "dk_names k1 = (dk_names k)(?q \<mapsto> Directory)" "dk_kept k1 = dk_kept k" "dk_data k1 = dk_data k"
      "dk_flushed k1 = dk_flushed k" "dk_fresh k1 = dk_fresh k"
      using k1(2) by (simp_all add: same_disk_def)
    have g1: "grown ?D k k1" using q by (simp add: grown_def n1)
    have dir1: "dk_names k1 b = Some Directory" using dir by (simp add: n1)
    show "wp (fs_sync_dir b) (\<lambda>_. wp (for_a (chain ?q xs) () ?make) Q X) X k1"
    proof (rule wp_fs_sync_dir [OF k1(1) dir1])
      fix k2 assume k2: "disk_env faulty k2"
        "same_disk (k1\<lparr>dk_kept := (\<lambda>q. if q \<noteq> [] \<and> parent q = b then dk_names k1 q else dk_kept k1 q)\<rparr>) k2"
      have n2: "dk_names k2 = dk_names k1" "dk_data k2 = dk_data k1" "dk_flushed k2 = dk_flushed k1" "dk_fresh k2 = dk_fresh k1"
        "dk_kept k2 = (\<lambda>q. if q \<noteq> [] \<and> parent q = b then dk_names k1 q else dk_kept k1 q)"
        using k2(2) by (simp_all add: same_disk_def)
      have g2: "grown ?D k k2" using q by (simp add: grown_def n1 n2)
      have durable: "dirs_durable D k2" if "dirs_durable D k" for D
        using that by (auto simp: dirs_durable_def n1 n2)
      have longer: "?q \<notin> set (chain ?q xs)" using chain_longer [of ?q ?q xs] by auto
      show "wp (for_a (chain ?q xs) () ?make) Q X k2"
      proof (rule Cons.IH [OF k2(1)])
        show "dk_names k2 ?q = Some Directory" by (simp add: n1 n2)
        show "\<forall>q \<in> set (chain ?q xs). dk_names k2 q = None" using none longer by (auto simp: n1 n2)
        fix k' assume k': "disk_env faulty k'" "grown (set (chain ?q xs)) k2 k'" "\<forall>q \<in> set (chain ?q xs). dk_names k' q = Some Directory"
          "\<forall>D. dirs_durable D k2 \<longrightarrow> dirs_durable D k'"
        have "dk_names k2 ?q = Some Directory" by (simp add: n1 n2)
        with grown_name [OF k'(2)] have "dk_names k' ?q = Some Directory" .
        then show "Q () k'"
          using Q [OF k'(1)] grown_trans [OF g2 grown_mono [OF k'(2)]] k'(3,4) durable by auto
      next
        fix k' assume "faulty" "disk_env faulty k'" "grown (set (chain ?q xs)) k2 k'"
        then show "X IoOther k'" using X grown_trans [OF g2 grown_mono [of _ k2 k' ?D]] by auto
      qed
    next
      fix k' assume "faulty" "disk_env faulty k'" "same_disk k1 k'"
      then show "X IoOther k'" using X grown_trans [OF g1 grown_same] by auto
    qed
  next
    fix k' assume "faulty" "disk_env faulty k'" "same_disk k k'"
    then show "X IoOther k'" using X grown_same by auto
  qed simp
qed

text \<open>The whole: every level is a directory afterwards, and nothing else has changed.\<close>

lemma wp_create_dir_durable:
  assumes "disk_env faulty k" and "dk_names k stop = Some Directory"
    and "\<forall>q \<in> set (chain stop xs). \<forall>i. dk_names k q \<noteq> Some (File i)"
    and "\<And>k'. disk_env faulty k' \<Longrightarrow> grown (set (chain stop xs)) k k' \<Longrightarrow> dk_names k' (stop @ xs) = Some Directory
      \<Longrightarrow> (\<forall>D. dirs_durable D k \<longrightarrow> dirs_durable D k') \<Longrightarrow> Q () k'"
    and "\<And>k'. faulty \<Longrightarrow> disk_env faulty k' \<Longrightarrow> grown (set (chain stop xs)) k k' \<Longrightarrow> X IoOther k'"
  shows "wp (create_dir_durable (stop @ xs) stop) Q X k"
  unfolding create_dir_durable_def wp_simps
proof (rule wp_fs_try_exists [OF assms(1)])
  have dir: "dk_names k (stop @ pre) = Some Directory" if "dk_names k (stop @ pre) \<noteq> None" "xs = pre @ post" for pre post
  proof (cases pre rule: rev_cases)
    case (snoc ys y)
    have "stop @ pre \<in> set (chain stop xs)" by (simp add: that(2) snoc chain_append)
    with assms(3) that(1) show ?thesis by (metis not_None_eq node.exhaust)
  qed (use assms(2) in simp)
  fix k1 assume k1: "disk_env faulty k1" "same_disk k k1"
  show "wp (if dk_names k (stop @ xs) \<noteq> None then return_a ()
      else bind_a (missing_levels stop (stop @ xs)) (\<lambda>missing. for_a (rev missing) () (\<lambda>level _.
        bind_a (create_level level) (\<lambda>_. if level \<noteq> [] then fs_sync_dir (parent level) else return_a ())))) Q X k1"
  proof (cases "dk_names k (stop @ xs) = None")
    case False
    with dir [of xs "[]"] assms(4) [OF k1(1) grown_same [OF k1(2)]] k1(2) dirs_durable_same [OF k1(2)] show ?thesis
      by (simp add: wp_simps same_disk_simps)
  next
    case True
    show ?thesis
    proof (simp add: True wp_simps, rule wp_missing_levels [OF k1(1)])
      show "dk_names k1 stop = Some Directory" using assms(2) k1(2) by (simp add: same_disk_simps)
      fix levels k2 pre post
      assume k2: "disk_env faulty k2" "same_disk k1 k2" and xs: "xs = pre @ post" and rev: "rev levels = chain (stop @ pre) post"
        and there: "dk_names k1 (stop @ pre) \<noteq> None" and none: "\<forall>q \<in> set levels. dk_names k1 q = None"
      note same = same_disk_trans [OF k1(2) k2(2)]
      have none': "\<forall>q \<in> set (chain (stop @ pre) post). dk_names k2 q = None"
        using none rev k2(2) by (metis set_rev same_disk_simps(1))
      have sub: "set (chain (stop @ pre) post) \<subseteq> set (chain stop xs)" by (simp add: xs chain_append)
      show "wp (for_a (rev levels) () (\<lambda>level _. bind_a (create_level level) (\<lambda>_.
          if level \<noteq> [] then fs_sync_dir (parent level) else return_a ()))) Q X k2"
        unfolding rev
      proof (rule wp_create_chain [OF k2(1) _ none'])
        show "dk_names k2 (stop @ pre) = Some Directory"
          using dir [OF _ xs] there k1(2) k2(2) by (simp add: same_disk_simps)
        fix k' assume k': "disk_env faulty k'" "grown (set (chain (stop @ pre) post)) k2 k'"
          "\<forall>q \<in> set (chain (stop @ pre) post). dk_names k' q = Some Directory" "\<forall>D. dirs_durable D k2 \<longrightarrow> dirs_durable D k'"
        have "post \<noteq> []" using there True k1(2) xs by (auto simp: same_disk_simps)
        then obtain ys y where "post = ys @ [y]" by (metis rev_exhaust)
        then have "stop @ xs \<in> set (chain (stop @ pre) post)" by (simp add: xs chain_append)
        with k'(3) have "dk_names k' (stop @ xs) = Some Directory" by blast
        moreover have "grown (set (chain stop xs)) k k'"
          using grown_trans [OF grown_same [OF same] grown_mono [OF k'(2) sub]] .
        ultimately show "Q () k'" using assms(4) [OF k'(1)] k'(4) dirs_durable_same [OF same] by blast
      next
        fix k' assume "faulty" "disk_env faulty k'" "grown (set (chain (stop @ pre) post)) k2 k'"
        then show "X IoOther k'" using assms(5) grown_trans [OF grown_same [OF same] grown_mono [OF _ sub]] by blast
      qed
    next
      fix k' assume "faulty" "disk_env faulty k'" "same_disk k1 k'"
      then show "X IoOther k'" using assms(5) grown_same [OF same_disk_trans [OF k1(2)]] by blast
    qed
  qed
next
  fix k' assume "faulty" "disk_env faulty k'" "same_disk k k'"
  then show "X IoOther k'" using assms(5) grown_same by blast
qed

end
