(* ===== verification/Summ_Stream.thy ===== *)
theory Summ_Stream
  imports Summ_Storage
begin

text \<open>
  Reading blobs (\<open>summ-storage/src/read.rs\<close>): ranges resolved against a size, an open blob, and the stream that
  delivers it in chunks with one read in flight ahead of the chunk it hands out. A read is modelled where it is issued; polling a stream
  returns the chunk once its read is done, so that only the ready answers of \<open>poll_next\<close> appear.
\<close>

section \<open>Ranges\<close>

datatype read_range = Inclusive u64 u64 | StartingAt u64 | Suffix u64

record resolved_range =
  rr_start :: u64
  rr_end :: u64

fun resolve_read :: "read_range \<Rightarrow> u64 \<Rightarrow> resolved_range option" where
  "resolve_read (Inclusive a b) len =
     (if b < a \<or> len \<le> a then None else Some \<lparr>rr_start = a, rr_end = min b (len - 1)\<rparr>)"
| "resolve_read (StartingAt a) len =
     (if len \<le> a then None else Some \<lparr>rr_start = a, rr_end = len - 1\<rparr>)"
| "resolve_read (Suffix n) len =
     (if n = 0 \<or> len = 0 then None else Some \<lparr>rr_start = sat_sub len n, rr_end = len - 1\<rparr>)"

definition resolved_len :: "resolved_range \<Rightarrow> u64" where
  "resolved_len r = rr_end r - rr_start r + 1"

section \<open>An open blob and its stream\<close>

record blob_file =
  bf_file :: nat
  bf_size :: u64
  bf_chunk_size :: nat

record blob_stream =
  bt_file :: nat
  bt_next_offset :: u64
  bt_end_offset :: u64
  bt_chunk_size :: nat
  bt_inflight :: "((io_error + bytes) \<times> u64) option"

definition stream_from :: "blob_file \<Rightarrow> u64 \<Rightarrow> u64 \<Rightarrow> blob_stream" where
  "stream_from b offset len =
     \<lparr>bt_file = bf_file b, bt_next_offset = offset, bt_end_offset = offset + len, bt_chunk_size = bf_chunk_size b,
      bt_inflight = None\<rparr>"

definition blob_resolve :: "blob_file \<Rightarrow> read_range \<Rightarrow> resolved_range option" where
  "blob_resolve b r = resolve_read r (bf_size b)"

definition stream_blob :: "blob_file \<Rightarrow> blob_stream" where
  "stream_blob b = stream_from b 0 (bf_size b)"

definition stream_range :: "blob_file \<Rightarrow> resolved_range \<Rightarrow> blob_stream" where
  "stream_range b r =
     (let start = min (rr_start r) (bf_size b);
          last = min (rr_end r) (sat_sub (bf_size b) 1);
          len = (if bf_size b = 0 \<or> last < start then 0 else last - start + 1)
      in stream_from b start len)"

definition stream_len :: "blob_stream \<Rightarrow> u64" where
  "stream_len t = (bt_end_offset t - bt_next_offset t) + (case bt_inflight t of None \<Rightarrow> 0 | Some (_, n) \<Rightarrow> n)"

definition stream_size_hint :: "blob_stream \<Rightarrow> nat" where
  "stream_size_hint t =
     (let chunk = max (bt_chunk_size t) 1 in (unat (stream_len t) + chunk - 1) div chunk)"

definition spawn_next :: "blob_stream \<Rightarrow> disk \<Rightarrow> blob_stream \<times> disk" where
  "spawn_next t k =
     (let remaining = bt_end_offset t - bt_next_offset t in
      if remaining = 0 then (t, k)
      else
        let len = min (unat remaining) (bt_chunk_size t)
        in case read_exact_at (bt_file t) (bt_next_offset t) len k of
             (r, k') \<Rightarrow>
               (t\<lparr>bt_next_offset := bt_next_offset t + word_of_nat len, bt_inflight := Some (r, word_of_nat len)\<rparr>, k'))"

definition poll_stream :: "blob_stream \<Rightarrow> disk \<Rightarrow> ((io_error + bytes) option \<times> blob_stream) \<times> disk" where
  "poll_stream t k =
     (case (if bt_inflight t = None then spawn_next t k else (t, k)) of
        (t, k) \<Rightarrow>
          (case bt_inflight t of
             None \<Rightarrow> ((None, t), k)
           | Some (Inl e, _) \<Rightarrow> ((Some (Inl e), t\<lparr>bt_inflight := None, bt_next_offset := bt_end_offset t\<rparr>), k)
           | Some (Inr chunk, _) \<Rightarrow>
               (case spawn_next (t\<lparr>bt_inflight := None\<rparr>) k of (t', k') \<Rightarrow> ((Some (Inr chunk), t'), k'))))"

text \<open>
  A consumer that polls until the stream ends or fails: the bytes it got and whether the stream failed. Each poll but the last makes
  the stream shorter, so that its length plus one is fuel enough.
\<close>

fun consume :: "nat \<Rightarrow> blob_stream \<Rightarrow> disk \<Rightarrow> (bytes \<times> bool) \<times> disk" where
  "consume 0 t k = (([], True), k)"
| "consume (Suc n) t k =
     (case poll_stream t k of
        ((None, _), k') \<Rightarrow> (([], False), k')
      | ((Some (Inl _), _), k') \<Rightarrow> (([], True), k')
      | ((Some (Inr chunk), t'), k') \<Rightarrow>
          (case consume n t' k' of ((rest, failed), k'') \<Rightarrow> ((chunk @ rest, failed), k'')))"

definition read_stream :: "blob_stream \<Rightarrow> disk \<Rightarrow> (bytes \<times> bool) \<times> disk" where
  "read_stream t = consume (unat (stream_len t) + 1) t"

definition store_open_blob :: "blob_store \<Rightarrow> digest \<Rightarrow> blob_file sto" where
  "store_open_blob B d =
     bind_a (map_err_a (\<lambda>e. if e = IoNotFound then NotFound else Storage ''opening blob'')
               (fs_open (snd (blob_path (st_root B) d)))) (\<lambda>f.
     bind_a (told ''stat blob'' (fs_len f)) (\<lambda>size.
       return_a \<lparr>bf_file = f, bf_size = size, bf_chunk_size = st_read_chunk_size B\<rparr>))"

end
