(* ===== verification/Summ_Backend.thy ===== *)
theory Summ_Backend
  imports Summ_Counters Summ_Seam Summ_Stream
begin

text \<open>
  The registry that the binary runs (\<open>summ-server/src/backend.rs\<close>): the operations of \<open>summ-registry\<close> over the metadata engine, with the
  bytes in the blob store. This theory has the parts and the operations of the trait; purge and the flush of pull counts are in
  \<open>Summ_Passes\<close>.

  A request is one step on the state, so the locks are not modelled; where the code holds a lock only over the second half of an operation, the
  two halves are separate definitions. The clock and the generated ids are functions of the number of times they were asked, so
  that nothing is assumed of either. A stream that goes out is the bytes it delivers.
\<close>

section \<open>The backend and its state\<close>

record ('s, 'c, 'h, 'b) backend =
  be_ops :: "('s, 'c) registry"
  be_blobs :: blob_store
  be_purge :: purge_config
  be_sha :: "'h sha2"
  be_clock :: "nat \<Rightarrow> u64"
  be_elapsed :: "nat \<Rightarrow> u64"
  be_uuid :: "nat \<Rightarrow> string"
  be_frames :: "'b \<Rightarrow> (string + bytes) list"

record ('s, 'c) backend_state =
  bx_meta :: "('s, 'c) rstate"
  bx_disk :: disk
  bx_last_pass :: "purge_report option"
  bx_purge_mark :: "repo_id option"
  bx_reads :: nat

type_synonym ('s, 'c, 'a) served = "(('s, 'c) backend_state, 'a) ops"

definition now :: "('s, 'c, 'h, 'b) backend \<Rightarrow> ('s, 'c, timestamp) served" where
  "now E = (\<lambda>s. (Inr (from_millis (be_clock E (bx_reads s))), s\<lparr>bx_reads := bx_reads s + 1\<rparr>))"

definition new_uuid :: "('s, 'c, 'h, 'b) backend \<Rightarrow> ('s, 'c, string) served" where
  "new_uuid E = (\<lambda>s. (Inr (be_uuid E (bx_reads s)), s\<lparr>bx_reads := bx_reads s + 1\<rparr>))"

section \<open>Errors\<close>

fun summ_text :: "summ_error \<Rightarrow> string" where
  "summ_text (Storage m) = ''storage error: '' @ m"
| "summ_text NotFound = ''not found''"
| "summ_text (InvalidData m) = ''invalid data: '' @ m"
| "summ_text (InvalidDigest m) = ''invalid digest: '' @ m"

text \<open>\<open>{:?}\<close> of a string, less its escapes.\<close>

definition quoted :: "string \<Rightarrow> string" where
  "quoted t = CHR 0x22 # t @ [CHR 0x22]"

text \<open>The two outcomes that are no \<open>RegistryError\<close> stand for the failed task.\<close>

fun ops_error_of :: "registry_error \<Rightarrow> ops_error" where
  "ops_error_of (NameUnknown _) = OpsRepoUnknown"
| "ops_error_of (ManifestUnknown _ _) = OpsManifestUnknown"
| "ops_error_of (BlobUnknown _ _) = OpsBlobUnknown"
| "ops_error_of (DigestInvalid _) = OpsDigestMismatch"
| "ops_error_of (TagInvalid t reason) = OpsManifestInvalid (''tag '' @ quoted t @ '': '' @ reason)"
| "ops_error_of (ManifestInvalid reason) = OpsManifestInvalid reason"
| "ops_error_of (ManifestBlobUnknown _ d) = OpsManifestBlobUnknown d"
| "ops_error_of (Meta e) = OpsInternal (summ_text e)"
| "ops_error_of Panicked = OpsInternal ''metadata task failed''"
| "ops_error_of Diverged = OpsInternal ''metadata task failed''"

fun storage_error :: "summ_error \<Rightarrow> ops_error" where
  "storage_error NotFound = OpsBlobUnknown"
| "storage_error (InvalidDigest _) = OpsDigestMismatch"
| "storage_error (InvalidData m) = OpsInternal m"
| "storage_error (Storage m) = OpsInternal m"

text \<open>
  A call of the layer below. One that runs off the reactor (\<open>write\<close>, \<open>scan\<close>) reports a panic as a failed task, one that runs
  inline panics; a loop that does not end does not return in either.
\<close>

definition meta_call :: "(registry_error \<Rightarrow> 'e halt) \<Rightarrow> ('s, 'c, 'a) op \<Rightarrow> (('s, 'c) backend_state, 'e halt, 'a) action" where
  "meta_call f m = (\<lambda>s. case m (bx_meta s) of (r, t) \<Rightarrow> (map_err f r, s\<lparr>bx_meta := t\<rparr>))"

definition disk_call :: "(summ_error \<Rightarrow> 'e halt) \<Rightarrow> 'a sto \<Rightarrow> (('s, 'c) backend_state, 'e halt, 'a) action" where
  "disk_call f m = (\<lambda>s. case m (bx_disk s) of (r, k) \<Rightarrow> (map_err f r, s\<lparr>bx_disk := k\<rparr>))"

definition offload :: "('s, 'c, 'a) op \<Rightarrow> ('s, 'c, 'a) served" where
  "offload m = meta_call (\<lambda>e. if e = Diverged then Panicking else Fails (ops_error_of e)) m"

definition inline :: "('s, 'c, 'a) op \<Rightarrow> ('s, 'c, 'a) served" where
  "inline m = meta_call (\<lambda>e. if e = Diverged \<or> e = Panicked then Panicking else Fails (ops_error_of e)) m"

definition on_disk :: "'a sto \<Rightarrow> ('s, 'c, 'a) served" where
  "on_disk m = disk_call (\<lambda>e. Fails (storage_error e)) m"

section \<open>Bodies and ids\<close>

text \<open>The frames of a body, appended one by one; what arrived is counted before it is written.\<close>

fun drain_frames ::
    "'h sha2 \<Rightarrow> u64 option \<Rightarrow> (string + bytes) list \<Rightarrow> 'h upload \<Rightarrow> u64 \<Rightarrow> (disk, ops_error, 'h upload \<times> u64) action" where
  "drain_frames L limit [] u written = return_a (u, written)"
| "drain_frames L limit (Inl e # frames) u written = fail_a (OpsBodyIncomplete e)"
| "drain_frames L limit (Inr chunk # frames) u written =
     (if chunk = [] then drain_frames L limit frames u written
      else
        let written = sat_add written (word_of_nat (length chunk)) in
        case limit of
          Some l \<Rightarrow>
            if l < written then fail_a (OpsBodyTooLarge l)
            else bind_a (map_err_a storage_error (append_chunk L u (up_offset u) chunk)) (\<lambda>u. drain_frames L limit frames u written)
        | None \<Rightarrow>
            bind_a (map_err_a storage_error (append_chunk L u (up_offset u) chunk)) (\<lambda>u. drain_frames L limit frames u written))"

definition drain_into ::
    "'h sha2 \<Rightarrow> ('b \<Rightarrow> (string + bytes) list) \<Rightarrow> 'h upload \<Rightarrow> 'b upload_body \<Rightarrow> (disk, ops_error, 'h upload \<times> u64) action" where
  "drain_into L frames u b =
     (if (case (ub_declared b, ub_limit b) of (Some d, Some l) \<Rightarrow> l < d | _ \<Rightarrow> False) then fail_a (OpsBodyTooLarge (the (ub_limit b)))
      else
        bind_a (drain_frames L (ub_limit b) (frames (ub_body b)) u 0) (\<lambda>(u, written).
          case ub_declared b of
            Some d \<Rightarrow> if d \<noteq> written then fail_a (OpsSizeMismatch d written) else return_a (u, written)
          | None \<Rightarrow> return_a (u, written)))"

definition drained :: "('s, 'c, 'h, 'b) backend \<Rightarrow> 'h upload \<Rightarrow> 'b upload_body \<Rightarrow> ('s, 'c, 'h upload) served" where
  "drained E u b =
     (\<lambda>s. case drain_into (be_sha E) (be_frames E) u b (bx_disk s) of
        (r, k) \<Rightarrow> (map_err Fails (and_then r (\<lambda>(u, _). Inr u)), s\<lparr>bx_disk := k\<rparr>))"

definition session_key :: "string \<Rightarrow> ops_error + bytes16" where
  "session_key i = map_err (\<lambda>_. OpsUploadUnknown) (parse_upload_id i)"

definition upload_id :: "string \<Rightarrow> ops_error + string" where
  "upload_id i = map_err (\<lambda>_. OpsUploadUnknown) (new_upload_id i)"

text \<open>The session of an upload, or the answer that there is none; the check of the offset against it.\<close>

definition session_in :: "('s, 'c, 'h, 'b) backend \<Rightarrow> string \<Rightarrow> bytes16 \<Rightarrow> ('s, 'c, upload_session) served" where
  "session_in E name key =
     bind_a (inline (get_upload_in (be_ops E) name key)) (\<lambda>found. of_result (ok_or OpsUploadUnknown found))"

definition live_session :: "('s, 'c, 'h, 'b) backend \<Rightarrow> string \<Rightarrow> bytes16 \<Rightarrow> u64 \<Rightarrow> ('s, 'c, upload_session) served" where
  "live_session E name key expected_offset =
     bind_a (session_in E name key) (\<lambda>session.
       if us_offset session \<noteq> expected_offset then fail_a (Fails (OpsOffsetMismatch (us_offset session))) else return_a session)"

definition resume :: "('s, 'c, 'h, 'b) backend \<Rightarrow> string \<Rightarrow> upload_session \<Rightarrow> ('s, 'c, 'h upload) served" where
  "resume E i session =
     bind_a (of_result (upload_id i)) (\<lambda>i.
     bind_a (of_result (map_err (\<lambda>e. OpsInternal (summ_text e)) (algorithm_from_name (us_algorithm session)))) (\<lambda>algo.
       on_disk (store_resume_upload (be_sha E) (be_blobs E) i algo (us_offset session) (us_hasher_state session))))"

section \<open>Repositories and tags\<close>

definition be_repositories :: "('s, 'c, 'h, 'b) backend \<Rightarrow> string option \<Rightarrow> nat \<Rightarrow> ('s, 'c, string seam_page) served" where
  "be_repositories E last_name limit =
     bind_a (inline (list_repos (be_ops E) last_name limit)) (\<lambda>page.
       return_a \<lparr>page_items = rl_repos page, page_more = (rl_next page \<noteq> None)\<rparr>)"

definition be_tags :: "('s, 'c, 'h, 'b) backend \<Rightarrow> string \<Rightarrow> string option \<Rightarrow> nat \<Rightarrow> ('s, 'c, string seam_page) served" where
  "be_tags E name last_tag limit =
     bind_a (inline (list_tags (be_ops E) name last_tag limit)) (\<lambda>page.
       return_a \<lparr>page_items = tl_tags page, page_more = (tl_next page \<noteq> None)\<rparr>)"

text \<open>The sweeper is woken after the commit; its passes are steps of their own.\<close>

definition be_delete_repository :: "('s, 'c, 'h, 'b) backend \<Rightarrow> string \<Rightarrow> ('s, 'c, unit) served" where
  "be_delete_repository E name =
     bind_a (now E) (\<lambda>t. offload (bind_a (delete_repository (be_ops E) name t) (\<lambda>_. return_a ())))"

section \<open>Manifests\<close>

definition be_stat_manifest :: "('s, 'c, 'h, 'b) backend \<Rightarrow> string \<Rightarrow> http_reference \<Rightarrow> ('s, 'c, manifest_stat) served" where
  "be_stat_manifest E name ref =
     bind_a (inline (head_manifest (be_ops E) name (as_ops_reference ref))) (\<lambda>found.
     bind_a (of_result (ok_or OpsManifestUnknown found)) (\<lambda>head.
       return_a \<lparr>ms_digest = mh_digest head, ms_media_type = mh_media_type head, ms_size = mh_size head\<rparr>))"

definition be_get_manifest :: "('s, 'c, 'h, 'b) backend \<Rightarrow> string \<Rightarrow> http_reference \<Rightarrow> ('s, 'c, manifest_stat \<times> bytes) served" where
  "be_get_manifest E name ref =
     bind_a (inline (case ref of TagName t \<Rightarrow> get_manifest_by_tag (be_ops E) name t
                               | DigestName d \<Rightarrow> get_manifest_by_digest (be_ops E) name d)) (\<lambda>found.
     bind_a (of_result (ok_or OpsManifestUnknown found)) (\<lambda>stored.
       return_a (\<lparr>ms_digest = sm_digest stored, ms_media_type = sm_media_type stored, ms_size = word_of_nat (length (sm_body stored))\<rparr>,
                 sm_body stored)))"

text \<open>The copy of a manifest in the blob store; its staging file is removed when it cannot be committed.\<close>

definition archive_manifest :: "('s, 'c, 'h, 'b) backend \<Rightarrow> digest \<Rightarrow> bytes \<Rightarrow> ('s, 'c, unit) served" where
  "archive_manifest E d body =
     bind_a (on_disk (store_contains (be_blobs E) d)) (\<lambda>there.
     if there then return_a ()
     else
       bind_a (new_uuid E) (\<lambda>uuid.
       bind_a (of_result (map_err (\<lambda>e. OpsInternal (summ_text e)) (new_upload_id (''manifest-'' @ uuid)))) (\<lambda>i.
       bind_a (on_disk (store_create_upload (be_sha E) (be_blobs E) i (algorithm_of d))) (\<lambda>u s.
         case bind_a (on_disk (append_chunk (be_sha E) u 0 body)) (\<lambda>u. on_disk (store_commit_upload (be_sha E) (be_blobs E) u d)) s of
           (Inr _, s') \<Rightarrow> (Inr (), s')
         | (Inl e, s') \<Rightarrow> (Inl e, snd (on_disk (store_cancel_upload (be_blobs E) i) s'))))))"

definition put_request :: "string \<Rightarrow> http_reference \<Rightarrow> string \<Rightarrow> bytes \<Rightarrow> timestamp \<Rightarrow> manifest_put" where
  "put_request name ref content_type body t =
     \<lparr>mp_repo = name, mp_reference = as_ops_reference ref, mp_body = body, mp_content_type = Some content_type, mp_now = t\<rparr>"

text \<open>
  Planned once to be checked, then the copy, then planned again and applied: the second plan and its application are
  \<open>put_manifest_tagged\<close>, under the lock of the repository.
\<close>

definition be_put_manifest ::
    "('s, 'c, 'h, 'b) backend \<Rightarrow> string \<Rightarrow> http_reference \<Rightarrow> string \<Rightarrow> string list \<Rightarrow> bytes \<Rightarrow> ('s, 'c, manifest_done) served" where
  "be_put_manifest E name ref content_type tags body =
     bind_a (now E) (\<lambda>t.
     bind_a (offload (plan_manifest_put_tagged (be_ops E) (put_request name ref content_type body t) tags)) (\<lambda>(planned, _).
     bind_a (archive_manifest E (po_digest planned) body) (\<lambda>_.
     bind_a (offload (put_manifest_tagged (be_ops E) (put_request name ref content_type body t) tags)) (\<lambda>outcome.
       return_a \<lparr>manifest_done.md_digest = po_digest outcome, md_subject = po_subject outcome, md_tags = tags\<rparr>))))"

definition be_delete_manifest :: "('s, 'c, 'h, 'b) backend \<Rightarrow> string \<Rightarrow> http_reference \<Rightarrow> ('s, 'c, unit) served" where
  "be_delete_manifest E name ref =
     bind_a (now E) (\<lambda>t.
       offload (case as_ops_reference ref of
           Tag tag \<Rightarrow> bind_a (delete_tag (be_ops E) name tag t) (\<lambda>_. return_a ())
         | DigestRef d \<Rightarrow> bind_a (delete_manifest (be_ops E) name d t) (\<lambda>_. return_a ())))"

section \<open>Blobs\<close>

text \<open>\<open>map_err(|_| OpsError::BlobUnknown)\<close>: any failure of the lookup is a missing blob.\<close>

definition blob_lookup :: "('s, 'c, 'a) op \<Rightarrow> ('s, 'c, 'a) served" where
  "blob_lookup m = meta_call (\<lambda>e. if e = Diverged \<or> e = Panicked then Panicking else Fails OpsBlobUnknown) m"

definition be_stat_blob :: "('s, 'c, 'h, 'b) backend \<Rightarrow> string \<Rightarrow> digest \<Rightarrow> ('s, 'c, u64) served" where
  "be_stat_blob E name d =
     bind_a (blob_lookup (servable_blob (be_ops E) name d)) (\<lambda>found.
     bind_a (of_result (ok_or OpsBlobUnknown found)) (\<lambda>record. return_a (br_size record)))"

definition stream_body :: "blob_stream \<Rightarrow> ('s, 'c, bytes) served" where
  "stream_body t = (\<lambda>s. case read_stream t (bx_disk s) of ((out, _), k) \<Rightarrow> (Inr out, s\<lparr>bx_disk := k\<rparr>))"

definition outside_text :: "byte_range \<Rightarrow> digest \<Rightarrow> u64 \<Rightarrow> string" where
  "outside_text r d total_size =
     ''range '' @ show_nat (unat (range_start r)) @ ''-'' @ show_nat (unat (range_end r)) @ '' outside blob '' @ to_string d @ '' of ''
       @ show_nat (unat total_size) @ '' bytes''"

definition be_get_blob :: "('s, 'c, 'h, 'b) backend \<Rightarrow> string \<Rightarrow> digest \<Rightarrow> byte_range option \<Rightarrow> ('s, 'c, blob_read) served" where
  "be_get_blob E name d window =
     bind_a (blob_lookup (blob_is_servable (be_ops E) name d)) (\<lambda>ok.
     if \<not> ok then fail_a (Fails OpsBlobUnknown)
     else
       bind_a (on_disk (store_open_blob (be_blobs E) d)) (\<lambda>blob.
       bind_a (case window of
           Some r \<Rightarrow>
             of_result (and_then (ok_or (OpsInternal (outside_text r d (bf_size blob))) (blob_resolve blob (Inclusive (range_start r) (range_end r))))
               (\<lambda>resolved. Inr (stream_range blob resolved)))
         | None \<Rightarrow> return_a (stream_blob blob)) (\<lambda>stream.
       bind_a (stream_body stream) (\<lambda>out.
         return_a \<lparr>bd_total_size = bf_size blob, bd_window = window, bd_body = out\<rparr>))))"

definition be_delete_blob :: "('s, 'c, 'h, 'b) backend \<Rightarrow> string \<Rightarrow> digest \<Rightarrow> ('s, 'c, unit) served" where
  "be_delete_blob E name d =
     offload
       (bind_a (blob_is_servable (be_ops E) name d) (\<lambda>ok.
        if \<not> ok then fail_a (BlobUnknown name d)
        else bind_a (delete_blob_reference (be_ops E) name d) (\<lambda>_. return_a ())))"

definition mount_size :: "('s, 'c) registry \<Rightarrow> digest \<Rightarrow> string option \<Rightarrow> ('s, 'c, u64 option) op" where
  "mount_size G d source =
     (case source of
        Some from_name \<Rightarrow>
          bind_a (blob_is_servable G from_name d) (\<lambda>ok.
            if \<not> ok then return_a None else bind_a (blob_metadata G d) (\<lambda>r. return_a (map_option br_size r)))
      | None \<Rightarrow> bind_a (blob_metadata G d) (\<lambda>r. return_a (map_option br_size r)))"

definition be_mount_blob :: "('s, 'c, 'h, 'b) backend \<Rightarrow> string \<Rightarrow> digest \<Rightarrow> string option \<Rightarrow> ('s, 'c, bool) served" where
  "be_mount_blob E name d source =
     bind_a (now E) (\<lambda>t.
     offload
       (bind_a (mount_size (be_ops E) d source) (\<lambda>found.
          case found of
            None \<Rightarrow> return_a False
          | Some n \<Rightarrow> bind_a (commit_blob (be_ops E) name d n t) (\<lambda>_. return_a True))))"

section \<open>Uploads\<close>

definition be_create_upload :: "('s, 'c, 'h, 'b) backend \<Rightarrow> string \<Rightarrow> string \<Rightarrow> string \<Rightarrow> ('s, 'c, unit) served" where
  "be_create_upload E name i algo =
     bind_a (of_result (session_key i)) (\<lambda>key.
     bind_a (of_result (map_err (\<lambda>e. OpsManifestInvalid (summ_text e)) (algorithm_from_name algo))) (\<lambda>a.
     bind_a (of_result (upload_id i)) (\<lambda>file.
     bind_a (on_disk (store_create_upload (be_sha E) (be_blobs E) file a)) (\<lambda>_.
     bind_a (now E) (\<lambda>t.
       offload (bind_a (create_upload (be_ops E) name key algo t) (\<lambda>_. return_a ())))))))"

definition be_upload_offset :: "('s, 'c, 'h, 'b) backend \<Rightarrow> string \<Rightarrow> string \<Rightarrow> ('s, 'c, u64) served" where
  "be_upload_offset E name i =
     bind_a (of_result (session_key i)) (\<lambda>key.
     bind_a (session_in E name key) (\<lambda>session. return_a (us_offset session)))"

definition be_append_upload ::
    "('s, 'c, 'h, 'b) backend \<Rightarrow> string \<Rightarrow> string \<Rightarrow> u64 \<Rightarrow> 'b upload_body \<Rightarrow> ('s, 'c, u64) served" where
  "be_append_upload E name i expected_offset b =
     bind_a (of_result (session_key i)) (\<lambda>key.
     bind_a (live_session E name key expected_offset) (\<lambda>session.
     bind_a (resume E i session) (\<lambda>u.
     bind_a (drained E u b) (\<lambda>u.
     bind_a (now E) (\<lambda>t.
     bind_a (of_result (map_err storage_error (hasher_state (be_sha E) u))) (\<lambda>st.
     let session = session\<lparr>us_offset := up_offset u, us_updated_at := secs t, us_hasher_state := Some st\<rparr> in
     bind_a (offload (bind_a (save_upload (be_ops E) key session) (\<lambda>_. return_a ()))) (\<lambda>_.
       return_a (us_offset session))))))))"

text \<open>One batch: the records of the blob and the end of the session.\<close>

definition commit_session :: "('s, 'c) registry \<Rightarrow> string \<Rightarrow> bytes16 \<Rightarrow> digest \<Rightarrow> u64 \<Rightarrow> timestamp \<Rightarrow> ('s, 'c, unit) op" where
  "commit_session G name key d n t =
     bind_a (plan_blob_commit G name d n t) (\<lambda>(_, batch). rg_apply G (batch @ snd (plan_delete_upload key)))"

definition be_finish_upload ::
    "('s, 'c, 'h, 'b) backend \<Rightarrow> string \<Rightarrow> string \<Rightarrow> u64 \<Rightarrow> 'b upload_body \<Rightarrow> digest \<Rightarrow> ('s, 'c, unit) served" where
  "be_finish_upload E name i expected_offset b d =
     bind_a (of_result (session_key i)) (\<lambda>key.
     bind_a (live_session E name key expected_offset) (\<lambda>session.
     bind_a (resume E i session) (\<lambda>u.
     bind_a (on_disk (store_rehash_upload (be_sha E) (be_blobs E) u (algorithm_of d))) (\<lambda>u.
     bind_a (drained E u b) (\<lambda>u.
     bind_a (on_disk (store_commit_upload (be_sha E) (be_blobs E) u d)) (\<lambda>n.
     bind_a (now E) (\<lambda>t.
       offload (commit_session (be_ops E) name key d n t))))))))"

definition be_cancel_upload :: "('s, 'c, 'h, 'b) backend \<Rightarrow> string \<Rightarrow> string \<Rightarrow> ('s, 'c, unit) served" where
  "be_cancel_upload E name i =
     bind_a (of_result (session_key i)) (\<lambda>key.
     bind_a (session_in E name key) (\<lambda>_.
     bind_a (offload (delete_upload (be_ops E) key)) (\<lambda>_.
     bind_a (of_result (upload_id i)) (\<lambda>file.
       on_disk (store_cancel_upload (be_blobs E) file)))))"

definition be_put_blob :: "('s, 'c, 'h, 'b) backend \<Rightarrow> string \<Rightarrow> digest \<Rightarrow> 'b upload_body \<Rightarrow> ('s, 'c, unit) served" where
  "be_put_blob E name d b =
     bind_a (new_uuid E) (\<lambda>uuid.
     bind_a (of_result (map_err (\<lambda>e. OpsInternal (summ_text e)) (new_upload_id (''single-'' @ uuid)))) (\<lambda>i.
     bind_a (on_disk (store_create_upload (be_sha E) (be_blobs E) i (algorithm_of d))) (\<lambda>u s.
       case bind_a (drained E u b) (\<lambda>u. on_disk (store_commit_upload (be_sha E) (be_blobs E) u d)) s of
         (Inr n, s') \<Rightarrow>
           bind_a (now E) (\<lambda>t. offload (bind_a (commit_blob (be_ops E) name d n t) (\<lambda>_. return_a ()))) s'
       | (Inl e, s') \<Rightarrow> (Inl e, snd (on_disk (store_cancel_upload (be_blobs E) i) s')))))"

end
