(* ===== verification/Summ_Views.thy ===== *)
theory Summ_Views
  imports Summ_Backend
begin

text \<open>
  The operations of \<open>backend.rs\<close> beyond the distribution spec: referrers, counted listings, details of tags and
  manifests, tag history and pull counts. A count walks its range a page at a time up to a ceiling.
\<close>

section \<open>Counting\<close>

definition COUNT_CEILING :: u64 where "COUNT_CEILING = 10000"
definition COUNT_STEP :: nat where "COUNT_STEP = 500"

definition platform_label :: "platform \<Rightarrow> string" where
  "platform_label p =
     (case pl_variant p of
        Some variant \<Rightarrow> pl_os p @ ''/'' @ pl_arch p @ ''/'' @ variant
      | None \<Rightarrow> pl_os p @ ''/'' @ pl_arch p)"

partial_function (option) count_from ::
    "('k option \<Rightarrow> ('s, registry_error, u64 \<times> 'k option) action) \<Rightarrow> u64 \<Rightarrow> 'k option \<Rightarrow> 's \<Rightarrow>
     ((registry_error + tally) \<times> 's) option" where
  "count_from step n cursor s =
     (case step cursor s of
        (Inl e, s') \<Rightarrow> Some (Inl e, s')
      | (Inr (added, nxt), s') \<Rightarrow>
          (let n = n + added in
           case nxt of
             None \<Rightarrow> Some (Inr (exact_tally n), s')
           | Some c \<Rightarrow>
               if COUNT_CEILING \<le> n then Some (Inr \<lparr>tally_count = n, tally_complete = False\<rparr>, s')
               else count_from step n (Some c) s'))"

definition count_to_ceiling ::
    "('k option \<Rightarrow> ('s, registry_error, u64 \<times> 'k option) action) \<Rightarrow> ('s, registry_error, tally) action" where
  "count_to_ceiling step = loop_a (count_from step 0 None)"

definition tally_tags :: "('s, 'c) registry \<Rightarrow> string \<Rightarrow> ('s, 'c, tally) op" where
  "tally_tags G repo =
     count_to_ceiling (\<lambda>cursor. bind_a (count_tags G repo cursor COUNT_STEP) (\<lambda>page. return_a (tc_tags page, tc_next page)))"

definition tally_manifests :: "('s, 'c) registry \<Rightarrow> string \<Rightarrow> ('s, 'c, tally) op" where
  "tally_manifests G repo =
     count_to_ceiling (\<lambda>cursor. bind_a (count_manifests G repo cursor COUNT_STEP) (\<lambda>page. return_a (mc_manifests page, mc_next page)))"

text \<open>The total of the bytes is a variable outside the closure: it travels beside the state.\<close>

definition usage_step ::
    "('s, 'c) registry \<Rightarrow> string \<Rightarrow> digest option \<Rightarrow> (('s, 'c) rstate \<times> u64, registry_error, u64 \<times> digest option) action" where
  "usage_step G repo cursor = (\<lambda>(s, bytes).
     case repo_usage G repo cursor COUNT_STEP s of
       (Inl e, s') \<Rightarrow> (Inl e, (s', bytes))
     | (Inr page, s') \<Rightarrow> (Inr (up_blobs page, up_next page), (s', sat_add bytes (up_bytes page))))"

definition count_usage :: "('s, 'c) registry \<Rightarrow> string \<Rightarrow> ('s, 'c, tally \<times> u64) op" where
  "count_usage G repo = (\<lambda>s.
     case count_to_ceiling (usage_step G repo) (s, 0) of (r, (s', bytes)) \<Rightarrow> (and_then r (\<lambda>blobs. Inr (blobs, bytes)), s'))"

section \<open>Rows\<close>

definition add_label :: "child_ref \<Rightarrow> string list \<Rightarrow> string list" where
  "add_label child labels =
     (case map_option platform_label (cr_platform child) of
        Some label \<Rightarrow> if label \<notin> set labels then labels @ [label] else labels
      | None \<Rightarrow> labels)"

definition manifest_info_of :: "('s, 'c) registry \<Rightarrow> string \<Rightarrow> manifest_record \<Rightarrow> ('s, 'c, manifest_info) op" where
  "manifest_info_of G repo record =
     (let own = (case mr_platform record of Some p \<Rightarrow> [platform_label p] | None \<Rightarrow> []);
          platforms = fold add_label (mr_children record) own in
      bind_a (list_manifest_tags G repo (mr_digest record) None TAGS_PER_MANIFEST) (\<lambda>tags.
        return_a \<lparr>mi_digest = mr_digest record, mi_media_type = mr_media_type record, mi_size = mr_size record,
          mi_blob_size = mr_total_layer_size record, mi_artifact_type = mr_artifact_type record,
          mi_subject = mr_subject record, mi_pushed_at = mr_pushed_at record, mi_platforms = platforms,
          mi_blobs = word_of_nat (length (mr_layers record)), mi_children = word_of_nat (length (mr_children record)),
          mi_tags = tl_tags tags, mi_annotations = RBT.bulkload (mr_annotations record)\<rparr>))"

definition descriptor_row :: "referrer_entry \<Rightarrow> seam_descriptor" where
  "descriptor_row e =
     \<lparr>sd_media_type = rr_media_type (fe_record e), sd_digest = fe_digest e, sd_size = rr_size (fe_record e),
      sd_artifact_type = rr_artifact_type (fe_record e), sd_annotations = RBT.bulkload (rr_annotations (fe_record e))\<rparr>"

definition tag_event_row :: "tag_event_entry \<Rightarrow> tag_event_info" where
  "tag_event_row e =
     \<lparr>tag_event_info.ev_at = millis (tag_event_entry.ev_at e), ev_tag = tag_event_entry.ev_tag e,
      ev_digest = tag_event_entry.ev_digest e, ev_deleted = (te_event (ev_event e) = Deleted),
      ev_media_type = te_media_type (ev_event e), ev_size = te_size (ev_event e)\<rparr>"

section \<open>The operations\<close>

definition be_referrers ::
    "('s, 'c, 'h, 'b) backend \<Rightarrow> string \<Rightarrow> digest \<Rightarrow> string option \<Rightarrow> digest option \<Rightarrow> nat \<Rightarrow> ('s, 'c, seam_referrers) served" where
  "be_referrers E name subject artifact_type start_digest limit =
     offload
       (bind_a (referrers (be_ops E) name subject artifact_type start_digest limit) (\<lambda>found.
          return_a \<lparr>rf_manifests = map descriptor_row (fl_entries found), rf_filter_applied = fl_filter_applied found,
                    rf_next = fl_next found\<rparr>))"

definition be_repository_summaries ::
    "('s, 'c, 'h, 'b) backend \<Rightarrow> string \<Rightarrow> string option \<Rightarrow> nat \<Rightarrow> ('s, 'c, repo_page) served" where
  "be_repository_summaries E query last_name limit =
     offload
       (bind_a (search_repos_containing (be_ops E) query last_name limit) (\<lambda>page.
        bind_a (for_a (rl_repos page) [] (\<lambda>name items.
          bind_a (tally_tags (be_ops E) name) (\<lambda>tags.
          bind_a (tally_manifests (be_ops E) name) (\<lambda>manifests.
            return_a (items @ [\<lparr>rs_name = name, rs_tags = tags, rs_manifests = manifests\<rparr>]))))) (\<lambda>items.
          return_a \<lparr>rp_items = items, rp_next = rl_next page\<rparr>)))"

definition be_repository_detail :: "('s, 'c, 'h, 'b) backend \<Rightarrow> string \<Rightarrow> ('s, 'c, repo_detail) served" where
  "be_repository_detail E name =
     offload
       (bind_a (tally_tags (be_ops E) name) (\<lambda>tags.
        bind_a (tally_manifests (be_ops E) name) (\<lambda>manifests.
        bind_a (count_usage (be_ops E) name) (\<lambda>(blobs, size_bytes).
          return_a \<lparr>rd_name = name, rd_tags = tags, rd_manifests = manifests, rd_blobs = blobs, rd_size_bytes = size_bytes\<rparr>))))"

text \<open>A tag that is gone by the time it is looked up is left out.\<close>

definition be_tag_details ::
    "('s, 'c, 'h, 'b) backend \<Rightarrow> string \<Rightarrow> string option \<Rightarrow> nat \<Rightarrow> ('s, 'c, tag_info seam_page) served" where
  "be_tag_details E name last_tag limit =
     offload
       (bind_a (list_tags (be_ops E) name last_tag limit) (\<lambda>page.
        bind_a (for_a (tl_tags page) [] (\<lambda>tag items.
          bind_a (get_tag (be_ops E) name tag) (\<lambda>found.
            case found of
              None \<Rightarrow> return_a items
            | Some record \<Rightarrow>
                bind_a (get_manifest_record (be_ops E) name (tr_digest record)) (\<lambda>m.
                bind_a (case m of
                    Some r \<Rightarrow> bind_a (manifest_info_of (be_ops E) name r) (\<lambda>info. return_a (Some info))
                  | None \<Rightarrow> return_a None) (\<lambda>manifest.
                  return_a (items @ [\<lparr>ti_name = tag, ti_digest = tr_digest record, ti_tagged_at = tr_tagged_at record,
                                      ti_manifest = manifest\<rparr>])))))) (\<lambda>items.
          return_a \<lparr>page_items = items, page_more = (tl_next page \<noteq> None)\<rparr>)))"

definition be_manifest_details ::
    "('s, 'c, 'h, 'b) backend \<Rightarrow> string \<Rightarrow> digest option \<Rightarrow> nat \<Rightarrow> ('s, 'c, manifest_info seam_page) served" where
  "be_manifest_details E name start_digest limit =
     offload
       (bind_a (list_manifests (be_ops E) name start_digest limit) (\<lambda>page.
        bind_a (for_a (nl_manifests page) [] (\<lambda>record items.
          bind_a (manifest_info_of (be_ops E) name record) (\<lambda>info. return_a (items @ [info])))) (\<lambda>items.
          return_a \<lparr>page_items = items, page_more = (nl_next page \<noteq> None)\<rparr>)))"

definition be_manifest_detail :: "('s, 'c, 'h, 'b) backend \<Rightarrow> string \<Rightarrow> http_reference \<Rightarrow> ('s, 'c, manifest_info) served" where
  "be_manifest_detail E name ref =
     offload
       (bind_a (case as_ops_reference ref of
            DigestRef d \<Rightarrow> return_a d
          | Tag t \<Rightarrow>
              bind_a (get_tag (be_ops E) name t) (\<lambda>found.
                lift_a (ok_or (ManifestUnknown name t) (map_option tr_digest found)))) (\<lambda>d.
        bind_a (get_manifest_record (be_ops E) name d) (\<lambda>found.
          case found of
            Some record \<Rightarrow> manifest_info_of (be_ops E) name record
          | None \<Rightarrow> fail_a (ManifestUnknown name (to_string d)))))"

definition be_tag_history ::
    "('s, 'c, 'h, 'b) backend \<Rightarrow> string \<Rightarrow> http_reference \<Rightarrow> u64 option \<Rightarrow> string option \<Rightarrow> nat \<Rightarrow>
     ('s, 'c, tag_event_info list \<times> seam_cursor option) served" where
  "be_tag_history E name ref before_ms last_row limit =
     (let at = map_option from_millis before_ms in
      offload
        (bind_a (case as_ops_reference ref of
             Tag t \<Rightarrow> tag_history (be_ops E) name t at last_row limit
           | DigestRef d \<Rightarrow> manifest_tag_history (be_ops E) name d at last_row limit) (\<lambda>page.
           return_a (map tag_event_row (th_events page),
             map_option (\<lambda>c. \<lparr>cursor_before = millis (hc_before c), cursor_last = hc_last c\<rparr>) (th_next page)))))"

definition be_pull_counts ::
    "('s, 'c, 'h, 'b) backend \<Rightarrow> string \<Rightarrow> pull_count_scope \<Rightarrow> u16 \<Rightarrow> u16 \<Rightarrow> ('s, 'c, pull_count_day list) served" where
  "be_pull_counts E name scope from_day days =
     offload
       (bind_a (case scope of
            RepositoryScope \<Rightarrow> repo_counts (be_ops E) name from_day days
          | TagScope t \<Rightarrow> tag_counts (be_ops E) name t from_day days
          | ManifestScope d \<Rightarrow> manifest_counts (be_ops E) name d from_day days) (\<lambda>series.
          return_a (map (\<lambda>d. \<lparr>pd_day = cy_day d, pd_bucket = cy_bucket d\<rparr>) series)))"

section \<open>The flush of pull counts\<close>

definition count_delta_of :: "recorded \<Rightarrow> count_delta" where
  "count_delta_of r =
     \<lparr>cd_repo = rec_repo r,
      cd_subject = (case rec_subject r of PulledManifest d \<Rightarrow> CountManifest d | PulledTag t \<Rightarrow> CountTag t | PulledRepo \<Rightarrow> CountRepo),
      cd_day = rec_day r, cd_hour = rec_hour r, cd_manifest_pulls = rec_manifest_pulls r, cd_blob_pulls = rec_blob_pulls r,
      cd_bytes_out = rec_bytes_out r\<rparr>"

text \<open>A flush that fails loses the interval's counts, and nothing else.\<close>

definition flush_pull_counts :: "('s, 'c) registry \<Rightarrow> pull_counters \<Rightarrow> ('s, 'c) rstate \<Rightarrow> nat \<times> pull_counters \<times> ('s, 'c) rstate" where
  "flush_pull_counts G counters s =
     (let counters = snd (take_dropped counters);
          (drained, counters) = drain_counters counters in
      if drained = [] then (0, counters, s)
      else
        case add_pull_counts G (map count_delta_of drained) s of
          (Inr written, s') \<Rightarrow> (written, counters, s')
        | (Inl _, s') \<Rightarrow> (0, counters, s'))"

end
