(* ===== verification/Summ_Passes.thy ===== *)
theory Summ_Passes
  imports Summ_Views
begin

text \<open>
  The purge pass of \<open>backend.rs\<close>: its five stages, each a walk over a range of the store in pages, the pass that runs them in order, and
  the registry as an implementation of the trait.
\<close>

section \<open>Calls that report a message\<close>

type_synonym ('s, 'c, 'a) pass = "(('s, 'c) backend_state, string halt, 'a) action"

fun registry_text :: "registry_error \<Rightarrow> string" where
  "registry_text (NameUnknown repo) = ''repository name not known to registry: '' @ repo"
| "registry_text (TagInvalid t reason) = ''invalid tag '' @ quoted t @ '': '' @ reason"
| "registry_text (ManifestInvalid reason) = ''manifest invalid: '' @ reason"
| "registry_text (ManifestUnknown repo ref) = ''manifest unknown: '' @ repo @ ''@'' @ ref"
| "registry_text (ManifestBlobUnknown repo d) = to_string d @ '' is not present in '' @ repo"
| "registry_text (DigestInvalid reason) = ''invalid digest: '' @ reason"
| "registry_text (BlobUnknown repo d) = ''blob unknown to registry: '' @ to_string d @ '' in '' @ repo"
| "registry_text (Meta e) = summ_text e"
| "registry_text Panicked = ''task panicked''"
| "registry_text Diverged = ''task panicked''"

definition blocking :: "('s, 'c, 'a) op \<Rightarrow> ('s, 'c, 'a) pass" where
  "blocking m = meta_call (\<lambda>e. if e = Diverged then Panicking else Fails (registry_text e)) m"

text \<open>A repository that vanished in the middle of a pass is no work.\<close>

definition unless_gone :: "('s, 'c, 'a) op \<Rightarrow> ('s, 'c, 'a option) op" where
  "unless_gone m = (\<lambda>s. case m s of
     (Inr a, s') \<Rightarrow> (Inr (Some a), s')
   | (Inl (NameUnknown _), s') \<Rightarrow> (Inr None, s')
   | (Inl e, s') \<Rightarrow> (Inl e, s'))"

definition optional :: "('s, 'c, 'a) op \<Rightarrow> ('s, 'c, 'a option) pass" where
  "optional m = blocking (unless_gone m)"

section \<open>Walks\<close>

text \<open>\<open>loop { .. match next { Some(next) => cursor = Some(next), None => return } }\<close>\<close>

partial_function (option) walk ::
    "('k option \<Rightarrow> 'r \<Rightarrow> ('s, 'e, 'r \<times> 'k option) action) \<Rightarrow> 'k option \<Rightarrow> 'r \<Rightarrow> 's \<Rightarrow> (('e + 'r) \<times> 's) option" where
  "walk step cursor r s =
     (case step cursor r s of
        (Inl e, s') \<Rightarrow> Some (Inl e, s')
      | (Inr (r', None), s') \<Rightarrow> Some (Inr r', s')
      | (Inr (r', Some c), s') \<Rightarrow> walk step (Some c) r' s')"

definition walked :: "('k option \<Rightarrow> 'r \<Rightarrow> ('s, 'e halt, 'r \<times> 'k option) action) \<Rightarrow> 'r \<Rightarrow> ('s, 'e halt, 'r) action" where
  "walked step r = (\<lambda>s. case walk step None r s of None \<Rightarrow> (Inl Panicking, s) | Some x \<Rightarrow> x)"

section \<open>The stages\<close>

definition PURGE_STEP :: nat where "PURGE_STEP = 500"
definition PURGE_NAMES :: nat where "PURGE_NAMES = 500"
definition PURGE_UPLOADS :: nat where "PURGE_UPLOADS = 10000"

definition ago :: "timestamp \<Rightarrow> u64 \<Rightarrow> timestamp" where
  "ago t span = from_secs (sat_sub (secs t) span)"

definition untagged_page ::
    "('s, 'c, 'h, 'b) backend \<Rightarrow> string \<Rightarrow> timestamp \<Rightarrow> timestamp \<Rightarrow> bool \<Rightarrow>
     bytes option \<Rightarrow> purge_report \<Rightarrow> ('s, 'c, purge_report \<times> bytes option) pass" where
  "untagged_page E repo cutoff t dry_run cursor report =
     bind_a (optional (purgeable_manifests (be_ops E) repo cursor PURGE_STEP cutoff)) (\<lambda>scan.
       case scan of
         None \<Rightarrow> return_a (report, None)
       | Some scan \<Rightarrow>
           bind_a (for_a (ms_digests scan) report (\<lambda>d report.
             if dry_run then return_a (report\<lparr>pr_manifests := pr_manifests report + 1\<rparr>)
             else
               bind_a (optional (purge_manifest (be_ops E) repo d cutoff t)) (\<lambda>deleted.
                 return_a (case deleted of
                     Some (Some _) \<Rightarrow> report\<lparr>pr_manifests := pr_manifests report + 1\<rparr>
                   | _ \<Rightarrow> report)))) (\<lambda>report.
             return_a (report, ms_next scan)))"

definition purge_untagged_in ::
    "('s, 'c, 'h, 'b) backend \<Rightarrow> string \<Rightarrow> timestamp \<Rightarrow> timestamp \<Rightarrow> bool \<Rightarrow> purge_report \<Rightarrow> ('s, 'c, purge_report) pass" where
  "purge_untagged_in E repo cutoff t dry_run report = walked (untagged_page E repo cutoff t dry_run) report"

definition purge_untagged ::
    "('s, 'c, 'h, 'b) backend \<Rightarrow> timestamp \<Rightarrow> bool \<Rightarrow> purge_report \<Rightarrow> ('s, 'c, purge_report) pass" where
  "purge_untagged E t dry_run report =
     (let cutoff = ago t (pc_untagged_min_age (be_purge E)) in
      walked (\<lambda>start report.
        bind_a (blocking (list_repos (be_ops E) start PURGE_NAMES)) (\<lambda>page.
        bind_a (for_a (rl_repos page) report (\<lambda>repo report. purge_untagged_in E repo cutoff t dry_run report)) (\<lambda>report.
          return_a (report, rl_next page)))) report)"

definition purge_memberships ::
    "('s, 'c, 'h, 'b) backend \<Rightarrow> timestamp \<Rightarrow> bool \<Rightarrow> purge_report \<Rightarrow> ('s, 'c, purge_report) pass" where
  "purge_memberships E t dry_run report =
     (let cutoff = ago t (pc_grace (be_purge E)) in
      walked (\<lambda>cursor report.
        bind_a (blocking (sweep_repo_blobs (be_ops E) cursor PURGE_STEP cutoff dry_run)) (\<lambda>step.
          return_a (report\<lparr>pr_memberships := pr_memberships report + word_of_nat (mw_retracted step)\<rparr>, mw_next step))) report)"

text \<open>Under the lock of the digest: the record goes first, then the bytes.\<close>

definition reclaim_blob ::
    "('s, 'c, 'h, 'b) backend \<Rightarrow> timestamp \<Rightarrow> bool \<Rightarrow> digest \<times> u64 \<Rightarrow> purge_report \<Rightarrow> ('s, 'c, purge_report) pass" where
  "reclaim_blob E cutoff dry_run candidate report =
     (if dry_run then return_a (report\<lparr>pr_blobs := pr_blobs report + 1, pr_bytes := pr_bytes report + snd candidate\<rparr>)
      else
        bind_a (blocking (collect_blob (be_ops E) (fst candidate) cutoff)) (\<lambda>found.
          case found of
            None \<Rightarrow> return_a report
          | Some n \<Rightarrow>
              bind_a (disk_call (\<lambda>e. Fails (summ_text e)) (store_delete_blob (be_blobs E) (fst candidate))) (\<lambda>_.
                return_a (report\<lparr>pr_blobs := pr_blobs report + 1, pr_bytes := pr_bytes report + n\<rparr>))))"

definition purge_blobs ::
    "('s, 'c, 'h, 'b) backend \<Rightarrow> timestamp \<Rightarrow> bool \<Rightarrow> purge_report \<Rightarrow> ('s, 'c, purge_report) pass" where
  "purge_blobs E t dry_run report =
     (let cutoff = ago t (pc_grace (be_purge E)) in
      walked (\<lambda>cursor report.
        bind_a (blocking (scan_blobs (be_ops E) cursor PURGE_STEP cutoff t dry_run)) (\<lambda>scan.
        bind_a (for_a (bs_ripe scan) (report\<lparr>pr_marked := pr_marked report + word_of_nat (bs_marked scan)\<rparr>)
                  (reclaim_blob E cutoff dry_run)) (\<lambda>report.
          return_a (report, bs_next scan)))) report)"

definition purge_uploads ::
    "('s, 'c, 'h, 'b) backend \<Rightarrow> timestamp \<Rightarrow> bool \<Rightarrow> purge_report \<Rightarrow> ('s, 'c, purge_report) pass" where
  "purge_uploads E t dry_run report =
     (let cutoff = ago t (pc_upload_ttl (be_purge E)) in
      bind_a (blocking (expired_uploads (be_ops E) cutoff PURGE_UPLOADS)) (\<lambda>expired.
        for_a expired report (\<lambda>u report.
          if dry_run then return_a (report\<lparr>pr_uploads := pr_uploads report + 1\<rparr>)
          else
            bind_a (blocking (delete_upload (be_ops E) (eu_id u))) (\<lambda>_ s.
              (Inr (report\<lparr>pr_uploads := pr_uploads report + 1\<rparr>),
               case upload_id (format_upload_id (eu_id u)) of
                 Inr i \<Rightarrow> snd (on_disk (store_cancel_upload (be_blobs E) i) s)
               | Inl _ \<Rightarrow> s)))))"

definition live_repos :: "('s, 'c, 'h, 'b) backend \<Rightarrow> ('s, 'c, repo_id list) pass" where
  "live_repos E = blocking (live_upload_repos (be_ops E) PURGE_UPLOADS)"

definition purge_names_below ::
    "('s, 'c, 'h, 'b) backend \<Rightarrow> bool \<Rightarrow> repo_id \<Rightarrow> purge_report \<Rightarrow> ('s, 'c, purge_report) pass" where
  "purge_names_below E dry_run watermark report =
     walked (\<lambda>start report.
       bind_a (live_repos E) (\<lambda>live.
       bind_a (blocking (empty_repos (be_ops E) start PURGE_NAMES live watermark)) (\<lambda>page.
       bind_a (for_a (es_repos page) report (\<lambda>repo report.
         if dry_run then return_a (report\<lparr>pr_repositories := pr_repositories report + 1\<rparr>)
         else
           bind_a (live_repos E) (\<lambda>live.
           bind_a (blocking (retire_repo (be_ops E) (er_name repo) live watermark)) (\<lambda>retired.
             return_a (if retired \<noteq> None then report\<lparr>pr_repositories := pr_repositories report + 1\<rparr> else report))))) (\<lambda>report.
         return_a (report, es_next page))))) report"

definition swap_mark :: "bool \<Rightarrow> repo_id \<Rightarrow> ('s, 'c, repo_id option) pass" where
  "swap_mark dry_run current =
     (\<lambda>s. (Inr (bx_purge_mark s), if dry_run then s else s\<lparr>bx_purge_mark := Some current\<rparr>))"

definition purge_names :: "('s, 'c, 'h, 'b) backend \<Rightarrow> bool \<Rightarrow> purge_report \<Rightarrow> ('s, 'c, purge_report) pass" where
  "purge_names E dry_run report =
     bind_a (blocking (next_repo_id (be_ops E))) (\<lambda>current.
     bind_a (swap_mark dry_run current) (\<lambda>watermark.
       case watermark of None \<Rightarrow> return_a report | Some w \<Rightarrow> purge_names_below E dry_run w report))"

section \<open>A pass\<close>

definition reading :: "('s, 'c, 'a) served \<Rightarrow> ('s, 'c, 'a) pass" where
  "reading m = map_err_a (\<lambda>_. Panicking) m"

definition purge_once :: "('s, 'c, 'h, 'b) backend \<Rightarrow> bool \<Rightarrow> ('s, 'c, purge_report) pass" where
  "purge_once E dry_run =
     bind_a (reading (now E)) (\<lambda>t.
     let report = default_purge_report\<lparr>pr_started_at := secs t, pr_dry_run := dry_run\<rparr> in
     bind_a (if pc_untagged (be_purge E) then purge_untagged E t dry_run report else return_a report) (\<lambda>report.
     bind_a (purge_memberships E t dry_run report) (\<lambda>report.
     bind_a (purge_blobs E t dry_run report) (\<lambda>report.
     bind_a (purge_uploads E t dry_run report) (\<lambda>report.
     bind_a (purge_names E dry_run report) (\<lambda>report s.
       let report = report\<lparr>pr_duration_ms := be_elapsed E (bx_reads s)\<rparr> in
       (Inr report,
        s\<lparr>bx_reads := bx_reads s + 1, bx_last_pass := if dry_run then bx_last_pass s else Some report\<rparr>)))))))"

definition be_purge_pass :: "('s, 'c, 'h, 'b) backend \<Rightarrow> bool \<Rightarrow> ('s, 'c, purge_report) served" where
  "be_purge_pass E dry_run = map_err_a (map_halt OpsInternal) (purge_once E dry_run)"

definition be_last_purge :: "('s, 'c, purge_report option) served" where
  "be_last_purge = (\<lambda>s. (Inr (bx_last_pass s), s))"

section \<open>The implementation of the trait\<close>

definition backend_registry :: "('s, 'c, 'h, 'b) backend \<Rightarrow> (('s, 'c) backend_state, 'b) registry_ops" where
  "backend_registry E =
     \<lparr>op_repositories = be_repositories E, op_tags = be_tags E, op_delete_repository = be_delete_repository E,
      op_purge = be_purge_pass E, op_last_purge = be_last_purge, op_stat_manifest = be_stat_manifest E,
      op_get_manifest = be_get_manifest E, op_put_manifest = be_put_manifest E,
      op_delete_manifest = be_delete_manifest E, op_stat_blob = be_stat_blob E, op_get_blob = be_get_blob E,
      op_delete_blob = be_delete_blob E, op_mount_blob = be_mount_blob E, op_create_upload = be_create_upload E,
      op_upload_offset = be_upload_offset E, op_append_upload = be_append_upload E,
      op_finish_upload = be_finish_upload E, op_cancel_upload = be_cancel_upload E,
      op_put_blob = be_put_blob E, op_referrers = be_referrers E,
      op_repository_summaries = be_repository_summaries E, op_repository_detail = be_repository_detail E,
      op_tag_details = be_tag_details E, op_manifest_details = be_manifest_details E,
      op_manifest_detail = be_manifest_detail E, op_tag_history = be_tag_history E,
      op_pull_counts = be_pull_counts E\<rparr>"

end
