(* ===== verification/Summ_Staging.thy ===== *)
theory Summ_Staging
  imports Summ_Stream
begin

text \<open>
  What the operations of the blob store do to what it holds. A disk is read as two maps, from digests to the contents of blobs and from
  upload ids to staged contents; each operation is shown to change them in its own way on any disk, and to leave them as
  they were, or with a part of a chunk, when a call fails.
\<close>

section \<open>The two maps\<close>

definition blob_tree :: "blob_store \<Rightarrow> disk \<Rightarrow> bool" where
  "blob_tree B k \<longleftrightarrow>
     dk_names k (st_root B @ [BLOBS_DIR]) = Some Directory \<and> dk_names k (st_root B @ [UPLOADS_DIR]) = Some Directory
     \<and> (\<forall>d. \<forall>q \<in> set (chain (st_root B @ [BLOBS_DIR]) (fan_parts d)). \<forall>i. dk_names k q \<noteq> Some (File i))
     \<and> (\<forall>d. dk_names k (blob_at_path (st_root B) d) \<noteq> Some Directory)
     \<and> (\<forall>i. dk_names k (st_root B @ [UPLOADS_DIR, i]) \<noteq> Some Directory)"

definition held :: "blob_store \<Rightarrow> disk \<Rightarrow> digest \<Rightarrow> bytes option" where
  "held B k d = contents k (blob_at_path (st_root B) d)"

definition staging :: "blob_store \<Rightarrow> disk \<Rightarrow> string \<Rightarrow> bytes option" where
  "staging B k i = contents k (st_root B @ [UPLOADS_DIR, i])"

definition store_env :: "bool \<Rightarrow> blob_store \<Rightarrow> disk \<Rightarrow> bool" where
  "store_env faulty B k \<longleftrightarrow> disk_env faulty k \<and> blob_tree B k"

lemma store_envD:
  assumes "store_env faulty B k"
  shows "disk_env faulty k" "disk_ok k" "blob_tree B k"
  using assms by (auto simp: store_env_def disk_env_ok)

lemma contents_ok:
  "disk_ok k \<Longrightarrow> contents k p = (case dk_names k p of Some (File i) \<Rightarrow> Some (dk_data k i) | _ \<Rightarrow> None)"
  by (simp add: contents_def find_node_ok)

lemma contents_file: "disk_ok k \<Longrightarrow> contents k p = Some b \<longleftrightarrow> (\<exists>i. dk_names k p = Some (File i) \<and> dk_data k i = b)"
  by (auto simp: contents_ok split: option.splits node.splits)

lemma contents_cong:
  assumes "disk_ok k" and "disk_ok k'" and "dk_names k' p = dk_names k p" and "dk_data k' = dk_data k"
  shows "contents k' p = contents k p"
  unfolding contents_ok [OF assms(1)] contents_ok [OF assms(2)] assms(3,4) ..

text \<open>The paths do not meet.\<close>

lemma dirs_apart: "BLOBS_DIR \<noteq> UPLOADS_DIR"
  by (simp add: BLOBS_DIR_def UPLOADS_DIR_def)

lemma paths_apart:
  "blob_at_path root d \<noteq> root @ [UPLOADS_DIR, i]"
  "q \<in> set (chain (root @ [BLOBS_DIR]) (fan_parts e)) \<Longrightarrow> q \<noteq> blob_at_path root d"
  "q \<in> set (chain (root @ [BLOBS_DIR]) (fan_parts e)) \<Longrightarrow> q \<noteq> root @ [UPLOADS_DIR, i]"
  "q \<in> set (chain (root @ [BLOBS_DIR]) (fan_parts e)) \<Longrightarrow> q \<noteq> root @ [UPLOADS_DIR]"
  using dirs_apart chain_longer [of q "root @ [BLOBS_DIR]" "fan_parts e"]
  by (auto simp: blob_at_path_def blob_dir_def fan_parts_def)

lemma blob_parent: "parent (blob_at_path root d) = blob_dir root d" and blob_not_root: "blob_at_path root d \<noteq> []"
  by (simp_all add: blob_at_path_def)

lemma upload_parent: "parent (root @ [UPLOADS_DIR, i]) = root @ [UPLOADS_DIR]"
  using parent_snoc [of "root @ [UPLOADS_DIR]" i] by simp

text \<open>Equal disks.\<close>

lemma views_same:
  assumes "same_disk k k'" and "disk_ok k"
  shows "held B k' = held B k" "staging B k' = staging B k" "blob_tree B k' = blob_tree B k"
  using contents_cong [OF assms(2) disk_ok_same [OF assms(2,1)]] assms(1)
  by (simp_all add: held_def staging_def blob_tree_def same_disk_simps fun_eq_iff)

lemma views_grown:
  assumes "grown (set (chain (st_root B @ [BLOBS_DIR]) (fan_parts d))) k k'" and "disk_ok k" and "disk_ok k'" and "blob_tree B k"
  shows "held B k' = held B k" "staging B k' = staging B k" "blob_tree B k'"
proof -
  let ?D = "set (chain (st_root B @ [BLOBS_DIR]) (fan_parts d))"
  have outside: "dk_names k' p = dk_names k p" if "p \<notin> ?D" for p using assms(1) that unfolding grown_def by blast
  have data: "dk_data k' = dk_data k" using assms(1) by (simp add: grown_def)
  have blob: "dk_names k' (blob_at_path (st_root B) e) = dk_names k (blob_at_path (st_root B) e)" for e
    by (rule outside) (use paths_apart(2) in blast)
  have up: "dk_names k' (st_root B @ [UPLOADS_DIR, i]) = dk_names k (st_root B @ [UPLOADS_DIR, i])" for i
    by (rule outside) (use paths_apart(3) in blast)
  show "held B k' = held B k" "staging B k' = staging B k"
    using contents_cong [OF assms(2,3) _ data] blob up by (simp_all add: held_def staging_def fun_eq_iff)
  have "dk_names k' q \<noteq> Some (File i)" if "q \<in> set (chain (st_root B @ [BLOBS_DIR]) (fan_parts e))" for q e i
  proof -
    have "dk_names k q \<noteq> Some (File i)" using assms(4) that unfolding blob_tree_def by blast
    moreover have "dk_names k' q = dk_names k q \<or> dk_names k' q = Some Directory" using assms(1) unfolding grown_def by blast
    ultimately show ?thesis by auto
  qed
  moreover have "dk_names k' (st_root B @ [UPLOADS_DIR]) = dk_names k (st_root B @ [UPLOADS_DIR])"
    by (rule outside) (use paths_apart(4) in blast)
  moreover have "dk_names k' (st_root B @ [BLOBS_DIR]) = dk_names k (st_root B @ [BLOBS_DIR])"
    by (rule outside) (use chain_longer [of "st_root B @ [BLOBS_DIR]"] in fastforce)
  ultimately show "blob_tree B k'"
    using assms(4) blob up unfolding blob_tree_def by metis
qed

text \<open>One file's contents.\<close>

lemma views_data:
  assumes "disk_ok k" and "dk_names k (st_root B @ [UPLOADS_DIR, i]) = Some (File f)" and "disk_ok (set_data f b k)"
  shows "held B (set_data f b k) = held B k" "staging B (set_data f b k) = (staging B k)(i \<mapsto> b)"
    "blob_tree B (set_data f b k) = blob_tree B k"
proof -
  have c: "contents (set_data f b k) p = (if p = st_root B @ [UPLOADS_DIR, i] then Some b else contents k p)" for p
  proof (cases "p = st_root B @ [UPLOADS_DIR, i]")
    case True
    then show ?thesis by (simp add: contents_ok [OF assms(3)] assms(2))
  next
    case False
    with disk_okD(3) [OF assms(1) _ assms(2)] have "dk_names k p \<noteq> Some (File f)" by blast
    with False show ?thesis
      by (cases "dk_names k p") (auto simp: contents_ok [OF assms(3)] contents_ok [OF assms(1)] split: node.split)
  qed
  show "held B (set_data f b k) = held B k"
    using paths_apart(1) by (simp add: held_def fun_eq_iff c)
  show "staging B (set_data f b k) = (staging B k)(i \<mapsto> b)"
    by (simp add: staging_def fun_eq_iff c)
  show "blob_tree B (set_data f b k) = blob_tree B k"
    by (simp add: blob_tree_def)
qed

text \<open>Names that come and go.\<close>

lemma blob_tree_named:
  assumes "\<And>p. p \<noteq> st_root B @ [UPLOADS_DIR, i] \<Longrightarrow> p \<noteq> blob_at_path (st_root B) d \<Longrightarrow> dk_names k' p = dk_names k p"
    and "blob_tree B k" and "dk_names k' (st_root B @ [UPLOADS_DIR, i]) \<noteq> Some Directory"
    and "dk_names k' (blob_at_path (st_root B) d) \<noteq> Some Directory"
  shows "blob_tree B k'"
proof -
  have n: "dk_names k' (blob_at_path (st_root B) e) = dk_names k (blob_at_path (st_root B) e)" if "e \<noteq> d" for e
    using assms(1) paths_apart(1) that by (simp add: blob_at_path_inject)
  have u: "dk_names k' (st_root B @ [UPLOADS_DIR, j]) = dk_names k (st_root B @ [UPLOADS_DIR, j])" if "j \<noteq> i" for j
    using assms(1) [of "st_root B @ [UPLOADS_DIR, j]"] paths_apart(1) [of "st_root B" d j] that by simp
  have c: "dk_names k' q = dk_names k q" if "q \<in> set (chain (st_root B @ [BLOBS_DIR]) (fan_parts e))" for q e
    using assms(1) paths_apart(2,3) that by blast
  have "dk_names k' (st_root B @ [BLOBS_DIR]) = dk_names k (st_root B @ [BLOBS_DIR])"
    "dk_names k' (st_root B @ [UPLOADS_DIR]) = dk_names k (st_root B @ [UPLOADS_DIR])"
    by (rule assms(1); simp add: blob_at_path_def blob_dir_def fan_parts_def)+
  with assms(2-4) c n u show "blob_tree B k'" unfolding blob_tree_def by metis
qed

section \<open>Staged uploads\<close>

text \<open>An upload in memory agrees with its file: \<open>c\<close> is there, hashed and counted.\<close>

definition staged_as :: "'h sha2 \<Rightarrow> blob_store \<Rightarrow> disk \<Rightarrow> 'h upload \<Rightarrow> string \<Rightarrow> bytes \<Rightarrow> bool" where
  "staged_as L B k u i c \<longleftrightarrow>
     up_id u = i \<and> up_path u = st_root B @ [UPLOADS_DIR, i] \<and> up_offset u = word_of_nat (length c)
     \<and> (\<exists>f. up_staged u = Some (f, hashed L (up_algorithm u) c) \<and> dk_names k (up_path u) = Some (File f) \<and> dk_data k f = c)"

text \<open>What holds after a call that changed nothing.\<close>

definition unchanged :: "bool \<Rightarrow> blob_store \<Rightarrow> disk \<Rightarrow> disk \<Rightarrow> bool" where
  "unchanged faulty B k k' \<longleftrightarrow> store_env faulty B k' \<and> held B k' = held B k \<and> staging B k' = staging B k"

lemma unchanged_same: "store_env faulty B k \<Longrightarrow> same_disk k k' \<Longrightarrow> disk_env faulty k' \<Longrightarrow> unchanged faulty B k k'"
  using views_same [of k k' B] store_envD(2) [of faulty B k] by (simp add: unchanged_def store_env_def)

lemma unchanged_trans: "unchanged faulty B k k1 \<Longrightarrow> unchanged faulty B k1 k' \<Longrightarrow> unchanged faulty B k k'"
  by (simp add: unchanged_def)

lemma staged_as_same: "same_disk k k' \<Longrightarrow> staged_as L B k u i c \<Longrightarrow> staged_as L B k' u i c"
  by (auto simp: staged_as_def same_disk_def)

lemma staged_as_staging: "disk_ok k \<Longrightarrow> staged_as L B k u i c \<Longrightarrow> staging B k i = Some c"
  by (auto simp: staged_as_def staging_def contents_file)

definition storage_error_of :: "summ_error \<Rightarrow> bool" where
  "storage_error_of e \<longleftrightarrow> (\<exists>m. e = Storage m)"

lemma storage_error_of_simps [simp]: "storage_error_of (Storage m)" "\<not> storage_error_of NotFound"
  "\<not> storage_error_of (InvalidData m)" "\<not> storage_error_of (InvalidDigest m)"
  by (simp_all add: storage_error_of_def)

text \<open>Opening a new upload.\<close>

lemma wp_create_upload:
  assumes env: "store_env faulty B k" and i: "new_upload_id i = Inr i" and h: "hashing L"
  shows "wp (store_create_upload L B i a)
    (\<lambda>u k'. staging B k i = None \<and> store_env faulty B k' \<and> held B k' = held B k \<and> staging B k' = (staging B k)(i \<mapsto> [])
       \<and> staged_as L B k' u i [] \<and> up_algorithm u = a)
    (\<lambda>e k'. (faulty \<or> staging B k i \<noteq> None) \<and> unchanged faulty B k k' \<and> storage_error_of e) k"
proof -
  note D = store_envD [OF env]
  let ?p = "st_root B @ [UPLOADS_DIR, i]"
  have up: "upload_path (st_root B) i = ?p" using new_upload_id_plain(2) [OF i] .
  have dir: "dk_names k (parent ?p) = Some Directory" using D(3) by (simp add: upload_parent blob_tree_def)
  have not_dir: "dk_names k ?p \<noteq> Some Directory" using D(3) by (simp add: blob_tree_def)
  show ?thesis
  proof (cases "dk_names k ?p")
    case None
    then have none: "staging B k i = None" by (simp add: staging_def contents_ok [OF D(2)])
    let ?k = "k\<lparr>dk_names := (dk_names k)(?p \<mapsto> File (dk_fresh k)), dk_data := (dk_data k)(dk_fresh k := []), dk_fresh := dk_fresh k + 1\<rparr>"
    have "wp (fs_create_new ?p) (\<lambda>f k'. f = dk_fresh k \<and> disk_env faulty k' \<and> same_disk ?k k')
        (\<lambda>e k'. e = IoOther \<and> faulty \<and> disk_env faulty k' \<and> same_disk k k') k"
      by (rule wp_fs_create_new [OF D(1) None _ dir]) auto
    then show ?thesis
      unfolding store_create_upload_def open_staging_def Let_def wp_simps up if_True
    proof (rule wp_weaken)
      fix f k' assume *: "f = dk_fresh k \<and> disk_env faulty k' \<and> same_disk ?k k'"
      then have n: "dk_names k' = (dk_names k)(?p \<mapsto> File f)" "dk_data k' = (dk_data k)(f := [])" by (simp_all add: same_disk_def)
      have ok: "disk_ok k'" using * disk_env_ok by blast
      have old: "dk_names k p = Some (File j) \<Longrightarrow> j \<noteq> f" for p j using disk_okD(4) [OF D(2), of p j] * by auto
      have c: "contents k' p = (if p = ?p then Some [] else contents k p)" for p
        using old [of p] by (auto simp: contents_ok [OF ok] contents_ok [OF D(2)] n split: option.split node.split)
      have "blob_tree B k'"
      proof (rule blob_tree_named [of B i undefined k' k])
        show "dk_names k' (blob_at_path (st_root B) undefined) \<noteq> Some Directory"
          using D(3) paths_apart(1) by (simp add: n blob_tree_def)
      qed (use D(3) in \<open>auto simp: n\<close>)
      moreover have "held B k' = held B k" using paths_apart(1) by (simp add: held_def fun_eq_iff c)
      moreover have "staging B k' = (staging B k)(i \<mapsto> [])" by (simp add: staging_def fun_eq_iff c)
      moreover have "staged_as L B k' (upload_open i ?p a 0 (hasher_new L a) f) i []"
        using hashing.hashed_nothing [OF h] by (simp add: staged_as_def upload_open_def n)
      ultimately show "staging B k i = None \<and> store_env faulty B k' \<and> held B k' = held B k \<and> staging B k' = (staging B k)(i \<mapsto> [])
          \<and> staged_as L B k' (upload_open i ?p a 0 (hasher_new L a) f) i [] \<and> up_algorithm (upload_open i ?p a 0 (hasher_new L a) f) = a"
        using * none by (simp add: store_env_def upload_open_def)
    next
      fix e k' assume "e = IoOther \<and> faulty \<and> disk_env faulty k' \<and> same_disk k k'"
      then show "(faulty \<or> staging B k i \<noteq> None) \<and> unchanged faulty B k k'
          \<and> storage_error_of (if e = IoNotFound then NotFound else Storage ''opening upload'')"
        using unchanged_same [OF env] by auto
    qed
  next
    case (Some n)
    with not_dir obtain f where f: "dk_names k ?p = Some (File f)" by (cases n) auto
    have some: "staging B k i \<noteq> None" by (simp add: staging_def contents_ok [OF D(2)] f)
    have "wp (fs_create_new ?p) (\<lambda>_ _. False) (\<lambda>e k'. e \<noteq> IoNotFound \<and> disk_env faulty k' \<and> same_disk k k') k"
      unfolding fs_create_new_def
      by (rule wp_syscall [OF D(1)]) (auto simp: wp_def find_node_ok disk_env_ok same_disk_simps f)
    then show ?thesis
      unfolding store_create_upload_def open_staging_def Let_def wp_simps up if_True
      by (rule wp_weaken) (use unchanged_same [OF env] some in auto)
  qed
qed

lemma fits_u64: "n \<le> MAX_FILE \<Longrightarrow> unat (word_of_nat n :: u64) = n"
  by (simp add: unat_of_nat MAX_FILE_def)

text \<open>Taking up an upload again: what is beyond the recorded offset is cut off.\<close>

lemma wp_resume_upload:
  assumes env: "store_env faulty B k" and i: "new_upload_id i = Inr i" and h: "hashing L"
    and there: "staging B k i = Some (c @ junk)"
    and st: "st = Some (hasher_serialize L (hashed L a c)) \<or> (st = None \<and> c = [])"
  shows "wp (store_resume_upload L B i a (word_of_nat (length c)) st)
    (\<lambda>u k'. store_env faulty B k' \<and> held B k' = held B k \<and> staging B k' = (staging B k)(i \<mapsto> c)
       \<and> staged_as L B k' u i c \<and> up_algorithm u = a)
    (\<lambda>e k'. faulty \<and> unchanged faulty B k k' \<and> storage_error_of e) k"
proof -
  note D = store_envD [OF env]
  let ?p = "st_root B @ [UPLOADS_DIR, i]"
  let ?off = "word_of_nat (length c) :: u64"
  let ?X = "\<lambda>e k'. faulty \<and> unchanged faulty B k k' \<and> storage_error_of e"
  have up: "upload_path (st_root B) i = ?p" using new_upload_id_plain(2) [OF i] .
  obtain f where f: "dk_names k ?p = Some (File f)" "dk_data k f = c @ junk"
    using there by (auto simp: staging_def contents_file [OF D(2)])
  have size: "length (c @ junk) \<le> MAX_FILE" using disk_okD(5) [OF D(2), of f] f by simp
  then have off: "unat ?off = length c" by (intro fits_u64) simp
  have len: "unat (word_of_nat (length (c @ junk)) :: u64) = length (c @ junk)" using size by (rule fits_u64)
  have hasher: "(case st of Some st \<Rightarrow> hasher_restore L a st
      | None \<Rightarrow> if ?off = 0 then Inr (hasher_new L a) else Inl (Storage m)) = Inr (hashed L a c)" for m
    using st hashing.hashed_restored [OF h] hashing.hashed_nothing [OF h] by auto
  have same: "?X e k'" if "faulty" "disk_env faulty k'" "same_disk k k'" "storage_error_of e" for e k'
    using that unchanged_same [OF env] by blast
  have upload: "staged_as L B k' (upload_open i ?p a ?off (hashed L a c) f) i c"
    if "dk_names k' = dk_names k" "dk_data k' f = c" for k'
    using that f by (simp add: staged_as_def upload_open_def)
  have opened: "wp (fs_open ?p) (\<lambda>g k'. g = f \<and> disk_env faulty k' \<and> same_disk k k')
      (\<lambda>e k'. e = IoOther \<and> faulty \<and> disk_env faulty k' \<and> same_disk k k') k"
    by (rule wp_fs_open [OF D(1)]) (auto simp: f)
  show ?thesis
    unfolding store_resume_upload_def Let_def wp_simps up hasher sum.case open_staging_def if_False
      told_def
  proof (rule wp_weaken [OF opened], goal_cases)
    case (1 g k1)
    then have k1: "g = f" "disk_env faulty k1" "same_disk k k1" by simp_all
    have lens: "wp (fs_len f) (\<lambda>n k'. n = word_of_nat (length (c @ junk)) \<and> disk_env faulty k' \<and> same_disk k k')
        (\<lambda>e k'. faulty \<and> disk_env faulty k' \<and> same_disk k k') k1"
      by (rule wp_fs_len [OF k1(2)]) (use f k1(3) same_disk_trans in \<open>auto simp: same_disk_simps\<close>)
    show ?case
      unfolding k1(1)
    proof (rule wp_weaken [OF lens], goal_cases)
      case (1 n k2)
      then have n: "n = word_of_nat (length (c @ junk))" and k2: "disk_env faulty k2" "same_disk k k2" by simp_all
      have nlt: "\<not> n < ?off" using off len by (simp add: n word_less_nat_alt)
      have beyond: "?off < n \<longleftrightarrow> junk \<noteq> []" using off len by (simp add: n word_less_nat_alt)
      have trunc: "wp (fs_set_len f ?off)
          (\<lambda>_ k'. store_env faulty B k' \<and> held B k' = held B k \<and> staging B k' = (staging B k)(i \<mapsto> c)
             \<and> staged_as L B k' (upload_open i ?p a ?off (hashed L a c) f) i c)
          (\<lambda>e k'. faulty \<and> disk_env faulty k' \<and> same_disk k k') k2"
      proof (rule wp_fs_truncate [OF k2(1)])
        have d2: "dk_data k2 f = c @ junk" "dk_names k2 = dk_names k" using f k2(2) by (simp_all add: same_disk_simps)
        then show "unat ?off \<le> length (dk_data k2 f)" using off by simp
        fix k' assume k': "disk_env faulty k'" "same_disk (set_data f (take (unat ?off) (dk_data k2 f)) k2) k'"
        then have s: "same_disk (set_data f c k) k'" using off d2 same_disk_trans [OF set_data_same [OF k2(2)]] by simp
        have ok: "disk_ok (set_data f c k)" using size by (intro disk_ok_data D(2)) simp
        note v = views_data [where B = B, OF D(2) f(1) ok] and w = views_same [where B = B, OF s ok]
        show "store_env faulty B k' \<and> held B k' = held B k \<and> staging B k' = (staging B k)(i \<mapsto> c)
            \<and> staged_as L B k' (upload_open i ?p a ?off (hashed L a c) f) i c"
          using k'(1) D(3) v w upload [of k'] s by (simp add: store_env_def same_disk_simps)
      next
        fix k' assume "faulty" "disk_env faulty k'" "same_disk k2 k'"
        then show "faulty \<and> disk_env faulty k' \<and> same_disk k k'" using same_disk_trans [OF k2(2)] by blast
      qed
      have whole: "store_env faulty B k2 \<and> held B k2 = held B k \<and> staging B k2 = (staging B k)(i \<mapsto> c)
          \<and> staged_as L B k2 (upload_open i ?p a ?off (hashed L a c) f) i c" if "junk = []"
        using unchanged_same [OF env k2(2,1)] that there upload [of k2] f k2(2) by (auto simp: unchanged_def same_disk_simps)
      have alg: "up_algorithm (upload_open i ?p a ?off (hashed L a c) f) = a" by (simp add: upload_open_def)
      show ?case
      proof (cases "junk = []")
        case True
        with nlt beyond whole alg show ?thesis by (simp add: wp_simps)
      next
        case False
        with nlt beyond alg have "wp (fs_set_len f ?off)
            (\<lambda>_ k'. store_env faulty B k' \<and> held B k' = held B k \<and> staging B k' = (staging B k)(i \<mapsto> c)
               \<and> staged_as L B k' (upload_open i ?p a ?off (hashed L a c) f) i c \<and> up_algorithm (upload_open i ?p a ?off (hashed L a c) f) = a)
            (\<lambda>e k'. ?X (Storage ''truncating upload'') k') k2"
          by (intro wp_weaken [OF trunc]) (simp, use unchanged_same [OF env] storage_error_of_simps(1) in blast)
        with nlt beyond False show ?thesis by (simp add: wp_simps)
      qed
    next
      case (2 e k2)
      then show ?case using same [of k2 "Storage ''stat upload''"] by auto
    qed
  next
    case (2 e k1)
    then show ?case using same [of k1 "Storage ''opening upload''"] by auto
  qed
qed

text \<open>Appending: all of the chunk, or a part of it after a failure, which the upload does not count.\<close>

lemma views_append:
  assumes env: "store_env faulty B k" and u: "staged_as L B k u i c" and f: "up_staged u = Some (f, h)"
    and same: "same_disk (set_data f (c @ b) k) k'" and env': "disk_env faulty k'"
  shows "store_env faulty B k'" "held B k' = held B k" "staging B k' = (staging B k)(i \<mapsto> c @ b)"
    "dk_names k' = dk_names k" "dk_data k' f = c @ b"
proof -
  note D = store_envD [OF env]
  have n: "dk_names k (st_root B @ [UPLOADS_DIR, i]) = Some (File f)" using u f by (auto simp: staged_as_def)
  have undo: "same_disk k' (set_data f (c @ b) k)" using same by (simp add: same_disk_def)
  have ok: "disk_ok (set_data f (c @ b) k)" using disk_ok_same [OF disk_env_ok [OF env'] undo] .
  note v = views_data [where B = B, OF D(2) n ok] and w = views_same [where B = B, OF same ok]
  show "store_env faulty B k'" "held B k' = held B k" "staging B k' = (staging B k)(i \<mapsto> c @ b)"
    "dk_names k' = dk_names k" "dk_data k' f = c @ b"
    using env' D(3) v w same by (simp_all add: store_env_def same_disk_simps)
qed

lemma wp_append_chunk:
  assumes env: "store_env faulty B k" and h: "hashing L" and u: "staged_as L B k u i c"
  shows "wp (append_chunk L u (up_offset u) chunk)
    (\<lambda>u' k'. store_env faulty B k' \<and> held B k' = held B k \<and> staging B k' = (staging B k)(i \<mapsto> c @ chunk)
       \<and> staged_as L B k' u' i (c @ chunk) \<and> up_algorithm u' = up_algorithm u)
    (\<lambda>e k'. (faulty \<or> MAX_FILE < length c + length chunk) \<and> storage_error_of e \<and> store_env faulty B k' \<and> held B k' = held B k
       \<and> (\<exists>n. staging B k' = (staging B k)(i \<mapsto> c @ take n chunk))) k"
proof -
  note D = store_envD [OF env]
  obtain f where f: "up_staged u = Some (f, hashed L (up_algorithm u) c)" "dk_names k (up_path u) = Some (File f)" "dk_data k f = c"
    using u by (auto simp: staged_as_def)
  have off: "up_offset u = word_of_nat (length c)" using u by (simp add: staged_as_def)
  show ?thesis
  proof (cases "chunk = []")
    case True
    with env u staged_as_staging [OF D(2) u] show ?thesis by (simp add: append_chunk_def wp_simps fun_upd_idem)
  next
    case False
    have "wp (write_all_at f (up_offset u) chunk)
        (\<lambda>_ k'. disk_env faulty k' \<and> same_disk (set_data f (c @ chunk) k) k')
        (\<lambda>e k'. (faulty \<or> MAX_FILE < length c + length chunk) \<and> disk_env faulty k'
           \<and> (\<exists>n. same_disk (set_data f (c @ take n chunk) k) k')) k"
      using write_all_spec [OF D(1) f(3)] unfolding off by (fastforce simp: wp_run split: sum.split)
    then have "wp (append_chunk L u (up_offset u) chunk)
        (\<lambda>u' k'. u' = u\<lparr>up_staged := Some (f, hashed L (up_algorithm u) (c @ chunk)), up_offset := word_of_nat (length (c @ chunk))\<rparr>
           \<and> disk_env faulty k' \<and> same_disk (set_data f (c @ chunk) k) k')
        (\<lambda>e k'. (faulty \<or> MAX_FILE < length c + length chunk) \<and> storage_error_of e \<and> disk_env faulty k'
           \<and> (\<exists>n. same_disk (set_data f (c @ take n chunk) k) k')) k"
      using False by (simp add: append_chunk_def staged_def f(1) told_def wp_simps off hashing.hashed_more [OF h])
    then show ?thesis
    proof (rule wp_weaken, goal_cases)
      case (1 u' k')
      then have k': "u' = u\<lparr>up_staged := Some (f, hashed L (up_algorithm u) (c @ chunk)), up_offset := word_of_nat (length (c @ chunk))\<rparr>"
        "disk_env faulty k'" "same_disk (set_data f (c @ chunk) k) k'" by simp_all
      note v = views_append [OF env u f(1) k'(3,2)]
      have "staged_as L B k' u' i (c @ chunk)" using u f(2) v(4,5) by (simp add: staged_as_def k'(1))
      with v show ?case by (simp add: k'(1))
    next
      case (2 e k')
      then obtain n where k': "disk_env faulty k'" "same_disk (set_data f (c @ take n chunk) k) k'" by blast
      from 2 views_append [OF env u f(1) k'(2,1)] show ?case by blast
    qed
  qed
qed

lemma append_elsewhere: "off \<noteq> up_offset u \<Longrightarrow> append_chunk L u off chunk k = (Inl (InvalidData ''out-of-order chunk''), k)"
  by (simp add: append_chunk_def run_simps)

text \<open>Hashing again, under another algorithm, in blocks of any size.\<close>

lemma rehash_spec:
  assumes "disk_env faulty k" and "dk_data k f = c" and "hashing L" and "at \<le> length c"
    and "rehash_from L f (length c) block at (hashed L a (take at c)) k = (r, k')"
  shows "disk_env faulty k' \<and> same_disk k k' \<and> (case r of Inr h \<Rightarrow> h = hashed L a c | Inl e \<Rightarrow> faulty)"
  using assms
proof (induction "length c - at" arbitrary: at k r k' rule: less_induct)
  case less
  note env = less.prems(1) and c = less.prems(2) and h = less.prems(3) and at = less.prems(4) and run = less.prems(5)
  show ?case
  proof (cases "length c \<le> at")
    case True
    with run env show ?thesis by (auto simp: rehash_from.simps [of L f "length c"] run_simps)
  next
    case False
    let ?want = "min (max block 1) (length c - at)"
    have want: "0 < ?want" "at + ?want \<le> length c" using False by auto
    have "length c \<le> MAX_FILE" using disk_okD(5) [OF disk_env_ok [OF env], of f] c by simp
    with at have short: "at \<le> MAX_FILE" by simp
    obtain r1 k1 where rd: "read_exact_at f (word_of_nat at) ?want k = (r1, k1)" by fastforce
    note R = read_exact_spec [OF env short rd, unfolded c]
    show ?thesis
    proof (cases r1)
      case (Inl e)
      with R want have "faulty" by auto
      with R Inl run rd False show ?thesis by (auto simp: rehash_from.simps [of L f "length c"] run_simps Let_def)
    next
      case (Inr part)
      with R have part: "part = take ?want (drop at c)" "disk_env faulty k1" "same_disk k k1" by simp_all
      have "hasher_update L (hashed L a (take at c)) part = hashed L a (take (at + ?want) c)"
        unfolding hashing.hashed_more [OF h] part(1) by (simp only: take_add)
      with run rd Inr False have "rehash_from L f (length c) block (at + ?want) (hashed L a (take (at + ?want) c)) k1 = (r, k')"
        by (simp add: rehash_from.simps [of L f "length c" block at] run_simps Let_def)
      moreover have "length c - (at + ?want) < length c - at" using want by linarith
      moreover have "dk_data k1 f = c" using c part(3) by (simp add: same_disk_simps)
      ultimately show ?thesis using less.hyps [OF _ part(2) _ h want(2)] same_disk_trans [OF part(3)] by blast
    qed
  qed
qed

lemma wp_rehash_upload:
  assumes env: "store_env faulty B k" and h: "hashing L" and u: "staged_as L B k u i c"
  shows "wp (store_rehash_upload L B u a)
    (\<lambda>u' k'. unchanged faulty B k k' \<and> staged_as L B k' u' i c \<and> up_algorithm u' = a)
    (\<lambda>e k'. faulty \<and> unchanged faulty B k k' \<and> storage_error_of e) k"
proof -
  note D = store_envD [OF env]
  obtain f where f: "up_staged u = Some (f, hashed L (up_algorithm u) c)" "dk_names k (up_path u) = Some (File f)" "dk_data k f = c"
    using u by (auto simp: staged_as_def)
  have "length c \<le> MAX_FILE" using disk_okD(5) [OF D(2), of f] f by simp
  with u have off: "unat (up_offset u) = length c" by (simp add: staged_as_def fits_u64)
  show ?thesis
  proof (cases "a = up_algorithm u")
    case True
    with unchanged_same [OF env _ D(1)] u show ?thesis by (simp add: store_rehash_upload_def rehash_as_def wp_simps)
  next
    case False
    let ?block = "st_read_chunk_size B"
    obtain r k' where run: "rehash L f (up_offset u) a ?block k = (r, k')" by fastforce
    then have "rehash_from L f (length c) ?block 0 (hashed L a (take 0 c)) k = (r, k')"
      by (simp add: rehash_def off hashing.hashed_nothing [OF h])
    from rehash_spec [OF D(1) f(3) h _ this] have R: "disk_env faulty k'" "same_disk k k'"
      "case r of Inr h \<Rightarrow> h = hashed L a c | Inl e \<Rightarrow> faulty" by simp_all
    note same = unchanged_same [OF env R(2,1)]
    have u': "staged_as L B k' (u\<lparr>up_staged := Some (f, hashed L a c), up_algorithm := a\<rparr>) i c"
      using u f R(2) by (simp add: staged_as_def same_disk_simps)
    have "store_rehash_upload L B u a k = (case r of Inr x \<Rightarrow> (Inr (u\<lparr>up_staged := Some (f, x), up_algorithm := a\<rparr>), k')
        | Inl e \<Rightarrow> (Inl (Storage ''rehashing upload''), k'))"
      using False run by (simp add: store_rehash_upload_def rehash_as_def staged_def f(1) told_def run_simps split: sum.split)
    with R(3) same u' show ?thesis by (auto simp: wp_def split: sum.splits)
  qed
qed

text \<open>
  Committing: the file takes the name of its digest. What fails before that leaves the upload where it was; the last sync may
  fail after it.
\<close>

definition moved :: "bool \<Rightarrow> blob_store \<Rightarrow> string \<Rightarrow> digest \<Rightarrow> bytes \<Rightarrow> disk \<Rightarrow> disk \<Rightarrow> bool" where
  "moved faulty B i d c k k' \<longleftrightarrow>
     store_env faulty B k' \<and> held B k' = (held B k)(d \<mapsto> c) \<and> staging B k' = (staging B k)(i := None)"

text \<open>A blob that survives any crash.\<close>

definition blob_durable :: "blob_store \<Rightarrow> disk \<Rightarrow> digest \<Rightarrow> bool" where
  "blob_durable B k d \<longleftrightarrow> durable_name k (blob_at_path (st_root B) d)
     \<and> (\<forall>f. dk_names k (blob_at_path (st_root B) d) = Some (File f) \<longrightarrow> dk_flushed k f = dk_data k f)"

text \<open>The directories above a blob.\<close>

definition blob_dirs :: "blob_store \<Rightarrow> digest \<Rightarrow> path set" where
  "blob_dirs B d = set (ancestors (blob_at_path (st_root B) d)) - {[]}"

lemma ancestors_blob:
  "ancestors (blob_at_path root d) = ancestors (root @ [BLOBS_DIR]) @ (root @ [BLOBS_DIR]) # chain (root @ [BLOBS_DIR]) (fan_parts d)"
  using ancestors_append [of "root @ [BLOBS_DIR]" "fan_parts d" "blob_hex d"] by (simp add: blob_at_path_def blob_dir_def)

lemma last_chain: "blob_dir root d \<in> set (chain (root @ [BLOBS_DIR]) (fan_parts d))"
  by (simp add: blob_dir_def fan_parts_def)

lemma push_blobs: "push_name root BLOBS_DIR = root @ [BLOBS_DIR]"
  by (rule push_name_plain) (simp_all add: BLOBS_DIR_def)

lemma views_moved:
  assumes "disk_ok k" and "disk_ok k'" and "blob_tree B k" and "dk_names k (st_root B @ [UPLOADS_DIR, i]) = Some (File f)"
    and "dk_names k' = (dk_names k)(st_root B @ [UPLOADS_DIR, i] := None, blob_at_path (st_root B) d \<mapsto> File f)"
    and "dk_data k' = dk_data k"
  shows "held B k' = (held B k)(d \<mapsto> dk_data k f)" "staging B k' = (staging B k)(i := None)" "blob_tree B k'"
proof -
  have c: "contents k' p = (if p = blob_at_path (st_root B) d then Some (dk_data k f)
      else if p = st_root B @ [UPLOADS_DIR, i] then None else contents k p)" for p
    using contents_cong [OF assms(1,2) _ assms(6), of p] by (simp add: contents_ok [OF assms(2)] assms(5,6))
  show "held B k' = (held B k)(d \<mapsto> dk_data k f)" "staging B k' = (staging B k)(i := None)"
    using paths_apart(1) by (auto simp: held_def staging_def fun_eq_iff c blob_at_path_inject) metis+
  show "blob_tree B k'"
    by (rule blob_tree_named [of B i d k' k]) (use assms(3) paths_apart(1) in \<open>auto simp: assms(5)\<close>)
qed

lemma wp_place:
  assumes env: "store_env faulty B k" and f: "dk_names k (st_root B @ [UPLOADS_DIR, i]) = Some (File f)" "dk_data k f = c"
    and dir: "dk_names k (blob_dir (st_root B) d) = Some Directory"
  shows "wp (bind_a (fs_rename (st_root B @ [UPLOADS_DIR, i]) (blob_at_path (st_root B) d)) (\<lambda>_. fs_sync_dir (blob_dir (st_root B) d)))
    (\<lambda>_ k'. moved faulty B i d c k k'
       \<and> (dirs_durable (blob_dirs B d) k \<longrightarrow> dk_flushed k f = dk_data k f \<longrightarrow> blob_durable B k' d))
    (\<lambda>e k'. faulty \<and> (unchanged faulty B k k' \<or> moved faulty B i d c k k')) k"
proof -
  note D = store_envD [OF env]
  let ?p = "st_root B @ [UPLOADS_DIR, i]" and ?q = "blob_at_path (st_root B) d"
  let ?k = "k\<lparr>dk_names := (dk_names k)(?p := None, ?q \<mapsto> File f)\<rparr>"
  have q: "dk_names k ?q \<noteq> Some Directory" using D(3) by (simp add: blob_tree_def)
  have "wp (fs_rename ?p ?q) (\<lambda>_ k'. disk_env faulty k' \<and> same_disk ?k k')
      (\<lambda>e k'. faulty \<and> disk_env faulty k' \<and> same_disk k k') k"
    by (rule wp_fs_rename [OF D(1) f(1) q blob_not_root]) (use dir in \<open>auto simp: blob_parent\<close>)
  then show ?thesis
    unfolding wp_simps
  proof (rule wp_weaken, goal_cases)
    case (1 a k1)
    then have k1: "disk_env faulty k1" "same_disk ?k k1" by simp_all
    have n1: "dk_names k1 = (dk_names k)(?p := None, ?q \<mapsto> File f)" "dk_data k1 = dk_data k" "dk_kept k1 = dk_kept k"
      "dk_flushed k1 = dk_flushed k" using k1(2) by (simp_all add: same_disk_def)
    have m: "moved faulty B i d c k k'" if "disk_env faulty k'" "dk_names k' = dk_names k1" "dk_data k' = dk_data k1" for k'
      using views_moved [OF D(2) disk_env_ok [OF that(1)] D(3) f(1)] that n1 f(2) by (simp add: moved_def store_env_def)
    have dir1: "dk_names k1 (blob_dir (st_root B) d) = Some Directory"
      using dir paths_apart(2,3) [OF last_chain] by (simp add: n1)
    show ?case
    proof (rule wp_fs_sync_dir [OF k1(1) dir1])
      let ?kept = "\<lambda>q. if q \<noteq> [] \<and> parent q = blob_dir (st_root B) d then dk_names k1 q else dk_kept k1 q"
      fix k' assume k': "disk_env faulty k'" "same_disk (k1\<lparr>dk_kept := ?kept\<rparr>) k'"
      have n': "dk_names k' = dk_names k1" "dk_data k' = dk_data k1" "dk_flushed k' = dk_flushed k1" "dk_kept k' = ?kept"
        using k'(2) by (simp_all add: same_disk_def)
      have "blob_durable B k' d" if durable: "dirs_durable (blob_dirs B d) k" and flushed: "dk_flushed k f = dk_data k f"
        unfolding blob_durable_def durable_name_def
      proof (intro conjI ballI impI allI)
        fix q assume "q \<in> set (?q # ancestors ?q)" "q \<noteq> []"
        then consider "q = ?q" | "q \<in> blob_dirs B d" by (auto simp: blob_dirs_def)
        then show "dk_kept k' q = dk_names k' q"
        proof cases
          case 1
          then show ?thesis by (simp add: n' blob_parent blob_not_root)
        next
          case 2
          have "dk_names k1 ?q \<noteq> None" by (simp add: n1)
          with 2 have "dk_names k1 q = Some Directory"
            using disk_okD(2) [OF disk_env_ok [OF k1(1)], of ?q q] by (simp add: blob_dirs_def)
          moreover from this have "dk_names k q = Some Directory" by (auto simp: n1 split: if_splits)
          ultimately show ?thesis using durable 2 by (auto simp: dirs_durable_def n' n1)
        qed
      next
        fix g assume "dk_names k' ?q = Some (File g)"
        then show "dk_flushed k' g = dk_data k' g" using flushed by (simp add: n' n1)
      qed
      with m [OF k'(1) n'(1,2)] show "moved faulty B i d c k k'
          \<and> (dirs_durable (blob_dirs B d) k \<longrightarrow> dk_flushed k f = dk_data k f \<longrightarrow> blob_durable B k' d)" by blast
    next
      fix k' assume "faulty" "disk_env faulty k'" "same_disk k1 k'"
      with m [of k'] show "faulty \<and> (unchanged faulty B k k' \<or> moved faulty B i d c k k')"
        by (auto simp: same_disk_simps)
    qed
  next
    case (2 e k1)
    then show ?case using unchanged_same [OF env] by blast
  qed
qed

lemma wp_commit_upload:
  assumes env: "store_env faulty B k" and u: "staged_as L B k u i c"
  shows "wp (store_commit_upload L B u d)
    (\<lambda>n k'. d = content_digest L (up_algorithm u) c \<and> n = word_of_nat (length c) \<and> moved faulty B i d c k k'
       \<and> (dirs_durable (blob_dirs B d) k \<longrightarrow> blob_durable B k' d))
    (\<lambda>e k'. (unchanged faulty B k k' \<and> (faulty \<and> storage_error_of e
               \<or> d \<noteq> content_digest L (up_algorithm u) c \<and> (\<exists>m. e = InvalidDigest m)))
       \<or> (faulty \<and> storage_error_of e \<and> d = content_digest L (up_algorithm u) c \<and> moved faulty B i d c k k')) k"
proof -
  note D = store_envD [OF env]
  let ?p = "st_root B @ [UPLOADS_DIR, i]" and ?root = "st_root B @ [BLOBS_DIR]"
  obtain f where f: "up_staged u = Some (f, hashed L (up_algorithm u) c)" "up_path u = ?p" "dk_names k ?p = Some (File f)"
    "dk_data k f = c" "up_offset u = word_of_nat (length c)"
    using u by (auto simp: staged_as_def)
  let ?k = "k\<lparr>dk_flushed := (dk_flushed k)(f := dk_data k f)\<rparr>"
  have sealed: "wp (fs_sync_file f) (\<lambda>_ k'. disk_env faulty k' \<and> same_disk ?k k')
      (\<lambda>e k'. faulty \<and> disk_env faulty k' \<and> same_disk k k') k"
    by (rule wp_fs_sync_file [OF D(1)]) auto
  show ?thesis
    unfolding store_commit_upload_def seal_def staged_def f(1) result_simps told_def wp_simps sum.case prod.case
  proof (rule wp_weaken [OF sealed], goal_cases)
    case (2 e k1)
    then show ?case using unchanged_same [OF env] storage_error_of_simps(1) by blast
  next
    case (1 a k1)
    then have k1: "disk_env faulty k1" "same_disk ?k k1" by simp_all
    have n1: "dk_names k1 = dk_names k" "dk_data k1 = dk_data k" "dk_kept k1 = dk_kept k" "dk_flushed k1 f = dk_data k f"
      using k1(2) by (simp_all add: same_disk_def)
    have ok1: "disk_ok k1" using disk_env_ok [OF k1(1)] .
    have un1: "unchanged faulty B k k1"
      using k1(1) D(3) contents_cong [OF D(2) ok1 _ n1(2)]
      by (simp add: unchanged_def store_env_def held_def staging_def fun_eq_iff blob_tree_def n1(1))
    show ?case
    proof (cases "content_digest L (up_algorithm u) c = d")
      case False
      with un1 show ?thesis by (auto simp: wp_simps content_digest_def)
    next
      case True
      let ?D = "set (chain ?root (fan_parts d))"
      have tree: "dk_names k1 ?root = Some Directory" "\<forall>q \<in> ?D. \<forall>i. dk_names k1 q \<noteq> Some (File i)"
        using D(3) unfolding blob_tree_def n1 by blast+
      have made: "wp (create_dir_durable (blob_dir (st_root B) d) ?root)
          (\<lambda>_ k'. disk_env faulty k' \<and> grown ?D k1 k' \<and> dk_names k' (blob_dir (st_root B) d) = Some Directory
             \<and> (\<forall>D. dirs_durable D k1 \<longrightarrow> dirs_durable D k'))
          (\<lambda>e k'. faulty \<and> disk_env faulty k' \<and> grown ?D k1 k') k1"
        unfolding blob_dir_def by (rule wp_create_dir_durable [OF k1(1) tree]) auto
      have grown: "unchanged faulty B k k'" if "disk_env faulty k'" "grown ?D k1 k'" for k'
        using views_grown [OF that(2) ok1 disk_env_ok [OF that(1)]] un1 that(1) by (simp add: unchanged_def store_env_def)
      have "wp (bind_a (told ''creating'' (create_dir_durable (blob_dir (st_root B) d) ?root)) (\<lambda>_.
          bind_a (told ''committing'' (fs_rename ?p (blob_at_path (st_root B) d))) (\<lambda>_.
          bind_a (told ''fsyncing'' (fs_sync_dir (blob_dir (st_root B) d))) (\<lambda>_. return_a (up_offset u)))))
        (\<lambda>n k'. n = up_offset u \<and> moved faulty B i d c k k' \<and> (dirs_durable (blob_dirs B d) k \<longrightarrow> blob_durable B k' d))
        (\<lambda>e k'. faulty \<and> storage_error_of e \<and> (unchanged faulty B k k' \<or> moved faulty B i d c k k')) k1"
        unfolding told_def wp_simps
      proof (rule wp_weaken [OF made], goal_cases)
        case (2 e k2)
        then show ?case using grown by auto
      next
        case (1 a k2)
        then have k2: "disk_env faulty k2" "grown ?D k1 k2" "dk_names k2 (blob_dir (st_root B) d) = Some Directory"
          "dirs_durable (blob_dirs B d) k1 \<longrightarrow> dirs_durable (blob_dirs B d) k2" by blast+
        have un2: "unchanged faulty B k k2" using grown [OF k2(1,2)] .
        then have env2: "store_env faulty B k2" by (simp add: unchanged_def)
        have f2: "dk_names k2 ?p = Some (File f)" "dk_data k2 f = c" "dk_flushed k2 f = dk_data k2 f"
          using grown_name [OF k2(2), of ?p] k2(2) f(3,4) n1 by (simp_all add: grown_def)
        have moved: "moved faulty B i d c k k'" if "moved faulty B i d c k2 k'" for k'
          using that un2 by (simp add: moved_def unchanged_def)
        have same: "unchanged faulty B k k'" if "unchanged faulty B k2 k'" for k' using unchanged_trans [OF un2 that] .
        have durable: "dirs_durable (blob_dirs B d) k \<Longrightarrow> dirs_durable (blob_dirs B d) k2"
          using k2(4) by (simp add: dirs_durable_def n1)
        from wp_place [OF env2 f2(1,2) k2(3)] show ?case
          unfolding wp_simps
        proof (rule wp_weaken, goal_cases)
          case (1 a k3)
          then show ?case
          proof (rule wp_weaken, goal_cases)
            case (1 a k4)
            with moved durable f2(3) show ?case by blast
          next
            case (2 e k4)
            with moved same storage_error_of_simps(1) show ?case by blast
          qed
        next
          case (2 e k3)
          with moved same storage_error_of_simps(1) show ?case by blast
        qed
      qed
      then show ?thesis
        using True f by (simp add: wp_simps blob_path_eq push_blobs content_digest_def [symmetric] told_def) (auto elim!: wp_weaken)
    qed
  qed
qed

section \<open>Removing and asking\<close>

lemma wp_cancel_upload:
  assumes env: "store_env faulty B k" and i: "new_upload_id i = Inr i"
  shows "wp (store_cancel_upload B i)
    (\<lambda>_ k'. store_env faulty B k' \<and> held B k' = held B k \<and> staging B k' = (staging B k)(i := None))
    (\<lambda>e k'. faulty \<and> unchanged faulty B k k' \<and> storage_error_of e) k"
proof -
  note D = store_envD [OF env]
  let ?p = "st_root B @ [UPLOADS_DIR, i]"
  have up: "upload_path (st_root B) i = ?p" using new_upload_id_plain(2) [OF i] .
  have not_dir: "dk_names k ?p \<noteq> Some Directory" using D(3) by (simp add: blob_tree_def)
  have "wp (fs_remove_file ?p)
      (\<lambda>_ k'. store_env faulty B k' \<and> held B k' = held B k \<and> staging B k' = (staging B k)(i := None))
      (\<lambda>e k'. unchanged faulty B k k' \<and> (e = IoNotFound \<and> staging B k i = None \<or> e = IoOther \<and> faulty)) k"
  proof (rule wp_fs_remove_file [OF D(1) not_dir])
    fix k' f assume k': "disk_env faulty k'" "dk_names k ?p = Some (File f)" "same_disk (k\<lparr>dk_names := (dk_names k)(?p := None)\<rparr>) k'"
    then have n: "dk_names k' = (dk_names k)(?p := None)" "dk_data k' = dk_data k" by (simp_all add: same_disk_def)
    note ok = disk_env_ok [OF k'(1)]
    have c: "contents k' p = (if p = ?p then None else contents k p)" for p
      using contents_cong [OF D(2) ok _ n(2), of p] by (simp add: contents_ok [OF ok] n(1))
    have "blob_tree B k'"
      by (rule blob_tree_named [of B i undefined k' k]) (use D(3) paths_apart(1) in \<open>auto simp: n(1) blob_tree_def\<close>)
    then show "store_env faulty B k' \<and> held B k' = held B k \<and> staging B k' = (staging B k)(i := None)"
      using k'(1) paths_apart(1) by (simp add: store_env_def held_def staging_def fun_eq_iff c)
  next
    fix k' assume "disk_env faulty k'" "same_disk k k'" "dk_names k ?p = None"
    then show "unchanged faulty B k k' \<and> (IoNotFound = IoNotFound \<and> staging B k i = None \<or> IoNotFound = IoOther \<and> faulty)"
      using unchanged_same [OF env] by (simp add: staging_def contents_ok [OF D(2)])
  next
    fix k' assume "faulty" "disk_env faulty k'" "same_disk k k'"
    then show "unchanged faulty B k k' \<and> (IoOther = IoNotFound \<and> staging B k i = None \<or> IoOther = IoOther \<and> faulty)"
      using unchanged_same [OF env] by blast
  qed
  then show ?thesis
    unfolding store_cancel_upload_def up wp_def
    by (auto simp: unchanged_def fun_upd_idem split: prod.splits sum.splits io_error.splits)
qed

lemma wp_delete_blob:
  assumes env: "store_env faulty B k"
  shows "wp (store_delete_blob B d)
    (\<lambda>b k'. store_env faulty B k' \<and> b = (held B k d \<noteq> None) \<and> held B k' = (held B k)(d := None) \<and> staging B k' = staging B k)
    (\<lambda>e k'. faulty \<and> unchanged faulty B k k' \<and> storage_error_of e) k"
proof -
  note D = store_envD [OF env]
  let ?p = "blob_at_path (st_root B) d"
  have not_dir: "dk_names k ?p \<noteq> Some Directory" using D(3) by (simp add: blob_tree_def)
  have "wp (fs_remove_file ?p)
      (\<lambda>_ k'. held B k d \<noteq> None \<and> store_env faulty B k' \<and> held B k' = (held B k)(d := None) \<and> staging B k' = staging B k)
      (\<lambda>e k'. unchanged faulty B k k' \<and> (e = IoNotFound \<and> held B k d = None \<or> e = IoOther \<and> faulty)) k"
  proof (rule wp_fs_remove_file [OF D(1) not_dir])
    fix k' f assume k': "disk_env faulty k'" "dk_names k ?p = Some (File f)" "same_disk (k\<lparr>dk_names := (dk_names k)(?p := None)\<rparr>) k'"
    then have n: "dk_names k' = (dk_names k)(?p := None)" "dk_data k' = dk_data k" by (simp_all add: same_disk_def)
    note ok = disk_env_ok [OF k'(1)]
    have c: "contents k' p = (if p = ?p then None else contents k p)" for p
      using contents_cong [OF D(2) ok _ n(2), of p] by (simp add: contents_ok [OF ok] n(1))
    have "blob_tree B k'"
      by (rule blob_tree_named [of B undefined d k' k]) (use D(3) paths_apart(1) [symmetric] in \<open>auto simp: n(1) blob_tree_def\<close>)
    then show "held B k d \<noteq> None \<and> store_env faulty B k' \<and> held B k' = (held B k)(d := None) \<and> staging B k' = staging B k"
      using k'(1,2) paths_apart(1) [symmetric]
      by (simp add: store_env_def held_def staging_def fun_eq_iff c blob_at_path_inject contents_ok [OF D(2)])
  next
    fix k' assume "disk_env faulty k'" "same_disk k k'" "dk_names k ?p = None"
    then show "unchanged faulty B k k' \<and> (IoNotFound = IoNotFound \<and> held B k d = None \<or> IoNotFound = IoOther \<and> faulty)"
      using unchanged_same [OF env] by (simp add: held_def contents_ok [OF D(2)])
  next
    fix k' assume "faulty" "disk_env faulty k'" "same_disk k k'"
    then show "unchanged faulty B k k' \<and> (IoOther = IoNotFound \<and> held B k d = None \<or> IoOther = IoOther \<and> faulty)"
      using unchanged_same [OF env] by blast
  qed
  then show ?thesis
    unfolding store_delete_blob_def blob_path_eq snd_conv wp_def
    by (auto simp: unchanged_def fun_upd_idem split: prod.splits sum.splits io_error.splits)
qed

lemma wp_stat_blob:
  assumes env: "store_env faulty B k"
  shows "wp (store_stat B d)
    (\<lambda>n k'. unchanged faulty B k k' \<and> n = map_option (\<lambda>b. word_of_nat (length b)) (held B k d))
    (\<lambda>e k'. faulty \<and> unchanged faulty B k k' \<and> storage_error_of e) k"
proof -
  note D = store_envD [OF env]
  let ?p = "blob_at_path (st_root B) d"
  have not_dir: "dk_names k ?p \<noteq> Some Directory" using D(3) by (simp add: blob_tree_def)
  have "wp (fs_node ?p) (\<lambda>n k'. same_disk k k' \<and> unchanged faulty B k k' \<and> dk_names k ?p = Some n)
      (\<lambda>e k'. unchanged faulty B k k' \<and> (e = IoNotFound \<and> dk_names k ?p = None \<or> e = IoOther \<and> faulty)) k"
    by (rule wp_fs_node [OF D(1)]) (use unchanged_same [OF env] in blast)+
  then show ?thesis
    using not_dir unfolding store_stat_def blob_path_eq snd_conv wp_def
    by (auto simp: held_def contents_ok [OF D(2)] same_disk_simps split: prod.splits sum.splits io_error.splits node.splits)
qed

lemma wp_contains:
  assumes env: "store_env faulty B k"
  shows "wp (store_contains B d) (\<lambda>b k'. unchanged faulty B k k' \<and> b = (held B k d \<noteq> None))
    (\<lambda>e k'. faulty \<and> unchanged faulty B k k' \<and> storage_error_of e) k"
  unfolding store_contains_def wp_simps by (rule wp_weaken [OF wp_stat_blob [OF env]]) auto

text \<open>An open blob is its contents, whatever becomes of its name.\<close>

definition opened_as :: "blob_store \<Rightarrow> disk \<Rightarrow> blob_file \<Rightarrow> bytes \<Rightarrow> bool" where
  "opened_as B k b c \<longleftrightarrow> dk_data k (bf_file b) = c \<and> bf_size b = word_of_nat (length c) \<and> bf_chunk_size b = st_read_chunk_size B"

lemma wp_open_blob:
  assumes env: "store_env faulty B k"
  shows "wp (store_open_blob B d)
    (\<lambda>b k'. unchanged faulty B k k' \<and> (\<exists>c. held B k d = Some c \<and> opened_as B k' b c))
    (\<lambda>e k'. unchanged faulty B k k' \<and> (e = NotFound \<and> held B k d = None \<or> faulty \<and> storage_error_of e)) k"
proof -
  note D = store_envD [OF env]
  let ?p = "blob_at_path (st_root B) d"
  have not_dir: "dk_names k ?p \<noteq> Some Directory" using D(3) by (simp add: blob_tree_def)
  have "wp (fs_open ?p) (\<lambda>f k'. dk_names k ?p = Some (File f) \<and> disk_env faulty k' \<and> same_disk k k')
      (\<lambda>e k'. disk_env faulty k' \<and> same_disk k k' \<and> (e = IoNotFound \<and> dk_names k ?p = None \<or> e = IoOther \<and> faulty)) k"
    by (rule wp_fs_open [OF D(1)]) (use not_dir in auto)
  then show ?thesis
    unfolding store_open_blob_def blob_path_eq snd_conv wp_simps told_def
  proof (rule wp_weaken, goal_cases)
    case (1 f k1)
    then have f: "dk_names k ?p = Some (File f)" and k1: "disk_env faulty k1" "same_disk k k1" by blast+
    have h: "held B k d = Some (dk_data k f)" by (simp add: held_def contents_ok [OF D(2)] f)
    show ?case
    proof (rule wp_fs_len [OF k1(1)])
      fix k' assume k': "disk_env faulty k'" "same_disk k1 k'"
      note same = same_disk_trans [OF k1(2) k'(2)]
      show "unchanged faulty B k k' \<and> (\<exists>c. held B k d = Some c
          \<and> opened_as B k' \<lparr>bf_file = f, bf_size = word_of_nat (length (dk_data k1 f)), bf_chunk_size = st_read_chunk_size B\<rparr> c)"
        using unchanged_same [OF env same k'(1)] h same k1(2) by (simp add: opened_as_def same_disk_simps)
    next
      fix k' assume "faulty" "disk_env faulty k'" "same_disk k1 k'"
      then show "unchanged faulty B k k' \<and> (Storage ''stat blob'' = NotFound \<and> held B k d = None
          \<or> faulty \<and> storage_error_of (Storage ''stat blob''))"
        using unchanged_same [OF env same_disk_trans [OF k1(2)]] by auto
    qed
  next
    case (2 e k1)
    then have "unchanged faulty B k k1" "e = IoNotFound \<and> dk_names k ?p = None \<or> e = IoOther \<and> faulty"
      using unchanged_same [OF env] by blast+
    then show ?case by (auto simp: held_def contents_ok [OF D(2)])
  qed
qed

end
