(* ===== verification/Summ_Reads.thy ===== *)
theory Summ_Reads
  imports Summ_Staging
begin

text \<open>
  What a download reads: the stream of an open blob delivers the window it was made for, whole, however the reads are cut, and
  when a read fails it delivers what came before and stops.
\<close>

section \<open>Streams\<close>

text \<open>What a stream has still to deliver.\<close>

definition pending :: "blob_stream \<Rightarrow> bytes \<Rightarrow> bytes" where
  "pending t c = (case bt_inflight t of Some (Inr part, _) \<Rightarrow> part | _ \<Rightarrow> [])
     @ take (unat (bt_end_offset t) - unat (bt_next_offset t)) (drop (unat (bt_next_offset t)) c)"

definition flowing :: "bool \<Rightarrow> disk \<Rightarrow> blob_stream \<Rightarrow> bytes \<Rightarrow> bool" where
  "flowing faulty k t c \<longleftrightarrow> disk_env faulty k \<and> dk_data k (bt_file t) = c
     \<and> bt_next_offset t \<le> bt_end_offset t \<and> unat (bt_end_offset t) \<le> length c \<and> 0 < bt_chunk_size t
     \<and> (case bt_inflight t of None \<Rightarrow> True | Some (Inl _, _) \<Rightarrow> faulty | Some (Inr part, _) \<Rightarrow> part \<noteq> [])"

lemma spawn_next_spec:
  assumes "flowing faulty k t c" and "bt_inflight t = None" and "spawn_next t k = (t', k')"
  shows "flowing faulty k' t' c \<and> same_disk k k'
    \<and> (case bt_inflight t' of None \<Rightarrow> pending t c = [] | Some (Inl _, _) \<Rightarrow> True | Some (Inr _, _) \<Rightarrow> pending t' c = pending t c)"
proof -
  let ?n = "unat (bt_next_offset t)" and ?e = "unat (bt_end_offset t)"
  let ?len = "min (unat (bt_end_offset t - bt_next_offset t)) (bt_chunk_size t)"
  from assms(1) have F: "disk_env faulty k" "dk_data k (bt_file t) = c" "bt_next_offset t \<le> bt_end_offset t" "?e \<le> length c"
    "0 < bt_chunk_size t" by (simp_all add: flowing_def)
  have rem: "unat (bt_end_offset t - bt_next_offset t) = ?e - ?n" using F(3) by (simp add: unat_sub)
  have le: "?n \<le> ?e" using F(3) by (simp add: word_le_nat_alt)
  show ?thesis
  proof (cases "bt_end_offset t - bt_next_offset t = 0")
    case True
    then have "?e = ?n" using rem le by simp
    with True assms show ?thesis by (auto simp: spawn_next_def pending_def)
  next
    case False
    then have "unat (bt_end_offset t - bt_next_offset t) \<noteq> 0" by (simp add: unat_eq_0)
    then have len: "0 < ?len" "?n + ?len \<le> ?e" using F(5) rem by auto
    have short: "?n \<le> MAX_FILE" using le F(4) disk_okD(5) [OF disk_env_ok [OF F(1)], of "bt_file t"] F(2) by simp
    obtain r k1 where rd: "read_exact_at (bt_file t) (bt_next_offset t) ?len k = (r, k1)" by fastforce
    then have "read_exact_at (bt_file t) (word_of_nat ?n) ?len k = (r, k1)" by simp
    note R = read_exact_spec [OF F(1) short this, unfolded F(2)]
    let ?t = "t\<lparr>bt_next_offset := bt_next_offset t + word_of_nat ?len, bt_inflight := Some (r, word_of_nat ?len)\<rparr>"
    have t': "t' = ?t" "k' = k1" using assms(3) False rd by (simp_all add: spawn_next_def Let_def)
    have "?e < 2 ^ 64" using unsigned_less [of "bt_end_offset t", where 'a = nat] by simp
    with len have next_offset: "unat (bt_next_offset t + word_of_nat ?len) = ?n + ?len"
      by (simp add: unat_word_ariths unat_of_nat)
    show ?thesis
    proof (cases r)
      case (Inl e)
      with R len(2) F(4) have "faulty" by auto
      moreover have "disk_env faulty k1" "same_disk k k1" using R by blast+
      ultimately show ?thesis using Inl F len next_offset
        by (auto simp: t' flowing_def word_le_nat_alt same_disk_simps)
    next
      case (Inr part)
      note R' = R [unfolded Inr sum.case]
      then have part: "part = take ?len (drop ?n c)" "length part = ?len" "disk_env faulty k1" "same_disk k k1" by blast+
      have "part \<noteq> []" using part(2) len(1) by auto
      moreover have "pending ?t c = pending t c"
      proof -
        have "take (?e - ?n) (drop ?n c) = take (?len + (?e - (?n + ?len))) (drop ?n c)" using len by simp
        also have "\<dots> = part @ take (?e - (?n + ?len)) (drop (?n + ?len) c)" by (simp only: take_add part(1) drop_drop add.commute)
        finally show ?thesis by (simp add: pending_def next_offset Inr assms(2))
      qed
      ultimately show ?thesis
        using Inr part F len next_offset by (simp add: t' flowing_def word_le_nat_alt same_disk_simps)
    qed
  qed
qed

text \<open>A poll delivers the next bytes, or the end when nothing is left, or an error.\<close>

lemma poll_spec:
  assumes "flowing faulty k t c" and "poll_stream t k = ((x, t'), k')"
  shows "same_disk k k' \<and> disk_env faulty k' \<and> (case x of
      None \<Rightarrow> pending t c = []
    | Some (Inl _) \<Rightarrow> faulty
    | Some (Inr chunk) \<Rightarrow> chunk \<noteq> [] \<and> (\<exists>rest. pending t c = chunk @ rest \<and> flowing faulty k' t' c
        \<and> (pending t' c = rest \<or> (\<exists>e n. bt_inflight t' = Some (Inl e, n)))))"
proof -
  obtain t1 k1 where s: "(if bt_inflight t = None then spawn_next t k else (t, k)) = (t1, k1)" by fastforce
  have S: "flowing faulty k1 t1 c \<and> same_disk k k1 \<and> (case bt_inflight t1 of None \<Rightarrow> pending t c = []
      | Some (Inl _, _) \<Rightarrow> True | Some (Inr _, _) \<Rightarrow> pending t1 c = pending t c)"
  proof (cases "bt_inflight t = None")
    case True
    with s have "spawn_next t k = (t1, k1)" by simp
    from spawn_next_spec [OF assms(1) True this] show ?thesis .
  next
    case False
    with s assms(1) show ?thesis by (auto split: option.split prod.split sum.split)
  qed
  note run = assms(2) [unfolded poll_stream_def s prod.case]
  have env: "disk_env faulty k1" using S by (simp add: flowing_def)
  show ?thesis
  proof (cases "bt_inflight t1")
    case None
    with S run env show ?thesis by auto
  next
    case (Some y)
    obtain r n where y: "y = (r, n)" by fastforce
    show ?thesis
    proof (cases r)
      case (Inl e)
      with S Some y run env show ?thesis by (auto simp: flowing_def)
    next
      case (Inr chunk)
      let ?t = "t1\<lparr>bt_inflight := None\<rparr>"
      obtain t2 k2 where s2: "spawn_next ?t k1 = (t2, k2)" by fastforce
      with run Some y Inr have r: "x = Some (Inr chunk)" "t' = t2" "k' = k2" by simp_all
      have "flowing faulty k1 ?t c" using S Some y Inr by (simp add: flowing_def)
      from spawn_next_spec [OF this _ s2] have T: "flowing faulty k2 t2 c" "same_disk k1 k2"
        "case bt_inflight t2 of None \<Rightarrow> pending ?t c = [] | Some (Inl _, _) \<Rightarrow> True | Some (Inr _, _) \<Rightarrow> pending t2 c = pending ?t c"
        by simp_all
      have split: "pending t c = chunk @ pending ?t c" using S Some y Inr by (simp add: pending_def)
      have "pending t2 c = pending ?t c \<or> (\<exists>e n. bt_inflight t2 = Some (Inl e, n))"
      proof (cases "bt_inflight t2")
        case None
        have "pending t2 c = []"
        proof -
          have "t2 = ?t" using s2 None by (auto simp: spawn_next_def Let_def split: if_splits prod.splits)
          with T(3) None show ?thesis by simp
        qed
        with T(3) None show ?thesis by simp
      next
        case (Some z)
        with T(3) show ?thesis by (cases z; cases "fst z") auto
      qed
      moreover have "chunk \<noteq> []" using S Some y Inr by (simp add: flowing_def)
      moreover have "disk_env faulty k2" using T(1) by (simp add: flowing_def)
      ultimately show ?thesis using r split T(1) same_disk_trans [OF _ T(2), of k] S by auto
    qed
  qed
qed

lemma consume_spec:
  assumes "flowing faulty k t c" and "length (pending t c) < n" and "consume n t k = ((b, failed), k')"
  shows "same_disk k k' \<and> disk_env faulty k' \<and> prefix b (pending t c) \<and> (if failed then faulty else b = pending t c)"
  using assms
proof (induction n arbitrary: t k b failed k')
  case (Suc n)
  obtain x t1 k1 where p: "poll_stream t k = ((x, t1), k1)" by (metis prod.exhaust)
  note P = poll_spec [OF Suc.prems(1) p]
  show ?case
  proof (cases x)
    case None
    with P p Suc.prems(3) show ?thesis by auto
  next
    case (Some y)
    show ?thesis
    proof (cases y)
      case (Inl e)
      with Some P p Suc.prems(3) show ?thesis by auto
    next
      case (Inr chunk)
      with Some P obtain rest where P': "same_disk k k1" "disk_env faulty k1" "chunk \<noteq> []" "pending t c = chunk @ rest" "flowing faulty k1 t1 c"
        "pending t1 c = rest \<or> (\<exists>e n. bt_inflight t1 = Some (Inl e, n))" by auto
      obtain b' k2 where run: "consume n t1 k1 = ((b', failed), k2)" "b = chunk @ b'" "k' = k2"
        using Suc.prems(3) p Some Inr by (auto split: prod.splits)
      from P'(6) show ?thesis
      proof
        assume rest: "pending t1 c = rest"
        then have "length (pending t1 c) < n" using Suc.prems(2) P'(3,4) by (cases chunk) auto
        from Suc.IH [OF P'(5) this run(1)] same_disk_trans [OF P'(1)] P'(4) rest run(2,3) show ?thesis by auto
      next
        assume err: "\<exists>e n. bt_inflight t1 = Some (Inl e, n)"
        then have "faulty" using P'(5) by (auto simp: flowing_def)
        moreover have "b' = []" "failed" "k2 = k1"
          using run(1) err by (cases n; auto simp: poll_stream_def)+
        ultimately show ?thesis using P' run(2,3) by simp
      qed
    qed
  qed
qed simp

section \<open>Windows\<close>

text \<open>What a range means: the bytes it names, cut at the end of the blob; nothing when there are none.\<close>

fun window_bytes :: "read_range \<Rightarrow> bytes \<Rightarrow> bytes option" where
  "window_bytes (Inclusive a b) c =
     (if a \<le> b \<and> unat a < length c then Some (take (unat b - unat a + 1) (drop (unat a) c)) else None)"
| "window_bytes (StartingAt a) c = (if unat a < length c then Some (drop (unat a) c) else None)"
| "window_bytes (Suffix n) c = (if n \<noteq> 0 \<and> c \<noteq> [] then Some (drop (length c - unat n) c) else None)"

lemma resolve_window:
  assumes "length c \<le> MAX_FILE"
  shows "case resolve_read r (word_of_nat (length c)) of
      None \<Rightarrow> window_bytes r c = None
    | Some w \<Rightarrow> rr_start w \<le> rr_end w \<and> unat (rr_end w) < length c
        \<and> window_bytes r c = Some (take (unat (rr_end w) - unat (rr_start w) + 1) (drop (unat (rr_start w)) c))"
proof -
  let ?n = "word_of_nat (length c) :: u64"
  have n: "unat ?n = length c" using assms by (rule fits_u64)
  have zero: "?n = 0 \<longleftrightarrow> c = []" using n by (metis length_0_conv unat_eq_0)
  have last: "unat (?n - 1) = length c - 1" if "c \<noteq> []"
    using that n by (subst unat_minus_one) (auto simp: zero)
  show ?thesis
  proof (cases r)
    case (Inclusive a b)
    show ?thesis
    proof (cases "b < a \<or> ?n \<le> a")
      case True
      with n show ?thesis by (auto simp: Inclusive word_le_nat_alt word_less_nat_alt)
    next
      case False
      then have ab: "a \<le> b" "unat a < length c" using n by (auto simp: word_le_nat_alt word_less_nat_alt)
      then have c: "c \<noteq> []" by auto
      have m: "unat (min b (?n - 1)) = min (unat b) (length c - 1)"
        using last [OF c] by (auto simp: min_def word_le_nat_alt)
      have "take (unat b - unat a + 1) (drop (unat a) c) = take (min (unat b) (length c - 1) - unat a + 1) (drop (unat a) c)"
        using ab by (cases "unat b \<le> length c - 1") (auto simp: min_def)
      with False ab m c show ?thesis by (auto simp: Inclusive word_le_nat_alt)
    qed
  next
    case (StartingAt a)
    show ?thesis
    proof (cases "?n \<le> a")
      case True
      with n show ?thesis by (simp add: StartingAt word_le_nat_alt)
    next
      case False
      then have a: "unat a < length c" using n by (simp add: word_le_nat_alt)
      then have "c \<noteq> []" by auto
      with False a last [OF this] show ?thesis by (auto simp: StartingAt word_le_nat_alt)
    qed
  next
    case (Suffix m)
    show ?thesis
    proof (cases "m = 0 \<or> ?n = 0")
      case True
      with zero show ?thesis by (auto simp: Suffix)
    next
      case False
      then have c: "c \<noteq> []" "m \<noteq> 0" using zero by auto
      have "0 < unat m" using c(2) by (simp add: unat_gt_0)
      moreover have "unat (sat_sub ?n m) = length c - unat m" by (simp add: unat_sat_sub n)
      ultimately show ?thesis using False c last [OF c(1)] by (auto simp: Suffix word_le_nat_alt)
    qed
  qed
qed

lemma read_from:
  assumes "disk_env faulty k" and "opened_as B k b c" and "0 < st_read_chunk_size B"
    and "unat off + unat len \<le> length c" and "read_stream (stream_from b off len) k = ((out, failed), k')"
  shows "same_disk k k' \<and> disk_env faulty k' \<and> prefix out (take (unat len) (drop (unat off) c))
    \<and> (if failed then faulty else out = take (unat len) (drop (unat off) c))"
proof -
  let ?t = "stream_from b off len"
  have "length c \<le> MAX_FILE" using disk_okD(5) [OF disk_env_ok [OF assms(1)], of "bf_file b"] assms(2) by (simp add: opened_as_def)
  with assms(4) have no: "unat off + unat len < 2 ^ 64" by (simp add: MAX_FILE_def)
  then have e: "unat (off + len) = unat off + unat len" by (simp add: unat_word_ariths)
  have p: "pending ?t c = take (unat len) (drop (unat off) c)" by (simp add: pending_def stream_from_def e)
  have flow: "flowing faulty k ?t c"
    using assms(1-4) by (simp add: flowing_def stream_from_def opened_as_def word_le_nat_alt e)
  have fuel: "length (pending ?t c) < unat (stream_len ?t) + 1"
    unfolding p by (simp add: stream_len_def stream_from_def)
  from consume_spec [OF flow fuel assms(5) [unfolded read_stream_def]] show ?thesis unfolding p by simp
qed

lemma read_window:
  assumes "disk_env faulty k" and "opened_as B k b c" and "0 < st_read_chunk_size B"
    and "blob_resolve b r = Some w" and "read_stream (stream_range b w) k = ((out, failed), k')"
  shows "\<exists>window. window_bytes r c = Some window \<and> unat (resolved_len w) = length window \<and> same_disk k k' \<and> disk_env faulty k'
    \<and> prefix out window \<and> (if failed then faulty else out = window)"
proof -
  have short: "length c \<le> MAX_FILE" using disk_okD(5) [OF disk_env_ok [OF assms(1)], of "bf_file b"] assms(2) by (simp add: opened_as_def)
  have n: "bf_size b = word_of_nat (length c)" using assms(2) by (simp add: opened_as_def)
  note u = fits_u64 [OF short]
  from resolve_window [OF short, of r] assms(4) have W: "rr_start w \<le> rr_end w" "unat (rr_end w) < length c"
    "window_bytes r c = Some (take (unat (rr_end w) - unat (rr_start w) + 1) (drop (unat (rr_start w)) c))"
    by (simp_all add: blob_resolve_def n)
  then have c: "0 < length c" by auto
  have "bf_size b \<noteq> 0" using u c n by (metis unat_0 less_irrefl)
  moreover have "unat (sat_sub (bf_size b) 1) = length c - 1" by (simp add: unat_sat_sub n u)
  then have "rr_end w \<le> sat_sub (bf_size b) 1" "rr_start w \<le> bf_size b"
    using W n u by (auto simp: word_le_nat_alt)
  ultimately have s: "stream_range b w = stream_from b (rr_start w) (rr_end w - rr_start w + 1)"
    using W(1) by (simp add: stream_range_def Let_def min_def flip: linorder_not_le)
  have d: "unat (rr_end w - rr_start w) = unat (rr_end w) - unat (rr_start w)" using W(1) by (simp add: unat_sub)
  have len: "unat (resolved_len w) = unat (rr_end w) - unat (rr_start w) + 1"
    using W(2) short d by (simp add: resolved_len_def unat_word_ariths MAX_FILE_def)
  then have fit: "unat (rr_start w) + unat (resolved_len w) \<le> length c" using W(1,2) by (simp add: word_le_nat_alt)
  from assms(5) s have run: "read_stream (stream_from b (rr_start w) (resolved_len w)) k = ((out, failed), k')"
    by (simp add: resolved_len_def)
  let ?window = "take (unat (resolved_len w)) (drop (unat (rr_start w)) c)"
  have "length ?window = unat (resolved_len w)" using fit by simp
  with read_from [OF assms(1-3) fit run] W(3) len show ?thesis by (intro exI [of _ ?window]) simp
qed

lemma read_whole:
  assumes "disk_env faulty k" and "opened_as B k b c" and "0 < st_read_chunk_size B"
    and "read_stream (stream_blob b) k = ((out, failed), k')"
  shows "same_disk k k' \<and> disk_env faulty k' \<and> prefix out c \<and> (if failed then faulty else out = c)"
proof -
  have "length c \<le> MAX_FILE" using disk_okD(5) [OF disk_env_ok [OF assms(1)], of "bf_file b"] assms(2) by (simp add: opened_as_def)
  note u = fits_u64 [OF this]
  have n: "bf_size b = word_of_nat (length c)" using assms(2) by (simp add: opened_as_def)
  from read_from [OF assms(1-3), of 0 "bf_size b" out failed k'] assms(4) show ?thesis
    by (simp add: stream_blob_def n u)
qed

end
