(* ===== verification/Summ_Stock.thy ===== *)
theory Summ_Stock
  imports Summ_Passes Summ_Reads
begin

text \<open>
  What the store says of the bytes: every blob record has its bytes, the bytes are those of their digest, and every session of an
  upload agrees with its staging file. This is the invariant of the backend, through every operation and every failure.
\<close>

section \<open>Records and bytes\<close>

text \<open>A session: some bytes \<open>pre\<close> were hashed, and the file begins with them, or is too short to be resumed.\<close>

definition session_matches :: "'h sha2 \<Rightarrow> upload_session \<Rightarrow> bytes option \<Rightarrow> bool" where
  "session_matches L x file \<longleftrightarrow>
     (\<exists>pre. length pre \<le> MAX_FILE \<and> us_offset x = word_of_nat (length pre)
        \<and> (\<forall>a. algorithm_from_name (us_algorithm x) = Inr a \<longrightarrow>
             us_hasher_state x = Some (hasher_serialize L (hashed L a pre)) \<or> us_hasher_state x = None \<and> pre = [])
        \<and> (\<forall>c. file = Some c \<longrightarrow> prefix pre c \<or> length c < length pre))"

definition stocked ::
    "'h sha2 \<Rightarrow> libs \<Rightarrow> store \<Rightarrow> (digest \<Rightarrow> bytes option) \<Rightarrow> (string \<Rightarrow> bytes option) \<Rightarrow> bool" where
  "stocked L lib m H S \<longleftrightarrow>
     (\<forall>d c. H d = Some c \<longrightarrow> content_digest L (algorithm_of d) c = d)
     \<and> (\<forall>d r. blob_at lib m d = Some r \<longrightarrow>
          H d \<noteq> None \<and> (\<exists>c. content_digest L (algorithm_of d) c = d \<and> br_size r = word_of_nat (length c)))
     \<and> (\<forall>u x. upload_at lib m u = Some x \<longrightarrow> session_matches L x (S (format_upload_id u)))
     \<and> (\<forall>i u. S i \<noteq> None \<longrightarrow> parse_upload_id i = Inr u \<longrightarrow> i = format_upload_id u)"

lemma stockedD:
  assumes "stocked L lib m H S"
  shows "H d = Some c \<Longrightarrow> content_digest L (algorithm_of d) c = d"
    and "blob_at lib m d = Some r \<Longrightarrow> H d \<noteq> None"
    and "blob_at lib m d = Some r \<Longrightarrow> \<exists>c. content_digest L (algorithm_of d) c = d \<and> br_size r = word_of_nat (length c)"
    and "upload_at lib m u = Some x \<Longrightarrow> session_matches L x (S (format_upload_id u))"
    and "S i \<noteq> None \<Longrightarrow> parse_upload_id i = Inr u \<Longrightarrow> i = format_upload_id u"
  using assms unfolding stocked_def by blast+

text \<open>A store that lost records, and none of another kind.\<close>

definition thinner :: "store \<Rightarrow> store \<Rightarrow> bool" where
  "thinner m m' \<longleftrightarrow> (\<forall>d. m' (blob_key d) = m (blob_key d) \<or> m' (blob_key d) = None)
     \<and> (\<forall>u. m' (upload_key u) = m (upload_key u) \<or> m' (upload_key u) = None)"

lemma thinner_refl [simp]: "thinner m m"
  by (simp add: thinner_def)

lemma thinner_trans: "thinner m m1 \<Longrightarrow> thinner m1 m' \<Longrightarrow> thinner m m'"
  unfolding thinner_def by metis

lemma thinner_data:
  assumes "\<And>k. m' (0x42 # k) = m (0x42 # k)" and "\<And>k. m' (0x55 # k) = m (0x55 # k)"
  shows "thinner m m'"
  using assms by (simp add: thinner_def data_keys)

lemma stocked_thinner:
  assumes "stocked L lib m H S" and "thinner m m'"
  shows "stocked L lib m' H S"
proof -
  have "blob_at lib m' d = blob_at lib m d \<or> blob_at lib m' d = None" for d
    using assms(2) unfolding thinner_def blob_at_def by (metis bind.bind_lzero)
  moreover have "upload_at lib m' u = upload_at lib m u \<or> upload_at lib m' u = None" for u
    using assms(2) unfolding thinner_def upload_at_def by (metis bind.bind_lzero)
  ultimately show ?thesis using assms(1) unfolding stocked_def by (metis option.distinct(1))
qed

text \<open>The staging area.\<close>

lemma session_matches_gone: "session_matches L x file \<Longrightarrow> session_matches L x None"
  by (auto simp: session_matches_def)

lemma session_matches_new: "session_matches L x None \<Longrightarrow> session_matches L x (Some [])"
  by (auto simp: session_matches_def)

lemma stocked_unstage:
  assumes "stocked L lib m H S"
  shows "stocked L lib m H (S(i := None))"
proof -
  have "session_matches L x ((S(i := None)) (format_upload_id u))" if "upload_at lib m u = Some x" for u x
    using stockedD(4) [OF assms that] session_matches_gone [of L x] by auto
  with assms show ?thesis unfolding stocked_def by auto
qed

lemma stocked_stage:
  assumes "stocked L lib m H S" and "S i = None" and "\<And>u. parse_upload_id i = Inr u \<Longrightarrow> i = format_upload_id u"
  shows "stocked L lib m H (S(i \<mapsto> []))"
proof -
  have "session_matches L x ((S(i \<mapsto> [])) (format_upload_id u))" if "upload_at lib m u = Some x" for u x
    using stockedD(4) [OF assms(1) that] assms(2) session_matches_new [of L x] by (auto simp: session_matches_def)
  with assms(1,3) show ?thesis unfolding stocked_def by auto
qed

lemma upload_id_parsed: "parse_upload_id (format_upload_id u) = Inr u"
  using upload_id_exact by blast

text \<open>A file that no session owns may hold anything.\<close>

lemma stocked_private:
  assumes "stocked L lib m H S" and "\<And>u. parse_upload_id i \<noteq> Inr u"
  shows "stocked L lib m H (S(i := c))"
proof -
  have "parse_upload_id (format_upload_id u) = Inr u" for u by (simp add: upload_id_parsed)
  then have "format_upload_id u \<noteq> i" for u using assms(2) by metis
  with assms show ?thesis unfolding stocked_def by auto
qed

lemma stocked_extend:
  assumes "stocked L lib m H S" and "S i = Some (pre @ junk)"
    and "\<And>u x. i = format_upload_id u \<Longrightarrow> upload_at lib m u = Some x \<Longrightarrow> us_offset x = word_of_nat (length pre)"
    and "length pre \<le> MAX_FILE" and "length (pre @ junk) \<le> MAX_FILE"
  shows "stocked L lib m H (S(i \<mapsto> pre @ rest))"
proof -
  have "session_matches L x (Some (pre @ rest))" if u: "i = format_upload_id u" "upload_at lib m u = Some x" for u x
  proof -
    from stockedD(4) [OF assms(1) u(2)] obtain p where p: "length p \<le> MAX_FILE" "us_offset x = word_of_nat (length p)"
      "\<forall>a. algorithm_from_name (us_algorithm x) = Inr a \<longrightarrow>
         us_hasher_state x = Some (hasher_serialize L (hashed L a p)) \<or> us_hasher_state x = None \<and> p = []"
      "prefix p (pre @ junk) \<or> length (pre @ junk) < length p"
      using assms(2) u(1) by (auto simp: session_matches_def)
    have "length p = length pre"
      using fits_u64 [OF p(1)] fits_u64 [OF assms(4)] p(2) assms(3) [OF u] by simp
    then have "p = pre" using p(4) by (auto simp: prefix_def)
    with p show ?thesis by (auto simp: session_matches_def)
  qed
  with assms(1,2) show ?thesis unfolding stocked_def by auto
qed

text \<open>Bytes that come and go.\<close>

lemma stocked_hold:
  assumes "stocked L lib m H S" and "content_digest L (algorithm_of d) c = d"
  shows "stocked L lib m (H(d \<mapsto> c)) S"
  using assms unfolding stocked_def by auto

lemma stocked_drop:
  assumes "stocked L lib m H S" and "blob_at lib m d = None"
  shows "stocked L lib m (H(d := None)) S"
  using assms unfolding stocked_def by auto

section \<open>Taking up a session\<close>

lemma unchanged_refl: "store_env faulty B k \<Longrightarrow> unchanged faulty B k k"
  by (simp add: unchanged_def)

text \<open>A file that is not there, or holds less than was recorded, is not taken up, and nothing changes.\<close>

lemma wp_resume_missing:
  assumes env: "store_env faulty B k" and i: "new_upload_id i = Inr i"
    and short: "\<And>c. staging B k i = Some c \<Longrightarrow> length c < unat off"
  shows "wp (store_resume_upload L B i a off st) (\<lambda>_ _. False) (\<lambda>_ k'. unchanged faulty B k k') k"
proof -
  note D = store_envD [OF env]
  let ?p = "st_root B @ [UPLOADS_DIR, i]"
  have up: "upload_path (st_root B) i = ?p" using new_upload_id_plain(2) [OF i] .
  have same: "unchanged faulty B k k'" if "disk_env faulty k'" "same_disk k k'" for k'
    using unchanged_same [OF env that(2,1)] .
  have opened: "wp (fs_open ?p) (\<lambda>f k'. dk_names k ?p = Some (File f) \<and> disk_env faulty k' \<and> same_disk k k')
      (\<lambda>_ k'. unchanged faulty B k k') k"
    by (rule wp_fs_open [OF D(1)]) (use same in auto)
  have lens: "wp (fs_len f) (\<lambda>n k'. n < off \<and> unchanged faulty B k k') (\<lambda>_ k'. unchanged faulty B k k') k1"
    if f: "dk_names k ?p = Some (File f)" and k1: "disk_env faulty k1" "same_disk k k1" for f k1
  proof (rule wp_fs_len [OF k1(1)])
    fix k' assume k': "disk_env faulty k'" "same_disk k1 k'"
    have "staging B k i = Some (dk_data k f)" by (simp add: staging_def contents_ok [OF D(2)] f)
    moreover have "length (dk_data k f) \<le> MAX_FILE" using disk_okD(5) [OF D(2)] .
    ultimately have "word_of_nat (length (dk_data k1 f)) < off"
      using short fits_u64 [of "length (dk_data k f)"] k1(2) by (simp add: word_less_nat_alt same_disk_simps)
    then show "word_of_nat (length (dk_data k1 f)) < off \<and> unchanged faulty B k k'"
      using same [OF k'(1) same_disk_trans [OF k1(2) k'(2)]] by simp
  next
    fix k' assume "faulty" "disk_env faulty k'" "same_disk k1 k'"
    then show "unchanged faulty B k k'" using same same_disk_trans [OF k1(2)] by blast
  qed
  have rest: "wp (bind_a (told ''stat upload'' (fs_len f)) (\<lambda>len.
        if len < off then fail_a (Storage ''upload is shorter than its session records'')
        else bind_a (if off < len then told ''truncating upload'' (fs_set_len f off) else return_a ()) (\<lambda>_. return_a (upload_open i ?p a off h f))))
      (\<lambda>_ _. False) (\<lambda>_ k'. unchanged faulty B k k') k1"
    if "dk_names k ?p = Some (File f)" "disk_env faulty k1" "same_disk k k1" for f k1 h
    unfolding told_def wp_simps by (rule wp_weaken [OF lens [OF that]]) (simp_all add: wp_simps)
  show ?thesis
    unfolding store_resume_upload_def Let_def up open_staging_def if_False wp_bind wp_lift wp_map_err
    by (cases "case st of Some st \<Rightarrow> hasher_restore L a st
          | None \<Rightarrow> if off = 0 then Inr (hasher_new L a) else Inl (Storage ''upload records offset but no hasher state'')")
      (use unchanged_refl [OF env] rest [unfolded wp_bind] in \<open>auto intro!: wp_weaken [OF opened]\<close>)
qed

text \<open>A session that agrees with its file is taken up where it was left, or not at all.\<close>

lemma wp_resume_session:
  assumes env: "store_env faulty B k" and i: "new_upload_id i = Inr i" and h: "hashing L"
    and x: "session_matches L x (staging B k i)" and a: "algorithm_from_name (us_algorithm x) = Inr a"
  shows "wp (store_resume_upload L B i a (us_offset x) (us_hasher_state x))
    (\<lambda>u k'. \<exists>pre junk. us_offset x = word_of_nat (length pre) \<and> staging B k i = Some (pre @ junk) \<and> store_env faulty B k'
       \<and> held B k' = held B k \<and> staging B k' = (staging B k)(i \<mapsto> pre) \<and> staged_as L B k' u i pre \<and> up_algorithm u = a)
    (\<lambda>_ k'. unchanged faulty B k k' \<and> (faulty \<or> (\<forall>c. staging B k i = Some c \<longrightarrow> length c < unat (us_offset x)))) k"
proof -
  from x a obtain pre where pre: "length pre \<le> MAX_FILE" "us_offset x = word_of_nat (length pre)"
    "us_hasher_state x = Some (hasher_serialize L (hashed L a pre)) \<or> us_hasher_state x = None \<and> pre = []"
    "\<And>c. staging B k i = Some c \<Longrightarrow> prefix pre c \<or> length c < length pre"
    by (auto simp: session_matches_def)
  show ?thesis
  proof (cases "\<exists>junk. staging B k i = Some (pre @ junk)")
    case True
    then obtain junk where junk: "staging B k i = Some (pre @ junk)" by blast
    show ?thesis
      unfolding pre(2) by (rule wp_weaken [OF wp_resume_upload [OF env i h junk pre(3)]]) (use junk in auto)
  next
    case False
    have short: "length c < unat (us_offset x)" if "staging B k i = Some c" for c
      using pre(4) [OF that] False that fits_u64 [OF pre(1)] by (auto simp: pre(2) prefix_def)
    show ?thesis by (rule wp_weaken [OF wp_resume_missing [OF env i short]]) (use short in auto)
  qed
qed

end
