(* ===== verification/Summ_Kept.thy ===== *)
theory Summ_Kept
  imports Summ_Stock
begin

text \<open>
  Reasoning about the operations of the backend: a call of the metadata or of the disk in terms of what is known of the layer below, the
  invariant that both together keep, and the calls that keep it by themselves.
\<close>

section \<open>Invariants of actions\<close>

definition keeping :: "('s \<Rightarrow> bool) \<Rightarrow> ('s, 'e, 'a) action \<Rightarrow> bool" where
  "keeping I m \<longleftrightarrow> (\<forall>s. I s \<longrightarrow> wp m (\<lambda>_. I) (\<lambda>_. I) s)"

lemma keepingD: "keeping I m \<Longrightarrow> I s \<Longrightarrow> wp m (\<lambda>_. I) (\<lambda>_. I) s"
  by (simp add: keeping_def)

lemma keeping_after: "keeping I m \<Longrightarrow> I s \<Longrightarrow> I (snd (m s))"
  by (cases "m s"; cases "fst (m s)") (auto simp: keeping_def wp_def)

named_theorems keeping_intros

lemma keeping_return [keeping_intros]: "keeping I (return_a a)"
  and keeping_fail [keeping_intros]: "keeping I (fail_a e)"
  and keeping_lift [keeping_intros]: "keeping I (lift_a r)"
  by (auto simp: keeping_def wp_simps split: sum.split)

lemma keeping_of_result [keeping_intros]: "keeping I (of_result r)"
  by (simp add: of_result_def keeping_lift)

lemma keeping_bind [keeping_intros]:
  assumes "keeping I m" and "\<And>a. keeping I (k a)"
  shows "keeping I (bind_a m k)"
  using assms unfolding keeping_def wp_bind by (auto elim!: wp_weaken)

lemma keeping_map_err [keeping_intros]: "keeping I m \<Longrightarrow> keeping I (map_err_a f m)"
  by (simp add: keeping_def wp_map_err)

lemma keeping_if [keeping_intros]: "(b \<Longrightarrow> keeping I x) \<Longrightarrow> (\<not> b \<Longrightarrow> keeping I y) \<Longrightarrow> keeping I (if b then x else y)"
  by simp

lemma keeping_option [keeping_intros]:
  "(v = None \<Longrightarrow> keeping I x) \<Longrightarrow> (\<And>a. v = Some a \<Longrightarrow> keeping I (y a)) \<Longrightarrow> keeping I (case v of None \<Rightarrow> x | Some a \<Rightarrow> y a)"
  by (cases v) auto

lemma keeping_pair [keeping_intros]: "(\<And>a b. v = (a, b) \<Longrightarrow> keeping I (k a b)) \<Longrightarrow> keeping I (case v of (a, b) \<Rightarrow> k a b)"
  by (cases v) auto

lemma keeping_for [keeping_intros]:
  assumes "\<And>x acc. keeping I (body x acc)"
  shows "keeping I (for_a xs acc body)"
proof (induction xs arbitrary: acc)
  case (Cons x xs)
  then show ?case by (simp add: keeping_bind assms)
qed (simp add: keeping_return)

lemma keeping_run: "(\<And>s. I s \<Longrightarrow> I (snd (m s))) \<Longrightarrow> keeping I m"
  by (auto simp: keeping_def wp_def split: prod.splits sum.splits) (metis snd_conv)+

text \<open>A loop: \<open>J\<close> is what holds between its turns.\<close>

lemma wp_walked:
  assumes "J None s" and step: "\<And>c r s. J c s \<Longrightarrow>
      wp (step c r) (\<lambda>(_, nxt) s'. case nxt of None \<Rightarrow> I s' | Some c' \<Rightarrow> J (Some c') s') (\<lambda>_. I) s"
    and over: "\<And>c s. J c s \<Longrightarrow> I s"
  shows "wp (walked step r) (\<lambda>_. I) (\<lambda>_. I) s"
proof -
  have turns: "st = step \<longrightarrow> J cursor s \<longrightarrow> I (snd y)" if "walk st cursor r s = Some y" for st cursor r s y
  proof (rule walk.raw_induct [OF _ that])
    fix again st cursor r s y
    assume IH: "\<And>cursor r s b y. again cursor r s b = Some y \<Longrightarrow> cursor = step \<longrightarrow> J r b \<longrightarrow> I (snd y)"
      and run: "(case st cursor r s of (Inl e, s') \<Rightarrow> Some (Inl e, s') | (Inr (r', None), s') \<Rightarrow> Some (Inr r', s')
        | (Inr (r', Some c), s') \<Rightarrow> again st (Some c) r' s') = Some y"
    show "st = step \<longrightarrow> J cursor s \<longrightarrow> I (snd y)"
    proof (intro impI)
      assume "st = step" "J cursor s"
      with step [of cursor s r] run show "I (snd y)"
        by (auto simp: wp_def split: prod.splits sum.splits option.splits dest: IH)
    qed
  qed
  show ?thesis
  proof (cases "walk step None r s")
    case None
    with assms(1) over show ?thesis by (auto simp: wp_def walked_def)
  next
    case (Some y)
    with turns [OF Some] assms(1) show ?thesis by (cases y) (auto simp: wp_def walked_def split: sum.split)
  qed
qed

lemma keeping_walked: "(\<And>c r. keeping I (step c r)) \<Longrightarrow> keeping I (walked step r)"
  unfolding keeping_def [of I "walked step r"]
  by (intro allI impI wp_walked [where J = "\<lambda>_. I"]) (auto split: option.split intro: wp_weaken [OF keepingD])

section \<open>Calls of the layers below\<close>

lemma wp_meta_call: "wp (meta_call f m) Q X s = wp m (\<lambda>a t. Q a (s\<lparr>bx_meta := t\<rparr>)) (\<lambda>e t. X (f e) (s\<lparr>bx_meta := t\<rparr>)) (bx_meta s)"
  by (auto simp: wp_def meta_call_def map_err_def split: prod.splits sum.splits)

lemma wp_disk_call: "wp (disk_call f m) Q X s = wp m (\<lambda>a k. Q a (s\<lparr>bx_disk := k\<rparr>)) (\<lambda>e k. X (f e) (s\<lparr>bx_disk := k\<rparr>)) (bx_disk s)"
  by (auto simp: wp_def disk_call_def map_err_def split: prod.splits sum.splits)

lemma wp_now: "wp (now E) Q X s = Q (from_millis (be_clock E (bx_reads s))) (s\<lparr>bx_reads := bx_reads s + 1\<rparr>)"
  by (simp add: wp_def now_def)

lemma wp_new_uuid: "wp (new_uuid E) Q X s = Q (be_uuid E (bx_reads s)) (s\<lparr>bx_reads := bx_reads s + 1\<rparr>)"
  by (simp add: wp_def new_uuid_def)

lemma wp_of_result: "wp (of_result r) Q X s = (case r of Inr a \<Rightarrow> Q a s | Inl e \<Rightarrow> X (Fails e) s)"
  by (simp add: of_result_def wp_lift map_err_def split: sum.split)

lemmas calls = offload_def inline_def blob_lookup_def blocking_def on_disk_def

text \<open>Stores that lost records of blobs and sessions, through calls of the registry.\<close>

definition thins :: "(store \<Rightarrow> 'st \<Rightarrow> bool) \<Rightarrow> ('st, 'e, 'a) action \<Rightarrow> bool" where
  "thins at m \<longleftrightarrow> (\<forall>n. keeping (\<lambda>t. \<exists>m'. at m' t \<and> thinner n m') m)"

lemma thinsI:
  assumes "\<And>m t. at m t \<Longrightarrow> wp p (\<lambda>_ t'. \<exists>m'. at m' t' \<and> thinner m m') (\<lambda>_ t'. \<exists>m'. at m' t' \<and> thinner m m') t"
  shows "thins at p"
  unfolding thins_def keeping_def
proof (intro allI impI, elim exE conjE)
  fix n t m assume "at m t" "thinner n m"
  with assms [of m t] show "wp p (\<lambda>_ t. \<exists>m'. at m' t \<and> thinner n m') (\<lambda>_ t. \<exists>m'. at m' t \<and> thinner n m') t"
    by (auto elim!: wp_weaken intro: thinner_trans)
qed

lemma thinsD:
  "thins at p \<Longrightarrow> at m t \<Longrightarrow> wp p (\<lambda>_ t'. \<exists>m'. at m' t' \<and> thinner m m') (\<lambda>_ t'. \<exists>m'. at m' t' \<and> thinner m m') t"
  unfolding thins_def keeping_def using thinner_refl by blast

lemma thins_bind: "thins at p \<Longrightarrow> (\<And>a. thins at (k a)) \<Longrightarrow> thins at (bind_a p k)"
  unfolding thins_def by (blast intro: keeping_bind)

lemma thins_refines: "refines at fails p f \<Longrightarrow> thins at p"
  unfolding refines_def
  by (rule thinsI, drule spec, drule spec, drule (1) mp, erule wp_weaken) (use thinner_refl in blast)+

lemma thins_commits:
  assumes "commits at fails p f" and "\<And>m s a m'. at m s \<Longrightarrow> f m = Inr (a, m') \<Longrightarrow> thinner m m'"
  shows "thins at p"
proof (rule thinsI)
  fix m t assume "at m t"
  with assms(1) have "wp p (\<lambda>a s'. \<exists>m'. f m = Inr (a, m') \<and> at m' s') (\<lambda>e s'. at m s' \<and> (f m = Inl e \<or> engine_error fails e)) t"
    by (simp add: commits_def)
  then show "wp p (\<lambda>_ t'. \<exists>m'. at m' t' \<and> thinner m m') (\<lambda>_ t'. \<exists>m'. at m' t' \<and> thinner m m') t"
    by (rule wp_weaken) (use assms(2) [OF \<open>at m t\<close>] thinner_refl in blast)+
qed

lemma thinner_interned: "interned m n r m1 \<Longrightarrow> thinner m m1"
  by (rule thinner_data) (simp_all add: interned_data)

lemma thins_commits_in:
  assumes "commits_in at fails (\<lambda>_. True) n p f" and "\<And>r m1 a m'. f r m1 = Inr (a, m') \<Longrightarrow> thinner m1 m'"
  shows "thins at p"
proof (rule thinsI)
  fix m t assume "at m t"
  with assms(1) have "wp p (\<lambda>a s'. \<exists>r m1 m'. interned m n r m1 \<and> f r m1 = Inr (a, m') \<and> at m' s')
       (\<lambda>e s'. (at m s' \<and> engine_error (fails \<or> ids_exhausted m n) e)
          \<or> (\<exists>r m1. interned m n r m1 \<and> at m1 s' \<and> (f r m1 = Inl e \<or> engine_error fails e))) t"
    by (simp add: commits_in_def)
  then show "wp p (\<lambda>_ t'. \<exists>m'. at m' t' \<and> thinner m m') (\<lambda>_ t'. \<exists>m'. at m' t' \<and> thinner m m') t"
    by (rule wp_weaken) (use thinner_interned thinner_trans [OF thinner_interned] assms(2) thinner_refl in blast)+
qed

lemma thinner_ranged: "ranged hs b \<Longrightarrow> 0x42 \<notin> hs \<Longrightarrow> 0x55 \<notin> hs \<Longrightarrow> thinner m (apply_ops b m)"
  by (rule thinner_data) (simp_all add: ranged_untouched)

lemma thinner_update: "k = 0x42 # x \<or> k = 0x55 # x \<Longrightarrow> thinner m (m(k := None))"
  by (auto simp: thinner_def)

lemma thinner_repo_gone: "thinner m (repo_gone m r)"
  using repo_gone_at [of "KUpload u" m r for u] by (simp add: thinner_def repo_gone_keys)

lemma thinner_fewer_edges: "fewer_edges r m m' \<Longrightarrow> thinner m m'"
  by (auto simp: fewer_edges_def thinner_def)

end
