(* ===== verification/Summ_Bodies.thy ===== *)
theory Summ_Bodies
  imports Summ_Kept
begin

text \<open>
  The body of a request on its way into a staging file: what is in the file when it has all arrived, when it breaks off, and when it is
  refused. The bytes that were staged before are never touched.
\<close>

section \<open>Frames\<close>

definition arrived :: "(string + bytes) list \<Rightarrow> bytes" where
  "arrived frames = concat (map (case_sum (\<lambda>_. []) (\<lambda>b. b)) frames)"

lemma arrived_simps [simp]:
  "arrived [] = []" "arrived (Inl e # frames) = arrived frames" "arrived (Inr b # frames) = b @ arrived frames"
  by (simp_all add: arrived_def)

definition whole :: "(string + bytes) list \<Rightarrow> bool" where
  "whole frames \<longleftrightarrow> list_all (\<lambda>f. \<exists>b. f = Inr b) frames"

lemma whole_simps [simp]: "whole []" "\<not> whole (Inl e # frames)" "whole (Inr b # frames) \<longleftrightarrow> whole frames"
  by (simp_all add: whole_def)

text \<open>Why a body is not taken: a fault of the disk, a connection that broke, a file or a body too large.\<close>

definition refused :: "bool \<Rightarrow> u64 option \<Rightarrow> (string + bytes) list \<Rightarrow> bytes \<Rightarrow> nat \<Rightarrow> bool" where
  "refused faulty limit frames c n \<longleftrightarrow>
     faulty \<or> \<not> whole frames \<or> MAX_FILE < length c + length (arrived frames)
     \<or> (\<exists>l. limit = Some l \<and> unat l < n + length (arrived frames))"

text \<open>The file has what it had, and more.\<close>

definition longer :: "string \<Rightarrow> bytes \<Rightarrow> (string \<Rightarrow> bytes option) \<Rightarrow> (string \<Rightarrow> bytes option) \<Rightarrow> bool" where
  "longer i c S S' \<longleftrightarrow> (\<exists>part. S' = S(i \<mapsto> c @ part))"

lemma longer_same: "S i = Some c \<Longrightarrow> longer i c S S"
  unfolding longer_def by (rule exI [of _ "[]"]) (auto simp: fun_eq_iff)

lemma longer_upd [simp]: "longer i c S (S(i \<mapsto> c @ b))"
  by (auto simp: longer_def)

lemma longer_more: "longer i (c @ b) (S(i \<mapsto> c @ b)) S' \<Longrightarrow> longer i c S S'"
  unfolding longer_def by (metis append.assoc fun_upd_upd)

lemma staged_bound:
  assumes "store_env faulty B k" and "staged_as L B k u i c"
  shows "length c \<le> MAX_FILE"
  using assms disk_okD(5) [OF store_envD(2) [OF assms(1)]] by (auto simp: staged_as_def)

lemma wp_drain_frames:
  assumes "store_env faulty B k" and "hashing L" and "staged_as L B k u i c" and "unat w \<le> length c"
    and "\<And>l. limit = Some l \<Longrightarrow> w \<le> l"
  shows "wp (drain_frames L limit frames u w)
    (\<lambda>(u', w') k'. whole frames \<and> unat w' = unat w + length (arrived frames) \<and> (\<forall>l. limit = Some l \<longrightarrow> w' \<le> l)
       \<and> store_env faulty B k' \<and> held B k' = held B k \<and> staging B k' = (staging B k)(i \<mapsto> c @ arrived frames)
       \<and> staged_as L B k' u' i (c @ arrived frames) \<and> up_algorithm u' = up_algorithm u)
    (\<lambda>e k'. refused faulty limit frames c (unat w) \<and> store_env faulty B k' \<and> held B k' = held B k
       \<and> longer i c (staging B k) (staging B k')) k"
  using assms
proof (induction frames arbitrary: k u c w)
  case Nil
  with staged_as_staging [OF store_envD(2) [OF Nil.prems(1)] Nil.prems(3)] show ?case
    by (simp add: wp_simps fun_upd_idem)
next
  case (Cons f frames)
  note env = Cons.prems(1) and h = Cons.prems(2) and u = Cons.prems(3) and w = Cons.prems(4) and lim = Cons.prems(5)
  have here: "longer i c (staging B k) (staging B k)"
    by (rule longer_same) (rule staged_as_staging [OF store_envD(2) [OF env] u])
  show ?case
  proof (cases f)
    case (Inl e)
    show ?thesis
      unfolding Inl drain_frames.simps wp_fail by (intro conjI here env refl) (simp add: refused_def)
  next
    case (Inr chunk)
    show ?thesis
    proof (cases "chunk = []")
      case True
      with Inr Cons.IH [OF env h u w lim] show ?thesis by (simp add: refused_def)
    next
      case False
      let ?w = "sat_add w (word_of_nat (length chunk))"
      let ?X = "\<lambda>e k'. refused faulty limit (Inr chunk # frames) c (unat w) \<and> store_env faulty B k' \<and> held B k' = held B k
        \<and> longer i c (staging B k) (staging B k')"
      let ?Q = "\<lambda>(u', w') k'. whole frames \<and> unat w' = unat w + length (chunk @ arrived frames) \<and> (\<forall>l. limit = Some l \<longrightarrow> w' \<le> l)
        \<and> store_env faulty B k' \<and> held B k' = held B k \<and> staging B k' = (staging B k)(i \<mapsto> c @ chunk @ arrived frames)
        \<and> staged_as L B k' u' i (c @ chunk @ arrived frames) \<and> up_algorithm u' = up_algorithm u"
      have sum: "unat ?w = unat w + length chunk" if "length (c @ chunk) \<le> MAX_FILE"
      proof -
        have "unat (word_of_nat (length chunk) :: u64) = length chunk" by (rule fits_u64) (use that in simp)
        with w that show ?thesis by (simp add: unat_sat_add MAX_FILE_def)
      qed
      have taken: "wp (bind_a (map_err_a storage_error (append_chunk L u (up_offset u) chunk)) (\<lambda>u. drain_frames L limit frames u ?w)) ?Q ?X k"
        if below: "\<And>l. limit = Some l \<Longrightarrow> ?w \<le> l"
        unfolding wp_bind wp_map_err
      proof (rule wp_weaken [OF wp_append_chunk [OF env h u]], goal_cases)
        case (1 u1 k1)
        then have k1: "store_env faulty B k1" "held B k1 = held B k" "staging B k1 = (staging B k)(i \<mapsto> c @ chunk)"
          "staged_as L B k1 u1 i (c @ chunk)" "up_algorithm u1 = up_algorithm u" by simp_all
        note s = sum [OF staged_bound [OF k1(1,4)]]
        have w1: "unat ?w \<le> length (c @ chunk)" using s w by simp
        show ?case
        proof (rule wp_weaken [OF Cons.IH [OF k1(1) h k1(4) w1 below]], goal_cases)
          case (3 e t)
          then have "longer i (c @ chunk) ((staging B k)(i \<mapsto> c @ chunk)) (staging B t)" unfolding k1(3) by blast
          then have "longer i c (staging B k) (staging B t)" by (rule longer_more)
          with 3 s show ?case by (auto simp: k1(2) refused_def)
        qed (use s k1 in auto)
      next
        case (2 e k1)
        then show ?case unfolding longer_def by (auto simp: refused_def)
      qed
      show ?thesis
      proof (cases "\<exists>l. limit = Some l \<and> l < ?w")
        case True
        then obtain l where l: "limit = Some l" "l < ?w" by blast
        have "refused faulty limit (Inr chunk # frames) c (unat w)"
        proof (cases "length (c @ chunk) \<le> MAX_FILE")
          case True
          with l sum show ?thesis by (auto simp: refused_def word_less_nat_alt)
        qed (simp add: refused_def)
        with l False env here show ?thesis by (simp add: Inr wp_simps Let_def)
      next
        case False
        with \<open>chunk \<noteq> []\<close> have eq: "drain_frames L limit (f # frames) u w =
            bind_a (map_err_a storage_error (append_chunk L u (up_offset u) chunk)) (\<lambda>u. drain_frames L limit frames u ?w)"
          by (cases limit) (auto simp: Inr Let_def)
        show ?thesis
          unfolding eq unfolding Inr arrived_simps whole_simps by (rule taken) (use False in \<open>auto simp: not_less\<close>)
      qed
    qed
  qed
qed

text \<open>The whole body, with the length its sender declared.\<close>

definition declined :: "bool \<Rightarrow> 'b upload_body \<Rightarrow> (string + bytes) list \<Rightarrow> bytes \<Rightarrow> bool" where
  "declined faulty b frames c \<longleftrightarrow>
     refused faulty (ub_limit b) frames c 0 \<or> (\<exists>n. ub_declared b = Some n \<and> unat n \<noteq> length (arrived frames))"

lemma wp_drain_into:
  fixes b :: "'b upload_body" and F :: "'b \<Rightarrow> (string + bytes) list"
  defines "frames \<equiv> F (ub_body b)"
  assumes env: "store_env faulty B k" and h: "hashing L" and u: "staged_as L B k u i c"
  shows "wp (drain_into L F u b)
    (\<lambda>(u', w') k'. whole frames \<and> (\<forall>n. ub_declared b = Some n \<longrightarrow> unat n = length (arrived frames))
       \<and> (\<forall>l. ub_limit b = Some l \<longrightarrow> length (arrived frames) \<le> unat l)
       \<and> store_env faulty B k' \<and> held B k' = held B k \<and> staging B k' = (staging B k)(i \<mapsto> c @ arrived frames)
       \<and> staged_as L B k' u' i (c @ arrived frames) \<and> up_algorithm u' = up_algorithm u)
    (\<lambda>e k'. declined faulty b frames c \<and> store_env faulty B k' \<and> held B k' = held B k
       \<and> longer i c (staging B k) (staging B k')) k"
proof -
  have here: "longer i c (staging B k) (staging B k)"
    by (rule longer_same) (rule staged_as_staging [OF store_envD(2) [OF env] u])
  show ?thesis
  proof (cases "\<exists>d l. ub_declared b = Some d \<and> ub_limit b = Some l \<and> l < d")
    case True
    then obtain d l where dl: "ub_declared b = Some d" "ub_limit b = Some l" "l < d" by blast
    then have "declined faulty b frames c"
      by (cases "unat d = length (arrived frames)") (auto simp: declined_def refused_def word_less_nat_alt)
    then show ?thesis using env dl here by (simp add: drain_into_def wp_simps)
  next
    case False
    then have small: "\<not> (case (ub_declared b, ub_limit b) of (Some d, Some l) \<Rightarrow> l < d | _ \<Rightarrow> False)"
      by (auto split: option.splits)
    have zero: "unat (0 :: u64) \<le> length c" by simp
    show ?thesis
      unfolding drain_into_def if_not_P [OF small] wp_bind frames_def [symmetric]
    proof (rule wp_weaken [OF wp_drain_frames [OF env h u zero]], goal_cases)
      case (2 p k')
      obtain u' w' where p: "p = (u', w')" by fastforce
      with 2 have k': "whole frames" "unat w' = length (arrived frames)" "\<And>l. ub_limit b = Some l \<Longrightarrow> w' \<le> l"
        "store_env faulty B k'" "held B k' = held B k" "staging B k' = (staging B k)(i \<mapsto> c @ arrived frames)"
        "staged_as L B k' u' i (c @ arrived frames)" "up_algorithm u' = up_algorithm u" by auto
      have lim: "length (arrived frames) \<le> unat l" if "ub_limit b = Some l" for l
        using k'(2) k'(3) [OF that] by (simp add: word_le_nat_alt)
      show ?case
      proof (cases "ub_declared b")
        case None
        with k' lim show ?thesis by (simp add: p wp_simps)
      next
        case (Some d)
        with k' lim show ?thesis by (auto simp: p wp_simps declined_def word_unat_eq_iff)
      qed
    next
      case (3 e k')
      then show ?case by (simp add: declined_def)
    qed simp
  qed
qed

end
