(* ===== verification/Summ_Sound.thy ===== *)
theory Summ_Sound
  imports Summ_Bodies
begin

text \<open>
  The invariant of the backend and the operations that keep it. Between them lies the order in which the code writes: bytes before the records that
  name them on the way in, records before bytes on the way out, whatever fails in between.
\<close>

section \<open>Metadata and bytes\<close>

text \<open>
  \<open>m\<close> is what the engine holds: its records are well formed, the disk is, and the two agree.
\<close>

definition sound ::
    "('s \<Rightarrow> store) \<Rightarrow> ('s \<Rightarrow> bool) \<Rightarrow> ('c \<Rightarrow> string \<Rightarrow> repo_id option) \<Rightarrow> ('c \<Rightarrow> repo_id \<Rightarrow> string option) \<Rightarrow> bool \<Rightarrow>
     ('s, 'c, 'h, 'b) backend \<Rightarrow> store \<Rightarrow> ('s, 'c) backend_state \<Rightarrow> bool" where
  "sound tbl ok names ids faulty E m s \<longleftrightarrow>
     at_store tbl ok names ids (rg_libs (be_ops E)) m (bx_meta s)
     \<and> store_env faulty (be_blobs E) (bx_disk s)
     \<and> stocked (be_sha E) (rg_libs (be_ops E)) m (held (be_blobs E) (bx_disk s)) (staging (be_blobs E) (bx_disk s))"

locale backend_env =
  registry_env "be_ops E" tbl inv may_fail names ids + hashing "be_sha E"
  for E :: "('s, 'c, 'h, 'b) backend" and tbl inv may_fail names ids +
  fixes faulty :: bool
  assumes validating: "ro_validate_references (rg_options (be_ops E))"
    and chunked: "0 < st_read_chunk_size (be_blobs E)"
begin

abbreviation "good \<equiv> sound tbl inv names ids faulty E"
abbreviation "alive s \<equiv> \<exists>m. good m s"
abbreviation "lib \<equiv> rg_libs (be_ops E)"
abbreviation "blobs_of s \<equiv> held (be_blobs E) (bx_disk s)"
abbreviation "staged_of s \<equiv> staging (be_blobs E) (bx_disk s)"

lemma goodD:
  assumes "good m s"
  shows "holds m (bx_meta s)" "store_env faulty (be_blobs E) (bx_disk s)" "stocked (be_sha E) lib m (blobs_of s) (staged_of s)"
  using assms by (simp_all add: sound_def)

lemma hash: "hashing (be_sha E)"
  by (rule hashing_axioms)

lemma good_fields [simp]:
  "good m (s\<lparr>bx_reads := n\<rparr>) = good m s" "good m (s\<lparr>bx_last_pass := p\<rparr>) = good m s" "good m (s\<lparr>bx_purge_mark := w\<rparr>) = good m s"
  by (simp_all add: sound_def)

lemma good_meta: "good m s \<Longrightarrow> holds m' t \<Longrightarrow> thinner m m' \<Longrightarrow> good m' (s\<lparr>bx_meta := t\<rparr>)"
  by (auto simp: sound_def intro: stocked_thinner)

lemma good_same: "good m s \<Longrightarrow> holds m t \<Longrightarrow> good m (s\<lparr>bx_meta := t\<rparr>)"
  by (rule good_meta [OF _ _ thinner_refl])

lemma good_unchanged: "good m s \<Longrightarrow> unchanged faulty (be_blobs E) (bx_disk s) k \<Longrightarrow> good m (s\<lparr>bx_disk := k\<rparr>)"
  by (simp add: sound_def unchanged_def)

lemma good_disk:
  "good m s \<Longrightarrow> store_env faulty (be_blobs E) k \<Longrightarrow> stocked (be_sha E) lib m (held (be_blobs E) k) (staging (be_blobs E) k)
     \<Longrightarrow> good m (s\<lparr>bx_disk := k\<rparr>)"
  by (simp add: sound_def)

text \<open>Calls of the registry that add no record of a blob or a session.\<close>

lemma keeping_thins:
  assumes "thins holds p"
  shows "keeping alive (meta_call f p)"
  unfolding keeping_def wp_meta_call
proof (intro allI impI, elim exE)
  fix s m assume g: "good m s"
  from thinsD [OF assms goodD(1) [OF g]]
  show "wp p (\<lambda>_ t. alive (s\<lparr>bx_meta := t\<rparr>)) (\<lambda>_ t. alive (s\<lparr>bx_meta := t\<rparr>)) (bx_meta s)"
    by (rule wp_weaken) (use good_meta [OF g] in blast)+
qed

lemma keeping_refines: "refines holds may_fail p F \<Longrightarrow> keeping alive (meta_call f p)"
  by (rule keeping_thins [OF thins_refines])

lemma keeping_now [keeping_intros]: "keeping alive (now E)" and keeping_uuid [keeping_intros]: "keeping alive (new_uuid E)"
  by (simp_all add: keeping_def wp_now wp_new_uuid)

text \<open>Nothing but the log of the state changed since \<open>s0\<close>: the store, the files and the marks of purge are what they were.\<close>

definition seen :: "store \<Rightarrow> ('s, 'c) backend_state \<Rightarrow> ('s, 'c) backend_state \<Rightarrow> bool" where
  "seen m s0 s \<longleftrightarrow> good m s \<and> blobs_of s = blobs_of s0 \<and> staged_of s = staged_of s0
     \<and> bx_last_pass s = bx_last_pass s0 \<and> bx_purge_mark s = bx_purge_mark s0"

lemma seen_refl: "good m s \<Longrightarrow> seen m s s"
  by (simp add: seen_def)

lemma keeping_seen: "(\<And>m s0. keeping (seen m s0) p) \<Longrightarrow> keeping alive p"
  unfolding keeping_def [of alive]
proof (intro allI impI, elim exE)
  fix s m assume seen: "\<And>m s0. keeping (seen m s0) p" and "good m s"
  from keepingD [OF seen seen_refl [OF this(2)]]
  show "wp p (\<lambda>_. alive) (\<lambda>_. alive) s" by (rule wp_weaken) (auto simp: seen_def)
qed

lemma seen_refines: "refines holds may_fail p F \<Longrightarrow> keeping (seen m s0) (meta_call f p)"
  unfolding keeping_def wp_meta_call
  by (intro allI impI, rule refines_wp, assumption, erule goodD(1) [OF conjunct1 [OF seen_def [THEN iffD1]]])
    (auto simp: seen_def intro: good_same)

text \<open>A read, with what it found.\<close>

lemma wp_looked:
  assumes "refines holds may_fail p F" and "good m s"
    and "\<And>a t. good m (s\<lparr>bx_meta := t\<rparr>) \<Longrightarrow> F m = Inr a \<Longrightarrow> Q a (s\<lparr>bx_meta := t\<rparr>)"
    and "\<And>e t. good m (s\<lparr>bx_meta := t\<rparr>) \<Longrightarrow> F m = Inl e \<or> engine_error may_fail e \<Longrightarrow> X (f e) (s\<lparr>bx_meta := t\<rparr>)"
  shows "wp (meta_call f p) Q X s"
  unfolding wp_meta_call
  by (rule refines_wp [OF assms(1) goodD(1) [OF assms(2)]]) (use assms(3,4) good_same [OF assms(2)] in blast)+

section \<open>Reading and deleting\<close>

lemma seen_tags: "keeping (seen m s0) (be_tags E name last_tag limit)"
  unfolding be_tags_def calls by (intro keeping_intros seen_refines [OF refines_list_tags])

lemma seen_stat_manifest: "keeping (seen m s0) (be_stat_manifest E name ref)"
  unfolding be_stat_manifest_def calls by (intro keeping_intros seen_refines [OF refines_head_manifest])

lemma seen_stat_blob: "keeping (seen m s0) (be_stat_blob E name d)"
  unfolding be_stat_blob_def calls by (intro keeping_intros seen_refines [OF refines_servable_blob])

lemma refines_servable: "refines holds may_fail (blob_is_servable (be_ops E) name d)
   (\<lambda>m. Inr (case id_of m name of Some r \<Rightarrow> servable m r d | None \<Rightarrow> False))"
  unfolding blob_is_servable_def
  by (rule refines_cong, (rule refines_intros refines_lookup_repo refines_servable_id)+) (auto split: option.split)

lemma keeping_delete_repository: "keeping alive (be_delete_repository E name)"
proof -
  have "thins holds (delete_repository (be_ops E) name t)" for t
    by (rule thins_commits [OF commits_delete_repository])
      (auto simp: tombstone_spec_def and_then_Inr intro!: thinner_data simp: tombstone_data)
  then show ?thesis
    unfolding be_delete_repository_def calls
    by (intro keeping_intros keeping_thins thins_bind thins_refines [OF refines_return])
qed

lemma keeping_delete_manifest: "keeping alive (be_delete_manifest E name ref)"
proof -
  have "thins holds (delete_tag (be_ops E) name tag t)" for tag t
    by (rule thins_commits [OF commits_delete_tag])
      (auto simp: delete_tag_spec_def and_then_Inr intro!: thinner_ranged [OF delete_tag_ops_ranged])
  moreover have "thins holds (delete_manifest (be_ops E) name d t)" for d t
    by (rule thins_commits [OF commits_delete_manifest])
      (auto simp: manifest_delete_spec_def and_then_Inr intro!: thinner_ranged [OF manifest_delete_ranged])
  ultimately show ?thesis
    unfolding be_delete_manifest_def calls
    by (intro keeping_intros keeping_thins)
      (auto split: reference.split intro!: thins_bind thins_refines [OF refines_return])
qed

lemma keeping_delete_blob: "keeping alive (be_delete_blob E name d)"
proof -
  have "thins holds (delete_blob_reference (be_ops E) name d)"
  proof (rule thins_commits [OF commits_delete_blob_reference])
    fix m s a m' assume h: "holds m s" and
      "and_then (blob_ref_delete_spec name d m) (\<lambda>(a, b). Inr (a, apply_ops b m)) = Inr (a, m')"
    then obtain r where m': "m' = apply_ops (blob_ref_delete_ops m r d) m"
      by (auto simp: blob_ref_delete_spec_def and_then_Inr split: if_splits)
    have "ranged {0x52, 0x50, 0x43} (blob_ref_delete_ops m r d)"
      unfolding blob_ref_delete_ops_def
      by (auto simp: ranged_def point_op_def set_keys_under [OF holds_finite [OF h]] key_defs prefix_def)
    then show "thinner m m'" unfolding m' by (rule thinner_ranged) auto
  qed
  then show ?thesis
    unfolding be_delete_blob_def calls
    by (intro keeping_thins thins_bind thins_refines [OF refines_servable])
      (auto intro!: thins_bind thins_refines [OF refines_return] thins_refines [OF refines_fail])
qed

lemma seen_get_manifest: "keeping (seen m s0) (be_get_manifest E name ref)"
proof -
  have "(case ref of TagName t \<Rightarrow> get_manifest_by_tag (be_ops E) name t | DigestName d \<Rightarrow> get_manifest_by_digest (be_ops E) name d)
      = (case as_ops_reference ref of Tag t \<Rightarrow> get_manifest_by_tag (be_ops E) name t
         | DigestRef d \<Rightarrow> get_manifest_by_digest (be_ops E) name d)"
    by (cases ref) simp_all
  then show ?thesis
    unfolding be_get_manifest_def calls by (intro keeping_intros) (simp add: seen_refines [OF refines_get_manifest])
qed

end

section \<open>Serving a blob\<close>

text \<open>
  What a download delivers: the blob, or the window of it that was asked for; a part of that only when the disk failed on the way.
\<close>

definition portion_of :: "byte_range option \<Rightarrow> bytes \<Rightarrow> bytes option" where
  "portion_of window c = (case window of None \<Rightarrow> Some c | Some r \<Rightarrow> window_bytes (Inclusive (range_start r) (range_end r)) c)"

definition delivers :: "bool \<Rightarrow> bytes \<Rightarrow> byte_range option \<Rightarrow> blob_read \<Rightarrow> bool" where
  "delivers faulty c window x \<longleftrightarrow> bd_total_size x = word_of_nat (length c) \<and> bd_window x = window
     \<and> (\<exists>w. portion_of window c = Some w \<and> prefix (bd_body x) w \<and> (\<not> faulty \<longrightarrow> bd_body x = w))"

lemma wp_stream:
  assumes env: "store_env faulty B (bx_disk s)" and b: "opened_as B (bx_disk s) b c" and pos: "0 < st_read_chunk_size B"
    and t: "case window of None \<Rightarrow> t = stream_blob b
      | Some r \<Rightarrow> \<exists>w. blob_resolve b (Inclusive (range_start r) (range_end r)) = Some w \<and> t = stream_range b w"
  shows "wp (stream_body t) (\<lambda>out s'. \<exists>k. s' = s\<lparr>bx_disk := k\<rparr> \<and> unchanged faulty B (bx_disk s) k
      \<and> delivers faulty c window \<lparr>bd_total_size = bf_size b, bd_window = window, bd_body = out\<rparr>) (\<lambda>_ _. False) s"
proof -
  obtain out failed k where run: "read_stream t (bx_disk s) = ((out, failed), k)" by (metis prod.exhaust)
  note d = store_envD(1) [OF env]
  have "same_disk (bx_disk s) k \<and> disk_env faulty k
    \<and> (\<exists>w. portion_of window c = Some w \<and> prefix out w \<and> (if failed then faulty else out = w))"
  proof (cases window)
    case None
    with t run read_whole [OF d b pos] show ?thesis by (auto simp: portion_of_def)
  next
    case (Some r)
    with t obtain w where w: "blob_resolve b (Inclusive (range_start r) (range_end r)) = Some w" "t = stream_range b w" by auto
    from read_window [OF d b pos w(1) run [unfolded w(2)]] Some show ?thesis
      by (auto simp: portion_of_def simp del: window_bytes.simps)
  qed
  with unchanged_same [OF env] b show ?thesis
    by (auto simp: wp_def stream_body_def run delivers_def opened_as_def split: if_splits)
qed

context backend_env
begin

text \<open>A blob is served from the bytes that are its digest's, or there is a reason why not.\<close>

lemma wp_get_blob:
  assumes g: "good m s"
  shows "wp (be_get_blob E name d window)
    (\<lambda>x s'. seen m s s' \<and> (\<exists>c. blobs_of s d = Some c \<and> content_digest (be_sha E) (algorithm_of d) c = d \<and> delivers faulty c window x)
       \<and> (\<exists>r. id_of m name = Some r \<and> servable m r d))
    (\<lambda>e s'. seen m s s' \<and> (faulty \<or> may_fail \<or> \<not> (\<exists>r. id_of m name = Some r \<and> servable m r d)
       \<or> (case blobs_of s d of None \<Rightarrow> True | Some c \<Rightarrow> portion_of window c = None))) s"
  unfolding be_get_blob_def wp_bind blob_lookup_def
proof (rule wp_looked [OF refines_servable g], goal_cases)
  case (2 e t)
  then show ?case by (auto simp: engine_error_def seen_def)
next
  case (1 ok t)
  then have g1: "good m (s\<lparr>bx_meta := t\<rparr>)" and ok: "ok \<longleftrightarrow> (\<exists>r. id_of m name = Some r \<and> servable m r d)"
    by (auto split: option.splits)
  show ?case
  proof (cases ok)
    case False
    with g1 ok show ?thesis by (simp add: wp_fail seen_def)
  next
    case True
    note env = goodD(2) [OF g1]
    show ?thesis
      unfolding if_not_P [OF not_not [THEN iffD2, OF True]] wp_bind on_disk_def wp_disk_call
    proof (rule wp_weaken [OF wp_open_blob [OF env]], goal_cases)
      case (2 e k)
      with good_unchanged [OF g1, of k] show ?case by (auto simp: seen_def unchanged_def)
    next
      case (1 b k)
      then obtain c where un: "unchanged faulty (be_blobs E) (bx_disk s) k" and c: "blobs_of s d = Some c" "opened_as (be_blobs E) k b c"
        by auto
      let ?s = "s\<lparr>bx_meta := t, bx_disk := k\<rparr>"
      have g2: "good m ?s" using good_unchanged [OF g1, of k] un by simp
      have digest: "content_digest (be_sha E) (algorithm_of d) c = d" using stockedD(1) [OF goodD(3) [OF g]] c(1) by blast
      have stream: "wp (stream_body u) (\<lambda>x s'. wp (return_a \<lparr>bd_total_size = bf_size b, bd_window = window, bd_body = x\<rparr>)
          (\<lambda>x s'. seen m s s' \<and> (\<exists>c. blobs_of s d = Some c \<and> content_digest (be_sha E) (algorithm_of d) c = d \<and> delivers faulty c window x)
             \<and> (\<exists>r. id_of m name = Some r \<and> servable m r d)) X s') X' ?s"
        if "case window of None \<Rightarrow> u = stream_blob b
          | Some r \<Rightarrow> \<exists>w. blob_resolve b (Inclusive (range_start r) (range_end r)) = Some w \<and> u = stream_range b w" for u X X'
      proof (rule wp_weaken [OF wp_stream [OF goodD(2) [OF g2] _ chunked that]])
        show "opened_as (be_blobs E) (bx_disk ?s) b c" using c(2) by simp
      qed (use good_unchanged [OF g2] c(1) digest True ok un in \<open>auto simp: wp_return seen_def unchanged_def\<close>)
      show ?case
      proof (cases window)
        case None
        with stream [of "stream_blob b"] show ?thesis by (simp add: wp_simps)
      next
        case (Some r)
        let ?r = "Inclusive (range_start r) (range_end r)"
        show ?thesis
        proof (cases "blob_resolve b ?r")
          case None
          have "length c \<le> MAX_FILE"
            using disk_okD(5) [OF store_envD(2) [OF goodD(2) [OF g2]], of "bf_file b"] c(2) by (simp add: opened_as_def)
          from resolve_window [OF this, of ?r] None c(2) have "portion_of window c = None"
            by (simp add: Some portion_of_def opened_as_def blob_resolve_def del: window_bytes.simps resolve_read.simps)
          with g2 c(1) un show ?thesis by (simp add: Some None wp_simps wp_of_result ok_or_def seen_def unchanged_def)
        next
          case (Some w)
          with stream [of "stream_range b w"] \<open>window = Some r\<close> show ?thesis by (simp add: wp_simps wp_of_result ok_or_def)
        qed
      qed
    qed
  qed
qed

lemma seen_get_blob: "keeping (seen m s0) (be_get_blob E name d window)"
  unfolding keeping_def
  by (intro allI impI, rule wp_weaken [OF wp_get_blob], auto simp: seen_def)

lemmas keeping_tags = keeping_seen [OF seen_tags] and keeping_stat_manifest = keeping_seen [OF seen_stat_manifest]
  and keeping_stat_blob = keeping_seen [OF seen_stat_blob] and keeping_get_manifest = keeping_seen [OF seen_get_manifest]
  and keeping_get_blob = keeping_seen [OF seen_get_blob]

end

end
