(* ===== verification/Summ_Arrivals.thy ===== *)
theory Summ_Arrivals
  imports Summ_Sound
begin

text \<open>
  The operations that add bytes: mounts, single pushes, manifests and their copies, and the sessions of an upload. Each writes the bytes
  before the record that names them, and each failure leaves a store that can be explained by what is on the disk.
\<close>

section \<open>Records of blobs and sessions\<close>

lemma stocked_blob:
  assumes "stocked L lib m H S" and "blob_at lib m' d = Some r" and "\<And>e. e \<noteq> d \<Longrightarrow> m' (blob_key e) = m (blob_key e)"
    and "\<And>u. m' (upload_key u) = m (upload_key u) \<or> m' (upload_key u) = None"
    and "H d \<noteq> None" and "content_digest L (algorithm_of d) c = d" and "br_size r = word_of_nat (length c)"
  shows "stocked L lib m' H S"
proof -
  have "blob_at lib m' e = blob_at lib m e" if "e \<noteq> d" for e using assms(3) [OF that] by (simp add: blob_at_def)
  moreover have "upload_at lib m' u = upload_at lib m u \<or> upload_at lib m' u = None" for u
    using assms(4) [of u] unfolding upload_at_def by (metis bind.bind_lzero)
  ultimately show ?thesis using assms(1,2,5-7) unfolding stocked_def by (metis option.distinct(1) option.inject)
qed

lemma stocked_session:
  assumes "stocked L lib m H S" and "upload_at lib m' u = Some x" and "\<And>v. v \<noteq> u \<Longrightarrow> m' (upload_key v) = m (upload_key v)"
    and "\<And>e. m' (blob_key e) = m (blob_key e)" and "session_matches L x (S (format_upload_id u))"
  shows "stocked L lib m' H S"
proof -
  have "upload_at lib m' v = upload_at lib m v" if "v \<noteq> u" for v using assms(3) [OF that] by (simp add: upload_at_def)
  moreover have "blob_at lib m' e = blob_at lib m e" for e using assms(4) by (simp add: blob_at_def)
  ultimately show ?thesis using assms(1,2,5) unfolding stocked_def by (metis option.inject)
qed

text \<open>The laws of sequencing.\<close>

lemma bind_assoc: "bind_a (bind_a p k) h = bind_a p (\<lambda>a. bind_a (k a) h)"
  by (auto simp: fun_eq_iff run_simps split: prod.split sum.split)

lemma return_bind: "bind_a (return_a a) k = k a"
  by (simp add: fun_eq_iff run_simps)

lemma bind_return: "bind_a p return_a = p"
  by (auto simp: fun_eq_iff run_simps split: prod.split sum.split)

text \<open>Ids of staging files that no session has.\<close>

lemma not_an_id:
  assumes "hex c = None"
  shows "parse_slots 16 (c # xs) = None"
  using parse_slots.simps(2) [of 15 "c # xs"] assms by (cases xs) simp_all

lemma private_ids:
  "parse_upload_id (''single-'' @ n) \<noteq> Inr u" "parse_upload_id (''manifest-'' @ n) \<noteq> Inr u"
  by (simp_all add: parse_upload_id_def as_bytes_def char_byte_def not_an_id hex_def)

context backend_env
begin

lemma size_of_fresh [simp]: "blob_at lib (m(blob_key d \<mapsto> stored_as (lb_blob lib) r)) d = Some r"
  by (simp add: blob_at_def coders)

lemma good_commit:
  assumes g: "good m s" and m1: "\<And>h k. h \<noteq> 0x6E \<Longrightarrow> h \<noteq> 0x69 \<Longrightarrow> m1 (h # k) = m (h # k)"
    and m': "m' = apply_ops (commit_ops lib m1 r d n t @ b) m1" and b: "b = [] \<or> (\<exists>u. b = [Delete (upload_key u)])"
    and h: "holds m' v" and d: "blobs_of s d \<noteq> None"
    and c: "content_digest (be_sha E) (algorithm_of d) c = d" "n = word_of_nat (length c)"
  shows "good m' (s\<lparr>bx_meta := v\<rparr>)"
proof -
  have "stocked (be_sha E) lib m' (blobs_of s) (staged_of s)"
  proof (rule stocked_blob [OF goodD(3) [OF g]])
    show "blob_at lib m' d = Some \<lparr>br_size = n\<rparr>"
      using b by (auto simp: m' commit_ops_def blob_at_def coders key_defs)
    show "m' (blob_key e) = m (blob_key e)" if "e \<noteq> d" for e
      using b that m1 by (auto simp: m' commit_ops_def key_defs key_codes)
    show "m' (upload_key u) = m (upload_key u) \<or> m' (upload_key u) = None" for u
    proof -
      have "m1 (upload_key u) = m (upload_key u)" by (simp add: m1 data_keys)
      with b show ?thesis by (auto simp: m' commit_ops_def key_defs split: if_splits)
    qed
  qed (use c d in auto)
  with g h show ?thesis by (simp add: sound_def)
qed

text \<open>The batch that commits a blob, with or without the end of a session.\<close>

lemma commits_commit_session:
  assumes "is_str name"
  shows "commits_in holds may_fail (\<lambda>_. True) name (commit_session (be_ops E) name key d n t)
    (\<lambda>r m. Inr ((), apply_ops (commit_ops lib m r d n t @ [Delete (upload_key key)]) m))"
proof -
  let ?plan = "\<lambda>r. bind_a (bind_a (lift_a (encode (lb_blob lib) \<lparr> br_size = n \<rparr>)) (\<lambda>record.
      let batch = batch_delete (blob_mark_key d) (batch_put (blob_key d) record batch_new) in
      bind_a (rg_exists (be_ops E) (repo_blob_key r d)) (\<lambda>member.
        if \<not> member then
          bind_a (lift_a (encode (lb_repo_blob lib) \<lparr> rb_size = n, rb_added_at = secs t \<rparr>))
            (\<lambda>membership. return_a ((), batch_put (repo_blob_key r d) membership batch))
        else return_a ((), batch))))
    (\<lambda>(_, batch). return_a ((), batch @ snd (plan_delete_upload key)))"
  have eq: "commit_session (be_ops E) name key d n t = applied (be_ops E) (bind_a (intern_repo (be_ops E) name) ?plan)"
    by (simp add: commit_session_def plan_blob_commit_def applied_def bind_assoc return_bind bind_return split_def)
  have ops: "snd (plan_delete_upload key) = [Delete (upload_key key)]"
    by (simp add: plan_delete_upload_def batch_delete_def batch_new_def)
  have plan: "refines holds may_fail (?plan r) (\<lambda>m. Inr ((), commit_ops lib m r d n t @ [Delete (upload_key key)]))" for r
    by (rule refines_cong [OF refines_bind [OF refines_commit_plan refines_pair [OF refines_return]]]) (simp add: ops)
  have ranged: "ranged {0x42, 0x43, 0x50} (commit_ops lib m r d n t)" for m r
    by (simp add: commit_ops_def key_defs)
  have "bounded_batch b \<and> nameless b \<and> store_ok lib (apply_ops b m)"
    if "store_ok lib m" "b = commit_ops lib m r d n t @ [Delete (upload_key key)]" for m r b
  proof -
    have "bounded_batch [Delete (upload_key key)] \<and> nameless [Delete (upload_key key)]
        \<and> store_ok lib (apply_ops [Delete (upload_key key)] (apply_ops (commit_ops lib m r d n t) m))"
      by (rule batch_ok [OF store_ok_commit [OF that(1)] upload_ranged(2)]) auto
    then show ?thesis
      using ranged_bounded [OF ranged] ranged_nameless [OF ranged] that(2) by (simp add: apply_ops_append)
  qed
  then have "commits_in holds may_fail (\<lambda>_. True) name (applied (be_ops E) (bind_a (intern_repo (be_ops E) name) ?plan))
      (\<lambda>r m. and_then (Inr ((), commit_ops lib m r d n t @ [Delete (upload_key key)])) (\<lambda>(a, b). Inr (a, apply_ops b m)))"
    by (intro commits_in_planned [OF assms plan]) auto
  then show ?thesis unfolding eq by simp
qed

lemma commits_commit_only:
  assumes "is_str name"
  shows "commits_in holds may_fail (\<lambda>_. True) name (commit_blob (be_ops E) name d n t)
    (\<lambda>r m. Inr ((), apply_ops (commit_ops lib m r d n t @ []) m))"
  using commits_commit_blob [OF assms] by simp

lemma wp_commit:
  assumes p: "commits_in holds may_fail (\<lambda>_. True) name p (\<lambda>r m. Inr ((), apply_ops (commit_ops lib m r d n t @ b) m))"
    and b: "b = [] \<or> (\<exists>u. b = [Delete (upload_key u)])" and g: "good m s" and d: "blobs_of s d \<noteq> None"
    and c: "content_digest (be_sha E) (algorithm_of d) c = d" "n = word_of_nat (length c)"
  shows "wp (meta_call f p)
    (\<lambda>_ s'. \<exists>r m1 v. interned m name r m1 \<and> s' = s\<lparr>bx_meta := v\<rparr> \<and> good (apply_ops (commit_ops lib m1 r d n t @ b) m1) s')
    (\<lambda>_ s'. (may_fail \<or> ids_exhausted m name) \<and> (\<exists>m1 v. (m1 = m \<or> (\<exists>r. interned m name r m1)) \<and> s' = s\<lparr>bx_meta := v\<rparr> \<and> good m1 s')) s"
proof -
  from p goodD(1) [OF g] have W: "wp p (\<lambda>a s'. \<exists>r m1 m'. interned m name r m1 \<and> Inr ((), apply_ops (commit_ops lib m1 r d n t @ b) m1) = Inr (a, m') \<and> holds m' s')
       (\<lambda>e s'. (holds m s' \<and> engine_error (may_fail \<or> ids_exhausted m name) e)
          \<or> (\<exists>r m1. interned m name r m1 \<and> holds m1 s' \<and> (Inr ((), apply_ops (commit_ops lib m1 r d n t @ b) m1) = Inl e \<or> engine_error may_fail e))) (bx_meta s)"
    by (simp add: commits_in_def)
  have done_: "good (apply_ops (commit_ops lib m1 r d n t @ b) m1) (s\<lparr>bx_meta := v\<rparr>)"
    if i: "interned m name r m1" and h: "holds (apply_ops (commit_ops lib m1 r d n t @ b) m1) v" for r m1 v
    by (rule good_commit [OF g interned_data [OF i] refl b h d c])
  have kept: "good m1 (s\<lparr>bx_meta := v\<rparr>)" if "interned m name r m1" "holds m1 v" for r m1 v
    by (rule good_meta [OF g that(2) thinner_interned [OF that(1)]])
  show ?thesis
    unfolding wp_meta_call
    apply (rule wp_weaken [OF W])
    subgoal using done_ by blast
    subgoal using kept good_same [OF g] unfolding engine_error_def by blast
    done
qed

lemma alive_commit:
  assumes "wp p (\<lambda>_ s'. \<exists>r m1 v. interned m name r m1 \<and> s' = s\<lparr>bx_meta := v\<rparr> \<and> good (F r m1) s')
    (\<lambda>_ s'. P \<and> (\<exists>m1 v. (m1 = m \<or> (\<exists>r. interned m name r m1)) \<and> s' = s\<lparr>bx_meta := v\<rparr> \<and> good m1 s')) s"
  shows "wp p (\<lambda>_. alive) (\<lambda>_. alive) s"
  by (rule wp_weaken [OF assms]) blast+

section \<open>Mounts\<close>

lemma refines_mount_size:
  "refines holds may_fail (mount_size (be_ops E) d source) (\<lambda>m. Inr (
     if (case source of None \<Rightarrow> True | Some q \<Rightarrow> \<exists>r. id_of m q = Some r \<and> servable m r d)
     then map_option br_size (blob_at lib m d) else None))"
  unfolding mount_size_def blob_metadata_def
  by (rule refines_cong, (rule refines_intros refines_servable refines_blob_record)+) (auto split: option.split)

lemma keeping_mount:
  assumes "is_str name"
  shows "keeping alive (be_mount_blob E name d source)"
proof -
  have "keeping alive (meta_call f (bind_a (mount_size (be_ops E) d source) (\<lambda>found.
      case found of None \<Rightarrow> return_a False | Some n \<Rightarrow> bind_a (commit_blob (be_ops E) name d n t) (\<lambda>_. return_a True))))"
    for f :: "registry_error \<Rightarrow> ops_error halt" and t
    unfolding keeping_def wp_meta_call wp_bind
  proof (intro allI impI, elim exE, rule refines_wp [OF refines_mount_size goodD(1)], assumption)
    fix s m found v
    assume g: "good m s" and h: "holds m v" and "Inr (if (case source of None \<Rightarrow> True | Some q \<Rightarrow> \<exists>r. id_of m q = Some r \<and> servable m r d)
        then map_option br_size (blob_at lib m d) else None) = Inr found"
    then have found: "found = Some n \<Longrightarrow> \<exists>rec. blob_at lib m d = Some rec \<and> n = br_size rec" for n by (auto split: if_splits)
    note g' = good_same [OF g h]
    show "wp (case found of None \<Rightarrow> return_a False | Some n \<Rightarrow> bind_a (commit_blob (be_ops E) name d n t) (\<lambda>_. return_a True))
        (\<lambda>a v. alive (s\<lparr>bx_meta := v\<rparr>)) (\<lambda>e v. alive (s\<lparr>bx_meta := v\<rparr>)) v"
    proof (cases found)
      case None
      with g' show ?thesis by (auto simp: wp_return)
    next
      case (Some n)
      with found obtain rec where rec: "blob_at lib m d = Some rec" "n = br_size rec" by blast
      note st = stockedD(2,3) [OF goodD(3) [OF g] rec(1)]
      then obtain c where c: "content_digest (be_sha E) (algorithm_of d) c = d" "n = word_of_nat (length c)" using rec(2) by auto
      have "wp (meta_call f (commit_blob (be_ops E) name d n t)) (\<lambda>_. alive) (\<lambda>_. alive) (s\<lparr>bx_meta := v\<rparr>)"
        by (rule alive_commit, rule wp_commit [OF commits_commit_only [OF assms] _ g' _ c]) (use st in auto)
      then show ?thesis by (simp add: Some wp_bind wp_return wp_meta_call)
    qed
  qed (use good_same in blast)
  then show ?thesis unfolding be_mount_blob_def calls by (intro keeping_intros)
qed

section \<open>Single pushes\<close>

abbreviation "frames_of b \<equiv> be_frames E (ub_body b)"

lemma wp_drained:
  assumes g: "good m s" and u: "staged_as (be_sha E) (be_blobs E) (bx_disk s) u i c"
  shows "wp (drained E u b)
    (\<lambda>u' s'. \<exists>k. s' = s\<lparr>bx_disk := k\<rparr> \<and> whole (frames_of b) \<and> store_env faulty (be_blobs E) k \<and> held (be_blobs E) k = blobs_of s
       \<and> staging (be_blobs E) k = (staged_of s)(i \<mapsto> c @ arrived (frames_of b))
       \<and> staged_as (be_sha E) (be_blobs E) k u' i (c @ arrived (frames_of b)) \<and> up_algorithm u' = up_algorithm u)
    (\<lambda>e s'. \<exists>k. s' = s\<lparr>bx_disk := k\<rparr> \<and> declined faulty b (frames_of b) c \<and> store_env faulty (be_blobs E) k
       \<and> held (be_blobs E) k = blobs_of s \<and> longer i c (staged_of s) (staging (be_blobs E) k)) s"
proof (cases "drain_into (be_sha E) (be_frames E) u b (bx_disk s)")
  case (Pair r k)
  from wp_drain_into [OF goodD(2) [OF g] hash u, of "be_frames E" b] Pair show ?thesis
    by (cases r) (auto simp: wp_def drained_def map_err_def)
qed

lemma good_private:
  assumes "good m s" and "\<And>u. parse_upload_id i \<noteq> Inr u" and "store_env faulty (be_blobs E) k"
    and "held (be_blobs E) k = blobs_of s" and "staging (be_blobs E) k = (staged_of s)(i := x)"
  shows "good m (s\<lparr>bx_disk := k\<rparr>)"
  by (rule good_disk [OF assms(1,3)]) (simp add: assms(4,5) stocked_private [OF goodD(3) [OF assms(1)] assms(2)])

lemma good_longer:
  assumes "good m s" and "\<And>u. parse_upload_id i \<noteq> Inr u" and "store_env faulty (be_blobs E) k"
    and "held (be_blobs E) k = blobs_of s" and "longer i c (staged_of s) (staging (be_blobs E) k)"
  shows "good m (s\<lparr>bx_disk := k\<rparr>)"
  using good_private [OF assms(1-4)] assms(5) by (auto simp: longer_def)

lemma good_moved:
  assumes "good m s" and "moved faulty (be_blobs E) i d c (bx_disk s) k" and "content_digest (be_sha E) (algorithm_of d) c = d"
  shows "good m (s\<lparr>bx_disk := k\<rparr>)"
  by (rule good_disk [OF assms(1)])
    (use assms(2) in \<open>auto simp: moved_def intro: stocked_unstage [OF stocked_hold [OF goodD(3) [OF assms(1)] assms(3)]]\<close>)

lemma good_cancel:
  assumes "new_upload_id i = Inr i"
  shows "keeping (good m) (on_disk (store_cancel_upload (be_blobs E) i))"
  unfolding keeping_def on_disk_def wp_disk_call
proof (intro allI impI)
  fix s assume g: "good m s"
  show "wp (store_cancel_upload (be_blobs E) i) (\<lambda>_ k. good m (s\<lparr>bx_disk := k\<rparr>)) (\<lambda>_ k. good m (s\<lparr>bx_disk := k\<rparr>)) (bx_disk s)"
    by (rule wp_weaken [OF wp_cancel_upload [OF goodD(2) [OF g] assms]])
      (use good_unchanged [OF g] good_disk [OF g] stocked_unstage [OF goodD(3) [OF g], of i] in force)+
qed

lemma keeping_good: "(\<And>m. keeping (good m) p) \<Longrightarrow> keeping alive p"
  unfolding keeping_def by (intro allI impI, elim exE, rule wp_weaken) blast+

lemmas keeping_cancel = keeping_good [OF good_cancel]

text \<open>A commit of what was staged: the blob is there, or nothing happened but that it may be.\<close>

lemma wp_commit_staged:
  assumes g: "good m s" and u: "staged_as (be_sha E) (be_blobs E) (bx_disk s) u i c" and a: "up_algorithm u = algorithm_of d"
  shows "wp (on_disk (store_commit_upload (be_sha E) (be_blobs E) u d))
    (\<lambda>n s'. \<exists>k. s' = s\<lparr>bx_disk := k\<rparr> \<and> good m s' \<and> n = word_of_nat (length c) \<and> content_digest (be_sha E) (algorithm_of d) c = d
       \<and> moved faulty (be_blobs E) i d c (bx_disk s) k)
    (\<lambda>_ s'. (faulty \<or> content_digest (be_sha E) (algorithm_of d) c \<noteq> d \<and> staged_of s' = staged_of s) \<and> good m s') s"
  unfolding on_disk_def wp_disk_call
  by (rule wp_weaken [OF wp_commit_upload [OF goodD(2) [OF g] u]])
    (use good_moved [OF g, of i d c] good_unchanged [OF g] in \<open>auto simp: a unchanged_def\<close>)

lemma wp_recover:
  "wp (\<lambda>s. case p s of (Inr n, s') \<Rightarrow> F n s' | (Inl e, s') \<Rightarrow> (Inl e, snd (h s'))) Q X s
     = wp p (\<lambda>n. wp (F n) Q X) (\<lambda>e s'. X e (snd (h s'))) s"
  by (auto simp: wp_def split: prod.split sum.split)

text \<open>What a push of a blob leaves: the record with the length of the bytes, and the bytes.\<close>

definition stored_blob :: "string \<Rightarrow> digest \<Rightarrow> bytes \<Rightarrow> write_batch \<Rightarrow> store \<Rightarrow> ('s, 'c) backend_state \<Rightarrow> bool" where
  "stored_blob name d c b m s' \<longleftrightarrow> content_digest (be_sha E) (algorithm_of d) c = d \<and> blobs_of s' d = Some c
     \<and> (\<exists>r m1 t. interned m name r m1 \<and> good (apply_ops (commit_ops lib m1 r d (word_of_nat (length c)) t @ b) m1) s')"

lemma wp_record:
  assumes name: "is_str name" and g: "good m s" and c: "content_digest (be_sha E) (algorithm_of d) c = d"
    and d: "blobs_of s d = Some c"
  shows "wp (bind_a (now E) (\<lambda>t. offload (bind_a (commit_blob (be_ops E) name d (word_of_nat (length c)) t) (\<lambda>_. return_a ()))))
    (\<lambda>_. stored_blob name d c [] m) (\<lambda>_ s'. (may_fail \<or> ids_exhausted m name) \<and> alive s') s"
proof -
  let ?s = "s\<lparr>bx_reads := bx_reads s + 1\<rparr>"
  have g1: "good m ?s" and d1: "blobs_of ?s d \<noteq> None" using g d by simp_all
  have "wp (meta_call f (commit_blob (be_ops E) name d (word_of_nat (length c)) t)) (\<lambda>_. stored_blob name d c [] m)
      (\<lambda>_ s'. (may_fail \<or> ids_exhausted m name) \<and> alive s') ?s" for f t
    apply (rule wp_weaken [OF wp_commit [OF commits_commit_only [OF name] _ g1 d1 c refl]])
    subgoal by simp
    subgoal using c d by (auto simp: stored_blob_def)
    subgoal by blast
    done
  then show ?thesis by (simp add: wp_bind wp_now offload_def bind_return)
qed

text \<open>Why a push is not taken.\<close>

definition push_fails :: "store \<Rightarrow> string \<Rightarrow> digest \<Rightarrow> 'b upload_body \<Rightarrow> bool" where
  "push_fails m name d b \<longleftrightarrow> may_fail \<or> ids_exhausted m name \<or> declined faulty b (frames_of b) []
     \<or> content_digest (be_sha E) (algorithm_of d) (arrived (frames_of b)) \<noteq> d"

lemma faulty_declined: "faulty \<Longrightarrow> declined faulty b frames c"
  by (simp add: declined_def refused_def)

lemma wp_put_staged:
  assumes name: "is_str name" and g: "good m s" and i: "new_upload_id i = Inr i" and priv: "\<And>u. parse_upload_id i \<noteq> Inr u"
  shows "wp (bind_a (on_disk (store_create_upload (be_sha E) (be_blobs E) i (algorithm_of d))) (\<lambda>u s.
       case bind_a (drained E u b) (\<lambda>u. on_disk (store_commit_upload (be_sha E) (be_blobs E) u d)) s of
         (Inr n, s') \<Rightarrow> bind_a (now E) (\<lambda>t. offload (bind_a (commit_blob (be_ops E) name d n t) (\<lambda>_. return_a ()))) s'
       | (Inl e, s') \<Rightarrow> (Inl e, snd (on_disk (store_cancel_upload (be_blobs E) i) s'))))
    (\<lambda>_ s'. whole (frames_of b) \<and> stored_blob name d (arrived (frames_of b)) [] m s')
    (\<lambda>_ s'. (push_fails m name d b \<or> staged_of s i \<noteq> None) \<and> alive s') s"
  unfolding on_disk_def [of "store_create_upload _ _ _ _"] wp_bind [of "disk_call _ _"] wp_disk_call wp_recover
proof (rule wp_weaken [OF wp_create_upload [OF goodD(2) [OF g] i hash]], goal_cases)
  case (2 e k)
  then show ?case using good_unchanged [OF g] faulty_declined unfolding push_fails_def by blast
next
  case (1 u k)
  let ?s = "s\<lparr>bx_disk := k\<rparr>"
  from 1 have u: "staged_as (be_sha E) (be_blobs E) (bx_disk ?s) u i []" and a: "up_algorithm u = algorithm_of d" by simp_all
  have g1: "good m ?s" using 1 good_private [OF g priv] by blast
  have cancelled: "alive (snd (on_disk (store_cancel_upload (be_blobs E) i) t))" if "alive t" for t
    by (rule keeping_after [OF keeping_cancel [OF i] that])
  show ?case
    unfolding wp_bind [of "drained E u b"]
  proof (rule wp_weaken [OF wp_drained [OF g1 u]], goal_cases)
    case (2 e t)
    then have "alive t" and "push_fails m name d b" using good_longer [OF g1 priv] unfolding push_fails_def by blast+
    then show ?case using cancelled by blast
  next
    case (1 u' t)
    then obtain k' where t: "t = ?s\<lparr>bx_disk := k'\<rparr>" "whole (frames_of b)" "store_env faulty (be_blobs E) k'"
      "held (be_blobs E) k' = blobs_of ?s" "staging (be_blobs E) k' = (staged_of ?s)(i \<mapsto> [] @ arrived (frames_of b))"
      "staged_as (be_sha E) (be_blobs E) k' u' i ([] @ arrived (frames_of b))" "up_algorithm u' = up_algorithm u" by blast
    have g2: "good m t" using good_private [OF g1 priv t(3-5)] t(1) by simp
    have u': "staged_as (be_sha E) (be_blobs E) (bx_disk t) u' i (arrived (frames_of b))" using t(1,6) by simp
    show ?case
    proof (rule wp_weaken [OF wp_commit_staged [OF g2 u']], goal_cases)
      case 1
      show ?case using t(7) a by simp
    next
      case (2 n v)
      then have v: "good m v" "n = word_of_nat (length (arrived (frames_of b)))"
        "content_digest (be_sha E) (algorithm_of d) (arrived (frames_of b)) = d" "blobs_of v d = Some (arrived (frames_of b))"
        by (auto simp: moved_def)
      show ?case unfolding v(2)
        by (rule wp_weaken [OF wp_record [OF name v(1,3,4)]]) (use t(2) push_fails_def in blast)+
    next
      case (3 e v)
      then have "alive v" and "push_fails m name d b" using faulty_declined unfolding push_fails_def by blast+
      then show ?case using cancelled by blast
    qed
  qed
qed

lemma wp_put_blob:
  assumes name: "is_str name" and g: "good m s"
  defines "i \<equiv> ''single-'' @ be_uuid E (bx_reads s)"
  shows "wp (be_put_blob E name d b)
    (\<lambda>_ s'. whole (frames_of b) \<and> stored_blob name d (arrived (frames_of b)) [] m s')
    (\<lambda>_ s'. (push_fails m name d b \<or> staged_of s i \<noteq> None \<or> new_upload_id i \<noteq> Inr i) \<and> alive s') s"
proof -
  let ?s = "s\<lparr>bx_reads := bx_reads s + 1\<rparr>"
  have g1: "good m ?s" using g by simp
  have private_i: "\<And>u. parse_upload_id i \<noteq> Inr u" unfolding i_def by (rule private_ids(1))
  show ?thesis
  proof (cases "new_upload_id i")
    case (Inl e)
    show ?thesis
      unfolding be_put_blob_def wp_bind [of "new_uuid E"] wp_new_uuid wp_bind [of "of_result _"] wp_of_result i_def [symmetric] Inl map_err_def sum.case
      using g1 by blast
  next
    case (Inr j)
    note j = new_upload_id_plain(1) [OF Inr]
    have "wp (be_put_blob E name d b)
      (\<lambda>_ s'. whole (frames_of b) \<and> stored_blob name d (arrived (frames_of b)) [] m s')
      (\<lambda>_ s'. (push_fails m name d b \<or> staged_of ?s i \<noteq> None) \<and> alive s') s"
      unfolding be_put_blob_def wp_bind [of "new_uuid E"] wp_new_uuid wp_bind [of "of_result _"] wp_of_result i_def [symmetric] Inr j map_err_def sum.case
      by (rule wp_put_staged [OF name g1 Inr [unfolded j] private_i])
    then show ?thesis by (rule wp_weaken) auto
  qed
qed

section \<open>Manifests\<close>

text \<open>The copy of a manifest.\<close>

lemma wp_archive_staged:
  assumes g: "good m s" and i: "new_upload_id i = Inr i" and priv: "\<And>u. parse_upload_id i \<noteq> Inr u"
  shows "wp (bind_a (on_disk (store_create_upload (be_sha E) (be_blobs E) i (algorithm_of d))) (\<lambda>u s.
       case bind_a (on_disk (append_chunk (be_sha E) u 0 body)) (\<lambda>u. on_disk (store_commit_upload (be_sha E) (be_blobs E) u d)) s of
         (Inr _, s') \<Rightarrow> (Inr (), s')
       | (Inl e, s') \<Rightarrow> (Inl e, snd (on_disk (store_cancel_upload (be_blobs E) i) s'))))
    (\<lambda>_ s'. good m s' \<and> blobs_of s' d \<noteq> None) (\<lambda>_. good m) s"
  unfolding on_disk_def [of "store_create_upload _ _ _ _"] wp_bind [of "disk_call _ _"] wp_disk_call wp_recover
proof (rule wp_weaken [OF wp_create_upload [OF goodD(2) [OF g] i hash]], goal_cases)
  case (2 e k)
  then show ?case using good_unchanged [OF g] by blast
next
  case (1 u k)
  let ?s = "s\<lparr>bx_disk := k\<rparr>"
  from 1 have u: "staged_as (be_sha E) (be_blobs E) (bx_disk ?s) u i []" and a: "up_algorithm u = algorithm_of d" by simp_all
  then have zero: "up_offset u = 0" by (simp add: staged_as_def)
  have g1: "good m ?s" using 1 good_private [OF g priv] by blast
  have cancelled: "good m (snd (on_disk (store_cancel_upload (be_blobs E) i) t))" if "good m t" for t
    by (rule keeping_after [OF good_cancel [OF i] that])
  show ?case
    unfolding on_disk_def [of "append_chunk _ _ _ _"] wp_bind [of "disk_call _ _"] wp_disk_call
  proof (rule wp_weaken [OF wp_append_chunk [OF goodD(2) [OF g1] hash u, of body, unfolded zero]], goal_cases)
    case (2 e k')
    then have "good m (?s\<lparr>bx_disk := k'\<rparr>)" using good_private [OF g1 priv, of k'] by auto
    then show ?case by (rule cancelled)
  next
    case (1 u' k')
    let ?t = "?s\<lparr>bx_disk := k'\<rparr>"
    from 1 have g2: "good m ?t" using good_private [OF g1 priv, of k'] by simp
    from 1 have u': "staged_as (be_sha E) (be_blobs E) (bx_disk ?t) u' i body" and a': "up_algorithm u' = algorithm_of d"
      using a by simp_all
    show ?case
    proof (rule wp_weaken [OF wp_commit_staged [OF g2 u' a']], goal_cases)
      case (1 n v)
      then show ?case by (auto simp: wp_def moved_def)
    next
      case (2 e v)
      then show ?case using cancelled by blast
    qed
  qed
qed

lemma wp_archive:
  assumes g: "good m s"
  shows "wp (archive_manifest E d body) (\<lambda>_ s'. good m s' \<and> blobs_of s' d \<noteq> None) (\<lambda>_. good m) s"
  unfolding archive_manifest_def on_disk_def [of "store_contains _ _"] wp_bind [of "disk_call _ (store_contains _ _)"] wp_disk_call
proof (rule wp_weaken [OF wp_contains [OF goodD(2) [OF g]]], goal_cases)
  case (2 e k)
  then show ?case using good_unchanged [OF g] by blast
next
  case (1 there k)
  then have g1: "good m (s\<lparr>bx_disk := k\<rparr>)" using good_unchanged [OF g] by blast
  show ?case
  proof (cases there)
    case True
    with 1 g1 show ?thesis by (simp add: wp_return unchanged_def)
  next
    case False
    let ?s = "s\<lparr>bx_disk := k, bx_reads := bx_reads s + 1\<rparr>" and ?i = "''manifest-'' @ be_uuid E (bx_reads s)"
    have g2: "good m ?s" using g1 by simp
    show ?thesis
    proof (cases "new_upload_id ?i")
      case (Inl e)
      with False g2 show ?thesis by (simp add: wp_bind wp_new_uuid of_result_def wp_lift map_err_def)
    next
      case (Inr j)
      note j = new_upload_id_plain(1) [OF Inr]
      have reads: "bx_reads (s\<lparr>bx_disk := k\<rparr>) = bx_reads s" by simp
      show ?thesis
        unfolding if_not_P [OF False] wp_bind [of "new_uuid E"] wp_new_uuid wp_bind [of "of_result _"] wp_of_result reads Inr j
          map_err_def sum.case
        by (rule wp_archive_staged [OF g2 Inr [unfolded j] private_ids(2)])
    qed
  qed
qed

text \<open>A push with validation names only blobs that are on record: it writes no record of a blob.\<close>

lemma thinner_push:
  assumes spec: "put_spec (rg_options (be_ops E)) lib req tags d p r m = Inr (out, b)"
  shows "thinner m (apply_ops b m)"
proof -
  note s = put_spec_Inr [OF spec]
  have known: "blob_at lib m (bd_digest desc) \<noteq> None" if "desc \<in> set (kept_blobs lib m r p)" for desc
    using s(4) that validating by (auto simp: refused_blob_None kept_blobs_def missing_blob_def)
  have few: "ranged {0x43, 0x50, 0x52} (concat (map (blob_ops lib m r d t) descs))"
    if "\<And>desc. desc \<in> set descs \<Longrightarrow> blob_at lib m (bd_digest desc) \<noteq> None" for descs t
    using that
  proof (induction descs)
    case (Cons desc descs)
    then obtain rec where "blob_at lib m (bd_digest desc) = Some rec" by fastforce
    then have "ranged {0x43, 0x50, 0x52} (blob_ops lib m r d t desc)" by (simp add: blob_ops_def Let_def key_defs)
    with Cons show ?case by simp
  qed simp
  have "ranged {0x43, 0x50, 0x52, 0x53, 0x4D, 0x5A, 0x46} (push_ops lib m r d req p)"
    unfolding push_ops_def ranged_simps
    by (intro conjI ranged_mono [OF few [OF known]] ranged_mono [OF child_ops_ranged]) (auto simp: key_defs split: option.split)
  then have "thinner m (apply_ops (push_ops lib m r d req p) m)" by (rule thinner_ranged) auto
  then show ?thesis
    unfolding s(1) apply_ops_append by (rule thinner_trans) (rule thinner_ranged [OF tagged_ops_ranged], auto)
qed

definition agrees :: "manifest_put \<Rightarrow> ('s, 'c) backend_state \<Rightarrow> bool" where
  "agrees req s \<longleftrightarrow> (\<exists>m. good m s
     \<and> same_content lib (digest_body lib (mp_body req) (as_digest (mp_reference req))) (mp_body req) m)"

lemma wp_plan_put:
  assumes name: "is_str (mp_repo req)" and g: "agrees req s"
  shows "wp (offload (plan_manifest_put_tagged (be_ops E) req tags)) (\<lambda>_. agrees req) (\<lambda>_. alive) s"
proof -
  let ?d = "digest_body lib (mp_body req) (as_digest (mp_reference req))"
  obtain m where g: "good m s" and same: "same_content lib ?d (mp_body req) m" using g by (auto simp: agrees_def)
  have later: "agrees req (s\<lparr>bx_meta := v\<rparr>)" if i: "interned m (mp_repo req) r m1" and h: "holds m1 v" for r m1 v
    unfolding agrees_def using good_meta [OF g h thinner_interned [OF i]] same_content_interned [OF i same] by blast
  have gone: "alive (s\<lparr>bx_meta := v\<rparr>)" if "agrees req (s\<lparr>bx_meta := v\<rparr>)" for v
    using that by (auto simp: agrees_def)
  show ?thesis
  proof (cases "check_put (rg_options (be_ops E)) lib req")
    case (Inl e)
    with g show ?thesis
      by (auto simp: offload_def wp_meta_call plan_manifest_put_tagged_def wp_bind wp_lift)
  next
    case (Inr dp)
    obtain d p where dp: "dp = (d, p)" by fastforce
    show ?thesis
      unfolding offload_def wp_meta_call plan_manifest_put_tagged_def wp_bind wp_lift Inr dp sum.case prod.case
    proof (rule wp_intern_repo [OF goodD(1) [OF g] name])
      fix r m1 v assume i: "interned m (mp_repo req) r m1" and h: "holds m1 v"
      show "wp (plan_interned_put (be_ops E) req tags d p r) (\<lambda>a v. agrees req (s\<lparr>bx_meta := v\<rparr>)) (\<lambda>e v. alive (s\<lparr>bx_meta := v\<rparr>)) v"
        by (rule refines_wp [OF refines_plan_interned_put h]) (use later [OF i] gone in blast)+
    qed (use good_same [OF g] in blast)
  qed
qed

lemma wp_apply_put:
  assumes name: "is_str (mp_repo req)" and g: "agrees req s"
  shows "wp (offload (put_manifest_tagged (be_ops E) req tags)) (\<lambda>_. alive) (\<lambda>_. alive) s"
proof -
  let ?d = "digest_body lib (mp_body req) (as_digest (mp_reference req))"
  obtain m where g: "good m s" and same: "same_content lib ?d (mp_body req) m" using g by (auto simp: agrees_def)
  show ?thesis
  proof (cases "check_put (rg_options (be_ops E)) lib req")
    case (Inl e)
    with put_rejected [OF Inl] g show ?thesis by (auto simp: offload_def meta_call_def map_err_def wp_def)
  next
    case (Inr dp)
    obtain d p where dp: "dp = (d, p)" by fastforce
    note check = Inr [unfolded dp]
    have same: "same_content lib d (mp_body req) m" using same check_put_Inr(2) [OF check] by simp
    let ?f = "\<lambda>r m. and_then (put_spec (rg_options (be_ops E)) lib req tags d p r m) (\<lambda>(a, b). Inr (a, apply_ops b m))"
    from commits_put [OF name check, of tags] goodD(1) [OF g] same
    have W: "wp (put_manifest_tagged (be_ops E) req tags)
        (\<lambda>a s'. \<exists>r m1 m'. interned m (mp_repo req) r m1 \<and> ?f r m1 = Inr (a, m') \<and> holds m' s')
        (\<lambda>e s'. (holds m s' \<and> engine_error (may_fail \<or> ids_exhausted m (mp_repo req)) e)
          \<or> (\<exists>r m1. interned m (mp_repo req) r m1 \<and> holds m1 s' \<and> (?f r m1 = Inl e \<or> engine_error may_fail e))) (bx_meta s)"
      by (simp add: commits_in_def)
    have pushed: "alive (s\<lparr>bx_meta := v\<rparr>)"
      if i: "interned m (mp_repo req) r m1" and f: "?f r m1 = Inr (a, m')" and h: "holds m' v" for r m1 a m' v
    proof -
      obtain b where b: "put_spec (rg_options (be_ops E)) lib req tags d p r m1 = Inr (a, b)" "m' = apply_ops b m1"
        using f by (auto simp: and_then_Inr)
      have "thinner m m'" unfolding b(2) using thinner_trans [OF thinner_interned [OF i] thinner_push [OF b(1)]] .
      then show ?thesis using good_meta [OF g h] by blast
    qed
    have stays: "alive (s\<lparr>bx_meta := v\<rparr>)" if "interned m (mp_repo req) r m1" "holds m1 v" for r m1 v
      using good_meta [OF g that(2) thinner_interned [OF that(1)]] by blast
    show ?thesis
      unfolding offload_def wp_meta_call
      apply (rule wp_weaken [OF W])
      subgoal using pushed by blast
      subgoal using stays good_same [OF g] by blast
      done
  qed
qed

lemma wp_put_manifest:
  assumes name: "is_str name" and g: "good m s"
    and same: "same_content lib (digest_body lib body (as_digest (as_ops_reference ref))) body m"
  shows "wp (be_put_manifest E name ref content_type tags body) (\<lambda>_. alive) (\<lambda>_. alive) s"
proof -
  let ?s = "s\<lparr>bx_reads := bx_reads s + 1\<rparr>" and ?req = "put_request name ref content_type body (from_millis (be_clock E (bx_reads s)))"
  have req: "is_str (mp_repo ?req)" "mp_body ?req = body" "mp_reference ?req = as_ops_reference ref"
    using name by (simp_all add: put_request_def)
  have a: "agrees ?req ?s" using g same req by (auto simp: agrees_def)
  have archived: "wp (archive_manifest E d body) (\<lambda>_. agrees ?req) (\<lambda>_. alive) t" if t: "agrees ?req t" for d t
  proof -
    obtain m where m: "good m t" "same_content lib (digest_body lib body (as_digest (as_ops_reference ref))) body m"
      using t req by (auto simp: agrees_def)
    show ?thesis by (rule wp_weaken [OF wp_archive [OF m(1)]]) (use m(2) req in \<open>auto simp: agrees_def\<close>)
  qed
  have tail: "wp (bind_a (archive_manifest E d body) (\<lambda>_.
      bind_a (offload (put_manifest_tagged (be_ops E) ?req tags)) (\<lambda>outcome.
        return_a \<lparr>manifest_done.md_digest = po_digest outcome, md_subject = po_subject outcome, md_tags = tags\<rparr>)))
      (\<lambda>_. alive) (\<lambda>_. alive) t" if "agrees ?req t" for d t
    unfolding wp_bind wp_return
    by (rule wp_weaken [OF archived [OF that]]) (rule wp_apply_put [OF req(1)], assumption+)
  show ?thesis
    unfolding be_put_manifest_def wp_bind [of "now E"] wp_now wp_bind [of "offload (plan_manifest_put_tagged _ _ _)"]
    by (rule wp_weaken [OF wp_plan_put [OF req(1) a]]) (use tail in \<open>auto split: prod.split\<close>)
qed

end

end
