(* ===== verification/Summ_Chunked.thy ===== *)
theory Summ_Chunked
  imports Summ_Arrivals
begin

text \<open>
  Uploads in chunks, through sessions: a session can be taken up as long as its record and its file agree, an append that fails leaves it
  as it was, and the chunk that finishes it stores all that was sent.
\<close>

section \<open>Sessions that can be taken up\<close>

text \<open>\<open>pre\<close> is what was received so far: it is counted by the record, and at the head of the file.\<close>

definition resumable_at ::
    "libs \<Rightarrow> store \<Rightarrow> (string \<Rightarrow> bytes option) \<Rightarrow> string \<Rightarrow> string \<Rightarrow> bytes \<Rightarrow> bool" where
  "resumable_at lib m S name i pre \<longleftrightarrow>
     (\<exists>key x a junk. parse_upload_id i = Inr key \<and> new_upload_id i = Inr i \<and> upload_at lib m key = Some x
        \<and> id_of m name = Some (us_repo x) \<and> us_offset x = word_of_nat (length pre)
        \<and> algorithm_from_name (us_algorithm x) = Inr a \<and> S i = Some (pre @ junk))"

lemma resumable_longer:
  assumes "resumable_at lib m S name i pre" and "longer i pre S S'"
  shows "resumable_at lib m S' name i pre"
proof -
  from assms(1) obtain key x a where r: "parse_upload_id i = Inr key" "new_upload_id i = Inr i" "upload_at lib m key = Some x"
    "id_of m name = Some (us_repo x)" "us_offset x = word_of_nat (length pre)" "algorithm_from_name (us_algorithm x) = Inr a"
    unfolding resumable_at_def by blast
  from assms(2) obtain part where "S' i = Some (pre @ part)" unfolding longer_def by auto
  with r show ?thesis unfolding resumable_at_def by blast
qed

lemma staged_small: "store_env faulty B k \<Longrightarrow> staging B k i = Some c \<Longrightarrow> length c \<le> MAX_FILE"
  by (frule store_envD(2)) (auto simp: staging_def contents_file dest: disk_okD(5))

context backend_env
begin

abbreviation "open_session m s \<equiv> resumable_at lib m (staged_of s)"

text \<open>A failure after which the session is as it was, and that has a reason.\<close>

definition harmless :: "store \<Rightarrow> string \<Rightarrow> string \<Rightarrow> (bytes \<Rightarrow> bool) \<Rightarrow> ('s, 'c) backend_state \<Rightarrow> ('s, 'c) backend_state \<Rightarrow> bool" where
  "harmless m name i why s s' \<longleftrightarrow> good m s' \<and> (\<forall>pre. open_session m s name i pre \<longrightarrow> open_session m s' name i pre \<and> (faulty \<or> may_fail \<or> why pre))"

lemma harmless_same:
  assumes "good m s'" and "bx_disk s' = bx_disk s" and "\<And>pre. open_session m s name i pre \<Longrightarrow> faulty \<or> may_fail \<or> why pre"
  shows "harmless m name i why s s'"
  using assms by (simp add: harmless_def)

text \<open>What was received of a session may be followed by anything.\<close>

lemma good_grown:
  assumes g: "good m s" and key: "parse_upload_id i = Inr key" and x: "upload_at lib m key = Some x" "us_offset x = word_of_nat (length pre)"
    and had: "staged_of s i = Some (pre @ junk)"
    and k: "store_env faulty (be_blobs E) k" "held (be_blobs E) k = blobs_of s" "staging (be_blobs E) k = (staged_of s)(i \<mapsto> pre @ part)"
  shows "good m (s\<lparr>bx_disk := k\<rparr>)"
proof (rule good_disk [OF g k(1)])
  have "us_offset y = word_of_nat (length pre)" if "i = format_upload_id v" "upload_at lib m v = Some y" for v y
  proof -
    have "v = key" using that(1) key upload_id_parsed by (metis sum.inject(2))
    with that(2) x show ?thesis by simp
  qed
  moreover have "length (pre @ part) \<le> MAX_FILE" by (rule staged_small [OF k(1), of i]) (simp add: k(3))
  then have "length pre \<le> MAX_FILE" by simp
  ultimately have "stocked (be_sha E) lib m (blobs_of s) ((staged_of s)(i \<mapsto> pre @ part))"
    using staged_small [OF goodD(2) [OF g] had] by (intro stocked_extend [OF goodD(3) [OF g] had])
  then show "stocked (be_sha E) lib m (held (be_blobs E) k) (staging (be_blobs E) k)" by (simp add: k(2,3))
qed

lemma wp_live_session:
  assumes g: "good m s" and key: "parse_upload_id i = Inr key"
  shows "wp (live_session E name key off)
    (\<lambda>x s'. good m s' \<and> bx_disk s' = bx_disk s \<and> upload_at lib m key = Some x \<and> id_of m name = Some (us_repo x) \<and> us_offset x = off)
    (\<lambda>_. harmless m name i (\<lambda>pre. off \<noteq> word_of_nat (length pre)) s) s"
  unfolding live_session_def session_in_def inline_def wp_bind
proof (rule wp_looked [OF refines_get_upload_in g], goal_cases)
  case (2 e t)
  then have "good m (s\<lparr>bx_meta := t\<rparr>)" and "may_fail" unfolding engine_error_def by blast+
  then show ?case by (intro harmless_same) simp_all
next
  case (1 found t)
  then have g1: "good m (s\<lparr>bx_meta := t\<rparr>)" by simp
  show ?case
  proof (cases found)
    case None
    have "\<not> open_session m s name i pre" for pre
      using 1(2) None key by (auto simp: resumable_at_def split: option.splits if_splits)
    with g1 None show ?thesis by (auto intro!: harmless_same simp: wp_of_result ok_or_def wp_fail)
  next
    case (Some x)
    with 1(2) have x: "upload_at lib m key = Some x" "id_of m name = Some (us_repo x)" by (auto split: option.splits if_splits)
    show ?thesis
    proof (cases "us_offset x = off")
      case True
      with g1 x Some show ?thesis by (simp add: wp_of_result ok_or_def wp_return)
    next
      case False
      have "off \<noteq> word_of_nat (length pre)" if "open_session m s name i pre" for pre
        using that x key False by (auto simp: resumable_at_def)
      with g1 False Some show ?thesis by (auto intro!: harmless_same simp: wp_of_result ok_or_def wp_fail wp_return)
    qed
  qed
qed

lemma wp_resume:
  assumes g: "good m s" and key: "parse_upload_id i = Inr key" and x: "upload_at lib m key = Some x"
  shows "wp (resume E i x)
    (\<lambda>u s'. \<exists>k pre junk. s' = s\<lparr>bx_disk := k\<rparr> \<and> us_offset x = word_of_nat (length pre) \<and> staged_of s i = Some (pre @ junk) \<and> good m s'
       \<and> staged_of s' = (staged_of s)(i \<mapsto> pre) \<and> blobs_of s' = blobs_of s \<and> staged_as (be_sha E) (be_blobs E) k u i pre
       \<and> i = format_upload_id key \<and> algorithm_from_name (us_algorithm x) = Inr (up_algorithm u) \<and> new_upload_id i = Inr i)
    (\<lambda>_. harmless m name i (\<lambda>_. False) s) s"
proof (cases "new_upload_id i")
  case (Inl e)
  then have none: "\<not> open_session m s name i pre" for pre by (simp add: resumable_at_def)
  show ?thesis
    unfolding resume_def upload_id_def wp_bind wp_of_result Inl map_err_def sum.case
    by (rule harmless_same [OF g refl]) (use none in blast)
next
  case (Inr j)
  note j = new_upload_id_plain(1) [OF Inr] and i = Inr [unfolded new_upload_id_plain(1) [OF Inr]]
  show ?thesis
  proof (cases "algorithm_from_name (us_algorithm x)")
    case (Inl e)
    then have none: "\<not> open_session m s name i pre" for pre using x key by (auto simp: resumable_at_def)
    show ?thesis
      unfolding resume_def upload_id_def wp_bind wp_of_result i Inl map_err_def sum.case
      by (rule harmless_same [OF g refl]) (use none in blast)
  next
    case (Inr a)
    note env = goodD(2) [OF g]
    have failed: "harmless m name i (\<lambda>_. False) s (s\<lparr>bx_disk := k\<rparr>)"
      if un: "unchanged faulty (be_blobs E) (bx_disk s) k"
        and why: "faulty \<or> (\<forall>c. staged_of s i = Some c \<longrightarrow> length c < unat (us_offset x))" for k
    proof -
      have "faulty" if o: "open_session m s name i pre" for pre
      proof (rule ccontr)
        assume "\<not> faulty"
        moreover obtain junk where *: "staged_of s i = Some (pre @ junk)" "us_offset x = word_of_nat (length pre)"
          using o x key by (auto simp: resumable_at_def)
        moreover have "unat (us_offset x) \<le> length pre" unfolding *(2) by (simp add: unat_of_nat)
        ultimately show False using why by fastforce
      qed
      with good_unchanged [OF g un] un show ?thesis by (simp add: harmless_def unchanged_def)
    qed
    show ?thesis
    proof (cases "staged_of s i")
      case None
      then have short: "length c < unat (us_offset x)" if "staged_of s i = Some c" for c using that by simp
      show ?thesis
        unfolding resume_def upload_id_def wp_bind wp_of_result i Inr map_err_def sum.case on_disk_def wp_disk_call
        by (rule wp_weaken [OF wp_resume_missing [OF env i short]]) (use failed short in auto)
    next
      case (Some c)
      then have canon: "i = format_upload_id key" using stockedD(5) [OF goodD(3) [OF g], of i key] key by blast
      then have sm: "session_matches (be_sha E) x (staged_of s i)" using stockedD(4) [OF goodD(3) [OF g] x] by simp
      show ?thesis
        unfolding resume_def upload_id_def wp_bind wp_of_result i Inr map_err_def sum.case on_disk_def wp_disk_call
      proof (rule wp_weaken [OF wp_resume_session [OF env i hash sm Inr]], goal_cases)
        case (2 e k)
        then show ?case using failed by blast
      next
        case (1 u k)
        then obtain pre junk where r: "us_offset x = word_of_nat (length pre)" "staged_of s i = Some (pre @ junk)"
          "store_env faulty (be_blobs E) k" "held (be_blobs E) k = blobs_of s" "staging (be_blobs E) k = (staged_of s)(i \<mapsto> pre)"
          "staged_as (be_sha E) (be_blobs E) k u i pre" "up_algorithm u = a" by blast
        have "good m (s\<lparr>bx_disk := k\<rparr>)"
          by (rule good_grown [OF g key x r(1,2,3,4), of "[]"]) (simp add: r(5))
        with r canon i show ?case by auto
      qed
    qed
  qed
qed

section \<open>Appending\<close>

text \<open>The session as it is known: the state of the disk and the store, and what a resumed upload stands on.\<close>

definition resumed :: "store \<Rightarrow> string \<Rightarrow> string \<Rightarrow> bytes16 \<Rightarrow> upload_session \<Rightarrow> bytes \<Rightarrow> 'h upload \<Rightarrow> ('s, 'c) backend_state \<Rightarrow> bool" where
  "resumed m name i key x pre u s \<longleftrightarrow> good m s \<and> parse_upload_id i = Inr key \<and> i = format_upload_id key \<and> new_upload_id i = Inr i
     \<and> upload_at lib m key = Some x \<and> id_of m name = Some (us_repo x) \<and> us_offset x = word_of_nat (length pre)
     \<and> (\<exists>a. algorithm_from_name (us_algorithm x) = Inr a) \<and> staged_as (be_sha E) (be_blobs E) (bx_disk s) u i pre"

lemma resumed_staged: "resumed m name i key x pre u s \<Longrightarrow> staged_of s i = Some pre"
  unfolding resumed_def by (elim conjE) (rule staged_as_staging [OF store_envD(2) [OF goodD(2)]])

lemma resumed_open: "resumed m name i key x pre u s \<Longrightarrow> open_session m s name i pre"
  using resumed_staged [of m name i key x pre u s] unfolding resumed_def resumable_at_def by (metis append_Nil2)

lemma wp_resumed:
  assumes g: "good m s"
    and resumes: "\<And>key x pre u s'. resumed m name i key x pre u s' \<Longrightarrow> algorithm_from_name (us_algorithm x) = Inr (up_algorithm u)
      \<Longrightarrow> open_session m s name i pre \<Longrightarrow> off = word_of_nat (length pre)
      \<Longrightarrow> blobs_of s' = blobs_of s \<Longrightarrow> staged_of s' = (staged_of s)(i \<mapsto> pre) \<Longrightarrow> wp (k key x u) Q X s'"
    and fails: "\<And>e s'. harmless m name i (\<lambda>pre. off \<noteq> word_of_nat (length pre)) s s' \<Longrightarrow> X e s'"
  shows "wp (bind_a (of_result (session_key i)) (\<lambda>key. bind_a (live_session E name key off) (\<lambda>x. bind_a (resume E i x) (k key x)))) Q X s"
proof (cases "parse_upload_id i")
  case (Inl e)
  then have "\<not> open_session m s name i pre" for pre by (simp add: resumable_at_def)
  then show ?thesis
    unfolding session_key_def wp_bind wp_of_result Inl map_err_def sum.case
    by (intro fails harmless_same [OF g refl]) blast
next
  case (Inr key)
  show ?thesis
    unfolding session_key_def wp_bind [of "of_result _"] wp_of_result Inr map_err_def sum.case
    unfolding wp_bind [of "live_session _ _ _ _"]
  proof (rule wp_weaken [OF wp_live_session [OF g Inr]], goal_cases)
    case (2 e s')
    then show ?case by (rule fails)
  next
    case (1 x s1)
    then have g1: "good m s1" and d1: "bx_disk s1 = bx_disk s" and x: "upload_at lib m key = Some x" "id_of m name = Some (us_repo x)"
      "us_offset x = off" by simp_all
    show ?case
      unfolding wp_bind
    proof (rule wp_weaken [OF wp_resume [OF g1 Inr x(1), of name]], goal_cases)
      case (2 e s')
      then have "harmless m name i (\<lambda>pre. off \<noteq> word_of_nat (length pre)) s s'" by (auto simp: harmless_def d1)
      then show ?case by (rule fails)
    next
      case (1 u s')
      then obtain kk pre junk where r: "s' = s1\<lparr>bx_disk := kk\<rparr>" "us_offset x = word_of_nat (length pre)" "staged_of s1 i = Some (pre @ junk)"
        "good m s'" "staged_of s' = (staged_of s1)(i \<mapsto> pre)" "blobs_of s' = blobs_of s1" "staged_as (be_sha E) (be_blobs E) kk u i pre"
        "i = format_upload_id key" "algorithm_from_name (us_algorithm x) = Inr (up_algorithm u)" "new_upload_id i = Inr i" by blast
      have res: "resumed m name i key x pre u s'" using r x Inr by (simp add: resumed_def)
      have op: "open_session m s name i pre" using r x Inr d1 by (auto simp: resumable_at_def)
      show ?case by (rule resumes [OF res _ op]) (use r x d1 in simp_all)
    qed
  qed
qed

lemma wp_drained_session:
  assumes r: "resumed m name i key x pre u s"
  shows "wp (drained E u b)
    (\<lambda>u' s'. whole (frames_of b) \<and> resumed m name i key x pre u s \<and> good m s' \<and> blobs_of s' = blobs_of s
       \<and> staged_of s' = (staged_of s)(i \<mapsto> pre @ arrived (frames_of b))
       \<and> staged_as (be_sha E) (be_blobs E) (bx_disk s') u' i (pre @ arrived (frames_of b)) \<and> up_algorithm u' = up_algorithm u)
    (\<lambda>_ s'. good m s' \<and> open_session m s' name i pre \<and> declined faulty b (frames_of b) pre) s"
proof -
  have g: "good m s" and u: "staged_as (be_sha E) (be_blobs E) (bx_disk s) u i pre" and key: "parse_upload_id i = Inr key"
    and x: "upload_at lib m key = Some x" "us_offset x = word_of_nat (length pre)" using r unfolding resumed_def by blast+
  note had = resumed_staged [OF r]
  have grown: "good m (s\<lparr>bx_disk := k\<rparr>)" if "store_env faulty (be_blobs E) k" "held (be_blobs E) k = blobs_of s"
    "staging (be_blobs E) k = (staged_of s)(i \<mapsto> pre @ part)" for k part
    by (rule good_grown [OF g key x _ that, of "[]"]) (simp add: had)
  show ?thesis
  proof (rule wp_weaken [OF wp_drained [OF g u]], goal_cases)
    case (1 u' s')
    then show ?case using r grown by auto
  next
    case (2 e s')
    then obtain k where k: "s' = s\<lparr>bx_disk := k\<rparr>" "declined faulty b (frames_of b) pre" "store_env faulty (be_blobs E) k"
      "held (be_blobs E) k = blobs_of s" "longer i pre (staged_of s) (staging (be_blobs E) k)" by blast
    then have "open_session m s' name i pre" using resumable_longer [OF resumed_open [OF r]] by simp
    with k grown show ?case unfolding longer_def by auto
  qed
qed

text \<open>What an append has done: the session has all that was sent, and nothing else changed.\<close>

definition appended :: "string \<Rightarrow> string \<Rightarrow> bytes \<Rightarrow> bytes \<Rightarrow> ('s, 'c) backend_state \<Rightarrow> ('s, 'c) backend_state \<Rightarrow> bool" where
  "appended name i pre c s s' \<longleftrightarrow> blobs_of s' = blobs_of s \<and> staged_of s' = (staged_of s)(i \<mapsto> pre @ c)
     \<and> (\<exists>m'. good m' s' \<and> open_session m' s' name i (pre @ c))"

lemma good_saved:
  assumes r: "resumed m name i key x pre u s0" and alg: "algorithm_from_name (us_algorithm x) = Inr (up_algorithm u)" and g: "good m s"
    and u: "staged_as (be_sha E) (be_blobs E) (bx_disk s) u' i c"
    and a: "up_algorithm u' = up_algorithm u" and y: "y = x\<lparr>us_offset := word_of_nat (length c), us_updated_at := t,
      us_hasher_state := Some (hasher_serialize (be_sha E) (hashed (be_sha E) (up_algorithm u) c))\<rparr>"
    and h: "holds (m(upload_key key \<mapsto> stored_as (lb_upload lib) y)) v"
  defines "m' \<equiv> m(upload_key key \<mapsto> stored_as (lb_upload lib) y)"
  shows "good m' (s\<lparr>bx_meta := v\<rparr>) \<and> open_session m' (s\<lparr>bx_meta := v\<rparr>) name i c"
proof -
  have R: "parse_upload_id i = Inr key" "i = format_upload_id key" "new_upload_id i = Inr i" "id_of m name = Some (us_repo x)"
    "algorithm_from_name (us_algorithm x) = Inr (up_algorithm u)" using r alg unfolding resumed_def by blast+
  have had: "staged_of s i = Some c" by (rule staged_as_staging [OF store_envD(2) [OF goodD(2) [OF g]] u])
  have at: "upload_at lib m' key = Some y" by (simp add: m'_def upload_at_def coders)
  have id: "id_of m' name = id_of m name" by (simp add: m'_def id_of_def key_defs)
  have "session_matches (be_sha E) y (staged_of s (format_upload_id key))"
    using R had staged_small [OF goodD(2) [OF g] had] unfolding y session_matches_def by (intro exI [of _ c]) auto
  then have "stocked (be_sha E) lib m' (blobs_of s) (staged_of s)"
    by (intro stocked_session [OF goodD(3) [OF g] at]) (auto simp: m'_def key_defs)
  then have "good m' (s\<lparr>bx_meta := v\<rparr>)" using g h by (simp add: sound_def m'_def)
  moreover have "open_session m' (s\<lparr>bx_meta := v\<rparr>) name i c"
    using R at id had unfolding resumable_at_def by (auto simp: y)
  ultimately show ?thesis ..
qed

lemma open_unique:
  assumes g: "good m s" and "open_session m s name i pre" "open_session m s name i pre'"
  shows "pre' = pre"
proof -
  obtain key x junk where x: "parse_upload_id i = Inr key" "upload_at lib m key = Some x" "us_offset x = word_of_nat (length pre)"
    "staged_of s i = Some (pre @ junk)" using assms(2) unfolding resumable_at_def by blast
  obtain junk' where "us_offset x = word_of_nat (length pre')" "staged_of s i = Some (pre' @ junk')"
    using assms(3) x(1,2) unfolding resumable_at_def by auto
  with x(3,4) have *: "us_offset x = word_of_nat (length pre)" "us_offset x = word_of_nat (length pre')"
    "staged_of s i = Some (pre @ junk)" "pre @ junk = pre' @ junk'" by simp_all
  have "length (pre @ junk) \<le> MAX_FILE" "length (pre' @ junk') \<le> MAX_FILE"
    using staged_small [OF goodD(2) [OF g] *(3)] *(4) by simp_all
  then have "length pre \<le> MAX_FILE" "length pre' \<le> MAX_FILE" by simp_all
  then have "length pre' = length pre" using fits_u64 *(1,2) by metis
  with *(4) show ?thesis by simp
qed

lemma harmless_kept:
  assumes "good m s" "good m s'" "open_session m s name i pre" "open_session m s' name i pre" "faulty \<or> may_fail \<or> why pre"
  shows "harmless m name i why s s'"
  unfolding harmless_def using open_unique [OF assms(1,3)] assms(2,4,5) by blast

lemma wp_save:
  assumes g: "good m s"
  shows "wp (offload (bind_a (save_upload (be_ops E) key y) (\<lambda>_. return_a ())))
    (\<lambda>_ s'. \<exists>v. s' = s\<lparr>bx_meta := v\<rparr> \<and> holds (m(upload_key key \<mapsto> stored_as (lb_upload lib) y)) v)
    (\<lambda>_ s'. may_fail \<and> (\<exists>v. s' = s\<lparr>bx_meta := v\<rparr> \<and> good m s')) s"
  unfolding offload_def wp_meta_call wp_bind wp_return
  apply (rule wp_weaken [OF commits_save_upload [unfolded commits_def, rule_format, OF goodD(1) [OF g]]])
  subgoal by blast
  subgoal using good_same [OF g] unfolding engine_error_def by blast
  done

lemma wp_append:
  assumes g: "good m s"
  shows "wp (be_append_upload E name i off b)
    (\<lambda>n s'. whole (frames_of b) \<and> (\<exists>pre. open_session m s name i pre \<and> off = word_of_nat (length pre)
       \<and> n = word_of_nat (length (pre @ arrived (frames_of b))) \<and> appended name i pre (arrived (frames_of b)) s s'))
    (\<lambda>_. harmless m name i (\<lambda>pre. off \<noteq> word_of_nat (length pre) \<or> declined faulty b (frames_of b) pre) s) s"
  unfolding be_append_upload_def
proof (rule wp_resumed [OF g], goal_cases)
  case (2 e s')
  then show ?case by (auto simp: harmless_def)
next
  case (1 key x pre u s1)
  note r = 1(1) and alg = 1(2) and o = 1(3) and off = 1(4)
  let ?c = "pre @ arrived (frames_of b)"
  show ?case
    unfolding wp_bind [of "drained E u b"]
  proof (rule wp_weaken [OF wp_drained_session [OF r]], goal_cases)
    case (2 e s2)
    then show ?case by (blast intro: harmless_kept [OF g _ o])
  next
    case (1 u' s2)
    let ?s3 = "s2\<lparr>bx_reads := bx_reads s2 + 1\<rparr>"
    from 1 have d: "whole (frames_of b)" "good m ?s3" "blobs_of ?s3 = blobs_of s" "staged_of ?s3 = (staged_of s)(i \<mapsto> ?c)"
      "staged_as (be_sha E) (be_blobs E) (bx_disk ?s3) u' i ?c" "up_algorithm u' = up_algorithm u"
      using \<open>blobs_of s1 = blobs_of s\<close> \<open>staged_of s1 = _\<close> by simp_all
    then have st: "hasher_state (be_sha E) u' = Inr (hasher_serialize (be_sha E) (hashed (be_sha E) (up_algorithm u) ?c))"
      and n: "up_offset u' = word_of_nat (length ?c)"
      by (auto simp: staged_as_def hasher_state_def staged_def and_then_def)
    have op: "open_session m ?s3 name i pre" using resumed_open [OF r] d(4) r
      unfolding resumable_at_def by auto
    note saved = good_saved [OF r alg d(2,5,6) refl]
    show ?case
      unfolding wp_bind [of "now E"] wp_now wp_bind [of "of_result _"] wp_of_result st map_err_def sum.case Let_def
        wp_bind [of "offload _"] wp_return n
    proof (rule wp_weaken [OF wp_save [OF d(2)]], goal_cases)
      case (2 e s4)
      then have "good m s4" "bx_disk s4 = bx_disk ?s3" "may_fail" by auto
      then show ?case using op by (intro harmless_kept [OF g _ o]) simp_all
    next
      case (1 _ s4)
      then obtain v where v: "s4 = ?s3\<lparr>bx_meta := v\<rparr>" "holds (m(upload_key key \<mapsto> stored_as (lb_upload lib)
         (x\<lparr>us_offset := word_of_nat (length ?c), us_updated_at := secs (from_millis (be_clock E (bx_reads s2))),
            us_hasher_state := Some (hasher_serialize (be_sha E) (hashed (be_sha E) (up_algorithm u) ?c))\<rparr>)) ) v" by blast
      have "appended name i pre (arrived (frames_of b)) s s4"
        using saved [OF v(2)] d(3,4) unfolding appended_def v(1) by auto
      then show ?case using o off d(1) by auto
    qed
  qed
qed

section \<open>Finishing\<close>

text \<open>A session that is finished stores what was sent, under its digest; one that is not finished is as it was, but for faults.\<close>

definition unfinished :: "store \<Rightarrow> string \<Rightarrow> string \<Rightarrow> u64 \<Rightarrow> 'b upload_body \<Rightarrow> digest \<Rightarrow> ('s, 'c) backend_state \<Rightarrow> ('s, 'c) backend_state \<Rightarrow> bool" where
  "unfinished m name i off b d s s' \<longleftrightarrow> alive s' \<and> (\<forall>pre. open_session m s name i pre \<longrightarrow> faulty \<or> may_fail \<or>
     good m s' \<and> open_session m s' name i pre \<and>
     (off \<noteq> word_of_nat (length pre) \<or> declined faulty b (frames_of b) pre
        \<or> content_digest (be_sha E) (algorithm_of d) (pre @ arrived (frames_of b)) \<noteq> d))"

lemma unfinished_kept:
  assumes "good m s" "good m s'" "open_session m s name i pre" "open_session m s' name i pre"
    and "faulty \<or> may_fail \<or> off \<noteq> word_of_nat (length pre) \<or> declined faulty b (frames_of b) pre
        \<or> content_digest (be_sha E) (algorithm_of d) (pre @ arrived (frames_of b)) \<noteq> d"
  shows "unfinished m name i off b d s s'"
  unfolding unfinished_def using open_unique [OF assms(1,3)] assms(2,4,5) by blast

lemma unfinished_fault: "alive s' \<Longrightarrow> faulty \<or> may_fail \<Longrightarrow> unfinished m name i off b d s s'"
  by (auto simp: unfinished_def)

lemma wp_finish:
  assumes name: "is_str name" and g: "good m s"
  shows "wp (be_finish_upload E name i off b d)
    (\<lambda>_ s'. whole (frames_of b) \<and> (\<exists>pre key. open_session m s name i pre \<and> off = word_of_nat (length pre) \<and> parse_upload_id i = Inr key
       \<and> stored_blob name d (pre @ arrived (frames_of b)) [Delete (upload_key key)] m s'))
    (\<lambda>_. unfinished m name i off b d s) s"
  unfolding be_finish_upload_def
proof (rule wp_resumed [OF g], goal_cases)
  case (2 e s')
  then show ?case by (auto simp: harmless_def unfinished_def)
next
  case (1 key x pre u s1)
  note r = 1(1) and o = 1(3) and off = 1(4)
  let ?c = "pre @ arrived (frames_of b)"
  have g1: "good m s1" and u: "staged_as (be_sha E) (be_blobs E) (bx_disk s1) u i pre" and key: "parse_upload_id i = Inr key"
    and id: "id_of m name = Some (us_repo x)" using r unfolding resumed_def by blast+
  show ?case
    unfolding on_disk_def [of "store_rehash_upload _ _ _ _"] wp_bind [of "disk_call _ _"] wp_disk_call
  proof (rule wp_weaken [OF wp_rehash_upload [OF goodD(2) [OF g1] hash u]], goal_cases)
    case (2 e k)
    then show ?case using good_unchanged [OF g1] unfinished_fault by blast
  next
    case (1 u1 k)
    let ?s = "s1\<lparr>bx_disk := k\<rparr>"
    from 1 have a1: "up_algorithm u1 = algorithm_of d" and un: "unchanged faulty (be_blobs E) (bx_disk s1) k" by simp_all
    have r1: "resumed m name i key x pre u1 ?s" using r 1 good_unchanged [OF g1 un] unfolding resumed_def by auto
    show ?case
      unfolding wp_bind [of "drained E _ b"]
    proof (rule wp_weaken [OF wp_drained_session [OF r1]], goal_cases)
      case (2 e s2)
      then show ?case by (blast intro: unfinished_kept [OF g _ o])
    next
      case (1 u2 s2)
      then have d: "whole (frames_of b)" "good m s2" "staged_of s2 = (staged_of ?s)(i \<mapsto> ?c)"
        "staged_as (be_sha E) (be_blobs E) (bx_disk s2) u2 i ?c" "up_algorithm u2 = algorithm_of d" using a1 by simp_all
      have op: "open_session m s2 name i pre" using resumed_open [OF r1] d(3) unfolding resumable_at_def by auto
      show ?case
        unfolding wp_bind [of "on_disk _"]
      proof (rule wp_weaken [OF wp_commit_staged [OF d(2,4,5)]], goal_cases)
        case (2 e s3)
        then have "good m s3" and "faulty \<or> content_digest (be_sha E) (algorithm_of d) ?c \<noteq> d \<and> open_session m s3 name i pre"
          using op by auto
        then show ?case by (blast intro: unfinished_kept [OF g _ o] unfinished_fault)
      next
        case (1 n s3)
        let ?s4 = "s3\<lparr>bx_reads := bx_reads s3 + 1\<rparr>"
        from 1 have f: "good m ?s4" "n = word_of_nat (length ?c)" "content_digest (be_sha E) (algorithm_of d) ?c = d" "blobs_of ?s4 d = Some ?c"
          by (auto simp: moved_def)
        have W: "wp (meta_call f (commit_session (be_ops E) name key d n t))
            (\<lambda>_ s'. stored_blob name d ?c [Delete (upload_key key)] m s') (\<lambda>_ s'. may_fail \<and> alive s') ?s4" for f t
          apply (rule wp_weaken [OF wp_commit [OF commits_commit_session [OF name] _ f(1) _ f(3,2)]])
          subgoal by blast
          subgoal using f(4) by simp
          subgoal using f unfolding stored_blob_def by auto
          subgoal using id unfolding ids_exhausted_def by auto
          done
        show ?case
          unfolding wp_bind [of "now E"] wp_now offload_def
          by (rule wp_weaken [OF W]) (use o off key d(1) in \<open>blast intro: unfinished_fault\<close>)+
      qed
    qed
  qed
qed

section \<open>Opening and giving up\<close>

lemma keeping_append: "keeping alive (be_append_upload E name i off b)"
  unfolding keeping_def
  by (intro allI impI, elim exE, rule wp_weaken [OF wp_append]) (auto simp: appended_def harmless_def)

lemma keeping_finish:
  assumes "is_str name"
  shows "keeping alive (be_finish_upload E name i off b d)"
  unfolding keeping_def
  by (intro allI impI, elim exE, rule wp_weaken [OF wp_finish [OF assms]]) (auto simp: stored_blob_def unfinished_def)

lemma seen_offset: "keeping (seen m s0) (be_upload_offset E name i)"
  unfolding be_upload_offset_def session_in_def calls
  by (intro keeping_intros seen_refines [OF refines_get_upload_in])

lemmas keeping_offset = keeping_seen [OF seen_offset]

lemma keeping_cancel_upload: "keeping alive (be_cancel_upload E name i)"
proof -
  have "thins holds (delete_upload (be_ops E) key)" for key
    by (rule thins_commits [OF commits_delete_upload]) (auto simp: thinner_def fun_upd_def split: if_splits)
  moreover have "keeping alive (on_disk (store_cancel_upload (be_blobs E) stage))" if "upload_id i = Inr stage" for stage
  proof -
    have "new_upload_id i = Inr stage" using that by (simp add: upload_id_def map_err_def split: sum.splits)
    with new_upload_id_plain(1) [OF this] show ?thesis by (intro keeping_cancel) simp
  qed
  moreover have "keeping alive (bind_a (of_result (upload_id i)) (\<lambda>stage. on_disk (store_cancel_upload (be_blobs E) stage)))"
    using calculation(2) by (cases "upload_id i") (auto simp: keeping_def wp_bind wp_of_result wp_fail wp_return)
  ultimately show ?thesis
    unfolding be_cancel_upload_def session_in_def offload_def inline_def
    apply (intro keeping_bind [OF keeping_of_result] keeping_bind [OF keeping_bind [OF keeping_refines [OF refines_get_upload_in] keeping_of_result]])
    apply (rule keeping_bind [OF keeping_thins])
     apply blast
    apply blast
    done
qed

lemma wp_create:
  assumes name: "is_str name" and g: "good m s" and canon: "\<And>u. parse_upload_id i = Inr u \<Longrightarrow> i = format_upload_id u"
  shows "wp (be_create_upload E name i algo)
    (\<lambda>_ s'. blobs_of s' = blobs_of s \<and> (\<exists>m'. good m' s' \<and> open_session m' s' name i []))
    (\<lambda>_ s'. alive s' \<and> (faulty \<or> may_fail \<or> ids_exhausted m name \<or> staged_of s i \<noteq> None \<or> new_upload_id i \<noteq> Inr i
       \<or> (\<nexists>key. parse_upload_id i = Inr key) \<or> (\<nexists>a. algorithm_from_name algo = Inr a))) s"
proof (cases "parse_upload_id i")
  case (Inl e)
  with g show ?thesis unfolding be_create_upload_def session_key_def wp_bind wp_of_result Inl map_err_def sum.case by auto
next
  case (Inr key)
  note key = this
  show ?thesis
  proof (cases "algorithm_from_name algo")
    case (Inl e)
    with g show ?thesis
      unfolding be_create_upload_def session_key_def wp_bind wp_of_result key Inl map_err_def sum.case by auto
  next
    case (Inr a)
    note a = this
    show ?thesis
    proof (cases "new_upload_id i")
      case (Inl e)
      with g show ?thesis
        unfolding be_create_upload_def session_key_def upload_id_def wp_bind wp_of_result key a Inl map_err_def sum.case by auto
    next
      case (Inr j)
      note j = new_upload_id_plain(1) [OF Inr] and i = Inr [unfolded new_upload_id_plain(1) [OF Inr]]
      show ?thesis
        unfolding be_create_upload_def session_key_def upload_id_def wp_bind [of "of_result _"] wp_of_result key a i map_err_def sum.case
          on_disk_def wp_bind [of "disk_call _ _"] wp_disk_call
      proof (rule wp_weaken [OF wp_create_upload [OF goodD(2) [OF g] i hash]], goal_cases)
        case (2 e k)
        with good_unchanged [OF g] show ?case by blast
      next
        case (1 u k)
        let ?s = "s\<lparr>bx_disk := k, bx_reads := bx_reads (s\<lparr>bx_disk := k\<rparr>) + 1\<rparr>"
        from 1 have k: "staged_of s i = None" "store_env faulty (be_blobs E) k" "blobs_of ?s = blobs_of s" "staged_of ?s = (staged_of s)(i \<mapsto> [])"
          by simp_all
        have "good m (s\<lparr>bx_disk := k\<rparr>)"
          by (rule good_disk [OF g k(2)]) (use k(3,4) stocked_stage [OF goodD(3) [OF g] k(1) canon] in simp)
        then have g1: "good m ?s" by simp
        show ?case
          unfolding wp_bind [of "now E"] wp_now offload_def wp_meta_call wp_bind [of "create_upload _ _ _ _ _"] wp_return
        proof (rule wp_weaken [OF commits_create_upload [OF name, unfolded commits_in_def, rule_format, OF goodD(1) [OF g1] TrueI]], goal_cases)
          case (2 e v)
          then obtain m1 where "holds m1 v" "m1 = m \<or> (\<exists>r. interned m name r m1)" and why: "may_fail \<or> ids_exhausted m name"
            unfolding engine_error_def by blast
          then have "alive (?s\<lparr>bx_meta := v\<rparr>)" using good_same [OF g1] good_meta [OF g1 _ thinner_interned] by blast
          with why show ?case by auto
        next
          case (1 x v)
          then obtain r m1 where i1: "interned m name r m1" and x: "x = new_session r algo (from_millis (be_clock E (bx_reads (s\<lparr>bx_disk := k\<rparr>))))"
            and h: "holds (m1(upload_key key \<mapsto> stored_as (lb_upload lib) x)) v" by auto
          let ?m' = "m1(upload_key key \<mapsto> stored_as (lb_upload lib) x)"
          have fields: "us_offset x = 0" "us_repo x = r" "us_algorithm x = algo" "us_hasher_state x = None"
            by (simp_all add: x new_session_def)
          have at: "upload_at lib ?m' key = Some x" by (simp add: upload_at_def coders)
          have st: "stocked (be_sha E) lib m1 (blobs_of ?s) (staged_of ?s)"
            by (rule stocked_thinner [OF goodD(3) [OF g1] thinner_interned [OF i1]])
          have "session_matches (be_sha E) x (staged_of ?s (format_upload_id key))"
            using fields canon [OF key] k(4) unfolding session_matches_def by (intro exI [of _ "[]"]) auto
          then have "stocked (be_sha E) lib ?m' (blobs_of ?s) (staged_of ?s)"
            by (intro stocked_session [OF st at]) (auto simp: key_defs)
          then have "good ?m' (?s\<lparr>bx_meta := v\<rparr>)" using g1 h by (simp add: sound_def)
          moreover have "id_of ?m' name = Some r" using interned_id [OF i1] by (simp add: id_of_def key_defs)
          then have "open_session ?m' (?s\<lparr>bx_meta := v\<rparr>) name i []"
            unfolding resumable_at_def using key i at fields a k(4) by auto
          ultimately show ?case using k(3) by auto
        qed
      qed
    qed
  qed
qed

end

end
