(* ===== verification/Summ_Reclaim.thy ===== *)
theory Summ_Reclaim
  imports Summ_Chunked
begin

text \<open>
  Purge and the bytes. A stage of a pass scans pages, decides, and then writes; it may fail anywhere, and its cursors may be of any page. What
  is shown needs no more of a page than that its keys are under the prefix that was asked for. A pass keeps the agreement of metadata and bytes,
  and a dry run writes nothing.
\<close>

section \<open>Batches\<close>

text \<open>A batch that touches marks and memberships only, with values that decode.\<close>

definition tame :: "libs \<Rightarrow> write_batch \<Rightarrow> bool" where
  "tame lib b \<longleftrightarrow> ranged {0x43, 0x50} b \<and> (\<forall>k v. Put k v \<in> set b \<longrightarrow> good_entry lib k v)"

lemma tame_new: "tame lib batch_new"
  by (simp add: tame_def batch_new_def)

section \<open>Reads with a result\<close>

definition looks :: "('s \<Rightarrow> bool) \<Rightarrow> ('s, 'e, 'a) action \<Rightarrow> ('a \<Rightarrow> bool) \<Rightarrow> bool" where
  "looks I p Q \<longleftrightarrow> (\<forall>s. I s \<longrightarrow> wp p (\<lambda>a s'. I s' \<and> Q a) (\<lambda>_. I) s)"

lemma looks_keeping: "looks I p Q \<Longrightarrow> keeping I p"
  unfolding looks_def keeping_def by (auto elim!: wp_weaken)

lemma keeping_looks: "keeping I p \<Longrightarrow> looks I p (\<lambda>_. True)"
  by (simp add: looks_def keeping_def)

lemma looks_weaken: "looks I p Q \<Longrightarrow> (\<And>a. Q a \<Longrightarrow> R a) \<Longrightarrow> looks I p R"
  unfolding looks_def by (auto elim!: wp_weaken)

lemma looks_return: "Q a \<Longrightarrow> looks I (return_a a) Q"
  by (simp add: looks_def wp_return)

lemma looks_lift: "(\<And>a. r = Inr a \<Longrightarrow> Q a) \<Longrightarrow> looks I (lift_a r) Q"
  by (auto simp: looks_def wp_lift split: sum.split)

lemma looks_bind: "looks I p Q \<Longrightarrow> (\<And>a. Q a \<Longrightarrow> looks I (k a) R) \<Longrightarrow> looks I (bind_a p k) R"
  unfolding looks_def wp_bind by (auto elim!: wp_weaken)

lemma looks_if: "(b \<Longrightarrow> looks I x Q) \<Longrightarrow> (\<not> b \<Longrightarrow> looks I y Q) \<Longrightarrow> looks I (if b then x else y) Q"
  by simp

lemma looks_option:
  "(v = None \<Longrightarrow> looks I x Q) \<Longrightarrow> (\<And>a. v = Some a \<Longrightarrow> looks I (y a) Q) \<Longrightarrow> looks I (case v of None \<Rightarrow> x | Some a \<Rightarrow> y a) Q"
  by (cases v) auto

lemma looks_for:
  assumes "Q acc" and "\<And>x acc. x \<in> set xs \<Longrightarrow> Q acc \<Longrightarrow> looks I (body x acc) Q"
  shows "looks I (for_a xs acc body) Q"
  using assms by (induction xs arbitrary: acc) (auto intro!: looks_return looks_bind)

lemma keeping_for_in:
  assumes "\<And>x acc. x \<in> set xs \<Longrightarrow> keeping I (body x acc)"
  shows "keeping I (for_a xs acc body)"
  using assms by (induction xs arbitrary: acc) (auto intro: keeping_return keeping_bind)

lemma keeping_pair_arg [keeping_intros]:
  "(\<And>a b. v = (a, b) \<Longrightarrow> keeping I (k a b c)) \<Longrightarrow> keeping I ((case v of (a, b) \<Rightarrow> k a b) c)"
  by (cases v) auto

lemma thins_keeping: "(\<And>m. keeping (at m) p) \<Longrightarrow> thins at p"
proof (rule thinsI)
  fix m t assume k: "\<And>m. keeping (at m) p" and "at m t"
  from keepingD [OF k this(2)] show "wp p (\<lambda>_ t'. \<exists>m'. at m' t' \<and> thinner m m') (\<lambda>_ t'. \<exists>m'. at m' t' \<and> thinner m m') t"
    by (rule wp_weaken) (use thinner_refl in blast)+
qed

lemma keeping_unless_gone: "keeping I p \<Longrightarrow> keeping I (unless_gone p)"
  unfolding keeping_def unless_gone_def wp_def by (auto split: prod.splits sum.splits registry_error.splits)

lemma thins_unless_gone: "thins at p \<Longrightarrow> thins at (unless_gone p)"
  unfolding thins_def by (blast intro: keeping_unless_gone)

section \<open>Pages\<close>

text \<open>Both engines stop at the first key outside the prefix, wherever they start.\<close>

definition confined :: "'s meta_engine \<Rightarrow> bool" where
  "confined E \<longleftrightarrow> (\<forall>p a n s pg e. e_scan E p a n s = Inr pg \<longrightarrow> e \<in> set (pg_entries pg) \<longrightarrow> prefix p (fst e))"

lemma redb_walk_confined:
  assumes "redb_walk_loop p n v taken es xs = Inr (out, left)" and "\<forall>e \<in> set es. prefix p (fst e)"
  shows "\<forall>e \<in> set out. prefix p (fst e)"
  using assms by (induction p n v taken es xs rule: redb_walk_loop.induct) (fastforce simp: and_then_Inr split: if_splits)+

lemma redb_confined: "confined (redb_engine db)"
proof -
  have "prefix p (fst e)" if run: "redb_scan db p a n s = Inr pg" and e: "e \<in> set (pg_entries pg)" for p a n s pg e
  proof -
    obtain out left where w: "redb_walk db p a n True s = Inr (out, left)" and pg: "pg_entries pg = out"
      using run e by (auto simp: redb_scan_def and_then_Inr split: if_splits)
    from w obtain xs where "redb_walk_loop p n True 0 [] xs = Inr (out, left)" by (auto simp: redb_walk_def and_then_Inr Let_def)
    from redb_walk_confined [OF this] e pg show ?thesis by simp
  qed
  then show ?thesis by (auto simp: confined_def redb_engine_def)
qed

lemma rocks_walk_confined:
  assumes "rocks_walk_loop p a n v taken es xs st = Inr (out, left)" and "\<forall>e \<in> set es. prefix p (fst e)"
  shows "\<forall>e \<in> set out. prefix p (fst e)"
  using assms by (induction p a n v taken es xs st rule: rocks_walk_loop.induct) (fastforce simp: and_then_Inr split: if_splits)+

lemma rocks_confined: "confined (rocks_engine db)"
proof -
  have "prefix p (fst e)" if run: "rocks_scan db p a n s = Inr pg" and e: "e \<in> set (pg_entries pg)" for p a n s pg e
  proof -
    obtain out left where w: "rocks_walk db p a n True s = Inr (out, left)" and pg: "pg_entries pg = out"
      using run e by (auto simp: rocks_scan_def and_then_Inr split: if_splits)
    from w obtain xs st where "rocks_walk_loop p a n True 0 [] xs st = Inr (out, left)" by (auto simp: rocks_walk_def split: prod.splits)
    from rocks_walk_confined [OF this] e pg show ?thesis by simp
  qed
  then show ?thesis by (auto simp: confined_def rocks_engine_def)
qed

section \<open>The reads of a pass\<close>

context registry_env
begin

lemma keeping_engine [keeping_intros]:
  "keeping (holds m) (rg_scan G p a n)" "keeping (holds m) (rg_scan_keys G p a n)" "keeping (holds m) (rg_exists G p)"
  "keeping (holds m) (rg_get G k)"
  by (auto simp: keeping_def rg_scan_def rg_scan_keys_def rg_exists_def rg_get_def meta_a_def eng_scan_def eng_scan_keys_def
      eng_exists_def eng_get_def wp_simps wp_def)

lemma keeping_refined: "refines holds may_fail p F \<Longrightarrow> keeping (holds m) p"
  unfolding keeping_def refines_def by (auto elim!: wp_weaken)

lemmas keeping_known = keeping_intros keeping_refined [OF refines_purgeable] keeping_refined [OF refines_mark]
  keeping_refined [OF refines_repo_is_empty] keeping_refined [OF refines_require_repo]

lemma keeping_purgeable: "keeping (holds m) (purgeable_manifests G repo cursor limit before)"
  unfolding purgeable_manifests_def by (intro keeping_known)

lemma keeping_list_repos: "keeping (holds m) (list_repos G from_name limit)"
  unfolding list_repos_def search_repos_def by (intro keeping_known)

lemma keeping_expired: "keeping (holds m) (expired_uploads G before limit)"
  unfolding expired_uploads_def by (intro keeping_known)

lemma keeping_live: "keeping (holds m) (live_upload_repos G limit)"
  by (rule keeping_refined [OF refines_live_uploads])

lemma keeping_empty: "keeping (holds m) (empty_repos G from_name limit live before)"
  unfolding empty_repos_def by (intro keeping_known)

lemma keeping_next_id: "keeping (holds m) (next_repo_id G)"
  by (auto simp: next_repo_id_def next_id_def meta_a_def keeping_def wp_simps wp_def run_simps eng_get_def split: sum.splits option.splits)

section \<open>The writes of a pass\<close>

lemma thins_tame:
  assumes "tame (rg_libs G) b"
  shows "thins holds (rg_apply G b)"
proof (rule thinsI)
  fix m t assume h: "holds m t"
  have r: "ranged {0x43, 0x50} b" and g: "\<And>k v. Put k v \<in> set b \<Longrightarrow> good_entry (rg_libs G) k v" using assms by (auto simp: tame_def)
  have "thinner m (apply_ops b m)" by (rule thinner_ranged [OF r]) auto
  then show "wp (rg_apply G b) (\<lambda>_ t'. \<exists>m'. holds m' t' \<and> thinner m m') (\<lambda>_ t'. \<exists>m'. holds m' t' \<and> thinner m m') t"
    using batch_ok [OF holdsD(4) [OF h] r _ g] thinner_refl by (intro wp_rg_apply [OF h]) auto
qed

lemma thins_looks:
  assumes "\<And>m. looks (holds m) p Q" and "\<And>a. Q a \<Longrightarrow> thins holds (k a)"
  shows "thins holds (bind_a p k)"
proof (rule thinsI)
  fix m t assume h: "holds m t"
  have "wp p (\<lambda>a s'. holds m s' \<and> Q a) (\<lambda>_. holds m) t" using assms(1) h unfolding looks_def by blast
  then show "wp (bind_a p k) (\<lambda>_ t'. \<exists>m'. holds m' t' \<and> thinner m m') (\<lambda>_ t'. \<exists>m'. holds m' t' \<and> thinner m m') t"
    unfolding wp_bind by (rule wp_weaken) (use thinsD [OF assms(2)] thinner_refl in blast)+
qed

lemma looks_step:
  assumes "tame (rg_libs G) (snd acc)"
  shows "looks (holds m) (scan_blob_step G before t e acc) (\<lambda>acc. tame (rg_libs G) (snd acc))"
proof -
  obtain k v scan b where *: "e = (k, v)" "acc = (scan, b)" by (metis surj_pair)
  then have b: "tame (rg_libs G) b" using assms by simp
  have del: "tame (rg_libs G) (batch_delete (blob_mark_key d) b)" for d
    using b by (auto simp: tame_def batch_delete_def key_defs)
  have put: "tame (rg_libs G) (batch_put (blob_mark_key d) w b)" if "encode (lb_mark (rg_libs G)) mk = Inr w" for d w mk
  proof -
    have "ranged {0x43, 0x50} [Put (blob_mark_key d) w]" by (simp add: key_defs)
    moreover have "good_entry (rg_libs G) (blob_mark_key d) w" using that by (auto simp: coders)
    ultimately show ?thesis using b by (auto simp: tame_def batch_put_def)
  qed
  show ?thesis
    unfolding scan_blob_step_def * prod.case
    by (intro looks_bind [OF looks_lift [OF TrueI]] looks_bind [OF keeping_looks [OF keeping_refined [OF refines_mark]]]
        looks_bind [OF keeping_looks [OF keeping_engine(3)]] looks_if looks_option looks_return looks_bind [OF looks_lift])
      (use b del put in auto)
qed

lemma scan_blobs_looks:
  "looks (holds m) (bind_a (rg_scan G blobs cursor limit) (\<lambda>page.
     for_a (pg_entries page) (scan page, batch_new) (scan_blob_step G before t))) (\<lambda>acc. tame (rg_libs G) (snd acc))"
  by (intro looks_bind [OF keeping_looks [OF keeping_engine(1)]] looks_for looks_step) (simp_all add: tame_new)

lemma thins_apply_if: "tame (rg_libs G) b \<Longrightarrow> thins holds (if c then rg_apply G b else return_a ())"
  by (simp add: thins_tame thins_refines [OF refines_return])

lemma thins_scan_blobs: "thins holds (scan_blobs G cursor limit before t report_only)"
proof -
  have "thins holds (bind_a (for_a xs (scan, batch_new) (scan_blob_step G before t)) (\<lambda>(scan, batch).
      bind_a (if \<not> report_only \<and> \<not> batch_is_empty batch then rg_apply G batch else return_a ()) (\<lambda>_. return_a scan)))" for xs scan
    by (rule thins_looks [OF looks_for [where Q = "\<lambda>acc. tame (rg_libs G) (snd acc)"]])
      (auto simp: tame_new intro: looks_step intro!: thins_bind thins_apply_if thins_refines [OF refines_return])
  then show ?thesis
    unfolding scan_blobs_def Let_def by (rule thins_bind [OF thins_keeping [OF keeping_engine(1)]])
qed

lemma keeping_scan_blobs: "keeping (holds m) (scan_blobs G cursor limit before t True)"
proof -
  have "keeping (holds m) (scan_blob_step G before t e acc)" for e acc
    unfolding scan_blob_step_def by (intro keeping_known)
  then show ?thesis unfolding scan_blobs_def Let_def by (intro keeping_known) simp_all
qed

lemma thins_sweep:
  assumes "confined (rg_engine G)"
  shows "thins holds (sweep_repo_blobs G cursor limit before report_only)"
proof -
  have page: "looks (holds m) (rg_scan G repo_blobs cursor limit) (\<lambda>page. \<forall>e \<in> set (pg_entries page). prefix repo_blobs (fst e))" for m
    unfolding looks_def rg_scan_def meta_a_def eng_scan_def wp_simps wp_def using assms [unfolded confined_def] by (auto split: sum.split) (metis fst_conv)
  show ?thesis
    unfolding sweep_repo_blobs_def
  proof (rule thins_looks [OF page], rule thins_looks [OF looks_for [where Q = "\<lambda>acc. tame (rg_libs G) (fst acc)"]], goal_cases)
    case (2 m pg e acc)
    obtain k v b n where *: "e = (k, v)" "acc = (b, n)" by (metis surj_pair)
    with 2 have b: "tame (rg_libs G) b" and k: "prefix repo_blobs k" by auto
    have "tame (rg_libs G) (batch_delete (blob_mark_key d) (batch_delete k b))" for d
      using b k by (auto simp: tame_def batch_delete_def key_defs prefix_def)
    then show ?case
      unfolding * prod.case
      by (intro looks_bind [OF looks_lift [OF TrueI]] looks_bind [OF keeping_looks [OF keeping_engine(3)]] looks_if looks_return)
        (use b in simp_all)
  next
    case (3 pg acc)
    then show ?case by (cases acc) (auto intro!: thins_bind thins_tame thins_refines [OF refines_return])
  qed (simp add: tame_new)
qed

lemma keeping_sweep: "keeping (holds m) (sweep_repo_blobs G cursor limit before True)"
  unfolding sweep_repo_blobs_def by (intro keeping_known) simp_all

lemma thins_purge_manifest: "thins holds (purge_manifest G repo d before t)"
  by (rule thins_commits [OF commits_purge_manifest])
    (auto simp: and_then_Inr intro!: thinner_ranged [OF manifest_delete_ranged] split: option.splits if_splits)

lemma thins_retire: "thins holds (retire_repo G n live watermark)"
  by (rule thins_commits [OF commits_retire_repo])
    (auto intro!: thinner_data simp: drop_name_def data_keys split: option.splits if_splits)

lemma thins_delete_upload: "thins holds (delete_upload G u)"
  by (rule thins_commits [OF commits_delete_upload]) (auto simp: thinner_def fun_upd_def split: if_splits)

end

section \<open>The pass\<close>

locale purging_env = backend_env E tbl inv may_fail names ids faulty
  for E :: "('s, 'c, 'h, 'b) backend" and tbl inv may_fail names ids faulty +
  assumes pages_confined: "confined (rg_engine (be_ops E))"
begin

lemma keeping_optional: "thins holds p \<Longrightarrow> keeping alive (optional p)"
  unfolding optional_def blocking_def by (intro keeping_thins thins_unless_gone)

lemma keeping_blocking: "thins holds p \<Longrightarrow> keeping alive (blocking p)"
  unfolding blocking_def by (rule keeping_thins)

lemma keeping_blocking_read: "(\<And>m. keeping (holds m) p) \<Longrightarrow> keeping alive (blocking p)"
  by (intro keeping_blocking thins_keeping)

lemma keeping_untagged: "keeping alive (purge_untagged E t dry_run report)"
proof -
  have "keeping alive (untagged_page E repo cutoff t dry_run cursor report)" for repo cutoff cursor report
    unfolding untagged_page_def
    by (intro keeping_intros keeping_optional [OF thins_keeping [OF keeping_purgeable]] keeping_optional [OF thins_purge_manifest])
  then show ?thesis
    unfolding purge_untagged_def purge_untagged_in_def Let_def
    by (intro keeping_walked keeping_intros keeping_blocking_read keeping_list_repos)
qed

lemma keeping_memberships: "keeping alive (purge_memberships E t dry_run report)"
  unfolding purge_memberships_def Let_def
  by (intro keeping_walked keeping_intros keeping_blocking thins_sweep pages_confined)

text \<open>The bytes of a blob go once its record is gone.\<close>

lemma good_reclaimed:
  assumes g: "good m s" and none: "blob_at lib m d = None"
    and k: "store_env faulty (be_blobs E) k" "held (be_blobs E) k = (blobs_of s)(d := None)" "staging (be_blobs E) k = staged_of s"
  shows "good m (s\<lparr>bx_disk := k\<rparr>)"
proof (rule good_disk [OF g k(1)])
  have "stocked (be_sha E) lib m ((blobs_of s)(d := None)) (staged_of s)"
    using goodD(3) [OF g] none unfolding stocked_def by (auto simp: fun_upd_def split: if_splits)
  then show "stocked (be_sha E) lib m (held (be_blobs E) k) (staging (be_blobs E) k)" by (simp add: k(2,3))
qed

lemma keeping_reclaim: "keeping alive (reclaim_blob E cutoff dry_run candidate report)"
proof -
  obtain d n where cand: "candidate = (d, n)" by (metis surj_pair)
  have remove: "keeping (\<lambda>s. \<exists>m. good m s \<and> blob_at lib m d = None) (disk_call f (store_delete_blob (be_blobs E) d))"
    for f :: "summ_error \<Rightarrow> string halt"
    unfolding keeping_def wp_disk_call
  proof (intro allI impI, elim exE conjE)
    fix s m assume g: "good m s" and none: "blob_at lib m d = None"
    show "wp (store_delete_blob (be_blobs E) d) (\<lambda>_ k. \<exists>m. good m (s\<lparr>bx_disk := k\<rparr>) \<and> blob_at lib m d = None)
        (\<lambda>_ k. \<exists>m. good m (s\<lparr>bx_disk := k\<rparr>) \<and> blob_at lib m d = None) (bx_disk s)"
      by (rule wp_weaken [OF wp_delete_blob [OF goodD(2) [OF g]]])
        (use good_reclaimed [OF g none] good_unchanged [OF g] none in blast)+
  qed
  have collect: "wp (blocking (collect_blob (be_ops E) d cutoff))
      (\<lambda>found s'. \<exists>m. good m s' \<and> (found \<noteq> None \<longrightarrow> blob_at lib m d = None)) (\<lambda>_. alive) s" if g: "good m s" for m s
    unfolding blocking_def wp_meta_call
  proof (rule commits_wp [OF commits_collect_blob goodD(1) [OF g]], goal_cases)
    case (1 found m' t)
    then have "m' = m \<and> found = None \<or> m' = m(blob_key d := None, blob_mark_key d := None)" by (auto split: option.splits if_splits)
    moreover have "thinner m (m(blob_key d := None, blob_mark_key d := None))"
      using thinner_trans [of m "m(blob_key d := None)"] by (auto simp: thinner_def fun_upd_def data_keys)
    moreover have "blob_at lib (m(blob_key d := None, blob_mark_key d := None)) d = None" by (simp add: blob_at_def data_keys)
    ultimately show ?case using good_meta [OF g 1(2)] good_same [OF g] 1(2) by fastforce
  next
    case (2 e t)
    then show ?case using good_same [OF g] by blast
  qed
  show ?thesis
    unfolding keeping_def
  proof (intro allI impI, elim exE)
    fix s m assume g: "good m s"
    show "wp (reclaim_blob E cutoff dry_run candidate report) (\<lambda>_. alive) (\<lambda>_. alive) s"
    proof (cases dry_run)
      case True
      with g show ?thesis by (auto simp: reclaim_blob_def wp_return)
    next
      case False
      show ?thesis
        unfolding reclaim_blob_def cand fst_conv snd_conv if_not_P [OF False] wp_bind [of "blocking _"]
      proof (rule wp_weaken [OF collect [OF g]], goal_cases)
        case (1 found s')
        then obtain m' where m': "good m' s'" "found \<noteq> None \<longrightarrow> blob_at lib m' d = None" by blast
        show ?case
        proof (cases found)
          case None
          with m' show ?thesis by (auto simp: wp_return)
        next
          case (Some x)
          with m' have "wp (disk_call (\<lambda>e. Fails (summ_text e)) (store_delete_blob (be_blobs E) d))
              (\<lambda>_ s. \<exists>m. good m s \<and> blob_at lib m d = None) (\<lambda>_ s. \<exists>m. good m s \<and> blob_at lib m d = None) s'"
            by (intro keepingD [OF remove]) auto
          then show ?thesis unfolding Some option.case wp_bind wp_return by (rule wp_weaken) blast+
        qed
      qed
    qed
  qed
qed

lemma keeping_blobs: "keeping alive (purge_blobs E t dry_run report)"
  unfolding purge_blobs_def Let_def
  by (intro keeping_walked keeping_intros keeping_blocking thins_scan_blobs keeping_reclaim)

lemma keeping_uploads: "keeping alive (purge_uploads E t dry_run report)"
proof -
  have "keeping alive (\<lambda>s. (Inr r :: string halt + purge_report, case upload_id (format_upload_id u) of
      Inr i \<Rightarrow> snd (on_disk (store_cancel_upload (be_blobs E) i) s) | Inl _ \<Rightarrow> s))" for u and r :: purge_report
  proof (rule keeping_run)
    fix s assume a: "alive s"
    show "alive (snd (Inr r :: string halt + purge_report, case upload_id (format_upload_id u) of
        Inr i \<Rightarrow> snd (on_disk (store_cancel_upload (be_blobs E) i) s) | Inl _ \<Rightarrow> s))"
    proof (cases "new_upload_id (format_upload_id u)")
      case (Inl e)
      with a show ?thesis by (simp add: upload_id_def map_err_def)
    next
      case (Inr i)
      with keeping_after [OF keeping_cancel a, of i] new_upload_id_plain(1) [OF Inr] show ?thesis
        by (simp add: upload_id_def map_err_def)
    qed
  qed
  then show ?thesis
    unfolding purge_uploads_def Let_def
    by (intro keeping_bind keeping_blocking_read keeping_expired keeping_for keeping_if keeping_return keeping_blocking thins_delete_upload)
qed

lemma keeping_swap: "keeping alive (swap_mark dry_run current)"
  unfolding swap_mark_def by (rule keeping_run) simp

lemma keeping_names: "keeping alive (purge_names E dry_run report)"
proof -
  have "keeping alive (purge_names_below E dry_run w report)" for w report
    unfolding purge_names_below_def live_repos_def
    by (intro keeping_walked keeping_bind keeping_for keeping_if keeping_return keeping_blocking_read keeping_live keeping_empty
        keeping_blocking thins_retire)
  then show ?thesis
    unfolding purge_names_def
    by (intro keeping_bind keeping_option keeping_return keeping_swap keeping_blocking_read keeping_next_id)
qed

lemma keeping_pass: "keeping alive (be_purge_pass E dry_run)"
proof -
  have "keeping alive (\<lambda>s. (Inr (f s) :: string halt + purge_report, s\<lparr>bx_reads := bx_reads s + 1, bx_last_pass := g s\<rparr>))" for f g
    by (rule keeping_run) simp
  then show ?thesis
    unfolding be_purge_pass_def purge_once_def reading_def Let_def
    by (intro keeping_map_err keeping_bind keeping_if keeping_return keeping_now keeping_untagged keeping_memberships keeping_blobs
        keeping_uploads keeping_names)
qed

section \<open>The dry run\<close>

text \<open>All that a dry run may change is how often the clock was read and what the caches hold.\<close>

definition still :: "store \<Rightarrow> ('s, 'c) backend_state \<Rightarrow> ('s, 'c) backend_state \<Rightarrow> bool" where
  "still m s0 s \<longleftrightarrow> good m s \<and> bx_disk s = bx_disk s0 \<and> bx_last_pass s = bx_last_pass s0 \<and> bx_purge_mark s = bx_purge_mark s0"

lemma still_blocking: "keeping (holds m) p \<Longrightarrow> keeping (still m s0) (blocking p)"
  unfolding keeping_def blocking_def wp_meta_call still_def
  by (intro allI impI, elim conjE, rule wp_weaken, erule allE, erule mp, erule goodD(1)) (auto intro: good_same)

lemma still_optional: "keeping (holds m) p \<Longrightarrow> keeping (still m s0) (optional p)"
  unfolding optional_def by (intro still_blocking keeping_unless_gone)

lemmas still_intros = keeping_walked keeping_bind keeping_for keeping_return still_blocking still_optional

lemma still_untagged: "keeping (still m s0) (purge_untagged E t True report)"
  unfolding purge_untagged_def purge_untagged_in_def untagged_page_def Let_def if_P [OF TrueI]
  by (intro still_intros keeping_option keeping_purgeable keeping_list_repos)

lemma still_memberships: "keeping (still m s0) (purge_memberships E t True report)"
  unfolding purge_memberships_def Let_def by (intro still_intros keeping_sweep)

lemma still_blobs: "keeping (still m s0) (purge_blobs E t True report)"
  unfolding purge_blobs_def reclaim_blob_def Let_def if_P [OF TrueI] by (intro still_intros keeping_scan_blobs)

lemma still_uploads: "keeping (still m s0) (purge_uploads E t True report)"
  unfolding purge_uploads_def Let_def if_P [OF TrueI] by (intro still_intros keeping_expired)

lemma still_names: "keeping (still m s0) (purge_names E True report)"
proof -
  have "keeping (still m s0) (swap_mark True current)" for current
    unfolding swap_mark_def by (rule keeping_run) simp
  then show ?thesis
    unfolding purge_names_def purge_names_below_def live_repos_def if_P [OF TrueI]
    by (intro still_intros keeping_option keeping_live keeping_empty keeping_next_id)
qed

lemma still_pass: "keeping (still m s0) (be_purge_pass E True)"
proof -
  have "keeping (still m s0) (now E)"
    by (simp add: keeping_def wp_now still_def)
  moreover have "keeping (still m s0) (\<lambda>s. (Inr (f s) :: string halt + purge_report, s\<lparr>bx_reads := bx_reads s + 1, bx_last_pass := bx_last_pass s\<rparr>))" for f
    by (rule keeping_run) (simp add: still_def)
  ultimately show ?thesis
    unfolding be_purge_pass_def purge_once_def reading_def Let_def if_P [OF TrueI]
    by (intro keeping_map_err keeping_bind keeping_if keeping_return still_untagged still_memberships still_blobs still_uploads still_names)
qed

end

end
