(* ===== verification/Summ_Observed.thy ===== *)
theory Summ_Observed
  imports Summ_Reclaim
begin

text \<open>
  The reads of the backend: listings, details, counts and history write nothing, however often they turn and wherever they stop. Then the
  two tasks beside the requests, which write the store but no record of a blob or an upload: the sweeper and the flush of counts.
\<close>

section \<open>Loops of reads\<close>

lemma count_from_keeps:
  assumes step: "\<And>c. keeping I (step c)" and run: "count_from step n cursor s = Some y" and s: "I s"
  shows "I (snd y)"
proof -
  have "st = step \<longrightarrow> I s \<longrightarrow> I (snd y)" if "count_from st n cursor s = Some y" for st n cursor s y
  proof (rule count_from.raw_induct [OF _ that])
    fix again st n cursor s y
    assume IH: "\<And>n cursor s b y. again n cursor s b = Some y \<Longrightarrow> n = step \<longrightarrow> I b \<longrightarrow> I (snd y)"
      and run: "(case st cursor s of (Inl e, s') \<Rightarrow> Some (Inl e, s')
        | (Inr (added, nxt), s') \<Rightarrow>
            (let n = n + added in
             case nxt of None \<Rightarrow> Some (Inr (exact_tally n), s')
             | Some c \<Rightarrow> if COUNT_CEILING \<le> n then Some (Inr \<lparr>tally_count = n, tally_complete = False\<rparr>, s')
                         else again st n (Some c) s')) = Some y"
    show "st = step \<longrightarrow> I s \<longrightarrow> I (snd y)"
    proof (intro impI)
      assume "st = step" "I s"
      with keepingD [OF step [of cursor] \<open>I s\<close>] run show "I (snd y)"
        by (auto simp: wp_def Let_def split: prod.splits sum.splits option.splits if_splits dest: IH)
    qed
  qed
  with run s show ?thesis by blast
qed

lemma keeping_count: "(\<And>c. keeping I (step c)) \<Longrightarrow> keeping I (count_to_ceiling step)"
  unfolding count_to_ceiling_def loop_a_def
  by (rule keeping_run) (auto split: option.split dest: count_from_keeps [rotated])

context registry_env
begin

lemma search_from_keeps:
  assumes "search_from G needle limit cursor repos examined s = Some y" and "holds m s"
  shows "holds m (snd y)"
proof -
  have "g = G \<longrightarrow> holds m s \<longrightarrow> holds m (snd y)" if "search_from g needle limit cursor repos examined s = Some y"
    for g needle limit cursor repos examined s y
  proof (rule search_from.raw_induct [OF _ that], intro impI, goal_cases)
    case (1 again g needle limit cursor repos examined s y)
    with keepingD [OF keeping_engine(2) 1(4), of repos_by_name cursor "min SEARCH_STEP (ro_search_ceiling (rg_options G) - examined)"]
    show ?case by (auto simp: wp_def Let_def split: prod.splits sum.splits option.splits if_splits)
  qed
  with assms show ?thesis by blast
qed

lemma keeping_search: "keeping (holds m) (search_repos_containing G needle a limit)"
  unfolding search_repos_containing_def search_repos_def loop_a_def
  by (intro keeping_known keeping_run) (auto split: option.split dest: search_from_keeps)

lemma keeping_usage_step: "keeping (\<lambda>x. holds m (fst x)) (usage_step G repo cursor)"
proof (rule keeping_run)
  fix x :: "('s, 'c) rstate \<times> u64" assume h: "holds m (fst x)"
  obtain s n where x: "x = (s, n)" by fastforce
  from keepingD [OF keeping_refined [OF refines_repo_usage] h, of repo cursor COUNT_STEP]
  show "holds m (fst (snd (usage_step G repo cursor x)))"
    by (auto simp: usage_step_def wp_def x split: prod.splits sum.splits)
qed

lemma keeping_count_usage: "keeping (holds m) (count_usage G repo)"
proof (rule keeping_run)
  fix s assume h: "holds m s"
  have "keeping (\<lambda>x. holds m (fst x)) (count_to_ceiling (usage_step G repo))"
    by (intro keeping_count keeping_usage_step)
  from keeping_after [OF this, of "(s, 0)"] h
  show "holds m (snd (count_usage G repo s))" by (auto simp: count_usage_def split: prod.splits)
qed

lemma keeping_count_tags: "keeping (holds m) (count_tags G repo cursor limit)"
  unfolding count_tags_def by (intro keeping_known)

lemma keeping_tallies: "keeping (holds m) (tally_tags G repo)" "keeping (holds m) (tally_manifests G repo)"
  unfolding tally_tags_def tally_manifests_def
  by (intro keeping_count keeping_known keeping_count_tags keeping_refined [OF refines_count_manifests])+

lemma keeping_info: "keeping (holds m) (manifest_info_of G repo record)"
  unfolding manifest_info_of_def Let_def by (intro keeping_known keeping_refined [OF refines_list_manifest_tags])

lemma keeping_records:
  "keeping (holds m) (get_tag G repo t)" "keeping (holds m) (get_manifest_record G repo d)"
  unfolding get_tag_def get_manifest_record_def
  by (intro keeping_known keeping_refined [OF refines_tag_record] keeping_refined [OF refines_manifest_record])+

lemma keeping_counts: "keeping (holds m) (repo_counts G repo a days)" "keeping (holds m) (tag_counts G repo t a days)"
    "keeping (holds m) (manifest_counts G repo d a days)"
  using keeping_refined [OF refines_counts, of m repo a days CountRepo] keeping_refined [OF refines_counts, of m repo a days "CountTag t"]
    keeping_refined [OF refines_counts, of m repo a days "CountManifest d"]
  by (simp_all add: repo_counts_def tag_counts_def manifest_counts_def counters_of.simps [abs_def])

end

section \<open>The reads of the trait\<close>

context backend_env
begin

lemma seen_meta: "keeping (holds m) p \<Longrightarrow> keeping (seen m s0) (meta_call f p)"
  unfolding keeping_def wp_meta_call seen_def
  by (intro allI impI, elim conjE, rule wp_weaken, erule allE, erule mp, erule goodD(1)) (auto intro: good_same)

lemma seen_offload: "(\<And>m. keeping (holds m) p) \<Longrightarrow> keeping (seen m s0) (offload p)"
  unfolding offload_def by (intro seen_meta)

lemma seen_inline: "(\<And>m. keeping (holds m) p) \<Longrightarrow> keeping (seen m s0) (inline p)"
  unfolding inline_def by (intro seen_meta)

lemma seen_repositories: "keeping (seen m s0) (be_repositories E a limit)"
  unfolding be_repositories_def by (intro keeping_bind keeping_return seen_inline keeping_list_repos)

lemma seen_referrers: "keeping (seen m s0) (be_referrers E name d wanted a limit)"
  unfolding be_referrers_def by (intro seen_offload keeping_bind keeping_return keeping_refined [OF refines_referrers])

lemma seen_summaries: "keeping (seen m s0) (be_repository_summaries E query a limit)"
  unfolding be_repository_summaries_def
  by (intro seen_offload keeping_bind keeping_for keeping_return keeping_search keeping_tallies)

lemma seen_repository_detail: "keeping (seen m s0) (be_repository_detail E name)"
  unfolding be_repository_detail_def
  by (intro seen_offload keeping_bind keeping_pair keeping_return keeping_tallies keeping_count_usage)

lemma seen_tag_details: "keeping (seen m s0) (be_tag_details E name a limit)"
  unfolding be_tag_details_def
  by (intro seen_offload keeping_bind keeping_for keeping_option keeping_return keeping_records keeping_info
      keeping_refined [OF refines_list_tags])

lemma seen_manifest_details: "keeping (seen m s0) (be_manifest_details E name a limit)"
  unfolding be_manifest_details_def
  by (intro seen_offload keeping_bind keeping_for keeping_return keeping_info keeping_refined [OF refines_list_manifests])

lemma seen_manifest_detail: "keeping (seen m s0) (be_manifest_detail E name ref)"
  unfolding be_manifest_detail_def
  by (intro seen_offload keeping_bind keeping_option keeping_fail keeping_records keeping_info)
    (auto split: reference.split intro: keeping_return keeping_lift keeping_bind keeping_records)

lemma seen_tag_history: "keeping (seen m s0) (be_tag_history E name ref before last_row limit)"
  unfolding be_tag_history_def Let_def
  by (intro seen_offload keeping_bind keeping_return)
    (auto split: reference.split intro: keeping_refined [OF refines_tag_history] keeping_refined [OF refines_manifest_tag_history])

lemma seen_pull_counts: "keeping (seen m s0) (be_pull_counts E name scope a days)"
  unfolding be_pull_counts_def
  by (intro seen_offload keeping_bind keeping_return) (auto split: pull_count_scope.split intro: keeping_counts)

lemma seen_last_purge: "keeping (seen m s0) be_last_purge"
  unfolding be_last_purge_def by (rule keeping_run) simp

lemmas keeping_repositories = keeping_seen [OF seen_repositories]
  and keeping_referrers = keeping_seen [OF seen_referrers]
  and keeping_summaries = keeping_seen [OF seen_summaries]
  and keeping_repository_detail = keeping_seen [OF seen_repository_detail]
  and keeping_tag_details = keeping_seen [OF seen_tag_details]
  and keeping_manifest_details = keeping_seen [OF seen_manifest_details]
  and keeping_manifest_detail = keeping_seen [OF seen_manifest_detail]
  and keeping_tag_history = keeping_seen [OF seen_tag_history]
  and keeping_pull_counts = keeping_seen [OF seen_pull_counts]
  and keeping_last_purge = keeping_seen [OF seen_last_purge]

end

section \<open>The sweeper and the flush of counts\<close>

context registry_env
begin

lemma thins_sweep_one: "thins holds (sweep_one G r)"
proof (rule thinsI)
  fix m t assume h: "holds m t"
  show "wp (sweep_one G r) (\<lambda>_ t'. \<exists>m'. holds m' t' \<and> thinner m m') (\<lambda>_ t'. \<exists>m'. holds m' t' \<and> thinner m m') t"
    by (rule wp_sweep_one [OF h]) (use thinner_repo_gone thinner_fewer_edges in blast)+
qed

lemma sweep_all_keeps:
  assumes ls: "keeping I (list_dead_repos G None SWEEP_BATCH)" and one: "\<And>r. keeping I (sweep_one G r)"
    and "sweep_all_from G n s = Some y" and "I s"
  shows "I (snd y)"
proof -
  have "g = G \<longrightarrow> I s \<longrightarrow> I (snd y)" if "sweep_all_from g n s = Some y" for g n s y
  proof (rule sweep_all_from.raw_induct [OF _ that], intro impI, goal_cases)
    case (1 again g n s y)
    have turn: "keeping I (for_a dead n (\<lambda>repo n. bind_a (sweep_one G (dx_id repo)) (\<lambda>_. return_a (n + 1))))" for dead n
      by (intro keeping_for keeping_bind one keeping_return)
    obtain r1 s1 where l: "list_dead_repos G None SWEEP_BATCH s = (r1, s1)" by fastforce
    with keeping_after [OF ls \<open>I s\<close>] have s1: "I s1" by simp
    show ?case
    proof (cases r1)
      case (Inl e)
      with 1 l s1 show ?thesis by auto
    next
      case (Inr dead)
      obtain r2 s2 where f: "for_a dead n (\<lambda>repo n. bind_a (sweep_one G (dx_id repo)) (\<lambda>_. return_a (n + 1))) s1 = (r2, s2)" by fastforce
      with keeping_after [OF turn s1, of dead n] have "I s2" by simp
      with 1 l s1 Inr show ?thesis by (cases r2) (auto simp: f [simplified] split: if_splits)
    qed
  qed
  with assms show ?thesis by blast
qed

lemma thins_sweep_dead: "thins holds (sweep_dead_repos G)"
  unfolding thins_def sweep_dead_repos_def loop_a_def
proof (intro allI keeping_run)
  fix n s assume i: "\<exists>m'. holds m' s \<and> thinner n m'"
  have ls: "keeping (\<lambda>t. \<exists>m'. holds m' t \<and> thinner n m') (list_dead_repos G None SWEEP_BATCH)"
    using thins_refines [OF refines_list_dead_repos] unfolding thins_def by blast
  have one: "keeping (\<lambda>t. \<exists>m'. holds m' t \<and> thinner n m') (sweep_one G r)" for r
    using thins_sweep_one unfolding thins_def by blast
  show "\<exists>m'. holds m' (snd (case sweep_all_from G 0 s of None \<Rightarrow> (Inl Diverged, s) | Some r \<Rightarrow> r)) \<and> thinner n m'"
    using i sweep_all_keeps [OF ls one _ i, of 0] by (auto split: option.split)
qed

lemma thins_counts:
  assumes "\<And>x. x \<in> set deltas \<Longrightarrow> countable (cd_subject x)"
  shows "thins holds (add_pull_counts G deltas)"
proof (rule thins_commits [OF commits_add_pull_counts [OF assms]])
  fix m s a m' assume h: "holds m s"
    and "(let b = concat (map (count_ops (rg_libs G) m) (fold_deltas deltas)) in Inr (length b, apply_ops b m)) = Inr (a, m')"
  then have m': "m' = apply_ops (concat (map (count_ops (rg_libs G) m) (fold_deltas deltas))) m" by (simp add: Let_def)
  show "thinner m m'"
    unfolding m' by (rule thinner_ranged [OF conjunct1 [OF count_ops_good [OF holdsD(4) [OF h] assms]]]) auto
qed auto

end

end
