(* ===== verification/Summ_Durable.thy ===== *)
theory Summ_Durable
  imports Summ_Reads
begin

text \<open>
  The properties of the blob store: a download is the window it names, and a blob that was committed survives a crash once
  the directories above it do. The last section shows that the second is needed, and how a store can be without it.
\<close>

section \<open>A store to evaluate on\<close>

text \<open>
  Checksums stand for the hash functions: their state is one byte, which is what makes them resumable. The disk holds an empty store with
  one upload staged.
\<close>

definition checksum :: "byte sha" where
  "checksum = \<lparr>sha_new = 0, sha_update = (\<lambda>h b. h + sum_list b), sha_finalize = (\<lambda>h. replicate 64 h),
     sha_serialize = (\<lambda>h. [h]), sha_deserialize = (\<lambda>b. Some (hd b)), sha_state_len = 1\<rparr>"

definition checksums :: "byte sha2" where
  "checksums = \<lparr>s256 = checksum, s512 = checksum\<rparr>"

lemma checksum_law: "sha_law checksum"
  by unfold_locales (simp_all add: checksum_def)

interpretation ck: hashing checksums
  by (simp add: hashing_def checksums_def checksum_law)

definition shelf_store :: blob_store where
  "shelf_store = \<lparr>st_root = [], st_read_chunk_size = 2\<rparr>"

definition shelf_disk :: disk where
  "shelf_disk =
     (let names = [[] \<mapsto> Directory, [BLOBS_DIR] \<mapsto> Directory, [UPLOADS_DIR] \<mapsto> Directory, [UPLOADS_DIR, ''a''] \<mapsto> File 0]
      in \<lparr>dk_names = names, dk_data = (\<lambda>i. if i = 0 then [1, 2, 3] else []), dk_kept = names, dk_flushed = (\<lambda>_. []),
          dk_fresh = 1, dk_verdicts = []\<rparr>)"

definition shelf_upload :: "byte upload" where
  "shelf_upload = upload_open ''a'' [UPLOADS_DIR, ''a''] AlgSha256 3 (hashed checksums AlgSha256 [1, 2, 3]) 0"

definition shelf_digest :: digest where
  "shelf_digest = content_digest checksums AlgSha256 [1, 2, 3]"

lemma shelf_names:
  "dk_names shelf_disk = [[] \<mapsto> Directory, [BLOBS_DIR] \<mapsto> Directory, [UPLOADS_DIR] \<mapsto> Directory, [UPLOADS_DIR, ''a''] \<mapsto> File 0]"
  by (simp add: shelf_disk_def Let_def)

lemma shelf_tree: "blob_tree shelf_store shelf_disk"
proof -
  note A = dirs_apart dirs_apart [symmetric]
  have "dk_names shelf_disk q \<noteq> Some (File i)" if "q \<in> set (chain [BLOBS_DIR] (fan_parts d))" for q i d
    using chain_longer [OF that] A by (auto simp: shelf_names)
  then show ?thesis
    using A by (auto simp: blob_tree_def shelf_store_def shelf_names blob_at_path_def blob_dir_def fan_parts_def)
qed

lemma shelf_env: "store_env False shelf_store shelf_disk"
proof -
  note A = dirs_apart dirs_apart [symmetric]
  have "disk_ok shelf_disk"
    unfolding disk_ok_def shelf_names
    using A by (auto simp: ancestors_def shelf_disk_def Let_def MAX_FILE_def less_Suc_eq split: if_splits)
  with shelf_tree show ?thesis by (simp add: store_env_def disk_env_def shelf_disk_def Let_def)
qed

lemma shelf_staged: "staged_as checksums shelf_store shelf_disk shelf_upload ''a'' [1, 2, 3]"
  by (simp add: staged_as_def shelf_upload_def upload_open_def shelf_store_def shelf_disk_def Let_def)

lemma shelf_durable: "dirs_durable D shelf_disk"
  by (simp add: dirs_durable_def shelf_disk_def Let_def)

section \<open>Downloads\<close>

text \<open>
  C32. A range of a blob resolves exactly when it names a byte of it, to the length of the window it names; and the stream of
  the window delivers that window, however reads are cut short or interrupted. A read that fails ends the stream after a part of the
  window, and needs a fault of the disk.
\<close>

theorem stream_exact:
  assumes "disk_env faulty k" and "opened_as B k b c" and "0 < st_read_chunk_size B"
  shows "case blob_resolve b r of
      None \<Rightarrow> window_bytes r c = None
    | Some w \<Rightarrow> \<exists>window. window_bytes r c = Some window \<and> unat (resolved_len w) = length window
        \<and> (case read_stream (stream_range b w) k of ((out, failed), k') \<Rightarrow>
             same_disk k k' \<and> prefix out window \<and> (if failed then faulty else out = window))"
proof (cases "blob_resolve b r")
  case None
  have "length c \<le> MAX_FILE" using disk_okD(5) [OF disk_env_ok [OF assms(1)], of "bf_file b"] assms(2) by (simp add: opened_as_def)
  from resolve_window [OF this, of r] None assms(2) show ?thesis by (simp add: blob_resolve_def opened_as_def)
next
  case (Some w)
  obtain out failed k' where run: "read_stream (stream_range b w) k = ((out, failed), k')" by (metis prod.exhaust)
  from read_window [OF assms Some run] show ?thesis by (auto simp: Some run)
qed

lemma stream_exact_witness:
  "\<exists>window. window_bytes (Suffix 2) [1, 2, 3] = Some window \<and> length window = 2
     \<and> (case read_stream (stream_range \<lparr>bf_file = 0, bf_size = 3, bf_chunk_size = 2\<rparr> \<lparr>rr_start = 1, rr_end = 2\<rparr>) shelf_disk of
          ((out, failed), k') \<Rightarrow> same_disk shelf_disk k' \<and> prefix out window \<and> (if failed then False else out = window))"
  using stream_exact [OF store_envD(1) [OF shelf_env], of shelf_store "\<lparr>bf_file = 0, bf_size = 3, bf_chunk_size = 2\<rparr>" "[1, 2, 3]" "Suffix 2"]
  by (simp add: opened_as_def shelf_disk_def shelf_store_def blob_resolve_def resolved_len_def sat_sub_def Let_def)

section \<open>Crashes\<close>

text \<open>
  C14. What was committed is durable: once \<open>commit_upload\<close> has returned, the blob is there with all its contents after any crash, provided
  that the directories that were on its path before were themselves durable.
\<close>

theorem commit_survives_crash:
  assumes "store_env faulty B k" and "staged_as L B k u i c" and "dirs_durable (blob_dirs B d) k"
    and "store_commit_upload L B u d k = (Inr n, k')" and "crashed k' rebooted" and "dk_names rebooted [] = Some Directory"
  shows "held B rebooted d = Some c"
proof -
  from wp_Inr [OF wp_commit_upload [OF assms(1,2)] assms(4)] assms(3)
  have m: "moved faulty B i d c k k'" and durable: "blob_durable B k' d" by blast+
  from m have "contents k' (blob_at_path (st_root B) d) = Some c" by (simp add: moved_def held_def fun_eq_iff)
  from crash_keeps [OF assms(5) this _ assms(6) blob_not_root] durable show ?thesis
    by (simp add: held_def blob_durable_def)
qed

text \<open>The worst crash: every name that was not synced is gone.\<close>

definition worst_crash :: "disk \<Rightarrow> disk" where
  "worst_crash k = k\<lparr>dk_names := (\<lambda>p. if p = [] then dk_names k [] else dk_kept k p)\<rparr>"

lemma worst_crashed: "crashed k (worst_crash k)"
  by (simp add: crashed_def worst_crash_def)

lemma commits_False:
  assumes "store_env False B k" and "staged_as L B k u i c" and "d = content_digest L (up_algorithm u) c"
  obtains n k' where "store_commit_upload L B u d k = (Inr n, k')" "moved False B i d c k k'"
proof (cases "store_commit_upload L B u d k")
  case (Pair r k')
  from wp_commit_upload [OF assms(1,2), of d] Pair assms(3) that show ?thesis by (cases r) (auto simp: wp_def)
qed

lemma shelf_commit:
  obtains n k' where "store_commit_upload checksums shelf_store shelf_upload shelf_digest shelf_disk = (Inr n, k')"
    "dk_names k' [] = Some Directory"
proof -
  obtain n k' where "store_commit_upload checksums shelf_store shelf_upload shelf_digest shelf_disk = (Inr n, k')"
    "moved False shelf_store ''a'' shelf_digest [1, 2, 3] shelf_disk k'"
    by (rule commits_False [OF shelf_env shelf_staged]) (simp_all add: shelf_digest_def shelf_upload_def upload_open_def)
  moreover from this(2) have "store_env False shelf_store k'" by (simp add: moved_def)
  ultimately show ?thesis using that disk_okD(1) [OF store_envD(2)] by blast
qed

lemma commit_survives_crash_witness:
  "\<exists>n k'. store_commit_upload checksums shelf_store shelf_upload shelf_digest shelf_disk = (Inr n, k')
     \<and> held shelf_store (worst_crash k') shelf_digest = Some [1, 2, 3]"
proof -
  obtain n k' where run: "store_commit_upload checksums shelf_store shelf_upload shelf_digest shelf_disk = (Inr n, k')"
    and root: "dk_names k' [] = Some Directory" by (rule shelf_commit)
  have "held shelf_store (worst_crash k') shelf_digest = Some [1, 2, 3]"
    by (rule commit_survives_crash [OF shelf_env shelf_staged shelf_durable run worst_crashed])
      (simp add: worst_crash_def root)
  with run show ?thesis by blast
qed

text \<open>Another writer has created the directory of the algorithm and has not synced it yet.\<close>

definition raced_disk :: disk where
  "raced_disk = snd (fs_create_dir [BLOBS_DIR, ''sha256''] shelf_disk)"

lemma commit_in_unsynced_lost:
  "case store_commit_upload checksums shelf_store shelf_upload shelf_digest raced_disk of (r, k') \<Rightarrow>
     r = Inr 3 \<and> held shelf_store k' shelf_digest = Some [1, 2, 3] \<and> held shelf_store (worst_crash k') shelf_digest = None"
  by code_simp

end
