(* ===== verification/Summ_Served.thy ===== *)
theory Summ_Served
  imports Summ_Observed Summ_Durable
begin

text \<open>
  What the backend promises its callers, over the model of \<open>summ-server/src/backend.rs\<close>: the properties that hold of metadata and
  bytes together, on engines and disks that may fail at any call, and the interpretation of its interface on a table, a shelf
  of files and a checksum.
\<close>

section \<open>Uploads in pieces\<close>

text \<open>A client that sends the pieces of a blob one after the other, each at the offset it was told.\<close>

fun append_all ::
    "('s, 'c, 'h, 'b) backend \<Rightarrow> string \<Rightarrow> string \<Rightarrow> u64 \<Rightarrow> 'b upload_body list \<Rightarrow> ('s, 'c, u64) served" where
  "append_all E name i off [] = return_a off"
| "append_all E name i off (b # bs) = bind_a (be_append_upload E name i off b) (\<lambda>off. append_all E name i off bs)"

definition sent :: "('s, 'c, 'h, 'b) backend \<Rightarrow> 'b upload_body list \<Rightarrow> bytes" where
  "sent E bs = concat (map (\<lambda>b. arrived (be_frames E (ub_body b))) bs)"

lemma sent_simps [simp]: "sent E [] = []" "sent E (b # bs) = arrived (be_frames E (ub_body b)) @ sent E bs"
  by (simp_all add: sent_def)

context backend_env
begin

lemma wp_append_all:
  assumes "good m s" and "open_session m s name i pre"
  shows "wp (append_all E name i (word_of_nat (length pre)) bs)
    (\<lambda>off s'. off = word_of_nat (length (pre @ sent E bs)) \<and> (\<exists>m'. good m' s' \<and> open_session m' s' name i (pre @ sent E bs)))
    (\<lambda>_ s'. \<exists>n m'. n < length bs \<and> good m' s' \<and> open_session m' s' name i (pre @ sent E (take n bs))
       \<and> (faulty \<or> may_fail \<or> declined faulty (bs ! n) (frames_of (bs ! n)) (pre @ sent E (take n bs)))) s"
  using assms
proof (induction bs arbitrary: m s pre)
  case Nil
  then show ?case by (auto simp: wp_return)
next
  case (Cons b bs)
  show ?case
    unfolding append_all.simps wp_bind
  proof (rule wp_weaken [OF wp_append [OF Cons.prems(1)]], goal_cases)
    case (2 e s')
    then have "good m s'" "open_session m s' name i pre" "faulty \<or> may_fail \<or> declined faulty b (frames_of b) pre"
      using Cons.prems(2) by (auto simp: harmless_def)
    then show ?case by (intro exI [of _ 0] exI [of _ m]) simp
  next
    case (1 off s')
    then obtain pre' where pre': "open_session m s name i pre'" "off = word_of_nat (length (pre' @ arrived (frames_of b)))"
      "appended name i pre' (arrived (frames_of b)) s s'" by blast
    have "pre' = pre" by (rule open_unique [OF Cons.prems pre'(1)])
    with pre' obtain m1 where m1: "good m1 s'" "open_session m1 s' name i (pre @ arrived (frames_of b))"
      and off: "off = word_of_nat (length (pre @ arrived (frames_of b)))" unfolding appended_def by blast
    show ?case unfolding off
    proof (rule wp_weaken [OF Cons.IH [OF m1]], goal_cases)
      case (1 off s'')
      then show ?case by simp
    next
      case (2 e s'')
      then obtain n m' where "n < length bs" "good m' s''" "open_session m' s'' name i (pre @ sent E (take (Suc n) (b # bs)))"
        "faulty \<or> may_fail \<or> declined faulty ((b # bs) ! Suc n) (frames_of ((b # bs) ! Suc n)) (pre @ sent E (take (Suc n) (b # bs)))"
        by auto
      then show ?case by (intro exI [of _ "Suc n"] exI [of _ m']) simp
    qed
  qed
qed

text \<open>A session whose file is missing or shorter than it records is refused, whatever is sent to it.\<close>

lemma session_refused:
  assumes g: "good m s" and x: "upload_at lib m u = Some x"
    and short: "\<And>c. staged_of s (format_upload_id u) = Some c \<Longrightarrow> length c < unat (us_offset x)"
  shows "\<exists>e. fst (be_append_upload E name (format_upload_id u) off b s) = Inl e"
    and "\<exists>e. fst (be_finish_upload E name (format_upload_id u) off b d s) = Inl e"
proof -
  let ?i = "format_upload_id u"
  note key = upload_id_parsed [of u]
  have refused: "wp (resume E ?i x) (\<lambda>_ _. False) (\<lambda>_ _. True) t" if t: "good m t" "bx_disk t = bx_disk s" for t
  proof (rule wp_weaken [OF wp_resume [OF t(1) key x]], goal_cases)
    case (1 v t')
    then obtain pre junk where *: "us_offset x = word_of_nat (length pre)" "staged_of s ?i = Some (pre @ junk)" by (auto simp: t(2))
    have "unat (word_of_nat (length pre) :: u64) \<le> length pre" by (simp add: unat_of_nat)
    with short [OF *(2)] *(1) show ?case by simp
  qed simp
  have live: "wp (live_session E name u off) (\<lambda>y t. y = x \<and> good m t \<and> bx_disk t = bx_disk s) (\<lambda>_ _. True) s"
    by (rule wp_weaken [OF wp_live_session [OF g key]]) (use x in auto)
  have no: "\<exists>e. fst (p s) = Inl e" if "wp p (\<lambda>_ _. False) (\<lambda>_ _. True) s" for p :: "('s, 'c, 'd) served"
    using that by (cases "p s"; cases "fst (p s)") (auto simp: wp_def)
  show "\<exists>e. fst (be_append_upload E name ?i off b s) = Inl e"
    unfolding be_append_upload_def session_key_def
    by (rule no, unfold wp_bind wp_of_result key map_err_def sum.case, rule wp_weaken [OF live])
      (auto intro!: wp_weaken [OF refused])
  show "\<exists>e. fst (be_finish_upload E name ?i off b d s) = Inl e"
    unfolding be_finish_upload_def session_key_def
    by (rule no, unfold wp_bind wp_of_result key map_err_def sum.case, rule wp_weaken [OF live])
      (auto intro!: wp_weaken [OF refused])
qed

lemma wp_offset:
  assumes g: "good m s" and o: "open_session m s name i pre"
  shows "wp (be_upload_offset E name i) (\<lambda>off _. off = word_of_nat (length pre)) (\<lambda>_ _. may_fail) s"
proof -
  obtain key x where x: "parse_upload_id i = Inr key" "upload_at lib m key = Some x" "id_of m name = Some (us_repo x)"
    "us_offset x = word_of_nat (length pre)" using o unfolding resumable_at_def by blast
  show ?thesis
    unfolding be_upload_offset_def session_in_def inline_def session_key_def wp_bind wp_of_result x(1) map_err_def sum.case
    by (rule wp_looked [OF refines_get_upload_in g])
      (use x in \<open>auto simp: wp_of_result wp_return ok_or_def engine_error_def\<close>)
qed

end

section \<open>Blobs in their places\<close>

text \<open>A session of an upload that has received \<open>pre\<close>.\<close>

definition in_progress ::
    "('s, 'c, 'h, 'b) backend \<Rightarrow> store \<Rightarrow> ('s, 'c) backend_state \<Rightarrow> string \<Rightarrow> string \<Rightarrow> bytes \<Rightarrow> bool" where
  "in_progress E m s name i pre = resumable_at (rg_libs (be_ops E)) m (staging (be_blobs E) (bx_disk s)) name i pre"

text \<open>A blob of a repository: its bytes are on the disk under their digest, the store has its record and its membership.\<close>

definition shelved ::
    "('s, 'c, 'h, 'b) backend \<Rightarrow> store \<Rightarrow> ('s, 'c) backend_state \<Rightarrow> string \<Rightarrow> digest \<Rightarrow> bytes \<Rightarrow> bool" where
  "shelved E m s name d c \<longleftrightarrow>
     content_digest (be_sha E) (algorithm_of d) c = d \<and> held (be_blobs E) (bx_disk s) d = Some c
     \<and> blob_at (rg_libs (be_ops E)) m d = Some \<lparr>br_size = word_of_nat (length c)\<rparr>
     \<and> (\<exists>r. id_of m name = Some r \<and> servable m r d)"

context backend_env
begin

lemma stored_shelved:
  assumes "stored_blob name d c b m s" and b: "b = [] \<or> (\<exists>u. b = [Delete (upload_key u)])"
  shows "\<exists>m'. good m' s \<and> shelved E m' s name d c \<and> (\<forall>u. b = [Delete (upload_key u)] \<longrightarrow> upload_at lib m' u = None)"
proof -
  obtain r m1 t where i: "interned m name r m1" and g: "good (apply_ops (commit_ops lib m1 r d (word_of_nat (length c)) t @ b) m1) s"
    and c: "content_digest (be_sha E) (algorithm_of d) c = d" "blobs_of s d = Some c"
    using assms(1) unfolding stored_blob_def by blast
  let ?m = "apply_ops (commit_ops lib m1 r d (word_of_nat (length c)) t @ b) m1"
  have "blob_at lib ?m d = Some \<lparr>br_size = word_of_nat (length c)\<rparr>"
    using b by (auto simp: commit_ops_def blob_at_def coders key_defs)
  moreover have "id_of ?m name = Some r"
    using b interned_id [OF i] by (auto simp: commit_ops_def id_of_def key_defs)
  moreover have "?m (repo_blob_key r d) \<noteq> None"
    using b by (auto simp: commit_ops_def key_defs)
  then have "servable ?m r d" by (simp add: servable_def)
  ultimately have "shelved E ?m s name d c" using c by (simp add: shelved_def)
  moreover have "upload_at lib ?m u = None" if "b = [Delete (upload_key u)]" for u
    using that by (simp add: upload_at_def)
  ultimately show ?thesis using g by blast
qed

lemma wp_get_shelved:
  assumes g: "good m s" and sh: "shelved E m s name d c"
  shows "wp (be_get_blob E name d window) (\<lambda>x s'. good m s' \<and> delivers faulty c window x)
    (\<lambda>_ s'. good m s' \<and> (faulty \<or> may_fail \<or> portion_of window c = None)) s"
  by (rule wp_weaken [OF wp_get_blob [OF g]]) (use sh in \<open>auto simp: shelved_def seen_def\<close>)

end

section \<open>Runs of the backend\<close>

text \<open>
  What can happen to the backend: the operations of the trait, in any order and with any outcome, the passes of purge and of the sweeper, and
  the flushes of pull counts. The names of repositories are strings, the ids of new uploads are written as the server writes them, and
  tags that were counted hold no null byte, all of which the handlers see to; a manifest that is pushed is not another one with the digest of a
  manifest that is stored.
\<close>

inductive backend_step ::
    "('s \<Rightarrow> store) \<Rightarrow> ('s, 'c, 'h, 'b) backend \<Rightarrow> ('s, 'c) backend_state \<Rightarrow> ('s, 'c) backend_state \<Rightarrow> bool"
  for tbl E where
  step_repositories: "backend_step tbl E s (snd (be_repositories E a n s))"
| step_tags: "backend_step tbl E s (snd (be_tags E name a n s))"
| step_stat_manifest: "backend_step tbl E s (snd (be_stat_manifest E name ref s))"
| step_get_manifest: "backend_step tbl E s (snd (be_get_manifest E name ref s))"
| step_stat_blob: "backend_step tbl E s (snd (be_stat_blob E name d s))"
| step_get_blob: "backend_step tbl E s (snd (be_get_blob E name d window s))"
| step_upload_offset: "backend_step tbl E s (snd (be_upload_offset E name i s))"
| step_referrers: "backend_step tbl E s (snd (be_referrers E name d wanted start_digest n s))"
| step_summaries: "backend_step tbl E s (snd (be_repository_summaries E query a n s))"
| step_repository_detail: "backend_step tbl E s (snd (be_repository_detail E name s))"
| step_tag_details: "backend_step tbl E s (snd (be_tag_details E name a n s))"
| step_manifest_details: "backend_step tbl E s (snd (be_manifest_details E name start_digest n s))"
| step_manifest_detail: "backend_step tbl E s (snd (be_manifest_detail E name ref s))"
| step_tag_history: "backend_step tbl E s (snd (be_tag_history E name ref before last_row n s))"
| step_pull_counts: "backend_step tbl E s (snd (be_pull_counts E name scope day days s))"
| step_last_purge: "backend_step tbl E s (snd (be_last_purge s))"
| step_delete_repository: "backend_step tbl E s (snd (be_delete_repository E name s))"
| step_delete_manifest: "backend_step tbl E s (snd (be_delete_manifest E name ref s))"
| step_delete_blob: "backend_step tbl E s (snd (be_delete_blob E name d s))"
| step_put_manifest: "is_str name \<Longrightarrow>
    same_content (rg_libs (be_ops E)) (digest_body (rg_libs (be_ops E)) body (as_digest (as_ops_reference ref))) body (tbl (rs_engine (bx_meta s))) \<Longrightarrow>
    backend_step tbl E s (snd (be_put_manifest E name ref media_type tags body s))"
| step_mount: "is_str name \<Longrightarrow> backend_step tbl E s (snd (be_mount_blob E name d source s))"
| step_put_blob: "is_str name \<Longrightarrow> backend_step tbl E s (snd (be_put_blob E name d b s))"
| step_create_upload: "is_str name \<Longrightarrow> (\<And>u. parse_upload_id i = Inr u \<Longrightarrow> i = format_upload_id u) \<Longrightarrow>
    backend_step tbl E s (snd (be_create_upload E name i algo s))"
| step_append_upload: "backend_step tbl E s (snd (be_append_upload E name i off b s))"
| step_finish_upload: "is_str name \<Longrightarrow> backend_step tbl E s (snd (be_finish_upload E name i off b d s))"
| step_cancel_upload: "backend_step tbl E s (snd (be_cancel_upload E name i s))"
| step_purge: "backend_step tbl E s (snd (be_purge_pass E dry_run s))"
| step_sweep: "backend_step tbl E s (s\<lparr>bx_meta := snd (sweep_dead_repos (be_ops E) (bx_meta s))\<rparr>)"
| step_counts: "(\<And>x. x \<in> set deltas \<Longrightarrow> countable (cd_subject x)) \<Longrightarrow>
    backend_step tbl E s (s\<lparr>bx_meta := snd (add_pull_counts (be_ops E) deltas (bx_meta s))\<rparr>)"

context purging_env
begin

lemma wp_after: "wp p (\<lambda>_. I) (\<lambda>_. I) s \<Longrightarrow> I (snd (p s))"
  by (cases "p s"; cases "fst (p s)") (auto simp: wp_def)

lemma thins_after: "thins holds (p :: ('s, 'c, 'a) op) \<Longrightarrow> alive s \<Longrightarrow> alive (s\<lparr>bx_meta := snd (p (bx_meta s))\<rparr>)"
  using keeping_after [OF keeping_thins, of p s "\<lambda>_ :: registry_error. Panicking :: unit halt"]
  by (simp add: meta_call_def split: prod.splits)

lemmas keeping_reads = keeping_repositories keeping_tags keeping_stat_manifest keeping_get_manifest keeping_stat_blob keeping_get_blob
  keeping_offset keeping_referrers keeping_summaries keeping_repository_detail keeping_tag_details keeping_manifest_details
  keeping_manifest_detail keeping_tag_history keeping_pull_counts keeping_last_purge

lemmas keeping_writes = keeping_delete_repository keeping_delete_manifest keeping_delete_blob keeping_append keeping_cancel_upload keeping_pass

lemma step_alive: "backend_step tbl E s s' \<Longrightarrow> alive s \<Longrightarrow> alive s'"
proof (induction rule: backend_step.induct)
  case (step_put_manifest name body ref s media_type tags)
  then obtain m where m: "good m s" by blast
  then have "tbl (rs_engine (bx_meta s)) = m" using holdsD(3) [OF goodD(1)] by blast
  with step_put_manifest m show ?case by (intro wp_after [OF wp_put_manifest]) simp_all
next
  case (step_create_upload name i s algo)
  then obtain m where m: "good m s" by blast
  show ?case by (rule wp_after, rule wp_weaken [OF wp_create [OF step_create_upload(1) m step_create_upload(2)]]) auto
next
  case (step_put_blob name s d b)
  then obtain m where m: "good m s" by blast
  show ?case by (rule wp_after, rule wp_weaken [OF wp_put_blob [OF step_put_blob(1) m]]) (auto simp: stored_blob_def)
next
  case (step_finish_upload name s i off b d)
  then show ?case by (intro keeping_after [OF keeping_finish])
next
  case (step_mount name s d source)
  then show ?case by (intro keeping_after [OF keeping_mount])
next
  case (step_sweep s)
  then show ?case by (intro thins_after [OF thins_sweep_dead])
next
  case (step_counts deltas s)
  then show ?case by (intro thins_after [OF thins_counts])
qed (rule keeping_after, (rule keeping_reads keeping_writes), assumption)+

lemma steps_alive: "(backend_step tbl E)\<^sup>*\<^sup>* s s' \<Longrightarrow> alive s \<Longrightarrow> alive s'"
  by (induction rule: rtranclp_induct) (auto intro: step_alive)

end

section \<open>A backend to evaluate on\<close>

definition shelf_backend :: "(table, list_caches, byte, (string + bytes) list) backend" where
  "shelf_backend = \<lparr>be_ops = demo_registry, be_blobs = shelf_store, be_purge = default_purge_config, be_sha = checksums,
     be_clock = word_of_nat, be_elapsed = (\<lambda>_. 0), be_uuid = (\<lambda>_. ''0''), be_frames = (\<lambda>b. b)\<rparr>"

interpretation bk: backend_env shelf_backend table_map "\<lambda>_. True" False
  "\<lambda>c. map_of (fst c)" "\<lambda>c. map_of (snd c)" False
  unfolding backend_env_def backend_env_axioms_def shelf_backend_def
  by (simp add: dr.registry_env_axioms ck.hashing_axioms) (simp add: demo_registry_def default_options_def shelf_store_def)

interpretation pk: purging_env shelf_backend table_map "\<lambda>_. True" False
  "\<lambda>c. map_of (fst c)" "\<lambda>c. map_of (snd c)" False
  by unfold_locales (simp add: shelf_backend_def demo_registry_def redb_confined)

lemma shelf_fields [simp]:
  "be_ops shelf_backend = demo_registry" "be_blobs shelf_backend = shelf_store" "be_sha shelf_backend = checksums"
  "be_frames shelf_backend b = b" "be_uuid shelf_backend n = ''0''"
  by (simp_all add: shelf_backend_def)

definition shelf_state :: "(table, list_caches) backend_state" where
  "shelf_state = \<lparr>bx_meta = demo_state, bx_disk = shelf_disk, bx_last_pass = None, bx_purge_mark = None, bx_reads = 0\<rparr>"

definition shelf_body :: "(string + bytes) list upload_body" where
  "shelf_body = \<lparr>ub_body = [Inr [1, 2], Inr [3]], ub_declared = Some 3, ub_limit = None\<rparr>"

lemma shelf_body_simps [simp]:
  "ub_body shelf_body = [Inr [1, 2], Inr [3]]" "ub_declared shelf_body = Some 3" "ub_limit shelf_body = None"
  by (simp_all add: shelf_body_def)

lemma shelf_taken [simp]: "\<not> declined False shelf_body [Inr [1, 2], Inr [3]] []"
  by (simp add: declined_def refused_def MAX_FILE_def)

lemma shelf_holds: "held shelf_store shelf_disk d = None" "staging shelf_store shelf_disk i = (if i = ''a'' then Some [1, 2, 3] else None)"
proof -
  note c = contents_ok [OF store_envD(2) [OF shelf_env]]
  have data: "dk_data shelf_disk 0 = [1, 2, 3]" by (simp add: shelf_disk_def Let_def)
  show "held shelf_store shelf_disk d = None"
    by (auto simp: held_def c shelf_names shelf_store_def blob_at_path_def blob_dir_def fan_parts_def split: option.split node.split)
  show "staging shelf_store shelf_disk i = (if i = ''a'' then Some [1, 2, 3] else None)"
    using data by (auto simp: staging_def c shelf_names shelf_store_def UPLOADS_DIR_def BLOBS_DIR_def split: option.split node.split)
qed

abbreviation "shelf_sound \<equiv> sound table_map (\<lambda>_. True) (\<lambda>c. map_of (fst c)) (\<lambda>c. map_of (snd c)) False shelf_backend"

lemma sound_shelf: "shelf_sound demo_store shelf_state"
proof -
  have "parse_upload_id ''a'' \<noteq> Inr u" for u
    using parse_slots.simps(2) [of 15 "[97]"] by (simp add: parse_upload_id_def as_bytes_def char_byte_def)
  moreover have "demo_store (blob_key d) = None" "demo_store (upload_key u) = None" for d u
    by (simp_all add: demo_store_def one_repo_def key_defs)
  ultimately have "stocked checksums (rg_libs demo_registry) demo_store (held shelf_store shelf_disk) (staging shelf_store shelf_disk)"
    by (auto simp: stocked_def shelf_holds blob_at_def upload_at_def)
  with at_store_demo shelf_env show ?thesis
    by (simp add: sound_def shelf_state_def)
qed

lemma shelf_digest_algorithm: "algorithm_of shelf_digest = AlgSha256" "content_digest checksums AlgSha256 [1, 2, 3] = shelf_digest"
  by (simp_all add: shelf_digest_def)

lemma shelf_pushable: "\<not> bk.push_fails demo_store ''a'' shelf_digest shelf_body"
  by (simp add: bk.push_fails_def ids_exhausted_def shelf_digest_algorithm)

text \<open>The blob is pushed.\<close>

lemma shelf_pushed:
  obtains s m where "shelf_sound m s" "shelved shelf_backend m s ''a'' shelf_digest [1, 2, 3]"
    "backend_step table_map shelf_backend shelf_state s"
proof -
  obtain res s where run: "be_put_blob shelf_backend ''a'' shelf_digest shelf_body shelf_state = (res, s)" by fastforce
  have "new_upload_id ''single-0'' = Inr ''single-0''" by (simp add: new_upload_id_def upload_id_char_def is_ascii_alphanumeric_def)
  with bk.wp_put_blob [OF is_str_a sound_shelf, of shelf_digest shelf_body] run shelf_pushable
  have "bk.stored_blob ''a'' shelf_digest [1, 2, 3] [] demo_store s"
    by (cases res) (auto simp: wp_def shelf_holds shelf_state_def)
  moreover have "backend_step table_map shelf_backend shelf_state s"
    using step_put_blob [OF is_str_a, of table_map shelf_backend shelf_state shelf_digest shelf_body] run by simp
  ultimately show thesis using bk.stored_shelved that by blast
qed

text \<open>The session is opened.\<close>

definition shelf_id :: string where
  "shelf_id = format_upload_id (arr16 [])"

lemma shelf_id_text: "shelf_id = ''00000000-0000-0000-0000-000000000000''"
proof -
  have "replicate 16 (0 :: byte) = [0, 0, 0, 0, 0, 0, 0, 0, 0, 0, 0, 0, 0, 0, 0, 0]" by (simp add: numeral_eq_Suc)
  then have "raw16 (arr16 []) = [0, 0, 0, 0, 0, 0, 0, 0, 0, 0, 0, 0, 0, 0, 0, 0]" by (simp add: raw16_def arr16_code)
  moreover have "hex_byte 0 = ''00''" by (simp add: hex_byte_def hex_digit_def)
  ultimately show ?thesis by (simp add: shelf_id_def format_upload_id_def)
qed

lemma shelf_opened:
  obtains s m where "shelf_sound m s" "in_progress shelf_backend m s ''a'' shelf_id []"
proof -
  obtain res s where run: "be_create_upload shelf_backend ''a'' shelf_id ''sha256'' shelf_state = (res, s)" by fastforce
  have i: "parse_upload_id shelf_id = Inr (arr16 [])" by (simp add: shelf_id_def upload_id_parsed)
  then have c: "parse_upload_id shelf_id = Inr u \<Longrightarrow> shelf_id = format_upload_id u" for u by (simp add: shelf_id_def)
  have f: "new_upload_id shelf_id = Inr shelf_id" "shelf_id \<noteq> ''a''"
    by (simp_all add: shelf_id_text new_upload_id_def upload_id_char_def is_ascii_alphanumeric_def)
  have a: "algorithm_from_name ''sha256'' = Inr AlgSha256" by (simp add: algorithm_from_name_def)
  from bk.wp_create [OF is_str_a sound_shelf c, of "''sha256''"] run i f a
  show thesis
    by (cases res) (auto simp: wp_def shelf_holds shelf_state_def ids_exhausted_def in_progress_def intro: that)
qed

section \<open>Properties\<close>

text \<open>
  C9. Downloads. Whatever \<open>get_blob\<close> delivers is the blob of that digest, or the window of it that was asked for, whole unless the disk
  fails on the way, and the digest is the hash of the blob; it is delivered exactly when the repository holds the blob, its bytes are there and the
  window lies inside it, but for failures of the engine or the disk. A download leaves metadata and bytes in agreement.
\<close>

theorem backend_serves_blobs:
  assumes env: "backend_env E tbl ok fails names ids" and sound: "sound tbl ok names ids faulty E m s"
    and run: "be_get_blob E name d window s = (res, s')"
  shows "sound tbl ok names ids faulty E m s' \<and> (case res of
      Inr x \<Rightarrow> \<exists>c. held (be_blobs E) (bx_disk s) d = Some c \<and> content_digest (be_sha E) (algorithm_of d) c = d
        \<and> delivers faulty c window x \<and> (\<exists>r. id_of m name = Some r \<and> servable m r d)
    | Inl e \<Rightarrow> faulty \<or> fails \<or> \<not> (\<exists>r. id_of m name = Some r \<and> servable m r d)
        \<or> (case held (be_blobs E) (bx_disk s) d of None \<Rightarrow> True | Some c \<Rightarrow> portion_of window c = None))"
  using backend_env.wp_get_blob [OF env sound, of name d window] run
  by (cases res) (auto simp: wp_def backend_env.seen_def [OF env])

theorem backend_serves_blobs_witness:
  "\<exists>s x s'. be_get_blob shelf_backend ''a'' shelf_digest (Some \<lparr>range_start = 1, range_end = 2\<rparr>) s = (Inr x, s') \<and> bd_body x = [2, 3]"
proof -
  obtain s m where s: "shelf_sound m s" "shelved shelf_backend m s ''a'' shelf_digest [1, 2, 3]"
    by (rule shelf_pushed)
  obtain res s' where run: "be_get_blob shelf_backend ''a'' shelf_digest (Some \<lparr>range_start = 1, range_end = 2\<rparr>) s = (res, s')"
    by fastforce
  from backend_serves_blobs [OF bk.backend_env_axioms s(1) run] s(2) show ?thesis
    using run by (cases res) (auto simp: shelved_def portion_of_def delivers_def)
qed

text \<open>
  C6. A push in one request. When \<open>put_blob\<close> succeeds, all frames of the body had arrived, and a download from the resulting
  state delivers exactly those bytes, or the window of them that is asked for; the digest is their hash. It fails only when the engine or
  the disk does, when the body breaks off, is longer than announced or allowed, when the bytes have another digest, when there are no ids left for a new
  repository, or when the name of its staging file is taken; then metadata and bytes still agree.
\<close>

theorem backend_push_pull:
  assumes env: "backend_env E tbl ok fails names ids" and sound: "sound tbl ok names ids faulty E m s"
    and name: "is_str name" and put: "be_put_blob E name d b s = (res, s1)" and get: "be_get_blob E name d window s1 = (out, s2)"
  defines "c \<equiv> arrived (be_frames E (ub_body b))" and "i \<equiv> ''single-'' @ be_uuid E (bx_reads s)"
  shows "(\<exists>m'. sound tbl ok names ids faulty E m' s1) \<and> (case res of
      Inr _ \<Rightarrow> whole (be_frames E (ub_body b)) \<and> content_digest (be_sha E) (algorithm_of d) c = d
        \<and> (case out of Inr x \<Rightarrow> delivers faulty c window x | Inl e \<Rightarrow> faulty \<or> fails \<or> portion_of window c = None)
    | Inl e \<Rightarrow> faulty \<or> fails \<or> ids_exhausted m name \<or> declined faulty b (be_frames E (ub_body b)) []
        \<or> content_digest (be_sha E) (algorithm_of d) c \<noteq> d \<or> staging (be_blobs E) (bx_disk s) i \<noteq> None \<or> new_upload_id i \<noteq> Inr i)"
proof (cases res)
  case (Inl e)
  with backend_env.wp_put_blob [OF env name sound, of d b] put show ?thesis
    by (auto simp: wp_def c_def i_def backend_env.push_fails_def [OF env])
next
  case (Inr x)
  with backend_env.wp_put_blob [OF env name sound, of d b] put
  have w: "whole (be_frames E (ub_body b))"
    and st: "backend_env.stored_blob E tbl ok names ids faulty name d c [] m s1" by (auto simp: wp_def c_def)
  from backend_env.stored_shelved [OF env st] obtain m' where m': "sound tbl ok names ids faulty E m' s1" "shelved E m' s1 name d c"
    by blast
  from backend_env.wp_get_shelved [OF env m', of window] get
  have "case out of Inr x \<Rightarrow> delivers faulty c window x | Inl e \<Rightarrow> faulty \<or> fails \<or> portion_of window c = None"
    by (cases out) (auto simp: wp_def)
  with Inr w m' show ?thesis by (auto simp: shelved_def)
qed

theorem backend_push_pull_witness:
  "\<exists>u s1 x s2. be_put_blob shelf_backend ''a'' shelf_digest shelf_body shelf_state = (Inr u, s1)
     \<and> be_get_blob shelf_backend ''a'' shelf_digest None s1 = (Inr x, s2) \<and> bd_body x = [1, 2, 3]"
proof -
  obtain res s1 where put: "be_put_blob shelf_backend ''a'' shelf_digest shelf_body shelf_state = (res, s1)" by fastforce
  obtain out s2 where get: "be_get_blob shelf_backend ''a'' shelf_digest None s1 = (out, s2)" by fastforce
  have "new_upload_id ''single-0'' = Inr ''single-0''" by (simp add: new_upload_id_def upload_id_char_def is_ascii_alphanumeric_def)
  with backend_push_pull [OF bk.backend_env_axioms sound_shelf is_str_a put get]
  show ?thesis
    using put get
    by (cases res; cases out) (auto simp: shelf_holds shelf_state_def ids_exhausted_def shelf_digest_algorithm portion_of_def delivers_def)
qed

text \<open>
  C7. An interrupted upload can be resumed. A client that sends the pieces of a blob one after the other from a session in progress ends, wherever
  it is interrupted, with a session that has received some number of whole pieces and nothing else: all of them when every append succeeded. The
  first append that fails has a reason, and the offset the server then reports is the length of what it has.
\<close>

theorem upload_resumable:
  assumes env: "backend_env E tbl ok fails names ids" and sound: "sound tbl ok names ids faulty E m s"
    and here: "in_progress E m s name i pre" and run: "append_all E name i (word_of_nat (length pre)) bs s = (res, s')"
  shows "\<exists>n m'. n \<le> length bs \<and> sound tbl ok names ids faulty E m' s' \<and> in_progress E m' s' name i (pre @ sent E (take n bs))
     \<and> (case res of
          Inr off \<Rightarrow> n = length bs \<and> off = word_of_nat (length (pre @ sent E bs))
        | Inl e \<Rightarrow> n < length bs \<and> (faulty \<or> fails
            \<or> declined faulty (bs ! n) (be_frames E (ub_body (bs ! n))) (pre @ sent E (take n bs))))
     \<and> (case fst (be_upload_offset E name i s') of
          Inr off \<Rightarrow> off = word_of_nat (length (pre @ sent E (take n bs))) | Inl e \<Rightarrow> fails)"
proof -
  have told: "case fst (be_upload_offset E name i s') of Inr off \<Rightarrow> off = word_of_nat (length c) | Inl e \<Rightarrow> fails"
    if "sound tbl ok names ids faulty E m' s'" "in_progress E m' s' name i c" for m' c
    using backend_env.wp_offset [OF env that [unfolded in_progress_def]]
    by (cases "be_upload_offset E name i s'"; cases "fst (be_upload_offset E name i s')") (auto simp: wp_def)
  note W = backend_env.wp_append_all [OF env sound here [unfolded in_progress_def], of bs, folded in_progress_def]
  show ?thesis
  proof (cases res)
    case (Inr off)
    with W run obtain m' where "off = word_of_nat (length (pre @ sent E bs))" "sound tbl ok names ids faulty E m' s'"
      "in_progress E m' s' name i (pre @ sent E bs)" by (auto simp: wp_def)
    with told Inr show ?thesis by (intro exI [of _ "length bs"] exI [of _ m']) simp
  next
    case (Inl e)
    with W run obtain n m' where "n < length bs" "sound tbl ok names ids faulty E m' s'"
      "in_progress E m' s' name i (pre @ sent E (take n bs))"
      "faulty \<or> fails \<or> declined faulty (bs ! n) (be_frames E (ub_body (bs ! n))) (pre @ sent E (take n bs))"
      by (auto simp: wp_def)
    with told Inl show ?thesis by (intro exI [of _ n] exI [of _ m']) simp
  qed
qed

theorem upload_resumable_witness:
  "\<exists>s s'. append_all shelf_backend ''a'' shelf_id 0 [shelf_body] s = (Inr 3, s')"
proof -
  obtain s m where s: "shelf_sound m s" "in_progress shelf_backend m s ''a'' shelf_id []" by (rule shelf_opened)
  obtain res s' where run: "append_all shelf_backend ''a'' shelf_id (word_of_nat (length ([] :: bytes))) [shelf_body] s = (res, s')"
    by fastforce
  from upload_resumable [OF bk.backend_env_axioms s run] have "res = Inr 3"
    by (cases res) auto
  with run show ?thesis by auto
qed

text \<open>
  C8. The end of an upload. When \<open>finish_upload\<close> succeeds, the session was in progress at the offset the client named, and what it had
  received together with the last piece is the blob of that digest, on the disk, in the store and in the repository; the session is gone. When it fails
  for another reason than a fault, the session is in progress as before, and the offset, the last piece or the digest was wrong.
\<close>

theorem upload_finished:
  assumes env: "backend_env E tbl ok fails names ids" and sound: "sound tbl ok names ids faulty E m s"
    and name: "is_str name" and run: "be_finish_upload E name i off b d s = (res, s')"
  defines "c \<equiv> arrived (be_frames E (ub_body b))"
  shows "case res of
      Inr _ \<Rightarrow> \<exists>pre key m'. in_progress E m s name i pre \<and> off = word_of_nat (length pre) \<and> whole (be_frames E (ub_body b))
        \<and> sound tbl ok names ids faulty E m' s' \<and> shelved E m' s' name d (pre @ c)
        \<and> parse_upload_id i = Inr key \<and> upload_at (rg_libs (be_ops E)) m' key = None
    | Inl e \<Rightarrow> (\<exists>m'. sound tbl ok names ids faulty E m' s')
        \<and> (\<forall>pre. in_progress E m s name i pre \<longrightarrow> faulty \<or> fails
             \<or> sound tbl ok names ids faulty E m s' \<and> in_progress E m s' name i pre
               \<and> (off \<noteq> word_of_nat (length pre) \<or> declined faulty b (be_frames E (ub_body b)) pre
                  \<or> content_digest (be_sha E) (algorithm_of d) (pre @ c) \<noteq> d))"
proof (cases res)
  case (Inl e)
  with backend_env.wp_finish [OF env name sound, of i off b d] run show ?thesis
    by (auto simp: wp_def c_def in_progress_def backend_env.unfinished_def [OF env])
next
  case (Inr x)
  with backend_env.wp_finish [OF env name sound, of i off b d] run
  obtain pre key where *: "in_progress E m s name i pre" "off = word_of_nat (length pre)" "whole (be_frames E (ub_body b))"
    "parse_upload_id i = Inr key"
    and st: "backend_env.stored_blob E tbl ok names ids faulty name d (pre @ c) [Delete (upload_key key)] m s'"
    by (auto simp: wp_def c_def in_progress_def)
  from backend_env.stored_shelved [OF env st] obtain m' where "sound tbl ok names ids faulty E m' s'" "shelved E m' s' name d (pre @ c)"
    "upload_at (rg_libs (be_ops E)) m' key = None" by blast
  with * Inr show ?thesis by auto
qed

theorem upload_finished_witness:
  "\<exists>s u s'. be_finish_upload shelf_backend ''a'' shelf_id 0 shelf_body shelf_digest s = (Inr u, s')
     \<and> held shelf_store (bx_disk s') shelf_digest = Some [1, 2, 3]"
proof -
  obtain s m where s: "shelf_sound m s" "in_progress shelf_backend m s ''a'' shelf_id []" by (rule shelf_opened)
  obtain res s' where run: "be_finish_upload shelf_backend ''a'' shelf_id 0 shelf_body shelf_digest s = (res, s')" by fastforce
  from upload_finished [OF bk.backend_env_axioms s(1) is_str_a run] s(2) show ?thesis
    using run bk.open_unique [OF s(1), of "''a''" shelf_id "[]"]
    by (cases res) (fastforce simp: shelved_def shelf_digest_algorithm in_progress_def)+
qed



text \<open>
  C10. A dry run of purge writes nothing: the store, the disk, the report of the last pass and the mark between passes are as they were, whatever the
  run reports and wherever it fails.
\<close>

theorem purge_dry_run:
  assumes env: "purging_env E tbl ok fails names ids" and sound: "sound tbl ok names ids faulty E m s"
    and run: "be_purge_pass E True s = (res, s')"
  shows "sound tbl ok names ids faulty E m s' \<and> tbl (rs_engine (bx_meta s')) = tbl (rs_engine (bx_meta s)) \<and> bx_disk s' = bx_disk s
    \<and> bx_last_pass s' = bx_last_pass s \<and> bx_purge_mark s' = bx_purge_mark s"
proof -
  have "purging_env.still E tbl ok names ids faulty m s s" by (simp add: purging_env.still_def [OF env] sound)
  from keeping_after [OF purging_env.still_pass [OF env] this] run
  have "sound tbl ok names ids faulty E m s' \<and> bx_disk s' = bx_disk s \<and> bx_last_pass s' = bx_last_pass s \<and> bx_purge_mark s' = bx_purge_mark s"
    by (simp add: purging_env.still_def [OF env])
  with sound show ?thesis by (simp add: sound_def at_store_def)
qed

theorem purge_dry_run_witness:
  "\<exists>res s'. be_purge_pass shelf_backend True shelf_state = (res, s') \<and> bx_disk s' = shelf_disk"
proof -
  obtain res s' where run: "be_purge_pass shelf_backend True shelf_state = (res, s')" by fastforce
  from purge_dry_run [OF pk.purging_env_axioms sound_shelf run] run show ?thesis by (simp add: shelf_state_def)
qed

end
