(* ===== verification/Summ_Guard.thy ===== *)
theory Summ_Guard
  imports Summ_Safety Summ_Served
begin

text \<open>
  What stands before the backend: a request whose method is no write, or that is not authorized, leaves what the backend stores as it was. The
  application (\<open>app.rs\<close>) is put on the backend (\<open>backend.rs\<close>) here; that its reads read only is the interface of
  \<open>Summ_Safety\<close>, which the backend keeps with everything but the log of its calls.
\<close>

section \<open>The backend behind the application\<close>

sublocale purging_env \<subseteq> guard: reading_seam "backend_registry E" "seen m s0" for m s0
  by unfold_locales
    (simp_all add: backend_registry_def keeping_after [OF seen_repositories] keeping_after [OF seen_tags]
      keeping_after [OF seen_stat_manifest] keeping_after [OF seen_get_manifest] keeping_after [OF seen_stat_blob]
      keeping_after [OF seen_get_blob] keeping_after [OF seen_offset] keeping_after [OF seen_referrers]
      keeping_after [OF seen_summaries] keeping_after [OF seen_repository_detail] keeping_after [OF seen_tag_details]
      keeping_after [OF seen_manifest_details] keeping_after [OF seen_manifest_detail] keeping_after [OF seen_tag_history]
      keeping_after [OF seen_pull_counts] keeping_after [OF seen_last_purge])

context purging_env
begin

lemma app_seen:
  assumes "seen m s0 (sv_store sv)"
    and "rq_method q \<notin> {PUT, POST, PATCH, DELETE}
      \<or> authorize (wb_to_str w) (cfg_auth config) (rq_method q) (map_of (rq_headers q) ''authorization'') \<noteq> Inr ()"
  shows "seen m s0 (sv_store (snd (app w ui (backend_registry E) config q sv)))"
  by (rule guard.app_reads [OF assms])

end

text \<open>
  C11. A request to the server changes what it stores only when its method is \<open>PUT\<close>, \<open>POST\<close>, \<open>PATCH\<close> or \<open>DELETE\<close> and its
  credential is authorized. Any other request, whatever its path, headers and body, and wherever the engine or the disk fails
  under it, leaves the metadata, the blobs, the staged uploads, the last report of purge and its mark as they were, and metadata and
  bytes in agreement. (It may add to the pull counts that are held in memory.)
\<close>

theorem only_writes_change:
  assumes env: "purging_env E tbl ok fails names ids" and sound: "sound tbl ok names ids faulty E m (sv_store sv)"
    and safe: "rq_method q \<notin> {PUT, POST, PATCH, DELETE}
      \<or> authorize (wb_to_str w) (cfg_auth config) (rq_method q) (map_of (rq_headers q) ''authorization'') \<noteq> Inr ()"
    and run: "app w ui (backend_registry E) config q sv = (res, sv')"
  shows "sound tbl ok names ids faulty E m (sv_store sv')
    \<and> tbl (rs_engine (bx_meta (sv_store sv'))) = tbl (rs_engine (bx_meta (sv_store sv)))
    \<and> held (be_blobs E) (bx_disk (sv_store sv')) = held (be_blobs E) (bx_disk (sv_store sv))
    \<and> staging (be_blobs E) (bx_disk (sv_store sv')) = staging (be_blobs E) (bx_disk (sv_store sv))
    \<and> bx_last_pass (sv_store sv') = bx_last_pass (sv_store sv) \<and> bx_purge_mark (sv_store sv') = bx_purge_mark (sv_store sv)"
proof -
  note seen_def = backend_env.seen_def [OF purging_env.axioms(1) [OF env]]
  have "backend_env.seen E tbl ok names ids faulty m (sv_store sv) (sv_store sv)" using sound by (simp add: seen_def)
  from purging_env.app_seen [OF env this safe, of ui] run sound show ?thesis
    by (auto simp: seen_def sound_def at_store_def)
qed

text \<open>A deletion without a credential.\<close>

definition anonymous_delete :: "((string + bytes) list, string) request" where
  "anonymous_delete = \<lparr>rq_method = DELETE, rq_path = ''/v2/a/manifests/v1'', rq_query = [], rq_headers = [], rq_body = [],
     rq_now = 0, rq_fresh = ''f''\<rparr>"

theorem only_writes_change_witness:
  "\<forall>w ui k. \<exists>res sv'. app w ui (backend_registry shelf_backend) (default_server_config\<lparr>cfg_auth := PublicPull k\<rparr>) anonymous_delete
       \<lparr>sv_store = shelf_state, sv_pulls = new_counters\<rparr> = (res, sv')
     \<and> table_map (rs_engine (bx_meta (sv_store sv'))) = demo_store \<and> staging shelf_store (bx_disk (sv_store sv')) ''a'' = Some [1, 2, 3]"
proof (intro allI)
  fix w ui k
  let ?config = "default_server_config\<lparr>cfg_auth := PublicPull k\<rparr>" and ?sv = "\<lparr>sv_store = shelf_state, sv_pulls = new_counters\<rparr>"
  obtain res sv' where run: "app w ui (backend_registry shelf_backend) ?config anonymous_delete ?sv = (res, sv')" by fastforce
  have sound: "shelf_sound demo_store (sv_store ?sv)" using sound_shelf by simp
  have "authorize (wb_to_str w) (cfg_auth ?config) (rq_method anonymous_delete) (map_of (rq_headers anonymous_delete) ''authorization'') \<noteq> Inr ()"
    by (simp add: anonymous_delete_def authorize_def authorize_with_def access_of_def)
  from only_writes_change [OF pk.purging_env_axioms sound disjI2 [OF this] run] run
  show "\<exists>res sv'. app w ui (backend_registry shelf_backend) ?config anonymous_delete ?sv = (res, sv')
      \<and> table_map (rs_engine (bx_meta (sv_store sv'))) = demo_store \<and> staging shelf_store (bx_disk (sv_store sv')) ''a'' = Some [1, 2, 3]"
    using sound_shelf by (auto simp: shelf_holds shelf_state_def sound_def at_store_def)
qed

end
