(* ===== verification/Spec2Isabelle.thy ===== *)
theory Spec2Isabelle
  imports Summ_Runs Summ_Guard
begin

text \<open>
  A verification of summ, an OCI registry in Rust.

  The program is a stack of crates. \<open>summ-core\<close> has digests, the key schema and the record types; \<open>summ-meta\<close> an
  ordered key-value engine (\<open>MetadataEngine\<close>) with two implementations, on redb and on RocksDB, the interner of
  repository names and the check of the schema version; \<open>summ-registry\<close> the operations of the registry, each of which reads through
  the engine and commits one batch of writes; \<open>summ-server\<close> the HTTP layer above. All state is in the engine: the ranges of keys
  by their first byte hold the repositories, manifests and their bodies, tags, the edges between manifests, blobs and
  repositories, tag history, counters, upload sessions and the marks of purge.

  \<^bold>\<open>Theories\<close>, in the order of their imports.
  \<^item> \<open>Summ_Prelude\<close>: machine words, big-endian encodings, UTF-8, \<open>Result\<close> as a sum, panics as values, operations as state
    transformers, and the collections of facts the other theories add to.
  \<^item> \<open>Summ_Digest\<close>, \<open>Summ_Types\<close>, \<open>Summ_Keys\<close>: \<open>summ-core/src\<close>. Every key builder of \<open>keys.rs\<close> with its
    readers; the main fact is that the ranges are prefix-free and injective.
  \<^item> \<open>Summ_Extractor\<close>, \<open>Summ_Engine\<close>, \<open>Summ_Redb\<close>, \<open>Summ_Rocks\<close>: \<open>summ-meta/src/engine.rs\<close> as a locale over the operations
    of the trait, and both engines, which refine one abstract store: a finite map and ordered, bounded scans of it.
  \<^item> \<open>Summ_Interner\<close>, \<open>Summ_Version\<close>: \<open>interner.rs\<close> and \<open>version.rs\<close>.
  \<^item> \<open>Summ_Reference\<close>, \<open>Summ_Codec\<close>, \<open>Summ_Manifest\<close>: errors, references, artifact tags, key suffixes, the record
    codec and the reading of manifests (\<open>error.rs\<close>, \<open>reference.rs\<close>, \<open>cosign.rs\<close>, \<open>suffix.rs\<close>,
    \<open>codec.rs\<close>, \<open>manifest.rs\<close>).
  \<^item> \<open>Summ_Registry\<close>, \<open>Summ_Tags\<close>, \<open>Summ_Push\<close>: the registry as a record of an engine and its libraries, reads, blob
    commits, tags and manifest pushes (\<open>registry.rs\<close>, \<open>tags.rs\<close>).
  \<^item> \<open>Summ_Delete\<close>, \<open>Summ_Sweep\<close>, \<open>Summ_Purge\<close>: deletion of manifests and repositories, the sweeper that finishes a dropped
    repository, and the passes of purge (\<open>delete.rs\<close>, \<open>purge.rs\<close>, the loops of \<open>backend.rs\<close>).
  \<^item> \<open>Summ_Uploads\<close>, \<open>Summ_Discovery\<close>, \<open>Summ_History\<close>, \<open>Summ_Counters\<close>: upload sessions, referrers and listings, tag
    history and the stored pull counts (\<open>uploads.rs\<close>, \<open>referrers.rs\<close>, \<open>discovery.rs\<close>, \<open>history.rs\<close>,
    \<open>counters.rs\<close>).
  \<^item> \<open>Summ_Text\<close>: what the server uses of Rust's text functions.
  \<^item> \<open>Summ_Query\<close>, \<open>Summ_Range\<close>, \<open>Summ_Names\<close>, \<open>Summ_Http\<close>, \<open>Summ_Auth\<close>, \<open>Summ_Config\<close>, \<open>Summ_Route\<close>: the pure part of
    \<open>summ-server/src\<close>: \<open>query.rs\<close>, \<open>range.rs\<close>, \<open>reference.rs\<close>, \<open>error.rs\<close> with the failures
    of \<open>seam.rs\<close> and their translation in \<open>handlers/mod.rs\<close>, \<open>auth.rs\<close>, \<open>config.rs\<close>,
    \<open>pagination.rs\<close> and the routes of \<open>app.rs\<close>.
  \<^item> \<open>Summ_Pulls\<close>: the accumulator of pull counts, \<open>summ-server/src/counters.rs\<close>.
  \<^item> \<open>Summ_Btree\<close>, \<open>Summ_Seam\<close>, \<open>Summ_Memory\<close>: the ordered maps of Rust, the trait between the handlers and a registry as a
    record of operations (\<open>seam.rs\<close>), and the registry in memory that implements it (\<open>memory.rs\<close>).
  \<^item> \<open>Summ_Serve\<close>, \<open>Summ_Handlers\<close>, \<open>Summ_Api\<close>, \<open>Summ_App\<close>: the handlers, over any registry: uploads; blobs, manifests,
    tags, catalog and referrers; the discovery interface; routing and authentication in front of them (\<open>handlers/\<close>,
    \<open>app.rs\<close>).
  \<^item> \<open>Summ_Safety\<close>, \<open>Summ_Session\<close>, \<open>Summ_Contents\<close>, \<open>Summ_Runs\<close>: what the handlers and the registry in memory do
    together. Each states what it needs of a registry as a locale (\<open>reading_seam\<close>, \<open>seam_contract\<close>, \<open>quiet_purge\<close>, \<open>upload_seam\<close>,
    \<open>invariant_seam\<close>), proves its lemmas there, and interprets it on the model of \<open>memory.rs\<close>.
  \<^item> \<open>Summ_Disk\<close>: the file system as \<open>summ-storage\<close> uses it, names and contents apart from what has been synced of them, with a
    list of verdicts that says which calls fail. \<open>Summ_Storage\<close>, \<open>Summ_Stream\<close>: the blob store, its uploads and its streams
    (\<open>summ-storage/src\<close>). \<open>Summ_Staging\<close>, \<open>Summ_Reads\<close>: what every operation on the disk does and leaves behind when it fails;
    \<open>Summ_Durable\<close>: what a crash leaves.
  \<^item> \<open>Summ_Backend\<close>, \<open>Summ_Views\<close>, \<open>Summ_Passes\<close>: \<open>summ-server/src/backend.rs\<close>, the registry that joins metadata and bytes: distribution,
    discovery, and the purge pass.
  \<^item> \<open>Summ_Stock\<close>, \<open>Summ_Kept\<close>, \<open>Summ_Bodies\<close>, \<open>Summ_Sound\<close>, \<open>Summ_Arrivals\<close>, \<open>Summ_Chunked\<close>, \<open>Summ_Reclaim\<close>, \<open>Summ_Observed\<close>: the
    invariant that ties the records to the bytes, and that every operation of the backend keeps it: reads and deletions, pushes and mounts,
    uploads in chunks, the purge pass, the discovery interface, the sweeper and the flush of counts. The locale \<open>backend_env\<close> has what they need of the layers below,
    \<open>purging_env\<close> adds that a page of a scan stays inside its prefix, which both engines do. \<open>Summ_Served\<close> has runs of the backend as a
    relation of steps, interprets the locales on a table, a disk and a checksum, and draws the conclusions. \<open>Summ_Guard\<close> puts the application of
    \<open>app.rs\<close> before the backend: \<open>purging_env\<close> gives the contract \<open>reading_seam\<close> of the handlers, that reads change nothing that is stored.

  \<^bold>\<open>How the code is translated.\<close> A struct is a record, an enum a datatype, integers are words of their width; lengths and counts of type
  \<open>usize\<close> are natural numbers. A \<open>&self\<close> method that reads or writes the store is an operation on the state of the engine that
  returns a sum. A panic, where one is possible, is a value. An operation that plans a batch and applies it is modelled as its plan and its
  commit, so that what a failed operation leaves behind is visible. Loops over pages are recursions whose termination is proved, or carry
  fuel; the fuel is the number of keys plus one, and the theorems on them show that it suffices for any state.

  \<^bold>\<open>What is shown.\<close> For the engines: refinement of the abstract store. For each operation of the registry: its result and its batch as a
  function of the abstract store, on the success path and on each error. The store after a push is written out key by key (\<open>pushed\<close> in
  \<open>Summ_Push\<close>), and for a deletion or a move of a tag every kind of key that it touches, with all the others unchanged; from these the properties that span operations, as that what
  was pushed is served as it was pushed, that blobs are authorised per repository, that deletion leaves no edge behind, that
  the sweeper finishes and purge never takes what is referenced. For the HTTP layer: that the hand-written grammars are the
  documented ones, that what it prints it parses back, that paths route to endpoints with valid names (and, outside \<open>/api/v1\<close>, references that are not empty), and that a request
  passes exactly when policy and key allow it. For the accumulator: that no increment is lost without being reported, under any interleaving. For requests to the
  registry in memory (\<open>memory.rs\<close>, which the tests of the server use): that only an authorised write that is answered below 400 changes anything,
  that a blob sent in any pieces is
  stored whole, that a piece out of order changes nothing, that what was pushed is pulled and what was deleted is gone, with the history and nothing
  else besides, and that in every reachable state all
  contents are stored under their hash and every tag points to a manifest. For the blob store: that a stream delivers exactly the window
  asked for, that a commit moves bytes of the right hash or nothing, and that a committed blob survives a crash. For the backend, for which
  every call of the engine and of the disk may fail: that after any run every blob record has its bytes, the bytes those of
  their digest, and every upload session agrees with its file or, where a failure has left the file missing or short, is refused every further step;
  that a request that is no write, or is not authorised, changes nothing of what is stored; that what was pushed, at once or in pieces with interruptions, is
  what is downloaded; that an upload that broke off goes on from a piece that was received whole; and that a dry run of purge writes nothing.

  \<^bold>\<open>Parameters.\<close> Code outside the repository is an argument of the definitions that use it: the codecs of \<open>postcard\<close>, \<open>zstd\<close>
  and \<open>serde_json\<close> (with the hypothesis that decoding inverts encoding), the hash functions, the transactions of redb and RocksDB (as ordered
  maps that may fail), the clock, generated identifiers, and header values of the \<open>http\<close> crate. The record \<open>web\<close> holds those of the handlers, the
  record \<open>mem_libs\<close> those of the registry in memory.

  The backend adds the clock, the elapsed time, the identifiers of \<open>uuid\<close> and the frames of a request body as functions, and the hash states of
  the crate \<open>sha2\<close>, whose law the locales \<open>sha_law\<close> and \<open>hashing\<close> state.

  \<^bold>\<open>Not modelled.\<close> The tasks and locks of tokio, in place of which operations are steps that do not interleave within a call; the opening of
  the backend; the router of axum itself; the command line and the start of the server; the assets of the web interface.
\<close>

end
